(* ===== verification/Prelude.thy ===== *)
theory Prelude
  imports Main "HOL-Library.Word" "HOL-Library.While_Combinator"
begin

unbundle bit_operations_syntax

text \<open>
  The shared layer of the development: the outcome of a C function that returns
  \<open>bool\<close> and works through pointers, the commands built from it, loops, and the
  contract \<open>keeps\<close> by which the components state what their operations preserve.

  A C function \<open>bool f(stream, ...)\<close> is a command: from a state it either returns
  true with a result (\<open>Ret\<close>), returns false (\<open>Fail\<close>, which keeps the state the
  function left behind, since the callers read its error message), or does not return at
  all (\<open>Stuck\<close>: an endless loop, or a recursion deeper than the depth it was given).
\<close>

section \<open>Types shared by all components\<close>

type_synonym byte = "8 word"
type_synonym u32 = "32 word"
type_synonym u64 = "64 word"

named_theorems cmd_simps "evaluation rules of the command combinators"
named_theorems keeps_intros "rules that show that a command keeps a relation"
named_theorems gives_intros "rules for a relation kept together with a property of the result"
named_theorems answers_intros "rules that show that a command returns"

section \<open>Seven bits and a flag\<close>

named_theorems byte_bits "the masks of base-128 numbers as bit operations"

lemma and_7F [byte_bits]: "(x :: 'a::len word) AND 0x7F = take_bit 7 x"
  by (simp add: take_bit_eq_mask mask_eq_exp_minus_1)

lemma and_80 [byte_bits]: "(b :: byte) AND 0x80 = 0 \<longleftrightarrow> \<not> bit b 7"
  using and_exp_eq_0_iff_not_bit [of b 7] by simp

lemma or_80 [byte_bits]: "(b :: byte) OR 0x80 = set_bit 7 b"
  by (simp add: set_bit_eq_or push_bit_eq_mult)

lemma unat_u64_less: "unat (w :: u64) < 2 ^ 64"
  by (rule order_less_le_trans [OF unsigned_less]) simp

lemma unat_u32_less: "unat (w :: u32) < 2 ^ 32"
  by (rule order_less_le_trans [OF unsigned_less]) simp

lemma unat_drop7: "unat (drop_bit 7 (v :: u64)) = unat v div 128"
  by (simp add: unat_div drop_bit_eq_div)

lemma drop7_zero: "drop_bit 7 (v :: u64) = 0 \<longleftrightarrow> v \<le> 0x7F"
proof -
  have "drop_bit 7 v = 0 \<longleftrightarrow> unat v div 128 = 0"
    by (metis unat_drop7 unat_eq_zero)
  also have "\<dots> \<longleftrightarrow> v \<le> 0x7F" by (auto simp: word_le_nat_alt)
  finally show ?thesis .
qed

lemma unat_drop7_less: "v \<noteq> 0 \<Longrightarrow> unat (drop_bit 7 (v :: u64)) < unat v"
  unfolding unat_drop7 by (simp add: unat_gt_0)

section \<open>Outcomes and commands\<close>

datatype ('s, 'a) outcome = Ret 'a 's | Fail 's | Stuck

type_synonym ('s, 'a) cmd = "'s \<Rightarrow> ('s, 'a) outcome"

text \<open>
  \<open>return true\<close> and \<open>return false\<close>: an outcome constructor short of its state is a
  command.
\<close>

abbreviation returnC :: "'a \<Rightarrow> ('s, 'a) cmd" where
  "returnC \<equiv> Ret"

abbreviation failC :: "('s, 'a) cmd" where
  "failC \<equiv> Fail"

definition stuckC :: "('s, 'a) cmd" where
  "stuckC = (\<lambda>s. Stuck)"

definition bindC :: "('s, 'a) cmd \<Rightarrow> ('a \<Rightarrow> ('s, 'b) cmd) \<Rightarrow> ('s, 'b) cmd" where
  "bindC f g = (\<lambda>s. case f s of Ret a s' \<Rightarrow> g a s' | Fail s' \<Rightarrow> Fail s' | Stuck \<Rightarrow> Stuck)"

text \<open>\<open>status = f(...)\<close>: the caller looks at the boolean itself.\<close>

definition attemptC :: "('s, 'a) cmd \<Rightarrow> ('s, bool) cmd" where
  "attemptC f = (\<lambda>s. case f s of Ret a s' \<Rightarrow> Ret True s' | Fail s' \<Rightarrow> Ret False s' | Stuck \<Rightarrow> Stuck)"

definition getC :: "('s \<Rightarrow> 'a) \<Rightarrow> ('s, 'a) cmd" where
  "getC f = (\<lambda>s. Ret (f s) s)"

definition modifyC :: "('s \<Rightarrow> 's) \<Rightarrow> ('s, unit) cmd" where
  "modifyC f = (\<lambda>s. Ret () (f s))"

text \<open>\<open>return status;\<close> where the status was computed before.\<close>

definition statusC :: "bool \<Rightarrow> ('s, unit) cmd" where
  "statusC b = (if b then returnC () else failC)"

text \<open>
  \<open>while (cond) body\<close>, over local variables \<open>'x\<close> and the state. It is \<open>Stuck\<close>
  exactly when the loop never leaves or its body does not return.
\<close>

fun loop_guard :: "('x \<Rightarrow> 's \<Rightarrow> bool) \<Rightarrow> ('s, 'x) outcome \<Rightarrow> bool" where
  "loop_guard c (Ret x s) = c x s"
| "loop_guard c (Fail s) = False"
| "loop_guard c Stuck = False"

fun loop_body :: "('x \<Rightarrow> ('s, 'x) cmd) \<Rightarrow> ('s, 'x) outcome \<Rightarrow> ('s, 'x) outcome" where
  "loop_body f (Ret x s) = f x s"
| "loop_body f (Fail s) = Fail s"
| "loop_body f Stuck = Stuck"

definition loopC :: "('x \<Rightarrow> 's \<Rightarrow> bool) \<Rightarrow> ('x \<Rightarrow> ('s, 'x) cmd) \<Rightarrow> 'x \<Rightarrow> ('s, 'x) cmd" where
  "loopC c f x s =
     (case while_option (loop_guard c) (loop_body f) (Ret x s) of
        None \<Rightarrow> Stuck | Some r \<Rightarrow> r)"

text \<open>\<open>for (i = 0; i < n; i++) body\<close>, with the pointers that advance in the body.\<close>

primrec timesC :: "nat \<Rightarrow> ('x \<Rightarrow> ('s, 'x) cmd) \<Rightarrow> 'x \<Rightarrow> ('s, 'x) cmd" where
  "timesC 0 f x = returnC x"
| "timesC (Suc n) f x = bindC (f x) (timesC n f)"

lemma bindC_simps [cmd_simps]:
  "f s = Ret a s' \<Longrightarrow> bindC f g s = g a s'"
  "f s = Fail s' \<Longrightarrow> bindC f g s = Fail s'"
  "f s = Stuck \<Longrightarrow> bindC f g s = Stuck"
  by (simp_all add: bindC_def)

lemma return_simps [simp]:
  "stuckC s = Stuck" "getC f s = Ret (f s) s" "modifyC h s = Ret () (h s)"
  by (simp_all add: stuckC_def getC_def modifyC_def)

lemma bindC_returnC [simp]: "bindC (returnC v) g = g v"
  by (simp add: bindC_def fun_eq_iff)

lemma bindC_getC [simp]: "bindC (getC f) g s = g (f s) s"
  by (simp add: bindC_def)

lemma bindC_modifyC [simp]: "bindC (modifyC f) g s = g () (f s)"
  by (simp add: bindC_def)

lemma bindC_assoc: "bindC (bindC f g) h = bindC f (\<lambda>x. bindC (g x) h)"
  by (auto simp: bindC_def fun_eq_iff split: outcome.splits)

lemma bindC_eq_Ret:
  "bindC f g s = Ret b t \<longleftrightarrow> (\<exists>a s'. f s = Ret a s' \<and> g a s' = Ret b t)"
  by (auto simp: bindC_def split: outcome.splits)

lemma bindC_eq_Stuck:
  "bindC f g s = Stuck \<longleftrightarrow> f s = Stuck \<or> (\<exists>a s'. f s = Ret a s' \<and> g a s' = Stuck)"
  by (auto simp: bindC_def split: outcome.splits)

lemma bindC_cong [fundef_cong]:
  assumes "f s = f' s'" and "\<And>a t. f' s' = Ret a t \<Longrightarrow> g a t = g' a t" and "s = s'"
  shows "bindC f g s = bindC f' g' s'"
  using assms by (auto simp: bindC_def split: outcome.splits)

lemma loopC_unfold:
  "loopC c f x s = (if c x s then bindC (f x) (loopC c f) s else Ret x s)"
proof (cases "c x s")
  case True
  have fin: "while_option (loop_guard c) (loop_body f) r = Some r" if "\<not> loop_guard c r" for r
    using that by (subst while_option_unfold) simp
  show ?thesis
    using True fin
    by (cases "f x s") (simp_all add: loopC_def bindC_def while_option_unfold [of _ _ "Ret x s"])
next
  case False
  then show ?thesis by (simp add: loopC_def while_option_unfold [of _ _ "Ret x s"])
qed

section \<open>What a command preserves\<close>

text \<open>
  \<open>keeps R f\<close>: whenever \<open>f\<close> comes back, with true or with false, the state it leaves
  is related by \<open>R\<close> to the state it started from. The rules below push the contract
  through the combinators, so that a component proves it once per primitive.
\<close>

definition keeps :: "('s \<Rightarrow> 's \<Rightarrow> bool) \<Rightarrow> ('s, 'a) cmd \<Rightarrow> bool" where
  "keeps R f \<longleftrightarrow> (\<forall>s. case f s of Ret a s' \<Rightarrow> R s s' | Fail s' \<Rightarrow> R s s' | Stuck \<Rightarrow> True)"

lemma keepsI:
  assumes "\<And>s a s'. f s = Ret a s' \<Longrightarrow> R s s'" and "\<And>s s'. f s = Fail s' \<Longrightarrow> R s s'"
  shows "keeps R f"
  using assms by (auto simp: keeps_def split: outcome.splits)

lemma keeps_Ret: "keeps R f \<Longrightarrow> f s = Ret a s' \<Longrightarrow> R s s'"
  by (auto simp: keeps_def dest: spec [of _ s])

lemma keeps_Fail: "keeps R f \<Longrightarrow> f s = Fail s' \<Longrightarrow> R s s'"
  by (auto simp: keeps_def dest: spec [of _ s])

lemma keeps_return [keeps_intros]:
  "reflp R \<Longrightarrow> keeps R (returnC v)" "reflp R \<Longrightarrow> keeps R failC" "keeps R stuckC"
  "reflp R \<Longrightarrow> keeps R (getC g)" "reflp R \<Longrightarrow> keeps R (statusC b)"
  by (auto simp: keeps_def statusC_def reflp_def)

lemma keeps_modify: "(\<And>s. R s (h s)) \<Longrightarrow> keeps R (modifyC h)"
  by (simp add: keeps_def)

lemma keeps_bind [keeps_intros]:
  assumes "transp R" and "keeps R f" and "\<And>a. keeps R (g a)"
  shows "keeps R (bindC f g)"
  unfolding keeps_def
proof
  fix s
  show "case bindC f g s of Ret b t \<Rightarrow> R s t | Fail t \<Rightarrow> R s t | Stuck \<Rightarrow> True"
  proof (cases "f s")
    case (Ret a s')
    then have "R s s'" using assms(2) by (rule keeps_Ret [rotated])
    with Ret assms(1,3) show ?thesis
      by (auto simp: bindC_def split: outcome.splits
          dest: keeps_Ret [of R "g a"] keeps_Fail [of R "g a"] elim: transpE)
  next
    case (Fail s')
    then show ?thesis using assms(2) by (auto simp: bindC_def dest: keeps_Fail)
  next
    case Stuck
    then show ?thesis by (simp add: bindC_def)
  qed
qed

lemma keeps_attempt [keeps_intros]: "keeps R f \<Longrightarrow> keeps R (attemptC f)"
  by (auto simp: keeps_def attemptC_def dest: spec split: outcome.splits)

lemma keeps_if [keeps_intros]:
  "(b \<Longrightarrow> keeps R f) \<Longrightarrow> (\<not> b \<Longrightarrow> keeps R g) \<Longrightarrow> keeps R (if b then f else g)"
  by simp

lemma keeps_times [keeps_intros]:
  assumes "reflp R" and "transp R" and "\<And>x. keeps R (f x)"
  shows "keeps R (timesC n f x)"
proof (induction n arbitrary: x)
  case 0
  then show ?case using assms by (simp add: keeps_intros)
next
  case (Suc n)
  then show ?case using assms by (simp add: keeps_intros)
qed

lemma keeps_loop [keeps_intros]:
  assumes "reflp R" and "transp R" and "\<And>x. keeps R (f x)"
  shows "keeps R (loopC c f x)"
proof -
  let ?P = "\<lambda>s r. case r of Ret a s' \<Rightarrow> R s s' | Fail s' \<Rightarrow> R s s' | Stuck \<Rightarrow> True"
  have step: "?P s (loop_body f r)" if "?P s r" for s and r :: "('a, 'b) outcome"
  proof (cases r)
    case (Ret y t)
    with that have "R s t" by simp
    with Ret assms(2,3) show ?thesis
      by (auto split: outcome.splits dest: keeps_Ret [of R "f y"] keeps_Fail [of R "f y"]
          elim: transpE)
  qed (use that in auto)
  have "?P s t" if w: "while_option (loop_guard c) (loop_body f) (Ret x s) = Some t" for s t
    by (rule while_option_rule [where P = "?P s", OF _ w])
      (use step assms(1) in \<open>auto simp: reflp_def\<close>)
  then show ?thesis
    unfolding keeps_def loopC_def by (auto split: option.splits)
qed

lemma keeps_cases [keeps_intros]:
  "(\<And>a b. p = (a, b) \<Longrightarrow> keeps R (f a b)) \<Longrightarrow> keeps R (case p of (a, b) \<Rightarrow> f a b)"
  "(ov = None \<Longrightarrow> keeps R g) \<Longrightarrow> (\<And>a. ov = Some a \<Longrightarrow> keeps R (h a)) \<Longrightarrow>
    keeps R (case ov of None \<Rightarrow> g | Some a \<Rightarrow> h a)"
  by (auto split: prod.split option.split)

section \<open>What a command returns\<close>

text \<open>
  \<open>gives R P f\<close>: \<open>f\<close> keeps \<open>R\<close>, and its result has the property \<open>P\<close>. The loop
  rule carries an invariant of the loop's local variables.
\<close>

definition gives :: "('s \<Rightarrow> 's \<Rightarrow> bool) \<Rightarrow> ('a \<Rightarrow> bool) \<Rightarrow> ('s, 'a) cmd \<Rightarrow> bool" where
  "gives R P f \<longleftrightarrow>
     (\<forall>s. case f s of Ret a s' \<Rightarrow> R s s' \<and> P a | Fail s' \<Rightarrow> R s s' | Stuck \<Rightarrow> True)"

lemma givesI:
  assumes "\<And>s a s'. f s = Ret a s' \<Longrightarrow> R s s' \<and> P a" and "\<And>s s'. f s = Fail s' \<Longrightarrow> R s s'"
  shows "gives R P f"
  using assms by (auto simp: gives_def split: outcome.splits)

lemma gives_Ret: "gives R P f \<Longrightarrow> f s = Ret a s' \<Longrightarrow> R s s' \<and> P a"
  by (auto simp: gives_def dest: spec [of _ s])

lemma gives_Fail: "gives R P f \<Longrightarrow> f s = Fail s' \<Longrightarrow> R s s'"
  by (auto simp: gives_def dest: spec [of _ s])

lemma gives_keeps: "gives R P f \<Longrightarrow> keeps R f"
  by (rule keepsI) (auto dest: gives_Ret gives_Fail)

lemma keeps_gives: "keeps R f \<Longrightarrow> gives R (\<lambda>a. True) f"
  by (rule givesI) (auto dest: keeps_Ret keeps_Fail)

lemma gives_weaken: "gives R P f \<Longrightarrow> (\<And>a. P a \<Longrightarrow> Q a) \<Longrightarrow> gives R Q f"
  by (rule givesI) (auto dest: gives_Ret gives_Fail)

lemma gives_return [gives_intros]:
  "reflp R \<Longrightarrow> P v \<Longrightarrow> gives R P (returnC v)" "reflp R \<Longrightarrow> gives R P failC" "gives R P stuckC"
  by (auto simp: gives_def reflp_def)

lemma gives_bind:
  assumes "transp R" and "gives R P f" and "\<And>a. P a \<Longrightarrow> gives R Q (g a)"
  shows "gives R Q (bindC f g)"
proof (rule givesI)
  fix s b t
  assume "bindC f g s = Ret b t"
  then obtain a s' where "f s = Ret a s'" "g a s' = Ret b t" by (auto simp: bindC_eq_Ret)
  then show "R s t \<and> Q b"
    using assms by (metis gives_Ret transpE)
next
  fix s t
  assume "bindC f g s = Fail t"
  then consider "f s = Fail t" | a s' where "f s = Ret a s'" "g a s' = Fail t"
    by (auto simp: bindC_def split: outcome.splits)
  then show "R s t"
    using assms by cases (metis gives_Fail, metis gives_Ret gives_Fail transpE)
qed

lemma gives_bind_keeps:
  "transp R \<Longrightarrow> keeps R f \<Longrightarrow> (\<And>a. gives R Q (g a)) \<Longrightarrow> gives R Q (bindC f g)"
  by (rule gives_bind) (auto intro: keeps_gives)

lemma gives_if [gives_intros]:
  "(b \<Longrightarrow> gives R P f) \<Longrightarrow> (\<not> b \<Longrightarrow> gives R P g) \<Longrightarrow> gives R P (if b then f else g)"
  by simp

lemma gives_cases [gives_intros]:
  "(\<And>a b. p = (a, b) \<Longrightarrow> gives R P (f a b)) \<Longrightarrow> gives R P (case p of (a, b) \<Rightarrow> f a b)"
  by (auto split: prod.split)

lemma gives_loop:
  assumes "reflp R" and "transp R" and "I x" and "\<And>x. I x \<Longrightarrow> gives R I (f x)"
  shows "gives R I (loopC c f x)"
proof -
  let ?P = "\<lambda>s r. case r of Ret a s' \<Rightarrow> R s s' \<and> I a | Fail s' \<Rightarrow> R s s' | Stuck \<Rightarrow> True"
  have step: "?P s (loop_body f r)" if "?P s r" for s and r :: "('a, 'b) outcome"
  proof (cases r)
    case (Ret y t)
    with that have "R s t" "I y" by simp_all
    then show ?thesis
      using Ret assms(2) gives_Ret [OF assms(4), of y t] gives_Fail [OF assms(4), of y t]
      by (auto split: outcome.splits elim: transpE)
  qed (use that in auto)
  have "?P s t" if w: "while_option (loop_guard c) (loop_body f) (Ret x s) = Some t" for s t
    by (rule while_option_rule [where P = "?P s", OF _ w])
      (use step assms(1,3) in \<open>auto simp: reflp_def\<close>)
  then show ?thesis
    unfolding gives_def loopC_def by (auto split: option.splits)
qed

section \<open>Commands that return\<close>

text \<open>\<open>answers P f\<close>: from every state \<open>f\<close> comes back, and its result has the property
  \<open>P\<close>.\<close>

definition answers :: "('a \<Rightarrow> bool) \<Rightarrow> ('s, 'a) cmd \<Rightarrow> bool" where
  "answers P f \<longleftrightarrow> (\<forall>s. case f s of Ret a s' \<Rightarrow> P a | Fail s' \<Rightarrow> True | Stuck \<Rightarrow> False)"

lemma answers_not_Stuck: "answers P f \<Longrightarrow> f s \<noteq> Stuck"
  by (auto simp: answers_def dest: spec [of _ s])

lemma answers_Ret: "answers P f \<Longrightarrow> f s = Ret a s' \<Longrightarrow> P a"
  by (auto simp: answers_def dest: spec [of _ s])

lemma answersI:
  "(\<And>s. f s \<noteq> Stuck) \<Longrightarrow> (\<And>s a s'. f s = Ret a s' \<Longrightarrow> P a) \<Longrightarrow> answers P f"
  by (auto simp: answers_def split: outcome.split)

lemma answers_weaken: "answers P f \<Longrightarrow> (\<And>a. P a \<Longrightarrow> Q a) \<Longrightarrow> answers Q f"
  by (rule answersI) (auto dest: answers_not_Stuck answers_Ret)

lemma answers_return [answers_intros]:
  "P v \<Longrightarrow> answers P (returnC v)" "answers P failC"
  by (simp_all add: answers_def)

lemma answers_basic [answers_intros]:
  "answers (\<lambda>a. True) (getC h)" "P () \<Longrightarrow> answers P (statusC b)" "P () \<Longrightarrow> answers P (modifyC k)"
  by (auto simp: answers_def statusC_def)

declare TrueI [answers_intros]

lemma answers_bind:
  "answers P f \<Longrightarrow> (\<And>a. P a \<Longrightarrow> answers Q (g a)) \<Longrightarrow> answers Q (bindC f g)"
  by (rule answersI) (auto simp: bindC_eq_Stuck bindC_eq_Ret dest: answers_not_Stuck answers_Ret)

lemma answers_bind_any [answers_intros]:
  "answers (\<lambda>a. True) f \<Longrightarrow> (\<And>a. answers Q (g a)) \<Longrightarrow> answers Q (bindC f g)"
  by (rule answers_bind)

lemma answers_attempt [answers_intros]: "answers (\<lambda>a. True) f \<Longrightarrow> answers (\<lambda>a. True) (attemptC f)"
  by (auto simp: answers_def attemptC_def split: outcome.splits)

lemma answers_if [answers_intros]:
  "(b \<Longrightarrow> answers P f) \<Longrightarrow> (\<not> b \<Longrightarrow> answers P g) \<Longrightarrow> answers P (if b then f else g)"
  by simp

lemma answers_cases [answers_intros]:
  "(\<And>a b. p = (a, b) \<Longrightarrow> answers P (f a b)) \<Longrightarrow> answers P (case p of (a, b) \<Rightarrow> f a b)"
  by (auto split: prod.split)

lemma answers_times [answers_intros]:
  "(\<And>x. answers (\<lambda>a. True) (f x)) \<Longrightarrow> answers (\<lambda>a. True) (timesC n f x)"
proof (induction n arbitrary: x)
  case 0
  then show ?case by (simp add: answers_return)
next
  case (Suc n)
  show ?case
    unfolding timesC.simps by (rule answers_bind_any) (use Suc in auto)
qed

lemma answers_loop:
  assumes "I x" and "\<And>x. I x \<Longrightarrow> answers I (f x)"
    and "\<And>x s a t. I x \<Longrightarrow> c x s \<Longrightarrow> f x s = Ret a t \<Longrightarrow> (m a t :: nat) < m x s"
  shows "answers I (loopC c f x)"
proof -
  have "case loopC c f x s of Ret a s' \<Rightarrow> I a | Fail s' \<Rightarrow> True | Stuck \<Rightarrow> False" for s
    using assms(1)
  proof (induction "m x s" arbitrary: x s rule: less_induct)
    case less
    show ?case
    proof (cases "c x s")
      case True
      show ?thesis
      proof (cases "f x s")
        case (Ret a t)
        then have "I a" using assms(2) [OF less(2)] by (auto dest: answers_Ret)
        then show ?thesis
          using less(1) [OF assms(3) [OF less(2) True Ret]] True Ret
          by (subst loopC_unfold) (simp add: bindC_def)
      next
        case (Fail t)
        then show ?thesis using True by (subst loopC_unfold) (simp add: bindC_def)
      next
        case Stuck
        then show ?thesis using assms(2) [OF less(2)] by (auto dest: answers_not_Stuck)
      qed
    next
      case False
      then show ?thesis using less(2) by (subst loopC_unfold) simp
    qed
  qed
  then show ?thesis by (simp add: answers_def)
qed

section \<open>Induction over a loop that returned\<close>

lemma loopC_Ret_induct [consumes 1, case_names stop step]:
  assumes "loopC c f x s = Ret y t"
    and stop: "\<And>x s. \<not> c x s \<Longrightarrow> P x s x s"
    and step: "\<And>x s x' s' y t. c x s \<Longrightarrow> f x s = Ret x' s' \<Longrightarrow> loopC c f x' s' = Ret y t \<Longrightarrow>
      P x' s' y t \<Longrightarrow> P x s y t"
  shows "P x s y t"
proof -
  have w: "while_option (loop_guard c) (loop_body f) (Ret x s) = Some (Ret y t)"
    using assms(1) by (simp add: loopC_def split: option.splits)
  then obtain k where k: "(loop_body f ^^ k) (Ret x s) = Ret y t"
    using while_option_stop2 [OF w] by metis
  have "\<not> c y t" using while_option_stop [OF w] by simp
  have "loopC c f x s = Ret y t \<Longrightarrow> (loop_body f ^^ k) (Ret x s) = Ret y t \<Longrightarrow> P x s y t" for x s
  proof (induction k arbitrary: x s)
    case 0
    then show ?case using \<open>\<not> c y t\<close> stop by simp
  next
    case (Suc k)
    show ?case
    proof (cases "c x s")
      case True
      then obtain x' s' where f: "f x s = Ret x' s'" and l: "loopC c f x' s' = Ret y t"
        using Suc.prems(1) by (subst (asm) loopC_unfold) (auto simp: bindC_eq_Ret)
      moreover have "(loop_body f ^^ k) (Ret x' s') = Ret y t"
        using Suc.prems(2) f by (simp add: funpow_Suc_right del: funpow.simps)
      ultimately show ?thesis using step [OF True f l] Suc.IH by blast
    next
      case False
      then have "y = x \<and> t = s" using Suc.prems(1) by (subst (asm) loopC_unfold) auto
      then show ?thesis using stop False by simp
    qed
  qed
  then show ?thesis using assms(1) k by blast
qed

end
