(* ===== verification/CMemory.thy ===== *)
theory CMemory
  imports Prelude
begin

text \<open>
  The memory the C code works on: a byte for every address, the blocks that
  \<open>realloc\<close> handed out, and the stack pointer of the locals whose address is taken.
  Addresses are integers; 0 is NULL, objects of the program and of the heap lie above it,
  stack slots below it. Multi-byte objects are little-endian, as on the iOS targets.
  The standard library's \<open>memset\<close>, \<open>memcpy\<close>, \<open>realloc\<close> and \<open>free\<close>
  (the latter two behind \<open>pb_realloc\<close> and \<open>pb_free\<close> of \<open>pb.h\<close>) are operations on it.
\<close>

type_synonym addr = int

record cmem =
  mbytes :: "addr \<Rightarrow> byte"
  mblocks :: "(addr \<times> nat) list"
  mbrk :: addr
  mlimit :: addr
  msp :: addr

section \<open>Little-endian words\<close>

primrec le_bytes :: "nat \<Rightarrow> 'a::len word \<Rightarrow> byte list" where
  "le_bytes 0 w = []"
| "le_bytes (Suc n) w = ucast w # le_bytes n (drop_bit 8 w)"

primrec le_word :: "byte list \<Rightarrow> 'a::len word" where
  "le_word [] = 0"
| "le_word (b # bs) = ucast b OR push_bit 8 (le_word bs)"

lemma length_le_bytes [simp]: "length (le_bytes n w) = n"
  by (induction n arbitrary: w) auto

lemma le_word_le_bytes_take:
  "le_word (le_bytes n w) = take_bit (8 * n) (w :: 'a::len word)"
proof (induction n arbitrary: w)
  case 0
  then show ?case by simp
next
  case (Suc n)
  have "ucast (ucast w :: byte) OR push_bit 8 (take_bit (8 * n) (drop_bit 8 w))
    = take_bit (8 * Suc n) w"
    by (rule bit_word_eqI) (auto simp: bit_simps)
  then show ?case using Suc.IH [of "drop_bit 8 w"] by simp
qed

lemma le_word_le_bytes:
  "LENGTH('a) \<le> 8 * n \<Longrightarrow> le_word (le_bytes n w) = (w :: 'a::len word)"
  by (simp only: le_word_le_bytes_take) (rule bit_word_eqI, auto simp: bit_simps)

lemma le_bytes_le_word:
  "8 * length bs \<le> LENGTH('a) \<Longrightarrow> le_bytes (length bs) (le_word bs :: 'a::len word) = bs"
proof (induction bs)
  case Nil
  then show ?case by simp
next
  case (Cons b bs)
  let ?w = "ucast b OR push_bit 8 (le_word bs) :: 'a word"
  have "ucast ?w = b"
    using Cons.prems by (intro bit_word_eqI) (auto simp: bit_simps)
  moreover have "drop_bit 8 ?w = take_bit (LENGTH('a) - 8) (le_word bs)"
    by (rule bit_word_eqI) (auto simp: bit_simps dest: bit_imp_le_length)
  moreover have "take_bit (LENGTH('a) - 8) (le_word bs :: 'a word) = le_word bs"
  proof -
    have b: "bit (le_word xs :: 'a word) i \<Longrightarrow> i < 8 * length xs" for xs i
      by (induction xs arbitrary: i) (fastforce simp: bit_simps dest: bit_imp_le_length)+
    show ?thesis
      using Cons.prems by (intro bit_word_eqI) (auto simp: bit_simps dest: b [of bs])
  qed
  ultimately show ?case using Cons by simp
qed

section \<open>Loads and stores\<close>

definition load_bytes :: "cmem \<Rightarrow> addr \<Rightarrow> nat \<Rightarrow> byte list" where
  "load_bytes m a n = map (\<lambda>i. mbytes m (a + int i)) [0..<n]"

primrec store_bytes :: "addr \<Rightarrow> byte list \<Rightarrow> cmem \<Rightarrow> cmem" where
  "store_bytes a [] m = m"
| "store_bytes a (b # bs) m = store_bytes (a + 1) bs (m\<lparr>mbytes := (mbytes m)(a := b)\<rparr>)"

definition load8 :: "cmem \<Rightarrow> addr \<Rightarrow> byte" where
  "load8 m a = mbytes m a"

definition load16 :: "cmem \<Rightarrow> addr \<Rightarrow> 16 word" where
  "load16 m a = le_word (load_bytes m a 2)"

definition load32 :: "cmem \<Rightarrow> addr \<Rightarrow> u32" where
  "load32 m a = le_word (load_bytes m a 4)"

definition load64 :: "cmem \<Rightarrow> addr \<Rightarrow> u64" where
  "load64 m a = le_word (load_bytes m a 8)"

definition load_ptr :: "cmem \<Rightarrow> addr \<Rightarrow> addr" where
  "load_ptr m a = uint (load64 m a)"

definition store8 :: "addr \<Rightarrow> byte \<Rightarrow> cmem \<Rightarrow> cmem" where
  "store8 a w = store_bytes a [w]"

definition store16 :: "addr \<Rightarrow> 16 word \<Rightarrow> cmem \<Rightarrow> cmem" where
  "store16 a w = store_bytes a (le_bytes 2 w)"

definition store32 :: "addr \<Rightarrow> u32 \<Rightarrow> cmem \<Rightarrow> cmem" where
  "store32 a w = store_bytes a (le_bytes 4 w)"

definition store64 :: "addr \<Rightarrow> u64 \<Rightarrow> cmem \<Rightarrow> cmem" where
  "store64 a w = store_bytes a (le_bytes 8 w)"

definition store_ptr :: "addr \<Rightarrow> addr \<Rightarrow> cmem \<Rightarrow> cmem" where
  "store_ptr a p = store64 a (word_of_int p)"

definition c_memset :: "addr \<Rightarrow> byte \<Rightarrow> nat \<Rightarrow> cmem \<Rightarrow> cmem" where
  "c_memset a b n = store_bytes a (replicate n b)"

named_theorems store_defs "the typed stores as byte stores"
declare store8_def [store_defs] store16_def [store_defs] store32_def [store_defs]
  store64_def [store_defs] store_ptr_def [store_defs] c_memset_def [store_defs]

lemma length_load_bytes [simp]: "length (load_bytes m a n) = n"
  by (simp add: load_bytes_def)

lemma load_bytes_0 [simp]: "load_bytes m a 0 = []"
  by (simp add: load_bytes_def)

lemma load_bytes_Suc: "load_bytes m a (Suc n) = mbytes m a # load_bytes m (a + 1) n"
  by (simp add: load_bytes_def map_upt_Suc algebra_simps del: upt_Suc)

lemma load_bytes_nth [simp]: "i < n \<Longrightarrow> load_bytes m a n ! i = mbytes m (a + int i)"
  by (simp add: load_bytes_def)

lemma load_bytes_append: "load_bytes m a (j + k) = load_bytes m a j @ load_bytes m (a + int j) k"
  by (rule nth_equalityI) (auto simp: nth_append)

text \<open>The byte found at an address after a store: the stored one inside the range, the old one
  outside.\<close>

lemma mbytes_store_bytes:
  "mbytes (store_bytes a bs m) x =
     (if a \<le> x \<and> x < a + int (length bs) then bs ! nat (x - a) else mbytes m x)"
proof (induction bs arbitrary: a m)
  case Nil
  then show ?case by auto
next
  case (Cons b bs)
  have n: "nat (x - a) = Suc (nat (x - (a + 1)))" if "a + 1 \<le> x"
    using that by linarith
  show ?case
    unfolding store_bytes.simps Cons.IH
    by (cases "x = a") (auto simp: n)
qed

lemma store_bytes_rest [simp]:
  "mblocks (store_bytes a bs m) = mblocks m" "mbrk (store_bytes a bs m) = mbrk m"
  "mlimit (store_bytes a bs m) = mlimit m" "msp (store_bytes a bs m) = msp m"
  by (induction bs arbitrary: a m) auto

text \<open>Two address ranges that do not overlap.\<close>

definition apart :: "addr \<Rightarrow> nat \<Rightarrow> addr \<Rightarrow> nat \<Rightarrow> bool" where
  "apart a n b k \<longleftrightarrow> a + int n \<le> b \<or> b + int k \<le> a"

lemma apart_sym: "apart a n b k = apart b k a n"
  by (auto simp: apart_def)

lemma load_store_apart:
  "apart a n b (length bs) \<Longrightarrow> load_bytes (store_bytes b bs m) a n = load_bytes m a n"
  by (rule nth_equalityI) (auto simp: mbytes_store_bytes apart_def)

lemma load_store_same:
  "n = length bs \<Longrightarrow> load_bytes (store_bytes a bs m) a n = bs"
  by (rule nth_equalityI) (auto simp: mbytes_store_bytes)

lemma load_store_typed [simp]:
  "load8 (store8 a b m) a = b"
  "load16 (store16 a w16 m) a = w16"
  "load32 (store32 a w32 m) a = w32"
  "load64 (store64 a w64 m) a = w64"
  by (simp_all add: load8_def load16_def load32_def load64_def store_defs mbytes_store_bytes
      load_store_same le_word_le_bytes)

lemma load_ptr_store_ptr [simp]:
  "0 \<le> p \<Longrightarrow> p < 2 ^ 64 \<Longrightarrow> load_ptr (store_ptr a p m) a = p"
  unfolding load_ptr_def store_ptr_def by (simp add: unsigned_of_int take_bit_int_eq_self)

lemma load_typed_apart:
  "apart a 2 b (length bs) \<Longrightarrow> load16 (store_bytes b bs m) a = load16 m a"
  "apart a 4 b (length bs) \<Longrightarrow> load32 (store_bytes b bs m) a = load32 m a"
  "apart a 8 b (length bs) \<Longrightarrow> load64 (store_bytes b bs m) a = load64 m a"
  "apart a 8 b (length bs) \<Longrightarrow> load_ptr (store_bytes b bs m) a = load_ptr m a"
  by (simp_all add: load16_def load32_def load64_def load_ptr_def load_store_apart)

text \<open>What changed between two memories lies inside a range.\<close>

definition same_outside :: "addr \<Rightarrow> addr \<Rightarrow> cmem \<Rightarrow> cmem \<Rightarrow> bool" where
  "same_outside lo hi m m' \<longleftrightarrow> (\<forall>x. x < lo \<or> hi \<le> x \<longrightarrow> mbytes m' x = mbytes m x)"

lemma same_outside_refl [simp]: "same_outside lo hi m m"
  by (simp add: same_outside_def)

lemma same_outside_trans:
  "same_outside lo hi m m' \<Longrightarrow> same_outside lo hi m' m'' \<Longrightarrow> same_outside lo hi m m''"
  by (simp add: same_outside_def)

lemma same_outside_store:
  "lo \<le> a \<Longrightarrow> a + int (length bs) \<le> hi \<Longrightarrow> same_outside lo hi m (store_bytes a bs m)"
  by (auto simp: same_outside_def mbytes_store_bytes)

section \<open>The heap\<close>

text \<open>
  \<open>realloc\<close> hands out a fresh block above every earlier one, or NULL when the limit is
  reached; it copies the bytes both blocks have, and gives the old block up.
  \<open>realloc(NULL, n)\<close> is \<open>malloc(n)\<close>; \<open>free(NULL)\<close> does nothing.
\<close>

definition block_size :: "cmem \<Rightarrow> addr \<Rightarrow> nat" where
  "block_size m p = (case map_of (mblocks m) p of Some k \<Rightarrow> k | None \<Rightarrow> 0)"

definition c_free :: "addr \<Rightarrow> cmem \<Rightarrow> cmem" where
  "c_free p m = (if p = 0 then m else m\<lparr>mblocks := filter (\<lambda>(a, k). a \<noteq> p) (mblocks m)\<rparr>)"

definition c_realloc :: "addr \<Rightarrow> nat \<Rightarrow> cmem \<Rightarrow> addr \<times> cmem" where
  "c_realloc p n m =
     (if mbrk m + int n > mlimit m then (0, m)
      else let q = mbrk m;
               m' = store_bytes q (load_bytes m p (min (block_size m p) n)) m
           in (q, (c_free p m')\<lparr>mblocks := (q, n) # mblocks (c_free p m'),
                                mbrk := q + int (max n 1)\<rparr>))"

text \<open>Live blocks lie above NULL and below the break, and do not overlap.\<close>

definition heap_ok :: "cmem \<Rightarrow> bool" where
  "heap_ok m \<longleftrightarrow> 0 < mbrk m \<and>
     (\<forall>(a, n) \<in> set (mblocks m). 0 < a \<and> a < mbrk m \<and> a + int n \<le> mbrk m) \<and>
     sorted_wrt (\<lambda>(a, n) (b, k). a \<noteq> b \<and> apart a n b k) (mblocks m)"

definition live :: "cmem \<Rightarrow> addr set" where
  "live m = fst ` set (mblocks m)"

lemma heap_ok_store [simp]: "heap_ok (store_bytes a bs m) = heap_ok m"
  by (simp add: heap_ok_def)

lemma live_store [simp]: "live (store_bytes a bs m) = live m"
  by (simp add: live_def)

lemma heap_ok_free: "heap_ok m \<Longrightarrow> heap_ok (c_free p m)"
  by (auto simp: heap_ok_def c_free_def intro: sorted_wrt_filter)

lemma live_free: "p \<noteq> 0 \<Longrightarrow> live (c_free p m) = live m - {p}"
  by (force simp: live_def c_free_def)

lemma c_free_NULL [simp]: "c_free 0 m = m"
  by (simp add: c_free_def)

lemma mbytes_free [simp]: "mbytes (c_free p m) = mbytes m"
  by (simp add: c_free_def)

lemma c_free_rest [simp]: "mbrk (c_free p m) = mbrk m" "mlimit (c_free p m) = mlimit m"
  "msp (c_free p m) = msp m"
  by (simp_all add: c_free_def)

lemma c_realloc_NULL: "c_realloc p n m = (0, m') \<Longrightarrow> heap_ok m \<Longrightarrow> m' = m"
  by (auto simp: c_realloc_def heap_ok_def Let_def split: if_splits)

lemma heap_ok_realloc:
  assumes "heap_ok m"
  shows "heap_ok (snd (c_realloc p n m))"
proof (cases "mbrk m + int n > mlimit m")
  case True
  then show ?thesis using assms by (simp add: c_realloc_def)
next
  case False
  let ?bs = "load_bytes m p (min (block_size m p) n)"
  have f: "heap_ok (c_free p (store_bytes (mbrk m) ?bs m))" (is "heap_ok ?f")
    using assms by (simp add: heap_ok_free)
  have "0 < mbrk m" using assms by (simp add: heap_ok_def)
  moreover have "0 < a \<and> a < mbrk m \<and> a + int k \<le> mbrk m" if "(a, k) \<in> set (mblocks ?f)" for a k
    using f that by (auto simp: heap_ok_def)
  moreover have "sorted_wrt (\<lambda>(a, n) (b, k). a \<noteq> b \<and> apart a n b k) (mblocks ?f)"
    using f by (simp add: heap_ok_def)
  ultimately show ?thesis
    using False by (fastforce simp: c_realloc_def heap_ok_def Let_def apart_def)
qed

lemma c_realloc_fresh:
  assumes "heap_ok m" and "c_realloc p n m = (q, m')" and "q \<noteq> 0"
  shows "q \<notin> live m" and "q \<in> live m'" and "live m' = insert q (live m - {p})"
    and "block_size m' q = n"
    and "\<And>x. x < q \<or> q + int n \<le> x \<Longrightarrow> mbytes m' x = mbytes m x"
    and "\<And>i. i < min (block_size m p) n \<Longrightarrow> mbytes m' (q + int i) = mbytes m (p + int i)"
proof -
  let ?bs = "load_bytes m p (min (block_size m p) n)"
  have q: "q = mbrk m" and m': "m' = (c_free p (store_bytes q ?bs m))
      \<lparr>mblocks := (q, n) # mblocks (c_free p (store_bytes q ?bs m)), mbrk := q + int (max n 1)\<rparr>"
    using assms by (auto simp: c_realloc_def Let_def split: if_splits)
  have zero: "(0, k) \<notin> set (mblocks m)" for k
    using assms(1) by (auto simp: heap_ok_def)
  show "q \<notin> live m" using assms(1) q by (auto simp: live_def heap_ok_def)
  show "q \<in> live m'" by (simp add: m' live_def)
  show "live m' = insert q (live m - {p})"
  proof (cases "p = 0")
    case True
    then have "p \<notin> live m" using zero by (auto simp: live_def)
    with True show ?thesis by (simp add: m' live_def)
  next
    case False
    then have "live (c_free p (store_bytes q ?bs m)) = live m - {p}"
      by (simp add: live_free)
    then show ?thesis by (simp add: m' live_def)
  qed
  show "block_size m' q = n" by (simp add: m' block_size_def)
  show "\<And>x. x < q \<or> q + int n \<le> x \<Longrightarrow> mbytes m' x = mbytes m x"
    by (auto simp: m' mbytes_store_bytes)
  show "\<And>i. i < min (block_size m p) n \<Longrightarrow> mbytes m' (q + int i) = mbytes m (p + int i)"
    by (simp add: m' mbytes_store_bytes)
qed

end
