(* ===== verification/PbTypes.thy ===== *)
theory PbTypes
  imports CMemory
begin

text \<open>
  \<open>nanopb/pb.h\<close>: field types, field descriptors, wire types, the callback and extension
  structs, and the macros that build a descriptor from the layout of a C struct. The build
  defines \<open>PB_FIELD_32BIT\<close>, \<open>PB_NO_PACKED_STRUCTS\<close> and \<open>PB_ENABLE_MALLOC\<close>
  (the pod's xcconfig files), so \<open>pb_size_t\<close> has 32 bits and pointer fields are supported.
\<close>

section \<open>Field types\<close>

type_synonym pb_type_t = "8 word"
type_synonym pb_size_t = "32 word"
type_synonym pb_ssize_t = "32 word"

named_theorems pb_consts "the numeric constants of pb.h"

definition PB_LTYPE_BOOL :: pb_type_t where [pb_consts]: "PB_LTYPE_BOOL = 0x00"
definition PB_LTYPE_VARINT :: pb_type_t where [pb_consts]: "PB_LTYPE_VARINT = 0x01"
definition PB_LTYPE_UVARINT :: pb_type_t where [pb_consts]: "PB_LTYPE_UVARINT = 0x02"
definition PB_LTYPE_SVARINT :: pb_type_t where [pb_consts]: "PB_LTYPE_SVARINT = 0x03"
definition PB_LTYPE_FIXED32 :: pb_type_t where [pb_consts]: "PB_LTYPE_FIXED32 = 0x04"
definition PB_LTYPE_FIXED64 :: pb_type_t where [pb_consts]: "PB_LTYPE_FIXED64 = 0x05"
definition PB_LTYPE_LAST_PACKABLE :: pb_type_t where [pb_consts]: "PB_LTYPE_LAST_PACKABLE = 0x05"
definition PB_LTYPE_BYTES :: pb_type_t where [pb_consts]: "PB_LTYPE_BYTES = 0x06"
definition PB_LTYPE_STRING :: pb_type_t where [pb_consts]: "PB_LTYPE_STRING = 0x07"
definition PB_LTYPE_SUBMESSAGE :: pb_type_t where [pb_consts]: "PB_LTYPE_SUBMESSAGE = 0x08"
definition PB_LTYPE_EXTENSION :: pb_type_t where [pb_consts]: "PB_LTYPE_EXTENSION = 0x09"
definition PB_LTYPE_FIXED_LENGTH_BYTES :: pb_type_t where
  [pb_consts]: "PB_LTYPE_FIXED_LENGTH_BYTES = 0x0A"
definition PB_LTYPE_MASK :: pb_type_t where [pb_consts]: "PB_LTYPE_MASK = 0x0F"

definition PB_HTYPE_REQUIRED :: pb_type_t where [pb_consts]: "PB_HTYPE_REQUIRED = 0x00"
definition PB_HTYPE_OPTIONAL :: pb_type_t where [pb_consts]: "PB_HTYPE_OPTIONAL = 0x10"
definition PB_HTYPE_REPEATED :: pb_type_t where [pb_consts]: "PB_HTYPE_REPEATED = 0x20"
definition PB_HTYPE_ONEOF :: pb_type_t where [pb_consts]: "PB_HTYPE_ONEOF = 0x30"
definition PB_HTYPE_MASK :: pb_type_t where [pb_consts]: "PB_HTYPE_MASK = 0x30"

definition PB_ATYPE_STATIC :: pb_type_t where [pb_consts]: "PB_ATYPE_STATIC = 0x00"
definition PB_ATYPE_POINTER :: pb_type_t where [pb_consts]: "PB_ATYPE_POINTER = 0x80"
definition PB_ATYPE_CALLBACK :: pb_type_t where [pb_consts]: "PB_ATYPE_CALLBACK = 0x40"
definition PB_ATYPE_MASK :: pb_type_t where [pb_consts]: "PB_ATYPE_MASK = 0xC0"

definition PB_ATYPE :: "pb_type_t \<Rightarrow> pb_type_t" where "PB_ATYPE x = x AND PB_ATYPE_MASK"
definition PB_HTYPE :: "pb_type_t \<Rightarrow> pb_type_t" where "PB_HTYPE x = x AND PB_HTYPE_MASK"
definition PB_LTYPE :: "pb_type_t \<Rightarrow> pb_type_t" where "PB_LTYPE x = x AND PB_LTYPE_MASK"

definition PB_SIZE_MAX :: pb_size_t where "PB_SIZE_MAX = - 1"
definition PB_MAX_REQUIRED_FIELDS :: nat where "PB_MAX_REQUIRED_FIELDS = 64"

text \<open>The three parts of a type byte are independent of each other.\<close>

lemma pb_type_parts:
  "PB_LTYPE x OR PB_HTYPE x OR PB_ATYPE x = x"
  unfolding PB_LTYPE_def PB_HTYPE_def PB_ATYPE_def pb_consts
proof -
  have "x AND 0x0F OR x AND 0x30 OR x AND 0xC0 = x AND (0x0F OR 0x30 OR 0xC0)"
    by (simp only: bit.conj_disj_distrib)
  also have "(0x0F OR 0x30 OR 0xC0 :: 8 word) = - 1" by simp
  finally show "x AND 0x0F OR x AND 0x30 OR x AND 0xC0 = x" by simp
qed

text \<open>The field rule is one of the four.\<close>

lemma pb_htype_cases:
  "PB_HTYPE x = PB_HTYPE_REQUIRED \<or> PB_HTYPE x = PB_HTYPE_OPTIONAL \<or> PB_HTYPE x = PB_HTYPE_REPEATED
    \<or> PB_HTYPE x = PB_HTYPE_ONEOF"
proof -
  have mask: "(0x30 :: pb_type_t) = push_bit 4 (mask 2)" by (simp add: mask_eq_exp_minus_1)
  have "x AND 0x30 = push_bit 4 (take_bit 2 (drop_bit 4 x))"
    unfolding mask by (rule bit_word_eqI) (auto simp: bit_simps)
  moreover have "take_bit 2 y = 0 \<or> take_bit 2 y = 1 \<or> take_bit 2 y = 2 \<or> take_bit 2 y = 3" for y :: pb_type_t
  proof -
    have "unat (take_bit 2 y) < 4" by (simp add: unsigned_take_bit_eq take_bit_nat_def)
    then have "unat (take_bit 2 y) = 0 \<or> unat (take_bit 2 y) = 1 \<or> unat (take_bit 2 y) = 2
        \<or> unat (take_bit 2 y) = 3" by arith
    then show ?thesis by (simp add: word_unat_eq_iff)
  qed
  from this [of "drop_bit 4 x"] calculation show ?thesis
    unfolding PB_HTYPE_def pb_consts by (elim disjE) simp_all
qed

section \<open>Field descriptors\<close>

text \<open>
  \<open>pb_field_t\<close>. Its \<open>ptr\<close> is NULL, the descriptor array of a submessage, or the bytes
  of a constant default value.
\<close>

datatype 'f ptr_target = Null_ptr | Fields_ptr "'f list" | Const_ptr "byte list"

datatype pb_field = PbField
  (ftag: pb_size_t)
  (ftype: pb_type_t)
  (data_offset: pb_size_t)
  (size_offset: pb_ssize_t)
  (data_size: pb_size_t)
  (array_size: pb_size_t)
  (fptr: "pb_field ptr_target")

definition PB_LAST_FIELD :: pb_field where
  "PB_LAST_FIELD = PbField 0 0 0 0 0 0 Null_ptr"

text \<open>\<open>offsetof(pb_bytes_array_t, bytes)\<close>: the bytes follow the 32-bit size.\<close>

definition offsetof_bytes :: nat where "offsetof_bytes = 4"

definition PB_BYTES_ARRAY_T_ALLOCSIZE :: "u64 \<Rightarrow> u64" where
  "PB_BYTES_ARRAY_T_ALLOCSIZE n = n + word_of_nat offsetof_bytes"

section \<open>Wire types\<close>

type_synonym pb_wire_type_t = "32 word"

definition PB_WT_VARINT :: pb_wire_type_t where [pb_consts]: "PB_WT_VARINT = 0"
definition PB_WT_64BIT :: pb_wire_type_t where [pb_consts]: "PB_WT_64BIT = 1"
definition PB_WT_STRING :: pb_wire_type_t where [pb_consts]: "PB_WT_STRING = 2"
definition PB_WT_32BIT :: pb_wire_type_t where [pb_consts]: "PB_WT_32BIT = 5"

section \<open>Member offsets of the structs the library shares with its user\<close>

text \<open>\<open>pb_callback_t\<close> and \<open>pb_extension_t\<close> under the 64-bit ABI.\<close>

definition sizeof_ptr :: nat where "sizeof_ptr = 8"
definition callback_funcs :: addr where "callback_funcs = 0"
definition callback_arg :: addr where "callback_arg = 8"
definition extension_type :: addr where "extension_type = 0"
definition extension_dest :: addr where "extension_dest = 8"
definition extension_next :: addr where "extension_next = 16"
definition extension_found :: addr where "extension_found = 24"

section \<open>Struct layout and the descriptor macros\<close>

text \<open>
  A C struct is its members in order, each with its size, its alignment and the size of
  what it points to or of its array element (\<open>m[0]\<close>).
\<close>

record c_member =
  m_name :: string
  m_size :: nat
  m_align :: nat
  m_elem :: nat

type_synonym c_struct = "c_member list"

definition align_up :: "nat \<Rightarrow> nat \<Rightarrow> nat" where
  "align_up off a = (off + a - 1) div a * a"

fun layout_from :: "nat \<Rightarrow> c_struct \<Rightarrow> (string \<times> nat) list" where
  "layout_from off [] = []"
| "layout_from off (m # ms) =
     (let o' = align_up off (m_align m)
      in (m_name m, o') # layout_from (o' + m_size m) ms)"

fun end_of_members :: "nat \<Rightarrow> c_struct \<Rightarrow> nat" where
  "end_of_members off [] = off"
| "end_of_members off (m # ms) = end_of_members (align_up off (m_align m) + m_size m) ms"

definition struct_align :: "c_struct \<Rightarrow> nat" where
  "struct_align st = foldr max (map m_align st) 1"

definition sizeof :: "c_struct \<Rightarrow> nat" where
  "sizeof st = align_up (end_of_members 0 st) (struct_align st)"

definition offsetof :: "c_struct \<Rightarrow> string \<Rightarrow> nat" where
  "offsetof st m = (case map_of (layout_from 0 st) m of Some off \<Rightarrow> off | None \<Rightarrow> 0)"

definition find_member :: "c_struct \<Rightarrow> string \<Rightarrow> c_member option" where
  "find_member st m = find (\<lambda>x. m_name x = m) st"

definition pb_membersize :: "c_struct \<Rightarrow> string \<Rightarrow> nat" where
  "pb_membersize st m = (case find_member st m of Some x \<Rightarrow> m_size x | None \<Rightarrow> 0)"

definition pb_elemsize :: "c_struct \<Rightarrow> string \<Rightarrow> nat" where
  "pb_elemsize st m = (case find_member st m of Some x \<Rightarrow> m_elem x | None \<Rightarrow> 0)"

definition pb_arraysize :: "c_struct \<Rightarrow> string \<Rightarrow> nat" where
  "pb_arraysize st m = pb_membersize st m div pb_elemsize st m"

definition pb_delta :: "c_struct \<Rightarrow> string \<Rightarrow> string \<Rightarrow> pb_ssize_t" where
  "pb_delta st m1 m2 = word_of_int (int (offsetof st m1) - int (offsetof st m2))"

datatype pb_placement = FIRST | OTHER | UNION

fun PB_DATAOFFSET :: "pb_placement \<Rightarrow> c_struct \<Rightarrow> string \<Rightarrow> string \<Rightarrow> pb_size_t" where
  "PB_DATAOFFSET FIRST st m1 m2 = word_of_nat (offsetof st m1)"
| "PB_DATAOFFSET OTHER st m1 m2 =
     word_of_int (int (offsetof st m1) - int (offsetof st m2) - int (pb_membersize st m2))"
| "PB_DATAOFFSET UNION st m1 m2 = PB_SIZE_MAX"

datatype pb_alloc = STATIC | POINTER | CALLBACK

datatype pb_rules = REQUIRED | OPTIONAL | SINGULAR | REPEATED | OPTEXT

datatype pb_proto_type = BOOL | BYTES | DOUBLE | ENUM | UENUM | FIXED32 | FIXED64 | FLOAT
  | INT32 | INT64 | MESSAGE | SFIXED32 | SFIXED64 | SINT32 | SINT64 | STRING | UINT32 | UINT64
  | EXTENSION | FIXED_LENGTH_BYTES

fun PB_LTYPE_MAP :: "pb_proto_type \<Rightarrow> pb_type_t" where
  "PB_LTYPE_MAP BOOL = PB_LTYPE_BOOL"
| "PB_LTYPE_MAP BYTES = PB_LTYPE_BYTES"
| "PB_LTYPE_MAP DOUBLE = PB_LTYPE_FIXED64"
| "PB_LTYPE_MAP ENUM = PB_LTYPE_VARINT"
| "PB_LTYPE_MAP UENUM = PB_LTYPE_UVARINT"
| "PB_LTYPE_MAP FIXED32 = PB_LTYPE_FIXED32"
| "PB_LTYPE_MAP FIXED64 = PB_LTYPE_FIXED64"
| "PB_LTYPE_MAP FLOAT = PB_LTYPE_FIXED32"
| "PB_LTYPE_MAP INT32 = PB_LTYPE_VARINT"
| "PB_LTYPE_MAP INT64 = PB_LTYPE_VARINT"
| "PB_LTYPE_MAP MESSAGE = PB_LTYPE_SUBMESSAGE"
| "PB_LTYPE_MAP SFIXED32 = PB_LTYPE_FIXED32"
| "PB_LTYPE_MAP SFIXED64 = PB_LTYPE_FIXED64"
| "PB_LTYPE_MAP SINT32 = PB_LTYPE_SVARINT"
| "PB_LTYPE_MAP SINT64 = PB_LTYPE_SVARINT"
| "PB_LTYPE_MAP STRING = PB_LTYPE_STRING"
| "PB_LTYPE_MAP UINT32 = PB_LTYPE_UVARINT"
| "PB_LTYPE_MAP UINT64 = PB_LTYPE_UVARINT"
| "PB_LTYPE_MAP EXTENSION = PB_LTYPE_EXTENSION"
| "PB_LTYPE_MAP FIXED_LENGTH_BYTES = PB_LTYPE_FIXED_LENGTH_BYTES"

text \<open>
  One macro per rule and allocation; \<open>fd\<close> is the data offset. The \<open>has_\<close> and
  \<open>_count\<close> members are named by token pasting.
\<close>

definition PB_REQUIRED_STATIC ::
    "pb_size_t \<Rightarrow> c_struct \<Rightarrow> string \<Rightarrow> pb_size_t \<Rightarrow> pb_type_t \<Rightarrow> pb_field ptr_target \<Rightarrow> pb_field" where
  "PB_REQUIRED_STATIC tag st m fd lt p =
     PbField tag (PB_ATYPE_STATIC OR PB_HTYPE_REQUIRED OR lt) fd 0
       (word_of_nat (pb_membersize st m)) 0 p"

definition PB_OPTIONAL_STATIC ::
    "pb_size_t \<Rightarrow> c_struct \<Rightarrow> string \<Rightarrow> pb_size_t \<Rightarrow> pb_type_t \<Rightarrow> pb_field ptr_target \<Rightarrow> pb_field" where
  "PB_OPTIONAL_STATIC tag st m fd lt p =
     PbField tag (PB_ATYPE_STATIC OR PB_HTYPE_OPTIONAL OR lt) fd
       (pb_delta st (''has_'' @ m) m) (word_of_nat (pb_membersize st m)) 0 p"

definition PB_SINGULAR_STATIC ::
    "pb_size_t \<Rightarrow> c_struct \<Rightarrow> string \<Rightarrow> pb_size_t \<Rightarrow> pb_type_t \<Rightarrow> pb_field ptr_target \<Rightarrow> pb_field" where
  "PB_SINGULAR_STATIC tag st m fd lt p =
     PbField tag (PB_ATYPE_STATIC OR PB_HTYPE_OPTIONAL OR lt) fd 0
       (word_of_nat (pb_membersize st m)) 0 p"

definition PB_REPEATED_STATIC ::
    "pb_size_t \<Rightarrow> c_struct \<Rightarrow> string \<Rightarrow> pb_size_t \<Rightarrow> pb_type_t \<Rightarrow> pb_field ptr_target \<Rightarrow> pb_field" where
  "PB_REPEATED_STATIC tag st m fd lt p =
     PbField tag (PB_ATYPE_STATIC OR PB_HTYPE_REPEATED OR lt) fd
       (pb_delta st (m @ ''_count'') m) (word_of_nat (pb_elemsize st m))
       (word_of_nat (pb_arraysize st m)) p"

definition PB_REQUIRED_POINTER ::
    "pb_size_t \<Rightarrow> c_struct \<Rightarrow> string \<Rightarrow> pb_size_t \<Rightarrow> pb_type_t \<Rightarrow> pb_field ptr_target \<Rightarrow> pb_field" where
  "PB_REQUIRED_POINTER tag st m fd lt p =
     PbField tag (PB_ATYPE_POINTER OR PB_HTYPE_REQUIRED OR lt) fd 0
       (word_of_nat (pb_elemsize st m)) 0 p"

definition PB_OPTIONAL_POINTER ::
    "pb_size_t \<Rightarrow> c_struct \<Rightarrow> string \<Rightarrow> pb_size_t \<Rightarrow> pb_type_t \<Rightarrow> pb_field ptr_target \<Rightarrow> pb_field" where
  "PB_OPTIONAL_POINTER tag st m fd lt p =
     PbField tag (PB_ATYPE_POINTER OR PB_HTYPE_OPTIONAL OR lt) fd 0
       (word_of_nat (pb_elemsize st m)) 0 p"

definition PB_REPEATED_POINTER ::
    "pb_size_t \<Rightarrow> c_struct \<Rightarrow> string \<Rightarrow> pb_size_t \<Rightarrow> pb_type_t \<Rightarrow> pb_field ptr_target \<Rightarrow> pb_field" where
  "PB_REPEATED_POINTER tag st m fd lt p =
     PbField tag (PB_ATYPE_POINTER OR PB_HTYPE_REPEATED OR lt) fd
       (pb_delta st (m @ ''_count'') m) (word_of_nat (pb_elemsize st m)) 0 p"

definition PB_CALLBACK ::
    "pb_type_t \<Rightarrow> pb_size_t \<Rightarrow> c_struct \<Rightarrow> string \<Rightarrow> pb_size_t \<Rightarrow> pb_type_t \<Rightarrow> pb_field ptr_target \<Rightarrow> pb_field" where
  "PB_CALLBACK ht tag st m fd lt p =
     PbField tag (PB_ATYPE_CALLBACK OR ht OR lt) fd 0 (word_of_nat (pb_membersize st m)) 0 p"

definition PB_OPTEXT_STATIC ::
    "pb_size_t \<Rightarrow> c_struct \<Rightarrow> string \<Rightarrow> pb_size_t \<Rightarrow> pb_type_t \<Rightarrow> pb_field ptr_target \<Rightarrow> pb_field" where
  "PB_OPTEXT_STATIC tag st m fd lt p =
     PbField tag (PB_ATYPE_STATIC OR PB_HTYPE_REQUIRED OR lt) 0 0
       (word_of_nat (pb_membersize st m)) 0 p"

text \<open>\<open>PB_ ## rules ## _ ## allocation\<close>.\<close>

fun PB_RULES_ALLOC :: "pb_rules \<Rightarrow> pb_alloc \<Rightarrow>
    pb_size_t \<Rightarrow> c_struct \<Rightarrow> string \<Rightarrow> pb_size_t \<Rightarrow> pb_type_t \<Rightarrow> pb_field ptr_target \<Rightarrow> pb_field" where
  "PB_RULES_ALLOC REQUIRED STATIC = PB_REQUIRED_STATIC"
| "PB_RULES_ALLOC OPTIONAL STATIC = PB_OPTIONAL_STATIC"
| "PB_RULES_ALLOC SINGULAR STATIC = PB_SINGULAR_STATIC"
| "PB_RULES_ALLOC REPEATED STATIC = PB_REPEATED_STATIC"
| "PB_RULES_ALLOC OPTEXT STATIC = PB_OPTEXT_STATIC"
| "PB_RULES_ALLOC REQUIRED POINTER = PB_REQUIRED_POINTER"
| "PB_RULES_ALLOC OPTIONAL POINTER = PB_OPTIONAL_POINTER"
| "PB_RULES_ALLOC SINGULAR POINTER = PB_OPTIONAL_POINTER"
| "PB_RULES_ALLOC REPEATED POINTER = PB_REPEATED_POINTER"
| "PB_RULES_ALLOC OPTEXT POINTER = PB_OPTIONAL_POINTER"
| "PB_RULES_ALLOC REQUIRED CALLBACK = PB_CALLBACK PB_HTYPE_REQUIRED"
| "PB_RULES_ALLOC REPEATED CALLBACK = PB_CALLBACK PB_HTYPE_REPEATED"
| "PB_RULES_ALLOC OPTIONAL CALLBACK = PB_CALLBACK PB_HTYPE_OPTIONAL"
| "PB_RULES_ALLOC SINGULAR CALLBACK = PB_CALLBACK PB_HTYPE_OPTIONAL"
| "PB_RULES_ALLOC OPTEXT CALLBACK = PB_CALLBACK PB_HTYPE_OPTIONAL"

definition PB_FIELD :: "pb_size_t \<Rightarrow> pb_proto_type \<Rightarrow> pb_rules \<Rightarrow> pb_alloc \<Rightarrow> pb_placement \<Rightarrow>
    c_struct \<Rightarrow> string \<Rightarrow> string \<Rightarrow> pb_field ptr_target \<Rightarrow> pb_field" where
  "PB_FIELD tag ty rules alloc placement st m prev p =
     PB_RULES_ALLOC rules alloc tag st m (PB_DATAOFFSET placement st m prev) (PB_LTYPE_MAP ty) p"

definition PB_REPEATED_FIXED_COUNT :: "pb_size_t \<Rightarrow> pb_proto_type \<Rightarrow> pb_placement \<Rightarrow>
    c_struct \<Rightarrow> string \<Rightarrow> string \<Rightarrow> pb_field ptr_target \<Rightarrow> pb_field" where
  "PB_REPEATED_FIXED_COUNT tag ty placement st m prev p =
     PbField tag (PB_ATYPE_STATIC OR PB_HTYPE_REPEATED OR PB_LTYPE_MAP ty)
       (PB_DATAOFFSET placement st m prev) 0 (word_of_nat (pb_elemsize st m))
       (word_of_nat (pb_arraysize st m)) p"

end
