(* ===== verification/CStructs.thy ===== *)
theory CStructs
  imports PbTypes
begin

text \<open>
  What the generated message headers are made of: the members of a struct, by their C
  type, and the initializer macros with the memory they describe. The 64-bit ABI of the
  iOS targets gives the sizes: \<open>bool\<close> 1, enums and 32-bit integers 4, 64-bit integers
  and pointers 8, each aligned to its size.
\<close>

section \<open>Members\<close>

definition c_scalar :: "string \<Rightarrow> nat \<Rightarrow> c_member" where
  "c_scalar name n = \<lparr>m_name = name, m_size = n, m_align = n, m_elem = n\<rparr>"

definition c_bool :: "string \<Rightarrow> c_member" where "c_bool name = c_scalar name 1"
definition c_enum :: "string \<Rightarrow> c_member" where "c_enum name = c_scalar name 4"
definition c_int32 :: "string \<Rightarrow> c_member" where "c_int32 name = c_scalar name 4"
definition c_int64 :: "string \<Rightarrow> c_member" where "c_int64 name = c_scalar name 8"

text \<open>A pointer, with the size of what it points to.\<close>

definition c_pointer :: "string \<Rightarrow> nat \<Rightarrow> c_member" where
  "c_pointer name target =
     \<lparr>m_name = name, m_size = sizeof_ptr, m_align = sizeof_ptr, m_elem = target\<rparr>"

definition c_nested :: "string \<Rightarrow> c_struct \<Rightarrow> c_member" where
  "c_nested name st =
     \<lparr>m_name = name, m_size = sizeof st, m_align = struct_align st, m_elem = sizeof st\<rparr>"

text \<open>\<open>struct pb_bytes_array_s\<close>: a 32-bit size and one byte, padded to the alignment.\<close>

definition pb_bytes_array_s :: c_struct where
  "pb_bytes_array_s = [c_int32 ''size'', \<lparr>m_name = ''bytes'', m_size = 1, m_align = 1, m_elem = 1\<rparr>]"

definition sizeof_bytes_array :: nat where "sizeof_bytes_array = sizeof pb_bytes_array_s"

named_theorems struct_defs "the message structs"
named_theorems fields_defs "the field descriptor arrays"
named_theorems init_defs "the initializer macros"
named_theorems layouts "the offsets of the message structs"
named_theorems sizeofs "the sizes of the message structs"
named_theorems fields_eqs "the evaluated field descriptor arrays"

lemma sizeof_bytes_array [layouts]: "sizeof_bytes_array = 8"
  by code_simp

lemmas sizeof_simps = sizeof_def struct_align_def align_up_def c_bool_def c_enum_def c_int32_def c_int64_def
  c_pointer_def c_nested_def c_scalar_def sizeof_ptr_def

lemmas field_macros = PB_FIELD_def PB_RULES_ALLOC.simps PB_DATAOFFSET.simps PB_OPTIONAL_STATIC_def
  PB_OPTIONAL_POINTER_def PB_REPEATED_POINTER_def pb_delta_def

section \<open>Initializers\<close>

datatype c_init = Init_int int | Init_null | Init_struct c_struct "c_init list"

text \<open>Offset and size of each member.\<close>

definition places :: "c_struct \<Rightarrow> (nat \<times> nat) list" where
  "places st = zip (map snd (layout_from 0 st)) (map m_size st)"

text \<open>The \<open>n\<close> bytes at \<open>a\<close> are what the initializer puts there.\<close>

primrec initialised :: "c_init \<Rightarrow> cmem \<Rightarrow> addr \<Rightarrow> nat \<Rightarrow> bool" where
  "initialised (Init_int v) = (\<lambda>m a n. load_bytes m a n = le_bytes n (word_of_int v :: u64))"
| "initialised Init_null = (\<lambda>m a n. load_ptr m a = 0)"
| "initialised (Init_struct st is) =
     (\<lambda>m a n. length is = length st \<and>
        list_all (\<lambda>(g, off, k). g m (a + int off) k) (zip (map initialised is) (places st)))"

end
