(* ===== verification/PbCommon.thy ===== *)
theory PbCommon
  imports PbTypes
begin

text \<open>
  \<open>nanopb/pb_common.c\<close>: the field iterator, which walks a descriptor array and the C
  struct it describes side by side. An iterator's \<open>pos\<close> is the index into the array
  \<open>start\<close>; its \<open>pData\<close> and \<open>pSize\<close> are the addresses of the current field's data
  and of its \<open>has_\<close>, \<open>_count\<close> or \<open>which_\<close> member.
\<close>

section \<open>The iterator\<close>

record pb_field_iter =
  start :: "pb_field list"
  pos :: nat
  required_field_index :: nat
  dest_struct :: addr
  pData :: addr
  pSize :: addr

text \<open>An array ends with \<open>PB_LAST_FIELD\<close>, and reading on finds no field there either.\<close>

definition field_at :: "pb_field list \<Rightarrow> nat \<Rightarrow> pb_field" where
  "field_at fs i = (if i < length fs then fs ! i else PB_LAST_FIELD)"

definition cur :: "pb_field_iter \<Rightarrow> pb_field" where
  "cur it = field_at (start it) (pos it)"

definition pb_field_iter_begin :: "pb_field list \<Rightarrow> addr \<Rightarrow> bool \<times> pb_field_iter" where
  "pb_field_iter_begin fs dest =
     (let f = field_at fs 0;
          d = dest + uint (data_offset f)
      in (ftag f \<noteq> 0,
          \<lparr>start = fs, pos = 0, required_field_index = 0, dest_struct = dest,
           pData = d, pSize = d + sint (size_offset f)\<rparr>))"

definition pb_field_iter_next :: "pb_field_iter \<Rightarrow> bool \<times> pb_field_iter" where
  "pb_field_iter_next it =
     (let prev = cur it in
      if ftag prev = 0 then (False, it)
      else let f = field_at (start it) (Suc (pos it)); it1 = it\<lparr>pos := Suc (pos it)\<rparr> in
        if ftag f = 0 then (False, snd (pb_field_iter_begin (start it) (dest_struct it)))
        else if PB_HTYPE (ftype prev) = PB_HTYPE_ONEOF \<and> PB_HTYPE (ftype f) = PB_HTYPE_ONEOF
             \<and> data_offset f = PB_SIZE_MAX
          then (True, it1)
        else
          let prev_size =
                (if PB_ATYPE (ftype prev) = PB_ATYPE_STATIC
                    \<and> PB_HTYPE (ftype prev) = PB_HTYPE_REPEATED
                 then uint (data_size prev) * uint (array_size prev)
                 else if PB_ATYPE (ftype prev) = PB_ATYPE_POINTER then int sizeof_ptr
                 else uint (data_size prev));
              d = pData it + prev_size + uint (data_offset f)
          in (True, it1\<lparr>required_field_index := required_field_index it +
                          (if PB_HTYPE (ftype prev) = PB_HTYPE_REQUIRED then 1 else 0),
                        pData := d, pSize := d + sint (size_offset f)\<rparr>))"

text \<open>
  \<open>do { if (match) return true; next } while (pos != start)\<close>. The round visits every
  position once; \<open>k\<close> bounds its length, and \<open>iter_round_spec\<close> below shows that the
  bound used is never reached from an iterator over a terminated array.
\<close>

fun iter_round :: "nat \<Rightarrow> (pb_field \<Rightarrow> bool) \<Rightarrow> nat \<Rightarrow> pb_field_iter \<Rightarrow> bool \<times> pb_field_iter" where
  "iter_round 0 match begin_pos it = (False, it)"
| "iter_round (Suc k) match begin_pos it =
     (if match (cur it) then (True, it)
      else let it' = snd (pb_field_iter_next it)
           in if pos it' \<noteq> begin_pos then iter_round k match begin_pos it' else (False, it'))"

definition tag_match :: "pb_size_t \<Rightarrow> pb_field \<Rightarrow> bool" where
  "tag_match t f \<longleftrightarrow> ftag f = t \<and> PB_LTYPE (ftype f) \<noteq> PB_LTYPE_EXTENSION"

definition pb_field_iter_find :: "pb_field_iter \<Rightarrow> u32 \<Rightarrow> bool \<times> pb_field_iter" where
  "pb_field_iter_find it t = iter_round (Suc (length (start it))) (tag_match t) (pos it) it"

text \<open>
  \<open>do { body(iter) } while (pb_field_iter_next(iter))\<close>, the loop by which messages are
  initialised, encoded and released.
\<close>

lemma iter_next_True:
  assumes "pb_field_iter_next it = (True, it')"
  shows "pos it' = Suc (pos it)" "start it' = start it" "dest_struct it' = dest_struct it"
    "pos it' < length (start it)"
  using assms
  by (auto simp: pb_field_iter_next_def Let_def field_at_def PB_LAST_FIELD_def
      pb_field_iter_begin_def split: if_splits)

function iter_loop :: "(pb_field_iter \<Rightarrow> ('s, unit) cmd) \<Rightarrow> pb_field_iter \<Rightarrow> ('s, unit) cmd" where
  "iter_loop body it s =
     (case body it s of
        Ret u s' \<Rightarrow>
          (if fst (pb_field_iter_next it)
           then iter_loop body (snd (pb_field_iter_next it)) s' else Ret () s')
      | Fail s' \<Rightarrow> Fail s'
      | Stuck \<Rightarrow> Stuck)"
  by pat_completeness auto
termination
proof (relation "measure (\<lambda>(body, it, s). length (start it) - pos it)")
  fix body :: "pb_field_iter \<Rightarrow> ('s, unit) cmd" and it s u s'
  assume "fst (pb_field_iter_next it)"
  then have n: "pb_field_iter_next it = (True, snd (pb_field_iter_next it))"
    by (metis prod.collapse)
  from iter_next_True [OF n]
  show "((body, snd (pb_field_iter_next it), s'), body, it, s)
      \<in> measure (\<lambda>(body, it, s). length (start it) - pos it)"
    by simp
qed auto

declare iter_loop.simps [simp del]

section \<open>Positions\<close>

text \<open>The number of fields of a descriptor array, and the iterator at each of them.\<close>

definition num_fields :: "pb_field list \<Rightarrow> nat" where
  "num_fields fs = length (takeWhile (\<lambda>f. ftag f \<noteq> 0) fs)"

primrec iter_at :: "pb_field list \<Rightarrow> addr \<Rightarrow> nat \<Rightarrow> pb_field_iter" where
  "iter_at fs dest 0 = snd (pb_field_iter_begin fs dest)"
| "iter_at fs dest (Suc i) = snd (pb_field_iter_next (iter_at fs dest i))"

lemma num_fields_le: "num_fields fs \<le> length fs"
  by (simp add: num_fields_def length_takeWhile_le)

lemma ftag_field_at: "i < num_fields fs \<Longrightarrow> ftag (field_at fs i) \<noteq> 0"
  using num_fields_le [of fs] nth_mem [of i "takeWhile (\<lambda>f. ftag f \<noteq> 0) fs"]
  by (auto simp: num_fields_def field_at_def takeWhile_nth dest: set_takeWhileD)

lemma ftag_field_end: "ftag (field_at fs (num_fields fs)) = 0"
  by (auto simp: num_fields_def field_at_def PB_LAST_FIELD_def intro: nth_length_takeWhile [of "\<lambda>f. ftag f \<noteq> 0", simplified])

lemma iter_begin_simps [simp]:
  "fst (pb_field_iter_begin fs dest) \<longleftrightarrow> 0 < num_fields fs"
  "start (snd (pb_field_iter_begin fs dest)) = fs" "pos (snd (pb_field_iter_begin fs dest)) = 0"
  "dest_struct (snd (pb_field_iter_begin fs dest)) = dest"
  by (auto simp: pb_field_iter_begin_def Let_def num_fields_def field_at_def PB_LAST_FIELD_def
      takeWhile_eq_Nil_iff hd_conv_nth)

lemma iter_at_simps:
  assumes "i < num_fields fs"
  shows "start (iter_at fs dest i) = fs \<and> pos (iter_at fs dest i) = i
    \<and> dest_struct (iter_at fs dest i) = dest"
  using assms
proof (induction i)
  case 0
  then show ?case by simp
next
  case (Suc i)
  then have "ftag (field_at fs i) \<noteq> 0" "ftag (field_at fs (Suc i)) \<noteq> 0"
    using ftag_field_at [of i fs] ftag_field_at [of "Suc i" fs] by simp_all
  with Suc show ?case
    by (auto simp: pb_field_iter_next_def Let_def cur_def)
qed

lemma cur_iter_at [simp]: "i < num_fields fs \<Longrightarrow> cur (iter_at fs dest i) = field_at fs i"
  by (simp add: cur_def iter_at_simps)

lemma iter_next_at:
  assumes "i < num_fields fs"
  shows "pb_field_iter_next (iter_at fs dest i) =
    (if Suc i < num_fields fs then (True, iter_at fs dest (Suc i)) else (False, iter_at fs dest 0))"
proof -
  have c: "cur (iter_at fs dest i) = field_at fs i" and t: "ftag (field_at fs i) \<noteq> 0"
    using assms by (simp_all add: ftag_field_at)
  have s: "start (iter_at fs dest i) = fs" "pos (iter_at fs dest i) = i"
    "dest_struct (iter_at fs dest i) = dest"
    using iter_at_simps [OF assms] by simp_all
  show ?thesis
  proof (cases "Suc i < num_fields fs")
    case True
    then have "ftag (field_at fs (Suc i)) \<noteq> 0" by (rule ftag_field_at)
    then have "fst (pb_field_iter_next (iter_at fs dest i))"
      using c t s by (simp add: pb_field_iter_next_def Let_def)
    with True show ?thesis by (simp add: prod_eq_iff)
  next
    case False
    with assms have "Suc i = num_fields fs" by simp
    then have "ftag (field_at fs (Suc i)) = 0" by (simp add: ftag_field_end)
    with False show ?thesis
      using c t s by (simp add: pb_field_iter_next_def Let_def)
  qed
qed

text \<open>The required-field index counts the required fields before the current one.\<close>

lemma required_index_at:
  assumes "i < num_fields fs"
  shows "required_field_index (iter_at fs dest i) =
    length (filter (\<lambda>j. PB_HTYPE (ftype (field_at fs j)) = PB_HTYPE_REQUIRED) [0..<i])"
  using assms
proof (induction i)
  case 0
  then show ?case by (simp add: pb_field_iter_begin_def Let_def)
next
  case (Suc i)
  then have t: "ftag (field_at fs i) \<noteq> 0" "ftag (field_at fs (Suc i)) \<noteq> 0"
    using ftag_field_at [of i fs] ftag_field_at [of "Suc i" fs] by simp_all
  have s: "start (iter_at fs dest i) = fs" "pos (iter_at fs dest i) = i"
    using Suc.prems iter_at_simps [of i fs dest] by simp_all
  have c: "cur (iter_at fs dest i) = field_at fs i" using Suc.prems by simp
  show ?case
    using Suc t s c
    by (auto simp: pb_field_iter_next_def Let_def pb_consts)
qed

section \<open>The search\<close>

text \<open>The positions a round still has to look at, from \<open>i\<close> until it is back at \<open>b\<close>.\<close>

definition round_from :: "nat \<Rightarrow> nat \<Rightarrow> nat \<Rightarrow> nat list" where
  "round_from n b i = (if b \<le> i then [i..<n] @ [0..<b] else [i..<b])"

lemma round_from_step:
  assumes "i < n" and "b < n"
  shows "round_from n b i = i # (let i' = (if Suc i < n then Suc i else 0)
    in if i' \<noteq> b then round_from n b i' else [])"
proof (cases "Suc i < n")
  case True
  with assms show ?thesis by (auto simp: round_from_def upt_conv_Cons Let_def)
next
  case False
  with assms show ?thesis by (auto simp: round_from_def upt_conv_Cons Let_def)
qed

lemma iter_round_spec:
  assumes "i < num_fields fs" and "b < num_fields fs"
    and "length (round_from (num_fields fs) b i) \<le> k"
  shows "iter_round k match b (iter_at fs dest i) =
    (case find (\<lambda>j. match (field_at fs j)) (round_from (num_fields fs) b i) of
       Some j \<Rightarrow> (True, iter_at fs dest j) | None \<Rightarrow> (False, iter_at fs dest b))"
  using assms
proof (induction k arbitrary: i)
  case 0
  then show ?case by (simp add: round_from_step)
next
  case (Suc k)
  let ?n = "num_fields fs"
  define i' where "i' = (if Suc i < ?n then Suc i else 0)"
  have i': "i' < ?n" using Suc.prems by (auto simp: i'_def)
  have step: "round_from ?n b i = i # (if i' \<noteq> b then round_from ?n b i' else [])"
    using round_from_step [OF Suc.prems(1,2)] by (simp add: i'_def Let_def)
  have nxt: "snd (pb_field_iter_next (iter_at fs dest i)) = iter_at fs dest i'"
    using iter_next_at [OF Suc.prems(1), of dest] by (simp add: i'_def del: iter_at.simps)
  have "pos (iter_at fs dest i') = i'" using iter_at_simps [OF i'] by simp
  then show ?case
    using Suc.IH [OF i' Suc.prems(2)] Suc.prems
    by (auto simp: step nxt Let_def simp del: iter_at.simps)
qed

lemma iter_find_spec:
  assumes "i < num_fields fs"
  shows "pb_field_iter_find (iter_at fs dest i) t =
    (case find (\<lambda>j. tag_match t (field_at fs j)) ([i..<num_fields fs] @ [0..<i]) of
       Some j \<Rightarrow> (True, iter_at fs dest j) | None \<Rightarrow> (False, iter_at fs dest i))"
proof -
  have r: "round_from (num_fields fs) i i = [i..<num_fields fs] @ [0..<i]"
    by (simp add: round_from_def)
  show ?thesis
    using iter_round_spec [OF assms assms, of "Suc (length fs)" "tag_match t" dest]
      iter_at_simps [OF assms, of dest] num_fields_le [of fs] assms
    by (simp add: pb_field_iter_find_def r)
qed

text \<open>An empty message type: the search looks at the terminator and gives up.\<close>

lemma iter_find_empty:
  assumes "num_fields fs = 0" and "t \<noteq> 0"
  shows "pb_field_iter_find (snd (pb_field_iter_begin fs dest)) t =
    (False, snd (pb_field_iter_begin fs dest))"
proof -
  have "ftag (field_at fs 0) = 0" using ftag_field_end [of fs] assms(1) by simp
  then show ?thesis
    using assms(2)
    by (simp add: pb_field_iter_find_def tag_match_def cur_def pb_field_iter_next_def Let_def)
qed

section \<open>A full walk\<close>

text \<open>The walk from the first field meets every field once, in array order.\<close>

primrec each_field :: "(pb_field_iter \<Rightarrow> ('s, unit) cmd) \<Rightarrow> pb_field_iter list \<Rightarrow> ('s, unit) cmd" where
  "each_field body [] = returnC ()"
| "each_field body (it # its) = bindC (body it) (\<lambda>_. each_field body its)"

lemma iter_loop_from:
  assumes "i < num_fields fs"
  shows "iter_loop body (iter_at fs dest i) s =
    each_field body (map (iter_at fs dest) [i..<num_fields fs]) s"
  using assms
proof (induction "num_fields fs - i" arbitrary: i s)
  case 0
  then show ?case by simp
next
  case (Suc k)
  have up: "[i..<num_fields fs] = i # [Suc i..<num_fields fs]"
    using Suc.prems by (simp add: upt_conv_Cons)
  show ?case
  proof (cases "Suc i < num_fields fs")
    case True
    then have IH: "iter_loop body (iter_at fs dest (Suc i)) s' =
        each_field body (map (iter_at fs dest) [Suc i..<num_fields fs]) s'" for s'
      using Suc(1) [of "Suc i" s'] Suc(2) by (simp del: iter_at.simps)
    show ?thesis
      using True Suc.prems IH
      by (subst iter_loop.simps)
        (simp add: iter_next_at up bindC_def del: iter_at.simps split: outcome.split)
  next
    case False
    with Suc.prems have "[Suc i..<num_fields fs] = []" by simp
    with False Suc.prems show ?thesis
      by (subst iter_loop.simps) (simp add: iter_next_at up bindC_def split: outcome.split)
  qed
qed

lemma iter_loop_all:
  assumes "0 < num_fields fs"
  shows "iter_loop body (snd (pb_field_iter_begin fs dest)) s =
    each_field body (map (iter_at fs dest) [0..<num_fields fs]) s"
  using iter_loop_from [OF assms, of body dest s] by simp

lemma keeps_each_field [keeps_intros]:
  assumes "reflp R" and "transp R" and "\<And>it. keeps R (body it)"
  shows "keeps R (each_field body its)"
  using assms by (induction its) (auto intro: keeps_intros)

lemma keeps_iter_loop [keeps_intros]:
  assumes "transp R" and "\<And>it. keeps R (body it)"
  shows "keeps R (iter_loop body it)"
proof -
  have "case iter_loop body it s of Ret a s' \<Rightarrow> R s s' | Fail s' \<Rightarrow> R s s' | Stuck \<Rightarrow> True" for s
    using assms(2)
  proof (induction body it s rule: iter_loop.induct)
    case (1 body it s)
    show ?case
    proof (cases "body it s")
      case (Ret u s')
      then have r: "R s s'" using 1(2) by (metis keeps_Ret)
      show ?thesis
      proof (cases "fst (pb_field_iter_next it)")
        case True
        then show ?thesis
          using Ret r 1(1) [OF Ret True 1(2)] assms(1)
          by (subst iter_loop.simps) (auto split: outcome.splits elim: transpE)
      next
        case False
        then show ?thesis using Ret r by (subst iter_loop.simps) simp
      qed
    next
      case (Fail s')
      then have "R s s'" using 1(2) by (metis keeps_Fail)
      then show ?thesis using Fail by (subst iter_loop.simps) simp
    next
      case Stuck
      then show ?thesis by (subst iter_loop.simps) simp
    qed
  qed
  then show ?thesis by (simp add: keeps_def)
qed

section \<open>Addresses\<close>

text \<open>The addresses an iterator visits are offsets from the start of the struct.\<close>

lemma iter_at_shift:
  assumes "i < num_fields fs"
  shows "pData (iter_at fs dest i) = dest + pData (iter_at fs 0 i)
    \<and> pSize (iter_at fs dest i) = dest + pSize (iter_at fs 0 i)"
  using assms
proof (induction i)
  case 0
  then show ?case by (simp add: pb_field_iter_begin_def Let_def)
next
  case (Suc i)
  then have t: "ftag (field_at fs i) \<noteq> 0" "ftag (field_at fs (Suc i)) \<noteq> 0"
    using ftag_field_at [of i fs] ftag_field_at [of "Suc i" fs] by simp_all
  have s: "start (iter_at fs d i) = fs" "pos (iter_at fs d i) = i" "cur (iter_at fs d i) = field_at fs i"
    for d using Suc.prems iter_at_simps [of i fs d] by simp_all
  show ?case
    using Suc t s by (simp add: pb_field_iter_next_def Let_def)
qed

text \<open>
  \<open>visits st fs ms\<close>: the walk over \<open>fs\<close> meets the members \<open>ms\<close> of the struct \<open>st\<close> in
  order, each at its offset, with its \<open>has_\<close> or \<open>_count\<close> member (or, where it has
  neither, itself) as the size member.
\<close>

definition size_member :: "c_struct \<Rightarrow> string \<Rightarrow> string" where
  "size_member st m =
     (if find_member st (''has_'' @ m) \<noteq> None then ''has_'' @ m
      else if find_member st (m @ ''_count'') \<noteq> None then m @ ''_count'' else m)"

primrec walk :: "nat \<Rightarrow> pb_field_iter \<Rightarrow> (addr \<times> addr) list" where
  "walk 0 it = []"
| "walk (Suc k) it = (pData it, pSize it) # walk k (snd (pb_field_iter_next it))"

definition visits :: "c_struct \<Rightarrow> pb_field list \<Rightarrow> string list \<Rightarrow> bool" where
  "visits st fs ms \<longleftrightarrow> num_fields fs = length ms \<and>
     walk (length ms) (snd (pb_field_iter_begin fs 0)) =
       map (\<lambda>m. (int (offsetof st m), int (offsetof st (size_member st m)))) ms"

lemma length_walk [simp]: "length (walk k it) = k"
  by (induction k arbitrary: it) auto

lemma walk_nth:
  "i < k \<Longrightarrow> walk k (iter_at fs dest j) ! i =
    (pData (iter_at fs dest (j + i)), pSize (iter_at fs dest (j + i)))"
proof (induction k arbitrary: i j)
  case (Suc k)
  then show ?case
    using Suc.IH [of "i - 1" "Suc j"] by (cases i) (auto simp del: iter_at.simps(1))
qed simp

lemma visits_at:
  assumes "visits st fs ms" and "i < num_fields fs"
  shows "pData (iter_at fs dest i) = dest + int (offsetof st (ms ! i))"
    and "pSize (iter_at fs dest i) = dest + int (offsetof st (size_member st (ms ! i)))"
proof -
  have "walk (length ms) (iter_at fs 0 0) ! i =
      (int (offsetof st (ms ! i)), int (offsetof st (size_member st (ms ! i))))"
    using assms by (simp add: visits_def)
  then show "pData (iter_at fs dest i) = dest + int (offsetof st (ms ! i))"
    and "pSize (iter_at fs dest i) = dest + int (offsetof st (size_member st (ms ! i)))"
    using walk_nth [of i "length ms" fs 0 0] assms iter_at_shift [OF assms(2), of dest]
    by (simp_all add: visits_def del: iter_at.simps)
qed

end
