(* ===== verification/PbFields.thy ===== *)
theory PbFields
  imports PbCommon
begin

text \<open>
  The part of \<open>nanopb/pb_decode.c\<close> that works on the message struct alone: setting the
  fields of a message to their defaults and releasing what its pointer fields own. Both
  follow the descriptor into submessages and extension lists.

  A pointer to a \<open>pb_extension_type_t\<close> is an address; \<open>ext_arg\<close> gives the descriptor
  array its \<open>arg\<close> points to. The functions that call each other recursively take the
  depth they may still descend to; depth 0 is \<open>Stuck\<close>, as is the use of a NULL
  descriptor.
\<close>

section \<open>Extensions\<close>

type_synonym ext_env = "addr \<Rightarrow> pb_field list"

definition iter_from_extension :: "ext_env \<Rightarrow> addr \<Rightarrow> cmem \<Rightarrow> pb_field_iter" where
  "iter_from_extension ext_arg ext m =
     (let desc = ext_arg (load_ptr m (ext + extension_type));
          dest = load_ptr m (ext + extension_dest);
          it = snd (pb_field_iter_begin desc dest)
      in it\<lparr>pData := (if PB_ATYPE (ftype (field_at desc 0)) = PB_ATYPE_POINTER
                      then ext + extension_dest else dest),
            pSize := ext + extension_found\<rparr>)"

definition with_fields :: "pb_field \<Rightarrow> (pb_field list \<Rightarrow> ('s, 'a) cmd) \<Rightarrow> ('s, 'a) cmd" where
  "with_fields f k = (case fptr f of Fields_ptr fs \<Rightarrow> k fs | Null_ptr \<Rightarrow> stuckC | Const_ptr bs \<Rightarrow> stuckC)"

text \<open>\<open>ext = first; while (ext != NULL) { body; ext = ext->next; }\<close>.\<close>

definition each_extension :: "(addr \<Rightarrow> (cmem, unit) cmd) \<Rightarrow> addr \<Rightarrow> (cmem, unit) cmd" where
  "each_extension body first =
     bindC (loopC (\<lambda>ext m. ext \<noteq> 0)
         (\<lambda>ext. bindC (body ext) (\<lambda>_. getC (\<lambda>m. load_ptr m (ext + extension_next)))) first)
       (\<lambda>_. returnC ())"

text \<open>\<open>pb_realloc\<close> is \<open>realloc\<close>.\<close>

definition pb_realloc :: "addr \<Rightarrow> nat \<Rightarrow> (cmem, addr) cmd" where
  "pb_realloc ptr k = (\<lambda>m. Ret (fst (c_realloc ptr k m)) (snd (c_realloc ptr k m)))"

section \<open>Default values\<close>

definition message_defaults ::
    "(pb_field_iter \<Rightarrow> (cmem, unit) cmd) \<Rightarrow> pb_field list \<Rightarrow> addr \<Rightarrow> (cmem, unit) cmd" where
  "message_defaults set_field desc dest =
     (let (ok, it) = pb_field_iter_begin desc dest
      in if ok then iter_loop set_field it else returnC ())"

definition init_static_data ::
    "(pb_field_iter \<Rightarrow> (cmem, unit) cmd) \<Rightarrow> pb_field_iter \<Rightarrow> (cmem, unit) cmd" where
  "init_static_data set_field it =
     (let f = cur it in
      if PB_LTYPE (ftype f) = PB_LTYPE_SUBMESSAGE
      then with_fields f (\<lambda>sub. message_defaults set_field sub (pData it))
      else case fptr f of
          Const_ptr bs \<Rightarrow> modifyC (store_bytes (pData it) (take (unat (data_size f)) bs))
        | Null_ptr \<Rightarrow> modifyC (c_memset (pData it) 0 (unat (data_size f)))
        | Fields_ptr fs \<Rightarrow> stuckC)"

text \<open>The body of \<open>pb_field_set_to_default\<close>; \<open>set_field\<close> is the recursive call.\<close>

definition field_default_body ::
    "ext_env \<Rightarrow> (pb_field_iter \<Rightarrow> (cmem, unit) cmd) \<Rightarrow> pb_field_iter \<Rightarrow> (cmem, unit) cmd" where
  "field_default_body ext_arg set_field it =
     (let ty = ftype (cur it) in
      if PB_LTYPE ty = PB_LTYPE_EXTENSION
      then bindC (getC (\<lambda>m. load_ptr m (pData it)))
             (each_extension (\<lambda>ext.
                bindC (modifyC (store8 (ext + extension_found) 0)) (\<lambda>_.
                bindC (getC (iter_from_extension ext_arg ext)) set_field)))
      else if PB_ATYPE ty = PB_ATYPE_STATIC then
        (if PB_HTYPE ty = PB_HTYPE_OPTIONAL \<and> pSize it \<noteq> pData it
         then bindC (modifyC (store8 (pSize it) 0)) (\<lambda>_. init_static_data set_field it)
         else if PB_HTYPE ty = PB_HTYPE_REPEATED \<or> PB_HTYPE ty = PB_HTYPE_ONEOF
         then modifyC (store32 (pSize it) 0)
         else init_static_data set_field it)
      else if PB_ATYPE ty = PB_ATYPE_POINTER
      then bindC (modifyC (store_ptr (pData it) 0)) (\<lambda>_.
             if PB_HTYPE ty = PB_HTYPE_REPEATED \<or> PB_HTYPE ty = PB_HTYPE_ONEOF
             then modifyC (store32 (pSize it) 0) else returnC ())
      else returnC ())"

primrec pb_field_set_to_default :: "ext_env \<Rightarrow> nat \<Rightarrow> pb_field_iter \<Rightarrow> (cmem, unit) cmd" where
  "pb_field_set_to_default ext_arg 0 = (\<lambda>it. stuckC)"
| "pb_field_set_to_default ext_arg (Suc n) =
     field_default_body ext_arg (pb_field_set_to_default ext_arg n)"

definition pb_message_set_to_defaults ::
    "ext_env \<Rightarrow> nat \<Rightarrow> pb_field list \<Rightarrow> addr \<Rightarrow> (cmem, unit) cmd" where
  "pb_message_set_to_defaults ext_arg n = message_defaults (pb_field_set_to_default ext_arg n)"

section \<open>Releasing\<close>

text \<open>
  \<open>pb_release\<close>, with the function that releases one field as \<open>release_field\<close>.
\<close>

definition release_message ::
    "(pb_field_iter \<Rightarrow> (cmem, unit) cmd) \<Rightarrow> pb_field list \<Rightarrow> addr \<Rightarrow> (cmem, unit) cmd" where
  "release_message release_field desc dest =
     (if dest = 0 then returnC ()
      else let (ok, it) = pb_field_iter_begin desc dest
           in if ok then iter_loop release_field it else returnC ())"

text \<open>The items of a submessage field: how many, and where the first one is.\<close>

definition submessage_count :: "pb_field_iter \<Rightarrow> cmem \<Rightarrow> nat" where
  "submessage_count it m =
     (let f = cur it; ty = ftype f in
      if PB_HTYPE ty = PB_HTYPE_REPEATED then
        (let count = (if PB_ATYPE ty = PB_ATYPE_STATIC \<and> pSize it = pData it
                      then array_size f else load32 m (pSize it))
         in unat (if PB_ATYPE ty = PB_ATYPE_STATIC \<and> count > array_size f
                  then array_size f else count))
      else 1)"

definition submessage_item :: "pb_field_iter \<Rightarrow> cmem \<Rightarrow> addr" where
  "submessage_item it m =
     (if PB_ATYPE (ftype (cur it)) = PB_ATYPE_POINTER then load_ptr m (pData it) else pData it)"

definition release_submessages ::
    "(pb_field_iter \<Rightarrow> (cmem, unit) cmd) \<Rightarrow> pb_field_iter \<Rightarrow> (cmem, unit) cmd" where
  "release_submessages release_field it =
     bindC (getC (submessage_item it)) (\<lambda>first.
     if first = 0 then returnC ()
     else bindC (getC (submessage_count it)) (\<lambda>count.
          bindC (timesC count
              (\<lambda>item. bindC (with_fields (cur it) (\<lambda>sub. release_message release_field sub item))
                 (\<lambda>_. returnC (item + uint (data_size (cur it)))))
              first)
            (\<lambda>_. returnC ())))"

text \<open>The entries of a repeated string or bytes array, and then the array itself.\<close>

definition release_entries :: "pb_field_iter \<Rightarrow> (cmem, unit) cmd" where
  "release_entries it =
     bindC (getC (\<lambda>m. load_ptr m (pData it))) (\<lambda>first.
     bindC (getC (\<lambda>m. unat (load32 m (pSize it)))) (\<lambda>count.
     bindC (timesC count
         (\<lambda>item. bindC (modifyC (\<lambda>m. store_ptr item 0 (c_free (load_ptr m item) m)))
            (\<lambda>_. returnC (item + int sizeof_ptr)))
         first)
       (\<lambda>_. returnC ())))"

definition release_pointer :: "pb_field_iter \<Rightarrow> (cmem, unit) cmd" where
  "release_pointer it =
     (let ty = ftype (cur it) in
      bindC (if PB_HTYPE ty = PB_HTYPE_REPEATED
                \<and> (PB_LTYPE ty = PB_LTYPE_STRING \<or> PB_LTYPE ty = PB_LTYPE_BYTES)
             then release_entries it else returnC ()) (\<lambda>_.
      bindC (if PB_HTYPE ty = PB_HTYPE_REPEATED then modifyC (store32 (pSize it) 0)
             else returnC ()) (\<lambda>_.
      modifyC (\<lambda>m. store_ptr (pData it) 0 (c_free (load_ptr m (pData it)) m)))))"

definition release_field_body ::
    "ext_env \<Rightarrow> (pb_field_iter \<Rightarrow> (cmem, unit) cmd) \<Rightarrow> pb_field_iter \<Rightarrow> (cmem, unit) cmd" where
  "release_field_body ext_arg release_field it =
     (let f = cur it; ty = ftype f in
      bindC (getC (\<lambda>m. PB_HTYPE ty = PB_HTYPE_ONEOF \<and> load32 m (pSize it) \<noteq> ftag f)) (\<lambda>other.
      if other then returnC ()
      else bindC
        (if PB_LTYPE ty = PB_LTYPE_EXTENSION
         then bindC (getC (\<lambda>m. load_ptr m (pData it)))
                (each_extension (\<lambda>ext.
                   bindC (getC (iter_from_extension ext_arg ext)) release_field))
         else if PB_LTYPE ty = PB_LTYPE_SUBMESSAGE \<and> PB_ATYPE ty \<noteq> PB_ATYPE_CALLBACK
         then release_submessages release_field it
         else returnC ())
        (\<lambda>_. if PB_ATYPE ty = PB_ATYPE_POINTER then release_pointer it else returnC ())))"

primrec pb_release_single_field :: "ext_env \<Rightarrow> nat \<Rightarrow> pb_field_iter \<Rightarrow> (cmem, unit) cmd" where
  "pb_release_single_field ext_arg 0 = (\<lambda>it. stuckC)"
| "pb_release_single_field ext_arg (Suc n) =
     release_field_body ext_arg (pb_release_single_field ext_arg n)"

definition pb_release :: "ext_env \<Rightarrow> nat \<Rightarrow> pb_field list \<Rightarrow> addr \<Rightarrow> (cmem, unit) cmd" where
  "pb_release ext_arg n = release_message (pb_release_single_field ext_arg n)"

end
