(* ===== verification/PbDescriptors.thy ===== *)
theory PbDescriptors
  imports PbFields
begin

text \<open>
  Descriptor arrays that the library can work with: every field type has an encoder and a
  decoder, a submessage has its descriptor, a oneof has its \<open>which_\<close> member, and
  submessages are nested at most \<open>n\<close> deep (extension fields, which lead out of the
  array, are left out). For such arrays the functions on the message struct return.
\<close>

section \<open>Well-formed descriptors\<close>

definition field_ok :: "(pb_field list \<Rightarrow> bool) \<Rightarrow> pb_field \<Rightarrow> bool" where
  "field_ok sub_ok f \<longleftrightarrow>
     (let lt = PB_LTYPE (ftype f) in
      lt \<le> PB_LTYPE_FIXED_LENGTH_BYTES \<and> lt \<noteq> PB_LTYPE_EXTENSION \<and>
      (PB_HTYPE (ftype f) = PB_HTYPE_ONEOF \<longrightarrow> size_offset f \<noteq> 0) \<and>
      (case fptr f of
         Fields_ptr sub \<Rightarrow> lt = PB_LTYPE_SUBMESSAGE \<and>
           (PB_ATYPE (ftype f) = PB_ATYPE_CALLBACK \<or> sub_ok sub)
       | _ \<Rightarrow> lt \<noteq> PB_LTYPE_SUBMESSAGE \<or> PB_ATYPE (ftype f) = PB_ATYPE_CALLBACK))"

primrec desc_ok :: "nat \<Rightarrow> pb_field list \<Rightarrow> bool" where
  "desc_ok 0 desc = False"
| "desc_ok (Suc n) desc = list_all (field_ok (desc_ok n)) desc"

lemma last_field_ok [simp]: "field_ok P PB_LAST_FIELD"
  by (simp add: field_ok_def PB_LAST_FIELD_def PB_LTYPE_def PB_HTYPE_def pb_consts Let_def)

lemma field_at_ok: "desc_ok (Suc n) desc \<Longrightarrow> field_ok (desc_ok n) (field_at desc i)"
  by (auto simp: field_at_def list_all_length)

lemma cur_ok: "desc_ok (Suc n) desc \<Longrightarrow> start it = desc \<Longrightarrow> field_ok (desc_ok n) (cur it)"
  by (auto simp: cur_def field_at_ok)

lemma field_ok_sub:
  "field_ok P f \<Longrightarrow> PB_LTYPE (ftype f) = PB_LTYPE_SUBMESSAGE \<Longrightarrow> PB_ATYPE (ftype f) \<noteq> PB_ATYPE_CALLBACK
    \<Longrightarrow> \<exists>sub. fptr f = Fields_ptr sub \<and> P sub"
  by (auto simp: field_ok_def Let_def split: ptr_target.splits)

section \<open>Iterators stay in their array\<close>

lemma iter_next_start [simp]: "start (snd (pb_field_iter_next it)) = start it"
  by (auto simp: pb_field_iter_next_def Let_def)

lemma iter_round_start [simp]: "start (snd (iter_round k match b it)) = start it"
  by (induction k arbitrary: it) (auto simp: Let_def)

lemma iter_find_start [simp]: "start (snd (pb_field_iter_find it t)) = start it"
  by (simp add: pb_field_iter_find_def del: iter_round.simps)

lemma iter_round_none:
  "(\<And>j. \<not> match (field_at (start it) j)) \<Longrightarrow> \<not> fst (iter_round k match b it)"
  by (induction k arbitrary: it) (auto simp: Let_def cur_def)

lemma answers_iter_loop [answers_intros]:
  assumes "\<And>it. start it = desc \<Longrightarrow> answers (\<lambda>a. True) (body it)" and "start it = desc"
  shows "answers (\<lambda>a. True) (iter_loop body it)"
proof -
  have "iter_loop body it s \<noteq> Stuck" for s
    using assms
  proof (induction body it s rule: iter_loop.induct)
    case (1 body it s)
    show ?case
    proof (cases "body it s")
      case (Ret u s')
      then show ?thesis
        using 1 by (subst iter_loop.simps) auto
    next
      case (Fail s')
      then show ?thesis by (subst iter_loop.simps) simp
    next
      case Stuck
      then show ?thesis using 1(2) [OF 1(3)] by (auto dest: answers_not_Stuck)
    qed
  qed
  then show ?thesis by (rule answersI) simp
qed

section \<open>The message struct\<close>

lemma answers_with_fields:
  "fptr f = Fields_ptr sub \<Longrightarrow> answers P (k sub) \<Longrightarrow> answers P (with_fields f k)"
  by (simp add: with_fields_def)

lemma answers_message_defaults:
  assumes "\<And>it. start it = desc \<Longrightarrow> answers (\<lambda>a. True) (set_field it)"
  shows "answers (\<lambda>a. True) (message_defaults set_field desc dest)"
proof -
  obtain ok it where b: "pb_field_iter_begin desc dest = (ok, it)" by fastforce
  then have "start it = desc" by (metis iter_begin_simps(2) snd_conv)
  then show ?thesis
    unfolding message_defaults_def b Let_def by (auto intro!: answers_intros assms)
qed

lemma answers_init_static:
  assumes "field_ok P (cur it)" and "PB_ATYPE (ftype (cur it)) = PB_ATYPE_STATIC"
    and "\<And>sub. P sub \<Longrightarrow> answers (\<lambda>a. True) (message_defaults set_field sub (pData it))"
  shows "answers (\<lambda>a. True) (init_static_data set_field it)"
proof (cases "PB_LTYPE (ftype (cur it)) = PB_LTYPE_SUBMESSAGE")
  case True
  then obtain sub where "fptr (cur it) = Fields_ptr sub" "P sub"
    using field_ok_sub [OF assms(1)] assms(2) by (auto simp: pb_consts)
  then show ?thesis
    using True assms(3) by (simp add: init_static_data_def with_fields_def)
next
  case False
  then show ?thesis
    using assms(1)
    by (auto simp: init_static_data_def field_ok_def Let_def answers_basic split: ptr_target.splits)
qed

lemma answers_field_default_body:
  assumes "field_ok P (cur it)"
    and sub: "\<And>sub. P sub \<Longrightarrow> answers (\<lambda>a. True) (message_defaults set_field sub (pData it))"
  shows "answers (\<lambda>a. True) (field_default_body ext_arg set_field it)"
proof -
  have lt: "PB_LTYPE (ftype (cur it)) \<noteq> PB_LTYPE_EXTENSION"
    using assms(1) by (auto simp: field_ok_def Let_def)
  show ?thesis
    unfolding field_default_body_def Let_def
    by (simp only: lt if_False) (intro answers_intros answers_init_static [OF assms(1) _ sub])
qed

lemma answers_set_to_default:
  "field_ok (desc_ok n) (cur it) \<Longrightarrow> answers (\<lambda>a. True) (pb_field_set_to_default ext_arg (Suc n) it)"
proof (induction n arbitrary: it)
  case 0
  show ?case
    by (simp only: pb_field_set_to_default.simps) (rule answers_field_default_body [OF 0], simp)
next
  case (Suc n)
  show ?case
    by (simp only: pb_field_set_to_default.simps(2) [of ext_arg "Suc n"],
        rule answers_field_default_body [OF Suc.prems])
      (intro answers_message_defaults Suc.IH cur_ok)
qed

lemma answers_set_to_defaults:
  "desc_ok n desc \<Longrightarrow> answers (\<lambda>a. True) (pb_message_set_to_defaults ext_arg n desc dest)"
  unfolding pb_message_set_to_defaults_def
  by (cases n) (auto intro!: answers_message_defaults answers_set_to_default cur_ok
      simp del: desc_ok.simps(2) pb_field_set_to_default.simps)

lemma answers_release_message:
  assumes "\<And>it. start it = desc \<Longrightarrow> answers (\<lambda>a. True) (rel it)"
  shows "answers (\<lambda>a. True) (release_message rel desc dest)"
proof -
  obtain ok it where b: "pb_field_iter_begin desc dest = (ok, it)" by fastforce
  then have "start it = desc" by (metis iter_begin_simps(2) snd_conv)
  then show ?thesis
    unfolding release_message_def b Let_def by (auto intro!: answers_intros assms)
qed

lemma answers_release_body:
  assumes "field_ok P (cur it)"
    and sub: "\<And>sub item. P sub \<Longrightarrow> answers (\<lambda>a. True) (release_message release_field sub item)"
  shows "answers (\<lambda>a. True) (release_field_body ext_arg release_field it)"
proof -
  have lt: "PB_LTYPE (ftype (cur it)) \<noteq> PB_LTYPE_EXTENSION"
    using assms(1) by (auto simp: field_ok_def Let_def)
  have "answers (\<lambda>a. True) (release_submessages release_field it)"
    if a: "PB_LTYPE (ftype (cur it)) = PB_LTYPE_SUBMESSAGE \<and> PB_ATYPE (ftype (cur it)) \<noteq> PB_ATYPE_CALLBACK"
  proof -
    obtain desc where d: "fptr (cur it) = Fields_ptr desc" "P desc"
      using field_ok_sub [OF assms(1)] a by auto
    show ?thesis
      unfolding release_submessages_def by (intro answers_intros answers_with_fields [OF d(1)] sub d)
  qed
  then show ?thesis
    unfolding release_field_body_def release_pointer_def release_entries_def Let_def
    by (simp only: lt if_False) (intro answers_intros)
qed

lemma answers_release_field:
  "field_ok (desc_ok n) (cur it) \<Longrightarrow> answers (\<lambda>a. True) (pb_release_single_field ext_arg (Suc n) it)"
proof (induction n arbitrary: it)
  case 0
  show ?case
    by (simp only: pb_release_single_field.simps) (rule answers_release_body [OF 0], simp)
next
  case (Suc n)
  show ?case
    by (simp only: pb_release_single_field.simps(2) [of ext_arg "Suc n"],
        rule answers_release_body [OF Suc.prems])
      (intro answers_release_message Suc.IH cur_ok)
qed

lemma answers_release:
  "desc_ok n desc \<Longrightarrow> answers (\<lambda>a. True) (pb_release ext_arg n desc dest)"
  unfolding pb_release_def
  by (cases n) (auto intro!: answers_release_message answers_release_field cur_ok
      simp del: desc_ok.simps(2) pb_release_single_field.simps)

end
