(* ===== verification/CctMessages.thy ===== *)
theory CctMessages
  imports CStructs PbDescriptors
begin

text \<open>
  The messages of the telemetry protocol, as \<open>cct.nanopb.h\<close> and \<open>cct.nanopb.c\<close>
  declare them: enums with the values of their constants, message structs, initializer
  macros, and the field descriptor arrays built by \<open>PB_FIELD\<close> from the struct layouts.
\<close>

section \<open>Enums\<close>

datatype gdt_cct_NetworkConnectionInfo_NetworkType =
  gdt_cct_NetworkConnectionInfo_NetworkType_NONE
  | gdt_cct_NetworkConnectionInfo_NetworkType_MOBILE
  | gdt_cct_NetworkConnectionInfo_NetworkType_WIFI
  | gdt_cct_NetworkConnectionInfo_NetworkType_MOBILE_MMS
  | gdt_cct_NetworkConnectionInfo_NetworkType_MOBILE_SUPL
  | gdt_cct_NetworkConnectionInfo_NetworkType_MOBILE_DUN
  | gdt_cct_NetworkConnectionInfo_NetworkType_MOBILE_HIPRI
  | gdt_cct_NetworkConnectionInfo_NetworkType_WIMAX
  | gdt_cct_NetworkConnectionInfo_NetworkType_BLUETOOTH
  | gdt_cct_NetworkConnectionInfo_NetworkType_DUMMY
  | gdt_cct_NetworkConnectionInfo_NetworkType_ETHERNET
  | gdt_cct_NetworkConnectionInfo_NetworkType_MOBILE_FOTA
  | gdt_cct_NetworkConnectionInfo_NetworkType_MOBILE_IMS
  | gdt_cct_NetworkConnectionInfo_NetworkType_MOBILE_CBS
  | gdt_cct_NetworkConnectionInfo_NetworkType_WIFI_P2P
  | gdt_cct_NetworkConnectionInfo_NetworkType_MOBILE_IA
  | gdt_cct_NetworkConnectionInfo_NetworkType_MOBILE_EMERGENCY
  | gdt_cct_NetworkConnectionInfo_NetworkType_PROXY
  | gdt_cct_NetworkConnectionInfo_NetworkType_VPN

primrec gdt_cct_NetworkConnectionInfo_NetworkType_value :: "gdt_cct_NetworkConnectionInfo_NetworkType \<Rightarrow> int" where
  "gdt_cct_NetworkConnectionInfo_NetworkType_value gdt_cct_NetworkConnectionInfo_NetworkType_NONE = - 1"
| "gdt_cct_NetworkConnectionInfo_NetworkType_value gdt_cct_NetworkConnectionInfo_NetworkType_MOBILE = 0"
| "gdt_cct_NetworkConnectionInfo_NetworkType_value gdt_cct_NetworkConnectionInfo_NetworkType_WIFI = 1"
| "gdt_cct_NetworkConnectionInfo_NetworkType_value gdt_cct_NetworkConnectionInfo_NetworkType_MOBILE_MMS = 2"
| "gdt_cct_NetworkConnectionInfo_NetworkType_value gdt_cct_NetworkConnectionInfo_NetworkType_MOBILE_SUPL = 3"
| "gdt_cct_NetworkConnectionInfo_NetworkType_value gdt_cct_NetworkConnectionInfo_NetworkType_MOBILE_DUN = 4"
| "gdt_cct_NetworkConnectionInfo_NetworkType_value gdt_cct_NetworkConnectionInfo_NetworkType_MOBILE_HIPRI = 5"
| "gdt_cct_NetworkConnectionInfo_NetworkType_value gdt_cct_NetworkConnectionInfo_NetworkType_WIMAX = 6"
| "gdt_cct_NetworkConnectionInfo_NetworkType_value gdt_cct_NetworkConnectionInfo_NetworkType_BLUETOOTH = 7"
| "gdt_cct_NetworkConnectionInfo_NetworkType_value gdt_cct_NetworkConnectionInfo_NetworkType_DUMMY = 8"
| "gdt_cct_NetworkConnectionInfo_NetworkType_value gdt_cct_NetworkConnectionInfo_NetworkType_ETHERNET = 9"
| "gdt_cct_NetworkConnectionInfo_NetworkType_value gdt_cct_NetworkConnectionInfo_NetworkType_MOBILE_FOTA = 10"
| "gdt_cct_NetworkConnectionInfo_NetworkType_value gdt_cct_NetworkConnectionInfo_NetworkType_MOBILE_IMS = 11"
| "gdt_cct_NetworkConnectionInfo_NetworkType_value gdt_cct_NetworkConnectionInfo_NetworkType_MOBILE_CBS = 12"
| "gdt_cct_NetworkConnectionInfo_NetworkType_value gdt_cct_NetworkConnectionInfo_NetworkType_WIFI_P2P = 13"
| "gdt_cct_NetworkConnectionInfo_NetworkType_value gdt_cct_NetworkConnectionInfo_NetworkType_MOBILE_IA = 14"
| "gdt_cct_NetworkConnectionInfo_NetworkType_value gdt_cct_NetworkConnectionInfo_NetworkType_MOBILE_EMERGENCY = 15"
| "gdt_cct_NetworkConnectionInfo_NetworkType_value gdt_cct_NetworkConnectionInfo_NetworkType_PROXY = 16"
| "gdt_cct_NetworkConnectionInfo_NetworkType_value gdt_cct_NetworkConnectionInfo_NetworkType_VPN = 17"

definition gdt_cct_NetworkConnectionInfo_NetworkType_MIN :: int where "gdt_cct_NetworkConnectionInfo_NetworkType_MIN = gdt_cct_NetworkConnectionInfo_NetworkType_value gdt_cct_NetworkConnectionInfo_NetworkType_NONE"
definition gdt_cct_NetworkConnectionInfo_NetworkType_MAX :: int where "gdt_cct_NetworkConnectionInfo_NetworkType_MAX = gdt_cct_NetworkConnectionInfo_NetworkType_value gdt_cct_NetworkConnectionInfo_NetworkType_VPN"

datatype gdt_cct_NetworkConnectionInfo_MobileSubtype =
  gdt_cct_NetworkConnectionInfo_MobileSubtype_UNKNOWN_MOBILE_SUBTYPE
  | gdt_cct_NetworkConnectionInfo_MobileSubtype_GPRS
  | gdt_cct_NetworkConnectionInfo_MobileSubtype_EDGE
  | gdt_cct_NetworkConnectionInfo_MobileSubtype_UMTS
  | gdt_cct_NetworkConnectionInfo_MobileSubtype_CDMA
  | gdt_cct_NetworkConnectionInfo_MobileSubtype_EVDO_0
  | gdt_cct_NetworkConnectionInfo_MobileSubtype_EVDO_A
  | gdt_cct_NetworkConnectionInfo_MobileSubtype_RTT
  | gdt_cct_NetworkConnectionInfo_MobileSubtype_HSDPA
  | gdt_cct_NetworkConnectionInfo_MobileSubtype_HSUPA
  | gdt_cct_NetworkConnectionInfo_MobileSubtype_HSPA
  | gdt_cct_NetworkConnectionInfo_MobileSubtype_IDEN
  | gdt_cct_NetworkConnectionInfo_MobileSubtype_EVDO_B
  | gdt_cct_NetworkConnectionInfo_MobileSubtype_LTE
  | gdt_cct_NetworkConnectionInfo_MobileSubtype_EHRPD
  | gdt_cct_NetworkConnectionInfo_MobileSubtype_HSPAP
  | gdt_cct_NetworkConnectionInfo_MobileSubtype_GSM
  | gdt_cct_NetworkConnectionInfo_MobileSubtype_TD_SCDMA
  | gdt_cct_NetworkConnectionInfo_MobileSubtype_IWLAN
  | gdt_cct_NetworkConnectionInfo_MobileSubtype_LTE_CA
  | gdt_cct_NetworkConnectionInfo_MobileSubtype_COMBINED

primrec gdt_cct_NetworkConnectionInfo_MobileSubtype_value :: "gdt_cct_NetworkConnectionInfo_MobileSubtype \<Rightarrow> int" where
  "gdt_cct_NetworkConnectionInfo_MobileSubtype_value gdt_cct_NetworkConnectionInfo_MobileSubtype_UNKNOWN_MOBILE_SUBTYPE = 0"
| "gdt_cct_NetworkConnectionInfo_MobileSubtype_value gdt_cct_NetworkConnectionInfo_MobileSubtype_GPRS = 1"
| "gdt_cct_NetworkConnectionInfo_MobileSubtype_value gdt_cct_NetworkConnectionInfo_MobileSubtype_EDGE = 2"
| "gdt_cct_NetworkConnectionInfo_MobileSubtype_value gdt_cct_NetworkConnectionInfo_MobileSubtype_UMTS = 3"
| "gdt_cct_NetworkConnectionInfo_MobileSubtype_value gdt_cct_NetworkConnectionInfo_MobileSubtype_CDMA = 4"
| "gdt_cct_NetworkConnectionInfo_MobileSubtype_value gdt_cct_NetworkConnectionInfo_MobileSubtype_EVDO_0 = 5"
| "gdt_cct_NetworkConnectionInfo_MobileSubtype_value gdt_cct_NetworkConnectionInfo_MobileSubtype_EVDO_A = 6"
| "gdt_cct_NetworkConnectionInfo_MobileSubtype_value gdt_cct_NetworkConnectionInfo_MobileSubtype_RTT = 7"
| "gdt_cct_NetworkConnectionInfo_MobileSubtype_value gdt_cct_NetworkConnectionInfo_MobileSubtype_HSDPA = 8"
| "gdt_cct_NetworkConnectionInfo_MobileSubtype_value gdt_cct_NetworkConnectionInfo_MobileSubtype_HSUPA = 9"
| "gdt_cct_NetworkConnectionInfo_MobileSubtype_value gdt_cct_NetworkConnectionInfo_MobileSubtype_HSPA = 10"
| "gdt_cct_NetworkConnectionInfo_MobileSubtype_value gdt_cct_NetworkConnectionInfo_MobileSubtype_IDEN = 11"
| "gdt_cct_NetworkConnectionInfo_MobileSubtype_value gdt_cct_NetworkConnectionInfo_MobileSubtype_EVDO_B = 12"
| "gdt_cct_NetworkConnectionInfo_MobileSubtype_value gdt_cct_NetworkConnectionInfo_MobileSubtype_LTE = 13"
| "gdt_cct_NetworkConnectionInfo_MobileSubtype_value gdt_cct_NetworkConnectionInfo_MobileSubtype_EHRPD = 14"
| "gdt_cct_NetworkConnectionInfo_MobileSubtype_value gdt_cct_NetworkConnectionInfo_MobileSubtype_HSPAP = 15"
| "gdt_cct_NetworkConnectionInfo_MobileSubtype_value gdt_cct_NetworkConnectionInfo_MobileSubtype_GSM = 16"
| "gdt_cct_NetworkConnectionInfo_MobileSubtype_value gdt_cct_NetworkConnectionInfo_MobileSubtype_TD_SCDMA = 17"
| "gdt_cct_NetworkConnectionInfo_MobileSubtype_value gdt_cct_NetworkConnectionInfo_MobileSubtype_IWLAN = 18"
| "gdt_cct_NetworkConnectionInfo_MobileSubtype_value gdt_cct_NetworkConnectionInfo_MobileSubtype_LTE_CA = 19"
| "gdt_cct_NetworkConnectionInfo_MobileSubtype_value gdt_cct_NetworkConnectionInfo_MobileSubtype_COMBINED = 100"

definition gdt_cct_NetworkConnectionInfo_MobileSubtype_MIN :: int where "gdt_cct_NetworkConnectionInfo_MobileSubtype_MIN = gdt_cct_NetworkConnectionInfo_MobileSubtype_value gdt_cct_NetworkConnectionInfo_MobileSubtype_UNKNOWN_MOBILE_SUBTYPE"
definition gdt_cct_NetworkConnectionInfo_MobileSubtype_MAX :: int where "gdt_cct_NetworkConnectionInfo_MobileSubtype_MAX = gdt_cct_NetworkConnectionInfo_MobileSubtype_value gdt_cct_NetworkConnectionInfo_MobileSubtype_COMBINED"

datatype gdt_cct_ClientInfo_ClientType =
  gdt_cct_ClientInfo_ClientType_CLIENT_UNKNOWN
  | gdt_cct_ClientInfo_ClientType_IOS_FIREBASE

primrec gdt_cct_ClientInfo_ClientType_value :: "gdt_cct_ClientInfo_ClientType \<Rightarrow> int" where
  "gdt_cct_ClientInfo_ClientType_value gdt_cct_ClientInfo_ClientType_CLIENT_UNKNOWN = 0"
| "gdt_cct_ClientInfo_ClientType_value gdt_cct_ClientInfo_ClientType_IOS_FIREBASE = 15"

definition gdt_cct_ClientInfo_ClientType_MIN :: int where "gdt_cct_ClientInfo_ClientType_MIN = gdt_cct_ClientInfo_ClientType_value gdt_cct_ClientInfo_ClientType_CLIENT_UNKNOWN"
definition gdt_cct_ClientInfo_ClientType_MAX :: int where "gdt_cct_ClientInfo_ClientType_MAX = gdt_cct_ClientInfo_ClientType_value gdt_cct_ClientInfo_ClientType_IOS_FIREBASE"

datatype gdt_cct_QosTierConfiguration_QosTier =
  gdt_cct_QosTierConfiguration_QosTier_DEFAULT
  | gdt_cct_QosTierConfiguration_QosTier_UNMETERED_ONLY
  | gdt_cct_QosTierConfiguration_QosTier_UNMETERED_OR_DAILY
  | gdt_cct_QosTierConfiguration_QosTier_FAST_IF_RADIO_AWAKE
  | gdt_cct_QosTierConfiguration_QosTier_NEVER

primrec gdt_cct_QosTierConfiguration_QosTier_value :: "gdt_cct_QosTierConfiguration_QosTier \<Rightarrow> int" where
  "gdt_cct_QosTierConfiguration_QosTier_value gdt_cct_QosTierConfiguration_QosTier_DEFAULT = 0"
| "gdt_cct_QosTierConfiguration_QosTier_value gdt_cct_QosTierConfiguration_QosTier_UNMETERED_ONLY = 1"
| "gdt_cct_QosTierConfiguration_QosTier_value gdt_cct_QosTierConfiguration_QosTier_UNMETERED_OR_DAILY = 2"
| "gdt_cct_QosTierConfiguration_QosTier_value gdt_cct_QosTierConfiguration_QosTier_FAST_IF_RADIO_AWAKE = 3"
| "gdt_cct_QosTierConfiguration_QosTier_value gdt_cct_QosTierConfiguration_QosTier_NEVER = 4"

definition gdt_cct_QosTierConfiguration_QosTier_MIN :: int where "gdt_cct_QosTierConfiguration_QosTier_MIN = gdt_cct_QosTierConfiguration_QosTier_value gdt_cct_QosTierConfiguration_QosTier_DEFAULT"
definition gdt_cct_QosTierConfiguration_QosTier_MAX :: int where "gdt_cct_QosTierConfiguration_QosTier_MAX = gdt_cct_QosTierConfiguration_QosTier_value gdt_cct_QosTierConfiguration_QosTier_NEVER"

section \<open>Structs\<close>

definition gdt_cct_IosClientInfo :: c_struct where [struct_defs]:
  "gdt_cct_IosClientInfo =
    [c_pointer ''os_major_version'' sizeof_bytes_array,
     c_pointer ''os_full_version'' sizeof_bytes_array,
     c_pointer ''application_build'' sizeof_bytes_array,
     c_pointer ''country'' sizeof_bytes_array,
     c_pointer ''model'' sizeof_bytes_array,
     c_pointer ''language_code'' sizeof_bytes_array,
     c_pointer ''application_bundle_id'' sizeof_bytes_array]"

definition gdt_cct_ClientInfo :: c_struct where [struct_defs]:
  "gdt_cct_ClientInfo =
    [c_bool ''has_client_type'',
     c_enum ''client_type'',
     c_bool ''has_ios_client_info'',
     c_nested ''ios_client_info'' gdt_cct_IosClientInfo]"

definition gdt_cct_NetworkConnectionInfo :: c_struct where [struct_defs]:
  "gdt_cct_NetworkConnectionInfo =
    [c_bool ''has_network_type'',
     c_enum ''network_type'',
     c_bool ''has_mobile_subtype'',
     c_enum ''mobile_subtype'']"

definition gdt_cct_QosTierConfiguration :: c_struct where [struct_defs]:
  "gdt_cct_QosTierConfiguration =
    [c_bool ''has_qos_tier'',
     c_enum ''qos_tier'',
     c_bool ''has_log_source'',
     c_int32 ''log_source'']"

definition gdt_cct_QosTiersOverride :: c_struct where [struct_defs]:
  "gdt_cct_QosTiersOverride =
    [c_int32 ''qos_tier_configuration_count'',
     c_pointer ''qos_tier_configuration'' (sizeof gdt_cct_QosTierConfiguration),
     c_bool ''has_qos_tier_fingerprint'',
     c_int64 ''qos_tier_fingerprint'']"

definition gdt_cct_LogEvent :: c_struct where [struct_defs]:
  "gdt_cct_LogEvent =
    [c_bool ''has_event_time_ms'',
     c_int64 ''event_time_ms'',
     c_pointer ''source_extension'' sizeof_bytes_array,
     c_bool ''has_event_code'',
     c_int32 ''event_code'',
     c_bool ''has_timezone_offset_seconds'',
     c_int64 ''timezone_offset_seconds'',
     c_bool ''has_event_uptime_ms'',
     c_int64 ''event_uptime_ms'',
     c_bool ''has_network_connection_info'',
     c_nested ''network_connection_info'' gdt_cct_NetworkConnectionInfo]"

definition gdt_cct_LogRequest :: c_struct where [struct_defs]:
  "gdt_cct_LogRequest =
    [c_bool ''has_client_info'',
     c_nested ''client_info'' gdt_cct_ClientInfo,
     c_bool ''has_log_source'',
     c_int32 ''log_source'',
     c_int32 ''log_event_count'',
     c_pointer ''log_event'' (sizeof gdt_cct_LogEvent),
     c_bool ''has_request_time_ms'',
     c_int64 ''request_time_ms'',
     c_bool ''has_request_uptime_ms'',
     c_int64 ''request_uptime_ms'',
     c_bool ''has_qos_tier'',
     c_enum ''qos_tier'']"

definition gdt_cct_BatchedLogRequest :: c_struct where [struct_defs]:
  "gdt_cct_BatchedLogRequest =
    [c_int32 ''log_request_count'',
     c_pointer ''log_request'' (sizeof gdt_cct_LogRequest)]"

definition gdt_cct_LogResponse :: c_struct where [struct_defs]:
  "gdt_cct_LogResponse =
    [c_bool ''has_next_request_wait_millis'',
     c_int64 ''next_request_wait_millis'',
     c_bool ''has_qos_tier'',
     c_nested ''qos_tier'' gdt_cct_QosTiersOverride]"

section \<open>Initializers\<close>

definition gdt_cct_IosClientInfo_init_default :: "c_init list" where [init_defs]:
  "gdt_cct_IosClientInfo_init_default =
    [Init_null, Init_null, Init_null, Init_null, Init_null, Init_null, Init_null]"

definition gdt_cct_ClientInfo_init_default :: "c_init list" where [init_defs]:
  "gdt_cct_ClientInfo_init_default =
    [Init_int 0, Init_int gdt_cct_ClientInfo_ClientType_MIN, Init_int 0,
     Init_struct gdt_cct_IosClientInfo gdt_cct_IosClientInfo_init_default]"

definition gdt_cct_NetworkConnectionInfo_init_default :: "c_init list" where [init_defs]:
  "gdt_cct_NetworkConnectionInfo_init_default =
    [Init_int 0,
     Init_int (gdt_cct_NetworkConnectionInfo_NetworkType_value gdt_cct_NetworkConnectionInfo_NetworkType_NONE),
     Init_int 0,
     Init_int (gdt_cct_NetworkConnectionInfo_MobileSubtype_value gdt_cct_NetworkConnectionInfo_MobileSubtype_UNKNOWN_MOBILE_SUBTYPE)]"

definition gdt_cct_QosTierConfiguration_init_default :: "c_init list" where [init_defs]:
  "gdt_cct_QosTierConfiguration_init_default =
    [Init_int 0, Init_int gdt_cct_QosTierConfiguration_QosTier_MIN, Init_int 0, Init_int 0]"

definition gdt_cct_QosTiersOverride_init_default :: "c_init list" where [init_defs]:
  "gdt_cct_QosTiersOverride_init_default =
    [Init_int 0, Init_null, Init_int 0, Init_int 0]"

definition gdt_cct_LogEvent_init_default :: "c_init list" where [init_defs]:
  "gdt_cct_LogEvent_init_default =
    [Init_int 0, Init_int 0, Init_null, Init_int 0, Init_int 0, Init_int 0, Init_int 0,
     Init_int 0, Init_int 0, Init_int 0,
     Init_struct gdt_cct_NetworkConnectionInfo gdt_cct_NetworkConnectionInfo_init_default]"

definition gdt_cct_LogRequest_init_default :: "c_init list" where [init_defs]:
  "gdt_cct_LogRequest_init_default =
    [Init_int 0, Init_struct gdt_cct_ClientInfo gdt_cct_ClientInfo_init_default, Init_int 0,
     Init_int 0, Init_int 0, Init_null, Init_int 0, Init_int 0, Init_int 0, Init_int 0,
     Init_int 0,
     Init_int (gdt_cct_QosTierConfiguration_QosTier_value gdt_cct_QosTierConfiguration_QosTier_DEFAULT)]"

definition gdt_cct_BatchedLogRequest_init_default :: "c_init list" where [init_defs]:
  "gdt_cct_BatchedLogRequest_init_default =
    [Init_int 0, Init_null]"

definition gdt_cct_LogResponse_init_default :: "c_init list" where [init_defs]:
  "gdt_cct_LogResponse_init_default =
    [Init_int 0, Init_int 0, Init_int 0,
     Init_struct gdt_cct_QosTiersOverride gdt_cct_QosTiersOverride_init_default]"

definition gdt_cct_IosClientInfo_init_zero :: "c_init list" where [init_defs]:
  "gdt_cct_IosClientInfo_init_zero =
    [Init_null, Init_null, Init_null, Init_null, Init_null, Init_null, Init_null]"

definition gdt_cct_ClientInfo_init_zero :: "c_init list" where [init_defs]:
  "gdt_cct_ClientInfo_init_zero =
    [Init_int 0, Init_int gdt_cct_ClientInfo_ClientType_MIN, Init_int 0,
     Init_struct gdt_cct_IosClientInfo gdt_cct_IosClientInfo_init_zero]"

definition gdt_cct_NetworkConnectionInfo_init_zero :: "c_init list" where [init_defs]:
  "gdt_cct_NetworkConnectionInfo_init_zero =
    [Init_int 0, Init_int gdt_cct_NetworkConnectionInfo_NetworkType_MIN, Init_int 0,
     Init_int gdt_cct_NetworkConnectionInfo_MobileSubtype_MIN]"

definition gdt_cct_QosTierConfiguration_init_zero :: "c_init list" where [init_defs]:
  "gdt_cct_QosTierConfiguration_init_zero =
    [Init_int 0, Init_int gdt_cct_QosTierConfiguration_QosTier_MIN, Init_int 0, Init_int 0]"

definition gdt_cct_QosTiersOverride_init_zero :: "c_init list" where [init_defs]:
  "gdt_cct_QosTiersOverride_init_zero =
    [Init_int 0, Init_null, Init_int 0, Init_int 0]"

definition gdt_cct_LogEvent_init_zero :: "c_init list" where [init_defs]:
  "gdt_cct_LogEvent_init_zero =
    [Init_int 0, Init_int 0, Init_null, Init_int 0, Init_int 0, Init_int 0, Init_int 0,
     Init_int 0, Init_int 0, Init_int 0,
     Init_struct gdt_cct_NetworkConnectionInfo gdt_cct_NetworkConnectionInfo_init_zero]"

definition gdt_cct_LogRequest_init_zero :: "c_init list" where [init_defs]:
  "gdt_cct_LogRequest_init_zero =
    [Init_int 0, Init_struct gdt_cct_ClientInfo gdt_cct_ClientInfo_init_zero, Init_int 0,
     Init_int 0, Init_int 0, Init_null, Init_int 0, Init_int 0, Init_int 0, Init_int 0,
     Init_int 0, Init_int gdt_cct_QosTierConfiguration_QosTier_MIN]"

definition gdt_cct_BatchedLogRequest_init_zero :: "c_init list" where [init_defs]:
  "gdt_cct_BatchedLogRequest_init_zero =
    [Init_int 0, Init_null]"

definition gdt_cct_LogResponse_init_zero :: "c_init list" where [init_defs]:
  "gdt_cct_LogResponse_init_zero =
    [Init_int 0, Init_int 0, Init_int 0,
     Init_struct gdt_cct_QosTiersOverride gdt_cct_QosTiersOverride_init_zero]"

section \<open>Field descriptors\<close>

text \<open>The constants that descriptors point to, as the four bytes of an int.\<close>

definition c_const :: "int \<Rightarrow> byte list" where
  "c_const v = le_bytes 4 (word_of_int v :: u32)"

definition gdt_cct_NetworkConnectionInfo_network_type_default :: "byte list" where [fields_defs]:
  "gdt_cct_NetworkConnectionInfo_network_type_default =
    c_const (gdt_cct_NetworkConnectionInfo_NetworkType_value gdt_cct_NetworkConnectionInfo_NetworkType_NONE)"

definition gdt_cct_NetworkConnectionInfo_mobile_subtype_default :: "byte list" where [fields_defs]:
  "gdt_cct_NetworkConnectionInfo_mobile_subtype_default =
    c_const (gdt_cct_NetworkConnectionInfo_MobileSubtype_value
      gdt_cct_NetworkConnectionInfo_MobileSubtype_UNKNOWN_MOBILE_SUBTYPE)"

definition gdt_cct_LogRequest_qos_tier_default :: "byte list" where [fields_defs]:
  "gdt_cct_LogRequest_qos_tier_default =
    c_const (gdt_cct_QosTierConfiguration_QosTier_value gdt_cct_QosTierConfiguration_QosTier_DEFAULT)"

definition gdt_cct_QosTierConfiguration_log_source_default :: "byte list" where [fields_defs]:
  "gdt_cct_QosTierConfiguration_log_source_default = c_const 0"

definition gdt_cct_IosClientInfo_fields :: "pb_field list" where [fields_defs]:
  "gdt_cct_IosClientInfo_fields =
    [PB_FIELD 3 BYTES OPTIONAL POINTER FIRST gdt_cct_IosClientInfo ''os_major_version'' ''os_major_version'' Null_ptr,
     PB_FIELD 4 BYTES OPTIONAL POINTER OTHER gdt_cct_IosClientInfo ''os_full_version'' ''os_major_version'' Null_ptr,
     PB_FIELD 5 BYTES OPTIONAL POINTER OTHER gdt_cct_IosClientInfo ''application_build'' ''os_full_version'' Null_ptr,
     PB_FIELD 6 BYTES OPTIONAL POINTER OTHER gdt_cct_IosClientInfo ''country'' ''application_build'' Null_ptr,
     PB_FIELD 7 BYTES OPTIONAL POINTER OTHER gdt_cct_IosClientInfo ''model'' ''country'' Null_ptr,
     PB_FIELD 8 BYTES OPTIONAL POINTER OTHER gdt_cct_IosClientInfo ''language_code'' ''model'' Null_ptr,
     PB_FIELD 11 BYTES OPTIONAL POINTER OTHER gdt_cct_IosClientInfo ''application_bundle_id'' ''language_code'' Null_ptr,
     PB_LAST_FIELD]"

definition gdt_cct_ClientInfo_fields :: "pb_field list" where [fields_defs]:
  "gdt_cct_ClientInfo_fields =
    [PB_FIELD 1 UENUM OPTIONAL STATIC FIRST gdt_cct_ClientInfo ''client_type'' ''client_type'' Null_ptr,
     PB_FIELD 4 MESSAGE OPTIONAL STATIC OTHER gdt_cct_ClientInfo ''ios_client_info'' ''client_type'' (Fields_ptr gdt_cct_IosClientInfo_fields),
     PB_LAST_FIELD]"

definition gdt_cct_NetworkConnectionInfo_fields :: "pb_field list" where [fields_defs]:
  "gdt_cct_NetworkConnectionInfo_fields =
    [PB_FIELD 1 ENUM OPTIONAL STATIC FIRST gdt_cct_NetworkConnectionInfo ''network_type'' ''network_type'' (Const_ptr gdt_cct_NetworkConnectionInfo_network_type_default),
     PB_FIELD 2 UENUM OPTIONAL STATIC OTHER gdt_cct_NetworkConnectionInfo ''mobile_subtype'' ''network_type'' (Const_ptr gdt_cct_NetworkConnectionInfo_mobile_subtype_default),
     PB_LAST_FIELD]"

definition gdt_cct_QosTierConfiguration_fields :: "pb_field list" where [fields_defs]:
  "gdt_cct_QosTierConfiguration_fields =
    [PB_FIELD 2 UENUM OPTIONAL STATIC FIRST gdt_cct_QosTierConfiguration ''qos_tier'' ''qos_tier'' Null_ptr,
     PB_FIELD 3 INT32 OPTIONAL STATIC OTHER gdt_cct_QosTierConfiguration ''log_source'' ''qos_tier'' (Const_ptr gdt_cct_QosTierConfiguration_log_source_default),
     PB_LAST_FIELD]"

definition gdt_cct_QosTiersOverride_fields :: "pb_field list" where [fields_defs]:
  "gdt_cct_QosTiersOverride_fields =
    [PB_FIELD 1 MESSAGE REPEATED POINTER FIRST gdt_cct_QosTiersOverride ''qos_tier_configuration'' ''qos_tier_configuration'' (Fields_ptr gdt_cct_QosTierConfiguration_fields),
     PB_FIELD 2 INT64 OPTIONAL STATIC OTHER gdt_cct_QosTiersOverride ''qos_tier_fingerprint'' ''qos_tier_configuration'' Null_ptr,
     PB_LAST_FIELD]"

definition gdt_cct_LogEvent_fields :: "pb_field list" where [fields_defs]:
  "gdt_cct_LogEvent_fields =
    [PB_FIELD 1 INT64 OPTIONAL STATIC FIRST gdt_cct_LogEvent ''event_time_ms'' ''event_time_ms'' Null_ptr,
     PB_FIELD 6 BYTES OPTIONAL POINTER OTHER gdt_cct_LogEvent ''source_extension'' ''event_time_ms'' Null_ptr,
     PB_FIELD 11 INT32 OPTIONAL STATIC OTHER gdt_cct_LogEvent ''event_code'' ''source_extension'' Null_ptr,
     PB_FIELD 15 SINT64 OPTIONAL STATIC OTHER gdt_cct_LogEvent ''timezone_offset_seconds'' ''event_code'' Null_ptr,
     PB_FIELD 17 INT64 OPTIONAL STATIC OTHER gdt_cct_LogEvent ''event_uptime_ms'' ''timezone_offset_seconds'' Null_ptr,
     PB_FIELD 23 MESSAGE OPTIONAL STATIC OTHER gdt_cct_LogEvent ''network_connection_info'' ''event_uptime_ms'' (Fields_ptr gdt_cct_NetworkConnectionInfo_fields),
     PB_LAST_FIELD]"

definition gdt_cct_LogRequest_fields :: "pb_field list" where [fields_defs]:
  "gdt_cct_LogRequest_fields =
    [PB_FIELD 1 MESSAGE OPTIONAL STATIC FIRST gdt_cct_LogRequest ''client_info'' ''client_info'' (Fields_ptr gdt_cct_ClientInfo_fields),
     PB_FIELD 2 INT32 OPTIONAL STATIC OTHER gdt_cct_LogRequest ''log_source'' ''client_info'' Null_ptr,
     PB_FIELD 3 MESSAGE REPEATED POINTER OTHER gdt_cct_LogRequest ''log_event'' ''log_source'' (Fields_ptr gdt_cct_LogEvent_fields),
     PB_FIELD 4 INT64 OPTIONAL STATIC OTHER gdt_cct_LogRequest ''request_time_ms'' ''log_event'' Null_ptr,
     PB_FIELD 8 INT64 OPTIONAL STATIC OTHER gdt_cct_LogRequest ''request_uptime_ms'' ''request_time_ms'' Null_ptr,
     PB_FIELD 9 UENUM OPTIONAL STATIC OTHER gdt_cct_LogRequest ''qos_tier'' ''request_uptime_ms'' (Const_ptr gdt_cct_LogRequest_qos_tier_default),
     PB_LAST_FIELD]"

definition gdt_cct_BatchedLogRequest_fields :: "pb_field list" where [fields_defs]:
  "gdt_cct_BatchedLogRequest_fields =
    [PB_FIELD 1 MESSAGE REPEATED POINTER FIRST gdt_cct_BatchedLogRequest ''log_request'' ''log_request'' (Fields_ptr gdt_cct_LogRequest_fields),
     PB_LAST_FIELD]"

definition gdt_cct_LogResponse_fields :: "pb_field list" where [fields_defs]:
  "gdt_cct_LogResponse_fields =
    [PB_FIELD 1 INT64 OPTIONAL STATIC FIRST gdt_cct_LogResponse ''next_request_wait_millis'' ''next_request_wait_millis'' Null_ptr,
     PB_FIELD 3 MESSAGE OPTIONAL STATIC OTHER gdt_cct_LogResponse ''qos_tier'' ''next_request_wait_millis'' (Fields_ptr gdt_cct_QosTiersOverride_fields),
     PB_LAST_FIELD]"

section \<open>Layouts\<close>

text \<open>
  The offsets that the ABI gives the members, and the numbers the descriptor macros compute
  from them.
\<close>

lemma gdt_cct_IosClientInfo_layout [layouts]:
  "layout_from 0 gdt_cct_IosClientInfo =
    [(''os_major_version'', 0), (''os_full_version'', 8), (''application_build'', 16),
     (''country'', 24), (''model'', 32), (''language_code'', 40),
     (''application_bundle_id'', 48)]"
  by code_simp

lemma gdt_cct_ClientInfo_layout [layouts]:
  "layout_from 0 gdt_cct_ClientInfo =
    [(''has_client_type'', 0), (''client_type'', 4), (''has_ios_client_info'', 8),
     (''ios_client_info'', 16)]"
  by code_simp

lemma gdt_cct_NetworkConnectionInfo_layout [layouts]:
  "layout_from 0 gdt_cct_NetworkConnectionInfo =
    [(''has_network_type'', 0), (''network_type'', 4), (''has_mobile_subtype'', 8),
     (''mobile_subtype'', 12)]"
  by code_simp

lemma gdt_cct_QosTierConfiguration_layout [layouts]:
  "layout_from 0 gdt_cct_QosTierConfiguration =
    [(''has_qos_tier'', 0), (''qos_tier'', 4), (''has_log_source'', 8), (''log_source'', 12)]"
  by code_simp

lemma gdt_cct_QosTiersOverride_layout [layouts]:
  "layout_from 0 gdt_cct_QosTiersOverride =
    [(''qos_tier_configuration_count'', 0), (''qos_tier_configuration'', 8),
     (''has_qos_tier_fingerprint'', 16), (''qos_tier_fingerprint'', 24)]"
  by code_simp

lemma gdt_cct_LogEvent_layout [layouts]:
  "layout_from 0 gdt_cct_LogEvent =
    [(''has_event_time_ms'', 0), (''event_time_ms'', 8), (''source_extension'', 16),
     (''has_event_code'', 24), (''event_code'', 28), (''has_timezone_offset_seconds'', 32),
     (''timezone_offset_seconds'', 40), (''has_event_uptime_ms'', 48),
     (''event_uptime_ms'', 56), (''has_network_connection_info'', 64),
     (''network_connection_info'', 68)]"
  by code_simp

lemma gdt_cct_LogRequest_layout [layouts]:
  "layout_from 0 gdt_cct_LogRequest =
    [(''has_client_info'', 0), (''client_info'', 8), (''has_log_source'', 80),
     (''log_source'', 84), (''log_event_count'', 88), (''log_event'', 96),
     (''has_request_time_ms'', 104), (''request_time_ms'', 112),
     (''has_request_uptime_ms'', 120), (''request_uptime_ms'', 128), (''has_qos_tier'', 136),
     (''qos_tier'', 140)]"
  by code_simp

lemma gdt_cct_BatchedLogRequest_layout [layouts]:
  "layout_from 0 gdt_cct_BatchedLogRequest =
    [(''log_request_count'', 0), (''log_request'', 8)]"
  by code_simp

lemma gdt_cct_LogResponse_layout [layouts]:
  "layout_from 0 gdt_cct_LogResponse =
    [(''has_next_request_wait_millis'', 0), (''next_request_wait_millis'', 8),
     (''has_qos_tier'', 16), (''qos_tier'', 24)]"
  by code_simp

lemma gdt_cct_IosClientInfo_sizeof [sizeofs]: "sizeof gdt_cct_IosClientInfo = 56" "struct_align gdt_cct_IosClientInfo = 8"
  unfolding gdt_cct_IosClientInfo_def c_nested_def sizeofs by (simp_all add: sizeof_simps)

lemma gdt_cct_ClientInfo_sizeof [sizeofs]: "sizeof gdt_cct_ClientInfo = 72" "struct_align gdt_cct_ClientInfo = 8"
  unfolding gdt_cct_ClientInfo_def c_nested_def sizeofs by (simp_all add: sizeof_simps)

lemma gdt_cct_NetworkConnectionInfo_sizeof [sizeofs]: "sizeof gdt_cct_NetworkConnectionInfo = 16" "struct_align gdt_cct_NetworkConnectionInfo = 4"
  unfolding gdt_cct_NetworkConnectionInfo_def c_nested_def sizeofs by (simp_all add: sizeof_simps)

lemma gdt_cct_QosTierConfiguration_sizeof [sizeofs]: "sizeof gdt_cct_QosTierConfiguration = 16" "struct_align gdt_cct_QosTierConfiguration = 4"
  unfolding gdt_cct_QosTierConfiguration_def c_nested_def sizeofs by (simp_all add: sizeof_simps)

lemma gdt_cct_QosTiersOverride_sizeof [sizeofs]: "sizeof gdt_cct_QosTiersOverride = 32" "struct_align gdt_cct_QosTiersOverride = 8"
  unfolding gdt_cct_QosTiersOverride_def c_nested_def sizeofs by (simp_all add: sizeof_simps)

lemma gdt_cct_LogEvent_sizeof [sizeofs]: "sizeof gdt_cct_LogEvent = 88" "struct_align gdt_cct_LogEvent = 8"
  unfolding gdt_cct_LogEvent_def c_nested_def sizeofs by (simp_all add: sizeof_simps)

lemma gdt_cct_LogRequest_sizeof [sizeofs]: "sizeof gdt_cct_LogRequest = 144" "struct_align gdt_cct_LogRequest = 8"
  unfolding gdt_cct_LogRequest_def c_nested_def sizeofs by (simp_all add: sizeof_simps)

lemma gdt_cct_BatchedLogRequest_sizeof [sizeofs]: "sizeof gdt_cct_BatchedLogRequest = 16" "struct_align gdt_cct_BatchedLogRequest = 8"
  unfolding gdt_cct_BatchedLogRequest_def c_nested_def sizeofs by (simp_all add: sizeof_simps)

lemma gdt_cct_LogResponse_sizeof [sizeofs]: "sizeof gdt_cct_LogResponse = 56" "struct_align gdt_cct_LogResponse = 8"
  unfolding gdt_cct_LogResponse_def c_nested_def sizeofs by (simp_all add: sizeof_simps)

lemma gdt_cct_IosClientInfo_fields_eq [fields_eqs]:
  "gdt_cct_IosClientInfo_fields =
    [PbField 3 150 0 0 8 0 Null_ptr, PbField 4 150 0 0 8 0 Null_ptr,
     PbField 5 150 0 0 8 0 Null_ptr, PbField 6 150 0 0 8 0 Null_ptr,
     PbField 7 150 0 0 8 0 Null_ptr, PbField 8 150 0 0 8 0 Null_ptr,
     PbField 11 150 0 0 8 0 Null_ptr, PB_LAST_FIELD]"
  unfolding gdt_cct_IosClientInfo_fields_def field_macros offsetof_def layouts by code_simp

lemma gdt_cct_ClientInfo_fields_eq [fields_eqs]:
  "gdt_cct_ClientInfo_fields =
    [PbField 1 18 4 (- 4) 4 0 Null_ptr,
     PbField 4 24 8 (- 8) 56 0 (Fields_ptr gdt_cct_IosClientInfo_fields), PB_LAST_FIELD]"
  unfolding gdt_cct_ClientInfo_fields_def field_macros offsetof_def layouts by code_simp

lemma gdt_cct_NetworkConnectionInfo_fields_eq [fields_eqs]:
  "gdt_cct_NetworkConnectionInfo_fields =
    [PbField 1 17 4 (- 4) 4 0 (Const_ptr gdt_cct_NetworkConnectionInfo_network_type_default),
     PbField 2 18 4 (- 4) 4 0 (Const_ptr gdt_cct_NetworkConnectionInfo_mobile_subtype_default),
     PB_LAST_FIELD]"
  unfolding gdt_cct_NetworkConnectionInfo_fields_def field_macros offsetof_def layouts by code_simp

lemma gdt_cct_QosTierConfiguration_fields_eq [fields_eqs]:
  "gdt_cct_QosTierConfiguration_fields =
    [PbField 2 18 4 (- 4) 4 0 Null_ptr,
     PbField 3 17 4 (- 4) 4 0 (Const_ptr gdt_cct_QosTierConfiguration_log_source_default),
     PB_LAST_FIELD]"
  unfolding gdt_cct_QosTierConfiguration_fields_def field_macros offsetof_def layouts by code_simp

lemma gdt_cct_QosTiersOverride_fields_eq [fields_eqs]:
  "gdt_cct_QosTiersOverride_fields =
    [PbField 1 168 8 (- 8) 16 0 (Fields_ptr gdt_cct_QosTierConfiguration_fields),
     PbField 2 17 8 (- 8) 8 0 Null_ptr, PB_LAST_FIELD]"
  unfolding gdt_cct_QosTiersOverride_fields_def field_macros offsetof_def layouts by code_simp

lemma gdt_cct_LogEvent_fields_eq [fields_eqs]:
  "gdt_cct_LogEvent_fields =
    [PbField 1 17 8 (- 8) 8 0 Null_ptr, PbField 6 150 0 0 8 0 Null_ptr,
     PbField 11 17 4 (- 4) 4 0 Null_ptr, PbField 15 19 8 (- 8) 8 0 Null_ptr,
     PbField 17 17 8 (- 8) 8 0 Null_ptr,
     PbField 23 24 4 (- 4) 16 0 (Fields_ptr gdt_cct_NetworkConnectionInfo_fields),
     PB_LAST_FIELD]"
  unfolding gdt_cct_LogEvent_fields_def field_macros offsetof_def layouts by code_simp

lemma gdt_cct_LogRequest_fields_eq [fields_eqs]:
  "gdt_cct_LogRequest_fields =
    [PbField 1 24 8 (- 8) 72 0 (Fields_ptr gdt_cct_ClientInfo_fields),
     PbField 2 17 4 (- 4) 4 0 Null_ptr,
     PbField 3 168 8 (- 8) 88 0 (Fields_ptr gdt_cct_LogEvent_fields),
     PbField 4 17 8 (- 8) 8 0 Null_ptr, PbField 8 17 8 (- 8) 8 0 Null_ptr,
     PbField 9 18 4 (- 4) 4 0 (Const_ptr gdt_cct_LogRequest_qos_tier_default), PB_LAST_FIELD]"
  unfolding gdt_cct_LogRequest_fields_def field_macros offsetof_def layouts by code_simp

lemma gdt_cct_BatchedLogRequest_fields_eq [fields_eqs]:
  "gdt_cct_BatchedLogRequest_fields =
    [PbField 1 168 8 (- 8) 144 0 (Fields_ptr gdt_cct_LogRequest_fields), PB_LAST_FIELD]"
  unfolding gdt_cct_BatchedLogRequest_fields_def field_macros offsetof_def layouts by code_simp

lemma gdt_cct_LogResponse_fields_eq [fields_eqs]:
  "gdt_cct_LogResponse_fields =
    [PbField 1 17 8 (- 8) 8 0 Null_ptr,
     PbField 3 24 8 (- 8) 32 0 (Fields_ptr gdt_cct_QosTiersOverride_fields), PB_LAST_FIELD]"
  unfolding gdt_cct_LogResponse_fields_def field_macros offsetof_def layouts by code_simp

lemma gdt_cct_IosClientInfo_visits:
  "visits gdt_cct_IosClientInfo gdt_cct_IosClientInfo_fields
     [''os_major_version'', ''os_full_version'', ''application_build'', ''country'', ''model'',
     ''language_code'', ''application_bundle_id'']"
  unfolding gdt_cct_IosClientInfo_fields_eq visits_def offsetof_def layouts by code_simp

lemma gdt_cct_ClientInfo_visits:
  "visits gdt_cct_ClientInfo gdt_cct_ClientInfo_fields
     [''client_type'', ''ios_client_info'']"
  unfolding gdt_cct_ClientInfo_fields_eq visits_def offsetof_def layouts by code_simp

lemma gdt_cct_NetworkConnectionInfo_visits:
  "visits gdt_cct_NetworkConnectionInfo gdt_cct_NetworkConnectionInfo_fields
     [''network_type'', ''mobile_subtype'']"
  unfolding gdt_cct_NetworkConnectionInfo_fields_eq visits_def offsetof_def layouts by code_simp

lemma gdt_cct_QosTierConfiguration_visits:
  "visits gdt_cct_QosTierConfiguration gdt_cct_QosTierConfiguration_fields
     [''qos_tier'', ''log_source'']"
  unfolding gdt_cct_QosTierConfiguration_fields_eq visits_def offsetof_def layouts by code_simp

lemma gdt_cct_QosTiersOverride_visits:
  "visits gdt_cct_QosTiersOverride gdt_cct_QosTiersOverride_fields
     [''qos_tier_configuration'', ''qos_tier_fingerprint'']"
  unfolding gdt_cct_QosTiersOverride_fields_eq visits_def offsetof_def layouts by code_simp

lemma gdt_cct_LogEvent_visits:
  "visits gdt_cct_LogEvent gdt_cct_LogEvent_fields
     [''event_time_ms'', ''source_extension'', ''event_code'', ''timezone_offset_seconds'',
     ''event_uptime_ms'', ''network_connection_info'']"
  unfolding gdt_cct_LogEvent_fields_eq visits_def offsetof_def layouts by code_simp

lemma gdt_cct_LogRequest_visits:
  "visits gdt_cct_LogRequest gdt_cct_LogRequest_fields
     [''client_info'', ''log_source'', ''log_event'', ''request_time_ms'',
     ''request_uptime_ms'', ''qos_tier'']"
  unfolding gdt_cct_LogRequest_fields_eq visits_def offsetof_def layouts by code_simp

lemma gdt_cct_BatchedLogRequest_visits:
  "visits gdt_cct_BatchedLogRequest gdt_cct_BatchedLogRequest_fields
     [''log_request'']"
  unfolding gdt_cct_BatchedLogRequest_fields_eq visits_def offsetof_def layouts by code_simp

lemma gdt_cct_LogResponse_visits:
  "visits gdt_cct_LogResponse gdt_cct_LogResponse_fields
     [''next_request_wait_millis'', ''qos_tier'']"
  unfolding gdt_cct_LogResponse_fields_eq visits_def offsetof_def layouts by code_simp

text \<open>All message types, each with its struct, its descriptor array and the members its fields name.\<close>

definition telemetry_messages :: "(c_struct \<times> pb_field list \<times> string list) list" where
  "telemetry_messages =
    [(gdt_cct_IosClientInfo, gdt_cct_IosClientInfo_fields,
       [''os_major_version'', ''os_full_version'', ''application_build'', ''country'', ''model'',
        ''language_code'', ''application_bundle_id'']),
     (gdt_cct_ClientInfo, gdt_cct_ClientInfo_fields,
       [''client_type'', ''ios_client_info'']),
     (gdt_cct_NetworkConnectionInfo, gdt_cct_NetworkConnectionInfo_fields,
       [''network_type'', ''mobile_subtype'']),
     (gdt_cct_QosTierConfiguration, gdt_cct_QosTierConfiguration_fields,
       [''qos_tier'', ''log_source'']),
     (gdt_cct_QosTiersOverride, gdt_cct_QosTiersOverride_fields,
       [''qos_tier_configuration'', ''qos_tier_fingerprint'']),
     (gdt_cct_LogEvent, gdt_cct_LogEvent_fields,
       [''event_time_ms'', ''source_extension'', ''event_code'', ''timezone_offset_seconds'',
        ''event_uptime_ms'', ''network_connection_info'']),
     (gdt_cct_LogRequest, gdt_cct_LogRequest_fields,
       [''client_info'', ''log_source'', ''log_event'', ''request_time_ms'', ''request_uptime_ms'',
        ''qos_tier'']),
     (gdt_cct_BatchedLogRequest, gdt_cct_BatchedLogRequest_fields,
       [''log_request'']),
     (gdt_cct_LogResponse, gdt_cct_LogResponse_fields,
       [''next_request_wait_millis'', ''qos_tier''])]"

lemma telemetry_messages_visits:
  "(st, fs, ms) \<in> set telemetry_messages \<Longrightarrow> visits st fs ms"
  unfolding telemetry_messages_def using gdt_cct_IosClientInfo_visits gdt_cct_ClientInfo_visits gdt_cct_NetworkConnectionInfo_visits gdt_cct_QosTierConfiguration_visits gdt_cct_QosTiersOverride_visits gdt_cct_LogEvent_visits gdt_cct_LogRequest_visits gdt_cct_BatchedLogRequest_visits gdt_cct_LogResponse_visits by auto

end
