(* ===== verification/FirebaseCoreMessages.thy ===== *)
theory FirebaseCoreMessages
  imports CStructs PbDescriptors
begin

text \<open>
  The diagnostics message, as \<open>firebasecore.nanopb.h\<close> and \<open>firebasecore.nanopb.c\<close>
  declare it. The prefix \<open>logs_proto_mobilesdk_ios_\<close> of every name is left out.
\<close>

section \<open>Enums\<close>

datatype ICoreConfiguration_ConfigurationType =
  ICoreConfiguration_ConfigurationType_UNKNOWN_CONFIGURATION_TYPE
  | ICoreConfiguration_ConfigurationType_CORE
  | ICoreConfiguration_ConfigurationType_SDK

primrec ICoreConfiguration_ConfigurationType_value :: "ICoreConfiguration_ConfigurationType \<Rightarrow> int" where
  "ICoreConfiguration_ConfigurationType_value ICoreConfiguration_ConfigurationType_UNKNOWN_CONFIGURATION_TYPE = 0"
| "ICoreConfiguration_ConfigurationType_value ICoreConfiguration_ConfigurationType_CORE = 1"
| "ICoreConfiguration_ConfigurationType_value ICoreConfiguration_ConfigurationType_SDK = 2"

definition ICoreConfiguration_ConfigurationType_MIN :: int where "ICoreConfiguration_ConfigurationType_MIN = ICoreConfiguration_ConfigurationType_value ICoreConfiguration_ConfigurationType_UNKNOWN_CONFIGURATION_TYPE"
definition ICoreConfiguration_ConfigurationType_MAX :: int where "ICoreConfiguration_ConfigurationType_MAX = ICoreConfiguration_ConfigurationType_value ICoreConfiguration_ConfigurationType_SDK"

datatype ICoreConfiguration_BuildType =
  ICoreConfiguration_BuildType_UNKNOWN_BUILD_TYPE
  | ICoreConfiguration_BuildType_INTERNAL
  | ICoreConfiguration_BuildType_EAP
  | ICoreConfiguration_BuildType_PROD

primrec ICoreConfiguration_BuildType_value :: "ICoreConfiguration_BuildType \<Rightarrow> int" where
  "ICoreConfiguration_BuildType_value ICoreConfiguration_BuildType_UNKNOWN_BUILD_TYPE = 0"
| "ICoreConfiguration_BuildType_value ICoreConfiguration_BuildType_INTERNAL = 1"
| "ICoreConfiguration_BuildType_value ICoreConfiguration_BuildType_EAP = 2"
| "ICoreConfiguration_BuildType_value ICoreConfiguration_BuildType_PROD = 3"

definition ICoreConfiguration_BuildType_MIN :: int where "ICoreConfiguration_BuildType_MIN = ICoreConfiguration_BuildType_value ICoreConfiguration_BuildType_UNKNOWN_BUILD_TYPE"
definition ICoreConfiguration_BuildType_MAX :: int where "ICoreConfiguration_BuildType_MAX = ICoreConfiguration_BuildType_value ICoreConfiguration_BuildType_PROD"

datatype ICoreConfiguration_ServiceType =
  ICoreConfiguration_ServiceType_UNKNOWN_SDK_SERVICE
  | ICoreConfiguration_ServiceType_ICORE
  | ICoreConfiguration_ServiceType_ADMOB
  | ICoreConfiguration_ServiceType_APP_INVITE
  | ICoreConfiguration_ServiceType_SIGN_IN
  | ICoreConfiguration_ServiceType_GCM
  | ICoreConfiguration_ServiceType_MAPS
  | ICoreConfiguration_ServiceType_SCION
  | ICoreConfiguration_ServiceType_ANALYTICS
  | ICoreConfiguration_ServiceType_APP_INDEXING
  | ICoreConfiguration_ServiceType_CONFIG
  | ICoreConfiguration_ServiceType_DURABLE_DEEP_LINKS
  | ICoreConfiguration_ServiceType_CRASH
  | ICoreConfiguration_ServiceType_AUTH
  | ICoreConfiguration_ServiceType_DATABASE
  | ICoreConfiguration_ServiceType_STORAGE
  | ICoreConfiguration_ServiceType_MESSAGING
  | ICoreConfiguration_ServiceType_MEASUREMENT
  | ICoreConfiguration_ServiceType_REMOTE_CONFIG
  | ICoreConfiguration_ServiceType_DYNAMIC_LINKS
  | ICoreConfiguration_ServiceType_INVITES
  | ICoreConfiguration_ServiceType_AUTH_UI
  | ICoreConfiguration_ServiceType_FIRESTORE
  | ICoreConfiguration_ServiceType_PERFORMANCE
  | ICoreConfiguration_ServiceType_ML_VISION_ON_DEVICE_FACE
  | ICoreConfiguration_ServiceType_ML_VISION_ON_DEVICE_BARCODE
  | ICoreConfiguration_ServiceType_ML_VISION_ON_DEVICE_TEXT
  | ICoreConfiguration_ServiceType_ML_VISION_ON_DEVICE_LABEL
  | ICoreConfiguration_ServiceType_ML_MODEL_INTERPRETER
  | ICoreConfiguration_ServiceType_IN_APP_MESSAGING
  | ICoreConfiguration_ServiceType_FUNCTIONS
  | ICoreConfiguration_ServiceType_ML_NATURAL_LANGUAGE
  | ICoreConfiguration_ServiceType_ML_VISION_ON_DEVICE_AUTOML
  | ICoreConfiguration_ServiceType_ML_VISION_ON_DEVICE_OBJECT_DETECTION

primrec ICoreConfiguration_ServiceType_value :: "ICoreConfiguration_ServiceType \<Rightarrow> int" where
  "ICoreConfiguration_ServiceType_value ICoreConfiguration_ServiceType_UNKNOWN_SDK_SERVICE = 0"
| "ICoreConfiguration_ServiceType_value ICoreConfiguration_ServiceType_ICORE = 1"
| "ICoreConfiguration_ServiceType_value ICoreConfiguration_ServiceType_ADMOB = 2"
| "ICoreConfiguration_ServiceType_value ICoreConfiguration_ServiceType_APP_INVITE = 3"
| "ICoreConfiguration_ServiceType_value ICoreConfiguration_ServiceType_SIGN_IN = 5"
| "ICoreConfiguration_ServiceType_value ICoreConfiguration_ServiceType_GCM = 6"
| "ICoreConfiguration_ServiceType_value ICoreConfiguration_ServiceType_MAPS = 7"
| "ICoreConfiguration_ServiceType_value ICoreConfiguration_ServiceType_SCION = 8"
| "ICoreConfiguration_ServiceType_value ICoreConfiguration_ServiceType_ANALYTICS = 9"
| "ICoreConfiguration_ServiceType_value ICoreConfiguration_ServiceType_APP_INDEXING = 10"
| "ICoreConfiguration_ServiceType_value ICoreConfiguration_ServiceType_CONFIG = 11"
| "ICoreConfiguration_ServiceType_value ICoreConfiguration_ServiceType_DURABLE_DEEP_LINKS = 12"
| "ICoreConfiguration_ServiceType_value ICoreConfiguration_ServiceType_CRASH = 13"
| "ICoreConfiguration_ServiceType_value ICoreConfiguration_ServiceType_AUTH = 14"
| "ICoreConfiguration_ServiceType_value ICoreConfiguration_ServiceType_DATABASE = 15"
| "ICoreConfiguration_ServiceType_value ICoreConfiguration_ServiceType_STORAGE = 16"
| "ICoreConfiguration_ServiceType_value ICoreConfiguration_ServiceType_MESSAGING = 17"
| "ICoreConfiguration_ServiceType_value ICoreConfiguration_ServiceType_MEASUREMENT = 18"
| "ICoreConfiguration_ServiceType_value ICoreConfiguration_ServiceType_REMOTE_CONFIG = 19"
| "ICoreConfiguration_ServiceType_value ICoreConfiguration_ServiceType_DYNAMIC_LINKS = 20"
| "ICoreConfiguration_ServiceType_value ICoreConfiguration_ServiceType_INVITES = 21"
| "ICoreConfiguration_ServiceType_value ICoreConfiguration_ServiceType_AUTH_UI = 22"
| "ICoreConfiguration_ServiceType_value ICoreConfiguration_ServiceType_FIRESTORE = 23"
| "ICoreConfiguration_ServiceType_value ICoreConfiguration_ServiceType_PERFORMANCE = 24"
| "ICoreConfiguration_ServiceType_value ICoreConfiguration_ServiceType_ML_VISION_ON_DEVICE_FACE = 26"
| "ICoreConfiguration_ServiceType_value ICoreConfiguration_ServiceType_ML_VISION_ON_DEVICE_BARCODE = 27"
| "ICoreConfiguration_ServiceType_value ICoreConfiguration_ServiceType_ML_VISION_ON_DEVICE_TEXT = 28"
| "ICoreConfiguration_ServiceType_value ICoreConfiguration_ServiceType_ML_VISION_ON_DEVICE_LABEL = 29"
| "ICoreConfiguration_ServiceType_value ICoreConfiguration_ServiceType_ML_MODEL_INTERPRETER = 30"
| "ICoreConfiguration_ServiceType_value ICoreConfiguration_ServiceType_IN_APP_MESSAGING = 31"
| "ICoreConfiguration_ServiceType_value ICoreConfiguration_ServiceType_FUNCTIONS = 32"
| "ICoreConfiguration_ServiceType_value ICoreConfiguration_ServiceType_ML_NATURAL_LANGUAGE = 33"
| "ICoreConfiguration_ServiceType_value ICoreConfiguration_ServiceType_ML_VISION_ON_DEVICE_AUTOML = 34"
| "ICoreConfiguration_ServiceType_value ICoreConfiguration_ServiceType_ML_VISION_ON_DEVICE_OBJECT_DETECTION = 35"

definition ICoreConfiguration_ServiceType_MIN :: int where "ICoreConfiguration_ServiceType_MIN = ICoreConfiguration_ServiceType_value ICoreConfiguration_ServiceType_UNKNOWN_SDK_SERVICE"
definition ICoreConfiguration_ServiceType_MAX :: int where "ICoreConfiguration_ServiceType_MAX = ICoreConfiguration_ServiceType_value ICoreConfiguration_ServiceType_ML_VISION_ON_DEVICE_OBJECT_DETECTION"

datatype ICoreConfiguration_PodName =
  ICoreConfiguration_PodName_UNKNOWN_POD_NAME
  | ICoreConfiguration_PodName_GOOGLE
  | ICoreConfiguration_PodName_FIREBASE

primrec ICoreConfiguration_PodName_value :: "ICoreConfiguration_PodName \<Rightarrow> int" where
  "ICoreConfiguration_PodName_value ICoreConfiguration_PodName_UNKNOWN_POD_NAME = 0"
| "ICoreConfiguration_PodName_value ICoreConfiguration_PodName_GOOGLE = 1"
| "ICoreConfiguration_PodName_value ICoreConfiguration_PodName_FIREBASE = 2"

definition ICoreConfiguration_PodName_MIN :: int where "ICoreConfiguration_PodName_MIN = ICoreConfiguration_PodName_value ICoreConfiguration_PodName_UNKNOWN_POD_NAME"
definition ICoreConfiguration_PodName_MAX :: int where "ICoreConfiguration_PodName_MAX = ICoreConfiguration_PodName_value ICoreConfiguration_PodName_FIREBASE"

datatype ICoreConfiguration_DeploymentType =
  ICoreConfiguration_DeploymentType_UNKNOWN
  | ICoreConfiguration_DeploymentType_COCOAPODS
  | ICoreConfiguration_DeploymentType_ZIP_FILE
  | ICoreConfiguration_DeploymentType_CARTHAGE
  | ICoreConfiguration_DeploymentType_SPM

primrec ICoreConfiguration_DeploymentType_value :: "ICoreConfiguration_DeploymentType \<Rightarrow> int" where
  "ICoreConfiguration_DeploymentType_value ICoreConfiguration_DeploymentType_UNKNOWN = 0"
| "ICoreConfiguration_DeploymentType_value ICoreConfiguration_DeploymentType_COCOAPODS = 1"
| "ICoreConfiguration_DeploymentType_value ICoreConfiguration_DeploymentType_ZIP_FILE = 2"
| "ICoreConfiguration_DeploymentType_value ICoreConfiguration_DeploymentType_CARTHAGE = 3"
| "ICoreConfiguration_DeploymentType_value ICoreConfiguration_DeploymentType_SPM = 4"

definition ICoreConfiguration_DeploymentType_MIN :: int where "ICoreConfiguration_DeploymentType_MIN = ICoreConfiguration_DeploymentType_value ICoreConfiguration_DeploymentType_UNKNOWN"
definition ICoreConfiguration_DeploymentType_MAX :: int where "ICoreConfiguration_DeploymentType_MAX = ICoreConfiguration_DeploymentType_value ICoreConfiguration_DeploymentType_SPM"

section \<open>Struct, initializers and field descriptors\<close>

definition ICoreConfiguration :: c_struct where [struct_defs]:
  "ICoreConfiguration =
    [c_bool ''has_configuration_type'',
     c_enum ''configuration_type'',
     c_int32 ''sdk_service_installed_count'',
     c_pointer ''sdk_service_installed'' 4,
     c_pointer ''device_model'' sizeof_bytes_array,
     c_pointer ''app_id'' sizeof_bytes_array,
     c_pointer ''bundle_id'' sizeof_bytes_array,
     c_bool ''has_pod_name'',
     c_enum ''pod_name'',
     c_pointer ''icore_version'' sizeof_bytes_array,
     c_pointer ''sdk_version'' sizeof_bytes_array,
     c_bool ''has_sdk_name'',
     c_enum ''sdk_name'',
     c_bool ''has_app_count'',
     c_int32 ''app_count'',
     c_pointer ''os_version'' sizeof_bytes_array,
     c_pointer ''min_supported_ios_version'' sizeof_bytes_array,
     c_bool ''has_use_default_app'',
     c_bool ''use_default_app'',
     c_bool ''has_deployed_in_app_store'',
     c_bool ''deployed_in_app_store'',
     c_bool ''has_dynamic_framework_count'',
     c_int32 ''dynamic_framework_count'',
     c_pointer ''apple_framework_version'' sizeof_bytes_array,
     c_bool ''has_using_zip_file'',
     c_bool ''using_zip_file'',
     c_bool ''has_deployment_type'',
     c_enum ''deployment_type'',
     c_pointer ''platform_info'' sizeof_bytes_array,
     c_bool ''has_swizzling_enabled'',
     c_bool ''swizzling_enabled'',
     c_bool ''has_using_gdt'',
     c_bool ''using_gdt'']"

definition ICoreConfiguration_init_default :: "c_init list" where [init_defs]:
  "ICoreConfiguration_init_default =
    [Init_int 0, Init_int ICoreConfiguration_ConfigurationType_MIN, Init_int 0, Init_null,
     Init_null, Init_null, Init_null, Init_int 0, Init_int ICoreConfiguration_PodName_MIN,
     Init_null, Init_null, Init_int 0, Init_int ICoreConfiguration_ServiceType_MIN, Init_int 0,
     Init_int 0, Init_null, Init_null, Init_int 0, Init_int 0, Init_int 0, Init_int 0,
     Init_int 0, Init_int 0, Init_null, Init_int 0, Init_int 0, Init_int 0,
     Init_int ICoreConfiguration_DeploymentType_MIN, Init_null, Init_int 0, Init_int 0,
     Init_int 0, Init_int 0]"

definition ICoreConfiguration_init_zero :: "c_init list" where [init_defs]:
  "ICoreConfiguration_init_zero =
    [Init_int 0, Init_int ICoreConfiguration_ConfigurationType_MIN, Init_int 0, Init_null,
     Init_null, Init_null, Init_null, Init_int 0, Init_int ICoreConfiguration_PodName_MIN,
     Init_null, Init_null, Init_int 0, Init_int ICoreConfiguration_ServiceType_MIN, Init_int 0,
     Init_int 0, Init_null, Init_null, Init_int 0, Init_int 0, Init_int 0, Init_int 0,
     Init_int 0, Init_int 0, Init_null, Init_int 0, Init_int 0, Init_int 0,
     Init_int ICoreConfiguration_DeploymentType_MIN, Init_null, Init_int 0, Init_int 0,
     Init_int 0, Init_int 0]"

definition ICoreConfiguration_fields :: "pb_field list" where [fields_defs]:
  "ICoreConfiguration_fields =
    [PB_FIELD 1 UENUM OPTIONAL STATIC FIRST ICoreConfiguration ''configuration_type'' ''configuration_type'' Null_ptr,
     PB_FIELD 7 UENUM REPEATED POINTER OTHER ICoreConfiguration ''sdk_service_installed'' ''configuration_type'' Null_ptr,
     PB_FIELD 9 BYTES OPTIONAL POINTER OTHER ICoreConfiguration ''device_model'' ''sdk_service_installed'' Null_ptr,
     PB_FIELD 10 BYTES OPTIONAL POINTER OTHER ICoreConfiguration ''app_id'' ''device_model'' Null_ptr,
     PB_FIELD 12 BYTES OPTIONAL POINTER OTHER ICoreConfiguration ''bundle_id'' ''app_id'' Null_ptr,
     PB_FIELD 16 UENUM OPTIONAL STATIC OTHER ICoreConfiguration ''pod_name'' ''bundle_id'' Null_ptr,
     PB_FIELD 18 BYTES OPTIONAL POINTER OTHER ICoreConfiguration ''icore_version'' ''pod_name'' Null_ptr,
     PB_FIELD 19 BYTES OPTIONAL POINTER OTHER ICoreConfiguration ''sdk_version'' ''icore_version'' Null_ptr,
     PB_FIELD 20 UENUM OPTIONAL STATIC OTHER ICoreConfiguration ''sdk_name'' ''sdk_version'' Null_ptr,
     PB_FIELD 21 INT32 OPTIONAL STATIC OTHER ICoreConfiguration ''app_count'' ''sdk_name'' Null_ptr,
     PB_FIELD 22 BYTES OPTIONAL POINTER OTHER ICoreConfiguration ''os_version'' ''app_count'' Null_ptr,
     PB_FIELD 24 BYTES OPTIONAL POINTER OTHER ICoreConfiguration ''min_supported_ios_version'' ''os_version'' Null_ptr,
     PB_FIELD 25 BOOL OPTIONAL STATIC OTHER ICoreConfiguration ''use_default_app'' ''min_supported_ios_version'' Null_ptr,
     PB_FIELD 26 BOOL OPTIONAL STATIC OTHER ICoreConfiguration ''deployed_in_app_store'' ''use_default_app'' Null_ptr,
     PB_FIELD 27 INT32 OPTIONAL STATIC OTHER ICoreConfiguration ''dynamic_framework_count'' ''deployed_in_app_store'' Null_ptr,
     PB_FIELD 28 BYTES OPTIONAL POINTER OTHER ICoreConfiguration ''apple_framework_version'' ''dynamic_framework_count'' Null_ptr,
     PB_FIELD 29 BOOL OPTIONAL STATIC OTHER ICoreConfiguration ''using_zip_file'' ''apple_framework_version'' Null_ptr,
     PB_FIELD 30 UENUM OPTIONAL STATIC OTHER ICoreConfiguration ''deployment_type'' ''using_zip_file'' Null_ptr,
     PB_FIELD 31 BYTES OPTIONAL POINTER OTHER ICoreConfiguration ''platform_info'' ''deployment_type'' Null_ptr,
     PB_FIELD 33 BOOL OPTIONAL STATIC OTHER ICoreConfiguration ''swizzling_enabled'' ''platform_info'' Null_ptr,
     PB_FIELD 36 BOOL OPTIONAL STATIC OTHER ICoreConfiguration ''using_gdt'' ''swizzling_enabled'' Null_ptr,
     PB_LAST_FIELD]"

section \<open>Layouts\<close>

text \<open>
  The offsets that the ABI gives the members, and the numbers the descriptor macros compute
  from them.
\<close>

lemma ICoreConfiguration_layout [layouts]:
  "layout_from 0 ICoreConfiguration =
    [(''has_configuration_type'', 0), (''configuration_type'', 4),
     (''sdk_service_installed_count'', 8), (''sdk_service_installed'', 16),
     (''device_model'', 24), (''app_id'', 32), (''bundle_id'', 40), (''has_pod_name'', 48),
     (''pod_name'', 52), (''icore_version'', 56), (''sdk_version'', 64),
     (''has_sdk_name'', 72), (''sdk_name'', 76), (''has_app_count'', 80), (''app_count'', 84),
     (''os_version'', 88), (''min_supported_ios_version'', 96), (''has_use_default_app'', 104),
     (''use_default_app'', 105), (''has_deployed_in_app_store'', 106),
     (''deployed_in_app_store'', 107), (''has_dynamic_framework_count'', 108),
     (''dynamic_framework_count'', 112), (''apple_framework_version'', 120),
     (''has_using_zip_file'', 128), (''using_zip_file'', 129), (''has_deployment_type'', 130),
     (''deployment_type'', 132), (''platform_info'', 136), (''has_swizzling_enabled'', 144),
     (''swizzling_enabled'', 145), (''has_using_gdt'', 146), (''using_gdt'', 147)]"
  by code_simp

lemma ICoreConfiguration_sizeof [sizeofs]: "sizeof ICoreConfiguration = 152" "struct_align ICoreConfiguration = 8"
  unfolding ICoreConfiguration_def c_nested_def sizeofs by (simp_all add: sizeof_simps)

lemma ICoreConfiguration_fields_eq [fields_eqs]:
  "ICoreConfiguration_fields =
    [PbField 1 18 4 (- 4) 4 0 Null_ptr, PbField 7 162 8 (- 8) 4 0 Null_ptr,
     PbField 9 150 0 0 8 0 Null_ptr, PbField 10 150 0 0 8 0 Null_ptr,
     PbField 12 150 0 0 8 0 Null_ptr, PbField 16 18 4 (- 4) 4 0 Null_ptr,
     PbField 18 150 0 0 8 0 Null_ptr, PbField 19 150 0 0 8 0 Null_ptr,
     PbField 20 18 4 (- 4) 4 0 Null_ptr, PbField 21 17 4 (- 4) 4 0 Null_ptr,
     PbField 22 150 0 0 8 0 Null_ptr, PbField 24 150 0 0 8 0 Null_ptr,
     PbField 25 16 1 (- 1) 1 0 Null_ptr, PbField 26 16 1 (- 1) 1 0 Null_ptr,
     PbField 27 17 4 (- 4) 4 0 Null_ptr, PbField 28 150 4 0 8 0 Null_ptr,
     PbField 29 16 1 (- 1) 1 0 Null_ptr, PbField 30 18 2 (- 2) 4 0 Null_ptr,
     PbField 31 150 0 0 8 0 Null_ptr, PbField 33 16 1 (- 1) 1 0 Null_ptr,
     PbField 36 16 1 (- 1) 1 0 Null_ptr, PB_LAST_FIELD]"
  unfolding ICoreConfiguration_fields_def field_macros offsetof_def layouts by code_simp

lemma ICoreConfiguration_visits:
  "visits ICoreConfiguration ICoreConfiguration_fields
     [''configuration_type'', ''sdk_service_installed'', ''device_model'', ''app_id'',
     ''bundle_id'', ''pod_name'', ''icore_version'', ''sdk_version'', ''sdk_name'',
     ''app_count'', ''os_version'', ''min_supported_ios_version'', ''use_default_app'',
     ''deployed_in_app_store'', ''dynamic_framework_count'', ''apple_framework_version'',
     ''using_zip_file'', ''deployment_type'', ''platform_info'', ''swizzling_enabled'',
     ''using_gdt'']"
  unfolding ICoreConfiguration_fields_eq visits_def offsetof_def layouts by code_simp

text \<open>The message type with its struct, its descriptor array and the members its fields name.\<close>

definition diagnostics_messages :: "(c_struct \<times> pb_field list \<times> string list) list" where
  "diagnostics_messages =
    [(ICoreConfiguration, ICoreConfiguration_fields,
       [''configuration_type'', ''sdk_service_installed'', ''device_model'', ''app_id'',
        ''bundle_id'', ''pod_name'', ''icore_version'', ''sdk_version'', ''sdk_name'',
        ''app_count'', ''os_version'', ''min_supported_ios_version'', ''use_default_app'',
        ''deployed_in_app_store'', ''dynamic_framework_count'', ''apple_framework_version'',
        ''using_zip_file'', ''deployment_type'', ''platform_info'', ''swizzling_enabled'',
        ''using_gdt''])]"

lemma diagnostics_messages_visits:
  "(st, fs, ms) \<in> set diagnostics_messages \<Longrightarrow> visits st fs ms"
  unfolding diagnostics_messages_def using ICoreConfiguration_visits by auto

end
