(* ===== verification/PbLayout.thy ===== *)
theory PbLayout
  imports PbDescriptors
begin

text \<open>
  Descriptor arrays that fit the struct they describe: every field's data and its
  \<open>has_\<close> or \<open>_count\<close> member lie inside the struct, no two of them overlap, and the
  data of a submessage field is again such a struct. On such a message
  \<open>pb_message_set_to_defaults\<close> writes inside the struct only and leaves every field with
  its default value. Unions (oneof fields) and fixed-count arrays, whose members share
  their bytes, are left out, as are extensions, which lead out of the struct.
\<close>

section \<open>Footprints\<close>

definition span :: "addr \<Rightarrow> nat \<Rightarrow> addr set" where
  "span a n = {a ..< a + int n}"

text \<open>Only bytes in \<open>F\<close> changed, and nothing but bytes.\<close>

definition within :: "addr set \<Rightarrow> cmem \<Rightarrow> cmem \<Rightarrow> bool" where
  "within F m m' \<longleftrightarrow> (\<forall>x. x \<notin> F \<longrightarrow> mbytes m' x = mbytes m x) \<and>
     mblocks m' = mblocks m \<and> mbrk m' = mbrk m \<and> mlimit m' = mlimit m \<and> msp m' = msp m"

lemma within_refl [simp]: "within F m m"
  by (simp add: within_def)

lemma within_trans: "within F m m' \<Longrightarrow> within G m' m'' \<Longrightarrow> within (F \<union> G) m m''"
  by (auto simp: within_def)

lemma within_mono: "within F m m' \<Longrightarrow> F \<subseteq> G \<Longrightarrow> within G m m'"
  by (auto simp: within_def)

lemma within_store: "within (span a (length bs)) m (store_bytes a bs m)"
  by (auto simp: within_def span_def mbytes_store_bytes)

definition same_on :: "addr set \<Rightarrow> cmem \<Rightarrow> cmem \<Rightarrow> bool" where
  "same_on F m m' \<longleftrightarrow> (\<forall>x \<in> F. mbytes m' x = mbytes m x)"

lemma within_same_on: "within F m m' \<Longrightarrow> F \<inter> G = {} \<Longrightarrow> same_on G m m'"
  by (auto simp: within_def same_on_def)

lemma same_on_mono: "same_on G m m' \<Longrightarrow> F \<subseteq> G \<Longrightarrow> same_on F m m'"
  by (auto simp: same_on_def)

lemma same_on_load: "same_on (span a n) m m' \<Longrightarrow> load_bytes m' a n = load_bytes m a n"
  by (rule nth_equalityI) (auto simp: same_on_def span_def)

lemma same_on_typed:
  "same_on (span a 1) m m' \<Longrightarrow> load8 m' a = load8 m a"
  "same_on (span a 4) m m' \<Longrightarrow> load32 m' a = load32 m a"
  "same_on (span a 8) m m' \<Longrightarrow> load_ptr m' a = load_ptr m a"
  by (auto simp: load8_def load32_def load64_def load_ptr_def same_on_load)
    (simp add: same_on_def span_def)

text \<open>
  A walk over fields with disjoint footprints establishes what each step establishes.
\<close>

lemma each_field_establishes:
  assumes step: "\<And>it m. it \<in> set its \<Longrightarrow> \<exists>m'. body it m = Ret () m' \<and> P it m' \<and> within (F it) m m'"
    and stable: "\<And>it m m'. it \<in> set its \<Longrightarrow> P it m \<Longrightarrow> same_on (F it) m m' \<Longrightarrow> P it m'"
    and disjoint: "sorted_wrt (\<lambda>it jt. F it \<inter> F jt = {}) its"
  shows "\<exists>m'. each_field body its m = Ret () m' \<and> (\<forall>it \<in> set its. P it m') \<and>
    within (\<Union>it \<in> set its. F it) m m'"
  using assms
proof (induction its arbitrary: m)
  case Nil
  then show ?case by simp
next
  case (Cons it its)
  obtain m1 where m1: "body it m = Ret () m1" "P it m1" "within (F it) m m1"
    using Cons.prems(1) [of it m] by auto
  have "\<exists>m2. each_field body its m1 = Ret () m2 \<and> (\<forall>jt \<in> set its. P jt m2) \<and>
      within (\<Union>jt \<in> set its. F jt) m1 m2"
  proof (rule Cons.IH)
    show "\<exists>m'. body jt m = Ret () m' \<and> P jt m' \<and> within (F jt) m m'" if "jt \<in> set its" for jt m
      using that by (intro Cons.prems(1)) simp
    show "P jt m'" if "jt \<in> set its" "P jt m" "same_on (F jt) m m'" for jt m m'
      by (rule Cons.prems(2) [OF _ that(2,3)]) (use that(1) in simp)
  qed (use Cons.prems(3) in simp)
  then obtain m2 where m2: "each_field body its m1 = Ret () m2" "\<forall>jt \<in> set its. P jt m2"
    "within (\<Union>jt \<in> set its. F jt) m1 m2" by blast
  have "(\<Union>jt \<in> set its. F jt) \<inter> F it = {}" using Cons.prems(3) by auto
  then have same: "same_on (F it) m1 m2" by (rule within_same_on [OF m2(3)])
  have "P it m2" by (rule Cons.prems(2) [OF _ m1(2) same]) simp
  then show ?case
    using m1(1) m2(1,2) within_trans [OF m1(3) m2(3)] by (simp add: bindC_def)
qed

section \<open>Layouts\<close>

definition data_span :: "pb_field \<Rightarrow> nat" where
  "data_span f =
     (if PB_ATYPE (ftype f) = PB_ATYPE_POINTER then sizeof_ptr
      else if PB_ATYPE (ftype f) = PB_ATYPE_STATIC \<and> PB_HTYPE (ftype f) = PB_HTYPE_REPEATED
      then unat (data_size f) * unat (array_size f)
      else unat (data_size f))"

text \<open>The bytes of the \<open>has_\<close> or \<open>_count\<close> member, if the field has one.\<close>

definition size_span :: "pb_field \<Rightarrow> nat" where
  "size_span f =
     (if PB_ATYPE (ftype f) \<noteq> PB_ATYPE_CALLBACK \<and> PB_HTYPE (ftype f) = PB_HTYPE_REPEATED then 4
      else if PB_ATYPE (ftype f) = PB_ATYPE_STATIC \<and> PB_HTYPE (ftype f) = PB_HTYPE_OPTIONAL
              \<and> size_offset f \<noteq> 0 then 1
      else 0)"

definition footprint :: "pb_field \<Rightarrow> addr \<times> addr \<Rightarrow> addr set" where
  "footprint f = (\<lambda>(a, b). span a (data_span f) \<union> span b (size_span f))"

text \<open>Executable checks: a range inside the struct, two footprints apart.\<close>

definition in_struct :: "nat \<Rightarrow> addr \<Rightarrow> nat \<Rightarrow> bool" where
  "in_struct sz a n \<longleftrightarrow> n = 0 \<or> (0 \<le> a \<and> a + int n \<le> int sz)"

definition apart0 :: "addr \<Rightarrow> nat \<Rightarrow> addr \<Rightarrow> nat \<Rightarrow> bool" where
  "apart0 a n b k \<longleftrightarrow> n = 0 \<or> k = 0 \<or> apart a n b k"

definition field_spans :: "pb_field \<times> addr \<times> addr \<Rightarrow> addr \<times> nat \<times> addr \<times> nat" where
  "field_spans = (\<lambda>(f, a, b). (a, data_span f, b, size_span f))"

definition spans_apart :: "addr \<times> nat \<times> addr \<times> nat \<Rightarrow> addr \<times> nat \<times> addr \<times> nat \<Rightarrow> bool" where
  "spans_apart = (\<lambda>(a, n, b, k) (c, i, d, j).
     apart0 a n c i \<and> apart0 a n d j \<and> apart0 b k c i \<and> apart0 b k d j)"

definition field_fits :: "(pb_field list \<Rightarrow> nat \<Rightarrow> bool) \<Rightarrow> nat \<Rightarrow> pb_field \<times> addr \<times> addr \<Rightarrow> bool" where
  "field_fits sub_fits sz = (\<lambda>(f, a, b).
     in_struct sz a (data_span f) \<and> in_struct sz b (size_span f) \<and>
     apart0 a (data_span f) b (size_span f) \<and>
     PB_HTYPE (ftype f) \<noteq> PB_HTYPE_ONEOF \<and>
     (PB_ATYPE (ftype f) = PB_ATYPE_STATIC \<longrightarrow>
        (case fptr f of Null_ptr \<Rightarrow> True
         | Const_ptr bs \<Rightarrow> unat (data_size f) \<le> length bs
         | Fields_ptr sub \<Rightarrow> sub_fits sub (unat (data_size f)))))"

definition placed :: "pb_field list \<Rightarrow> (pb_field \<times> addr \<times> addr) list" where
  "placed fs = zip (take (num_fields fs) fs) (walk (num_fields fs) (snd (pb_field_iter_begin fs 0)))"

primrec laid_out :: "nat \<Rightarrow> pb_field list \<Rightarrow> nat \<Rightarrow> bool" where
  "laid_out 0 fs sz = False"
| "laid_out (Suc n) fs sz =
     (list_all (field_fits (laid_out n) sz) (placed fs) \<and>
      sorted_wrt spans_apart (map field_spans (placed fs)))"

section \<open>Default values\<close>

definition data_default :: "(pb_field list \<Rightarrow> addr \<Rightarrow> cmem \<Rightarrow> bool) \<Rightarrow> pb_field \<Rightarrow> addr \<Rightarrow> cmem \<Rightarrow> bool" where
  "data_default sub_default f a m =
     (case fptr f of
        Fields_ptr sub \<Rightarrow> sub_default sub a m
      | Const_ptr bs \<Rightarrow> load_bytes m a (unat (data_size f)) = take (unat (data_size f)) bs
      | Null_ptr \<Rightarrow> load_bytes m a (unat (data_size f)) = replicate (unat (data_size f)) 0)"

definition field_default ::
    "(pb_field list \<Rightarrow> addr \<Rightarrow> cmem \<Rightarrow> bool) \<Rightarrow> pb_field \<Rightarrow> addr \<Rightarrow> addr \<Rightarrow> cmem \<Rightarrow> bool" where
  "field_default sub_default f a b m =
     (let at = PB_ATYPE (ftype f); ht = PB_HTYPE (ftype f) in
      if at = PB_ATYPE_POINTER
      then load_ptr m a = 0 \<and> (ht = PB_HTYPE_REPEATED \<longrightarrow> load32 m b = 0)
      else if at = PB_ATYPE_STATIC then
        (if ht = PB_HTYPE_REPEATED then load32 m b = 0
         else (ht = PB_HTYPE_OPTIONAL \<and> size_offset f \<noteq> 0 \<longrightarrow> load8 m b = 0) \<and>
              data_default sub_default f a m)
      else True)"

text \<open>The message at \<open>dest\<close> has its default value, its submessages included.\<close>

primrec is_default :: "nat \<Rightarrow> pb_field list \<Rightarrow> addr \<Rightarrow> cmem \<Rightarrow> bool" where
  "is_default 0 fs dest m = False"
| "is_default (Suc n) fs dest m =
     list_all (\<lambda>(f, a, b). field_default (is_default n) f (dest + a) (dest + b) m) (placed fs)"

section \<open>Footprints of fields\<close>

lemma span_apart0: "apart0 a n b k \<Longrightarrow> span (d + a) n \<inter> span (d + b) k = {}"
  by (auto simp: apart0_def apart_def span_def)

lemma footprints_disjoint:
  "spans_apart (field_spans (f, a, b)) (field_spans (g, c, e)) \<Longrightarrow>
    footprint f (d + a, d + b) \<inter> footprint g (d + c, d + e) = {}"
  using span_apart0 [of a "data_span f" c "data_span g" d] span_apart0 [of a "data_span f" e "size_span g" d]
    span_apart0 [of b "size_span f" c "data_span g" d] span_apart0 [of b "size_span f" e "size_span g" d]
  by (auto simp: spans_apart_def field_spans_def footprint_def)

lemma footprint_inside:
  "field_fits P sz (f, a, b) \<Longrightarrow> footprint f (d + a, d + b) \<subseteq> span d sz"
  by (auto simp: field_fits_def in_struct_def footprint_def span_def)

lemma placed_eq:
  "placed fs = map (\<lambda>i. (field_at fs i, pData (iter_at fs 0 i), pSize (iter_at fs 0 i))) [0..<num_fields fs]"
proof -
  have "take (num_fields fs) fs = map (field_at fs) [0..<num_fields fs]"
    using num_fields_le [of fs] by (intro nth_equalityI) (auto simp: field_at_def)
  moreover have "walk (num_fields fs) (iter_at fs 0 0) =
      map (\<lambda>i. (pData (iter_at fs 0 i), pSize (iter_at fs 0 i))) [0..<num_fields fs]"
    by (rule nth_equalityI) (auto simp: walk_nth simp del: iter_at.simps)
  ultimately show ?thesis by (simp add: placed_def zip_map_map zip_same_conv_map)
qed

lemma iter_size_offset:
  assumes "i < num_fields fs"
    and "\<And>j. j < num_fields fs \<Longrightarrow> PB_HTYPE (ftype (field_at fs j)) \<noteq> PB_HTYPE_ONEOF"
  shows "pSize (iter_at fs dest i) = pData (iter_at fs dest i) + sint (size_offset (field_at fs i))"
proof (cases i)
  case 0
  then show ?thesis by (simp add: pb_field_iter_begin_def Let_def)
next
  case (Suc j)
  then have j: "j < num_fields fs" using assms(1) by simp
  then have "ftag (field_at fs j) \<noteq> 0" "ftag (field_at fs (Suc j)) \<noteq> 0"
    using ftag_field_at [of j fs] ftag_field_at [of "Suc j" fs] assms(1) Suc by simp_all
  then show ?thesis
    using Suc iter_at_simps [OF j, of dest] cur_iter_at [OF j, of dest] assms(2) [OF j]
    by (simp add: pb_field_iter_next_def Let_def)
qed

section \<open>Setting defaults\<close>

lemma within_stores:
  "within (span a 1) m (store8 a v8 m)" "within (span a 4) m (store32 a v32 m)"
  "within (span a 8) m (store_ptr a p m)" "within (span a n) m (c_memset a b n m)"
  "n = length bs \<Longrightarrow> within (span a n) m (store_bytes a bs m)"
  using within_store [of a "[v8]" m] within_store [of a "le_bytes 4 v32" m]
    within_store [of a "le_bytes 8 (word_of_int p :: u64)" m] within_store [of a "replicate n b" m]
    within_store [of a bs m]
  by (simp_all add: store_defs)

text \<open>What the recursion establishes for the struct of a submessage.\<close>

definition defaults_to ::
    "(pb_field_iter \<Rightarrow> (cmem, unit) cmd) \<Rightarrow> nat \<Rightarrow> pb_field list \<Rightarrow> nat \<Rightarrow> bool" where
  "defaults_to set_field n fs sz \<longleftrightarrow>
     (\<forall>dest m. \<exists>m'. message_defaults set_field fs dest m = Ret () m' \<and> is_default n fs dest m' \<and>
        within (span dest sz) m m')"

lemma init_static_establishes:
  assumes ok: "field_ok (desc_ok n) (cur it)" and at: "PB_ATYPE (ftype (cur it)) = PB_ATYPE_STATIC"
    and fits: "case fptr (cur it) of Null_ptr \<Rightarrow> True | Const_ptr bs \<Rightarrow> unat (data_size (cur it)) \<le> length bs
      | Fields_ptr sub \<Rightarrow> laid_out n sub (unat (data_size (cur it)))"
    and sub: "\<And>sub sz. desc_ok n sub \<Longrightarrow> laid_out n sub sz \<Longrightarrow> defaults_to set_field n sub sz"
  shows "\<exists>m'. init_static_data set_field it m = Ret () m' \<and> data_default (is_default n) (cur it) (pData it) m'
    \<and> within (span (pData it) (unat (data_size (cur it)))) m m'"
proof (cases "fptr (cur it)")
  case Null_ptr
  then have "PB_LTYPE (ftype (cur it)) \<noteq> PB_LTYPE_SUBMESSAGE"
    using ok at by (auto simp: field_ok_def Let_def pb_consts)
  then show ?thesis
    using Null_ptr within_stores(4)
    by (auto simp: init_static_data_def data_default_def c_memset_def load_store_same)
next
  case (Const_ptr bs)
  then have "PB_LTYPE (ftype (cur it)) \<noteq> PB_LTYPE_SUBMESSAGE"
    using ok at by (auto simp: field_ok_def Let_def pb_consts)
  then show ?thesis
    using Const_ptr fits by (auto simp: init_static_data_def data_default_def load_store_same intro!: within_stores(5))
next
  case (Fields_ptr fs)
  then have "PB_LTYPE (ftype (cur it)) = PB_LTYPE_SUBMESSAGE" and "desc_ok n fs"
    using ok at by (auto simp: field_ok_def Let_def pb_consts)
  then show ?thesis
    using Fields_ptr fits sub [of fs "unat (data_size (cur it))"]
    by (auto simp: init_static_data_def data_default_def with_fields_def defaults_to_def)
qed

text \<open>One field: the step of the walk.\<close>

lemma field_default_establishes:
  assumes ok: "field_ok (desc_ok n) (cur it)"
    and fits: "field_fits (laid_out n) sz (cur it, a, b)" and a: "pData it = d + a" and b: "pSize it = d + b"
    and off: "pSize it = pData it \<longleftrightarrow> size_offset (cur it) = 0"
    and sub: "\<And>sub sz. desc_ok n sub \<Longrightarrow> laid_out n sub sz \<Longrightarrow> defaults_to set_field n sub sz"
  shows "\<exists>m'. field_default_body ext_arg set_field it m = Ret () m' \<and>
    field_default (is_default n) (cur it) (pData it) (pSize it) m' \<and>
    within (footprint (cur it) (pData it, pSize it)) m m'"
proof -
  let ?f = "cur it"
  have lt: "PB_LTYPE (ftype ?f) \<noteq> PB_LTYPE_EXTENSION" using ok by (auto simp: field_ok_def Let_def)
  have ht: "PB_HTYPE (ftype ?f) \<noteq> PB_HTYPE_ONEOF" using fits by (simp add: field_fits_def)
  have disj: "span (pData it) (data_span ?f) \<inter> span (pSize it) (size_span ?f) = {}"
    using fits span_apart0 [of a "data_span ?f" b "size_span ?f" d] a b by (simp add: field_fits_def)
  consider (pointer) "PB_ATYPE (ftype ?f) = PB_ATYPE_POINTER"
    | (static) "PB_ATYPE (ftype ?f) = PB_ATYPE_STATIC"
    | (other) "PB_ATYPE (ftype ?f) \<noteq> PB_ATYPE_POINTER" "PB_ATYPE (ftype ?f) \<noteq> PB_ATYPE_STATIC"
    by blast
  then show ?thesis
  proof cases
    case other
    then show ?thesis using lt by (simp add: field_default_body_def field_default_def Let_def)
  next
    case pointer
    let ?m1 = "store_ptr (pData it) 0 m"
    have w1: "within (span (pData it) (data_span ?f)) m ?m1"
      using within_stores(3) [of "pData it" m 0] pointer by (simp add: data_span_def sizeof_ptr_def pb_consts)
    show ?thesis
    proof (cases "PB_HTYPE (ftype ?f) = PB_HTYPE_REPEATED")
      case False
      then have "field_default_body ext_arg set_field it m = Ret () ?m1"
        using pointer lt ht by (simp add: field_default_body_def Let_def pb_consts)
      moreover have "field_default (is_default n) ?f (pData it) (pSize it) ?m1"
        using pointer False by (simp add: field_default_def Let_def)
      ultimately show ?thesis
        using within_mono [OF w1, of "footprint ?f (pData it, pSize it)"] by (auto simp: footprint_def)
    next
      case True
      let ?m2 = "store32 (pSize it) 0 ?m1"
      have w2: "within (span (pSize it) (size_span ?f)) ?m1 ?m2"
        using within_stores(2) [of "pSize it" ?m1 0] pointer True by (simp add: size_span_def pb_consts)
      have "same_on (span (pData it) (data_span ?f)) ?m1 ?m2"
        using within_same_on [OF w2] disj by blast
      then have "load_ptr ?m2 (pData it) = 0"
        using same_on_typed(3) [of "pData it" ?m1 ?m2] pointer by (simp add: data_span_def sizeof_ptr_def pb_consts)
      moreover have "field_default_body ext_arg set_field it m = Ret () ?m2"
        using pointer True lt by (simp add: field_default_body_def Let_def pb_consts)
      ultimately show ?thesis
        using within_trans [OF w1 w2] pointer True by (auto simp: field_default_def Let_def footprint_def)
    qed
  next
    case static
    have fit: "case fptr ?f of Null_ptr \<Rightarrow> True | Const_ptr bs \<Rightarrow> unat (data_size ?f) \<le> length bs
        | Fields_ptr sub \<Rightarrow> laid_out n sub (unat (data_size ?f))"
      using fits static by (simp add: field_fits_def)
    note init = init_static_establishes [OF ok static fit sub]
    have np: "PB_ATYPE (ftype ?f) \<noteq> PB_ATYPE_POINTER" using static by (simp add: pb_consts)
    consider (rep) "PB_HTYPE (ftype ?f) = PB_HTYPE_REPEATED"
      | (opt) "PB_HTYPE (ftype ?f) = PB_HTYPE_OPTIONAL" "size_offset ?f \<noteq> 0"
      | (plain) "PB_HTYPE (ftype ?f) \<noteq> PB_HTYPE_REPEATED"
        "\<not> (PB_HTYPE (ftype ?f) = PB_HTYPE_OPTIONAL \<and> size_offset ?f \<noteq> 0)"
      by blast
    then show ?thesis
    proof cases
      case rep
      then have "within (span (pSize it) (size_span ?f)) m (store32 (pSize it) 0 m)"
        using within_stores(2) [of "pSize it" m 0] static by (simp add: size_span_def pb_consts)
      then have "within (footprint ?f (pData it, pSize it)) m (store32 (pSize it) 0 m)"
        by (rule within_mono) (simp add: footprint_def)
      then show ?thesis
        using rep static np lt by (simp add: field_default_body_def field_default_def Let_def pb_consts)
    next
      case opt
      let ?m1 = "store8 (pSize it) 0 m"
      have ds: "data_span ?f = unat (data_size ?f)" and ss: "size_span ?f = 1"
        using static opt by (simp_all add: data_span_def size_span_def pb_consts)
      obtain m2 where m2: "init_static_data set_field it ?m1 = Ret () m2"
        "data_default (is_default n) ?f (pData it) m2" "within (span (pData it) (data_span ?f)) ?m1 m2"
        using init [of ?m1] by (auto simp: ds)
      have w: "within (footprint ?f (pData it, pSize it)) m m2"
        using within_trans [OF within_stores(1) m2(3)] by (simp add: footprint_def ss Un_commute)
      have "same_on (span (pSize it) 1) ?m1 m2" using within_same_on [OF m2(3)] disj by (simp add: ss)
      then have "load8 m2 (pSize it) = 0" using same_on_typed(1) [of "pSize it" ?m1 m2] by simp
      moreover have "field_default_body ext_arg set_field it m = Ret () m2"
        using m2(1) static opt off lt by (simp add: field_default_body_def Let_def)
      ultimately show ?thesis
        using m2(2) w static np opt by (auto simp: field_default_def Let_def pb_consts)
    next
      case plain
      obtain m1 where m1: "init_static_data set_field it m = Ret () m1"
        "data_default (is_default n) ?f (pData it) m1" "within (span (pData it) (unat (data_size ?f))) m m1"
        using init [of m] by auto
      have "data_span ?f = unat (data_size ?f)"
        using static plain by (simp add: data_span_def pb_consts)
      then have "within (footprint ?f (pData it, pSize it)) m m1"
        using within_mono [OF m1(3), of "footprint ?f (pData it, pSize it)"] by (auto simp: footprint_def)
      moreover have "field_default_body ext_arg set_field it m = Ret () m1"
        using m1(1) static plain off lt ht by (auto simp: field_default_body_def Let_def)
      ultimately show ?thesis
        using m1(2) static np plain by (auto simp: field_default_def Let_def pb_consts)
    qed
  qed
qed

text \<open>What a field's default value says depends on its footprint only.\<close>

lemma same_on_UnD: "same_on (F \<union> G) m m' \<Longrightarrow> same_on F m m' \<and> same_on G m m'"
  by (auto simp: same_on_def)

lemma field_default_stable:
  assumes fits: "field_fits (laid_out n) sz (f, a, b)" and same: "same_on (footprint f (p, q)) m m'"
    and sub: "\<And>sub sz p. laid_out n sub sz \<Longrightarrow> is_default n sub p m \<Longrightarrow> same_on (span p sz) m m' \<Longrightarrow>
      is_default n sub p m'"
    and field: "field_default (is_default n) f p q m"
  shows "field_default (is_default n) f p q m'"
proof -
  have d: "same_on (span p (data_span f)) m m'" and s: "same_on (span q (size_span f)) m m'"
    using same_on_UnD [of "span p (data_span f)"] same by (auto simp: footprint_def)
  have data: "data_default (is_default n) f p m'"
    if "PB_ATYPE (ftype f) = PB_ATYPE_STATIC" "PB_HTYPE (ftype f) \<noteq> PB_HTYPE_REPEATED"
      "data_default (is_default n) f p m"
  proof -
    have "data_span f = unat (data_size f)" using that by (simp add: data_span_def pb_consts)
    then show ?thesis
      using that(1,3) d fits sub
      by (auto simp: data_default_def field_fits_def same_on_load split: ptr_target.splits)
  qed
  have count: "load32 m' q = load32 m q"
    if "PB_ATYPE (ftype f) \<noteq> PB_ATYPE_CALLBACK" "PB_HTYPE (ftype f) = PB_HTYPE_REPEATED"
    using same_on_typed(2) [of q m m'] s that by (simp add: size_span_def)
  have has: "load8 m' q = load8 m q"
    if "PB_ATYPE (ftype f) = PB_ATYPE_STATIC" "PB_HTYPE (ftype f) = PB_HTYPE_OPTIONAL" "size_offset f \<noteq> 0"
    using same_on_typed(1) [of q m m'] s that by (simp add: size_span_def pb_consts)
  have ptr: "load_ptr m' p = load_ptr m p" if "PB_ATYPE (ftype f) = PB_ATYPE_POINTER"
    using same_on_typed(3) [of p m m'] d that by (simp add: data_span_def sizeof_ptr_def)
  show ?thesis
    using field data count has ptr by (auto simp: field_default_def Let_def pb_consts split: if_splits)
qed

lemma is_default_stable:
  "laid_out n fs sz \<Longrightarrow> is_default n fs d m \<Longrightarrow> same_on (span d sz) m m' \<Longrightarrow> is_default n fs d m'"
proof (induction n arbitrary: fs sz d)
  case 0
  then show ?case by simp
next
  case (Suc n)
  have "field_default (is_default n) f (d + a) (d + b) m'" if p: "(f, a, b) \<in> set (placed fs)" for f a b
  proof (rule field_default_stable)
    show fits: "field_fits (laid_out n) sz (f, a, b)"
      using Suc.prems(1) p by (simp add: list_all_iff)
    show "same_on (footprint f (d + a, d + b)) m m'"
      by (rule same_on_mono [OF Suc.prems(3) footprint_inside [OF fits]])
    show "field_default (is_default n) f (d + a) (d + b) m"
      using Suc.prems(2) p by (auto simp: list_all_iff)
  qed (rule Suc.IH)
  then show ?case by (auto simp: list_all_iff)
qed

text \<open>The whole message.\<close>

lemma sorted_wrt_map_mono:
  "sorted_wrt P (map g xs) \<Longrightarrow> (\<And>x y. x \<in> set xs \<Longrightarrow> y \<in> set xs \<Longrightarrow> P (g x) (g y) \<Longrightarrow> Q (h x) (h y)) \<Longrightarrow>
    sorted_wrt Q (map h xs)"
  by (induction xs) auto

lemma defaults_established:
  "desc_ok n fs \<Longrightarrow> laid_out n fs sz \<Longrightarrow> defaults_to (pb_field_set_to_default ext_arg n) n fs sz"
proof (induction n arbitrary: fs sz)
  case 0
  then show ?case by simp
next
  case (Suc n)
  let ?N = "num_fields fs"
  have fits: "field_fits (laid_out n) sz (field_at fs i, pData (iter_at fs 0 i), pSize (iter_at fs 0 i))"
    if "i < ?N" for i
    using Suc.prems(2) that by (auto simp: placed_eq list_all_iff)
  have no: "PB_HTYPE (ftype (field_at fs i)) \<noteq> PB_HTYPE_ONEOF" if "i < ?N" for i
    using fits [OF that] by (simp add: field_fits_def)
  show ?case
    unfolding defaults_to_def
  proof (intro allI)
    fix d m
    let ?its = "map (iter_at fs d) [0..<?N]"
    let ?F = "\<lambda>it. footprint (cur it) (pData it, pSize it)"
    let ?body = "field_default_body ext_arg (pb_field_set_to_default ext_arg n)"
    have sub: "defaults_to (pb_field_set_to_default ext_arg n) n fs' sz'"
      if "desc_ok n fs'" "laid_out n fs' sz'" for fs' sz'
      using Suc.IH that by simp
    have "\<exists>m'. each_field ?body ?its m = Ret () m' \<and>
      (\<forall>it \<in> set ?its. field_default (is_default n) (cur it) (pData it) (pSize it) m') \<and>
      within (\<Union>it \<in> set ?its. ?F it) m m'"
    proof (rule each_field_establishes)
      fix it m
      assume "it \<in> set ?its"
      then obtain i where i: "i < ?N" "it = iter_at fs d i" by auto
      have c: "cur it = field_at fs i" using i by simp
      have "pSize it = pData it \<longleftrightarrow> size_offset (cur it) = 0"
        using iter_size_offset [OF i(1) no, of d] c i(2) by (simp add: signed_eq_0_iff)
      then show "\<exists>m'. ?body it m = Ret () m' \<and>
        field_default (is_default n) (cur it) (pData it) (pSize it) m' \<and> within (?F it) m m'"
        using field_default_establishes [of n it sz "pData (iter_at fs 0 i)" "pSize (iter_at fs 0 i)" d]
          field_at_ok [OF Suc.prems(1), of i] fits [OF i(1)] iter_at_shift [OF i(1), of d] c i(2) sub
        by auto
    next
      fix it m m'
      assume "it \<in> set ?its"
      then obtain i where i: "i < ?N" "it = iter_at fs d i" by auto
      assume "field_default (is_default n) (cur it) (pData it) (pSize it) m" "same_on (?F it) m m'"
      then show "field_default (is_default n) (cur it) (pData it) (pSize it) m'"
        using field_default_stable [OF fits [OF i(1)]] is_default_stable i by auto
    next
      have "sorted_wrt spans_apart
          (map (\<lambda>i. field_spans (field_at fs i, pData (iter_at fs 0 i), pSize (iter_at fs 0 i))) [0..<?N])"
        using Suc.prems(2) by (simp add: placed_eq comp_def)
      then show "sorted_wrt (\<lambda>it jt. ?F it \<inter> ?F jt = {}) ?its"
        by (rule sorted_wrt_map_mono) (use iter_at_shift [of _ fs d] footprints_disjoint in auto)
    qed
    then obtain m' where m': "each_field ?body ?its m = Ret () m'"
      "\<And>i. i < ?N \<Longrightarrow> field_default (is_default n) (field_at fs i) (pData (iter_at fs d i)) (pSize (iter_at fs d i)) m'"
      "within (\<Union>it \<in> set ?its. ?F it) m m'"
      by fastforce
    have "?F it \<subseteq> span d sz" if it: "it \<in> set ?its" for it
    proof -
      obtain i where i: "i < ?N" "it = iter_at fs d i" using it by auto
      show ?thesis
        using footprint_inside [OF fits [OF i(1)], of d] iter_at_shift [OF i(1), of d] i by simp
    qed
    then have "(\<Union>it \<in> set ?its. ?F it) \<subseteq> span d sz" by (rule UN_least)
    then have "within (span d sz) m m'" by (rule within_mono [OF m'(3)])
    moreover have "message_defaults (pb_field_set_to_default ext_arg (Suc n)) fs d m = Ret () m'"
    proof (cases "0 < ?N")
      case True
      then show ?thesis
        using m'(1) by (simp add: message_defaults_def Let_def split_beta iter_loop_all)
    next
      case False
      then show ?thesis using m'(1) by (simp add: message_defaults_def Let_def split_beta)
    qed
    moreover have "is_default (Suc n) fs d m'"
      using m'(2) iter_at_shift [of _ fs d] by (auto simp: placed_eq list_all_iff)
    ultimately show "\<exists>m'. message_defaults (pb_field_set_to_default ext_arg (Suc n)) fs d m = Ret () m' \<and>
      is_default (Suc n) fs d m' \<and> within (span d sz) m m'" by blast
  qed
qed

lemma set_to_defaults_established:
  assumes "desc_ok n fs" and "laid_out n fs sz"
  shows "\<exists>m'. pb_message_set_to_defaults ext_arg n fs dest m = Ret () m' \<and> is_default n fs dest m' \<and>
    within (span dest sz) m m'"
  using defaults_established [OF assms, of ext_arg]
  by (simp add: pb_message_set_to_defaults_def defaults_to_def)

end
