(* ===== verification/MessageDefaults.thy ===== *)
theory MessageDefaults
  imports CctMessages FirebaseCoreMessages PbLayout
begin

text \<open>
  The message types of the repository fit their structs, and the run-time defaults of
  \<open>pb_message_set_to_defaults\<close> are the values of the \<open>_init_default\<close> initializers that
  the generator wrote into the headers.
\<close>

named_theorems placed_eqs "the evaluated field and member positions"
named_theorems default_simps "default values as bytes"

section \<open>Default values as bytes\<close>

lemma byte_zero [default_simps]: "load_bytes m a (Suc 0) = [0] \<longleftrightarrow> load8 m a = 0"
  by (simp add: load8_def load_bytes_def)

lemma le_bytes_zero [default_simps]: "le_bytes n 0 = replicate n 0"
  by (induction n) auto

lemma word_zero:
  assumes "(le_word bs :: 'a::len word) = 0" and "8 * length bs \<le> LENGTH('a)"
  shows "bs = replicate (length bs) 0"
  using le_bytes_le_word [OF assms(2)] by (simp add: assms(1) le_bytes_zero)

lemma load32_zero [default_simps]: "load32 m a = 0 \<Longrightarrow> load_bytes m a 4 = replicate 4 0"
  using word_zero [of "load_bytes m a 4", where 'a = 32] by (simp add: load32_def)

lemmas [default_simps] = field_default_def Let_def PB_ATYPE_def PB_HTYPE_def pb_consts data_default_def
  gdt_cct_ClientInfo_ClientType_MIN_def gdt_cct_QosTierConfiguration_QosTier_MIN_def
  ICoreConfiguration_ConfigurationType_MIN_def ICoreConfiguration_PodName_MIN_def
  ICoreConfiguration_ServiceType_MIN_def ICoreConfiguration_DeploymentType_MIN_def

lemma default_constants [default_simps]:
  "gdt_cct_NetworkConnectionInfo_network_type_default = [255, 255, 255, 255]"
  "gdt_cct_NetworkConnectionInfo_mobile_subtype_default = [0, 0, 0, 0]"
  "gdt_cct_LogRequest_qos_tier_default = [0, 0, 0, 0]"
  "gdt_cct_QosTierConfiguration_log_source_default = [0, 0, 0, 0]"
  "le_bytes 4 (- 1 :: u64) = [255, 255, 255, 255]"
  "replicate 4 (0 :: byte) = [0, 0, 0, 0]"
  by code_simp+

section \<open>Positions\<close>

lemma gdt_cct_IosClientInfo_placed [placed_eqs]:
  "placed gdt_cct_IosClientInfo_fields =
    [(PbField 3 150 0 0 8 0 Null_ptr, 0, 0), (PbField 4 150 0 0 8 0 Null_ptr, 8, 8),
     (PbField 5 150 0 0 8 0 Null_ptr, 16, 16), (PbField 6 150 0 0 8 0 Null_ptr, 24, 24),
     (PbField 7 150 0 0 8 0 Null_ptr, 32, 32), (PbField 8 150 0 0 8 0 Null_ptr, 40, 40),
     (PbField 11 150 0 0 8 0 Null_ptr, 48, 48)]"
  unfolding gdt_cct_IosClientInfo_fields_eq by code_simp

lemma gdt_cct_IosClientInfo_places [placed_eqs]:
  "places gdt_cct_IosClientInfo =
    [(0, 8), (8, 8), (16, 8), (24, 8), (32, 8), (40, 8), (48, 8)]" "length gdt_cct_IosClientInfo = 7"
  unfolding places_def layouts by code_simp+

lemma gdt_cct_ClientInfo_placed [placed_eqs]:
  "placed gdt_cct_ClientInfo_fields =
    [(PbField 1 18 4 (- 4) 4 0 Null_ptr, 4, 0),
     (PbField 4 24 8 (- 8) 56 0 (Fields_ptr gdt_cct_IosClientInfo_fields), 16, 8)]"
  unfolding gdt_cct_ClientInfo_fields_eq by code_simp

lemma gdt_cct_ClientInfo_places [placed_eqs]:
  "places gdt_cct_ClientInfo =
    [(0, 1), (4, 4), (8, 1), (16, 56)]" "length gdt_cct_ClientInfo = 4"
  unfolding places_def layouts by code_simp+

lemma gdt_cct_NetworkConnectionInfo_placed [placed_eqs]:
  "placed gdt_cct_NetworkConnectionInfo_fields =
    [
     (PbField 1 17 4 (- 4) 4 0 (Const_ptr gdt_cct_NetworkConnectionInfo_network_type_default), 4, 0),
     (PbField 2 18 4 (- 4) 4 0 (Const_ptr gdt_cct_NetworkConnectionInfo_mobile_subtype_default), 12, 8)]"
  unfolding gdt_cct_NetworkConnectionInfo_fields_eq by code_simp

lemma gdt_cct_NetworkConnectionInfo_places [placed_eqs]:
  "places gdt_cct_NetworkConnectionInfo =
    [(0, 1), (4, 4), (8, 1), (12, 4)]" "length gdt_cct_NetworkConnectionInfo = 4"
  unfolding places_def layouts by code_simp+

lemma gdt_cct_QosTierConfiguration_placed [placed_eqs]:
  "placed gdt_cct_QosTierConfiguration_fields =
    [(PbField 2 18 4 (- 4) 4 0 Null_ptr, 4, 0),
     (PbField 3 17 4 (- 4) 4 0 (Const_ptr gdt_cct_QosTierConfiguration_log_source_default), 12, 8)]"
  unfolding gdt_cct_QosTierConfiguration_fields_eq by code_simp

lemma gdt_cct_QosTierConfiguration_places [placed_eqs]:
  "places gdt_cct_QosTierConfiguration =
    [(0, 1), (4, 4), (8, 1), (12, 4)]" "length gdt_cct_QosTierConfiguration = 4"
  unfolding places_def layouts by code_simp+

lemma gdt_cct_QosTiersOverride_placed [placed_eqs]:
  "placed gdt_cct_QosTiersOverride_fields =
    [(PbField 1 168 8 (- 8) 16 0 (Fields_ptr gdt_cct_QosTierConfiguration_fields), 8, 0),
     (PbField 2 17 8 (- 8) 8 0 Null_ptr, 24, 16)]"
  unfolding gdt_cct_QosTiersOverride_fields_eq by code_simp

lemma gdt_cct_QosTiersOverride_places [placed_eqs]:
  "places gdt_cct_QosTiersOverride =
    [(0, 4), (8, 8), (16, 1), (24, 8)]" "length gdt_cct_QosTiersOverride = 4"
  unfolding places_def layouts by code_simp+

lemma gdt_cct_LogEvent_placed [placed_eqs]:
  "placed gdt_cct_LogEvent_fields =
    [(PbField 1 17 8 (- 8) 8 0 Null_ptr, 8, 0), (PbField 6 150 0 0 8 0 Null_ptr, 16, 16),
     (PbField 11 17 4 (- 4) 4 0 Null_ptr, 28, 24),
     (PbField 15 19 8 (- 8) 8 0 Null_ptr, 40, 32),
     (PbField 17 17 8 (- 8) 8 0 Null_ptr, 56, 48),
     (PbField 23 24 4 (- 4) 16 0 (Fields_ptr gdt_cct_NetworkConnectionInfo_fields), 68, 64)]"
  unfolding gdt_cct_LogEvent_fields_eq by code_simp

lemma gdt_cct_LogEvent_places [placed_eqs]:
  "places gdt_cct_LogEvent =
    [(0, 1), (8, 8), (16, 8), (24, 1), (28, 4), (32, 1), (40, 8), (48, 1), (56, 8), (64, 1),
     (68, 16)]" "length gdt_cct_LogEvent = 11"
  unfolding places_def layouts by code_simp+

lemma gdt_cct_LogRequest_placed [placed_eqs]:
  "placed gdt_cct_LogRequest_fields =
    [(PbField 1 24 8 (- 8) 72 0 (Fields_ptr gdt_cct_ClientInfo_fields), 8, 0),
     (PbField 2 17 4 (- 4) 4 0 Null_ptr, 84, 80),
     (PbField 3 168 8 (- 8) 88 0 (Fields_ptr gdt_cct_LogEvent_fields), 96, 88),
     (PbField 4 17 8 (- 8) 8 0 Null_ptr, 112, 104),
     (PbField 8 17 8 (- 8) 8 0 Null_ptr, 128, 120),
     (PbField 9 18 4 (- 4) 4 0 (Const_ptr gdt_cct_LogRequest_qos_tier_default), 140, 136)]"
  unfolding gdt_cct_LogRequest_fields_eq by code_simp

lemma gdt_cct_LogRequest_places [placed_eqs]:
  "places gdt_cct_LogRequest =
    [(0, 1), (8, 72), (80, 1), (84, 4), (88, 4), (96, 8), (104, 1), (112, 8), (120, 1),
     (128, 8), (136, 1), (140, 4)]" "length gdt_cct_LogRequest = 12"
  unfolding places_def layouts by code_simp+

lemma gdt_cct_BatchedLogRequest_placed [placed_eqs]:
  "placed gdt_cct_BatchedLogRequest_fields =
    [(PbField 1 168 8 (- 8) 144 0 (Fields_ptr gdt_cct_LogRequest_fields), 8, 0)]"
  unfolding gdt_cct_BatchedLogRequest_fields_eq by code_simp

lemma gdt_cct_BatchedLogRequest_places [placed_eqs]:
  "places gdt_cct_BatchedLogRequest =
    [(0, 4), (8, 8)]" "length gdt_cct_BatchedLogRequest = 2"
  unfolding places_def layouts by code_simp+

lemma gdt_cct_LogResponse_placed [placed_eqs]:
  "placed gdt_cct_LogResponse_fields =
    [(PbField 1 17 8 (- 8) 8 0 Null_ptr, 8, 0),
     (PbField 3 24 8 (- 8) 32 0 (Fields_ptr gdt_cct_QosTiersOverride_fields), 24, 16)]"
  unfolding gdt_cct_LogResponse_fields_eq by code_simp

lemma gdt_cct_LogResponse_places [placed_eqs]:
  "places gdt_cct_LogResponse =
    [(0, 1), (8, 8), (16, 1), (24, 32)]" "length gdt_cct_LogResponse = 4"
  unfolding places_def layouts by code_simp+

text \<open>The telemetry messages.\<close>

lemma gdt_cct_IosClientInfo_initialised:
  "is_default (Suc n) gdt_cct_IosClientInfo_fields d m \<Longrightarrow>
    initialised (Init_struct gdt_cct_IosClientInfo gdt_cct_IosClientInfo_init_default) m d k"
  by (simp add: placed_eqs init_defs default_simps)

lemma gdt_cct_ClientInfo_initialised:
  "is_default (Suc (Suc n)) gdt_cct_ClientInfo_fields d m \<Longrightarrow>
    initialised (Init_struct gdt_cct_ClientInfo gdt_cct_ClientInfo_init_default) m d k"
  by (simp add: placed_eqs init_defs default_simps)

lemma gdt_cct_NetworkConnectionInfo_initialised:
  "is_default (Suc n) gdt_cct_NetworkConnectionInfo_fields d m \<Longrightarrow>
    initialised (Init_struct gdt_cct_NetworkConnectionInfo gdt_cct_NetworkConnectionInfo_init_default) m d k"
  by (simp add: placed_eqs init_defs default_simps)

lemma gdt_cct_QosTierConfiguration_initialised:
  "is_default (Suc n) gdt_cct_QosTierConfiguration_fields d m \<Longrightarrow>
    initialised (Init_struct gdt_cct_QosTierConfiguration gdt_cct_QosTierConfiguration_init_default) m d k"
  by (simp add: placed_eqs init_defs default_simps)

lemma gdt_cct_QosTiersOverride_initialised:
  "is_default (Suc n) gdt_cct_QosTiersOverride_fields d m \<Longrightarrow>
    initialised (Init_struct gdt_cct_QosTiersOverride gdt_cct_QosTiersOverride_init_default) m d k"
  by (simp add: placed_eqs init_defs default_simps)

lemma gdt_cct_LogEvent_initialised:
  "is_default (Suc (Suc n)) gdt_cct_LogEvent_fields d m \<Longrightarrow>
    initialised (Init_struct gdt_cct_LogEvent gdt_cct_LogEvent_init_default) m d k"
  by (simp add: placed_eqs init_defs default_simps)

lemma gdt_cct_LogRequest_initialised:
  "is_default (Suc (Suc (Suc n))) gdt_cct_LogRequest_fields d m \<Longrightarrow>
    initialised (Init_struct gdt_cct_LogRequest gdt_cct_LogRequest_init_default) m d k"
  by (simp add: placed_eqs init_defs default_simps)

lemma gdt_cct_BatchedLogRequest_initialised:
  "is_default (Suc n) gdt_cct_BatchedLogRequest_fields d m \<Longrightarrow>
    initialised (Init_struct gdt_cct_BatchedLogRequest gdt_cct_BatchedLogRequest_init_default) m d k"
  by (simp add: placed_eqs init_defs default_simps)

lemma gdt_cct_LogResponse_initialised:
  "is_default (Suc (Suc n)) gdt_cct_LogResponse_fields d m \<Longrightarrow>
    initialised (Init_struct gdt_cct_LogResponse gdt_cct_LogResponse_init_default) m d k"
  by (simp add: placed_eqs init_defs default_simps)

lemma ICoreConfiguration_placed [placed_eqs]:
  "placed ICoreConfiguration_fields =
    [(PbField 1 18 4 (- 4) 4 0 Null_ptr, 4, 0), (PbField 7 162 8 (- 8) 4 0 Null_ptr, 16, 8),
     (PbField 9 150 0 0 8 0 Null_ptr, 24, 24), (PbField 10 150 0 0 8 0 Null_ptr, 32, 32),
     (PbField 12 150 0 0 8 0 Null_ptr, 40, 40), (PbField 16 18 4 (- 4) 4 0 Null_ptr, 52, 48),
     (PbField 18 150 0 0 8 0 Null_ptr, 56, 56), (PbField 19 150 0 0 8 0 Null_ptr, 64, 64),
     (PbField 20 18 4 (- 4) 4 0 Null_ptr, 76, 72),
     (PbField 21 17 4 (- 4) 4 0 Null_ptr, 84, 80), (PbField 22 150 0 0 8 0 Null_ptr, 88, 88),
     (PbField 24 150 0 0 8 0 Null_ptr, 96, 96), (PbField 25 16 1 (- 1) 1 0 Null_ptr, 105, 104),
     (PbField 26 16 1 (- 1) 1 0 Null_ptr, 107, 106),
     (PbField 27 17 4 (- 4) 4 0 Null_ptr, 112, 108),
     (PbField 28 150 4 0 8 0 Null_ptr, 120, 120),
     (PbField 29 16 1 (- 1) 1 0 Null_ptr, 129, 128),
     (PbField 30 18 2 (- 2) 4 0 Null_ptr, 132, 130),
     (PbField 31 150 0 0 8 0 Null_ptr, 136, 136),
     (PbField 33 16 1 (- 1) 1 0 Null_ptr, 145, 144),
     (PbField 36 16 1 (- 1) 1 0 Null_ptr, 147, 146)]"
  unfolding ICoreConfiguration_fields_eq by code_simp

lemma ICoreConfiguration_places [placed_eqs]:
  "places ICoreConfiguration =
    [(0, 1), (4, 4), (8, 4), (16, 8), (24, 8), (32, 8), (40, 8), (48, 1), (52, 4), (56, 8),
     (64, 8), (72, 1), (76, 4), (80, 1), (84, 4), (88, 8), (96, 8), (104, 1), (105, 1),
     (106, 1), (107, 1), (108, 1), (112, 4), (120, 8), (128, 1), (129, 1), (130, 1), (132, 4),
     (136, 8), (144, 1), (145, 1), (146, 1), (147, 1)]" "length ICoreConfiguration = 33"
  unfolding places_def layouts by code_simp+

text \<open>The diagnostics message.\<close>

lemma ICoreConfiguration_initialised:
  "is_default (Suc n) ICoreConfiguration_fields d m \<Longrightarrow>
    initialised (Init_struct ICoreConfiguration ICoreConfiguration_init_default) m d k"
  by (simp add: placed_eqs init_defs default_simps)

section \<open>All message types\<close>

definition all_messages :: "(c_struct \<times> pb_field list \<times> c_init list) list" where
  "all_messages =
    [(gdt_cct_LogEvent, gdt_cct_LogEvent_fields, gdt_cct_LogEvent_init_default),
     (gdt_cct_NetworkConnectionInfo, gdt_cct_NetworkConnectionInfo_fields, gdt_cct_NetworkConnectionInfo_init_default),
     (gdt_cct_IosClientInfo, gdt_cct_IosClientInfo_fields, gdt_cct_IosClientInfo_init_default),
     (gdt_cct_ClientInfo, gdt_cct_ClientInfo_fields, gdt_cct_ClientInfo_init_default),
     (gdt_cct_BatchedLogRequest, gdt_cct_BatchedLogRequest_fields, gdt_cct_BatchedLogRequest_init_default),
     (gdt_cct_LogRequest, gdt_cct_LogRequest_fields, gdt_cct_LogRequest_init_default),
     (gdt_cct_QosTierConfiguration, gdt_cct_QosTierConfiguration_fields, gdt_cct_QosTierConfiguration_init_default),
     (gdt_cct_QosTiersOverride, gdt_cct_QosTiersOverride_fields, gdt_cct_QosTiersOverride_init_default),
     (gdt_cct_LogResponse, gdt_cct_LogResponse_fields, gdt_cct_LogResponse_init_default),
     (ICoreConfiguration, ICoreConfiguration_fields, ICoreConfiguration_init_default)]"

lemma telemetry_laid_out:
  "list_all (\<lambda>(st, fs, is). desc_ok 4 fs \<and> laid_out 4 fs (sizeof st)) (take 9 all_messages)"
  unfolding all_messages_def fields_eqs sizeofs by code_simp

lemma diagnostics_laid_out: "desc_ok 4 ICoreConfiguration_fields" "laid_out 4 ICoreConfiguration_fields 152"
  unfolding fields_eqs by code_simp+

lemma messages_laid_out:
  "(st, fs, is) \<in> set all_messages \<Longrightarrow> desc_ok 4 fs \<and> laid_out 4 fs (sizeof st)"
proof -
  have "all_messages = take 9 all_messages @ [(ICoreConfiguration, ICoreConfiguration_fields, ICoreConfiguration_init_default)]"
    by (simp add: all_messages_def)
  then have "set all_messages = set (take 9 all_messages) \<union>
      {(ICoreConfiguration, ICoreConfiguration_fields, ICoreConfiguration_init_default)}"
    by (metis set_append list.simps(15) empty_set)
  then show "(st, fs, is) \<in> set all_messages \<Longrightarrow> desc_ok 4 fs \<and> laid_out 4 fs (sizeof st)"
    using telemetry_laid_out diagnostics_laid_out by (auto simp: list_all_iff sizeofs)
qed

lemmas messages_initialised = gdt_cct_LogEvent_initialised gdt_cct_NetworkConnectionInfo_initialised
  gdt_cct_IosClientInfo_initialised gdt_cct_ClientInfo_initialised gdt_cct_BatchedLogRequest_initialised
  gdt_cct_LogRequest_initialised gdt_cct_QosTierConfiguration_initialised
  gdt_cct_QosTiersOverride_initialised gdt_cct_LogResponse_initialised ICoreConfiguration_initialised

lemma messages_default:
  assumes "(st, fs, is) \<in> set all_messages" and "is_default 4 fs d m"
  shows "initialised (Init_struct st is) m d k"
proof -
  have "4 = Suc (Suc (Suc (Suc 0)))" by simp
  with assms(2) have "is_default (Suc (Suc (Suc (Suc 0)))) fs d m" by simp
  with assms(1) show ?thesis
    unfolding all_messages_def set_simps insert_iff empty_iff prod.inject
    by (elim disjE conjE FalseE) (simp_all only: messages_initialised)
qed

end
