(* ===== verification/IStream.thy ===== *)
theory IStream
  imports PbTypes
begin

text \<open>
  The input side of \<open>nanopb/pb_decode.c\<close>: the input stream, reading from it, varints,
  tags, skipping and length-limited substreams, and the decoders of single scalar values.

  A stream over a memory buffer keeps in \<open>istate\<close> the bytes from its read pointer on;
  \<open>bytes_left\<close> limits how many of them may be read. A custom stream's callback is a
  function from the requested count and its own state to the bytes it delivers (or a
  failure) and its new state. A read returns the bytes stored at \<open>buf\<close>; the caller puts
  them where \<open>buf\<close> points.
\<close>

section \<open>The stream\<close>

datatype icallback = Buf_read | User_read "nat \<Rightarrow> byte list \<Rightarrow> byte list option \<times> byte list"

record pb_istream =
  icallback :: icallback
  istate :: "byte list"
  bytes_left :: nat
  ierrmsg :: "string option"

definition PB_SET_ERROR :: "string \<Rightarrow> pb_istream \<Rightarrow> pb_istream" where
  "PB_SET_ERROR msg s = s\<lparr>ierrmsg := (case ierrmsg s of Some m \<Rightarrow> Some m | None \<Rightarrow> Some msg)\<rparr>"

definition PB_RETURN_ERROR :: "string \<Rightarrow> (pb_istream, 'a) cmd" where
  "PB_RETURN_ERROR msg = (\<lambda>s. Fail (PB_SET_ERROR msg s))"

text \<open>Bytes a callback does not deliver, or past the end of the buffer, are unspecified: 0 here.\<close>

definition fill_buf :: "nat \<Rightarrow> byte list \<Rightarrow> byte list" where
  "fill_buf n bs = take n bs @ replicate (n - length bs) 0"

definition buf_read :: "bool \<Rightarrow> nat \<Rightarrow> (pb_istream, byte list) cmd" where
  "buf_read has_buf count = (\<lambda>s.
     Ret (if has_buf then fill_buf count (istate s) else []) (s\<lparr>istate := drop count (istate s)\<rparr>))"

definition stream_callback :: "bool \<Rightarrow> nat \<Rightarrow> (pb_istream, byte list) cmd" where
  "stream_callback has_buf count = (\<lambda>s.
     case icallback s of
       Buf_read \<Rightarrow> buf_read has_buf count s
     | User_read f \<Rightarrow>
         (case f count (istate s) of
            (Some bs, st) \<Rightarrow> Ret (fill_buf count bs) (s\<lparr>istate := st\<rparr>)
          | (None, st) \<Rightarrow> Fail (s\<lparr>istate := st\<rparr>)))"

definition is_buf :: "pb_istream \<Rightarrow> bool" where
  "is_buf s = (case icallback s of Buf_read \<Rightarrow> True | User_read f \<Rightarrow> False)"

text \<open>\<open>pb_read\<close> after the skip case.\<close>

definition pb_read_direct :: "bool \<Rightarrow> nat \<Rightarrow> (pb_istream, byte list) cmd" where
  "pb_read_direct has_buf count = (\<lambda>s.
     if bytes_left s < count then PB_RETURN_ERROR ''end-of-stream'' s
     else case stream_callback has_buf count s of
         Ret bs s' \<Rightarrow> Ret bs (s'\<lparr>bytes_left := bytes_left s' - count\<rparr>)
       | Fail s' \<Rightarrow> PB_RETURN_ERROR ''io error'' s'
       | Stuck \<Rightarrow> Stuck)"

text \<open>Skipping on a custom stream: read and drop, sixteen bytes at a time.\<close>

fun pb_read_skip :: "nat \<Rightarrow> (pb_istream, byte list) cmd" where
  "pb_read_skip count =
     (if count > 16 then bindC (pb_read_direct True 16) (\<lambda>tmp. pb_read_skip (count - 16))
      else if count = 0 then returnC []
      else bindC (pb_read_direct True count) (\<lambda>tmp. returnC []))"

declare pb_read_skip.simps [simp del]

definition pb_read :: "bool \<Rightarrow> nat \<Rightarrow> (pb_istream, byte list) cmd" where
  "pb_read has_buf count = (\<lambda>s.
     if count = 0 then Ret [] s
     else if \<not> has_buf \<and> \<not> is_buf s then pb_read_skip count s
     else pb_read_direct has_buf count s)"

definition pb_readbyte :: "(pb_istream, byte) cmd" where
  "pb_readbyte = (\<lambda>s.
     if bytes_left s = 0 then PB_RETURN_ERROR ''end-of-stream'' s
     else case stream_callback True 1 s of
         Ret bs s' \<Rightarrow> Ret (hd bs) (s'\<lparr>bytes_left := bytes_left s' - 1\<rparr>)
       | Fail s' \<Rightarrow> PB_RETURN_ERROR ''io error'' s'
       | Stuck \<Rightarrow> Stuck)"

definition pb_istream_from_buffer :: "byte list \<Rightarrow> nat \<Rightarrow> pb_istream" where
  "pb_istream_from_buffer buf bufsize =
     \<lparr>icallback = Buf_read, istate = buf, bytes_left = bufsize, ierrmsg = None\<rparr>"

section \<open>What every read keeps\<close>

text \<open>
  \<open>consumed s s'\<close>: from \<open>s\<close> to \<open>s'\<close> the stream only moved forward, never past what
  \<open>bytes_left\<close> allowed, by exactly the bytes it was charged for, and an error message once
  set was kept.
\<close>

definition consumed :: "pb_istream \<Rightarrow> pb_istream \<Rightarrow> bool" where
  "consumed s s' \<longleftrightarrow> icallback s' = icallback s \<and> bytes_left s' \<le> bytes_left s \<and>
     (is_buf s \<longrightarrow> istate s' = drop (bytes_left s - bytes_left s') (istate s)) \<and>
     (ierrmsg s \<noteq> None \<longrightarrow> ierrmsg s' = ierrmsg s)"

lemma consumed_refl: "consumed s s"
  by (auto simp: consumed_def)

lemma consumed_trans:
  assumes "consumed s t" and "consumed t u"
  shows "consumed s u"
proof -
  have "istate u = drop (bytes_left s - bytes_left u) (istate s)" if b: "is_buf s"
  proof -
    have "is_buf t" using assms(1) b by (simp add: consumed_def is_buf_def)
    then show ?thesis using assms b by (auto simp: consumed_def)
  qed
  then show ?thesis using assms by (auto simp: consumed_def)
qed

lemma consumed_order [keeps_intros]: "reflp consumed" "transp consumed"
  by (auto intro: reflpI transpI consumed_refl consumed_trans)

text \<open>A well-formed buffer stream: the bytes it may still read are there.\<close>

definition istream_ok :: "pb_istream \<Rightarrow> bool" where
  "istream_ok s \<longleftrightarrow> is_buf s \<and> bytes_left s \<le> length (istate s)"

lemma consumed_ok: "consumed s s' \<Longrightarrow> istream_ok s \<Longrightarrow> istream_ok s'"
  by (auto simp: consumed_def istream_ok_def is_buf_def)

lemma consumed_error: "consumed s (PB_SET_ERROR msg s)"
  by (auto simp: consumed_def PB_SET_ERROR_def split: option.split)

lemma consumed_set_error: "consumed s s' \<Longrightarrow> consumed s (PB_SET_ERROR msg s')"
  using consumed_error consumed_trans by blast

lemma keeps_error [keeps_intros]: "keeps consumed (PB_RETURN_ERROR msg)"
  by (auto simp: keeps_def PB_RETURN_ERROR_def consumed_error)

lemma length_fill_buf [simp]: "length (fill_buf n bs) = n"
  by (simp add: fill_buf_def)

lemma fill_buf_take: "n \<le> length bs \<Longrightarrow> fill_buf n bs = take n bs"
  by (simp add: fill_buf_def)

lemma stream_callback_cases:
  "(\<exists>bs st. stream_callback b n s = Ret bs (s\<lparr>istate := st\<rparr>) \<and> (b \<longrightarrow> length bs = n)
      \<and> (is_buf s \<longrightarrow> st = drop n (istate s)))
   \<or> (\<exists>st. stream_callback b n s = Fail (s\<lparr>istate := st\<rparr>) \<and> \<not> is_buf s)"
  by (cases "icallback s")
    (auto simp: stream_callback_def buf_read_def is_buf_def split: prod.split option.split)

lemma keeps_pb_read_direct [keeps_intros]: "keeps consumed (pb_read_direct b n)"
proof (rule keepsI)
  fix s bs s'
  assume "pb_read_direct b n s = Ret bs s'"
  then show "consumed s s'"
    using stream_callback_cases [of b n s]
    by (auto simp: pb_read_direct_def consumed_def PB_RETURN_ERROR_def is_buf_def
        split: if_splits)
next
  fix s s'
  assume "pb_read_direct b n s = Fail s'"
  then show "consumed s s'"
    using stream_callback_cases [of b n s]
    by (auto simp: pb_read_direct_def PB_RETURN_ERROR_def split: if_splits
        intro!: consumed_set_error) (auto simp: consumed_def PB_SET_ERROR_def is_buf_def split: option.splits)
qed

lemma keeps_pb_read_skip [keeps_intros]: "keeps consumed (pb_read_skip n)"
  by (induction n rule: pb_read_skip.induct)
    (subst pb_read_skip.simps, auto intro!: keeps_intros)

lemma keeps_pb_read [keeps_intros]: "keeps consumed (pb_read b n)"
  using keeps_pb_read_direct [of b n] keeps_pb_read_skip [of n]
  by (auto simp: keeps_def pb_read_def consumed_refl)

lemma pb_readbyte_direct:
  "pb_readbyte s = (case pb_read_direct True 1 s of
     Ret bs s' \<Rightarrow> Ret (hd bs) s' | Fail s' \<Rightarrow> Fail s' | Stuck \<Rightarrow> Stuck)"
  by (auto simp: pb_readbyte_def pb_read_direct_def PB_RETURN_ERROR_def split: outcome.split)

lemma keeps_pb_readbyte [keeps_intros]: "keeps consumed pb_readbyte"
  using keeps_pb_read_direct [of True 1]
  by (auto simp: keeps_def pb_readbyte_direct split: outcome.splits dest: spec)

lemma pb_readbyte_less: "pb_readbyte s = Ret b s' \<Longrightarrow> bytes_left s' < bytes_left s"
  using stream_callback_cases [of True 1 s]
  by (auto simp: pb_readbyte_def PB_RETURN_ERROR_def split: if_splits)

lemma pb_read_left:
  assumes "pb_read b n s = Ret bs s'"
  shows "n \<le> bytes_left s \<and> bytes_left s' = bytes_left s - n"
proof -
  have direct: "n \<le> bytes_left s \<and> bytes_left s' = bytes_left s - n"
    if "pb_read_direct b n s = Ret bs s'" for b n s bs s'
    using that stream_callback_cases [of b n s]
    by (auto simp: pb_read_direct_def PB_RETURN_ERROR_def split: if_splits)
  have "pb_read_skip n s = Ret bs s' \<Longrightarrow> n \<le> bytes_left s \<and> bytes_left s' = bytes_left s - n"
    for n s bs s'
  proof (induction n arbitrary: s rule: pb_read_skip.induct)
    case (1 n)
    then show ?case
      by (subst (asm) (2) pb_read_skip.simps)
        (auto simp: bindC_eq_Ret split: if_splits dest!: direct 1(1))
  qed
  then show ?thesis
    using assms direct by (fastforce simp: pb_read_def split: if_splits)
qed

lemma pb_read_left_less:
  "pb_read b (Suc n) s = Ret bs s' \<Longrightarrow> bytes_left s' < bytes_left s"
  by (drule pb_read_left) simp

section \<open>Varints\<close>

text \<open>
  \<open>uint_fast8_t\<close> has 8 bits on the platform, so \<open>bitpos\<close> wraps at 256. The loop
  returns the value with the final \<open>bitpos\<close> and the last byte.
\<close>

function varint32_loop :: "8 word \<Rightarrow> u32 \<Rightarrow> (pb_istream, u32 \<times> 8 word \<times> byte) cmd" where
  "varint32_loop bitpos result s =
     (case pb_readbyte s of
        Ret byte s' \<Rightarrow>
          (if bitpos \<ge> 32 \<and>
              (let sign_extension = (if bitpos < 63 then 0xFF else 0x01) in
               byte AND 0x7F \<noteq> 0 \<and> (drop_bit 31 result = 0 \<or> byte \<noteq> sign_extension))
           then PB_RETURN_ERROR ''varint overflow'' s'
           else
             let result' = (if bitpos \<ge> 32 then result
                            else result OR push_bit (unat bitpos) (ucast (byte AND 0x7F)));
                 bitpos' = bitpos + 7
             in if byte AND 0x80 \<noteq> 0 then varint32_loop bitpos' result' s'
                else Ret (result', bitpos', byte) s')
      | Fail s' \<Rightarrow> Fail s'
      | Stuck \<Rightarrow> Stuck)"
  by pat_completeness auto
termination
  by (relation "measure (\<lambda>(b, r, s). bytes_left s)") (auto dest: pb_readbyte_less)

declare varint32_loop.simps [simp del]

text \<open>The first component of the result is what the function stores in \<open>*eof\<close>.\<close>

definition pb_decode_varint32_eof :: "pb_istream \<Rightarrow> bool \<times> (pb_istream, u32) outcome" where
  "pb_decode_varint32_eof s =
     (case pb_readbyte s of
        Fail s' \<Rightarrow> (bytes_left s' = 0, Fail s')
      | Stuck \<Rightarrow> (False, Stuck)
      | Ret byte s' \<Rightarrow>
          (False,
           if byte AND 0x80 = 0 then Ret (ucast byte) s'
           else bindC (varint32_loop 7 (ucast (byte AND 0x7F)))
                  (\<lambda>(result, bitpos, byte).
                     if bitpos = 35 \<and> byte AND 0x70 \<noteq> 0
                     then PB_RETURN_ERROR ''varint overflow''
                     else returnC result) s'))"

definition pb_decode_varint32 :: "(pb_istream, u32) cmd" where
  "pb_decode_varint32 s = snd (pb_decode_varint32_eof s)"

function varint_loop :: "8 word \<Rightarrow> u64 \<Rightarrow> (pb_istream, u64) cmd" where
  "varint_loop bitpos result s =
     (if bitpos \<ge> 64 then PB_RETURN_ERROR ''varint overflow'' s
      else case pb_readbyte s of
        Ret byte s' \<Rightarrow>
          (let result' = result OR push_bit (unat bitpos) (ucast (byte AND 0x7F));
               bitpos' = bitpos + 7
           in if byte AND 0x80 \<noteq> 0 then varint_loop bitpos' result' s' else Ret result' s')
      | Fail s' \<Rightarrow> Fail s'
      | Stuck \<Rightarrow> Stuck)"
  by pat_completeness auto
termination
  by (relation "measure (\<lambda>(b, r, s). bytes_left s)") (auto dest: pb_readbyte_less)

declare varint_loop.simps [simp del]

definition pb_decode_varint :: "(pb_istream, u64) cmd" where
  "pb_decode_varint = varint_loop 0 0"

section \<open>Skipping and tags\<close>

function pb_skip_varint :: "(pb_istream, unit) cmd" where
  "pb_skip_varint s =
     (case pb_read True 1 s of
        Ret bs s' \<Rightarrow> (if hd bs AND 0x80 \<noteq> 0 then pb_skip_varint s' else Ret () s')
      | Fail s' \<Rightarrow> Fail s'
      | Stuck \<Rightarrow> Stuck)"
  by pat_completeness auto
termination
  by (relation "measure bytes_left") (auto dest: pb_read_left_less [of True 0, simplified])

declare pb_skip_varint.simps [simp del]

definition pb_skip_string :: "(pb_istream, unit) cmd" where
  "pb_skip_string =
     bindC pb_decode_varint32 (\<lambda>len. bindC (pb_read False (unat len)) (\<lambda>_. returnC ()))"

text \<open>The first component is the final \<open>*eof\<close>; the results are the wire type and the tag.\<close>

definition pb_decode_tag ::
    "pb_istream \<Rightarrow> bool \<times> (pb_istream, pb_wire_type_t \<times> u32) outcome" where
  "pb_decode_tag s =
     (case pb_decode_varint32_eof s of
        (eof, Fail s') \<Rightarrow> (eof, Fail s')
      | (eof, Stuck) \<Rightarrow> (eof, Stuck)
      | (eof, Ret temp s') \<Rightarrow>
          if temp = 0 then (True, Fail s') else (eof, Ret (temp AND 7, drop_bit 3 temp) s'))"

definition pb_skip_field :: "pb_wire_type_t \<Rightarrow> (pb_istream, unit) cmd" where
  "pb_skip_field wire_type =
     (if wire_type = PB_WT_VARINT then pb_skip_varint
      else if wire_type = PB_WT_64BIT then bindC (pb_read False 8) (\<lambda>_. returnC ())
      else if wire_type = PB_WT_STRING then pb_skip_string
      else if wire_type = PB_WT_32BIT then bindC (pb_read False 4) (\<lambda>_. returnC ())
      else PB_RETURN_ERROR ''invalid wire_type'')"

text \<open>
  \<open>read_raw_value\<close>: the bytes it stores at \<open>buf\<close>, at most \<open>max_size\<close> of them.
  \<open>n\<close> counts the bytes read so far.
\<close>

function raw_varint :: "nat \<Rightarrow> nat \<Rightarrow> (pb_istream, byte list) cmd" where
  "raw_varint max_size n =
     (if Suc n > max_size then failC
      else bindC (pb_read True 1) (\<lambda>bs.
             if hd bs AND 0x80 \<noteq> 0
             then bindC (raw_varint max_size (Suc n)) (\<lambda>rest. returnC (bs @ rest))
             else returnC bs))"
  by pat_completeness auto
termination
  by (relation "measure (\<lambda>(k, n). k - n)") auto

declare raw_varint.simps [simp del]

definition read_raw_value :: "pb_wire_type_t \<Rightarrow> nat \<Rightarrow> (pb_istream, byte list) cmd" where
  "read_raw_value wire_type max_size =
     (if wire_type = PB_WT_VARINT then raw_varint max_size 0
      else if wire_type = PB_WT_64BIT then pb_read True 8
      else if wire_type = PB_WT_32BIT then pb_read True 4
      else PB_RETURN_ERROR ''invalid wire_type'')"

section \<open>Substreams\<close>

definition pb_make_string_substream :: "(pb_istream, pb_istream) cmd" where
  "pb_make_string_substream =
     bindC pb_decode_varint32 (\<lambda>sz s.
       if bytes_left s < unat sz then PB_RETURN_ERROR ''parent stream too short'' s
       else Ret (s\<lparr>bytes_left := unat sz\<rparr>) (s\<lparr>bytes_left := bytes_left s - unat sz\<rparr>))"

definition pb_close_string_substream :: "pb_istream \<Rightarrow> (pb_istream, unit) cmd" where
  "pb_close_string_substream sub = (\<lambda>s.
     case (if bytes_left sub \<noteq> 0 then pb_read False (bytes_left sub) sub else Ret [] sub) of
       Ret bs sub' \<Rightarrow> Ret () (s\<lparr>istate := istate sub', ierrmsg := ierrmsg sub'\<rparr>)
     | Fail sub' \<Rightarrow> Fail s
     | Stuck \<Rightarrow> Stuck)"

section \<open>Scalar values\<close>

text \<open>Signed results are the two's complement bits of the C value.\<close>

definition pb_decode_bool :: "(pb_istream, bool) cmd" where
  "pb_decode_bool = bindC pb_decode_varint32 (\<lambda>value. returnC (value \<noteq> 0))"

definition pb_decode_svarint :: "(pb_istream, u64) cmd" where
  "pb_decode_svarint = bindC pb_decode_varint (\<lambda>value.
     returnC (if value AND 1 \<noteq> 0 then NOT (drop_bit 1 value) else drop_bit 1 value))"

definition pb_decode_fixed32 :: "(pb_istream, u32) cmd" where
  "pb_decode_fixed32 = bindC (pb_read True 4) (\<lambda>bytes.
     returnC (push_bit 0 (ucast (bytes ! 0)) OR push_bit 8 (ucast (bytes ! 1))
       OR push_bit 16 (ucast (bytes ! 2)) OR push_bit 24 (ucast (bytes ! 3))))"

definition pb_decode_fixed64 :: "(pb_istream, u64) cmd" where
  "pb_decode_fixed64 = bindC (pb_read True 8) (\<lambda>bytes.
     returnC (push_bit 0 (ucast (bytes ! 0)) OR push_bit 8 (ucast (bytes ! 1))
       OR push_bit 16 (ucast (bytes ! 2)) OR push_bit 24 (ucast (bytes ! 3))
       OR push_bit 32 (ucast (bytes ! 4)) OR push_bit 40 (ucast (bytes ! 5))
       OR push_bit 48 (ucast (bytes ! 6)) OR push_bit 56 (ucast (bytes ! 7))))"

section \<open>The contract of the stream operations\<close>

lemma pb_read_direct_returns: "pb_read_direct b n s \<noteq> Stuck"
  using stream_callback_cases [of b n s] by (auto simp: pb_read_direct_def PB_RETURN_ERROR_def)

lemma pb_read_returns: "pb_read b n s \<noteq> Stuck"
proof -
  have "pb_read_skip n s \<noteq> Stuck" for n s
  proof (induction n arbitrary: s rule: pb_read_skip.induct)
    case (1 n)
    then show ?case
      by (subst pb_read_skip.simps) (auto simp: bindC_eq_Stuck pb_read_direct_returns)
  qed
  then show ?thesis by (simp add: pb_read_def pb_read_direct_returns)
qed

lemma pb_readbyte_returns: "pb_readbyte s \<noteq> Stuck"
  using pb_read_direct_returns [of True 1 s] by (auto simp: pb_readbyte_direct split: outcome.split)

lemma error_returns: "PB_RETURN_ERROR msg s \<noteq> Stuck"
  by (simp add: PB_RETURN_ERROR_def)

text \<open>
  Every operation of the input stream shares one contract: it comes back, and it only moves
  the stream forward inside its limit. What follows from the contract is proved once, for
  any operation that meets it.
\<close>

definition advances :: "pb_istream \<Rightarrow> (pb_istream, 'a) outcome \<Rightarrow> bool" where
  "advances s r = (case r of Ret a t \<Rightarrow> consumed s t | Fail t \<Rightarrow> consumed s t | Stuck \<Rightarrow> False)"

lemma advances_simps [simp]:
  "advances s (Ret a t) = consumed s t" "advances s (Fail t) = consumed s t" "\<not> advances s Stuck"
  by (simp_all add: advances_def)

lemma advances_trans: "consumed s t \<Longrightarrow> advances t r \<Longrightarrow> advances s r"
  by (auto simp: advances_def split: outcome.splits intro: consumed_trans)

lemma advances_error: "consumed s t \<Longrightarrow> advances s (PB_RETURN_ERROR msg t)"
  by (simp add: PB_RETURN_ERROR_def consumed_set_error)

locale istream_op =
  fixes f :: "(pb_istream, 'a) cmd"
  assumes consumes: "keeps consumed f"
    and returns: "f s \<noteq> Stuck"
begin

lemma result_cases:
  obtains a s' where "f s = Ret a s'" "consumed s s'" | s' where "f s = Fail s'" "consumed s s'"
  using consumes returns [of s] keeps_Ret [OF consumes, of s] keeps_Fail [OF consumes, of s]
  by (cases "f s") auto

lemma ok_kept:
  "istream_ok s \<Longrightarrow> f s = Ret a s' \<Longrightarrow> istream_ok s'"
  "istream_ok s \<Longrightarrow> f s = Fail s' \<Longrightarrow> istream_ok s'"
  by (auto intro: consumed_ok dest: keeps_Ret [OF consumes] keeps_Fail [OF consumes])

lemma left_le:
  "f s = Ret a s' \<Longrightarrow> bytes_left s' \<le> bytes_left s"
  "f s = Fail s' \<Longrightarrow> bytes_left s' \<le> bytes_left s"
  by (auto simp: consumed_def dest: keeps_Ret [OF consumes] keeps_Fail [OF consumes])

lemma error_sticky:
  "ierrmsg s = Some m \<Longrightarrow> f s = Ret a s' \<Longrightarrow> ierrmsg s' = Some m"
  "ierrmsg s = Some m \<Longrightarrow> f s = Fail s' \<Longrightarrow> ierrmsg s' = Some m"
  by (auto simp: consumed_def dest: keeps_Ret [OF consumes] keeps_Fail [OF consumes])

end

lemma istream_opI:
  assumes "\<And>s. advances s (f s)"
  shows "istream_op f"
proof
  show "keeps consumed f"
    unfolding keeps_def
  proof
    show "case f s of Ret a t \<Rightarrow> consumed s t | Fail t \<Rightarrow> consumed s t | Stuck \<Rightarrow> True" for s
      using assms [of s] by (cases "f s") auto
  qed
  show "f s \<noteq> Stuck" for s using assms [of s] by auto
qed

lemma istream_opD: "istream_op f \<Longrightarrow> advances s (f s)"
  using keeps_Ret [of consumed f s] keeps_Fail [of consumed f s]
  by (auto simp: advances_def istream_op_def split: outcome.split)

lemma istream_op_bind:
  assumes "istream_op f" and "\<And>a. istream_op (g a)"
  shows "istream_op (bindC f g)"
proof
  show "keeps consumed (bindC f g)"
    using assms by (auto intro!: keeps_intros simp: istream_op_def)
  show "bindC f g s \<noteq> Stuck" for s
    using assms by (auto simp: bindC_eq_Stuck istream_op_def)
qed

lemma istream_op_return: "istream_op (returnC v)"
  by unfold_locales (auto intro!: keeps_intros)

lemma istream_op_error: "istream_op (PB_RETURN_ERROR msg)"
  by unfold_locales (auto intro!: keeps_intros simp: error_returns)

lemma istream_op_fail: "istream_op failC"
  by unfold_locales (auto intro!: keeps_intros)

interpretation rd: istream_op "pb_read b n" for b n
  by unfold_locales (auto intro: keeps_intros simp: pb_read_returns)

interpretation rdb: istream_op pb_readbyte
  by unfold_locales (auto intro: keeps_intros simp: pb_readbyte_returns)

lemma advances_varint32_loop: "advances s (varint32_loop bitpos result s)"
proof (induction bitpos result s rule: varint32_loop.induct)
  case (1 bitpos result s)
  show ?case
  proof (cases rule: rdb.result_cases [of s])
    case (1 byte s')
    then show ?thesis
      using "1.IH" [OF 1(1)]
      by (subst varint32_loop.simps) (auto simp: Let_def intro: advances_trans advances_error)
  next
    case (2 s')
    then show ?thesis by (subst varint32_loop.simps) simp
  qed
qed

interpretation v32l: istream_op "varint32_loop bitpos result" for bitpos result
  by (rule istream_opI) (rule advances_varint32_loop)

lemma advances_varint_loop: "advances s (varint_loop bitpos result s)"
proof (induction bitpos result s rule: varint_loop.induct)
  case (1 bitpos result s)
  show ?case
  proof (cases rule: rdb.result_cases [of s])
    case (1 byte s')
    then show ?thesis
      using "1.IH" [OF _ 1(1)]
      by (subst varint_loop.simps)
        (auto simp: Let_def intro: advances_trans advances_error consumed_refl)
  next
    case (2 s')
    then show ?thesis
      by (subst varint_loop.simps) (auto intro: advances_error consumed_refl)
  qed
qed

interpretation vl: istream_op "varint_loop bitpos result" for bitpos result
  by (rule istream_opI) (rule advances_varint_loop)

interpretation v32: istream_op pb_decode_varint32
proof (rule istream_opI)
  fix s
  let ?rest = "\<lambda>r. bindC (varint32_loop 7 r) (\<lambda>(result, bitpos, byte).
      if bitpos = 35 \<and> byte AND 0x70 \<noteq> 0 then PB_RETURN_ERROR ''varint overflow''
      else returnC result)"
  have op: "advances t (?rest r t)" for r t
    by (intro istream_opD istream_op_bind v32l.istream_op_axioms)
      (auto intro: istream_op_return istream_op_error split: prod.split)
  show "advances s (pb_decode_varint32 s)"
    unfolding pb_decode_varint32_def pb_decode_varint32_eof_def
    by (cases rule: rdb.result_cases [of s]) (auto intro: advances_trans op)
qed

interpretation v64: istream_op pb_decode_varint
  unfolding pb_decode_varint_def by (rule vl.istream_op_axioms)

lemma advances_skip_varint: "advances s (pb_skip_varint s)"
proof (induction s rule: pb_skip_varint.induct)
  case (1 s)
  show ?case
  proof (cases rule: rd.result_cases [of True 1 s])
    case (1 bs s')
    then show ?thesis
      using "1.IH" [OF 1(1)] by (subst pb_skip_varint.simps) (auto intro: advances_trans)
  next
    case (2 s')
    then show ?thesis by (subst pb_skip_varint.simps) simp
  qed
qed

interpretation skv: istream_op pb_skip_varint
  by (rule istream_opI) (rule advances_skip_varint)

lemmas istream_op_rules = istream_op_bind istream_op_return istream_op_error istream_op_fail
  rd.istream_op_axioms v32.istream_op_axioms v64.istream_op_axioms skv.istream_op_axioms

interpretation sks: istream_op pb_skip_string
  unfolding pb_skip_string_def by (intro istream_op_rules)

interpretation skf: istream_op "pb_skip_field wt" for wt
  unfolding pb_skip_field_def
  by (auto intro!: istream_op_rules sks.istream_op_axioms)

lemma istream_op_raw_varint: "istream_op (raw_varint k n)"
proof (induction k n rule: raw_varint.induct)
  case (1 k n)
  then show ?case
    by (subst raw_varint.simps) (auto intro!: istream_op_rules)
qed

interpretation rawv: istream_op "read_raw_value wt k" for wt k
  unfolding read_raw_value_def by (auto intro!: istream_op_rules istream_op_raw_varint)

interpretation dbool: istream_op pb_decode_bool
  unfolding pb_decode_bool_def by (intro istream_op_rules)

interpretation dsv: istream_op pb_decode_svarint
  unfolding pb_decode_svarint_def by (intro istream_op_rules)

interpretation df32: istream_op pb_decode_fixed32
  unfolding pb_decode_fixed32_def by (intro istream_op_rules)

interpretation df64: istream_op pb_decode_fixed64
  unfolding pb_decode_fixed64_def by (intro istream_op_rules)

end
