(* ===== verification/PbDecode.thy ===== *)
theory PbDecode
  imports PbFields IStream
begin

text \<open>
  The message decoder of \<open>nanopb/pb_decode.c\<close>: the decoders of single fields, the three
  kinds of field storage (static, pointer, callback), extensions, the field loop of
  \<open>pb_decode_noinit\<close> and its callers.

  The state is the input stream together with the memory. What the user of the library
  supplies (the decode callbacks, the extension types with their handlers) is the argument
  \<open>E\<close>. The functions between two nested calls of \<open>pb_decode_noinit\<close> take that call as
  \<open>R\<close> and the depth left for submessages as \<open>n\<close>; \<open>pb_decode_noinit\<close> at the end ties
  the recursion. A call through a NULL or missing table entry is \<open>Stuck\<close>.
\<close>

section \<open>The state\<close>

record dstate =
  strm :: pb_istream
  dmem :: cmem

record denv =
  decode_cb :: "addr \<Rightarrow> pb_field \<Rightarrow> addr \<Rightarrow> (dstate, unit) cmd"
  type_decode :: "addr \<Rightarrow> (addr \<Rightarrow> u32 \<Rightarrow> pb_wire_type_t \<Rightarrow> (dstate, unit) cmd) option"
  type_arg :: ext_env

definition strm_do :: "(pb_istream, 'a) cmd \<Rightarrow> (dstate, 'a) cmd" where
  "strm_do f = (\<lambda>s. case f (strm s) of
     Ret a t \<Rightarrow> Ret a (s\<lparr>strm := t\<rparr>) | Fail t \<Rightarrow> Fail (s\<lparr>strm := t\<rparr>) | Stuck \<Rightarrow> Stuck)"

definition mem_do :: "(cmem, 'a) cmd \<Rightarrow> (dstate, 'a) cmd" where
  "mem_do f = (\<lambda>s. case f (dmem s) of
     Ret a m \<Rightarrow> Ret a (s\<lparr>dmem := m\<rparr>) | Fail m \<Rightarrow> Fail (s\<lparr>dmem := m\<rparr>) | Stuck \<Rightarrow> Stuck)"

abbreviation store_do :: "(cmem \<Rightarrow> cmem) \<Rightarrow> (dstate, unit) cmd" where
  "store_do h \<equiv> mem_do (modifyC h)"

abbreviation load_do :: "(cmem \<Rightarrow> 'a) \<Rightarrow> (dstate, 'a) cmd" where
  "load_do h \<equiv> mem_do (getC h)"

abbreviation error_do :: "string \<Rightarrow> (dstate, 'a) cmd" where
  "error_do msg \<equiv> strm_do (PB_RETURN_ERROR msg)"

text \<open>Work on a local \<open>substream\<close>; the result carries what became of it.\<close>

definition in_substream :: "pb_istream \<Rightarrow> (dstate, 'a) cmd \<Rightarrow> (dstate, 'a \<times> pb_istream) cmd" where
  "in_substream sub f = (\<lambda>s. case f (s\<lparr>strm := sub\<rparr>) of
     Ret a t \<Rightarrow> Ret (a, strm t) (t\<lparr>strm := strm s\<rparr>)
   | Fail t \<Rightarrow> Fail (t\<lparr>strm := strm s\<rparr>)
   | Stuck \<Rightarrow> Stuck)"

text \<open>\<open>pb_read(stream, dest, count)\<close> into memory.\<close>

definition read_to :: "addr \<Rightarrow> nat \<Rightarrow> (dstate, unit) cmd" where
  "read_to dest count = bindC (strm_do (pb_read True count)) (\<lambda>bs. store_do (store_bytes dest bs))"

section \<open>Allocation\<close>

definition allocate_field :: "addr \<Rightarrow> u64 \<Rightarrow> u64 \<Rightarrow> (dstate, unit) cmd" where
  "allocate_field p dsize asize =
     bindC (load_do (\<lambda>m. load_ptr m p)) (\<lambda>ptr.
     if dsize = 0 \<or> asize = 0 then error_do ''invalid size''
     else let check_limit = push_bit 32 1; size_max = - 1 in
       if (dsize \<ge> check_limit \<or> asize \<ge> check_limit) \<and> size_max div asize < dsize
       then error_do ''size too large''
       else bindC (mem_do (pb_realloc ptr (unat (asize * dsize))))
              (\<lambda>q. if q = 0 then error_do ''realloc failed'' else store_do (store_ptr p q)))"

section \<open>Field decoders\<close>

definition pb_dec_bool :: "pb_field \<Rightarrow> addr \<Rightarrow> (dstate, unit) cmd" where
  "pb_dec_bool f dest =
     bindC (strm_do pb_decode_varint32) (\<lambda>value.
       store_do (store8 dest (if value \<noteq> 0 then 1 else 0)))"

text \<open>
  Storing an integer in a field of \<open>data_size\<close> bytes: the field keeps the low bytes, and
  the widened result is compared with the value. Signed and unsigned fields widen
  differently.
\<close>

definition store_signed :: "pb_size_t \<Rightarrow> addr \<Rightarrow> u64 \<Rightarrow> (dstate, unit) cmd" where
  "store_signed dsize dest svalue =
     (let check = (\<lambda>clamped. if clamped \<noteq> svalue then error_do ''integer too large'' else returnC ())
      in if dsize = 8 then bindC (store_do (store64 dest svalue)) (\<lambda>_. check svalue)
         else if dsize = 4
         then bindC (store_do (store32 dest (ucast svalue))) (\<lambda>_. check (scast (ucast svalue :: 32 word)))
         else if dsize = 2
         then bindC (store_do (store16 dest (ucast svalue))) (\<lambda>_. check (scast (ucast svalue :: 16 word)))
         else if dsize = 1
         then bindC (store_do (store8 dest (ucast svalue))) (\<lambda>_. check (scast (ucast svalue :: 8 word)))
         else error_do ''invalid data_size'')"

definition pb_dec_varint :: "pb_field \<Rightarrow> addr \<Rightarrow> (dstate, unit) cmd" where
  "pb_dec_varint f dest =
     bindC (strm_do pb_decode_varint) (\<lambda>value.
       let svalue = (if data_size f = 8 then value else scast (ucast value :: 32 word))
       in store_signed (data_size f) dest svalue)"

definition pb_dec_uvarint :: "pb_field \<Rightarrow> addr \<Rightarrow> (dstate, unit) cmd" where
  "pb_dec_uvarint f dest =
     bindC (strm_do pb_decode_varint) (\<lambda>value.
       let check = (\<lambda>clamped. if clamped \<noteq> value then error_do ''integer too large'' else returnC ());
           dsize = data_size f
       in if dsize = 8 then bindC (store_do (store64 dest value)) (\<lambda>_. check value)
          else if dsize = 4
          then bindC (store_do (store32 dest (ucast value))) (\<lambda>_. check (ucast (ucast value :: 32 word)))
          else if dsize = 2
          then bindC (store_do (store16 dest (ucast value))) (\<lambda>_. check (ucast (ucast value :: 16 word)))
          else if dsize = 1
          then bindC (store_do (store8 dest (ucast value))) (\<lambda>_. check (ucast (ucast value :: 8 word)))
          else error_do ''invalid data_size'')"

definition pb_dec_svarint :: "pb_field \<Rightarrow> addr \<Rightarrow> (dstate, unit) cmd" where
  "pb_dec_svarint f dest =
     bindC (strm_do pb_decode_svarint) (\<lambda>value. store_signed (data_size f) dest value)"

definition pb_dec_fixed32 :: "pb_field \<Rightarrow> addr \<Rightarrow> (dstate, unit) cmd" where
  "pb_dec_fixed32 f dest = bindC (strm_do pb_decode_fixed32) (\<lambda>v. store_do (store32 dest v))"

definition pb_dec_fixed64 :: "pb_field \<Rightarrow> addr \<Rightarrow> (dstate, unit) cmd" where
  "pb_dec_fixed64 f dest = bindC (strm_do pb_decode_fixed64) (\<lambda>v. store_do (store64 dest v))"

definition pb_dec_bytes :: "pb_field \<Rightarrow> addr \<Rightarrow> (dstate, unit) cmd" where
  "pb_dec_bytes f dest =
     bindC (strm_do pb_decode_varint32) (\<lambda>sz.
     if sz > PB_SIZE_MAX then error_do ''bytes overflow''
     else let alloc_size = PB_BYTES_ARRAY_T_ALLOCSIZE (ucast sz) in
       if ucast sz > alloc_size then error_do ''size too large''
       else bindC
         (if PB_ATYPE (ftype f) = PB_ATYPE_POINTER
          then bindC (allocate_field dest alloc_size 1) (\<lambda>_. load_do (\<lambda>m. load_ptr m dest))
          else if alloc_size > ucast (data_size f) then error_do ''bytes overflow''
          else returnC dest)
         (\<lambda>bdest. bindC (store_do (store32 bdest sz))
            (\<lambda>_. read_to (bdest + int offsetof_bytes) (unat sz))))"

text \<open>\<open>size + 1\<close> is computed in 32 bits.\<close>

definition pb_dec_string :: "pb_field \<Rightarrow> addr \<Rightarrow> (dstate, unit) cmd" where
  "pb_dec_string f dest0 =
     bindC (strm_do pb_decode_varint32) (\<lambda>sz.
       let alloc_size = (ucast (sz + 1) :: u64) in
       if alloc_size < ucast sz then error_do ''size too large''
       else bindC
         (if PB_ATYPE (ftype f) = PB_ATYPE_POINTER
          then bindC (allocate_field dest0 alloc_size 1) (\<lambda>_. load_do (\<lambda>m. load_ptr m dest0))
          else if alloc_size > ucast (data_size f) then error_do ''string overflow''
          else returnC dest0)
         (\<lambda>dest. bindC (attemptC (read_to dest (unat sz))) (\<lambda>status.
            bindC (store_do (store8 (dest + uint sz) 0)) (\<lambda>_. statusC status))))"

definition pb_dec_fixed_length_bytes :: "pb_field \<Rightarrow> addr \<Rightarrow> (dstate, unit) cmd" where
  "pb_dec_fixed_length_bytes f dest =
     bindC (strm_do pb_decode_varint32) (\<lambda>sz.
       if sz > PB_SIZE_MAX then error_do ''bytes overflow''
       else if sz = 0 then store_do (c_memset dest 0 (unat (data_size f)))
       else if sz \<noteq> data_size f then error_do ''incorrect fixed length bytes size''
       else read_to dest (unat (data_size f)))"

text \<open>\<open>pb_decode\<close>, with \<open>R\<close> as \<open>pb_decode_noinit\<close>.\<close>

type_synonym message_decoder = "pb_field list \<Rightarrow> addr \<Rightarrow> (dstate, unit) cmd"

definition decode_message :: "denv \<Rightarrow> nat \<Rightarrow> message_decoder \<Rightarrow> message_decoder" where
  "decode_message E n R desc dest =
     bindC (mem_do (pb_message_set_to_defaults (type_arg E) n desc dest)) (\<lambda>_.
     bindC (attemptC (R desc dest)) (\<lambda>status.
     bindC (if \<not> status then mem_do (pb_release (type_arg E) n desc dest) else returnC ()) (\<lambda>_.
     statusC status)))"

definition pb_dec_submessage ::
    "denv \<Rightarrow> nat \<Rightarrow> message_decoder \<Rightarrow> pb_field \<Rightarrow> addr \<Rightarrow> (dstate, unit) cmd" where
  "pb_dec_submessage E n R f dest =
     bindC (strm_do pb_make_string_substream) (\<lambda>sub.
     case fptr f of Null_ptr \<Rightarrow> error_do ''invalid field descriptor''
     | _ \<Rightarrow> bindC (in_substream sub (attemptC (with_fields f (\<lambda>desc.
              if PB_HTYPE (ftype f) = PB_HTYPE_REPEATED then decode_message E n R desc dest
              else R desc dest)))) (\<lambda>(status, sub').
            bindC (strm_do (pb_close_string_substream sub')) (\<lambda>_. statusC status)))"

definition PB_DECODERS ::
    "denv \<Rightarrow> nat \<Rightarrow> message_decoder \<Rightarrow> pb_type_t \<Rightarrow> pb_field \<Rightarrow> addr \<Rightarrow> (dstate, unit) cmd" where
  "PB_DECODERS E n R lt =
     (if lt = PB_LTYPE_BOOL then pb_dec_bool
      else if lt = PB_LTYPE_VARINT then pb_dec_varint
      else if lt = PB_LTYPE_UVARINT then pb_dec_uvarint
      else if lt = PB_LTYPE_SVARINT then pb_dec_svarint
      else if lt = PB_LTYPE_FIXED32 then pb_dec_fixed32
      else if lt = PB_LTYPE_FIXED64 then pb_dec_fixed64
      else if lt = PB_LTYPE_BYTES then pb_dec_bytes
      else if lt = PB_LTYPE_STRING then pb_dec_string
      else if lt = PB_LTYPE_SUBMESSAGE then pb_dec_submessage E n R
      else if lt = PB_LTYPE_FIXED_LENGTH_BYTES then pb_dec_fixed_length_bytes
      else (\<lambda>f dest. stuckC))"

section \<open>Static fields\<close>

text \<open>The array entry behind the ones counted so far; the offset is a 32-bit product.\<close>

definition array_item :: "addr \<Rightarrow> pb_field \<Rightarrow> u32 \<Rightarrow> addr" where
  "array_item base f count = base + uint (data_size f * count)"

definition incr_count :: "addr \<Rightarrow> (dstate, unit) cmd" where
  "incr_count p = store_do (\<lambda>m. store32 p (load32 m p + 1) m)"

definition static_packed_loop ::
    "(pb_field \<Rightarrow> addr \<Rightarrow> (dstate, unit) cmd) \<Rightarrow> pb_field_iter \<Rightarrow> (dstate, bool) cmd" where
  "static_packed_loop func it =
     (let f = cur it in
      loopC (\<lambda>status s. status \<and> bytes_left (strm s) > 0 \<and> load32 (dmem s) (pSize it) < array_size f)
        (\<lambda>status. bindC (load_do (\<lambda>m. array_item (pData it) f (load32 m (pSize it)))) (\<lambda>pItem.
           bindC (attemptC (func f pItem)) (\<lambda>ok.
           if ok then bindC (incr_count (pSize it)) (\<lambda>_. returnC True) else returnC False)))
        True)"

definition decode_static_field ::
    "denv \<Rightarrow> nat \<Rightarrow> message_decoder \<Rightarrow> pb_wire_type_t \<Rightarrow> pb_field_iter \<Rightarrow> (dstate, unit) cmd" where
  "decode_static_field E n R wire_type it =
     (let f = cur it; ty = ftype f; func = PB_DECODERS E n R (PB_LTYPE ty) in
      if PB_HTYPE ty = PB_HTYPE_REQUIRED then func f (pData it)
      else if PB_HTYPE ty = PB_HTYPE_OPTIONAL
      then bindC (if pSize it \<noteq> pData it then store_do (store8 (pSize it) 1) else returnC ())
             (\<lambda>_. func f (pData it))
      else if PB_HTYPE ty = PB_HTYPE_REPEATED then
        (if wire_type = PB_WT_STRING \<and> PB_LTYPE ty \<le> PB_LTYPE_LAST_PACKABLE
         then bindC (strm_do pb_make_string_substream) (\<lambda>sub.
              bindC (in_substream sub (static_packed_loop func it)) (\<lambda>(status, sub').
              if bytes_left sub' \<noteq> 0 then error_do ''array overflow''
              else bindC (strm_do (pb_close_string_substream sub')) (\<lambda>_. statusC status)))
         else bindC (load_do (\<lambda>m. load32 m (pSize it))) (\<lambda>count.
              bindC (incr_count (pSize it)) (\<lambda>_.
              if count \<ge> array_size f then error_do ''array overflow''
              else func f (array_item (pData it) f count))))
      else
        bindC (store_do (store32 (pSize it) (ftag f))) (\<lambda>_.
        bindC (if PB_LTYPE ty = PB_LTYPE_SUBMESSAGE
               then bindC (store_do (c_memset (pData it) 0 (unat (data_size f))))
                      (\<lambda>_. mem_do (with_fields f (\<lambda>sub.
                             pb_message_set_to_defaults (type_arg E) n sub (pData it))))
               else returnC ())
          (\<lambda>_. func f (pData it))))"

section \<open>Pointer fields\<close>

definition initialize_pointer_field ::
    "denv \<Rightarrow> nat \<Rightarrow> addr \<Rightarrow> pb_field_iter \<Rightarrow> (dstate, unit) cmd" where
  "initialize_pointer_field E n pItem it =
     (let f = cur it; lt = PB_LTYPE (ftype f) in
      if lt = PB_LTYPE_STRING \<or> lt = PB_LTYPE_BYTES then store_do (store_ptr pItem 0)
      else if lt = PB_LTYPE_SUBMESSAGE
      then bindC (store_do (c_memset pItem 0 (unat (data_size f))))
             (\<lambda>_. mem_do (with_fields f (\<lambda>sub.
                    pb_message_set_to_defaults (type_arg E) n sub pItem)))
      else returnC ())"

text \<open>
  The loop over a packed array: its locals are \<open>status\<close>, whether the array was found
  full, and \<open>allocated_size\<close>.
\<close>

definition grow_guess :: "nat \<Rightarrow> pb_size_t \<Rightarrow> u64 \<Rightarrow> u64" where
  "grow_guess left dsize allocated =
     (let remain = (word_of_nat left - 1) div ucast dsize + 1
      in if remain < ucast PB_SIZE_MAX - allocated then allocated + remain else allocated + 1)"

definition pointer_packed_loop ::
    "denv \<Rightarrow> nat \<Rightarrow> (pb_field \<Rightarrow> addr \<Rightarrow> (dstate, unit) cmd) \<Rightarrow> pb_field_iter \<Rightarrow>
     bool \<times> bool \<times> u64 \<Rightarrow> (dstate, bool \<times> bool \<times> u64) cmd" where
  "pointer_packed_loop E n func it =
     (let f = cur it in
      loopC (\<lambda>(status, full, allocated) s. status \<and> bytes_left (strm s) \<noteq> 0)
        (\<lambda>(status, full, allocated).
           bindC (load_do (\<lambda>m. load32 m (pSize it))) (\<lambda>count.
           if count = PB_SIZE_MAX then returnC (False, True, allocated)
           else bindC (getC (\<lambda>s. if ucast count + 1 > allocated
                         then grow_guess (bytes_left (strm s)) (data_size f) allocated
                         else allocated)) (\<lambda>allocated'.
           bindC (if ucast count + 1 > allocated
                  then attemptC (allocate_field (pData it) (ucast (data_size f)) allocated')
                  else returnC True) (\<lambda>room.
           if \<not> room then returnC (False, False, allocated')
           else bindC (load_do (\<lambda>m. array_item (load_ptr m (pData it)) f count)) (\<lambda>pItem.
           bindC (initialize_pointer_field E n pItem it) (\<lambda>_.
           bindC (attemptC (func f pItem)) (\<lambda>ok.
           if ok then bindC (incr_count (pSize it)) (\<lambda>_. returnC (True, False, allocated'))
           else returnC (False, False, allocated')))))))))"

definition decode_pointer_field ::
    "denv \<Rightarrow> nat \<Rightarrow> message_decoder \<Rightarrow> pb_wire_type_t \<Rightarrow> pb_field_iter \<Rightarrow> (dstate, unit) cmd" where
  "decode_pointer_field E n R wire_type it =
     (let f = cur it; ty = ftype f; func = PB_DECODERS E n R (PB_LTYPE ty) in
      if PB_HTYPE ty = PB_HTYPE_REQUIRED \<or> PB_HTYPE ty = PB_HTYPE_OPTIONAL \<or> PB_HTYPE ty = PB_HTYPE_ONEOF
      then
        bindC (load_do (\<lambda>m. load_ptr m (pData it))) (\<lambda>old.
        bindC (if PB_LTYPE ty = PB_LTYPE_SUBMESSAGE \<and> old \<noteq> 0
               then mem_do (pb_release_single_field (type_arg E) (Suc n) it) else returnC ()) (\<lambda>_.
        bindC (if PB_HTYPE ty = PB_HTYPE_ONEOF then store_do (store32 (pSize it) (ftag f))
               else returnC ()) (\<lambda>_.
        if PB_LTYPE ty = PB_LTYPE_STRING \<or> PB_LTYPE ty = PB_LTYPE_BYTES then func f (pData it)
        else bindC (allocate_field (pData it) (ucast (data_size f)) 1) (\<lambda>_.
             bindC (load_do (\<lambda>m. load_ptr m (pData it))) (\<lambda>p.
             bindC (initialize_pointer_field E n p it) (\<lambda>_.
             bindC (load_do (\<lambda>m. load_ptr m (pData it))) (func f)))))))
      else if wire_type = PB_WT_STRING \<and> PB_LTYPE ty \<le> PB_LTYPE_LAST_PACKABLE then
        bindC (load_do (\<lambda>m. ucast (load32 m (pSize it)))) (\<lambda>allocated.
        bindC (strm_do pb_make_string_substream) (\<lambda>sub.
        bindC (in_substream sub (pointer_packed_loop E n func it (True, False, allocated)))
          (\<lambda>((status, full, _), sub').
        bindC (if full then strm_do (modifyC (\<lambda>t. t\<lparr>ierrmsg := Some ''too many array entries''\<rparr>))
               else returnC ()) (\<lambda>_.
        bindC (strm_do (pb_close_string_substream sub')) (\<lambda>_. statusC status)))))
      else
        bindC (load_do (\<lambda>m. load32 m (pSize it))) (\<lambda>count.
        if count = PB_SIZE_MAX then error_do ''too many array entries''
        else bindC (allocate_field (pData it) (ucast (data_size f)) (ucast (count + 1))) (\<lambda>_.
             bindC (load_do (\<lambda>m. array_item (load_ptr m (pData it)) f count)) (\<lambda>pItem.
             bindC (incr_count (pSize it)) (\<lambda>_.
             bindC (initialize_pointer_field E n pItem it) (\<lambda>_. func f pItem))))))"

section \<open>Callback fields\<close>

definition call_decode :: "denv \<Rightarrow> pb_field_iter \<Rightarrow> (dstate, bool) cmd" where
  "call_decode E it =
     bindC (load_do (\<lambda>m. load_ptr m (pData it + callback_funcs)))
       (\<lambda>fn. attemptC (decode_cb E fn (cur it) (pData it + callback_arg)))"

definition decode_callback_field ::
    "denv \<Rightarrow> pb_wire_type_t \<Rightarrow> pb_field_iter \<Rightarrow> (dstate, unit) cmd" where
  "decode_callback_field E wire_type it =
     bindC (load_do (\<lambda>m. pData it = 0 \<or> load_ptr m (pData it + callback_funcs) = 0)) (\<lambda>none.
     if none then strm_do (pb_skip_field wire_type)
     else if wire_type = PB_WT_STRING then
       bindC (strm_do pb_make_string_substream) (\<lambda>sub.
       bindC (in_substream sub (bindC (call_decode E it)
                (loopC (\<lambda>ok s. ok \<and> bytes_left (strm s) \<noteq> 0) (\<lambda>ok. call_decode E it))))
         (\<lambda>(ok, sub').
       if \<not> ok then error_do ''callback failed'' else strm_do (pb_close_string_substream sub')))
     else
       bindC (strm_do (read_raw_value wire_type 10)) (\<lambda>buffer.
       bindC (in_substream (pb_istream_from_buffer buffer (length buffer)) (call_decode E it))
         (\<lambda>(ok, sub'). statusC ok)))"

section \<open>One field of any kind\<close>

definition pb_release_union_field ::
    "denv \<Rightarrow> nat \<Rightarrow> pb_field_iter \<Rightarrow> (dstate, pb_field_iter) cmd" where
  "pb_release_union_field E n it =
     bindC (load_do (\<lambda>m. load32 m (pSize it))) (\<lambda>old_tag.
       let new_tag = ftag (cur it) in
       if old_tag = 0 then returnC it
       else if old_tag = new_tag then returnC it
       else let (found, it1) = pb_field_iter_find it old_tag in
         if \<not> found then error_do ''invalid union tag''
         else bindC (mem_do (pb_release_single_field (type_arg E) (Suc n) it1)) (\<lambda>_.
           let (found2, it2) = pb_field_iter_find it1 new_tag in
           if \<not> found2 then error_do ''iterator error'' else returnC it2))"

text \<open>The result is the iterator as the caller finds it afterwards.\<close>

definition decode_field ::
    "denv \<Rightarrow> nat \<Rightarrow> message_decoder \<Rightarrow> pb_wire_type_t \<Rightarrow> pb_field_iter \<Rightarrow> (dstate, pb_field_iter) cmd" where
  "decode_field E n R wire_type it0 =
     bindC (if PB_HTYPE (ftype (cur it0)) = PB_HTYPE_ONEOF then pb_release_union_field E n it0
            else returnC it0) (\<lambda>it.
     let at = PB_ATYPE (ftype (cur it)) in
     bindC (if at = PB_ATYPE_STATIC then decode_static_field E n R wire_type it
            else if at = PB_ATYPE_POINTER then decode_pointer_field E n R wire_type it
            else if at = PB_ATYPE_CALLBACK then decode_callback_field E wire_type it
            else error_do ''invalid field type'') (\<lambda>_. returnC it))"

section \<open>Extension fields\<close>

definition default_extension_decoder ::
    "denv \<Rightarrow> nat \<Rightarrow> message_decoder \<Rightarrow> addr \<Rightarrow> u32 \<Rightarrow> pb_wire_type_t \<Rightarrow> (dstate, unit) cmd" where
  "default_extension_decoder E n R ext tag wire_type =
     bindC (load_do (\<lambda>m. field_at (type_arg E (load_ptr m (ext + extension_type))) 0)) (\<lambda>f.
     if ftag f \<noteq> tag then returnC ()
     else bindC (load_do (iter_from_extension (type_arg E) ext)) (\<lambda>it.
          bindC (store_do (store8 (ext + extension_found) 1)) (\<lambda>_.
          bindC (decode_field E n R wire_type it) (\<lambda>_. returnC ()))))"

definition decode_extension ::
    "denv \<Rightarrow> nat \<Rightarrow> message_decoder \<Rightarrow> u32 \<Rightarrow> pb_wire_type_t \<Rightarrow> pb_field_iter \<Rightarrow> (dstate, unit) cmd" where
  "decode_extension E n R tag wire_type it =
     bindC (load_do (\<lambda>m. load_ptr m (pData it))) (\<lambda>first.
     bindC (getC (\<lambda>s. bytes_left (strm s))) (\<lambda>p0.
     bindC (loopC (\<lambda>ext s. ext \<noteq> 0 \<and> p0 = bytes_left (strm s))
        (\<lambda>ext.
           bindC (load_do (\<lambda>m. load_ptr m (ext + extension_type))) (\<lambda>ty.
           bindC (case type_decode E ty of
                    Some h \<Rightarrow> h ext tag wire_type
                  | None \<Rightarrow> default_extension_decoder E n R ext tag wire_type) (\<lambda>_.
           load_do (\<lambda>m. load_ptr m (ext + extension_next)))))
        first) (\<lambda>_. returnC ())))"

definition find_extension_field :: "pb_field_iter \<Rightarrow> bool \<times> pb_field_iter" where
  "find_extension_field it =
     iter_round (Suc (length (start it))) (\<lambda>f. PB_LTYPE (ftype f) = PB_LTYPE_EXTENSION) (pos it) it"

section \<open>The field loop\<close>

record locals =
  iter :: pb_field_iter
  fields_seen :: "u32 list"
  extension_range_start :: u32
  fixed_count_field :: "nat option"
  at_eof :: bool

text \<open>\<open>fixed_count_size\<close> is a local whose address is taken: it lives at \<open>fc\<close>.\<close>

definition fixed_count_wrong :: "pb_field list \<Rightarrow> addr \<Rightarrow> locals \<Rightarrow> cmem \<Rightarrow> bool" where
  "fixed_count_wrong desc fc l m =
     (case fixed_count_field l of
        None \<Rightarrow> False | Some k \<Rightarrow> load32 m fc \<noteq> array_size (field_at desc k))"

definition mark_seen :: "pb_field_iter \<Rightarrow> u32 list \<Rightarrow> u32 list" where
  "mark_seen it seen =
     (let i = required_field_index it in
      if PB_HTYPE (ftype (cur it)) = PB_HTYPE_REQUIRED \<and> i < PB_MAX_REQUIRED_FIELDS
      then seen[i div 32 := seen ! (i div 32) OR push_bit (i mod 32) 1] else seen)"

text \<open>No field has the tag: try the extensions, and skip the data when none took it.\<close>

definition unknown_field ::
    "denv \<Rightarrow> nat \<Rightarrow> message_decoder \<Rightarrow> u32 \<Rightarrow> pb_wire_type_t \<Rightarrow> locals \<Rightarrow> (dstate, locals) cmd" where
  "unknown_field E n R tag wire_type l =
     (let skip = (\<lambda>l'. bindC (strm_do (pb_skip_field wire_type)) (\<lambda>_. returnC l')) in
      if tag \<ge> extension_range_start l then
        let (found, it) = find_extension_field (iter l);
            range = (if found then ftag (cur it) else - 1);
            l1 = l\<lparr>iter := it, extension_range_start := range\<rparr>
        in if tag \<ge> range
           then bindC (getC (\<lambda>s. bytes_left (strm s))) (\<lambda>p0.
                bindC (decode_extension E n R tag wire_type it) (\<lambda>_.
                bindC (getC (\<lambda>s. bytes_left (strm s))) (\<lambda>p1.
                if p0 \<noteq> p1 then returnC l1 else skip l1)))
           else skip l1
      else skip l)"

text \<open>A field of the message: fixed-count arrays use the local counter.\<close>

definition known_field ::
    "denv \<Rightarrow> nat \<Rightarrow> message_decoder \<Rightarrow> pb_field list \<Rightarrow> addr \<Rightarrow> pb_wire_type_t \<Rightarrow> locals \<Rightarrow> (dstate, locals) cmd" where
  "known_field E n R desc fc wire_type l =
     (let it = iter l in
      bindC (if PB_HTYPE (ftype (cur it)) = PB_HTYPE_REPEATED \<and> pSize it = pData it then
               bindC (if fixed_count_field l \<noteq> Some (pos it) then
                        bindC (load_do (fixed_count_wrong desc fc l)) (\<lambda>wrong.
                        if wrong then error_do ''wrong size for fixed count field''
                        else store_do (store32 fc 0))
                      else returnC ())
                 (\<lambda>_. returnC (l\<lparr>fixed_count_field := Some (pos it), iter := it\<lparr>pSize := fc\<rparr>\<rparr>))
             else returnC l) (\<lambda>l1.
      bindC (decode_field E n R wire_type (iter l1)) (\<lambda>it'.
      returnC (l1\<lparr>iter := it', fields_seen := mark_seen (iter l1) (fields_seen l1)\<rparr>))))"

definition decode_next ::
    "denv \<Rightarrow> nat \<Rightarrow> message_decoder \<Rightarrow> pb_field list \<Rightarrow> addr \<Rightarrow> locals \<Rightarrow> (dstate, locals) cmd" where
  "decode_next E n R desc fc l = (\<lambda>s.
     case pb_decode_tag (strm s) of
       (eof, Stuck) \<Rightarrow> Stuck
     | (eof, Fail t) \<Rightarrow> (if eof then Ret (l\<lparr>at_eof := True\<rparr>) (s\<lparr>strm := t\<rparr>) else Fail (s\<lparr>strm := t\<rparr>))
     | (eof, Ret (wire_type, tag) t) \<Rightarrow>
         (let (found, it) = pb_field_iter_find (iter l) tag; l1 = l\<lparr>iter := it\<rparr>
          in if found then known_field E n R desc fc wire_type l1
             else unknown_field E n R tag wire_type l1) (s\<lparr>strm := t\<rparr>))"

section \<open>The required fields\<close>

text \<open>\<open>do { ... } while (pb_field_iter_next(&iter))\<close>: the count and type seen last.\<close>

function seek_required :: "pb_field_iter \<Rightarrow> nat \<times> pb_type_t \<times> pb_field_iter" where
  "seek_required it =
     (if fst (pb_field_iter_next it) then seek_required (snd (pb_field_iter_next it))
      else (required_field_index it, ftype (cur it), snd (pb_field_iter_next it)))"
  by pat_completeness auto
termination
proof (relation "measure (\<lambda>it. length (start it) - pos it)")
  fix it
  assume "fst (pb_field_iter_next it)"
  then have n: "pb_field_iter_next it = (True, snd (pb_field_iter_next it))"
    by (metis prod.collapse)
  from iter_next_True [OF n]
  show "(snd (pb_field_iter_next it), it) \<in> measure (\<lambda>it. length (start it) - pos it)"
    by simp
qed simp

declare seek_required.simps [simp del]

definition required_count :: "pb_field_iter \<Rightarrow> nat" where
  "required_count it0 =
     (let (count, last_type, it) = seek_required it0;
          count' = (if PB_HTYPE last_type = PB_HTYPE_REQUIRED \<and> ftag (cur it) \<noteq> 0
                    then Suc count else count)
      in min count' PB_MAX_REQUIRED_FIELDS)"

definition required_present :: "nat \<Rightarrow> u32 list \<Rightarrow> bool" where
  "required_present count seen \<longleftrightarrow>
     (\<forall>i \<in> set [0..<count div 32]. seen ! i = - 1) \<and>
     (count mod 32 \<noteq> 0 \<longrightarrow> seen ! (count div 32) = drop_bit (32 - count mod 32) (- 1))"

definition finish_checks :: "pb_field list \<Rightarrow> addr \<Rightarrow> locals \<Rightarrow> (dstate, unit) cmd" where
  "finish_checks desc fc l =
     bindC (load_do (fixed_count_wrong desc fc l)) (\<lambda>wrong.
     if wrong then error_do ''wrong size for fixed count field''
     else if \<not> required_present (required_count (iter l)) (fields_seen l)
     then error_do ''missing required field''
     else returnC ())"

section \<open>Messages\<close>

definition initial_locals :: "pb_field list \<Rightarrow> addr \<Rightarrow> locals" where
  "initial_locals desc dest =
     \<lparr>iter = snd (pb_field_iter_begin desc dest), fields_seen = [0, 0],
      extension_range_start = 0, fixed_count_field = None, at_eof = False\<rparr>"

text \<open>A stack slot of \<open>k\<close> bytes for the time of a call.\<close>

definition with_slot :: "nat \<Rightarrow> (addr \<Rightarrow> (dstate, 'a) cmd) \<Rightarrow> (dstate, 'a) cmd" where
  "with_slot k f = (\<lambda>s.
     let sp = msp (dmem s); p = sp - int k;
         restore = (\<lambda>t. t\<lparr>dmem := (dmem t)\<lparr>msp := sp\<rparr>\<rparr>)
     in case f p (s\<lparr>dmem := (dmem s)\<lparr>msp := p\<rparr>\<rparr>) of
          Ret a t \<Rightarrow> Ret a (restore t) | Fail t \<Rightarrow> Fail (restore t) | Stuck \<Rightarrow> Stuck)"

definition field_loop ::
    "denv \<Rightarrow> nat \<Rightarrow> message_decoder \<Rightarrow> pb_field list \<Rightarrow> addr \<Rightarrow> locals \<Rightarrow> (dstate, locals) cmd" where
  "field_loop E n R desc fc =
     loopC (\<lambda>l s. \<not> at_eof l \<and> bytes_left (strm s) \<noteq> 0) (decode_next E n R desc fc)"

definition noinit_body :: "denv \<Rightarrow> nat \<Rightarrow> message_decoder \<Rightarrow> message_decoder" where
  "noinit_body E n R desc dest =
     with_slot 4 (\<lambda>fc.
       bindC (store_do (store32 fc 0)) (\<lambda>_.
       bindC (field_loop E n R desc fc (initial_locals desc dest)) (finish_checks desc fc)))"

primrec pb_decode_noinit :: "denv \<Rightarrow> nat \<Rightarrow> message_decoder" where
  "pb_decode_noinit E 0 = (\<lambda>desc dest. stuckC)"
| "pb_decode_noinit E (Suc n) = noinit_body E n (pb_decode_noinit E n)"

definition pb_decode :: "denv \<Rightarrow> nat \<Rightarrow> message_decoder" where
  "pb_decode E n = decode_message E n (pb_decode_noinit E n)"

definition delimited :: "message_decoder \<Rightarrow> message_decoder" where
  "delimited D desc dest =
     bindC (strm_do pb_make_string_substream) (\<lambda>sub.
     bindC (in_substream sub (attemptC (D desc dest))) (\<lambda>(status, sub').
     bindC (strm_do (pb_close_string_substream sub')) (\<lambda>_. statusC status)))"

definition pb_decode_delimited_noinit :: "denv \<Rightarrow> nat \<Rightarrow> message_decoder" where
  "pb_decode_delimited_noinit E n = delimited (pb_decode_noinit E n)"

definition pb_decode_delimited :: "denv \<Rightarrow> nat \<Rightarrow> message_decoder" where
  "pb_decode_delimited E n = delimited (pb_decode E n)"

definition pb_decode_nullterminated :: "denv \<Rightarrow> nat \<Rightarrow> message_decoder" where
  "pb_decode_nullterminated E n = pb_decode E n"

end
