(* ===== verification/PbDecodeKeeps.thy ===== *)
theory PbDecodeKeeps
  imports PbDecode
begin

text \<open>
  What decoding keeps, for any descriptor and any input: the stream only moves forward and
  inside its limit, the stack pointer comes back to where it was, and the heap stays
  well-formed. The contract goes through the functions in the order they call each other;
  the only hypothesis is that the user's callbacks keep it too.
\<close>

section \<open>The relation\<close>

definition moves :: "pb_istream \<Rightarrow> pb_istream \<Rightarrow> bool" where
  "moves s t \<longleftrightarrow> icallback t = icallback s \<and> bytes_left t \<le> bytes_left s \<and>
     (is_buf s \<longrightarrow> (\<exists>j. j \<le> bytes_left s - bytes_left t \<and> istate t = drop j (istate s)))"

definition mem_sane :: "cmem \<Rightarrow> cmem \<Rightarrow> bool" where
  "mem_sane m m' \<longleftrightarrow> msp m' = msp m \<and> (heap_ok m \<longrightarrow> heap_ok m')"

definition dkeep :: "dstate \<Rightarrow> dstate \<Rightarrow> bool" where
  "dkeep s t \<longleftrightarrow> moves (strm s) (strm t) \<and> mem_sane (dmem s) (dmem t)"

lemma moves_refl [simp]: "moves s s"
  by (auto simp: moves_def)

lemma moves_trans:
  assumes "moves s t" and "moves t u"
  shows "moves s u"
proof -
  have "\<exists>j. j \<le> bytes_left s - bytes_left u \<and> istate u = drop j (istate s)" if b: "is_buf s"
  proof -
    have "is_buf t" using assms(1) b by (simp add: moves_def is_buf_def)
    then obtain j k where "j \<le> bytes_left s - bytes_left t" "istate t = drop j (istate s)"
      "k \<le> bytes_left t - bytes_left u" "istate u = drop k (istate t)"
      using assms b by (auto simp: moves_def)
    then show ?thesis
      using assms by (intro exI [of _ "j + k"]) (auto simp: moves_def add.commute)
  qed
  then show ?thesis using assms by (auto simp: moves_def)
qed

lemma moves_ok: "moves s t \<Longrightarrow> istream_ok s \<Longrightarrow> istream_ok t"
  by (auto simp: moves_def istream_ok_def is_buf_def)

lemma consumed_moves: "consumed s t \<Longrightarrow> moves s t"
  by (auto simp: consumed_def moves_def intro!: exI [of _ "bytes_left s - bytes_left t"])

lemma mem_sane_refl [simp]: "mem_sane m m"
  by (simp add: mem_sane_def)

lemma mem_sane_trans: "mem_sane m m' \<Longrightarrow> mem_sane m' m'' \<Longrightarrow> mem_sane m m''"
  by (auto simp: mem_sane_def)

lemma mem_sane_store [simp]: "mem_sane m (store_bytes a bs m') = mem_sane m m'"
  by (simp add: mem_sane_def)

lemma mem_sane_free: "mem_sane m (c_free p m)"
  by (simp add: mem_sane_def heap_ok_free)

lemma mem_sane_realloc: "mem_sane m (snd (c_realloc p n m))"
  using heap_ok_realloc [of m p n]
  by (auto simp: mem_sane_def c_realloc_def Let_def)

lemma orders [keeps_intros]:
  "reflp mem_sane" "transp mem_sane" "reflp dkeep" "transp dkeep"
  by (auto intro!: reflpI transpI simp: dkeep_def intro: moves_trans mem_sane_trans)

section \<open>The message struct\<close>

lemma keeps_store [keeps_intros]:
  "keeps mem_sane (modifyC (store8 a b8))" "keeps mem_sane (modifyC (store16 a b16))"
  "keeps mem_sane (modifyC (store32 a b32))" "keeps mem_sane (modifyC (store64 a b64))"
  "keeps mem_sane (modifyC (store_ptr a p))" "keeps mem_sane (modifyC (c_memset a b k))"
  "keeps mem_sane (modifyC (store_bytes a bs))"
  by (rule keeps_modify, simp only: store_defs mem_sane_store mem_sane_refl)+

lemma keeps_with_fields [keeps_intros]:
  "(\<And>sub. fptr f = Fields_ptr sub \<Longrightarrow> keeps R (k sub)) \<Longrightarrow> keeps R (with_fields f k)"
  by (auto simp: with_fields_def intro: keeps_intros split: ptr_target.split)

lemma keeps_each_extension [keeps_intros]:
  "(\<And>e. keeps mem_sane (body e)) \<Longrightarrow> keeps mem_sane (each_extension body e0)"
  unfolding each_extension_def by (intro keeps_intros)

lemma keeps_message_defaults [keeps_intros]:
  "(\<And>it. keeps mem_sane (set_field it)) \<Longrightarrow> keeps mem_sane (message_defaults set_field desc dest)"
  unfolding message_defaults_def Let_def by (auto intro!: keeps_intros)

lemma keeps_pb_field_set_to_default [keeps_intros]:
  "keeps mem_sane (pb_field_set_to_default ext_arg n it)"
proof (induction n arbitrary: it)
  case 0
  show ?case by (simp only: pb_field_set_to_default.simps keeps_return)
next
  case (Suc n)
  have "keeps mem_sane (init_static_data (pb_field_set_to_default ext_arg n) it)" for it
    unfolding init_static_data_def Let_def
    using Suc by (auto intro!: keeps_intros split: ptr_target.split)
  then show ?case
    unfolding pb_field_set_to_default.simps field_default_body_def Let_def
    using Suc by (auto intro!: keeps_intros)
qed

lemma keeps_pb_message_set_to_defaults [keeps_intros]:
  "keeps mem_sane (pb_message_set_to_defaults ext_arg n desc dest)"
  unfolding pb_message_set_to_defaults_def by (intro keeps_intros)

lemma keeps_release_message [keeps_intros]:
  "(\<And>it. keeps mem_sane (rel it)) \<Longrightarrow> keeps mem_sane (release_message rel desc dest)"
  unfolding release_message_def Let_def by (auto intro!: keeps_intros)

lemma keeps_free_entry [keeps_intros]:
  "keeps mem_sane (modifyC (\<lambda>m. store_ptr (a m) 0 (c_free (p m) m)))"
  by (rule keeps_modify) (simp only: store_defs mem_sane_store mem_sane_free)

lemma keeps_pb_release_single_field [keeps_intros]:
  "keeps mem_sane (pb_release_single_field ext_arg n it)"
proof (induction n arbitrary: it)
  case 0
  show ?case by (simp only: pb_release_single_field.simps keeps_return)
next
  case (Suc n)
  let ?rel = "pb_release_single_field ext_arg n"
  have items: "keeps mem_sane (release_submessages ?rel it)" for it
    unfolding release_submessages_def by (intro keeps_intros Suc)
  have entries: "keeps mem_sane (release_entries it)" for it
    unfolding release_entries_def by (intro keeps_intros)
  have ptr: "keeps mem_sane (release_pointer it)" for it
    unfolding release_pointer_def Let_def by (intro keeps_intros entries)
  show ?case
    unfolding pb_release_single_field.simps release_field_body_def Let_def
    by (intro keeps_intros items ptr Suc)
qed

lemma keeps_pb_release [keeps_intros]: "keeps mem_sane (pb_release ext_arg n desc dest)"
  unfolding pb_release_def by (intro keeps_intros)

section \<open>Lifting\<close>

lemma keeps_strm_do [keeps_intros]: "keeps consumed f \<Longrightarrow> keeps dkeep (strm_do f)"
  by (rule keepsI)
    (auto simp: strm_do_def dkeep_def intro!: consumed_moves split: outcome.splits
      dest: keeps_Ret keeps_Fail)

lemma keeps_mem_do [keeps_intros]: "keeps mem_sane f \<Longrightarrow> keeps dkeep (mem_do f)"
  by (rule keepsI)
    (auto simp: mem_do_def dkeep_def split: outcome.splits dest: keeps_Ret keeps_Fail)

lemmas keeps_stream_ops [keeps_intros] =
  v32.consumes v64.consumes dsv.consumes df32.consumes df64.consumes skf.consumes rawv.consumes

lemma keeps_in_substream [keeps_intros]: "keeps dkeep f \<Longrightarrow> keeps dkeep (in_substream sub f)"
  by (rule keepsI)
    (auto simp: in_substream_def dkeep_def split: outcome.splits dest: keeps_Ret keeps_Fail)

lemma in_substream_eq_Ret:
  "in_substream sub f s = Ret xu t \<longleftrightarrow>
     (\<exists>t'. f (s\<lparr>strm := sub\<rparr>) = Ret (fst xu) t' \<and> snd xu = strm t' \<and> t = t'\<lparr>strm := strm s\<rparr>)"
  by (cases xu) (auto simp: in_substream_def split: outcome.split)

text \<open>
  \<open>closes sub\<close>: what may happen to the stream after its substream \<open>sub\<close> was worked on:
  nothing, or it takes over the position of the substream.
\<close>

definition closes :: "pb_istream \<Rightarrow> dstate \<Rightarrow> dstate \<Rightarrow> bool" where
  "closes sub s t \<longleftrightarrow> mem_sane (dmem s) (dmem t) \<and> icallback (strm t) = icallback (strm s) \<and>
     bytes_left (strm t) = bytes_left (strm s) \<and>
     (istate (strm t) = istate (strm s) \<or> (\<exists>u. moves sub u \<and> istate (strm t) = istate u))"

lemma closes_orders [keeps_intros]: "reflp (closes sub)" "transp (closes sub)"
proof -
  show "reflp (closes sub)" by (auto intro!: reflpI simp: closes_def)
  show "transp (closes sub)"
    by (rule transpI, unfold closes_def) (metis mem_sane_trans)
qed

lemma keeps_close [keeps_intros]:
  "keeps (closes sub) (strm_do (pb_close_string_substream sub))"
proof -
  have read: "moves sub u" if "pb_read False (bytes_left sub) sub = Ret bs u" for bs u
    using keeps_Ret [OF rd.consumes that] by (rule consumed_moves)
  have "case strm_do (pb_close_string_substream sub) s of
      Ret a t \<Rightarrow> closes sub s t | Fail t \<Rightarrow> closes sub s t | Stuck \<Rightarrow> True" for s
  proof (cases "bytes_left sub = 0")
    case True
    then show ?thesis
      by (auto simp: strm_do_def pb_close_string_substream_def closes_def intro: exI [of _ sub])
  next
    case False
    then show ?thesis
      using read
      by (cases "pb_read False (bytes_left sub) sub")
        (auto simp: strm_do_def pb_close_string_substream_def closes_def)
  qed
  then show ?thesis by (simp add: keeps_def)
qed

lemma keeps_closes_error [keeps_intros]:
  "keeps (closes sub) (error_do msg)"
  "keeps (closes sub) (strm_do (modifyC (\<lambda>t. t\<lparr>ierrmsg := e\<rparr>)))"
  by (auto simp: keeps_def strm_do_def PB_RETURN_ERROR_def PB_SET_ERROR_def closes_def)

lemma keeps_substream [keeps_intros]:
  assumes f: "\<And>sub. keeps dkeep (f sub)" and g: "\<And>sub x u. keeps (closes u) (g sub x u)"
  shows "keeps dkeep (bindC (strm_do pb_make_string_substream) (\<lambda>sub.
    bindC (in_substream sub (f sub)) (\<lambda>(x, u). g sub x u)))" (is "keeps dkeep ?h")
proof -
  have make: "\<exists>s0 sz. consumed (strm s) s0 \<and> sz \<le> bytes_left s0 \<and> sub = s0\<lparr>bytes_left := sz\<rparr> \<and>
      s1 = s\<lparr>strm := s0\<lparr>bytes_left := bytes_left s0 - sz\<rparr>\<rparr>"
    if "strm_do pb_make_string_substream s = Ret sub s1" for s sub s1
  proof -
    from that obtain sz s0 where "pb_decode_varint32 (strm s) = Ret sz s0"
      "\<not> bytes_left s0 < unat sz" "sub = s0\<lparr>bytes_left := unat sz\<rparr>"
      "s1 = s\<lparr>strm := s0\<lparr>bytes_left := bytes_left s0 - unat sz\<rparr>\<rparr>"
      by (auto simp: strm_do_def pb_make_string_substream_def bindC_def PB_RETURN_ERROR_def
          split: outcome.splits if_splits)
    then show ?thesis
      by (intro exI [of _ s0] exI [of _ "unat sz"]) (auto dest: keeps_Ret [OF v32.consumes])
  qed
  have fail: "dkeep s t" if "strm_do pb_make_string_substream s = Fail t" for s t
    using that keeps_Ret [OF v32.consumes, of "strm s"] keeps_Fail [OF v32.consumes, of "strm s"]
    by (auto simp: strm_do_def pb_make_string_substream_def bindC_def PB_RETURN_ERROR_def dkeep_def
        split: outcome.splits if_splits intro!: consumed_moves consumed_set_error)
  have step: "dkeep s t"
    if mk: "strm_do pb_make_string_substream s = Ret sub s1"
      and run: "f sub (s1\<lparr>strm := sub\<rparr>) = Ret x s2"
      and cl: "closes (strm s2) (s2\<lparr>strm := strm s1\<rparr>) t" for s sub s1 x s2 t
  proof -
    obtain s0 sz where c: "consumed (strm s) s0" and sz: "sz \<le> bytes_left s0"
      and sub: "sub = s0\<lparr>bytes_left := sz\<rparr>"
      and s1: "s1 = s\<lparr>strm := s0\<lparr>bytes_left := bytes_left s0 - sz\<rparr>\<rparr>"
      using make [OF mk] by auto
    have d: "dkeep (s1\<lparr>strm := sub\<rparr>) s2" using f run by (rule keeps_Ret)
    have m: "moves (strm s) s0" using c by (rule consumed_moves)
    have "moves s0 (strm t)"
    proof -
      have "\<exists>j. j \<le> sz \<and> istate (strm t) = drop j (istate s0)" if b: "is_buf s0"
      proof -
        have bs: "is_buf sub" using b by (simp add: sub is_buf_def)
        from cl consider "istate (strm t) = istate s0"
          | u where "moves (strm s2) u" "istate (strm t) = istate u"
          by (auto simp: closes_def s1)
        then show ?thesis
        proof cases
          case 1
          then show ?thesis by (intro exI [of _ 0]) simp
        next
          case 2
          have "moves sub u" using d 2(1) by (auto simp: dkeep_def intro: moves_trans)
          with bs obtain j where "j \<le> sz - bytes_left u" "istate u = drop j (istate s0)"
            by (auto simp: moves_def sub)
          then show ?thesis using 2(2) by (intro exI [of _ j]) simp
        qed
      qed
      then show ?thesis using cl sz by (auto simp: closes_def moves_def s1)
    qed
    moreover have "mem_sane (dmem s) (dmem t)"
      using d cl by (auto simp: dkeep_def closes_def s1 intro: mem_sane_trans)
    ultimately show ?thesis using m by (auto simp: dkeep_def intro: moves_trans)
  qed
  show ?thesis
  proof (rule keepsI)
    fix s a t
    assume "?h s = Ret a t"
    then obtain sub s1 x s2 where mk: "strm_do pb_make_string_substream s = Ret sub s1"
      and run: "f sub (s1\<lparr>strm := sub\<rparr>) = Ret x s2"
      and fin: "g sub x (strm s2) (s2\<lparr>strm := strm s1\<rparr>) = Ret a t"
      by (auto simp: bindC_eq_Ret in_substream_eq_Ret)
    show "dkeep s t" by (rule step [OF mk run keeps_Ret [OF g fin]])
  next
    fix s t
    assume h: "?h s = Fail t"
    then show "dkeep s t"
    proof (cases "strm_do pb_make_string_substream s")
      case (Ret sub s1)
      show ?thesis
      proof (cases "f sub (s1\<lparr>strm := sub\<rparr>)")
        case (Ret x s2)
        then show ?thesis
          using h \<open>strm_do pb_make_string_substream s = Ret sub s1\<close>
          by (auto simp: bindC_def in_substream_def intro: step dest: keeps_Fail [OF g])
      next
        case (Fail s2)
        then have d: "dkeep (s1\<lparr>strm := sub\<rparr>) s2" using f by (auto dest: keeps_Fail)
        obtain s0 sz where c: "consumed (strm s) s0"
          and s1: "s1 = s\<lparr>strm := s0\<lparr>bytes_left := bytes_left s0 - sz\<rparr>\<rparr>"
          using make [OF Ret] by auto
        have "moves s0 (strm s1)" by (auto simp: s1 moves_def intro: exI [of _ 0])
        then have "moves (strm s) (strm s1)" using c by (auto intro: moves_trans consumed_moves)
        moreover have "mem_sane (dmem s) (dmem s2)" using d by (simp add: dkeep_def s1)
        moreover have "t = s2\<lparr>strm := strm s1\<rparr>"
          using h Ret Fail by (simp add: bindC_def in_substream_def)
        ultimately show ?thesis by (simp add: dkeep_def)
      qed (use h Ret in \<open>simp add: bindC_def in_substream_def\<close>)
    qed (auto simp: bindC_def dest: fail)
  qed
qed

section \<open>Field decoders\<close>

lemma keeps_read_to [keeps_intros]: "keeps dkeep (read_to a k)"
  unfolding read_to_def by (intro keeps_intros)

lemma keeps_mem_realloc [keeps_intros]: "keeps mem_sane (pb_realloc p k)"
  by (simp add: keeps_def pb_realloc_def mem_sane_realloc)

lemma keeps_allocate_field [keeps_intros]: "keeps dkeep (allocate_field p d a)"
  unfolding allocate_field_def Let_def by (intro keeps_intros)

lemma keeps_dec [keeps_intros]:
  "keeps dkeep (pb_dec_bool f d)" "keeps dkeep (store_signed k d v)" "keeps dkeep (pb_dec_varint f d)"
  "keeps dkeep (pb_dec_uvarint f d)" "keeps dkeep (pb_dec_svarint f d)"
  "keeps dkeep (pb_dec_fixed32 f d)" "keeps dkeep (pb_dec_fixed64 f d)"
  "keeps dkeep (pb_dec_bytes f d)" "keeps dkeep (pb_dec_string f d)"
  "keeps dkeep (pb_dec_fixed_length_bytes f d)"
  unfolding pb_dec_bool_def store_signed_def pb_dec_varint_def pb_dec_uvarint_def pb_dec_svarint_def
    pb_dec_fixed32_def pb_dec_fixed64_def pb_dec_bytes_def pb_dec_string_def
    pb_dec_fixed_length_bytes_def Let_def
  by (intro keeps_intros)+

text \<open>The nested call \<open>R\<close> keeps the relation: then so does everything that uses it.\<close>

lemma keeps_decode_message:
  "(\<And>desc dest. keeps dkeep (R desc dest)) \<Longrightarrow> keeps dkeep (decode_message E n R desc dest)"
  unfolding decode_message_def by (intro keeps_intros)

lemma keeps_closes_status [keeps_intros]: "keeps (closes u) (statusC b)"
  by (intro keeps_intros)

lemma keeps_pb_dec_submessage:
  assumes R: "\<And>desc dest. keeps dkeep (R desc dest)"
  shows "keeps dkeep (pb_dec_submessage E n R f dest)"
proof (cases "fptr f")
  case Null_ptr
  have "keeps dkeep (bindC (strm_do pb_make_string_substream) (\<lambda>sub.
      error_do ''invalid field descriptor'') :: (dstate, unit) cmd)" (is "keeps dkeep ?h")
  proof -
    let ?k = "bindC (strm_do pb_make_string_substream) (\<lambda>sub. bindC (in_substream sub (returnC ()))
        (\<lambda>(x, u). error_do ''invalid field descriptor'')) :: (dstate, unit) cmd"
    have "keeps dkeep ?k" by (intro keeps_intros)
    moreover have "?k = ?h" by (simp add: bindC_def in_substream_def fun_eq_iff split: outcome.split)
    ultimately show ?thesis by simp
  qed
  then show ?thesis by (simp add: pb_dec_submessage_def Null_ptr)
next
  case (Fields_ptr sub)
  then show ?thesis
    unfolding pb_dec_submessage_def by (simp, intro keeps_intros R keeps_decode_message)
next
  case (Const_ptr bs)
  then show ?thesis
    unfolding pb_dec_submessage_def by (simp, intro keeps_intros R keeps_decode_message)
qed

lemma keeps_PB_DECODERS:
  assumes R: "\<And>desc dest. keeps dkeep (R desc dest)"
  shows "keeps dkeep (PB_DECODERS E n R lt f dest)"
proof -
  have "keeps dkeep (if b then g f dest else h f dest)"
    if "keeps dkeep (g f dest)" "keeps dkeep (h f dest)" for b and g h :: "pb_field \<Rightarrow> addr \<Rightarrow> (dstate, unit) cmd"
    using that by simp
  then show ?thesis
    unfolding PB_DECODERS_def
    by (simp only: if_distribR) (intro keeps_intros keeps_pb_dec_submessage R)
qed

lemma keeps_incr_count [keeps_intros]: "keeps dkeep (incr_count p)"
  unfolding incr_count_def
  by (intro keeps_mem_do keeps_modify) (simp only: store_defs mem_sane_store mem_sane_refl)

lemma keeps_static_packed_loop:
  "(\<And>f d. keeps dkeep (func f d)) \<Longrightarrow> keeps dkeep (static_packed_loop func it)"
  unfolding static_packed_loop_def Let_def by (intro keeps_intros)

lemma keeps_decode_static_field:
  assumes R: "\<And>desc dest. keeps dkeep (R desc dest)"
  shows "keeps dkeep (decode_static_field E n R wt it)"
  unfolding decode_static_field_def Let_def
  by (intro keeps_intros keeps_static_packed_loop keeps_PB_DECODERS R)

lemma keeps_initialize_pointer_field [keeps_intros]:
  "keeps dkeep (initialize_pointer_field E n p it)"
  unfolding initialize_pointer_field_def Let_def by (intro keeps_intros)

lemma keeps_pointer_packed_loop:
  "(\<And>f d. keeps dkeep (func f d)) \<Longrightarrow> keeps dkeep (pointer_packed_loop E n func it x)"
  unfolding pointer_packed_loop_def Let_def by (intro keeps_intros)

lemma keeps_decode_pointer_field:
  assumes R: "\<And>desc dest. keeps dkeep (R desc dest)"
  shows "keeps dkeep (decode_pointer_field E n R wt it)"
proof -
  have close: "keeps (closes u) (case x of (status, full, _) \<Rightarrow>
      bindC (if full then strm_do (modifyC (\<lambda>t. t\<lparr>ierrmsg := e\<rparr>)) else returnC ()) (\<lambda>_.
      bindC (strm_do (pb_close_string_substream u)) (\<lambda>_. statusC status)))" for u x e
    by (cases x) (auto intro!: keeps_intros)
  have tail: "(\<lambda>((status, full, _), sub'). k status full sub') = (\<lambda>(x, u). case x of (status, full, _) \<Rightarrow> k status full u)"
    for k :: "bool \<Rightarrow> bool \<Rightarrow> pb_istream \<Rightarrow> (dstate, unit) cmd" by auto
  show ?thesis
    unfolding decode_pointer_field_def Let_def tail
    by (intro keeps_intros keeps_pointer_packed_loop keeps_PB_DECODERS R close)
qed

section \<open>The user's part\<close>

definition env_keeps :: "denv \<Rightarrow> bool" where
  "env_keeps E \<longleftrightarrow> (\<forall>fn f a. keeps dkeep (decode_cb E fn f a)) \<and>
     (\<forall>p h ext tag wt. type_decode E p = Some h \<longrightarrow> keeps dkeep (h ext tag wt))"

lemma keeps_call_decode: "env_keeps E \<Longrightarrow> keeps dkeep (call_decode E it)"
  unfolding call_decode_def by (intro keeps_intros) (simp add: env_keeps_def)

lemma keeps_decode_callback_field:
  "env_keeps E \<Longrightarrow> keeps dkeep (decode_callback_field E wt it)"
  unfolding decode_callback_field_def by (intro keeps_intros keeps_call_decode)

lemma keeps_pb_release_union_field: "keeps dkeep (pb_release_union_field E n it)"
  unfolding pb_release_union_field_def Let_def by (intro keeps_intros)

lemma keeps_decode_field:
  assumes "env_keeps E" and R: "\<And>desc dest. keeps dkeep (R desc dest)"
  shows "keeps dkeep (decode_field E n R wt it)"
  unfolding decode_field_def Let_def
  by (intro keeps_intros keeps_pb_release_union_field keeps_decode_static_field
      keeps_decode_pointer_field keeps_decode_callback_field assms)

lemma keeps_decode_extension:
  assumes "env_keeps E" and R: "\<And>desc dest. keeps dkeep (R desc dest)"
  shows "keeps dkeep (decode_extension E n R tag wt it)"
proof -
  have "keeps dkeep (default_extension_decoder E n R ext tag wt)" for ext
    unfolding default_extension_decoder_def by (intro keeps_intros keeps_decode_field assms)
  moreover have "type_decode E p = Some h \<Longrightarrow> keeps dkeep (h ext tag wt)" for p h ext
    using assms(1) by (simp add: env_keeps_def)
  ultimately show ?thesis
    unfolding decode_extension_def by (intro keeps_intros)
qed

section \<open>Messages\<close>

lemma pb_decode_tag_consumed:
  "advances s (snd (pb_decode_tag s))"
proof -
  obtain eof r where e: "pb_decode_varint32_eof s = (eof, r)" by (cases "pb_decode_varint32_eof s")
  then have "pb_decode_varint32 s = r" by (simp add: pb_decode_varint32_def)
  then have "advances s r" using istream_opD [OF v32.istream_op_axioms] by metis
  then show ?thesis using e by (cases r) (auto simp: pb_decode_tag_def)
qed

lemma keeps_unknown_field:
  assumes "env_keeps E" and R: "\<And>desc dest. keeps dkeep (R desc dest)"
  shows "keeps dkeep (unknown_field E n R tag wt l)"
  unfolding unknown_field_def Let_def
  by (intro keeps_intros keeps_decode_extension assms)

lemma keeps_known_field:
  assumes "env_keeps E" and R: "\<And>desc dest. keeps dkeep (R desc dest)"
  shows "keeps dkeep (known_field E n R desc fc wt l)"
  unfolding known_field_def Let_def
  by (intro keeps_intros keeps_decode_field assms)

lemma keeps_decode_next:
  assumes "env_keeps E" and R: "\<And>desc dest. keeps dkeep (R desc dest)"
  shows "keeps dkeep (decode_next E n R desc fc l)"
proof -
  have "case decode_next E n R desc fc l s of Ret a t \<Rightarrow> dkeep s t | Fail t \<Rightarrow> dkeep s t | Stuck \<Rightarrow> True"
    for s
  proof -
    obtain eof r where e: "pb_decode_tag (strm s) = (eof, r)" by (cases "pb_decode_tag (strm s)")
    then have adv: "advances (strm s) r" using pb_decode_tag_consumed [of "strm s"] by simp
    show ?thesis
    proof (cases r)
      case (Ret wt_tag t)
      obtain wt tag where w: "wt_tag = (wt, tag)" by (cases wt_tag)
      obtain found it where f: "pb_field_iter_find (iter l) tag = (found, it)"
        by (cases "pb_field_iter_find (iter l) tag")
      let ?s = "s\<lparr>strm := t\<rparr>"
      let ?f = "if found then known_field E n R desc fc wt (l\<lparr>iter := it\<rparr>)
        else unknown_field E n R tag wt (l\<lparr>iter := it\<rparr>)"
      have "keeps dkeep ?f"
        by (intro keeps_intros keeps_known_field keeps_unknown_field assms)
      moreover have "dkeep s ?s" using adv Ret by (simp add: dkeep_def consumed_moves)
      moreover have "decode_next E n R desc fc l s = ?f ?s"
        by (simp add: decode_next_def e Ret w f Let_def)
      ultimately show ?thesis
        using orders(4) keeps_Ret [of dkeep ?f ?s] keeps_Fail [of dkeep ?f ?s]
        by (cases "?f ?s") (auto elim: transpE)
    next
      case (Fail t)
      then show ?thesis
        using adv by (auto simp: decode_next_def e dkeep_def consumed_moves)
    next
      case Stuck
      then show ?thesis by (simp add: decode_next_def e)
    qed
  qed
  then show ?thesis by (simp add: keeps_def)
qed

text \<open>The local lives below the caller's stack pointer, which the function puts back.\<close>

lemma keeps_with_slot: "(\<And>p. keeps dkeep (f p)) \<Longrightarrow> keeps dkeep (with_slot k f)"
proof (rule keepsI)
  fix s a t
  assume f: "\<And>p. keeps dkeep (f p)" and "with_slot k f s = Ret a t"
  then obtain t' where "f (msp (dmem s) - int k) (s\<lparr>dmem := (dmem s)\<lparr>msp := msp (dmem s) - int k\<rparr>\<rparr>) = Ret a t'"
    and t: "t = t'\<lparr>dmem := (dmem t')\<lparr>msp := msp (dmem s)\<rparr>\<rparr>"
    by (auto simp: with_slot_def Let_def split: outcome.splits)
  from keeps_Ret [OF f this(1)] show "dkeep s t"
    by (simp add: t dkeep_def mem_sane_def heap_ok_def)
next
  fix s t
  assume f: "\<And>p. keeps dkeep (f p)" and "with_slot k f s = Fail t"
  then obtain t' where "f (msp (dmem s) - int k) (s\<lparr>dmem := (dmem s)\<lparr>msp := msp (dmem s) - int k\<rparr>\<rparr>) = Fail t'"
    and t: "t = t'\<lparr>dmem := (dmem t')\<lparr>msp := msp (dmem s)\<rparr>\<rparr>"
    by (auto simp: with_slot_def Let_def split: outcome.splits)
  from keeps_Fail [OF f this(1)] show "dkeep s t"
    by (simp add: t dkeep_def mem_sane_def heap_ok_def)
qed

lemma keeps_pb_decode_noinit:
  assumes "env_keeps E"
  shows "keeps dkeep (pb_decode_noinit E n desc dest)"
proof (induction n arbitrary: desc dest)
  case 0
  show ?case by (simp only: pb_decode_noinit.simps keeps_return)
next
  case (Suc n)
  have "keeps dkeep (field_loop E n (pb_decode_noinit E n) desc fc l)" for fc l
    unfolding field_loop_def by (intro keeps_intros keeps_decode_next assms Suc)
  moreover have "keeps dkeep (finish_checks desc fc l)" for fc l
    unfolding finish_checks_def by (intro keeps_intros)
  ultimately show ?case
    unfolding pb_decode_noinit.simps noinit_body_def by (intro keeps_with_slot keeps_intros)
qed

lemma keeps_pb_decode:
  assumes "env_keeps E"
  shows "keeps dkeep (pb_decode E n desc dest)"
  unfolding pb_decode_def by (intro keeps_decode_message keeps_pb_decode_noinit assms)

lemma keeps_delimited:
  "keeps dkeep (D desc dest) \<Longrightarrow> keeps dkeep (delimited D desc dest)"
  unfolding delimited_def by (intro keeps_intros)

end
