(* ===== verification/PbDecodeTotal.thy ===== *)
theory PbDecodeTotal
  imports PbDecodeKeeps PbDescriptors
begin

text \<open>
  Decoding comes back: on every input, for every descriptor array whose submessages are
  nested at most \<open>n\<close> deep, \<open>pb_decode\<close> with depth \<open>n\<close> ends with true or false. Every
  loop consumes input or counts up to a bound; the only hypothesis is on the user's
  callbacks, which must return, and read when there is something to read.
\<close>

section \<open>Reading makes progress\<close>

definition shrinks :: "(dstate, 'a) cmd \<Rightarrow> bool" where
  "shrinks f \<longleftrightarrow> (\<forall>s a t. f s = Ret a t \<longrightarrow> bytes_left (strm t) < bytes_left (strm s))"

lemma varint32_less: "pb_decode_varint32_eof s = (eof, Ret v t) \<Longrightarrow> bytes_left t < bytes_left s"
proof -
  assume e: "pb_decode_varint32_eof s = (eof, Ret v t)"
  then obtain b u where u: "pb_readbyte s = Ret b u"
    by (auto simp: pb_decode_varint32_eof_def split: outcome.splits)
  then have "bytes_left t \<le> bytes_left u"
    using e v32l.left_le(1) [of 7 "ucast (b AND 0x7F)" u]
    by (auto simp: pb_decode_varint32_eof_def bindC_eq_Ret PB_RETURN_ERROR_def split: if_splits)
  then show ?thesis using pb_readbyte_less [OF u] by simp
qed

lemma varint_less: "pb_decode_varint s = Ret v t \<Longrightarrow> bytes_left t < bytes_left s"
  unfolding pb_decode_varint_def
  by (subst (asm) varint_loop.simps)
    (auto simp: PB_RETURN_ERROR_def Let_def split: if_splits outcome.splits
      dest!: pb_readbyte_less vl.left_le(1))

lemma scalar_less:
  "pb_decode_varint32 s = Ret v t \<Longrightarrow> bytes_left t < bytes_left s"
  "pb_decode_svarint s = Ret w t \<Longrightarrow> bytes_left t < bytes_left s"
  "pb_decode_fixed32 s = Ret x t \<Longrightarrow> bytes_left t < bytes_left s"
  "pb_decode_fixed64 s = Ret y t \<Longrightarrow> bytes_left t < bytes_left s"
proof -
  show "pb_decode_varint32 s = Ret v t \<Longrightarrow> bytes_left t < bytes_left s"
    using varint32_less [of s "fst (pb_decode_varint32_eof s)" v t]
    by (simp add: pb_decode_varint32_def prod_eq_iff)
  show "pb_decode_svarint s = Ret w t \<Longrightarrow> bytes_left t < bytes_left s"
    by (auto simp: pb_decode_svarint_def bindC_eq_Ret dest: varint_less)
  show "pb_decode_fixed32 s = Ret x t \<Longrightarrow> bytes_left t < bytes_left s"
    by (auto simp: pb_decode_fixed32_def bindC_eq_Ret dest!: pb_read_left)
  show "pb_decode_fixed64 s = Ret y t \<Longrightarrow> bytes_left t < bytes_left s"
    by (auto simp: pb_decode_fixed64_def bindC_eq_Ret dest!: pb_read_left)
qed

lemma shrinks_strm_do:
  "(\<And>s a t. f s = Ret a t \<Longrightarrow> bytes_left t < bytes_left s) \<Longrightarrow> shrinks (strm_do f)"
  by (auto simp: shrinks_def strm_do_def split: outcome.splits)

lemma shrinks_bind: "shrinks f \<Longrightarrow> (\<And>a. keeps dkeep (g a)) \<Longrightarrow> shrinks (bindC f g)"
  unfolding shrinks_def bindC_eq_Ret
proof (intro allI impI)
  fix s b t
  assume f: "\<forall>s a t. f s = Ret a t \<longrightarrow> bytes_left (strm t) < bytes_left (strm s)"
    and g: "\<And>a. keeps dkeep (g a)" and "\<exists>a s'. f s = Ret a s' \<and> g a s' = Ret b t"
  then obtain a s' where "f s = Ret a s'" "g a s' = Ret b t" by auto
  then show "bytes_left (strm t) < bytes_left (strm s)"
    using f keeps_Ret [OF g, of a s' b t] by (fastforce simp: dkeep_def moves_def)
qed

lemma shrinks_scalars:
  "shrinks (strm_do pb_decode_varint32)" "shrinks (strm_do pb_decode_varint)"
  "shrinks (strm_do pb_decode_svarint)" "shrinks (strm_do pb_decode_fixed32)"
  "shrinks (strm_do pb_decode_fixed64)"
  by (rule shrinks_strm_do, erule scalar_less varint_less)+

lemma shrinks_packable:
  assumes "lt \<le> PB_LTYPE_LAST_PACKABLE"
  shows "shrinks (PB_DECODERS E n R lt f d)"
proof -
  have "lt = PB_LTYPE_BOOL \<or> lt = PB_LTYPE_VARINT \<or> lt = PB_LTYPE_UVARINT \<or> lt = PB_LTYPE_SVARINT
    \<or> lt = PB_LTYPE_FIXED32 \<or> lt = PB_LTYPE_FIXED64"
  proof -
    have "unat lt \<le> 5" using assms by (simp add: pb_consts word_le_nat_alt)
    then have "unat lt = 0 \<or> unat lt = 1 \<or> unat lt = 2 \<or> unat lt = 3 \<or> unat lt = 4 \<or> unat lt = 5"
      by linarith
    then show ?thesis by (simp add: pb_consts word_unat_eq_iff)
  qed
  then show ?thesis
    unfolding PB_DECODERS_def pb_dec_bool_def pb_dec_varint_def pb_dec_uvarint_def pb_dec_svarint_def
      pb_dec_fixed32_def pb_dec_fixed64_def Let_def
    by (elim disjE)
      (auto simp: pb_consts intro!: shrinks_bind shrinks_scalars keeps_intros)
qed

section \<open>Fields\<close>

lemma answers_strm_do: "istream_op f \<Longrightarrow> answers (\<lambda>a. True) (strm_do f)"
  unfolding istream_op_def by (rule answersI) (auto simp: strm_do_def split: outcome.splits)

lemma answers_mem_do [answers_intros]: "answers P f \<Longrightarrow> answers P (mem_do f)"
  unfolding answers_def
proof
  fix s :: dstate
  assume "\<forall>m. case f m of Ret a m' \<Rightarrow> P a | Fail m' \<Rightarrow> True | Stuck \<Rightarrow> False"
  then have "case f (dmem s) of Ret a m' \<Rightarrow> P a | Fail m' \<Rightarrow> True | Stuck \<Rightarrow> False" ..
  then show "case mem_do f s of Ret a t \<Rightarrow> P a | Fail t \<Rightarrow> True | Stuck \<Rightarrow> False"
    by (auto simp: mem_do_def split: outcome.splits)
qed

lemma answers_realloc [answers_intros]: "answers (\<lambda>a. True) (pb_realloc p k)"
  by (simp add: answers_def pb_realloc_def)

lemma answers_make: "pb_make_string_substream s \<noteq> Stuck"
  using v32.returns [of s]
  by (auto simp: pb_make_string_substream_def bindC_eq_Stuck PB_RETURN_ERROR_def split: if_splits)

lemma answers_close: "pb_close_string_substream sub s \<noteq> Stuck"
  using pb_read_returns [of False "bytes_left sub" sub]
  by (auto simp: pb_close_string_substream_def split: outcome.splits if_splits)

lemma answers_substreams [answers_intros]:
  "answers (\<lambda>a. True) (strm_do pb_make_string_substream)"
  "answers (\<lambda>a. True) (strm_do (pb_close_string_substream sub))"
  "answers (\<lambda>a. True) (strm_do (modifyC h))"
  by (auto simp: answers_def strm_do_def answers_make answers_close split: outcome.split)

lemma answers_error [answers_intros]: "answers P (error_do msg)"
  by (auto simp: answers_def strm_do_def PB_RETURN_ERROR_def)

lemma answers_in_substream [answers_intros]:
  "answers (\<lambda>a. True) f \<Longrightarrow> answers (\<lambda>a. True) (in_substream sub f)"
  unfolding answers_def
proof
  fix s :: dstate
  assume "\<forall>s. case f s of Ret a m' \<Rightarrow> True | Fail m' \<Rightarrow> True | Stuck \<Rightarrow> False"
  then have "case f (s\<lparr>strm := sub\<rparr>) of Ret a m' \<Rightarrow> True | Fail m' \<Rightarrow> True | Stuck \<Rightarrow> False" ..
  then show "case in_substream sub f s of Ret a t \<Rightarrow> True | Fail t \<Rightarrow> True | Stuck \<Rightarrow> False"
    by (auto simp: in_substream_def split: outcome.splits)
qed

lemmas answers_streams [answers_intros] =
  answers_strm_do [OF v32.istream_op_axioms] answers_strm_do [OF v64.istream_op_axioms]
  answers_strm_do [OF dsv.istream_op_axioms] answers_strm_do [OF df32.istream_op_axioms]
  answers_strm_do [OF df64.istream_op_axioms] answers_strm_do [OF rd.istream_op_axioms]
  answers_strm_do [OF skf.istream_op_axioms] answers_strm_do [OF rawv.istream_op_axioms]

lemma answers_read_to [answers_intros]: "answers (\<lambda>a. True) (read_to a k)"
  unfolding read_to_def by (intro answers_intros)

lemma answers_allocate_field [answers_intros]: "answers (\<lambda>a. True) (allocate_field p d a)"
  unfolding allocate_field_def Let_def by (intro answers_intros)

lemma answers_dec [answers_intros]:
  "answers (\<lambda>a. True) (pb_dec_bool f d)" "answers (\<lambda>a. True) (store_signed k d v)"
  "answers (\<lambda>a. True) (pb_dec_varint f d)" "answers (\<lambda>a. True) (pb_dec_uvarint f d)"
  "answers (\<lambda>a. True) (pb_dec_svarint f d)" "answers (\<lambda>a. True) (pb_dec_fixed32 f d)"
  "answers (\<lambda>a. True) (pb_dec_fixed64 f d)" "answers (\<lambda>a. True) (pb_dec_bytes f d)"
  "answers (\<lambda>a. True) (pb_dec_string f d)" "answers (\<lambda>a. True) (pb_dec_fixed_length_bytes f d)"
  unfolding pb_dec_bool_def store_signed_def pb_dec_varint_def pb_dec_uvarint_def pb_dec_svarint_def
    pb_dec_fixed32_def pb_dec_fixed64_def pb_dec_bytes_def pb_dec_string_def
    pb_dec_fixed_length_bytes_def Let_def
  by (intro answers_intros)+

text \<open>The nested call is total on the submessages.\<close>

definition nested_ok :: "nat \<Rightarrow> message_decoder \<Rightarrow> bool" where
  "nested_ok n R \<longleftrightarrow> (\<forall>desc dest. keeps dkeep (R desc dest) \<and>
     (desc_ok n desc \<longrightarrow> answers (\<lambda>a. True) (R desc dest)))"

lemma nested_keeps: "nested_ok n R \<Longrightarrow> keeps dkeep (R desc dest)"
  by (simp add: nested_ok_def)

lemma nested_answers: "nested_ok n R \<Longrightarrow> desc_ok n desc \<Longrightarrow> answers (\<lambda>a. True) (R desc dest)"
  by (simp add: nested_ok_def)

lemma answers_decode_message:
  assumes "desc_ok n desc" and "answers (\<lambda>a. True) (R desc dest)"
  shows "answers (\<lambda>a. True) (decode_message E n R desc dest)"
  unfolding decode_message_def
  by (intro answers_intros answers_set_to_defaults answers_release assms)

lemma answers_pb_dec_submessage:
  assumes "nested_ok n R" and f: "fptr f = Fields_ptr sub" "desc_ok n sub"
  shows "answers (\<lambda>a. True) (pb_dec_submessage E n R f dest)"
  unfolding pb_dec_submessage_def f(1) ptr_target.case
  by (intro answers_intros answers_with_fields [OF f(1)] answers_decode_message f
      nested_answers [OF assms(1) f(2)])

lemma answers_PB_DECODERS:
  assumes R: "nested_ok n R" and f: "field_ok (desc_ok n) f" "PB_ATYPE (ftype f) \<noteq> PB_ATYPE_CALLBACK"
  shows "answers (\<lambda>a. True) (PB_DECODERS E n R (PB_LTYPE (ftype f)) f d)"
proof (cases "PB_LTYPE (ftype f) = PB_LTYPE_SUBMESSAGE")
  case True
  then obtain sub where "fptr f = Fields_ptr sub" "desc_ok n sub"
    using field_ok_sub [OF f(1)] f(2) by auto
  from answers_pb_dec_submessage [OF R this] True show ?thesis
    by (simp add: PB_DECODERS_def pb_consts)
next
  case False
  let ?lt = "PB_LTYPE (ftype f)"
  have "?lt \<le> 0x0A" "?lt \<noteq> 9" "?lt \<noteq> 8"
    using f(1) False by (auto simp: field_ok_def Let_def pb_consts)
  then have "unat ?lt \<le> 10" "unat ?lt \<noteq> 9" "unat ?lt \<noteq> 8"
    by (auto simp: word_le_nat_alt word_unat_eq_iff)
  then have "unat ?lt \<in> {0, 1, 2, 3, 4, 5, 6, 7, 10}"
    by (simp only: insert_iff empty_iff) arith
  then have "?lt \<in> {0, 1, 2, 3, 4, 5, 6, 7, 10}"
    by (simp add: word_unat_eq_iff)
  then show ?thesis
    unfolding PB_DECODERS_def
    by (elim insertE emptyE) (simp_all add: pb_consts answers_dec)
qed

lemma answers_incr_count [answers_intros]: "answers (\<lambda>a. True) (incr_count p)"
  unfolding incr_count_def by (intro answers_intros)

text \<open>A loop over array entries: it ends because every entry takes input.\<close>

lemma attempt_step:
  assumes "shrinks f" and "keeps dkeep g"
    and "bindC (attemptC f) (\<lambda>ok. if ok then bindC g (\<lambda>_. returnC x) else returnC y) s = Ret a t"
  shows "a = y \<or> bytes_left (strm t) < bytes_left (strm s)"
proof (cases "f s")
  case (Ret u s1)
  then have r: "bindC g (\<lambda>_. returnC x) s1 = Ret a t"
    using assms(3) by (simp add: bindC_def attemptC_def)
  then obtain b where "g s1 = Ret b t" by (auto simp: bindC_eq_Ret)
  then have "bytes_left (strm t) \<le> bytes_left (strm s1)"
    using keeps_Ret [OF assms(2)] by (auto simp: dkeep_def moves_def)
  then show ?thesis using assms(1) Ret by (fastforce simp: shrinks_def)
qed (use assms(3) in \<open>auto simp: bindC_def attemptC_def\<close>)

lemma answers_static_packed_loop:
  assumes "\<And>d. answers (\<lambda>a. True) (func (cur it) d)" and "\<And>d. shrinks (func (cur it) d)"
  shows "answers (\<lambda>a. True) (static_packed_loop func it)"
  unfolding static_packed_loop_def Let_def
proof (rule answers_loop [where I = "\<lambda>a. True" and m = "\<lambda>status s. if status then Suc (bytes_left (strm s)) else 0"])
  fix status s a t
  assume "status \<and> 0 < bytes_left (strm s) \<and> load32 (dmem s) (pSize it) < array_size (cur it)"
    and "bindC (load_do (\<lambda>m. array_item (pData it) (cur it) (load32 m (pSize it))))
         (\<lambda>pItem. bindC (attemptC (func (cur it) pItem))
           (\<lambda>ok. if ok then bindC (incr_count (pSize it)) (\<lambda>_. returnC True) else returnC False)) s = Ret a t"
  then show "(if a then Suc (bytes_left (strm t)) else 0) < (if status then Suc (bytes_left (strm s)) else 0)"
    using attempt_step [OF assms(2) keeps_incr_count, of _ "pSize it" True False s a t]
    by (auto simp: bindC_def mem_do_def)
qed (intro answers_intros assms)+

text \<open>\<open>declines P f\<close>: whenever \<open>f\<close> returns, its result has \<open>P\<close> or input was taken.\<close>

definition declines :: "('a \<Rightarrow> bool) \<Rightarrow> (dstate, 'a) cmd \<Rightarrow> bool" where
  "declines P f \<longleftrightarrow> (\<forall>s a t. f s = Ret a t \<longrightarrow> P a \<or> bytes_left (strm t) < bytes_left (strm s))"

lemma declines_return: "P v \<Longrightarrow> declines P (returnC v)"
  by (simp add: declines_def)

lemma declines_if:
  "(b \<Longrightarrow> declines P f) \<Longrightarrow> (\<not> b \<Longrightarrow> declines P g) \<Longrightarrow> declines P (if b then f else g)"
  by simp

lemma declines_bind:
  assumes "keeps dkeep f" and "\<And>a. declines P (g a)"
  shows "declines P (bindC f g)"
  unfolding declines_def bindC_eq_Ret
proof (intro allI impI)
  fix s b t
  assume "\<exists>a s'. f s = Ret a s' \<and> g a s' = Ret b t"
  then obtain a s' where "f s = Ret a s'" and g: "g a s' = Ret b t" by auto
  then have "bytes_left (strm s') \<le> bytes_left (strm s)"
    using keeps_Ret [OF assms(1)] by (auto simp: dkeep_def moves_def)
  moreover have "P b \<or> bytes_left (strm t) < bytes_left (strm s')"
    using assms(2) g by (auto simp: declines_def)
  ultimately show "P b \<or> bytes_left (strm t) < bytes_left (strm s)" by auto
qed

lemma declines_attempt:
  assumes "shrinks f" and "keeps dkeep g" and "P y"
  shows "declines P (bindC (attemptC f) (\<lambda>ok. if ok then bindC g (\<lambda>_. returnC x) else returnC y))"
  unfolding declines_def
proof (intro allI impI)
  fix s a t
  assume "bindC (attemptC f) (\<lambda>ok. if ok then bindC g (\<lambda>_. returnC x) else returnC y) s = Ret a t"
  from attempt_step [OF assms(1,2) this] assms(3)
  show "P a \<or> bytes_left (strm t) < bytes_left (strm s)" by auto
qed

lemma answers_initialize_pointer_field:
  assumes "field_ok (desc_ok n) (cur it)" and "PB_ATYPE (ftype (cur it)) \<noteq> PB_ATYPE_CALLBACK"
  shows "answers (\<lambda>a. True) (initialize_pointer_field E n p it)"
proof (cases "PB_LTYPE (ftype (cur it)) = PB_LTYPE_SUBMESSAGE")
  case True
  then obtain sub where "fptr (cur it) = Fields_ptr sub" "desc_ok n sub"
    using field_ok_sub [OF assms(1)] assms(2) by auto
  then show ?thesis
    unfolding initialize_pointer_field_def Let_def
    by (intro answers_intros answers_with_fields answers_set_to_defaults)
next
  case False
  then show ?thesis
    unfolding initialize_pointer_field_def Let_def by (simp only: if_False) (intro answers_intros)
qed

lemma answers_pointer_packed_loop:
  assumes "\<And>d. answers (\<lambda>a. True) (func (cur it) d)" and sh: "\<And>d. shrinks (func (cur it) d)"
    and k: "\<And>d. keeps dkeep (func (cur it) d)"
    and f: "field_ok (desc_ok n) (cur it)" "PB_ATYPE (ftype (cur it)) \<noteq> PB_ATYPE_CALLBACK"
  shows "answers (\<lambda>a. True) (pointer_packed_loop E n func it x)"
  unfolding pointer_packed_loop_def Let_def
proof (rule answers_loop [where I = "\<lambda>a. True"
      and m = "\<lambda>x s. if fst x then Suc (bytes_left (strm s)) else 0"], goal_cases)
  case 1
  then show ?case ..
next
  case (2 x)
  show ?case by (intro answers_intros assms answers_initialize_pointer_field)
next
  case (3 x s a t)
  obtain status full allocated where x: "x = (status, full, allocated)" by (cases x)
  let ?body = "\<lambda>(status, full, allocated).
           bindC (load_do (\<lambda>m. load32 m (pSize it))) (\<lambda>count.
           if count = PB_SIZE_MAX then returnC (False, True, allocated)
           else bindC (getC (\<lambda>s. if ucast count + 1 > allocated
                         then grow_guess (bytes_left (strm s)) (data_size (cur it)) allocated
                         else allocated)) (\<lambda>allocated'.
           bindC (if ucast count + 1 > allocated
                  then attemptC (allocate_field (pData it) (ucast (data_size (cur it))) allocated')
                  else returnC True) (\<lambda>room.
           if \<not> room then returnC (False, False, allocated')
           else bindC (load_do (\<lambda>m. array_item (load_ptr m (pData it)) (cur it) count)) (\<lambda>pItem.
           bindC (initialize_pointer_field E n pItem it) (\<lambda>_.
           bindC (attemptC (func (cur it) pItem)) (\<lambda>ok.
           if ok then bindC (incr_count (pSize it)) (\<lambda>_. returnC (True, False, allocated'))
           else returnC (False, False, allocated')))))))"
  have "declines (\<lambda>a. \<not> fst a) (?body (status, full, allocated))"
    unfolding prod.case
    by (intro declines_bind declines_if declines_attempt sh keeps_intros)
      (auto intro: declines_return)
  then have "\<not> fst a \<or> bytes_left (strm t) < bytes_left (strm s)"
    using 3(3) unfolding x declines_def by blast
  then show ?case using 3(2) x by auto
qed

lemma answers_decode_static_field:
  assumes R: "nested_ok n R" and f: "field_ok (desc_ok n) (cur it)"
    and st: "PB_ATYPE (ftype (cur it)) = PB_ATYPE_STATIC"
  shows "answers (\<lambda>a. True) (decode_static_field E n R wt it)"
proof -
  have nc: "PB_ATYPE (ftype (cur it)) \<noteq> PB_ATYPE_CALLBACK" using st by (simp add: pb_consts)
  have sub: "answers (\<lambda>a. True) (with_fields (cur it) (\<lambda>sub.
      pb_message_set_to_defaults (type_arg E) n sub p))"
    if lt: "PB_LTYPE (ftype (cur it)) = PB_LTYPE_SUBMESSAGE" for p
  proof -
    obtain sub where "fptr (cur it) = Fields_ptr sub" "desc_ok n sub"
      using field_ok_sub [OF f lt nc] by auto
    then show ?thesis by (intro answers_with_fields answers_set_to_defaults)
  qed
  show ?thesis
    unfolding decode_static_field_def Let_def
    by (intro answers_intros answers_static_packed_loop answers_PB_DECODERS R f nc sub shrinks_packable)
      auto
qed

lemma answers_decode_pointer_field:
  assumes R: "nested_ok n R" and f: "field_ok (desc_ok n) (cur it)"
    and st: "PB_ATYPE (ftype (cur it)) = PB_ATYPE_POINTER"
  shows "answers (\<lambda>a. True) (decode_pointer_field E n R wt it)"
proof -
  have nc: "PB_ATYPE (ftype (cur it)) \<noteq> PB_ATYPE_CALLBACK" using st by (simp add: pb_consts)
  have tail: "(\<lambda>((status, full, _), sub'). k status full sub') = (\<lambda>(x, u). case x of (status, full, _) \<Rightarrow> k status full u)"
    for k :: "bool \<Rightarrow> bool \<Rightarrow> pb_istream \<Rightarrow> (dstate, unit) cmd" by auto
  show ?thesis
    unfolding decode_pointer_field_def Let_def tail
    by (intro answers_intros answers_pointer_packed_loop answers_PB_DECODERS R f nc
        answers_initialize_pointer_field answers_release_field shrinks_packable
        keeps_PB_DECODERS nested_keeps [OF R])
      auto
qed

section \<open>The user's part\<close>

text \<open>A decode callback comes back, and when it succeeds it has read from its stream.\<close>

definition env_answers :: "denv \<Rightarrow> bool" where
  "env_answers E \<longleftrightarrow> env_keeps E \<and> (\<forall>fn f a. answers (\<lambda>u. True) (decode_cb E fn f a) \<and>
     (\<forall>s t. decode_cb E fn f a s = Ret () t \<longrightarrow>
        bytes_left (strm s) = 0 \<or> bytes_left (strm t) < bytes_left (strm s)))"

lemma answers_call_decode: "env_answers E \<Longrightarrow> answers (\<lambda>a. True) (call_decode E it)"
  unfolding call_decode_def by (intro answers_intros) (simp add: env_answers_def)

lemma call_decode_declines:
  assumes "env_answers E" and "call_decode E it s = Ret ok t" and "bytes_left (strm s) \<noteq> 0"
  shows "\<not> ok \<or> bytes_left (strm t) < bytes_left (strm s)"
proof -
  have "bytes_left (strm t) < bytes_left (strm s)" if "decode_cb E fn f a s = Ret () t" for fn f a
  proof -
    have "decode_cb E fn f a s = Ret () t \<longrightarrow>
        bytes_left (strm s) = 0 \<or> bytes_left (strm t) < bytes_left (strm s)"
      using assms(1) unfolding env_answers_def by blast
    then show ?thesis using that assms(3) by simp
  qed
  then show ?thesis
    using assms(2) by (auto simp: call_decode_def bindC_def mem_do_def attemptC_def split: outcome.splits)
qed

lemma answers_decode_callback_field:
  assumes "env_answers E"
  shows "answers (\<lambda>a. True) (decode_callback_field E wt it)"
proof -
  have "answers (\<lambda>a. True) (loopC (\<lambda>ok s. ok \<and> bytes_left (strm s) \<noteq> 0) (\<lambda>ok. call_decode E it) x)" for x
  proof (rule answers_loop [where I = "\<lambda>a. True" and m = "\<lambda>ok s. if ok then Suc (bytes_left (strm s)) else 0"])
    fix ok s a t
    assume "ok \<and> bytes_left (strm s) \<noteq> 0" "call_decode E it s = Ret a t"
    then show "(if a then Suc (bytes_left (strm t)) else 0) < (if ok then Suc (bytes_left (strm s)) else 0)"
      using call_decode_declines [OF assms, of it s a t] by auto
  qed (auto intro: answers_call_decode assms)
  then show ?thesis
    unfolding decode_callback_field_def
    by (intro answers_intros answers_call_decode assms)
qed

lemma answers_pb_release_union_field:
  assumes "desc_ok (Suc n) (start it)"
  shows "answers (\<lambda>it'. start it' = start it) (pb_release_union_field E n it)"
proof -
  have ok: "field_ok (desc_ok n) (cur it')" if "start it' = start it" for it'
    using cur_ok [OF assms that] .
  have s1: "start it1 = start it" if "pb_field_iter_find it t = (b, it1)" for it it1 t b
    using iter_find_start [of it t] that by simp
  show ?thesis
    unfolding pb_release_union_field_def Let_def
    by (intro answers_intros answers_release_field ok) (auto dest!: s1)
qed

lemma answers_decode_field:
  assumes "nested_ok n R" and "env_answers E" and d: "desc_ok (Suc n) (start it)"
  shows "answers (\<lambda>it'. start it' = start it) (decode_field E n R wt it)"
  unfolding decode_field_def Let_def
proof (rule answers_bind [where P = "\<lambda>it'. start it' = start it"], goal_cases)
  case 1
  show ?case by (intro answers_intros answers_pb_release_union_field d) simp
next
  case (2 it')
  then have "field_ok (desc_ok n) (cur it')" using cur_ok [OF d] by simp
  then show ?case
    using 2
    by (intro answers_intros answers_decode_static_field answers_decode_pointer_field
        answers_decode_callback_field assms)
qed

section \<open>Messages\<close>

lemma decode_tag_less:
  assumes "pb_decode_tag s = (eof, Ret (wt, tag) t)"
  shows "bytes_left t < bytes_left s" and "tag \<noteq> - 1"
proof -
  obtain v where v: "pb_decode_varint32_eof s = (eof, Ret v t)" and tag: "tag = drop_bit 3 v"
    using assms by (auto simp: pb_decode_tag_def split: outcome.splits prod.splits if_splits)
  show "bytes_left t < bytes_left s" using varint32_less [OF v] .
  have "\<not> bit (drop_bit 3 v :: u32) 31" by (auto simp: bit_drop_bit_eq dest: bit_imp_le_length)
  moreover have "bit (- 1 :: u32) 31" by simp
  ultimately show "tag \<noteq> - 1" using tag by metis
qed

text \<open>Without an extension field, an unknown tag is skipped.\<close>

lemma answers_unknown_field:
  assumes d: "desc_ok (Suc n) (start (iter l))" and t: "tag \<noteq> - 1"
  shows "answers (\<lambda>l'. start (iter l') = start (iter l)) (unknown_field E n R tag wt l)"
proof -
  obtain found it where e: "find_extension_field (iter l) = (found, it)"
    by (cases "find_extension_field (iter l)")
  have "\<not> fst (find_extension_field (iter l))"
    unfolding find_extension_field_def
    by (rule iter_round_none) (use field_at_ok [OF d] in \<open>auto simp: field_ok_def Let_def\<close>)
  then have found: "\<not> found" using e by simp
  have st: "start it = start (iter l)"
    using iter_round_start [of _ _ _ "iter l"] e by (metis find_extension_field_def snd_conv)
  have "\<not> tag \<ge> (- 1 :: u32)" using t by (simp add: word_order.extremum_unique)
  then show ?thesis
    unfolding unknown_field_def e Let_def prod.case
    using found st by (simp only: if_False) (intro answers_intros, simp_all)
qed

lemma answers_known_field:
  assumes "nested_ok n R" and "env_answers E" and d: "desc_ok (Suc n) (start (iter l))"
  shows "answers (\<lambda>l'. start (iter l') = start (iter l)) (known_field E n R desc fc wt l)"
  unfolding known_field_def Let_def
proof (rule answers_bind [where P = "\<lambda>l1. start (iter l1) = start (iter l)"], goal_cases)
  case 1
  show ?case by (intro answers_intros) simp_all
next
  case (2 l1)
  then have "answers (\<lambda>it'. start it' = start (iter l)) (decode_field E n R wt (iter l1))"
    using answers_decode_field [OF assms(1,2), of "iter l1"] d by simp
  then show ?case by (rule answers_bind) (intro answers_intros, simp)
qed

lemma answers_decode_next:
  assumes "nested_ok n R" and "env_answers E" and d: "desc_ok (Suc n) (start (iter l))"
  shows "answers (\<lambda>l'. start (iter l') = start (iter l)) (decode_next E n R desc fc l)"
  unfolding answers_def
proof
  fix s :: dstate
  obtain eof r where e: "pb_decode_tag (strm s) = (eof, r)" by (cases "pb_decode_tag (strm s)")
  then have adv: "advances (strm s) r" using pb_decode_tag_consumed [of "strm s"] by simp
  show "case decode_next E n R desc fc l s of Ret l' t \<Rightarrow> start (iter l') = start (iter l)
    | Fail t \<Rightarrow> True | Stuck \<Rightarrow> False"
  proof (cases r)
    case (Ret wt_tag t)
    obtain wt tag where w: "wt_tag = (wt, tag)" by (cases wt_tag)
    obtain found it where f: "pb_field_iter_find (iter l) tag = (found, it)"
      by (cases "pb_field_iter_find (iter l) tag")
    have st: "start it = start (iter l)" using iter_find_start [of "iter l" tag] f by simp
    have "tag \<noteq> - 1" using decode_tag_less(2) e Ret w by blast
    then have "answers (\<lambda>l'. start (iter l') = start (iter l))
        (if found then known_field E n R desc fc wt (l\<lparr>iter := it\<rparr>)
         else unknown_field E n R tag wt (l\<lparr>iter := it\<rparr>))"
      using answers_known_field [OF assms(1,2), of "l\<lparr>iter := it\<rparr>"]
        answers_unknown_field [of n "l\<lparr>iter := it\<rparr>"] d st by simp
    then show ?thesis
      by (simp add: decode_next_def e Ret w f Let_def answers_def)
  qed (use adv in \<open>auto simp: decode_next_def e\<close>)
qed

lemma decode_next_declines:
  assumes "nested_ok n R" and "env_answers E"
  shows "declines at_eof (decode_next E n R desc fc l)"
  unfolding declines_def
proof (intro allI impI)
  fix s l' t
  assume nx: "decode_next E n R desc fc l s = Ret l' t"
  have env: "env_keeps E" using assms(2) by (simp add: env_answers_def)
  obtain eof r where e: "pb_decode_tag (strm s) = (eof, r)" by (cases "pb_decode_tag (strm s)")
  show "at_eof l' \<or> bytes_left (strm t) < bytes_left (strm s)"
  proof (cases r)
    case (Ret wt_tag u)
    obtain wt tag where w: "wt_tag = (wt, tag)" by (cases wt_tag)
    obtain found it where f: "pb_field_iter_find (iter l) tag = (found, it)"
      by (cases "pb_field_iter_find (iter l) tag")
    have "bytes_left u < bytes_left (strm s)" using decode_tag_less(1) e Ret w by blast
    moreover have "(if found then known_field E n R desc fc wt (l\<lparr>iter := it\<rparr>)
         else unknown_field E n R tag wt (l\<lparr>iter := it\<rparr>)) (s\<lparr>strm := u\<rparr>) = Ret l' t"
      using nx by (simp add: decode_next_def e Ret w f Let_def)
    then have "dkeep (s\<lparr>strm := u\<rparr>) t"
      by (rule keeps_Ret [rotated])
        (intro keeps_intros keeps_known_field keeps_unknown_field env nested_keeps [OF assms(1)])
    ultimately show ?thesis by (simp add: dkeep_def moves_def)
  qed (use nx in \<open>auto simp: decode_next_def e split: if_splits\<close>)
qed

lemma answers_field_loop:
  assumes "nested_ok n R" and "env_answers E" and "desc_ok (Suc n) (start (iter l))"
  shows "answers (\<lambda>a. True) (field_loop E n R desc fc l)"
proof -
  have "answers (\<lambda>l'. start (iter l') = start (iter l)) (field_loop E n R desc fc l)"
    unfolding field_loop_def
  proof (rule answers_loop [where m = "\<lambda>l s. if at_eof l then 0 else Suc (bytes_left (strm s))"],
      goal_cases)
    case (2 l')
    then show ?case using answers_decode_next [OF assms(1,2), of l'] assms(3) by simp
  next
    case (3 l' s a t)
    then show ?case using decode_next_declines [OF assms(1,2)] unfolding declines_def by fastforce
  qed simp
  then show ?thesis by (rule answers_weaken) simp
qed

lemma answers_with_slot:
  "(\<And>p. answers (\<lambda>a. True) (f p)) \<Longrightarrow> answers (\<lambda>a. True) (with_slot k f)"
  by (rule answersI) (auto simp: with_slot_def Let_def dest: answers_not_Stuck split: outcome.splits)

lemma nested_pb_decode_noinit:
  assumes "env_answers E"
  shows "nested_ok n (pb_decode_noinit E n)"
proof (induction n)
  case 0
  have "env_keeps E" using assms by (simp add: env_answers_def)
  then show ?case
    unfolding nested_ok_def by (simp only: keeps_pb_decode_noinit desc_ok.simps) simp
next
  case (Suc n)
  have "env_keeps E" using assms by (simp add: env_answers_def)
  moreover have "answers (\<lambda>a. True) (pb_decode_noinit E (Suc n) desc dest)"
    if "desc_ok (Suc n) desc" for desc dest
    unfolding pb_decode_noinit.simps noinit_body_def finish_checks_def
    by (intro answers_with_slot answers_intros answers_field_loop Suc assms)
      (use that in \<open>simp add: initial_locals_def\<close>)
  ultimately show ?case
    unfolding nested_ok_def using keeps_pb_decode_noinit by blast
qed

lemma answers_pb_decode:
  assumes "env_answers E" and "desc_ok n desc"
  shows "answers (\<lambda>a. True) (pb_decode E n desc dest)"
  unfolding pb_decode_def
  by (intro answers_decode_message nested_answers [OF nested_pb_decode_noinit] assms)

lemma answers_delimited:
  "answers (\<lambda>a. True) (D desc dest) \<Longrightarrow> answers (\<lambda>a. True) (delimited D desc dest)"
  unfolding delimited_def by (intro answers_intros)

end
