(* ===== verification/PbRequired.thy ===== *)
theory PbRequired
  imports PbDecode
begin

text \<open>
  The bookkeeping of required fields in \<open>pb_decode_noinit\<close>: the two words of
  \<open>fields_seen\<close> as a set of field indices, the runs of the field loop with the fields
  they decode, and the final check as the question whether every required field is
  among them.
\<close>

definition seen_bit :: "u32 list \<Rightarrow> nat \<Rightarrow> bool" where
  "seen_bit seen i \<longleftrightarrow> bit (seen ! (i div 32)) (i mod 32)"

definition is_required :: "pb_field_iter \<Rightarrow> bool" where
  "is_required it \<longleftrightarrow> PB_HTYPE (ftype (cur it)) = PB_HTYPE_REQUIRED"

lemma length_mark_seen [simp]: "length (mark_seen it seen) = length seen"
  by (simp add: mark_seen_def Let_def)

lemma seen_bit_mark:
  assumes "length seen = 2" and "i < 64"
  shows "seen_bit (mark_seen it seen) i \<longleftrightarrow>
    seen_bit seen i \<or> (is_required it \<and> required_field_index it = i)"
proof -
  let ?r = "required_field_index it"
  have bit: "bit (push_bit (?r mod 32) 1 :: u32) (i mod 32) \<longleftrightarrow> ?r mod 32 = i mod 32"
    by (auto simp: bit_simps)
  have "?r div 32 = i div 32 \<and> ?r mod 32 = i mod 32 \<longleftrightarrow> ?r = i"
    by (metis div_mult_mod_eq)
  moreover have "i div 32 < 2" "?r < 64 \<Longrightarrow> ?r div 32 < 2" using assms(2) by auto
  ultimately show ?thesis
    using assms bit
    by (auto simp: seen_bit_def is_required_def mark_seen_def Let_def PB_MAX_REQUIRED_FIELDS_def
        nth_list_update bit_or_iff)
qed

lemma seen_bit_fold:
  assumes "length seen = 2" and "i < 64"
  shows "seen_bit (fold mark_seen its seen) i \<longleftrightarrow>
    seen_bit seen i \<or> (\<exists>it \<in> set its. is_required it \<and> required_field_index it = i)"
  using assms(1)
proof (induction its arbitrary: seen)
  case (Cons it its)
  then show ?case using seen_bit_mark [OF Cons.prems assms(2)] by auto
qed simp

text \<open>A word of 32 flags.\<close>

lemma full_word: "(w :: u32) = - 1 \<longleftrightarrow> (\<forall>j < 32. bit w j)"
  by (auto simp: bit_eq_iff bit_simps)

lemma partial_word:
  assumes "r < 32"
  shows "(w :: u32) = drop_bit (32 - r) (- 1) \<longleftrightarrow> (\<forall>j < 32. bit w j \<longleftrightarrow> j < r)"
  using assms by (auto simp: bit_eq_iff bit_simps)

lemma required_present_bits:
  assumes "n \<le> 64" and extra: "\<And>i. n \<le> i \<Longrightarrow> i < 64 \<Longrightarrow> \<not> seen_bit seen i"
  shows "required_present n seen \<longleftrightarrow> (\<forall>i < n. seen_bit seen i)"
proof -
  have word: "(\<forall>j < 32. P (32 * k + j)) \<longleftrightarrow> (\<forall>i. i div 32 = k \<longrightarrow> P i)" for P and k :: nat
  proof (intro iffI allI impI)
    fix i assume "\<forall>j < 32. P (32 * k + j)" "i div 32 = k"
    then show "P i" by (metis mod_less_divisor mult_div_mod_eq zero_less_numeral)
  qed auto
  have bit: "bit (seen ! k) j = seen_bit seen (32 * k + j)" if "j < 32" for k j
    using that by (simp add: seen_bit_def)
  have full: "seen ! k = - 1 \<longleftrightarrow> (\<forall>i. i div 32 = k \<longrightarrow> seen_bit seen i)" for k
    unfolding full_word word [symmetric] using bit by auto
  have part: "seen ! k = drop_bit (32 - r) (- 1) \<longleftrightarrow>
      (\<forall>i. i div 32 = k \<longrightarrow> (seen_bit seen i \<longleftrightarrow> i mod 32 < r))" if "r < 32" for k r
    unfolding partial_word [OF that] word [symmetric] using bit by auto
  have low: "(\<forall>k \<in> set [0..<n div 32]. seen ! k = - 1) \<longleftrightarrow> (\<forall>i < 32 * (n div 32). seen_bit seen i)"
  proof -
    have "i div 32 < n div 32 \<longleftrightarrow> i < 32 * (n div 32)" for i
      by (simp add: div_less_iff_less_mult mult.commute)
    then show ?thesis by (auto simp: full)
  qed
  show ?thesis
  proof (cases "n mod 32 = 0")
    case True
    then have "32 * (n div 32) = n" by auto
    then show ?thesis using low True by (simp add: required_present_def)
  next
    case False
    then have "n div 32 < 2" using assms(1) by (cases "n = 64") auto
    then have small: "i < 64" if "i div 32 = n div 32" for i using that by auto
    have order: "i mod 32 < n mod 32 \<longleftrightarrow> i < n" if "i div 32 = n div 32" for i
      using that div_mult_mod_eq [of i 32] div_mult_mod_eq [of n 32] by arith
    have "seen ! (n div 32) = drop_bit (32 - n mod 32) (- 1) \<longleftrightarrow>
        (\<forall>i. i div 32 = n div 32 \<longrightarrow> i < n \<longrightarrow> seen_bit seen i)"
      using part [of "n mod 32" "n div 32"] order small extra by auto
    then have "required_present n seen \<longleftrightarrow> (\<forall>i < 32 * (n div 32). seen_bit seen i)
        \<and> (\<forall>i. i div 32 = n div 32 \<longrightarrow> i < n \<longrightarrow> seen_bit seen i)"
      using low False by (simp add: required_present_def)
    also have "\<dots> \<longleftrightarrow> (\<forall>i < n. seen_bit seen i)"
    proof -
      have "i < n \<longleftrightarrow> i < 32 * (n div 32) \<or> i div 32 = n div 32 \<and> i < n" for i
        by arith
      then show ?thesis by blast
    qed
    finally show ?thesis .
  qed
qed

section \<open>Runs of the field loop\<close>

text \<open>
  \<open>field_run\<close>: from the locals and the state at the loop's head the loop comes to its end
  with the locals and the state on the right, and the list in between holds the positions
  of the fields it decoded, in order: a header is read, the search finds a field for its
  number, and \<open>decode_field\<close> succeeds there. Other rounds skip unknown data, give it to an
  extension or notice the end of the stream.
\<close>

inductive field_run ::
    "denv \<Rightarrow> nat \<Rightarrow> message_decoder \<Rightarrow> pb_field list \<Rightarrow> addr \<Rightarrow>
     locals \<times> dstate \<Rightarrow> nat list \<Rightarrow> locals \<times> dstate \<Rightarrow> bool"
  for E n R desc fc where
  finished: "at_eof l \<or> bytes_left (strm s) = 0 \<Longrightarrow> field_run E n R desc fc (l, s) [] (l, s)"
| field: "\<not> at_eof l \<Longrightarrow> bytes_left (strm s) \<noteq> 0 \<Longrightarrow>
    pb_decode_tag (strm s) = (eof, Ret (wire_type, tag) t) \<Longrightarrow>
    pb_field_iter_find (iter l) tag = (True, it) \<Longrightarrow>
    known_field E n R desc fc wire_type (l\<lparr>iter := it\<rparr>) (s\<lparr>strm := t\<rparr>) = Ret l' s' \<Longrightarrow>
    field_run E n R desc fc (l', s') ps e \<Longrightarrow>
    field_run E n R desc fc (l, s) (pos it # ps) e"
| skipped: "\<not> at_eof l \<Longrightarrow> bytes_left (strm s) \<noteq> 0 \<Longrightarrow>
    pb_decode_tag (strm s) = (eof, Ret (wire_type, tag) t) \<Longrightarrow>
    pb_field_iter_find (iter l) tag = (False, it) \<Longrightarrow>
    unknown_field E n R tag wire_type (l\<lparr>iter := it\<rparr>) (s\<lparr>strm := t\<rparr>) = Ret l' s' \<Longrightarrow>
    field_run E n R desc fc (l', s') ps e \<Longrightarrow>
    field_run E n R desc fc (l, s) ps e"
| ended: "\<not> at_eof l \<Longrightarrow> bytes_left (strm s) \<noteq> 0 \<Longrightarrow>
    pb_decode_tag (strm s) = (True, Fail t) \<Longrightarrow>
    field_run E n R desc fc (l, s) [] (l\<lparr>at_eof := True\<rparr>, s\<lparr>strm := t\<rparr>)"

inductive_cases field_run_done: "field_run E n R desc fc (l, s) ps e"

text \<open>The loop of the code returns exactly along these runs.\<close>

lemma field_run_loop:
  "field_run E n R desc fc x ps y \<Longrightarrow> field_loop E n R desc fc (fst x) (snd x) = Ret (fst y) (snd y)"
proof (induction rule: field_run.induct)
  case (finished l s)
  then show ?case by (subst field_loop_def, subst loopC_unfold) auto
next
  case (field l s eof wire_type tag t it l' s' ps e)
  then show ?case
    unfolding field_loop_def by (subst loopC_unfold) (simp add: bindC_def decode_next_def)
next
  case (skipped l s eof wire_type tag t it l' s' ps e)
  then show ?case
    unfolding field_loop_def by (subst loopC_unfold) (simp add: bindC_def decode_next_def)
next
  case (ended l s t)
  then show ?case
    unfolding field_loop_def
    by (subst loopC_unfold) (simp add: bindC_def decode_next_def, subst loopC_unfold, simp)
qed

lemma field_loop_run:
  assumes "field_loop E n R desc fc l s = Ret l' s'"
  shows "\<exists>ps. field_run E n R desc fc (l, s) ps (l', s')"
  using assms unfolding field_loop_def
proof (induction rule: loopC_Ret_induct)
  case (stop l s)
  then show ?case by (auto intro: field_run.finished)
next
  case (step l s l1 s1 l2 s2)
  then obtain ps where ps: "field_run E n R desc fc (l1, s1) ps (l2, s2)" by blast
  obtain eof r where tag: "pb_decode_tag (strm s) = (eof, r)" by fastforce
  show ?case
  proof (cases r)
    case (Ret w t)
    obtain wire_type number where w: "w = (wire_type, number)" by fastforce
    obtain found it where find: "pb_field_iter_find (iter l) number = (found, it)" by fastforce
    show ?thesis
      using step.hyps(1,2) ps tag Ret w find
      by (cases found) (auto simp: decode_next_def intro: field_run.field field_run.skipped)
  next
    case (Fail t)
    then have "eof" "l1 = l\<lparr>at_eof := True\<rparr>" "s1 = s\<lparr>strm := t\<rparr>"
      using step.hyps(2) tag by (auto simp: decode_next_def split: if_splits)
    moreover from this ps have "(l2, s2) = (l1, s1)" by (auto elim: field_run_done)
    ultimately show ?thesis using step.hyps(1) tag Fail field_run.ended by fastforce
  qed (use step.hyps(2) tag in \<open>simp add: decode_next_def\<close>)
qed

section \<open>The iterator of the loop\<close>

definition required_at :: "pb_field list \<Rightarrow> nat \<Rightarrow> bool" where
  "required_at desc k \<longleftrightarrow> PB_HTYPE (ftype (field_at desc k)) = PB_HTYPE_REQUIRED"

definition req_before :: "pb_field list \<Rightarrow> nat \<Rightarrow> nat" where
  "req_before desc i = length (filter (required_at desc) [0..<i])"

lemma req_before_simps [simp]:
  "req_before desc 0 = 0"
  "req_before desc (Suc i) = req_before desc i + (if required_at desc i then 1 else 0)"
  by (simp_all add: req_before_def)

lemma req_before_mono: "i \<le> j \<Longrightarrow> req_before desc i \<le> req_before desc j"
  by (induction j) (auto simp: le_Suc_eq)

lemma req_before_less: "required_at desc i \<Longrightarrow> i < j \<Longrightarrow> req_before desc i < req_before desc j"
  using req_before_mono [of "Suc i" j desc] by simp

lemma req_before_inj:
  assumes "required_at desc i" "required_at desc j" "req_before desc i = req_before desc j"
  shows "i = j"
  using assms req_before_less [of desc i j] req_before_less [of desc j i] by (cases i j rule: linorder_cases) auto

lemma req_before_onto: "r < req_before desc m \<Longrightarrow> \<exists>i < m. required_at desc i \<and> req_before desc i = r"
proof (induction m)
  case (Suc m)
  then show ?case by (cases "r < req_before desc m") (auto split: if_splits intro: less_SucI)
qed simp

text \<open>
  The iterator stands at a field with the number of required fields before it; only
  its addresses differ from \<open>iter_at\<close>, after a fixed-count field.
\<close>

definition iter_ok :: "pb_field list \<Rightarrow> pb_field_iter \<Rightarrow> bool" where
  "iter_ok desc it \<longleftrightarrow> start it = desc \<and>
     (pos it < num_fields desc \<or> num_fields desc = 0 \<and> pos it = 0) \<and>
     required_field_index it = req_before desc (pos it)"

lemma iter_ok_begin: "iter_ok desc (snd (pb_field_iter_begin desc dest))"
  by (auto simp: iter_ok_def pb_field_iter_begin_def Let_def)

lemma iter_ok_cur: "iter_ok desc it \<Longrightarrow> cur it = field_at desc (pos it)"
  by (simp add: iter_ok_def cur_def)

lemma num_fields_next:
  assumes "i < num_fields desc"
  shows "Suc i < num_fields desc \<longleftrightarrow> ftag (field_at desc (Suc i)) \<noteq> 0"
  using assms ftag_field_at [of "Suc i" desc] ftag_field_end [of desc] by (cases "Suc i = num_fields desc") auto

lemma iter_ok_next:
  assumes "iter_ok desc it"
  shows "iter_ok desc (snd (pb_field_iter_next it))"
    and "pos it < num_fields desc \<Longrightarrow>
      fst (pb_field_iter_next it) = (Suc (pos it) < num_fields desc)
      \<and> pos (snd (pb_field_iter_next it)) = (if Suc (pos it) < num_fields desc then Suc (pos it) else 0)"
    and "num_fields desc = 0 \<Longrightarrow> pb_field_iter_next it = (False, it)"
proof -
  have c: "cur it = field_at desc (pos it)" using assms by (rule iter_ok_cur)
  have s: "start it = desc" and r: "required_field_index it = req_before desc (pos it)"
    using assms by (simp_all add: iter_ok_def)
  show zero: "num_fields desc = 0 \<Longrightarrow> pb_field_iter_next it = (False, it)"
    using assms c ftag_field_end [of desc] by (auto simp: pb_field_iter_next_def Let_def iter_ok_def)
  show move: "pos it < num_fields desc \<Longrightarrow>
      fst (pb_field_iter_next it) = (Suc (pos it) < num_fields desc)
      \<and> pos (snd (pb_field_iter_next it)) = (if Suc (pos it) < num_fields desc then Suc (pos it) else 0)"
    using c s num_fields_next [of "pos it" desc] ftag_field_at [of "pos it" desc]
    by (auto simp: pb_field_iter_next_def Let_def)
  show "iter_ok desc (snd (pb_field_iter_next it))"
  proof (cases "pos it < num_fields desc")
    case True
    then show ?thesis
      using move c s r num_fields_next [of "pos it" desc] ftag_field_at [of "pos it" desc]
      by (auto simp: iter_ok_def pb_field_iter_next_def Let_def required_at_def pb_consts pb_field_iter_begin_def)
  next
    case False
    then show ?thesis using assms zero by (auto simp: iter_ok_def)
  qed
qed

lemma iter_ok_round: "iter_ok desc it \<Longrightarrow> iter_ok desc (snd (iter_round k match b it))"
  by (induction k arbitrary: it) (auto simp: Let_def intro: iter_ok_next)

lemma iter_ok_find:
  "iter_ok desc it \<Longrightarrow> pb_field_iter_find it t = (found, it') \<Longrightarrow> iter_ok desc it'"
  using iter_ok_round [of desc it] by (metis pb_field_iter_find_def snd_conv)

lemma iter_ok_find_extension:
  "iter_ok desc it \<Longrightarrow> find_extension_field it = (found, it') \<Longrightarrow> iter_ok desc it'"
  using iter_ok_round [of desc it] by (metis find_extension_field_def snd_conv)

text \<open>The walk to the end of the descriptor finds the number of required fields.\<close>

lemma seek_required_ok:
  assumes "iter_ok desc it" and "0 < num_fields desc"
  shows "\<exists>it'. seek_required it =
      (req_before desc (num_fields desc - 1), ftype (field_at desc (num_fields desc - 1)), it')
    \<and> iter_ok desc it'"
  using assms
proof (induction it rule: seek_required.induct)
  case (1 it)
  have p: "pos it < num_fields desc" using 1(2,3) by (auto simp: iter_ok_def)
  show ?case
  proof (cases "fst (pb_field_iter_next it)")
    case True
    then show ?thesis using 1 iter_ok_next(1) [OF 1(2)] by (subst seek_required.simps) simp
  next
    case False
    then have "pos it = num_fields desc - 1" using p iter_ok_next(2) [OF 1(2)] by auto
    then show ?thesis
      using False 1(2) iter_ok_next(1) [OF 1(2)] iter_ok_cur [OF 1(2)]
      by (subst seek_required.simps) (simp add: iter_ok_def)
  qed
qed

lemma required_count_ok:
  assumes "iter_ok desc it"
  shows "required_count it = min (req_before desc (num_fields desc)) PB_MAX_REQUIRED_FIELDS"
proof (cases "num_fields desc = 0")
  case True
  then have n: "pb_field_iter_next it = (False, it)" using iter_ok_next(3) [OF assms] by simp
  have "ftag (cur it) = 0" "required_field_index it = 0"
    using assms True ftag_field_end [of desc] by (auto simp: iter_ok_def cur_def)
  then show ?thesis using True n by (simp add: required_count_def seek_required.simps [of it])
next
  case False
  then obtain m where m: "num_fields desc = Suc m" by (cases "num_fields desc") auto
  then obtain it' where it': "seek_required it = (req_before desc m, ftype (field_at desc m), it')"
    "iter_ok desc it'" using seek_required_ok [OF assms] by auto
  then have "ftag (cur it') \<noteq> 0"
    using m ftag_field_at [of "pos it'" desc] by (auto simp: iter_ok_def cur_def)
  then show ?thesis using it' m by (simp add: required_count_def required_at_def)
qed

text \<open>Every round of the loop keeps the iterator in order and marks the field it decodes.\<close>

lemma iter_ok_pSize [simp]: "iter_ok desc (it\<lparr>pSize := a\<rparr>) = iter_ok desc it"
  by (simp add: iter_ok_def)

lemma release_union_iter:
  assumes "iter_ok desc it" and "pb_release_union_field E n it s = Ret it' t"
  shows "iter_ok desc it'"
  using assms
  by (auto simp: pb_release_union_field_def bindC_eq_Ret Let_def strm_do_def
      PB_RETURN_ERROR_def split: if_splits prod.splits outcome.splits intro: iter_ok_find)

lemma decode_field_iter:
  assumes "iter_ok desc it" and "decode_field E n R wire_type it s = Ret it' t"
  shows "iter_ok desc it'"
  using assms by (auto simp: decode_field_def bindC_eq_Ret Let_def split: if_splits intro: release_union_iter)

lemma known_field_marks:
  assumes "iter_ok desc (iter l)" and "known_field E n R desc' fc wire_type l s = Ret l' t"
  shows "iter_ok desc (iter l')" "fields_seen l' = mark_seen (iter l) (fields_seen l)"
proof -
  let ?it = "iter l"
  let ?fixed = "bindC (if fixed_count_field l \<noteq> Some (pos ?it) then
        bindC (load_do (fixed_count_wrong desc' fc l)) (\<lambda>wrong.
        if wrong then error_do ''wrong size for fixed count field'' else store_do (store32 fc 0))
      else returnC ())
    (\<lambda>_. returnC (l\<lparr>fixed_count_field := Some (pos ?it), iter := ?it\<lparr>pSize := fc\<rparr>\<rparr>))"
  let ?first = "if PB_HTYPE (ftype (cur ?it)) = PB_HTYPE_REPEATED \<and> pSize ?it = pData ?it then ?fixed
    else returnC l"
  let ?rest = "\<lambda>l1. bindC (decode_field E n R wire_type (iter l1)) (\<lambda>it'.
      returnC (l1\<lparr>iter := it', fields_seen := mark_seen (iter l1) (fields_seen l1)\<rparr>))"
  have "bindC ?first ?rest s = Ret l' t" using assms(2) by (simp only: known_field_def Let_def)
  then obtain l1 s1 where first: "?first s = Ret l1 s1" and rest: "?rest l1 s1 = Ret l' t"
    unfolding bindC_eq_Ret [of ?first ?rest] by blast
  have l1: "l1 = l \<or> l1 = l\<lparr>fixed_count_field := Some (pos ?it), iter := ?it\<lparr>pSize := fc\<rparr>\<rparr>"
  proof (cases "PB_HTYPE (ftype (cur ?it)) = PB_HTYPE_REPEATED \<and> pSize ?it = pData ?it")
    case True
    then have "?fixed s = Ret l1 s1" using first by simp
    then show ?thesis unfolding bindC_eq_Ret [of _ "\<lambda>_. returnC _"] by auto
  next
    case False
    then show ?thesis using first by auto
  qed
  have ok: "iter_ok desc (iter l1)" using l1 assms(1) by auto
  have mark: "mark_seen (iter l1) (fields_seen l1) = mark_seen ?it (fields_seen l)"
    using l1 by (elim disjE) (simp_all add: mark_seen_def cur_def Let_def)
  show "iter_ok desc (iter l')" "fields_seen l' = mark_seen ?it (fields_seen l)"
    using rest decode_field_iter [OF ok] mark by (auto simp: bindC_eq_Ret)
qed

lemma unknown_field_iter:
  assumes "iter_ok desc (iter l)" and "unknown_field E n R tag wire_type l s = Ret l' t"
  shows "iter_ok desc (iter l')" "fields_seen l' = fields_seen l"
proof -
  obtain found it where e: "find_extension_field (iter l) = (found, it)" by fastforce
  have "iter_ok desc it" by (rule iter_ok_find_extension [OF assms(1) e])
  with assms show "iter_ok desc (iter l')" "fields_seen l' = fields_seen l"
    by (auto simp: unknown_field_def e Let_def bindC_eq_Ret split: if_splits)
qed

lemma field_run_seen:
  assumes "field_run E n R desc fc x ps y" and "iter_ok desc (iter (fst x))" and "length (fields_seen (fst x)) = 2"
  shows "iter_ok desc (iter (fst y)) \<and> length (fields_seen (fst y)) = 2 \<and>
    (\<forall>p \<in> set ps. p < num_fields desc \<or> num_fields desc = 0) \<and>
    (\<forall>i < 64. seen_bit (fields_seen (fst y)) i \<longleftrightarrow>
      seen_bit (fields_seen (fst x)) i \<or> (\<exists>p \<in> set ps. required_at desc p \<and> req_before desc p = i))"
  using assms
proof (induction rule: field_run.induct)
  case (field l s eof wire_type tag t it l' s' ps e)
  have it: "iter_ok desc it" by (rule iter_ok_find [OF _ field.hyps(4)]) (use field.prems in simp)
  have mark: "iter_ok desc (iter l')" "fields_seen l' = mark_seen it (fields_seen l)"
    using known_field_marks [OF _ field.hyps(5)] it by simp_all
  have req: "is_required it \<longleftrightarrow> required_at desc (pos it)" "required_field_index it = req_before desc (pos it)"
    using it by (simp_all add: is_required_def required_at_def iter_ok_def cur_def)
  have "pos it < num_fields desc \<or> num_fields desc = 0" using it by (auto simp: iter_ok_def)
  then show ?case
    using field.IH field.prems mark seen_bit_mark [of "fields_seen l" _ it] req by auto
next
  case (skipped l s eof wire_type tag t it l' s' ps e)
  have it: "iter_ok desc it" by (rule iter_ok_find [OF _ skipped.hyps(4)]) (use skipped.prems in simp)
  have "iter_ok desc (iter l')" "fields_seen l' = fields_seen l"
    using unknown_field_iter [OF _ skipped.hyps(5)] it by simp_all
  then show ?case using skipped.IH skipped.prems by auto
qed simp_all

text \<open>The final check on the flags a run from the start leaves behind.\<close>

lemma field_run_required:
  assumes "field_run E n R desc fc (initial_locals desc dest, s) ps (l, t)"
  shows "required_present (required_count (iter l)) (fields_seen l) \<longleftrightarrow>
    (\<forall>k < num_fields desc. required_at desc k \<and> req_before desc k < PB_MAX_REQUIRED_FIELDS \<longrightarrow> k \<in> set ps)"
    (is "_ \<longleftrightarrow> ?all")
proof -
  let ?total = "req_before desc (num_fields desc)"
  have zero: "\<not> seen_bit [0, 0] i" if "i < 64" for i
  proof -
    have "i div 32 = 0 \<or> i div 32 = 1" using that by auto
    then show ?thesis by (auto simp: seen_bit_def)
  qed
  have ok: "iter_ok desc (iter l)"
    and inside: "\<And>p. p \<in> set ps \<Longrightarrow> p < num_fields desc \<or> num_fields desc = 0"
    and seen: "\<And>i. i < 64 \<Longrightarrow> seen_bit (fields_seen l) i \<longleftrightarrow>
      (\<exists>p \<in> set ps. required_at desc p \<and> req_before desc p = i)"
    using field_run_seen [OF assms] zero by (auto simp: initial_locals_def iter_ok_begin)
  have count: "required_count (iter l) = min ?total 64"
    using required_count_ok [OF ok] by (simp add: PB_MAX_REQUIRED_FIELDS_def)
  show ?thesis
  proof (cases "num_fields desc = 0")
    case True
    then show ?thesis using count by (simp add: required_present_def)
  next
    case False
    have extra: "\<not> seen_bit (fields_seen l) i" if le: "min ?total 64 \<le> i" "i < 64" for i
    proof
      assume "seen_bit (fields_seen l) i"
      then obtain p where "p \<in> set ps" "required_at desc p" "req_before desc p = i"
        using seen le by blast
      then show False using req_before_less [of desc p "num_fields desc"] inside False le by fastforce
    qed
    have "required_present (required_count (iter l)) (fields_seen l) \<longleftrightarrow>
        (\<forall>i < min ?total 64. \<exists>p \<in> set ps. required_at desc p \<and> req_before desc p = i)"
      using required_present_bits [OF _ extra] seen by (simp add: count)
    also have "\<dots> \<longleftrightarrow> ?all"
    proof
      assume all: "\<forall>i < min ?total 64. \<exists>p \<in> set ps. required_at desc p \<and> req_before desc p = i"
      show ?all
      proof (intro allI impI)
        fix k
        assume k: "k < num_fields desc" "required_at desc k \<and> req_before desc k < PB_MAX_REQUIRED_FIELDS"
        then have "req_before desc k < min ?total 64"
          using req_before_less [of desc k] by (simp add: PB_MAX_REQUIRED_FIELDS_def)
        with all obtain p where "p \<in> set ps" "required_at desc p" "req_before desc p = req_before desc k" by blast
        then show "k \<in> set ps" using req_before_inj [of desc p k] k by simp
      qed
    next
      assume ?all
      show "\<forall>i < min ?total 64. \<exists>p \<in> set ps. required_at desc p \<and> req_before desc p = i"
      proof (intro allI impI)
        fix i
        assume "i < min ?total 64"
        moreover from this obtain k where "k < num_fields desc" "required_at desc k" "req_before desc k = i"
          using req_before_onto [of i desc "num_fields desc"] by auto
        ultimately show "\<exists>p \<in> set ps. required_at desc p \<and> req_before desc p = i"
          using \<open>?all\<close> by (auto simp: PB_MAX_REQUIRED_FIELDS_def)
      qed
    qed
    finally show ?thesis .
  qed
qed

text \<open>The state in which the loop starts: the local counter is on the stack and zero.\<close>

definition counter_slot :: "dstate \<Rightarrow> addr" where
  "counter_slot s = msp (dmem s) - 4"

definition loop_start :: "dstate \<Rightarrow> dstate" where
  "loop_start s = s\<lparr>dmem := store32 (counter_slot s) 0 ((dmem s)\<lparr>msp := counter_slot s\<rparr>)\<rparr>"

lemma noinit_success:
  "(\<exists>t. pb_decode_noinit E (Suc n) desc dest s = Ret () t) \<longleftrightarrow>
    (\<exists>l t. field_loop E n (pb_decode_noinit E n) desc (counter_slot s) (initial_locals desc dest) (loop_start s) = Ret l t
      \<and> finish_checks desc (counter_slot s) l t = Ret () t)"
proof -
  let ?run = "bindC (field_loop E n (pb_decode_noinit E n) desc (counter_slot s) (initial_locals desc dest))
    (finish_checks desc (counter_slot s)) (loop_start s)"
  have "pb_decode_noinit E (Suc n) desc dest s =
    (case ?run of Ret a t \<Rightarrow> Ret a (t\<lparr>dmem := (dmem t)\<lparr>msp := msp (dmem s)\<rparr>\<rparr>)
     | Fail t \<Rightarrow> Fail (t\<lparr>dmem := (dmem t)\<lparr>msp := msp (dmem s)\<rparr>\<rparr>) | Stuck \<Rightarrow> Stuck)"
    by (simp add: noinit_body_def with_slot_def Let_def counter_slot_def loop_start_def mem_do_def
        bindC_def [of "\<lambda>s. Ret () (f s)" for f])
  then have "(\<exists>t. pb_decode_noinit E (Suc n) desc dest s = Ret () t) \<longleftrightarrow> (\<exists>t. ?run = Ret () t)"
    by (auto split: outcome.splits)
  moreover have "t' = t" if "finish_checks desc fc l t = Ret () t'" for fc l t t'
    using that by (auto simp: finish_checks_def bindC_eq_Ret mem_do_def strm_do_def PB_RETURN_ERROR_def
        split: if_splits outcome.splits)
  ultimately show ?thesis by (auto simp: bindC_eq_Ret)
qed

lemma finish_checks_success:
  "finish_checks desc fc l t = Ret () t \<longleftrightarrow>
    \<not> fixed_count_wrong desc fc l (dmem t) \<and> required_present (required_count (iter l)) (fields_seen l)"
  by (auto simp: finish_checks_def bindC_eq_Ret mem_do_def strm_do_def PB_RETURN_ERROR_def
      split: if_splits outcome.splits)

lemma noinit_required:
  "(\<exists>t. pb_decode_noinit E (Suc n) desc dest s = Ret () t) \<longleftrightarrow>
    (\<exists>ps l t. field_run E n (pb_decode_noinit E n) desc (counter_slot s)
        (initial_locals desc dest, loop_start s) ps (l, t)
      \<and> \<not> fixed_count_wrong desc (counter_slot s) l (dmem t)
      \<and> (\<forall>k < num_fields desc. required_at desc k \<and> req_before desc k < PB_MAX_REQUIRED_FIELDS \<longrightarrow> k \<in> set ps))"
  (is "_ \<longleftrightarrow> ?run")
proof
  assume "\<exists>t. pb_decode_noinit E (Suc n) desc dest s = Ret () t"
  then obtain l t where loop: "field_loop E n (pb_decode_noinit E n) desc (counter_slot s)
      (initial_locals desc dest) (loop_start s) = Ret l t"
    and fin: "finish_checks desc (counter_slot s) l t = Ret () t"
    unfolding noinit_success by blast
  from field_loop_run [OF loop] obtain ps where
    run: "field_run E n (pb_decode_noinit E n) desc (counter_slot s) (initial_locals desc dest, loop_start s) ps (l, t)"
    by blast
  then show ?run using field_run_required [OF run] fin by (auto simp: finish_checks_success)
next
  assume ?run
  then obtain ps l t where
    run: "field_run E n (pb_decode_noinit E n) desc (counter_slot s) (initial_locals desc dest, loop_start s) ps (l, t)"
    and fixed: "\<not> fixed_count_wrong desc (counter_slot s) l (dmem t)"
    and all: "\<forall>k < num_fields desc. required_at desc k \<and> req_before desc k < PB_MAX_REQUIRED_FIELDS \<longrightarrow> k \<in> set ps"
    by blast
  have "finish_checks desc (counter_slot s) l t = Ret () t"
    using field_run_required [OF run] fixed all by (simp add: finish_checks_success)
  then show "\<exists>t. pb_decode_noinit E (Suc n) desc dest s = Ret () t"
    unfolding noinit_success using field_run_loop [OF run] by (intro exI conjI) simp_all
qed

end
