(* ===== verification/OStream.thy ===== *)
theory OStream
  imports PbTypes
begin

text \<open>
  The output side of \<open>nanopb/pb_encode.c\<close>: the output stream, writing to it, and the
  encoders of varints, tags, fixed-width values and strings.

  A stream with no callback is a sizing stream: it counts bytes and stores none. A stream
  over a memory buffer keeps in \<open>ostate\<close> the bytes written so far. A custom stream's
  callback is a function from the bytes handed to it and its own state to success or
  failure and its new state.
\<close>

section \<open>The stream\<close>

datatype ocallback = No_callback | Buf_write | User_write "byte list \<Rightarrow> byte list \<Rightarrow> bool \<times> byte list"

record pb_ostream =
  ocallback :: ocallback
  ostate :: "byte list"
  max_size :: u64
  bytes_written :: u64
  oerrmsg :: "string option"

definition PB_SET_ERROR_o :: "string \<Rightarrow> pb_ostream \<Rightarrow> pb_ostream" where
  "PB_SET_ERROR_o msg s = s\<lparr>oerrmsg := (case oerrmsg s of Some m \<Rightarrow> Some m | None \<Rightarrow> Some msg)\<rparr>"

definition PB_RETURN_ERROR_o :: "string \<Rightarrow> (pb_ostream, 'a) cmd" where
  "PB_RETURN_ERROR_o msg = (\<lambda>s. Fail (PB_SET_ERROR_o msg s))"

definition is_sizing :: "pb_ostream \<Rightarrow> bool" where
  "is_sizing s = (case ocallback s of No_callback \<Rightarrow> True | _ \<Rightarrow> False)"

definition PB_OSTREAM_SIZING :: pb_ostream where
  "PB_OSTREAM_SIZING =
     \<lparr>ocallback = No_callback, ostate = [], max_size = 0, bytes_written = 0, oerrmsg = None\<rparr>"

definition pb_ostream_from_buffer :: "u64 \<Rightarrow> pb_ostream" where
  "pb_ostream_from_buffer bufsize =
     \<lparr>ocallback = Buf_write, ostate = [], max_size = bufsize, bytes_written = 0, oerrmsg = None\<rparr>"

definition buf_write :: "byte list \<Rightarrow> nat \<Rightarrow> (pb_ostream, unit) cmd" where
  "buf_write buf count = (\<lambda>s. Ret () (s\<lparr>ostate := ostate s @ take count buf\<rparr>))"

definition ostream_callback :: "byte list \<Rightarrow> nat \<Rightarrow> (pb_ostream, unit) cmd" where
  "ostream_callback buf count = (\<lambda>s.
     case ocallback s of
       No_callback \<Rightarrow> Stuck
     | Buf_write \<Rightarrow> buf_write buf count s
     | User_write f \<Rightarrow>
         (case f (take count buf) (ostate s) of
            (True, st) \<Rightarrow> Ret () (s\<lparr>ostate := st\<rparr>)
          | (False, st) \<Rightarrow> Fail (s\<lparr>ostate := st\<rparr>)))"

text \<open>\<open>buf\<close> is the memory from the source pointer on; NULL, which only a sizing stream is
  given, is the empty list.\<close>

definition pb_write :: "byte list \<Rightarrow> u64 \<Rightarrow> (pb_ostream, unit) cmd" where
  "pb_write buf count = (\<lambda>s.
     if count > 0 \<and> \<not> is_sizing s then
       (if bytes_written s + count < bytes_written s \<or> bytes_written s + count > max_size s
        then PB_RETURN_ERROR_o ''stream full'' s
        else case ostream_callback buf (unat count) s of
            Ret u s' \<Rightarrow> Ret () (s'\<lparr>bytes_written := bytes_written s' + count\<rparr>)
          | Fail s' \<Rightarrow> PB_RETURN_ERROR_o ''io error'' s'
          | Stuck \<Rightarrow> Stuck)
     else Ret () (s\<lparr>bytes_written := bytes_written s + count\<rparr>))"

section \<open>Values\<close>

text \<open>The loop that fills \<open>buffer\<close> with seven bits of the value per byte, all with the
  continuation bit.\<close>

function varint_fill :: "u64 \<Rightarrow> byte list" where
  "varint_fill v =
     (if v = 0 then [] else (ucast (v AND 0x7F) OR 0x80) # varint_fill (drop_bit 7 v))"
  by pat_completeness auto
termination
  by (relation "measure unat") (auto intro: unat_drop7_less)

declare varint_fill.simps [simp del]

text \<open>\<open>buffer[i-1] &= 0x7F\<close>.\<close>

definition clear_last :: "byte list \<Rightarrow> byte list" where
  "clear_last bs = bs[length bs - 1 := bs ! (length bs - 1) AND 0x7F]"

definition pb_encode_varint :: "u64 \<Rightarrow> (pb_ostream, unit) cmd" where
  "pb_encode_varint v =
     (if v \<le> 0x7F then pb_write [ucast v] 1
      else let buffer = varint_fill v; i = length buffer
           in pb_write (clear_last buffer) (word_of_nat i))"

text \<open>The value is given by its two's complement bits.\<close>

definition pb_encode_svarint :: "u64 \<Rightarrow> (pb_ostream, unit) cmd" where
  "pb_encode_svarint v =
     (let zigzagged = (if v <s 0 then NOT (push_bit 1 v) else push_bit 1 v)
      in pb_encode_varint zigzagged)"

definition fixed32_bytes :: "u32 \<Rightarrow> byte list" where
  "fixed32_bytes v = [ucast (v AND 0xFF), ucast (drop_bit 8 v AND 0xFF),
     ucast (drop_bit 16 v AND 0xFF), ucast (drop_bit 24 v AND 0xFF)]"

definition pb_encode_fixed32 :: "u32 \<Rightarrow> (pb_ostream, unit) cmd" where
  "pb_encode_fixed32 v = pb_write (fixed32_bytes v) 4"

definition fixed64_bytes :: "u64 \<Rightarrow> byte list" where
  "fixed64_bytes v = [ucast (v AND 0xFF), ucast (drop_bit 8 v AND 0xFF),
     ucast (drop_bit 16 v AND 0xFF), ucast (drop_bit 24 v AND 0xFF),
     ucast (drop_bit 32 v AND 0xFF), ucast (drop_bit 40 v AND 0xFF),
     ucast (drop_bit 48 v AND 0xFF), ucast (drop_bit 56 v AND 0xFF)]"

definition pb_encode_fixed64 :: "u64 \<Rightarrow> (pb_ostream, unit) cmd" where
  "pb_encode_fixed64 v = pb_write (fixed64_bytes v) 8"

definition pb_encode_tag :: "pb_wire_type_t \<Rightarrow> u32 \<Rightarrow> (pb_ostream, unit) cmd" where
  "pb_encode_tag wiretype field_number =
     pb_encode_varint (push_bit 3 (ucast field_number) OR ucast wiretype)"

definition pb_encode_tag_for_field :: "pb_field \<Rightarrow> (pb_ostream, unit) cmd" where
  "pb_encode_tag_for_field field =
     (let lt = PB_LTYPE (ftype field) in
      if lt = PB_LTYPE_BOOL \<or> lt = PB_LTYPE_VARINT \<or> lt = PB_LTYPE_UVARINT \<or> lt = PB_LTYPE_SVARINT
      then pb_encode_tag PB_WT_VARINT (ftag field)
      else if lt = PB_LTYPE_FIXED32 then pb_encode_tag PB_WT_32BIT (ftag field)
      else if lt = PB_LTYPE_FIXED64 then pb_encode_tag PB_WT_64BIT (ftag field)
      else if lt = PB_LTYPE_BYTES \<or> lt = PB_LTYPE_STRING \<or> lt = PB_LTYPE_SUBMESSAGE
              \<or> lt = PB_LTYPE_FIXED_LENGTH_BYTES
      then pb_encode_tag PB_WT_STRING (ftag field)
      else PB_RETURN_ERROR_o ''invalid field type'')"

definition pb_encode_string :: "byte list \<Rightarrow> u64 \<Rightarrow> (pb_ostream, unit) cmd" where
  "pb_encode_string buffer sz = bindC (pb_encode_varint sz) (\<lambda>_. pb_write buffer sz)"

section \<open>The bytes of a varint\<close>

function varint_bytes :: "u64 \<Rightarrow> byte list" where
  "varint_bytes v =
     (if v \<le> 0x7F then [ucast v]
      else (ucast (v AND 0x7F) OR 0x80) # varint_bytes (drop_bit 7 v))"
  by pat_completeness auto
termination
  by (relation "measure unat") (auto intro!: unat_drop7_less)

declare varint_bytes.simps [simp del]

lemma clear_last_Cons: "bs \<noteq> [] \<Longrightarrow> clear_last (b # bs) = b # clear_last bs"
  by (cases bs) (auto simp: clear_last_def)

lemma low_bits_small: "v \<le> 0x7F \<Longrightarrow> take_bit 7 (v :: u64) = v"
proof -
  assume "v \<le> 0x7F"
  then have "drop_bit 7 v = 0" by (simp add: drop7_zero)
  then show ?thesis using bits_ident [of 7 v] by simp
qed

lemma clear_flag: "(ucast (take_bit 7 (v :: u64)) OR 0x80 :: byte) AND 0x7F = ucast (take_bit 7 v)"
  unfolding byte_bits by (rule bit_word_eqI) (auto simp: bit_simps)

text \<open>What the C loop writes, last byte cleared, is the varint of the value.\<close>

lemma varint_fill_bytes: "v \<noteq> 0 \<Longrightarrow> clear_last (varint_fill v) = varint_bytes v"
proof (induction v rule: varint_fill.induct)
  case (1 v)
  show ?case
  proof (cases "v \<le> 0x7F")
    case True
    then have d: "drop_bit 7 v = 0" by (simp add: drop7_zero)
    have f: "varint_fill v = [ucast (v AND 0x7F) OR 0x80]"
      using "1.prems" by (subst varint_fill.simps, subst varint_fill.simps) (simp add: d)
    show ?thesis
      using True low_bits_small [OF True] clear_flag [of v]
      by (subst varint_bytes.simps) (simp add: f clear_last_def and_7F [of v])
  next
    case False
    then have d: "drop_bit 7 v \<noteq> 0" by (simp add: drop7_zero)
    then have "varint_fill (drop_bit 7 v) \<noteq> []"
      by (subst varint_fill.simps) simp
    then show ?thesis
      using False 1 d
      by (subst varint_fill.simps, subst varint_bytes.simps) (simp add: clear_last_Cons)
  qed
qed

text \<open>A 64-bit value needs at most ten bytes: the local \<open>buffer[10]\<close> never overflows.\<close>

lemma varint_bytes_length_le:
  "unat v < 128 ^ k \<Longrightarrow> 0 < k \<Longrightarrow> length (varint_bytes v) \<le> k"
proof (induction v arbitrary: k rule: varint_bytes.induct)
  case (1 v)
  show ?case
  proof (cases "v \<le> 0x7F")
    case True
    then show ?thesis using 1 by (subst varint_bytes.simps) simp
  next
    case False
    then have v: "128 \<le> unat v" by (simp add: word_le_nat_alt)
    with 1 have "k \<noteq> 1" by auto
    with 1 obtain j where k: "k = Suc j" "0 < j" by (cases k) auto
    have "unat v div 128 < 128 ^ j"
      using 1 k by (intro less_mult_imp_div_less) (simp add: mult.commute)
    then have "unat (drop_bit 7 v) < 128 ^ j" by (simp only: unat_drop7)
    then have "length (varint_bytes (drop_bit 7 v)) \<le> j" using False k 1 by blast
    then show ?thesis using False k by (subst varint_bytes.simps) simp
  qed
qed

lemma varint_bytes_length: "length (varint_bytes v) \<le> 10"
proof (rule varint_bytes_length_le)
  show "unat v < 128 ^ 10" using unat_u64_less [of v] by simp
qed simp

lemma varint_bytes_nonempty [simp]: "varint_bytes v \<noteq> []"
  by (subst varint_bytes.simps) simp

lemma length_clear_last [simp]: "length (clear_last bs) = length bs"
  by (simp add: clear_last_def)

lemma pb_encode_varint_write:
  "pb_encode_varint v = pb_write (varint_bytes v) (word_of_nat (length (varint_bytes v)))"
proof (cases "v \<le> 0x7F")
  case True
  then have "varint_bytes v = [ucast v]" by (subst varint_bytes.simps) simp
  with True show ?thesis by (simp add: pb_encode_varint_def)
next
  case False
  then have "clear_last (varint_fill v) = varint_bytes v"
    by (intro varint_fill_bytes) auto
  moreover from this have "length (varint_fill v) = length (varint_bytes v)"
    by (metis length_clear_last)
  ultimately show ?thesis using False by (simp add: pb_encode_varint_def Let_def)
qed

section \<open>The contract of the encoders\<close>

text \<open>
  An encoder emits a fixed byte string: on a sizing stream it adds the length, on a buffer
  stream with room (and no error yet) it appends the bytes, and on a buffer stream without
  room it returns false (as long as the total is a number a \<open>size_t\<close> can hold).
\<close>

locale wire_writer =
  fixes f :: "(pb_ostream, unit) cmd" and bs :: "byte list"
  assumes sizing: "is_sizing s \<Longrightarrow>
      f s = Ret () (s\<lparr>bytes_written := bytes_written s + word_of_nat (length bs)\<rparr>)"
    and writing: "ocallback s = Buf_write \<Longrightarrow> oerrmsg s = None \<Longrightarrow>
      unat (bytes_written s) + length bs \<le> unat (max_size s) \<Longrightarrow>
      f s = Ret () (s\<lparr>ostate := ostate s @ bs,
                     bytes_written := bytes_written s + word_of_nat (length bs)\<rparr>)"
    and full: "ocallback s = Buf_write \<Longrightarrow> oerrmsg s = None \<Longrightarrow> bytes_written s \<le> max_size s \<Longrightarrow>
      unat (max_size s) < unat (bytes_written s) + length bs \<Longrightarrow>
      unat (bytes_written s) + length bs < 2 ^ 64 \<Longrightarrow> \<exists>s'. f s = Fail s'"
begin

text \<open>The two-pass use: measure with a sizing stream, then write into a buffer of that size.\<close>

lemma two_pass:
  assumes "length bs < 2 ^ 64"
  obtains s where "f PB_OSTREAM_SIZING = Ret () s"
    and "f (pb_ostream_from_buffer (bytes_written s)) =
      Ret () ((pb_ostream_from_buffer (bytes_written s))
        \<lparr>ostate := bs, bytes_written := bytes_written s\<rparr>)"
proof
  let ?s = "PB_OSTREAM_SIZING\<lparr>bytes_written := word_of_nat (length bs)\<rparr>"
  show "f PB_OSTREAM_SIZING = Ret () ?s"
    using sizing [of PB_OSTREAM_SIZING] by (simp add: PB_OSTREAM_SIZING_def is_sizing_def)
  show "f (pb_ostream_from_buffer (bytes_written ?s)) =
      Ret () ((pb_ostream_from_buffer (bytes_written ?s))
        \<lparr>ostate := bs, bytes_written := bytes_written ?s\<rparr>)"
    using writing [of "pb_ostream_from_buffer (bytes_written ?s)"] assms
    by (simp add: pb_ostream_from_buffer_def unat_of_nat)
qed

end

lemma unat_add_of_nat:
  "unat (a :: u64) + n < 2 ^ 64 \<Longrightarrow> unat (a + word_of_nat n) = unat a + n"
  by (simp add: unat_word_ariths unat_of_nat mod_add_right_eq)

lemma wire_writer_return: "wire_writer (returnC ()) []"
  by unfold_locales (simp_all add: word_le_nat_alt)

lemma wire_writer_bind:
  assumes f: "wire_writer f bs" and g: "wire_writer g cs"
  shows "wire_writer (bindC f (\<lambda>_. g)) (bs @ cs)"
proof
  fix s :: pb_ostream
  assume sz: "is_sizing s"
  let ?t = "s\<lparr>bytes_written := bytes_written s + word_of_nat (length bs)\<rparr>"
  have "is_sizing ?t" using sz by (simp add: is_sizing_def)
  from wire_writer.sizing [OF f sz] wire_writer.sizing [OF g this]
  show "bindC f (\<lambda>_. g) s =
      Ret () (s\<lparr>bytes_written := bytes_written s + word_of_nat (length (bs @ cs))\<rparr>)"
    by (simp add: bindC_def add.assoc)
next
  fix s :: pb_ostream
  assume b: "ocallback s = Buf_write" and e: "oerrmsg s = None"
    and room: "unat (bytes_written s) + length (bs @ cs) \<le> unat (max_size s)"
  then have room1: "unat (bytes_written s) + length bs \<le> unat (max_size s)" by simp
  let ?t = "s\<lparr>ostate := ostate s @ bs, bytes_written := bytes_written s + word_of_nat (length bs)\<rparr>"
  have "unat (bytes_written ?t) = unat (bytes_written s) + length bs"
    using room unat_u64_less [of "max_size s"] by (simp add: unat_add_of_nat)
  then have "unat (bytes_written ?t) + length cs \<le> unat (max_size ?t)" using room by simp
  from wire_writer.writing [OF f b e room1] wire_writer.writing [OF g _ _ this] b e
  show "bindC f (\<lambda>_. g) s =
      Ret () (s\<lparr>ostate := ostate s @ bs @ cs,
                bytes_written := bytes_written s + word_of_nat (length (bs @ cs))\<rparr>)"
    by (simp add: bindC_def add.assoc)
next
  fix s :: pb_ostream
  assume b: "ocallback s = Buf_write" and e: "oerrmsg s = None"
    and le: "bytes_written s \<le> max_size s"
    and more: "unat (max_size s) < unat (bytes_written s) + length (bs @ cs)"
    and fits: "unat (bytes_written s) + length (bs @ cs) < 2 ^ 64"
  show "\<exists>s'. bindC f (\<lambda>_. g) s = Fail s'"
  proof (cases "unat (bytes_written s) + length bs \<le> unat (max_size s)")
    case True
    let ?t = "s\<lparr>ostate := ostate s @ bs, bytes_written := bytes_written s + word_of_nat (length bs)\<rparr>"
    have u: "unat (bytes_written ?t) = unat (bytes_written s) + length bs"
      using fits by (simp add: unat_add_of_nat)
    then have "\<exists>s'. g ?t = Fail s'"
      using b e True more fits by (intro wire_writer.full [OF g]) (auto simp: word_le_nat_alt)
    then show ?thesis using wire_writer.writing [OF f b e True] by (auto simp: bindC_def)
  next
    case False
    then have "\<exists>s'. f s = Fail s'"
      using b e le fits by (intro wire_writer.full [OF f]) auto
    then show ?thesis by (auto simp: bindC_def)
  qed
qed

lemma wire_writer_write:
  assumes "unat count \<le> length buf"
  shows "wire_writer (pb_write buf count) (take (unat count) buf)"
proof
  fix s :: pb_ostream
  assume "is_sizing s"
  then show "pb_write buf count s =
      Ret () (s\<lparr>bytes_written := bytes_written s + word_of_nat (length (take (unat count) buf))\<rparr>)"
    using assms by (simp add: pb_write_def min_def)
next
  fix s :: pb_ostream
  assume b: "ocallback s = Buf_write" and "oerrmsg s = None"
    and room: "unat (bytes_written s) + length (take (unat count) buf) \<le> unat (max_size s)"
  have l: "length (take (unat count) buf) = unat count" using assms by simp
  have "unat (bytes_written s + count) = unat (bytes_written s) + unat count"
    using room unat_u64_less [of "max_size s"] unfolding l by (simp add: unat_word_ariths)
  then show "pb_write buf count s =
      Ret () (s\<lparr>ostate := ostate s @ take (unat count) buf,
                bytes_written := bytes_written s + word_of_nat (length (take (unat count) buf))\<rparr>)"
    using b room assms
    by (cases "count = 0")
      (auto simp: pb_write_def is_sizing_def ostream_callback_def buf_write_def min_def
        word_less_nat_alt word_le_nat_alt unat_eq_zero split: if_splits)
next
  fix s :: pb_ostream
  assume b: "ocallback s = Buf_write" and e: "oerrmsg s = None"
    and le: "bytes_written s \<le> max_size s"
    and more: "unat (max_size s) < unat (bytes_written s) + length (take (unat count) buf)"
    and fits: "unat (bytes_written s) + length (take (unat count) buf) < 2 ^ 64"
  have l: "length (take (unat count) buf) = unat count" using assms by simp
  have "unat (bytes_written s + count) = unat (bytes_written s) + unat count"
    using fits unfolding l by (simp add: unat_word_ariths)
  then show "\<exists>s'. pb_write buf count s = Fail s'"
    using b le more unfolding l
    by (auto simp: pb_write_def is_sizing_def PB_RETURN_ERROR_o_def
        word_less_nat_alt word_le_nat_alt)
qed

lemma wire_writer_write_all:
  "length bs < 2 ^ 64 \<Longrightarrow> wire_writer (pb_write bs (word_of_nat (length bs))) bs"
  using wire_writer_write [of "word_of_nat (length bs)" bs] by (simp add: unat_of_nat)

interpretation vw: wire_writer "pb_encode_varint v" "varint_bytes v" for v
  unfolding pb_encode_varint_write
  using varint_bytes_length [of v] by (intro wire_writer_write_all) simp

definition svarint_bytes :: "u64 \<Rightarrow> byte list" where
  "svarint_bytes v = varint_bytes (if v <s 0 then NOT (push_bit 1 v) else push_bit 1 v)"

interpretation svw: wire_writer "pb_encode_svarint v" "svarint_bytes v" for v
  unfolding pb_encode_svarint_def svarint_bytes_def Let_def by (rule vw.wire_writer_axioms)

interpretation f32w: wire_writer "pb_encode_fixed32 v" "fixed32_bytes v" for v
  using wire_writer_write_all [of "fixed32_bytes v"]
  by (simp add: pb_encode_fixed32_def fixed32_bytes_def)

interpretation f64w: wire_writer "pb_encode_fixed64 v" "fixed64_bytes v" for v
  using wire_writer_write_all [of "fixed64_bytes v"]
  by (simp add: pb_encode_fixed64_def fixed64_bytes_def)

definition tag_bytes :: "pb_wire_type_t \<Rightarrow> u32 \<Rightarrow> byte list" where
  "tag_bytes wt t = varint_bytes (push_bit 3 (ucast t) OR ucast wt)"

interpretation tw: wire_writer "pb_encode_tag wt t" "tag_bytes wt t" for wt t
  unfolding pb_encode_tag_def tag_bytes_def by (rule vw.wire_writer_axioms)

lemma wire_writer_string:
  "unat sz \<le> length buf \<Longrightarrow>
   wire_writer (pb_encode_string buf sz) (varint_bytes sz @ take (unat sz) buf)"
  unfolding pb_encode_string_def
  by (intro wire_writer_bind vw.wire_writer_axioms wire_writer_write)

end
