(* ===== verification/PbEncode.thy ===== *)
theory PbEncode
  imports PbFields OStream
begin

text \<open>
  The message encoder of \<open>nanopb/pb_encode.c\<close>: the encoders of single fields, arrays,
  the proto3 presence check, callback and extension fields, submessages, and \<open>pb_encode\<close>
  with its callers.

  Encoding reads the memory \<open>m\<close> and changes the output stream only. What the user of
  the library supplies (encode callbacks, extension types with their handlers) is the
  argument \<open>E\<close>. As on the decoding side, \<open>R\<close> stands for the nested \<open>pb_encode\<close> and
  \<open>n\<close> for the depth left.
\<close>

section \<open>The environment\<close>

record eenv =
  encode_cb :: "addr \<Rightarrow> pb_field \<Rightarrow> addr \<Rightarrow> (pb_ostream, unit) cmd"
  type_encode :: "addr \<Rightarrow> (addr \<Rightarrow> (pb_ostream, unit) cmd) option"
  etype_arg :: ext_env

type_synonym message_encoder = "pb_field list \<Rightarrow> addr \<Rightarrow> (pb_ostream, unit) cmd"

definition safe_read_bool :: "cmem \<Rightarrow> addr \<Rightarrow> bool" where
  "safe_read_bool m p \<longleftrightarrow> load8 m p \<noteq> 0"

section \<open>Submessages\<close>

text \<open>The substream that receives a submessage of \<open>sz\<close> bytes.\<close>

definition submessage_stream :: "pb_ostream \<Rightarrow> u64 \<Rightarrow> pb_ostream" where
  "submessage_stream s sz =
     \<lparr>ocallback = ocallback s, ostate = ostate s, max_size = sz, bytes_written = 0, oerrmsg = None\<rparr>"

text \<open>The second pass: encode through a substream and account for it in the stream.\<close>

definition encode_measured :: "(pb_ostream, unit) cmd \<Rightarrow> u64 \<Rightarrow> (pb_ostream, unit) cmd" where
  "encode_measured f sz = (\<lambda>s.
     let finish = (\<lambda>sub status.
           let s' = s\<lparr>bytes_written := bytes_written s + bytes_written sub, ostate := ostate sub,
                      oerrmsg := oerrmsg sub\<rparr>
           in if bytes_written sub \<noteq> sz then PB_RETURN_ERROR_o ''submsg size changed'' s'
              else statusC status s')
     in case f (submessage_stream s sz) of
          Ret u sub \<Rightarrow> finish sub True | Fail sub \<Rightarrow> finish sub False | Stuck \<Rightarrow> Stuck)"

definition encode_submessage_with :: "message_encoder \<Rightarrow> message_encoder" where
  "encode_submessage_with R desc src = (\<lambda>s.
     case R desc src PB_OSTREAM_SIZING of
       Stuck \<Rightarrow> Stuck
     | Fail t \<Rightarrow> Fail (s\<lparr>oerrmsg := oerrmsg t\<rparr>)
     | Ret u t \<Rightarrow>
         (let sz = bytes_written t in
          bindC (pb_encode_varint sz) (\<lambda>_ s.
            if is_sizing s then pb_write [] sz s
            else if bytes_written s + sz > max_size s then PB_RETURN_ERROR_o ''stream full'' s
            else encode_measured (R desc src) sz s)) s)"

section \<open>Field encoders\<close>

definition pb_enc_bool :: "cmem \<Rightarrow> pb_field \<Rightarrow> addr \<Rightarrow> (pb_ostream, unit) cmd" where
  "pb_enc_bool m f src = pb_encode_varint (if safe_read_bool m src then 1 else 0)"

text \<open>Reading an integer field of \<open>data_size\<close> bytes, sign-extended or zero-extended.\<close>

definition load_signed :: "cmem \<Rightarrow> pb_size_t \<Rightarrow> addr \<Rightarrow> u64 option" where
  "load_signed m dsize src =
     (if dsize = 1 then Some (scast (load8 m src))
      else if dsize = 2 then Some (scast (load16 m src))
      else if dsize = 4 then Some (scast (load32 m src))
      else if dsize = 8 then Some (load64 m src)
      else None)"

definition load_unsigned :: "cmem \<Rightarrow> pb_size_t \<Rightarrow> addr \<Rightarrow> u64 option" where
  "load_unsigned m dsize src =
     (if dsize = 1 then Some (ucast (load8 m src))
      else if dsize = 2 then Some (ucast (load16 m src))
      else if dsize = 4 then Some (ucast (load32 m src))
      else if dsize = 8 then Some (load64 m src)
      else None)"

definition pb_enc_varint :: "cmem \<Rightarrow> pb_field \<Rightarrow> addr \<Rightarrow> (pb_ostream, unit) cmd" where
  "pb_enc_varint m f src =
     (case load_signed m (data_size f) src of
        None \<Rightarrow> PB_RETURN_ERROR_o ''invalid data_size'' | Some value \<Rightarrow> pb_encode_varint value)"

definition pb_enc_uvarint :: "cmem \<Rightarrow> pb_field \<Rightarrow> addr \<Rightarrow> (pb_ostream, unit) cmd" where
  "pb_enc_uvarint m f src =
     (case load_unsigned m (data_size f) src of
        None \<Rightarrow> PB_RETURN_ERROR_o ''invalid data_size'' | Some value \<Rightarrow> pb_encode_varint value)"

definition pb_enc_svarint :: "cmem \<Rightarrow> pb_field \<Rightarrow> addr \<Rightarrow> (pb_ostream, unit) cmd" where
  "pb_enc_svarint m f src =
     (case load_signed m (data_size f) src of
        None \<Rightarrow> PB_RETURN_ERROR_o ''invalid data_size'' | Some value \<Rightarrow> pb_encode_svarint value)"

definition pb_enc_fixed64 :: "cmem \<Rightarrow> pb_field \<Rightarrow> addr \<Rightarrow> (pb_ostream, unit) cmd" where
  "pb_enc_fixed64 m f src = pb_encode_fixed64 (load64 m src)"

definition pb_enc_fixed32 :: "cmem \<Rightarrow> pb_field \<Rightarrow> addr \<Rightarrow> (pb_ostream, unit) cmd" where
  "pb_enc_fixed32 m f src = pb_encode_fixed32 (load32 m src)"

definition pb_enc_bytes :: "cmem \<Rightarrow> pb_field \<Rightarrow> addr \<Rightarrow> (pb_ostream, unit) cmd" where
  "pb_enc_bytes m f src =
     (if src = 0 then pb_encode_string [] 0
      else let sz = ucast (load32 m src); allocsize = PB_BYTES_ARRAY_T_ALLOCSIZE sz in
        if allocsize < sz
           \<or> (PB_ATYPE (ftype f) = PB_ATYPE_STATIC \<and> allocsize > ucast (data_size f))
        then PB_RETURN_ERROR_o ''bytes size exceeded''
        else pb_encode_string (load_bytes m (src + int offsetof_bytes) (unat sz)) sz)"

text \<open>\<open>while (size < max_size && *p != '\0')\<close>.\<close>

function c_strnlen :: "cmem \<Rightarrow> addr \<Rightarrow> nat \<Rightarrow> nat" where
  "c_strnlen m p limit =
     (if limit = 0 then 0 else if load8 m p = 0 then 0 else Suc (c_strnlen m (p + 1) (limit - 1)))"
  by pat_completeness auto
termination
  by (relation "measure (\<lambda>(m, p, k). k)") auto

declare c_strnlen.simps [simp del]

definition pb_enc_string :: "cmem \<Rightarrow> pb_field \<Rightarrow> addr \<Rightarrow> (pb_ostream, unit) cmd" where
  "pb_enc_string m f src =
     (let limit = (if PB_ATYPE (ftype f) = PB_ATYPE_POINTER then 2 ^ 64 - 1
                   else unat (data_size f));
          sz = (if src = 0 then 0 else c_strnlen m src limit)
      in pb_encode_string (load_bytes m src sz) (word_of_nat sz))"

definition pb_enc_submessage ::
    "message_encoder \<Rightarrow> cmem \<Rightarrow> pb_field \<Rightarrow> addr \<Rightarrow> (pb_ostream, unit) cmd" where
  "pb_enc_submessage R m f src =
     (case fptr f of Null_ptr \<Rightarrow> PB_RETURN_ERROR_o ''invalid field descriptor''
      | _ \<Rightarrow> with_fields f (\<lambda>desc. encode_submessage_with R desc src))"

definition pb_enc_fixed_length_bytes :: "cmem \<Rightarrow> pb_field \<Rightarrow> addr \<Rightarrow> (pb_ostream, unit) cmd" where
  "pb_enc_fixed_length_bytes m f src =
     pb_encode_string (load_bytes m src (unat (data_size f))) (ucast (data_size f))"

definition PB_ENCODERS ::
    "message_encoder \<Rightarrow> cmem \<Rightarrow> pb_type_t \<Rightarrow> pb_field \<Rightarrow> addr \<Rightarrow> (pb_ostream, unit) cmd" where
  "PB_ENCODERS R m lt =
     (if lt = PB_LTYPE_BOOL then pb_enc_bool m
      else if lt = PB_LTYPE_VARINT then pb_enc_varint m
      else if lt = PB_LTYPE_UVARINT then pb_enc_uvarint m
      else if lt = PB_LTYPE_SVARINT then pb_enc_svarint m
      else if lt = PB_LTYPE_FIXED32 then pb_enc_fixed32 m
      else if lt = PB_LTYPE_FIXED64 then pb_enc_fixed64 m
      else if lt = PB_LTYPE_BYTES then pb_enc_bytes m
      else if lt = PB_LTYPE_STRING then pb_enc_string m
      else if lt = PB_LTYPE_SUBMESSAGE then pb_enc_submessage R m
      else if lt = PB_LTYPE_FIXED_LENGTH_BYTES then pb_enc_fixed_length_bytes m
      else (\<lambda>f src. stuckC))"

section \<open>Arrays\<close>

text \<open>\<open>func\<close> on \<open>count\<close> entries from \<open>pData\<close> on.\<close>

definition encode_entries ::
    "(addr \<Rightarrow> (pb_ostream, unit) cmd) \<Rightarrow> pb_field \<Rightarrow> nat \<Rightarrow> addr \<Rightarrow> (pb_ostream, unit) cmd" where
  "encode_entries func f count p =
     bindC (timesC count (\<lambda>p. bindC (func p) (\<lambda>_. returnC (p + uint (data_size f)))) p)
       (\<lambda>_. returnC ())"

text \<open>The bytes an encoder produces on a fresh sizing stream.\<close>

definition sized :: "(pb_ostream, unit) cmd \<Rightarrow> ('s, u64) cmd" where
  "sized f = (\<lambda>s. case f PB_OSTREAM_SIZING of
     Ret u t \<Rightarrow> Ret (bytes_written t) s | Fail t \<Rightarrow> Fail s | Stuck \<Rightarrow> Stuck)"

definition encode_array ::
    "cmem \<Rightarrow> (pb_field \<Rightarrow> addr \<Rightarrow> (pb_ostream, unit) cmd) \<Rightarrow> pb_field \<Rightarrow> addr \<Rightarrow> pb_size_t \<Rightarrow>
     (pb_ostream, unit) cmd" where
  "encode_array m func f p count =
     (let lt = PB_LTYPE (ftype f); ptr = (PB_ATYPE (ftype f) = PB_ATYPE_POINTER) in
      if count = 0 then returnC ()
      else if \<not> ptr \<and> count > array_size f then PB_RETURN_ERROR_o ''array max size exceeded''
      else if lt \<le> PB_LTYPE_LAST_PACKABLE then
        bindC (pb_encode_tag PB_WT_STRING (ftag f)) (\<lambda>_.
        bindC (if lt = PB_LTYPE_FIXED32 then returnC (4 * ucast count)
               else if lt = PB_LTYPE_FIXED64 then returnC (8 * ucast count)
               else sized (encode_entries (func f) f (unat count) p)) (\<lambda>sz.
        bindC (pb_encode_varint sz) (\<lambda>_ s.
        if is_sizing s then pb_write [] sz s
        else encode_entries (func f) f (unat count) p s)))
      else
        encode_entries (\<lambda>p. bindC (pb_encode_tag_for_field f) (\<lambda>_.
          if ptr \<and> (lt = PB_LTYPE_STRING \<or> lt = PB_LTYPE_BYTES) then func f (load_ptr m p)
          else func f p)) f (unat count) p)"

section \<open>Presence\<close>

text \<open>
  \<open>pb_check_proto3_default_value\<close>: true means the field has its default value. The
  recursion into submessages is \<open>check\<close>.
\<close>

definition all_zero :: "cmem \<Rightarrow> addr \<Rightarrow> nat \<Rightarrow> bool" where
  "all_zero m p k \<longleftrightarrow> list_all (\<lambda>b. b = 0) (load_bytes m p k)"

definition proto3_default_body ::
    "cmem \<Rightarrow> (pb_field \<Rightarrow> addr \<Rightarrow> (unit, unit) cmd) \<Rightarrow> pb_field \<Rightarrow> addr \<Rightarrow> (unit, unit) cmd" where
  "proto3_default_body m check f p =
     (let ty = ftype f; sz = p + sint (size_offset f);
          static = (PB_ATYPE ty = PB_ATYPE_STATIC); lt = PB_LTYPE ty in
      if PB_HTYPE ty = PB_HTYPE_REQUIRED then statusC False
      else if PB_HTYPE ty = PB_HTYPE_REPEATED \<and> size_offset f \<noteq> 0 then statusC (load32 m sz = 0)
      else if PB_HTYPE ty = PB_HTYPE_REPEATED \<and> static then statusC False
      else if PB_HTYPE ty = PB_HTYPE_ONEOF then statusC (load32 m sz = 0)
      else if PB_HTYPE ty = PB_HTYPE_OPTIONAL \<and> size_offset f \<noteq> 0
      then statusC (\<not> safe_read_bool m sz)
      else if static \<and> lt = PB_LTYPE_BYTES then statusC (load32 m p = 0)
      else if static \<and> lt = PB_LTYPE_STRING then statusC (load8 m p = 0)
      else if static \<and> lt = PB_LTYPE_FIXED_LENGTH_BYTES then statusC (data_size f = 0)
      else if static \<and> lt = PB_LTYPE_SUBMESSAGE
      then with_fields f (\<lambda>desc.
             let (ok, it) = pb_field_iter_begin desc p
             in if ok then iter_loop (\<lambda>it. check (cur it) (pData it)) it else statusC True)
      else if PB_ATYPE ty = PB_ATYPE_POINTER \<and> lt > PB_LTYPE_LAST_PACKABLE
      then statusC (load_ptr m p = 0)
      else statusC (all_zero m p (unat (data_size f))))"

primrec pb_check_proto3_default_value ::
    "cmem \<Rightarrow> nat \<Rightarrow> pb_field \<Rightarrow> addr \<Rightarrow> (unit, unit) cmd" where
  "pb_check_proto3_default_value m 0 = (\<lambda>f p. stuckC)"
| "pb_check_proto3_default_value m (Suc n) =
     proto3_default_body m (pb_check_proto3_default_value m n)"

section \<open>Single fields\<close>

text \<open>\<open>implicit_has\<close>, for a field without a \<open>has_\<close> member.\<close>

definition implicit_has :: "cmem \<Rightarrow> nat \<Rightarrow> pb_field \<Rightarrow> addr \<Rightarrow> (pb_ostream, bool) cmd" where
  "implicit_has m n f p =
     (if size_offset f = 0 \<and> PB_HTYPE (ftype f) = PB_HTYPE_OPTIONAL
      then (\<lambda>s. case pb_check_proto3_default_value m n f p () of
                  Ret u v \<Rightarrow> Ret False s | Fail v \<Rightarrow> Ret True s | Stuck \<Rightarrow> Stuck)
      else returnC True)"

definition encode_basic_field ::
    "cmem \<Rightarrow> nat \<Rightarrow> message_encoder \<Rightarrow> pb_field \<Rightarrow> addr \<Rightarrow> (pb_ostream, unit) cmd" where
  "encode_basic_field m n R f p0 =
     (let ty = ftype f; func = PB_ENCODERS R m (PB_LTYPE ty); sz = p0 + sint (size_offset f);
          ptr = (PB_ATYPE ty = PB_ATYPE_POINTER); p = (if ptr then load_ptr m p0 else p0);
          encode = bindC (pb_encode_tag_for_field f) (\<lambda>_. func f p) in
      bindC (implicit_has m (Suc n) f p0) (\<lambda>has0.
        let has = (if size_offset f \<noteq> 0 then safe_read_bool m sz
                   else if ptr then p \<noteq> 0 else has0) in
        if PB_HTYPE ty = PB_HTYPE_REQUIRED
        then (if p = 0 then PB_RETURN_ERROR_o ''missing required field'' else encode)
        else if PB_HTYPE ty = PB_HTYPE_OPTIONAL then (if has then encode else returnC ())
        else if PB_HTYPE ty = PB_HTYPE_REPEATED
        then encode_array m func f p (if size_offset f \<noteq> 0 then load32 m sz else array_size f)
        else if size_offset f = 0 then stuckC
        else if load32 m sz = ftag f then encode else returnC ()))"

definition encode_callback_field ::
    "eenv \<Rightarrow> cmem \<Rightarrow> pb_field \<Rightarrow> addr \<Rightarrow> (pb_ostream, unit) cmd" where
  "encode_callback_field E m f p =
     (let fn = load_ptr m (p + callback_funcs) in
      if fn \<noteq> 0 then (\<lambda>s. case encode_cb E fn f (p + callback_arg) s of
          Ret u t \<Rightarrow> Ret () t
        | Fail t \<Rightarrow> PB_RETURN_ERROR_o ''callback error'' t
        | Stuck \<Rightarrow> Stuck)
      else returnC ())"

definition encode_field ::
    "eenv \<Rightarrow> cmem \<Rightarrow> nat \<Rightarrow> message_encoder \<Rightarrow> pb_field \<Rightarrow> addr \<Rightarrow> (pb_ostream, unit) cmd" where
  "encode_field E m n R f p =
     (let at = PB_ATYPE (ftype f) in
      if at = PB_ATYPE_STATIC \<or> at = PB_ATYPE_POINTER then encode_basic_field m n R f p
      else if at = PB_ATYPE_CALLBACK then encode_callback_field E m f p
      else PB_RETURN_ERROR_o ''invalid field type'')"

section \<open>Extensions\<close>

definition default_extension_encoder ::
    "eenv \<Rightarrow> cmem \<Rightarrow> nat \<Rightarrow> message_encoder \<Rightarrow> addr \<Rightarrow> (pb_ostream, unit) cmd" where
  "default_extension_encoder E m n R ext =
     (let f = field_at (etype_arg E (load_ptr m (ext + extension_type))) 0 in
      if PB_ATYPE (ftype f) = PB_ATYPE_POINTER
      then encode_field E m n R f (ext + extension_dest)
      else encode_field E m n R f (load_ptr m (ext + extension_dest)))"

definition encode_extension_field ::
    "eenv \<Rightarrow> cmem \<Rightarrow> nat \<Rightarrow> message_encoder \<Rightarrow> pb_field \<Rightarrow> addr \<Rightarrow> (pb_ostream, unit) cmd" where
  "encode_extension_field E m n R f p =
     bindC (loopC (\<lambda>ext s. ext \<noteq> 0)
        (\<lambda>ext. bindC (case type_encode E (load_ptr m (ext + extension_type)) of
                  Some h \<Rightarrow> h ext
                | None \<Rightarrow> default_extension_encoder E m n R ext)
           (\<lambda>_. returnC (load_ptr m (ext + extension_next))))
        (load_ptr m p))
       (\<lambda>_. returnC ())"

section \<open>Messages\<close>

definition encode_message :: "eenv \<Rightarrow> cmem \<Rightarrow> nat \<Rightarrow> message_encoder \<Rightarrow> message_encoder" where
  "encode_message E m n R desc src =
     (let (ok, it) = pb_field_iter_begin desc src
      in if ok then iter_loop (\<lambda>it.
           if PB_LTYPE (ftype (cur it)) = PB_LTYPE_EXTENSION
           then encode_extension_field E m n R (cur it) (pData it)
           else encode_field E m n R (cur it) (pData it)) it
         else returnC ())"

primrec pb_encode :: "eenv \<Rightarrow> cmem \<Rightarrow> nat \<Rightarrow> message_encoder" where
  "pb_encode E m 0 = (\<lambda>desc src. stuckC)"
| "pb_encode E m (Suc n) = encode_message E m n (pb_encode E m n)"

definition pb_encode_submessage :: "eenv \<Rightarrow> cmem \<Rightarrow> nat \<Rightarrow> message_encoder" where
  "pb_encode_submessage E m n = encode_submessage_with (pb_encode E m n)"

definition pb_encode_delimited :: "eenv \<Rightarrow> cmem \<Rightarrow> nat \<Rightarrow> message_encoder" where
  "pb_encode_delimited E m n = pb_encode_submessage E m n"

definition pb_encode_nullterminated :: "eenv \<Rightarrow> cmem \<Rightarrow> nat \<Rightarrow> message_encoder" where
  "pb_encode_nullterminated E m n desc src =
     bindC (pb_encode E m n desc src) (\<lambda>_. pb_write [0] 1)"

text \<open>The encoded size; there is no stream of the caller's.\<close>

definition pb_get_encoded_size ::
    "eenv \<Rightarrow> cmem \<Rightarrow> nat \<Rightarrow> pb_field list \<Rightarrow> addr \<Rightarrow> (unit, u64) cmd" where
  "pb_get_encoded_size E m n desc src = sized (pb_encode E m n desc src)"

end
