(* ===== verification/PbEncodeDet.thy ===== *)
theory PbEncodeDet
  imports PbEncode PbDescriptors
begin

text \<open>
  The encoder is deterministic in the sense the two-pass scheme needs: what a sizing
  stream counts is what a buffer stream receives. \<open>determined f\<close> says that once \<open>f\<close>
  succeeds on a sizing stream it is a \<open>wire_writer\<close> of some byte string; it holds for
  \<open>pb_encode\<close> whenever it holds for the user's callbacks.
\<close>

section \<open>Determined commands\<close>

definition determined :: "(pb_ostream, unit) cmd \<Rightarrow> bool" where
  "determined f \<longleftrightarrow>
     (\<forall>s t. is_sizing s \<longrightarrow> f s = Ret () t \<longrightarrow> (\<exists>bs. wire_writer f bs))"

named_theorems det_intros "rules that show that a command is determined"

lemma determinedD:
  "determined f \<Longrightarrow> is_sizing s \<Longrightarrow> f s = Ret () t \<Longrightarrow> \<exists>bs. wire_writer f bs"
  by (auto simp: determined_def)

lemma det_writer: "wire_writer f bs \<Longrightarrow> determined f"
  by (auto simp: determined_def)

lemma det_basic [det_intros]:
  "determined (PB_RETURN_ERROR_o msg)" "determined failC" "determined stuckC"
  "determined (returnC ())" "determined (statusC b)"
  using wire_writer_return
  by (auto simp: determined_def PB_RETURN_ERROR_o_def statusC_def)

lemma writer_keeps_sizing:
  assumes "wire_writer f bs" and "is_sizing s" and "f s = Ret () t"
  shows "is_sizing t"
  using wire_writer.sizing [OF assms(1,2)] assms(2,3) by (auto simp: is_sizing_def)

lemma det_bind [det_intros]:
  assumes f: "determined f" and g: "determined g"
  shows "determined (bindC f (\<lambda>_. g))"
  unfolding determined_def
proof (intro allI impI)
  fix s t :: pb_ostream
  assume s: "is_sizing s" and "bindC f (\<lambda>_. g) s = Ret () t"
  then obtain s' where fs: "f s = Ret () s'" and gs: "g s' = Ret () t"
    by (auto simp: bindC_eq_Ret)
  obtain bs where bs: "wire_writer f bs" using determinedD [OF f s fs] by auto
  obtain cs where "wire_writer g cs"
    using determinedD [OF g writer_keeps_sizing [OF bs s fs] gs] by auto
  with bs show "\<exists>bs. wire_writer (bindC f (\<lambda>_. g)) bs" by (blast intro: wire_writer_bind)
qed

lemma det_bind_unit [det_intros]:
  "determined f \<Longrightarrow> determined (g ()) \<Longrightarrow> determined (bindC f g)"
  using det_bind [of f "g ()"] by (simp add: bindC_def)

lemma det_if [det_intros]:
  "(b \<Longrightarrow> determined f) \<Longrightarrow> (\<not> b \<Longrightarrow> determined g) \<Longrightarrow> determined (if b then f else g)"
  by simp

lemma det_option [det_intros]:
  "(ov = None \<Longrightarrow> determined f) \<Longrightarrow> (\<And>v. ov = Some v \<Longrightarrow> determined (g v)) \<Longrightarrow>
    determined (case ov of None \<Rightarrow> f | Some v \<Rightarrow> g v)"
  by (cases ov) auto

lemma det_with_fields [det_intros]:
  "(\<And>sub. fptr f = Fields_ptr sub \<Longrightarrow> determined (k sub)) \<Longrightarrow> determined (with_fields f k)"
  by (auto simp: with_fields_def det_basic split: ptr_target.split)

lemmas det_scalars [det_intros] =
  det_writer [OF vw.wire_writer_axioms] det_writer [OF svw.wire_writer_axioms]
  det_writer [OF f32w.wire_writer_axioms] det_writer [OF f64w.wire_writer_axioms]
  det_writer [OF tw.wire_writer_axioms]

lemma det_tag_for_field [det_intros]: "determined (pb_encode_tag_for_field f)"
  unfolding pb_encode_tag_for_field_def Let_def by (intro det_intros)

section \<open>Two ways to write the same bytes\<close>

text \<open>A packed array on a sizing stream only adds the length computed before.\<close>

lemma wire_writer_sizing_shortcut:
  assumes "wire_writer f bs"
  shows "wire_writer (\<lambda>s. if is_sizing s then pb_write [] (word_of_nat (length bs)) s else f s) bs"
proof
  fix s :: pb_ostream
  assume "is_sizing s"
  then show "(if is_sizing s then pb_write [] (word_of_nat (length bs)) s else f s) =
      Ret () (s\<lparr>bytes_written := bytes_written s + word_of_nat (length bs)\<rparr>)"
    by (simp add: pb_write_def)
qed (use wire_writer.writing [OF assms] wire_writer.full [OF assms] in \<open>auto simp: is_sizing_def\<close>)

text \<open>The second pass of a submessage, into a substream of exactly its size.\<close>

lemma encode_measured_writes:
  assumes "wire_writer f bs" and "ocallback s = Buf_write" and "oerrmsg s = None"
    and "length bs < 2 ^ 64"
  shows "encode_measured f (word_of_nat (length bs)) s =
    Ret () (s\<lparr>ostate := ostate s @ bs, bytes_written := bytes_written s + word_of_nat (length bs)\<rparr>)"
  using wire_writer.writing [OF assms(1), of "submessage_stream s (word_of_nat (length bs))"] assms(2-4)
  by (simp add: encode_measured_def submessage_stream_def unat_of_nat statusC_def Let_def)

lemma wire_writer_submessage:
  assumes R: "wire_writer (R desc src) bs"
  shows "wire_writer (encode_submessage_with R desc src)
    (varint_bytes (word_of_nat (length bs)) @ bs)"
proof -
  let ?sz = "word_of_nat (length bs) :: u64"
  let ?body = "\<lambda>s. if is_sizing s then pb_write [] ?sz s
     else if bytes_written s + ?sz > max_size s then PB_RETURN_ERROR_o ''stream full'' s
     else encode_measured (R desc src) ?sz s"
  obtain t where "R desc src PB_OSTREAM_SIZING = Ret () t" and "bytes_written t = ?sz"
    using wire_writer.sizing [OF R, of PB_OSTREAM_SIZING]
    by (simp add: PB_OSTREAM_SIZING_def is_sizing_def)
  then have eq: "encode_submessage_with R desc src = bindC (pb_encode_varint ?sz) (\<lambda>_. ?body)"
    by (simp add: encode_submessage_with_def Let_def fun_eq_iff cong: if_cong)
  have "wire_writer ?body bs"
  proof
    fix s :: pb_ostream
    assume "is_sizing s"
    then show "?body s = Ret () (s\<lparr>bytes_written := bytes_written s + word_of_nat (length bs)\<rparr>)"
      by (simp add: pb_write_def)
  next
    fix s :: pb_ostream
    assume s: "ocallback s = Buf_write" "oerrmsg s = None"
      and room: "unat (bytes_written s) + length bs \<le> unat (max_size s)"
    then have small: "unat (bytes_written s) + length bs < 2 ^ 64"
      using unat_u64_less [of "max_size s"] by simp
    then have "\<not> bytes_written s + ?sz > max_size s"
      using room by (simp add: word_less_nat_alt unat_add_of_nat)
    moreover have "\<not> is_sizing s" using s by (simp add: is_sizing_def)
    ultimately show "?body s = Ret () (s\<lparr>ostate := ostate s @ bs,
        bytes_written := bytes_written s + word_of_nat (length bs)\<rparr>)"
      using encode_measured_writes [OF R s] small by simp
  next
    fix s :: pb_ostream
    assume s: "ocallback s = Buf_write" "oerrmsg s = None" "bytes_written s \<le> max_size s"
      and more: "unat (max_size s) < unat (bytes_written s) + length bs"
      and fits: "unat (bytes_written s) + length bs < 2 ^ 64"
    then have "bytes_written s + ?sz > max_size s"
      by (simp add: word_less_nat_alt unat_add_of_nat)
    then show "\<exists>s'. ?body s = Fail s'"
      using s by (simp add: is_sizing_def PB_RETURN_ERROR_o_def)
  qed
  then show ?thesis unfolding eq by (rule wire_writer_bind [OF vw.wire_writer_axioms])
qed

lemma det_submessage:
  assumes "determined (R desc src)"
  shows "determined (encode_submessage_with R desc src)"
  unfolding determined_def
proof (intro allI impI)
  fix s t
  assume "encode_submessage_with R desc src s = Ret () t"
  then obtain t' where "R desc src PB_OSTREAM_SIZING = Ret () t'"
    by (auto simp: encode_submessage_with_def split: outcome.splits)
  moreover have "is_sizing PB_OSTREAM_SIZING" by (simp add: is_sizing_def PB_OSTREAM_SIZING_def)
  ultimately obtain bs where "wire_writer (R desc src) bs"
    using determinedD [OF assms] by blast
  then have "wire_writer (encode_submessage_with R desc src)
      (varint_bytes (word_of_nat (length bs)) @ bs)" by (rule wire_writer_submessage)
  then show "\<exists>bs. wire_writer (encode_submessage_with R desc src) bs" ..
qed

section \<open>Field encoders\<close>

lemma length_c_strnlen: "c_strnlen m p k \<le> k"
  by (induction m p k rule: c_strnlen.induct) (subst c_strnlen.simps, auto)

lemma det_string: "unat sz \<le> length buf \<Longrightarrow> determined (pb_encode_string buf sz)"
  by (rule det_writer [OF wire_writer_string])

lemma det_PB_ENCODERS:
  assumes R: "\<And>desc src. determined (R desc src)"
  shows "determined (PB_ENCODERS R m lt f src)"
proof -
  have bytes: "determined (pb_enc_bytes m f src)"
    unfolding pb_enc_bytes_def Let_def by (intro det_intros det_string) simp_all
  have str: "determined (pb_enc_string m f src)"
  proof -
    let ?k = "if PB_ATYPE (ftype f) = PB_ATYPE_POINTER then 2 ^ 64 - 1 else unat (data_size f)"
    have "?k < 2 ^ 64" using unat_u32_less [of "data_size f"] by simp
    then have "c_strnlen m src ?k < 2 ^ 64" using length_c_strnlen [of m src ?k] by linarith
    then show ?thesis
      unfolding pb_enc_string_def Let_def by (intro det_string) (simp add: unat_of_nat)
  qed
  have fixed: "determined (pb_enc_fixed_length_bytes m f src)"
    unfolding pb_enc_fixed_length_bytes_def
    by (intro det_string) (simp add: unsigned_ucast_eq take_bit_nat_eq_self unat_u32_less
        less_trans [OF unat_u32_less])
  have sub: "determined (pb_enc_submessage R m f src)"
    unfolding pb_enc_submessage_def
    by (auto intro!: det_intros det_submessage R split: ptr_target.split)
  show ?thesis
    unfolding PB_ENCODERS_def
    by (simp only: if_distribR)
      (intro det_if bytes str fixed sub det_intros,
        auto intro!: det_intros simp: pb_enc_bool_def pb_enc_varint_def pb_enc_uvarint_def
          pb_enc_svarint_def pb_enc_fixed32_def pb_enc_fixed64_def)
qed

text \<open>Arrays.\<close>

lemma encode_entries_simps:
  "encode_entries func f 0 p = returnC ()"
  "encode_entries func f (Suc k) p =
     bindC (func p) (\<lambda>_. encode_entries func f k (p + uint (data_size f)))"
  by (simp_all add: encode_entries_def bindC_assoc)

lemma det_encode_entries [det_intros]:
  "(\<And>p. determined (func p)) \<Longrightarrow> determined (encode_entries func f k p)"
  by (induction k arbitrary: p) (auto simp: encode_entries_simps intro: det_intros)

lemma entries_fixed:
  assumes "\<And>p. \<exists>bs. wire_writer (func p) bs \<and> length bs = c"
  shows "\<exists>bs. wire_writer (encode_entries func f k p) bs \<and> length bs = c * k"
proof (induction k arbitrary: p)
  case 0
  show ?case using wire_writer_return by (auto simp: encode_entries_simps)
next
  case (Suc k)
  obtain bs where bs: "wire_writer (func p) bs" "length bs = c" using assms by blast
  obtain cs where cs: "wire_writer (encode_entries func f k (p + uint (data_size f))) cs"
    "length cs = c * k" using Suc by blast
  show ?case
    unfolding encode_entries_simps
    using wire_writer_bind [OF bs(1) cs(1)] bs(2) cs(2) by (intro exI [of _ "bs @ cs"]) simp
qed

lemma det_packed:
  assumes e: "wire_writer e es"
  shows "determined (bindC (pb_encode_tag wt t) (\<lambda>_. bindC (pb_encode_varint (word_of_nat (length es)))
    (\<lambda>_ s. if is_sizing s then pb_write [] (word_of_nat (length es)) s else e s)))"
  by (intro det_bind det_scalars det_writer [OF wire_writer_sizing_shortcut [OF e]])

lemma det_sized:
  assumes e: "determined e"
  shows "determined (bindC (pb_encode_tag wt t) (\<lambda>_. bindC (sized e) (\<lambda>sz. bindC (pb_encode_varint sz)
    (\<lambda>_ s. if is_sizing s then pb_write [] sz s else e s))))" (is "determined (bindC ?tag (\<lambda>_. ?rest))")
  unfolding determined_def
proof (intro allI impI)
  fix s t'
  assume "bindC ?tag (\<lambda>_. ?rest) s = Ret () t'"
  then obtain sz s1 s2 where sz: "sized e s1 = Ret sz (s2 :: pb_ostream)"
    unfolding bindC_eq_Ret by blast
  obtain u where u: "e PB_OSTREAM_SIZING = Ret () u"
    using sz by (cases "e PB_OSTREAM_SIZING") (simp_all add: sized_def)
  moreover have z: "is_sizing PB_OSTREAM_SIZING" by (simp add: is_sizing_def PB_OSTREAM_SIZING_def)
  ultimately obtain es where es: "wire_writer e es" using determinedD [OF e] by blast
  have "u = PB_OSTREAM_SIZING\<lparr>bytes_written := word_of_nat (length es)\<rparr>"
    using wire_writer.sizing [OF es z] u by (simp add: PB_OSTREAM_SIZING_def)
  then have "(sized e :: (pb_ostream, u64) cmd) = returnC (word_of_nat (length es))"
    using u by (simp add: sized_def fun_eq_iff)
  then show "\<exists>bs. wire_writer (bindC ?tag (\<lambda>_. ?rest)) bs"
    using wire_writer_bind [OF tw.wire_writer_axioms [of wt t] wire_writer_bind [OF vw.wire_writer_axioms
          wire_writer_sizing_shortcut [OF es]]] by auto
qed

text \<open>For fixed-width entries the size is computed without a pass over the array.\<close>

lemma fixed_entries:
  "PB_ENCODERS R m PB_LTYPE_FIXED32 f = pb_enc_fixed32 m f"
  "PB_ENCODERS R m PB_LTYPE_FIXED64 f = pb_enc_fixed64 m f"
  by (simp_all add: PB_ENCODERS_def pb_consts)

lemma fixed_length: "length (fixed32_bytes v) = 4" "length (fixed64_bytes w) = 8"
  by (simp_all add: fixed32_bytes_def fixed64_bytes_def)

lemma det_encode_array:
  assumes R: "\<And>desc src. determined (R desc src)"
  shows "determined (encode_array m (PB_ENCODERS R m (PB_LTYPE (ftype f))) f p count)"
proof -
  let ?lt = "PB_LTYPE (ftype f)"
  let ?func = "PB_ENCODERS R m ?lt"
  let ?e = "encode_entries (?func f) f (unat count) p"
  have e: "determined ?e" by (intro det_intros det_PB_ENCODERS R)
  have c: "word_of_nat (k * unat count) = (of_nat k * ucast count :: u64)" for k
    by (simp add: word_unat_eq_iff unat_word_ariths unat_of_nat unsigned_ucast_eq)
  have fix_size: "determined (bindC (pb_encode_tag wt t) (\<lambda>_. bindC (pb_encode_varint (of_nat k * ucast count))
      (\<lambda>_ s. if is_sizing s then pb_write [] (of_nat k * ucast count) s else ?e s)))"
    if w: "\<And>p. \<exists>bs. wire_writer (?func f p) bs \<and> length bs = k" for wt t k
  proof -
    obtain es where es: "wire_writer ?e es" "length es = k * unat count"
      using entries_fixed [where func = "?func f", OF w, where f = f and k = "unat count" and p = p]
      by blast
    then show ?thesis using det_packed [OF es(1), of wt t] by (simp only: es(2) c)
  qed
  have packed: "determined (bindC (pb_encode_tag PB_WT_STRING (ftag f)) (\<lambda>_.
        bindC (if ?lt = PB_LTYPE_FIXED32 then returnC (4 * ucast count)
               else if ?lt = PB_LTYPE_FIXED64 then returnC (8 * ucast count)
               else sized ?e) (\<lambda>sz.
        bindC (pb_encode_varint sz) (\<lambda>_ s. if is_sizing s then pb_write [] sz s else ?e s))))"
  proof (cases "?lt = PB_LTYPE_FIXED32 \<or> ?lt = PB_LTYPE_FIXED64")
    case True
    then show ?thesis
    proof
      assume a: "?lt = PB_LTYPE_FIXED32"
      have "\<exists>bs. wire_writer (?func f p) bs \<and> length bs = 4" for p
        unfolding a fixed_entries pb_enc_fixed32_def
        using f32w.wire_writer_axioms fixed_length by blast
      from fix_size [OF this, unfolded of_nat_numeral] a show ?thesis by simp
    next
      assume a: "?lt = PB_LTYPE_FIXED64"
      have "\<exists>bs. wire_writer (?func f p) bs \<and> length bs = 8" for p
        unfolding a fixed_entries pb_enc_fixed64_def
        using f64w.wire_writer_axioms fixed_length by blast
      from fix_size [OF this, unfolded of_nat_numeral] a show ?thesis by (simp add: pb_consts)
    qed
  next
    case False
    then show ?thesis using det_sized [OF e] by simp
  qed
  show ?thesis
    unfolding encode_array_def Let_def
    by (intro det_if packed det_intros det_PB_ENCODERS R)
qed

section \<open>Fields\<close>

lemma implicit_has_cases:
  "(\<exists>b. implicit_has m n f p = returnC b) \<or> implicit_has m n f p = stuckC"
  by (cases "pb_check_proto3_default_value m n f p ()")
    (auto simp: implicit_has_def stuckC_def fun_eq_iff)

lemma det_encode_basic_field:
  assumes R: "\<And>desc src. determined (R desc src)"
  shows "determined (encode_basic_field m n R f p)"
proof -
  have stuck: "bindC stuckC g = stuckC" for g :: "bool \<Rightarrow> (pb_ostream, unit) cmd"
    by (simp add: bindC_def stuckC_def)
  show ?thesis
    using implicit_has_cases [of m "Suc n" f p] unfolding encode_basic_field_def Let_def
    by (elim disjE exE; simp only: bindC_returnC stuck)
      (intro det_intros det_PB_ENCODERS det_encode_array R)+
qed

text \<open>The user's callbacks and extension handlers are assumed determined.\<close>

definition enc_env_det :: "eenv \<Rightarrow> bool" where
  "enc_env_det E \<longleftrightarrow> (\<forall>fn f a. determined (encode_cb E fn f a)) \<and>
     (\<forall>p h ext. type_encode E p = Some h \<longrightarrow> determined (h ext))"

lemma det_encode_callback_field:
  assumes "enc_env_det E"
  shows "determined (encode_callback_field E m f p)"
proof -
  let ?fn = "load_ptr m (p + callback_funcs)"
  let ?cb = "encode_cb E ?fn f (p + callback_arg)"
  let ?w = "\<lambda>s. case ?cb s of Ret u t \<Rightarrow> Ret () t | Fail t \<Rightarrow> PB_RETURN_ERROR_o ''callback error'' t
    | Stuck \<Rightarrow> Stuck"
  have "determined ?w"
    unfolding determined_def
  proof (intro allI impI)
    fix s t
    assume s: "is_sizing s" and "?w s = Ret () t"
    then have "?cb s = Ret () t" by (auto simp: PB_RETURN_ERROR_o_def split: outcome.splits)
    moreover have "determined ?cb" using assms by (simp add: enc_env_det_def)
    ultimately obtain bs where bs: "wire_writer ?cb bs" using determinedD s by blast
    have "wire_writer ?w bs"
      by unfold_locales
        (use wire_writer.sizing [OF bs] wire_writer.writing [OF bs] wire_writer.full [OF bs] in
          \<open>fastforce simp: PB_RETURN_ERROR_o_def\<close>)+
    then show "\<exists>bs. wire_writer ?w bs" ..
  qed
  then show ?thesis
    unfolding encode_callback_field_def Let_def by (intro det_intros)
qed

lemma det_encode_field:
  assumes "enc_env_det E" and R: "\<And>desc src. determined (R desc src)"
  shows "determined (encode_field E m n R f p)"
  unfolding encode_field_def Let_def
  by (intro det_intros det_encode_basic_field det_encode_callback_field assms)

lemma det_encode_extension_field:
  assumes E: "enc_env_det E" and R: "\<And>desc src. determined (R desc src)"
  shows "determined (encode_extension_field E m n R f p)"
proof -
  let ?body = "\<lambda>ext. case type_encode E (load_ptr m (ext + extension_type)) of
      Some h \<Rightarrow> h ext | None \<Rightarrow> default_extension_encoder E m n R ext"
  let ?loop = "loopC (\<lambda>ext s. ext \<noteq> 0)
      (\<lambda>ext. bindC (?body ext) (\<lambda>_. returnC (load_ptr m (ext + extension_next))))"
  let ?walk = "\<lambda>ext. bindC (?loop ext) (\<lambda>_. returnC ())"
  have body: "determined (?body ext)" for ext
    using E unfolding default_extension_encoder_def Let_def
    by (intro det_intros det_encode_field assms) (simp add: enc_env_det_def)
  have stop: "?walk ext = returnC ()" if "ext = 0" for ext
    using that by (simp add: fun_eq_iff bindC_def loopC_unfold)
  have step: "?walk ext = bindC (?body ext) (\<lambda>_. ?walk (load_ptr m (ext + extension_next)))"
    if "ext \<noteq> 0" for ext
    using that by (simp add: fun_eq_iff bindC_def loopC_unfold [of _ _ ext] split: outcome.split)
  have walk: "is_sizing s \<longrightarrow> (\<exists>bs. wire_writer (?walk ext) bs)" if "?loop ext s = Ret y t" for ext s y t
    using that
  proof (induction rule: loopC_Ret_induct)
    case (stop ext s)
    then show ?case using wire_writer_return \<open>\<And>ext. ext = 0 \<Longrightarrow> _\<close> by auto
  next
    case (step ext s ext' s' y t)
    show ?case
    proof
      assume s: "is_sizing s"
      obtain u where b: "?body ext s = Ret u s'" and e: "ext' = load_ptr m (ext + extension_next)"
        using step(2) by (auto simp: bindC_eq_Ret)
      obtain bs where bs: "wire_writer (?body ext) bs" using determinedD [OF body s] b by auto
      obtain cs where "wire_writer (?walk ext') cs"
        using step(4) writer_keeps_sizing [OF bs s] b by auto
      with bs have "wire_writer (?walk ext) (bs @ cs)"
        using \<open>\<And>ext. ext \<noteq> 0 \<Longrightarrow> _\<close> [of ext] step(1) wire_writer_bind e by simp
      then show "\<exists>bs. wire_writer (?walk ext) bs" ..
    qed
  qed
  show ?thesis
    unfolding encode_extension_field_def determined_def
    using walk by (fastforce simp: bindC_eq_Ret)
qed

section \<open>Messages\<close>

lemma det_each_field:
  "(\<And>it. determined (body it)) \<Longrightarrow> determined (each_field body its)"
  by (induction its) (auto intro: det_intros)

lemma det_encode_message:
  assumes "enc_env_det E" and R: "\<And>desc src. determined (R desc src)"
  shows "determined (encode_message E m n R desc src)"
proof (cases "0 < num_fields desc")
  case True
  let ?body = "\<lambda>it. if PB_LTYPE (ftype (cur it)) = PB_LTYPE_EXTENSION
      then encode_extension_field E m n R (cur it) (pData it)
      else encode_field E m n R (cur it) (pData it)"
  have "encode_message E m n R desc src =
      each_field ?body (map (iter_at desc src) [0..<num_fields desc])"
    using True iter_loop_all [OF True, of ?body src]
    by (simp add: encode_message_def Let_def case_prod_unfold fun_eq_iff)
  moreover have "determined (?body it)" for it
    by (intro det_if det_encode_extension_field det_encode_field assms)
  ultimately show ?thesis by (simp only: det_each_field)
next
  case False
  then show ?thesis by (simp add: encode_message_def Let_def case_prod_unfold det_basic)
qed

lemma det_pb_encode:
  assumes "enc_env_det E"
  shows "determined (pb_encode E m n desc src)"
proof (induction n arbitrary: desc src)
  case 0
  show ?case by (simp only: pb_encode.simps det_basic)
next
  case (Suc n)
  then show ?case unfolding pb_encode.simps by (intro det_encode_message assms)
qed

end
