(* ===== verification/PbEncodeTotal.thy ===== *)
theory PbEncodeTotal
  imports PbEncode PbDescriptors
begin

text \<open>
  Encoding comes back: for every descriptor array whose submessages are nested at most
  \<open>n\<close> deep, \<open>pb_encode\<close> with depth \<open>n\<close> ends with true or false on every stream and
  every memory, as long as the user's callbacks do.
\<close>

definition enc_answers :: "eenv \<Rightarrow> bool" where
  "enc_answers E \<longleftrightarrow> (\<forall>fn f a. answers (\<lambda>u. True) (encode_cb E fn f a))"

lemma answers_state_if [answers_intros]:
  "answers P f \<Longrightarrow> answers P g \<Longrightarrow> answers P (\<lambda>s. if b s then f s else g s)"
  by (auto simp: answers_def)

lemma answers_error_o [answers_intros]: "answers P (PB_RETURN_ERROR_o msg)"
  by (simp add: answers_def PB_RETURN_ERROR_o_def)

lemma answers_pb_write [answers_intros]: "answers (\<lambda>u. True) (pb_write buf count)"
  by (auto simp: answers_def pb_write_def PB_RETURN_ERROR_o_def ostream_callback_def is_sizing_def
      buf_write_def split: ocallback.splits prod.splits bool.splits outcome.splits)

lemma answers_scalars [answers_intros]:
  "answers (\<lambda>u. True) (pb_encode_varint v)" "answers (\<lambda>u. True) (pb_encode_svarint v)"
  "answers (\<lambda>u. True) (pb_encode_fixed32 w)" "answers (\<lambda>u. True) (pb_encode_fixed64 v)"
  "answers (\<lambda>u. True) (pb_encode_tag wt t)" "answers (\<lambda>u. True) (pb_encode_string bs v)"
  unfolding pb_encode_varint_def pb_encode_svarint_def pb_encode_fixed32_def pb_encode_fixed64_def
    pb_encode_tag_def pb_encode_string_def Let_def
  by (intro answers_intros)+

lemma answers_tag_for_field [answers_intros]: "answers (\<lambda>u. True) (pb_encode_tag_for_field f)"
  unfolding pb_encode_tag_for_field_def Let_def by (intro answers_intros)

lemma answers_encode_measured:
  "answers (\<lambda>u. True) f \<Longrightarrow> answers (\<lambda>u. True) (encode_measured f sz)"
  by (auto simp: answers_def encode_measured_def Let_def PB_RETURN_ERROR_o_def statusC_def
      split: outcome.splits)

lemma answers_submessage:
  assumes "answers (\<lambda>u. True) (R desc src)"
  shows "answers (\<lambda>u. True) (encode_submessage_with R desc src)"
proof -
  have tail: "answers (\<lambda>u. True) (bindC (pb_encode_varint sz) (\<lambda>_ s.
      if is_sizing s then pb_write [] sz s
      else if bytes_written s + sz > max_size s then PB_RETURN_ERROR_o ''stream full'' s
      else encode_measured (R desc src) sz s))" for sz
    by (intro answers_intros answers_encode_measured assms)
  show ?thesis
    using answers_not_Stuck [OF assms] answers_not_Stuck [OF tail]
    by (auto simp: answers_def encode_submessage_with_def Let_def split: outcome.split)
qed

lemma answers_option [answers_intros]:
  "answers P f \<Longrightarrow> (\<And>v. answers P (g v)) \<Longrightarrow> answers P (case ov of None \<Rightarrow> f | Some v \<Rightarrow> g v)"
  by (cases ov) auto

lemma answers_enc [answers_intros]:
  "answers (\<lambda>u. True) (pb_enc_bool m f p)" "answers (\<lambda>u. True) (pb_enc_varint m f p)"
  "answers (\<lambda>u. True) (pb_enc_uvarint m f p)" "answers (\<lambda>u. True) (pb_enc_svarint m f p)"
  "answers (\<lambda>u. True) (pb_enc_fixed32 m f p)" "answers (\<lambda>u. True) (pb_enc_fixed64 m f p)"
  "answers (\<lambda>u. True) (pb_enc_bytes m f p)" "answers (\<lambda>u. True) (pb_enc_string m f p)"
  "answers (\<lambda>u. True) (pb_enc_fixed_length_bytes m f p)"
  unfolding pb_enc_bool_def pb_enc_varint_def pb_enc_uvarint_def pb_enc_svarint_def pb_enc_fixed32_def
    pb_enc_fixed64_def pb_enc_bytes_def pb_enc_string_def pb_enc_fixed_length_bytes_def Let_def
  by (intro answers_intros)+

lemma answers_PB_ENCODERS:
  assumes f: "field_ok (desc_ok n) f" "PB_ATYPE (ftype f) \<noteq> PB_ATYPE_CALLBACK"
    and R: "\<And>desc src. desc_ok n desc \<Longrightarrow> answers (\<lambda>u. True) (R desc src)"
  shows "answers (\<lambda>u. True) (PB_ENCODERS R m (PB_LTYPE (ftype f)) f p)"
proof (cases "PB_LTYPE (ftype f) = PB_LTYPE_SUBMESSAGE")
  case True
  then obtain sub where "fptr f = Fields_ptr sub" "desc_ok n sub"
    using field_ok_sub [OF f(1)] f(2) by auto
  then have "answers (\<lambda>u. True) (pb_enc_submessage R m f p)"
    by (simp add: pb_enc_submessage_def with_fields_def answers_submessage R)
  with True show ?thesis by (simp add: PB_ENCODERS_def pb_consts)
next
  case False
  have "PB_LTYPE (ftype f) \<le> PB_LTYPE_FIXED_LENGTH_BYTES" "PB_LTYPE (ftype f) \<noteq> PB_LTYPE_EXTENSION"
    using f(1) by (auto simp: field_ok_def Let_def)
  then have known: "unat (PB_LTYPE (ftype f)) \<le> 10" "unat (PB_LTYPE (ftype f)) \<noteq> 9"
    by (auto simp: pb_consts word_le_nat_alt word_unat_eq_iff)
  have "PB_LTYPE (ftype f) \<in> {PB_LTYPE_BOOL, PB_LTYPE_VARINT, PB_LTYPE_UVARINT, PB_LTYPE_SVARINT,
      PB_LTYPE_FIXED32, PB_LTYPE_FIXED64, PB_LTYPE_BYTES, PB_LTYPE_STRING, PB_LTYPE_FIXED_LENGTH_BYTES}"
  proof -
    let ?k = "unat (PB_LTYPE (ftype f))"
    have "?k \<noteq> 8" using False by (auto simp: pb_consts word_unat_eq_iff)
    with known have "?k = 0 \<or> ?k = 1 \<or> ?k = 2 \<or> ?k = 3 \<or> ?k = 4 \<or> ?k = 5 \<or> ?k = 6 \<or> ?k = 7 \<or> ?k = 10"
      by arith
    then show ?thesis by (auto simp: pb_consts word_unat_eq_iff)
  qed
  then show ?thesis
    by (auto simp: PB_ENCODERS_def pb_consts intro: answers_enc)
qed

section \<open>Arrays and presence\<close>

lemma answers_encode_entries:
  "(\<And>p. answers (\<lambda>u. True) (func p)) \<Longrightarrow> answers (\<lambda>u. True) (encode_entries func f k p)"
  unfolding encode_entries_def by (intro answers_intros)

lemma answers_sized: "answers (\<lambda>u. True) f \<Longrightarrow> answers (\<lambda>u. True) (sized f)"
  by (auto simp: answers_def sized_def split: outcome.splits dest: spec [of _ PB_OSTREAM_SIZING])

lemma answers_encode_array:
  assumes "\<And>p. answers (\<lambda>u. True) (func f p)"
  shows "answers (\<lambda>u. True) (encode_array m func f p count)"
  unfolding encode_array_def Let_def
  by (intro answers_intros answers_encode_entries answers_sized assms)

lemma answers_proto3_body:
  assumes f: "field_ok (desc_ok n) f"
    and sub: "\<And>f p. field_ok (desc_ok (n - 1)) f \<Longrightarrow> n \<noteq> 0 \<Longrightarrow> answers (\<lambda>u. True) (check f p)"
  shows "answers (\<lambda>u. True) (proto3_default_body m check f p)"
proof -
  have "answers (\<lambda>u. True) (with_fields f (\<lambda>desc. let (ok, it) = pb_field_iter_begin desc p
      in if ok then iter_loop (\<lambda>it. check (cur it) (pData it)) it else statusC True))"
    if lt: "PB_ATYPE (ftype f) = PB_ATYPE_STATIC \<and> PB_LTYPE (ftype f) = PB_LTYPE_SUBMESSAGE"
  proof -
    obtain desc where d: "fptr f = Fields_ptr desc" "desc_ok n desc"
      using field_ok_sub [OF f] lt by (auto simp: pb_consts)
    obtain k where k: "n = Suc k" using d(2) by (cases n) auto
    obtain ok it where b: "pb_field_iter_begin desc p = (ok, it)" by fastforce
    then have it: "start it = desc" by (metis iter_begin_simps(2) snd_conv)
    show ?thesis
    proof (rule answers_with_fields [OF d(1)])
      show "answers (\<lambda>u. True) (let (ok, it) = pb_field_iter_begin desc p
          in if ok then iter_loop (\<lambda>it. check (cur it) (pData it)) it else statusC True)"
        unfolding b Let_def prod.case
        by (intro answers_intros answers_iter_loop [where desc = desc] sub it)
          (use k d(2) cur_ok [of k desc] in auto)
    qed
  qed
  then show ?thesis
    unfolding proto3_default_body_def Let_def by (intro answers_intros) auto
qed

lemma answers_proto3:
  "field_ok (desc_ok n) f \<Longrightarrow> answers (\<lambda>u. True) (pb_check_proto3_default_value m (Suc n) f p)"
proof (induction n arbitrary: f p)
  case 0
  show ?case
    by (simp only: pb_check_proto3_default_value.simps) (rule answers_proto3_body [OF 0], simp)
next
  case (Suc n)
  show ?case
    by (simp only: pb_check_proto3_default_value.simps(2) [of m "Suc n"],
        rule answers_proto3_body [OF Suc.prems]) (simp only: diff_Suc_1 Suc.IH)
qed

section \<open>Messages\<close>

lemma answers_implicit_has:
  assumes "field_ok (desc_ok n) f"
  shows "answers (\<lambda>b. True) (implicit_has m (Suc n) f p)"
  using answers_not_Stuck [OF answers_proto3 [OF assms], of m p "()"]
  by (auto simp: implicit_has_def answers_def split: outcome.split)

lemma answers_encode_basic_field:
  assumes f: "field_ok (desc_ok n) f" "PB_ATYPE (ftype f) \<noteq> PB_ATYPE_CALLBACK"
    and R: "\<And>desc src. desc_ok n desc \<Longrightarrow> answers (\<lambda>u. True) (R desc src)"
  shows "answers (\<lambda>u. True) (encode_basic_field m n R f p)"
proof -
  let ?ht = "PB_HTYPE (ftype f)"
  have "?ht = PB_HTYPE_REQUIRED \<or> ?ht = PB_HTYPE_OPTIONAL \<or> ?ht = PB_HTYPE_REPEATED \<or> ?ht = PB_HTYPE_ONEOF"
    by (rule pb_htype_cases)
  then have oneof: "size_offset f \<noteq> 0"
    if "?ht \<noteq> PB_HTYPE_REQUIRED" "?ht \<noteq> PB_HTYPE_OPTIONAL" "?ht \<noteq> PB_HTYPE_REPEATED"
    using that f(1) by (auto simp: field_ok_def Let_def)
  show ?thesis
    unfolding encode_basic_field_def Let_def
    by (rule answers_bind_any [OF answers_implicit_has [OF f(1)]])
      (intro answers_intros answers_PB_ENCODERS [OF f R] answers_encode_array; (simp add: oneof)?)
qed

lemma answers_encode_field:
  assumes "enc_answers E" and f: "field_ok (desc_ok n) f"
    and R: "\<And>desc src. desc_ok n desc \<Longrightarrow> answers (\<lambda>u. True) (R desc src)"
  shows "answers (\<lambda>u. True) (encode_field E m n R f p)"
proof -
  have "answers (\<lambda>u. True) (encode_callback_field E m f p)"
    using assms(1)
    by (auto simp: encode_callback_field_def enc_answers_def answers_def PB_RETURN_ERROR_o_def Let_def
        split: outcome.splits)
  then show ?thesis
    unfolding encode_field_def Let_def
    by (intro answers_intros answers_encode_basic_field f R) (auto simp: pb_consts)
qed

lemma answers_pb_encode:
  assumes "enc_answers E"
  shows "desc_ok n desc \<Longrightarrow> answers (\<lambda>u. True) (pb_encode E m n desc src)"
proof (induction n arbitrary: desc src)
  case 0
  then show ?case by simp
next
  case (Suc n)
  obtain ok it where b: "pb_field_iter_begin desc src = (ok, it)" by fastforce
  then have it: "start it = desc" by (metis iter_begin_simps(2) snd_conv)
  have step: "answers (\<lambda>u. True) (if PB_LTYPE (ftype (cur jt)) = PB_LTYPE_EXTENSION
      then encode_extension_field E m n (pb_encode E m n) (cur jt) (pData jt)
      else encode_field E m n (pb_encode E m n) (cur jt) (pData jt))" if "start jt = desc" for jt
  proof -
    have ok: "field_ok (desc_ok n) (cur jt)" by (rule cur_ok [OF Suc.prems that])
    then have "PB_LTYPE (ftype (cur jt)) \<noteq> PB_LTYPE_EXTENSION" by (auto simp: field_ok_def Let_def)
    then show ?thesis using answers_encode_field [OF assms ok Suc.IH] by simp
  qed
  show ?case
    unfolding pb_encode.simps encode_message_def b Let_def prod.case
    by (rule answers_if, rule answers_iter_loop [OF step it]) (simp_all add: answers_def)
qed

lemma answers_pb_encode_submessage:
  "enc_answers E \<Longrightarrow> desc_ok n desc \<Longrightarrow> answers (\<lambda>u. True) (pb_encode_submessage E m n desc src)"
  unfolding pb_encode_submessage_def by (intro answers_submessage answers_pb_encode)

end
