(* ===== verification/WireCodec.thy ===== *)
theory WireCodec
  imports IStream OStream
begin

text \<open>
  The two sides of the wire format together: reading back what was written. The contract
  \<open>wire_codec\<close> relates an encoder's byte string to the decoder, its consequences
  (injective, self-delimiting, sequences) are proved once, and the varints, zigzag varints,
  fixed-width values, booleans and length-prefixed strings of the library meet it.
\<close>

section \<open>Reading known bytes\<close>

definition advance :: "pb_istream \<Rightarrow> byte list \<Rightarrow> nat \<Rightarrow> pb_istream" where
  "advance s rest n = s\<lparr>istate := rest, bytes_left := bytes_left s - n\<rparr>"

lemma advance_simps [simp]:
  "icallback (advance s rest n) = icallback s" "istate (advance s rest n) = rest"
  "bytes_left (advance s rest n) = bytes_left s - n" "ierrmsg (advance s rest n) = ierrmsg s"
  "is_buf (advance s rest n) = is_buf s"
  "advance (advance s rest n) rest' k = advance s rest' (n + k)"
  by (simp_all add: advance_def is_buf_def)

lemma buf_callback: "is_buf s \<Longrightarrow> stream_callback b n s = buf_read b n s"
  by (cases "icallback s") (simp_all add: stream_callback_def is_buf_def)

lemma pb_read_known:
  assumes "is_buf s" and "istate s = bs @ rest" and "length bs \<le> bytes_left s"
  shows "pb_read b (length bs) s = Ret (if b then bs else []) (advance s rest (length bs))"
  using assms
  by (auto simp: pb_read_def pb_read_direct_def buf_callback buf_read_def fill_buf_def advance_def)

lemma pb_readbyte_known:
  assumes "is_buf s" and "istate s = b # rest" and "0 < bytes_left s"
  shows "pb_readbyte s = Ret b (advance s rest 1)"
  using assms
  by (auto simp: pb_readbyte_def buf_callback buf_read_def fill_buf_def advance_def)

lemma pb_readbyte_eof: "bytes_left s = 0 \<Longrightarrow> \<exists>s'. pb_readbyte s = Fail s' \<and> bytes_left s' = 0"
  by (simp add: pb_readbyte_def PB_RETURN_ERROR_def PB_SET_ERROR_def)

lemma pb_read_short: "is_buf s \<Longrightarrow> bytes_left s < n \<Longrightarrow> \<exists>s'. pb_read b n s = Fail s'"
  by (auto simp: pb_read_def pb_read_direct_def PB_RETURN_ERROR_def)

section \<open>Varints, 64 bits\<close>

lemma take_join:
  "take_bit k w OR push_bit k (take_bit n (drop_bit k w)) = take_bit (k + n) (w :: 'a::len word)"
proof (rule bit_word_eqI)
  fix i
  assume "i < LENGTH('a)"
  then show "bit (take_bit k w OR push_bit k (take_bit n (drop_bit k w))) i =
      bit (take_bit (k + n) w) i"
    by (cases "i < k") (auto simp: bit_simps)
qed

lemma join_seven:
  "push_bit n (take_bit 7 v) OR push_bit (n + 7) (drop_bit 7 v) = push_bit n (v :: 'a::len word)"
proof -
  have "take_bit 7 v OR push_bit 7 (drop_bit 7 v) = v"
  proof (rule bit_word_eqI)
    fix i
    assume "i < LENGTH('a)"
    then show "bit (take_bit 7 v OR push_bit 7 (drop_bit 7 v)) i = bit v i"
      by (cases "i < 7") (auto simp: bit_simps)
  qed
  then show ?thesis by (metis push_bit_or push_bit_push_bit)
qed

lemma varint_byte_data:
  "ucast ((ucast (take_bit 7 (v :: u64)) OR 0x80 :: byte) AND 0x7F) = (take_bit 7 (ucast v) :: 'a::len word)"
  unfolding byte_bits by (rule bit_word_eqI) (auto simp: bit_simps)

lemma varint_byte_flag: "(ucast (take_bit 7 (v :: u64)) OR 0x80 :: byte) AND 0x80 \<noteq> 0"
  unfolding byte_bits by (simp add: bit_simps)

lemma small_byte:
  assumes "v \<le> 0x7F"
  shows "(ucast (v :: u64) :: byte) AND 0x80 = 0" and "ucast ((ucast v :: byte) AND 0x7F) = v"
    and "(ucast v :: byte) AND 0x7F = ucast v"
proof -
  have t: "take_bit 7 v = v" by (rule low_bits_small [OF assms])
  then have z: "bit v n \<Longrightarrow> n < 7" for n by (metis bit_take_bit_iff)
  show "(ucast v :: byte) AND 0x80 = 0"
    unfolding byte_bits using z by (auto simp: bit_simps)
  show "ucast ((ucast v :: byte) AND 0x7F) = v"
    unfolding byte_bits by (rule bit_word_eqI) (use z in \<open>auto simp: bit_simps dest: z\<close>)
  show "(ucast v :: byte) AND 0x7F = ucast v"
    unfolding byte_bits by (rule bit_word_eqI) (use z in \<open>auto simp: bit_simps dest: z\<close>)
qed

lemma unat_bitpos: "unat (bp :: 8 word) < 249 \<Longrightarrow> unat (bp + 7) = unat bp + 7"
  by (simp add: unat_word_ariths)

lemma varint_loop_known:
  assumes "is_buf s" and "istate s = varint_bytes v @ rest"
    and "length (varint_bytes v) \<le> bytes_left s"
    and "unat bp + 7 * length (varint_bytes v) < 71"
  shows "varint_loop bp r s =
    Ret (r OR push_bit (unat bp) v) (advance s rest (length (varint_bytes v)))"
  using assms
proof (induction v arbitrary: bp r s rule: varint_bytes.induct)
  case (1 v)
  show ?case
  proof (cases "v \<le> 0x7F")
    case True
    then have vb: "varint_bytes v = [ucast v]" by (subst varint_bytes.simps) simp
    with 1 have "\<not> bp \<ge> 64" by (simp add: word_le_nat_alt)
    then show ?thesis
      using 1 vb small_byte [OF True]
      by (subst varint_loop.simps) (simp add: pb_readbyte_known Let_def)
  next
    case False
    let ?b = "ucast (v AND 0x7F) OR 0x80 :: byte"
    let ?t = "advance s (varint_bytes (drop_bit 7 v) @ rest) 1"
    have vb: "varint_bytes v = ?b # varint_bytes (drop_bit 7 v)"
      using False by (subst varint_bytes.simps) simp
    have len: "length (varint_bytes (drop_bit 7 v)) > 0" by simp
    have bp: "\<not> bp \<ge> 64" and bp7: "unat (bp + 7) = unat bp + 7"
      using 1(5) len by (auto simp: vb word_le_nat_alt unat_bitpos)
    have rb: "pb_readbyte s = Ret ?b ?t"
      using 1 vb by (intro pb_readbyte_known) auto
    have data: "ucast (?b AND 0x7F) = take_bit 7 v"
      unfolding and_7F [of v] by (simp add: varint_byte_data)
    have flag: "?b AND 0x80 \<noteq> 0"
      unfolding and_7F [of v] by (rule varint_byte_flag)
    have IH: "varint_loop (bp + 7) (r OR push_bit (unat bp) (take_bit 7 v)) ?t =
      Ret ((r OR push_bit (unat bp) (take_bit 7 v)) OR push_bit (unat bp + 7) (drop_bit 7 v))
        (advance ?t rest (length (varint_bytes (drop_bit 7 v))))"
      unfolding bp7 [symmetric]
      using 1 False by (intro "1.IH") (auto simp: vb bp7)
    show ?thesis
      using bp rb data flag IH
      by (subst varint_loop.simps) (simp add: Let_def vb or.assoc join_seven)
  qed
qed

lemma pb_decode_varint_known:
  assumes "is_buf s" and "istate s = varint_bytes v @ rest"
    and "length (varint_bytes v) \<le> bytes_left s"
  shows "pb_decode_varint s = Ret v (advance s rest (length (varint_bytes v)))"
  using varint_loop_known [OF assms, of 0 0] varint_bytes_length [of v]
  by (simp add: pb_decode_varint_def)

lemma varint_loop_short:
  assumes "is_buf s" and "istate s = varint_bytes v @ rest"
    and "bytes_left s < length (varint_bytes v)"
  shows "\<exists>s'. varint_loop bp r s = Fail s'"
  using assms
proof (induction v arbitrary: bp r s rule: varint_bytes.induct)
  case (1 v)
  show ?case
  proof (cases "64 \<le> bp \<or> bytes_left s = 0")
    case True
    then show ?thesis
      using pb_readbyte_eof [of s]
      by (subst varint_loop.simps) (auto simp: PB_RETURN_ERROR_def)
  next
    case False
    let ?b = "ucast (v AND 0x7F) OR 0x80 :: byte"
    let ?t = "advance s (varint_bytes (drop_bit 7 v) @ rest) 1"
    have "\<not> v \<le> 0x7F"
      using 1(4) False by (subst (asm) varint_bytes.simps) (auto split: if_splits)
    then have vb: "varint_bytes v = ?b # varint_bytes (drop_bit 7 v)"
      by (subst varint_bytes.simps) simp
    have rb: "pb_readbyte s = Ret ?b ?t"
      using 1 vb False by (intro pb_readbyte_known) auto
    have flag: "?b AND 0x80 \<noteq> 0"
      unfolding and_7F [of v] by (rule varint_byte_flag)
    have "\<exists>s'. varint_loop (bp + 7) r' ?t = Fail s'" for r'
      using 1 vb \<open>\<not> v \<le> 0x7F\<close> False by (intro "1.IH") auto
    then show ?thesis
      using rb flag False by (subst varint_loop.simps) (simp add: Let_def)
  qed
qed

section \<open>The codec contract\<close>

text \<open>A decoder run \<open>n\<close> times, collecting the values.\<close>

primrec decode_many :: "nat \<Rightarrow> (pb_istream, 'v) cmd \<Rightarrow> (pb_istream, 'v list) cmd" where
  "decode_many 0 d = returnC []"
| "decode_many (Suc n) d = bindC d (\<lambda>v. bindC (decode_many n d) (\<lambda>vs. returnC (v # vs)))"

locale wire_codec =
  fixes enc :: "'v \<Rightarrow> byte list" and dec :: "(pb_istream, 'v) cmd"
  assumes roundtrip: "is_buf s \<Longrightarrow> istate s = enc v @ rest \<Longrightarrow> length (enc v) \<le> bytes_left s \<Longrightarrow>
      dec s = Ret v (advance s rest (length (enc v)))"
    and short: "is_buf s \<Longrightarrow> istate s = enc v @ rest \<Longrightarrow> bytes_left s < length (enc v) \<Longrightarrow>
      \<exists>s'. dec s = Fail s'"
begin

lemma from_buffer:
  assumes "length (enc v) \<le> n"
  shows "dec (pb_istream_from_buffer (enc v @ rest) n) =
    Ret v (pb_istream_from_buffer rest (n - length (enc v)))"
  using roundtrip [of "pb_istream_from_buffer (enc v @ rest) n" v rest] assms
  by (simp add: pb_istream_from_buffer_def is_buf_def advance_def)

text \<open>The format is self-delimiting: no encoding is a proper prefix of another.\<close>

lemma self_delimiting:
  assumes "enc v @ r = enc w @ r'"
  shows "v = w \<and> r = r'"
proof -
  let ?n = "max (length (enc v)) (length (enc w))"
  have "dec (pb_istream_from_buffer (enc v @ r) ?n) =
      Ret v (pb_istream_from_buffer r (?n - length (enc v)))"
    by (rule from_buffer) simp
  moreover have "dec (pb_istream_from_buffer (enc w @ r') ?n) =
      Ret w (pb_istream_from_buffer r' (?n - length (enc w)))"
    by (rule from_buffer) simp
  ultimately show ?thesis using assms by (simp add: pb_istream_from_buffer_def)
qed

lemma enc_injective: "enc v = enc w \<longleftrightarrow> v = w"
  using self_delimiting [of v "[]" w "[]"] by auto

text \<open>A packed sequence comes back element by element.\<close>

lemma sequence:
  assumes "is_buf s" and "istate s = concat (map enc vs) @ rest"
    and "length (concat (map enc vs)) \<le> bytes_left s"
  shows "decode_many (length vs) dec s =
    Ret vs (advance s rest (length (concat (map enc vs))))"
  using assms
proof (induction vs arbitrary: s)
  case Nil
  then show ?case by (simp add: advance_def)
next
  case (Cons v vs)
  let ?t = "advance s (concat (map enc vs) @ rest) (length (enc v))"
  have "dec s = Ret v ?t" using Cons.prems by (intro roundtrip) auto
  moreover have "decode_many (length vs) dec ?t =
      Ret vs (advance ?t rest (length (concat (map enc vs))))"
    using Cons.prems by (intro Cons.IH) auto
  ultimately show ?case by (simp add: bindC_def)
qed

end

interpretation varint: wire_codec varint_bytes pb_decode_varint
  by unfold_locales
    (simp add: pb_decode_varint_known, unfold pb_decode_varint_def, rule varint_loop_short)

text \<open>Zigzag.\<close>

lemma zigzag_back:
  fixes v :: u64
  defines "z \<equiv> if v <s 0 then NOT (push_bit 1 v) else push_bit 1 v"
  shows "(if z AND 1 \<noteq> 0 then NOT (drop_bit 1 z) else drop_bit 1 z) = v"
proof -
  have neg: "v <s 0 \<longleftrightarrow> bit v 63"
    using bit_last_iff [of v] by (simp add: word_sless_alt)
  have low: "bit z 0 \<longleftrightarrow> bit v 63"
    by (cases "bit v 63") (simp_all only: z_def neg if_True if_False bit_not_iff bit_push_bit_iff,
        simp_all)
  have odd: "z AND 1 \<noteq> 0 \<longleftrightarrow> bit v 63"
    using and_exp_eq_0_iff_not_bit [of z 0] low by simp
  have "bit (if bit v 63 then NOT (drop_bit 1 z) else drop_bit 1 z) i = bit v i" if "i < 64" for i
  proof (cases "bit v 63")
    case True
    then have "bit (NOT (drop_bit 1 z)) i \<longleftrightarrow> i = 63 \<or> bit v i"
      using that unfolding z_def neg
      by (simp only: if_True bit_not_iff bit_drop_bit_eq bit_push_bit_iff possible_bit_word comp_apply) auto
    with True show ?thesis by auto
  next
    case False
    then have "bit (drop_bit 1 z) i \<longleftrightarrow> i < 63 \<and> bit v i"
      using that unfolding z_def neg
      by (simp only: if_False bit_drop_bit_eq bit_push_bit_iff possible_bit_word comp_apply) auto
    with False that show ?thesis by (cases "i = 63") auto
  qed
  then show ?thesis
    unfolding odd by (intro bit_word_eqI) simp
qed

lemma codec_svarint: "wire_codec svarint_bytes pb_decode_svarint"
proof
  fix s v rest
  assume "is_buf s" "istate s = svarint_bytes v @ rest" "length (svarint_bytes v) \<le> bytes_left s"
  then show "pb_decode_svarint s = Ret v (advance s rest (length (svarint_bytes v)))"
    unfolding svarint_bytes_def pb_decode_svarint_def
    using varint.roundtrip [of s _ rest] zigzag_back [of v] by (simp add: bindC_def)
next
  fix s v rest
  assume "is_buf s" "istate s = svarint_bytes v @ rest" "bytes_left s < length (svarint_bytes v)"
  then show "\<exists>s'. pb_decode_svarint s = Fail s'"
    unfolding svarint_bytes_def pb_decode_svarint_def
    using varint.short [of s "if v <s 0 then NOT (push_bit 1 v) else push_bit 1 v" rest]
    by (auto simp: bindC_def)
qed

interpretation svarint: wire_codec svarint_bytes pb_decode_svarint
  by (rule codec_svarint)

text \<open>Fixed-width values.\<close>

lemma byte_of_word: "ucast (ucast (w AND 0xFF :: 'a::len word) :: byte) = take_bit 8 w"
proof -
  have "w AND 0xFF = take_bit 8 w" by (simp add: take_bit_eq_mask mask_eq_exp_minus_1)
  then show ?thesis by (simp, intro bit_word_eqI) (auto simp: bit_simps)
qed

lemma fixed32_join:
  "push_bit 0 (ucast (ucast (v AND 0xFF) :: byte)) OR push_bit 8 (ucast (ucast (drop_bit 8 v AND 0xFF) :: byte))
     OR push_bit 16 (ucast (ucast (drop_bit 16 v AND 0xFF) :: byte))
     OR push_bit 24 (ucast (ucast (drop_bit 24 v AND 0xFF) :: byte)) = (v :: u32)"
  unfolding byte_of_word push_bit_0_id id_apply or.assoc [symmetric]
  using take_join [of 8 v 8] take_join [of 16 v 8] take_join [of 24 v 8]
  by (simp add: take_bit_length_eq [where 'a = 32, simplified])

lemma fixed64_join:
  "push_bit 0 (ucast (ucast (v AND 0xFF) :: byte)) OR push_bit 8 (ucast (ucast (drop_bit 8 v AND 0xFF) :: byte))
     OR push_bit 16 (ucast (ucast (drop_bit 16 v AND 0xFF) :: byte))
     OR push_bit 24 (ucast (ucast (drop_bit 24 v AND 0xFF) :: byte))
     OR push_bit 32 (ucast (ucast (drop_bit 32 v AND 0xFF) :: byte))
     OR push_bit 40 (ucast (ucast (drop_bit 40 v AND 0xFF) :: byte))
     OR push_bit 48 (ucast (ucast (drop_bit 48 v AND 0xFF) :: byte))
     OR push_bit 56 (ucast (ucast (drop_bit 56 v AND 0xFF) :: byte)) = (v :: u64)"
  unfolding byte_of_word push_bit_0_id id_apply or.assoc [symmetric]
  using take_join [of 8 v 8] take_join [of 16 v 8] take_join [of 24 v 8] take_join [of 32 v 8]
    take_join [of 40 v 8] take_join [of 48 v 8] take_join [of 56 v 8]
  by (simp add: take_bit_length_eq [where 'a = 64, simplified])

lemma length_fixed [simp]: "length (fixed32_bytes v) = 4" "length (fixed64_bytes w) = 8"
  by (simp_all add: fixed32_bytes_def fixed64_bytes_def)

interpretation fixed32: wire_codec fixed32_bytes pb_decode_fixed32
proof
  fix s v rest
  assume a: "is_buf s" "istate s = fixed32_bytes v @ rest" "length (fixed32_bytes v) \<le> bytes_left s"
  show "pb_decode_fixed32 s = Ret v (advance s rest (length (fixed32_bytes v)))"
    using pb_read_known [OF a, of True] fixed32_join [of v]
    by (simp add: pb_decode_fixed32_def bindC_def) (simp add: fixed32_bytes_def)
next
  fix s v rest
  assume "is_buf s" "istate s = fixed32_bytes v @ rest" "bytes_left s < length (fixed32_bytes v)"
  then show "\<exists>s'. pb_decode_fixed32 s = Fail s'"
    using pb_read_short [of s 4 True] by (auto simp: pb_decode_fixed32_def bindC_def)
qed

interpretation fixed64: wire_codec fixed64_bytes pb_decode_fixed64
proof
  fix s v rest
  assume a: "is_buf s" "istate s = fixed64_bytes v @ rest" "length (fixed64_bytes v) \<le> bytes_left s"
  show "pb_decode_fixed64 s = Ret v (advance s rest (length (fixed64_bytes v)))"
    using pb_read_known [OF a, of True] fixed64_join [of v]
    by (simp add: pb_decode_fixed64_def bindC_def) (simp add: fixed64_bytes_def)
next
  fix s v rest
  assume "is_buf s" "istate s = fixed64_bytes v @ rest" "bytes_left s < length (fixed64_bytes v)"
  then show "\<exists>s'. pb_decode_fixed64 s = Fail s'"
    using pb_read_short [of s 8 True] by (auto simp: pb_decode_fixed64_def bindC_def)
qed

section \<open>Varints, 32 bits\<close>

lemma small_byte_widen:
  assumes "v \<le> 0x7F"
  shows "ucast (ucast (v :: u64) :: byte) = (ucast v :: 'a::len word)"
proof -
  have "take_bit 7 v = v" by (rule low_bits_small [OF assms])
  then have "bit v n \<Longrightarrow> n < 7" for n by (metis bit_take_bit_iff)
  then have small: "bit v n \<Longrightarrow> n < 8" for n by fastforce
  show ?thesis by (rule bit_word_eqI) (auto simp: bit_simps intro: small)
qed

lemma join_seven_32:
  "push_bit n (take_bit 7 (ucast v)) OR push_bit (n + 7) (ucast (drop_bit 7 v) :: u32) =
    push_bit n (ucast (v :: u64) :: u32)"
proof (rule bit_word_eqI)
  fix i
  assume "i < LENGTH(32)"
  then show "bit (push_bit n (take_bit 7 (ucast v)) OR push_bit (n + 7) (ucast (drop_bit 7 v) :: u32)) i =
      bit (push_bit n (ucast v :: u32)) i"
    by (cases "i < n + 7") (auto simp: bit_simps)
qed

lemma small_nibble:
  assumes "unat (v :: u64) < 16"
  shows "(ucast v :: byte) AND 0x70 = 0"
proof -
  have "take_bit 4 v = v"
    using assms by (simp add: word_unat_eq_iff unsigned_take_bit_eq take_bit_nat_eq_self)
  then have "bit v n \<Longrightarrow> n < 4" for n by (metis bit_take_bit_iff)
  then have "(ucast v :: byte) = take_bit 4 (ucast v)"
    by (intro bit_word_eqI) (auto simp: bit_simps)
  also have "\<dots> = ucast v AND 0x0F" by (simp add: take_bit_eq_mask mask_eq_exp_minus_1)
  finally have "(ucast v :: byte) AND 0x70 = (ucast v AND 0x0F) AND 0x70" by simp
  then show ?thesis by (simp only: and.assoc) simp
qed

lemma varint32_loop_known:
  assumes "is_buf s" and "istate s = varint_bytes v @ rest"
    and "length (varint_bytes v) \<le> bytes_left s"
    and "unat bp < 32" and "unat v < 2 ^ (32 - unat bp)"
  shows "\<exists>bp' b. varint32_loop bp r s =
      Ret (r OR push_bit (unat bp) (ucast v), bp', b) (advance s rest (length (varint_bytes v)))
    \<and> (bp' = 35 \<longrightarrow> b AND 0x70 = 0)"
  using assms
proof (induction v arbitrary: bp r s rule: varint_bytes.induct)
  case (1 v)
  have lt: "\<not> bp \<ge> 32" using 1(5) by (simp add: word_le_nat_alt)
  have bp7: "unat (bp + 7) = unat bp + 7" using 1(5) by (intro unat_bitpos) simp
  show ?case
  proof (cases "v \<le> 0x7F")
    case True
    then have vb: "varint_bytes v = [ucast v]" by (subst varint_bytes.simps) simp
    have "(ucast v :: byte) AND 0x70 = 0" if "bp + 7 = 35"
    proof -
      have "unat bp = 28" using bp7 that by simp
      then show ?thesis using 1(6) by (intro small_nibble) simp
    qed
    moreover have "pb_readbyte s = Ret (ucast v) (advance s rest 1)"
      using 1 vb by (intro pb_readbyte_known) auto
    ultimately show ?thesis
      using vb lt small_byte [OF True] small_byte_widen [OF True, where 'a = 32]
      by (subst varint32_loop.simps) (simp add: Let_def)
  next
    case False
    let ?b = "ucast (v AND 0x7F) OR 0x80 :: byte"
    let ?t = "advance s (varint_bytes (drop_bit 7 v) @ rest) 1"
    have vb: "varint_bytes v = ?b # varint_bytes (drop_bit 7 v)"
      using False by (subst varint_bytes.simps) simp
    have rb: "pb_readbyte s = Ret ?b ?t"
      using 1 vb by (intro pb_readbyte_known) auto
    have data: "ucast (?b AND 0x7F) = (take_bit 7 (ucast v) :: u32)"
      unfolding and_7F [of v] by (simp add: varint_byte_data)
    have flag: "?b AND 0x80 \<noteq> 0"
      unfolding and_7F [of v] by (rule varint_byte_flag)
    have "(2::nat) ^ 7 < 2 ^ (32 - unat bp)"
      using 1(6) False by (simp add: word_le_nat_alt)
    then have "7 < 32 - unat bp" by (rule power_less_imp_less_exp [rotated]) simp
    then have small: "unat bp + 7 < 32" by simp
    have pw: "32 - unat bp = (32 - (unat bp + 7)) + 7" using small by simp
    have "unat v < 2 ^ (32 - (unat bp + 7)) * 128"
      using 1(6) by (simp only: pw power_add) simp
    then have "unat (drop_bit 7 v) < 2 ^ (32 - (unat bp + 7))"
      unfolding unat_drop7 by (intro less_mult_imp_div_less)
    then obtain bp' b where "varint32_loop (bp + 7) (r OR push_bit (unat bp) (take_bit 7 (ucast v))) ?t =
        Ret ((r OR push_bit (unat bp) (take_bit 7 (ucast v))) OR push_bit (unat bp + 7) (ucast (drop_bit 7 v)), bp', b)
          (advance ?t rest (length (varint_bytes (drop_bit 7 v))))"
      and "bp' = 35 \<longrightarrow> b AND 0x70 = 0"
      using "1.IH" [OF False, of ?t "bp + 7"] 1 vb bp7 small by fastforce
    then show ?thesis
      using rb lt data flag
      by (subst varint32_loop.simps) (simp add: Let_def vb or.assoc join_seven_32)
  qed
qed

lemma pb_decode_varint32_eof_known:
  assumes "is_buf s" and "istate s = varint_bytes v @ rest"
    and "length (varint_bytes v) \<le> bytes_left s" and "unat v < 2 ^ 32"
  shows "pb_decode_varint32_eof s =
    (False, Ret (ucast v) (advance s rest (length (varint_bytes v))))"
proof (cases "v \<le> 0x7F")
  case True
  then have vb: "varint_bytes v = [ucast v]" by (subst varint_bytes.simps) simp
  then have "pb_readbyte s = Ret (ucast v) (advance s rest 1)"
    using assms by (intro pb_readbyte_known) auto
  then show ?thesis
    using vb small_byte [OF True] small_byte_widen [OF True, where 'a = 32]
    by (simp add: pb_decode_varint32_eof_def)
next
  case False
  let ?b = "ucast (v AND 0x7F) OR 0x80 :: byte"
  let ?t = "advance s (varint_bytes (drop_bit 7 v) @ rest) 1"
  have vb: "varint_bytes v = ?b # varint_bytes (drop_bit 7 v)"
    using False by (subst varint_bytes.simps) simp
  have rb: "pb_readbyte s = Ret ?b ?t"
    using assms vb by (intro pb_readbyte_known) auto
  have data: "ucast (?b AND 0x7F) = (take_bit 7 (ucast v) :: u32)"
    unfolding and_7F [of v] by (simp add: varint_byte_data)
  have flag: "?b AND 0x80 \<noteq> 0"
    unfolding and_7F [of v] by (rule varint_byte_flag)
  have "unat (drop_bit 7 v) < 2 ^ (32 - 7)"
    using assms(4) unfolding unat_drop7 by (intro less_mult_imp_div_less) simp
  moreover have "length (varint_bytes (drop_bit 7 v)) \<le> bytes_left ?t"
    using assms(3) vb by simp
  ultimately obtain bp' b where "varint32_loop 7 (take_bit 7 (ucast v)) ?t =
      Ret (take_bit 7 (ucast v) OR push_bit 7 (ucast (drop_bit 7 v)), bp', b)
        (advance ?t rest (length (varint_bytes (drop_bit 7 v))))"
    and "bp' = 35 \<longrightarrow> b AND 0x70 = 0"
    using varint32_loop_known [of ?t "drop_bit 7 v" rest 7 "take_bit 7 (ucast v)"] assms vb by auto
  then show ?thesis
    using rb data flag join_seven_32 [of 0 v]
    by (simp add: pb_decode_varint32_eof_def bindC_def vb PB_RETURN_ERROR_def)
qed

lemma varint32_loop_short:
  assumes "is_buf s" and "istate s = varint_bytes v @ rest"
    and "bytes_left s < length (varint_bytes v)"
  shows "\<exists>s'. varint32_loop bp r s = Fail s'"
  using assms
proof (induction v arbitrary: bp r s rule: varint_bytes.induct)
  case (1 v)
  show ?case
  proof (cases "bytes_left s = 0")
    case True
    then show ?thesis
      using pb_readbyte_eof [of s] by (subst varint32_loop.simps) auto
  next
    case False
    let ?b = "ucast (v AND 0x7F) OR 0x80 :: byte"
    let ?t = "advance s (varint_bytes (drop_bit 7 v) @ rest) 1"
    have big: "\<not> v \<le> 0x7F"
      using 1(4) False by (subst (asm) varint_bytes.simps) (auto split: if_splits)
    then have vb: "varint_bytes v = ?b # varint_bytes (drop_bit 7 v)"
      by (subst varint_bytes.simps) simp
    have rb: "pb_readbyte s = Ret ?b ?t"
      using 1 vb False by (intro pb_readbyte_known) auto
    have flag: "?b AND 0x80 \<noteq> 0"
      unfolding and_7F [of v] by (rule varint_byte_flag)
    have "\<exists>s'. varint32_loop (bp + 7) r' ?t = Fail s'" for r'
      using 1 vb big False by (intro "1.IH") auto
    then show ?thesis
      using rb flag by (subst varint32_loop.simps) (simp add: Let_def PB_RETURN_ERROR_def)
  qed
qed

lemma pb_decode_varint32_short:
  assumes "is_buf s" and "istate s = varint_bytes v @ rest"
    and "bytes_left s < length (varint_bytes v)"
  shows "\<exists>s'. pb_decode_varint32 s = Fail s'"
proof (cases "bytes_left s = 0")
  case True
  then show ?thesis
    using pb_readbyte_eof [of s] by (auto simp: pb_decode_varint32_def pb_decode_varint32_eof_def)
next
  case False
  let ?b = "ucast (v AND 0x7F) OR 0x80 :: byte"
  let ?t = "advance s (varint_bytes (drop_bit 7 v) @ rest) 1"
  have big: "\<not> v \<le> 0x7F"
    using assms(3) False by (subst (asm) varint_bytes.simps) (auto split: if_splits)
  then have vb: "varint_bytes v = ?b # varint_bytes (drop_bit 7 v)"
    by (subst varint_bytes.simps) simp
  have rb: "pb_readbyte s = Ret ?b ?t"
    using assms vb False by (intro pb_readbyte_known) auto
  have flag: "?b AND 0x80 \<noteq> 0"
    unfolding and_7F [of v] by (rule varint_byte_flag)
  have "bytes_left ?t < length (varint_bytes (drop_bit 7 v))"
    using assms(3) vb False by simp
  then obtain s' where "varint32_loop 7 (ucast (?b AND 0x7F)) ?t = Fail s'"
    using varint32_loop_short [of ?t "drop_bit 7 v" rest 7 "ucast (?b AND 0x7F)"] assms vb False by auto
  then show ?thesis
    using rb flag by (simp add: pb_decode_varint32_def pb_decode_varint32_eof_def bindC_def)
qed

lemma unat_ucast32: "unat (ucast (v :: u32) :: u64) = unat v"
  by (simp add: unsigned_ucast_eq take_bit_nat_eq_self unat_u32_less less_trans [OF unat_u32_less])

lemma ucast_back32: "ucast (ucast (v :: u32) :: u64) = v"
  by (rule bit_word_eqI) (auto simp: bit_simps)

interpretation varint32: wire_codec "\<lambda>v. varint_bytes (ucast v)" pb_decode_varint32
proof
  fix s rest and v :: u32
  assume "is_buf s" "istate s = varint_bytes (ucast v) @ rest"
    "length (varint_bytes (ucast v)) \<le> bytes_left s"
  then show "pb_decode_varint32 s = Ret v (advance s rest (length (varint_bytes (ucast v))))"
    using unat_u32_less [of v]
    by (simp add: pb_decode_varint32_def pb_decode_varint32_eof_known unat_ucast32 ucast_back32)
qed (rule pb_decode_varint32_short)

text \<open>A boolean is written as the varint 0 or 1.\<close>

interpretation bool_codec: wire_codec "\<lambda>b. varint_bytes (if b then 1 else 0)" pb_decode_bool
proof
  have e: "varint_bytes (if b then 1 else 0) = varint_bytes (ucast (if b then 1 else 0 :: u32))" for b
    by simp
  fix s b rest
  show "is_buf s \<Longrightarrow> istate s = varint_bytes (if b then 1 else 0) @ rest \<Longrightarrow>
      length (varint_bytes (if b then 1 else 0)) \<le> bytes_left s \<Longrightarrow>
      pb_decode_bool s = Ret b (advance s rest (length (varint_bytes (if b then 1 else 0))))"
    unfolding e using varint32.roundtrip [of s "if b then 1 else 0" rest]
    by (simp add: pb_decode_bool_def bindC_def)
  show "is_buf s \<Longrightarrow> istate s = varint_bytes (if b then 1 else 0) @ rest \<Longrightarrow>
      bytes_left s < length (varint_bytes (if b then 1 else 0)) \<Longrightarrow> \<exists>s'. pb_decode_bool s = Fail s'"
    using pb_decode_varint32_short [of s "if b then 1 else 0" rest]
    by (auto simp: pb_decode_bool_def bindC_def)
qed

section \<open>Tags\<close>

lemma small_bits:
  assumes "unat (w :: 'a::len word) < 2 ^ k" and "bit w n"
  shows "n < k"
proof -
  have "take_bit k w = w"
    using assms(1) by (simp add: word_unat_eq_iff unsigned_take_bit_eq take_bit_nat_eq_self)
  then show ?thesis using assms(2) by (metis bit_take_bit_iff)
qed

lemma tag_parts:
  assumes "unat wt < 2 ^ 3" and "unat t < 2 ^ 29"
  defines "w \<equiv> push_bit 3 (ucast t) OR ucast (wt :: u32) :: u64"
  shows "unat w < 2 ^ 32" and "ucast w AND 7 = wt" and "drop_bit 3 (ucast w :: u32) = (t :: u32)"
proof -
  note wt = small_bits [OF assms(1)] and t = small_bits [OF assms(2)]
  have "take_bit 32 w = w"
    unfolding w_def by (rule bit_word_eqI) (auto simp: bit_simps dest: wt t)
  then show "unat w < 2 ^ 32"
    by (metis unsigned_take_bit_eq take_bit_nat_less_exp)
  have "ucast w AND 7 = take_bit 3 (ucast w :: u32)"
    by (simp add: take_bit_eq_mask mask_eq_exp_minus_1)
  also have "\<dots> = wt"
    unfolding w_def by (rule bit_word_eqI) (auto simp: bit_simps dest: wt t)
  finally show "ucast w AND 7 = wt" .
  show "drop_bit 3 (ucast w :: u32) = t"
    unfolding w_def by (rule bit_word_eqI) (auto simp: bit_simps dest: wt t)
qed

lemma pb_decode_tag_known:
  assumes "is_buf s" and "istate s = tag_bytes wt t @ rest" and "length (tag_bytes wt t) \<le> bytes_left s"
    and "unat wt < 2 ^ 3" and "unat t < 2 ^ 29" and "t \<noteq> 0"
  shows "pb_decode_tag s = (False, Ret (wt, t) (advance s rest (length (tag_bytes wt t))))"
proof -
  let ?w = "push_bit 3 (ucast t) OR ucast wt :: u64"
  note parts = tag_parts [OF assms(4,5)]
  have "ucast ?w \<noteq> (0 :: u32)"
  proof
    assume "ucast ?w = (0 :: u32)"
    then have "drop_bit 3 (0 :: u32) = t" using parts(3) by simp
    then show False using assms(6) by simp
  qed
  then show ?thesis
    using pb_decode_varint32_eof_known [of s ?w rest] assms parts
    by (simp add: pb_decode_tag_def tag_bytes_def)
qed

section \<open>Length-prefixed data\<close>

lemma make_substream_known:
  assumes "is_buf s" and "istate s = varint_bytes (ucast (sz :: u32)) @ rest"
    and "length (varint_bytes (ucast sz)) + unat sz \<le> bytes_left s"
  shows "pb_make_string_substream s =
    Ret ((advance s rest (length (varint_bytes (ucast sz))))\<lparr>bytes_left := unat sz\<rparr>)
      (advance s rest (length (varint_bytes (ucast sz)) + unat sz))"
  using varint32.roundtrip [of s sz rest] assms
  by (simp add: pb_make_string_substream_def bindC_def) (auto simp: advance_def)

text \<open>
  Closing a substream leaves the stream right behind the substream's data, however much of
  it was read in between.
\<close>

lemma close_substream_known:
  assumes "is_buf sub" and "consumed sub sub'"
  shows "pb_close_string_substream sub' s =
    Ret () (s\<lparr>istate := drop (bytes_left sub) (istate sub), ierrmsg := ierrmsg sub'\<rparr>)"
proof -
  have b: "is_buf sub'" and d: "istate sub' = drop (bytes_left sub - bytes_left sub') (istate sub)"
    and le: "bytes_left sub' \<le> bytes_left sub"
    using assms by (auto simp: consumed_def is_buf_def)
  show ?thesis
    using b d le
    by (auto simp: pb_close_string_substream_def pb_read_def pb_read_direct_def buf_callback buf_read_def)
qed

section \<open>Skipping\<close>

lemma pb_skip_varint_known:
  assumes "is_buf s" and "istate s = varint_bytes v @ rest"
    and "length (varint_bytes v) \<le> bytes_left s"
  shows "pb_skip_varint s = Ret () (advance s rest (length (varint_bytes v)))"
  using assms
proof (induction v arbitrary: s rule: varint_bytes.induct)
  case (1 v)
  show ?case
  proof (cases "v \<le> 0x7F")
    case True
    then have vb: "varint_bytes v = [ucast v]" by (subst varint_bytes.simps) simp
    then show ?thesis
      using pb_read_known [of s "[ucast v]" rest True] 1 small_byte [OF True]
      by (subst pb_skip_varint.simps) simp
  next
    case False
    let ?b = "ucast (v AND 0x7F) OR 0x80 :: byte"
    let ?t = "advance s (varint_bytes (drop_bit 7 v) @ rest) 1"
    have vb: "varint_bytes v = ?b # varint_bytes (drop_bit 7 v)"
      using False by (subst varint_bytes.simps) simp
    have "pb_read True 1 s = Ret [?b] ?t"
      using pb_read_known [of s "[?b]" "varint_bytes (drop_bit 7 v) @ rest" True] 1 vb by simp
    moreover have "?b AND 0x80 \<noteq> 0"
      unfolding and_7F [of v] by (rule varint_byte_flag)
    moreover have "pb_skip_varint ?t = Ret () (advance ?t rest (length (varint_bytes (drop_bit 7 v))))"
    proof (rule "1.IH" [OF False])
      show "length (varint_bytes (drop_bit 7 v)) \<le> bytes_left ?t" using 1 vb by simp
    qed (use 1 in simp_all)
    ultimately show ?thesis
      using vb by (subst pb_skip_varint.simps) simp
  qed
qed

text \<open>
  The data of a field on the wire, by wire type, and how the skipper passes over exactly
  one of them.
\<close>

datatype wire_data = W_varint u64 | W_64bit u64 | W_string "byte list" | W_32bit u32

primrec wire_type_of :: "wire_data \<Rightarrow> pb_wire_type_t" where
  "wire_type_of (W_varint v) = PB_WT_VARINT"
| "wire_type_of (W_64bit v) = PB_WT_64BIT"
| "wire_type_of (W_string bs) = PB_WT_STRING"
| "wire_type_of (W_32bit v) = PB_WT_32BIT"

primrec wire_data_bytes :: "wire_data \<Rightarrow> byte list" where
  "wire_data_bytes (W_varint v) = varint_bytes v"
| "wire_data_bytes (W_64bit v) = fixed64_bytes v"
| "wire_data_bytes (W_string bs) = varint_bytes (word_of_nat (length bs)) @ bs"
| "wire_data_bytes (W_32bit v) = fixed32_bytes v"

primrec wire_data_ok :: "wire_data \<Rightarrow> bool" where
  "wire_data_ok (W_varint v) = True"
| "wire_data_ok (W_64bit v) = True"
| "wire_data_ok (W_string bs) = (length bs < 2 ^ 32)"
| "wire_data_ok (W_32bit v) = True"

lemma word_of_length:
  "n < 2 ^ 32 \<Longrightarrow> (word_of_nat n :: u64) = ucast (word_of_nat n :: u32) \<and> unat (word_of_nat n :: u32) = n"
  by (simp add: word_unat_eq_iff unat_ucast32 unat_of_nat)

lemma pb_skip_field_known:
  assumes "is_buf s" and "istate s = wire_data_bytes d @ rest"
    and "length (wire_data_bytes d) \<le> bytes_left s" and "wire_data_ok d"
  shows "pb_skip_field (wire_type_of d) s = Ret () (advance s rest (length (wire_data_bytes d)))"
proof (cases d)
  case (W_varint v)
  then show ?thesis using assms by (simp add: pb_skip_field_def pb_skip_varint_known)
next
  case (W_64bit v)
  then show ?thesis
    using assms pb_read_known [of s "fixed64_bytes v" rest False]
    by (simp add: pb_skip_field_def pb_consts bindC_def)
next
  case (W_32bit v)
  then show ?thesis
    using assms pb_read_known [of s "fixed32_bytes v" rest False]
    by (simp add: pb_skip_field_def pb_consts bindC_def)
next
  case (W_string bs)
  let ?n = "word_of_nat (length bs) :: u32"
  let ?h = "varint_bytes (ucast ?n)"
  have n: "(word_of_nat (length bs) :: u64) = ucast ?n" "unat ?n = length bs"
    using word_of_length [of "length bs"] assms(4) W_string by auto
  have "pb_decode_varint32 s = Ret ?n (advance s (bs @ rest) (length ?h))"
    using assms W_string n by (intro varint32.roundtrip) auto
  moreover have "pb_read False (length bs) (advance s (bs @ rest) (length ?h)) =
      Ret [] (advance s rest (length ?h + length bs))"
    using pb_read_known [of "advance s (bs @ rest) (length ?h)" bs rest False] assms W_string n
    by simp
  ultimately show ?thesis
    using W_string n by (simp add: pb_skip_field_def pb_skip_string_def pb_consts bindC_def)
qed

end
