(* ===== verification/Base64.thy ===== *)
theory Base64
  imports Prelude
begin

text \<open>
  \<open>SocketRocket/fbase64.c\<close>: base-64 encoding and decoding. Both functions return an
  \<open>int\<close>, -1 on errors, and leave something in the target on every path: the result is
  the pair of the two. The encoder's target is the text stored so far, which on success a
  NUL follows; its counter \<open>datalength\<close> is the length of that text, a \<open>size_t\<close> that never
  passes the size of the target. The decoder's target is an array of which the code may
  use \<open>targsize\<close> bytes, or NULL, when it only checks and counts; its index \<open>tarindex\<close> is
  an \<open>u_int\<close>, which wraps. A count is returned truncated to an \<open>int\<close>. A C string is
  the list of its characters before the NUL.
\<close>

section \<open>The alphabet\<close>

definition Base64 :: string where
  "Base64 = ''ABCDEFGHIJKLMNOPQRSTUVWXYZabcdefghijklmnopqrstuvwxyz0123456789+/''"

definition Pad64 :: char where
  "Pad64 = CHR ''=''"

text \<open>\<open>isspace\<close> in the C locale.\<close>

definition isspace :: "char \<Rightarrow> bool" where
  "isspace c \<longleftrightarrow> of_char c \<in> {32, 9, 10, 11, 12, 13 :: nat}"

text \<open>\<open>strchr(Base64, ch) - Base64\<close>.\<close>

fun index_of :: "char \<Rightarrow> string \<Rightarrow> nat option" where
  "index_of c [] = None"
| "index_of c (d # ds) = (if c = d then Some 0 else map_option Suc (index_of c ds))"

text \<open>The conversions to \<open>int\<close> of the \<open>return\<close> statements: 32 bits, signed.\<close>

definition as_int :: "u32 \<Rightarrow> int" where
  "as_int w = sint w"

section \<open>Encoding\<close>

definition b64_char :: "byte \<Rightarrow> char" where
  "b64_char b = Base64 ! unat b"

text \<open>The four sextets of a group of three bytes.\<close>

definition output0 :: "byte \<Rightarrow> byte" where "output0 a = drop_bit 2 a"
definition output1 :: "byte \<Rightarrow> byte \<Rightarrow> byte" where "output1 a b = push_bit 4 (a AND 0x03) + drop_bit 4 b"
definition output2 :: "byte \<Rightarrow> byte \<Rightarrow> byte" where "output2 b c = push_bit 2 (b AND 0x0F) + drop_bit 6 c"
definition output3 :: "byte \<Rightarrow> byte" where "output3 c = c AND 0x3F"

text \<open>The left result is \<open>return -1\<close>, with the text stored before it.\<close>

fun ntop_loop :: "nat \<Rightarrow> byte list \<Rightarrow> string \<Rightarrow> string + (byte list \<times> string)" where
  "ntop_loop targsize (a # b # c # src) target =
     (if length target + 4 > targsize then Inl target
      else ntop_loop targsize src
        (target @ [b64_char (output0 a), b64_char (output1 a b), b64_char (output2 b c), b64_char (output3 c)]))"
| "ntop_loop targsize src target = Inr (src, target)"

text \<open>The padded group for the one or two bytes left.\<close>

definition ntop_tail :: "nat \<Rightarrow> byte list \<Rightarrow> string \<Rightarrow> string + string" where
  "ntop_tail targsize src target =
     (if src = [] then Inr target
      else let a = src ! 0; b = (if length src > 1 then src ! 1 else 0) in
        if length target + 4 > targsize then Inl target
        else Inr (target @ [b64_char (output0 a), b64_char (output1 a b),
          (if length src = 1 then Pad64 else b64_char (output2 b 0)), Pad64]))"

definition f_b64_ntop :: "byte list \<Rightarrow> nat \<Rightarrow> int \<times> string" where
  "f_b64_ntop src targsize =
     (case ntop_loop targsize src [] of
        Inl target \<Rightarrow> (-1, target)
      | Inr (rest, target) \<Rightarrow>
          (case ntop_tail targsize rest target of
             Inl target' \<Rightarrow> (-1, target')
           | Inr target' \<Rightarrow>
               if length target' \<ge> targsize then (-1, target')
               else (as_int (word_of_nat (length target')), target')))"

section \<open>Decoding\<close>

record pton =
  state :: nat
  tarindex :: u32
  target :: "byte list option"

text \<open>A store into the target under its check of the index \<open>i\<close>; None is \<open>return -1\<close>.\<close>

definition put_target :: "(byte list \<Rightarrow> byte list) \<Rightarrow> u32 \<Rightarrow> nat \<Rightarrow> byte list option \<Rightarrow> byte list option option" where
  "put_target h i targsize t =
     (case t of None \<Rightarrow> Some None
      | Some bs \<Rightarrow> if unat i \<ge> targsize then None else Some (Some (h bs)))"

text \<open>One digit of value \<open>v\<close>.\<close>

definition pton_step :: "nat \<Rightarrow> byte \<Rightarrow> pton \<Rightarrow> pton option" where
  "pton_step targsize v p =
     (let i = tarindex p; j = unat i; j1 = unat (i + 1) in
      if state p = 0 then
        map_option (\<lambda>t. p\<lparr>target := t, state := 1\<rparr>)
          (put_target (\<lambda>bs. bs[j := push_bit 2 v]) i targsize (target p))
      else if state p = 1 then
        map_option (\<lambda>t. p\<lparr>target := t, tarindex := i + 1, state := 2\<rparr>)
          (put_target (\<lambda>bs. bs[j := bs ! j OR drop_bit 4 v, j1 := push_bit 4 (v AND 0x0F)])
             (i + 1) targsize (target p))
      else if state p = 2 then
        map_option (\<lambda>t. p\<lparr>target := t, tarindex := i + 1, state := 3\<rparr>)
          (put_target (\<lambda>bs. bs[j := bs ! j OR drop_bit 2 v, j1 := push_bit 6 (v AND 0x03)])
             (i + 1) targsize (target p))
      else
        map_option (\<lambda>t. p\<lparr>target := t, tarindex := i + 1, state := 0\<rparr>)
          (put_target (\<lambda>bs. bs[j := bs ! j OR v]) i targsize (target p)))"

text \<open>
  The loop. The right result is its end, with the rest of the string, from the pad
  character on; the left one is \<open>return -1\<close>, with the target as it was left.
\<close>

fun pton_loop :: "nat \<Rightarrow> string \<Rightarrow> pton \<Rightarrow> byte list option + (pton \<times> string)" where
  "pton_loop targsize [] p = Inr (p, [])"
| "pton_loop targsize (ch # src) p =
     (if isspace ch then pton_loop targsize src p
      else if ch = Pad64 then Inr (p, ch # src)
      else case index_of ch Base64 of
          None \<Rightarrow> Inl (target p)
        | Some k \<Rightarrow>
            (case pton_step targsize (word_of_nat k) p of
               None \<Rightarrow> Inl (target p) | Some p' \<Rightarrow> pton_loop targsize src p'))"

text \<open>The checks after a pad character; \<open>src\<close> is what follows it.\<close>

definition pton_pad :: "string \<Rightarrow> pton \<Rightarrow> bool" where
  "pton_pad src p =
     (let spaces_only = (\<lambda>cs. list_all isspace cs);
          slop = (case target p of None \<Rightarrow> False | Some bs \<Rightarrow> bs ! unat (tarindex p) \<noteq> 0) in
      if state p = 0 \<or> state p = 1 then False
      else if state p = 2 then
        (case dropWhile isspace src of
           [] \<Rightarrow> False
         | ch # rest \<Rightarrow> ch = Pad64 \<and> spaces_only rest \<and> \<not> slop)
      else spaces_only src \<and> \<not> slop)"

definition f_b64_pton :: "string \<Rightarrow> byte list option \<Rightarrow> nat \<Rightarrow> int \<times> byte list option" where
  "f_b64_pton src tgt targsize =
     (case pton_loop targsize src \<lparr>state = 0, tarindex = 0, target = tgt\<rparr> of
        Inl t \<Rightarrow> (-1, t)
      | Inr (p, rest) \<Rightarrow>
          (case rest of
             [] \<Rightarrow> if state p \<noteq> 0 then (-1, target p) else (as_int (tarindex p), target p)
           | ch # rest' \<Rightarrow> if pton_pad rest' p then (as_int (tarindex p), target p) else (-1, target p)))"

section \<open>Digits\<close>

lemma digit_table:
  "list_all (\<lambda>k. index_of (Base64 ! k) Base64 = Some k \<and> \<not> isspace (Base64 ! k) \<and> Base64 ! k \<noteq> Pad64)
     [0..<64]"
  by code_simp

lemma digit:
  assumes "unat v < 64"
  shows "index_of (b64_char v) Base64 = Some (unat v)" "\<not> isspace (b64_char v)" "b64_char v \<noteq> Pad64"
  using digit_table assms by (auto simp: list_all_iff b64_char_def)

lemma pton_end: "pton_loop targsize [] p = Inr (p, [])"
  "pton_loop targsize (Pad64 # src) p = Inr (p, Pad64 # src)"
  by (simp_all add: isspace_def Pad64_def)

lemma pton_digit:
  "unat v < 64 \<Longrightarrow> pton_loop targsize (b64_char v # src) p =
    (case pton_step targsize v p of None \<Rightarrow> Inl (target p) | Some p' \<Rightarrow> pton_loop targsize src p')"
  by (simp add: digit)

declare pton_loop.simps [simp del]

lemma masks:
  "(x :: byte) AND 0x03 = take_bit 2 x" "(x :: byte) AND 0x0F = take_bit 4 x" "(x :: byte) AND 0x3F = take_bit 6 x"
  by (simp_all add: take_bit_eq_mask mask_eq_exp_minus_1)

lemma sum_or:
  "push_bit 4 (take_bit 2 a) + drop_bit 4 b = push_bit 4 (take_bit 2 (a :: byte)) OR drop_bit 4 (b :: byte)"
  "push_bit 2 (take_bit 4 a) + drop_bit 6 b = push_bit 2 (take_bit 4 (a :: byte)) OR drop_bit 6 (b :: byte)"
  by (rule disjunctive_add, auto simp: bit_simps dest: bit_imp_le_length)+

lemma outputs:
  "output1 a b = push_bit 4 (take_bit 2 a) OR drop_bit 4 b"
  "output2 a b = push_bit 2 (take_bit 4 a) OR drop_bit 6 b"
  "output3 a = take_bit 6 a"
  by (simp_all only: output1_def output2_def output3_def masks sum_or)

lemma sextet:
  assumes "take_bit 6 v = (v :: byte)"
  shows "unat v < 64"
proof -
  have "take_bit 6 (unat v) < 64" using take_bit_nat_less_exp [of 6 "unat v"] by simp
  then show ?thesis using assms by (metis unsigned_take_bit_eq)
qed

lemma output_small [simp]:
  "unat (output0 a) < 64" "unat (output1 a b) < 64" "unat (output2 b c) < 64" "unat (output3 c) < 64"
  by (rule sextet, rule bit_word_eqI, auto simp: output0_def outputs bit_simps dest: bit_imp_le_length)+

text \<open>The bytes put back together from their sextets.\<close>

lemma rejoin:
  "push_bit 2 (output0 a) OR drop_bit 4 (output1 a b) = a"
  "push_bit 4 (output1 a b AND 0x0F) OR drop_bit 2 (output2 b c) = b"
  "push_bit 6 (output2 b c AND 0x03) OR output3 c = c"
proof -
  have two: "2 \<le> n \<Longrightarrow> Suc (Suc (n - 2)) = n" for n by simp
  show "push_bit 2 (output0 a) OR drop_bit 4 (output1 a b) = a"
    unfolding outputs output0_def
  proof (rule bit_word_eqI)
    fix n
    assume "n < LENGTH(8)"
    then show "bit (push_bit 2 (drop_bit 2 a) OR drop_bit 4 (push_bit 4 (take_bit 2 a) OR drop_bit 4 b)) n = bit a n"
      by (cases "n < 2") (auto simp: bit_simps two dest: bit_imp_le_length)
  qed
  show "push_bit 4 (output1 a b AND 0x0F) OR drop_bit 2 (output2 b c) = b"
    unfolding masks outputs
  proof (rule bit_word_eqI)
    fix n
    assume "n < LENGTH(8)"
    then show "bit (push_bit 4 (take_bit 4 (push_bit 4 (take_bit 2 a) OR drop_bit 4 b)) OR
        drop_bit 2 (push_bit 2 (take_bit 4 b) OR drop_bit 6 c)) n = bit b n"
      by (cases "n < 4") (auto simp: bit_simps dest: bit_imp_le_length)
  qed
  show "push_bit 6 (output2 b c AND 0x03) OR output3 c = c"
    unfolding masks outputs
  proof (rule bit_word_eqI)
    fix n
    assume "n < LENGTH(8)"
    then show "bit (push_bit 6 (take_bit 2 (push_bit 2 (take_bit 4 b) OR drop_bit 6 c)) OR take_bit 6 c) n = bit c n"
      by (cases "n < 6") (auto simp: bit_simps dest: bit_imp_le_length)
  qed
qed

text \<open>The bits a padded group has to spare are zero.\<close>

lemma spare_zero:
  "push_bit 4 (output1 a 0 AND 0x0F) = 0" "push_bit 6 (output2 b 0 AND 0x03) = 0"
  unfolding masks outputs by (rule bit_word_eqI, auto simp: bit_simps)+

section \<open>Groups\<close>

fun b64_groups :: "byte list \<Rightarrow> string" where
  "b64_groups (a # b # c # src) =
     b64_char (output0 a) # b64_char (output1 a b) # b64_char (output2 b c) # b64_char (output3 c)
       # b64_groups src"
| "b64_groups src = []"

fun b64_rest :: "byte list \<Rightarrow> byte list" where
  "b64_rest (a # b # c # src) = b64_rest src"
| "b64_rest src = src"

lemma add_group: "(3 + n) div 3 = Suc (n div 3)" "Suc (Suc (Suc n)) div 3 = Suc (n div 3)" for n :: nat
  by presburger+

lemma take_drop_three:
  "take (3 + n) (a # b # c # xs) = a # b # c # take n xs" "drop (3 + n) (a # b # c # xs) = drop n xs"
  by (simp_all add: numeral_3_eq_3)

lemma length_groups: "length (b64_groups src) = 4 * (length src div 3)"
  by (induction src rule: b64_groups.induct) (simp_all add: add_group)

lemma length_rest: "length (b64_rest src) = length src mod 3"
  by (induction src rule: b64_rest.induct) auto

lemma ntop_loop_eq:
  "if src \<noteq> b64_rest src \<and> length acc + 4 * (length src div 3) > targsize
   then isl (ntop_loop targsize src acc)
   else ntop_loop targsize src acc = Inr (b64_rest src, acc @ b64_groups src)"
proof (induction targsize src acc rule: ntop_loop.induct)
  case (1 targsize a b c src target)
  have "src = b64_rest src \<or> 3 \<le> length src"
    by (cases src rule: b64_rest.cases) auto
  moreover have "b64_rest src \<noteq> a # b # c # src"
  proof
    assume "b64_rest src = a # b # c # src"
    then have "length (b64_rest src) = length src + 3" by simp
    then show False using length_rest [of src] mod_less_eq_dividend [of "length src" 3] by simp
  qed
  moreover have "length src < 3 \<Longrightarrow> length src div 3 = 0" by simp
  moreover have "src = b64_rest src \<Longrightarrow> length src < 3"
    using length_rest [of src] by (metis mod_less_divisor zero_less_numeral)
  ultimately show ?case using 1 by (auto simp: add.assoc add_group split: if_splits)
qed auto

text \<open>The decoder over one full group, writing behind \<open>pre\<close>.\<close>

definition at_byte :: "byte list \<Rightarrow> byte list \<Rightarrow> pton" where
  "at_byte pre old = \<lparr>state = 0, tarindex = word_of_nat (length pre), target = Some (pre @ old)\<rparr>"

lemma index_small [simp]:
  "n < 2 ^ 32 \<Longrightarrow> unat (word_of_nat n :: u32) = n"
  "n + 1 < 2 ^ 32 \<Longrightarrow> unat (word_of_nat n + 1 :: u32) = n + 1"
  "n + 2 < 2 ^ 32 \<Longrightarrow> unat (word_of_nat n + 2 :: u32) = n + 2"
proof -
  have small: "unat (word_of_nat m :: u32) = m" if "m < 2 ^ 32" for m
    using that by (simp add: unat_of_nat)
  show "n < 2 ^ 32 \<Longrightarrow> unat (word_of_nat n :: u32) = n" by (rule small)
  show "n + 1 < 2 ^ 32 \<Longrightarrow> unat (word_of_nat n + 1 :: u32) = n + 1"
    using small [of "n + 1"] by (simp add: add.commute)
  show "n + 2 < 2 ^ 32 \<Longrightarrow> unat (word_of_nat n + 2 :: u32) = n + 2"
    using small [of "n + 2"] by (simp add: add.commute)
qed

declare index_small [unfolded add.commute [of _ "1 :: u32"] add.commute [of _ "2 :: u32"], simp]

lemma pton_two:
  assumes "length pre + 1 < targsize" and "length pre + 1 < 2 ^ 32"
  shows "pton_loop targsize (b64_char (output0 a) # b64_char (output1 a b) # src) (at_byte pre (x # y # old)) =
    pton_loop targsize src \<lparr>state = 2, tarindex = word_of_nat (length pre) + 1,
      target = Some (pre @ a # push_bit 4 (output1 a b AND 0x0F) # old)\<rparr>"
  using assms rejoin(1) [of a b]
  by (simp add: pton_digit pton_step_def put_target_def Let_def at_byte_def list_update_append nth_append)

lemma pton_three:
  assumes "length pre + 2 < targsize" and "length pre + 2 < 2 ^ 32"
  shows "pton_loop targsize (b64_char (output0 a) # b64_char (output1 a b) # b64_char (output2 b c) # src)
      (at_byte pre (x # y # z # old)) =
    pton_loop targsize src \<lparr>state = 3, tarindex = word_of_nat (length pre) + 2,
      target = Some (pre @ a # b # push_bit 6 (output2 b c AND 0x03) # old)\<rparr>"
proof -
  have "length pre + 1 < targsize" "length pre + 1 < 2 ^ 32" using assms by simp_all
  note two = pton_two [OF this, of a b "b64_char (output2 b c) # src" x y "z # old"]
  show ?thesis
    unfolding two using assms rejoin(2) [of a b c]
    by (simp add: pton_digit pton_step_def put_target_def Let_def list_update_append nth_append add.commute)
qed

lemma pton_group:
  assumes "length pre + 2 < targsize" and "length pre + 2 < 2 ^ 32"
  shows "pton_loop targsize (b64_char (output0 a) # b64_char (output1 a b) # b64_char (output2 b c)
        # b64_char (output3 c) # src) (at_byte pre (x # y # z # old)) =
    pton_loop targsize src (at_byte (pre @ [a, b, c]) old)"
  unfolding pton_three [OF assms] using assms rejoin(3) [of b c]
  by (simp add: pton_digit pton_step_def put_target_def Let_def at_byte_def list_update_append nth_append)

lemma pton_groups:
  assumes "length pre + length src \<le> targsize" and "length src \<le> length old"
    and "length pre + length src < 2 ^ 32"
  shows "pton_loop targsize (b64_groups src @ tl_src) (at_byte pre old) =
    pton_loop targsize tl_src
      (at_byte (pre @ take (3 * (length src div 3)) src) (drop (3 * (length src div 3)) old))"
  using assms
proof (induction src arbitrary: pre old rule: b64_groups.induct)
  case (1 a b c src)
  from 1(3) obtain x y z old' where old: "old = x # y # z # old'" "length src \<le> length old'"
    by (cases old; cases "tl old"; cases "tl (tl old)") auto
  show ?case
    using 1(1) [of "pre @ [a, b, c]" old'] 1(2,4) old
    by (simp add: pton_group add_group take_drop_three)
qed simp_all

section \<open>Round trip\<close>

text \<open>The text the encoder produces, with the room it needs.\<close>

definition b64_text :: "byte list \<Rightarrow> string" where
  "b64_text src = b64_groups src @
     (case b64_rest src of
        [] \<Rightarrow> []
      | [a] \<Rightarrow> [b64_char (output0 a), b64_char (output1 a 0), Pad64, Pad64]
      | a # b # _ \<Rightarrow> [b64_char (output0 a), b64_char (output1 a b), b64_char (output2 b 0), Pad64])"

lemma rest_cases:
  obtains "b64_rest src = []" | a where "b64_rest src = [a]" | a b where "b64_rest src = [a, b]"
proof -
  have "length (b64_rest src) < 3" by (simp add: length_rest)
  then show thesis using that by (cases "b64_rest src" rule: b64_rest.cases) auto
qed

lemma length_text: "length (b64_text src) = 4 * ((length src + 2) div 3)"
proof -
  have "(n + 2) div 3 = n div 3 + (if n mod 3 = 0 then 0 else 1)" for n :: nat by presburger
  then show ?thesis
    using length_rest [of src] length_groups [of src]
    by (cases src rule: rest_cases) (auto simp: b64_text_def)
qed

lemma rest_eq_src: "src = b64_rest src \<longleftrightarrow> length src < 3"
proof
  assume "src = b64_rest src"
  then show "length src < 3" using length_rest [of src] by (metis mod_less_divisor zero_less_numeral)
next
  assume "length src < 3"
  then show "src = b64_rest src" by (cases src rule: b64_rest.cases) auto
qed

lemma as_int_small: "n < 2 ^ 31 \<Longrightarrow> as_int (word_of_nat n) = int n"
  by (simp add: as_int_def signed_of_nat take_bit_nat_eq_self signed_take_bit_int_eq_self)

lemma f_b64_ntop_eq:
  "if length (b64_text src) < targsize
   then f_b64_ntop src targsize = (as_int (word_of_nat (length (b64_text src))), b64_text src)
   else fst (f_b64_ntop src targsize) = -1"
proof -
  have le: "4 * (length src div 3) \<le> length (b64_text src)"
    by (simp add: b64_text_def length_groups)
  have zero: "src = b64_rest src \<Longrightarrow> length src div 3 = 0" by (simp add: rest_eq_src)
  have tail: "if b64_rest src \<noteq> [] \<and> length (b64_text src) > targsize
      then isl (ntop_tail targsize (b64_rest src) (b64_groups src))
      else ntop_tail targsize (b64_rest src) (b64_groups src) = Inr (b64_text src)"
    by (cases src rule: rest_cases) (auto simp: ntop_tail_def b64_text_def Let_def)
  show ?thesis
    using le zero ntop_loop_eq [where acc = "[]" and src = src and targsize = targsize] tail
    by (auto simp: f_b64_ntop_def isl_def split: if_splits)
qed

lemma f_b64_pton_text:
  assumes "length src < targsize" and "targsize \<le> length tgt" and "length src < 2 ^ 31"
  shows "\<exists>tgt'. f_b64_pton (b64_text src) (Some tgt) targsize = (int (length src), Some tgt')
    \<and> take (length src) tgt' = src"
proof -
  let ?k = "3 * (length src div 3)"
  define pre where "pre = take ?k src"
  define old where "old = drop ?k tgt"
  have split: "src = pre @ b64_rest src"
    unfolding pre_def by (induction src rule: b64_rest.induct) (auto simp: add_group take_drop_three)
  have k: "?k + length src mod 3 = length src" by simp
  have lp: "length pre = ?k" unfolding pre_def by simp
  have start: "pton_loop targsize (b64_groups src @ t) (at_byte [] tgt) = pton_loop targsize t (at_byte pre old)" for t
    using pton_groups [of "[]" src targsize tgt t] assms by (simp add: pre_def old_def)
  have init: "\<lparr>state = 0, tarindex = 0, target = Some tgt\<rparr> = at_byte [] tgt" by (simp add: at_byte_def)
  have count: "as_int (word_of_nat (length src)) = int (length src)" using assms by (simp add: as_int_small)
  have room: "length old = length tgt - ?k" by (simp add: old_def)
  show ?thesis
  proof (cases src rule: rest_cases)
    case 1
    then have "pre = src" using split by simp
    with 1 show ?thesis
      using start [of "[]"] lp
      by (simp add: f_b64_pton_def b64_text_def init) (use count in \<open>simp add: at_byte_def pton_end\<close>)
  next
    case (2 a)
    then have l: "length src = Suc (length pre)" using split by (metis length_append_singleton)
    then have "2 \<le> length old" using assms room lp by simp
    then obtain x y rest where old: "old = x # y # rest" by (cases old; cases "tl old") auto
    have src: "src = pre @ [a]" using split 2 by simp
    have loop: "pton_loop targsize (b64_text src) (at_byte [] tgt) =
        Inr (\<lparr>state = 2, tarindex = word_of_nat (length pre) + 1, target = Some (pre @ a # 0 # rest)\<rparr>, [Pad64, Pad64])"
      using start [of "[b64_char (output0 a), b64_char (output1 a 0), Pad64, Pad64]"] 2 l assms
        pton_two [of pre targsize a 0 "[Pad64, Pad64]" x y rest]
      by (simp add: b64_text_def old pton_end spare_zero [simplified])
    have "f_b64_pton (b64_text src) (Some tgt) targsize = (int (length src), Some (pre @ a # 0 # rest))"
      using count l assms
      by (simp add: f_b64_pton_def init loop pton_pad_def nth_append isspace_def Pad64_def add.commute)
    moreover have "take (length src) (pre @ a # 0 # rest) = src" by (simp add: src)
    ultimately show ?thesis by blast
  next
    case (3 a b)
    then have l: "length src = length pre + 2" using arg_cong [OF split, of length] by simp
    then have "3 \<le> length old" using assms room lp by simp
    then obtain x y z rest where old: "old = x # y # z # rest"
      by (cases old; cases "tl old"; cases "tl (tl old)") auto
    have src: "src = pre @ [a, b]" using split 3 by simp
    have loop: "pton_loop targsize (b64_text src) (at_byte [] tgt) =
        Inr (\<lparr>state = 3, tarindex = word_of_nat (length pre) + 2, target = Some (pre @ a # b # 0 # rest)\<rparr>, [Pad64])"
      using start [of "[b64_char (output0 a), b64_char (output1 a b), b64_char (output2 b 0), Pad64]"] 3 l assms
        pton_three [of pre targsize a b 0 "[Pad64]" x y z rest]
      by (simp add: b64_text_def old pton_end spare_zero [simplified])
    have "f_b64_pton (b64_text src) (Some tgt) targsize = (int (length src), Some (pre @ a # b # 0 # rest))"
      using count l assms
      by (simp add: f_b64_pton_def init loop pton_pad_def nth_append isspace_def Pad64_def add.commute)
    moreover have "take (length src) (pre @ a # b # 0 # rest) = src" by (simp add: src)
    ultimately show ?thesis by blast
  qed
qed

section \<open>Whitespace and bounds\<close>

definition strip :: "string \<Rightarrow> string" where
  "strip cs = filter (\<lambda>c. \<not> isspace c) cs"

lemma strip_simps [simp]:
  "strip [] = []" "strip (c # cs) = (if isspace c then strip cs else c # strip cs)"
  by (simp_all add: strip_def)

lemma pad_not_space [simp]: "\<not> isspace Pad64"
  by (simp add: isspace_def Pad64_def)

lemma pton_loop_strip:
  "pton_loop targsize (strip src) p =
    map_sum id (\<lambda>(q, r). (q, strip r)) (pton_loop targsize src p)"
proof (induction src arbitrary: p)
  case Nil
  then show ?case by (simp add: pton_end)
next
  case (Cons ch src)
  show ?case
  proof (cases "isspace ch")
    case True
    then show ?thesis using Cons by (simp add: pton_loop.simps)
  next
    case False
    then show ?thesis
      using Cons by (simp add: pton_loop.simps split: option.split)
  qed
qed

lemma strip_spaces: "list_all isspace (strip cs) \<longleftrightarrow> list_all isspace cs"
  "dropWhile isspace (strip cs) = strip (dropWhile isspace cs)"
  by (induction cs) auto

lemma pton_pad_strip: "pton_pad (strip src) p = pton_pad src p"
proof -
  show ?thesis
  proof (cases "dropWhile isspace src")
    case Nil
    show ?thesis by (simp only: pton_pad_def Let_def strip_spaces Nil strip_simps)
  next
    case (Cons c r)
    then have "\<not> isspace c" by (metis hd_dropWhile list.distinct(1) list.sel(1))
    with Cons show ?thesis by (simp add: pton_pad_def Let_def strip_spaces)
  qed
qed

text \<open>The target array keeps its length, and only its first \<open>targsize\<close> bytes are written.\<close>

definition target_ok :: "nat \<Rightarrow> byte list \<Rightarrow> byte list option \<Rightarrow> bool" where
  "target_ok targsize tgt t \<longleftrightarrow>
     (\<exists>bs. t = Some bs \<and> length bs = length tgt \<and> drop targsize bs = drop targsize tgt)"

definition pton_ok :: "nat \<Rightarrow> byte list \<Rightarrow> pton \<Rightarrow> bool" where
  "pton_ok targsize tgt p \<longleftrightarrow> state p < 4 \<and> target_ok targsize tgt (target p) \<and>
     (if state p = 0 then unat (tarindex p) \<le> targsize else unat (tarindex p) < targsize)"

lemma next_index: "unat (i :: u32) < n \<Longrightarrow> unat (i + 1) \<le> n"
  by (cases "i + 1 = 0") (simp_all add: unatSuc add.commute)

lemma pton_step_ok:
  assumes "pton_ok targsize tgt p" and "pton_step targsize v p = Some q"
  shows "pton_ok targsize tgt q"
proof -
  have "state p = 0 \<or> state p = 1 \<or> state p = 2 \<or> state p = 3"
    using assms(1) by (auto simp: pton_ok_def)
  then show ?thesis
    using assms
    by (auto simp: pton_ok_def target_ok_def pton_step_def put_target_def Let_def next_index split: if_splits)
qed

lemma pton_loop_ok:
  "pton_ok targsize tgt p \<Longrightarrow>
    (case pton_loop targsize src p of
       Inl t \<Rightarrow> target_ok targsize tgt t | Inr (q, r) \<Rightarrow> pton_ok targsize tgt q)"
proof (induction targsize src p rule: pton_loop.induct)
  case (2 targsize ch src p)
  have "target_ok targsize tgt (target p)" using 2 by (simp add: pton_ok_def)
  then show ?case
    using 2 by (auto simp: pton_loop.simps(2) split: if_splits option.split dest: pton_step_ok)
qed (simp add: pton_loop.simps)

lemma f_b64_pton_ok:
  assumes "f_b64_pton src (Some tgt) targsize = (k, t)"
  shows "target_ok targsize tgt t \<and> (k = -1 \<or> (\<exists>w. k = as_int w \<and> unat w \<le> targsize))"
proof -
  have start: "pton_ok targsize tgt \<lparr>state = 0, tarindex = 0, target = Some tgt\<rparr>"
    by (simp add: pton_ok_def target_ok_def)
  show ?thesis
    using assms pton_loop_ok [OF start, of src]
    by (auto simp: f_b64_pton_def pton_ok_def split: sum.splits list.splits if_splits prod.splits)
qed

lemma as_int_bound:
  assumes "unat w \<le> n" and "n < 2 ^ 31"
  shows "0 \<le> as_int w \<and> as_int w \<le> int n"
proof -
  have "as_int w = int (unat w)" using as_int_small [of "unat w"] assms by simp
  moreover have "int (unat w) \<le> int n" using assms(1) by (simp only: of_nat_le_iff)
  ultimately show ?thesis by simp
qed

text \<open>Without a target the decoder only counts, and agrees with the run that stores.\<close>

lemma pton_step_null:
  "pton_step targsize v (p\<lparr>target := Some bs\<rparr>) = Some q \<Longrightarrow>
   pton_step targsize v (p\<lparr>target := None\<rparr>) = Some (q\<lparr>target := None\<rparr>)"
  by (auto simp: pton_step_def put_target_def Let_def split: if_splits)

lemma pton_loop_rest:
  "pton_loop targsize src p = Inr (q, r) \<Longrightarrow> r = [] \<or> (\<exists>r'. r = Pad64 # r')"
proof (induction targsize src p rule: pton_loop.induct)
  case (2 targsize ch src p)
  then show ?case by (auto simp: pton_loop.simps(2) split: if_splits option.splits)
qed (simp add: pton_loop.simps)

lemma f_b64_pton_strip: "f_b64_pton (strip src) tgt targsize = f_b64_pton src tgt targsize"
proof (cases "pton_loop targsize src \<lparr>state = 0, tarindex = 0, target = tgt\<rparr>")
  case (Inl t)
  then show ?thesis by (simp add: f_b64_pton_def pton_loop_strip)
next
  case (Inr qr)
  obtain q r where qr: "qr = (q, r)" by fastforce
  then have "r = [] \<or> (\<exists>r'. r = Pad64 # r')" using pton_loop_rest Inr by blast
  then show ?thesis
    using Inr qr by (auto simp: f_b64_pton_def pton_loop_strip pton_pad_strip)
qed

end
