(* ===== verification/LdbSlice.thy ===== *)
theory LdbSlice
  imports Prelude "HOL-Library.List_Lexorder"
begin

text \<open>
  \<open>include/leveldb/slice.h\<close>: a \<open>Slice\<close> is a pointer with a length into bytes somebody
  else keeps, and stands here for the bytes it refers to; a \<open>std::string\<close> is the list of
  its bytes as well. \<open>memcmp\<close> compares bytes as unsigned numbers; of its result the
  program uses the sign only, and the model returns -1, 0 or 1. Slices compare as byte
  strings in lexicographic order.
\<close>

type_synonym slice = "byte list"

section \<open>Operations\<close>

definition remove_prefix :: "nat \<Rightarrow> slice \<Rightarrow> slice" where
  "remove_prefix n s = drop n s"

fun memcmp :: "byte list \<Rightarrow> byte list \<Rightarrow> nat \<Rightarrow> int" where
  "memcmp (a # as) (b # bs) (Suc n) =
     (if a < b then - 1 else if b < a then 1 else memcmp as bs n)"
| "memcmp as bs n = 0"

definition starts_with :: "slice \<Rightarrow> slice \<Rightarrow> bool" where
  "starts_with s x \<longleftrightarrow> length s \<ge> length x \<and> memcmp s x (length x) = 0"

definition slice_eq :: "slice \<Rightarrow> slice \<Rightarrow> bool" where
  "slice_eq x y \<longleftrightarrow> length x = length y \<and> memcmp x y (length x) = 0"

definition compare :: "slice \<Rightarrow> slice \<Rightarrow> int" where
  "compare s b =
     (let min_len = (if length s < length b then length s else length b);
          r = memcmp s b min_len
      in if r = 0 then (if length s < length b then - 1 else if length s > length b then 1 else r)
         else r)"

section \<open>Comparison is the lexicographic order\<close>

lemma memcmp_zero_iff:
  "n \<le> length s \<Longrightarrow> n \<le> length b \<Longrightarrow> memcmp s b n = 0 \<longleftrightarrow> take n s = take n b"
  by (induction s b n rule: memcmp.induct) auto

lemma starts_with_iff: "starts_with s x \<longleftrightarrow> (\<exists>r. s = x @ r)"
proof
  assume "starts_with s x"
  then have "take (length x) s = x" by (auto simp: starts_with_def memcmp_zero_iff)
  then have "s = x @ drop (length x) s" by (metis append_take_drop_id)
  then show "\<exists>r. s = x @ r" by blast
next
  assume "\<exists>r. s = x @ r"
  then show "starts_with s x" by (auto simp: starts_with_def memcmp_zero_iff)
qed

lemma slice_eq_iff: "slice_eq x y \<longleftrightarrow> x = y"
  by (auto simp: slice_eq_def memcmp_zero_iff)

lemma compare_nil: "compare [] b = (if b = [] then 0 else - 1)" "compare (a # s) [] = 1"
  by (auto simp: compare_def)

lemma compare_Cons:
  "compare (a # s) (b # t) = (if a < b then - 1 else if b < a then 1 else compare s t)"
  by (auto simp: compare_def Let_def)

lemma compare_sign:
  "compare s t = (if s < t then - 1 else if t < s then 1 else 0)"
proof (induction s arbitrary: t)
  case Nil
  then show ?case by (cases t) (auto simp: compare_nil)
next
  case (Cons a s)
  then show ?case by (cases t) (auto simp: compare_nil compare_Cons)
qed

lemma compare_simps:
  "compare s t < 0 \<longleftrightarrow> s < t" "compare s t = 0 \<longleftrightarrow> s = t" "compare s t > 0 \<longleftrightarrow> t < s"
  "compare s t \<le> 0 \<longleftrightarrow> s \<le> t" "compare s t \<ge> 0 \<longleftrightarrow> t \<le> s"
  by (auto simp: compare_sign)

end
