(* ===== verification/LdbCoding.thy ===== *)
theory LdbCoding
  imports LdbSlice CMemory
begin

text \<open>
  \<open>util/coding.h\<close> and \<open>util/coding.cc\<close>: fixed-width and variable-width integers and
  length-prefixed strings. A \<open>Put\<close> routine is the function from the string before to
  the string after; a \<open>Get\<close> routine that parses from \<open>p\<close> up to \<open>limit\<close> takes the
  bytes in between and returns the value with the bytes left, or None for \<open>nullptr\<close> and
  \<open>false\<close>. The contract \<open>slice_codec\<close> relates the two sides; formats built from others
  inherit it.
\<close>

section \<open>Fixed-width integers\<close>

definition kLittleEndian :: bool where
  "kLittleEndian = True"

definition EncodeFixed32 :: "u32 \<Rightarrow> byte list" where
  "EncodeFixed32 value =
     (if kLittleEndian then le_bytes 4 value
      else [ucast (value AND 0xff), ucast (drop_bit 8 value AND 0xff),
            ucast (drop_bit 16 value AND 0xff), ucast (drop_bit 24 value AND 0xff)])"

definition EncodeFixed64 :: "u64 \<Rightarrow> byte list" where
  "EncodeFixed64 value =
     (if kLittleEndian then le_bytes 8 value
      else [ucast (value AND 0xff), ucast (drop_bit 8 value AND 0xff),
            ucast (drop_bit 16 value AND 0xff), ucast (drop_bit 24 value AND 0xff),
            ucast (drop_bit 32 value AND 0xff), ucast (drop_bit 40 value AND 0xff),
            ucast (drop_bit 48 value AND 0xff), ucast (drop_bit 56 value AND 0xff)])"

definition PutFixed32 :: "byte list \<Rightarrow> u32 \<Rightarrow> byte list" where
  "PutFixed32 dst value = dst @ EncodeFixed32 value"

definition PutFixed64 :: "byte list \<Rightarrow> u64 \<Rightarrow> byte list" where
  "PutFixed64 dst value = dst @ EncodeFixed64 value"

definition DecodeFixed32 :: "byte list \<Rightarrow> u32" where
  "DecodeFixed32 ptr =
     (if kLittleEndian then le_word (take 4 ptr)
      else ucast (ptr ! 0) OR push_bit 8 (ucast (ptr ! 1)) OR
           push_bit 16 (ucast (ptr ! 2)) OR push_bit 24 (ucast (ptr ! 3)))"

definition DecodeFixed64 :: "byte list \<Rightarrow> u64" where
  "DecodeFixed64 ptr =
     (if kLittleEndian then le_word (take 8 ptr)
      else let lo = ucast (DecodeFixed32 ptr); hi = ucast (DecodeFixed32 (drop 4 ptr))
           in push_bit 32 hi OR lo)"

section \<open>Variable-width integers\<close>

definition EncodeVarint32 :: "u32 \<Rightarrow> byte list" where
  "EncodeVarint32 v =
     (if v < push_bit 7 1 then [ucast v]
      else if v < push_bit 14 1 then [ucast (v OR 128), ucast (drop_bit 7 v)]
      else if v < push_bit 21 1
      then [ucast (v OR 128), ucast (drop_bit 7 v OR 128), ucast (drop_bit 14 v)]
      else if v < push_bit 28 1
      then [ucast (v OR 128), ucast (drop_bit 7 v OR 128), ucast (drop_bit 14 v OR 128),
            ucast (drop_bit 21 v)]
      else [ucast (v OR 128), ucast (drop_bit 7 v OR 128), ucast (drop_bit 14 v OR 128),
            ucast (drop_bit 21 v OR 128), ucast (drop_bit 28 v)])"

definition PutVarint32 :: "byte list \<Rightarrow> u32 \<Rightarrow> byte list" where
  "PutVarint32 dst v = dst @ EncodeVarint32 v"

lemma unat_drop7_less_128: "128 \<le> v \<Longrightarrow> unat (drop_bit 7 (v :: u64)) < unat v"
  by (rule unat_drop7_less) auto

function EncodeVarint64 :: "u64 \<Rightarrow> byte list" where
  "EncodeVarint64 v =
     (if v \<ge> 128 then ucast (v OR 128) # EncodeVarint64 (drop_bit 7 v) else [ucast v])"
  by pat_completeness auto
termination
  by (relation "measure unat") (auto intro: unat_drop7_less_128)

declare EncodeVarint64.simps [simp del]

definition PutVarint64 :: "byte list \<Rightarrow> u64 \<Rightarrow> byte list" where
  "PutVarint64 dst v = dst @ EncodeVarint64 v"

function varint_length_loop :: "u64 \<Rightarrow> nat \<Rightarrow> nat" where
  "varint_length_loop v len =
     (if v \<ge> 128 then varint_length_loop (drop_bit 7 v) (len + 1) else len)"
  by pat_completeness auto
termination
  by (relation "measure (\<lambda>(v, len). unat v)") (auto intro: unat_drop7_less_128)

declare varint_length_loop.simps [simp del]

definition VarintLength :: "u64 \<Rightarrow> nat" where
  "VarintLength v = varint_length_loop v 1"

text \<open>The loop of both decoders; \<open>lim\<close> is the last shift it tries.\<close>

fun get_varint_loop :: "nat \<Rightarrow> nat \<Rightarrow> 'a::len word \<Rightarrow> byte list \<Rightarrow> ('a word \<times> byte list) option" where
  "get_varint_loop lim shift result [] = None"
| "get_varint_loop lim shift result (b # p) =
     (if shift \<le> lim then
        (if b AND 128 \<noteq> 0
         then get_varint_loop lim (shift + 7) (result OR push_bit shift (ucast (b AND 127))) p
         else Some (result OR push_bit shift (ucast b), p))
      else None)"

definition GetVarint32PtrFallback :: "byte list \<Rightarrow> (u32 \<times> byte list) option" where
  "GetVarint32PtrFallback p = get_varint_loop 28 0 0 p"

definition GetVarint32Ptr :: "byte list \<Rightarrow> (u32 \<times> byte list) option" where
  "GetVarint32Ptr p =
     (if p \<noteq> [] \<and> ucast (hd p) AND (128 :: u32) = 0 then Some (ucast (hd p), tl p)
      else GetVarint32PtrFallback p)"

definition GetVarint64Ptr :: "byte list \<Rightarrow> (u64 \<times> byte list) option" where
  "GetVarint64Ptr p = get_varint_loop 63 0 0 p"

definition GetVarint32 :: "slice \<Rightarrow> (u32 \<times> slice) option" where
  "GetVarint32 input =
     (case GetVarint32Ptr input of None \<Rightarrow> None | Some (v, q) \<Rightarrow> Some (v, q))"

definition GetVarint64 :: "slice \<Rightarrow> (u64 \<times> slice) option" where
  "GetVarint64 input =
     (case GetVarint64Ptr input of None \<Rightarrow> None | Some (v, q) \<Rightarrow> Some (v, q))"

section \<open>Length-prefixed strings\<close>

definition PutLengthPrefixedSlice :: "byte list \<Rightarrow> slice \<Rightarrow> byte list" where
  "PutLengthPrefixedSlice dst v = PutVarint32 dst (word_of_nat (length v)) @ v"

definition GetLengthPrefixedSlicePtr :: "byte list \<Rightarrow> (slice \<times> byte list) option" where
  "GetLengthPrefixedSlicePtr p =
     (case GetVarint32Ptr p of
        None \<Rightarrow> None
      | Some (len, q) \<Rightarrow> if unat len > length q then None else Some (take (unat len) q, drop (unat len) q))"

definition GetLengthPrefixedSlice :: "slice \<Rightarrow> (slice \<times> slice) option" where
  "GetLengthPrefixedSlice input =
     (case GetVarint32 input of
        None \<Rightarrow> None
      | Some (len, q) \<Rightarrow>
          if length q \<ge> unat len then Some (take (unat len) q, remove_prefix (unat len) q) else None)"

section \<open>Fixed-width round trips\<close>

lemma EncodeFixed_le: "EncodeFixed32 v = le_bytes 4 v" "EncodeFixed64 w = le_bytes 8 w"
  by (simp_all add: EncodeFixed32_def EncodeFixed64_def kLittleEndian_def)

lemma length_EncodeFixed [simp]: "length (EncodeFixed32 v) = 4" "length (EncodeFixed64 w) = 8"
  by (simp_all add: EncodeFixed_le)

lemma DecodeFixed32_Encode: "DecodeFixed32 (EncodeFixed32 v @ rest) = v"
  by (simp add: DecodeFixed32_def kLittleEndian_def EncodeFixed_le le_word_le_bytes)

lemma DecodeFixed64_Encode: "DecodeFixed64 (EncodeFixed64 v @ rest) = v"
  by (simp add: DecodeFixed64_def kLittleEndian_def EncodeFixed_le le_word_le_bytes)

lemma fold_PutFixed32: "fold (\<lambda>r dst. PutFixed32 dst r) rs dst = dst @ concat (map EncodeFixed32 rs)"
  by (induction rs arbitrary: dst) (auto simp: PutFixed32_def)

lemma length_EncodeFixed32s [simp]: "length (concat (map (\<lambda>r. EncodeFixed32 (f r)) rs)) = length rs * 4"
  by (induction rs) simp_all

lemma drop_EncodeFixed32s:
  "j < length rs \<Longrightarrow> drop (j * 4) (concat (map (\<lambda>r. EncodeFixed32 (f r)) rs) @ x) =
     EncodeFixed32 (f (rs ! j)) @ drop (Suc j * 4) (concat (map (\<lambda>r. EncodeFixed32 (f r)) rs) @ x)"
proof (induction rs arbitrary: j)
  case (Cons r rs)
  then show ?case by (cases j) simp_all
qed simp

lemma EncodeFixed32_Decode:
  assumes "4 \<le> length p"
  shows "EncodeFixed32 (DecodeFixed32 p) = take 4 p"
proof -
  have n: "length (take 4 p) = 4" using assms by simp
  have "le_bytes (length (take 4 p)) (le_word (take 4 p) :: u32) = take 4 p"
    by (rule le_bytes_le_word) (simp add: n)
  then show ?thesis unfolding n by (simp add: DecodeFixed32_def kLittleEndian_def EncodeFixed_le)
qed

section \<open>Variable-width round trips\<close>

lemma bit_128: "bit (128 :: 'a::len word) i \<longleftrightarrow> i = 7 \<and> 7 < LENGTH('a)"
  using bit_exp_iff [of 7 i, where 'a = "'a word"] by auto

lemma bit_128_int: "bit (128 :: int) i \<longleftrightarrow> i = 7"
  using bit_exp_iff [of 7 i, where 'a = int] by auto

lemma take_bit_small: "v < 2 ^ n \<Longrightarrow> take_bit n v = (v :: 'a::len word)"
  by (simp add: take_bit_eq_mod mod_word_less)

lemma flag_byte:
  assumes "8 \<le> LENGTH('a)"
  shows "ucast (v OR 128 :: 'a::len word) AND (128 :: byte) \<noteq> 0"
proof -
  have "bit (ucast (v OR 128) :: byte) 7" using assms by (simp add: bit_simps bit_128)
  then show ?thesis using and_80 by simp
qed

lemma low_seven:
  assumes "8 \<le> LENGTH('a)" and "8 \<le> LENGTH('b)"
  shows "(ucast (ucast (v OR 128 :: 'a::len word) AND (127 :: byte)) :: 'b::len word) =
    ucast (take_bit 7 v)"
proof (rule bit_word_eqI)
  fix i
  assume "i < LENGTH('b)"
  then show "bit (ucast (ucast (v OR 128) AND (127 :: byte)) :: 'b word) i =
      bit (ucast (take_bit 7 v) :: 'b word) i"
    using assms by (auto simp: bit_simps and_7F bit_128 bit_128_int)
qed

lemma no_flag: "v < 128 \<Longrightarrow> ucast (v :: u64) AND (128 :: byte) = 0"
proof -
  assume "v < 128"
  then have "take_bit 7 v = v" by (intro take_bit_small) simp
  then have "\<not> bit v 7" by (metis bit_take_bit_iff less_irrefl)
  then show ?thesis using and_80 [of "ucast v"] by (simp add: bit_simps)
qed

text \<open>What the loop reads from a varint, when the last byte is not beyond the limit.\<close>

lemma get_varint_known:
  assumes "8 \<le> LENGTH('a::len)" and "shift + 7 * length (EncodeVarint64 v) \<le> lim + 7"
  shows "get_varint_loop lim shift (r :: 'a word) (EncodeVarint64 v @ rest) =
    Some (r OR push_bit shift (ucast v), rest)"
  using assms(2)
proof (induction v arbitrary: shift r rule: EncodeVarint64.induct)
  case (1 v)
  show ?case
  proof (cases "v \<ge> 128")
    case True
    then have e: "EncodeVarint64 v = ucast (v OR 128) # EncodeVarint64 (drop_bit 7 v)"
      by (subst EncodeVarint64.simps) simp
    have join: "push_bit shift (ucast (take_bit 7 v)) OR push_bit (shift + 7) (ucast (drop_bit 7 v)) =
        (push_bit shift (ucast v) :: 'a word)"
    proof (rule bit_word_eqI)
      fix i assume "i < LENGTH('a)"
      moreover have "7 + (i - (shift + 7)) = i - shift" if "\<not> i - shift < 7" using that by simp
      ultimately show "bit (push_bit shift (ucast (take_bit 7 v)) OR
          push_bit (shift + 7) (ucast (drop_bit 7 v)) :: 'a word) i = bit (push_bit shift (ucast v) :: 'a word) i"
        by (cases "i - shift < 7") (auto simp: bit_simps)
    qed
    show ?thesis
      using 1 True assms(1) flag_byte [of v]
      by (simp add: e low_seven join or.assoc)
  next
    case False
    then have e: "EncodeVarint64 v = [ucast v]" by (subst EncodeVarint64.simps) simp
    have "(ucast (ucast v :: byte) :: 'a word) = ucast v"
    proof (rule bit_word_eqI)
      fix i assume "i < LENGTH('a)"
      have "take_bit 7 v = v" using False by (intro take_bit_small) simp
      then have "bit v i \<Longrightarrow> i < 7" by (metis bit_take_bit_iff)
      then show "bit (ucast (ucast v :: byte) :: 'a word) i = bit (ucast v :: 'a word) i"
        by (auto simp: bit_simps)
    qed
    then show ?thesis using 1 False by (simp add: e no_flag)
  qed
qed

section \<open>The 32-bit encoder is the 64-bit one\<close>

lemma ucast_OR_128: "(ucast (ucast (v :: u32) OR (128 :: u64)) :: byte) = ucast (v OR 128)"
  by (rule bit_word_eqI) (auto simp: bit_simps bit_128 bit_128_int)

lemma ucast_drop: "drop_bit n (ucast (v :: u32) :: u64) = ucast (drop_bit n v)"
  by (rule bit_word_eqI) (auto simp: bit_simps dest: bit_imp_le_length)

lemma ucast_ucast_byte: "(ucast (ucast (v :: u32) :: u64) :: byte) = ucast v"
  by (rule bit_word_eqI) (auto simp: bit_simps)

lemma unat_ucast_up: "unat (ucast (v :: u32) :: u64) = unat v"
  by (simp add: unsigned_ucast_eq take_bit_nat_eq_self order_less_le_trans [OF unat_u32_less])

lemma ucast_ge_128: "128 \<le> (ucast (v :: u32) :: u64) \<longleftrightarrow> 128 \<le> v"
  by (simp add: word_le_nat_alt unat_ucast_up)

lemma unat_drop_u32: "unat (drop_bit n (v :: u32)) = unat v div 2 ^ n"
proof -
  have "unat (drop_bit n v) = drop_bit n (unat v)"
    by (simp only: unsigned_drop_bit_eq) (simp add: take_bit_nat_eq_self order_less_le_trans [OF unat_u32_less])
  then show ?thesis by (simp only: drop_bit_eq_div)
qed

lemma drop_ge_128: "128 \<le> drop_bit n (v :: u32) \<longleftrightarrow> 2 ^ (n + 7) \<le> unat v"
proof -
  have "128 \<le> drop_bit n v \<longleftrightarrow> 2 ^ 7 \<le> unat v div 2 ^ n" by (simp add: word_le_nat_alt unat_drop_u32)
  also have "\<dots> \<longleftrightarrow> 2 ^ 7 * 2 ^ n \<le> unat v" by (rule less_eq_div_iff_mult_less_eq) simp
  finally show ?thesis by (simp add: power_add mult.commute)
qed

lemma EncodeVarint32_64: "EncodeVarint32 v = EncodeVarint64 (ucast v)"
proof -
  have step: "EncodeVarint64 (ucast x) = (if 128 \<le> x then ucast (x OR 128) # EncodeVarint64 (ucast (drop_bit 7 x))
      else [ucast x])" for x :: u32
    by (subst EncodeVarint64.simps) (simp add: ucast_ge_128 ucast_OR_128 ucast_drop ucast_ucast_byte)
  have d: "unat v < 34359738368" using unat_u32_less [of v] by simp
  then show ?thesis
    by (simp add: EncodeVarint32_def step [of v] step [of "drop_bit 7 v"] step [of "drop_bit 14 v"]
        step [of "drop_bit 21 v"] step [of "drop_bit 28 v"] drop_ge_128
        drop_ge_128 [of 0 v, simplified] word_less_nat_alt not_le)
qed

section \<open>Lengths\<close>

lemma EncodeVarint64_length_le: "unat v < 128 ^ k \<Longrightarrow> 0 < k \<Longrightarrow> length (EncodeVarint64 v) \<le> k"
proof (induction v arbitrary: k rule: EncodeVarint64.induct)
  case (1 v)
  show ?case
  proof (cases "v \<ge> 128")
    case True
    with 1 have "k \<noteq> 1" by (auto simp: word_le_nat_alt)
    with 1 obtain j where k: "k = Suc j" "0 < j" by (cases k) auto
    have "unat (drop_bit 7 v) < 128 ^ j"
      unfolding unat_drop7 using 1 k by (intro less_mult_imp_div_less) (simp add: mult.commute)
    with True k 1 show ?thesis by (subst EncodeVarint64.simps) auto
  next
    case False
    with 1 show ?thesis by (subst EncodeVarint64.simps) auto
  qed
qed

lemma EncodeVarint64_length: "length (EncodeVarint64 v) \<le> 10"
  using unat_u64_less [of v] by (intro EncodeVarint64_length_le) auto

lemma EncodeVarint32_length: "length (EncodeVarint32 v) \<le> 5"
  using unat_u32_less [of v] by (simp add: EncodeVarint32_64 unat_ucast_up EncodeVarint64_length_le)

lemma EncodeVarint64_nonempty [simp]: "EncodeVarint64 v \<noteq> []"
  by (subst EncodeVarint64.simps) simp

lemma varint_length_loop_add: "varint_length_loop v len + 1 = len + length (EncodeVarint64 v)"
proof (induction v len rule: varint_length_loop.induct)
  case (1 v len)
  then show ?case by (subst varint_length_loop.simps, subst EncodeVarint64.simps) auto
qed

lemma VarintLength_eq: "VarintLength v = length (EncodeVarint64 v)"
  using varint_length_loop_add [of v 1] by (simp add: VarintLength_def)

section \<open>The contract of an encoder and its parser\<close>

text \<open>
  \<open>enc\<close> appends a value, \<open>get\<close> parses one from the front of a slice. \<open>ok\<close> are the
  values the format can represent.
\<close>

locale slice_codec =
  fixes ok :: "'v \<Rightarrow> bool" and enc :: "'v \<Rightarrow> byte list" and get :: "slice \<Rightarrow> ('v \<times> slice) option"
  assumes get_enc: "ok v \<Longrightarrow> get (enc v @ rest) = Some (v, rest)"
    and truncated: "ok v \<Longrightarrow> k < length (enc v) \<Longrightarrow> get (take k (enc v)) = None"
begin

lemma self_delimiting:
  assumes "ok v" and "ok w" and "enc v @ r = enc w @ r'"
  shows "v = w \<and> r = r'"
proof -
  have "get (enc w @ r') = Some (v, r)" using get_enc [OF assms(1), of r] by (simp only: assms(3))
  then show ?thesis using get_enc [OF assms(2), of r'] by simp
qed

lemma injective: "ok v \<Longrightarrow> ok w \<Longrightarrow> enc v = enc w \<longleftrightarrow> v = w"
  using self_delimiting [of v w "[]" "[]"] by auto

text \<open>A truncated input is refused, however it is continued in the format.\<close>

lemma prefix_refused: "ok v \<Longrightarrow> enc v = p @ q \<Longrightarrow> q \<noteq> [] \<Longrightarrow> get p = None"
  using truncated [of v "length p"] by simp

end

text \<open>Two formats one after the other.\<close>

definition get_pair ::
    "(slice \<Rightarrow> ('v \<times> slice) option) \<Rightarrow> (slice \<Rightarrow> ('w \<times> slice) option) \<Rightarrow> slice \<Rightarrow> (('v \<times> 'w) \<times> slice) option" where
  "get_pair g h s = (case g s of None \<Rightarrow> None
     | Some (v, s') \<Rightarrow> (case h s' of None \<Rightarrow> None | Some (w, s'') \<Rightarrow> Some ((v, w), s'')))"

lemma slice_codec_pair:
  assumes "slice_codec ok1 enc1 get1" and "slice_codec ok2 enc2 get2"
  shows "slice_codec (\<lambda>(v, w). ok1 v \<and> ok2 w) (\<lambda>(v, w). enc1 v @ enc2 w) (get_pair get1 get2)"
proof unfold_locales
  fix p :: "'a \<times> 'b" and rest
  assume "case p of (v, w) \<Rightarrow> ok1 v \<and> ok2 w"
  then show "get_pair get1 get2 ((case p of (v, w) \<Rightarrow> enc1 v @ enc2 w) @ rest) = Some (p, rest)"
    using slice_codec.get_enc [OF assms(1)] slice_codec.get_enc [OF assms(2)]
    by (auto simp: get_pair_def split: prod.splits)
next
  fix p :: "'a \<times> 'b" and k
  assume ok: "case p of (v, w) \<Rightarrow> ok1 v \<and> ok2 w" and k: "k < length (case p of (v, w) \<Rightarrow> enc1 v @ enc2 w)"
  obtain v w where p: "p = (v, w)" by (cases p)
  show "get_pair get1 get2 (take k (case p of (v, w) \<Rightarrow> enc1 v @ enc2 w)) = None"
  proof (cases "k < length (enc1 v)")
    case True
    then show ?thesis
      using ok slice_codec.truncated [OF assms(1), of v k] by (simp add: p get_pair_def)
  next
    case False
    have "get2 (take (k - length (enc1 v)) (enc2 w)) = None"
      using ok k False by (intro slice_codec.truncated [OF assms(2)]) (auto simp: p)
    then show ?thesis
      using ok False slice_codec.get_enc [OF assms(1), of v] by (simp add: p get_pair_def)
  qed
qed

section \<open>The codecs of the file\<close>

lemma get_varint_truncated:
  assumes "8 \<le> LENGTH('a::len)" and "k < length (EncodeVarint64 v)"
  shows "get_varint_loop lim shift (r :: 'a word) (take k (EncodeVarint64 v)) = None"
  using assms(2)
proof (induction v arbitrary: k shift r rule: EncodeVarint64.induct)
  case (1 v)
  show ?case
  proof (cases k)
    case (Suc j)
    show ?thesis
    proof (cases "v \<ge> 128")
      case True
      then have e: "EncodeVarint64 v = ucast (v OR 128) # EncodeVarint64 (drop_bit 7 v)"
        by (subst EncodeVarint64.simps) simp
      show ?thesis using 1 True Suc flag_byte [of v] by (simp add: e)
    next
      case False
      then have "EncodeVarint64 v = [ucast v]" by (subst EncodeVarint64.simps) simp
      then show ?thesis using "1.prems" Suc by simp
    qed
  qed simp
qed

lemma GetVarint32_loop: "GetVarint32 s = get_varint_loop 28 0 0 s"
proof (cases s)
  case (Cons b p)
  have "ucast b AND (128 :: u32) = 0 \<longleftrightarrow> b AND 128 = 0"
  proof -
    have "ucast b AND (128 :: u32) = 0 \<longleftrightarrow> \<not> bit (ucast b :: u32) 7"
      using and_exp_eq_0_iff_not_bit [of "ucast b :: u32" 7] by simp
    then show ?thesis by (simp add: and_80 bit_simps)
  qed
  then show ?thesis
    by (auto simp: Cons GetVarint32_def GetVarint32Ptr_def GetVarint32PtrFallback_def
        split: option.splits)
qed (simp add: GetVarint32_def GetVarint32Ptr_def GetVarint32PtrFallback_def)

lemma GetVarint32Ptr_eq: "GetVarint32Ptr = GetVarint32"
  by (rule ext) (simp add: GetVarint32_def split: option.splits)

lemma GetVarint64_loop: "GetVarint64 s = get_varint_loop 63 0 0 s"
  by (simp add: GetVarint64_def GetVarint64Ptr_def split: option.splits)

lemma ucast_ucast_u32: "(ucast (ucast (v :: u32) :: u64) :: u32) = v"
  by (rule bit_word_eqI) (auto simp: bit_simps)

interpretation varint32: slice_codec "\<lambda>v. True" EncodeVarint32 GetVarint32
proof unfold_locales
  fix v :: u32 and rest
  have "length (EncodeVarint64 (ucast v)) \<le> 5"
    using EncodeVarint32_length [of v] by (simp add: EncodeVarint32_64)
  then show "GetVarint32 (EncodeVarint32 v @ rest) = Some (v, rest)"
    using get_varint_known [of 0 "ucast v" 28 "0 :: u32" rest]
    by (simp add: GetVarint32_loop EncodeVarint32_64 ucast_ucast_u32)
next
  fix v k
  assume "k < length (EncodeVarint32 v)"
  then show "GetVarint32 (take k (EncodeVarint32 v)) = None"
    by (simp add: GetVarint32_loop EncodeVarint32_64 get_varint_truncated)
qed

interpretation varint64: slice_codec "\<lambda>v. True" EncodeVarint64 GetVarint64
proof unfold_locales
  fix v rest
  show "GetVarint64 (EncodeVarint64 v @ rest) = Some (v, rest)"
    using get_varint_known [of 0 v 63 "0 :: u64" rest] EncodeVarint64_length [of v]
    by (simp add: GetVarint64_loop)
next
  fix v k
  assume "k < length (EncodeVarint64 v)"
  then show "GetVarint64 (take k (EncodeVarint64 v)) = None"
    by (simp add: GetVarint64_loop get_varint_truncated)
qed

section \<open>Length-prefixed strings\<close>

definition enc_slice :: "slice \<Rightarrow> byte list" where
  "enc_slice v = PutLengthPrefixedSlice [] v"

definition slice_fits :: "slice \<Rightarrow> bool" where
  "slice_fits v \<longleftrightarrow> length v < 2 ^ 32"

lemma PutLengthPrefixedSlice_append: "PutLengthPrefixedSlice dst v = dst @ enc_slice v"
  by (simp add: PutLengthPrefixedSlice_def PutVarint32_def enc_slice_def)

lemma enc_slice_eq: "enc_slice v = EncodeVarint32 (word_of_nat (length v)) @ v"
  by (simp add: PutLengthPrefixedSlice_def PutVarint32_def enc_slice_def)

lemma unat_length: "slice_fits v \<Longrightarrow> unat (word_of_nat (length v) :: u32) = length v"
  by (simp add: slice_fits_def unat_of_nat)

lemma GetLengthPrefixedSlicePtr_eq: "GetLengthPrefixedSlicePtr = GetLengthPrefixedSlice"
  by (rule ext) (auto simp: GetLengthPrefixedSlicePtr_def GetLengthPrefixedSlice_def
      GetVarint32Ptr_eq remove_prefix_def split: option.splits)

interpretation prefixed: slice_codec slice_fits enc_slice GetLengthPrefixedSlice
proof unfold_locales
  fix v rest
  assume "slice_fits v"
  then show "GetLengthPrefixedSlice (enc_slice v @ rest) = Some (v, rest)"
    by (simp add: GetLengthPrefixedSlice_def enc_slice_eq varint32.get_enc remove_prefix_def unat_length)
next
  fix v k
  assume v: "slice_fits v" and k: "k < length (enc_slice v)"
  let ?e = "EncodeVarint32 (word_of_nat (length v))"
  show "GetLengthPrefixedSlice (take k (enc_slice v)) = None"
  proof (cases "k < length ?e")
    case True
    then show ?thesis by (simp add: GetLengthPrefixedSlice_def enc_slice_eq varint32.truncated)
  next
    case False
    then have "take k (enc_slice v) = ?e @ take (k - length ?e) v" by (simp add: enc_slice_eq)
    then show ?thesis
      using v k False by (simp add: GetLengthPrefixedSlice_def enc_slice_eq varint32.get_enc unat_length)
  qed
qed

end
