(* ===== verification/LdbStatus.thy ===== *)
theory LdbStatus
  imports LdbCoding
begin

text \<open>
  \<open>include/leveldb/status.h\<close> and \<open>util/status.cc\<close>: a \<open>Status\<close> is a pointer \<open>state_\<close>, null for
  success (None), or an array with the length of the message, the code and the message.
\<close>

datatype Code = kOk | kNotFound | kCorruption | kNotSupported | kInvalidArgument | kIOError

primrec Code_value :: "Code \<Rightarrow> byte" where
  "Code_value kOk = 0"
| "Code_value kNotFound = 1"
| "Code_value kCorruption = 2"
| "Code_value kNotSupported = 3"
| "Code_value kInvalidArgument = 4"
| "Code_value kIOError = 5"

type_synonym Status = "byte list option"

text \<open>A string literal as bytes.\<close>

definition lit :: "string \<Rightarrow> byte list" where
  "lit s = map of_char s"

definition CopyState :: "byte list \<Rightarrow> byte list" where
  "CopyState state = (let sz = DecodeFixed32 state in take (unat (sz + 5)) state)"

definition new_Status :: "Code \<Rightarrow> slice \<Rightarrow> slice \<Rightarrow> Status" where
  "new_Status c msg msg2 =
     (let len1 = word_of_nat (length msg) :: u32; len2 = word_of_nat (length msg2) :: u32;
          sz = len1 + (if len2 \<noteq> 0 then 2 + len2 else 0)
      in Some (EncodeFixed32 sz @ [Code_value c] @ take (unat len1) msg @
           (if len2 \<noteq> 0 then lit '': '' @ take (unat len2) msg2 else [])))"

definition OK :: Status where "OK = None"

definition NotFound :: "slice \<Rightarrow> slice \<Rightarrow> Status" where
  "NotFound msg msg2 = new_Status kNotFound msg msg2"

definition Corruption :: "slice \<Rightarrow> slice \<Rightarrow> Status" where
  "Corruption msg msg2 = new_Status kCorruption msg msg2"

definition NotSupported :: "slice \<Rightarrow> slice \<Rightarrow> Status" where
  "NotSupported msg msg2 = new_Status kNotSupported msg msg2"

definition InvalidArgument :: "slice \<Rightarrow> slice \<Rightarrow> Status" where
  "InvalidArgument msg msg2 = new_Status kInvalidArgument msg msg2"

definition IOError :: "slice \<Rightarrow> slice \<Rightarrow> Status" where
  "IOError msg msg2 = new_Status kIOError msg msg2"

definition ok :: "Status \<Rightarrow> bool" where
  "ok s \<longleftrightarrow> s = None"

definition code :: "Status \<Rightarrow> byte" where
  "code s = (case s of None \<Rightarrow> Code_value kOk | Some st \<Rightarrow> st ! 4)"

definition IsNotFound :: "Status \<Rightarrow> bool" where "IsNotFound s \<longleftrightarrow> code s = Code_value kNotFound"
definition IsCorruption :: "Status \<Rightarrow> bool" where "IsCorruption s \<longleftrightarrow> code s = Code_value kCorruption"
definition IsIOError :: "Status \<Rightarrow> bool" where "IsIOError s \<longleftrightarrow> code s = Code_value kIOError"
definition IsNotSupportedError :: "Status \<Rightarrow> bool" where
  "IsNotSupportedError s \<longleftrightarrow> code s = Code_value kNotSupported"
definition IsInvalidArgument :: "Status \<Rightarrow> bool" where
  "IsInvalidArgument s \<longleftrightarrow> code s = Code_value kInvalidArgument"

text \<open>The \<open>default\<close> branch, which prints the number of an unknown code, is None: a status is
  built from one of the codes.\<close>

definition ToString :: "Status \<Rightarrow> byte list option" where
  "ToString s = (case s of None \<Rightarrow> Some (lit ''OK'')
     | Some st \<Rightarrow>
         (let c = code s;
              type = (if c = Code_value kOk then Some (lit ''OK'')
                      else if c = Code_value kNotFound then Some (lit ''NotFound: '')
                      else if c = Code_value kCorruption then Some (lit ''Corruption: '')
                      else if c = Code_value kNotSupported then Some (lit ''Not implemented: '')
                      else if c = Code_value kInvalidArgument then Some (lit ''Invalid argument: '')
                      else if c = Code_value kIOError then Some (lit ''IO error: '')
                      else None)
          in map_option (\<lambda>t. t @ take (unat (DecodeFixed32 st)) (drop 5 st)) type))"

section \<open>What a status carries\<close>

lemma ok_OK [simp]: "ok OK" "ok None" "ok (Some x) = False" "ok (new_Status c m m2) = False"
  by (simp_all add: ok_def OK_def new_Status_def Let_def)

lemma code_Status: "code (new_Status c m m2) = Code_value c"
  by (simp add: code_def new_Status_def Let_def nth_append)

lemma Code_value_inject: "Code_value c = Code_value d \<longleftrightarrow> c = d"
  by (cases c; cases d) simp_all

text \<open>The message comes back with its class, the two parts separated by a colon.\<close>

definition status_text :: "slice \<Rightarrow> slice \<Rightarrow> byte list" where
  "status_text msg msg2 = msg @ (if msg2 = [] then [] else lit '': '' @ msg2)"

lemma Status_state:
  assumes "length msg + length msg2 + 2 < 2 ^ 32"
  shows "new_Status c msg msg2 =
    Some (EncodeFixed32 (word_of_nat (length (status_text msg msg2))) @ [Code_value c] @ status_text msg msg2)"
proof -
  have n: "unat (word_of_nat (length xs) :: u32) = length xs" if "length xs < 2 ^ 32" for xs :: slice
    using that by (simp add: unat_of_nat)
  have z: "word_of_nat (length xs) = (0 :: u32) \<longleftrightarrow> xs = []" if "length xs < 2 ^ 32" for xs :: slice
    using n [OF that] by (metis length_0_conv unat_eq_zero)
  show ?thesis
    using assms n [of msg] n [of msg2] z [of msg2]
    by (auto simp: new_Status_def status_text_def lit_def Let_def add.assoc)
qed

lemma ToString_Status:
  assumes "length msg + length msg2 + 2 < 2 ^ 32" and "c \<noteq> kOk"
  shows "\<exists>t. ToString (new_Status c msg msg2) = Some (t @ status_text msg msg2)"
proof -
  have "length (status_text msg msg2) < 2 ^ 32" using assms by (auto simp: status_text_def lit_def)
  then have n: "unat (word_of_nat (length (status_text msg msg2)) :: u32) = length (status_text msg msg2)"
    by (simp add: unat_of_nat)
  have d: "drop 5 (EncodeFixed32 x @ b # y) = y" for x b y by simp
  show ?thesis
    using assms(2) code_Status [of c msg msg2]
    by (cases c) (simp_all add: ToString_def Status_state [OF assms(1)] DecodeFixed32_Encode n)
qed

lemma CopyState_Status:
  assumes "length msg + length msg2 + 7 < 2 ^ 32" and "new_Status c msg msg2 = Some st"
  shows "CopyState st = st"
proof -
  let ?t = "status_text msg msg2"
  have t: "length ?t + 5 < 2 ^ 32" using assms(1) by (auto simp: status_text_def lit_def)
  have st: "st = EncodeFixed32 (word_of_nat (length ?t)) @ [Code_value c] @ ?t"
    using Status_state [of msg msg2 c] assms by simp
  have "word_of_nat (length ?t) + 5 = (word_of_nat (length ?t + 5) :: u32)" by simp
  then have "unat (word_of_nat (length ?t) + 5 :: u32) = length ?t + 5"
    using t by (simp only: unat_of_nat) simp
  moreover have "DecodeFixed32 st = word_of_nat (length ?t)" by (simp add: st DecodeFixed32_Encode)
  moreover have "length st = length ?t + 5" by (simp add: st)
  ultimately show ?thesis by (simp add: CopyState_def)
qed

end
