(* ===== verification/LdbEnv.thy ===== *)
theory LdbEnv
  imports LdbStatus "HOL-Library.Monad_Syntax"
begin

text \<open>
  The file interfaces of \<open>include/leveldb/env.h\<close>. An implementation is a record of operations
  on a file of any type; an operation that does not return is None. A read is given the address
  of its \<open>scratch\<close> and returns, besides its status, what it assigns to \<open>*result\<close>, if it does: the
  address of the bytes it found and the bytes. The contracts \<open>writable_file\<close>, \<open>sequential_file\<close>
  and \<open>random_access_file\<close> say what the comments of the header promise of a file without errors.
\<close>

type_synonym 'f file_op = "'f \<Rightarrow> (Status \<times> 'f) option"
type_synonym read_result = "(u64 \<times> slice) option"

record 'f SequentialFile =
  sf_Read :: "nat \<Rightarrow> u64 \<Rightarrow> 'f \<Rightarrow> ((Status \<times> read_result) \<times> 'f) option"
  sf_Skip :: "u64 \<Rightarrow> 'f file_op"

record 'f RandomAccessFile =
  raf_Read :: "u64 \<Rightarrow> nat \<Rightarrow> u64 \<Rightarrow> 'f \<Rightarrow> ((Status \<times> read_result) \<times> 'f) option"

record 'f WritableFile =
  wf_Append :: "slice \<Rightarrow> 'f file_op"
  wf_Close :: "'f file_op"
  wf_Flush :: "'f file_op"
  wf_Sync :: "'f file_op"

text \<open>\<open>written\<close> is all the file was given since it was opened, \<open>passed\<close> what of it the system has.\<close>

locale writable_file =
  fixes W :: "'f WritableFile" and good :: "'f \<Rightarrow> bool" and written :: "'f \<Rightarrow> byte list"
    and passed :: "'f \<Rightarrow> byte list"
  assumes append:
      "good f \<Longrightarrow> \<exists>f'. wf_Append W s f = Some (OK, f') \<and> good f' \<and> written f' = written f @ s"
    and flush: "good f \<Longrightarrow> \<exists>f'. wf_Flush W f = Some (OK, f') \<and> good f' \<and> written f' = written f \<and>
      passed f' = written f"

text \<open>\<open>unread\<close> are the bytes between the position and the end of the file.\<close>

locale sequential_file =
  fixes F :: "'f SequentialFile" and good :: "'f \<Rightarrow> bool" and unread :: "'f \<Rightarrow> byte list"
  assumes read: "good f \<Longrightarrow> 0 < n \<Longrightarrow> n < 2 ^ 63 \<Longrightarrow>
      \<exists>a f'. sf_Read F n scratch f = Some ((OK, Some (a, take n (unread f))), f') \<and>
        good f' \<and> unread f' = drop n (unread f)"
    and skip: "good f \<Longrightarrow> unat k \<le> length (unread f) \<Longrightarrow>
      \<exists>f'. sf_Skip F k f = Some (OK, f') \<and> good f' \<and> unread f' = drop (unat k) (unread f)"

text \<open>\<open>content\<close> is the whole file; a read inside it returns the bytes asked for.\<close>

locale random_access_file =
  fixes R :: "'f RandomAccessFile" and good :: "'f \<Rightarrow> bool" and content :: "'f \<Rightarrow> byte list"
  assumes read_at: "good f \<Longrightarrow> unat offset + n \<le> length (content f) \<Longrightarrow>
      \<exists>a f'. raf_Read R offset n scratch f =
          Some ((OK, Some (a, take n (drop (unat offset) (content f)))), f') \<and>
        good f' \<and> content f' = content f"

end
