(* ===== verification/LdbCrc32c.thy ===== *)
theory LdbCrc32c
  imports LdbCoding LdbCrcTables
begin

text \<open>
  \<open>util/crc32c.h\<close> and \<open>util/crc32c.cc\<close>: the checksum of log records and table blocks. The
  code runs through the bytes up to a 4-byte boundary one at a time, keeps four interleaved
  partial results for 16 bytes at a time, combines them, and finishes byte by byte. Of the
  address of the data it needs the remainder modulo four. What it computes is the CRC taken
  bit by bit, for every alignment.
\<close>

section \<open>The code\<close>

definition AcceleratedCRC32C :: "u32 \<Rightarrow> byte list \<Rightarrow> u32" where
  "AcceleratedCRC32C crc buf = 0"

definition CanAccelerateCRC32C :: bool where
  "CanAccelerateCRC32C \<longleftrightarrow> AcceleratedCRC32C 0 (map of_char ''TestCRCBuffer'') = 0xdcbc59fa"

definition kCRC32Xor :: u32 where
  "kCRC32Xor = 0xffffffff"

definition ReadUint32LE :: "byte list \<Rightarrow> u32" where
  "ReadUint32LE buffer = DecodeFixed32 buffer"

text \<open>\<open>RoundUp<N>(p) - p\<close> for the address \<open>a\<close> of \<open>p\<close>.\<close>

definition RoundUp :: "nat \<Rightarrow> u64 \<Rightarrow> u64" where
  "RoundUp n a = (a + (word_of_nat n - 1)) AND NOT (word_of_nat n - 1)"

definition STEP1 :: "u32 \<Rightarrow> byte \<Rightarrow> u32" where
  "STEP1 l b = kByteExtensionTable ! unat ((l AND 0xff) XOR ucast b) XOR drop_bit 8 l"

definition STEP4 :: "u32 \<Rightarrow> byte list \<Rightarrow> u32" where
  "STEP4 crc p =
     ReadUint32LE p XOR kStrideExtensionTable3 ! unat (crc AND 0xff) XOR
     kStrideExtensionTable2 ! unat (drop_bit 8 crc AND 0xff) XOR
     kStrideExtensionTable1 ! unat (drop_bit 16 crc AND 0xff) XOR
     kStrideExtensionTable0 ! unat (drop_bit 24 crc)"

type_synonym strides = "u32 \<times> u32 \<times> u32 \<times> u32"

definition STEP16 :: "strides \<Rightarrow> byte list \<Rightarrow> strides" where
  "STEP16 cs p = (let (crc0, crc1, crc2, crc3) = cs in
     (STEP4 crc0 p, STEP4 crc1 (drop 4 p), STEP4 crc2 (drop 8 p), STEP4 crc3 (drop 12 p)))"

definition STEP4W :: "u32 \<Rightarrow> u32 \<Rightarrow> u32" where
  "STEP4W l w = ((\<lambda>w. drop_bit 8 w XOR kByteExtensionTable ! unat (w AND 0xff)) ^^ 4) (w XOR l)"

function swaths :: "strides \<Rightarrow> byte list \<Rightarrow> strides \<times> byte list" where
  "swaths cs p = (if length p \<ge> 16 then swaths (STEP16 cs p) (drop 16 p) else (cs, p))"
  by pat_completeness auto
termination by (relation "measure (\<lambda>(cs, p). length p)") auto

function words :: "strides \<Rightarrow> byte list \<Rightarrow> strides \<times> byte list" where
  "words cs p =
     (if length p \<ge> 4
      then let (crc0, crc1, crc2, crc3) = cs in words (crc1, crc2, crc3, STEP4 crc0 p) (drop 4 p)
      else (cs, p))"
  by pat_completeness auto
termination by (relation "measure (\<lambda>(cs, p). length p)") auto

declare swaths.simps [simp del] words.simps [simp del]

definition combine :: "strides \<Rightarrow> u32" where
  "combine cs = (let (crc0, crc1, crc2, crc3) = cs
     in STEP4W (STEP4W (STEP4W (STEP4W 0 crc0) crc1) crc2) crc3)"

definition load_strides :: "u32 \<Rightarrow> byte list \<Rightarrow> strides" where
  "load_strides l p =
     (ReadUint32LE p XOR l, ReadUint32LE (drop 4 p), ReadUint32LE (drop 8 p), ReadUint32LE (drop 12 p))"

text \<open>The bytes before the aligned address; none when that lies behind the data.\<close>

definition unaligned :: "u64 \<Rightarrow> nat \<Rightarrow> nat" where
  "unaligned a n = (let k = unat (RoundUp 4 a - a) in if k \<le> n then k else 0)"

definition Extend :: "u64 \<Rightarrow> u32 \<Rightarrow> byte list \<Rightarrow> u32" where
  "Extend a crc data =
     (if CanAccelerateCRC32C then AcceleratedCRC32C crc data
      else
        let l = crc XOR kCRC32Xor;
            k = unaligned a (length data);
            l1 = foldl STEP1 l (take k data);
            p = drop k data;
            (l2, p2) =
              (if length p \<ge> 16 then
                 let (cs, q) = swaths (load_strides l1 p) (drop 16 p); (cs', q') = words cs q
                 in (combine cs', q')
               else (l1, p))
        in foldl STEP1 l2 p2 XOR kCRC32Xor)"

definition Value :: "u64 \<Rightarrow> byte list \<Rightarrow> u32" where
  "Value a data = Extend a 0 data"

definition kMaskDelta :: u32 where
  "kMaskDelta = 0xa282ead8"

definition Mask :: "u32 \<Rightarrow> u32" where
  "Mask crc = (drop_bit 15 crc OR push_bit 17 crc) + kMaskDelta"

definition Unmask :: "u32 \<Rightarrow> u32" where
  "Unmask masked_crc =
     (let rot = masked_crc - kMaskDelta in drop_bit 17 rot OR push_bit 15 rot)"

section \<open>Masking\<close>

lemma rotate_back:
  assumes "a + b = 32"
  shows "drop_bit b (drop_bit a x OR push_bit b x) OR push_bit a (drop_bit a x OR push_bit b x) = (x :: u32)"
proof (rule bit_word_eqI)
  fix n
  assume "n < LENGTH(32)"
  then show "bit (drop_bit b (drop_bit a x OR push_bit b x) OR push_bit a (drop_bit a x OR push_bit b x)) n = bit x n"
    using assms by (cases "n < a") (auto simp: bit_simps dest: bit_imp_le_length)
qed

lemma Unmask_Mask: "Unmask (Mask crc) = crc"
  using rotate_back [of 15 17 crc] by (simp add: Mask_def Unmask_def)

lemma Mask_Unmask: "Mask (Unmask m) = m"
  using rotate_back [of 17 15 "m - kMaskDelta"] by (simp add: Mask_def Unmask_def Let_def)

section \<open>The CRC bit by bit\<close>

definition crc_byte :: "u32 \<Rightarrow> byte \<Rightarrow> u32" where
  "crc_byte l b = crc_bits 8 (l XOR ucast b)"

definition crc32c :: "u32 \<Rightarrow> byte list \<Rightarrow> u32" where
  "crc32c crc data = NOT (foldl crc_byte (NOT crc) data)"

lemma crc32c_append: "crc32c crc (xs @ ys) = crc32c (crc32c crc xs) ys"
  by (simp add: crc32c_def)

lemma crc_bits_1: "crc_bits 1 1 = 0x82f63b78"
  by (simp add: crc_bits_def crc_bit_def)

lemma crc_split: "n < 32 \<Longrightarrow> crc_bits n x = crc_bits n (take_bit n x) XOR drop_bit n x"
proof (induction n)
  case 0
  then show ?case by (simp add: crc_bits_def)
next
  case (Suc n)
  let ?b = "if bit x n then 2 ^ n else 0 :: u32"
  have t: "take_bit (Suc n) x = take_bit n x XOR ?b"
    using Suc.prems by (intro bit_word_eqI) (auto simp: bit_simps less_Suc_eq)
  have "crc_bits (Suc n) ?b = (if bit x n then 0x82f63b78 else 0)"
    using crc_bits_power [of n "Suc n"] Suc.prems crc_bits_1 by simp
  moreover have "crc_bit (drop_bit n x) = drop_bit (Suc n) x XOR (if bit x n then 0x82f63b78 else 0)"
    by (simp add: crc_bit_alt bit_drop_bit_eq drop_bit_drop_bit)
  moreover have "crc_bits (Suc n) y = crc_bit (crc_bits n y)" for y by (simp add: crc_bits_def)
  ultimately show ?case
    using Suc by (simp only: t crc_bits_XOR) (simp add: crc_bit_XOR ac_simps)
qed

section \<open>The steps are the CRC\<close>

lemma table_nth:
  "unat i < 256 \<Longrightarrow> map (\<lambda>i. crc_bits m (word_of_nat i)) [0..<256] ! unat i = crc_bits m i"
  by simp

lemma low_byte: "(x :: u32) AND 0xff = take_bit 8 x"
  by (simp add: take_bit_eq_mask mask_eq_exp_minus_1)

lemma unat_take8: "unat (take_bit 8 (x :: u32)) < 256"
  using take_bit_nat_less_exp [of 8 "unat x"] by (simp only: unsigned_take_bit_eq) simp

lemma unat_high8: "unat (drop_bit 24 (x :: u32)) < 256"
  using unat_u32_less [of x] by (simp only: unat_drop_u32) (simp add: less_mult_imp_div_less)

lemma ucast_take8: "take_bit 8 (ucast (b :: byte) :: u32) = ucast b"
  by (rule bit_word_eqI) (auto simp: bit_simps dest: bit_imp_le_length)

lemma STEP1_crc: "STEP1 l b = crc_byte l b"
proof -
  let ?c = "take_bit 8 l XOR ucast b"
  have c: "?c = take_bit 8 (l XOR ucast b)" by (simp add: take_bit_xor ucast_take8)
  have "unat ?c < 256" unfolding c by (rule unat_take8)
  then have "STEP1 l b = crc_bits 8 ?c XOR drop_bit 8 l"
    by (simp only: STEP1_def low_byte kByteExtensionTable_eq table_nth)
  also have "drop_bit 8 l = drop_bit 8 (l XOR ucast b)"
    by (rule bit_word_eqI) (auto simp: bit_simps dest: bit_imp_le_length)
  also have "crc_bits 8 ?c XOR drop_bit 8 (l XOR ucast b) = crc_byte l b"
    unfolding c crc_byte_def by (rule crc_split [symmetric]) simp
  finally show ?thesis .
qed

lemma crc_bits_byte: "crc_bits (m + 8) x = crc_bits (m + 8) (take_bit 8 x) XOR crc_bits m (drop_bit 8 x)"
proof -
  have "crc_bits (m + 8) x = crc_bits m (crc_bits 8 (take_bit 8 x) XOR drop_bit 8 x)"
    using crc_split [of 8 x] by (simp only: crc_bits_add)
  then show ?thesis by (simp only: crc_bits_XOR flip: crc_bits_add)
qed

lemma STEP4_crc: "STEP4 crc p = ReadUint32LE p XOR crc_bits 128 crc"
proof -
  let ?t = "\<lambda>n. take_bit 8 (drop_bit n crc)"
  have "crc_bits 128 crc = crc_bits 128 (take_bit 8 crc) XOR crc_bits 120 (?t 8) XOR
      crc_bits 112 (?t 16) XOR crc_bits 104 (drop_bit 24 crc)"
    using crc_bits_byte [of 120 crc] crc_bits_byte [of 112 "drop_bit 8 crc"]
      crc_bits_byte [of 104 "drop_bit 16 crc"]
    by (simp add: drop_bit_drop_bit xor.assoc)
  moreover have "STEP4 crc p = ReadUint32LE p XOR crc_bits 128 (take_bit 8 crc) XOR
      crc_bits 120 (?t 8) XOR crc_bits 112 (?t 16) XOR crc_bits 104 (drop_bit 24 crc)"
    by (simp only: STEP4_def low_byte kStrideExtensionTable0_eq kStrideExtensionTable1_eq
        kStrideExtensionTable2_eq kStrideExtensionTable3_eq table_nth unat_take8 unat_high8)
  ultimately show ?thesis by (simp only: xor.assoc)
qed

lemma byte_step_crc: "drop_bit 8 w XOR kByteExtensionTable ! unat (w AND 0xff) = crc_bits 8 w"
  using crc_split [of 8 w]
  by (simp only: low_byte kByteExtensionTable_eq table_nth unat_take8) (simp only: xor.commute)

lemma STEP4W_crc: "STEP4W l w = crc_bits 32 (w XOR l)"
proof -
  have "(crc_bits 8 ^^ 4) x = crc_bits 32 x" for x
    using crc_bits_add [of 8 8] crc_bits_add [of 16 8] crc_bits_add [of 24 8]
    by (simp add: numeral_eq_Suc)
  then show ?thesis by (simp only: STEP4W_def byte_step_crc)
qed

section \<open>Words and strides\<close>

text \<open>Up to four bytes fed at once.\<close>

lemma crc_word:
  "length bs \<le> 4 \<Longrightarrow> foldl crc_byte l bs = crc_bits (8 * length bs) (l XOR le_word bs)"
proof (induction bs arbitrary: l)
  case Nil
  then show ?case by (simp add: crc_bits_def)
next
  case (Cons b bs)
  let ?w = "le_word bs :: u32"
  have "bit (le_word xs :: u32) i \<Longrightarrow> i < 8 * length xs" for xs i
    by (induction xs arbitrary: i) (fastforce simp: bit_simps dest: bit_imp_le_length)+
  then have w: "bit ?w i \<Longrightarrow> i < 24" for i using Cons.prems by fastforce
  have or: "ucast b OR push_bit 8 ?w = ucast b XOR push_bit 8 ?w"
    by (rule bit_word_eqI) (auto simp: bit_simps dest: bit_imp_le_length)
  have "take_bit 8 (push_bit 8 ?w) = 0" by (rule bit_word_eqI) (auto simp: bit_simps)
  moreover have "drop_bit 8 (push_bit 8 ?w) = ?w"
    using w by (intro bit_word_eqI) (auto simp: bit_simps)
  ultimately have s: "crc_bits 8 (push_bit 8 ?w) = ?w" using crc_split [of 8 "push_bit 8 ?w"] by simp
  have "foldl crc_byte l (b # bs) = crc_bits (8 * length bs) (crc_byte l b XOR ?w)"
    using Cons by simp
  also have "\<dots> = crc_bits (8 * length bs) (crc_bits 8 (l XOR ucast b XOR push_bit 8 ?w))"
    by (simp only: crc_byte_def crc_bits_XOR s xor.assoc)
  also have "\<dots> = crc_bits (8 * length (b # bs)) (l XOR le_word (b # bs))"
    by (simp add: or xor.assoc add.commute flip: crc_bits_add)
  finally show ?case .
qed

lemma crc_read:
  assumes "4 \<le> length p"
  shows "foldl crc_byte l (take 4 p) = crc_bits 32 (l XOR ReadUint32LE p)"
proof -
  have "length (take 4 p) = 4" using assms by simp
  then show ?thesis
    using crc_word [of "take 4 p" l] by (simp add: ReadUint32LE_def DecodeFixed32_def kLittleEndian_def)
qed

text \<open>The register that the four partial results stand for.\<close>

definition strides_value :: "strides \<Rightarrow> u32" where
  "strides_value cs = (let (crc0, crc1, crc2, crc3) = cs
     in crc_bits 128 crc0 XOR crc_bits 96 crc1 XOR crc_bits 64 crc2 XOR crc_bits 32 crc3)"

lemma combine_value: "combine cs = strides_value cs"
proof -
  obtain a b c d where cs: "cs = (a, b, c, d)" by (cases cs) auto
  show ?thesis
    by (simp add: cs combine_def strides_value_def STEP4W_crc crc_bits_XOR ac_simps flip: crc_bits_add)
qed

lemma take16:
  "take 16 p = take 4 p @ take 4 (drop 4 p) @ take 4 (drop 8 p) @ take 4 (drop 12 p)"
  using take_add [of 4 12 p] take_add [of 4 8 "drop 4 p"] take_add [of 4 4 "drop 8 p"] by simp

lemma crc_read16:
  assumes "16 \<le> length p"
  shows "foldl crc_byte l (take 16 p) =
    crc_bits 128 l XOR strides_value (ReadUint32LE p, ReadUint32LE (drop 4 p), ReadUint32LE (drop 8 p),
      ReadUint32LE (drop 12 p))"
  using assms
  by (simp add: take16 crc_read strides_value_def crc_bits_XOR ac_simps flip: crc_bits_add)

lemma load_strides_value:
  assumes "16 \<le> length p"
  shows "strides_value (load_strides l p) = foldl crc_byte l (take 16 p)"
  unfolding crc_read16 [OF assms] by (simp add: load_strides_def strides_value_def crc_bits_XOR ac_simps)

lemma STEP16_value:
  assumes "16 \<le> length p"
  shows "strides_value (STEP16 cs p) = foldl crc_byte (strides_value cs) (take 16 p)"
proof -
  obtain a b c d where cs: "cs = (a, b, c, d)" by (cases cs) auto
  show ?thesis unfolding crc_read16 [OF assms]
    by (simp add: cs STEP16_def strides_value_def STEP4_crc crc_bits_XOR ac_simps flip: crc_bits_add)
qed

lemma words_step_value:
  assumes "4 \<le> length p"
  shows "strides_value (crc1, crc2, crc3, STEP4 crc0 p) =
    foldl crc_byte (strides_value (crc0, crc1, crc2, crc3)) (take 4 p)"
  unfolding crc_read [OF assms]
  by (simp add: strides_value_def STEP4_crc crc_bits_XOR ac_simps flip: crc_bits_add)

lemma swaths_value:
  "swaths cs p = (cs', q) \<Longrightarrow> foldl crc_byte (strides_value cs') q = foldl crc_byte (strides_value cs) p"
proof (induction cs p arbitrary: cs' q rule: swaths.induct)
  case (1 cs p)
  show ?case
  proof (cases "16 \<le> length p")
    case True
    then have "foldl crc_byte (strides_value cs') q = foldl crc_byte (strides_value (STEP16 cs p)) (drop 16 p)"
      using 1 by (subst (asm) (2) swaths.simps) simp
    also have "\<dots> = foldl crc_byte (strides_value cs) (take 16 p @ drop 16 p)"
      by (simp only: foldl_append STEP16_value [OF True])
    finally show ?thesis by simp
  qed (use "1.prems" in \<open>simp add: swaths.simps [of cs p]\<close>)
qed

lemma words_value:
  "words cs p = (cs', q) \<Longrightarrow> foldl crc_byte (strides_value cs') q = foldl crc_byte (strides_value cs) p"
proof (induction cs p arbitrary: cs' q rule: words.induct)
  case (1 cs p)
  obtain a b c d where cs: "cs = (a, b, c, d)" by (cases cs) auto
  show ?case
  proof (cases "4 \<le> length p")
    case True
    then have "foldl crc_byte (strides_value cs') q =
        foldl crc_byte (strides_value (b, c, d, STEP4 a p)) (drop 4 p)"
      using 1 by (simp add: cs words.simps [of _ p])
    also have "\<dots> = foldl crc_byte (strides_value cs) (take 4 p @ drop 4 p)"
      by (simp only: foldl_append words_step_value [OF True] cs)
    finally show ?thesis by simp
  qed (use "1.prems" in \<open>simp add: words.simps [of cs p]\<close>)
qed

section \<open>The checksum\<close>

lemma not_accelerated: "\<not> CanAccelerateCRC32C"
  by (simp add: CanAccelerateCRC32C_def AcceleratedCRC32C_def)

lemma kCRC32Xor_NOT: "l XOR kCRC32Xor = NOT l"
proof -
  have k: "kCRC32Xor = - 1" by (simp add: kCRC32Xor_def)
  show ?thesis unfolding k by (rule bit_word_eqI) (simp add: bit_simps)
qed

theorem Extend_crc32c: "Extend a crc data = crc32c crc data"
proof -
  let ?k = "unaligned a (length data)"
  let ?l = "foldl crc_byte (NOT crc) (take ?k data)" and ?p = "drop ?k data"
  have step: "STEP1 = crc_byte" by (intro ext) (rule STEP1_crc)
  have long: "foldl crc_byte (combine cs') q' = foldl crc_byte ?l ?p"
    if "16 \<le> length ?p" and "swaths (load_strides ?l ?p) (drop 16 ?p) = (cs, q)" and "words cs q = (cs', q')"
    for cs q cs' q'
  proof -
    have "foldl crc_byte (combine cs') q' = foldl crc_byte (strides_value (load_strides ?l ?p)) (drop 16 ?p)"
      using swaths_value [OF that(2)] words_value [OF that(3)] by (simp only: combine_value)
    also have "\<dots> = foldl crc_byte ?l (take 16 ?p @ drop 16 ?p)"
      by (simp only: foldl_append load_strides_value [OF that(1)])
    finally show ?thesis by (simp only: append_take_drop_id)
  qed
  have all: "foldl crc_byte ?l ?p = foldl crc_byte (NOT crc) data"
    by (simp only: append_take_drop_id flip: foldl_append)
  show ?thesis
    using long by (auto simp: Extend_def not_accelerated step kCRC32Xor_NOT Let_def crc32c_def all
        split: prod.splits)
qed

end
