(* ===== verification/LdbLogWriter.thy ===== *)
theory LdbLogWriter
  imports LdbEnv LdbCrc32c
begin

text \<open>
  \<open>db/log_format.h\<close>, \<open>db/log_writer.h\<close> and \<open>db/log_writer.cc\<close>: the writer of the log. A record is
  split into fragments so that none crosses a block boundary; a fragment has a header of seven
  bytes with its checksum, length and type. \<open>AddRecord\<close> is modelled over any file, with the
  address of its data, which the checksum routine looks at.
\<close>

section \<open>The format\<close>

datatype RecordType = kZeroType | kFullType | kFirstType | kMiddleType | kLastType

primrec RecordType_value :: "RecordType \<Rightarrow> nat" where
  "RecordType_value kZeroType = 0"
| "RecordType_value kFullType = 1"
| "RecordType_value kFirstType = 2"
| "RecordType_value kMiddleType = 3"
| "RecordType_value kLastType = 4"

definition kMaxRecordType :: nat where "kMaxRecordType = RecordType_value kLastType"
definition kBlockSize :: nat where "kBlockSize = 32768"
definition kHeaderSize :: nat where "kHeaderSize = 4 + 2 + 1"

section \<open>The writer\<close>

record 'f Writer =
  log_dest :: 'f
  block_offset :: nat
  type_crc :: "u32 list"

definition InitTypeCrc :: "u64 \<Rightarrow> u32 list" where
  "InitTypeCrc a = map (\<lambda>i. Value a [word_of_nat i]) [0..<kMaxRecordType + 1]"

definition new_Writer :: "u64 \<Rightarrow> 'f \<Rightarrow> 'f Writer" where
  "new_Writer a d = \<lparr>log_dest = d, block_offset = 0, type_crc = InitTypeCrc a\<rparr>"

definition reopened_Writer :: "u64 \<Rightarrow> 'f \<Rightarrow> u64 \<Rightarrow> 'f Writer" where
  "reopened_Writer a d dest_length =
     \<lparr>log_dest = d, block_offset = unat (dest_length mod word_of_nat kBlockSize), type_crc = InitTypeCrc a\<rparr>"

definition EmitPhysicalRecord ::
    "'f WritableFile \<Rightarrow> RecordType \<Rightarrow> u64 \<Rightarrow> slice \<Rightarrow> 'f Writer \<Rightarrow> (Status \<times> 'f Writer) option" where
  "EmitPhysicalRecord W t a ptr w =
     (let len = length ptr;
          crc = Mask (Extend a (type_crc w ! RecordType_value t) ptr);
          buf = EncodeFixed32 crc @
                [word_of_nat (len mod 256), word_of_nat (len div 256), word_of_nat (RecordType_value t)]
      in do {
        (s, d) \<leftarrow> wf_Append W buf (log_dest w);
        (s1, d1) \<leftarrow> (if ok s then do {
                        (s', d') \<leftarrow> wf_Append W ptr d;
                        if ok s' then wf_Flush W d' else Some (s', d') }
                      else Some (s, d));
        Some (s1, w\<lparr>log_dest := d1, block_offset := block_offset w + kHeaderSize + len\<rparr>) })"

text \<open>The switch to a new block; the status of the padding's \<open>Append\<close> is ignored.\<close>

definition switch_block :: "'f WritableFile \<Rightarrow> 'f Writer \<Rightarrow> 'f Writer option" where
  "switch_block W w =
     (let leftover = kBlockSize - block_offset w in
      if leftover < kHeaderSize then
        (if leftover > 0
         then do { (s, d) \<leftarrow> wf_Append W (replicate leftover 0) (log_dest w);
                   Some (w\<lparr>log_dest := d, block_offset := 0\<rparr>) }
         else Some (w\<lparr>block_offset := 0\<rparr>))
      else Some w)"

definition fragment_type :: "bool \<Rightarrow> bool \<Rightarrow> RecordType" where
  "fragment_type begn endd =
     (if begn \<and> endd then kFullType else if begn then kFirstType
      else if endd then kLastType else kMiddleType)"

text \<open>One round of the loop: what is left, and the state.\<close>

definition emit_fragment ::
    "'f WritableFile \<Rightarrow> bool \<Rightarrow> u64 \<Rightarrow> slice \<Rightarrow> 'f Writer \<Rightarrow> (nat \<times> Status \<times> 'f Writer) option" where
  "emit_fragment W begn a ptr w = do {
     w1 \<leftarrow> switch_block W w;
     let avail = kBlockSize - block_offset w1 - kHeaderSize;
     let fragment_length = (if length ptr < avail then length ptr else avail);
     let endd = (length ptr = fragment_length);
     (s, w2) \<leftarrow> EmitPhysicalRecord W (fragment_type begn endd) a (take fragment_length ptr) w1;
     Some (fragment_length, s, w2) }"

lemma switch_block_offset:
  "switch_block W w = Some w1 \<Longrightarrow>
     block_offset w1 = (if kBlockSize - block_offset w < kHeaderSize then 0 else block_offset w)"
  by (auto simp: switch_block_def Let_def bind_eq_Some_conv split: if_splits)

lemma emit_fragment_progress:
  assumes "emit_fragment W begn a ptr w = Some (k, s, w')"
  shows "\<exists>w1. switch_block W w = Some w1 \<and> block_offset w' = block_offset w1 + kHeaderSize + k \<and>
    k = min (length ptr) (kBlockSize - block_offset w1 - kHeaderSize)"
  using assms
  by (auto simp: emit_fragment_def EmitPhysicalRecord_def Let_def min_def bind_eq_Some_conv)

function AddRecord_loop ::
    "'f WritableFile \<Rightarrow> bool \<Rightarrow> u64 \<Rightarrow> slice \<Rightarrow> 'f Writer \<Rightarrow> (Status \<times> 'f Writer) option" where
  "AddRecord_loop W begn a ptr w =
     (case emit_fragment W begn a ptr w of
        None \<Rightarrow> None
      | Some (k, s, w') \<Rightarrow>
          if ok s \<and> length ptr - k > 0
          then AddRecord_loop W False (a + word_of_nat k) (drop k ptr) w'
          else Some (s, w'))"
  by pat_completeness auto
termination
proof (relation "measures [\<lambda>(W, b, a, ptr, w). length ptr,
    \<lambda>(W, b, a, ptr, w). if kBlockSize - block_offset w = kHeaderSize then 1 else 0]", goal_cases)
  case 1
  show ?case by simp
next
  case (2 W begn a ptr w r k r' s w')
  then have e: "emit_fragment W begn a ptr w = Some (k, s, w')" by simp
  obtain w1 where w1: "switch_block W w = Some w1"
    and p: "block_offset w' = block_offset w1 + kHeaderSize + k"
      "k = min (length ptr) (kBlockSize - block_offset w1 - kHeaderSize)"
    using emit_fragment_progress [OF e] by blast
  note off = switch_block_offset [OF w1]
  show ?case
  proof (cases "k = 0")
    case True
    then have z: "kBlockSize - block_offset w1 - kHeaderSize = 0"
      using p(2) 2 True by (auto simp: min_def split: if_splits)
    then have "block_offset w1 = block_offset w" "kHeaderSize \<le> kBlockSize - block_offset w"
      using off by (auto simp: kBlockSize_def kHeaderSize_def split: if_splits)
    then show ?thesis using z p(1) True by (auto simp: kBlockSize_def kHeaderSize_def)
  next
    case False
    then show ?thesis using 2 p(2) by auto
  qed
qed

declare AddRecord_loop.simps [simp del]

definition AddRecord :: "'f WritableFile \<Rightarrow> u64 \<Rightarrow> slice \<Rightarrow> 'f Writer \<Rightarrow> (Status \<times> 'f Writer) option" where
  "AddRecord W a data w = AddRecord_loop W True a data w"

section \<open>The log as a byte string\<close>

definition physical_record :: "RecordType \<Rightarrow> slice \<Rightarrow> byte list" where
  "physical_record t p =
     EncodeFixed32 (Mask (crc32c 0 (word_of_nat (RecordType_value t) # p))) @
     [word_of_nat (length p mod 256), word_of_nat (length p div 256), word_of_nat (RecordType_value t)] @ p"

definition padding :: "nat \<Rightarrow> nat" where
  "padding b = (if kBlockSize - b < kHeaderSize then kBlockSize - b else 0)"

definition start_offset :: "nat \<Rightarrow> nat" where
  "start_offset b = (if kBlockSize - b < kHeaderSize then 0 else b)"

definition room :: "nat \<Rightarrow> nat" where
  "room b = kBlockSize - start_offset b - kHeaderSize"

lemma room_zero: "room b = 0 \<Longrightarrow> kBlockSize - b = kHeaderSize"
  by (auto simp: room_def start_offset_def kBlockSize_def kHeaderSize_def split: if_splits)

text \<open>What a record adds to a log that ends at offset \<open>b\<close> of a block, and where it then ends.\<close>

function log_record :: "nat \<Rightarrow> bool \<Rightarrow> slice \<Rightarrow> byte list \<times> nat" where
  "log_record b begn p =
     (let k = min (length p) (room b);
          bytes = replicate (padding b) 0 @ physical_record (fragment_type begn (length p = k)) (take k p);
          b' = start_offset b + kHeaderSize + k
      in if length p > k then (let (bs, b'') = log_record b' False (drop k p) in (bytes @ bs, b''))
         else (bytes, b'))"
  by pat_completeness auto
termination
proof (relation "measures [\<lambda>(b, begn, p). length p, \<lambda>(b, begn, p). if room b = 0 then 1 else 0]", goal_cases)
  case 1
  show ?case by simp
next
  case (2 b begn p k bytes b')
  show ?case
  proof (cases "room b = 0")
    case True
    then have "room b' \<noteq> 0"
      using room_zero [OF True] 2
      by (auto simp: room_def start_offset_def kBlockSize_def kHeaderSize_def split: if_splits)
    then show ?thesis using 2 True by auto
  qed (use 2 in auto)
qed

declare log_record.simps [simp del]

definition writer_ok :: "'f Writer \<Rightarrow> bool" where
  "writer_ok w \<longleftrightarrow> block_offset w \<le> kBlockSize \<and>
     type_crc w = map (\<lambda>i. crc32c 0 [word_of_nat i]) [0..<kMaxRecordType + 1]"

lemma new_Writer_ok: "writer_ok (new_Writer a d)"
  by (simp add: writer_ok_def new_Writer_def InitTypeCrc_def Value_def Extend_crc32c)

lemma reopened_Writer_ok: "writer_ok (reopened_Writer a d n)"
proof -
  have "n mod word_of_nat kBlockSize < word_of_nat kBlockSize"
    by (rule word_mod_less_divisor) (simp add: kBlockSize_def word_gt_0)
  then have "unat (n mod word_of_nat kBlockSize) \<le> kBlockSize"
    by (simp add: kBlockSize_def word_less_nat_alt)
  then show ?thesis
    by (simp add: writer_ok_def reopened_Writer_def InitTypeCrc_def Value_def Extend_crc32c)
qed

lemma record_crc:
  assumes "writer_ok w"
  shows "Extend a (type_crc w ! RecordType_value t) p = crc32c 0 (word_of_nat (RecordType_value t) # p)"
proof -
  have "RecordType_value t < kMaxRecordType + 1" by (cases t) (simp_all add: kMaxRecordType_def)
  then have "type_crc w ! RecordType_value t = crc32c 0 [word_of_nat (RecordType_value t)]"
    using assms by (simp add: writer_ok_def del: upt_Suc)
  then show ?thesis using crc32c_append [of 0 "[word_of_nat (RecordType_value t)]" p]
    by (simp add: Extend_crc32c)
qed

section \<open>The writer produces the log\<close>

context writable_file
begin

definition adds :: "'f Writer \<Rightarrow> byte list \<Rightarrow> nat \<Rightarrow> (Status \<times> 'f Writer) option \<Rightarrow> bool" where
  "adds w bytes b r \<longleftrightarrow> (\<exists>w'. r = Some (OK, w') \<and> good (log_dest w') \<and> writer_ok w' \<and>
     written (log_dest w') = written (log_dest w) @ bytes \<and> block_offset w' = b)"

text \<open>With all of it in the hands of the system.\<close>

definition flushed :: "(Status \<times> 'f Writer) option \<Rightarrow> bool" where
  "flushed r \<longleftrightarrow> (\<exists>s w'. r = Some (s, w') \<and> passed (log_dest w') = written (log_dest w'))"

lemma switch_block_adds:
  assumes "good (log_dest w)" and "writer_ok w"
  shows "adds w (replicate (padding (block_offset w)) 0) (start_offset (block_offset w))
    (map_option (Pair OK) (switch_block W w))"
proof -
  obtain f' where "wf_Append W (replicate (kBlockSize - block_offset w) 0) (log_dest w) = Some (OK, f')" "good f'"
    "written f' = written (log_dest w) @ replicate (kBlockSize - block_offset w) 0"
    using append [OF assms(1)] by blast
  then show ?thesis
    using assms by (auto simp: adds_def switch_block_def padding_def start_offset_def Let_def writer_ok_def)
qed

lemma EmitPhysicalRecord_adds:
  assumes "good (log_dest w)" and "writer_ok w" and "block_offset w + kHeaderSize + length p \<le> kBlockSize"
  shows "adds w (physical_record t p) (block_offset w + kHeaderSize + length p) (EmitPhysicalRecord W t a p w) \<and>
    flushed (EmitPhysicalRecord W t a p w)"
proof -
  let ?h = "EncodeFixed32 (Mask (crc32c 0 (word_of_nat (RecordType_value t) # p))) @
    [word_of_nat (length p mod 256), word_of_nat (length p div 256), word_of_nat (RecordType_value t)]"
  obtain f1 where 1: "wf_Append W ?h (log_dest w) = Some (OK, f1)" "good f1" "written f1 = written (log_dest w) @ ?h"
    using append [OF assms(1)] by blast
  obtain f2 where 2: "wf_Append W p f1 = Some (OK, f2)" "good f2" "written f2 = written f1 @ p"
    using append [OF 1(2)] by blast
  obtain f3 where 3: "wf_Flush W f2 = Some (OK, f3)" "good f3" "written f3 = written f2" "passed f3 = written f3"
    using flush [OF 2(2)] by fastforce
  have "EmitPhysicalRecord W t a p w =
      Some (OK, w\<lparr>log_dest := f3, block_offset := block_offset w + kHeaderSize + length p\<rparr>)"
    using 1(1) 2(1) 3(1) by (simp add: EmitPhysicalRecord_def record_crc [OF assms(2)])
  then show ?thesis
    using 1 2 3 assms by (simp add: adds_def flushed_def physical_record_def writer_ok_def)
qed

lemma adds_trans:
  assumes "adds w bs b (Some (OK, w1))" and "adds w1 cs c r"
  shows "adds w (bs @ cs) c r"
  using assms by (auto simp: adds_def)

lemma emit_fragment_adds:
  fixes p :: slice
  assumes "good (log_dest w)" and "writer_ok w"
  defines "b \<equiv> block_offset w"
  defines "k \<equiv> min (length p) (room b)"
  shows "\<exists>w'. emit_fragment W begn a p w = Some (k, OK, w') \<and>
    adds w (replicate (padding b) 0 @ physical_record (fragment_type begn (length p = k)) (take k p))
      (start_offset b + kHeaderSize + k) (Some (OK, w')) \<and> flushed (Some (OK, w'))"
proof -
  obtain w1 where sb: "switch_block W w = Some w1"
    and sw: "adds w (replicate (padding b) 0) (start_offset b) (Some (OK, w1))"
    using switch_block_adds [OF assms(1,2)] by (auto simp: adds_def b_def)
  then have w1: "good (log_dest w1)" "writer_ok w1" "block_offset w1 = start_offset b"
    by (auto simp: adds_def)
  have fits: "start_offset b + kHeaderSize + length (take k p) \<le> kBlockSize"
    using assms(2) by (auto simp: k_def room_def start_offset_def kHeaderSize_def kBlockSize_def b_def)
  have em: "adds w1 (physical_record t (take k p)) (start_offset b + kHeaderSize + length (take k p))
      (EmitPhysicalRecord W t a (take k p) w1) \<and> flushed (EmitPhysicalRecord W t a (take k p) w1)" for t
    using EmitPhysicalRecord_adds [OF w1(1,2), of "take k p"] fits by (simp only: w1(3))
  have k: "(if length p < room b then length p else room b) = k" by (simp add: k_def)
  obtain w' where "EmitPhysicalRecord W (fragment_type begn (length p = k)) a (take k p) w1 = Some (OK, w')"
    using em [of "fragment_type begn (length p = k)"] by (auto simp: adds_def)
  then have "emit_fragment W begn a p w = Some (k, OK, w')"
    by (simp only: emit_fragment_def Let_def sb bind.bind_lunit w1(3) k flip: room_def) simp
  moreover have "length (take k p) = k" by (simp add: k_def)
  ultimately show ?thesis
    using adds_trans [OF sw em [THEN conjunct1]] em [THEN conjunct2] \<open>EmitPhysicalRecord _ _ _ _ _ = _\<close>
    by (metis (no_types, lifting))
qed

lemma AddRecord_loop_adds:
  "block_offset w = b \<Longrightarrow> good (log_dest w) \<Longrightarrow> writer_ok w \<Longrightarrow>
     adds w (fst (log_record b begn p)) (snd (log_record b begn p)) (AddRecord_loop W begn a p w) \<and>
       flushed (AddRecord_loop W begn a p w)"
proof (induction b begn p arbitrary: a w rule: log_record.induct)
  case (1 b begn p)
  define k where "k = min (length p) (room b)"
  define bytes where
    "bytes = replicate (padding b) 0 @ physical_record (fragment_type begn (length p = k)) (take k p)"
  obtain w' where e: "emit_fragment W begn a p w = Some (k, OK, w')"
    and ad: "adds w bytes (start_offset b + kHeaderSize + k) (Some (OK, w'))" "flushed (Some (OK, w'))"
    using emit_fragment_adds [OF "1.prems"(2,3), where p = p and begn = begn and a = a] "1.prems"(1) by (auto simp: k_def bytes_def)
  show ?case
  proof (cases "k < length p")
    case True
    have "AddRecord_loop W begn a p w = AddRecord_loop W False (a + word_of_nat k) (drop k p) w'"
      using True by (subst AddRecord_loop.simps) (simp add: e)
    moreover have "adds w' (fst (log_record (start_offset b + kHeaderSize + k) False (drop k p)))
        (snd (log_record (start_offset b + kHeaderSize + k) False (drop k p)))
        (AddRecord_loop W False (a + word_of_nat k) (drop k p) w') \<and>
        flushed (AddRecord_loop W False (a + word_of_nat k) (drop k p) w')"
      using ad(1) True by (intro "1.IH" [OF k_def refl refl]) (auto simp: adds_def)
    moreover have "log_record b begn p =
        (let (bs, b'') = log_record (start_offset b + kHeaderSize + k) False (drop k p) in (bytes @ bs, b''))"
      using True by (subst log_record.simps) (simp add: bytes_def flip: k_def)
    ultimately show ?thesis using adds_trans [OF ad(1)] by (simp add: split_beta)
  next
    case False
    then have "AddRecord_loop W begn a p w = Some (OK, w')" by (subst AddRecord_loop.simps) (simp add: e)
    moreover have "log_record b begn p = (bytes, start_offset b + kHeaderSize + k)"
      using False by (subst log_record.simps) (simp add: bytes_def flip: k_def)
    ultimately show ?thesis using ad by simp
  qed
qed

text \<open>A sequence of records.\<close>

lemma AddRecord_writes:
  assumes "good (log_dest w)" and "writer_ok w"
  shows "\<exists>w'. AddRecord W a p w = Some (OK, w') \<and> good (log_dest w') \<and> writer_ok w' \<and>
    written (log_dest w') = written (log_dest w) @ fst (log_record (block_offset w) True p) \<and>
    passed (log_dest w') = written (log_dest w') \<and>
    block_offset w' = snd (log_record (block_offset w) True p)"
  using AddRecord_loop_adds [OF refl assms, of True p a] by (auto simp: AddRecord_def adds_def flushed_def)

end

end
