(* ===== verification/LdbLogging.thy ===== *)
theory LdbLogging
  imports LdbStatus
begin

text \<open>
  \<open>util/logging.h\<close> and \<open>util/logging.cc\<close>: numbers in decimal and printable forms of strings. What
  \<open>snprintf\<close> prints for \<open>%llu\<close>, \<open>%06llu\<close> and \<open>%02x\<close> is written out.
\<close>

definition digit :: "nat \<Rightarrow> byte" where
  "digit d = (if d < 10 then word_of_nat (48 + d) else word_of_nat (87 + d))"

fun decimal :: "nat \<Rightarrow> byte list" where
  "decimal n = (if n < 10 then [digit n] else decimal (n div 10) @ [digit (n mod 10)])"

declare decimal.simps [simp del]

definition decimal06 :: "nat \<Rightarrow> byte list" where
  "decimal06 n = replicate (6 - length (decimal n)) (digit 0) @ decimal n"

definition AppendNumberTo :: "byte list \<Rightarrow> u64 \<Rightarrow> byte list" where
  "AppendNumberTo str num = str @ decimal (unat num)"

definition NumberToString :: "u64 \<Rightarrow> byte list" where
  "NumberToString num = AppendNumberTo [] num"

fun AppendEscapedStringTo :: "byte list \<Rightarrow> slice \<Rightarrow> byte list" where
  "AppendEscapedStringTo str [] = str"
| "AppendEscapedStringTo str (c # cs) =
     AppendEscapedStringTo
       (if sint (of_char CHR '' '' :: byte) \<le> sint c \<and> sint c \<le> sint (of_char CHR ''~'' :: byte) then str @ [c]
        else str @ lit [CHR 0x5C, CHR ''x''] @ [digit (unat c div 16), digit (unat c mod 16)]) cs"

definition EscapeString :: "slice \<Rightarrow> byte list" where
  "EscapeString v = AppendEscapedStringTo [] v"

definition kMaxUint64 :: u64 where "kMaxUint64 = - 1"

definition kLastDigitOfMaxUint64 :: byte where
  "kLastDigitOfMaxUint64 = digit 0 + ucast (kMaxUint64 mod 10)"

text \<open>The loop: None for an overflow, or the value and what is left.\<close>

fun consume_digits :: "u64 \<Rightarrow> slice \<Rightarrow> (u64 \<times> slice) option" where
  "consume_digits v [] = Some (v, [])"
| "consume_digits v (ch # s) =
     (if ch < digit 0 \<or> ch > digit 9 then Some (v, ch # s)
      else if v > kMaxUint64 div 10 \<or> v = kMaxUint64 div 10 \<and> ch > kLastDigitOfMaxUint64 then None
      else consume_digits (v * 10 + ucast (ch - digit 0)) s)"

text \<open>The result, what is assigned to \<open>*val\<close> if anything, and \<open>*in\<close> afterwards.\<close>

definition ConsumeDecimalNumber :: "slice \<Rightarrow> bool \<times> u64 option \<times> slice" where
  "ConsumeDecimalNumber s =
     (case consume_digits 0 s of
        None \<Rightarrow> (False, None, s)
      | Some (v, r) \<Rightarrow>
          (let digits_consumed = length s - length r
           in (digits_consumed \<noteq> 0, Some v, remove_prefix digits_consumed s)))"

section \<open>A printed number is read back\<close>

lemma less_10_cases: "d < 10 \<Longrightarrow> d \<in> {0, 1, 2, 3, 4, 5, 6, 7, 8, 9 :: nat}"
  by (simp only: insert_iff empty_iff) presburger

lemma unat_digit: "d < 10 \<Longrightarrow> unat (digit d) = 48 + d"
  by (drule less_10_cases) (auto simp: digit_def)

lemma digit_range: "d < 10 \<Longrightarrow> \<not> digit d < digit 0 \<and> \<not> digit 9 < digit d"
  by (simp add: word_less_nat_alt unat_digit)

lemma digit_value: "d < 10 \<Longrightarrow> ucast (digit d - digit 0) = (word_of_nat d :: u64)"
  by (drule less_10_cases) (auto simp: digit_def)

lemma consume_digit:
  assumes "10 * m + d < 2 ^ 64" and "d < 10"
  shows "consume_digits (word_of_nat m) (digit d # s) = consume_digits (word_of_nat (10 * m + d)) s"
proof -
  have m: "unat (word_of_nat m :: u64) = m" using assms by (simp add: unat_of_nat)
  have mx: "unat (kMaxUint64 div 10) = 1844674407370955161" by (simp add: kMaxUint64_def)
  have l: "unat kLastDigitOfMaxUint64 = 53"
    by (simp add: kLastDigitOfMaxUint64_def kMaxUint64_def digit_def)
  have "\<not> word_of_nat m > kMaxUint64 div 10" using assms by (simp add: word_less_nat_alt m mx)
  moreover have "\<not> digit d > kLastDigitOfMaxUint64" if "word_of_nat m = kMaxUint64 div 10"
  proof -
    have "m = 1844674407370955161" using that m mx by metis
    then show ?thesis using assms by (simp add: word_less_nat_alt l unat_digit)
  qed
  ultimately show ?thesis
    using digit_range [OF assms(2)] by (auto simp: digit_value [OF assms(2)] mult.commute)
qed

lemma consume_decimal:
  "m < 2 ^ 64 \<Longrightarrow> consume_digits 0 (decimal m @ s) = consume_digits (word_of_nat m) s"
proof (induction m arbitrary: s rule: decimal.induct)
  case (1 m)
  show ?case
  proof (cases "m < 10")
    case True
    then show ?thesis using consume_digit [of 0 m s] by (simp add: decimal.simps [of m])
  next
    case False
    then show ?thesis
      using "1.IH" [OF False, of "digit (m mod 10) # s"] consume_digit [of "m div 10" "m mod 10" s] "1.prems"
      by (simp add: decimal.simps [of m])
  qed
qed

lemma consume_zeros: "consume_digits 0 (replicate k (digit 0) @ s) = consume_digits 0 s"
proof (induction k)
  case (Suc k)
  then show ?case using consume_digit [of 0 0 "replicate k (digit 0) @ s"] by simp
qed simp

definition no_digit :: "slice \<Rightarrow> bool" where
  "no_digit s \<longleftrightarrow> s = [] \<or> hd s < digit 0 \<or> hd s > digit 9"

lemma consume_stops: "no_digit s \<Longrightarrow> consume_digits v s = Some (v, s)"
  by (cases s) (auto simp: no_digit_def)

lemma decimal_nonempty [simp]: "decimal n \<noteq> []"
  by (subst decimal.simps) simp

lemma ConsumeDecimalNumber_decimal:
  assumes "no_digit s"
  shows "ConsumeDecimalNumber (replicate k (digit 0) @ decimal (unat n) @ s) = (True, Some n, s)"
proof -
  have "consume_digits 0 (replicate k (digit 0) @ decimal (unat n) @ s) = Some (n, s)"
    using consume_decimal [of "unat n" s] unat_u64_less [of n]
    by (simp add: consume_zeros consume_stops [OF assms])
  then show ?thesis by (simp add: ConsumeDecimalNumber_def remove_prefix_def)
qed

lemma NumberToString_ConsumeDecimalNumber:
  "no_digit s \<Longrightarrow> ConsumeDecimalNumber (NumberToString n @ s) = (True, Some n, s)"
  using ConsumeDecimalNumber_decimal [of s 0 n] by (simp add: NumberToString_def AppendNumberTo_def)

text \<open>An escaped string is printable, and every byte shows in it.\<close>

lemma AppendEscapedStringTo_append: "AppendEscapedStringTo str v = str @ EscapeString v"
proof -
  have "AppendEscapedStringTo (a @ b) v = a @ AppendEscapedStringTo b v" for a b
    by (induction v arbitrary: b) auto
  from this [of str "[]"] show ?thesis by (simp add: EscapeString_def)
qed

end
