(* ===== verification/LdbLogReader.thy ===== *)
theory LdbLogReader
  imports LdbLogWriter LdbLogging
begin

text \<open>
  \<open>db/log_reader.h\<close> and \<open>db/log_reader.cc\<close>: the reader of the log, over any sequential file. A slice
  into the read buffer is its address and its bytes. The reports made to the \<open>Reporter\<close> are
  kept in the order they were made.
\<close>

section \<open>The reader\<close>

record 'f Reader =
  rfile :: 'f
  reporter :: bool
  reports :: "(u64 \<times> Status) list"
  checksum :: bool
  backing_store :: u64
  buffer :: "u64 \<times> slice"
  reof :: bool
  last_record_offset :: u64
  end_of_buffer_offset :: u64
  initial_offset :: u64
  resyncing :: bool

definition kEof :: nat where "kEof = kMaxRecordType + 1"
definition kBadRecord :: nat where "kBadRecord = kMaxRecordType + 2"

definition new_Reader :: "'f \<Rightarrow> bool \<Rightarrow> bool \<Rightarrow> u64 \<Rightarrow> u64 \<Rightarrow> 'f Reader" where
  "new_Reader file rep csum store initial =
     \<lparr>rfile = file, reporter = rep, reports = [], checksum = csum, backing_store = store,
      buffer = (0, []), reof = False, last_record_offset = 0, end_of_buffer_offset = 0,
      initial_offset = initial, resyncing = (initial > 0)\<rparr>"

definition LastRecordOffset :: "'f Reader \<Rightarrow> u64" where
  "LastRecordOffset r = last_record_offset r"

definition buffer_size :: "'f Reader \<Rightarrow> u64" where
  "buffer_size r = word_of_nat (length (snd (buffer r)))"

definition ReportDrop :: "u64 \<Rightarrow> Status \<Rightarrow> 'f Reader \<Rightarrow> 'f Reader" where
  "ReportDrop bytes reason r =
     (if reporter r \<and> end_of_buffer_offset r - buffer_size r - bytes \<ge> initial_offset r
      then r\<lparr>reports := reports r @ [(bytes, reason)]\<rparr> else r)"

definition ReportCorruption :: "u64 \<Rightarrow> slice \<Rightarrow> 'f Reader \<Rightarrow> 'f Reader" where
  "ReportCorruption bytes reason r = ReportDrop bytes (Corruption reason []) r"

definition SkipToInitialBlock :: "'f SequentialFile \<Rightarrow> 'f Reader \<Rightarrow> (bool \<times> 'f Reader) option" where
  "SkipToInitialBlock F r =
     (let offset_in_block = initial_offset r mod word_of_nat kBlockSize;
          start0 = initial_offset r - offset_in_block;
          block_start_location =
            (if offset_in_block > word_of_nat (kBlockSize - 6) then start0 + word_of_nat kBlockSize else start0);
          r1 = r\<lparr>end_of_buffer_offset := block_start_location\<rparr>
      in if block_start_location > 0 then
           (case sf_Skip F block_start_location (rfile r1) of
              None \<Rightarrow> None
            | Some (skip_status, f) \<Rightarrow>
                let r2 = r1\<lparr>rfile := f\<rparr> in
                if \<not> ok skip_status then Some (False, ReportDrop block_start_location skip_status r2)
                else Some (True, r2))
         else Some (True, r1))"

text \<open>\<open>buffer_.clear()\<close> and \<open>buffer_.remove_prefix(n)\<close>\<close>

definition clear_buffer :: "'f Reader \<Rightarrow> 'f Reader" where
  "clear_buffer r = r\<lparr>buffer := (0, [])\<rparr>"

definition drop_buffer :: "nat \<Rightarrow> 'f Reader \<Rightarrow> 'f Reader" where
  "drop_buffer n r = r\<lparr>buffer := (fst (buffer r) + word_of_nat n, remove_prefix n (snd (buffer r)))\<rparr>"

text \<open>Lines 216 to 269: a buffer with a header is parsed. The result is the type, or one of
  \<open>kEof\<close> and \<open>kBadRecord\<close>, and \<open>*result\<close>, which was \<open>result\<close> before.\<close>

definition parse_physical :: "slice \<Rightarrow> 'f Reader \<Rightarrow> (nat \<times> slice) \<times> 'f Reader" where
  "parse_physical result r =
     (let header = snd (buffer r);
          a = (ucast (header ! 4) :: u32) AND 0xff;
          b = (ucast (header ! 5) :: u32) AND 0xff;
          type = unat (scast (header ! 6) :: u32);
          len = unat (a OR push_bit 8 b)
      in if kHeaderSize + len > length header then
           (let drop_size = buffer_size r; r1 = clear_buffer r in
            if \<not> reof r then ((kBadRecord, result), ReportCorruption drop_size (lit ''bad record length'') r1)
            else ((kEof, result), r1))
         else if type = RecordType_value kZeroType \<and> len = 0 then ((kBadRecord, result), clear_buffer r)
         else if checksum r \<and>
             Value (fst (buffer r) + 6) (take (1 + len) (drop 6 header)) \<noteq> Unmask (DecodeFixed32 header)
         then (let drop_size = buffer_size r; r1 = clear_buffer r in
               ((kBadRecord, result), ReportCorruption drop_size (lit ''checksum mismatch'') r1))
         else
           (let r1 = drop_buffer (kHeaderSize + len) r in
            if end_of_buffer_offset r1 - buffer_size r1 - word_of_nat kHeaderSize - word_of_nat len < initial_offset r1
            then ((kBadRecord, []), r1)
            else ((type, take len (drop kHeaderSize header)), r1)))"

text \<open>Lines 194 to 204: the buffer is filled; true when the read failed.\<close>

definition refill :: "'f SequentialFile \<Rightarrow> 'f Reader \<Rightarrow> (bool \<times> 'f Reader) option" where
  "refill F r =
     (case sf_Read F kBlockSize (backing_store r) (rfile r) of
        None \<Rightarrow> None
      | Some ((status, res), f) \<Rightarrow>
          let r1 = (clear_buffer r)\<lparr>rfile := f, buffer := (case res of None \<Rightarrow> (0, []) | Some b \<Rightarrow> b)\<rparr>;
              r2 = r1\<lparr>end_of_buffer_offset := end_of_buffer_offset r1 + buffer_size r1\<rparr>
          in if \<not> ok status
             then Some (True, (ReportDrop (word_of_nat kBlockSize) status (clear_buffer r2))\<lparr>reof := True\<rparr>)
             else if length (snd (buffer r2)) < kBlockSize then Some (False, r2\<lparr>reof := True\<rparr>)
             else Some (False, r2))"

lemma refill_progress:
  "refill F r = Some (False, r') \<Longrightarrow> reof r' \<or> kHeaderSize \<le> length (snd (buffer r'))"
  by (auto simp: refill_def Let_def kHeaderSize_def kBlockSize_def split: option.splits if_splits)

function ReadPhysicalRecord ::
    "'f SequentialFile \<Rightarrow> slice \<Rightarrow> 'f Reader \<Rightarrow> ((nat \<times> slice) \<times> 'f Reader) option" where
  "ReadPhysicalRecord F result r =
     (if length (snd (buffer r)) < kHeaderSize then
        (if \<not> reof r then
           (case refill F r of
              None \<Rightarrow> None
            | Some (failed, r1) \<Rightarrow>
                if failed then Some ((kEof, result), r1) else ReadPhysicalRecord F result r1)
         else Some ((kEof, result), clear_buffer r))
      else Some (parse_physical result r))"
  by pat_completeness auto
termination
  by (relation "measure (\<lambda>(F, x, r). if length (snd (buffer r)) < kHeaderSize \<and> \<not> reof r then 1 else 0)")
    (auto dest: refill_progress)

declare ReadPhysicalRecord.simps [simp del]

section \<open>Records\<close>

text \<open>The locals of \<open>ReadRecord\<close> with its two results.\<close>

record locals_RR =
  in_fragmented_record :: bool
  prospective_record_offset :: u64
  fragment :: slice
  out_record :: slice
  scratch :: "byte list"

definition initial_locals_RR :: locals_RR where
  "initial_locals_RR = \<lparr>in_fragmented_record = False, prospective_record_offset = 0,
     fragment = [], out_record = [], scratch = []\<rparr>"

text \<open>The body of the loop behind the call of \<open>ReadPhysicalRecord\<close>: \<open>Inl\<close> goes round the loop,
  \<open>Inr b\<close> returns \<open>b\<close>.\<close>

definition handle_record ::
    "nat \<Rightarrow> locals_RR \<Rightarrow> 'f Reader \<Rightarrow> (locals_RR + bool \<times> locals_RR) \<times> 'f Reader" where
  "handle_record record_type v r =
     (let physical_record_offset = end_of_buffer_offset r - buffer_size r - word_of_nat kHeaderSize -
            word_of_nat (length (fragment v));
          scratch_size = word_of_nat (length (scratch v)) :: u64;
          fragment_size = word_of_nat (length (fragment v)) :: u64;
          skip = resyncing r \<and>
            (record_type = RecordType_value kMiddleType \<or> record_type = RecordType_value kLastType);
          r = (if record_type = RecordType_value kMiddleType then r else r\<lparr>resyncing := False\<rparr>)
      in if skip then (Inl v, r)
         else if record_type = RecordType_value kFullType then
           (let r1 = (if in_fragmented_record v \<and> scratch v \<noteq> []
                      then ReportCorruption scratch_size (lit ''partial record without end(1)'') r else r)
            in (Inr (True, v\<lparr>prospective_record_offset := physical_record_offset, scratch := [],
                 out_record := fragment v\<rparr>), r1\<lparr>last_record_offset := physical_record_offset\<rparr>))
         else if record_type = RecordType_value kFirstType then
           (let r1 = (if in_fragmented_record v \<and> scratch v \<noteq> []
                      then ReportCorruption scratch_size (lit ''partial record without end(2)'') r else r)
            in (Inl (v\<lparr>prospective_record_offset := physical_record_offset, scratch := fragment v,
                 in_fragmented_record := True\<rparr>), r1))
         else if record_type = RecordType_value kMiddleType then
           (if \<not> in_fragmented_record v
            then (Inl v, ReportCorruption fragment_size (lit ''missing start of fragmented record(1)'') r)
            else (Inl (v\<lparr>scratch := scratch v @ fragment v\<rparr>), r))
         else if record_type = RecordType_value kLastType then
           (if \<not> in_fragmented_record v
            then (Inl v, ReportCorruption fragment_size (lit ''missing start of fragmented record(2)'') r)
            else (Inr (True, v\<lparr>scratch := scratch v @ fragment v, out_record := scratch v @ fragment v\<rparr>),
              r\<lparr>last_record_offset := prospective_record_offset v\<rparr>))
         else if record_type = kEof then
           (Inr (False, if in_fragmented_record v then v\<lparr>scratch := []\<rparr> else v), r)
         else if record_type = kBadRecord then
           (if in_fragmented_record v
            then (Inl (v\<lparr>in_fragmented_record := False, scratch := []\<rparr>),
              ReportCorruption scratch_size (lit ''error in middle of record'') r)
            else (Inl v, r))
         else
           (Inl (v\<lparr>in_fragmented_record := False, scratch := []\<rparr>),
            ReportCorruption (fragment_size + (if in_fragmented_record v then scratch_size else 0))
              (lit ''unknown record type '' @ decimal record_type) r))"

partial_function (option) ReadRecord_loop ::
    "'f SequentialFile \<Rightarrow> locals_RR \<Rightarrow> 'f Reader \<Rightarrow> ((bool \<times> locals_RR) \<times> 'f Reader) option" where
  "ReadRecord_loop F v r =
     (case ReadPhysicalRecord F (fragment v) r of
        None \<Rightarrow> None
      | Some ((record_type, frag), r1) \<Rightarrow>
          (case handle_record record_type (v\<lparr>fragment := frag\<rparr>) r1 of
             (Inl v', r2) \<Rightarrow> ReadRecord_loop F v' r2
           | (Inr res, r2) \<Rightarrow> Some (res, r2)))"

text \<open>The result, \<open>*record\<close> and \<open>*scratch\<close>; a reader that cannot skip leaves both alone.\<close>

definition ReadRecord ::
    "'f SequentialFile \<Rightarrow> slice \<Rightarrow> byte list \<Rightarrow> 'f Reader \<Rightarrow> ((bool \<times> slice \<times> byte list) \<times> 'f Reader) option" where
  "ReadRecord F rec scr r =
     (case (if last_record_offset r < initial_offset r then SkipToInitialBlock F r else Some (True, r)) of
        None \<Rightarrow> None
      | Some (False, r1) \<Rightarrow> Some ((False, rec, scr), r1)
      | Some (True, r1) \<Rightarrow>
          (case ReadRecord_loop F initial_locals_RR r1 of
             None \<Rightarrow> None
           | Some ((b, v), r2) \<Rightarrow> Some ((b, out_record v, scratch v), r2)))"

section \<open>A physical record is parsed as it was written\<close>

lemma header_length:
  assumes "n < 65536"
  shows "unat (((ucast (word_of_nat (n mod 256) :: byte) :: u32) AND 0xff) OR
    push_bit 8 (ucast (word_of_nat (n div 256) :: byte) AND 0xff)) = n"
proof -
  have lo: "(word_of_nat (n mod 256) :: byte) = ucast (word_of_nat n :: u32)"
    by (rule word_unat_eq_iff [THEN iffD2]) (use assms in \<open>simp add: unat_of_nat unsigned_ucast_eq take_bit_eq_mod\<close>)
  have "unat (drop_bit 8 (word_of_nat n :: u32)) = n div 256"
    using assms by (simp add: drop_bit_eq_div unat_div unat_of_nat)
  then have hi: "(word_of_nat (n div 256) :: byte) = ucast (drop_bit 8 (word_of_nat n :: u32))"
    by (intro word_unat_eq_iff [THEN iffD2]) (use assms in \<open>simp add: unat_of_nat unsigned_ucast_eq take_bit_eq_mod\<close>)
  have ff: "ucast b AND 0xff = (ucast (b :: byte) :: u32)" for b
  proof -
    have "0xff = (mask 8 :: u32)" by (simp add: mask_eq_exp_minus_1)
    then have "ucast b AND 0xff = take_bit 8 (ucast b :: u32)" by (simp only: take_bit_eq_mask)
    also have "\<dots> = ucast b" by (rule bit_word_eqI) (auto simp: bit_simps dest: bit_imp_le_length)
    finally show ?thesis .
  qed
  have "ucast (word_of_nat (n mod 256) :: byte) OR push_bit 8 (ucast (word_of_nat (n div 256) :: byte)) =
      (le_word (le_bytes 2 (word_of_nat n :: u32)) :: u32)"
    by (simp add: lo hi numeral_2_eq_2)
  also have "\<dots> = word_of_nat n"
    using assms by (simp add: le_word_le_bytes_take take_bit_eq_mod flip: word_unat_eq_iff)
      (simp add: word_unat_eq_iff unat_of_nat unat_mod)
  finally show ?thesis using assms by (simp add: ff unat_of_nat)
qed

lemma scast_type: "unat (scast (word_of_nat (RecordType_value t) :: byte) :: u32) = RecordType_value t"
  by (cases t) simp_all

lemma length_physical_record [simp]: "length (physical_record t p) = kHeaderSize + length p"
  by (simp add: physical_record_def kHeaderSize_def)

lemma parse_record:
  assumes "snd (buffer r) = physical_record t p @ rest" and "length p < 65536" and "t \<noteq> kZeroType"
    and "initial_offset r = 0"
  shows "parse_physical x r = ((RecordType_value t, p), drop_buffer (kHeaderSize + length p) r)"
proof -
  let ?c = "EncodeFixed32 (Mask (crc32c 0 (word_of_nat (RecordType_value t) # p)))"
  let ?h = "snd (buffer r)"
  have h: "?h = ?c @ word_of_nat (length p mod 256) # word_of_nat (length p div 256) #
      word_of_nat (RecordType_value t) # p @ rest"
    using assms(1) by (simp add: physical_record_def)
  have nth: "?h ! 4 = word_of_nat (length p mod 256)" "?h ! 5 = word_of_nat (length p div 256)"
    "?h ! 6 = word_of_nat (RecordType_value t)"
    by (simp_all add: h nth_append)
  have dr: "drop 6 ?h = word_of_nat (RecordType_value t) # p @ rest" by (simp add: h)
  have crc: "Value a (take (1 + length p) (drop 6 ?h)) = Unmask (DecodeFixed32 ?h)" for a
    unfolding dr by (simp add: Value_def Extend_crc32c) (simp add: h DecodeFixed32_Encode Unmask_Mask)
  have t: "\<not> (RecordType_value t = RecordType_value kZeroType \<and> b)" for b using assms(3) by (cases t) auto
  have len: "\<not> kHeaderSize + length p > length ?h" using assms(1) by simp
  have tk: "take (length p) (drop kHeaderSize ?h) = p" by (simp add: h kHeaderSize_def)
  show ?thesis
    unfolding parse_physical_def Let_def nth scast_type header_length [OF assms(2)] crc tk if_not_P [OF len]
      if_not_P [OF t]
    using assms(4) by (simp add: drop_buffer_def)
qed

lemma parse_truncated:
  assumes "length b < kHeaderSize + length p" and "kHeaderSize \<le> length b"
    and "snd (buffer r) = b" and "physical_record t p = b @ rest" and "length p < 65536" and "reof r"
  shows "parse_physical x r = ((kEof, x), clear_buffer r)"
proof -
  have "b ! i = physical_record t p ! i" if "i < kHeaderSize" for i
    using that assms(2,4) by (simp add: nth_append)
  then have nth: "b ! 4 = word_of_nat (length p mod 256)" "b ! 5 = word_of_nat (length p div 256)"
    by (simp_all add: physical_record_def nth_append kHeaderSize_def)
  show ?thesis
    unfolding parse_physical_def Let_def assms(3) nth header_length [OF assms(5)] using assms(1,6) by simp
qed

section \<open>The reader follows the log\<close>

context sequential_file
begin

text \<open>
  The reader stands at offset \<open>b\<close> of a block, with the bytes \<open>L\<close> of the file to come: those of the
  block are in the buffer.
\<close>

definition at_pos :: "'f Reader \<Rightarrow> nat \<Rightarrow> byte list \<Rightarrow> bool" where
  "at_pos r b L \<longleftrightarrow> good (rfile r) \<and> initial_offset r = 0 \<and> \<not> resyncing r \<and> b \<le> kBlockSize \<and>
     snd (buffer r) = take (kBlockSize - b) L \<and> unread (rfile r) = drop (kBlockSize - b) L \<and>
     (if reof r then unread (rfile r) = [] else length (snd (buffer r)) = kBlockSize - b)"

lemma at_pos_new:
  "good f \<Longrightarrow> at_pos (new_Reader f rep csum store 0) kBlockSize (unread f)"
  by (simp add: at_pos_def new_Reader_def)

lemma refill_at:
  assumes "at_pos r b L" and "\<not> reof r"
  shows "\<exists>r'. refill F r = Some (False, r') \<and> at_pos r' 0 (drop (kBlockSize - b) L) \<and> reports r' = reports r"
proof -
  have "good (rfile r)" using assms by (simp add: at_pos_def)
  then obtain a f' where rd: "sf_Read F kBlockSize (backing_store r) (rfile r) =
      Some ((OK, Some (a, take kBlockSize (unread (rfile r)))), f')"
    and f': "good f'" "unread f' = drop kBlockSize (unread (rfile r))"
    using read [of "rfile r" kBlockSize "backing_store r"] by (auto simp: kBlockSize_def)
  then show ?thesis
    using assms by (auto simp: refill_def rd clear_buffer_def at_pos_def buffer_size_def Let_def)
qed

lemma read_here:
  assumes "at_pos r b (physical_record t p @ L)" and "b + kHeaderSize + length p \<le> kBlockSize" and "t \<noteq> kZeroType"
  shows "\<exists>r'. ReadPhysicalRecord F x r = Some ((RecordType_value t, p), r') \<and>
    at_pos r' (b + kHeaderSize + length p) L \<and> reports r' = reports r"
proof -
  have buf: "snd (buffer r) = physical_record t p @ take (kBlockSize - (b + kHeaderSize + length p)) L"
    using assms(1,2) by (simp add: at_pos_def diff_diff_left add.commute add.left_commute)
  moreover have "length p < 65536" "initial_offset r = 0"
    using assms(1,2) by (auto simp: kBlockSize_def at_pos_def)
  ultimately have "ReadPhysicalRecord F x r =
      Some ((RecordType_value t, p), drop_buffer (kHeaderSize + length p) r)"
    using assms(3) by (subst ReadPhysicalRecord.simps) (simp add: parse_record)
  moreover have "at_pos (drop_buffer (kHeaderSize + length p) r) (b + kHeaderSize + length p) L"
    using assms(1,2) buf
    by (auto simp: at_pos_def drop_buffer_def remove_prefix_def diff_diff_left add.commute add.left_commute)
  ultimately show ?thesis by (simp add: drop_buffer_def)
qed

lemma read_record_at:
  assumes "at_pos r b (replicate (padding b) 0 @ physical_record t p @ L)"
    and "length p \<le> room b" and "t \<noteq> kZeroType" and "b \<le> kBlockSize"
  shows "\<exists>r'. ReadPhysicalRecord F x r = Some ((RecordType_value t, p), r') \<and>
    at_pos r' (start_offset b + kHeaderSize + length p) L \<and> reports r' = reports r"
proof (cases "kBlockSize - b < kHeaderSize")
  case True
  then have pad: "padding b = kBlockSize - b" "start_offset b = 0" by (simp_all add: padding_def start_offset_def)
  have "physical_record t p \<noteq> []" by (simp add: physical_record_def)
  then have ne: "\<not> reof r" using assms(1) by (auto simp: at_pos_def pad)
  obtain r1 where r1: "refill F r = Some (False, r1)" "at_pos r1 0 (physical_record t p @ L)" "reports r1 = reports r"
    using refill_at [OF assms(1) ne] by (auto simp: pad)
  have "length (snd (buffer r)) < kHeaderSize" using assms(1) True by (simp add: at_pos_def)
  then have "ReadPhysicalRecord F x r = ReadPhysicalRecord F x r1"
    using ne r1(1) by (subst ReadPhysicalRecord.simps) simp
  then show ?thesis
    using read_here [OF r1(2) _ assms(3), of x] assms(2) r1(3) pad
    by (auto simp: room_def kBlockSize_def kHeaderSize_def)
next
  case False
  then have "padding b = 0" "start_offset b = b" by (simp_all add: padding_def start_offset_def)
  then show ?thesis
    using read_here [of r b t p L x] assms False by (auto simp: room_def kHeaderSize_def)
qed

text \<open>A record that was not written out in full is the end of the log.\<close>

lemma eof_here:
  assumes "at_pos r b L" and "physical_record t p = L @ Y" and "Y \<noteq> []"
    and "b + kHeaderSize + length p \<le> kBlockSize"
  shows "\<exists>r'. ReadPhysicalRecord F x r = Some ((kEof, x), r') \<and> at_pos r' kBlockSize [] \<and> reports r' = reports r"
proof -
  have len: "length L < kHeaderSize + length p"
    using arg_cong [OF assms(2), of length] assms(3) by simp
  then have lb: "length L < kBlockSize - b" using assms(4) by simp
  then have buf: "snd (buffer r) = L" and e: "reof r"
    using assms(1) by (auto simp: at_pos_def split: if_splits)
  have "unread (rfile r) = []" using assms(1) lb by (simp add: at_pos_def)
  then have at: "at_pos (clear_buffer r) kBlockSize []"
    using assms(1) e by (simp add: at_pos_def clear_buffer_def)
  have "ReadPhysicalRecord F x r = Some ((kEof, x), clear_buffer r)"
  proof (cases "length L < kHeaderSize")
    case True
    then show ?thesis using e by (subst ReadPhysicalRecord.simps) (simp add: buf)
  next
    case False
    moreover have "length p < 65536" using assms(4) by (simp add: kBlockSize_def)
    ultimately show ?thesis
      using parse_truncated [OF len _ buf assms(2) _ e, of x]
      by (subst ReadPhysicalRecord.simps) (simp add: buf)
  qed
  then show ?thesis using at by (simp add: clear_buffer_def)
qed

lemma read_eof_at:
  assumes "at_pos r b L" and "replicate (padding b) 0 @ physical_record t p = L @ Y" and "Y \<noteq> []"
    and "length p \<le> room b"
  shows "\<exists>r'. ReadPhysicalRecord F x r = Some ((kEof, x), r') \<and> at_pos r' kBlockSize [] \<and> reports r' = reports r"
proof (cases "kBlockSize - b < kHeaderSize")
  case True
  then have pad: "padding b = kBlockSize - b" "start_offset b = 0" by (simp_all add: padding_def start_offset_def)
  have sm: "length (snd (buffer r)) < kHeaderSize" using assms(1) True by (simp add: at_pos_def)
  show ?thesis
  proof (cases "reof r")
    case True
    then have "ReadPhysicalRecord F x r = Some ((kEof, x), clear_buffer r)"
      using sm by (subst ReadPhysicalRecord.simps) simp
    then show ?thesis using assms(1) True by (auto simp: at_pos_def clear_buffer_def)
  next
    case False
    obtain r1 where r1: "refill F r = Some (False, r1)" "at_pos r1 0 (drop (kBlockSize - b) L)" "reports r1 = reports r"
      using refill_at [OF assms(1) False] by auto
    have "kBlockSize - b \<le> length L" 
      using assms(1) False unfolding at_pos_def by (metis length_take min.cobounded1)
    then have "physical_record t p = drop (kBlockSize - b) L @ Y"
      using arg_cong [OF assms(2), of "drop (kBlockSize - b)"] by (simp add: pad)
    then have "\<exists>r'. ReadPhysicalRecord F x r1 = Some ((kEof, x), r') \<and> at_pos r' kBlockSize [] \<and> reports r' = reports r1"
      using assms(3,4) by (intro eof_here [OF r1(2)]) (auto simp: room_def pad kBlockSize_def kHeaderSize_def)
    moreover have "ReadPhysicalRecord F x r = ReadPhysicalRecord F x r1"
      using False r1(1) sm by (subst ReadPhysicalRecord.simps) simp
    ultimately show ?thesis using r1(3) by simp
  qed
next
  case False
  then have "padding b = 0" "start_offset b = b" by (simp_all add: padding_def start_offset_def)
  then show ?thesis
    using eof_here [of r b L t p Y x] assms False by (auto simp: room_def kHeaderSize_def)
qed

end

section \<open>Only what the writer wrote is accepted\<close>

lemma header_bytes:
  fixes h4 h5 :: byte
  defines "n \<equiv> unat (((ucast h4 :: u32) AND 0xff) OR push_bit 8 (ucast h5 AND 0xff))"
  shows "n < 65536" "word_of_nat (n mod 256) = h4" "word_of_nat (n div 256) = h5"
proof -
  let ?m = "unat h4 + 256 * unat h5"
  have b: "unat h4 < 256" "unat h5 < 256" using unsigned_less [of h4] unsigned_less [of h5] by simp_all
  then have m: "?m mod 256 = unat h4" "?m div 256 = unat h5" "?m < 65536" by auto
  have w: "word_of_nat (unat b) = b" for b :: byte by simp
  have "n = ?m" using header_length [OF m(3)] unfolding m(1,2) w n_def .
  then show "n < 65536" "word_of_nat (n mod 256) = h4" "word_of_nat (n div 256) = h5"
    using m by simp_all
qed

lemma type_byte:
  assumes "unat (scast (b :: byte) :: u32) = RecordType_value t"
  shows "b = word_of_nat (RecordType_value t)"
proof -
  have "(scast b :: u32) = scast (word_of_nat (RecordType_value t) :: byte)"
    using assms scast_type [of t] by (metis word_unat_eq_iff)
  then have "(ucast (scast b :: u32) :: byte) = ucast (scast (word_of_nat (RecordType_value t) :: byte) :: u32)"
    by simp
  moreover have "ucast (scast x :: u32) = (x :: byte)" for x
    by (rule bit_word_eqI) (auto simp: bit_simps)
  ultimately show ?thesis by simp
qed

lemma parse_accepts:
  assumes "parse_physical x r = ((RecordType_value t, p), r')" and "t \<noteq> kZeroType" and "checksum r"
    and "kHeaderSize \<le> length (snd (buffer r))"
  shows "\<exists>rest. snd (buffer r) = physical_record t p @ rest"
proof -
  define h where "h = snd (buffer r)"
  define n where "n = unat (((ucast (h ! 4) :: u32) AND 0xff) OR push_bit 8 (ucast (h ! 5) AND 0xff))"
  have bad: "RecordType_value t \<noteq> kBadRecord" "RecordType_value t \<noteq> kEof"
    by (cases t; simp add: kBadRecord_def kEof_def kMaxRecordType_def)+
  have ty: "unat (scast (h ! 6) :: u32) = RecordType_value t" and p: "p = take n (drop kHeaderSize h)"
    and len: "kHeaderSize + n \<le> length h"
    and crc: "Value (fst (buffer r) + 6) (take (1 + n) (drop 6 h)) = Unmask (DecodeFixed32 h)"
    using assms(1) [unfolded parse_physical_def Let_def, folded h_def, folded n_def] assms(3) bad
    by (auto split: if_splits)
  have l7: "7 \<le> length h" using len by (simp add: kHeaderSize_def)
  have h: "h = take 4 h @ [h ! 4, h ! 5, h ! 6] @ drop 7 h"
  proof -
    have "drop 4 h = [h ! 4, h ! 5, h ! 6] @ drop 7 h"
      using l7 by (simp add: Cons_nth_drop_Suc [symmetric] numeral_eq_Suc)
    then show ?thesis by (metis append_take_drop_id)
  qed
  have "drop 6 h = h ! 6 # drop 7 h" using l7 by (simp add: Cons_nth_drop_Suc [symmetric] numeral_eq_Suc)
  then have "crc32c 0 (h ! 6 # p) = Unmask (DecodeFixed32 h)"
    using crc by (simp add: Value_def Extend_crc32c p kHeaderSize_def)
  then have "EncodeFixed32 (Mask (crc32c 0 (h ! 6 # p))) = take 4 h"
    using l7 by (simp add: Mask_Unmask EncodeFixed32_Decode)
  moreover have "length p = n" using len p by simp
  moreover have "drop 7 h = p @ drop n (drop 7 h)"
    unfolding p kHeaderSize_def by (simp del: drop_drop)
  ultimately have "h = physical_record t p @ drop n (drop 7 h)"
    using h type_byte [OF ty] header_bytes(2,3) [of "h ! 4" "h ! 5", folded n_def]
    by (simp add: physical_record_def)
  then show ?thesis unfolding h_def [symmetric] by blast
qed

lemma ReadPhysicalRecord_accepts:
  assumes "ReadPhysicalRecord F x r = Some ((RecordType_value t, p), r')" and "t \<noteq> kZeroType" and "checksum r"
  shows "\<exists>r1 rest. (r1 = r \<or> refill F r = Some (False, r1)) \<and> snd (buffer r1) = physical_record t p @ rest"
proof -
  have ne: "RecordType_value t \<noteq> kEof" by (cases t) (simp_all add: kEof_def kMaxRecordType_def)
  show ?thesis
  proof (cases "length (snd (buffer r)) < kHeaderSize")
    case False
    then have "parse_physical x r = ((RecordType_value t, p), r')"
      using assms(1) by (simp add: ReadPhysicalRecord.simps [of F x r])
    from parse_accepts [OF this assms(2,3)] False show ?thesis by auto
  next
    case True
    then obtain r1 where r1: "refill F r = Some (False, r1)"
      "ReadPhysicalRecord F x r1 = Some ((RecordType_value t, p), r')"
      using assms(1) ne by (auto simp: ReadPhysicalRecord.simps [of F x r] split: if_splits option.splits)
    have cs: "checksum r1"
      using r1(1) assms(3) by (auto simp: refill_def clear_buffer_def Let_def split: option.splits if_splits)
    have big: "\<not> length (snd (buffer r1)) < kHeaderSize"
      using r1(2) ne refill_progress [OF r1(1)] by (auto simp: ReadPhysicalRecord.simps [of F x r1] split: if_splits)
    then have "parse_physical x r1 = ((RecordType_value t, p), r')"
      using r1(2) by (simp add: ReadPhysicalRecord.simps [of F x r1])
    from parse_accepts [OF this assms(2) cs] big show ?thesis using r1(1) by auto
  qed
qed

end
