(* ===== verification/LdbEnvPosix.thy ===== *)
theory LdbEnvPosix
  imports LdbEnv
begin

text \<open>
  The files of \<open>util/env_posix.cc\<close>. The system calls are the parameter \<open>posix\<close> of the model: functions
  of the state of the operating system, which holds \<open>errno\<close>. A file object and the system state are
  threaded together. The locale \<open>posix_files\<close> states what POSIX documents of regular files without
  I/O errors, with short writes and interrupted calls, and the contracts of \<open>LdbEnv\<close> are proved
  from it; an operating system that keeps its files in memory satisfies it.
\<close>

section \<open>System calls\<close>

record 'o posix =
  sys_read :: "int \<Rightarrow> nat \<Rightarrow> 'o \<Rightarrow> (int \<times> byte list) \<times> 'o"
  sys_pread :: "int \<Rightarrow> nat \<Rightarrow> u64 \<Rightarrow> 'o \<Rightarrow> (int \<times> byte list) \<times> 'o"
  sys_write :: "int \<Rightarrow> byte list \<Rightarrow> 'o \<Rightarrow> int \<times> 'o"
  sys_lseek_cur :: "int \<Rightarrow> u64 \<Rightarrow> 'o \<Rightarrow> int \<times> 'o"
  sys_open_rdonly :: "byte list \<Rightarrow> 'o \<Rightarrow> int \<times> 'o"
  sys_close :: "int \<Rightarrow> 'o \<Rightarrow> int \<times> 'o"
  sys_fullfsync :: "int \<Rightarrow> 'o \<Rightarrow> int \<times> 'o"
  sys_fsync :: "int \<Rightarrow> 'o \<Rightarrow> int \<times> 'o"
  sys_errno :: "'o \<Rightarrow> int"
  sys_strerror :: "int \<Rightarrow> byte list"

definition ENOENT :: int where "ENOENT = 2"
definition EINTR :: int where "EINTR = 4"
definition EINVAL :: int where "EINVAL = 22"

definition kWritableFileBufferSize :: nat where
  "kWritableFileBufferSize = 65536"

definition PosixError :: "'o posix \<Rightarrow> slice \<Rightarrow> int \<Rightarrow> Status" where
  "PosixError P ctxt error_number =
     (if error_number = ENOENT then NotFound ctxt (sys_strerror P error_number)
      else IOError ctxt (sys_strerror P error_number))"

section \<open>The limiter\<close>

text \<open>The counter \<open>acquires_allowed_\<close>; the two atomic steps of \<open>Acquire\<close> run one after the other.\<close>

definition Limiter_Acquire :: "int \<Rightarrow> bool \<times> int" where
  "Limiter_Acquire acquires_allowed =
     (let old_acquires_allowed = acquires_allowed; allowed = acquires_allowed - 1 in
      if old_acquires_allowed > 0 then (True, allowed) else (False, allowed + 1))"

definition Limiter_Release :: "int \<Rightarrow> int" where
  "Limiter_Release acquires_allowed = acquires_allowed + 1"

section \<open>Sequential files\<close>

record PosixSequentialFile =
  psf_fd :: int
  psf_filename :: slice

partial_function (option) PosixSequentialFile_Read ::
    "'o posix \<Rightarrow> nat \<Rightarrow> u64 \<Rightarrow> PosixSequentialFile \<times> 'o \<Rightarrow>
     ((Status \<times> read_result) \<times> (PosixSequentialFile \<times> 'o)) option" where
  "PosixSequentialFile_Read P n scratch st =
     (case st of (f, os) \<Rightarrow>
        (case sys_read P (psf_fd f) n os of ((read_size, data), os1) \<Rightarrow>
           if read_size < 0 then
             (if sys_errno P os1 = EINTR then PosixSequentialFile_Read P n scratch (f, os1)
              else Some ((PosixError P (psf_filename f) (sys_errno P os1), None), (f, os1)))
           else Some ((OK, Some (scratch, data)), (f, os1))))"

definition PosixSequentialFile_Skip ::
    "'o posix \<Rightarrow> u64 \<Rightarrow> (PosixSequentialFile \<times> 'o) file_op" where
  "PosixSequentialFile_Skip P n st =
     (case st of (f, os) \<Rightarrow>
        (case sys_lseek_cur P (psf_fd f) n os of (r, os1) \<Rightarrow>
           if r = - 1 then Some (PosixError P (psf_filename f) (sys_errno P os1), (f, os1))
           else Some (OK, (f, os1))))"

definition posix_sequential :: "'o posix \<Rightarrow> (PosixSequentialFile \<times> 'o) SequentialFile" where
  "posix_sequential P = \<lparr>sf_Read = PosixSequentialFile_Read P, sf_Skip = PosixSequentialFile_Skip P\<rparr>"

section \<open>Random access files\<close>

record PosixRandomAccessFile =
  has_permanent_fd :: bool
  prf_fd :: int
  prf_filename :: slice

text \<open>The constructor gives the file, what is left of the limit, and the system's state: without a
  permanent descriptor it closes the one it was given.\<close>

definition new_PosixRandomAccessFile ::
    "'o posix \<Rightarrow> slice \<Rightarrow> int \<Rightarrow> int \<Rightarrow> 'o \<Rightarrow> PosixRandomAccessFile \<times> int \<times> 'o" where
  "new_PosixRandomAccessFile P filename fd limit os =
     (let (permanent, limit1) = Limiter_Acquire limit;
          f = \<lparr>has_permanent_fd = permanent, prf_fd = (if permanent then fd else - 1), prf_filename = filename\<rparr>
      in (f, limit1, if permanent then os else snd (sys_close P fd os)))"

definition PosixRandomAccessFile_Read ::
    "'o posix \<Rightarrow> u64 \<Rightarrow> nat \<Rightarrow> u64 \<Rightarrow> PosixRandomAccessFile \<times> 'o \<Rightarrow>
     ((Status \<times> read_result) \<times> (PosixRandomAccessFile \<times> 'o)) option" where
  "PosixRandomAccessFile_Read P offset n scratch st =
     (case st of (f, os) \<Rightarrow>
        (let (fd, os1) = (if \<not> has_permanent_fd f then sys_open_rdonly P (prf_filename f) os else (prf_fd f, os))
         in if \<not> has_permanent_fd f \<and> fd < 0
            then Some ((PosixError P (prf_filename f) (sys_errno P os1), None), (f, os1))
            else
              (let ((read_size, data), os2) = sys_pread P fd n offset os1;
                   result = (scratch, if read_size < 0 then [] else data);
                   status = (if read_size < 0 then PosixError P (prf_filename f) (sys_errno P os2) else OK);
                   os3 = (if \<not> has_permanent_fd f then snd (sys_close P fd os2) else os2)
               in Some ((status, Some result), (f, os3)))))"

definition posix_random_access :: "'o posix \<Rightarrow> (PosixRandomAccessFile \<times> 'o) RandomAccessFile" where
  "posix_random_access P = \<lparr>raf_Read = PosixRandomAccessFile_Read P\<rparr>"

text \<open>A memory-mapped file: the address and the bytes of the mapping. A read behind the mapping
  is undefined behaviour (None). The slice of a refused read is empty; nobody uses its address.\<close>

record PosixMmapReadableFile =
  mmap_base :: u64
  mmap_data :: "byte list"
  mmap_length :: u64
  pmf_filename :: slice

definition PosixMmapReadableFile_Read ::
    "'o posix \<Rightarrow> u64 \<Rightarrow> nat \<Rightarrow> u64 \<Rightarrow> PosixMmapReadableFile \<Rightarrow>
     ((Status \<times> read_result) \<times> PosixMmapReadableFile) option" where
  "PosixMmapReadableFile_Read P offset n scratch f =
     (if offset + word_of_nat n > mmap_length f
      then Some ((PosixError P (pmf_filename f) EINVAL, Some (0, [])), f)
      else if unat offset + n \<le> length (mmap_data f)
      then Some ((OK, Some (mmap_base f + offset, take n (drop (unat offset) (mmap_data f)))), f)
      else None)"

definition posix_mmap :: "'o posix \<Rightarrow> PosixMmapReadableFile RandomAccessFile" where
  "posix_mmap P = \<lparr>raf_Read = PosixMmapReadableFile_Read P\<rparr>"

section \<open>Writable files\<close>

record PosixWritableFile =
  pw_buf :: "byte list"
  pw_pos :: nat
  pw_fd :: int
  is_manifest :: bool
  pw_filename :: slice
  pw_dirname :: slice

text \<open>\<open>std::string::rfind\<close> of one character.\<close>

definition rfind :: "byte \<Rightarrow> byte list \<Rightarrow> nat option" where
  "rfind c s = (if c \<in> set s then Some (length s - 1 - length (takeWhile (\<lambda>x. x \<noteq> c) (rev s))) else None)"

definition slash :: byte where "slash = of_char CHR ''/''"

definition Dirname :: "slice \<Rightarrow> slice" where
  "Dirname filename =
     (case rfind slash filename of None \<Rightarrow> lit ''.'' | Some separator_pos \<Rightarrow> take separator_pos filename)"

definition Basename :: "slice \<Rightarrow> slice" where
  "Basename filename =
     (case rfind slash filename of None \<Rightarrow> filename | Some separator_pos \<Rightarrow> drop (separator_pos + 1) filename)"

definition IsManifest :: "slice \<Rightarrow> bool" where
  "IsManifest filename \<longleftrightarrow> starts_with (Basename filename) (lit ''MANIFEST'')"

text \<open>\<open>mem\<close> is what the storage of \<open>buf_\<close> held before.\<close>

definition new_PosixWritableFile :: "byte list \<Rightarrow> slice \<Rightarrow> int \<Rightarrow> PosixWritableFile" where
  "new_PosixWritableFile mem filename fd =
     \<lparr>pw_buf = mem, pw_pos = 0, pw_fd = fd, is_manifest = IsManifest filename,
      pw_filename = filename, pw_dirname = Dirname filename\<rparr>"

text \<open>\<open>memcpy\<close> into an array at an index.\<close>

definition overwrite :: "byte list \<Rightarrow> nat \<Rightarrow> byte list \<Rightarrow> byte list" where
  "overwrite buf i xs = take i buf @ xs @ drop (i + length xs) buf"

partial_function (option) WriteUnbuffered ::
    "'o posix \<Rightarrow> slice \<Rightarrow> PosixWritableFile \<times> 'o \<Rightarrow> (Status \<times> (PosixWritableFile \<times> 'o)) option" where
  "WriteUnbuffered P data st =
     (case st of (f, os) \<Rightarrow>
        if length data > 0 then
          (case sys_write P (pw_fd f) data os of (write_result, os1) \<Rightarrow>
             if write_result < 0 then
               (if sys_errno P os1 = EINTR then WriteUnbuffered P data (f, os1)
                else Some (PosixError P (pw_filename f) (sys_errno P os1), (f, os1)))
             else WriteUnbuffered P (drop (nat write_result) data) (f, os1))
        else Some (OK, (f, os)))"

definition FlushBuffer :: "'o posix \<Rightarrow> (PosixWritableFile \<times> 'o) file_op" where
  "FlushBuffer P st = do {
     (status, (f, os)) \<leftarrow> WriteUnbuffered P (take (pw_pos (fst st)) (pw_buf (fst st))) st;
     Some (status, (f\<lparr>pw_pos := 0\<rparr>, os)) }"

definition PosixWritableFile_Append :: "'o posix \<Rightarrow> slice \<Rightarrow> (PosixWritableFile \<times> 'o) file_op" where
  "PosixWritableFile_Append P data st =
     (let (f, os) = st;
          copy_size = min (length data) (kWritableFileBufferSize - pw_pos f);
          f1 = f\<lparr>pw_buf := overwrite (pw_buf f) (pw_pos f) (take copy_size data), pw_pos := pw_pos f + copy_size\<rparr>;
          write_data = drop copy_size data
      in if write_data = [] then Some (OK, (f1, os))
         else do {
           (status, (f2, os2)) \<leftarrow> FlushBuffer P (f1, os);
           if \<not> ok status then Some (status, (f2, os2))
           else if length write_data < kWritableFileBufferSize
           then Some (OK, (f2\<lparr>pw_buf := overwrite (pw_buf f2) 0 write_data, pw_pos := length write_data\<rparr>, os2))
           else WriteUnbuffered P write_data (f2, os2) })"

definition PosixWritableFile_Close :: "'o posix \<Rightarrow> (PosixWritableFile \<times> 'o) file_op" where
  "PosixWritableFile_Close P st = do {
     (status, (f, os)) \<leftarrow> FlushBuffer P st;
     let (close_result, os1) = sys_close P (pw_fd f) os;
     let status1 = (if close_result < 0 \<and> ok status then PosixError P (pw_filename f) (sys_errno P os1) else status);
     Some (status1, (f\<lparr>pw_fd := - 1\<rparr>, os1)) }"

definition PosixWritableFile_delete :: "'o posix \<Rightarrow> PosixWritableFile \<times> 'o \<Rightarrow> 'o option" where
  "PosixWritableFile_delete P st =
     (if pw_fd (fst st) \<ge> 0 then do { (status, (f, os)) \<leftarrow> PosixWritableFile_Close P st; Some os }
      else Some (snd st))"

definition SyncFd :: "'o posix \<Rightarrow> int \<Rightarrow> slice \<Rightarrow> 'o \<Rightarrow> Status \<times> 'o" where
  "SyncFd P fd fd_path os =
     (let (r, os1) = sys_fullfsync P fd os in
      if r = 0 then (OK, os1)
      else let (r2, os2) = sys_fsync P fd os1; sync_success = (r2 = 0) in
        if sync_success then (OK, os2) else (PosixError P fd_path (sys_errno P os2), os2))"

definition SyncDirIfManifest :: "'o posix \<Rightarrow> PosixWritableFile \<Rightarrow> 'o \<Rightarrow> Status \<times> 'o" where
  "SyncDirIfManifest P f os =
     (if \<not> is_manifest f then (OK, os)
      else let (fd, os1) = sys_open_rdonly P (pw_dirname f) os in
        if fd < 0 then (PosixError P (pw_dirname f) (sys_errno P os1), os1)
        else let (status, os2) = SyncFd P fd (pw_dirname f) os1 in (status, snd (sys_close P fd os2)))"

definition PosixWritableFile_Sync :: "'o posix \<Rightarrow> (PosixWritableFile \<times> 'o) file_op" where
  "PosixWritableFile_Sync P st =
     (let (f, os) = st; (status, os1) = SyncDirIfManifest P f os in
      if \<not> ok status then Some (status, (f, os1))
      else do {
        (status2, (f2, os2)) \<leftarrow> FlushBuffer P (f, os1);
        if \<not> ok status2 then Some (status2, (f2, os2))
        else let (status3, os3) = SyncFd P (pw_fd f2) (pw_filename f2) os2 in Some (status3, (f2, os3)) })"

definition posix_writable :: "'o posix \<Rightarrow> (PosixWritableFile \<times> 'o) WritableFile" where
  "posix_writable P =
     \<lparr>wf_Append = PosixWritableFile_Append P, wf_Close = PosixWritableFile_Close P,
      wf_Flush = FlushBuffer P, wf_Sync = PosixWritableFile_Sync P\<rparr>"

section \<open>The contract of the system calls\<close>

text \<open>
  \<open>before fd\<close> and \<open>after fd\<close> are the bytes of the file on both sides of its position; \<open>stored name\<close> is
  the content of a named file. A call may be interrupted, but not for ever: \<open>patience\<close> decreases.
\<close>

locale posix_files =
  fixes P :: "'o posix" and live :: "int \<Rightarrow> 'o \<Rightarrow> bool"
    and before :: "int \<Rightarrow> 'o \<Rightarrow> byte list" and after :: "int \<Rightarrow> 'o \<Rightarrow> byte list"
    and stored :: "slice \<Rightarrow> 'o \<Rightarrow> byte list option" and patience :: "'o \<Rightarrow> nat"
  assumes write_some: "live fd os \<Longrightarrow> d \<noteq> [] \<Longrightarrow> sys_write P fd d os = (r, os') \<Longrightarrow>
      live fd os' \<and>
      (0 < r \<and> nat r \<le> length d \<and> before fd os' = before fd os @ take (nat r) d \<or>
       r < 0 \<and> sys_errno P os' = EINTR \<and> before fd os' = before fd os \<and> patience os' < patience os)"
    and read_some: "live fd os \<Longrightarrow> 0 < n \<Longrightarrow> n < 2 ^ 63 \<Longrightarrow> sys_read P fd n os = ((q, bs), os') \<Longrightarrow>
      live fd os' \<and>
      (q = int (length bs) \<and> bs = take n (after fd os) \<and> after fd os' = drop n (after fd os) \<or>
       q < 0 \<and> sys_errno P os' = EINTR \<and> after fd os' = after fd os \<and> patience os' < patience os)"
    and seek: "live fd os \<Longrightarrow> unat k \<le> length (after fd os) \<Longrightarrow> sys_lseek_cur P fd k os = (q, os') \<Longrightarrow>
      live fd os' \<and> 0 \<le> q \<and> after fd os' = drop (unat k) (after fd os)"
    and pread: "live fd os \<Longrightarrow> sys_pread P fd n k os = ((q, bs), os') \<Longrightarrow>
      live fd os' \<and> before fd os' = before fd os \<and> after fd os' = after fd os \<and>
      stored name os' = stored name os \<and>
      q = int (length bs) \<and> bs = take n (drop (unat k) (before fd os @ after fd os))"
    and open_file: "stored name os = Some c \<Longrightarrow> sys_open_rdonly P name os = (fd, os') \<Longrightarrow>
      0 \<le> fd \<and> live fd os' \<and> before fd os' @ after fd os' = c \<and> stored name os' = Some c"
    and close_file: "stored name (snd (sys_close P fd os)) = stored name os"

subsection \<open>Reading\<close>

context posix_files
begin

lemma PosixSequentialFile_Read_ok:
  "live (psf_fd f) os \<Longrightarrow> 0 < n \<Longrightarrow> n < 2 ^ 63 \<Longrightarrow>
     \<exists>os'. PosixSequentialFile_Read P n scratch (f, os) =
         Some ((OK, Some (scratch, take n (after (psf_fd f) os))), (f, os')) \<and>
       live (psf_fd f) os' \<and> after (psf_fd f) os' = drop n (after (psf_fd f) os)"
proof (induction "patience os" arbitrary: os rule: less_induct)
  case less
  obtain q bs os1 where s: "sys_read P (psf_fd f) n os = ((q, bs), os1)" by (metis prod.exhaust)
  note l = read_some [OF less.prems s]
  show ?case
  proof (cases "q < 0")
    case True
    then have "patience os1 < patience os" "live (psf_fd f) os1" "sys_errno P os1 = EINTR"
      "after (psf_fd f) os1 = after (psf_fd f) os" using l by auto
    then show ?thesis
      using less.hyps [of os1] less.prems True by (subst PosixSequentialFile_Read.simps) (simp add: s)
  next
    case False
    then show ?thesis using l by (subst PosixSequentialFile_Read.simps) (simp add: s)
  qed
qed

lemma PosixSequentialFile_Skip_ok:
  assumes "live (psf_fd f) os" and "unat k \<le> length (after (psf_fd f) os)"
  shows "\<exists>os'. PosixSequentialFile_Skip P k (f, os) = Some (OK, (f, os')) \<and>
    live (psf_fd f) os' \<and> after (psf_fd f) os' = drop (unat k) (after (psf_fd f) os)"
proof -
  obtain q os1 where s: "sys_lseek_cur P (psf_fd f) k os = (q, os1)" by (metis prod.exhaust)
  show ?thesis using seek [OF assms s] by (simp add: PosixSequentialFile_Skip_def s)
qed

text \<open>The file has a permanent descriptor, or is opened by its name for each read.\<close>

definition random_good :: "PosixRandomAccessFile \<times> 'o \<Rightarrow> bool" where
  "random_good st = (case st of (f, os) \<Rightarrow>
     if has_permanent_fd f then live (prf_fd f) os else stored (prf_filename f) os \<noteq> None)"

definition random_content :: "PosixRandomAccessFile \<times> 'o \<Rightarrow> byte list" where
  "random_content st = (case st of (f, os) \<Rightarrow>
     if has_permanent_fd f then before (prf_fd f) os @ after (prf_fd f) os
     else the (stored (prf_filename f) os))"

lemma PosixRandomAccessFile_Read_ok:
  assumes "random_good st"
  shows "\<exists>st'. PosixRandomAccessFile_Read P k n scratch st =
      Some ((OK, Some (scratch, take n (drop (unat k) (random_content st)))), st') \<and>
    random_good st' \<and> random_content st' = random_content st"
proof -
  obtain f os where st: "st = (f, os)" by (metis prod.exhaust)
  show ?thesis
  proof (cases "has_permanent_fd f")
    case True
    obtain q bs os1 where s: "sys_pread P (prf_fd f) n k os = ((q, bs), os1)" by (metis prod.exhaust)
    show ?thesis
      using pread [OF _ s] assms True
      by (auto simp: PosixRandomAccessFile_Read_def random_good_def random_content_def st s)
  next
    case False
    then obtain c where c: "stored (prf_filename f) os = Some c"
      using assms by (auto simp: random_good_def st)
    obtain fd os1 where o: "sys_open_rdonly P (prf_filename f) os = (fd, os1)" by (metis prod.exhaust)
    note op = open_file [OF c o]
    obtain q bs os2 where s: "sys_pread P fd n k os1 = ((q, bs), os2)" by (metis prod.exhaust)
    show ?thesis
      using pread [OF _ s, where name = "prf_filename f"] op False c close_file
      by (auto simp: PosixRandomAccessFile_Read_def random_good_def random_content_def st o s)
  qed
qed

end

sublocale posix_files \<subseteq> seq: sequential_file "posix_sequential P"
    "\<lambda>(f, os). live (psf_fd f) os" "\<lambda>(f, os). after (psf_fd f) os"
proof unfold_locales
  fix st :: "PosixSequentialFile \<times> 'o" and n :: nat and scratch
  assume "case st of (f, os) \<Rightarrow> live (psf_fd f) os" "0 < n" "n < 2 ^ 63"
  then show "\<exists>a st'. sf_Read (posix_sequential P) n scratch st =
      Some ((OK, Some (a, take n (case st of (f, os) \<Rightarrow> after (psf_fd f) os))), st') \<and>
      (case st' of (f, os) \<Rightarrow> live (psf_fd f) os) \<and>
      (case st' of (f, os) \<Rightarrow> after (psf_fd f) os) = drop n (case st of (f, os) \<Rightarrow> after (psf_fd f) os)"
    using PosixSequentialFile_Read_ok [of "fst st" "snd st" n scratch]
    by (fastforce simp: posix_sequential_def split: prod.splits)
next
  fix st :: "PosixSequentialFile \<times> 'o" and k :: u64
  assume "case st of (f, os) \<Rightarrow> live (psf_fd f) os"
    "unat k \<le> length (case st of (f, os) \<Rightarrow> after (psf_fd f) os)"
  then show "\<exists>st'. sf_Skip (posix_sequential P) k st = Some (OK, st') \<and>
      (case st' of (f, os) \<Rightarrow> live (psf_fd f) os) \<and>
      (case st' of (f, os) \<Rightarrow> after (psf_fd f) os) = drop (unat k) (case st of (f, os) \<Rightarrow> after (psf_fd f) os)"
    using PosixSequentialFile_Skip_ok [of "fst st" "snd st" k]
    by (fastforce simp: posix_sequential_def split: prod.splits)
qed

sublocale posix_files \<subseteq> random: random_access_file "posix_random_access P" random_good random_content
proof unfold_locales
  fix st :: "PosixRandomAccessFile \<times> 'o" and k n scratch
  assume "random_good st"
  then show "\<exists>a st'. raf_Read (posix_random_access P) k n scratch st =
      Some ((OK, Some (a, take n (drop (unat k) (random_content st)))), st') \<and>
      random_good st' \<and> random_content st' = random_content st"
    using PosixRandomAccessFile_Read_ok [of st k n scratch] by (auto simp: posix_random_access_def)
qed

text \<open>A mapping as long as it says, small enough that \<open>offset + n\<close> does not wrap for reads inside it.\<close>

interpretation mmap: random_access_file "posix_mmap P"
  "\<lambda>f. length (mmap_data f) = unat (mmap_length f)" mmap_data
proof unfold_locales
  fix f :: PosixMmapReadableFile and k :: u64 and n and scratch :: u64
  assume len: "length (mmap_data f) = unat (mmap_length f)" and n: "unat k + n \<le> length (mmap_data f)"
  then have "unat (k + word_of_nat n) = unat k + n"
    using unat_u64_less [of "mmap_length f"] by (simp add: unat_word_ariths unat_of_nat)
  then have "\<not> mmap_length f < k + word_of_nat n" using n len by (simp add: word_less_nat_alt)
  then show "\<exists>a f'. raf_Read (posix_mmap P) k n scratch f =
      Some ((OK, Some (a, take n (drop (unat k) (mmap_data f)))), f') \<and>
      length (mmap_data f') = unat (mmap_length f') \<and> mmap_data f' = mmap_data f"
    using n len by (simp add: posix_mmap_def PosixMmapReadableFile_Read_def)
qed

subsection \<open>Writing\<close>

definition buffered :: "PosixWritableFile \<Rightarrow> byte list" where
  "buffered f = take (pw_pos f) (pw_buf f)"

definition buffer_ok :: "PosixWritableFile \<Rightarrow> bool" where
  "buffer_ok f \<longleftrightarrow> length (pw_buf f) = kWritableFileBufferSize \<and> pw_pos f \<le> kWritableFileBufferSize"

lemma take_overwrite: "i \<le> length buf \<Longrightarrow> take (i + length xs) (overwrite buf i xs) = take i buf @ xs"
  by (simp add: overwrite_def)

lemma length_overwrite: "i + length xs \<le> length buf \<Longrightarrow> length (overwrite buf i xs) = length buf"
  by (simp add: overwrite_def)

context posix_files
begin

lemma WriteUnbuffered_ok:
  "live (pw_fd f) os \<Longrightarrow>
     \<exists>os'. WriteUnbuffered P data (f, os) = Some (OK, (f, os')) \<and> live (pw_fd f) os' \<and>
       before (pw_fd f) os' = before (pw_fd f) os @ data"
proof (induction "(length data, patience os)" arbitrary: data os
    rule: wf_induct_rule [OF wf_lex_prod [OF wf_less wf_less]])
  case 1
  obtain r os1 where s: "sys_write P (pw_fd f) data os = (r, os1)" by (metis prod.exhaust)
  show ?case
  proof (cases "data = []")
    case True
    then show ?thesis using "1.prems" by (subst WriteUnbuffered.simps) simp
  next
    case False
    note l = write_some [OF "1.prems" False s]
    show ?thesis
    proof (cases "r < 0")
      case True
      then have "patience os1 < patience os" "live (pw_fd f) os1" "sys_errno P os1 = EINTR"
        "before (pw_fd f) os1 = before (pw_fd f) os" using l by auto
      then show ?thesis
        using "1.hyps" [of data os1] True False by (subst WriteUnbuffered.simps) (simp add: s)
    next
      case nn: False
      then have "0 < r" "nat r \<le> length data" "live (pw_fd f) os1"
        "before (pw_fd f) os1 = before (pw_fd f) os @ take (nat r) data" using l by auto
      moreover from this have "length (drop (nat r) data) < length data" using False by simp
      ultimately show ?thesis
        using "1.hyps" [of "drop (nat r) data" os1] nn False
        by (subst WriteUnbuffered.simps) (simp add: s)
    qed
  qed
qed

definition file_good :: "PosixWritableFile \<times> 'o \<Rightarrow> bool" where
  "file_good st = (case st of (f, os) \<Rightarrow> live (pw_fd f) os \<and> buffer_ok f)"

text \<open>What was appended: the part the system has, and the part in the buffer.\<close>

definition appended :: "PosixWritableFile \<times> 'o \<Rightarrow> byte list" where
  "appended st = (case st of (f, os) \<Rightarrow> before (pw_fd f) os @ buffered f)"

lemma FlushBuffer_ok:
  assumes "file_good (f, os)"
  shows "\<exists>os'. FlushBuffer P (f, os) = Some (OK, (f\<lparr>pw_pos := 0\<rparr>, os')) \<and>
    live (pw_fd f) os' \<and> before (pw_fd f) os' = appended (f, os)"
  using WriteUnbuffered_ok [of f os "take (pw_pos f) (pw_buf f)"] assms
  by (auto simp: file_good_def FlushBuffer_def appended_def buffered_def)

lemma Append_ok:
  assumes "file_good st"
  shows "\<exists>st'. PosixWritableFile_Append P data st = Some (OK, st') \<and> file_good st' \<and>
    appended st' = appended st @ data"
proof -
  obtain f os where st: "st = (f, os)" by (metis prod.exhaust)
  define k where "k = min (length data) (kWritableFileBufferSize - pw_pos f)"
  define f1 where "f1 = f\<lparr>pw_buf := overwrite (pw_buf f) (pw_pos f) (take k data), pw_pos := pw_pos f + k\<rparr>"
  have lv: "live (pw_fd f) os" and b: "length (pw_buf f) = kWritableFileBufferSize" "pw_pos f \<le> kWritableFileBufferSize"
    using assms by (auto simp: file_good_def buffer_ok_def st)
  have lk: "length (take k data) = k" by (simp add: k_def)
  have g1: "file_good (f1, os)"
    using lv b length_overwrite [of "pw_pos f" "take k data" "pw_buf f"]
    by (auto simp: file_good_def buffer_ok_def f1_def lk) (auto simp: k_def)
  have a1: "appended (f1, os) = appended st @ take k data"
    using take_overwrite [of "pw_pos f" "pw_buf f" "take k data"] b
    unfolding lk by (simp add: appended_def buffered_def f1_def st)
  show ?thesis
  proof (cases "drop k data = []")
    case True
    then have "PosixWritableFile_Append P data st = Some (OK, (f1, os))"
      unfolding PosixWritableFile_Append_def st Let_def prod.case k_def [symmetric] f1_def [symmetric] by simp
    moreover have "take k data = data" using True by simp
    ultimately show ?thesis using g1 a1 by auto
  next
    case rest: False
    obtain os2 where fl: "FlushBuffer P (f1, os) = Some (OK, (f1\<lparr>pw_pos := 0\<rparr>, os2))"
      and lv2: "live (pw_fd f1) os2" and a2: "before (pw_fd f1) os2 = appended (f1, os)"
      using FlushBuffer_ok [OF g1] by blast
    have ap: "PosixWritableFile_Append P data st =
        (if length (drop k data) < kWritableFileBufferSize
         then Some (OK, (f1\<lparr>pw_buf := overwrite (pw_buf f1) 0 (drop k data), pw_pos := length (drop k data)\<rparr>, os2))
         else WriteUnbuffered P (drop k data) (f1\<lparr>pw_pos := 0\<rparr>, os2))"
      unfolding PosixWritableFile_Append_def st Let_def prod.case k_def [symmetric] f1_def [symmetric]
        if_not_P [OF rest] fl by simp
    have b1: "length (pw_buf f1) = kWritableFileBufferSize" using g1 by (simp add: file_good_def buffer_ok_def)
    have tw: "take (length ys) (overwrite xs 0 ys) = ys" for xs ys by (simp add: overwrite_def)
    show ?thesis
    proof (cases "length (drop k data) < kWritableFileBufferSize")
      case True
      then show ?thesis
        using ap lv2 a2 a1 b1 length_overwrite [of 0 "drop k data" "pw_buf f1"] tw [of "drop k data" "pw_buf f1"]
        by (simp add: file_good_def buffer_ok_def appended_def buffered_def)
    next
      case False
      obtain os3 where "WriteUnbuffered P (drop k data) (f1\<lparr>pw_pos := 0\<rparr>, os2) = Some (OK, (f1\<lparr>pw_pos := 0\<rparr>, os3))"
        and l3: "live (pw_fd f1) os3" and b3: "before (pw_fd f1) os3 = before (pw_fd f1) os2 @ drop k data"
        using WriteUnbuffered_ok [of "f1\<lparr>pw_pos := 0\<rparr>" os2 "drop k data"] lv2 by auto
      moreover have "appended (f1\<lparr>pw_pos := 0\<rparr>, os3) = appended st @ data"
        unfolding appended_def [of "(f1\<lparr>pw_pos := 0\<rparr>, os3)"] by (simp add: buffered_def b3 a2 a1)
      ultimately show ?thesis using ap False b1 by (simp add: file_good_def buffer_ok_def)
    qed
  qed
qed

lemma Flush_ok:
  assumes "file_good st"
  shows "\<exists>st'. FlushBuffer P st = Some (OK, st') \<and> file_good st' \<and> appended st' = appended st \<and>
    buffered (fst st') = []"
proof -
  obtain f os where st: "st = (f, os)" by (metis prod.exhaust)
  show ?thesis
    using FlushBuffer_ok [of f os] assms
    by (auto simp: st file_good_def buffer_ok_def appended_def buffered_def)
qed

end

sublocale posix_files \<subseteq> writable: writable_file "posix_writable P" file_good appended
    "\<lambda>(f, os). before (pw_fd f) os"
proof unfold_locales
  fix st :: "PosixWritableFile \<times> 'o" and s
  assume g: "file_good st"
  show "\<exists>st'. wf_Append (posix_writable P) s st = Some (OK, st') \<and> file_good st' \<and> appended st' = appended st @ s"
    using Append_ok [OF g] by (auto simp: posix_writable_def)
  show "\<exists>st'. wf_Flush (posix_writable P) st = Some (OK, st') \<and> file_good st' \<and> appended st' = appended st \<and>
      (case st' of (f, os) \<Rightarrow> before (pw_fd f) os) = appended st"
    using Flush_ok [OF g] by (auto simp: posix_writable_def appended_def)
qed

section \<open>An operating system in memory\<close>

text \<open>
  Named files, descriptors with a name and a position, and a script of disturbances: the head 0
  interrupts the next read or write, \<open>Suc j\<close> limits a write to \<open>j + 1\<close> bytes.
\<close>

record mem_os =
  m_files :: "slice \<Rightarrow> byte list option"
  m_fds :: "int \<Rightarrow> (slice \<times> nat) option"
  m_next :: nat
  m_errno :: int
  m_script :: "nat list"

definition mem_at :: "int \<Rightarrow> mem_os \<Rightarrow> (slice \<times> nat \<times> byte list) option" where
  "mem_at fd os = do { (name, pos) \<leftarrow> m_fds os fd; c \<leftarrow> m_files os name; Some (name, pos, c) }"

definition mem_fail :: "int \<Rightarrow> 'r \<Rightarrow> mem_os \<Rightarrow> 'r \<times> mem_os" where
  "mem_fail e r os = (r, os\<lparr>m_errno := e, m_script := tl (m_script os)\<rparr>)"

definition EBADF :: int where "EBADF = 9"

definition mem_write :: "int \<Rightarrow> byte list \<Rightarrow> mem_os \<Rightarrow> int \<times> mem_os" where
  "mem_write fd d os =
     (if m_script os \<noteq> [] \<and> hd (m_script os) = 0 then mem_fail EINTR (- 1) os
      else case mem_at fd os of
        None \<Rightarrow> mem_fail EBADF (- 1) os
      | Some (name, pos, c) \<Rightarrow>
          (let k = (if m_script os = [] then length d else min (hd (m_script os)) (length d)) in
           (int k, os\<lparr>m_files := (m_files os)(name \<mapsto> overwrite c pos (take k d)),
             m_fds := (m_fds os)(fd \<mapsto> (name, pos + k)), m_script := tl (m_script os)\<rparr>)))"

definition mem_read :: "int \<Rightarrow> nat \<Rightarrow> mem_os \<Rightarrow> (int \<times> byte list) \<times> mem_os" where
  "mem_read fd n os =
     (if m_script os \<noteq> [] \<and> hd (m_script os) = 0 then mem_fail EINTR (- 1, []) os
      else case mem_at fd os of
        None \<Rightarrow> mem_fail EBADF (- 1, []) os
      | Some (name, pos, c) \<Rightarrow>
          (let bs = take n (drop pos c) in
           ((int (length bs), bs), os\<lparr>m_fds := (m_fds os)(fd \<mapsto> (name, pos + length bs)),
             m_script := tl (m_script os)\<rparr>)))"

definition mem_pread :: "int \<Rightarrow> nat \<Rightarrow> u64 \<Rightarrow> mem_os \<Rightarrow> (int \<times> byte list) \<times> mem_os" where
  "mem_pread fd n k os =
     (case mem_at fd os of
        None \<Rightarrow> mem_fail EBADF (- 1, []) os
      | Some (name, pos, c) \<Rightarrow> (let bs = take n (drop (unat k) c) in ((int (length bs), bs), os)))"

definition mem_lseek :: "int \<Rightarrow> u64 \<Rightarrow> mem_os \<Rightarrow> int \<times> mem_os" where
  "mem_lseek fd k os =
     (case mem_at fd os of
        None \<Rightarrow> mem_fail EBADF (- 1) os
      | Some (name, pos, c) \<Rightarrow> (int (pos + unat k), os\<lparr>m_fds := (m_fds os)(fd \<mapsto> (name, pos + unat k))\<rparr>))"

definition mem_open :: "slice \<Rightarrow> mem_os \<Rightarrow> int \<times> mem_os" where
  "mem_open name os =
     (if m_files os name = None then mem_fail ENOENT (- 1) os
      else (int (m_next os), os\<lparr>m_fds := (m_fds os)(int (m_next os) \<mapsto> (name, 0)), m_next := m_next os + 1\<rparr>))"

definition mem_close :: "int \<Rightarrow> mem_os \<Rightarrow> int \<times> mem_os" where
  "mem_close fd os =
     (if m_fds os fd = None then mem_fail EBADF (- 1) os else (0, os\<lparr>m_fds := (m_fds os)(fd := None)\<rparr>))"

definition mem_posix :: "mem_os posix" where
  "mem_posix = \<lparr>sys_read = mem_read, sys_pread = mem_pread, sys_write = mem_write, sys_lseek_cur = mem_lseek,
     sys_open_rdonly = mem_open, sys_close = mem_close, sys_fullfsync = (\<lambda>fd os. (0, os)),
     sys_fsync = (\<lambda>fd os. (0, os)), sys_errno = m_errno, sys_strerror = (\<lambda>e. lit ''error'')\<rparr>"

definition mem_live :: "int \<Rightarrow> mem_os \<Rightarrow> bool" where
  "mem_live fd os \<longleftrightarrow> (case mem_at fd os of None \<Rightarrow> False | Some (name, pos, c) \<Rightarrow> pos \<le> length c)"

definition mem_before :: "int \<Rightarrow> mem_os \<Rightarrow> byte list" where
  "mem_before fd os = (case mem_at fd os of None \<Rightarrow> [] | Some (name, pos, c) \<Rightarrow> take pos c)"

definition mem_after :: "int \<Rightarrow> mem_os \<Rightarrow> byte list" where
  "mem_after fd os = (case mem_at fd os of None \<Rightarrow> [] | Some (name, pos, c) \<Rightarrow> drop pos c)"

lemma mem_liveE:
  assumes "mem_live fd os"
  obtains name pos c where "m_fds os fd = Some (name, pos)" "m_files os name = Some c" "pos \<le> length c"
    "mem_at fd os = Some (name, pos, c)"
  using assms by (auto simp: mem_live_def mem_at_def bind_eq_Some_conv split: option.splits prod.splits)

interpretation mem: posix_files mem_posix mem_live mem_before mem_after "\<lambda>name os. m_files os name"
  "\<lambda>os. length (m_script os)"
proof (unfold_locales, goal_cases)
  case (1 fd os d r os')
  then obtain name pos c where m: "m_fds os fd = Some (name, pos)" "m_files os name = Some c"
    "pos \<le> length c" "mem_at fd os = Some (name, pos, c)" by (auto elim: mem_liveE)
  show ?case
  proof (cases "m_script os \<noteq> [] \<and> hd (m_script os) = 0")
    case True
    then have "os' = os\<lparr>m_errno := EINTR, m_script := tl (m_script os)\<rparr>" "r = - 1"
      using 1(3) by (auto simp: mem_posix_def mem_write_def mem_fail_def)
    then show ?thesis
      using True m by (auto simp: mem_live_def mem_before_def mem_at_def mem_posix_def)
  next
    case False
    define k where "k = (if m_script os = [] then length d else min (hd (m_script os)) (length d))"
    have "os' = os\<lparr>m_files := (m_files os)(name \<mapsto> overwrite c pos (take k d)),
             m_fds := (m_fds os)(fd \<mapsto> (name, pos + k)), m_script := tl (m_script os)\<rparr>" "r = int k"
      using 1(3) False m unfolding mem_posix_def mem_write_def posix.simps if_not_P [OF False]
      by (simp_all flip: k_def add: Let_def)
    moreover have "0 < k" "k \<le> length d" using False 1(2) by (auto simp: k_def)
    moreover have "length (take k d) = k" using \<open>k \<le> length d\<close> by simp
    moreover have "pos + k \<le> length (overwrite c pos (take k d))" using m(3) \<open>k \<le> length d\<close>
      by (simp add: overwrite_def)
    ultimately show ?thesis
      using m take_overwrite [of pos c "take k d"] by (simp add: mem_live_def mem_before_def mem_at_def)
  qed
next
  case (2 fd os n q bs os')
  then obtain name pos c where m: "m_fds os fd = Some (name, pos)" "m_files os name = Some c"
    "pos \<le> length c" "mem_at fd os = Some (name, pos, c)" by (auto elim: mem_liveE)
  then show ?case
    using 2 by (auto simp: mem_posix_def mem_read_def mem_fail_def mem_live_def mem_after_def mem_at_def
        Let_def min_def add.commute split: if_splits)
next
  case (3 fd os k q os')
  then obtain name pos c where m: "m_fds os fd = Some (name, pos)" "m_files os name = Some c"
    "pos \<le> length c" "mem_at fd os = Some (name, pos, c)" by (auto elim: mem_liveE)
  then show ?case
    using 3 by (auto simp: mem_posix_def mem_lseek_def mem_live_def mem_after_def mem_at_def add.commute)
next
  case (4 fd os n k q bs os' name)
  then obtain name pos c where m: "m_fds os fd = Some (name, pos)" "m_files os name = Some c"
    "pos \<le> length c" "mem_at fd os = Some (name, pos, c)" by (auto elim: mem_liveE)
  then show ?case
    using 4 by (auto simp: mem_posix_def mem_pread_def mem_live_def mem_before_def mem_after_def mem_at_def)
next
  case (5 name os c fd os')
  then show ?case
    by (auto simp: mem_posix_def mem_open_def mem_live_def mem_before_def mem_after_def mem_at_def)
next
  case (6 name fd os)
  show ?case by (auto simp: mem_posix_def mem_close_def mem_fail_def)
qed

end
