(* ===== verification/LdbLog.thy ===== *)
theory LdbLog
  imports LdbLogReader LdbEnvPosix
begin

text \<open>
  The log as a whole: a sequence of records written by \<open>AddRecord\<close> is a byte string \<open>log_bytes\<close>, and
  from any prefix of it, as a crash leaves behind, the reader returns the records that are complete.
\<close>

section \<open>Reading one record\<close>

context sequential_file
begin

definition locals_at :: "bool \<Rightarrow> byte list \<Rightarrow> locals_RR \<Rightarrow> bool" where
  "locals_at begn acc v \<longleftrightarrow> in_fragmented_record v = (\<not> begn) \<and> scratch v = acc \<and> (begn \<longrightarrow> acc = [])"

lemma at_pos_update: "at_pos r b L \<Longrightarrow> at_pos (r\<lparr>resyncing := False, last_record_offset := x\<rparr>) b L"
  by (auto simp: at_pos_def)

lemma at_pos_reader:
  assumes "at_pos r b L"
  shows "\<not> resyncing r" "r\<lparr>resyncing := False\<rparr> = r" "initial_offset r = 0"
  using assms by (simp_all add: at_pos_def)

text \<open>What the loop does with a fragment of each type, and at the end of the file.\<close>

lemma handle_end:
  assumes "at_pos r b L" and "locals_at begn acc v"
  shows "\<exists>v' r'. handle_record (RecordType_value (fragment_type begn True)) (v\<lparr>fragment := p\<rparr>) r =
      (Inr (True, v'), r') \<and> out_record v' = acc @ p \<and> at_pos r' b L \<and> reports r' = reports r"
  using assms(2) at_pos_reader [OF assms(1)] at_pos_update [OF assms(1)]
  by (cases begn) (auto simp: handle_record_def fragment_type_def locals_at_def Let_def)

lemma handle_more:
  assumes "at_pos r b L" and "locals_at begn acc v"
  shows "\<exists>v'. handle_record (RecordType_value (fragment_type begn False)) (v\<lparr>fragment := p\<rparr>) r = (Inl v', r) \<and>
    locals_at False (acc @ p) v'"
  using assms(2) at_pos_reader [OF assms(1)]
  by (cases begn) (auto simp: handle_record_def fragment_type_def locals_at_def Let_def)

lemma handle_eof:
  "at_pos r b L \<Longrightarrow> \<exists>v'. handle_record kEof v r = (Inr (False, v'), r)"
  using at_pos_reader [of r b L] by (simp add: handle_record_def kEof_def kMaxRecordType_def)

lemma fragment_type_nonzero [simp]: "fragment_type a b \<noteq> kZeroType"
  by (simp add: fragment_type_def)

lemma ReadRecord_loop_eof:
  assumes "ReadPhysicalRecord F (fragment v) r = Some ((kEof, x), r')" and "at_pos r' b L"
  shows "\<exists>v'. ReadRecord_loop F v r = Some ((False, v'), r')"
proof -
  obtain v' where "handle_record kEof (v\<lparr>fragment := x\<rparr>) r' = (Inr (False, v'), r')"
    using handle_eof [OF assms(2)] by blast
  then show ?thesis using assms(1) by (subst ReadRecord_loop.simps) simp
qed

lemma ReadRecord_loop_reads:
  "at_pos r b (fst (log_record b begn p) @ L) \<Longrightarrow> locals_at begn acc v \<Longrightarrow> b \<le> kBlockSize \<Longrightarrow>
     \<exists>v' r'. ReadRecord_loop F v r = Some ((True, v'), r') \<and> out_record v' = acc @ p \<and>
       at_pos r' (snd (log_record b begn p)) L \<and> reports r' = reports r \<and> snd (log_record b begn p) \<le> kBlockSize"
proof (induction b begn p arbitrary: r v acc rule: log_record.induct)
  case (1 b begn p)
  define k where "k = min (length p) (room b)"
  define t where "t = fragment_type begn (length p = k)"
  define bs where "bs = replicate (padding b) 0 @ physical_record t (take k p)"
  have k: "length (take k p) = k" "k \<le> room b" by (simp_all add: k_def)
  have fits: "start_offset b + kHeaderSize + k \<le> kBlockSize"
    using k(2) "1.prems"(3) by (auto simp: room_def start_offset_def kBlockSize_def kHeaderSize_def split: if_splits)
  show ?case
  proof (cases "k < length p")
    case True
    let ?rest = "log_record (start_offset b + kHeaderSize + k) False (drop k p)"
    have lr: "log_record b begn p = (bs @ fst ?rest, snd ?rest)"
      using True by (subst log_record.simps) (simp add: bs_def t_def split_beta Let_def flip: k_def)
    obtain r1 where r1: "ReadPhysicalRecord F (fragment v) r = Some ((RecordType_value t, take k p), r1)"
      "at_pos r1 (start_offset b + kHeaderSize + k) (fst ?rest @ L)" "reports r1 = reports r"
      using read_record_at [of r b t "take k p" "fst ?rest @ L" "fragment v"] "1.prems"(1,3) k
      by (auto simp: lr bs_def t_def)
    have te: "t = fragment_type begn False" using True by (simp add: t_def)
    obtain v1 where v1: "handle_record (RecordType_value t) (v\<lparr>fragment := take k p\<rparr>) r1 = (Inl v1, r1)"
      "locals_at False (acc @ take k p) v1"
      using handle_more [OF r1(2) "1.prems"(2), of "take k p"] by (auto simp: te)
    have step: "ReadRecord_loop F v r = ReadRecord_loop F v1 r1"
      using r1(1) v1(1) by (subst ReadRecord_loop.simps) simp
    have "\<exists>v' r'. ReadRecord_loop F v1 r1 = Some ((True, v'), r') \<and> out_record v' = (acc @ take k p) @ drop k p \<and>
       at_pos r' (snd ?rest) L \<and> reports r' = reports r1 \<and> snd ?rest \<le> kBlockSize"
      using True by (intro "1.IH" [OF k_def refl refl _ r1(2) v1(2) fits]) simp
    then show ?thesis by (simp add: step lr r1(3))
  next
    case False
    have lr: "log_record b begn p = (bs, start_offset b + kHeaderSize + k)"
      using False by (subst log_record.simps) (simp add: bs_def t_def flip: k_def)
    have p: "take k p = p" "length p = k" using False k_def by auto
    obtain r1 where r1: "ReadPhysicalRecord F (fragment v) r = Some ((RecordType_value t, take k p), r1)"
      "at_pos r1 (start_offset b + kHeaderSize + k) L" "reports r1 = reports r"
      using read_record_at [of r b t "take k p" L "fragment v"] "1.prems"(1,3) k by (auto simp: lr bs_def t_def)
    have te: "t = fragment_type begn True" using p by (simp add: t_def)
    obtain v1 r2 where "handle_record (RecordType_value t) (v\<lparr>fragment := p\<rparr>) r1 = (Inr (True, v1), r2)"
      "out_record v1 = acc @ p" "at_pos r2 (start_offset b + kHeaderSize + k) L" "reports r2 = reports r1"
      using handle_end [OF r1(2) "1.prems"(2), of p] by (auto simp: te)
    then show ?thesis
      using r1 fits p(1) by (subst ReadRecord_loop.simps) (simp add: lr)
  qed
qed

lemma ReadRecord_loop_torn:
  "at_pos r b L \<Longrightarrow> fst (log_record b begn p) = L @ Y \<Longrightarrow> Y \<noteq> [] \<Longrightarrow> locals_at begn acc v \<Longrightarrow> b \<le> kBlockSize \<Longrightarrow>
     \<exists>v' r'. ReadRecord_loop F v r = Some ((False, v'), r') \<and> at_pos r' kBlockSize [] \<and> reports r' = reports r"
proof (induction b begn p arbitrary: r v acc L rule: log_record.induct)
  case (1 b begn p)
  define k where "k = min (length p) (room b)"
  define t where "t = fragment_type begn (length p = k)"
  define bs where "bs = replicate (padding b) 0 @ physical_record t (take k p)"
  define rest where "rest = log_record (start_offset b + kHeaderSize + k) False (drop k p)"
  have k: "length (take k p) = k" "k \<le> room b" by (simp_all add: k_def)
  have fits: "start_offset b + kHeaderSize + k \<le> kBlockSize"
    using k(2) "1.prems"(5) by (auto simp: room_def start_offset_def kBlockSize_def kHeaderSize_def split: if_splits)
  have torn: ?case if Z: "bs = L @ Z" "Z \<noteq> []" for Z
  proof -
    have "length (take k p) \<le> room b" by (simp only: k)
    from read_eof_at [OF "1.prems"(1) Z(1) [unfolded bs_def] Z(2) this, of "fragment v"]
    show ?thesis using ReadRecord_loop_eof by blast
  qed
  show ?case
  proof (cases "k < length p")
    case True
    have lr: "log_record b begn p = (bs @ fst rest, snd rest)"
      using True by (subst log_record.simps) (simp add: bs_def t_def rest_def split_beta Let_def flip: k_def)
    then have "bs @ fst rest = L @ Y" using "1.prems"(2) by simp
    then obtain us where "bs = L @ us \<and> us @ fst rest = Y \<or> bs @ us = L \<and> fst rest = us @ Y"
      unfolding append_eq_append_conv2 by blast
    then consider Z where "bs = L @ Z" "Z \<noteq> []" | L2 where "L = bs @ L2" "fst rest = L2 @ Y"
      by (cases "us = []") auto
    then show ?thesis
    proof cases
      case 1
      then show ?thesis by (rule torn)
    next
      case 2
      obtain r1 where r1: "ReadPhysicalRecord F (fragment v) r = Some ((RecordType_value t, take k p), r1)"
        "at_pos r1 (start_offset b + kHeaderSize + k) L2" "reports r1 = reports r"
        using read_record_at [of r b t "take k p" L2 "fragment v"] "1.prems"(1,5) k 2(1) by (auto simp: bs_def t_def)
      have te: "t = fragment_type begn False" using True by (simp add: t_def)
      obtain v1 where v1: "handle_record (RecordType_value t) (v\<lparr>fragment := take k p\<rparr>) r1 = (Inl v1, r1)"
        "locals_at False (acc @ take k p) v1"
        using handle_more [OF r1(2) "1.prems"(4), of "take k p"] by (auto simp: te)
      have step: "ReadRecord_loop F v r = ReadRecord_loop F v1 r1"
        using r1(1) v1(1) by (subst ReadRecord_loop.simps) simp
      have "\<exists>v' r'. ReadRecord_loop F v1 r1 = Some ((False, v'), r') \<and> at_pos r' kBlockSize [] \<and> reports r' = reports r1"
        using True by (intro "1.IH" [OF k_def refl refl _ r1(2) _ "1.prems"(3) v1(2) fits])
          (simp_all add: 2(2) flip: rest_def)
      then show ?thesis by (simp add: step r1(3))
    qed
  next
    case False
    have "log_record b begn p = (bs, start_offset b + kHeaderSize + k)"
      using False by (subst log_record.simps) (simp add: bs_def t_def flip: k_def)
    then show ?thesis using torn [of Y] "1.prems"(2,3) by simp
  qed
qed

lemma ReadRecord_reads:
  assumes "at_pos r b (fst (log_record b True p) @ L)" and "b \<le> kBlockSize"
  shows "\<exists>s r'. ReadRecord F rec scr r = Some ((True, p, s), r') \<and>
    at_pos r' (snd (log_record b True p)) L \<and> reports r' = reports r \<and> snd (log_record b True p) \<le> kBlockSize"
proof -
  have "locals_at True [] initial_locals_RR" by (simp add: locals_at_def initial_locals_RR_def)
  from ReadRecord_loop_reads [OF assms(1) this assms(2)] show ?thesis
    using at_pos_reader(3) [OF assms(1)] by (auto simp: ReadRecord_def )
qed

lemma ReadRecord_torn:
  assumes "at_pos r b L" and "fst (log_record b True p) = L @ Y" and "Y \<noteq> []" and "b \<le> kBlockSize"
  shows "\<exists>x s r'. ReadRecord F rec scr r = Some ((False, x, s), r') \<and> at_pos r' kBlockSize [] \<and> reports r' = reports r"
proof -
  have "locals_at True [] initial_locals_RR" by (simp add: locals_at_def initial_locals_RR_def)
  from ReadRecord_loop_torn [OF assms(1-3) this assms(4)] show ?thesis
    using at_pos_reader(3) [OF assms(1)] by (auto simp: ReadRecord_def )
qed

end

section \<open>Sequences of records\<close>

primrec log_bytes :: "nat \<Rightarrow> slice list \<Rightarrow> byte list" where
  "log_bytes b [] = []"
| "log_bytes b (p # ps) = fst (log_record b True p) @ log_bytes (snd (log_record b True p)) ps"

primrec log_end :: "nat \<Rightarrow> slice list \<Rightarrow> nat" where
  "log_end b [] = b"
| "log_end b (p # ps) = log_end (snd (log_record b True p)) ps"

text \<open>The records that lie within the first \<open>k\<close> bytes of the log.\<close>

primrec complete :: "nat \<Rightarrow> nat \<Rightarrow> slice list \<Rightarrow> slice list" where
  "complete b k [] = []"
| "complete b k (p # ps) =
     (let (bs, b') = log_record b True p in
      if length bs \<le> k then p # complete b' (k - length bs) ps else [])"

lemma complete_all: "length (log_bytes b ps) \<le> k \<Longrightarrow> complete b k ps = ps"
  by (induction ps arbitrary: b k) (auto simp: split_beta)

lemma complete_prefix: "\<exists>n. complete b k ps = take n ps"
proof (induction ps arbitrary: b k)
  case (Cons p ps)
  show ?case
  proof (cases "length (fst (log_record b True p)) \<le> k")
    case True
    then obtain n where "complete b k (p # ps) = p # take n ps"
      using Cons.IH [of "snd (log_record b True p)" "k - length (fst (log_record b True p))"]
      by (auto simp: split_beta)
    then have "complete b k (p # ps) = take (Suc n) (p # ps)" by simp
    then show ?thesis by blast
  next
    case False
    then have "complete b k (p # ps) = take 0 (p # ps)" by (simp add: split_beta)
    then show ?thesis by blast
  qed
qed simp

lemma complete_fits: "length (log_bytes b (complete b k ps)) \<le> k"
proof (induction ps arbitrary: b k)
  case (Cons p ps)
  show ?case
    using Cons.IH [of "snd (log_record b True p)" "k - length (fst (log_record b True p))"]
    by (auto simp: split_beta)
qed simp

lemma log_bytes_append: "log_bytes b (ps @ qs) = log_bytes b ps @ log_bytes (log_end b ps) qs"
  by (induction ps arbitrary: b) auto

text \<open>A log starts the same way at the end of a block and at the beginning of one.\<close>

lemma log_record_block_end: "log_record kBlockSize begn p = log_record 0 begn p"
proof -
  have "padding kBlockSize = 0" "padding 0 = 0" "start_offset kBlockSize = 0" "start_offset 0 = 0"
    "room kBlockSize = room 0"
    by (simp_all add: padding_def start_offset_def room_def kBlockSize_def kHeaderSize_def)
  then show ?thesis by (subst (1 2) log_record.simps) simp
qed

lemma log_bytes_block_end: "log_bytes kBlockSize ps = log_bytes 0 ps" "complete kBlockSize k ps = complete 0 k ps"
  by (cases ps; simp add: log_record_block_end)+

lemma log_record_nonempty: "fst (log_record b begn p) \<noteq> []"
  by (subst log_record.simps) (simp add: Let_def split_beta physical_record_def)

text \<open>Records are added until one fails.\<close>

primrec add_records :: "'f WritableFile \<Rightarrow> (u64 \<times> slice) list \<Rightarrow> 'f Writer \<Rightarrow> (Status \<times> 'f Writer) option" where
  "add_records W [] w = Some (OK, w)"
| "add_records W (ap # aps) w =
     (case AddRecord W (fst ap) (snd ap) w of
        None \<Rightarrow> None
      | Some (s, w') \<Rightarrow> if ok s then add_records W aps w' else Some (s, w'))"

text \<open>At most \<open>n\<close> calls of \<open>ReadRecord\<close>: the records, whether the end was met, and the reader.\<close>

primrec read_records :: "'f SequentialFile \<Rightarrow> nat \<Rightarrow> 'f Reader \<Rightarrow> (slice list \<times> bool \<times> 'f Reader) option" where
  "read_records F 0 r = Some ([], False, r)"
| "read_records F (Suc n) r =
     (case ReadRecord F [] [] r of
        None \<Rightarrow> None
      | Some ((b, p, s), r') \<Rightarrow>
          if b then (case read_records F n r' of None \<Rightarrow> None | Some (ps, e, r'') \<Rightarrow> Some (p # ps, e, r''))
          else Some ([], True, r'))"

context writable_file
begin

lemma add_records_writes:
  "good (log_dest w) \<Longrightarrow> writer_ok w \<Longrightarrow>
     \<exists>w'. add_records W aps w = Some (OK, w') \<and> good (log_dest w') \<and> writer_ok w' \<and>
       written (log_dest w') = written (log_dest w) @ log_bytes (block_offset w) (map snd aps) \<and>
       (passed (log_dest w) = written (log_dest w) \<longrightarrow> passed (log_dest w') = written (log_dest w')) \<and>
       block_offset w' = log_end (block_offset w) (map snd aps)"
proof (induction aps arbitrary: w)
  case (Cons ap aps)
  obtain w1 where "AddRecord W (fst ap) (snd ap) w = Some (OK, w1)" "good (log_dest w1)" "writer_ok w1"
    "passed (log_dest w1) = written (log_dest w1)" "written (log_dest w1) = written (log_dest w) @ fst (log_record (block_offset w) True (snd ap))"
    "block_offset w1 = snd (log_record (block_offset w) True (snd ap))"
    using AddRecord_writes [OF Cons.prems] by blast
  then show ?case using Cons.IH [of w1] by fastforce
qed simp

end

context sequential_file
begin

lemma read_records_prefix:
  "at_pos r b (take k (log_bytes b ps)) \<Longrightarrow> b \<le> kBlockSize \<Longrightarrow> length ps < n \<Longrightarrow>
     \<exists>r'. read_records F n r = Some (complete b k ps, True, r') \<and> at_pos r' kBlockSize [] \<and> reports r' = reports r"
proof (induction ps arbitrary: b k n r)
  case Nil
  then obtain m where n: "n = Suc m" by (cases n) auto
  have "fst (log_record b True []) = [] @ fst (log_record b True [])" by simp
  moreover have "at_pos r b []" using Nil by simp
  ultimately show ?case
    using ReadRecord_torn [of r b "[]" "[]" "fst (log_record b True [])" "[]" "[]"] Nil.prems(2)
      log_record_nonempty [of b True "[]"] by (auto simp: n)
next
  case (Cons p ps)
  then obtain m where n: "n = Suc m" and m: "length ps < m" by (cases n) auto
  obtain bs b' where lr: "log_record b True p = (bs, b')" by (metis prod.exhaust)
  show ?case
  proof (cases "length bs \<le> k")
    case True
    then have "at_pos r b (fst (log_record b True p) @ take (k - length bs) (log_bytes b' ps))"
      using Cons.prems(1) by (simp add: lr)
    from ReadRecord_reads [OF this Cons.prems(2), of "[]" "[]"] obtain s r1 where
      r1: "ReadRecord F [] [] r = Some ((True, p, s), r1)" "at_pos r1 b' (take (k - length bs) (log_bytes b' ps))"
        "reports r1 = reports r" "b' \<le> kBlockSize"
      by (auto simp: lr)
    from Cons.IH [OF r1(2,4) m] show ?thesis using r1(1,3) True by (auto simp: n lr)
  next
    case False
    then have "at_pos r b (take k bs)" "fst (log_record b True p) = take k bs @ drop k bs" "drop k bs \<noteq> []"
      using Cons.prems(1) by (simp_all add: lr)
    from ReadRecord_torn [OF this Cons.prems(2), of "[]" "[]"] show ?thesis
      using False by (auto simp: n lr)
  qed
qed

text \<open>From the beginning of a file with any prefix of a log.\<close>

lemma new_Reader_reads:
  assumes "good f" and "unread f = take k (log_bytes 0 ps)" and "length ps < n"
  shows "\<exists>r'. read_records F n (new_Reader f rep csum store 0) = Some (complete 0 k ps, True, r') \<and> reports r' = []"
  using read_records_prefix [of "new_Reader f rep csum store 0" kBlockSize k ps n] at_pos_new [OF assms(1)]
    assms(2,3)
  by (auto simp: log_bytes_block_end new_Reader_def)

end

section \<open>Reading ends, whatever the file holds\<close>

lemma Report_frame [simp]:
  "rfile (ReportDrop n s r) = rfile r" "buffer (ReportDrop n s r) = buffer r"
  "rfile (ReportCorruption n m r) = rfile r" "buffer (ReportCorruption n m r) = buffer r"
  by (simp_all add: ReportDrop_def ReportCorruption_def)

lemma handle_record_frame:
  assumes "handle_record t v r = (res, r')"
  shows "rfile r' = rfile r" "buffer r' = buffer r" "initial_offset r' = initial_offset r"
    "res = Inr (True, v') \<Longrightarrow> t \<noteq> kEof" "t = kEof \<Longrightarrow> \<exists>v'. res = Inr (False, v')"
  using assms
  by (auto simp: handle_record_def Let_def kEof_def kMaxRecordType_def ReportCorruption_def ReportDrop_def
      split: if_splits)

lemma parse_physical_frame:
  assumes "parse_physical x r = ((t, p), r')" and "kHeaderSize \<le> length (snd (buffer r))"
  shows "rfile r' = rfile r" "initial_offset r' = initial_offset r"
    "t \<noteq> kEof \<Longrightarrow> length (snd (buffer r')) < length (snd (buffer r))"
    "length (snd (buffer r')) \<le> length (snd (buffer r))"
  using assms
  by (auto simp: parse_physical_def Let_def clear_buffer_def drop_buffer_def remove_prefix_def kHeaderSize_def
      ReportCorruption_def ReportDrop_def split: if_splits)

context sequential_file
begin

definition unconsumed :: "'f Reader \<Rightarrow> nat" where
  "unconsumed r = length (snd (buffer r)) + length (unread (rfile r))"

lemma refill_returns:
  assumes "good (rfile r)"
  shows "\<exists>r1. refill F r = Some (False, r1) \<and> good (rfile r1) \<and> unconsumed r1 \<le> unconsumed r \<and>
    initial_offset r1 = initial_offset r"
proof -
  obtain a f' where "sf_Read F kBlockSize (backing_store r) (rfile r) =
      Some ((OK, Some (a, take kBlockSize (unread (rfile r)))), f')"
    "good f'" "unread f' = drop kBlockSize (unread (rfile r))"
    using read [OF assms, of kBlockSize "backing_store r"] by (auto simp: kBlockSize_def)
  then show ?thesis by (auto simp: refill_def Let_def clear_buffer_def unconsumed_def)
qed

lemma ReadPhysicalRecord_returns:
  fixes r :: "'f Reader"
  assumes "good (rfile r)"
  shows "\<exists>t p r'. ReadPhysicalRecord F x r = Some ((t, p), r') \<and> good (rfile r') \<and>
    unconsumed r' \<le> unconsumed r \<and> (t = kEof \<or> unconsumed r' < unconsumed r) \<and>
    initial_offset r' = initial_offset r"
proof -
  let ?R = "\<lambda>r. \<exists>t p r'. ReadPhysicalRecord F x r = Some ((t, p), r') \<and> good (rfile r') \<and>
    unconsumed r' \<le> unconsumed r \<and> (t = kEof \<or> unconsumed r' < unconsumed r) \<and>
    initial_offset r' = initial_offset r"
  have full: "?R r" if "kHeaderSize \<le> length (snd (buffer r))" "good (rfile r)" for r :: "'f Reader"
  proof -
    obtain t p r' where p: "parse_physical x r = ((t, p), r')" by (metis prod.exhaust)
    have "ReadPhysicalRecord F x r = Some ((t, p), r')"
      using that by (subst ReadPhysicalRecord.simps) (simp add: p)
    then show ?thesis using parse_physical_frame [OF p that(1)] that(2) by (auto simp: unconsumed_def)
  qed
  have eof: "?R r" if "length (snd (buffer r)) < kHeaderSize" "reof r" "good (rfile r)" for r :: "'f Reader"
    using that by (subst ReadPhysicalRecord.simps) (auto simp: clear_buffer_def unconsumed_def)
  show ?thesis
  proof (cases "length (snd (buffer r)) < kHeaderSize \<and> \<not> reof r")
    case False
    then show ?thesis using full eof assms by (meson not_le)
  next
    case True
    obtain r1 where r1: "refill F r = Some (False, r1)" "good (rfile r1)" "unconsumed r1 \<le> unconsumed r"
      "initial_offset r1 = initial_offset r"
      using refill_returns [OF assms] by blast
    have "ReadPhysicalRecord F x r = ReadPhysicalRecord F x r1"
      using True r1(1) by (subst ReadPhysicalRecord.simps) simp
    moreover have "length (snd (buffer r1)) < kHeaderSize \<and> reof r1 \<or> kHeaderSize \<le> length (snd (buffer r1))"
      using refill_progress [OF r1(1)] by linarith
    ultimately show ?thesis using full [OF _ r1(2)] eof [OF _ _ r1(2)] r1(3,4) by fastforce
  qed
qed

lemma ReadRecord_loop_returns:
  "good (rfile r) \<Longrightarrow> \<exists>b v' r'. ReadRecord_loop F v r = Some ((b, v'), r') \<and> good (rfile r') \<and>
     (b \<longrightarrow> unconsumed r' < unconsumed r) \<and> initial_offset r' = initial_offset r"
proof (induction "unconsumed r" arbitrary: r v rule: less_induct)
  case less
  obtain t p r1 where r1: "ReadPhysicalRecord F (fragment v) r = Some ((t, p), r1)" "good (rfile r1)"
    "t = kEof \<or> unconsumed r1 < unconsumed r" "initial_offset r1 = initial_offset r"
    using ReadPhysicalRecord_returns [OF less.prems] by blast
  obtain res r2 where h: "handle_record t (v\<lparr>fragment := p\<rparr>) r1 = (res, r2)" by (metis prod.exhaust)
  note fr = handle_record_frame [OF h]
  have u: "unconsumed r2 = unconsumed r1" "good (rfile r2)" "initial_offset r2 = initial_offset r"
    using fr(1-3) r1(2,4) by (simp_all add: unconsumed_def)
  show ?case
  proof (cases res)
    case (Inl v')
    then have "unconsumed r2 < unconsumed r" using fr(5) r1(3) u(1) by auto
    from less.hyps [OF this u(2), of v'] this u(3) show ?thesis
      using Inl by (subst ReadRecord_loop.simps) (fastforce simp: r1(1) h)
  next
    case (Inr bv)
    obtain b v' where "bv = (b, v')" by (metis prod.exhaust)
    then have res: "res = Inr (b, v')" using Inr by simp
    have "ReadRecord_loop F v r = Some ((b, v'), r2)"
      by (subst ReadRecord_loop.simps) (simp add: r1(1) h res)
    moreover have "b \<longrightarrow> unconsumed r2 < unconsumed r" using fr(4) [of v'] r1(3) u(1) res by auto
    ultimately show ?thesis using u by blast
  qed
qed

lemma ReadRecord_returns:
  assumes "good (rfile r)" and "initial_offset r = 0"
  shows "\<exists>b x s r'. ReadRecord F rec scr r = Some ((b, x, s), r') \<and> good (rfile r') \<and> initial_offset r' = 0 \<and>
    (b \<longrightarrow> unconsumed r' < unconsumed r)"
  using ReadRecord_loop_returns [OF assms(1), of initial_locals_RR] assms(2)
  by (auto simp: ReadRecord_def)

lemma read_records_ends:
  "good (rfile r) \<Longrightarrow> initial_offset r = 0 \<Longrightarrow> unconsumed r < n \<Longrightarrow>
     \<exists>ps r'. read_records F n r = Some (ps, True, r')"
proof (induction n arbitrary: r)
  case (Suc n)
  obtain b x s r1 where r1: "ReadRecord F [] [] r = Some ((b, x, s), r1)" "good (rfile r1)"
    "initial_offset r1 = 0" "b \<longrightarrow> unconsumed r1 < unconsumed r"
    using ReadRecord_returns [OF Suc.prems(1,2)] by blast
  then show ?case using Suc.IH [OF r1(2,3)] Suc.prems(3) by (cases b) auto
qed simp

end

section \<open>The log in a file of the system\<close>

context posix_files
begin

lemma posix_log_written:
  assumes "live (pw_fd f) os" and "before (pw_fd f) os = []" and "buffer_ok f" and "pw_pos f = 0"
  shows "\<exists>w f' os'. add_records (posix_writable P) aps (new_Writer a (f, os)) = Some (OK, w) \<and>
    log_dest w = (f', os') \<and> before (pw_fd f') os' = log_bytes 0 (map snd aps)"
proof -
  have "file_good (log_dest (new_Writer a (f, os)))" "appended (f, os) = []"
    using assms by (simp_all add: new_Writer_def file_good_def appended_def buffered_def)
  from writable.add_records_writes [OF this(1) new_Writer_ok, of aps] this(2) obtain w where
    w: "add_records (posix_writable P) aps (new_Writer a (f, os)) = Some (OK, w)"
      "(case log_dest w of (f, os) \<Rightarrow> before (pw_fd f) os) = log_bytes 0 (map snd aps)"
    using assms(2) by (auto simp: new_Writer_def)
  moreover obtain f' os' where "log_dest w = (f', os')" by (metis prod.exhaust)
  ultimately show ?thesis by auto
qed

lemma posix_log_read:
  assumes "live (psf_fd g) os" and "after (psf_fd g) os = take k (log_bytes 0 ps)" and "length ps < n"
  shows "\<exists>r. read_records (posix_sequential P) n (new_Reader (g, os) rep csum store 0) =
    Some (complete 0 k ps, True, r) \<and> reports r = []"
  by (rule seq.new_Reader_reads) (use assms in simp_all)

lemma posix_log_ends:
  assumes "live (psf_fd g) os" and "length (after (psf_fd g) os) < n"
  shows "\<exists>ps r. read_records (posix_sequential P) n (new_Reader (g, os) rep csum store 0) = Some (ps, True, r)"
  by (rule seq.read_records_ends) (use assms in \<open>simp_all add: new_Reader_def seq.unconsumed_def\<close>)

end

end
