(* ===== verification/LdbFilename.thy ===== *)
theory LdbFilename
  imports LdbLogging
begin

text \<open>
  \<open>db/filename.h\<close> and \<open>db/filename.cc\<close>: the names of the files of a database and how they are
  recognised again.
\<close>

datatype FileType =
  kLogFile | kDBLockFile | kTableFile | kDescriptorFile | kCurrentFile | kTempFile | kInfoLogFile

definition MakeFileName :: "slice \<Rightarrow> u64 \<Rightarrow> string \<Rightarrow> byte list" where
  "MakeFileName dbname number suffix = dbname @ lit ''/'' @ decimal06 (unat number) @ lit ''.'' @ lit suffix"

definition LogFileName :: "slice \<Rightarrow> u64 \<Rightarrow> byte list" where
  "LogFileName dbname number = MakeFileName dbname number ''log''"

definition TableFileName :: "slice \<Rightarrow> u64 \<Rightarrow> byte list" where
  "TableFileName dbname number = MakeFileName dbname number ''ldb''"

definition SSTTableFileName :: "slice \<Rightarrow> u64 \<Rightarrow> byte list" where
  "SSTTableFileName dbname number = MakeFileName dbname number ''sst''"

definition DescriptorFileName :: "slice \<Rightarrow> u64 \<Rightarrow> byte list" where
  "DescriptorFileName dbname number = dbname @ lit ''/MANIFEST-'' @ decimal06 (unat number)"

definition CurrentFileName :: "slice \<Rightarrow> byte list" where
  "CurrentFileName dbname = dbname @ lit ''/CURRENT''"

definition LockFileName :: "slice \<Rightarrow> byte list" where
  "LockFileName dbname = dbname @ lit ''/LOCK''"

definition TempFileName :: "slice \<Rightarrow> u64 \<Rightarrow> byte list" where
  "TempFileName dbname number = MakeFileName dbname number ''dbtmp''"

definition InfoLogFileName :: "slice \<Rightarrow> byte list" where
  "InfoLogFileName dbname = dbname @ lit ''/LOG''"

definition OldInfoLogFileName :: "slice \<Rightarrow> byte list" where
  "OldInfoLogFileName dbname = dbname @ lit ''/LOG.old''"

text \<open>None for \<open>false\<close>, where neither \<open>*number\<close> nor \<open>*type\<close> is assigned.\<close>

definition ParseFileName :: "slice \<Rightarrow> (u64 \<times> FileType) option" where
  "ParseFileName filename =
     (if slice_eq filename (lit ''CURRENT'') then Some (0, kCurrentFile)
      else if slice_eq filename (lit ''LOCK'') then Some (0, kDBLockFile)
      else if slice_eq filename (lit ''LOG'') \<or> slice_eq filename (lit ''LOG.old'') then Some (0, kInfoLogFile)
      else if starts_with filename (lit ''MANIFEST-'') then
        (case ConsumeDecimalNumber (remove_prefix (length (lit ''MANIFEST-'')) filename) of
           (True, Some num, rest) \<Rightarrow> if rest \<noteq> [] then None else Some (num, kDescriptorFile)
         | _ \<Rightarrow> None)
      else
        (case ConsumeDecimalNumber filename of
           (True, Some num, suffix) \<Rightarrow>
             if slice_eq suffix (lit ''.log'') then Some (num, kLogFile)
             else if slice_eq suffix (lit ''.sst'') \<or> slice_eq suffix (lit ''.ldb'') then Some (num, kTableFile)
             else if slice_eq suffix (lit ''.dbtmp'') then Some (num, kTempFile)
             else None
         | _ \<Rightarrow> None))"

section \<open>A name is recognised\<close>

lemmas filename_defs = LogFileName_def TableFileName_def SSTTableFileName_def TempFileName_def
  DescriptorFileName_def CurrentFileName_def LockFileName_def InfoLogFileName_def OldInfoLogFileName_def

text \<open>The part of a name behind the directory.\<close>

definition base :: "slice \<Rightarrow> slice \<Rightarrow> slice" where
  "base dbname filename = drop (length dbname + 1) filename"

lemma lit_names:
  "lit ''CURRENT'' = [67, 85, 82, 82, 69, 78, 84]" "lit ''LOCK'' = [76, 79, 67, 75]"
  "lit ''LOG'' = [76, 79, 71]" "lit ''LOG.old'' = [76, 79, 71, 46, 111, 108, 100]"
  "lit ''MANIFEST-'' = [77, 65, 78, 73, 70, 69, 83, 84, 45]"
  by code_simp+

lemma hd_decimal06: "\<exists>d<10. hd (decimal06 n) = digit d"
proof -
  have "\<exists>d<10. hd (decimal n) = digit d" for n
  proof (induction n rule: decimal.induct)
    case (1 n)
    then show ?case by (cases "n < 10") (auto simp: decimal.simps [of n])
  qed
  then show ?thesis by (cases "6 - length (decimal n)") (auto simp: decimal06_def intro: exI [of _ 0])
qed

lemma decimal06_nonempty [simp]: "decimal06 n \<noteq> []"
  by (simp add: decimal06_def)

lemma decimal06_append_neq:
  assumes "48 > unat c \<or> 57 < unat c"
  shows "decimal06 n @ r \<noteq> c # t"
proof
  assume "decimal06 n @ r = c # t"
  then have "hd (decimal06 n) = c" by (cases "decimal06 n") auto
  then show False using hd_decimal06 [of n] assms by (auto simp: unat_digit)
qed

lemma ParseFileName_numbered:
  assumes "no_digit s"
  shows "ParseFileName (decimal06 (unat n) @ s) =
    (if s = lit ''.log'' then Some (n, kLogFile)
     else if s = lit ''.sst'' \<or> s = lit ''.ldb'' then Some (n, kTableFile)
     else if s = lit ''.dbtmp'' then Some (n, kTempFile) else None)"
proof -
  have "ConsumeDecimalNumber (decimal06 (unat n) @ s) = (True, Some n, s)"
    using ConsumeDecimalNumber_decimal [OF assms] by (simp add: decimal06_def)
  moreover have "decimal06 (unat n) @ s \<noteq> lit ''CURRENT''" "decimal06 (unat n) @ s \<noteq> lit ''LOCK''"
    "decimal06 (unat n) @ s \<noteq> lit ''LOG''" "decimal06 (unat n) @ s \<noteq> lit ''LOG.old''"
    "\<not> starts_with (decimal06 (unat n) @ s) (lit ''MANIFEST-'')"
    using decimal06_append_neq [of 67 "unat n" s] decimal06_append_neq [of 76 "unat n" s]
      decimal06_append_neq [of 77 "unat n" s]
    by (auto simp: lit_names starts_with_iff)
  ultimately show ?thesis by (simp add: ParseFileName_def slice_eq_iff)
qed

lemma ParseFileName_manifest: "ParseFileName (lit ''MANIFEST-'' @ decimal06 (unat n)) = Some (n, kDescriptorFile)"
proof -
  have "ConsumeDecimalNumber (decimal06 (unat n)) = (True, Some n, [])"
    using ConsumeDecimalNumber_decimal [of "[]" _ n] by (simp add: decimal06_def no_digit_def)
  then show ?thesis
    by (simp add: ParseFileName_def slice_eq_iff starts_with_iff remove_prefix_def lit_names)
qed

end
