(* ===== verification/LdbComparator.thy ===== *)
theory LdbComparator
  imports LdbSlice
begin

text \<open>
  \<open>include/leveldb/comparator.h\<close> and \<open>util/comparator.cc\<close>. A \<open>Comparator\<close> is a record of its
  operations; the contract \<open>comparator\<close> says what the header asks of one, on the keys it is used for.
  Slices are compared by \<open>Slice::compare\<close>, the lexicographic order of byte strings.
\<close>

record Comparator =
  cmp_Name :: string
  cmp_Compare :: "slice \<Rightarrow> slice \<Rightarrow> int"
  cmp_FindShortestSeparator :: "slice \<Rightarrow> slice \<Rightarrow> slice"
  cmp_FindShortSuccessor :: "slice \<Rightarrow> slice"

section \<open>The bytewise comparator\<close>

text \<open>The loop that finds the common prefix.\<close>

fun diff_index :: "slice \<Rightarrow> slice \<Rightarrow> nat" where
  "diff_index (a # s) (b # t) = (if a = b then Suc (diff_index s t) else 0)"
| "diff_index s t = 0"

definition Bytewise_FindShortestSeparator :: "slice \<Rightarrow> slice \<Rightarrow> slice" where
  "Bytewise_FindShortestSeparator start limit =
     (let min_length = min (length start) (length limit); i = diff_index start limit in
      if i \<ge> min_length then start
      else
        (let diff_byte = start ! i in
         if diff_byte < 0xff \<and> unat diff_byte + 1 < unat (limit ! i)
         then take (i + 1) (start[i := start ! i + 1]) else start))"

fun Bytewise_FindShortSuccessor :: "slice \<Rightarrow> slice" where
  "Bytewise_FindShortSuccessor [] = []"
| "Bytewise_FindShortSuccessor (b # s) =
     (if b \<noteq> 0xff then [b + 1] else b # Bytewise_FindShortSuccessor s)"

definition BytewiseComparator :: Comparator where
  "BytewiseComparator = \<lparr>cmp_Name = ''leveldb.BytewiseComparator'', cmp_Compare = compare,
     cmp_FindShortestSeparator = Bytewise_FindShortestSeparator,
     cmp_FindShortSuccessor = Bytewise_FindShortSuccessor\<rparr>"

section \<open>The contract\<close>

text \<open>A total preorder on the valid keys; separators and successors are valid keys in the right place, and
  a key that is not below the limit is left alone.\<close>

locale comparator =
  fixes C :: Comparator and valid :: "slice \<Rightarrow> bool"
  assumes antisym: "valid a \<Longrightarrow> valid b \<Longrightarrow> cmp_Compare C a b < 0 \<longleftrightarrow> cmp_Compare C b a > 0"
    and trans: "valid a \<Longrightarrow> valid b \<Longrightarrow> valid c \<Longrightarrow>
      cmp_Compare C a b \<le> 0 \<Longrightarrow> cmp_Compare C b c \<le> 0 \<Longrightarrow> cmp_Compare C a c \<le> 0"
    and separator: "valid a \<Longrightarrow> valid b \<Longrightarrow> cmp_Compare C a b < 0 \<Longrightarrow>
      valid (cmp_FindShortestSeparator C a b) \<and>
      cmp_Compare C a (cmp_FindShortestSeparator C a b) \<le> 0 \<and>
      cmp_Compare C (cmp_FindShortestSeparator C a b) b < 0"
    and separator_id: "valid a \<Longrightarrow> valid b \<Longrightarrow> \<not> cmp_Compare C a b < 0 \<Longrightarrow> cmp_FindShortestSeparator C a b = a"
    and successor: "valid a \<Longrightarrow>
      valid (cmp_FindShortSuccessor C a) \<and> cmp_Compare C a (cmp_FindShortSuccessor C a) \<le> 0"
begin

definition below :: "slice \<Rightarrow> slice \<Rightarrow> bool" where
  "below a b \<longleftrightarrow> cmp_Compare C a b < 0"

definition equiv :: "slice \<Rightarrow> slice \<Rightarrow> bool" where
  "equiv a b \<longleftrightarrow> cmp_Compare C a b = 0"

lemma compare_flip: "valid a \<Longrightarrow> valid b \<Longrightarrow> cmp_Compare C a b > 0 \<longleftrightarrow> cmp_Compare C b a < 0"
  using antisym by blast

lemma compare_refl: "valid a \<Longrightarrow> cmp_Compare C a a = 0"
  using antisym [of a a] by linarith

lemma compare_zero_sym: "valid a \<Longrightarrow> valid b \<Longrightarrow> cmp_Compare C a b = 0 \<longleftrightarrow> cmp_Compare C b a = 0"
  using antisym [of a b] antisym [of b a] by linarith

lemma trans_less_le:
  assumes v: "valid a" "valid b" "valid c" and "cmp_Compare C a b < 0" and "cmp_Compare C b c \<le> 0"
  shows "cmp_Compare C a c < 0"
proof -
  have "\<not> cmp_Compare C c a \<le> 0"
    using trans [OF v(2,3,1)] antisym [OF v(1,2)] assms(4,5) by linarith
  then show ?thesis using antisym [OF v(1,3)] by linarith
qed

lemma trans_le_less:
  assumes v: "valid a" "valid b" "valid c" and "cmp_Compare C a b \<le> 0" and "cmp_Compare C b c < 0"
  shows "cmp_Compare C a c < 0"
proof -
  have "\<not> cmp_Compare C c a \<le> 0"
    using trans [OF v(3,1,2)] antisym [OF v(2,3)] assms(4,5) by linarith
  then show ?thesis using antisym [OF v(1,3)] by linarith
qed

end

section \<open>The bytewise comparator keeps the contract\<close>

lemma append_less_iff: "p @ (x :: byte list) < p @ y \<longleftrightarrow> x < y"
  by (induction p) auto

lemma append_le_iff: "p @ (x :: byte list) \<le> p @ y \<longleftrightarrow> x \<le> y"
  by (induction p) auto

lemma diff_index_prefix:
  "i = diff_index s t \<Longrightarrow> i < min (length s) (length t) \<Longrightarrow>
     take i s = take i t \<and> s ! i \<noteq> t ! i \<and> s = take i s @ s ! i # drop (Suc i) s \<and> t = take i s @ t ! i # drop (Suc i) t"
proof (induction s t arbitrary: i rule: diff_index.induct)
  case (1 a s b t)
  then show ?case by (cases "a = b") auto
qed auto

lemma byte_succ: "unat (b :: byte) < 255 \<Longrightarrow> unat (b + 1) = unat b + 1"
  by (subst unat_plus_simple [THEN iffD1]) (auto simp: word_le_nat_alt unat_word_ariths)

lemma Bytewise_separator:
  assumes "s < t"
  shows "s \<le> Bytewise_FindShortestSeparator s t \<and> Bytewise_FindShortestSeparator s t < t"
proof -
  define i where "i = diff_index s t"
  show ?thesis
  proof (cases "i < min (length s) (length t) \<and> s ! i < 0xff \<and> unat (s ! i) + 1 < unat (t ! i)")
    case True
    then have b: "unat (s ! i + 1) = unat (s ! i) + 1" by (intro byte_succ) (simp add: word_less_nat_alt)
    from True have i: "i < min (length s) (length t)" by blast
    have "Bytewise_FindShortestSeparator s t = take (i + 1) (s[i := s ! i + 1])"
      using True unfolding Bytewise_FindShortestSeparator_def Let_def i_def [symmetric] by auto
    also have "\<dots> = take i s @ [s ! i + 1]" using i by (simp add: take_Suc_conv_app_nth)
    finally have r: "Bytewise_FindShortestSeparator s t = take i s @ [s ! i + 1]" .
    have "s ! i # drop (Suc i) s \<le> [s ! i + 1]" "[s ! i + 1] < t ! i # drop (Suc i) t"
      using b True by (auto simp: word_less_nat_alt)
    then have "take i s @ s ! i # drop (Suc i) s \<le> take i s @ [s ! i + 1]"
      "take i s @ [s ! i + 1] < take i s @ t ! i # drop (Suc i) t"
      by (simp_all only: append_less_iff append_le_iff)
    then show ?thesis unfolding r using diff_index_prefix [OF i_def i] by metis
  next
    case False
    then have "Bytewise_FindShortestSeparator s t = s"
      by (auto simp: Bytewise_FindShortestSeparator_def Let_def i_def [symmetric])
    then show ?thesis using assms by simp
  qed
qed

lemma Bytewise_separator_id:
  assumes "\<not> s < t"
  shows "Bytewise_FindShortestSeparator s t = s"
proof (rule ccontr)
  define i where "i = diff_index s t"
  assume "Bytewise_FindShortestSeparator s t \<noteq> s"
  then have i: "i < min (length s) (length t)" and "unat (s ! i) + 1 < unat (t ! i)"
    by (auto simp: Bytewise_FindShortestSeparator_def Let_def i_def [symmetric] split: if_splits)
  then have "s ! i # drop (Suc i) s < t ! i # drop (Suc i) t" by (auto simp: word_less_nat_alt)
  then have "take i s @ s ! i # drop (Suc i) s < take i s @ t ! i # drop (Suc i) t"
    by (simp only: append_less_iff)
  then show False using diff_index_prefix [OF i_def i] assms by metis
qed

lemma Bytewise_successor: "s \<le> Bytewise_FindShortSuccessor s"
proof (induction s)
  case (Cons b s)
  have "b < b + 1" if "b \<noteq> 0xff"
  proof -
    have "unat b \<noteq> 255" using that by (auto simp: word_unat_eq_iff)
    then have "unat b < 255" using unsigned_less [of b, where ?'a = nat] by simp
    then show ?thesis using byte_succ [of b] by (simp add: word_less_nat_alt)
  qed
  then show ?case using Cons by auto
qed simp

interpretation bytewise: comparator BytewiseComparator "\<lambda>k. True"
  by unfold_locales
    (auto simp: BytewiseComparator_def compare_simps Bytewise_separator Bytewise_separator_id Bytewise_successor)

end
