(* ===== verification/LdbFormat.thy ===== *)
theory LdbFormat
  imports LdbComparator LdbCoding LdbLogging
begin

text \<open>
  \<open>db/dbformat.h\<close> and \<open>db/dbformat.cc\<close>: internal keys, which are a user key, a sequence number and
  a type in eight more bytes, and their order. \<open>InternalKey\<close> wraps such a string.
\<close>

section \<open>Constants and records\<close>

definition kNumLevels :: nat where "kNumLevels = 7"
definition kL0_CompactionTrigger :: nat where "kL0_CompactionTrigger = 4"
definition kL0_SlowdownWritesTrigger :: nat where "kL0_SlowdownWritesTrigger = 8"
definition kL0_StopWritesTrigger :: nat where "kL0_StopWritesTrigger = 12"
definition kMaxMemCompactLevel :: nat where "kMaxMemCompactLevel = 2"
definition kReadBytesPeriod :: nat where "kReadBytesPeriod = 1048576"

datatype ValueType = kTypeDeletion | kTypeValue

primrec ValueType_value :: "ValueType \<Rightarrow> byte" where
  "ValueType_value kTypeDeletion = 0"
| "ValueType_value kTypeValue = 1"

definition kValueTypeForSeek :: ValueType where "kValueTypeForSeek = kTypeValue"

type_synonym SequenceNumber = u64

definition kMaxSequenceNumber :: SequenceNumber where "kMaxSequenceNumber = push_bit 56 1 - 1"

record ParsedInternalKey =
  pk_user_key :: slice
  pk_sequence :: SequenceNumber
  pk_type :: ValueType

definition InternalKeyEncodingLength :: "ParsedInternalKey \<Rightarrow> nat" where
  "InternalKeyEncodingLength key = length (pk_user_key key) + 8"

definition PackSequenceAndType :: "u64 \<Rightarrow> ValueType \<Rightarrow> u64" where
  "PackSequenceAndType s t = push_bit 8 s OR ucast (ValueType_value t)"

definition AppendInternalKey :: "byte list \<Rightarrow> ParsedInternalKey \<Rightarrow> byte list" where
  "AppendInternalKey result key =
     PutFixed64 (result @ pk_user_key key) (PackSequenceAndType (pk_sequence key) (pk_type key))"

definition ExtractUserKey :: "slice \<Rightarrow> slice" where
  "ExtractUserKey internal_key = take (length internal_key - 8) internal_key"

text \<open>\<open>DecodeFixed64(key.data() + key.size() - 8)\<close>\<close>

definition key_tag :: "slice \<Rightarrow> u64" where
  "key_tag k = DecodeFixed64 (drop (length k - 8) k)"

definition ParseInternalKey :: "slice \<Rightarrow> ParsedInternalKey option" where
  "ParseInternalKey internal_key =
     (let n = length internal_key in
      if n < 8 then None
      else
        (let num = key_tag internal_key; c = ucast (num AND 0xff) :: byte in
         if c \<le> ValueType_value kTypeValue
         then Some \<lparr>pk_user_key = take (n - 8) internal_key, pk_sequence = drop_bit 8 num,
           pk_type = (if c = 0 then kTypeDeletion else kTypeValue)\<rparr>
         else None))"

definition ParsedInternalKey_DebugString :: "ParsedInternalKey \<Rightarrow> byte list" where
  "ParsedInternalKey_DebugString k =
     lit [CHR 0x27] @ EscapeString (pk_user_key k) @
     lit ([CHR 0x27] @ '' @ '') @ decimal (unat (pk_sequence k)) @ lit '' : '' @ decimal (unat (ValueType_value (pk_type k)))"

definition InternalKey_DebugString :: "slice \<Rightarrow> byte list" where
  "InternalKey_DebugString rep =
     (case ParseInternalKey rep of Some p \<Rightarrow> ParsedInternalKey_DebugString p
      | None \<Rightarrow> lit ''(bad)'' @ EscapeString rep)"

text \<open>The class \<open>InternalKey\<close>: \<open>rep_\<close> made from its parts.\<close>

definition new_InternalKey :: "slice \<Rightarrow> SequenceNumber \<Rightarrow> ValueType \<Rightarrow> slice" where
  "new_InternalKey user_key s t = AppendInternalKey [] \<lparr>pk_user_key = user_key, pk_sequence = s, pk_type = t\<rparr>"

section \<open>The order of internal keys\<close>

definition InternalKey_Compare :: "Comparator \<Rightarrow> slice \<Rightarrow> slice \<Rightarrow> int" where
  "InternalKey_Compare C akey bkey =
     (let r = cmp_Compare C (ExtractUserKey akey) (ExtractUserKey bkey) in
      if r = 0 then
        (let anum = key_tag akey; bnum = key_tag bkey in
         if anum > bnum then - 1 else if anum < bnum then 1 else r)
      else r)"

definition InternalKey_FindShortestSeparator :: "Comparator \<Rightarrow> slice \<Rightarrow> slice \<Rightarrow> slice" where
  "InternalKey_FindShortestSeparator C start limit =
     (let user_start = ExtractUserKey start;
          user_limit = ExtractUserKey limit;
          tmp = cmp_FindShortestSeparator C user_start user_limit
      in if length tmp < length user_start \<and> cmp_Compare C user_start tmp < 0
         then PutFixed64 tmp (PackSequenceAndType kMaxSequenceNumber kValueTypeForSeek) else start)"

definition InternalKey_FindShortSuccessor :: "Comparator \<Rightarrow> slice \<Rightarrow> slice" where
  "InternalKey_FindShortSuccessor C key =
     (let user_key = ExtractUserKey key;
          tmp = cmp_FindShortSuccessor C user_key
      in if length tmp < length user_key \<and> cmp_Compare C user_key tmp < 0
         then PutFixed64 tmp (PackSequenceAndType kMaxSequenceNumber kValueTypeForSeek) else key)"

definition InternalKeyComparator :: "Comparator \<Rightarrow> Comparator" where
  "InternalKeyComparator C = \<lparr>cmp_Name = ''leveldb.InternalKeyComparator'', cmp_Compare = InternalKey_Compare C,
     cmp_FindShortestSeparator = InternalKey_FindShortestSeparator C,
     cmp_FindShortSuccessor = InternalKey_FindShortSuccessor C\<rparr>"

section \<open>Lookup keys\<close>

text \<open>The array of the constructor, from \<open>start_\<close> to \<open>end_\<close>, with the index of \<open>kstart_\<close>.\<close>

record LookupKey =
  lk_array :: "byte list"
  lk_kstart :: nat

definition new_LookupKey :: "slice \<Rightarrow> SequenceNumber \<Rightarrow> LookupKey" where
  "new_LookupKey user_key s =
     (let usize = length user_key; len = EncodeVarint32 (word_of_nat (usize + 8)) in
      \<lparr>lk_array = len @ user_key @ EncodeFixed64 (PackSequenceAndType s kValueTypeForSeek), lk_kstart = length len\<rparr>)"

definition memtable_key :: "LookupKey \<Rightarrow> slice" where
  "memtable_key k = lk_array k"

definition internal_key :: "LookupKey \<Rightarrow> slice" where
  "internal_key k = drop (lk_kstart k) (lk_array k)"

definition user_key :: "LookupKey \<Rightarrow> slice" where
  "user_key k = take (length (lk_array k) - lk_kstart k - 8) (drop (lk_kstart k) (lk_array k))"

section \<open>Internal keys are read back\<close>

lemma ExtractUserKey_append: "length t = 8 \<Longrightarrow> ExtractUserKey (u @ t) = u"
  by (simp add: ExtractUserKey_def)

lemma key_tag_append: "key_tag (u @ EncodeFixed64 n) = n"
  using DecodeFixed64_Encode [of n "[]"] by (simp add: key_tag_def)

lemma AppendInternalKey_eq:
  "AppendInternalKey r key = r @ pk_user_key key @ EncodeFixed64 (PackSequenceAndType (pk_sequence key) (pk_type key))"
  by (simp add: AppendInternalKey_def PutFixed64_def)

lemma kMaxSequenceNumber_le: "s \<le> kMaxSequenceNumber \<longleftrightarrow> s < 2 ^ 56"
proof -
  have "unat kMaxSequenceNumber = 2 ^ 56 - 1" by (simp add: kMaxSequenceNumber_def)
  moreover have "unat (2 ^ 56 :: u64) = 2 ^ 56" by simp
  ultimately show ?thesis by (auto simp: word_le_nat_alt word_less_nat_alt)
qed

lemma pack_fields:
  assumes "s \<le> kMaxSequenceNumber"
  shows "drop_bit 8 (PackSequenceAndType s t) = s" "ucast (PackSequenceAndType s t AND 0xff) = ValueType_value t"
proof -
  have b: "\<not> bit s n" if "56 \<le> n" for n
  proof -
    have "take_bit 56 s = s" using assms by (simp add: kMaxSequenceNumber_le take_bit_small)
    then have "bit s n \<longleftrightarrow> bit (take_bit 56 s) n" by simp
    then show ?thesis using that by (simp add: bit_take_bit_iff)
  qed
  have t8: "drop_bit 8 (ucast (x :: byte) :: u64) = 0" for x
    by (rule bit_word_eqI) (auto simp: bit_simps dest: bit_imp_le_length)
  have "drop_bit 8 (push_bit 8 s) = s"
  proof (rule bit_word_eqI)
    fix n assume "n < LENGTH(64)"
    then show "bit (drop_bit 8 (push_bit 8 s)) n = bit s n" using b [of n] by (cases "n < 56") (auto simp: bit_simps)
  qed
  then show "drop_bit 8 (PackSequenceAndType s t) = s" by (simp add: PackSequenceAndType_def t8)
  have ff: "0xff = (mask 8 :: u64)" by (simp add: mask_eq_exp_minus_1)
  show "ucast (PackSequenceAndType s t AND 0xff) = ValueType_value t"
    unfolding ff PackSequenceAndType_def take_bit_eq_mask [symmetric]
    by (rule bit_word_eqI) (auto simp: bit_simps)
qed

lemma ParseInternalKey_Append:
  assumes "pk_sequence k \<le> kMaxSequenceNumber"
  shows "ParseInternalKey (AppendInternalKey [] k) = Some k"
proof -
  have t: "ValueType_value t \<le> 1" "(if ValueType_value t = 0 then kTypeDeletion else kTypeValue) = t" for t
    by (cases t; simp)+
  show ?thesis
    using assms t [of "pk_type k"]
    by (simp add: ParseInternalKey_def AppendInternalKey_eq Let_def key_tag_append pack_fields)
qed

lemma LookupKey_parts:
  "internal_key (new_LookupKey u s) = new_InternalKey u s kTypeValue"
  "user_key (new_LookupKey u s) = u"
  "memtable_key (new_LookupKey u s) = EncodeVarint32 (word_of_nat (length u + 8)) @ new_InternalKey u s kTypeValue"
  by (simp_all add: internal_key_def user_key_def memtable_key_def new_LookupKey_def new_InternalKey_def Let_def
      AppendInternalKey_eq kValueTypeForSeek_def)

section \<open>The internal comparator keeps the contract\<close>

context comparator
begin

definition valid_internal :: "slice \<Rightarrow> bool" where
  "valid_internal k \<longleftrightarrow> 8 \<le> length k \<and> valid (ExtractUserKey k)"

lemma internal_less:
  "InternalKey_Compare C a b < 0 \<longleftrightarrow> below (ExtractUserKey a) (ExtractUserKey b) \<or>
     equiv (ExtractUserKey a) (ExtractUserKey b) \<and> key_tag b < key_tag a"
  by (auto simp: InternalKey_Compare_def below_def equiv_def Let_def)

lemma internal_zero:
  "InternalKey_Compare C a b = 0 \<longleftrightarrow> equiv (ExtractUserKey a) (ExtractUserKey b) \<and> key_tag b = key_tag a"
  by (auto simp: InternalKey_Compare_def equiv_def Let_def)

lemma internal_le:
  "InternalKey_Compare C a b \<le> 0 \<longleftrightarrow> below (ExtractUserKey a) (ExtractUserKey b) \<or>
     equiv (ExtractUserKey a) (ExtractUserKey b) \<and> key_tag b \<le> key_tag a"
  using internal_less [of a b] internal_zero [of a b] by (auto simp: le_less)

lemma internal_greater:
  assumes "valid_internal a" and "valid_internal b"
  shows "InternalKey_Compare C a b > 0 \<longleftrightarrow> InternalKey_Compare C b a < 0"
proof -
  have v: "valid (ExtractUserKey a)" "valid (ExtractUserKey b)" using assms by (simp_all add: valid_internal_def)
  show ?thesis
    unfolding internal_less [of b a]
    using compare_flip [OF v] compare_zero_sym [OF v]
    by (auto simp: InternalKey_Compare_def below_def equiv_def Let_def)
qed

lemma shortened_key:
  assumes "valid tmp"
  shows "valid_internal (PutFixed64 tmp n)" "ExtractUserKey (PutFixed64 tmp n) = tmp"
  using assms by (simp_all add: valid_internal_def PutFixed64_def ExtractUserKey_append)

lemma comparator_internal: "comparator (InternalKeyComparator C) valid_internal"
proof (unfold_locales, goal_cases)
  case (1 a b)
  then show ?case by (simp add: InternalKeyComparator_def internal_greater)
next
  case (2 a b c)
  have v: "valid (ExtractUserKey a)" "valid (ExtractUserKey b)" "valid (ExtractUserKey c)"
    using 2 by (simp_all add: valid_internal_def)
  have le: "InternalKey_Compare C a b \<le> 0" "InternalKey_Compare C b c \<le> 0"
    using 2 by (simp_all add: InternalKeyComparator_def)
  have "cmp_Compare C (ExtractUserKey a) (ExtractUserKey c) \<le> 0"
    using trans [OF v] le by (auto simp: internal_le below_def equiv_def)
  moreover have "cmp_Compare C (ExtractUserKey a) (ExtractUserKey c) < 0"
    if "below (ExtractUserKey a) (ExtractUserKey b) \<or> below (ExtractUserKey b) (ExtractUserKey c)"
    using that le trans_less_le [OF v] trans_le_less [OF v] by (auto simp: internal_le below_def equiv_def)
  ultimately show ?case
    using le by (auto simp: InternalKeyComparator_def internal_le below_def equiv_def)
next
  case (3 a b)
  have v: "valid (ExtractUserKey a)" "valid (ExtractUserKey b)"
    using 3 by (simp_all add: valid_internal_def)
  have lt: "InternalKey_Compare C a b < 0" using 3 by (simp add: InternalKeyComparator_def)
  have rfl: "InternalKey_Compare C a a \<le> 0"
    using compare_refl [OF v(1)] by (simp add: internal_le equiv_def)
  let ?t = "cmp_FindShortestSeparator C (ExtractUserKey a) (ExtractUserKey b)"
  show ?case
  proof (cases "length ?t < length (ExtractUserKey a) \<and> cmp_Compare C (ExtractUserKey a) ?t < 0")
    case True
    then have "below (ExtractUserKey a) (ExtractUserKey b)"
      using separator_id [OF v] unfolding below_def by (metis order_less_irrefl)
    then have t: "valid ?t" "cmp_Compare C ?t (ExtractUserKey b) < 0"
      using separator [OF v] by (simp_all add: below_def)
    show ?thesis
      using True shortened_key [OF t(1)] t(2)
      by (simp add: InternalKeyComparator_def InternalKey_FindShortestSeparator_def Let_def internal_less internal_le
          below_def)
  next
    case False
    then have "InternalKey_FindShortestSeparator C a b = a"
      by (auto simp: InternalKey_FindShortestSeparator_def Let_def)
    then show ?thesis using 3 rfl lt by (simp add: InternalKeyComparator_def)
  qed
next
  case (4 a b)
  have v: "valid (ExtractUserKey a)" "valid (ExtractUserKey b)"
    using 4 by (simp_all add: valid_internal_def)
  have "\<not> below (ExtractUserKey a) (ExtractUserKey b)"
    using 4 by (auto simp: InternalKeyComparator_def internal_less)
  then have "cmp_FindShortestSeparator C (ExtractUserKey a) (ExtractUserKey b) = ExtractUserKey a"
    using separator_id [OF v] by (simp add: below_def)
  then show ?case by (simp add: InternalKeyComparator_def InternalKey_FindShortestSeparator_def)
next
  case (5 a)
  have v: "valid (ExtractUserKey a)" using 5 by (simp add: valid_internal_def)
  have rfl: "InternalKey_Compare C a a \<le> 0"
    using compare_refl [OF v] by (simp add: internal_le equiv_def)
  note s = successor [OF v]
  show ?case
    using 5 rfl s shortened_key [of "cmp_FindShortSuccessor C (ExtractUserKey a)"]
    by (auto simp: InternalKeyComparator_def InternalKey_FindShortSuccessor_def Let_def internal_le below_def)
qed

end

interpretation internal: comparator "InternalKeyComparator BytewiseComparator" "\<lambda>k. 8 \<le> length k"
  using bytewise.comparator_internal by (simp add: bytewise.valid_internal_def [abs_def])

end
