(* ===== verification/LdbBloom.thy ===== *)
theory LdbBloom
  imports LdbFormat
begin

text \<open>
  \<open>util/hash.cc\<close>, \<open>include/leveldb/filter_policy.h\<close> and \<open>util/bloom.cc\<close>, with the wrapper for internal
  keys of \<open>db/dbformat.cc\<close>. A policy is a record of its operations; the contract \<open>filter_policy\<close>
  says that a filter never denies a key it was made from.
\<close>

section \<open>The hash function\<close>

definition hash_m :: u32 where "hash_m = 0xc6a4a793"

text \<open>The loop that picks up four bytes at a time; the bytes left over.\<close>

fun hash_loop :: "u32 \<Rightarrow> byte list \<Rightarrow> u32 \<times> byte list" where
  "hash_loop h (a # b # c # d # rest) =
     (let w = DecodeFixed32 [a, b, c, d]; h1 = (h + w) * hash_m in hash_loop (h1 XOR drop_bit 16 h1) rest)"
| "hash_loop h rest = (h, rest)"

definition hash_tail :: "u32 \<Rightarrow> byte list \<Rightarrow> u32" where
  "hash_tail h data =
     (let h3 = (if length data = 3 then h + push_bit 16 (ucast (data ! 2)) else h);
          h2 = (if length data \<in> {2, 3} then h3 + push_bit 8 (ucast (data ! 1)) else h3);
          h1 = (h2 + ucast (data ! 0)) * hash_m
      in if length data \<in> {1, 2, 3} then h1 XOR drop_bit 24 h1 else h)"

definition Hash :: "byte list \<Rightarrow> u32 \<Rightarrow> u32" where
  "Hash data seed =
     (let h = ucast (ucast seed XOR (word_of_nat (length data) * ucast hash_m) :: u64);
          (h1, rest) = hash_loop h data
      in hash_tail h1 rest)"

definition BloomHash :: "slice \<Rightarrow> u32" where
  "BloomHash key = Hash key 0xbc9f1d34"

section \<open>Filter policies\<close>

record FilterPolicy =
  fp_Name :: string
  fp_CreateFilter :: "slice list \<Rightarrow> byte list \<Rightarrow> byte list"
  fp_KeyMayMatch :: "slice \<Rightarrow> slice \<Rightarrow> bool"

text \<open>\<open>fits\<close> are the lists of keys a filter can be made for.\<close>

locale filter_policy =
  fixes P :: FilterPolicy and fits :: "slice list \<Rightarrow> bool"
  assumes appends: "fits keys \<Longrightarrow> \<exists>f. fp_CreateFilter P keys dst = dst @ f \<and> f = fp_CreateFilter P keys []"
    and matches: "fits keys \<Longrightarrow> key \<in> set keys \<Longrightarrow> fp_KeyMayMatch P key (fp_CreateFilter P keys [])"

section \<open>The Bloom filter\<close>

text \<open>The fields are \<open>bits_per_key_\<close> and \<open>k_\<close>. \<open>bits_per_key * 0.69\<close> is computed in double precision; for
  \<open>bits_per_key < 44\<close> its integer part is that of \<open>69 * bits_per_key / 100\<close>, which is no integer but
  for 0, and from 44 on both exceed the bound 30.\<close>

record BloomFilterPolicy =
  bits_per_key :: u64
  bloom_k :: nat

definition new_BloomFilterPolicy :: "nat \<Rightarrow> BloomFilterPolicy" where
  "new_BloomFilterPolicy bpk =
     (let k = 69 * bpk div 100; k1 = (if k < 1 then 1 else k); k2 = (if k1 > 30 then 30 else k1)
      in \<lparr>bits_per_key = word_of_nat bpk, bloom_k = k2\<rparr>)"

definition set_bit_at :: "nat \<Rightarrow> byte list \<Rightarrow> byte list" where
  "set_bit_at bitpos array = array[bitpos div 8 := array ! (bitpos div 8) OR push_bit (bitpos mod 8) 1]"

text \<open>The inner loop: \<open>j\<close> probes are left.\<close>

primrec add_probes :: "nat \<Rightarrow> u64 \<Rightarrow> u32 \<Rightarrow> u32 \<Rightarrow> byte list \<Rightarrow> byte list" where
  "add_probes 0 bits delta h array = array"
| "add_probes (Suc j) bits delta h array =
     add_probes j bits delta (h + delta) (set_bit_at (unat (ucast (ucast h mod bits :: u64) :: u32)) array)"

definition bloom_delta :: "u32 \<Rightarrow> u32" where
  "bloom_delta h = drop_bit 17 h OR push_bit 15 h"

definition Bloom_CreateFilter :: "BloomFilterPolicy \<Rightarrow> slice list \<Rightarrow> byte list \<Rightarrow> byte list" where
  "Bloom_CreateFilter p keys dst =
     (let bits0 = word_of_nat (length keys) * bits_per_key p :: u64;
          bits1 = (if bits0 < 64 then 64 else bits0);
          bytes = (bits1 + 7) div 8;
          bits = bytes * 8;
          array = replicate (unat bytes) 0;
          array1 = fold (\<lambda>key arr. let h = BloomHash key in add_probes (bloom_k p) bits (bloom_delta h) h arr) keys array
      in dst @ array1 @ [word_of_nat (bloom_k p)])"

text \<open>The loop of the test.\<close>

primrec all_probes :: "nat \<Rightarrow> u64 \<Rightarrow> u32 \<Rightarrow> u32 \<Rightarrow> byte list \<Rightarrow> bool" where
  "all_probes 0 bits delta h array = True"
| "all_probes (Suc j) bits delta h array =
     (let bitpos = unat (ucast (ucast h mod bits :: u64) :: u32) in
      if array ! (bitpos div 8) AND push_bit (bitpos mod 8) 1 = 0 then False
      else all_probes j bits delta (h + delta) array)"

definition Bloom_KeyMayMatch :: "slice \<Rightarrow> slice \<Rightarrow> bool" where
  "Bloom_KeyMayMatch key bloom_filter =
     (let len = length bloom_filter in
      if len < 2 then False
      else
        (let bits = word_of_nat ((len - 1) * 8) :: u64;
             k = scast (bloom_filter ! (len - 1)) :: u64;
             h = BloomHash key
         in if k > 30 then True else all_probes (unat k) bits (bloom_delta h) h bloom_filter))"

definition BloomPolicy :: "nat \<Rightarrow> FilterPolicy" where
  "BloomPolicy bpk = \<lparr>fp_Name = ''leveldb.BuiltinBloomFilter2'',
     fp_CreateFilter = Bloom_CreateFilter (new_BloomFilterPolicy bpk), fp_KeyMayMatch = Bloom_KeyMayMatch\<rparr>"

text \<open>The wrapper for internal keys. It changes the array of keys in place, which its caller does not
  look at again.\<close>

definition InternalFilterPolicy :: "FilterPolicy \<Rightarrow> FilterPolicy" where
  "InternalFilterPolicy P = \<lparr>fp_Name = fp_Name P,
     fp_CreateFilter = (\<lambda>keys dst. fp_CreateFilter P (map ExtractUserKey keys) dst),
     fp_KeyMayMatch = (\<lambda>key f. fp_KeyMayMatch P (ExtractUserKey key) f)\<rparr>"

section \<open>No false negatives\<close>

definition probe_set :: "nat \<Rightarrow> byte list \<Rightarrow> bool" where
  "probe_set i array \<longleftrightarrow> bit (array ! (i div 8)) (i mod 8)"

lemma length_set_bit_at [simp]: "length (set_bit_at i a) = length a"
  by (simp add: set_bit_at_def)

lemma length_add_probes [simp]: "length (add_probes j bits d h a) = length a"
  by (induction j arbitrary: h a) auto

lemma probe_set_bit_at:
  "i < 8 * length a \<Longrightarrow> probe_set i (set_bit_at i a)"
  "probe_set i a \<Longrightarrow> i < 8 * length a \<Longrightarrow> probe_set i (set_bit_at n a)"
proof -
  show "probe_set i (set_bit_at i a)" if "i < 8 * length a"
  proof -
    have "i div 8 < length a" using that by simp
    then show ?thesis by (simp add: probe_set_def set_bit_at_def bit_simps bit_exp_iff)
  qed
  show "probe_set i (set_bit_at n a)" if "probe_set i a" "i < 8 * length a"
  proof -
    have "i div 8 < length a" using that by simp
    then show ?thesis
      using that by (cases "n div 8 = i div 8") (simp_all add: probe_set_def set_bit_at_def bit_simps)
  qed
qed

lemma probe_add_probes:
  "probe_set i a \<Longrightarrow> i < 8 * length a \<Longrightarrow> probe_set i (add_probes j bits d h a)"
  by (induction j arbitrary: h a) (simp_all add: probe_set_bit_at)

definition bitpos :: "u64 \<Rightarrow> u32 \<Rightarrow> nat" where
  "bitpos bits h = unat (ucast (ucast h mod bits :: u64) :: u32)"

lemma bitpos_less:
  assumes "bits > 0"
  shows "bitpos bits h < unat bits"
proof -
  have "unat (ucast h mod bits :: u64) < unat bits"
    using assms word_mod_less_divisor [of bits "ucast h"] by (simp add: word_less_nat_alt)
  moreover have "bitpos bits h \<le> unat (ucast h mod bits :: u64)"
    by (simp add: bitpos_def unsigned_ucast_eq take_bit_eq_mod)
  ultimately show ?thesis by simp
qed

text \<open>The probes of a hash value, as the bit positions both loops visit.\<close>

definition probes_set :: "nat \<Rightarrow> u64 \<Rightarrow> u32 \<Rightarrow> u32 \<Rightarrow> byte list \<Rightarrow> bool" where
  "probes_set j bits d h a \<longleftrightarrow> (\<forall>i<j. probe_set (bitpos bits (h + word_of_nat i * d)) a)"

lemma all_probes_iff: "all_probes j bits d h a \<longleftrightarrow> probes_set j bits d h a"
proof (induction j arbitrary: h)
  case (Suc j)
  have split: "(\<forall>i<Suc j. Q i) \<longleftrightarrow> Q 0 \<and> (\<forall>i<j. Q (Suc i))" for Q by (auto simp: less_Suc_eq_0_disj)
  have e: "h + d + word_of_nat i * d = h + word_of_nat (Suc i) * d" for i by (simp add: algebra_simps)
  show ?case
    unfolding probes_set_def split all_probes.simps Suc.IH e
    by (simp add: and_exp_eq_0_iff_not_bit probe_set_def bitpos_def Let_def)
qed (simp add: probes_set_def)

lemma add_probes_sets:
  assumes "bits > 0" and "unat bits \<le> 8 * length a"
  shows "probes_set j bits d h (add_probes j bits d h a)"
  using assms(2)
proof (induction j arbitrary: h a)
  case (Suc j)
  let ?a = "set_bit_at (bitpos bits h) a"
  have b: "bitpos bits x < 8 * length a" for x using bitpos_less [OF assms(1), of x] Suc.prems by simp
  have split: "(\<forall>i<Suc j. Q i) \<longleftrightarrow> Q 0 \<and> (\<forall>i<j. Q (Suc i))" for Q by (auto simp: less_Suc_eq_0_disj)
  have e: "h + d + word_of_nat i * d = h + word_of_nat (Suc i) * d" for i by (simp add: algebra_simps)
  have "probe_set (bitpos bits h) (add_probes j bits d (h + d) ?a)"
    using b by (intro probe_add_probes probe_set_bit_at) simp_all
  moreover have "probes_set j bits d (h + d) (add_probes j bits d (h + d) ?a)"
    using Suc.prems by (intro Suc.IH) simp
  ultimately show ?case
    unfolding probes_set_def split by (simp add: e bitpos_def)
qed (simp add: probes_set_def)

lemma probes_kept:
  assumes "bits > 0" and "unat bits \<le> 8 * length a" and "probes_set j bits d h a"
  shows "probes_set j bits d h (add_probes j' bits d' h' a)"
  using assms bitpos_less [OF assms(1)] unfolding probes_set_def
  by (meson probe_add_probes order_less_le_trans)

definition add_key :: "nat \<Rightarrow> u64 \<Rightarrow> slice \<Rightarrow> byte list \<Rightarrow> byte list" where
  "add_key k bits key arr = (let h = BloomHash key in add_probes k bits (bloom_delta h) h arr)"

lemma length_fold_add_key [simp]: "length (fold (add_key k bits) keys a) = length a"
  by (induction keys arbitrary: a) (auto simp: add_key_def Let_def)

lemma fold_add_key_sets:
  assumes "bits > 0" and "unat bits \<le> 8 * length a"
    and "key \<in> set keys \<or> probes_set k bits (bloom_delta (BloomHash key)) (BloomHash key) a"
  shows "probes_set k bits (bloom_delta (BloomHash key)) (BloomHash key) (fold (add_key k bits) keys a)"
  using assms(2,3)
proof (induction keys arbitrary: a)
  case (Cons x keys)
  have "key \<in> set keys \<or> probes_set k bits (bloom_delta (BloomHash key)) (BloomHash key) (add_key k bits x a)"
    using Cons.prems add_probes_sets [OF assms(1)] probes_kept [OF assms(1)]
    by (auto simp: add_key_def Let_def)
  then show ?case using Cons.prems Cons.IH [of "add_key k bits x a"] by (simp add: add_key_def Let_def)
qed simp

text \<open>The size of the filter must not wrap around.\<close>

definition bloom_fits :: "nat \<Rightarrow> slice list \<Rightarrow> bool" where
  "bloom_fits bpk keys \<longleftrightarrow> bpk < 2 ^ 31 \<and> length keys * bpk < 2 ^ 63"

lemma bloom_sizes:
  assumes "bloom_fits bpk keys"
  defines "bits0 \<equiv> word_of_nat (length keys) * word_of_nat bpk :: u64"
  defines "bytes \<equiv> ((if bits0 < 64 then 64 else bits0) + 7) div 8"
  shows "unat (bytes * 8) = 8 * unat bytes" "bytes > 0" "unat bytes \<ge> 8"
proof -
  have "bits0 = word_of_nat (length keys * bpk)" by (simp add: bits0_def)
  then have "unat bits0 = (length keys * bpk) mod 2 ^ 64" by (simp only: unat_of_nat) simp
  then have b0: "unat bits0 < 2 ^ 63" using assms(1) by (simp add: bloom_fits_def)
  define b1 where "b1 = (if bits0 < 64 then 64 else bits0)"
  have b1: "unat b1 < 2 ^ 63" "64 \<le> unat b1"
    using b0 by (auto simp: b1_def word_less_nat_alt)
  then have "unat (b1 + 7) = unat b1 + 7" by (simp add: unat_word_ariths)
  then have by8: "unat bytes = (unat b1 + 7) div 8"
    unfolding bytes_def b1_def [symmetric] by (simp add: unat_div)
  then show "unat (bytes * 8) = 8 * unat bytes" using b1 by (simp add: unat_word_ariths)
  show "bytes > 0" "unat bytes \<ge> 8" using by8 b1(2) by (simp_all add: word_gt_0_no unat_gt_0 word_less_nat_alt)
qed

lemma bloom_k_bounds: "1 \<le> bloom_k (new_BloomFilterPolicy bpk)" "bloom_k (new_BloomFilterPolicy bpk) \<le> 30"
  by (simp_all add: new_BloomFilterPolicy_def Let_def)

lemma Bloom_matches:
  assumes "bloom_fits bpk keys" and "key \<in> set keys"
  shows "Bloom_KeyMayMatch key (Bloom_CreateFilter (new_BloomFilterPolicy bpk) keys [])"
proof -
  define bytes where "bytes = ((if word_of_nat (length keys) * word_of_nat bpk < (64 :: u64) then 64
      else word_of_nat (length keys) * word_of_nat bpk) + 7 :: u64) div 8"
  note sz = bloom_sizes [OF assms(1), folded bytes_def]
  define k where "k = bloom_k (new_BloomFilterPolicy bpk)"
  have k: "1 \<le> k" "k \<le> 30" using bloom_k_bounds by (simp_all add: k_def)
  define arr where "arr = fold (add_key k (bytes * 8)) keys (replicate (unat bytes) 0)"
  have f: "Bloom_CreateFilter (new_BloomFilterPolicy bpk) keys [] = arr @ [word_of_nat k]"
    by (simp add: Bloom_CreateFilter_def Let_def arr_def k_def bytes_def add_key_def [abs_def]
        new_BloomFilterPolicy_def)
  have la: "length arr = unat bytes" by (simp add: arr_def)
  have b8: "bytes * 8 > 0" using sz by (simp add: word_gt_0_no unat_gt_0 word_less_nat_alt)
  have ps: "probes_set k (bytes * 8) (bloom_delta (BloomHash key)) (BloomHash key) arr"
    unfolding arr_def using b8 sz assms(2) by (intro fold_add_key_sets) simp_all
  have "probe_set i (arr @ [x]) = probe_set i arr" if "i < 8 * length arr" for i x
  proof -
    have "i div 8 < length arr" using that by simp
    then show ?thesis by (simp add: probe_set_def nth_append)
  qed
  then have "probes_set k (bytes * 8) (bloom_delta (BloomHash key)) (BloomHash key) (arr @ [word_of_nat k])"
    using ps bitpos_less [OF b8] sz by (simp add: probes_set_def la)
  moreover have "(scast (word_of_nat k :: byte) :: u64) = word_of_nat k"
  proof -
    have "k \<in> {..30}" using k by simp
    also have "{..30} = set [0..<31]" by auto
    finally show ?thesis by (auto simp: upt_rec numeral_eq_Suc)
  qed
  moreover have "unat (word_of_nat k :: u64) = k" using k by (simp add: unat_of_nat)
  moreover have "\<not> word_of_nat k > (30 :: u64)" using k by (simp add: word_less_nat_alt unat_of_nat)
  moreover have "word_of_nat (8 * unat bytes) = bytes * 8" by (simp add: mult.commute)
  ultimately show ?thesis
    using sz(3) by (simp add: f Bloom_KeyMayMatch_def Let_def la nth_append all_probes_iff mult.commute)
qed

lemma Bloom_appends: "Bloom_CreateFilter p keys dst = dst @ Bloom_CreateFilter p keys []"
  by (simp add: Bloom_CreateFilter_def Let_def)

interpretation bloom: filter_policy "BloomPolicy bpk" "bloom_fits bpk" for bpk
proof unfold_locales
  fix keys dst
  show "\<exists>f. fp_CreateFilter (BloomPolicy bpk) keys dst = dst @ f \<and> f = fp_CreateFilter (BloomPolicy bpk) keys []"
    using Bloom_appends [of _ keys dst] by (simp add: BloomPolicy_def)
next
  fix keys key
  assume "bloom_fits bpk keys" "key \<in> set keys"
  then show "fp_KeyMayMatch (BloomPolicy bpk) key (fp_CreateFilter (BloomPolicy bpk) keys [])"
    by (simp add: BloomPolicy_def Bloom_matches)
qed

context filter_policy
begin

lemma filter_policy_internal:
  "filter_policy (InternalFilterPolicy P) (\<lambda>keys. fits (map ExtractUserKey keys))"
proof unfold_locales
  fix keys dst
  assume "fits (map ExtractUserKey keys)"
  then show "\<exists>f. fp_CreateFilter (InternalFilterPolicy P) keys dst = dst @ f \<and>
      f = fp_CreateFilter (InternalFilterPolicy P) keys []"
    using appends [of "map ExtractUserKey keys" dst] by (simp add: InternalFilterPolicy_def)
next
  fix keys key
  assume "fits (map ExtractUserKey keys)" "key \<in> set keys"
  then show "fp_KeyMayMatch (InternalFilterPolicy P) key (fp_CreateFilter (InternalFilterPolicy P) keys [])"
    using matches [of "map ExtractUserKey keys" "ExtractUserKey key"] by (simp add: InternalFilterPolicy_def)
qed

end

interpretation internal_bloom: filter_policy "InternalFilterPolicy (BloomPolicy bpk)"
    "\<lambda>keys. bloom_fits bpk (map ExtractUserKey keys)" for bpk
  by (rule bloom.filter_policy_internal)

end
