(* ===== verification/LdbWriteBatch.thy ===== *)
theory LdbWriteBatch
  imports LdbFormat LdbStatus
begin

text \<open>
  \<open>include/leveldb/write_batch.h\<close>, \<open>db/write_batch_internal.h\<close> and \<open>db/write_batch.cc\<close>: a batch is the byte
  string \<open>rep_\<close> of a sequence number, a count and the operations. A \<open>Handler\<close> is a pair of functions
  on a state of any type; the mem-table \<open>InsertInto\<close> works on is one given by its \<open>Add\<close>.
\<close>

type_synonym WriteBatch = "byte list"

record 'h Handler =
  h_Put :: "slice \<Rightarrow> slice \<Rightarrow> 'h \<Rightarrow> 'h"
  h_Delete :: "slice \<Rightarrow> 'h \<Rightarrow> 'h"

definition kHeader :: nat where "kHeader = 12"

section \<open>Building a batch\<close>

definition WriteBatch_Clear :: "WriteBatch \<Rightarrow> WriteBatch" where
  "WriteBatch_Clear rep = replicate kHeader 0"

definition new_WriteBatch :: WriteBatch where
  "new_WriteBatch = WriteBatch_Clear []"

definition ApproximateSize :: "WriteBatch \<Rightarrow> nat" where
  "ApproximateSize rep = length rep"

text \<open>A count is an \<open>int\<close> stored in four bytes, here the word of those bytes.\<close>

definition WriteBatch_Count :: "WriteBatch \<Rightarrow> u32" where
  "WriteBatch_Count b = DecodeFixed32 (drop 8 b)"

definition WriteBatch_SetCount :: "WriteBatch \<Rightarrow> u32 \<Rightarrow> WriteBatch" where
  "WriteBatch_SetCount b n = take 8 b @ EncodeFixed32 n @ drop 12 b"

definition WriteBatch_Sequence :: "WriteBatch \<Rightarrow> SequenceNumber" where
  "WriteBatch_Sequence b = DecodeFixed64 b"

definition WriteBatch_SetSequence :: "WriteBatch \<Rightarrow> SequenceNumber \<Rightarrow> WriteBatch" where
  "WriteBatch_SetSequence b s = EncodeFixed64 s @ drop 8 b"

definition WriteBatch_Put :: "slice \<Rightarrow> slice \<Rightarrow> WriteBatch \<Rightarrow> WriteBatch" where
  "WriteBatch_Put key v rep =
     (let rep1 = WriteBatch_SetCount rep (WriteBatch_Count rep + 1);
          rep2 = rep1 @ [ValueType_value kTypeValue];
          rep3 = PutLengthPrefixedSlice rep2 key
      in PutLengthPrefixedSlice rep3 v)"

definition WriteBatch_Delete :: "slice \<Rightarrow> WriteBatch \<Rightarrow> WriteBatch" where
  "WriteBatch_Delete key rep =
     (let rep1 = WriteBatch_SetCount rep (WriteBatch_Count rep + 1);
          rep2 = rep1 @ [ValueType_value kTypeDeletion]
      in PutLengthPrefixedSlice rep2 key)"

definition WriteBatch_Append :: "WriteBatch \<Rightarrow> WriteBatch \<Rightarrow> WriteBatch" where
  "WriteBatch_Append dst src =
     WriteBatch_SetCount dst (WriteBatch_Count dst + WriteBatch_Count src) @ drop kHeader src"

definition WriteBatch_SetContents :: "WriteBatch \<Rightarrow> slice \<Rightarrow> WriteBatch" where
  "WriteBatch_SetContents b contents = contents"

definition WriteBatch_Contents :: "WriteBatch \<Rightarrow> slice" where
  "WriteBatch_Contents b = b"

definition WriteBatch_ByteSize :: "WriteBatch \<Rightarrow> nat" where
  "WriteBatch_ByteSize b = length b"

section \<open>Reading a batch\<close>

text \<open>One round of the loop on a non-empty input: an error message, or the input left and the handler.\<close>

definition iterate_step :: "'h Handler \<Rightarrow> slice \<Rightarrow> 'h \<Rightarrow> string + slice \<times> 'h" where
  "iterate_step H input h =
     (let tag = hd input; input1 = remove_prefix 1 input in
      if tag = ValueType_value kTypeValue then
        (case GetLengthPrefixedSlice input1 of
           None \<Rightarrow> Inl ''bad WriteBatch Put''
         | Some (key, input2) \<Rightarrow>
             (case GetLengthPrefixedSlice input2 of
                None \<Rightarrow> Inl ''bad WriteBatch Put''
              | Some (v, input3) \<Rightarrow> Inr (input3, h_Put H key v h)))
      else if tag = ValueType_value kTypeDeletion then
        (case GetLengthPrefixedSlice input1 of
           None \<Rightarrow> Inl ''bad WriteBatch Delete''
         | Some (key, input2) \<Rightarrow> Inr (input2, h_Delete H key h))
      else Inl ''unknown WriteBatch tag'')"

lemma GetLengthPrefixedSlice_shorter:
  "GetLengthPrefixedSlice s = Some (v, r) \<Longrightarrow> length r \<le> length s"
proof -
  have g: "get_varint_loop l sh (x :: 'a::len word) s = Some (n, q) \<Longrightarrow> length q \<le> length s" for l sh x s n q
    by (induction l sh x s rule: get_varint_loop.induct) (auto split: if_splits)
  show "GetLengthPrefixedSlice s = Some (v, r) \<Longrightarrow> length r \<le> length s"
    by (auto simp: GetLengthPrefixedSlice_def GetVarint32_loop remove_prefix_def dest!: g split: option.splits if_splits)
qed

lemma iterate_step_shorter:
  "iterate_step H input h = Inr (r, h') \<Longrightarrow> input \<noteq> [] \<Longrightarrow> length r < length input"
  by (cases input) (auto simp: iterate_step_def Let_def remove_prefix_def split: if_splits option.splits
      dest!: GetLengthPrefixedSlice_shorter)

function iterate_loop :: "'h Handler \<Rightarrow> slice \<Rightarrow> u32 \<Rightarrow> 'h \<Rightarrow> (string + u32) \<times> 'h" where
  "iterate_loop H input found h =
     (if input = [] then (Inr found, h)
      else (case iterate_step H input h of
              Inl msg \<Rightarrow> (Inl msg, h)
            | Inr (input', h') \<Rightarrow> iterate_loop H input' (found + 1) h'))"
  by pat_completeness auto
termination
  by (relation "measure (\<lambda>(H, input, n, h). length input)") (auto dest: iterate_step_shorter)

declare iterate_loop.simps [simp del]

definition WriteBatch_Iterate :: "'h Handler \<Rightarrow> WriteBatch \<Rightarrow> 'h \<Rightarrow> Status \<times> 'h" where
  "WriteBatch_Iterate H rep h =
     (if length rep < kHeader then (Corruption (lit ''malformed WriteBatch (too small)'') [], h)
      else
        (case iterate_loop H (remove_prefix kHeader rep) 0 h of
           (Inl msg, h') \<Rightarrow> (Corruption (lit msg) [], h')
         | (Inr found, h') \<Rightarrow>
             if found \<noteq> WriteBatch_Count rep then (Corruption (lit ''WriteBatch has wrong count'') [], h')
             else (OK, h')))"

text \<open>\<open>MemTableInserter\<close>: the sequence number and the mem-table.\<close>

definition MemTableInserter ::
    "(SequenceNumber \<Rightarrow> ValueType \<Rightarrow> slice \<Rightarrow> slice \<Rightarrow> 'm \<Rightarrow> 'm) \<Rightarrow> (SequenceNumber \<times> 'm) Handler" where
  "MemTableInserter add = \<lparr>h_Put = (\<lambda>key v (s, mem). (s + 1, add s kTypeValue key v mem)),
     h_Delete = (\<lambda>key (s, mem). (s + 1, add s kTypeDeletion key [] mem))\<rparr>"

definition InsertInto ::
    "(SequenceNumber \<Rightarrow> ValueType \<Rightarrow> slice \<Rightarrow> slice \<Rightarrow> 'm \<Rightarrow> 'm) \<Rightarrow> WriteBatch \<Rightarrow> 'm \<Rightarrow> Status \<times> 'm" where
  "InsertInto add b memtable =
     (let (s, (n, mem)) = WriteBatch_Iterate (MemTableInserter add) b (WriteBatch_Sequence b, memtable) in (s, mem))"

section \<open>A batch replays the operations it was built from\<close>

datatype batch_op = Put_op slice slice | Delete_op slice

primrec op_bytes :: "batch_op \<Rightarrow> byte list" where
  "op_bytes (Put_op k v) = ValueType_value kTypeValue # enc_slice k @ enc_slice v"
| "op_bytes (Delete_op k) = ValueType_value kTypeDeletion # enc_slice k"

primrec op_fits :: "batch_op \<Rightarrow> bool" where
  "op_fits (Put_op k v) \<longleftrightarrow> slice_fits k \<and> slice_fits v"
| "op_fits (Delete_op k) \<longleftrightarrow> slice_fits k"

primrec batch_add :: "batch_op \<Rightarrow> WriteBatch \<Rightarrow> WriteBatch" where
  "batch_add (Put_op k v) b = WriteBatch_Put k v b"
| "batch_add (Delete_op k) b = WriteBatch_Delete k b"

primrec handle_op :: "'h Handler \<Rightarrow> batch_op \<Rightarrow> 'h \<Rightarrow> 'h" where
  "handle_op H (Put_op k v) = h_Put H k v"
| "handle_op H (Delete_op k) = h_Delete H k"

text \<open>The batch with a sequence number and some operations.\<close>

definition batch_of :: "SequenceNumber \<Rightarrow> batch_op list \<Rightarrow> WriteBatch" where
  "batch_of s ops = EncodeFixed64 s @ EncodeFixed32 (word_of_nat (length ops)) @ concat (map op_bytes ops)"

lemma Count_batch_of [simp]: "WriteBatch_Count (batch_of s ops) = word_of_nat (length ops)"
  by (simp add: WriteBatch_Count_def batch_of_def DecodeFixed32_Encode)

lemma Sequence_batch_of [simp]: "WriteBatch_Sequence (batch_of s ops) = s"
  by (simp add: WriteBatch_Sequence_def batch_of_def DecodeFixed64_Encode)

lemma SetCount_batch: "WriteBatch_SetCount (EncodeFixed64 s @ EncodeFixed32 m @ r) n = EncodeFixed64 s @ EncodeFixed32 n @ r"
  by (simp add: WriteBatch_SetCount_def)

lemma batch_add_of: "batch_add x (batch_of s ops) = batch_of s (ops @ [x])"
proof -
  have "EncodeFixed32 (word_of_nat (length ops) + 1) = EncodeFixed32 (1 + word_of_nat (length ops))"
    by (simp only: add.commute)
  then show ?thesis
    by (cases x)
      (simp_all add: WriteBatch_Put_def WriteBatch_Delete_def Let_def PutLengthPrefixedSlice_append SetCount_batch
        batch_of_def [of s ops] batch_of_def [of s "ops @ [_]"] WriteBatch_Count_def DecodeFixed32_Encode)
qed

lemma fold_batch_add: "fold batch_add xs (batch_of s ops) = batch_of s (ops @ xs)"
  by (induction xs arbitrary: ops) (simp_all add: batch_add_of)

lemma new_batch_of: "new_WriteBatch = batch_of 0 []"
  by code_simp

lemma Append_batch_of: "WriteBatch_Append (batch_of s xs) (batch_of s' ys) = batch_of s (xs @ ys)"
  using SetCount_batch [of s "word_of_nat (length xs)" "concat (map op_bytes xs)"]
  by (simp add: WriteBatch_Append_def) (simp add: batch_of_def kHeader_def)

lemma SetSequence_batch_of: "WriteBatch_SetSequence (batch_of s ops) s' = batch_of s' ops"
  by (simp add: WriteBatch_SetSequence_def batch_of_def)

lemma iterate_step_op:
  "op_fits x \<Longrightarrow> iterate_step H (op_bytes x @ r) h = Inr (r, handle_op H x h)"
  by (cases x) (simp_all add: iterate_step_def Let_def remove_prefix_def prefixed.get_enc)

lemma iterate_loop_ops:
  "\<forall>x \<in> set ops. op_fits x \<Longrightarrow>
     iterate_loop H (concat (map op_bytes ops)) n h = (Inr (n + word_of_nat (length ops)), fold (handle_op H) ops h)"
proof (induction ops arbitrary: n h)
  case (Cons x ops)
  have "op_bytes x \<noteq> []" by (cases x) simp_all
  then show ?case
    using Cons by (subst iterate_loop.simps) (simp add: iterate_step_op add.assoc)
qed (simp add: iterate_loop.simps)

lemma Iterate_batch_of:
  assumes "\<forall>x \<in> set ops. op_fits x"
  shows "WriteBatch_Iterate H (batch_of s ops) h = (OK, fold (handle_op H) ops h)"
proof -
  have "remove_prefix kHeader (batch_of s ops) = concat (map op_bytes ops)" "\<not> length (batch_of s ops) < kHeader"
    by (simp_all add: batch_of_def kHeader_def remove_prefix_def)
  then show ?thesis using iterate_loop_ops [OF assms, of H 0 h] by (simp add: WriteBatch_Iterate_def)
qed

text \<open>The mem-table gets the operations with consecutive sequence numbers.\<close>

primrec insert_ops ::
    "(SequenceNumber \<Rightarrow> ValueType \<Rightarrow> slice \<Rightarrow> slice \<Rightarrow> 'm \<Rightarrow> 'm) \<Rightarrow> SequenceNumber \<Rightarrow> batch_op list \<Rightarrow> 'm \<Rightarrow> 'm" where
  "insert_ops add s [] m = m"
| "insert_ops add s (x # xs) m =
     insert_ops add (s + 1) xs (case x of Put_op k v \<Rightarrow> add s kTypeValue k v m | Delete_op k \<Rightarrow> add s kTypeDeletion k [] m)"

lemma InsertInto_batch_of:
  assumes "\<forall>x \<in> set ops. op_fits x"
  shows "InsertInto add (batch_of s ops) m = (OK, insert_ops add s ops m)"
proof -
  have "fold (handle_op (MemTableInserter add)) ops (s, m) = (s + word_of_nat (length ops), insert_ops add s ops m)" for s m
  proof (induction ops arbitrary: s m)
    case (Cons x ops)
    then show ?case by (cases x) (simp_all add: MemTableInserter_def add.assoc)
  qed simp
  then show ?thesis by (simp add: InsertInto_def Iterate_batch_of [OF assms])
qed

end
