(* ===== verification/LdbBlockBuilder.thy ===== *)
theory LdbBlockBuilder
  imports LdbComparator LdbCoding
begin

text \<open>
  \<open>table/block_builder.h\<close> and \<open>table/block_builder.cc\<close>: sorted entries are written with the prefix they share
  with their predecessor left out, but for every \<open>block_restart_interval\<close>-th. What is built is
  described by \<open>block_layout\<close>: the entries, each with the length it shares, and the indices of the restarts.
\<close>

section \<open>The builder\<close>

record BlockBuilder =
  bb_restart_interval :: nat
  bb_buffer :: "byte list"
  bb_restarts :: "u32 list"
  bb_counter :: nat
  bb_finished :: bool
  bb_last_key :: "byte list"

definition new_BlockBuilder :: "nat \<Rightarrow> BlockBuilder" where
  "new_BlockBuilder interval = \<lparr>bb_restart_interval = interval, bb_buffer = [], bb_restarts = [0],
     bb_counter = 0, bb_finished = False, bb_last_key = []\<rparr>"

definition BlockBuilder_Reset :: "BlockBuilder \<Rightarrow> BlockBuilder" where
  "BlockBuilder_Reset b = b\<lparr>bb_buffer := [], bb_restarts := [0], bb_counter := 0, bb_finished := False,
     bb_last_key := []\<rparr>"

definition CurrentSizeEstimate :: "BlockBuilder \<Rightarrow> nat" where
  "CurrentSizeEstimate b = length (bb_buffer b) + length (bb_restarts b) * 4 + 4"

definition BlockBuilder_empty :: "BlockBuilder \<Rightarrow> bool" where
  "BlockBuilder_empty b \<longleftrightarrow> bb_buffer b = []"

definition BlockBuilder_Finish :: "BlockBuilder \<Rightarrow> slice \<times> BlockBuilder" where
  "BlockBuilder_Finish b =
     (let buf = fold (\<lambda>r dst. PutFixed32 dst r) (bb_restarts b) (bb_buffer b);
          buf1 = PutFixed32 buf (word_of_nat (length (bb_restarts b)))
      in (buf1, b\<lparr>bb_buffer := buf1, bb_finished := True\<rparr>))"

text \<open>The loop over the bytes shared with the last key is that of \<open>diff_index\<close>.\<close>

definition BlockBuilder_Add :: "slice \<Rightarrow> slice \<Rightarrow> BlockBuilder \<Rightarrow> BlockBuilder" where
  "BlockBuilder_Add key v b =
     (let (shared, restarts, counter) =
            (if bb_counter b < bb_restart_interval b
             then (diff_index (bb_last_key b) key, bb_restarts b, bb_counter b)
             else (0, bb_restarts b @ [word_of_nat (length (bb_buffer b))], 0));
          non_shared = length key - shared;
          buf = PutVarint32 (bb_buffer b) (word_of_nat shared);
          buf1 = PutVarint32 buf (word_of_nat non_shared);
          buf2 = PutVarint32 buf1 (word_of_nat (length v));
          buf3 = buf2 @ drop shared key;
          buf4 = buf3 @ v
      in b\<lparr>bb_buffer := buf4, bb_restarts := restarts, bb_counter := counter + 1,
           bb_last_key := take shared (bb_last_key b) @ drop shared key\<rparr>)"

section \<open>The layout of a block\<close>

text \<open>An entry with the number of bytes its key shares with the key before it.\<close>

type_synonym ent = "nat \<times> slice \<times> slice"

fun ent_bytes :: "ent \<Rightarrow> byte list" where
  "ent_bytes (s, k, v) =
     EncodeVarint32 (word_of_nat s) @ EncodeVarint32 (word_of_nat (length k - s)) @
     EncodeVarint32 (word_of_nat (length v)) @ drop s k @ v"

definition ents_bytes :: "ent list \<Rightarrow> byte list" where
  "ents_bytes es = concat (map ent_bytes es)"

definition off :: "ent list \<Rightarrow> nat \<Rightarrow> nat" where
  "off es i = length (ents_bytes (take i es))"

fun ents_ok :: "slice \<Rightarrow> ent list \<Rightarrow> bool" where
  "ents_ok prev [] \<longleftrightarrow> True"
| "ents_ok prev ((s, k, v) # es) \<longleftrightarrow>
     s \<le> length k \<and> s \<le> length prev \<and> take s k = take s prev \<and> ents_ok k es"

definition last_key :: "slice \<Rightarrow> ent list \<Rightarrow> slice" where
  "last_key prev es = (if es = [] then prev else fst (snd (last es)))"

definition restarts_ok :: "ent list \<Rightarrow> nat list \<Rightarrow> bool" where
  "restarts_ok es rs \<longleftrightarrow> rs \<noteq> [] \<and> hd rs = 0 \<and> sorted_wrt (<) rs \<and>
     (\<forall>r \<in> set rs. r < max 1 (length es)) \<and> (\<forall>r \<in> set rs. r < length es \<longrightarrow> fst (es ! r) = 0)"

definition block_layout :: "ent list \<Rightarrow> nat list \<Rightarrow> byte list \<Rightarrow> bool" where
  "block_layout es rs data \<longleftrightarrow>
     data = ents_bytes es @ concat (map (\<lambda>r. EncodeFixed32 (word_of_nat (off es r))) rs) @
       EncodeFixed32 (word_of_nat (length rs)) \<and>
     ents_ok [] es \<and> restarts_ok es rs"

lemma ents_bytes_simps [simp]:
  "ents_bytes [] = []" "ents_bytes (e # es) = ent_bytes e @ ents_bytes es"
  "ents_bytes (es @ fs) = ents_bytes es @ ents_bytes fs"
  by (simp_all add: ents_bytes_def)

lemma ents_ok_append:
  "ents_ok prev (es @ fs) \<longleftrightarrow> ents_ok prev es \<and> ents_ok (last_key prev es) fs"
  by (induction prev es rule: ents_ok.induct) (auto simp: last_key_def)

lemma length_ent_bytes: "3 \<le> length (ent_bytes e)"
proof -
  obtain s k v where e: "e = (s, k, v)" by (metis prod.exhaust)
  have "1 \<le> length (EncodeVarint32 n)" for n by (simp add: EncodeVarint32_def)
  from this [of "word_of_nat s"] this [of "word_of_nat (length k - s)"] this [of "word_of_nat (length v)"]
  show ?thesis by (simp add: e)
qed

lemma off_simps: "off es 0 = 0" "length es \<le> i \<Longrightarrow> off es i = length (ents_bytes es)"
  by (simp_all add: off_def)

lemma off_append: "i \<le> length es \<Longrightarrow> off (es @ fs) i = off es i"
  by (simp add: off_def)

lemma off_Suc: "i < length es \<Longrightarrow> off es (Suc i) = off es i + length (ent_bytes (es ! i))"
  by (simp add: off_def take_Suc_conv_app_nth)

lemma off_mono_strict: "i < j \<Longrightarrow> j \<le> length es \<Longrightarrow> off es i < off es j"
proof (induction j)
  case (Suc j)
  then have "off es j < off es (Suc j)" using length_ent_bytes [of "es ! j"] by (auto simp: off_Suc)
  then show ?case using Suc by (cases "i = j") auto
qed simp

lemma off_less_iff: "i \<le> length es \<Longrightarrow> j \<le> length es \<Longrightarrow> off es i < off es j \<longleftrightarrow> i < j"
  using off_mono_strict [of i j es] off_mono_strict [of j i es] by (metis linorder_neqE_nat not_less_iff_gr_or_eq)

lemma off_le_iff: "i \<le> length es \<Longrightarrow> j \<le> length es \<Longrightarrow> off es i \<le> off es j \<longleftrightarrow> i \<le> j"
  using off_less_iff [of j es i] by auto

lemma drop_off: "i < length es \<Longrightarrow> drop (off es i) (ents_bytes es @ r) =
    ent_bytes (es ! i) @ drop (off es (Suc i)) (ents_bytes es @ r)"
proof -
  assume i: "i < length es"
  have "es = take i es @ es ! i # drop (Suc i) es" by (rule id_take_nth_drop [OF i])
  then have e: "ents_bytes es = ents_bytes (take i es) @ ent_bytes (es ! i) @ ents_bytes (drop (Suc i) es)"
    by (metis ents_bytes_simps(2,3))
  show ?thesis unfolding off_Suc [OF i] by (simp add: e off_def add.commute)
qed

section \<open>The builder produces the layout\<close>

definition builder_inv :: "ent list \<Rightarrow> nat list \<Rightarrow> BlockBuilder \<Rightarrow> bool" where
  "builder_inv es rs b \<longleftrightarrow> bb_buffer b = ents_bytes es \<and>
     bb_restarts b = map (\<lambda>r. word_of_nat (off es r)) rs \<and> bb_last_key b = last_key [] es \<and>
     ents_ok [] es \<and> restarts_ok es rs \<and> bb_counter b \<le> bb_restart_interval b \<and> 1 \<le> bb_restart_interval b \<and>
     (es = [] \<longrightarrow> bb_counter b = 0)"

lemma new_builder_inv: "1 \<le> k \<Longrightarrow> builder_inv [] [0] (new_BlockBuilder k)"
  by (simp add: builder_inv_def new_BlockBuilder_def off_def last_key_def restarts_ok_def)

lemma reset_builder_inv: "builder_inv es rs b \<Longrightarrow> builder_inv [] [0] (BlockBuilder_Reset b)"
  by (simp add: builder_inv_def BlockBuilder_Reset_def off_def last_key_def restarts_ok_def)

lemma diff_index_take:
  "diff_index s t \<le> length s \<and> diff_index s t \<le> length t \<and> take (diff_index s t) t = take (diff_index s t) s"
  by (induction s t rule: diff_index.induct) auto

lemma restarts_append:
  assumes "restarts_ok es rs"
  shows "restarts_ok (es @ [e]) rs \<longleftrightarrow> es = [] \<longrightarrow> fst e = 0"
    "es \<noteq> [] \<Longrightarrow> fst e = 0 \<Longrightarrow> restarts_ok (es @ [e]) (rs @ [length es])"
proof -
  have b: "\<forall>r \<in> set rs. r < max 1 (length es)" and ne: "rs \<noteq> []" "hd rs = 0"
    using assms by (simp_all add: restarts_ok_def)
  have "rs = [0]" if "es = []"
    using that b ne assms by (cases rs; cases "tl rs") (auto simp: restarts_ok_def)
  then show "restarts_ok (es @ [e]) rs \<longleftrightarrow> es = [] \<longrightarrow> fst e = 0"
    using assms by (cases "es = []") (force simp: restarts_ok_def nth_append max_def Suc_le_eq)+
  show "es \<noteq> [] \<Longrightarrow> fst e = 0 \<Longrightarrow> restarts_ok (es @ [e]) (rs @ [length es])"
    using assms by (auto simp: restarts_ok_def nth_append sorted_wrt_append Suc_le_eq)
qed

lemma Add_builder_inv:
  assumes "builder_inv es rs b"
  shows "\<exists>s rs'. builder_inv (es @ [(s, key, v)]) rs' (BlockBuilder_Add key v b)"
proof -
  note i = assms [unfolded builder_inv_def]
  have mo: "map (\<lambda>r. word_of_nat (off (es @ x) r)) rs = map (\<lambda>r. word_of_nat (off es r) :: u32) rs" for x
    using i by (auto simp: restarts_ok_def off_append intro!: map_cong)
  show ?thesis
  proof (cases "bb_counter b < bb_restart_interval b")
    case True
    define s where "s = diff_index (bb_last_key b) key"
    note d = diff_index_take [of "bb_last_key b" key, folded s_def]
    have k: "take s (bb_last_key b) @ drop s key = key" using d by (metis append_take_drop_id)
    have s0: "s = 0" if "es = []" using that i by (simp add: s_def last_key_def)
    have "BlockBuilder_Add key v b = b\<lparr>bb_buffer := ents_bytes (es @ [(s, key, v)]), bb_counter := bb_counter b + 1,
        bb_last_key := key\<rparr>"
      using i unfolding BlockBuilder_Add_def if_P [OF True] s_def [symmetric] prod.case Let_def k
      by (simp add: PutVarint32_def)
    moreover have "ents_ok [] (es @ [(s, key, v)])" using i d by (simp add: ents_ok_append)
    moreover have "restarts_ok (es @ [(s, key, v)]) rs" using i s0 restarts_append(1) by auto
    ultimately have "builder_inv (es @ [(s, key, v)]) rs (BlockBuilder_Add key v b)"
      using i mo [of "[(s, key, v)]"] True by (simp add: builder_inv_def last_key_def)
    then show ?thesis by blast
  next
    case False
    then have ne: "es \<noteq> []" using i by auto
    have "BlockBuilder_Add key v b = b\<lparr>bb_buffer := ents_bytes (es @ [(0, key, v)]),
        bb_restarts := bb_restarts b @ [word_of_nat (length (bb_buffer b))], bb_counter := 1, bb_last_key := key\<rparr>"
      using False i by (simp add: BlockBuilder_Add_def PutVarint32_def)
    moreover have "ents_ok [] (es @ [(0, key, v)])" using i by (simp add: ents_ok_append)
    moreover have "restarts_ok (es @ [(0, key, v)]) (rs @ [length es])" using i ne restarts_append(2) by auto
    moreover have "off (es @ [(0, key, v)]) (length es) = length (ents_bytes es)" by (simp add: off_def)
    ultimately have "builder_inv (es @ [(0, key, v)]) (rs @ [length es]) (BlockBuilder_Add key v b)"
      using i mo [of "[(0, key, v)]"] by (simp add: builder_inv_def last_key_def)
    then show ?thesis by blast
  qed
qed

definition build_block :: "nat \<Rightarrow> (slice \<times> slice) list \<Rightarrow> slice" where
  "build_block k kvs = fst (BlockBuilder_Finish (fold (\<lambda>(key, v). BlockBuilder_Add key v) kvs (new_BlockBuilder k)))"

lemma fold_builder_inv:
  "builder_inv es rs b \<Longrightarrow> \<exists>es' rs'. map snd es' = map snd es @ kvs \<and>
     builder_inv es' rs' (fold (\<lambda>(key, v). BlockBuilder_Add key v) kvs b)"
proof (induction kvs arbitrary: es rs b)
  case (Cons kv kvs)
  obtain key v where kv: "kv = (key, v)" by (metis prod.exhaust)
  obtain s rs' where "builder_inv (es @ [(s, key, v)]) rs' (BlockBuilder_Add key v b)"
    using Add_builder_inv [OF Cons.prems] by blast
  from Cons.IH [OF this] show ?case by (auto simp: kv)
qed auto

lemma Finish_layout: "builder_inv es rs b \<Longrightarrow> block_layout es rs (fst (BlockBuilder_Finish b))"
  by (simp add: builder_inv_def block_layout_def BlockBuilder_Finish_def Let_def fold_PutFixed32 comp_def)
    (simp add: PutFixed32_def)

lemma build_block_layout:
  assumes "1 \<le> k"
  shows "\<exists>es rs. map snd es = kvs \<and> block_layout es rs (build_block k kvs)"
proof -
  obtain es rs where "map snd es = kvs"
    "builder_inv es rs (fold (\<lambda>(key, v). BlockBuilder_Add key v) kvs (new_BlockBuilder k))"
    using fold_builder_inv [OF new_builder_inv [OF assms], of kvs] by auto
  then show ?thesis using Finish_layout unfolding build_block_def by blast
qed

end
