(* ===== verification/LdbIterator.thy ===== *)
theory LdbIterator
  imports LdbStatus LdbComparator "HOL-Library.Monad_Syntax"
begin

text \<open>
  \<open>include/leveldb/iterator.h\<close> and \<open>table/iterator.cc\<close>. An \<open>Iterator\<close> is a record of operations on a
  state of any type; a move that does not return, or that leaves C's defined behaviour, is None.
  The contract \<open>iterator_on\<close> says what the comments of the header promise of an iterator over the
  entries \<open>es\<close>: \<open>on it i\<close> means that it stands at the i-th entry, or behind the last one.
\<close>

record 'i Iterator =
  it_Valid :: "'i \<Rightarrow> bool"
  it_SeekToFirst :: "'i \<Rightarrow> 'i option"
  it_SeekToLast :: "'i \<Rightarrow> 'i option"
  it_Seek :: "slice \<Rightarrow> 'i \<Rightarrow> 'i option"
  it_Next :: "'i \<Rightarrow> 'i option"
  it_Prev :: "'i \<Rightarrow> 'i option"
  it_key :: "'i \<Rightarrow> slice"
  it_value :: "'i \<Rightarrow> slice"
  it_status :: "'i \<Rightarrow> Status"

text \<open>The index of the first entry at or past a target, or the number of entries.\<close>

definition first_at_or_past :: "(slice \<Rightarrow> slice \<Rightarrow> int) \<Rightarrow> slice \<Rightarrow> (slice \<times> slice) list \<Rightarrow> nat" where
  "first_at_or_past cmp target es = length (takeWhile (\<lambda>e. cmp (fst e) target < 0) es)"

locale iterator_on =
  fixes I :: "'i Iterator" and cmp :: "slice \<Rightarrow> slice \<Rightarrow> int" and target_ok :: "slice \<Rightarrow> bool"
    and es :: "(slice \<times> slice) list" and ready :: "'i \<Rightarrow> bool" and on :: "'i \<Rightarrow> nat \<Rightarrow> bool"
  assumes on_ready: "on it i \<Longrightarrow> ready it \<and> i \<le> length es"
    and on_valid: "on it i \<Longrightarrow> it_Valid I it \<longleftrightarrow> i < length es"
    and on_entry: "on it i \<Longrightarrow> i < length es \<Longrightarrow> (it_key I it, it_value I it) = es ! i"
    and on_status: "on it i \<Longrightarrow> it_status I it = OK"
    and seek_to_first: "ready it \<Longrightarrow> \<exists>it'. it_SeekToFirst I it = Some it' \<and> on it' 0"
    and seek_to_last: "ready it \<Longrightarrow> \<exists>it'. it_SeekToLast I it = Some it' \<and>
      on it' (if es = [] then 0 else length es - 1)"
    and seek: "ready it \<Longrightarrow> target_ok t \<Longrightarrow> \<exists>it'. it_Seek I t it = Some it' \<and> on it' (first_at_or_past cmp t es)"
    and move_next: "on it i \<Longrightarrow> i < length es \<Longrightarrow> \<exists>it'. it_Next I it = Some it' \<and> on it' (i + 1)"
    and move_prev: "on it i \<Longrightarrow> i < length es \<Longrightarrow> \<exists>it'. it_Prev I it = Some it' \<and>
      on it' (if i = 0 then length es else i - 1)"

text \<open>A client's loop \<open>for (it->SeekToFirst(); it->Valid(); it->Next())\<close>, of at most \<open>n\<close> rounds.\<close>

primrec scan_from :: "'i Iterator \<Rightarrow> nat \<Rightarrow> 'i \<Rightarrow> ((slice \<times> slice) list \<times> 'i) option" where
  "scan_from I 0 it = Some ([], it)"
| "scan_from I (Suc n) it =
     (if it_Valid I it then do {
        it' \<leftarrow> it_Next I it;
        (es, it'') \<leftarrow> scan_from I n it';
        Some ((it_key I it, it_value I it) # es, it'') }
      else Some ([], it))"

context iterator_on
begin

lemma scan_from_on:
  "on it i \<Longrightarrow> length es < n + i \<Longrightarrow> \<exists>it'. scan_from I n it = Some (drop i es, it') \<and> on it' (length es)"
proof (induction n arbitrary: it i)
  case 0
  then show ?case using on_ready [OF "0.prems"(1)] by simp
next
  case (Suc n)
  show ?case
  proof (cases "i < length es")
    case True
    obtain it1 where it1: "it_Next I it = Some it1" "on it1 (i + 1)" using move_next [OF Suc.prems(1) True] by blast
    obtain it2 where "scan_from I n it1 = Some (drop (i + 1) es, it2)" "on it2 (length es)"
      using Suc.IH [OF it1(2)] Suc.prems(2) by auto
    then show ?thesis
      using on_valid [OF Suc.prems(1)] on_entry [OF Suc.prems(1) True] True it1(1)
      by (simp add: Cons_nth_drop_Suc)
  next
    case False
    then have "i = length es" using on_ready [OF Suc.prems(1)] by simp
    then show ?thesis using on_valid [OF Suc.prems(1)] Suc.prems(1) by simp
  qed
qed

lemma scan_all:
  assumes "ready it"
  shows "\<exists>it1 it2. it_SeekToFirst I it = Some it1 \<and> scan_from I (length es + 1) it1 = Some (es, it2) \<and>
    \<not> it_Valid I it2 \<and> it_status I it2 = OK"
proof -
  obtain it1 where 1: "it_SeekToFirst I it = Some it1" "on it1 0" using seek_to_first [OF assms] by blast
  then show ?thesis using scan_from_on [OF 1(2), of "length es + 1"] on_valid on_status by fastforce
qed

end

section \<open>The empty iterator\<close>

text \<open>Its state is the status. \<open>assert(false)\<close> is None; \<open>key\<close> and \<open>value\<close> return an empty slice behind theirs.\<close>

definition EmptyIterator :: "Status Iterator" where
  "EmptyIterator = \<lparr>it_Valid = (\<lambda>s. False), it_SeekToFirst = Some, it_SeekToLast = Some,
     it_Seek = (\<lambda>t. Some), it_Next = (\<lambda>s. None), it_Prev = (\<lambda>s. None),
     it_key = (\<lambda>s. []), it_value = (\<lambda>s. []), it_status = (\<lambda>s. s)\<rparr>"

definition NewEmptyIterator :: Status where
  "NewEmptyIterator = OK"

definition NewErrorIterator :: "Status \<Rightarrow> Status" where
  "NewErrorIterator status = status"

interpretation empty_iterator: iterator_on EmptyIterator cmp "\<lambda>t. True" "[]" "\<lambda>s. s = NewEmptyIterator"
    "\<lambda>s i. s = NewEmptyIterator \<and> i = 0" for cmp
  by unfold_locales (auto simp: EmptyIterator_def NewEmptyIterator_def first_at_or_past_def)

end
