(* ===== verification/LdbBlock.thy ===== *)
theory LdbBlock
  imports LdbBlockBuilder LdbIterator
begin

text \<open>
  \<open>table/block.h\<close> and \<open>table/block.cc\<close>: a block and its iterator, which searches the restart points and
  rebuilds the keys from their shared prefixes. A pointer into the block is an offset; a read behind
  the entries is undefined behaviour and None.
\<close>

section \<open>Blocks\<close>

record Block =
  bk_data :: "byte list"
  bk_size :: nat
  bk_restart_offset :: u32

definition NumRestarts :: "byte list \<Rightarrow> nat \<Rightarrow> u32" where
  "NumRestarts data sz = DecodeFixed32 (drop (sz - 4) data)"

definition new_Block :: "slice \<Rightarrow> Block" where
  "new_Block contents =
     (let sz = length contents in
      if sz < 4 then \<lparr>bk_data = contents, bk_size = 0, bk_restart_offset = 0\<rparr>
      else
        (let max_restarts_allowed = (sz - 4) div 4 in
         if unat (NumRestarts contents sz) > max_restarts_allowed
         then \<lparr>bk_data = contents, bk_size = 0, bk_restart_offset = 0\<rparr>
         else \<lparr>bk_data = contents, bk_size = sz,
           bk_restart_offset = word_of_nat (sz - unat (1 + NumRestarts contents sz) * 4)\<rparr>))"

text \<open>The bytes from \<open>p\<close> to \<open>limit\<close> are given; the result has the three numbers and the bytes behind them.\<close>

definition DecodeEntry :: "byte list \<Rightarrow> (u32 \<times> u32 \<times> u32 \<times> byte list) option" where
  "DecodeEntry p =
     (if length p < 3 then None
      else
        (let shared = ucast (p ! 0) :: u32; non_shared = ucast (p ! 1) :: u32; value_length = ucast (p ! 2) :: u32 in
         case (if (shared OR non_shared OR value_length) < 128 then Some (shared, non_shared, value_length, drop 3 p)
               else
                 (case GetVarint32Ptr p of
                    None \<Rightarrow> None
                  | Some (sh, p1) \<Rightarrow>
                      (case GetVarint32Ptr p1 of
                         None \<Rightarrow> None
                       | Some (ns, p2) \<Rightarrow>
                           (case GetVarint32Ptr p2 of None \<Rightarrow> None | Some (vl, p3) \<Rightarrow> Some (sh, ns, vl, p3))))) of
           None \<Rightarrow> None
         | Some (sh, ns, vl, q) \<Rightarrow> if (word_of_nat (length q) :: u32) < ns + vl then None else Some (sh, ns, vl, q)))"

section \<open>The iterator\<close>

text \<open>\<open>value_\<close> is its offset in the block and its bytes; a cleared one is at offset 0.\<close>

record BlockIter =
  bi_data :: "byte list"
  bi_restarts :: u32
  bi_num_restarts :: u32
  bi_current :: u32
  bi_restart_index :: u32
  bi_key :: "byte list"
  bi_value :: "nat \<times> slice"
  bi_status :: Status

definition new_BlockIter :: "byte list \<Rightarrow> u32 \<Rightarrow> u32 \<Rightarrow> BlockIter" where
  "new_BlockIter data restarts num_restarts =
     \<lparr>bi_data = data, bi_restarts = restarts, bi_num_restarts = num_restarts, bi_current = restarts,
      bi_restart_index = num_restarts, bi_key = [], bi_value = (0, []), bi_status = OK\<rparr>"

definition NextEntryOffset :: "BlockIter \<Rightarrow> u32" where
  "NextEntryOffset it = word_of_nat (fst (bi_value it) + length (snd (bi_value it)))"

definition GetRestartPoint :: "BlockIter \<Rightarrow> u32 \<Rightarrow> u32" where
  "GetRestartPoint it index = DecodeFixed32 (drop (unat (bi_restarts it) + unat index * 4) (bi_data it))"

definition SeekToRestartPoint :: "u32 \<Rightarrow> BlockIter \<Rightarrow> BlockIter" where
  "SeekToRestartPoint index it =
     it\<lparr>bi_key := [], bi_restart_index := index, bi_value := (unat (GetRestartPoint it index), [])\<rparr>"

definition CorruptionError :: "BlockIter \<Rightarrow> BlockIter" where
  "CorruptionError it =
     it\<lparr>bi_current := bi_restarts it, bi_restart_index := bi_num_restarts it,
       bi_status := Corruption (lit ''bad entry in block'') [], bi_key := [], bi_value := (0, [])\<rparr>"

lemma unat_suc: "x < (y :: u32) \<Longrightarrow> unat (x + 1) = unat x + 1"
  using unat_u32_less [of y] by (simp add: word_less_nat_alt unat_word_ariths)

text \<open>The loop at the end of \<open>ParseNextKey\<close>.\<close>

function advance_restart :: "BlockIter \<Rightarrow> BlockIter" where
  "advance_restart it =
     (if bi_restart_index it + 1 < bi_num_restarts it \<and>
         GetRestartPoint it (bi_restart_index it + 1) < bi_current it
      then advance_restart (it\<lparr>bi_restart_index := bi_restart_index it + 1\<rparr>) else it)"
  by pat_completeness auto
termination
proof (relation "measure (\<lambda>it. unat (bi_num_restarts it) - unat (bi_restart_index it + 1))", goal_cases)
  case 1
  show ?case by simp
next
  case (2 it)
  then have l: "bi_restart_index it + 1 < bi_num_restarts it" by blast
  have "unat (bi_restart_index it + 1 + 1) = unat (bi_restart_index it + 1) + 1" by (rule unat_suc [OF l])
  moreover have "unat (bi_restart_index it + 1) < unat (bi_num_restarts it)" using l by (simp add: word_less_nat_alt)
  moreover have "bi_restart_index (it\<lparr>bi_restart_index := x\<rparr>) = x"
    "bi_num_restarts (it\<lparr>bi_restart_index := x\<rparr>) = bi_num_restarts it" for x by simp_all
  ultimately show ?case unfolding in_measure by (simp only:)
qed

declare advance_restart.simps [simp del]

definition ParseNextKey :: "BlockIter \<Rightarrow> (bool \<times> BlockIter) option" where
  "ParseNextKey it =
     (let it1 = it\<lparr>bi_current := NextEntryOffset it\<rparr>; cur = bi_current it1 in
      if cur \<ge> bi_restarts it
      then Some (False, it1\<lparr>bi_current := bi_restarts it, bi_restart_index := bi_num_restarts it\<rparr>)
      else
        (let p = take (unat (bi_restarts it) - unat cur) (drop (unat cur) (bi_data it)) in
         case DecodeEntry p of
           None \<Rightarrow> Some (False, CorruptionError it1)
         | Some (shared, non_shared, value_length, q) \<Rightarrow>
             if length (bi_key it1) < unat shared then Some (False, CorruptionError it1)
             else if length q < unat non_shared + unat value_length then None
             else Some (True, advance_restart
               (it1\<lparr>bi_key := take (unat shared) (bi_key it1) @ take (unat non_shared) q,
                  bi_value := (unat (bi_restarts it) - length q + unat non_shared,
                    take (unat value_length) (drop (unat non_shared) q))\<rparr>))))"

text \<open>\<open>while (ParseNextKey() && NextEntryOffset() < bound)\<close>\<close>

partial_function (option) parse_until :: "u32 \<Rightarrow> BlockIter \<Rightarrow> BlockIter option" where
  "parse_until bound it = do {
     (b, it1) \<leftarrow> ParseNextKey it;
     if b \<and> NextEntryOffset it1 < bound then parse_until bound it1 else Some it1 }"

lemma unat_pred: "x \<noteq> (0 :: u32) \<Longrightarrow> unat (x - 1) < unat x"
  by (simp add: unat_minus_one unat_gt_0)

text \<open>The scan backwards of \<open>Prev\<close>; None when there are no more entries.\<close>

function restart_before :: "BlockIter \<Rightarrow> u32 \<Rightarrow> u32 \<Rightarrow> u32 option" where
  "restart_before it original index =
     (if GetRestartPoint it index \<ge> original then
        (if index = 0 then None else restart_before it original (index - 1))
      else Some index)"
  by pat_completeness auto
termination
  by (relation "measure (\<lambda>(it, original, index). unat index)") (auto simp: unat_pred)

declare restart_before.simps [simp del]

definition BlockIter_Prev :: "BlockIter \<Rightarrow> BlockIter option" where
  "BlockIter_Prev it =
     (let original = bi_current it in
      case restart_before it original (bi_restart_index it) of
        None \<Rightarrow> Some (it\<lparr>bi_current := bi_restarts it, bi_restart_index := bi_num_restarts it\<rparr>)
      | Some index \<Rightarrow> parse_until original (SeekToRestartPoint index it))"

definition BlockIter_Next :: "BlockIter \<Rightarrow> BlockIter option" where
  "BlockIter_Next it = do { (b, it1) \<leftarrow> ParseNextKey it; Some it1 }"

text \<open>The binary search; \<open>Inl\<close> for a corrupted entry.\<close>

partial_function (option) search_restarts ::
    "Comparator \<Rightarrow> BlockIter \<Rightarrow> slice \<Rightarrow> u32 \<Rightarrow> u32 \<Rightarrow> (unit + u32) option" where
  "search_restarts C it target left right =
     (if left < right then
        (let mid = (left + right + 1) div 2;
             region_offset = GetRestartPoint it mid
         in case DecodeEntry (take (unat (bi_restarts it) - unat region_offset) (drop (unat region_offset) (bi_data it))) of
              None \<Rightarrow> Some (Inl ())
            | Some (shared, non_shared, value_length, q) \<Rightarrow>
                if shared \<noteq> 0 then Some (Inl ())
                else if length q < unat non_shared then None
                else if cmp_Compare C (take (unat non_shared) q) target < 0
                then search_restarts C it target mid right
                else search_restarts C it target left (mid - 1))
      else Some (Inr left))"

partial_function (option) search_linear :: "Comparator \<Rightarrow> slice \<Rightarrow> BlockIter \<Rightarrow> BlockIter option" where
  "search_linear C target it = do {
     (b, it1) \<leftarrow> ParseNextKey it;
     if \<not> b then Some it1
     else if cmp_Compare C (bi_key it1) target \<ge> 0 then Some it1
     else search_linear C target it1 }"

definition BlockIter_Seek :: "Comparator \<Rightarrow> slice \<Rightarrow> BlockIter \<Rightarrow> BlockIter option" where
  "BlockIter_Seek C target it =
     (case search_restarts C it target 0 (bi_num_restarts it - 1) of
        None \<Rightarrow> None
      | Some (Inl _) \<Rightarrow> Some (CorruptionError it)
      | Some (Inr left) \<Rightarrow> search_linear C target (SeekToRestartPoint left it))"

definition BlockIter_SeekToFirst :: "BlockIter \<Rightarrow> BlockIter option" where
  "BlockIter_SeekToFirst it = do { (b, it1) \<leftarrow> ParseNextKey (SeekToRestartPoint 0 it); Some it1 }"

definition BlockIter_SeekToLast :: "BlockIter \<Rightarrow> BlockIter option" where
  "BlockIter_SeekToLast it = parse_until (bi_restarts it) (SeekToRestartPoint (bi_num_restarts it - 1) it)"

definition BlockIter_Valid :: "BlockIter \<Rightarrow> bool" where
  "BlockIter_Valid it \<longleftrightarrow> bi_current it < bi_restarts it"

definition block_iterator :: "Comparator \<Rightarrow> BlockIter Iterator" where
  "block_iterator C = \<lparr>it_Valid = BlockIter_Valid, it_SeekToFirst = BlockIter_SeekToFirst,
     it_SeekToLast = BlockIter_SeekToLast, it_Seek = BlockIter_Seek C, it_Next = BlockIter_Next,
     it_Prev = BlockIter_Prev, it_key = bi_key, it_value = (\<lambda>it. snd (bi_value it)), it_status = bi_status\<rparr>"

text \<open>The empty iterator, with its status, or an iterator over the block.\<close>

definition Block_NewIterator :: "Block \<Rightarrow> Status + BlockIter" where
  "Block_NewIterator b =
     (if bk_size b < 4 then Inl (NewErrorIterator (Corruption (lit ''bad block contents'') []))
      else
        (let num_restarts = NumRestarts (bk_data b) (bk_size b) in
         if num_restarts = 0 then Inl NewEmptyIterator
         else Inr (new_BlockIter (bk_data b) (bk_restart_offset b) num_restarts)))"

end
