(* ===== verification/LdbBlockIter.thy ===== *)
theory LdbBlockIter
  imports LdbBlock
begin

text \<open>
  The iterator on a block of the layout the builder makes keeps the contract of \<open>LdbIterator\<close>: it
  visits the entries in order, both ways, and \<open>Seek\<close> finds the first entry at or past its target.
\<close>

section \<open>An entry is decoded\<close>

lemma small_or: "(x OR y < (128 :: u32)) \<longleftrightarrow> x < 128 \<and> y < 128"
proof -
  have d: "w < 128 \<longleftrightarrow> drop_bit 7 w = 0" for w :: u32
  proof -
    have "drop_bit 7 w = 0 \<longleftrightarrow> unat w div 128 = 0"
      by (simp add: word_unat_eq_iff drop_bit_eq_div unat_div)
    then show ?thesis by (simp add: word_less_nat_alt div_eq_0_iff)
  qed
  have z: "a OR b = 0 \<longleftrightarrow> a = 0 \<and> b = 0" for a b :: u32
    by (auto simp: bit_eq_iff bit_simps)
  show ?thesis by (simp add: d z)
qed

lemma GetVarint32_small:
  assumes "(ucast b :: u32) < 128"
  shows "GetVarint32 (b # p) = Some (ucast b, p)"
proof -
  have "unat (ucast b :: u32) = unat b"
    using unsigned_less [of b, where ?'a = nat] by (simp add: unsigned_ucast_eq take_bit_nat_eq_self)
  then have "unat b < 2 ^ 7" using assms by (simp add: word_less_nat_alt)
  then have "take_bit 7 (unat b) = unat b" by (rule take_bit_nat_eq_self)
  then have "\<not> bit (unat b) 7" by (metis bit_take_bit_iff less_irrefl)
  then have "\<not> bit b 7" by (simp add: bit_unsigned_iff)
  then show ?thesis by (simp add: GetVarint32_loop and_80)
qed

text \<open>The fast path decodes what the slow one does.\<close>

definition decode3 :: "byte list \<Rightarrow> (u32 \<times> u32 \<times> u32 \<times> byte list) option" where
  "decode3 p = (case GetVarint32 p of None \<Rightarrow> None | Some (sh, p1) \<Rightarrow>
     (case GetVarint32 p1 of None \<Rightarrow> None | Some (ns, p2) \<Rightarrow>
       (case GetVarint32 p2 of None \<Rightarrow> None | Some (vl, p3) \<Rightarrow> Some (sh, ns, vl, p3))))"

lemma DecodeEntry_eq:
  assumes "3 \<le> length p"
  shows "DecodeEntry p = (case decode3 p of None \<Rightarrow> None
    | Some (sh, ns, vl, q) \<Rightarrow> if (word_of_nat (length q) :: u32) < ns + vl then None else Some (sh, ns, vl, q))"
proof -
  obtain a b c q where p: "p = a # b # c # q"
    using assms by (auto simp: numeral_3_eq_3 Suc_le_length_iff)
  show ?thesis
  proof (cases "(ucast a OR ucast b OR ucast c :: u32) < 128")
    case True
    then have "decode3 p = Some (ucast a, ucast b, ucast c, q)"
      by (simp add: decode3_def p GetVarint32_small small_or)
    then show ?thesis using True by (simp add: DecodeEntry_def p)
  next
    case False
    then show ?thesis
      unfolding DecodeEntry_def decode3_def GetVarint32Ptr_eq Let_def by (simp add: p)
  qed
qed

lemma unat_small: "n < 2 ^ 32 \<Longrightarrow> unat (word_of_nat n :: u32) = n"
  by (simp add: unat_of_nat)

lemma DecodeEntry_ent:
  assumes "s \<le> length k" and "length (ent_bytes (s, k, v) @ r) < 2 ^ 32"
  shows "DecodeEntry (ent_bytes (s, k, v) @ r) =
    Some (word_of_nat s, word_of_nat (length k - s), word_of_nat (length v), drop s k @ v @ r)"
proof -
  have "3 \<le> length (ent_bytes (s, k, v) @ r)" using length_ent_bytes [of "(s, k, v)"] by simp
  moreover have "decode3 (ent_bytes (s, k, v) @ r) =
      Some (word_of_nat s, word_of_nat (length k - s), word_of_nat (length v), drop s k @ v @ r)"
    by (simp add: decode3_def varint32.get_enc)
  moreover have "\<not> (word_of_nat (length (drop s k @ v @ r)) :: u32) < word_of_nat (length k - s) + word_of_nat (length v)"
  proof -
    have l: "length (drop s k @ v @ r) < 2 ^ 32" "length k - s + length v < 2 ^ 32" using assms by simp_all
    have "word_of_nat (length k - s) + word_of_nat (length v) = (word_of_nat (length k - s + length v) :: u32)"
      by simp
    then show ?thesis using l by (simp only: word_less_nat_alt unat_small) simp
  qed
  ultimately show ?thesis by (simp add: DecodeEntry_eq)
qed

section \<open>The iterator on a layout\<close>

definition block_fits :: "ent list \<Rightarrow> nat list \<Rightarrow> byte list \<Rightarrow> bool" where
  "block_fits es rs data \<longleftrightarrow> block_layout es rs data \<and> length data < 2 ^ 32"

definition frame :: "ent list \<Rightarrow> nat list \<Rightarrow> byte list \<Rightarrow> BlockIter \<Rightarrow> bool" where
  "frame es rs data it \<longleftrightarrow> bi_data it = data \<and> unat (bi_restarts it) = off es (length es) \<and>
     unat (bi_num_restarts it) = length rs \<and> bi_status it = OK"

text \<open>A restart index that is good enough for position \<open>i\<close>.\<close>

definition index_ok :: "nat list \<Rightarrow> nat \<Rightarrow> nat \<Rightarrow> bool" where
  "index_ok rs j i \<longleftrightarrow> j < length rs \<and> rs ! j \<le> i \<and> (j + 1 < length rs \<longrightarrow> i \<le> rs ! (j + 1))"

text \<open>Standing at entry \<open>i\<close>.\<close>

definition at_entry :: "ent list \<Rightarrow> nat list \<Rightarrow> byte list \<Rightarrow> BlockIter \<Rightarrow> nat \<Rightarrow> bool" where
  "at_entry es rs data it i \<longleftrightarrow> frame es rs data it \<and> i \<le> length es \<and>
     (if i < length es
      then unat (bi_current it) = off es i \<and> bi_key it = fst (snd (es ! i)) \<and>
        bi_value it = (off es (Suc i) - length (snd (snd (es ! i))), snd (snd (es ! i))) \<and>
        index_ok rs (unat (bi_restart_index it)) i
      else bi_current it = bi_restarts it)"

text \<open>Standing where \<open>ParseNextKey\<close> reads entry \<open>i\<close>.\<close>

definition before_entry :: "ent list \<Rightarrow> nat list \<Rightarrow> byte list \<Rightarrow> BlockIter \<Rightarrow> nat \<Rightarrow> bool" where
  "before_entry es rs data it i \<longleftrightarrow> frame es rs data it \<and> i \<le> length es \<and>
     fst (bi_value it) + length (snd (bi_value it)) = off es i \<and>
     unat (bi_restart_index it) < length rs \<and> rs ! unat (bi_restart_index it) \<le> i \<and>
     (i < length es \<longrightarrow> fst (es ! i) \<le> length (bi_key it) \<and>
       take (fst (es ! i)) (bi_key it) = take (fst (es ! i)) (fst (snd (es ! i))))"

lemma layout_lengths:
  assumes "block_fits es rs data"
  shows "off es (length es) < 2 ^ 32" "length rs < 2 ^ 30" "i \<le> length es \<Longrightarrow> off es i \<le> off es (length es)"
proof -
  have "length data = off es (length es) + 4 * length rs + 4"
    using assms by (simp add: block_fits_def block_layout_def off_def)
  then show "off es (length es) < 2 ^ 32" "length rs < 2 ^ 30" using assms by (simp_all add: block_fits_def)
  show "i \<le> length es \<Longrightarrow> off es i \<le> off es (length es)" by (simp add: off_le_iff)
qed

lemma restart_bound: "restarts_ok es rs \<Longrightarrow> j < length rs \<Longrightarrow> rs ! j \<le> length es"
  by (fastforce simp: restarts_ok_def max_def dest: nth_mem split: if_splits)

lemma restart_point:
  assumes "block_fits es rs data" and "frame es rs data it" and "unat j < length rs"
  shows "unat (GetRestartPoint it j) = off es (rs ! unat j)"
proof -
  have l: "block_layout es rs data" using assms(1) by (simp add: block_fits_def)
  let ?tail = "concat (map (\<lambda>r. EncodeFixed32 (word_of_nat (off es r))) rs) @ EncodeFixed32 (word_of_nat (length rs))"
  have "data = ents_bytes es @ ?tail" using l by (simp add: block_layout_def)
  moreover have "off es (length es) = length (ents_bytes es)" by (simp add: off_def)
  ultimately have "drop (off es (length es) + unat j * 4) data =
      EncodeFixed32 (word_of_nat (off es (rs ! unat j))) @ drop (Suc (unat j) * 4) ?tail"
    using drop_EncodeFixed32s [OF assms(3), of "\<lambda>r. word_of_nat (off es r)" "EncodeFixed32 (word_of_nat (length rs))"] by simp
  then have "GetRestartPoint it j = word_of_nat (off es (rs ! unat j))"
    using assms(2) by (simp add: GetRestartPoint_def frame_def DecodeFixed32_Encode)
  moreover have "off es (rs ! unat j) < 2 ^ 32"
    using layout_lengths [OF assms(1)] restart_bound [of es rs "unat j"] assms(3) l
    by (meson block_layout_def order_le_less_trans)
  ultimately show ?thesis by (simp add: unat_small)
qed

lemma frame_update [simp]:
  "frame es rs data (it\<lparr>bi_restart_index := x\<rparr>) = frame es rs data it"
  "frame es rs data (it\<lparr>bi_current := y\<rparr>) = frame es rs data it"
  "frame es rs data (it\<lparr>bi_key := k\<rparr>) = frame es rs data it"
  "frame es rs data (it\<lparr>bi_value := v\<rparr>) = frame es rs data it"
  by (simp_all add: frame_def)

lemma advance_restart_ok:
  assumes fits: "block_fits es rs data"
  shows "frame es rs data it \<Longrightarrow> unat (bi_current it) = off es i \<Longrightarrow> i \<le> length es \<Longrightarrow>
    unat (bi_restart_index it) < length rs \<Longrightarrow> rs ! unat (bi_restart_index it) \<le> i \<Longrightarrow>
    \<exists>j. advance_restart it = it\<lparr>bi_restart_index := j\<rparr> \<and> index_ok rs (unat j) i"
proof (induction it rule: advance_restart.induct)
  case (1 it)
  let ?j = "bi_restart_index it"
  have ok: "restarts_ok es rs" using fits by (simp add: block_fits_def block_layout_def)
  have n: "?j + 1 < bi_num_restarts it \<longleftrightarrow> unat ?j + 1 < length rs"
  proof
    assume "unat ?j + 1 < length rs"
    then have "unat (?j + 1) = unat ?j + 1" using layout_lengths(2) [OF fits] by (simp add: unat_word_ariths)
    then show "?j + 1 < bi_num_restarts it"
      using \<open>unat ?j + 1 < length rs\<close> "1.prems"(1) by (simp add: word_less_nat_alt frame_def)
  next
    assume l: "?j + 1 < bi_num_restarts it"
    have "unat (?j + 1) = unat ?j + 1"
      using "1.prems"(4) layout_lengths(2) [OF fits] by (simp add: unat_word_ariths)
    then show "unat ?j + 1 < length rs" using l "1.prems"(1) by (simp add: word_less_nat_alt frame_def)
  qed
  show ?case
  proof (cases "unat ?j + 1 < length rs \<and> rs ! (unat ?j + 1) < i")
    case True
    then have u: "unat (?j + 1) = unat ?j + 1" using layout_lengths(2) [OF fits] by (simp add: unat_word_ariths)
    have "GetRestartPoint it (?j + 1) < bi_current it"
      using restart_point [OF fits "1.prems"(1), of "?j + 1"] True "1.prems"(2,3)
        restart_bound [OF ok, of "unat ?j + 1"]
      by (simp add: u word_less_nat_alt off_less_iff)
    then have c: "?j + 1 < bi_num_restarts it \<and> GetRestartPoint it (?j + 1) < bi_current it" using n True by blast
    obtain j' where "advance_restart (it\<lparr>bi_restart_index := ?j + 1\<rparr>) = it\<lparr>bi_restart_index := j'\<rparr>"
      "index_ok rs (unat j') i"
      using "1.IH" [OF c] "1.prems" True u by auto
    then show ?thesis using c by (subst advance_restart.simps) auto
  next
    case False
    have stop: "\<not> (?j + 1 < bi_num_restarts it \<and> GetRestartPoint it (?j + 1) < bi_current it)"
    proof
      assume c: "?j + 1 < bi_num_restarts it \<and> GetRestartPoint it (?j + 1) < bi_current it"
      then have j: "unat ?j + 1 < length rs" using n by blast
      then have u: "unat (?j + 1) = unat ?j + 1" using layout_lengths(2) [OF fits] by (simp add: unat_word_ariths)
      have "rs ! (unat ?j + 1) < i"
        using c restart_point [OF fits "1.prems"(1), of "?j + 1"] j "1.prems"(2,3)
          restart_bound [OF ok, of "unat ?j + 1"]
        by (simp add: u word_less_nat_alt off_less_iff)
      then show False using False j by blast
    qed
    have "advance_restart it = it" unfolding advance_restart.simps [of it] by (rule if_not_P [OF stop])
    then show ?thesis using False "1.prems"(4,5) by (intro exI [of _ ?j]) (auto simp: index_ok_def)
  qed
qed


section \<open>One step of the parser\<close>

definition key_at :: "ent list \<Rightarrow> nat \<Rightarrow> slice" where
  "key_at es i = fst (snd (es ! i))"

lemma ents_ok_nth:
  "ents_ok prev es \<Longrightarrow> i < length es \<Longrightarrow>
     (let before = (if i = 0 then prev else key_at es (i - 1)); s = fst (es ! i) in
      s \<le> length (key_at es i) \<and> s \<le> length before \<and> take s (key_at es i) = take s before)"
proof (induction prev es arbitrary: i rule: ents_ok.induct)
  case (2 prev s k v es)
  show ?case
  proof (cases i)
    case (Suc j)
    then have "j < length es" using "2.prems" by simp
    with 2 have "let before = (if j = 0 then k else key_at es (j - 1)); s = fst (es ! j) in
      s \<le> length (key_at es j) \<and> s \<le> length before \<and> take s (key_at es j) = take s before" by simp
    then show ?thesis by (cases j) (simp_all add: Suc key_at_def)
  qed (use "2.prems" in \<open>simp add: key_at_def\<close>)
qed simp

lemma length_key_at: "ents_ok prev es \<Longrightarrow> i < length es \<Longrightarrow> length (key_at es i) \<le> length prev + off es (Suc i)"
proof (induction prev es arbitrary: i rule: ents_ok.induct)
  case (2 prev s k v es)
  have "length (drop s k) \<le> length (ent_bytes (s, k, v))" by (simp del: length_drop)
  then have "length k - s \<le> length (ent_bytes (s, k, v))" by (simp only: length_drop)
  moreover have "s \<le> length prev" using "2.prems" by simp
  ultimately have "length k \<le> length prev + length (ent_bytes (s, k, v))" by linarith
  then show ?case
    using "2.IH" [of "i - 1"] "2.prems" by (cases i) (auto simp: key_at_def off_def simp del: ent_bytes.simps)
qed simp

lemma ent_at:
  assumes "block_layout es rs data" and "i < length es"
  shows "take (off es (length es) - off es i) (drop (off es i) data) =
    ent_bytes (es ! i) @ drop (off es (Suc i)) (ents_bytes es)"
proof -
  obtain tail where "data = ents_bytes es @ tail" using assms(1) by (auto simp: block_layout_def)
  moreover have "off es (length es) = length (ents_bytes es)" by (simp add: off_def)
  moreover have "off es i \<le> off es (length es)" using assms(2) by (simp add: off_le_iff)
  ultimately have "take (off es (length es) - off es i) (drop (off es i) data) = drop (off es i) (ents_bytes es @ [])"
    by simp
  then show ?thesis using drop_off [OF assms(2), of "[]"] by simp
qed

lemma DecodeEntry_at:
  assumes fits: "block_fits es rs data" and i: "i < length es" and e: "es ! i = (s, k, v)"
  shows "\<exists>q. DecodeEntry (take (off es (length es) - off es i) (drop (off es i) data)) =
      Some (word_of_nat s, word_of_nat (length k - s), word_of_nat (length v), q) \<and>
    unat (word_of_nat s :: u32) = s \<and> unat (word_of_nat (length k - s) :: u32) = length k - s \<and>
    unat (word_of_nat (length v) :: u32) = length v \<and>
    take (length k - s) q = drop s k \<and> take (length v) (drop (length k - s) q) = v \<and>
    length k - s + length v \<le> length q \<and>
    off es (length es) - length q + (length k - s) = off es (Suc i) - length v"
proof -
  have l: "block_layout es rs data" and ok: "ents_ok [] es" using fits by (simp_all add: block_fits_def block_layout_def)
  have s: "s \<le> length k" using ents_ok_nth [OF ok i] by (simp add: e key_at_def Let_def)
  have n: "off es (length es) < 2 ^ 32" "off es (Suc i) \<le> off es (length es)"
    using layout_lengths [OF fits] i by simp_all
  have R: "off es (length es) = length (ents_bytes es)" by (simp add: off_def)
  have en: "length (drop s k @ v) \<le> length (ent_bytes (es ! i))" by (simp add: e)
  then have on: "length k - s + length v \<le> off es (Suc i)" using off_Suc [OF i] by simp
  have "length (ent_bytes (s, k, v) @ drop (off es (Suc i)) (ents_bytes es)) < 2 ^ 32"
    using n off_Suc [OF i] R by (simp add: e del: ent_bytes.simps)
  then have "DecodeEntry (ent_bytes (s, k, v) @ drop (off es (Suc i)) (ents_bytes es)) =
      Some (word_of_nat s, word_of_nat (length k - s), word_of_nat (length v), drop s k @ v @ drop (off es (Suc i)) (ents_bytes es))"
    by (rule DecodeEntry_ent [OF s])
  moreover have "s < 2 ^ 32" "length k - s < 2 ^ 32" "length v < 2 ^ 32"
    using length_key_at [OF ok i] s n on by (simp_all add: key_at_def e)
  ultimately show ?thesis
    unfolding ent_at [OF l i] e using n R on by (simp add: unat_small del: ent_bytes.simps)
qed


lemma next_entry_offset:
  assumes "block_fits es rs data" and "before_entry es rs data it i"
  shows "unat (NextEntryOffset it) = off es i"
proof -
  have "off es i < 2 ^ 32"
    using layout_lengths [OF assms(1)] assms(2) by (meson before_entry_def order_le_less_trans)
  then show ?thesis using assms(2) by (simp add: NextEntryOffset_def before_entry_def unat_small)
qed

lemma parse_at_end:
  assumes fits: "block_fits es rs data" and b: "before_entry es rs data it (length es)"
  shows "\<exists>it'. ParseNextKey it = Some (False, it') \<and> at_entry es rs data it' (length es)"
proof -
  have "NextEntryOffset it = bi_restarts it"
    using next_entry_offset [OF fits b] b by (simp add: before_entry_def frame_def word_unat_eq_iff)
  then show ?thesis using b by (simp add: ParseNextKey_def before_entry_def at_entry_def frame_def)
qed

lemma parse_entry:
  assumes fits: "block_fits es rs data" and b: "before_entry es rs data it i" and i: "i < length es"
  shows "\<exists>it'. ParseNextKey it = Some (True, it') \<and> at_entry es rs data it' i"
proof -
  obtain s k v where e: "es ! i = (s, k, v)" by (metis prod.exhaust)
  have ok: "ents_ok [] es" using fits by (simp add: block_fits_def block_layout_def)
  have s: "s \<le> length k" using ents_ok_nth [OF ok i] by (simp add: e key_at_def Let_def)
  have fr: "frame es rs data it" and sk: "s \<le> length (bi_key it)" "take s (bi_key it) = take s k"
    using b i by (simp_all add: before_entry_def e)
  let ?cur = "NextEntryOffset it"
  have cur: "unat ?cur = off es i" by (rule next_entry_offset [OF fits b])
  have R: "bi_data it = data" "unat (bi_restarts it) = off es (length es)" using fr by (simp_all add: frame_def)
  have lt: "\<not> bi_restarts it \<le> ?cur" using i by (simp add: word_le_nat_alt cur R(2) off_le_iff)
  obtain sh ns vl q where q: "DecodeEntry (take (unat (bi_restarts it) - unat ?cur) (drop (unat ?cur) (bi_data it))) =
      Some (sh, ns, vl, q)"
    "unat sh = s" "unat ns = length k - s" "unat vl = length v"
    "take (length k - s) q = drop s k" "take (length v) (drop (length k - s) q) = v"
    "length k - s + length v \<le> length q"
    "off es (length es) - length q + (length k - s) = off es (Suc i) - length v"
    using DecodeEntry_at [OF fits i e] unfolding cur R by blast
  define it1 where "it1 = it\<lparr>bi_current := ?cur, bi_key := k, bi_value := (off es (Suc i) - length v, v)\<rparr>"
  have key: "take s (bi_key it) @ drop s k = k" by (simp add: sk)
  have step: "ParseNextKey it = Some (True, advance_restart it1)"
    using lt sk(1) q(7) unfolding ParseNextKey_def Let_def it1_def
    by (simp add: q(1) cur [symmetric])
      (simp add: q(2-6) key R(2) q(8) not_less)
  have "frame es rs data it1" using fr by (simp add: frame_def it1_def)
  moreover have "unat (bi_current it1) = off es i" "i \<le> length es" using cur i by (simp_all add: it1_def)
  moreover have "unat (bi_restart_index it1) < length rs" "rs ! unat (bi_restart_index it1) \<le> i"
    using b by (simp_all add: before_entry_def it1_def)
  ultimately obtain j where j: "advance_restart it1 = it1\<lparr>bi_restart_index := j\<rparr>" "index_ok rs (unat j) i"
    using advance_restart_ok [OF fits] by blast
  have "at_entry es rs data (it1\<lparr>bi_restart_index := j\<rparr>) i"
    using \<open>frame es rs data it1\<close> i j(2) cur by (simp add: at_entry_def it1_def e)
  then show ?thesis using step j(1) by simp
qed

lemma length_value_at:
  assumes "i < length es"
  shows "length (snd (snd (es ! i))) \<le> off es (Suc i)"
proof -
  obtain s k v where e: "es ! i = (s, k, v)" by (metis prod.exhaust)
  have "length v \<le> length (ent_bytes (es ! i))" by (simp add: e)
  then show ?thesis using off_Suc [OF assms] by (simp add: e)
qed

lemma at_before:
  assumes fits: "block_fits es rs data" and at: "at_entry es rs data it i" and i: "i < length es"
  shows "before_entry es rs data it (Suc i)"
proof -
  have ok: "ents_ok [] es" using fits by (simp add: block_fits_def block_layout_def)
  show ?thesis
    using at i length_value_at [OF i] ents_ok_nth [OF ok, of "Suc i"]
    by (auto simp: at_entry_def before_entry_def index_ok_def key_at_def Let_def)
qed

lemma before_restart:
  assumes fits: "block_fits es rs data" and "frame es rs data it" and j: "unat j < length rs"
  shows "before_entry es rs data (SeekToRestartPoint j it) (rs ! unat j)"
proof -
  have ok: "restarts_ok es rs" using fits by (simp add: block_fits_def block_layout_def)
  have "fst (es ! (rs ! unat j)) = 0" if "rs ! unat j < length es"
    using ok j that nth_mem [OF j] unfolding restarts_ok_def by blast
  then show ?thesis
    using assms(2) j restart_point [OF fits assms(2) j] restart_bound [OF ok j]
    by (simp add: before_entry_def SeekToRestartPoint_def frame_def)
qed


section \<open>The moves\<close>

lemma parse_until_at:
  "block_fits es rs data \<Longrightarrow> before_entry es rs data it i \<Longrightarrow> i < m \<Longrightarrow> m \<le> length es \<Longrightarrow>
   unat bound = off es m \<Longrightarrow> \<exists>it'. parse_until bound it = Some it' \<and> at_entry es rs data it' (m - 1)"
proof (induction "m - i" arbitrary: i it rule: less_induct)
  case less
  have i: "i < length es" using less.prems by simp
  obtain it1 where 1: "ParseNextKey it = Some (True, it1)" "at_entry es rs data it1 i"
    using parse_entry [OF less.prems(1,2) i] by blast
  have b: "before_entry es rs data it1 (Suc i)" by (rule at_before [OF less.prems(1) 1(2) i])
  have n: "NextEntryOffset it1 < bound \<longleftrightarrow> Suc i < m"
    using next_entry_offset [OF less.prems(1) b] less.prems(3-5) by (simp add: word_less_nat_alt off_less_iff)
  show ?case
  proof (cases "Suc i < m")
    case True
    have "\<exists>it'. parse_until bound it1 = Some it' \<and> at_entry es rs data it' (m - 1)"
      by (rule less.hyps [OF _ less.prems(1) b True less.prems(4,5)]) (use True in simp)
    then show ?thesis using 1(1) n True by (subst parse_until.simps) simp
  next
    case False
    then have "m - 1 = i" using less.prems(3) by simp
    then show ?thesis using 1 n False by (subst parse_until.simps) simp
  qed
qed

lemma parse_until_end:
  assumes "block_fits es rs data" and "before_entry es rs data it (length es)"
  shows "\<exists>it'. parse_until bound it = Some it' \<and> at_entry es rs data it' (length es)"
  using parse_at_end [OF assms] by (subst parse_until.simps) auto

lemma restart_before_at:
  "block_fits es rs data \<Longrightarrow> frame es rs data it \<Longrightarrow> unat original = off es p \<Longrightarrow> p < length es \<Longrightarrow>
   unat index < length rs \<Longrightarrow>
   (case restart_before it original index of None \<Rightarrow> p = 0 | Some j \<Rightarrow> unat j < length rs \<and> rs ! unat j < p)"
proof (induction it original index rule: restart_before.induct)
  case (1 it original index)
  have ok: "restarts_ok es rs" using "1.prems"(1) by (simp add: block_fits_def block_layout_def)
  have g: "GetRestartPoint it index \<ge> original \<longleftrightarrow> p \<le> rs ! unat index"
    using restart_point [OF "1.prems"(1,2,5)] restart_bound [OF ok "1.prems"(5)] "1.prems"(3,4)
    by (simp add: word_le_nat_alt off_le_iff)
  show ?case
  proof (cases "p \<le> rs ! unat index")
    case True
    show ?thesis
    proof (cases "index = 0")
      case True
      have "rs ! 0 = 0" using ok by (cases rs) (simp_all add: restarts_ok_def)
      then show ?thesis
        using g \<open>p \<le> rs ! unat index\<close> True by (subst restart_before.simps) simp
    next
      case False
      then have "unat (index - 1) < length rs" using unat_pred [of index] "1.prems"(5) by simp
      then show ?thesis
        using "1.IH" [OF g [THEN iffD2, OF True] False "1.prems"(1-4)] False True
        by (subst restart_before.simps) (simp add: g)
    qed
  next
    case False
    then show ?thesis using "1.prems"(5) by (subst restart_before.simps) (simp add: g)
  qed
qed

lemma Prev_at:
  assumes fits: "block_fits es rs data" and at: "at_entry es rs data it p" and p: "p < length es"
  shows "\<exists>it'. BlockIter_Prev it = Some it' \<and> at_entry es rs data it' (if p = 0 then length es else p - 1)"
proof -
  have a: "frame es rs data it" "unat (bi_current it) = off es p" "unat (bi_restart_index it) < length rs"
    using at p by (simp_all add: at_entry_def index_ok_def)
  note rb = restart_before_at [OF fits a(1,2) p a(3)]
  show ?thesis
  proof (cases "restart_before it (bi_current it) (bi_restart_index it)")
    case None
    then show ?thesis using rb a(1) by (simp add: BlockIter_Prev_def at_entry_def frame_def)
  next
    case (Some j)
    then have j: "unat j < length rs" "rs ! unat j < p" using rb by simp_all
    from parse_until_at [OF fits before_restart [OF fits a(1) j(1)] j(2) _ a(2)] show ?thesis
      using Some j(2) p by (simp add: BlockIter_Prev_def)
  qed
qed

lemma Next_at:
  assumes fits: "block_fits es rs data" and at: "at_entry es rs data it p" and p: "p < length es"
  shows "\<exists>it'. BlockIter_Next it = Some it' \<and> at_entry es rs data it' (p + 1)"
proof -
  have b: "before_entry es rs data it (Suc p)" by (rule at_before [OF assms])
  show ?thesis
  proof (cases "Suc p < length es")
    case True
    then show ?thesis using parse_entry [OF fits b] by (auto simp: BlockIter_Next_def)
  next
    case False
    then have "Suc p = length es" using p by simp
    then show ?thesis using parse_at_end [OF fits, of it] b by (auto simp: BlockIter_Next_def)
  qed
qed

lemma SeekToFirst_at:
  assumes fits: "block_fits es rs data" and fr: "frame es rs data it"
  shows "\<exists>it'. BlockIter_SeekToFirst it = Some it' \<and> at_entry es rs data it' 0"
proof -
  have ok: "restarts_ok es rs" using fits by (simp add: block_fits_def block_layout_def)
  then have rs: "rs ! 0 = 0" "0 < length rs" by (cases rs; simp add: restarts_ok_def)+
  then have b: "before_entry es rs data (SeekToRestartPoint 0 it) 0"
    using before_restart [OF fits fr, of 0] by simp
  show ?thesis
    using parse_entry [OF fits b] parse_at_end [OF fits, of "SeekToRestartPoint 0 it"] b
    by (cases "es = []") (auto simp: BlockIter_SeekToFirst_def)
qed

lemma SeekToLast_at:
  assumes fits: "block_fits es rs data" and fr: "frame es rs data it"
  shows "\<exists>it'. BlockIter_SeekToLast it = Some it' \<and> at_entry es rs data it' (if es = [] then 0 else length es - 1)"
proof -
  have ok: "restarts_ok es rs" using fits by (simp add: block_fits_def block_layout_def)
  have ne: "rs \<noteq> []" using ok by (simp add: restarts_ok_def)
  have num: "unat (bi_num_restarts it) = length rs" "unat (bi_restarts it) = off es (length es)"
    using fr by (simp_all add: frame_def)
  let ?j = "bi_num_restarts it - 1"
  have j: "unat ?j < length rs" using num ne unat_pred [of "bi_num_restarts it"] by (cases "bi_num_restarts it = 0") simp_all
  note b = before_restart [OF fits fr j]
  have "rs ! unat ?j < max 1 (length es)" using ok nth_mem [OF j] unfolding restarts_ok_def by blast
  then have "if es = [] then rs ! unat ?j = 0 else rs ! unat ?j < length es" by (cases es) auto
  then show ?thesis
    using parse_until_at [OF fits b _ _ num(2)] parse_until_end [OF fits, of "SeekToRestartPoint ?j it"] b
    by (cases "es = []") (auto simp: BlockIter_SeekToLast_def)
qed


section \<open>Seek\<close>

lemma takeWhile_skip:
  "i \<le> length xs \<Longrightarrow> \<forall>j < i. P (xs ! j) \<Longrightarrow> length (takeWhile P xs) = i + length (takeWhile P (drop i xs))"
proof (induction i arbitrary: xs)
  case (Suc i)
  then obtain x ys where xs: "xs = x # ys" by (cases xs) auto
  have "\<forall>j < i. P (ys ! j)" using Suc.prems(2) by (auto simp: xs dest: spec [where x = "Suc _"])
  then show ?case using Suc.IH [of ys] Suc.prems by (auto simp: xs)
qed simp

definition sorted_entries :: "Comparator \<Rightarrow> (slice \<Rightarrow> bool) \<Rightarrow> (slice \<times> slice) list \<Rightarrow> bool" where
  "sorted_entries C valid kvs \<longleftrightarrow>
     list_all (\<lambda>e. valid (fst e)) kvs \<and> sorted_wrt (\<lambda>a b. cmp_Compare C (fst a) (fst b) \<le> 0) kvs"

lemma search_linear_at:
  "block_fits es rs data \<Longrightarrow> before_entry es rs data it i \<Longrightarrow>
   \<exists>it'. search_linear C t it = Some it' \<and>
     at_entry es rs data it' (i + length (takeWhile (\<lambda>e. cmp_Compare C (fst e) t < 0) (drop i (map snd es))))"
proof (induction "length es - i" arbitrary: i it rule: less_induct)
  case less
  show ?case
  proof (cases "i < length es")
    case False
    then have "i = length es" using less.prems(2) by (simp add: before_entry_def)
    then show ?thesis
      using parse_at_end [OF less.prems(1), of it] less.prems(2) by (subst search_linear.simps) auto
  next
    case True
    obtain it1 where 1: "ParseNextKey it = Some (True, it1)" "at_entry es rs data it1 i"
      using parse_entry [OF less.prems(1,2) True] by blast
    have k: "bi_key it1 = fst (snd (es ! i))" using 1(2) True by (simp add: at_entry_def)
    have d: "drop i (map snd es) = snd (es ! i) # drop (Suc i) (map snd es)"
      using True by (simp add: Cons_nth_drop_Suc [symmetric])
    show ?thesis
    proof (cases "cmp_Compare C (fst (snd (es ! i))) t < 0")
      case True
      have b: "before_entry es rs data it1 (Suc i)" by (rule at_before [OF less.prems(1) 1(2) \<open>i < length es\<close>])
      have "length es - Suc i < length es - i" using \<open>i < length es\<close> by simp
      from less.hyps [OF this less.prems(1) b] show ?thesis
        using 1(1) True unfolding d by (subst search_linear.simps) (simp add: k)
    next
      case False
      then show ?thesis using 1 unfolding d by (subst search_linear.simps) (simp add: k)
    qed
  qed
qed

lemma restart_inside:
  assumes "restarts_ok es rs" and "j < length rs" and "j \<noteq> 0"
  shows "rs ! j < length es"
proof -
  have "rs ! 0 < rs ! j" using assms by (auto simp: restarts_ok_def intro: sorted_wrt_nth_less)
  then have "0 < rs ! j" using assms(1) by simp
  moreover have "rs ! j < max 1 (length es)" using assms nth_mem [of j rs] unfolding restarts_ok_def by blast
  ultimately show ?thesis by simp
qed

lemma middle:
  assumes "left < (right :: u32)" and "unat right < 2 ^ 30"
  shows "unat ((left + right + 1) div 2) = (unat left + unat right + 1) div 2"
  using assms by (simp add: word_less_nat_alt unat_div unat_word_ariths)

lemma search_restarts_at:
  assumes fits: "block_fits es rs data" and fr: "frame es rs data it"
  shows "unat left \<le> unat right \<Longrightarrow> unat right < length rs \<Longrightarrow>
    left = 0 \<or> cmp_Compare C (key_at es (rs ! unat left)) t < 0 \<Longrightarrow>
    \<exists>l. search_restarts C it t left right = Some (Inr l) \<and> unat l < length rs \<and>
      (l = 0 \<or> cmp_Compare C (key_at es (rs ! unat l)) t < 0)"
proof (induction "unat right - unat left" arbitrary: left right rule: less_induct)
  case less
  have ok: "restarts_ok es rs" using fits by (simp add: block_fits_def block_layout_def)
  show ?case
  proof (cases "left < right")
    case False
    then show ?thesis using less.prems by (subst search_restarts.simps) simp
  next
    case True
    define mid where "mid = (left + right + 1) div 2"
    have "unat right < 2 ^ 30" using layout_lengths(2) [OF fits] less.prems(2) by simp
    then have "unat mid = (unat left + unat right + 1) div 2" unfolding mid_def by (rule middle [OF True])
    then have m: "unat left < unat mid" "unat mid \<le> unat right" using True by (auto simp: word_less_nat_alt)
    then have mr: "unat mid < length rs" using less.prems(2) by simp
    let ?r = "rs ! unat mid"
    have r: "?r < length es" using restart_inside [OF ok mr] m by simp
    obtain s k v where e: "es ! ?r = (s, k, v)" by (metis prod.exhaust)
    have "s = 0" using ok r nth_mem [OF mr] e unfolding restarts_ok_def by (metis fst_conv)
    have R: "bi_data it = data" "unat (bi_restarts it) = off es (length es)" using fr by (simp_all add: frame_def)
    note g = restart_point [OF fits fr mr]
    obtain sh ns vl q where q: "DecodeEntry (take (unat (bi_restarts it) - unat (GetRestartPoint it mid))
        (drop (unat (GetRestartPoint it mid)) (bi_data it))) = Some (sh, ns, vl, q)"
      "unat sh = s" "unat ns = length k - s" "take (length k - s) q = drop s k" "length k - s + length v \<le> length q"
      using DecodeEntry_at [OF fits r e] unfolding g R by blast
    have step: "search_restarts C it t left right =
        (if cmp_Compare C (key_at es ?r) t < 0 then search_restarts C it t mid right
         else search_restarts C it t left (mid - 1))"
      using q(2-5) True by (subst search_restarts.simps)
        (simp add: mid_def [symmetric] q(1) \<open>s = 0\<close> key_at_def e Let_def unat_eq_zero)
    have m1: "unat (mid - 1) = unat mid - 1" using m by (simp add: unat_minus_one unat_eq_zero [symmetric] del: unat_eq_zero)
    show ?thesis
    proof (cases "cmp_Compare C (key_at es ?r) t < 0")
      case True
      have "\<exists>l. search_restarts C it t mid right = Some (Inr l) \<and> unat l < length rs \<and>
          (l = 0 \<or> cmp_Compare C (key_at es (rs ! unat l)) t < 0)"
        by (rule less.hyps) (use m less.prems True in auto)
      then show ?thesis using step True by simp
    next
      case False
      have "\<exists>l. search_restarts C it t left (mid - 1) = Some (Inr l) \<and> unat l < length rs \<and>
          (l = 0 \<or> cmp_Compare C (key_at es (rs ! unat l)) t < 0)"
        by (rule less.hyps) (use m m1 less.prems in auto)
      then show ?thesis using step False by simp
    qed
  qed
qed


context comparator
begin

lemma Seek_at:
  assumes fits: "block_fits es rs data" and sorted: "sorted_entries C valid (map snd es)"
    and fr: "frame es rs data it" and t: "valid t"
  shows "\<exists>it'. BlockIter_Seek C t it = Some it' \<and>
    at_entry es rs data it' (first_at_or_past (cmp_Compare C) t (map snd es))"
proof -
  have ok: "restarts_ok es rs" using fits by (simp add: block_fits_def block_layout_def)
  have ne: "rs \<noteq> []" "rs ! 0 = 0" using ok by (cases rs; simp add: restarts_ok_def)+
  have num: "unat (bi_num_restarts it) = length rs" using fr by (simp add: frame_def)
  have j: "unat (bi_num_restarts it - 1) < length rs"
    using num ne unat_pred [of "bi_num_restarts it"] by (cases "bi_num_restarts it = 0") simp_all
  obtain l where l: "search_restarts C it t 0 (bi_num_restarts it - 1) = Some (Inr l)" "unat l < length rs"
    "l = 0 \<or> cmp_Compare C (key_at es (rs ! unat l)) t < 0"
    using search_restarts_at [OF fits fr _ j, of 0 C t] by auto
  let ?i = "rs ! unat l"
  have skip: "\<forall>p < ?i. cmp_Compare C (fst (map snd es ! p)) t < 0"
  proof (cases "unat l = 0")
    case True
    then show ?thesis using ne by simp
  next
    case False
    then have i: "?i < length es" using restart_inside [OF ok l(2)] by simp
    have v: "valid (fst (map snd es ! p))" if "p < length es" for p
      using sorted that by (simp add: sorted_entries_def list_all_length)
    have "cmp_Compare C (fst (map snd es ! p)) (fst (map snd es ! ?i)) \<le> 0" if "p < ?i" for p
      using sorted that i by (auto simp: sorted_entries_def sorted_wrt_iff_nth_less)
    moreover have "cmp_Compare C (fst (map snd es ! ?i)) t < 0" using l(3) False i by (auto simp: key_at_def)
    ultimately show ?thesis using trans_le_less [OF v v t] i by (meson less_trans)
  qed
  have "?i \<le> length (map snd es)" using restart_bound [OF ok l(2)] by simp
  note tw = takeWhile_skip [OF this, of "\<lambda>e. cmp_Compare C (fst e) t < 0", OF skip]
  show ?thesis
    using search_linear_at [OF fits before_restart [OF fits fr l(2)], of C t] l(1)
    by (simp add: BlockIter_Seek_def first_at_or_past_def tw)
qed

lemma block_iterator_on:
  assumes fits: "block_fits es rs data" and sorted: "sorted_entries C valid (map snd es)"
  shows "iterator_on (block_iterator C) (cmp_Compare C) valid (map snd es) (frame es rs data) (at_entry es rs data)"
proof (unfold_locales, goal_cases)
  case (2 it i)
  then show ?case
    by (cases "i < length es")
      (auto simp: at_entry_def block_iterator_def BlockIter_Valid_def frame_def word_less_nat_alt off_less_iff)
next
  case (5 it)
  then show ?case using SeekToFirst_at [OF fits] by (simp add: block_iterator_def)
next
  case (6 it)
  then show ?case using SeekToLast_at [OF fits] by (cases "es = []") (simp_all add: block_iterator_def)
next
  case (7 it t)
  then show ?case using Seek_at [OF fits sorted] by (simp add: block_iterator_def)
next
  case (8 it i)
  then show ?case using Next_at [OF fits] by (simp add: block_iterator_def)
next
  case (9 it i)
  then show ?case using Prev_at [OF fits 9(1)] by (cases "i = 0") (simp_all add: block_iterator_def)
qed (auto simp: block_iterator_def at_entry_def frame_def)

end


section \<open>The iterator of a built block\<close>

lemma NewIterator_layout:
  assumes fits: "block_fits es rs data"
  shows "\<exists>it. Block_NewIterator (new_Block data) = Inr it \<and> frame es rs data it"
proof -
  let ?n = "word_of_nat (length rs) :: u32"
  let ?pre = "ents_bytes es @ concat (map (\<lambda>r. EncodeFixed32 (word_of_nat (off es r))) rs)"
  have l: "data = ?pre @ EncodeFixed32 ?n" and ne: "rs \<noteq> []"
    using fits by (simp_all add: block_fits_def block_layout_def restarts_ok_def)
  have len: "length data = off es (length es) + 4 * length rs + 4" by (simp add: l off_def)
  have b: "length rs < 2 ^ 30" "length data < 2 ^ 32" "off es (length es) < 2 ^ 32"
    using layout_lengths [OF fits] fits by (simp_all add: block_fits_def)
  have "drop (length data - 4) data = EncodeFixed32 ?n @ []" using len by (simp add: l)
  then have N: "NumRestarts data (length data) = ?n"
    unfolding NumRestarts_def by (simp only: DecodeFixed32_Encode)
  have u: "unat ?n = length rs" using b(1) by (simp add: unat_small)
  have u1: "unat (1 + ?n) = length rs + 1" using b(1) u by (simp add: unat_word_ariths)
  have n0: "?n \<noteq> 0" using u ne by (metis length_greater_0_conv less_irrefl unsigned_0)
  have blk: "new_Block data = \<lparr>bk_data = data, bk_size = length data,
      bk_restart_offset = word_of_nat (length data - (length rs + 1) * 4)\<rparr>"
    unfolding new_Block_def Let_def N u1 using len u by simp
  have "Block_NewIterator (new_Block data) =
      Inr (new_BlockIter data (word_of_nat (length data - (length rs + 1) * 4)) ?n)"
    using len n0 unfolding blk Block_NewIterator_def Let_def Block.simps N by simp
  moreover have "length data - (length rs + 1) * 4 = off es (length es)" using len by simp
  ultimately show ?thesis using b u by (simp add: new_BlockIter_def frame_def unat_small)
qed

context comparator
begin

lemma built_block_iterator:
  assumes "1 \<le> k" and "sorted_entries C valid kvs" and "length (build_block k kvs) < 2 ^ 32"
  shows "\<exists>it ready on. Block_NewIterator (new_Block (build_block k kvs)) = Inr it \<and> ready it \<and>
    iterator_on (block_iterator C) (cmp_Compare C) valid kvs ready on"
proof -
  obtain es rs where l: "map snd es = kvs" "block_layout es rs (build_block k kvs)"
    using build_block_layout [OF assms(1)] by blast
  then have fits: "block_fits es rs (build_block k kvs)" using assms(3) by (simp add: block_fits_def)
  show ?thesis using NewIterator_layout [OF fits] block_iterator_on [OF fits] assms(2) l(1) by blast
qed

end

end
