(* ===== verification/LdbVersionEdit.thy ===== *)
theory LdbVersionEdit
  imports LdbFormat LdbStatus "HOL-Library.Product_Lexorder"
begin

text \<open>
  \<open>db/version_edit.h\<close> and \<open>db/version_edit.cc\<close>: the changes of the file set that the manifest logs, and their
  format. A level is an \<open>int\<close> that is never negative; the set of deleted files is written in its order.
\<close>

section \<open>Edits\<close>

record FileMetaData =
  fm_refs :: int
  fm_allowed_seeks :: int
  fm_number :: u64
  fm_file_size :: u64
  fm_smallest :: slice
  fm_largest :: slice

text \<open>The constructor leaves \<open>number\<close> uninitialised; every use sets it.\<close>

definition new_FileMetaData :: "u64 \<Rightarrow> u64 \<Rightarrow> slice \<Rightarrow> slice \<Rightarrow> FileMetaData" where
  "new_FileMetaData n sz smallest largest =
     \<lparr>fm_refs = 0, fm_allowed_seeks = 2 ^ 30, fm_number = n, fm_file_size = sz,
      fm_smallest = smallest, fm_largest = largest\<rparr>"

record VersionEdit =
  ve_comparator :: "byte list"
  ve_log_number :: u64
  ve_prev_log_number :: u64
  ve_next_file_number :: u64
  ve_last_sequence :: SequenceNumber
  ve_has_comparator :: bool
  ve_has_log_number :: bool
  ve_has_prev_log_number :: bool
  ve_has_next_file_number :: bool
  ve_has_last_sequence :: bool
  ve_compact_pointers :: "(nat \<times> slice) list"
  ve_deleted_files :: "(nat \<times> u64) set"
  ve_new_files :: "(nat \<times> FileMetaData) list"

text \<open>\<open>Clear\<close> keeps \<open>compact_pointers_\<close>, as the code does.\<close>

definition VersionEdit_Clear :: "VersionEdit \<Rightarrow> VersionEdit" where
  "VersionEdit_Clear e = e\<lparr>ve_comparator := [], ve_log_number := 0, ve_prev_log_number := 0, ve_last_sequence := 0,
     ve_next_file_number := 0, ve_has_comparator := False, ve_has_log_number := False,
     ve_has_prev_log_number := False, ve_has_next_file_number := False, ve_has_last_sequence := False,
     ve_deleted_files := {}, ve_new_files := []\<rparr>"

definition new_VersionEdit :: VersionEdit where
  "new_VersionEdit = VersionEdit_Clear \<lparr>ve_comparator = [], ve_log_number = 0, ve_prev_log_number = 0,
     ve_next_file_number = 0, ve_last_sequence = 0, ve_has_comparator = False, ve_has_log_number = False,
     ve_has_prev_log_number = False, ve_has_next_file_number = False, ve_has_last_sequence = False,
     ve_compact_pointers = [], ve_deleted_files = {}, ve_new_files = []\<rparr>"

definition SetComparatorName :: "slice \<Rightarrow> VersionEdit \<Rightarrow> VersionEdit" where
  "SetComparatorName name e = e\<lparr>ve_has_comparator := True, ve_comparator := name\<rparr>"

definition SetLogNumber :: "u64 \<Rightarrow> VersionEdit \<Rightarrow> VersionEdit" where
  "SetLogNumber n e = e\<lparr>ve_has_log_number := True, ve_log_number := n\<rparr>"

definition SetPrevLogNumber :: "u64 \<Rightarrow> VersionEdit \<Rightarrow> VersionEdit" where
  "SetPrevLogNumber n e = e\<lparr>ve_has_prev_log_number := True, ve_prev_log_number := n\<rparr>"

definition SetNextFile :: "u64 \<Rightarrow> VersionEdit \<Rightarrow> VersionEdit" where
  "SetNextFile n e = e\<lparr>ve_has_next_file_number := True, ve_next_file_number := n\<rparr>"

definition SetLastSequence :: "SequenceNumber \<Rightarrow> VersionEdit \<Rightarrow> VersionEdit" where
  "SetLastSequence s e = e\<lparr>ve_has_last_sequence := True, ve_last_sequence := s\<rparr>"

definition SetCompactPointer :: "nat \<Rightarrow> slice \<Rightarrow> VersionEdit \<Rightarrow> VersionEdit" where
  "SetCompactPointer level key e = e\<lparr>ve_compact_pointers := ve_compact_pointers e @ [(level, key)]\<rparr>"

definition AddFile :: "nat \<Rightarrow> u64 \<Rightarrow> u64 \<Rightarrow> slice \<Rightarrow> slice \<Rightarrow> VersionEdit \<Rightarrow> VersionEdit" where
  "AddFile level n sz smallest largest e =
     e\<lparr>ve_new_files := ve_new_files e @ [(level, new_FileMetaData n sz smallest largest)]\<rparr>"

definition DeleteFile :: "nat \<Rightarrow> u64 \<Rightarrow> VersionEdit \<Rightarrow> VersionEdit" where
  "DeleteFile level n e = e\<lparr>ve_deleted_files := insert (level, n) (ve_deleted_files e)\<rparr>"

section \<open>The format\<close>

datatype Tag = kComparator | kLogNumber | kNextFileNumber | kLastSequence | kCompactPointer | kDeletedFile
  | kNewFile | kPrevLogNumber

primrec Tag_value :: "Tag \<Rightarrow> u32" where
  "Tag_value kComparator = 1"
| "Tag_value kLogNumber = 2"
| "Tag_value kNextFileNumber = 3"
| "Tag_value kLastSequence = 4"
| "Tag_value kCompactPointer = 5"
| "Tag_value kDeletedFile = 6"
| "Tag_value kNewFile = 7"
| "Tag_value kPrevLogNumber = 9"

definition VersionEdit_EncodeTo :: "VersionEdit \<Rightarrow> byte list \<Rightarrow> byte list" where
  "VersionEdit_EncodeTo e dst =
     (let d1 = (if ve_has_comparator e
                then PutLengthPrefixedSlice (PutVarint32 dst (Tag_value kComparator)) (ve_comparator e) else dst);
          d2 = (if ve_has_log_number e
                then PutVarint64 (PutVarint32 d1 (Tag_value kLogNumber)) (ve_log_number e) else d1);
          d3 = (if ve_has_prev_log_number e
                then PutVarint64 (PutVarint32 d2 (Tag_value kPrevLogNumber)) (ve_prev_log_number e) else d2);
          d4 = (if ve_has_next_file_number e
                then PutVarint64 (PutVarint32 d3 (Tag_value kNextFileNumber)) (ve_next_file_number e) else d3);
          d5 = (if ve_has_last_sequence e
                then PutVarint64 (PutVarint32 d4 (Tag_value kLastSequence)) (ve_last_sequence e) else d4);
          d6 = fold (\<lambda>(level, key) d. PutLengthPrefixedSlice
                 (PutVarint32 (PutVarint32 d (Tag_value kCompactPointer)) (word_of_nat level)) key) (ve_compact_pointers e) d5;
          d7 = fold (\<lambda>(level, n) d. PutVarint64
                 (PutVarint32 (PutVarint32 d (Tag_value kDeletedFile)) (word_of_nat level)) n)
                 (sorted_list_of_set (ve_deleted_files e)) d6
      in fold (\<lambda>(level, f) d. PutLengthPrefixedSlice (PutLengthPrefixedSlice
           (PutVarint64 (PutVarint64 (PutVarint32 (PutVarint32 d (Tag_value kNewFile)) (word_of_nat level))
             (fm_number f)) (fm_file_size f)) (fm_smallest f)) (fm_largest f)) (ve_new_files e) d7)"

definition GetInternalKey :: "slice \<Rightarrow> (slice \<times> slice) option" where
  "GetInternalKey input = (case GetLengthPrefixedSlice input of Some (str, r) \<Rightarrow> Some (str, r) | None \<Rightarrow> None)"

definition GetLevel :: "slice \<Rightarrow> (nat \<times> slice) option" where
  "GetLevel input =
     (case GetVarint32 input of
        Some (v, r) \<Rightarrow> if unat v < kNumLevels then Some (unat v, r) else None
      | None \<Rightarrow> None)"

text \<open>What a case of the switch does: the message, or the input left and the edit.\<close>

definition parsed :: "string \<Rightarrow> ('v \<times> slice) option \<Rightarrow> ('v \<Rightarrow> VersionEdit) \<Rightarrow> string + slice \<times> VersionEdit" where
  "parsed msg r f = (case r of None \<Rightarrow> Inl msg | Some (v, input) \<Rightarrow> Inr (input, f v))"

definition decode_tag :: "u32 \<Rightarrow> slice \<Rightarrow> VersionEdit \<Rightarrow> string + slice \<times> VersionEdit" where
  "decode_tag tag input e =
     (if tag = Tag_value kComparator then
        parsed ''comparator name'' (GetLengthPrefixedSlice input) (\<lambda>s. e\<lparr>ve_comparator := s, ve_has_comparator := True\<rparr>)
      else if tag = Tag_value kLogNumber then
        parsed ''log number'' (GetVarint64 input) (\<lambda>n. e\<lparr>ve_log_number := n, ve_has_log_number := True\<rparr>)
      else if tag = Tag_value kPrevLogNumber then
        parsed ''previous log number'' (GetVarint64 input)
          (\<lambda>n. e\<lparr>ve_prev_log_number := n, ve_has_prev_log_number := True\<rparr>)
      else if tag = Tag_value kNextFileNumber then
        parsed ''next file number'' (GetVarint64 input)
          (\<lambda>n. e\<lparr>ve_next_file_number := n, ve_has_next_file_number := True\<rparr>)
      else if tag = Tag_value kLastSequence then
        parsed ''last sequence number'' (GetVarint64 input)
          (\<lambda>n. e\<lparr>ve_last_sequence := n, ve_has_last_sequence := True\<rparr>)
      else if tag = Tag_value kCompactPointer then
        parsed ''compaction pointer'' (get_pair GetLevel GetInternalKey input)
          (\<lambda>(level, key). e\<lparr>ve_compact_pointers := ve_compact_pointers e @ [(level, key)]\<rparr>)
      else if tag = Tag_value kDeletedFile then
        parsed ''deleted file'' (get_pair GetLevel GetVarint64 input)
          (\<lambda>(level, n). e\<lparr>ve_deleted_files := insert (level, n) (ve_deleted_files e)\<rparr>)
      else if tag = Tag_value kNewFile then
        parsed ''new-file entry''
          (get_pair GetLevel (get_pair GetVarint64 (get_pair GetVarint64 (get_pair GetInternalKey GetInternalKey))) input)
          (\<lambda>(level, n, sz, smallest, largest).
             e\<lparr>ve_new_files := ve_new_files e @ [(level, new_FileMetaData n sz smallest largest)]\<rparr>)
      else Inl ''unknown tag'')"

lemma get_varint_shorter: "get_varint_loop l sh (x :: 'a::len word) s = Some (n, q) \<Longrightarrow> length q < length s"
proof (induction l sh x s rule: get_varint_loop.induct)
  case (2 l sh x b p)
  show ?case
  proof (cases "sh \<le> l \<and> b AND 128 \<noteq> 0")
    case True
    then have "length q < length p" using "2.IH" "2.prems" by simp
    then show ?thesis by simp
  qed (use "2.prems" in \<open>auto split: if_splits\<close>)
qed simp

lemma getters_shorter:
  "GetVarint32 s = Some (n, r) \<Longrightarrow> length r < length s"
  "GetVarint64 s = Some (m, r) \<Longrightarrow> length r < length s"
  "GetLengthPrefixedSlice s = Some (v, r) \<Longrightarrow> length r < length s"
  by (auto simp: GetVarint32_loop GetVarint64_loop GetLengthPrefixedSlice_def remove_prefix_def
      dest!: get_varint_shorter split: option.splits if_splits)

lemma GetLevel_shorter: "GetLevel s = Some (v, r) \<Longrightarrow> length r < length s"
  by (auto simp: GetLevel_def dest: getters_shorter split: option.splits if_splits)

lemma GetInternalKey_shorter: "GetInternalKey s = Some (v, r) \<Longrightarrow> length r < length s"
  by (auto simp: GetInternalKey_def dest: getters_shorter split: option.splits)

lemma get_pair_shorter:
  assumes "\<And>s v r. g s = Some (v, r) \<Longrightarrow> length r < length s"
    and "\<And>s v r. h s = Some (v, r) \<Longrightarrow> length r < length s"
  shows "get_pair g h s = Some (p, r) \<Longrightarrow> length r < length s"
  by (auto simp: get_pair_def split: option.splits dest!: assms)

lemma decode_field_shorter: "decode_tag tag s e = Inr (r, e') \<Longrightarrow> length r \<le> length s"
  by (auto simp: decode_tag_def parsed_def dest!: getters_shorter GetLevel_shorter GetInternalKey_shorter
      get_pair_shorter [rotated -1] split: if_splits option.splits)

text \<open>The loop: a message, or the input behind the last field, and the edit.\<close>

function decode_loop :: "slice \<Rightarrow> VersionEdit \<Rightarrow> (string + slice) \<times> VersionEdit" where
  "decode_loop input e =
     (case GetVarint32 input of
        None \<Rightarrow> (Inr input, e)
      | Some (tag, input1) \<Rightarrow>
          (case decode_tag tag input1 e of
             Inl msg \<Rightarrow> (Inl msg, e)
           | Inr (input2, e') \<Rightarrow> decode_loop input2 e'))"
  by pat_completeness auto
termination
proof (relation "measure (\<lambda>(input, e). length input)", goal_cases)
  case (2 input e p tag input1 q input2 e')
  then have "length input1 < length input" "length input2 \<le> length input1"
    using getters_shorter(1) decode_field_shorter by auto
  then show ?case by simp
qed simp

declare decode_loop.simps [simp del]

definition VersionEdit_DecodeFrom :: "slice \<Rightarrow> VersionEdit \<Rightarrow> Status \<times> VersionEdit" where
  "VersionEdit_DecodeFrom src e =
     (case decode_loop src (VersionEdit_Clear e) of
        (Inl msg, e') \<Rightarrow> (Corruption (lit ''VersionEdit'') (lit msg), e')
      | (Inr input, e') \<Rightarrow>
          if input \<noteq> [] then (Corruption (lit ''VersionEdit'') (lit ''invalid tag''), e') else (OK, e'))"

definition newline :: "string \<Rightarrow> byte list" where
  "newline s = 10 # lit s"

definition VersionEdit_DebugString :: "VersionEdit \<Rightarrow> byte list" where
  "VersionEdit_DebugString e =
     (let r0 = lit ''VersionEdit {'';
          r1 = (if ve_has_comparator e then r0 @ newline ''  Comparator: '' @ ve_comparator e else r0);
          r2 = (if ve_has_log_number e then AppendNumberTo (r1 @ newline ''  LogNumber: '') (ve_log_number e) else r1);
          r3 = (if ve_has_prev_log_number e
                then AppendNumberTo (r2 @ newline ''  PrevLogNumber: '') (ve_prev_log_number e) else r2);
          r4 = (if ve_has_next_file_number e
                then AppendNumberTo (r3 @ newline ''  NextFile: '') (ve_next_file_number e) else r3);
          r5 = (if ve_has_last_sequence e
                then AppendNumberTo (r4 @ newline ''  LastSeq: '') (ve_last_sequence e) else r4);
          r6 = fold (\<lambda>(level, key) r. AppendNumberTo (r @ newline ''  CompactPointer: '') (word_of_nat level) @
                 lit '' '' @ InternalKey_DebugString key) (ve_compact_pointers e) r5;
          r7 = fold (\<lambda>(level, n) r. AppendNumberTo
                 (AppendNumberTo (r @ newline ''  DeleteFile: '') (word_of_nat level) @ lit '' '') n)
                 (sorted_list_of_set (ve_deleted_files e)) r6;
          r8 = fold (\<lambda>(level, f) r. AppendNumberTo (AppendNumberTo
                 (AppendNumberTo (r @ newline ''  AddFile: '') (word_of_nat level) @ lit '' '') (fm_number f) @ lit '' '')
                 (fm_file_size f) @ lit '' '' @ InternalKey_DebugString (fm_smallest f) @ lit '' .. '' @
                 InternalKey_DebugString (fm_largest f)) (ve_new_files e) r7
      in r8 @ newline ''}'' @ [10])"

section \<open>The round trip\<close>

text \<open>The fields of an edit in the order they are written, what each is written as, and its effect when it is read.\<close>

datatype edit_field = Comparator_field slice | Log_field u64 | Prev_field u64 | Next_field u64 | Last_field u64
  | Pointer_field nat slice | Delete_field nat u64 | Add_field nat FileMetaData

primrec field_bytes :: "edit_field \<Rightarrow> byte list" where
  "field_bytes (Comparator_field s) = EncodeVarint32 1 @ enc_slice s"
| "field_bytes (Log_field n) = EncodeVarint32 2 @ EncodeVarint64 n"
| "field_bytes (Prev_field n) = EncodeVarint32 9 @ EncodeVarint64 n"
| "field_bytes (Next_field n) = EncodeVarint32 3 @ EncodeVarint64 n"
| "field_bytes (Last_field n) = EncodeVarint32 4 @ EncodeVarint64 n"
| "field_bytes (Pointer_field l k) = EncodeVarint32 5 @ EncodeVarint32 (word_of_nat l) @ enc_slice k"
| "field_bytes (Delete_field l n) = EncodeVarint32 6 @ EncodeVarint32 (word_of_nat l) @ EncodeVarint64 n"
| "field_bytes (Add_field l f) = EncodeVarint32 7 @ EncodeVarint32 (word_of_nat l) @ EncodeVarint64 (fm_number f) @
     EncodeVarint64 (fm_file_size f) @ enc_slice (fm_smallest f) @ enc_slice (fm_largest f)"

primrec field_effect :: "edit_field \<Rightarrow> VersionEdit \<Rightarrow> VersionEdit" where
  "field_effect (Comparator_field s) e = e\<lparr>ve_comparator := s, ve_has_comparator := True\<rparr>"
| "field_effect (Log_field n) e = e\<lparr>ve_log_number := n, ve_has_log_number := True\<rparr>"
| "field_effect (Prev_field n) e = e\<lparr>ve_prev_log_number := n, ve_has_prev_log_number := True\<rparr>"
| "field_effect (Next_field n) e = e\<lparr>ve_next_file_number := n, ve_has_next_file_number := True\<rparr>"
| "field_effect (Last_field n) e = e\<lparr>ve_last_sequence := n, ve_has_last_sequence := True\<rparr>"
| "field_effect (Pointer_field l k) e = e\<lparr>ve_compact_pointers := ve_compact_pointers e @ [(l, k)]\<rparr>"
| "field_effect (Delete_field l n) e = e\<lparr>ve_deleted_files := insert (l, n) (ve_deleted_files e)\<rparr>"
| "field_effect (Add_field l f) e = e\<lparr>ve_new_files := ve_new_files e @ [(l, f)]\<rparr>"

definition file_fits :: "FileMetaData \<Rightarrow> bool" where
  "file_fits f \<longleftrightarrow> slice_fits (fm_smallest f) \<and> slice_fits (fm_largest f) \<and>
     f = new_FileMetaData (fm_number f) (fm_file_size f) (fm_smallest f) (fm_largest f)"

primrec field_fits :: "edit_field \<Rightarrow> bool" where
  "field_fits (Comparator_field s) \<longleftrightarrow> slice_fits s"
| "field_fits (Log_field n) \<longleftrightarrow> True"
| "field_fits (Prev_field n) \<longleftrightarrow> True"
| "field_fits (Next_field n) \<longleftrightarrow> True"
| "field_fits (Last_field n) \<longleftrightarrow> True"
| "field_fits (Pointer_field l k) \<longleftrightarrow> l < kNumLevels \<and> slice_fits k"
| "field_fits (Delete_field l n) \<longleftrightarrow> l < kNumLevels"
| "field_fits (Add_field l f) \<longleftrightarrow> l < kNumLevels \<and> file_fits f"

definition fields_of :: "VersionEdit \<Rightarrow> edit_field list" where
  "fields_of e =
     (if ve_has_comparator e then [Comparator_field (ve_comparator e)] else []) @
     (if ve_has_log_number e then [Log_field (ve_log_number e)] else []) @
     (if ve_has_prev_log_number e then [Prev_field (ve_prev_log_number e)] else []) @
     (if ve_has_next_file_number e then [Next_field (ve_next_file_number e)] else []) @
     (if ve_has_last_sequence e then [Last_field (ve_last_sequence e)] else []) @
     map (\<lambda>(l, k). Pointer_field l k) (ve_compact_pointers e) @
     map (\<lambda>(l, n). Delete_field l n) (sorted_list_of_set (ve_deleted_files e)) @
     map (\<lambda>(l, f). Add_field l f) (ve_new_files e)"

lemma fold_pairs:
  "(\<And>x y d. g (x, y) d = d @ field_bytes (c x y)) \<Longrightarrow>
     fold g ps d = d @ concat (map field_bytes (map (\<lambda>(x, y). c x y) ps))"
  by (induction ps arbitrary: d) auto

lemma EncodeTo_fields: "VersionEdit_EncodeTo e dst = dst @ concat (map field_bytes (fields_of e))"
proof -
  note put = PutVarint32_def PutVarint64_def PutLengthPrefixedSlice_append
  have p: "fold (\<lambda>(level, key) d. PutLengthPrefixedSlice
      (PutVarint32 (PutVarint32 d (Tag_value kCompactPointer)) (word_of_nat level)) key) ps d =
    d @ concat (map field_bytes (map (\<lambda>(l, k). Pointer_field l k) ps))" for ps d
    by (rule fold_pairs) (simp add: put)
  have q: "fold (\<lambda>(level, n) d. PutVarint64
      (PutVarint32 (PutVarint32 d (Tag_value kDeletedFile)) (word_of_nat level)) n) ps d =
    d @ concat (map field_bytes (map (\<lambda>(l, n). Delete_field l n) ps))" for ps d
    by (rule fold_pairs) (simp add: put)
  have r: "fold (\<lambda>(level, f) d. PutLengthPrefixedSlice (PutLengthPrefixedSlice
      (PutVarint64 (PutVarint64 (PutVarint32 (PutVarint32 d (Tag_value kNewFile)) (word_of_nat level))
        (fm_number f)) (fm_file_size f)) (fm_smallest f)) (fm_largest f)) ps d =
    d @ concat (map field_bytes (map (\<lambda>(l, f). Add_field l f) ps))" for ps d
    by (rule fold_pairs) (simp add: put)
  show ?thesis
    unfolding VersionEdit_EncodeTo_def Let_def p q r fields_of_def by (simp add: put)
qed

lemma GetInternalKey_enc: "slice_fits k \<Longrightarrow> GetInternalKey (enc_slice k @ r) = Some (k, r)"
  by (simp add: GetInternalKey_def prefixed.get_enc)

lemma GetLevel_enc: "l < kNumLevels \<Longrightarrow> GetLevel (EncodeVarint32 (word_of_nat l) @ r) = Some (l, r)"
  by (simp add: GetLevel_def varint32.get_enc kNumLevels_def unat_of_nat)

lemma decode_loop_field:
  assumes "field_fits x"
  shows "decode_loop (field_bytes x @ r) e = decode_loop r (field_effect x e)"
  using assms
  by (cases x; subst decode_loop.simps)
    (simp_all add: varint32.get_enc varint64.get_enc prefixed.get_enc decode_tag_def parsed_def get_pair_def
      GetLevel_enc GetInternalKey_enc file_fits_def)

lemma decode_loop_fields:
  "\<forall>x \<in> set xs. field_fits x \<Longrightarrow> decode_loop (concat (map field_bytes xs)) e = (Inr [], fold field_effect xs e)"
proof (induction xs arbitrary: e)
  case Nil
  have "GetVarint32 [] = None" by (simp add: GetVarint32_loop)
  then show ?case by (simp add: decode_loop.simps)
qed (simp add: decode_loop_field)


text \<open>An edit whose absent fields have their initial values, and whose parts the format can represent.\<close>

definition edit_fits :: "VersionEdit \<Rightarrow> bool" where
  "edit_fits e \<longleftrightarrow> finite (ve_deleted_files e) \<and> list_all field_fits (fields_of e) \<and>
     (ve_has_comparator e \<or> ve_comparator e = []) \<and> (ve_has_log_number e \<or> ve_log_number e = 0) \<and>
     (ve_has_prev_log_number e \<or> ve_prev_log_number e = 0) \<and>
     (ve_has_next_file_number e \<or> ve_next_file_number e = 0) \<and> (ve_has_last_sequence e \<or> ve_last_sequence e = 0)"

lemma fold_list_effects:
  "fold field_effect (map (\<lambda>(l, k). Pointer_field l k) ps) e = e\<lparr>ve_compact_pointers := ve_compact_pointers e @ ps\<rparr>"
  "fold field_effect (map (\<lambda>(l, n). Delete_field l n) ns) e = e\<lparr>ve_deleted_files := ve_deleted_files e \<union> set ns\<rparr>"
  "fold field_effect (map (\<lambda>(l, f). Add_field l f) fs) e = e\<lparr>ve_new_files := ve_new_files e @ fs\<rparr>"
proof -
  show "fold field_effect (map (\<lambda>(l, k). Pointer_field l k) ps) e = e\<lparr>ve_compact_pointers := ve_compact_pointers e @ ps\<rparr>"
    by (induction ps arbitrary: e) auto
  show "fold field_effect (map (\<lambda>(l, n). Delete_field l n) ns) e = e\<lparr>ve_deleted_files := ve_deleted_files e \<union> set ns\<rparr>"
    by (induction ns arbitrary: e) auto
  show "fold field_effect (map (\<lambda>(l, f). Add_field l f) fs) e = e\<lparr>ve_new_files := ve_new_files e @ fs\<rparr>"
    by (induction fs arbitrary: e) auto
qed

lemma fold_fields_of:
  assumes "edit_fits e"
  shows "fold field_effect (fields_of e) (VersionEdit_Clear e0) =
    e\<lparr>ve_compact_pointers := ve_compact_pointers e0 @ ve_compact_pointers e\<rparr>"
  using assms
  by (cases e; cases e0) (auto simp: fields_of_def VersionEdit_Clear_def edit_fits_def fold_list_effects)

lemma Decode_Encode_edit:
  assumes "edit_fits e"
  shows "VersionEdit_DecodeFrom (VersionEdit_EncodeTo e []) e0 =
    (OK, e\<lparr>ve_compact_pointers := ve_compact_pointers e0 @ ve_compact_pointers e\<rparr>)"
proof -
  have "\<forall>x \<in> set (fields_of e). field_fits x" using assms by (simp add: edit_fits_def list_all_iff)
  then show ?thesis
    by (simp add: VersionEdit_DecodeFrom_def EncodeTo_fields decode_loop_fields fold_fields_of [OF assms])
qed

section \<open>Whatever is read has valid levels\<close>

definition levels_ok :: "VersionEdit \<Rightarrow> bool" where
  "levels_ok e \<longleftrightarrow> (\<forall>p \<in> set (ve_compact_pointers e). fst p < kNumLevels) \<and>
     (\<forall>p \<in> ve_deleted_files e. fst p < kNumLevels) \<and> (\<forall>p \<in> set (ve_new_files e). fst p < kNumLevels)"

lemma GetLevel_less: "GetLevel s = Some (l, r) \<Longrightarrow> l < kNumLevels"
  by (auto simp: GetLevel_def split: option.splits if_splits)

lemma decode_field_levels: "decode_tag tag s e = Inr (r, e') \<Longrightarrow> levels_ok e \<Longrightarrow> levels_ok e'"
  by (auto simp: decode_tag_def parsed_def levels_ok_def get_pair_def dest!: GetLevel_less split: if_splits option.splits)

lemma decode_loop_levels: "levels_ok e \<Longrightarrow> levels_ok (snd (decode_loop s e))"
proof (induction s e rule: decode_loop.induct)
  case (1 s e)
  have "levels_ok (snd (decode_loop r e'))" if "GetVarint32 s = Some (tag, q)" "decode_tag tag q e = Inr (r, e')"
    for tag q r e'
    using "1.IH" that decode_field_levels [OF that(2) "1.prems"] by blast
  then show ?case using "1.prems" by (subst decode_loop.simps) (auto split: option.split sum.split)
qed

lemma DecodeFrom_levels: "levels_ok e \<Longrightarrow> levels_ok (snd (VersionEdit_DecodeFrom s e))"
  using decode_loop_levels [of "VersionEdit_Clear e" s]
  by (auto simp: VersionEdit_DecodeFrom_def VersionEdit_Clear_def levels_ok_def split: prod.split sum.split)

end
