(* ===== verification/LdbIterWrapper.thy ===== *)
theory LdbIterWrapper
  imports LdbIterator
begin

text \<open>\<open>table/iterator_wrapper.h\<close>: an iterator with its validity and key cached; there may be none in it.\<close>

section \<open>The wrapper that caches validity and key\<close>

record 'i IteratorWrapper =
  iw_iter :: "'i option"
  iw_valid :: bool
  iw_key :: slice

definition iw_Update :: "'i Iterator \<Rightarrow> 'i IteratorWrapper \<Rightarrow> 'i IteratorWrapper" where
  "iw_Update I w =
     (case iw_iter w of
        None \<Rightarrow> w
      | Some i \<Rightarrow>
          (let w1 = w\<lparr>iw_valid := it_Valid I i\<rparr> in if iw_valid w1 then w1\<lparr>iw_key := it_key I i\<rparr> else w1))"

lemma iw_iter_Update [simp]: "iw_iter (iw_Update I w) = iw_iter w"
  by (simp add: iw_Update_def Let_def split: option.split)

definition iw_Set :: "'i Iterator \<Rightarrow> 'i option \<Rightarrow> 'i IteratorWrapper \<Rightarrow> 'i IteratorWrapper" where
  "iw_Set I i w = (if i = None then w\<lparr>iw_iter := None, iw_valid := False\<rparr> else iw_Update I (w\<lparr>iw_iter := i\<rparr>))"

definition empty_IteratorWrapper :: "'i IteratorWrapper" where
  "empty_IteratorWrapper = \<lparr>iw_iter = None, iw_valid = False, iw_key = []\<rparr>"

definition new_IteratorWrapper :: "'i Iterator \<Rightarrow> 'i option \<Rightarrow> 'i IteratorWrapper" where
  "new_IteratorWrapper I i = iw_Set I i empty_IteratorWrapper"

text \<open>A move of the wrapped iterator; without one it is undefined.\<close>

definition iw_move :: "'i Iterator \<Rightarrow> ('i \<Rightarrow> 'i option) \<Rightarrow> 'i IteratorWrapper \<Rightarrow> 'i IteratorWrapper option" where
  "iw_move I f w = do { i \<leftarrow> iw_iter w; i' \<leftarrow> f i; Some (iw_Update I (w\<lparr>iw_iter := Some i'\<rparr>)) }"

definition iw_Next :: "'i Iterator \<Rightarrow> 'i IteratorWrapper \<Rightarrow> 'i IteratorWrapper option" where
  "iw_Next I = iw_move I (it_Next I)"

definition iw_Prev :: "'i Iterator \<Rightarrow> 'i IteratorWrapper \<Rightarrow> 'i IteratorWrapper option" where
  "iw_Prev I = iw_move I (it_Prev I)"

definition iw_Seek :: "'i Iterator \<Rightarrow> slice \<Rightarrow> 'i IteratorWrapper \<Rightarrow> 'i IteratorWrapper option" where
  "iw_Seek I k = iw_move I (it_Seek I k)"

definition iw_SeekToFirst :: "'i Iterator \<Rightarrow> 'i IteratorWrapper \<Rightarrow> 'i IteratorWrapper option" where
  "iw_SeekToFirst I = iw_move I (it_SeekToFirst I)"

definition iw_SeekToLast :: "'i Iterator \<Rightarrow> 'i IteratorWrapper \<Rightarrow> 'i IteratorWrapper option" where
  "iw_SeekToLast I = iw_move I (it_SeekToLast I)"

text \<open>The value and the status of an empty wrapper are those of no iterator, which the code does not ask for.\<close>

definition iw_value :: "'i Iterator \<Rightarrow> 'i IteratorWrapper \<Rightarrow> slice" where
  "iw_value I w = (case iw_iter w of None \<Rightarrow> [] | Some i \<Rightarrow> it_value I i)"

definition iw_status :: "'i Iterator \<Rightarrow> 'i IteratorWrapper \<Rightarrow> Status" where
  "iw_status I w = (case iw_iter w of None \<Rightarrow> OK | Some i \<Rightarrow> it_status I i)"

section \<open>What a wrapper around a good iterator does\<close>

context iterator_on
begin

definition wrapped :: "'i IteratorWrapper \<Rightarrow> nat \<Rightarrow> bool" where
  "wrapped w i \<longleftrightarrow> (\<exists>it. iw_iter w = Some it \<and> on it i \<and> (iw_valid w \<longleftrightarrow> i < length es) \<and>
     (i < length es \<longrightarrow> iw_key w = fst (es ! i)))"

definition wraps_ready :: "'i IteratorWrapper \<Rightarrow> bool" where
  "wraps_ready w \<longleftrightarrow> (\<exists>it. iw_iter w = Some it \<and> ready it)"

lemma wrapped_ready: "wrapped w i \<Longrightarrow> wraps_ready w \<and> i \<le> length es"
  using on_ready by (auto simp: wrapped_def wraps_ready_def)

lemma wrapped_update:
  assumes "on it i"
  shows "wrapped (iw_Update I (w\<lparr>iw_iter := Some it\<rparr>)) i"
  using on_valid [OF assms] on_entry [OF assms] assms by (auto simp: wrapped_def iw_Update_def Let_def prod_eq_iff)

lemma wrapped_facts: "wrapped w i \<Longrightarrow> iw_valid w \<longleftrightarrow> i < length es" "wrapped w i \<Longrightarrow> i < length es \<Longrightarrow> iw_key w = fst (es ! i)"
  "wrapped w i \<Longrightarrow> i < length es \<Longrightarrow> iw_value I w = snd (es ! i)" "wrapped w i \<Longrightarrow> iw_status I w = OK"
  using on_entry on_status by (fastforce simp: wrapped_def iw_value_def iw_status_def prod_eq_iff)+

lemma wrapped_moves:
  "wraps_ready w \<Longrightarrow> \<exists>w'. iw_SeekToFirst I w = Some w' \<and> wrapped w' 0"
  "wraps_ready w \<Longrightarrow> \<exists>w'. iw_SeekToLast I w = Some w' \<and> wrapped w' (if es = [] then 0 else length es - 1)"
  "wraps_ready w \<Longrightarrow> target_ok t \<Longrightarrow> \<exists>w'. iw_Seek I t w = Some w' \<and> wrapped w' (first_at_or_past cmp t es)"
  "wrapped w i \<Longrightarrow> i < length es \<Longrightarrow> \<exists>w'. iw_Next I w = Some w' \<and> wrapped w' (i + 1)"
  "wrapped w i \<Longrightarrow> i < length es \<Longrightarrow> \<exists>w'. iw_Prev I w = Some w' \<and> wrapped w' (if i = 0 then length es else i - 1)"
proof -
  have move: "\<exists>w'. iw_move I f w = Some w' \<and> wrapped w' k" if "iw_iter w = Some it" "\<exists>it'. f it = Some it' \<and> on it' k" for f it k
    using that wrapped_update by (auto simp: iw_move_def)
  show "wraps_ready w \<Longrightarrow> \<exists>w'. iw_SeekToFirst I w = Some w' \<and> wrapped w' 0"
    unfolding wraps_ready_def iw_SeekToFirst_def by (elim exE conjE) (rule move, assumption, rule seek_to_first)
  show "wraps_ready w \<Longrightarrow> \<exists>w'. iw_SeekToLast I w = Some w' \<and> wrapped w' (if es = [] then 0 else length es - 1)"
    unfolding wraps_ready_def iw_SeekToLast_def by (elim exE conjE) (rule move, assumption, rule seek_to_last)
  show "wraps_ready w \<Longrightarrow> target_ok t \<Longrightarrow> \<exists>w'. iw_Seek I t w = Some w' \<and> wrapped w' (first_at_or_past cmp t es)"
    unfolding wraps_ready_def iw_Seek_def by (elim exE conjE) (rule move, assumption, rule seek)
  show "wrapped w i \<Longrightarrow> i < length es \<Longrightarrow> \<exists>w'. iw_Next I w = Some w' \<and> wrapped w' (i + 1)"
    unfolding wrapped_def [of w] iw_Next_def by (elim exE conjE) (rule move, assumption, rule move_next)
  show "wrapped w i \<Longrightarrow> i < length es \<Longrightarrow> \<exists>w'. iw_Prev I w = Some w' \<and> wrapped w' (if i = 0 then length es else i - 1)"
    unfolding wrapped_def [of w] iw_Prev_def by (elim exE conjE) (rule move, assumption, rule move_prev)
qed

end

end
