(* ===== verification/LdbTableFormat.thy ===== *)
theory LdbTableFormat
  imports LdbBlock LdbBloom LdbEnv LdbCrc32c
begin

text \<open>
  \<open>include/leveldb/options.h\<close>, \<open>table/format.h\<close> and \<open>table/format.cc\<close>: options, block handles, the footer of a
  table file, and reading a block with its trailer. The build has no Snappy (\<open>port_stdcxx.h\<close>).
  The CRC routine is run at address 0, as its result does not depend on the address.
\<close>

section \<open>Options\<close>

datatype CompressionType = kNoCompression | kSnappyCompression

primrec CompressionType_value :: "CompressionType \<Rightarrow> byte" where
  "CompressionType_value kNoCompression = 0"
| "CompressionType_value kSnappyCompression = 1"

text \<open>The environment, the info log and the block cache are objects with a state of their own, and arguments of the
  operations that use them.\<close>

record Options =
  opt_comparator :: Comparator
  opt_create_if_missing :: bool
  opt_error_if_exists :: bool
  opt_paranoid_checks :: bool
  opt_write_buffer_size :: nat
  opt_max_open_files :: int
  opt_block_size :: nat
  opt_block_restart_interval :: nat
  opt_max_file_size :: nat
  opt_compression :: CompressionType
  opt_reuse_logs :: bool
  opt_filter_policy :: "FilterPolicy option"

definition new_Options :: Options where
  "new_Options = \<lparr>opt_comparator = BytewiseComparator, opt_create_if_missing = False, opt_error_if_exists = False,
     opt_paranoid_checks = False, opt_write_buffer_size = 4 * 1024 * 1024, opt_max_open_files = 1000,
     opt_block_size = 4 * 1024, opt_block_restart_interval = 16, opt_max_file_size = 2 * 1024 * 1024,
     opt_compression = kSnappyCompression, opt_reuse_logs = False, opt_filter_policy = None\<rparr>"

record ReadOptions =
  ro_verify_checksums :: bool
  ro_fill_cache :: bool
  ro_snapshot :: "SequenceNumber option"

definition new_ReadOptions :: ReadOptions where
  "new_ReadOptions = \<lparr>ro_verify_checksums = False, ro_fill_cache = True, ro_snapshot = None\<rparr>"

definition Snappy_Compress :: "slice \<Rightarrow> slice option" where
  "Snappy_Compress s = None"

definition Snappy_GetUncompressedLength :: "slice \<Rightarrow> nat option" where
  "Snappy_GetUncompressedLength s = None"

definition Snappy_Uncompress :: "slice \<Rightarrow> slice option" where
  "Snappy_Uncompress s = None"

section \<open>Block handles\<close>

record BlockHandle =
  bh_offset :: u64
  bh_size :: u64

definition new_BlockHandle :: BlockHandle where
  "new_BlockHandle = \<lparr>bh_offset = NOT 0, bh_size = NOT 0\<rparr>"

definition kMaxEncodedLength :: nat where "kMaxEncodedLength = 10 + 10"

definition BlockHandle_EncodeTo :: "BlockHandle \<Rightarrow> byte list \<Rightarrow> byte list" where
  "BlockHandle_EncodeTo h dst = PutVarint64 (PutVarint64 dst (bh_offset h)) (bh_size h)"

text \<open>The status, the handle and the input afterwards.\<close>

definition BlockHandle_DecodeFrom :: "slice \<Rightarrow> BlockHandle \<Rightarrow> Status \<times> BlockHandle \<times> slice" where
  "BlockHandle_DecodeFrom input h =
     (let bad = Corruption (lit ''bad block handle'') [] in
      case GetVarint64 input of
        None \<Rightarrow> (bad, h, input)
      | Some (offset, input1) \<Rightarrow>
          (let h1 = h\<lparr>bh_offset := offset\<rparr> in
           case GetVarint64 input1 of
             None \<Rightarrow> (bad, h1, input1)
           | Some (sz, input2) \<Rightarrow> (OK, h1\<lparr>bh_size := sz\<rparr>, input2)))"

section \<open>The footer\<close>

record Footer =
  ft_metaindex_handle :: BlockHandle
  ft_index_handle :: BlockHandle

definition new_Footer :: Footer where
  "new_Footer = \<lparr>ft_metaindex_handle = new_BlockHandle, ft_index_handle = new_BlockHandle\<rparr>"

definition kEncodedLength :: nat where "kEncodedLength = 2 * kMaxEncodedLength + 8"

definition kTableMagicNumber :: u64 where "kTableMagicNumber = 0xdb4775248b80fb57"

text \<open>\<open>std::string::resize\<close>\<close>

definition resize :: "nat \<Rightarrow> byte list \<Rightarrow> byte list" where
  "resize n s = take n s @ replicate (n - length s) 0"

definition Footer_EncodeTo :: "Footer \<Rightarrow> byte list \<Rightarrow> byte list" where
  "Footer_EncodeTo f dst =
     (let d1 = BlockHandle_EncodeTo (ft_metaindex_handle f) dst;
          d2 = BlockHandle_EncodeTo (ft_index_handle f) d1;
          d3 = resize (2 * kMaxEncodedLength) d2;
          d4 = PutFixed32 d3 (ucast (kTableMagicNumber AND 0xffffffff))
      in PutFixed32 d4 (ucast (drop_bit 32 kTableMagicNumber)))"

text \<open>The magic number is read at a fixed place: an input shorter than a footer is read outside its bounds.\<close>

definition Footer_DecodeFrom :: "slice \<Rightarrow> Footer \<Rightarrow> (Status \<times> Footer \<times> slice) option" where
  "Footer_DecodeFrom input f =
     (if length input < kEncodedLength then None
      else
        (let magic_ptr = drop (kEncodedLength - 8) input;
             magic_lo = DecodeFixed32 magic_ptr;
             magic_hi = DecodeFixed32 (drop 4 magic_ptr);
             magic = push_bit 32 (ucast magic_hi) OR ucast magic_lo
         in Some (if magic \<noteq> kTableMagicNumber
            then (Corruption (lit ''not an sstable (bad magic number)'') [], f, input)
            else
              (let (r, m, input1) = BlockHandle_DecodeFrom input (ft_metaindex_handle f);
                   f1 = f\<lparr>ft_metaindex_handle := m\<rparr>
               in if ok r then
                    (let (r1, i, input2) = BlockHandle_DecodeFrom input1 (ft_index_handle f1);
                         f2 = f1\<lparr>ft_index_handle := i\<rparr>
                     in (r1, f2, if ok r1 then drop kEncodedLength input else input2))
                  else (r, f1, input1)))))"

section \<open>Reading a block\<close>

definition kBlockTrailerSize :: nat where "kBlockTrailerSize = 5"

record BlockContents =
  bc_data :: slice
  bc_cachable :: bool
  bc_heap_allocated :: bool

text \<open>\<open>buf\<close> is the address \<open>new\<close> returned. A read of \<open>data[n]\<close> behind the bytes read is undefined; it happens when
  \<open>n + kBlockTrailerSize\<close> wraps around.\<close>

definition ReadBlock ::
    "'f RandomAccessFile \<Rightarrow> u64 \<Rightarrow> ReadOptions \<Rightarrow> BlockHandle \<Rightarrow> 'f \<Rightarrow> ((Status \<times> BlockContents) \<times> 'f) option" where
  "ReadBlock R buf options handle file =
     (let none = \<lparr>bc_data = [], bc_cachable = False, bc_heap_allocated = False\<rparr>;
          n = unat (bh_size handle);
          total = unat (bh_size handle + word_of_nat kBlockTrailerSize)
      in do {
        ((s, r), file1) \<leftarrow> raf_Read R (bh_offset handle) total buf file;
        (if \<not> ok s then Some ((s, none), file1)
         else
           (let (data, contents) = (case r of None \<Rightarrow> (0, []) | Some x \<Rightarrow> x) in
            if length contents \<noteq> total then Some ((Corruption (lit ''truncated block read'') [], none), file1)
            else if length contents < n + kBlockTrailerSize then None
            else if ro_verify_checksums options \<and>
              Value 0 (take (n + 1) contents) \<noteq> Unmask (DecodeFixed32 (drop (n + 1) contents))
            then Some ((Corruption (lit ''block checksum mismatch'') [], none), file1)
            else if contents ! n = CompressionType_value kNoCompression then
              Some ((OK, if data \<noteq> buf
                then \<lparr>bc_data = take n contents, bc_cachable = False, bc_heap_allocated = False\<rparr>
                else \<lparr>bc_data = take n contents, bc_cachable = True, bc_heap_allocated = True\<rparr>), file1)
            else if contents ! n = CompressionType_value kSnappyCompression then
              (case Snappy_GetUncompressedLength (take n contents) of
                 None \<Rightarrow> Some ((Corruption (lit ''corrupted compressed block contents'') [], none), file1)
               | Some ulength \<Rightarrow>
                   (case Snappy_Uncompress (take n contents) of
                      None \<Rightarrow> Some ((Corruption (lit ''corrupted compressed block contents'') [], none), file1)
                    | Some u \<Rightarrow> Some ((OK, \<lparr>bc_data = u, bc_cachable = True, bc_heap_allocated = True\<rparr>), file1)))
            else Some ((Corruption (lit ''bad block type'') [], none), file1))) })"

section \<open>What is written is read back\<close>

lemma Handle_Encode: "BlockHandle_EncodeTo h dst = dst @ EncodeVarint64 (bh_offset h) @ EncodeVarint64 (bh_size h)"
  by (simp add: BlockHandle_EncodeTo_def PutVarint64_def)

lemma Handle_Decode_Encode: "BlockHandle_DecodeFrom (BlockHandle_EncodeTo h [] @ r) h0 = (OK, h, r)"
  by (cases h; cases h0) (simp add: BlockHandle_DecodeFrom_def Handle_Encode varint64.get_enc)

lemma length_Handle_Encode: "length (BlockHandle_EncodeTo h []) \<le> 20"
  using EncodeVarint64_length [of "bh_offset h"] EncodeVarint64_length [of "bh_size h"] by (simp add: Handle_Encode)

lemma magic_halves:
  "push_bit 32 (ucast (ucast (drop_bit 32 kTableMagicNumber) :: u32)) OR
     ucast (ucast (kTableMagicNumber AND 0xffffffff) :: u32) = kTableMagicNumber"
  by (simp add: kTableMagicNumber_def)

lemma Footer_Encode:
  "\<exists>pad. Footer_EncodeTo f [] = BlockHandle_EncodeTo (ft_metaindex_handle f) [] @
     BlockHandle_EncodeTo (ft_index_handle f) [] @ pad @
     EncodeFixed32 (ucast (kTableMagicNumber AND 0xffffffff)) @ EncodeFixed32 (ucast (drop_bit 32 kTableMagicNumber))"
  "length (Footer_EncodeTo f []) = kEncodedLength"
proof -
  let ?h = "BlockHandle_EncodeTo (ft_metaindex_handle f) [] @ BlockHandle_EncodeTo (ft_index_handle f) []"
  have l: "length ?h \<le> 40"
    using length_Handle_Encode [of "ft_metaindex_handle f"] length_Handle_Encode [of "ft_index_handle f"] by simp
  then have r: "resize 40 ?h = ?h @ replicate (40 - length ?h) 0" by (simp add: resize_def)
  have e: "Footer_EncodeTo f [] = resize 40 ?h @
      EncodeFixed32 (ucast (kTableMagicNumber AND 0xffffffff)) @ EncodeFixed32 (ucast (drop_bit 32 kTableMagicNumber))"
    by (simp add: Footer_EncodeTo_def Let_def PutFixed32_def kMaxEncodedLength_def Handle_Encode)
  then show "\<exists>pad. Footer_EncodeTo f [] = BlockHandle_EncodeTo (ft_metaindex_handle f) [] @
     BlockHandle_EncodeTo (ft_index_handle f) [] @ pad @
     EncodeFixed32 (ucast (kTableMagicNumber AND 0xffffffff)) @ EncodeFixed32 (ucast (drop_bit 32 kTableMagicNumber))"
    using r by auto
  show "length (Footer_EncodeTo f []) = kEncodedLength"
    using l unfolding e by (simp add: resize_def kEncodedLength_def kMaxEncodedLength_def)
qed

lemma Footer_Decode_Encode: "Footer_DecodeFrom (Footer_EncodeTo f [] @ r) f0 = Some (OK, f, r)"
proof -
  obtain pad where e: "Footer_EncodeTo f [] = BlockHandle_EncodeTo (ft_metaindex_handle f) [] @
     BlockHandle_EncodeTo (ft_index_handle f) [] @ pad @
     EncodeFixed32 (ucast (kTableMagicNumber AND 0xffffffff)) @ EncodeFixed32 (ucast (drop_bit 32 kTableMagicNumber))"
    using Footer_Encode(1) by blast
  let ?h = "BlockHandle_EncodeTo (ft_metaindex_handle f) [] @ BlockHandle_EncodeTo (ft_index_handle f) [] @ pad"
  have "length ?h = kEncodedLength - 8" using Footer_Encode(2) [of f] by (simp add: e)
  then have d: "drop (kEncodedLength - 8) (Footer_EncodeTo f [] @ r) =
      EncodeFixed32 (ucast (kTableMagicNumber AND 0xffffffff)) @ EncodeFixed32 (ucast (drop_bit 32 kTableMagicNumber)) @ r"
    by (simp add: e)
  have d4: "drop 4 (EncodeFixed32 x @ y) = y" for x y by simp
  have m: "BlockHandle_DecodeFrom (Footer_EncodeTo f [] @ r) h0 = (OK, ft_metaindex_handle f,
      BlockHandle_EncodeTo (ft_index_handle f) [] @ pad @ EncodeFixed32 (ucast (kTableMagicNumber AND 0xffffffff)) @
      EncodeFixed32 (ucast (drop_bit 32 kTableMagicNumber)) @ r)" for h0
    using Handle_Decode_Encode [of "ft_metaindex_handle f" _ h0] by (simp add: e)
  show ?thesis
    unfolding Footer_DecodeFrom_def Let_def d d4 DecodeFixed32_Encode magic_halves m prod.case
    by (simp add: Footer_Encode(2) Handle_Decode_Encode ok_OK)
qed

text \<open>A block with its trailer, as it lies in the file.\<close>

definition block_trailer :: "CompressionType \<Rightarrow> slice \<Rightarrow> byte list" where
  "block_trailer t data =
     CompressionType_value t # EncodeFixed32 (Mask (Extend 0 (Value 0 data) [CompressionType_value t]))"

lemma length_block_trailer [simp]: "length (block_trailer t data) = kBlockTrailerSize"
  by (simp add: block_trailer_def kBlockTrailerSize_def)

context random_access_file
begin

lemma ReadBlock_written:
  assumes f: "good f" and at: "drop (unat (bh_offset h)) (content f) = data @ block_trailer kNoCompression data @ rest"
    and sz: "bh_size h = word_of_nat (length data)" and fits: "length (content f) < 2 ^ 64"
  shows "\<exists>bc f'. ReadBlock R buf options h f = Some ((OK, bc), f') \<and> bc_data bc = data \<and> good f' \<and> content f' = content f"
proof -
  let ?b = "data @ block_trailer kNoCompression data"
  have le: "unat (bh_offset h) + length ?b \<le> length (content f)"
    using arg_cong [OF at, of length] by (simp add: kBlockTrailerSize_def)
  then have n: "unat (bh_size h) = length data" using fits by (simp add: sz unat_of_nat kBlockTrailerSize_def)
  have "bh_size h + word_of_nat kBlockTrailerSize = word_of_nat (length ?b)" by (simp add: sz)
  moreover have "length ?b < 2 ^ 64" using le fits by linarith
  ultimately have t: "unat (bh_size h + word_of_nat kBlockTrailerSize) = length ?b" by (simp only: unat_of_nat) simp
  obtain a f' where r: "raf_Read R (bh_offset h) (length ?b) buf f =
      Some ((OK, Some (a, take (length ?b) (drop (unat (bh_offset h)) (content f)))), f')" "good f'" "content f' = content f"
    using read_at [OF f le] by blast
  have tk: "take (length ?b) (drop (unat (bh_offset h)) (content f)) = ?b" by (simp add: at)
  have crc: "Value 0 (take (length data + 1) ?b) = Unmask (DecodeFixed32 (drop (length data + 1) ?b))"
    using DecodeFixed32_Encode [of _ "[]"]
    by (simp add: block_trailer_def Unmask_Mask Extend_crc32c Value_def crc32c_append)
  have "?b ! length data = CompressionType_value kNoCompression" "length ?b = length data + kBlockTrailerSize"
    by (simp_all add: block_trailer_def kBlockTrailerSize_def)
  then show ?thesis
    using r(2,3) crc unfolding ReadBlock_def Let_def t n r(1) tk by (auto simp: ok_OK)
qed

end

text \<open>With checksums on, a block is returned only if it lies in the file with the trailer the builder writes.\<close>

lemma ReadBlock_accepts:
  assumes r: "ReadBlock R buf options h f = Some ((OK, bc), f')" and v: "ro_verify_checksums options"
  shows "\<exists>a. raf_Read R (bh_offset h) (unat (bh_size h) + kBlockTrailerSize) buf f =
      Some ((OK, Some (a, bc_data bc @ block_trailer kNoCompression (bc_data bc))), f')"
proof -
  let ?n = "unat (bh_size h)" and ?t = "unat (bh_size h + word_of_nat kBlockTrailerSize)"
  obtain s x f1 where x: "raf_Read R (bh_offset h) ?t buf f = Some ((s, x), f1)"
    using r by (auto simp: ReadBlock_def Let_def bind_eq_Some_conv)
  obtain a contents where c: "(case x of None \<Rightarrow> (0, []) | Some x \<Rightarrow> x) = (a, contents)" by fastforce
  have "ok s" using r x by (cases "ok s") (simp_all add: ReadBlock_def Let_def ok_OK)
  then have s: "s = OK" by (cases s) (simp_all add: OK_def)
  have bad: "Corruption m1 m2 \<noteq> OK" for m1 m2 by (metis Corruption_def ok_OK(1,4))
  have l: "length contents = ?t" "?n + kBlockTrailerSize \<le> length contents"
    "Value 0 (take (?n + 1) contents) = Unmask (DecodeFixed32 (drop (?n + 1) contents))"
    "contents ! ?n = 0" "bc_data bc = take ?n contents" "f1 = f'"
    using r v unfolding ReadBlock_def Let_def x s bind.bind_lunit prod.case c Snappy_GetUncompressedLength_def
    by (auto simp: ok_OK bad split: if_splits)
  have ne: "contents \<noteq> []" using l(2) by (auto simp: kBlockTrailerSize_def)
  then have xs: "x = Some (a, contents)" using c by (cases x) auto
  have "?t \<le> ?n + kBlockTrailerSize" by (simp add: unat_word_ariths kBlockTrailerSize_def)
  then have n: "length contents = ?n + kBlockTrailerSize" using l(1,2) by simp
  have d: "drop (?n + 1) contents = EncodeFixed32 (Mask (Value 0 (take (?n + 1) contents)))"
    using n l(3) EncodeFixed32_Decode [of "drop (?n + 1) contents"] by (simp add: Mask_Unmask kBlockTrailerSize_def)
  have t: "take (?n + 1) contents = take ?n contents @ [0]"
    using n l(4) by (simp add: take_Suc_conv_app_nth kBlockTrailerSize_def)
  have "Value 0 (take ?n contents @ [0]) = Extend 0 (Value 0 (take ?n contents)) [0]"
    by (simp add: Extend_crc32c Value_def crc32c_append)
  then have "contents = bc_data bc @ block_trailer kNoCompression (bc_data bc)"
    using d t append_take_drop_id [of "?n + 1" contents] by (simp add: l(5) block_trailer_def)
  then show ?thesis using x xs s n l(1,6) by simp
qed

end
