(* ===== verification/LdbTwoLevel.thy ===== *)
theory LdbTwoLevel
  imports LdbIterWrapper LdbTableFormat "HOL-Library.Multiset"
begin

text \<open>
  \<open>table/two_level_iterator.cc\<close>: an iterator over the entries of the blocks an
  index iterator points at. The state behind \<open>arg\<close> (for a table, its file and block cache) is part of the
  iterator's state. Deleting a data iterator runs the cleanup that \<open>block_function\<close> registered with it, which may change that
  state; otherwise it is memory management and has no effect here.
\<close>

section \<open>The two-level iterator\<close>

record ('i, 'd, 'k, 'e) TwoLevelIterator =
  tl_options :: ReadOptions
  tl_arg :: 'e
  tl_status :: Status
  tl_index_iter :: "'i IteratorWrapper"
  tl_data_iter :: "'d IteratorWrapper"
  tl_cleanup :: "'k option"
  tl_data_block_handle :: "byte list"

text \<open>The function, and what its cleanups do. The cleanup of the data iterator is kept beside it.\<close>

record ('d, 'k, 'e) BlockFunction =
  bf_open :: "'e \<Rightarrow> ReadOptions \<Rightarrow> slice \<Rightarrow> (('d \<times> 'k) \<times> 'e) option"
  bf_cleanup :: "'k \<Rightarrow> 'e \<Rightarrow> 'e option"

definition NewTwoLevelIterator :: "'i Iterator \<Rightarrow> 'i \<Rightarrow> 'e \<Rightarrow> ReadOptions \<Rightarrow> ('i, 'd, 'k, 'e) TwoLevelIterator" where
  "NewTwoLevelIterator II index_iter arg options =
     \<lparr>tl_options = options, tl_arg = arg, tl_status = OK, tl_index_iter = new_IteratorWrapper II (Some index_iter),
      tl_data_iter = empty_IteratorWrapper, tl_cleanup = None, tl_data_block_handle = []\<rparr>"

definition SaveError :: "Status \<Rightarrow> ('i, 'd, 'k, 'e) TwoLevelIterator \<Rightarrow> ('i, 'd, 'k, 'e) TwoLevelIterator" where
  "SaveError s t = (if ok (tl_status t) \<and> \<not> ok s then t\<lparr>tl_status := s\<rparr> else t)"

definition run_cleanup :: "('d, 'k, 'e) BlockFunction \<Rightarrow> ('i, 'd, 'k, 'e) TwoLevelIterator \<Rightarrow> 'e option" where
  "run_cleanup block_function t =
     (case tl_cleanup t of None \<Rightarrow> Some (tl_arg t) | Some k \<Rightarrow> bf_cleanup block_function k (tl_arg t))"

definition SetDataIterator ::
    "'d Iterator \<Rightarrow> ('d, 'k, 'e) BlockFunction \<Rightarrow> ('d \<times> 'k) option \<Rightarrow> ('i, 'd, 'k, 'e) TwoLevelIterator \<Rightarrow>
     ('i, 'd, 'k, 'e) TwoLevelIterator option" where
  "SetDataIterator ID block_function d t =
     (let t1 = (if iw_iter (tl_data_iter t) \<noteq> None then SaveError (iw_status ID (tl_data_iter t)) t else t) in do {
        arg \<leftarrow> run_cleanup block_function t1;
        Some (t1\<lparr>tl_arg := arg, tl_cleanup := map_option snd d, tl_data_iter := iw_Set ID (map_option fst d) (tl_data_iter t1)\<rparr>) })"

text \<open>The destructor; what remains is the state behind \<open>arg\<close>.\<close>

definition TwoLevel_delete :: "('d, 'k, 'e) BlockFunction \<Rightarrow> ('i, 'd, 'k, 'e) TwoLevelIterator \<Rightarrow> 'e option" where
  "TwoLevel_delete block_function t = run_cleanup block_function t"

definition InitDataBlock ::
    "'i Iterator \<Rightarrow> 'd Iterator \<Rightarrow> ('d, 'k, 'e) BlockFunction \<Rightarrow> ('i, 'd, 'k, 'e) TwoLevelIterator \<Rightarrow>
     ('i, 'd, 'k, 'e) TwoLevelIterator option" where
  "InitDataBlock II ID block_function t =
     (if \<not> iw_valid (tl_index_iter t) then SetDataIterator ID block_function None t
      else
        (let handle = iw_value II (tl_index_iter t) in
         if iw_iter (tl_data_iter t) \<noteq> None \<and> compare handle (tl_data_block_handle t) = 0 then Some t
         else do {
           (iter, arg) \<leftarrow> bf_open block_function (tl_arg t) (tl_options t) handle;
           SetDataIterator ID block_function (Some iter) (t\<lparr>tl_arg := arg, tl_data_block_handle := handle\<rparr>) }))"

text \<open>Moving the index iterator, and the data iterator if there is one.\<close>

definition index_move ::
    "('i IteratorWrapper \<Rightarrow> 'i IteratorWrapper option) \<Rightarrow> ('i, 'd, 'k, 'e) TwoLevelIterator \<Rightarrow> ('i, 'd, 'k, 'e) TwoLevelIterator option" where
  "index_move f t = do { w \<leftarrow> f (tl_index_iter t); Some (t\<lparr>tl_index_iter := w\<rparr>) }"

definition data_move ::
    "('d IteratorWrapper \<Rightarrow> 'd IteratorWrapper option) \<Rightarrow> ('i, 'd, 'k, 'e) TwoLevelIterator \<Rightarrow> ('i, 'd, 'k, 'e) TwoLevelIterator option" where
  "data_move f t =
     (if iw_iter (tl_data_iter t) \<noteq> None then do { w \<leftarrow> f (tl_data_iter t); Some (t\<lparr>tl_data_iter := w\<rparr>) } else Some t)"

partial_function (option) SkipEmptyDataBlocksForward ::
    "'i Iterator \<Rightarrow> 'd Iterator \<Rightarrow> ('d, 'k, 'e) BlockFunction \<Rightarrow> ('i, 'd, 'k, 'e) TwoLevelIterator \<Rightarrow>
     ('i, 'd, 'k, 'e) TwoLevelIterator option" where
  "SkipEmptyDataBlocksForward II ID block_function t =
     (if iw_iter (tl_data_iter t) = None \<or> \<not> iw_valid (tl_data_iter t) then
        (if \<not> iw_valid (tl_index_iter t) then SetDataIterator ID block_function None t
         else do {
           t1 \<leftarrow> index_move (iw_Next II) t;
           t2 \<leftarrow> InitDataBlock II ID block_function t1;
           t3 \<leftarrow> data_move (iw_SeekToFirst ID) t2;
           SkipEmptyDataBlocksForward II ID block_function t3 })
      else Some t)"

partial_function (option) SkipEmptyDataBlocksBackward ::
    "'i Iterator \<Rightarrow> 'd Iterator \<Rightarrow> ('d, 'k, 'e) BlockFunction \<Rightarrow> ('i, 'd, 'k, 'e) TwoLevelIterator \<Rightarrow>
     ('i, 'd, 'k, 'e) TwoLevelIterator option" where
  "SkipEmptyDataBlocksBackward II ID block_function t =
     (if iw_iter (tl_data_iter t) = None \<or> \<not> iw_valid (tl_data_iter t) then
        (if \<not> iw_valid (tl_index_iter t) then SetDataIterator ID block_function None t
         else do {
           t1 \<leftarrow> index_move (iw_Prev II) t;
           t2 \<leftarrow> InitDataBlock II ID block_function t1;
           t3 \<leftarrow> data_move (iw_SeekToLast ID) t2;
           SkipEmptyDataBlocksBackward II ID block_function t3 })
      else Some t)"

definition TwoLevel_Seek ::
    "'i Iterator \<Rightarrow> 'd Iterator \<Rightarrow> ('d, 'k, 'e) BlockFunction \<Rightarrow> slice \<Rightarrow> ('i, 'd, 'k, 'e) TwoLevelIterator \<Rightarrow>
     ('i, 'd, 'k, 'e) TwoLevelIterator option" where
  "TwoLevel_Seek II ID block_function target t = do {
     t1 \<leftarrow> index_move (iw_Seek II target) t;
     t2 \<leftarrow> InitDataBlock II ID block_function t1;
     t3 \<leftarrow> data_move (iw_Seek ID target) t2;
     SkipEmptyDataBlocksForward II ID block_function t3 }"

definition TwoLevel_SeekToFirst ::
    "'i Iterator \<Rightarrow> 'd Iterator \<Rightarrow> ('d, 'k, 'e) BlockFunction \<Rightarrow> ('i, 'd, 'k, 'e) TwoLevelIterator \<Rightarrow>
     ('i, 'd, 'k, 'e) TwoLevelIterator option" where
  "TwoLevel_SeekToFirst II ID block_function t = do {
     t1 \<leftarrow> index_move (iw_SeekToFirst II) t;
     t2 \<leftarrow> InitDataBlock II ID block_function t1;
     t3 \<leftarrow> data_move (iw_SeekToFirst ID) t2;
     SkipEmptyDataBlocksForward II ID block_function t3 }"

definition TwoLevel_SeekToLast ::
    "'i Iterator \<Rightarrow> 'd Iterator \<Rightarrow> ('d, 'k, 'e) BlockFunction \<Rightarrow> ('i, 'd, 'k, 'e) TwoLevelIterator \<Rightarrow>
     ('i, 'd, 'k, 'e) TwoLevelIterator option" where
  "TwoLevel_SeekToLast II ID block_function t = do {
     t1 \<leftarrow> index_move (iw_SeekToLast II) t;
     t2 \<leftarrow> InitDataBlock II ID block_function t1;
     t3 \<leftarrow> data_move (iw_SeekToLast ID) t2;
     SkipEmptyDataBlocksBackward II ID block_function t3 }"

text \<open>\<open>assert(Valid())\<close>, without which \<open>data_iter_\<close> may be null.\<close>

definition TwoLevel_Next ::
    "'i Iterator \<Rightarrow> 'd Iterator \<Rightarrow> ('d, 'k, 'e) BlockFunction \<Rightarrow> ('i, 'd, 'k, 'e) TwoLevelIterator \<Rightarrow>
     ('i, 'd, 'k, 'e) TwoLevelIterator option" where
  "TwoLevel_Next II ID block_function t = do {
     w \<leftarrow> iw_Next ID (tl_data_iter t);
     SkipEmptyDataBlocksForward II ID block_function (t\<lparr>tl_data_iter := w\<rparr>) }"

definition TwoLevel_Prev ::
    "'i Iterator \<Rightarrow> 'd Iterator \<Rightarrow> ('d, 'k, 'e) BlockFunction \<Rightarrow> ('i, 'd, 'k, 'e) TwoLevelIterator \<Rightarrow>
     ('i, 'd, 'k, 'e) TwoLevelIterator option" where
  "TwoLevel_Prev II ID block_function t = do {
     w \<leftarrow> iw_Prev ID (tl_data_iter t);
     SkipEmptyDataBlocksBackward II ID block_function (t\<lparr>tl_data_iter := w\<rparr>) }"

definition TwoLevel_status :: "'i Iterator \<Rightarrow> 'd Iterator \<Rightarrow> ('i, 'd, 'k, 'e) TwoLevelIterator \<Rightarrow> Status" where
  "TwoLevel_status II ID t =
     (if \<not> ok (iw_status II (tl_index_iter t)) then iw_status II (tl_index_iter t)
      else if iw_iter (tl_data_iter t) \<noteq> None \<and> \<not> ok (iw_status ID (tl_data_iter t)) then iw_status ID (tl_data_iter t)
      else tl_status t)"

definition two_level_iterator ::
    "'i Iterator \<Rightarrow> 'd Iterator \<Rightarrow> ('d, 'k, 'e) BlockFunction \<Rightarrow> ('i, 'd, 'k, 'e) TwoLevelIterator Iterator" where
  "two_level_iterator II ID block_function =
     \<lparr>it_Valid = (\<lambda>t. iw_valid (tl_data_iter t)), it_SeekToFirst = TwoLevel_SeekToFirst II ID block_function,
      it_SeekToLast = TwoLevel_SeekToLast II ID block_function, it_Seek = TwoLevel_Seek II ID block_function,
      it_Next = TwoLevel_Next II ID block_function, it_Prev = TwoLevel_Prev II ID block_function,
      it_key = (\<lambda>t. iw_key (tl_data_iter t)), it_value = (\<lambda>t. iw_value ID (tl_data_iter t)),
      it_status = TwoLevel_status II ID\<rparr>"

section \<open>The contract\<close>

text \<open>
  An index with one entry per block. The blocks are opened from their handles, which differ; \<open>env_ok M e\<close> says that \<open>e\<close> is in order
  with the cleanups \<open>M\<close> still to come, \<open>others\<close> of them those of other iterators; this one has one at most when it opens a block. No block is
  empty, and the index separates: a block whose index key is below a target lies below it, and
  the blocks behind one whose index key is not, are not.
\<close>

locale indexed_blocks =
  fixes II :: "'i Iterator" and ID :: "'d Iterator" and block_function :: "('d, 'k, 'e) BlockFunction"
    and cmp :: "slice \<Rightarrow> slice \<Rightarrow> int" and target_ok :: "slice \<Rightarrow> bool"
    and ix :: "(slice \<times> slice) list" and bs :: "(slice \<times> slice) list list"
    and iready :: "'i \<Rightarrow> bool" and ion :: "'i \<Rightarrow> nat \<Rightarrow> bool"
    and dready :: "nat \<Rightarrow> 'd \<Rightarrow> bool" and don :: "nat \<Rightarrow> 'd \<Rightarrow> nat \<Rightarrow> bool"
    and env_ok :: "'k multiset \<Rightarrow> 'e \<Rightarrow> bool" and others :: "'k multiset" and opts :: ReadOptions
  assumes index: "iterator_on II cmp target_ok ix iready ion"
    and data: "j < length ix \<Longrightarrow> iterator_on ID cmp target_ok (bs ! j) (dready j) (don j)"
    and one_each: "length bs = length ix"
    and opens: "M = others + mset (case held of None \<Rightarrow> [] | Some k \<Rightarrow> [k]) \<Longrightarrow> env_ok M e \<Longrightarrow> j < length ix \<Longrightarrow>
      \<exists>d cl e'. bf_open block_function e opts (snd (ix ! j)) = Some ((d, cl), e') \<and> dready j d \<and> env_ok (add_mset cl M) e'"
    and closes: "env_ok (add_mset cl M) e \<Longrightarrow> \<exists>e'. bf_cleanup block_function cl e = Some e' \<and> env_ok M e'"
    and handles: "i < length ix \<Longrightarrow> j < length ix \<Longrightarrow> snd (ix ! i) = snd (ix ! j) \<Longrightarrow> i = j"
    and nonempty: "j < length ix \<Longrightarrow> bs ! j \<noteq> []"
    and below: "target_ok t \<Longrightarrow> j < length ix \<Longrightarrow> cmp (fst (ix ! j)) t < 0 \<Longrightarrow>
      \<forall>e \<in> set (bs ! j). cmp (fst e) t < 0"
    and above: "target_ok t \<Longrightarrow> j < k \<Longrightarrow> k < length ix \<Longrightarrow> \<not> cmp (fst (ix ! j)) t < 0 \<Longrightarrow>
      \<forall>e \<in> set (bs ! k). \<not> cmp (fst e) t < 0"
begin

text \<open>The position of entry \<open>q\<close> of block \<open>j\<close>.\<close>

definition pos :: "nat \<Rightarrow> nat \<Rightarrow> nat" where
  "pos j q = length (concat (take j bs)) + q"

definition index_at :: "'i IteratorWrapper \<Rightarrow> nat \<Rightarrow> bool" where
  "index_at w j \<longleftrightarrow> (\<exists>i. iw_iter w = Some i \<and> ion i j \<and> (iw_valid w \<longleftrightarrow> j < length ix))"

definition data_at :: "'d IteratorWrapper \<Rightarrow> nat \<Rightarrow> nat \<Rightarrow> bool" where
  "data_at w j q \<longleftrightarrow> (\<exists>d. iw_iter w = Some d \<and> don j d q \<and> (iw_valid w \<longleftrightarrow> q < length (bs ! j)) \<and>
     (q < length (bs ! j) \<longrightarrow> iw_key w = fst (bs ! j ! q)))"

text \<open>What holds between moves: the data iterator, if any, stands in the block its handle names.\<close>

definition data_ok :: "('i, 'd, 'k, 'e) TwoLevelIterator \<Rightarrow> bool" where
  "data_ok t \<longleftrightarrow> env_ok (others + mset (case tl_cleanup t of None \<Rightarrow> [] | Some k \<Rightarrow> [k])) (tl_arg t) \<and>
     (tl_cleanup t = None \<longleftrightarrow> iw_iter (tl_data_iter t) = None) \<and> tl_options t = opts \<and> tl_status t = OK \<and>
     (iw_iter (tl_data_iter t) = None \<and> \<not> iw_valid (tl_data_iter t) \<or>
      (\<exists>j q. j < length ix \<and> tl_data_block_handle t = snd (ix ! j) \<and> data_at (tl_data_iter t) j q))"

definition two_ready :: "('i, 'd, 'k, 'e) TwoLevelIterator \<Rightarrow> bool" where
  "two_ready t \<longleftrightarrow> data_ok t \<and> (\<exists>i. iw_iter (tl_index_iter t) = Some i \<and> iready i)"

definition in_block :: "('i, 'd, 'k, 'e) TwoLevelIterator \<Rightarrow> nat \<Rightarrow> nat \<Rightarrow> bool" where
  "in_block t j q \<longleftrightarrow> data_ok t \<and> j < length ix \<and> index_at (tl_index_iter t) j \<and>
     tl_data_block_handle t = snd (ix ! j) \<and> data_at (tl_data_iter t) j q"

definition at_end :: "('i, 'd, 'k, 'e) TwoLevelIterator \<Rightarrow> bool" where
  "at_end t \<longleftrightarrow> data_ok t \<and> index_at (tl_index_iter t) (length ix) \<and>
     iw_iter (tl_data_iter t) = None \<and> \<not> iw_valid (tl_data_iter t)"

definition two_on :: "('i, 'd, 'k, 'e) TwoLevelIterator \<Rightarrow> nat \<Rightarrow> bool" where
  "two_on t p \<longleftrightarrow> (\<exists>j q. in_block t j q \<and> q < length (bs ! j) \<and> p = pos j q) \<or> at_end t \<and> p = length (concat bs)"

lemma data_at_status: "j < length ix \<Longrightarrow> data_at w j q \<Longrightarrow> iw_status ID w = OK"
  using iterator_on.on_status [OF data] by (auto simp: data_at_def iw_status_def)

lemma data_at_le: "j < length ix \<Longrightarrow> data_at w j q \<Longrightarrow> q \<le> length (bs ! j)"
  using iterator_on.on_ready [OF data] by (auto simp: data_at_def)

lemma SetDataIterator_None:
  assumes "data_ok t"
  shows "\<exists>e. SetDataIterator ID block_function None t =
      Some (t\<lparr>tl_arg := e, tl_cleanup := None, tl_data_iter := iw_Set ID None (tl_data_iter t)\<rparr>) \<and> env_ok others e"
proof -
  have "iw_status ID (tl_data_iter t) = OK" if "iw_iter (tl_data_iter t) \<noteq> None"
    using assms that data_at_status by (auto simp: data_ok_def)
  moreover obtain e where "run_cleanup block_function t = Some e" "env_ok others e"
    using assms closes [of _ others "tl_arg t"] by (cases "tl_cleanup t") (auto simp: data_ok_def run_cleanup_def)
  ultimately show ?thesis by (auto simp: SetDataIterator_def SaveError_def ok_OK Let_def)
qed

lemma SetDataIterator_Some:
  assumes t: "data_ok t" and e: "env_ok (add_mset k (others + mset (case tl_cleanup t of None \<Rightarrow> [] | Some k \<Rightarrow> [k]))) e"
  shows "\<exists>e'. SetDataIterator ID block_function (Some (d, k)) (t\<lparr>tl_arg := e, tl_data_block_handle := h\<rparr>) =
      Some (t\<lparr>tl_data_block_handle := h, tl_arg := e', tl_cleanup := Some k, tl_data_iter := iw_Set ID (Some d) (tl_data_iter t)\<rparr>) \<and>
      env_ok (add_mset k others) e'"
proof -
  have st: "iw_status ID (tl_data_iter t) = OK" if "iw_iter (tl_data_iter t) \<noteq> None"
    using t that data_at_status by (auto simp: data_ok_def)
  obtain e' where e': "run_cleanup block_function (t\<lparr>tl_arg := e, tl_data_block_handle := h\<rparr>) = Some e'" "env_ok (add_mset k others) e'"
  proof (cases "tl_cleanup t")
    case None
    then show ?thesis using that e by (simp add: run_cleanup_def)
  next
    case (Some k')
    then have "env_ok (add_mset k' (add_mset k others)) e" using e by (simp add: add_mset_commute)
    from closes [OF this] show ?thesis using that Some by (auto simp: run_cleanup_def)
  qed
  then show ?thesis using st by (auto simp: SetDataIterator_def SaveError_def ok_OK Let_def)
qed

lemma index_update:
  assumes "ion i j"
  shows "index_at (iw_Update II (w\<lparr>iw_iter := Some i\<rparr>)) j"
  using iterator_on.on_valid [OF index assms] assms by (auto simp: index_at_def iw_Update_def Let_def)

lemma data_update:
  assumes "j < length ix" and "don j d q"
  shows "data_at (iw_Update ID (w\<lparr>iw_iter := Some d\<rparr>)) j q"
  using iterator_on.on_valid [OF data [OF assms(1)] assms(2)] iterator_on.on_entry [OF data [OF assms(1)] assms(2)] assms(2)
  by (auto simp: data_at_def iw_Update_def Let_def prod_eq_iff)

text \<open>A move of the index, with the block it leads to; the data iterator is moved into the block next.\<close>

lemma index_moves:
  assumes "data_ok t" and "iw_iter (tl_index_iter t) = Some i" and "f i = Some i'" and "ion i' j"
  shows "\<exists>t'. index_move (iw_move II f) t = Some t' \<and> data_ok t' \<and> index_at (tl_index_iter t') j"
proof -
  have "index_move (iw_move II f) t =
      Some (t\<lparr>tl_index_iter := iw_Update II ((tl_index_iter t)\<lparr>iw_iter := Some i'\<rparr>)\<rparr>)"
    using assms(2,3) by (simp add: index_move_def iw_move_def)
  then show ?thesis using index_update [OF assms(4)] assms(1) by (simp add: data_ok_def)
qed

lemma InitDataBlock_end:
  assumes ok: "data_ok t" and at: "index_at (tl_index_iter t) (length ix)"
  shows "\<exists>t'. InitDataBlock II ID block_function t = Some t' \<and> at_end t'"
proof -
  have "\<not> iw_valid (tl_index_iter t)" using at by (auto simp: index_at_def)
  moreover obtain e where "SetDataIterator ID block_function None t =
      Some (t\<lparr>tl_arg := e, tl_cleanup := None, tl_data_iter := iw_Set ID None (tl_data_iter t)\<rparr>)" "env_ok others e"
    using SetDataIterator_None [OF ok] by blast
  ultimately show ?thesis using ok at by (simp add: InitDataBlock_def at_end_def iw_Set_def data_ok_def)
qed

text \<open>After \<open>InitDataBlock\<close> any move of the data iterator to entry \<open>q\<close> leads there.\<close>

lemma InitDataBlock_in:
  assumes okt: "data_ok t" and at: "index_at (tl_index_iter t) j" and j: "j < length ix"
    and f: "\<And>d. dready j d \<Longrightarrow> \<exists>d'. f d = Some d' \<and> don j d' q"
  shows "\<exists>t1 t2. InitDataBlock II ID block_function t = Some t1 \<and> data_move (iw_move ID f) t1 = Some t2 \<and> in_block t2 j q"
proof -
  obtain i where i: "iw_iter (tl_index_iter t) = Some i" "ion i j" "iw_valid (tl_index_iter t)"
    using at j by (auto simp: index_at_def)
  have v: "iw_value II (tl_index_iter t) = snd (ix ! j)"
    using iterator_on.on_entry [OF index i(2) j] i(1) by (simp add: iw_value_def prod_eq_iff)
  have moved: "\<exists>t2. data_move (iw_move ID f) t1 = Some t2 \<and> in_block t2 j q"
    if t1: "iw_iter (tl_data_iter t1) = Some d" "dready j d" "tl_data_block_handle t1 = snd (ix ! j)"
      "env_ok (others + mset (case tl_cleanup t1 of None \<Rightarrow> [] | Some k \<Rightarrow> [k])) (tl_arg t1)" "tl_cleanup t1 \<noteq> None"
      "tl_options t1 = opts" "tl_status t1 = OK" "tl_index_iter t1 = tl_index_iter t" for t1 d
  proof -
    obtain d' where d': "f d = Some d'" "don j d' q" using f [OF t1(2)] by blast
    have "data_move (iw_move ID f) t1 =
        Some (t1\<lparr>tl_data_iter := iw_Update ID ((tl_data_iter t1)\<lparr>iw_iter := Some d'\<rparr>)\<rparr>)"
      using t1(1) d'(1) by (simp add: data_move_def iw_move_def)
    then show ?thesis
      using data_update [OF j d'(2)] t1(1,3-8) at j by (auto simp: in_block_def data_ok_def)
  qed
  show ?thesis
  proof (cases "iw_iter (tl_data_iter t) \<noteq> None \<and> compare (snd (ix ! j)) (tl_data_block_handle t) = 0")
    case True
    then obtain j' q' where j': "j' < length ix" "tl_data_block_handle t = snd (ix ! j')" "data_at (tl_data_iter t) j' q'"
      using okt by (auto simp: data_ok_def)
    then have "j' = j" using handles [OF j'(1) j] True by (simp add: compare_simps)
    then obtain d where d: "iw_iter (tl_data_iter t) = Some d" "don j d q'" using j'(3) by (auto simp: data_at_def)
    then have "dready j d" using iterator_on.on_ready [OF data [OF j]] by blast
    then have "\<exists>t2. data_move (iw_move ID f) t = Some t2 \<and> in_block t2 j q"
      using moved [of t d] d(1) j'(2) \<open>j' = j\<close> okt by (auto simp: data_ok_def)
    moreover have "InitDataBlock II ID block_function t = Some t" using True i(3) v by (simp add: InitDataBlock_def Let_def)
    ultimately show ?thesis by blast
  next
    case False
    obtain d k e' where d: "bf_open block_function (tl_arg t) opts (snd (ix ! j)) = Some ((d, k), e')" "dready j d"
      "env_ok (add_mset k (others + mset (case tl_cleanup t of None \<Rightarrow> [] | Some k \<Rightarrow> [k]))) e'"
      using opens [OF refl _ j] okt unfolding data_ok_def by blast
    obtain e2 where e2: "SetDataIterator ID block_function (Some (d, k)) (t\<lparr>tl_arg := e', tl_data_block_handle := snd (ix ! j)\<rparr>) =
      Some (t\<lparr>tl_data_block_handle := snd (ix ! j), tl_arg := e2, tl_cleanup := Some k,
        tl_data_iter := iw_Set ID (Some d) (tl_data_iter t)\<rparr>)" "env_ok (add_mset k others) e2"
      using SetDataIterator_Some [OF okt d(3)] by blast
    let ?t = "t\<lparr>tl_data_block_handle := snd (ix ! j), tl_arg := e2, tl_cleanup := Some k,
        tl_data_iter := iw_Set ID (Some d) (tl_data_iter t)\<rparr>"
    have init: "InitDataBlock II ID block_function t = Some ?t"
      using i(3) v d(1) e2(1) okt unfolding InitDataBlock_def Let_def data_ok_def v if_not_P [OF False] by simp
    have "iw_iter (iw_Set ID (Some d) w) = Some d" for w by (simp add: iw_Set_def iw_Update_def Let_def)
    then show ?thesis
      using init moved [of ?t d] d(2) e2(2) okt by (simp add: data_ok_def)
  qed
qed

text \<open>The loops that skip empty blocks end at once, as no block is empty.\<close>

lemma forward_stops:
  assumes "in_block t j q" and "q < length (bs ! j)"
  shows "SkipEmptyDataBlocksForward II ID block_function t = Some t \<and> two_on t (pos j q)"
proof -
  have "iw_iter (tl_data_iter t) \<noteq> None" "iw_valid (tl_data_iter t)"
    using assms by (auto simp: in_block_def data_at_def)
  then show ?thesis using assms by (subst SkipEmptyDataBlocksForward.simps) (auto simp: two_on_def)
qed

lemma backward_stops:
  assumes "in_block t j q" and "q < length (bs ! j)"
  shows "SkipEmptyDataBlocksBackward II ID block_function t = Some t \<and> two_on t (pos j q)"
proof -
  have "iw_iter (tl_data_iter t) \<noteq> None" "iw_valid (tl_data_iter t)"
    using assms by (auto simp: in_block_def data_at_def)
  then show ?thesis using assms by (subst SkipEmptyDataBlocksBackward.simps) (auto simp: two_on_def)
qed

lemma end_SetData:
  assumes t: "at_end t"
  shows "SetDataIterator ID block_function None t = Some t"
proof -
  have "tl_cleanup t = None" "iw_iter (tl_data_iter t) = None" "\<not> iw_valid (tl_data_iter t)"
    using t by (auto simp: at_end_def data_ok_def)
  then show ?thesis
    by (cases t; cases "tl_data_iter t") (simp add: SetDataIterator_def run_cleanup_def iw_Set_def Let_def)
qed

lemma ends:
  assumes "at_end t"
  shows "data_move f t = Some t"
    "SkipEmptyDataBlocksForward II ID block_function t = Some t" "SkipEmptyDataBlocksBackward II ID block_function t = Some t"
    "two_on t (length (concat bs))"
proof -
  have d: "iw_iter (tl_data_iter t) = None" "\<not> iw_valid (tl_index_iter t)"
    using assms by (auto simp: at_end_def index_at_def)
  show "data_move f t = Some t" using d(1) by (simp add: data_move_def)
  show "SkipEmptyDataBlocksForward II ID block_function t = Some t"
    using d end_SetData [OF assms] by (subst SkipEmptyDataBlocksForward.simps) simp
  show "SkipEmptyDataBlocksBackward II ID block_function t = Some t"
    using d end_SetData [OF assms] by (subst SkipEmptyDataBlocksBackward.simps) simp
  show "two_on t (length (concat bs))" using assms by (simp add: two_on_def)
qed

lemma pos_Suc: "j < length ix \<Longrightarrow> pos j (length (bs ! j)) = pos (Suc j) 0"
  using one_each by (simp add: pos_def take_Suc_conv_app_nth)

lemma pos_end: "pos (length ix) 0 = length (concat bs)"
  using one_each by (simp add: pos_def)

lemma first_in: "j < length ix \<Longrightarrow> dready j d \<Longrightarrow> \<exists>d'. it_SeekToFirst ID d = Some d' \<and> don j d' 0"
  using iterator_on.seek_to_first [OF data] by blast

lemma last_in: "j < length ix \<Longrightarrow> dready j d \<Longrightarrow> \<exists>d'. it_SeekToLast ID d = Some d' \<and> don j d' (length (bs ! j) - 1)"
  using iterator_on.seek_to_last [OF data] nonempty by fastforce

lemma Init_first:
  "data_ok t \<Longrightarrow> index_at (tl_index_iter t) j \<Longrightarrow> j < length ix \<Longrightarrow>
   \<exists>t2 t3. InitDataBlock II ID block_function t = Some t2 \<and> data_move (iw_SeekToFirst ID) t2 = Some t3 \<and> in_block t3 j 0"
  unfolding iw_SeekToFirst_def by (rule InitDataBlock_in) (simp_all add: first_in)

lemma Init_last:
  "data_ok t \<Longrightarrow> index_at (tl_index_iter t) j \<Longrightarrow> j < length ix \<Longrightarrow>
   \<exists>t2 t3. InitDataBlock II ID block_function t = Some t2 \<and> data_move (iw_SeekToLast ID) t2 = Some t3 \<and>
     in_block t3 j (length (bs ! j) - 1)"
  unfolding iw_SeekToLast_def by (rule InitDataBlock_in) (use last_in in simp_all)

lemma Init_seek:
  "target_ok k \<Longrightarrow> data_ok t \<Longrightarrow> index_at (tl_index_iter t) j \<Longrightarrow> j < length ix \<Longrightarrow>
   \<exists>t2 t3. InitDataBlock II ID block_function t = Some t2 \<and> data_move (iw_Seek ID k) t2 = Some t3 \<and>
     in_block t3 j (first_at_or_past cmp k (bs ! j))"
  unfolding iw_Seek_def by (rule InitDataBlock_in) (use iterator_on.seek [OF data] in simp_all)

text \<open>Behind the last entry of a block the loop goes on to the first entry of the next block, or to the end.\<close>

lemma forward_on:
  assumes t: "in_block t j (length (bs ! j))"
  shows "\<exists>t'. SkipEmptyDataBlocksForward II ID block_function t = Some t' \<and> two_on t' (pos (Suc j) 0)"
proof -
  have j: "j < length ix" "data_ok t" using t by (simp_all add: in_block_def)
  obtain i where i: "iw_iter (tl_index_iter t) = Some i" "ion i j" "iw_valid (tl_index_iter t)"
    using t j by (auto simp: in_block_def index_at_def)
  have out: "\<not> iw_valid (tl_data_iter t)" using t by (auto simp: in_block_def data_at_def)
  obtain i' where "it_Next II i = Some i'" "ion i' (j + 1)" using iterator_on.move_next [OF index i(2) j(1)] by blast
  then obtain t1 where t1: "index_move (iw_Next II) t = Some t1" "data_ok t1" "index_at (tl_index_iter t1) (Suc j)"
    using index_moves [where f = "it_Next II", OF j(2) i(1)] unfolding iw_Next_def by auto
  show ?thesis
  proof (cases "Suc j < length ix")
    case True
    obtain t2 t3 where t3: "InitDataBlock II ID block_function t1 = Some t2" "data_move (iw_SeekToFirst ID) t2 = Some t3"
      "in_block t3 (Suc j) 0"
      using Init_first [OF t1(2,3) True] by blast
    have "0 < length (bs ! Suc j)" using nonempty [OF True] by simp
    then show ?thesis
      using forward_stops [OF t3(3)] t1(1) t3(1,2) out i(3) by (subst SkipEmptyDataBlocksForward.simps) simp
  next
    case False
    then have l: "Suc j = length ix" using j by simp
    obtain t2 where t2: "InitDataBlock II ID block_function t1 = Some t2" "at_end t2"
      using InitDataBlock_end [OF t1(2)] t1(3) l by auto
    show ?thesis
      using ends [OF t2(2)] t1(1) t2(1) out i(3) l pos_end by (subst SkipEmptyDataBlocksForward.simps) simp
  qed
qed

lemma backward_on:
  assumes t: "in_block t j (length (bs ! j))"
  shows "\<exists>t'. SkipEmptyDataBlocksBackward II ID block_function t = Some t' \<and>
    two_on t' (if j = 0 then length (concat bs) else pos (j - 1) (length (bs ! (j - 1)) - 1))"
proof -
  have j: "j < length ix" "data_ok t" using t by (simp_all add: in_block_def)
  obtain i where i: "iw_iter (tl_index_iter t) = Some i" "ion i j" "iw_valid (tl_index_iter t)"
    using t j by (auto simp: in_block_def index_at_def)
  have out: "\<not> iw_valid (tl_data_iter t)" using t by (auto simp: in_block_def data_at_def)
  obtain i' where "it_Prev II i = Some i'" "ion i' (if j = 0 then length ix else j - 1)"
    using iterator_on.move_prev [OF index i(2) j(1)] by blast
  then obtain t1 where t1: "index_move (iw_Prev II) t = Some t1" "data_ok t1"
    "index_at (tl_index_iter t1) (if j = 0 then length ix else j - 1)"
    using index_moves [where f = "it_Prev II", OF j(2) i(1)] unfolding iw_Prev_def by blast
  show ?thesis
  proof (cases "j = 0")
    case False
    then have j1: "j - 1 < length ix" using j by simp
    obtain t2 t3 where t3: "InitDataBlock II ID block_function t1 = Some t2" "data_move (iw_SeekToLast ID) t2 = Some t3"
      "in_block t3 (j - 1) (length (bs ! (j - 1)) - 1)"
      using Init_last [OF t1(2) _ j1] t1(3) False by auto
    have "length (bs ! (j - 1)) - 1 < length (bs ! (j - 1))" using nonempty [OF j1] by simp
    then show ?thesis
      using backward_stops [OF t3(3)] t1(1) t3(1,2) out i(3) False
      by (subst SkipEmptyDataBlocksBackward.simps) simp
  next
    case True
    obtain t2 where t2: "InitDataBlock II ID block_function t1 = Some t2" "at_end t2"
      using InitDataBlock_end [OF t1(2)] t1(3) True by auto
    show ?thesis
      using ends [OF t2(2)] t1(1) t2(1) out i(3) True by (subst SkipEmptyDataBlocksBackward.simps) simp
  qed
qed

lemma first_at_or_past_concat:
  assumes t: "target_ok t" and j: "j = first_at_or_past cmp t ix"
  shows "first_at_or_past cmp t (concat bs) =
    (if j < length ix then pos j (first_at_or_past cmp t (bs ! j)) else length (concat bs))"
proof -
  have lt: "cmp (fst (ix ! i)) t < 0" if "i < j" for i
    using that unfolding j first_at_or_past_def by (metis nth_mem set_takeWhileD takeWhile_nth)
  have jl: "j \<le> length ix" unfolding j first_at_or_past_def by (rule length_takeWhile_le)
  have before: "cmp (fst e) t < 0" if "e \<in> set (concat (take j bs))" for e
  proof -
    obtain b where b: "b \<in> set (take j bs)" "e \<in> set b" using \<open>e \<in> set (concat (take j bs))\<close> by auto
    then obtain i where "i < j" "i < length bs" "b = bs ! i" by (auto simp: in_set_conv_nth)
    then show ?thesis using below [OF t _ lt] b(2) one_each by auto
  qed
  show ?thesis
  proof (cases "j < length ix")
    case True
    have ge: "\<not> cmp (fst (ix ! j)) t < 0"
      using True unfolding j first_at_or_past_def by (metis nth_length_takeWhile)
    have after: "\<not> cmp (fst e) t < 0" if "e \<in> set (concat (drop (Suc j) bs))" for e
    proof -
      obtain b where b: "b \<in> set (drop (Suc j) bs)" "e \<in> set b" using \<open>e \<in> set (concat (drop (Suc j) bs))\<close> by auto
      then obtain i where "i < length bs - Suc j" "b = bs ! (Suc j + i)" by (auto simp: in_set_conv_nth)
      then show ?thesis using above [OF t _ _ ge, of "Suc j + i"] b(2) one_each by auto
    qed
    have split: "concat bs = concat (take j bs) @ bs ! j @ concat (drop (Suc j) bs)"
      using True one_each by (metis concat.simps(2) concat_append id_take_nth_drop)
    have none: "takeWhile (\<lambda>e. cmp (fst e) t < 0) (concat (drop (Suc j) bs)) = []"
      using after by (metis list.set_sel(1) takeWhile_eq_Nil_iff)
    have short: "length (takeWhile P (xs @ ys)) = length (takeWhile P xs)" if "takeWhile P ys = []"
      for P and xs ys :: "(slice \<times> slice) list"
      using that by (induction xs) auto
    have all: "length (takeWhile P (xs @ ys)) = length xs + length (takeWhile P ys)" if "\<forall>x \<in> set xs. P x"
      for P and xs ys :: "(slice \<times> slice) list"
      using that by (induction xs) auto
    have "length (takeWhile (\<lambda>e. cmp (fst e) t < 0) (concat bs)) =
        length (concat (take j bs)) + length (takeWhile (\<lambda>e. cmp (fst e) t < 0) (bs ! j @ concat (drop (Suc j) bs)))"
      unfolding split by (rule all) (use before in blast)
    then show ?thesis using True by (simp only: first_at_or_past_def pos_def short [OF none] if_True)
  next
    case False
    then have "take j bs = bs" using jl one_each by simp
    then have "takeWhile (\<lambda>e. cmp (fst e) t < 0) (concat bs) = concat bs"
      using before by (intro takeWhile_eq_all_conv [THEN iffD2]) auto
    then show ?thesis unfolding first_at_or_past_def if_not_P [OF False] by (simp only:)
  qed
qed

lemma nth_concat: "j < length ix \<Longrightarrow> q < length (bs ! j) \<Longrightarrow> concat bs ! pos j q = bs ! j ! q \<and> pos j q < length (concat bs)"
proof -
  assume j: "j < length ix" and q: "q < length (bs ! j)"
  have "concat bs = concat (take j bs) @ bs ! j @ concat (drop (Suc j) bs)"
    using j one_each by (metis concat.simps(2) concat_append id_take_nth_drop)
  then show ?thesis using q by (simp add: pos_def nth_append)
qed

lemma total_end: "ix = [] \<Longrightarrow> concat bs = []"
  using one_each by simp

lemma concat_last:
  assumes "ix \<noteq> []"
  shows "pos (length ix - 1) (length (bs ! (length ix - 1)) - 1) = length (concat bs) - 1" "concat bs \<noteq> []"
proof -
  have j: "length ix - 1 < length ix" using assms by simp
  have "pos (length ix - 1) (length (bs ! (length ix - 1))) = length (concat bs)"
    using pos_Suc [OF j] pos_end assms by simp
  moreover have "0 < length (bs ! (length ix - 1))" using nonempty [OF j] by simp
  ultimately have "pos (length ix - 1) (length (bs ! (length ix - 1)) - 1) = length (concat bs) - 1 \<and>
      0 < length (concat bs)"
    unfolding pos_def by linarith
  then show "pos (length ix - 1) (length (bs ! (length ix - 1)) - 1) = length (concat bs) - 1" "concat bs \<noteq> []"
    by (simp_all only: length_greater_0_conv simp_thms)
qed

lemma two_Seek:
  assumes r: "two_ready t" and k: "target_ok k"
  shows "\<exists>t'. TwoLevel_Seek II ID block_function k t = Some t' \<and> two_on t' (first_at_or_past cmp k (concat bs))"
proof -
  let ?j = "first_at_or_past cmp k ix"
  obtain i where i: "iw_iter (tl_index_iter t) = Some i" "iready i" "data_ok t" using r by (auto simp: two_ready_def)
  obtain i' where i': "it_Seek II k i = Some i'" "ion i' ?j" using iterator_on.seek [OF index i(2) k] by blast
  obtain t1 where t1: "index_move (iw_Seek II k) t = Some t1" "data_ok t1" "index_at (tl_index_iter t1) ?j"
    using index_moves [where f = "it_Seek II k", OF i(3,1) i'] unfolding iw_Seek_def by blast
  note f = first_at_or_past_concat [OF k refl]
  have "?j \<le> length ix" unfolding first_at_or_past_def by (rule length_takeWhile_le)
  then consider "?j < length ix" | "?j = length ix" by linarith
  then show ?thesis
  proof cases
    case 1
    let ?q = "first_at_or_past cmp k (bs ! ?j)"
    obtain t2 t3 where t3: "InitDataBlock II ID block_function t1 = Some t2" "data_move (iw_Seek ID k) t2 = Some t3"
      "in_block t3 ?j ?q"
      using Init_seek [OF k t1(2,3) 1] by blast
    have "?q \<le> length (bs ! ?j)" unfolding first_at_or_past_def by (rule length_takeWhile_le)
    then consider (inside) "?q < length (bs ! ?j)" | (behind) "?q = length (bs ! ?j)" by linarith
    then show ?thesis
    proof cases
      case inside
      then show ?thesis using forward_stops [OF t3(3)] t1(1) t3(1,2) f 1 by (simp add: TwoLevel_Seek_def)
    next
      case behind
      then show ?thesis
        using forward_on [of t3 ?j] t1(1) t3 f 1 pos_Suc [OF 1] by (simp add: TwoLevel_Seek_def)
    qed
  next
    case 2
    obtain t2 where t2: "InitDataBlock II ID block_function t1 = Some t2" "at_end t2"
      using InitDataBlock_end [OF t1(2)] t1(3) 2 by auto
    then show ?thesis using ends [OF t2(2)] t1(1) f 2 by (simp add: TwoLevel_Seek_def)
  qed
qed

lemma two_SeekToFirst:
  assumes r: "two_ready t"
  shows "\<exists>t'. TwoLevel_SeekToFirst II ID block_function t = Some t' \<and> two_on t' 0"
proof -
  obtain i where i: "iw_iter (tl_index_iter t) = Some i" "iready i" "data_ok t" using r by (auto simp: two_ready_def)
  obtain i' where i': "it_SeekToFirst II i = Some i'" "ion i' 0" using iterator_on.seek_to_first [OF index i(2)] by blast
  obtain t1 where t1: "index_move (iw_SeekToFirst II) t = Some t1" "data_ok t1" "index_at (tl_index_iter t1) 0"
    using index_moves [where f = "it_SeekToFirst II", OF i(3,1) i'] unfolding iw_SeekToFirst_def by blast
  show ?thesis
  proof (cases "ix = []")
    case True
    obtain t2 where t2: "InitDataBlock II ID block_function t1 = Some t2" "at_end t2"
      using InitDataBlock_end [OF t1(2)] t1(3) True by auto
    then show ?thesis using ends [OF t2(2)] t1(1) total_end [OF True] by (simp add: TwoLevel_SeekToFirst_def)
  next
    case False
    then have j: "0 < length ix" by simp
    obtain t2 t3 where t3: "InitDataBlock II ID block_function t1 = Some t2" "data_move (iw_SeekToFirst ID) t2 = Some t3"
      "in_block t3 0 0"
      using Init_first [OF t1(2,3) j] by blast
    have "0 < length (bs ! 0)" "pos 0 0 = 0" using nonempty [OF j] by (simp_all add: pos_def)
    then show ?thesis using forward_stops [OF t3(3)] t1(1) t3(1,2) by (simp add: TwoLevel_SeekToFirst_def)
  qed
qed

lemma two_SeekToLast:
  assumes r: "two_ready t"
  shows "\<exists>t'. TwoLevel_SeekToLast II ID block_function t = Some t' \<and>
    two_on t' (if concat bs = [] then 0 else length (concat bs) - 1)"
proof -
  obtain i where i: "iw_iter (tl_index_iter t) = Some i" "iready i" "data_ok t" using r by (auto simp: two_ready_def)
  obtain i' where i': "it_SeekToLast II i = Some i'" "ion i' (if ix = [] then 0 else length ix - 1)"
    using iterator_on.seek_to_last [OF index i(2)] by blast
  obtain t1 where t1: "index_move (iw_SeekToLast II) t = Some t1" "data_ok t1"
    "index_at (tl_index_iter t1) (if ix = [] then 0 else length ix - 1)"
    using index_moves [where f = "it_SeekToLast II", OF i(3,1) i'] unfolding iw_SeekToLast_def by blast
  show ?thesis
  proof (cases "ix = []")
    case True
    obtain t2 where t2: "InitDataBlock II ID block_function t1 = Some t2" "at_end t2"
      using InitDataBlock_end [OF t1(2)] t1(3) True by auto
    then show ?thesis using ends [OF t2(2)] t1(1) total_end [OF True] by (simp add: TwoLevel_SeekToLast_def)
  next
    case False
    let ?j = "length ix - 1"
    have j: "?j < length ix" using False by simp
    obtain t2 t3 where t3: "InitDataBlock II ID block_function t1 = Some t2" "data_move (iw_SeekToLast ID) t2 = Some t3"
      "in_block t3 ?j (length (bs ! ?j) - 1)"
      using Init_last [OF t1(2) _ j] t1(3) False by auto
    have "length (bs ! ?j) - 1 < length (bs ! ?j)" using nonempty [OF j] by simp
    then show ?thesis
      using backward_stops [OF t3(3)] t1(1) t3(1,2) concat_last [OF False]
      by (simp add: TwoLevel_SeekToLast_def del: length_concat concat_eq_Nil_conv)
  qed
qed

lemma two_Next:
  assumes t: "two_on t p" and p: "p < length (concat bs)"
  shows "\<exists>t'. TwoLevel_Next II ID block_function t = Some t' \<and> two_on t' (p + 1)"
proof -
  obtain j q where b: "in_block t j q" "q < length (bs ! j)" "p = pos j q" using t p by (auto simp: two_on_def)
  have j: "j < length ix" using b(1) by (simp add: in_block_def)
  obtain d where d: "iw_iter (tl_data_iter t) = Some d" "don j d q" using b(1) by (auto simp: in_block_def data_at_def)
  obtain d' where d': "it_Next ID d = Some d'" "don j d' (q + 1)" using iterator_on.move_next [OF data [OF j] d(2) b(2)] by blast
  let ?t = "t\<lparr>tl_data_iter := iw_Update ID ((tl_data_iter t)\<lparr>iw_iter := Some d'\<rparr>)\<rparr>"
  have n: "TwoLevel_Next II ID block_function t = SkipEmptyDataBlocksForward II ID block_function ?t"
    using d(1) d'(1) by (simp add: TwoLevel_Next_def iw_Next_def iw_move_def)
  have i: "in_block ?t j (q + 1)"
    using b(1) d(1) data_update [OF j d'(2)] by (auto simp: in_block_def data_ok_def)
  have p1: "pos j (q + 1) = p + 1" by (simp add: pos_def b(3))
  show ?thesis
  proof (cases "q + 1 < length (bs ! j)")
    case True
    then show ?thesis using forward_stops [OF i True] n p1 by simp
  next
    case False
    then have l: "q + 1 = length (bs ! j)" using b(2) by simp
    then show ?thesis using forward_on [of ?t j] i n p1 pos_Suc [OF j] by simp
  qed
qed

lemma two_Prev:
  assumes t: "two_on t p" and p: "p < length (concat bs)"
  shows "\<exists>t'. TwoLevel_Prev II ID block_function t = Some t' \<and> two_on t' (if p = 0 then length (concat bs) else p - 1)"
proof -
  obtain j q where b: "in_block t j q" "q < length (bs ! j)" "p = pos j q" using t p by (auto simp: two_on_def)
  have j: "j < length ix" using b(1) by (simp add: in_block_def)
  obtain d where d: "iw_iter (tl_data_iter t) = Some d" "don j d q" using b(1) by (auto simp: in_block_def data_at_def)
  obtain d' where d': "it_Prev ID d = Some d'" "don j d' (if q = 0 then length (bs ! j) else q - 1)"
    using iterator_on.move_prev [OF data [OF j] d(2) b(2)] by blast
  let ?t = "t\<lparr>tl_data_iter := iw_Update ID ((tl_data_iter t)\<lparr>iw_iter := Some d'\<rparr>)\<rparr>"
  have n: "TwoLevel_Prev II ID block_function t = SkipEmptyDataBlocksBackward II ID block_function ?t"
    using d(1) d'(1) by (simp add: TwoLevel_Prev_def iw_Prev_def iw_move_def)
  have i: "in_block ?t j (if q = 0 then length (bs ! j) else q - 1)"
    using b(1) d(1) data_update [OF j d'(2)] by (auto simp: in_block_def data_ok_def)
  show ?thesis
  proof (cases "q = 0")
    case False
    then have q: "q - 1 < length (bs ! j)" and p1: "pos j (q - 1) = p - 1" "p \<noteq> 0" using b by (simp_all add: pos_def)
    then show ?thesis using backward_stops [of ?t j "q - 1"] i n False by simp
  next
    case True
    show ?thesis
    proof (cases "j = 0")
      case True
      then have "p = 0" using b(3) \<open>q = 0\<close> by (simp add: pos_def)
      then show ?thesis using backward_on [of ?t j] i n \<open>q = 0\<close> True by (simp del: length_concat)
    next
      case False
      then have j1: "j - 1 < length ix" using j by simp
      have "pos (j - 1) (length (bs ! (j - 1))) = p" using pos_Suc [OF j1] False b(3) \<open>q = 0\<close> by simp
      moreover have "0 < length (bs ! (j - 1))" using nonempty [OF j1] by simp
      ultimately have "pos (j - 1) (length (bs ! (j - 1)) - 1) = p - 1" "p \<noteq> 0" unfolding pos_def by linarith+
      then show ?thesis using backward_on [of ?t j] i n \<open>q = 0\<close> False by simp
    qed
  qed
qed

lemma two_on_status:
  assumes "two_on t p"
  shows "TwoLevel_status II ID t = OK"
proof -
  have "iw_status II (tl_index_iter t) = OK"
    using assms iterator_on.on_status [OF index] by (auto simp: two_on_def in_block_def at_end_def index_at_def iw_status_def)
  moreover have "iw_status ID (tl_data_iter t) = OK" if "iw_iter (tl_data_iter t) \<noteq> None"
    using assms that data_at_status by (auto simp: two_on_def in_block_def at_end_def)
  moreover have "tl_status t = OK" using assms by (auto simp: two_on_def in_block_def at_end_def data_ok_def)
  ultimately show ?thesis by (auto simp: TwoLevel_status_def ok_OK)
qed

lemma two_on_ready: "two_on t p \<Longrightarrow> two_ready t"
  using iterator_on.on_ready [OF index] unfolding two_on_def two_ready_def in_block_def at_end_def index_at_def by blast

theorem two_level_iterator_on:
  "iterator_on (two_level_iterator II ID block_function) cmp target_ok (concat bs) two_ready two_on"
proof (unfold_locales, goal_cases)
  case (1 t p)
  have "p \<le> length (concat bs)"
    using 1 nth_concat unfolding two_on_def in_block_def by (metis less_imp_le order_refl)
  then show ?case using two_on_ready [OF 1] by blast
next
  case (2 t p)
  have "iw_valid (tl_data_iter t) \<longleftrightarrow> p < length (concat bs)"
    using 2 nth_concat unfolding two_on_def in_block_def data_at_def at_end_def by blast
  then show ?case by (simp only: two_level_iterator_def Iterator.simps)
next
  case (3 t p)
  then obtain j q where b: "in_block t j q" "q < length (bs ! j)" "p = pos j q" by (auto simp: two_on_def)
  have j: "j < length ix" using b(1) by (simp add: in_block_def)
  obtain d where d: "iw_iter (tl_data_iter t) = Some d" "don j d q" "iw_key (tl_data_iter t) = fst (bs ! j ! q)"
    using b(1,2) by (auto simp: in_block_def data_at_def)
  then show ?case
    using nth_concat [OF j b(2)] iterator_on.on_entry [OF data [OF j] d(2) b(2)] b(3)
    by (simp add: two_level_iterator_def iw_value_def prod_eq_iff)
next
  case (4 t p)
  then show ?case using two_on_status by (simp add: two_level_iterator_def)
next
  case (5 t)
  then show ?case using two_SeekToFirst by (simp add: two_level_iterator_def)
next
  case (6 t)
  show ?case using two_SeekToLast [OF 6] by (simp only: two_level_iterator_def Iterator.simps)
next
  case (7 t k)
  then show ?case using two_Seek by (simp add: two_level_iterator_def)
next
  case (8 t p)
  then show ?case using two_Next by (simp add: two_level_iterator_def)
next
  case (9 t p)
  show ?case using two_Prev [OF 9] by (simp only: two_level_iterator_def Iterator.simps)
qed

lemma new_two_ready: "iready i \<Longrightarrow> env_ok others e \<Longrightarrow> two_ready (NewTwoLevelIterator II i e opts)"
  by (simp add: two_ready_def data_ok_def NewTwoLevelIterator_def new_IteratorWrapper_def iw_Set_def iw_Update_def
      empty_IteratorWrapper_def Let_def)

text \<open>Deleting the iterator leaves the cleanups of the others.\<close>

lemma two_delete: "two_ready t \<Longrightarrow> \<exists>e. TwoLevel_delete block_function t = Some e \<and> env_ok others e"
  using closes [of _ others "tl_arg t"]
  by (cases "tl_cleanup t") (auto simp: two_ready_def data_ok_def run_cleanup_def TwoLevel_delete_def)

end

end
