(* ===== verification/LdbFilterBlock.thy ===== *)
theory LdbFilterBlock
  imports LdbBloom
begin

text \<open>
  \<open>table/filter_block.h\<close> and \<open>table/filter_block.cc\<close>: the filters of a table. The builder collects the keys of
  2KB of data into one filter; the reader finds the filter of a data block by the block's offset.
\<close>

section \<open>The builder\<close>

definition kFilterBaseLg :: nat where "kFilterBaseLg = 11"
definition kFilterBase :: nat where "kFilterBase = push_bit kFilterBaseLg 1"

record FilterBlockBuilder =
  fb_policy :: FilterPolicy
  fb_keys :: "byte list"
  fb_start :: "nat list"
  fb_result :: "byte list"
  fb_tmp_keys :: "slice list"
  fb_filter_offsets :: "u32 list"

definition new_FilterBlockBuilder :: "FilterPolicy \<Rightarrow> FilterBlockBuilder" where
  "new_FilterBlockBuilder P = \<lparr>fb_policy = P, fb_keys = [], fb_start = [], fb_result = [], fb_tmp_keys = [],
     fb_filter_offsets = []\<rparr>"

definition GenerateFilter :: "FilterBlockBuilder \<Rightarrow> FilterBlockBuilder" where
  "GenerateFilter b =
     (let num_keys = length (fb_start b) in
      if num_keys = 0
      then b\<lparr>fb_filter_offsets := fb_filter_offsets b @ [word_of_nat (length (fb_result b))]\<rparr>
      else
        (let start = fb_start b @ [length (fb_keys b)];
             tmp_keys = map (\<lambda>i. take (start ! (i + 1) - start ! i) (drop (start ! i) (fb_keys b))) [0..<num_keys]
         in b\<lparr>fb_filter_offsets := fb_filter_offsets b @ [word_of_nat (length (fb_result b))],
              fb_result := fp_CreateFilter (fb_policy b) tmp_keys (fb_result b),
              fb_tmp_keys := [], fb_keys := [], fb_start := []\<rparr>))"

lemma GenerateFilter_offsets [simp]:
  "length (fb_filter_offsets (GenerateFilter b)) = Suc (length (fb_filter_offsets b))"
  by (simp add: GenerateFilter_def Let_def)

text \<open>The loop of \<open>StartBlock\<close>.\<close>

function generate_until :: "nat \<Rightarrow> FilterBlockBuilder \<Rightarrow> FilterBlockBuilder" where
  "generate_until filter_index b =
     (if filter_index > length (fb_filter_offsets b) then generate_until filter_index (GenerateFilter b) else b)"
  by pat_completeness auto
termination
  by (relation "measure (\<lambda>(i, b). i - length (fb_filter_offsets b))") auto

declare generate_until.simps [simp del]

definition StartBlock :: "u64 \<Rightarrow> FilterBlockBuilder \<Rightarrow> FilterBlockBuilder" where
  "StartBlock block_offset b = generate_until (unat block_offset div kFilterBase) b"

definition AddKey :: "slice \<Rightarrow> FilterBlockBuilder \<Rightarrow> FilterBlockBuilder" where
  "AddKey key b = b\<lparr>fb_start := fb_start b @ [length (fb_keys b)], fb_keys := fb_keys b @ key\<rparr>"

definition FilterBlock_Finish :: "FilterBlockBuilder \<Rightarrow> slice \<times> FilterBlockBuilder" where
  "FilterBlock_Finish b =
     (let b1 = (if fb_start b \<noteq> [] then GenerateFilter b else b);
          array_offset = word_of_nat (length (fb_result b1));
          r1 = fold (\<lambda>offset r. PutFixed32 r offset) (fb_filter_offsets b1) (fb_result b1);
          r2 = PutFixed32 r1 array_offset;
          r3 = r2 @ [word_of_nat kFilterBaseLg]
      in (r3, b1\<lparr>fb_result := r3\<rparr>))"

section \<open>The reader\<close>

text \<open>\<open>offset_\<close> is an index into the contents. The base is a sign-extended \<open>char\<close>; a shift by 64 or more is undefined.\<close>

record FilterBlockReader =
  fr_policy :: FilterPolicy
  fr_data :: "byte list"
  fr_offset :: nat
  fr_num :: nat
  fr_base_lg :: u64

definition new_FilterBlockReader :: "FilterPolicy \<Rightarrow> slice \<Rightarrow> FilterBlockReader" where
  "new_FilterBlockReader P contents =
     (let r = \<lparr>fr_policy = P, fr_data = [], fr_offset = 0, fr_num = 0, fr_base_lg = 0\<rparr>; n = length contents in
      if n < 5 then r
      else
        (let r1 = r\<lparr>fr_base_lg := scast (contents ! (n - 1))\<rparr>;
             last_word = unat (DecodeFixed32 (drop (n - 5) contents))
         in if last_word > n - 5 then r1
            else r1\<lparr>fr_data := contents, fr_offset := last_word, fr_num := (n - 5 - last_word) div 4\<rparr>))"

definition FilterBlock_KeyMayMatch :: "u64 \<Rightarrow> slice \<Rightarrow> FilterBlockReader \<Rightarrow> bool option" where
  "FilterBlock_KeyMayMatch block_offset key r =
     (if fr_base_lg r \<ge> 64 then None
      else
        (let index = unat (drop_bit (unat (fr_base_lg r)) block_offset) in Some
          (if index < fr_num r then
             (let start = DecodeFixed32 (drop (fr_offset r + index * 4) (fr_data r));
                  limit = DecodeFixed32 (drop (fr_offset r + index * 4 + 4) (fr_data r))
              in if start \<le> limit \<and> unat limit \<le> fr_offset r
                 then fp_KeyMayMatch (fr_policy r) key (take (unat (limit - start)) (drop (unat start) (fr_data r)))
                 else if start = limit then False
                 else True)
           else True)))"

section \<open>No false negatives\<close>

text \<open>What the builder stands for: the keys of the filters that are finished, and those of the next.\<close>

definition filter_of :: "FilterPolicy \<Rightarrow> slice list \<Rightarrow> byte list" where
  "filter_of P ks = (if ks = [] then [] else fp_CreateFilter P ks [])"

definition filters :: "FilterPolicy \<Rightarrow> slice list list \<Rightarrow> byte list" where
  "filters P fls = concat (map (filter_of P) fls)"

definition foff :: "FilterPolicy \<Rightarrow> slice list list \<Rightarrow> nat \<Rightarrow> nat" where
  "foff P fls i = length (filters P (take i fls))"

definition builds :: "FilterPolicy \<Rightarrow> slice list list \<Rightarrow> slice list \<Rightarrow> FilterBlockBuilder \<Rightarrow> bool" where
  "builds P fls ks b \<longleftrightarrow> fb_policy b = P \<and> fb_keys b = concat ks \<and>
     fb_start b = map (\<lambda>i. length (concat (take i ks))) [0..<length ks] \<and>
     fb_result b = filters P fls \<and> fb_filter_offsets b = map (\<lambda>i. word_of_nat (foff P fls i)) [0..<length fls]"

lemma new_builds: "builds P [] [] (new_FilterBlockBuilder P)"
  by (simp add: builds_def new_FilterBlockBuilder_def filters_def)

lemma AddKey_builds: "builds P fls ks b \<Longrightarrow> builds P fls (ks @ [key]) (AddKey key b)"
  by (simp add: builds_def AddKey_def)

lemma nth_slice:
  "i < length ks \<Longrightarrow> take (length (concat (take (Suc i) ks)) - length (concat (take i ks)))
     (drop (length (concat (take i ks))) (concat ks)) = ks ! i"
proof -
  assume i: "i < length ks"
  have "concat ks = concat (take i ks) @ ks ! i @ concat (drop (Suc i) ks)"
    by (metis i concat.simps(2) concat_append id_take_nth_drop)
  then show ?thesis by (simp add: take_Suc_conv_app_nth [OF i])
qed

lemma tmp_keys_eq:
  assumes "start = map (\<lambda>i. length (concat (take i ks))) [0..<length ks] @ [length (concat ks)]"
  shows "map (\<lambda>i. take (start ! (i + 1) - start ! i) (drop (start ! i) (concat ks))) [0..<length ks] = ks"
proof (rule nth_equalityI)
  fix i assume "i < length (map (\<lambda>i. take (start ! (i + 1) - start ! i) (drop (start ! i) (concat ks))) [0..<length ks])"
  then have i: "i < length ks" by simp
  have "start ! i = length (concat (take i ks))" if "i \<le> length ks" for i
    using that by (cases "i = length ks") (simp_all add: assms nth_append)
  then show "map (\<lambda>i. take (start ! (i + 1) - start ! i) (drop (start ! i) (concat ks))) [0..<length ks] ! i = ks ! i"
    using i nth_slice [OF i] by simp
qed simp

definition start_filters :: "nat \<Rightarrow> slice list list \<Rightarrow> slice list \<Rightarrow> slice list list \<times> slice list" where
  "start_filters n fls ks =
     (if n > length fls then (fls @ [ks] @ replicate (n - length fls - 1) [], []) else (fls, ks))"

definition end_filters :: "slice list list \<Rightarrow> slice list \<Rightarrow> slice list list" where
  "end_filters fls ks = (if ks = [] then fls else fls @ [ks])"

definition filter_block :: "FilterPolicy \<Rightarrow> slice list list \<Rightarrow> byte list" where
  "filter_block P fls = filters P fls @ concat (map (\<lambda>i. EncodeFixed32 (word_of_nat (foff P fls i))) [0..<length fls]) @
     EncodeFixed32 (word_of_nat (length (filters P fls))) @ [word_of_nat kFilterBaseLg]"

context filter_policy
begin

lemma GenerateFilter_builds:
  assumes b: "builds P fls ks b" and "ks \<noteq> [] \<Longrightarrow> fits ks"
  shows "builds P (fls @ [ks]) [] (GenerateFilter b)"
proof -
  have o: "map (\<lambda>i. word_of_nat (foff P (fls @ [ks]) i) :: u32) [0..<length fls] =
      map (\<lambda>i. word_of_nat (foff P fls i)) [0..<length fls]"
    by (simp add: foff_def)
  have l: "foff P (fls @ [ks]) (length fls) = length (filters P fls)" by (simp add: foff_def)
  show ?thesis
  proof (cases "ks = []")
    case True
    then show ?thesis
      using b l o by (simp add: builds_def GenerateFilter_def filters_def filter_of_def)
  next
    case False
    have n: "length (fb_start b) = length ks" using b by (simp add: builds_def)
    have t: "map (\<lambda>i. take ((fb_start b @ [length (fb_keys b)]) ! (i + 1) - (fb_start b @ [length (fb_keys b)]) ! i)
        (drop ((fb_start b @ [length (fb_keys b)]) ! i) (fb_keys b))) [0..<length ks] = ks"
      using b tmp_keys_eq [of "fb_start b @ [length (fb_keys b)]" ks] by (simp add: builds_def)
    have c: "fp_CreateFilter P ks dst = dst @ fp_CreateFilter P ks []" for dst
      using appends [OF assms(2) [OF False], of dst] by blast
    show ?thesis
      using b False l o c [of "fb_result b"] unfolding GenerateFilter_def Let_def n t
      by (simp add: builds_def filters_def filter_of_def)
  qed
qed

lemma generate_until_builds:
  "builds P fls ks b \<Longrightarrow> (ks \<noteq> [] \<Longrightarrow> fits ks) \<Longrightarrow>
     builds P (fst (start_filters n fls ks)) (snd (start_filters n fls ks)) (generate_until n b)"
proof (induction n b arbitrary: fls ks rule: generate_until.induct)
  case (1 n b)
  have l: "length (fb_filter_offsets b) = length fls" using "1.prems"(1) by (simp add: builds_def)
  show ?case
  proof (cases "n > length fls")
    case True
    have "start_filters n (fls @ [ks]) [] = start_filters n fls ks"
      using True by (cases "n - length fls - 1") (auto simp: start_filters_def)
    moreover have "builds P (fst (start_filters n (fls @ [ks]) [])) (snd (start_filters n (fls @ [ks]) []))
        (generate_until n (GenerateFilter b))"
      using True by (intro "1.IH" GenerateFilter_builds [OF "1.prems"]) (simp_all add: l)
    ultimately show ?thesis using True by (subst generate_until.simps) (simp add: l)
  next
    case False
    then show ?thesis using "1.prems"(1) by (subst generate_until.simps) (simp add: l start_filters_def)
  qed
qed

lemma Finish_builds:
  assumes b: "builds P fls ks b" and "ks \<noteq> [] \<Longrightarrow> fits ks"
  shows "fst (FilterBlock_Finish b) = filter_block P (end_filters fls ks)"
proof -
  have "builds P (end_filters fls ks) [] (if fb_start b \<noteq> [] then GenerateFilter b else b)"
  proof (cases "ks = []")
    case True
    then show ?thesis using b by (simp add: end_filters_def builds_def)
  next
    case False
    moreover have "fb_start b \<noteq> []" using b False by (simp add: builds_def)
    ultimately show ?thesis using GenerateFilter_builds [OF assms] by (simp add: end_filters_def)
  qed
  then show ?thesis
    unfolding FilterBlock_Finish_def Let_def fst_conv fold_PutFixed32
    by (simp add: builds_def filter_block_def PutFixed32_def comp_def)
qed

lemma length_filter_block: "length (filter_block P fls) = length (filters P fls) + length fls * 4 + 5"
  by (simp add: filter_block_def)

lemma new_reader:
  assumes "length (filters P fls) < 2 ^ 32"
  shows "new_FilterBlockReader P (filter_block P fls) =
    \<lparr>fr_policy = P, fr_data = filter_block P fls, fr_offset = length (filters P fls), fr_num = length fls, fr_base_lg = 11\<rparr>"
proof -
  let ?n = "length (filter_block P fls)"
  have n: "?n = length (filters P fls) + length fls * 4 + 5" by (rule length_filter_block)
  have "drop (?n - 5) (filter_block P fls) = EncodeFixed32 (word_of_nat (length (filters P fls))) @ [word_of_nat kFilterBaseLg]"
    unfolding n by (simp add: filter_block_def)
  then have w: "unat (DecodeFixed32 (drop (?n - 5) (filter_block P fls))) = length (filters P fls)"
    using assms by (simp add: DecodeFixed32_Encode unat_of_nat)
  have "filter_block P fls ! (?n - 1) = last (filter_block P fls)"
    using n by (intro last_conv_nth [symmetric]) auto
  also have "\<dots> = word_of_nat kFilterBaseLg" by (simp add: filter_block_def)
  finally have b: "(scast (filter_block P fls ! (?n - 1)) :: u64) = 11" by (simp add: kFilterBaseLg_def)
  show ?thesis unfolding new_FilterBlockReader_def Let_def w b using n by simp
qed

lemma filter_offset:
  assumes "i \<le> length fls" and "length (filters P fls) < 2 ^ 32"
  shows "unat (DecodeFixed32 (drop (length (filters P fls) + i * 4) (filter_block P fls))) = foff P fls i"
proof -
  have le: "foff P fls i \<le> length (filters P fls)"
    by (metis append_take_drop_id concat_append filters_def foff_def le_add1 length_append map_append)
  let ?o = "concat (map (\<lambda>i. EncodeFixed32 (word_of_nat (foff P fls i))) [0..<length fls])"
  have d: "drop (length (filters P fls) + i * 4) (filter_block P fls) =
      drop (i * 4) (?o @ EncodeFixed32 (word_of_nat (length (filters P fls))) @ [word_of_nat kFilterBaseLg])"
    by (simp add: filter_block_def)
  show ?thesis
  proof (cases "i < length fls")
    case True
    have "drop (i * 4) (?o @ EncodeFixed32 (word_of_nat (length (filters P fls))) @ [word_of_nat kFilterBaseLg]) =
        EncodeFixed32 (word_of_nat (foff P fls i)) @ drop (Suc i * 4)
          (?o @ EncodeFixed32 (word_of_nat (length (filters P fls))) @ [word_of_nat kFilterBaseLg])"
      using drop_EncodeFixed32s [of i "[0..<length fls]" "\<lambda>i. word_of_nat (foff P fls i)"
          "EncodeFixed32 (word_of_nat (length (filters P fls))) @ [word_of_nat kFilterBaseLg]"] True by simp
    then show ?thesis using le assms(2) unfolding d by (simp only: DecodeFixed32_Encode) (simp add: unat_of_nat)
  next
    case False
    then have "i = length fls" using assms(1) by simp
    then have "drop (i * 4) (?o @ EncodeFixed32 (word_of_nat (length (filters P fls))) @ [word_of_nat kFilterBaseLg]) =
        EncodeFixed32 (word_of_nat (foff P fls i)) @ [word_of_nat kFilterBaseLg]"
      by (simp add: foff_def)
    then show ?thesis using le assms(2) unfolding d by (simp only: DecodeFixed32_Encode) (simp add: unat_of_nat)
  qed
qed

lemma filter_slice:
  assumes "i < length fls"
  shows "take (foff P fls (Suc i) - foff P fls i) (drop (foff P fls i) (filters P fls @ r)) = filter_of P (fls ! i)"
proof -
  have "filters P fls = filters P (take i fls) @ filter_of P (fls ! i) @ filters P (drop (Suc i) fls)"
    by (subst id_take_nth_drop [OF assms]) (simp add: filters_def)
  moreover have "foff P fls (Suc i) = foff P fls i + length (filter_of P (fls ! i))"
    by (simp add: foff_def take_Suc_conv_app_nth [OF assms] filters_def)
  ultimately show ?thesis by (simp add: foff_def)
qed

lemma KeyMayMatch_built:
  assumes fit: "\<forall>ks \<in> set fls. ks \<noteq> [] \<longrightarrow> fits ks" and sz: "length (filters P fls) < 2 ^ 32"
    and key: "unat offset div 2048 < length fls \<Longrightarrow> key \<in> set (fls ! (unat offset div 2048))"
  shows "FilterBlock_KeyMayMatch offset key (new_FilterBlockReader P (filter_block P fls)) = Some True"
proof -
  let ?i = "unat offset div 2048"
  have i: "unat (drop_bit 11 offset) = ?i" by (simp add: drop_bit_eq_div unat_div)
  show ?thesis
  proof (cases "?i < length fls")
    case True
    let ?start = "DecodeFixed32 (drop (length (filters P fls) + ?i * 4) (filter_block P fls))"
    let ?limit = "DecodeFixed32 (drop (length (filters P fls) + ?i * 4 + 4) (filter_block P fls))"
    have s: "unat ?start = foff P fls ?i" using True sz by (intro filter_offset) simp_all
    have l: "unat ?limit = foff P fls (Suc ?i)" using filter_offset [of "Suc ?i" fls] True sz by (simp add: ac_simps)
    have o: "foff P fls ?i \<le> foff P fls (Suc ?i)" "foff P fls (Suc ?i) \<le> length (filters P fls)"
    proof -
      show "foff P fls ?i \<le> foff P fls (Suc ?i)"
        by (simp add: foff_def take_Suc_conv_app_nth [OF True] filters_def)
      show "foff P fls (Suc ?i) \<le> length (filters P fls)"
        by (metis append_take_drop_id concat_append filters_def foff_def le_add1 length_append map_append)
    qed
    then have sl: "?start \<le> ?limit" by (simp add: word_le_nat_alt s l)
    then have sub: "unat (?limit - ?start) = foff P fls (Suc ?i) - foff P fls ?i" by (simp add: unat_sub s l)
    have "take (unat (?limit - ?start)) (drop (unat ?start) (filter_block P fls)) = filter_of P (fls ! ?i)"
      unfolding sub s unfolding filter_block_def by (rule filter_slice [OF True])
    moreover have "fp_KeyMayMatch P key (filter_of P (fls ! ?i))"
      using fit key [OF True] True nth_mem [OF True] matches [of "fls ! ?i" key] by (auto simp: filter_of_def)
    ultimately show ?thesis
      using True o l sl unfolding new_reader [OF sz] FilterBlock_KeyMayMatch_def Let_def
      by (simp add: i)
  next
    case False
    then show ?thesis unfolding new_reader [OF sz] FilterBlock_KeyMayMatch_def Let_def by (simp add: i)
  qed
qed

end

end
