(* ===== verification/LdbTableBuilder.thy ===== *)
theory LdbTableBuilder
  imports LdbTableFormat LdbFilterBlock
begin

text \<open>
  \<open>include/leveldb/table_builder.h\<close> and \<open>table/table_builder.cc\<close>: entries are written as data blocks, then filters, the
  metaindex block, the index block and the footer. The fields of \<open>Rep\<close> are those of the record. A block builder
  points to the options of the table builder, so a change of options changes its restart interval.
  The assertions of the code are obligations of the caller.
\<close>

record 'f TableBuilder =
  tb_options :: Options
  tb_index_block_options :: Options
  tb_file :: 'f
  tb_offset :: u64
  tb_status :: Status
  tb_data_block :: BlockBuilder
  tb_index_block :: BlockBuilder
  tb_last_key :: "byte list"
  tb_num_entries :: int
  tb_closed :: bool
  tb_filter_block :: "FilterBlockBuilder option"
  tb_pending_index_entry :: bool
  tb_pending_handle :: BlockHandle
  tb_compressed_output :: "byte list"

definition new_TableBuilder :: "Options \<Rightarrow> 'f \<Rightarrow> 'f TableBuilder" where
  "new_TableBuilder options file =
     \<lparr>tb_options = options, tb_index_block_options = options\<lparr>opt_block_restart_interval := 1\<rparr>, tb_file = file, tb_offset = 0,
      tb_status = OK, tb_data_block = new_BlockBuilder (opt_block_restart_interval options),
      tb_index_block = new_BlockBuilder 1, tb_last_key = [], tb_num_entries = 0, tb_closed = False,
      tb_filter_block = map_option (\<lambda>P. StartBlock 0 (new_FilterBlockBuilder P)) (opt_filter_policy options),
      tb_pending_index_entry = False, tb_pending_handle = new_BlockHandle, tb_compressed_output = []\<rparr>"

text \<open>\<open>same_comparator\<close>: whether the two pointers to comparators are equal.\<close>

definition TableBuilder_ChangeOptions :: "bool \<Rightarrow> Options \<Rightarrow> 'f TableBuilder \<Rightarrow> Status \<times> 'f TableBuilder" where
  "TableBuilder_ChangeOptions same_comparator options r =
     (if \<not> same_comparator then (InvalidArgument (lit ''changing comparator while building table'') [], r)
      else (OK, r\<lparr>tb_options := options, tb_index_block_options := options\<lparr>opt_block_restart_interval := 1\<rparr>,
        tb_data_block := (tb_data_block r)\<lparr>bb_restart_interval := opt_block_restart_interval options\<rparr>\<rparr>))"

definition TableBuilder_ok :: "'f TableBuilder \<Rightarrow> bool" where
  "TableBuilder_ok r \<longleftrightarrow> ok (tb_status r)"

text \<open>The handle and the builder.\<close>

definition WriteRawBlock ::
    "'f WritableFile \<Rightarrow> slice \<Rightarrow> CompressionType \<Rightarrow> 'f TableBuilder \<Rightarrow> (BlockHandle \<times> 'f TableBuilder) option" where
  "WriteRawBlock W block_contents type r =
     (let handle = \<lparr>bh_offset = tb_offset r, bh_size = word_of_nat (length block_contents)\<rparr> in do {
        (s, f) \<leftarrow> wf_Append W block_contents (tb_file r);
        let r1 = r\<lparr>tb_status := s, tb_file := f\<rparr>;
        if ok s then do {
          let crc = Value 0 block_contents;
          let crc1 = Extend 0 crc [CompressionType_value type];
          let trailer = CompressionType_value type # EncodeFixed32 (Mask crc1);
          (s1, f1) \<leftarrow> wf_Append W trailer f;
          let r2 = r1\<lparr>tb_status := s1, tb_file := f1\<rparr>;
          Some (handle, if ok s1
            then r2\<lparr>tb_offset := tb_offset r2 + word_of_nat (length block_contents + kBlockTrailerSize)\<rparr> else r2) }
        else Some (handle, r1) })"

text \<open>The block builder, which is one of the table builder's or a local one, is given and returned.\<close>

definition WriteBlock ::
    "'f WritableFile \<Rightarrow> BlockBuilder \<Rightarrow> 'f TableBuilder \<Rightarrow> (BlockBuilder \<times> BlockHandle \<times> 'f TableBuilder) option" where
  "WriteBlock W block r =
     (let (raw, block1) = BlockBuilder_Finish block;
          (block_contents, type) =
            (case opt_compression (tb_options r) of
               kNoCompression \<Rightarrow> (raw, kNoCompression)
             | kSnappyCompression \<Rightarrow>
                 (case Snappy_Compress raw of
                    Some compressed \<Rightarrow> if length compressed < length raw - length raw div 8
                      then (compressed, kSnappyCompression) else (raw, kNoCompression)
                  | None \<Rightarrow> (raw, kNoCompression)))
      in do {
        (handle, r1) \<leftarrow> WriteRawBlock W block_contents type r;
        Some (BlockBuilder_Reset block1, handle, r1\<lparr>tb_compressed_output := []\<rparr>) })"

definition TableBuilder_Flush :: "'f WritableFile \<Rightarrow> 'f TableBuilder \<Rightarrow> 'f TableBuilder option" where
  "TableBuilder_Flush W r =
     (if \<not> TableBuilder_ok r then Some r
      else if BlockBuilder_empty (tb_data_block r) then Some r
      else do {
        (block, handle, r1) \<leftarrow> WriteBlock W (tb_data_block r) r;
        let r2 = r1\<lparr>tb_data_block := block, tb_pending_handle := handle\<rparr>;
        r3 \<leftarrow> (if TableBuilder_ok r2 then do {
                  (s, f) \<leftarrow> wf_Flush W (tb_file r2);
                  Some (r2\<lparr>tb_pending_index_entry := True, tb_status := s, tb_file := f\<rparr>) }
               else Some r2);
        Some (r3\<lparr>tb_filter_block := map_option (StartBlock (tb_offset r3)) (tb_filter_block r3)\<rparr>) })"

definition TableBuilder_Add :: "'f WritableFile \<Rightarrow> slice \<Rightarrow> slice \<Rightarrow> 'f TableBuilder \<Rightarrow> 'f TableBuilder option" where
  "TableBuilder_Add W key v r =
     (if \<not> TableBuilder_ok r then Some r
      else
        (let r1 = (if tb_pending_index_entry r
               then (let last_key = cmp_FindShortestSeparator (opt_comparator (tb_options r)) (tb_last_key r) key;
                         handle_encoding = BlockHandle_EncodeTo (tb_pending_handle r) []
                     in r\<lparr>tb_last_key := last_key,
                          tb_index_block := BlockBuilder_Add last_key handle_encoding (tb_index_block r),
                          tb_pending_index_entry := False\<rparr>)
               else r);
             r2 = r1\<lparr>tb_filter_block := map_option (AddKey key) (tb_filter_block r1)\<rparr>;
             r3 = r2\<lparr>tb_last_key := key, tb_num_entries := tb_num_entries r2 + 1,
                    tb_data_block := BlockBuilder_Add key v (tb_data_block r2)\<rparr>;
             estimated_block_size = CurrentSizeEstimate (tb_data_block r3)
         in if estimated_block_size \<ge> opt_block_size (tb_options r3) then TableBuilder_Flush W r3 else Some r3))"

text \<open>The four parts of \<open>Finish\<close>.\<close>

definition finish_filter :: "'f WritableFile \<Rightarrow> 'f TableBuilder \<Rightarrow> (BlockHandle \<times> 'f TableBuilder) option" where
  "finish_filter W r =
     (if TableBuilder_ok r
      then (case tb_filter_block r of
              Some fb \<Rightarrow>
                (let (s, fb1) = FilterBlock_Finish fb
                 in WriteRawBlock W s kNoCompression (r\<lparr>tb_filter_block := Some fb1\<rparr>))
            | None \<Rightarrow> Some (new_BlockHandle, r))
      else Some (new_BlockHandle, r))"

definition finish_metaindex ::
    "'f WritableFile \<Rightarrow> BlockHandle \<Rightarrow> 'f TableBuilder \<Rightarrow> (BlockHandle \<times> 'f TableBuilder) option" where
  "finish_metaindex W filter_handle r =
     (if TableBuilder_ok r then do {
        let meta = new_BlockBuilder (opt_block_restart_interval (tb_options r));
        meta1 \<leftarrow> (if tb_filter_block r \<noteq> None then do {
                    P \<leftarrow> opt_filter_policy (tb_options r);
                    Some (BlockBuilder_Add (lit ''filter.'' @ lit (fp_Name P)) (BlockHandle_EncodeTo filter_handle []) meta) }
                  else Some meta);
        (meta2, handle, r1) \<leftarrow> WriteBlock W meta1 r;
        Some (handle, r1) }
      else Some (new_BlockHandle, r))"

definition finish_index :: "'f WritableFile \<Rightarrow> 'f TableBuilder \<Rightarrow> (BlockHandle \<times> 'f TableBuilder) option" where
  "finish_index W r =
     (if TableBuilder_ok r then do {
        let r1 = (if tb_pending_index_entry r
           then (let last_key = cmp_FindShortSuccessor (opt_comparator (tb_options r)) (tb_last_key r);
                     handle_encoding = BlockHandle_EncodeTo (tb_pending_handle r) []
                 in r\<lparr>tb_last_key := last_key,
                      tb_index_block := BlockBuilder_Add last_key handle_encoding (tb_index_block r),
                      tb_pending_index_entry := False\<rparr>)
           else r);
        (block, handle, r2) \<leftarrow> WriteBlock W (tb_index_block r1) r1;
        Some (handle, r2\<lparr>tb_index_block := block\<rparr>) }
      else Some (new_BlockHandle, r))"

definition finish_footer ::
    "'f WritableFile \<Rightarrow> BlockHandle \<Rightarrow> BlockHandle \<Rightarrow> 'f TableBuilder \<Rightarrow> 'f TableBuilder option" where
  "finish_footer W meta_handle index_handle r =
     (if TableBuilder_ok r then do {
        let footer = new_Footer\<lparr>ft_metaindex_handle := meta_handle, ft_index_handle := index_handle\<rparr>;
        let footer_encoding = Footer_EncodeTo footer [];
        (s, f) \<leftarrow> wf_Append W footer_encoding (tb_file r);
        let r1 = r\<lparr>tb_status := s, tb_file := f\<rparr>;
        Some (if ok s then r1\<lparr>tb_offset := tb_offset r1 + word_of_nat (length footer_encoding)\<rparr> else r1) }
      else Some r)"

definition TableBuilder_Finish :: "'f WritableFile \<Rightarrow> 'f TableBuilder \<Rightarrow> (Status \<times> 'f TableBuilder) option" where
  "TableBuilder_Finish W r = do {
     r1 \<leftarrow> TableBuilder_Flush W r;
     (filter_handle, r2) \<leftarrow> finish_filter W (r1\<lparr>tb_closed := True\<rparr>);
     (meta_handle, r3) \<leftarrow> finish_metaindex W filter_handle r2;
     (index_handle, r4) \<leftarrow> finish_index W r3;
     r5 \<leftarrow> finish_footer W meta_handle index_handle r4;
     Some (tb_status r5, r5) }"

definition TableBuilder_Abandon :: "'f TableBuilder \<Rightarrow> 'f TableBuilder" where
  "TableBuilder_Abandon r = r\<lparr>tb_closed := True\<rparr>"

definition NumEntries :: "'f TableBuilder \<Rightarrow> int" where
  "NumEntries r = tb_num_entries r"

definition FileSize :: "'f TableBuilder \<Rightarrow> u64" where
  "FileSize r = tb_offset r"

end
