(* ===== verification/LdbTableLayout.thy ===== *)
theory LdbTableLayout
  imports LdbTableBuilder LdbBlockIter LdbEnvPosix
begin

text \<open>
  What a table file consists of, and that the table builder writes it: data blocks, the filter block, the metaindex
  block, the index block, which separates the data blocks, and the footer. The data blocks are
  given by their entries and bytes.
\<close>

section \<open>The layout of a table\<close>

type_synonym table_block = "(slice \<times> slice) list \<times> byte list"

definition built :: "(slice \<times> slice) list \<Rightarrow> byte list \<Rightarrow> bool" where
  "built kvs b \<longleftrightarrow> (\<exists>es rs. map snd es = kvs \<and> block_layout es rs b)"

definition framed :: "byte list \<Rightarrow> byte list" where
  "framed b = b @ block_trailer kNoCompression b"

definition data_bytes :: "table_block list \<Rightarrow> byte list" where
  "data_bytes bs = concat (map (\<lambda>b. framed (snd b)) bs)"

definition entries_of :: "table_block list \<Rightarrow> (slice \<times> slice) list" where
  "entries_of bs = concat (map fst bs)"

definition block_off :: "table_block list \<Rightarrow> nat \<Rightarrow> nat" where
  "block_off bs j = length (data_bytes (take j bs))"

definition handle_at :: "nat \<Rightarrow> byte list \<Rightarrow> BlockHandle" where
  "handle_at n b = \<lparr>bh_offset = word_of_nat n, bh_size = word_of_nat (length b)\<rparr>"

definition block_handle :: "table_block list \<Rightarrow> nat \<Rightarrow> BlockHandle" where
  "block_handle bs j = handle_at (block_off bs j) (snd (bs ! j))"

definition index_entries :: "table_block list \<Rightarrow> slice list \<Rightarrow> (slice \<times> slice) list" where
  "index_entries bs seps = map (\<lambda>j. (seps ! j, BlockHandle_EncodeTo (block_handle bs j) [])) [0..<length seps]"

text \<open>The index keys lie behind the entries of their blocks and before all later ones.\<close>

definition separates :: "(slice \<Rightarrow> slice \<Rightarrow> int) \<Rightarrow> table_block list \<Rightarrow> slice list \<Rightarrow> bool" where
  "separates cmp bs seps \<longleftrightarrow> (\<forall>j < length seps.
     (\<forall>e \<in> set (fst (bs ! j)). cmp (fst e) (seps ! j) \<le> 0) \<and>
     (\<forall>k. j < k \<and> k < length bs \<longrightarrow> (\<forall>e \<in> set (fst (bs ! k)). cmp (seps ! j) (fst e) < 0)))"

text \<open>Where each key comes from: the last key of its block and the first key behind it, if there is one. The entries \<open>cur\<close> are those
  of an unfinished block.\<close>

definition next_key :: "table_block list \<Rightarrow> (slice \<times> slice) list \<Rightarrow> nat \<Rightarrow> slice option" where
  "next_key bs cur j =
     (if Suc j < length bs then Some (fst (hd (fst (bs ! Suc j))))
      else if Suc j = length bs \<and> cur \<noteq> [] then Some (fst (hd cur)) else None)"

definition chosen :: "Comparator \<Rightarrow> table_block list \<Rightarrow> (slice \<times> slice) list \<Rightarrow> slice list \<Rightarrow> bool" where
  "chosen C bs cur seps \<longleftrightarrow> (\<forall>j < length seps. let k = fst (last (fst (bs ! j))) in
     seps ! j = (case next_key bs cur j of Some n \<Rightarrow> cmp_FindShortestSeparator C k n | None \<Rightarrow> cmp_FindShortSuccessor C k))"

lemma chosen_flush:
  "chosen C bs cur seps \<Longrightarrow> cur \<noteq> [] \<Longrightarrow> length seps \<le> length bs \<Longrightarrow> chosen C (bs @ [(cur, b)]) [] seps"
  by (auto simp: chosen_def next_key_def nth_append Let_def)

lemma chosen_more: "chosen C bs cur seps \<Longrightarrow> cur \<noteq> [] \<Longrightarrow> chosen C bs (cur @ [e]) seps"
proof -
  assume "chosen C bs cur seps" "cur \<noteq> []"
  moreover from this(2) have "next_key bs (cur @ [e]) = next_key bs cur" by (simp add: next_key_def fun_eq_iff)
  ultimately show ?thesis by (simp only: chosen_def)
qed

lemma chosen_first: "chosen C bs [] [] \<Longrightarrow> chosen C bs cur []"
  by (simp add: chosen_def)

lemma chosen_last:
  assumes c: "chosen C bs [] seps" and l: "Suc (length seps) = length bs" and lk: "lk = fst (last (fst (last bs)))"
    and s: "s = (case next_key bs cur (length seps) of Some n \<Rightarrow> cmp_FindShortestSeparator C lk n | None \<Rightarrow> cmp_FindShortSuccessor C lk)"
  shows "chosen C bs cur (seps @ [s])"
  unfolding chosen_def Let_def
proof (intro allI impI)
  fix j assume "j < length (seps @ [s])"
  then consider "j < length seps" | "j = length seps" by fastforce
  then show "(seps @ [s]) ! j = (case next_key bs cur j of
      Some n \<Rightarrow> cmp_FindShortestSeparator C (fst (last (fst (bs ! j)))) n
    | None \<Rightarrow> cmp_FindShortSuccessor C (fst (last (fst (bs ! j)))))"
  proof cases
    case 1
    then have "next_key bs cur j = next_key bs [] j" using l by (simp add: next_key_def)
    then show ?thesis using c 1 by (simp add: chosen_def Let_def nth_append)
  next
    case 2
    then have "bs ! j = last bs" using l by (metis diff_Suc_1 last_conv_nth length_0_conv nat.simps(3))
    then have k: "fst (last (fst (bs ! j))) = lk" using lk by simp
    show ?thesis unfolding k using 2 s by simp
  qed
qed

lemma chosen_sep:
  assumes "chosen C bs [] seps" and "Suc (length seps) = length bs" and "lk = fst (last (fst (last bs)))"
  shows "chosen C bs [(key, v)] (seps @ [cmp_FindShortestSeparator C lk key])"
    and "chosen C bs [] (seps @ [cmp_FindShortSuccessor C lk])"
  using assms by (auto intro!: chosen_last [OF assms] simp: next_key_def)

text \<open>The filters cover the blocks: the keys of a block are in the filter of its offset.\<close>

definition covers :: "slice list list \<Rightarrow> table_block list \<Rightarrow> bool" where
  "covers fls bs \<longleftrightarrow> (\<forall>j < length bs. block_off bs j div kFilterBase < length fls \<and>
     fst ` set (fst (bs ! j)) \<subseteq> set (fls ! (block_off bs j div kFilterBase)))"

definition meta_entries :: "FilterPolicy option \<Rightarrow> BlockHandle \<Rightarrow> (slice \<times> slice) list" where
  "meta_entries pol h = (case pol of None \<Rightarrow> []
     | Some P \<Rightarrow> [(lit ''filter.'' @ lit (fp_Name P), BlockHandle_EncodeTo h [])])"

lemma data_bytes_append [simp]: "data_bytes (xs @ ys) = data_bytes xs @ data_bytes ys" "data_bytes [] = []"
  "data_bytes [b] = framed (snd b)"
  by (simp_all add: data_bytes_def)

lemma entries_of_simps [simp]: "entries_of (xs @ ys) = entries_of xs @ entries_of ys" "entries_of [] = []" "entries_of [b] = fst b"
  "entries_of (b # xs) = fst b @ entries_of xs"
  by (simp_all add: entries_of_def)

lemma length_framed [simp]: "length (framed b) = length b + kBlockTrailerSize"
  by (simp add: framed_def)

lemma block_off_append: "j \<le> length bs \<Longrightarrow> block_off (bs @ cs) j = block_off bs j"
  by (simp add: block_off_def)

lemma block_off_length: "block_off (bs @ cs) (length bs) = length (data_bytes bs)"
  by (simp add: block_off_def)

lemma block_handle_append: "j < length bs \<Longrightarrow> block_handle (bs @ cs) j = block_handle bs j"
  by (simp add: block_handle_def block_off_append nth_append)

lemma index_entries_append: "length seps \<le> length bs \<Longrightarrow> index_entries (bs @ cs) seps = index_entries bs seps"
  by (auto simp: index_entries_def block_handle_append)

lemma index_entries_snoc:
  "index_entries bs (seps @ [s]) =
     index_entries bs seps @ [(s, BlockHandle_EncodeTo (block_handle bs (length seps)) [])]"
  by (simp add: index_entries_def nth_append)

lemma unat_small64: "n < 2 ^ 64 \<Longrightarrow> unat (word_of_nat n :: u64) = n"
  by (simp add: unat_of_nat)

text \<open>The tables of a comparator and a filter policy.\<close>

locale table_format = comparator C valid for C valid +
  fixes pol :: "FilterPolicy option" and fits :: "slice list \<Rightarrow> bool"
  assumes policy: "pol = Some P \<Longrightarrow> filter_policy P fits"
begin

definition parts_fit :: "slice list \<Rightarrow> bool" where
  "parts_fit keys \<longleftrightarrow> (\<forall>xs ys zs. keys = xs @ ys @ zs \<longrightarrow> fits ys)"

lemma parts_fit_prefix: "parts_fit (xs @ ys) \<Longrightarrow> parts_fit xs"
  unfolding parts_fit_def by (metis append.assoc)

text \<open>Entries in strictly ascending order.\<close>

definition ordered :: "(slice \<times> slice) list \<Rightarrow> bool" where
  "ordered es \<longleftrightarrow> list_all (\<lambda>e. valid (fst e)) es \<and> sorted_wrt (\<lambda>a b. cmp_Compare C (fst a) (fst b) < 0) es"

lemma ordered_append:
  "ordered (xs @ ys) \<longleftrightarrow> ordered xs \<and> ordered ys \<and> (\<forall>x \<in> set xs. \<forall>y \<in> set ys. cmp_Compare C (fst x) (fst y) < 0)"
  by (auto simp: ordered_def sorted_wrt_append)

lemma ordered_valid: "ordered es \<Longrightarrow> e \<in> set es \<Longrightarrow> valid (fst e)"
  by (simp add: ordered_def list_all_iff)

lemma last_highest:
  assumes "ordered es" and "e \<in> set es"
  shows "cmp_Compare C (fst e) (fst (last es)) \<le> 0"
proof -
  have es: "es = butlast es @ [last es]" using assms(2) by (cases es rule: rev_cases) auto
  then have "ordered (butlast es @ [last es])" using assms(1) by simp
  then have "\<forall>x \<in> set (butlast es). cmp_Compare C (fst x) (fst (last es)) < 0" by (simp add: ordered_append)
  moreover have "e \<in> set (butlast es) \<or> e = last es" using assms(2) es by (metis Un_iff empty_iff insert_iff list.set(1,2) set_append)
  moreover have "valid (fst e)" by (rule ordered_valid [OF assms])
  ultimately show ?thesis using compare_refl by fastforce
qed

lemma ordered_snoc:
  assumes "ordered es" and "valid key" and "es \<noteq> [] \<Longrightarrow> cmp_Compare C (fst (last es)) key < 0"
  shows "ordered (es @ [(key, v)])"
proof -
  have "cmp_Compare C (fst e) key < 0" if e: "e \<in> set es" for e
  proof -
    have ne: "es \<noteq> []" using e by auto
    then have "valid (fst (last es))" using ordered_valid [OF assms(1)] by simp
    then show ?thesis
      using trans_le_less [OF ordered_valid [OF assms(1) e] _ assms(2) last_highest [OF assms(1) e] assms(3) [OF ne]] by blast
  qed
  then show ?thesis using assms(1,2) by (simp add: ordered_append) (simp add: ordered_def)
qed

text \<open>The filter block with its trailer, if there is a policy, and its handle.\<close>

definition filter_part :: "table_block list \<Rightarrow> byte list \<Rightarrow> BlockHandle \<Rightarrow> bool" where
  "filter_part bs fl fh \<longleftrightarrow> (case pol of None \<Rightarrow> fl = []
     | Some P \<Rightarrow> \<exists>fls. fl = framed (filter_block P fls) \<and> fh = handle_at (length (data_bytes bs)) (filter_block P fls) \<and>
         (\<forall>ks \<in> set fls. ks \<noteq> [] \<longrightarrow> fits ks) \<and> (length (data_bytes bs) < 2 ^ 32 \<longrightarrow> covers fls bs))"

definition is_table :: "table_block list \<Rightarrow> slice list \<Rightarrow> byte list \<Rightarrow> bool" where
  "is_table bs seps bytes \<longleftrightarrow>
     length seps = length bs \<and> (\<forall>b \<in> set bs. fst b \<noteq> [] \<and> built (fst b) (snd b)) \<and> ordered (entries_of bs) \<and>
     separates (cmp_Compare C) bs seps \<and> list_all valid seps \<and> chosen C bs [] seps \<and>
     (\<exists>fl fh meta idx. filter_part bs fl fh \<and> built (meta_entries pol fh) meta \<and> built (index_entries bs seps) idx \<and>
        bytes = data_bytes bs @ fl @ framed meta @ framed idx @
          Footer_EncodeTo \<lparr>ft_metaindex_handle = handle_at (length (data_bytes bs @ fl)) meta,
            ft_index_handle = handle_at (length (data_bytes bs @ fl @ framed meta)) idx\<rparr> [])"

end

section \<open>Writing blocks\<close>

context writable_file
begin

definition writes :: "'f TableBuilder \<Rightarrow> byte list \<Rightarrow> bool" where
  "writes r bytes \<longleftrightarrow> good (tb_file r) \<and> written (tb_file r) = bytes \<and> tb_offset r = word_of_nat (length bytes) \<and>
     tb_status r = OK"

lemma WriteRawBlock_writes:
  assumes "writes r bytes"
  shows "\<exists>f. WriteRawBlock W b kNoCompression r = Some (handle_at (length bytes) b,
      r\<lparr>tb_status := OK, tb_file := f, tb_offset := word_of_nat (length (bytes @ framed b))\<rparr>) \<and>
    writes (r\<lparr>tb_status := OK, tb_file := f, tb_offset := word_of_nat (length (bytes @ framed b))\<rparr>) (bytes @ framed b)"
proof -
  have r: "good (tb_file r)" "written (tb_file r) = bytes" "tb_offset r = word_of_nat (length bytes)" "tb_status r = OK"
    using assms by (simp_all add: writes_def)
  obtain f where f: "wf_Append W b (tb_file r) = Some (OK, f)" "good f" "written f = bytes @ b"
    using append [OF r(1)] r(2) by metis
  obtain f1 where f1: "wf_Append W (block_trailer kNoCompression b) f = Some (OK, f1)" "good f1"
    "written f1 = bytes @ framed b"
    using append [OF f(2)] f(3) by (metis append.assoc framed_def)
  have o: "tb_offset r + word_of_nat (length b + kBlockTrailerSize) = word_of_nat (length (bytes @ framed b))"
    by (simp add: r(3))
  have "WriteRawBlock W b kNoCompression r = Some (handle_at (length bytes) b,
      r\<lparr>tb_status := OK, tb_file := f1, tb_offset := word_of_nat (length (bytes @ framed b))\<rparr>)"
    using f1(1) o unfolding WriteRawBlock_def Let_def f(1) block_trailer_def
    by (simp add: ok_OK handle_at_def r(3))
  then show ?thesis using f1(2,3) by (auto simp: writes_def)
qed

lemma WriteBlock_writes:
  assumes "writes r bytes" and "builder_inv es rs block"
  shows "\<exists>b f. built (map snd es) b \<and> WriteBlock W block r = Some (BlockBuilder_Reset (snd (BlockBuilder_Finish block)),
      handle_at (length bytes) b, r\<lparr>tb_status := OK, tb_file := f, tb_offset := word_of_nat (length (bytes @ framed b)),
        tb_compressed_output := []\<rparr>) \<and>
    good f \<and> written f = bytes @ framed b"
proof -
  define raw where "raw = fst (BlockBuilder_Finish block)"
  have b: "built (map snd es) raw" using Finish_layout [OF assms(2)] by (auto simp: built_def raw_def)
  obtain f where f: "WriteRawBlock W raw kNoCompression r = Some (handle_at (length bytes) raw,
      r\<lparr>tb_status := OK, tb_file := f, tb_offset := word_of_nat (length (bytes @ framed raw))\<rparr>)"
    "writes (r\<lparr>tb_status := OK, tb_file := f, tb_offset := word_of_nat (length (bytes @ framed raw))\<rparr>) (bytes @ framed raw)"
    using WriteRawBlock_writes [OF assms(1)] by blast
  have "WriteBlock W block r = Some (BlockBuilder_Reset (snd (BlockBuilder_Finish block)), handle_at (length bytes) raw,
      r\<lparr>tb_status := OK, tb_file := f, tb_offset := word_of_nat (length (bytes @ framed raw)), tb_compressed_output := []\<rparr>)"
    using f(1) by (cases "opt_compression (tb_options r)")
      (simp_all add: WriteBlock_def raw_def Snappy_Compress_def split_beta)
  then show ?thesis using b f(2) by (auto simp: writes_def)
qed

end

lemma Finish_reset_inv: "builder_inv es rs b \<Longrightarrow> builder_inv [] [0] (BlockBuilder_Reset (snd (BlockBuilder_Finish b)))"
  by (simp add: builder_inv_def BlockBuilder_Reset_def BlockBuilder_Finish_def Let_def off_def last_key_def restarts_ok_def)

section \<open>The invariant of the builder\<close>

locale table_writing = writable_file W good written passed + table_format C valid pol fits
  for W :: "'f WritableFile" and good written passed C valid pol fits
begin

text \<open>The entries \<open>cur\<close> are in the unfinished data block.\<close>

definition filter_inv :: "FilterBlockBuilder option \<Rightarrow> table_block list \<Rightarrow> (slice \<times> slice) list \<Rightarrow> bool" where
  "filter_inv fb bs cur \<longleftrightarrow> (case fb of None \<Rightarrow> pol = None
     | Some b \<Rightarrow> \<exists>P fls ks. pol = Some P \<and> builds P fls ks b \<and> concat fls @ ks = map fst (entries_of bs @ cur) \<and>
         (length (data_bytes bs) < 2 ^ 32 \<longrightarrow> length fls = length (data_bytes bs) div kFilterBase \<and>
           covers (fls @ [ks]) bs \<and> fst ` set cur \<subseteq> set ks))"

lemma kFilterBase_eq: "kFilterBase = 2048"
  by (simp add: kFilterBase_def kFilterBaseLg_def)

lemma covers_more: "covers (fls @ [ks]) bs \<Longrightarrow> covers (fls @ [ks @ ks'] @ x) bs"
  unfolding covers_def
proof (intro allI impI)
  fix j
  assume c: "\<forall>j<length bs. block_off bs j div kFilterBase < length (fls @ [ks]) \<and>
    fst ` set (fst (bs ! j)) \<subseteq> set ((fls @ [ks]) ! (block_off bs j div kFilterBase))" and j: "j < length bs"
  then have "block_off bs j div kFilterBase < length (fls @ [ks])"
    "fst ` set (fst (bs ! j)) \<subseteq> set ((fls @ [ks]) ! (block_off bs j div kFilterBase))" by blast+
  then show "block_off bs j div kFilterBase < length (fls @ [ks @ ks'] @ x) \<and>
    fst ` set (fst (bs ! j)) \<subseteq> set ((fls @ [ks @ ks'] @ x) ! (block_off bs j div kFilterBase))"
    by (cases "block_off bs j div kFilterBase < length fls") (auto simp: nth_append less_Suc_eq)
qed

lemma covers_snoc:
  assumes "covers (fls @ [ks] @ x) bs" and "length fls = length (data_bytes bs) div kFilterBase" and "fst ` set cur \<subseteq> set ks"
  shows "covers (fls @ [ks] @ x) (bs @ [(cur, b)])"
  unfolding covers_def
proof (intro allI impI)
  fix j assume "j < length (bs @ [(cur, b)])"
  then consider "j < length bs" | "j = length bs" by fastforce
  then show "block_off (bs @ [(cur, b)]) j div kFilterBase < length (fls @ [ks] @ x) \<and>
      fst ` set (fst ((bs @ [(cur, b)]) ! j)) \<subseteq> set ((fls @ [ks] @ x) ! (block_off (bs @ [(cur, b)]) j div kFilterBase))"
  proof cases
    case 1
    then show ?thesis using assms(1) by (simp add: covers_def block_off_append nth_append)
  next
    case 2
    then have "block_off (bs @ [(cur, b)]) j div kFilterBase = length fls" using assms(2) by (simp add: block_off_length)
    then show ?thesis using 2 assms(3) by simp
  qed
qed

lemma filter_AddKey:
  assumes "filter_inv fb bs cur"
  shows "filter_inv (map_option (AddKey key) fb) bs (cur @ [(key, v)])"
proof (cases fb)
  case None
  then show ?thesis using assms unfolding filter_inv_def by simp
next
  case (Some b)
  obtain P fls ks where f: "pol = Some P" "builds P fls ks b" "concat fls @ ks = map fst (entries_of bs @ cur)"
    "length (data_bytes bs) < 2 ^ 32 \<longrightarrow> length fls = length (data_bytes bs) div kFilterBase \<and>
      covers (fls @ [ks]) bs \<and> fst ` set cur \<subseteq> set ks"
    using assms Some by (auto simp: filter_inv_def)
  have "covers (fls @ [ks]) bs \<Longrightarrow> covers (fls @ [ks @ [key]]) bs" using covers_more [of fls ks bs "[key]" "[]"] by simp
  then show ?thesis
    using AddKey_builds [OF f(2), of key] f unfolding filter_inv_def Some
    by (simp, intro exI [of _ fls] exI [of _ "ks @ [key]"]) auto
qed

lemma filter_StartBlock:
  assumes inv: "filter_inv fb bs cur" and fit: "parts_fit (map fst (entries_of bs @ cur))"
    and o: "o' = word_of_nat (length (data_bytes (bs @ [(cur, b)])))"
  shows "filter_inv (map_option (StartBlock o') fb) (bs @ [(cur, b)]) []"
proof (cases fb)
  case None
  then show ?thesis using inv unfolding filter_inv_def by simp
next
  case (Some bb)
  obtain P fls ks where f: "pol = Some P" "builds P fls ks bb" "concat fls @ ks = map fst (entries_of bs @ cur)"
    "length (data_bytes bs) < 2 ^ 32 \<longrightarrow> length fls = length (data_bytes bs) div kFilterBase \<and>
      covers (fls @ [ks]) bs \<and> fst ` set cur \<subseteq> set ks"
    using inv Some by (auto simp: filter_inv_def)
  have "fits ks" using fit f(3) unfolding parts_fit_def by (metis append_Nil2)
  define n where "n = unat o' div kFilterBase"
  define fls' where "fls' = fst (start_filters n fls ks)"
  define ks' where "ks' = snd (start_filters n fls ks)"
  have bld: "builds P fls' ks' (StartBlock o' bb)"
    unfolding fls'_def ks'_def StartBlock_def n_def
    by (rule filter_policy.generate_until_builds [OF policy [OF f(1)] f(2)]) (rule \<open>fits ks\<close>)
  have keys: "concat fls' @ ks' = map fst (entries_of (bs @ [(cur, b)]) @ [])"
    using f(3) by (simp add: fls'_def ks'_def start_filters_def)
  have "length fls' = length (data_bytes (bs @ [(cur, b)])) div kFilterBase \<and> covers (fls' @ [ks']) (bs @ [(cur, b)])"
    if small: "length (data_bytes (bs @ [(cur, b)])) < 2 ^ 32"
  proof -
    have g: "length fls = length (data_bytes bs) div kFilterBase" "covers (fls @ [ks]) bs" "fst ` set cur \<subseteq> set ks"
      using f(4) small by simp_all
    have n: "n = length (data_bytes (bs @ [(cur, b)])) div kFilterBase"
      using small unfolding n_def o by (subst unat_small64) simp_all
    have le: "length fls \<le> n" unfolding g(1) n by (intro div_le_mono) simp
    show ?thesis
    proof (cases "n > length fls")
      case True
      then have e: "fls' @ [ks'] = fls @ [ks] @ replicate (n - length fls - 1) [] @ [[]]" "length fls' = n"
        by (simp_all add: fls'_def ks'_def start_filters_def)
      have "covers (fls @ [ks] @ replicate (n - length fls - 1) [] @ [[]]) bs"
        using covers_more [OF g(2), of "[]"] by simp
      from covers_snoc [OF this g(1,3)] show ?thesis using e n by simp
    next
      case False
      then have e: "fls' @ [ks'] = fls @ [ks] @ []" "length fls' = n"
        using le by (simp_all add: fls'_def ks'_def start_filters_def)
      have "covers (fls @ [ks] @ []) bs" using g(2) by simp
      from covers_snoc [OF this g(1,3)] show ?thesis using e n by simp
    qed
  qed
  then show ?thesis
    using bld keys f(1) unfolding filter_inv_def Some by simp blast
qed

definition table_inv :: "'f TableBuilder \<Rightarrow> table_block list \<Rightarrow> (slice \<times> slice) list \<Rightarrow> slice list \<Rightarrow> bool" where
  "table_inv r bs cur seps \<longleftrightarrow> writes r (data_bytes bs) \<and>
     opt_comparator (tb_options r) = C \<and> opt_filter_policy (tb_options r) = pol \<and>
     1 \<le> opt_block_restart_interval (tb_options r) \<and>
     (\<exists>es rs. builder_inv es rs (tb_data_block r) \<and> map snd es = cur) \<and>
     (\<exists>es rs. builder_inv es rs (tb_index_block r) \<and> map snd es = index_entries bs seps) \<and>
     (\<forall>b \<in> set bs. fst b \<noteq> [] \<and> built (fst b) (snd b)) \<and> ordered (entries_of bs @ cur) \<and>
     (if tb_pending_index_entry r
      then Suc (length seps) = length bs \<and> cur = [] \<and> tb_pending_handle r = block_handle bs (length seps)
      else length seps = length bs \<and> (cur = [] \<longrightarrow> bs = [])) \<and>
     (entries_of bs @ cur \<noteq> [] \<longrightarrow> tb_last_key r = fst (last (entries_of bs @ cur))) \<and>
     separates (cmp_Compare C) bs seps \<and> list_all valid seps \<and>
     (\<forall>s \<in> set seps. \<forall>e \<in> set cur. cmp_Compare C s (fst e) < 0) \<and>
     filter_inv (tb_filter_block r) bs cur \<and> chosen C bs cur seps"

lemma new_table_inv:
  assumes "opt_comparator options = C" and "opt_filter_policy options = pol" and "1 \<le> opt_block_restart_interval options"
    and "good file" and "written file = []"
  shows "table_inv (new_TableBuilder options file) [] [] []"
proof -
  have sb: "StartBlock 0 b = b" for b by (simp add: StartBlock_def generate_until.simps)
  have f: "filter_inv (map_option (\<lambda>P. StartBlock 0 (new_FilterBlockBuilder P)) pol) [] []"
  proof (cases pol)
    case None
    then show ?thesis unfolding filter_inv_def by simp
  next
    case (Some P)
    have "builds P [] [] (new_FilterBlockBuilder P)" by (rule new_builds)
    then show ?thesis
      unfolding filter_inv_def using Some
      by (simp add: sb covers_def)
  qed
  show ?thesis
    unfolding table_inv_def new_TableBuilder_def
    using assms f new_builder_inv [OF assms(3)] new_builder_inv [of 1]
    by (auto simp: writes_def ordered_def separates_def index_entries_def chosen_def intro!: exI [of _ "[]"] exI [of _ "[0]"])
qed

lemma Flush_empty: "table_inv r bs [] seps \<Longrightarrow> TableBuilder_Flush W r = Some r"
  by (auto simp: table_inv_def TableBuilder_Flush_def BlockBuilder_empty_def builder_inv_def)

lemma separates_snoc:
  assumes "separates cmp bs seps" and "length seps = length bs" and "\<forall>s \<in> set seps. \<forall>e \<in> set cur. cmp s (fst e) < 0"
  shows "separates cmp (bs @ [(cur, b)]) seps"
  using assms by (auto simp: separates_def nth_append less_Suc_eq)

lemma Flush_inv:
  assumes inv: "table_inv r bs cur seps" and ne: "cur \<noteq> []" and fit: "parts_fit (map fst (entries_of bs @ cur))"
  shows "\<exists>b r'. TableBuilder_Flush W r = Some r' \<and> table_inv r' (bs @ [(cur, b)]) [] seps \<and>
    tb_options r' = tb_options r"
proof -
  note i = inv [unfolded table_inv_def]
  have np: "\<not> tb_pending_index_entry r" "length seps = length bs" using i ne by (auto split: if_splits)
  obtain es rs where e: "builder_inv es rs (tb_data_block r)" "map snd es = cur" using i by blast
  have w: "writes r (data_bytes bs)" using i by blast
  obtain b f where b: "built cur b" "WriteBlock W (tb_data_block r) r =
      Some (BlockBuilder_Reset (snd (BlockBuilder_Finish (tb_data_block r))), handle_at (length (data_bytes bs)) b,
        r\<lparr>tb_status := OK, tb_file := f, tb_offset := word_of_nat (length (data_bytes bs @ framed b)),
          tb_compressed_output := []\<rparr>)" "good f" "written f = data_bytes bs @ framed b"
    using WriteBlock_writes [OF w e(1)] e(2) by blast
  obtain f1 where f1: "wf_Flush W f = Some (OK, f1)" "good f1" "written f1 = data_bytes bs @ framed b"
    using flush [OF b(3)] b(4) by metis
  let ?o = "word_of_nat (length (data_bytes bs @ framed b)) :: u64"
  let ?r = "r\<lparr>tb_status := OK, tb_file := f1, tb_offset := ?o, tb_compressed_output := [],
      tb_data_block := BlockBuilder_Reset (snd (BlockBuilder_Finish (tb_data_block r))),
      tb_pending_handle := handle_at (length (data_bytes bs)) b, tb_pending_index_entry := True,
      tb_filter_block := map_option (StartBlock ?o) (tb_filter_block r)\<rparr>"
  have "es \<noteq> []" using e(2) ne by auto
  then have "ents_bytes es \<noteq> []" using length_ent_bytes [of "hd es"] by (cases es) auto
  then have nb: "\<not> BlockBuilder_empty (tb_data_block r)" using e(1) by (simp add: BlockBuilder_empty_def builder_inv_def)
  have "tb_status r = OK" using w by (simp add: writes_def)
  then have fl: "TableBuilder_Flush W r = Some ?r"
    using nb f1(1) by (simp add: TableBuilder_Flush_def TableBuilder_ok_def ok_OK b(2))
  have flt: "filter_inv (map_option (StartBlock ?o) (tb_filter_block r)) (bs @ [(cur, b)]) []"
    using i fit by (intro filter_StartBlock) simp_all
  have ie: "index_entries (bs @ [(cur, b)]) seps = index_entries bs seps" using np(2) by (simp add: index_entries_append)
  have hd: "block_handle (bs @ [(cur, b)]) (length seps) = handle_at (length (data_bytes bs)) b"
    using np(2) by (simp add: block_handle_def block_off_length)
  have "separates (cmp_Compare C) (bs @ [(cur, b)]) seps" using i np(2) by (intro separates_snoc) blast+
  moreover have "chosen C (bs @ [(cur, b)]) [] seps" using i ne by (intro chosen_flush) (blast, blast, auto split: if_splits)
  ultimately have "table_inv ?r (bs @ [(cur, b)]) [] seps"
    unfolding table_inv_def using i np(2) b(1) f1(2,3) flt ie hd ne Finish_reset_inv [OF e(1)]
    by (auto simp: writes_def intro!: exI [of _ "[]"] exI [of _ "[0]"])
  then show ?thesis using fl by (intro exI [of _ b] exI [of _ ?r]) simp
qed

lemma Add_builder:
  assumes "builder_inv es rs b" and "map snd es = kvs"
  shows "\<exists>es' rs'. builder_inv es' rs' (BlockBuilder_Add key v b) \<and> map snd es' = kvs @ [(key, v)]"
proof -
  obtain s rs' where "builder_inv (es @ [(s, key, v)]) rs' (BlockBuilder_Add key v b)"
    using Add_builder_inv [OF assms(1)] by blast
  moreover have "map snd (es @ [(s, key, v)]) = kvs @ [(key, v)]" using assms(2) by simp
  ultimately show ?thesis by blast
qed

lemma separates_sep:
  assumes "separates cmp bs seps" and n: "Suc (length seps) = length bs"
    and "\<And>e. e \<in> set (fst (bs ! length seps)) \<Longrightarrow> cmp (fst e) sep \<le> 0"
  shows "separates cmp bs (seps @ [sep])"
  unfolding separates_def
proof (intro allI impI)
  fix j assume "j < length (seps @ [sep])"
  then consider "j < length seps" | "j = length seps" by fastforce
  then show "(\<forall>e \<in> set (fst (bs ! j)). cmp (fst e) ((seps @ [sep]) ! j) \<le> 0) \<and>
      (\<forall>k. j < k \<and> k < length bs \<longrightarrow> (\<forall>e \<in> set (fst (bs ! k)). cmp ((seps @ [sep]) ! j) (fst e) < 0))"
  proof cases
    case 1
    then show ?thesis using assms(1) by (simp add: separates_def nth_append)
  next
    case 2
    then show ?thesis using assms(3) n by simp
  qed
qed

lemma index_step:
  assumes inv: "table_inv r bs [] seps" and p: "tb_pending_index_entry r" and sep: "valid sep"
    and last: "cmp_Compare C (tb_last_key r) sep \<le> 0"
  shows "\<exists>es rs. builder_inv es rs (BlockBuilder_Add sep (BlockHandle_EncodeTo (tb_pending_handle r) []) (tb_index_block r)) \<and>
      map snd es = index_entries bs (seps @ [sep])"
    "separates (cmp_Compare C) bs (seps @ [sep])" "Suc (length seps) = length bs" "bs \<noteq> []"
proof -
  note i = inv [unfolded table_inv_def]
  have n: "Suc (length seps) = length bs" "tb_pending_handle r = block_handle bs (length seps)" using i p by auto
  then show "Suc (length seps) = length bs" "bs \<noteq> []" by auto
  obtain es rs where "builder_inv es rs (tb_index_block r)" "map snd es = index_entries bs seps" using i by blast
  from Add_builder [OF this] show "\<exists>es rs. builder_inv es rs
      (BlockBuilder_Add sep (BlockHandle_EncodeTo (tb_pending_handle r) []) (tb_index_block r)) \<and>
      map snd es = index_entries bs (seps @ [sep])"
    by (simp add: index_entries_snoc n(2))
  have ord: "ordered (entries_of bs)" using i by simp
  have "cmp_Compare C (fst e) sep \<le> 0" if e: "e \<in> set (fst (bs ! length seps))" for e
  proof -
    have "length seps < length bs" using n(1) by simp
    then have m: "e \<in> set (entries_of bs)" using e nth_mem by (fastforce simp: entries_of_def)
    have ne: "entries_of bs \<noteq> []" using m by auto
    have lk: "tb_last_key r = fst (last (entries_of bs))" using i ne by simp
    have "valid (fst (last (entries_of bs)))" using ordered_valid [OF ord] ne by simp
    then show ?thesis
      using trans [OF ordered_valid [OF ord m] _ sep last_highest [OF ord m]] last lk by simp
  qed
  moreover have "separates (cmp_Compare C) bs seps" using i by blast
  ultimately show "separates (cmp_Compare C) bs (seps @ [sep])" using separates_sep n(1) by blast
qed

lemma last_below:
  assumes inv: "table_inv r bs cur seps" and key: "valid key" and ne: "entries_of bs @ cur \<noteq> []"
    and last: "cmp_Compare C (tb_last_key r) key < 0" and s: "s \<in> set seps"
  shows "cmp_Compare C s key < 0"
proof -
  note i = inv [unfolded table_inv_def]
  let ?es = "entries_of bs @ cur"
  have ord: "ordered ?es" using i by blast
  have lk: "tb_last_key r = fst (last ?es)" using i ne by blast
  have vl: "valid (fst (last ?es))" using ordered_valid [OF ord] ne by (meson last_in_set)
  have vs: "valid s" using i s by (simp add: list_all_iff)
  have "cmp_Compare C s (fst (last ?es)) < 0"
  proof (cases "cur = []")
    case False
    then show ?thesis using i s by simp
  next
    case True
    obtain j where j: "j < length seps" "s = seps ! j" using s by (auto simp: in_set_conv_nth)
    have bn: "bs \<noteq> []" using ne True by auto
    then have p: "Suc (length seps) = length bs" using i True by (auto split: if_splits)
    have "fst (last bs) \<noteq> []" using i bn by simp
    then have "last (entries_of bs) = last (fst (last bs))"
      using bn by (cases bs rule: rev_cases) simp_all
    moreover have "bs ! length seps = last bs" using p last_conv_nth [OF bn] by (metis diff_Suc_1)
    ultimately have "last ?es \<in> set (fst (bs ! length seps))" using True \<open>fst (last bs) \<noteq> []\<close> by simp
    moreover have "separates (cmp_Compare C) bs seps" using i by blast
    ultimately show ?thesis using j p unfolding separates_def by (metis lessI)
  qed
  then show ?thesis using trans_less_le [OF vs vl key] last lk by simp
qed

text \<open>\<open>Add\<close> up to the point where the block may be full.\<close>

definition add_entry :: "slice \<Rightarrow> slice \<Rightarrow> 'f TableBuilder \<Rightarrow> 'f TableBuilder" where
  "add_entry key v r =
     (let r1 = (if tb_pending_index_entry r
        then (let last_key = cmp_FindShortestSeparator (opt_comparator (tb_options r)) (tb_last_key r) key
              in r\<lparr>tb_last_key := last_key,
                   tb_index_block := BlockBuilder_Add last_key (BlockHandle_EncodeTo (tb_pending_handle r) []) (tb_index_block r),
                   tb_pending_index_entry := False\<rparr>)
        else r)
      in r1\<lparr>tb_filter_block := map_option (AddKey key) (tb_filter_block r1), tb_last_key := key,
            tb_num_entries := tb_num_entries r1 + 1, tb_data_block := BlockBuilder_Add key v (tb_data_block r1)\<rparr>)"

lemma Add_add_entry:
  "TableBuilder_ok r \<Longrightarrow> TableBuilder_Add W key v r =
     (if CurrentSizeEstimate (tb_data_block (add_entry key v r)) \<ge> opt_block_size (tb_options (add_entry key v r))
      then TableBuilder_Flush W (add_entry key v r) else Some (add_entry key v r))"
  by (simp add: TableBuilder_Add_def add_entry_def Let_def)

lemma add_entry_inv:
  assumes inv: "table_inv r bs cur seps" and key: "valid key"
    and last: "entries_of bs @ cur \<noteq> [] \<Longrightarrow> cmp_Compare C (tb_last_key r) key < 0"
  shows "\<exists>seps'. table_inv (add_entry key v r) bs (cur @ [(key, v)]) seps' \<and>
    \<not> tb_pending_index_entry (add_entry key v r) \<and> tb_options (add_entry key v r) = tb_options r"
proof -
  note i = inv [unfolded table_inv_def]
  let ?es = "entries_of bs @ cur"
  have ord: "ordered ?es" using i by blast
  have lk: "tb_last_key r = fst (last ?es)" if "?es \<noteq> []" using i that by blast
  have ord': "ordered (entries_of bs @ cur @ [(key, v)])"
    using ordered_snoc [OF ord key, of v] last lk by simp
  have flt: "filter_inv (map_option (AddKey key) (tb_filter_block r)) bs (cur @ [(key, v)])"
    using i filter_AddKey by blast
  obtain es rs where e: "builder_inv es rs (BlockBuilder_Add key v (tb_data_block r))" "map snd es = cur @ [(key, v)]"
    using i Add_builder by metis
  have below: "cmp_Compare C s key < 0" if "s \<in> set seps" "?es \<noteq> []" for s
    using last_below [OF inv key that(2) last [OF that(2)] that(1)] .
  show ?thesis
  proof (cases "tb_pending_index_entry r")
    case False
    then have n: "length seps = length bs" "cur = [] \<longrightarrow> bs = []" using i by auto
    then have b: "\<forall>s \<in> set seps. cmp_Compare C s key < 0" using below by fastforce
    have "chosen C bs (cur @ [(key, v)]) seps"
    proof (cases "cur = []")
      case True
      then show ?thesis using n by (simp add: chosen_def)
    next
      case False
      then show ?thesis using i by (intro chosen_more) blast+
    qed
    then have "table_inv (add_entry key v r) bs (cur @ [(key, v)]) seps"
      unfolding table_inv_def add_entry_def Let_def if_not_P [OF False]
      using i n b ord' flt e False by (auto simp: writes_def)
    then show ?thesis using False by (intro exI [of _ seps]) (simp add: add_entry_def Let_def)
  next
    case True
    then have c: "cur = []" using i by auto
    let ?sep = "cmp_FindShortestSeparator C (tb_last_key r) key"
    have inv0: "table_inv r bs [] seps" using inv c by simp
    have "bs \<noteq> []" "Suc (length seps) = length bs" using i True by auto
    moreover have "\<forall>b \<in> set bs. fst b \<noteq> []" using i by blast
    ultimately have ne: "?es \<noteq> []" by (cases bs) auto
    have vl: "valid (tb_last_key r)" using ordered_valid [OF ord] lk [OF ne] ne by (metis last_in_set)
    note sp = separator [OF vl key last [OF ne]]
    have sep: "valid ?sep" "cmp_Compare C (tb_last_key r) ?sep \<le> 0" "cmp_Compare C ?sep key < 0" using sp by blast+
    note st = index_step [OF inv0 True sep(1,2)]
    have oc: "opt_comparator (tb_options r) = C" using i by blast
    have b: "\<forall>s \<in> set (seps @ [?sep]). cmp_Compare C s key < 0" using below ne sep(3) by auto
    have "fst (last bs) \<noteq> []" using i \<open>bs \<noteq> []\<close> by simp
    then have "last (entries_of bs) = last (fst (last bs))" using \<open>bs \<noteq> []\<close> by (cases bs rule: rev_cases) simp_all
    then have "chosen C bs (cur @ [(key, v)]) (seps @ [?sep])"
      using i c lk [OF ne] \<open>Suc (length seps) = length bs\<close> by (simp add: chosen_sep)
    then have "table_inv (add_entry key v r) bs (cur @ [(key, v)]) (seps @ [?sep])"
      unfolding table_inv_def add_entry_def Let_def if_P [OF True] oc
      using i st b ord' flt e sep(1) oc c by (auto simp: writes_def)
    then show ?thesis using True by (intro exI [of _ "seps @ [?sep]"]) (simp add: add_entry_def Let_def)
  qed
qed

lemma Add_inv:
  assumes inv: "table_inv r bs cur seps" and key: "valid key"
    and last: "entries_of bs @ cur \<noteq> [] \<Longrightarrow> cmp_Compare C (tb_last_key r) key < 0"
    and fit: "parts_fit (map fst (entries_of bs @ cur @ [(key, v)]))"
  shows "\<exists>r' bs' cur' seps'. TableBuilder_Add W key v r = Some r' \<and> table_inv r' bs' cur' seps' \<and>
    entries_of bs' @ cur' = entries_of bs @ cur @ [(key, v)]"
proof -
  have ok: "TableBuilder_ok r" using inv by (simp add: table_inv_def writes_def TableBuilder_ok_def ok_OK)
  obtain seps' where r1: "table_inv (add_entry key v r) bs (cur @ [(key, v)]) seps'"
    using add_entry_inv [OF inv key last] by blast
  show ?thesis
  proof (cases "CurrentSizeEstimate (tb_data_block (add_entry key v r)) \<ge> opt_block_size (tb_options (add_entry key v r))")
    case True
    obtain b r' where "TableBuilder_Flush W (add_entry key v r) = Some r'"
      "table_inv r' (bs @ [(cur @ [(key, v)], b)]) [] seps'"
      using Flush_inv [OF r1] fit by auto
    then show ?thesis using True ok
      by (intro exI [of _ r'] exI [of _ "bs @ [(cur @ [(key, v)], b)]"] exI [of _ "[]"] exI [of _ seps'])
        (simp add: Add_add_entry)
  next
    case False
    then show ?thesis using r1 ok
      by (intro exI [of _ "add_entry key v r"] exI [of _ bs] exI [of _ "cur @ [(key, v)]"] exI [of _ seps'])
        (simp add: Add_add_entry)
  qed
qed

section \<open>Finishing the table\<close>

lemma covers_trim:
  assumes "covers (fls @ [[]]) bs" and "\<forall>b \<in> set bs. fst b \<noteq> []"
  shows "covers fls bs"
  unfolding covers_def
proof (intro allI impI)
  fix j assume j: "j < length bs"
  let ?i = "block_off bs j div kFilterBase"
  have c: "?i < length (fls @ [[]])" "fst ` set (fst (bs ! j)) \<subseteq> set ((fls @ [[]]) ! ?i)"
    using assms(1) j unfolding covers_def by blast+
  have "?i \<noteq> length fls"
  proof
    assume "?i = length fls"
    then have "fst ` set (fst (bs ! j)) \<subseteq> {}" using c(2) by simp
    then show False using assms(2) nth_mem [OF j] by auto
  qed
  then show "?i < length fls \<and> fst ` set (fst (bs ! j)) \<subseteq> set (fls ! ?i)"
    using c by (simp add: nth_append split: if_splits)
qed

lemma concat_parts_fit:
  assumes "parts_fit (concat fls @ ks)"
  shows "\<forall>k \<in> set (end_filters fls ks). k \<noteq> [] \<longrightarrow> fits k"
proof
  fix k assume "k \<in> set (end_filters fls ks)"
  then have "k \<in> set (fls @ [ks])" by (auto simp: end_filters_def split: if_splits)
  then obtain xs ys where "fls @ [ks] = xs @ k # ys" by (meson split_list)
  then have "concat (fls @ [ks]) = concat xs @ k @ concat ys" by (metis concat.simps(2) concat_append)
  then have "concat fls @ ks = concat xs @ k @ concat ys" by simp
  then show "k \<noteq> [] \<longrightarrow> fits k" using assms unfolding parts_fit_def by blast
qed

lemma finish_filter_writes:
  assumes w: "writes r (data_bytes bs)" and f: "filter_inv (tb_filter_block r) bs []"
    and fit: "parts_fit (map fst (entries_of bs))" and ne: "\<forall>b \<in> set bs. fst b \<noteq> []"
    and po: "opt_filter_policy (tb_options r) = pol"
  shows "\<exists>h fl fb f' o'. finish_filter W r = Some (h, r\<lparr>tb_filter_block := fb, tb_status := OK, tb_file := f', tb_offset := o'\<rparr>) \<and>
    writes (r\<lparr>tb_filter_block := fb, tb_status := OK, tb_file := f', tb_offset := o'\<rparr>) (data_bytes bs @ fl) \<and>
    filter_part bs fl h \<and> (fb = None \<longleftrightarrow> pol = None)"
proof (cases "tb_filter_block r")
  case None
  then have "pol = None" using f unfolding filter_inv_def by simp
  then have "filter_part bs [] new_BlockHandle" unfolding filter_part_def by simp
  moreover have "finish_filter W r = Some (new_BlockHandle, r)" using w None by (simp add: finish_filter_def)
  moreover have "r\<lparr>tb_filter_block := None, tb_status := OK, tb_file := tb_file r, tb_offset := tb_offset r\<rparr> = r"
    using None w by (cases r) (simp add: writes_def)
  ultimately show ?thesis using w \<open>pol = None\<close>
    by (intro exI [of _ new_BlockHandle] exI [of _ "[]"] exI [of _ None] exI [of _ "tb_file r"] exI [of _ "tb_offset r"]) simp
next
  case (Some b)
  obtain P fls ks where p: "pol = Some P" "builds P fls ks b" "concat fls @ ks = map fst (entries_of bs)"
    "length (data_bytes bs) < 2 ^ 32 \<longrightarrow> covers (fls @ [ks]) bs"
    using f Some unfolding filter_inv_def by auto
  have fp: "filter_policy P fits" by (rule policy [OF p(1)])
  have fk: "parts_fit (concat fls @ ks)" using fit p(3) by simp
  then have "fits ks" unfolding parts_fit_def by (metis append_Nil2)
  then have fin: "fst (FilterBlock_Finish b) = filter_block P (end_filters fls ks)"
    by (intro filter_policy.Finish_builds [OF fp p(2)])
  let ?s = "filter_block P (end_filters fls ks)"
  have w1: "writes (r\<lparr>tb_filter_block := Some (snd (FilterBlock_Finish b))\<rparr>) (data_bytes bs)" using w by (simp add: writes_def)
  have ok: "TableBuilder_ok r" using w by (simp add: writes_def TableBuilder_ok_def ok_OK)
  have "finish_filter W r = WriteRawBlock W ?s kNoCompression (r\<lparr>tb_filter_block := Some (snd (FilterBlock_Finish b))\<rparr>)"
    using ok Some fin by (simp add: finish_filter_def split_beta)
  moreover obtain f' where "WriteRawBlock W ?s kNoCompression (r\<lparr>tb_filter_block := Some (snd (FilterBlock_Finish b))\<rparr>) =
      Some (handle_at (length (data_bytes bs)) ?s, r\<lparr>tb_filter_block := Some (snd (FilterBlock_Finish b)), tb_status := OK,
        tb_file := f', tb_offset := word_of_nat (length (data_bytes bs @ framed ?s))\<rparr>)"
    "writes (r\<lparr>tb_filter_block := Some (snd (FilterBlock_Finish b)), tb_status := OK,
        tb_file := f', tb_offset := word_of_nat (length (data_bytes bs @ framed ?s))\<rparr>) (data_bytes bs @ framed ?s)"
    using WriteRawBlock_writes [OF w1, of ?s] by auto
  moreover have "filter_part bs (framed ?s) (handle_at (length (data_bytes bs)) ?s)"
  proof -
    have "covers (end_filters fls ks) bs" if "covers (fls @ [ks]) bs"
      using that ne covers_trim [of fls bs] by (cases "ks = []") (simp_all add: end_filters_def)
    then show ?thesis using p(1,4) concat_parts_fit [OF fk] unfolding filter_part_def by auto
  qed
  ultimately show ?thesis using p(1)
    by (intro exI [of _ "handle_at (length (data_bytes bs)) ?s"] exI [of _ "framed ?s"]
        exI [of _ "Some (snd (FilterBlock_Finish b))"] exI [of _ f']
        exI [of _ "word_of_nat (length (data_bytes bs @ framed ?s))"]) (simp add: finish_filter_def)
qed

lemma finish_metaindex_writes:
  assumes w: "writes r bytes" and po: "opt_filter_policy (tb_options r) = pol"
    and fb: "tb_filter_block r = None \<longleftrightarrow> pol = None" and k: "1 \<le> opt_block_restart_interval (tb_options r)"
  shows "\<exists>meta f' o'. finish_metaindex W h r = Some (handle_at (length bytes) meta,
      r\<lparr>tb_status := OK, tb_file := f', tb_offset := o', tb_compressed_output := []\<rparr>) \<and>
    writes (r\<lparr>tb_status := OK, tb_file := f', tb_offset := o', tb_compressed_output := []\<rparr>) (bytes @ framed meta) \<and>
    built (meta_entries pol h) meta"
proof -
  let ?m = "new_BlockBuilder (opt_block_restart_interval (tb_options r))"
  have m: "builder_inv [] [0] ?m" by (rule new_builder_inv [OF k])
  have ok: "TableBuilder_ok r" using w by (simp add: writes_def TableBuilder_ok_def ok_OK)
  obtain es rs b where b: "builder_inv es rs b" "map snd es = meta_entries pol h"
    "(if tb_filter_block r \<noteq> None then do {
        P \<leftarrow> opt_filter_policy (tb_options r);
        Some (BlockBuilder_Add (lit ''filter.'' @ lit (fp_Name P)) (BlockHandle_EncodeTo h []) ?m) }
      else Some ?m) = Some b"
  proof (cases pol)
    case None
    then show ?thesis using that [OF m] fb by (simp add: meta_entries_def)
  next
    case (Some P)
    obtain es rs where "builder_inv es rs (BlockBuilder_Add (lit ''filter.'' @ lit (fp_Name P)) (BlockHandle_EncodeTo h []) ?m)"
      "map snd es = [(lit ''filter.'' @ lit (fp_Name P), BlockHandle_EncodeTo h [])]"
      using Add_builder [OF m list.map(1), of "lit ''filter.'' @ lit (fp_Name P)" "BlockHandle_EncodeTo h []"]
      unfolding append_Nil by (elim exE conjE)
    from that [OF this(1)] this(2) show ?thesis using Some fb po by (simp add: meta_entries_def)
  qed
  obtain meta f where wr: "built (map snd es) meta" "WriteBlock W b r = Some (BlockBuilder_Reset (snd (BlockBuilder_Finish b)),
      handle_at (length bytes) meta, r\<lparr>tb_status := OK, tb_file := f, tb_offset := word_of_nat (length (bytes @ framed meta)),
        tb_compressed_output := []\<rparr>)" "good f" "written f = bytes @ framed meta"
    using WriteBlock_writes [OF w b(1)] by blast
  have "finish_metaindex W h r = Some (handle_at (length bytes) meta,
      r\<lparr>tb_status := OK, tb_file := f, tb_offset := word_of_nat (length (bytes @ framed meta)), tb_compressed_output := []\<rparr>)"
    using ok wr(2) b(3) unfolding finish_metaindex_def Let_def by simp
  then show ?thesis using wr(1,3,4) b(2)
    by (intro exI [of _ meta] exI [of _ f] exI [of _ "word_of_nat (length (bytes @ framed meta))"]) (simp add: writes_def)
qed

text \<open>The index block with the last key in it.\<close>

definition final_index :: "'f TableBuilder \<Rightarrow> BlockBuilder" where
  "final_index r = (if tb_pending_index_entry r
     then BlockBuilder_Add (cmp_FindShortSuccessor (opt_comparator (tb_options r)) (tb_last_key r))
       (BlockHandle_EncodeTo (tb_pending_handle r) []) (tb_index_block r)
     else tb_index_block r)"

lemma final_index_inv:
  assumes inv: "table_inv r bs [] seps"
  shows "\<exists>seps' es rs. builder_inv es rs (final_index r) \<and> map snd es = index_entries bs seps' \<and>
    separates (cmp_Compare C) bs seps' \<and> list_all valid seps' \<and> length seps' = length bs \<and> chosen C bs [] seps'"
proof -
  note i = inv [unfolded table_inv_def]
  show ?thesis
  proof (cases "tb_pending_index_entry r")
    case False
    then have "length seps = length bs" using i by auto
    moreover obtain es rs where "builder_inv es rs (tb_index_block r)" "map snd es = index_entries bs seps" using i by blast
    moreover have "separates (cmp_Compare C) bs seps" "list_all valid seps" "chosen C bs [] seps" using i by blast+
    ultimately show ?thesis using False
      by (intro exI [of _ seps] exI [of _ es] exI [of _ rs]) (simp only: final_index_def if_False simp_thms)
  next
    case True
    have "bs \<noteq> []" "\<forall>b \<in> set bs. fst b \<noteq> []" using i True by auto
    then have ne: "entries_of bs \<noteq> []" by (cases bs) auto
    have ord: "ordered (entries_of bs)" and lk: "tb_last_key r = fst (last (entries_of bs))" using i ne by auto
    have vl: "valid (tb_last_key r)" using ordered_valid [OF ord] lk ne by (metis last_in_set)
    note su = successor [OF vl]
    have oc: "opt_comparator (tb_options r) = C" using i by blast
    note st = index_step [OF inv True su [THEN conjunct1] su [THEN conjunct2]]
    let ?s = "cmp_FindShortSuccessor C (tb_last_key r)"
    have "list_all valid (seps @ [?s])" using i su by simp
    moreover have "fst (last bs) \<noteq> []" using i \<open>bs \<noteq> []\<close> by simp
    then have "last (entries_of bs) = last (fst (last bs))" using \<open>bs \<noteq> []\<close> by (cases bs rule: rev_cases) simp_all
    then have "chosen C bs [] (seps @ [?s])" using i True lk by (intro chosen_sep(2)) auto
    ultimately show ?thesis using st True oc by (intro exI [of _ "seps @ [?s]"]) (auto simp: final_index_def)
  qed
qed

lemma finish_index_writes:
  assumes w: "writes r bytes" and b: "builder_inv es rs (final_index r)"
  shows "\<exists>idx r'. finish_index W r = Some (handle_at (length bytes) idx, r') \<and> writes r' (bytes @ framed idx) \<and>
    built (map snd es) idx"
proof -
  have ok: "TableBuilder_ok r" using w by (simp add: writes_def TableBuilder_ok_def ok_OK)
  let ?r1 = "if tb_pending_index_entry r
    then r\<lparr>tb_last_key := cmp_FindShortSuccessor (opt_comparator (tb_options r)) (tb_last_key r),
           tb_index_block := final_index r, tb_pending_index_entry := False\<rparr> else r"
  have w1: "writes ?r1 bytes" using w by (simp add: writes_def)
  have i1: "tb_index_block ?r1 = final_index r" by (simp add: final_index_def)
  obtain idx f where wr: "built (map snd es) idx" "WriteBlock W (final_index r) ?r1 =
      Some (BlockBuilder_Reset (snd (BlockBuilder_Finish (final_index r))), handle_at (length bytes) idx,
        ?r1\<lparr>tb_status := OK, tb_file := f, tb_offset := word_of_nat (length (bytes @ framed idx)), tb_compressed_output := []\<rparr>)"
    "good f" "written f = bytes @ framed idx"
    using WriteBlock_writes [OF w1 b] by blast
  have "finish_index W r = do {
      (block, handle, r2) \<leftarrow> WriteBlock W (final_index r) ?r1; Some (handle, r2\<lparr>tb_index_block := block\<rparr>) }"
    using ok by (cases "tb_pending_index_entry r") (simp_all add: finish_index_def final_index_def Let_def)
  then show ?thesis using wr by (intro exI [of _ idx]) (simp add: writes_def)
qed

lemma finish_footer_writes:
  assumes w: "writes r bytes"
  shows "\<exists>r'. finish_footer W mh ih r = Some r' \<and>
    writes r' (bytes @ Footer_EncodeTo \<lparr>ft_metaindex_handle = mh, ft_index_handle = ih\<rparr> [])"
proof -
  let ?e = "Footer_EncodeTo \<lparr>ft_metaindex_handle = mh, ft_index_handle = ih\<rparr> []"
  have r: "good (tb_file r)" "written (tb_file r) = bytes" "tb_offset r = word_of_nat (length bytes)" "tb_status r = OK"
    using w by (simp_all add: writes_def)
  obtain f where f: "wf_Append W ?e (tb_file r) = Some (OK, f)" "good f" "written f = bytes @ ?e"
    using append [OF r(1)] r(2) by metis
  have nf: "new_Footer\<lparr>ft_metaindex_handle := mh, ft_index_handle := ih\<rparr> = \<lparr>ft_metaindex_handle = mh, ft_index_handle = ih\<rparr>"
    by (simp add: new_Footer_def)
  show ?thesis using f r(3,4) unfolding finish_footer_def nf by (simp add: TableBuilder_ok_def ok_OK writes_def Let_def)
qed

lemma Finish_inv0:
  assumes inv: "table_inv r bs [] seps" and fit: "parts_fit (map fst (entries_of bs))"
  shows "\<exists>r' seps'. TableBuilder_Finish W r = Some (OK, r') \<and> is_table bs seps' (written (tb_file r')) \<and> good (tb_file r')"
proof -
  note i = inv [unfolded table_inv_def]
  let ?r = "r\<lparr>tb_closed := True\<rparr>"
  have fl: "TableBuilder_Flush W r = Some r" by (rule Flush_empty [OF inv])
  have w: "writes ?r (data_bytes bs)" using i by (simp add: writes_def)
  have f0: "filter_inv (tb_filter_block ?r) bs []" using i by simp
  have blocks: "\<forall>b \<in> set bs. fst b \<noteq> []" using i by blast
  have po: "opt_filter_policy (tb_options ?r) = pol" and k: "1 \<le> opt_block_restart_interval (tb_options ?r)" using i by simp_all
  obtain fh fl' fb f1 o1 where s1: "finish_filter W ?r = Some (fh, ?r\<lparr>tb_filter_block := fb, tb_status := OK, tb_file := f1, tb_offset := o1\<rparr>)"
    "writes (?r\<lparr>tb_filter_block := fb, tb_status := OK, tb_file := f1, tb_offset := o1\<rparr>) (data_bytes bs @ fl')"
    "filter_part bs fl' fh" "fb = None \<longleftrightarrow> pol = None"
    using finish_filter_writes [OF w f0 fit blocks po] by (elim exE conjE)
  let ?r1 = "?r\<lparr>tb_filter_block := fb, tb_status := OK, tb_file := f1, tb_offset := o1\<rparr>"
  have r1: "opt_filter_policy (tb_options ?r1) = pol" "tb_filter_block ?r1 = None \<longleftrightarrow> pol = None"
      "1 \<le> opt_block_restart_interval (tb_options ?r1)"
    using po k s1(4) by simp_all
  obtain meta f2 o2 where s2: "finish_metaindex W fh ?r1 = Some (handle_at (length (data_bytes bs @ fl')) meta,
      ?r1\<lparr>tb_status := OK, tb_file := f2, tb_offset := o2, tb_compressed_output := []\<rparr>)"
    "writes (?r1\<lparr>tb_status := OK, tb_file := f2, tb_offset := o2, tb_compressed_output := []\<rparr>) ((data_bytes bs @ fl') @ framed meta)"
    "built (meta_entries pol fh) meta"
    using finish_metaindex_writes [OF s1(2) r1, of fh] by (elim exE conjE)
  let ?r2 = "?r1\<lparr>tb_status := OK, tb_file := f2, tb_offset := o2, tb_compressed_output := []\<rparr>"
  have fi: "final_index ?r2 = final_index r" by (simp add: final_index_def)
  obtain seps' es rs where ix: "builder_inv es rs (final_index ?r2)" "map snd es = index_entries bs seps'"
    "separates (cmp_Compare C) bs seps'" "list_all valid seps'" "length seps' = length bs" "chosen C bs [] seps'"
    using final_index_inv [OF inv] unfolding fi by blast
  obtain idx r3 where s3: "finish_index W ?r2 = Some (handle_at (length ((data_bytes bs @ fl') @ framed meta)) idx, r3)"
    "writes r3 (((data_bytes bs @ fl') @ framed meta) @ framed idx)" "built (map snd es) idx"
    using finish_index_writes [OF s2(2) ix(1)] by blast
  let ?mh = "handle_at (length (data_bytes bs @ fl')) meta"
  let ?ih = "handle_at (length ((data_bytes bs @ fl') @ framed meta)) idx"
  obtain r4 where s4: "finish_footer W ?mh ?ih r3 = Some r4"
    "writes r4 ((((data_bytes bs @ fl') @ framed meta) @ framed idx) @
      Footer_EncodeTo \<lparr>ft_metaindex_handle = ?mh, ft_index_handle = ?ih\<rparr> [])"
    using finish_footer_writes [OF s3(2)] by blast
  have fin: "TableBuilder_Finish W r = Some (tb_status r4, r4)"
    unfolding TableBuilder_Finish_def fl by (simp only: bind.bind_lunit s1(1) prod.case s2(1) s3(1) s4(1))
  have "is_table bs seps' (written (tb_file r4))"
    unfolding is_table_def
  proof (intro conjI)
    show "\<exists>fl fh meta idx. filter_part bs fl fh \<and> built (meta_entries pol fh) meta \<and> built (index_entries bs seps') idx \<and>
        written (tb_file r4) = data_bytes bs @ fl @ framed meta @ framed idx @
          Footer_EncodeTo \<lparr>ft_metaindex_handle = handle_at (length (data_bytes bs @ fl)) meta,
            ft_index_handle = handle_at (length (data_bytes bs @ fl @ framed meta)) idx\<rparr> []"
      using s1(3) s2(3) s3(3) s4(2) ix(2)
      by (intro exI [of _ fl'] exI [of _ fh] exI [of _ meta] exI [of _ idx]) (simp add: writes_def)
  qed (use ix i in auto)
  then show ?thesis using fin s4(2) by (auto simp: writes_def)
qed

lemma Finish_inv:
  assumes inv: "table_inv r bs cur seps" and fit: "parts_fit (map fst (entries_of bs @ cur))"
  shows "\<exists>r' bs' seps'. TableBuilder_Finish W r = Some (OK, r') \<and> entries_of bs' = entries_of bs @ cur \<and>
    is_table bs' seps' (written (tb_file r')) \<and> good (tb_file r')"
proof (cases "cur = []")
  case True
  then show ?thesis using Finish_inv0 [of r bs seps] inv fit by auto
next
  case False
  obtain b r1 where r1: "TableBuilder_Flush W r = Some r1" "table_inv r1 (bs @ [(cur, b)]) [] seps"
    using Flush_inv [OF inv False fit] by blast
  have "TableBuilder_Finish W r = TableBuilder_Finish W r1"
    unfolding TableBuilder_Finish_def r1(1) Flush_empty [OF r1(2)] by simp
  moreover have "entries_of (bs @ [(cur, b)]) = entries_of bs @ cur" by simp
  ultimately show ?thesis using Finish_inv0 [OF r1(2)] fit by metis
qed

end

text \<open>A client's loop: all entries are added in their order, and the table is finished.\<close>

primrec add_all :: "'f WritableFile \<Rightarrow> (slice \<times> slice) list \<Rightarrow> 'f TableBuilder \<Rightarrow> 'f TableBuilder option" where
  "add_all W [] r = Some r"
| "add_all W (e # es) r = do { r1 \<leftarrow> TableBuilder_Add W (fst e) (snd e) r; add_all W es r1 }"

definition build_table ::
    "'f WritableFile \<Rightarrow> Options \<Rightarrow> (slice \<times> slice) list \<Rightarrow> 'f \<Rightarrow> (Status \<times> 'f TableBuilder) option" where
  "build_table W options kvs file = do { r \<leftarrow> add_all W kvs (new_TableBuilder options file); TableBuilder_Finish W r }"

context table_writing
begin

lemma add_all_inv:
  "table_inv r bs cur seps \<Longrightarrow> ordered (entries_of bs @ cur @ kvs) \<Longrightarrow> parts_fit (map fst (entries_of bs @ cur @ kvs)) \<Longrightarrow>
   \<exists>r' bs' cur' seps'. add_all W kvs r = Some r' \<and> table_inv r' bs' cur' seps' \<and>
     entries_of bs' @ cur' = entries_of bs @ cur @ kvs"
proof (induction kvs arbitrary: r bs cur seps)
  case Nil
  then show ?case by (intro exI [of _ r] exI [of _ bs] exI [of _ cur] exI [of _ seps]) simp
next
  case (Cons e kvs)
  have o: "ordered ((entries_of bs @ cur) @ e # kvs)" using Cons.prems(2) by simp
  have "ordered (e # kvs)" using o unfolding ordered_append by blast
  then have key: "valid (fst e)" by (rule ordered_valid) simp
  have last: "cmp_Compare C (tb_last_key r) (fst e) < 0" if ne: "entries_of bs @ cur \<noteq> []"
  proof -
    have "tb_last_key r = fst (last (entries_of bs @ cur))" using Cons.prems(1) ne unfolding table_inv_def by blast
    then show ?thesis using o ne unfolding ordered_append by (metis last_in_set list.set_intros(1))
  qed
  have fit: "parts_fit (map fst (entries_of bs @ cur @ [(fst e, snd e)]))"
    by (rule parts_fit_prefix [of _ "map fst kvs"]) (use Cons.prems(3) in simp)
  obtain r1 bs1 cur1 seps1 where r1: "TableBuilder_Add W (fst e) (snd e) r = Some r1" "table_inv r1 bs1 cur1 seps1"
    "entries_of bs1 @ cur1 = entries_of bs @ cur @ [(fst e, snd e)]"
    using Add_inv [OF Cons.prems(1) key last fit] by blast
  have all: "entries_of bs1 @ cur1 @ kvs = entries_of bs @ cur @ e # kvs"
    using r1(3) by (metis append.assoc append_Cons append_Nil prod.collapse)
  have "\<exists>r' bs' cur' seps'. add_all W kvs r1 = Some r' \<and> table_inv r' bs' cur' seps' \<and>
      entries_of bs' @ cur' = entries_of bs1 @ cur1 @ kvs"
    by (rule Cons.IH [OF r1(2)]) (use Cons.prems(2,3) in \<open>simp_all only: all\<close>)
  then show ?case by (simp only: all add_all.simps r1(1) bind.bind_lunit)
qed

lemma table_written:
  assumes "opt_comparator options = C" and "opt_filter_policy options = pol" and "1 \<le> opt_block_restart_interval options"
    and "good file" and "written file = []" and o: "ordered kvs" and fit: "parts_fit (map fst kvs)"
  shows "\<exists>r bs seps. build_table W options kvs file = Some (OK, r) \<and> entries_of bs = kvs \<and>
    is_table bs seps (written (tb_file r)) \<and> good (tb_file r)"
proof -
  obtain r1 bs1 cur1 seps1 where r1: "add_all W kvs (new_TableBuilder options file) = Some r1" "table_inv r1 bs1 cur1 seps1"
    "entries_of bs1 @ cur1 = kvs"
    using add_all_inv [OF new_table_inv [OF assms(1-5)], of kvs] o fit unfolding entries_of_simps append_Nil by blast
  show ?thesis
    using Finish_inv [OF r1(2)] fit unfolding build_table_def r1(1,3) bind.bind_lunit
    by blast
qed

end

section \<open>The database's tables\<close>

text \<open>A database orders its tables by internal keys and has no filter policy or the Bloom filter of user keys.\<close>

abbreviation internal_comparator :: Comparator where
  "internal_comparator \<equiv> InternalKeyComparator BytewiseComparator"

definition table_policy :: "nat option \<Rightarrow> FilterPolicy option" where
  "table_policy bpk = map_option (\<lambda>n. InternalFilterPolicy (BloomPolicy n)) bpk"

definition policy_fits :: "nat option \<Rightarrow> slice list \<Rightarrow> bool" where
  "policy_fits bpk keys \<longleftrightarrow> (case bpk of None \<Rightarrow> True | Some n \<Rightarrow> bloom_fits n (map ExtractUserKey keys))"

lemma policy_law: "table_policy bpk = Some P \<Longrightarrow> filter_policy P (policy_fits bpk)"
  using internal_bloom.filter_policy_axioms by (cases bpk) (auto simp: table_policy_def policy_fits_def [abs_def])

context posix_files
begin

lemma posix_table_writing:
  "table_writing (posix_writable P) file_good appended (\<lambda>(f, os). before (pw_fd f) os)
    internal_comparator (\<lambda>k. 8 \<le> length k) (table_policy bpk) (policy_fits bpk)"
  by (intro table_writing.intro table_format.intro table_format_axioms.intro internal.comparator_axioms policy_law
      writable.writable_file_axioms)

end

interpretation mem_table: table_writing "posix_writable mem_posix" mem.file_good mem.appended
    "\<lambda>(f, os). mem_before (pw_fd f) os" internal_comparator "\<lambda>k. 8 \<le> length k" "table_policy bpk" "policy_fits bpk" for bpk
  by (rule mem.posix_table_writing)

end
