(* ===== verification/LdbCache.thy ===== *)
theory LdbCache
  imports LdbBloom "HOL-Library.Monad_Syntax" "HOL-Library.Multiset"
begin

text \<open>
  \<open>include/leveldb/cache.h\<close> and \<open>util/cache.cc\<close>: the interface of a cache and the sharded LRU cache. The handles of a
  shard live at addresses in its heap; following the pointer to one that was freed, and the assertions
  of the code, are None. A circular list of handles is the list of its members, the oldest first, and the chain of a
  bucket the list of its members. \<open>called\<close> records the calls of deleters. \<open>refs\<close> (32 bits) and \<open>usage_\<close>, \<open>charge\<close>
  and \<open>capacity_\<close> (64 bits) wrap around as in the code. \<open>length_\<close> and \<open>elems_\<close>, which count entries in memory of more
  than seventy bytes each, are natural numbers: \<open>2 ^ 31\<close> entries in a shard are not considered. An operation
  runs under the lock of its shard.
\<close>

section \<open>The interface\<close>

record ('v, 'h, 'c) Cache =
  ca_Insert :: "slice \<Rightarrow> 'v \<Rightarrow> u64 \<Rightarrow> 'c \<Rightarrow> ('h \<times> 'c) option"
  ca_Lookup :: "slice \<Rightarrow> 'c \<Rightarrow> ('h option \<times> 'c) option"
  ca_Release :: "'h \<Rightarrow> 'c \<Rightarrow> 'c option"
  ca_Value :: "'h \<Rightarrow> 'c \<Rightarrow> 'v option"
  ca_Erase :: "slice \<Rightarrow> 'c \<Rightarrow> 'c option"
  ca_NewId :: "'c \<Rightarrow> u64 \<times> 'c"
  ca_Prune :: "'c \<Rightarrow> 'c option"
  ca_TotalCharge :: "'c \<Rightarrow> u64"

text \<open>
  What the header promises. \<open>cok M c\<close>: the clients hold the handles \<open>M\<close> of a cache in a good state; \<open>entry c\<close> is what a
  lookup finds. A cache may drop entries at any time, but a held handle keeps its value. A lookup
  asks that its clients do not hold as many handles as a counter of 32 bits can count.
\<close>

definition max_handles :: nat where
  "max_handles = 2 ^ 32 - 2"

locale cache =
  fixes K :: "('v, 'h, 'c) Cache" and cok :: "'h multiset \<Rightarrow> 'c \<Rightarrow> bool" and entry :: "'c \<Rightarrow> slice \<rightharpoonup> 'v"
  assumes lookup: "cok M c \<Longrightarrow> size M < max_handles \<Longrightarrow> case entry c k of
        None \<Rightarrow> ca_Lookup K k c = Some (None, c)
      | Some v \<Rightarrow> \<exists>h c'. ca_Lookup K k c = Some (Some h, c') \<and> cok (add_mset h M) c' \<and> entry c' = entry c \<and>
          ca_Value K h c' = Some v \<and> (\<forall>g \<in># M. ca_Value K g c' = ca_Value K g c)"
    and insert: "cok M c \<Longrightarrow> \<exists>h c'. ca_Insert K k v charge c = Some (h, c') \<and> cok (add_mset h M) c' \<and>
        entry c' \<subseteq>\<^sub>m (entry c)(k \<mapsto> v) \<and> ca_Value K h c' = Some v \<and> (\<forall>g \<in># M. ca_Value K g c' = ca_Value K g c)"
    and release: "cok (add_mset h M) c \<Longrightarrow> \<exists>c'. ca_Release K h c = Some c' \<and> cok M c' \<and> entry c' = entry c \<and>
        (\<forall>g \<in># M. ca_Value K g c' = ca_Value K g c)"
    and erase: "cok M c \<Longrightarrow> \<exists>c'. ca_Erase K k c = Some c' \<and> cok M c' \<and> entry c' = (entry c)(k := None) \<and>
        (\<forall>g \<in># M. ca_Value K g c' = ca_Value K g c)"
    and prune: "cok M c \<Longrightarrow> \<exists>c'. ca_Prune K c = Some c' \<and> cok M c' \<and> entry c' \<subseteq>\<^sub>m entry c \<and>
        (\<forall>g \<in># M. ca_Value K g c' = ca_Value K g c)"
    and new_id: "cok M c \<Longrightarrow> \<exists>i c'. ca_NewId K c = (i, c') \<and> cok M c' \<and> entry c' = entry c \<and>
        (\<forall>g \<in># M. ca_Value K g c' = ca_Value K g c)"

section \<open>Handles and the hash table\<close>

record 'v LRUHandle =
  lh_value :: 'v
  lh_charge :: u64
  lh_key :: slice
  lh_in_cache :: bool
  lh_refs :: u32
  lh_hash :: u32

type_synonym 'v heap = "nat \<rightharpoonup> 'v LRUHandle"

record HandleTable =
  ht_length :: nat
  ht_elems :: nat
  ht_list :: "nat list list"

definition bucket :: "nat \<Rightarrow> u32 \<Rightarrow> nat" where
  "bucket n hash = unat (hash AND (word_of_nat n - 1))"

text \<open>The place in the chain that points to the entry of a key, or the one behind the chain.\<close>

primrec find_pointer :: "'v heap \<Rightarrow> slice \<Rightarrow> u32 \<Rightarrow> nat list \<Rightarrow> nat option" where
  "find_pointer H key hash [] = Some 0"
| "find_pointer H key hash (h # hs) = do {
     e \<leftarrow> H h;
     if lh_hash e \<noteq> hash \<or> key \<noteq> lh_key e then map_option Suc (find_pointer H key hash hs) else Some 0 }"

text \<open>The bucket and the place in it.\<close>

definition FindPointer :: "'v heap \<Rightarrow> slice \<Rightarrow> u32 \<Rightarrow> HandleTable \<Rightarrow> (nat \<times> nat) option" where
  "FindPointer H key hash t =
     (let b = bucket (ht_length t) hash in do { p \<leftarrow> find_pointer H key hash (ht_list t ! b); Some (b, p) })"

definition pointee :: "HandleTable \<Rightarrow> nat \<times> nat \<Rightarrow> nat option" where
  "pointee t = (\<lambda>(b, p). if p < length (ht_list t ! b) then Some (ht_list t ! b ! p) else None)"

definition HandleTable_Lookup :: "'v heap \<Rightarrow> slice \<Rightarrow> u32 \<Rightarrow> HandleTable \<Rightarrow> nat option option" where
  "HandleTable_Lookup H key hash t = map_option (pointee t) (FindPointer H key hash t)"

text \<open>\<open>new_length\<close>, from 4 doubled until it is enough.\<close>

function grow :: "nat \<Rightarrow> nat \<Rightarrow> nat" where
  "grow new_length elems = (if 0 < new_length \<and> new_length < elems then grow (new_length * 2) elems else new_length)"
  by auto
termination by (relation "measure (\<lambda>(n, elems). elems - n)") auto

declare grow.simps [simp del]

definition rehash :: "'v heap \<Rightarrow> nat \<Rightarrow> nat \<Rightarrow> nat list list \<Rightarrow> nat list list option" where
  "rehash H new_length h new_list = do {
     e \<leftarrow> H h;
     let b = bucket new_length (lh_hash e);
     Some (new_list[b := h # new_list ! b]) }"

primrec rehash_all :: "'v heap \<Rightarrow> nat \<Rightarrow> nat list \<Rightarrow> nat list list \<Rightarrow> nat list list option" where
  "rehash_all H n [] l = Some l"
| "rehash_all H n (h # hs) l = do { l1 \<leftarrow> rehash H n h l; rehash_all H n hs l1 }"

definition Resize :: "'v heap \<Rightarrow> HandleTable \<Rightarrow> HandleTable option" where
  "Resize H t = (let new_length = grow 4 (ht_elems t) in do {
     new_list \<leftarrow> rehash_all H new_length (concat (ht_list t)) (replicate new_length []);
     Some (t\<lparr>ht_list := new_list, ht_length := new_length\<rparr>) })"

definition new_HandleTable :: HandleTable where
  "new_HandleTable = \<lparr>ht_length = 4, ht_elems = 0, ht_list = replicate 4 []\<rparr>"

text \<open>The entry that was replaced, if there was one.\<close>

definition HandleTable_Insert :: "'v heap \<Rightarrow> nat \<Rightarrow> HandleTable \<Rightarrow> (nat option \<times> HandleTable) option" where
  "HandleTable_Insert H h t = do {
     e \<leftarrow> H h;
     (b, p) \<leftarrow> FindPointer H (lh_key e) (lh_hash e) t;
     let chain = ht_list t ! b;
     let old = pointee t (b, p);
     let t1 = t\<lparr>ht_list := (ht_list t)[b := take p chain @ [h] @ drop (Suc p) chain]\<rparr>;
     if old = None
     then (let t2 = t1\<lparr>ht_elems := ht_elems t1 + 1\<rparr> in
           if ht_elems t2 > ht_length t2 then do { t3 \<leftarrow> Resize H t2; Some (old, t3) } else Some (old, t2))
     else Some (old, t1) }"

definition HandleTable_Remove :: "'v heap \<Rightarrow> slice \<Rightarrow> u32 \<Rightarrow> HandleTable \<Rightarrow> (nat option \<times> HandleTable) option" where
  "HandleTable_Remove H key hash t = do {
     (b, p) \<leftarrow> FindPointer H key hash t;
     let chain = ht_list t ! b;
     let result = pointee t (b, p);
     Some (result, if result \<noteq> None
       then t\<lparr>ht_list := (ht_list t)[b := take p chain @ drop (Suc p) chain], ht_elems := ht_elems t - 1\<rparr> else t) }"

section \<open>A shard\<close>

record 'v LRUCache =
  lc_heap :: "'v heap"
  lc_next :: nat
  lc_capacity :: u64
  lc_usage :: u64
  lc_lru :: "nat list"
  lc_in_use :: "nat list"
  lc_table :: HandleTable
  lc_called :: "(slice \<times> 'v) list"

definition new_LRUCache :: "'v LRUCache" where
  "new_LRUCache = \<lparr>lc_heap = Map.empty, lc_next = 0, lc_capacity = 0, lc_usage = 0, lc_lru = [], lc_in_use = [],
     lc_table = new_HandleTable, lc_called = []\<rparr>"

definition SetCapacity :: "u64 \<Rightarrow> 'v LRUCache \<Rightarrow> 'v LRUCache" where
  "SetCapacity capacity c = c\<lparr>lc_capacity := capacity\<rparr>"

definition TotalCharge :: "'v LRUCache \<Rightarrow> u64" where
  "TotalCharge c = lc_usage c"

text \<open>Unlinking an entry that is in neither list would follow stale pointers.\<close>

definition LRU_Remove :: "nat \<Rightarrow> 'v LRUCache \<Rightarrow> 'v LRUCache option" where
  "LRU_Remove e c =
     (if e \<in> set (lc_lru c) then Some (c\<lparr>lc_lru := remove1 e (lc_lru c)\<rparr>)
      else if e \<in> set (lc_in_use c) then Some (c\<lparr>lc_in_use := remove1 e (lc_in_use c)\<rparr>)
      else None)"

definition set_handle :: "nat \<Rightarrow> 'v LRUHandle \<Rightarrow> 'v LRUCache \<Rightarrow> 'v LRUCache" where
  "set_handle e x c = c\<lparr>lc_heap := (lc_heap c)(e \<mapsto> x)\<rparr>"

definition Ref :: "nat \<Rightarrow> 'v LRUCache \<Rightarrow> 'v LRUCache option" where
  "Ref e c = do {
     x \<leftarrow> lc_heap c e;
     c1 \<leftarrow> (if lh_refs x = 1 \<and> lh_in_cache x
            then do { c1 \<leftarrow> LRU_Remove e c; Some (c1\<lparr>lc_in_use := lc_in_use c1 @ [e]\<rparr>) } else Some c);
     Some (set_handle e (x\<lparr>lh_refs := lh_refs x + 1\<rparr>) c1) }"

definition Unref :: "nat \<Rightarrow> 'v LRUCache \<Rightarrow> 'v LRUCache option" where
  "Unref e c = do {
     x \<leftarrow> lc_heap c e;
     if lh_refs x = 0 then None
     else (let x1 = x\<lparr>lh_refs := lh_refs x - 1\<rparr>; c1 = set_handle e x1 c in
       if lh_refs x1 = 0
       then (if lh_in_cache x1 then None
             else Some (c1\<lparr>lc_called := lc_called c1 @ [(lh_key x1, lh_value x1)], lc_heap := (lc_heap c1)(e := None)\<rparr>))
       else if lh_in_cache x1 \<and> lh_refs x1 = 1
       then do { c2 \<leftarrow> LRU_Remove e c1; Some (c2\<lparr>lc_lru := lc_lru c2 @ [e]\<rparr>) }
       else Some c1) }"

definition FinishErase :: "nat option \<Rightarrow> 'v LRUCache \<Rightarrow> (bool \<times> 'v LRUCache) option" where
  "FinishErase e c =
     (case e of None \<Rightarrow> Some (False, c)
      | Some h \<Rightarrow> do {
          x \<leftarrow> lc_heap c h;
          if \<not> lh_in_cache x then None
          else do {
            c1 \<leftarrow> LRU_Remove h c;
            let c2 = set_handle h (x\<lparr>lh_in_cache := False\<rparr>) c1;
            c3 \<leftarrow> Unref h (c2\<lparr>lc_usage := lc_usage c2 - lh_charge x\<rparr>);
            Some (True, c3) } })"

definition LRU_Lookup :: "slice \<Rightarrow> u32 \<Rightarrow> 'v LRUCache \<Rightarrow> (nat option \<times> 'v LRUCache) option" where
  "LRU_Lookup key hash c = do {
     e \<leftarrow> HandleTable_Lookup (lc_heap c) key hash (lc_table c);
     case e of None \<Rightarrow> Some (None, c)
     | Some h \<Rightarrow> do { c1 \<leftarrow> Ref h c; Some (Some h, c1) } }"

definition LRU_Release :: "nat \<Rightarrow> 'v LRUCache \<Rightarrow> 'v LRUCache option" where
  "LRU_Release h c = Unref h c"

definition erase_key :: "slice \<Rightarrow> u32 \<Rightarrow> 'v LRUCache \<Rightarrow> (bool \<times> 'v LRUCache) option" where
  "erase_key key hash c = do {
     (e, t) \<leftarrow> HandleTable_Remove (lc_heap c) key hash (lc_table c);
     FinishErase e (c\<lparr>lc_table := t\<rparr>) }"

text \<open>The loops that drop the oldest entries; an entry that is not found asserts.\<close>

definition drop_oldest :: "'v LRUCache \<Rightarrow> 'v LRUCache option" where
  "drop_oldest c = do {
     let old = hd (lc_lru c);
     x \<leftarrow> lc_heap c old;
     if lh_refs x \<noteq> 1 then None
     else do { (erased, c1) \<leftarrow> erase_key (lh_key x) (lh_hash x) c; if erased then Some c1 else None } }"

partial_function (option) evict :: "'v LRUCache \<Rightarrow> 'v LRUCache option" where
  "evict c = (if lc_usage c > lc_capacity c \<and> lc_lru c \<noteq> [] then do { c1 \<leftarrow> drop_oldest c; evict c1 } else Some c)"

definition insert_handle :: "slice \<Rightarrow> u32 \<Rightarrow> 'v \<Rightarrow> u64 \<Rightarrow> 'v LRUCache \<Rightarrow> (nat \<times> 'v LRUCache) option" where
  "insert_handle key hash v charge c =
     (let e = lc_next c;
          x = \<lparr>lh_value = v, lh_charge = charge, lh_key = key, lh_in_cache = False, lh_refs = 1, lh_hash = hash\<rparr>;
          c1 = c\<lparr>lc_next := lc_next c + 1\<rparr>
      in if lc_capacity c > 0
         then do {
           let c2 = (set_handle e (x\<lparr>lh_refs := lh_refs x + 1, lh_in_cache := True\<rparr>) c1);
           let c3 = c2\<lparr>lc_in_use := lc_in_use c2 @ [e], lc_usage := lc_usage c2 + charge\<rparr>;
           (old, t) \<leftarrow> HandleTable_Insert (lc_heap c3) e (lc_table c3);
           (erased, c4) \<leftarrow> FinishErase old (c3\<lparr>lc_table := t\<rparr>);
           Some (e, c4) }
         else Some (e, set_handle e x c1))"

definition LRU_Insert :: "slice \<Rightarrow> u32 \<Rightarrow> 'v \<Rightarrow> u64 \<Rightarrow> 'v LRUCache \<Rightarrow> (nat \<times> 'v LRUCache) option" where
  "LRU_Insert key hash v charge c = do {
     (e, c1) \<leftarrow> insert_handle key hash v charge c;
     c2 \<leftarrow> evict c1;
     Some (e, c2) }"

definition LRU_Erase :: "slice \<Rightarrow> u32 \<Rightarrow> 'v LRUCache \<Rightarrow> 'v LRUCache option" where
  "LRU_Erase key hash c = map_option snd (erase_key key hash c)"

partial_function (option) LRU_Prune :: "'v LRUCache \<Rightarrow> 'v LRUCache option" where
  "LRU_Prune c = (if lc_lru c \<noteq> [] then do { c1 \<leftarrow> drop_oldest c; LRU_Prune c1 } else Some c)"

text \<open>The destructor, given that no handle is held.\<close>

primrec delete_all :: "nat list \<Rightarrow> 'v LRUCache \<Rightarrow> 'v LRUCache option" where
  "delete_all [] c = Some c"
| "delete_all (e # es) c = do {
     x \<leftarrow> lc_heap c e;
     if \<not> lh_in_cache x \<or> lh_refs x \<noteq> 1 then None
     else do { c1 \<leftarrow> Unref e (set_handle e (x\<lparr>lh_in_cache := False\<rparr>) c); delete_all es c1 } }"

definition LRUCache_delete :: "'v LRUCache \<Rightarrow> 'v LRUCache option" where
  "LRUCache_delete c = (if lc_in_use c \<noteq> [] then None else delete_all (lc_lru c) c)"

section \<open>The shards\<close>

definition kNumShardBits :: nat where "kNumShardBits = 4"
definition kNumShards :: nat where "kNumShards = push_bit kNumShardBits 1"

record 'v ShardedLRUCache =
  sc_shard :: "'v LRUCache list"
  sc_last_id :: u64

text \<open>A handle is its address and the hash in it, which never changes and tells its shard.\<close>

type_synonym Handle = "u32 \<times> nat"

definition HashSlice :: "slice \<Rightarrow> u32" where
  "HashSlice s = Hash s 0"

definition Shard :: "u32 \<Rightarrow> nat" where
  "Shard hash = unat (drop_bit (32 - kNumShardBits) hash)"

definition new_ShardedLRUCache :: "u64 \<Rightarrow> 'v ShardedLRUCache" where
  "new_ShardedLRUCache capacity =
     (let per_shard = (capacity + (word_of_nat kNumShards - 1)) div word_of_nat kNumShards in
      \<lparr>sc_shard = replicate kNumShards (SetCapacity per_shard new_LRUCache), sc_last_id = 0\<rparr>)"

definition on_shard :: "u32 \<Rightarrow> ('v LRUCache \<Rightarrow> 'v LRUCache option) \<Rightarrow> 'v ShardedLRUCache \<Rightarrow> 'v ShardedLRUCache option" where
  "on_shard hash f s = do {
     c \<leftarrow> f (sc_shard s ! Shard hash);
     Some (s\<lparr>sc_shard := (sc_shard s)[Shard hash := c]\<rparr>) }"

definition Sharded_Insert :: "slice \<Rightarrow> 'v \<Rightarrow> u64 \<Rightarrow> 'v ShardedLRUCache \<Rightarrow> (Handle \<times> 'v ShardedLRUCache) option" where
  "Sharded_Insert key v charge s =
     (let hash = HashSlice key in do {
        (h, c) \<leftarrow> LRU_Insert key hash v charge (sc_shard s ! Shard hash);
        Some ((hash, h), s\<lparr>sc_shard := (sc_shard s)[Shard hash := c]\<rparr>) })"

definition Sharded_Lookup :: "slice \<Rightarrow> 'v ShardedLRUCache \<Rightarrow> (Handle option \<times> 'v ShardedLRUCache) option" where
  "Sharded_Lookup key s =
     (let hash = HashSlice key in do {
        (h, c) \<leftarrow> LRU_Lookup key hash (sc_shard s ! Shard hash);
        Some (map_option (Pair hash) h, s\<lparr>sc_shard := (sc_shard s)[Shard hash := c]\<rparr>) })"

definition Sharded_Release :: "Handle \<Rightarrow> 'v ShardedLRUCache \<Rightarrow> 'v ShardedLRUCache option" where
  "Sharded_Release h s = on_shard (fst h) (LRU_Release (snd h)) s"

definition Sharded_Erase :: "slice \<Rightarrow> 'v ShardedLRUCache \<Rightarrow> 'v ShardedLRUCache option" where
  "Sharded_Erase key s = on_shard (HashSlice key) (LRU_Erase key (HashSlice key)) s"

definition Sharded_Value :: "Handle \<Rightarrow> 'v ShardedLRUCache \<Rightarrow> 'v option" where
  "Sharded_Value h s = map_option lh_value (lc_heap (sc_shard s ! Shard (fst h)) (snd h))"

definition Sharded_NewId :: "'v ShardedLRUCache \<Rightarrow> u64 \<times> 'v ShardedLRUCache" where
  "Sharded_NewId s = (let i = sc_last_id s + 1 in (i, s\<lparr>sc_last_id := i\<rparr>))"

primrec prune_all :: "'v LRUCache list \<Rightarrow> 'v LRUCache list option" where
  "prune_all [] = Some []"
| "prune_all (c # cs) = do { c1 \<leftarrow> LRU_Prune c; cs1 \<leftarrow> prune_all cs; Some (c1 # cs1) }"

definition Sharded_Prune :: "'v ShardedLRUCache \<Rightarrow> 'v ShardedLRUCache option" where
  "Sharded_Prune s = do { cs \<leftarrow> prune_all (sc_shard s); Some (s\<lparr>sc_shard := cs\<rparr>) }"

definition Sharded_TotalCharge :: "'v ShardedLRUCache \<Rightarrow> u64" where
  "Sharded_TotalCharge s = sum_list (map TotalCharge (sc_shard s))"

definition lru_cache :: "('v, Handle, 'v ShardedLRUCache) Cache" where
  "lru_cache = \<lparr>ca_Insert = Sharded_Insert, ca_Lookup = Sharded_Lookup, ca_Release = Sharded_Release,
     ca_Value = Sharded_Value, ca_Erase = Sharded_Erase, ca_NewId = Sharded_NewId, ca_Prune = Sharded_Prune,
     ca_TotalCharge = Sharded_TotalCharge\<rparr>"

definition NewLRUCache :: "u64 \<Rightarrow> 'v ShardedLRUCache" where
  "NewLRUCache capacity = new_ShardedLRUCache capacity"

end
