(* ===== verification/LdbTable.thy ===== *)
theory LdbTable
  imports LdbTwoLevel LdbTableLayout LdbCache
begin

text \<open>
  \<open>include/leveldb/table.h\<close> and \<open>table/table.cc\<close>: an immutable table in a file. A table is the record of its \<open>Rep\<close>; the file and the block
  cache, which reading changes, are the state its operations pass on, the cache None if the options have none.
  \<open>buf\<close> is the address \<open>new\<close> returns for a block read. What Open and the destructor free is memory management.
\<close>

section \<open>Tables\<close>

record Table =
  tab_options :: Options
  tab_cache_id :: u64
  tab_filter :: "FilterBlockReader option"
  tab_metaindex_handle :: BlockHandle
  tab_index_block :: Block

text \<open>The iterator of a block: the empty iterator with a status, or the iterator over its entries.\<close>

definition sum_iterator :: "'i Iterator \<Rightarrow> (Status + 'i) Iterator" where
  "sum_iterator I =
     \<lparr>it_Valid = case_sum (it_Valid EmptyIterator) (it_Valid I),
      it_SeekToFirst = case_sum (map_option Inl \<circ> it_SeekToFirst EmptyIterator) (map_option Inr \<circ> it_SeekToFirst I),
      it_SeekToLast = case_sum (map_option Inl \<circ> it_SeekToLast EmptyIterator) (map_option Inr \<circ> it_SeekToLast I),
      it_Seek = (\<lambda>k. case_sum (map_option Inl \<circ> it_Seek EmptyIterator k) (map_option Inr \<circ> it_Seek I k)),
      it_Next = case_sum (map_option Inl \<circ> it_Next EmptyIterator) (map_option Inr \<circ> it_Next I),
      it_Prev = case_sum (map_option Inl \<circ> it_Prev EmptyIterator) (map_option Inr \<circ> it_Prev I),
      it_key = case_sum (it_key EmptyIterator) (it_key I), it_value = case_sum (it_value EmptyIterator) (it_value I),
      it_status = case_sum (it_status EmptyIterator) (it_status I)\<rparr>"

abbreviation block_iter :: "Comparator \<Rightarrow> (Status + BlockIter) Iterator" where
  "block_iter C \<equiv> sum_iterator (block_iterator C)"

definition table_read_options :: "Options \<Rightarrow> ReadOptions" where
  "table_read_options options =
     (if opt_paranoid_checks options then new_ReadOptions\<lparr>ro_verify_checksums := True\<rparr> else new_ReadOptions)"

definition ReadFilter ::
    "'f RandomAccessFile \<Rightarrow> u64 \<Rightarrow> FilterPolicy \<Rightarrow> slice \<Rightarrow> Table \<Rightarrow> 'f \<Rightarrow> (Table \<times> 'f) option" where
  "ReadFilter R buf P filter_handle_value t file =
     (let (s, filter_handle, v) = BlockHandle_DecodeFrom filter_handle_value new_BlockHandle in
      if \<not> ok s then Some (t, file)
      else do {
        ((s1, block), file1) \<leftarrow> ReadBlock R buf (table_read_options (tab_options t)) filter_handle file;
        Some (if \<not> ok s1 then t else t\<lparr>tab_filter := Some (new_FilterBlockReader P (bc_data block))\<rparr>, file1) })"

definition ReadMeta ::
    "'f RandomAccessFile \<Rightarrow> u64 \<Rightarrow> Footer \<Rightarrow> Table \<Rightarrow> 'f \<Rightarrow> (Table \<times> 'f) option" where
  "ReadMeta R buf footer t file =
     (case opt_filter_policy (tab_options t) of
        None \<Rightarrow> Some (t, file)
      | Some P \<Rightarrow> do {
          ((s, contents), file1) \<leftarrow> ReadBlock R buf (table_read_options (tab_options t)) (ft_metaindex_handle footer) file;
          if \<not> ok s then Some (t, file1)
          else do {
            let meta = new_Block (bc_data contents);
            let I = block_iter BytewiseComparator;
            let key = lit ''filter.'' @ lit (fp_Name P);
            iter \<leftarrow> it_Seek I key (Block_NewIterator meta);
            if it_Valid I iter \<and> slice_eq (it_key I iter) key then ReadFilter R buf P (it_value I iter) t file1
            else Some (t, file1) } })"

type_synonym ('f, 'c) table_env = "'f \<times> 'c option"

definition Table_Open ::
    "(Block, 'h, 'c) Cache \<Rightarrow> 'f RandomAccessFile \<Rightarrow> u64 \<Rightarrow> u64 \<Rightarrow> Options \<Rightarrow> u64 \<Rightarrow> ('f, 'c) table_env \<Rightarrow>
     ((Status \<times> Table option) \<times> ('f, 'c) table_env) option" where
  "Table_Open K R footer_space buf options sz = (\<lambda>(file, cache).
     if unat sz < kEncodedLength
     then Some ((Corruption (lit ''file is too short to be an sstable'') [], None), (file, cache))
     else do {
       ((s, r), file1) \<leftarrow> raf_Read R (sz - word_of_nat kEncodedLength) kEncodedLength footer_space file;
       if \<not> ok s then Some ((s, None), (file1, cache))
       else do {
         let footer_input = (case r of None \<Rightarrow> [] | Some (a, x) \<Rightarrow> x);
         (s1, footer, rest) \<leftarrow> Footer_DecodeFrom footer_input new_Footer;
         if \<not> ok s1 then Some ((s1, None), (file1, cache))
         else do {
           ((s2, index_block_contents), file2) \<leftarrow>
             ReadBlock R buf (table_read_options options) (ft_index_handle footer) file1;
           if ok s2 then do {
             let (cache_id, cache1) = (case cache of None \<Rightarrow> (0, None) | Some c \<Rightarrow> map_prod id Some (ca_NewId K c));
             let t = \<lparr>tab_options = options, tab_cache_id = cache_id, tab_filter = None,
                      tab_metaindex_handle = ft_metaindex_handle footer,
                      tab_index_block = new_Block (bc_data index_block_contents)\<rparr>;
             (t1, file3) \<leftarrow> ReadMeta R buf footer t file2;
             Some ((s2, Some t1), (file3, cache1)) }
           else Some ((s2, None), (file2, cache)) } } })"

section \<open>Reading\<close>

text \<open>The cleanups a block's iterator may have.\<close>

datatype 'h Cleanup = NoCleanup | DeleteBlock | ReleaseBlock 'h

primrec table_cleanup ::
    "(Block, 'h, 'c) Cache \<Rightarrow> 'h Cleanup \<Rightarrow> ('f, 'c) table_env \<Rightarrow> ('f, 'c) table_env option" where
  "table_cleanup K NoCleanup e = Some e"
| "table_cleanup K DeleteBlock e = Some e"
| "table_cleanup K (ReleaseBlock h) e = do { c \<leftarrow> snd e; c1 \<leftarrow> ca_Release K h c; Some (fst e, Some c1) }"

definition cache_key :: "u64 \<Rightarrow> u64 \<Rightarrow> slice" where
  "cache_key cache_id offset = EncodeFixed64 cache_id @ EncodeFixed64 offset"

text \<open>The block, if there is one, and the handle of the cache.\<close>

definition read_block ::
    "(Block, 'h, 'c) Cache \<Rightarrow> 'f RandomAccessFile \<Rightarrow> u64 \<Rightarrow> Table \<Rightarrow> ReadOptions \<Rightarrow> BlockHandle \<Rightarrow> ('f, 'c) table_env \<Rightarrow>
     ((Status \<times> Block option \<times> 'h option) \<times> ('f, 'c) table_env) option" where
  "read_block K R buf t options handle = (\<lambda>(file, cache).
     case cache of
       Some c \<Rightarrow> do {
         let key = cache_key (tab_cache_id t) (bh_offset handle);
         (found, c1) \<leftarrow> ca_Lookup K key c;
         case found of
           Some h \<Rightarrow> do { b \<leftarrow> ca_Value K h c1; Some ((OK, Some b, Some h), (file, Some c1)) }
         | None \<Rightarrow> do {
             ((s, contents), file1) \<leftarrow> ReadBlock R buf options handle file;
             if ok s then
               (let b = new_Block (bc_data contents) in
                if bc_cachable contents \<and> ro_fill_cache options
                then do { (h, c2) \<leftarrow> ca_Insert K key b (word_of_nat (bk_size b)) c1; Some ((s, Some b, Some h), (file1, Some c2)) }
                else Some ((s, Some b, None), (file1, Some c1)))
             else Some ((s, None, None), (file1, Some c1)) } }
     | None \<Rightarrow> do {
         ((s, contents), file1) \<leftarrow> ReadBlock R buf options handle file;
         Some ((s, if ok s then Some (new_Block (bc_data contents)) else None, None), (file1, None)) })"

definition BlockReader ::
    "(Block, 'h, 'c) Cache \<Rightarrow> 'f RandomAccessFile \<Rightarrow> u64 \<Rightarrow> Table \<Rightarrow> ('f, 'c) table_env \<Rightarrow> ReadOptions \<Rightarrow> slice \<Rightarrow>
     (((Status + BlockIter) \<times> 'h Cleanup) \<times> ('f, 'c) table_env) option" where
  "BlockReader K R buf t e options index_value =
     (let (s, handle, input) = BlockHandle_DecodeFrom index_value new_BlockHandle in do {
        ((s1, block, cache_handle), e1) \<leftarrow>
          (if ok s then read_block K R buf t options handle e else Some ((s, None, None), e));
        Some (case block of
            Some b \<Rightarrow> (Block_NewIterator b, case cache_handle of None \<Rightarrow> DeleteBlock | Some h \<Rightarrow> ReleaseBlock h)
          | None \<Rightarrow> (Inl (NewErrorIterator s1), NoCleanup), e1) })"

definition table_blocks ::
    "(Block, 'h, 'c) Cache \<Rightarrow> 'f RandomAccessFile \<Rightarrow> u64 \<Rightarrow> Table \<Rightarrow>
     (Status + BlockIter, 'h Cleanup, ('f, 'c) table_env) BlockFunction" where
  "table_blocks K R buf t = \<lparr>bf_open = BlockReader K R buf t, bf_cleanup = table_cleanup K\<rparr>"

type_synonym ('h, 'f, 'c) TableIterator =
  "(Status + BlockIter, Status + BlockIter, 'h Cleanup, ('f, 'c) table_env) TwoLevelIterator"

definition table_iterator ::
    "(Block, 'h, 'c) Cache \<Rightarrow> 'f RandomAccessFile \<Rightarrow> u64 \<Rightarrow> Table \<Rightarrow> ('h, 'f, 'c) TableIterator Iterator" where
  "table_iterator K R buf t =
     (let I = block_iter (opt_comparator (tab_options t)) in two_level_iterator I I (table_blocks K R buf t))"

definition Table_NewIterator :: "Table \<Rightarrow> ReadOptions \<Rightarrow> ('f, 'c) table_env \<Rightarrow> ('h, 'f, 'c) TableIterator" where
  "Table_NewIterator t options e =
     NewTwoLevelIterator (block_iter (opt_comparator (tab_options t))) (Block_NewIterator (tab_index_block t)) e options"

text \<open>Whether the filter lets the block be skipped.\<close>

definition filtered :: "Table \<Rightarrow> slice \<Rightarrow> slice \<Rightarrow> bool option" where
  "filtered t handle_value k =
     (case tab_filter t of
        None \<Rightarrow> Some False
      | Some f \<Rightarrow>
          (let (s, handle, rest) = BlockHandle_DecodeFrom handle_value new_BlockHandle in
           if ok s then map_option Not (FilterBlock_KeyMayMatch (bh_offset handle) k f) else Some False))"

definition InternalGet ::
    "(Block, 'h, 'c) Cache \<Rightarrow> 'f RandomAccessFile \<Rightarrow> u64 \<Rightarrow> Table \<Rightarrow> ReadOptions \<Rightarrow> slice \<Rightarrow> 'a \<Rightarrow> ('a \<Rightarrow> slice \<Rightarrow> slice \<Rightarrow> 'a) \<Rightarrow>
     ('f, 'c) table_env \<Rightarrow> ((Status \<times> 'a) \<times> ('f, 'c) table_env) option" where
  "InternalGet K R buf t options k arg handle_result e = do {
     let I = block_iter (opt_comparator (tab_options t));
     iiter \<leftarrow> it_Seek I k (Block_NewIterator (tab_index_block t));
     ((s, arg1), e1) \<leftarrow>
       (if it_Valid I iiter then do {
          skip \<leftarrow> filtered t (it_value I iiter) k;
          if skip then Some ((OK, arg), e)
          else do {
            ((it, cleanup), e1) \<leftarrow> BlockReader K R buf t e options (it_value I iiter);
            bit \<leftarrow> it_Seek I k it;
            let arg1 = (if it_Valid I bit then handle_result arg (it_key I bit) (it_value I bit) else arg);
            e2 \<leftarrow> table_cleanup K cleanup e1;
            Some ((it_status I bit, arg1), e2) } }
        else Some ((OK, arg), e));
     Some ((if ok s then it_status I iiter else s, arg1), e1) }"

definition ApproximateOffsetOf :: "Table \<Rightarrow> slice \<Rightarrow> u64 option" where
  "ApproximateOffsetOf t key = do {
     let I = block_iter (opt_comparator (tab_options t));
     index_iter \<leftarrow> it_Seek I key (Block_NewIterator (tab_index_block t));
     Some (if it_Valid I index_iter
       then (let (s, handle, input) = BlockHandle_DecodeFrom (it_value I index_iter) new_BlockHandle in
             if ok s then bh_offset handle else bh_offset (tab_metaindex_handle t))
       else bh_offset (tab_metaindex_handle t)) }"

section \<open>The iterators of blocks\<close>

lemma iterator_on_sum:
  assumes "iterator_on I cmp target_ok es ready on"
  shows "iterator_on (sum_iterator I) cmp target_ok es (\<lambda>s. \<exists>it. s = Inr it \<and> ready it) (\<lambda>s i. \<exists>it. s = Inr it \<and> on it i)"
proof (unfold_locales, goal_cases)
  case (1 it i)
  then show ?case using iterator_on.on_ready [OF assms] by blast
next
  case (2 it i)
  then show ?case using iterator_on.on_valid [OF assms] by (auto simp: sum_iterator_def)
next
  case (3 it i)
  then show ?case using iterator_on.on_entry [OF assms] by (auto simp: sum_iterator_def)
next
  case (4 it i)
  then show ?case using iterator_on.on_status [OF assms] by (auto simp: sum_iterator_def)
next
  case (5 it)
  then show ?case using iterator_on.seek_to_first [OF assms] by (fastforce simp: sum_iterator_def)
next
  case (6 it)
  then obtain x where x: "it = Inr x" "ready x" by blast
  show ?case using iterator_on.seek_to_last [OF assms x(2)] x(1) by (auto simp: sum_iterator_def)
next
  case (7 it t)
  then obtain x where x: "it = Inr x" "ready x" by blast
  show ?case using iterator_on.seek [OF assms x(2) 7(2)] x(1) by (auto simp: sum_iterator_def)
next
  case (8 it i)
  then obtain x where x: "it = Inr x" "on x i" by blast
  show ?case using iterator_on.move_next [OF assms x(2) 8(2)] x(1) by (auto simp: sum_iterator_def)
next
  case (9 it i)
  then obtain x where x: "it = Inr x" "on x i" by blast
  show ?case using iterator_on.move_prev [OF assms x(2) 9(2)] x(1) by (auto simp: sum_iterator_def)
qed

text \<open>A family of contracts over the same entries is one.\<close>

lemma iterator_on_family:
  assumes on: "\<And>p. P p \<Longrightarrow> iterator_on I cmp target_ok es (ready p) (on p)"
  shows "iterator_on I cmp target_ok es (\<lambda>it. \<exists>p. P p \<and> ready p it) (\<lambda>it i. \<exists>p. P p \<and> on p it i)"
proof (unfold_locales, goal_cases)
  case (1 it i)
  then show ?case using iterator_on.on_ready [OF on] by blast
next
  case (2 it i)
  then show ?case using iterator_on.on_valid [OF on] by blast
next
  case (3 it i)
  then show ?case using iterator_on.on_entry [OF on] by blast
next
  case (4 it i)
  then show ?case using iterator_on.on_status [OF on] by blast
next
  case (5 it)
  then show ?case using iterator_on.seek_to_first [OF on] by meson
next
  case (6 it)
  then show ?case using iterator_on.seek_to_last [OF on] by meson
next
  case (7 it t)
  then show ?case using iterator_on.seek [OF on] by meson
next
  case (8 it i)
  then show ?case using iterator_on.move_next [OF on] by meson
next
  case (9 it i)
  then show ?case using iterator_on.move_prev [OF on] by meson
qed

text \<open>The iterator of a built block.\<close>

definition built_layout :: "(slice \<times> slice) list \<Rightarrow> byte list \<Rightarrow> ent list \<times> nat list \<Rightarrow> bool" where
  "built_layout kvs b p \<longleftrightarrow> map snd (fst p) = kvs \<and> block_fits (fst p) (snd p) b"

definition built_ready :: "(slice \<times> slice) list \<Rightarrow> byte list \<Rightarrow> Status + BlockIter \<Rightarrow> bool" where
  "built_ready kvs b s \<longleftrightarrow> (\<exists>p. built_layout kvs b p \<and> (\<exists>it. s = Inr it \<and> frame (fst p) (snd p) b it))"

definition built_on :: "(slice \<times> slice) list \<Rightarrow> byte list \<Rightarrow> Status + BlockIter \<Rightarrow> nat \<Rightarrow> bool" where
  "built_on kvs b s i \<longleftrightarrow> (\<exists>p. built_layout kvs b p \<and> (\<exists>it. s = Inr it \<and> at_entry (fst p) (snd p) b it i))"

lemma built_open:
  assumes "built kvs b" and "length b < 2 ^ 32"
  shows "built_ready kvs b (Block_NewIterator (new_Block b))"
proof -
  obtain es rs where e: "map snd es = kvs" "block_layout es rs b" using assms(1) by (auto simp: built_def)
  then have fits: "block_fits es rs b" using assms(2) by (simp add: block_fits_def)
  obtain it where "Block_NewIterator (new_Block b) = Inr it" "frame es rs b it" using NewIterator_layout [OF fits] by blast
  then show ?thesis using e(1) fits unfolding built_ready_def built_layout_def by (intro exI [of _ "(es, rs)"]) auto
qed

context comparator
begin

lemma built_iterator_on:
  assumes "sorted_entries C valid kvs"
  shows "iterator_on (block_iter C) (cmp_Compare C) valid kvs (built_ready kvs b) (built_on kvs b)"
  unfolding built_ready_def [abs_def] built_on_def [abs_def]
proof (rule iterator_on_family)
  fix p assume p: "built_layout kvs b p"
  then have "block_fits (fst p) (snd p) b" "map snd (fst p) = kvs" by (simp_all add: built_layout_def)
  with block_iterator_on [OF this(1)] assms
  show "iterator_on (block_iter C) (cmp_Compare C) valid kvs (\<lambda>s. \<exists>it. s = Inr it \<and> frame (fst p) (snd p) b it)
      (\<lambda>s i. \<exists>it. s = Inr it \<and> at_entry (fst p) (snd p) b it i)"
    by (intro iterator_on_sum) simp
qed

end

end
