(* ===== verification/LdbLru.thy ===== *)
theory LdbLru
  imports LdbCache
begin

text \<open>
  The sharded LRU cache keeps the contract of a cache: the hash table finds the entries in it, the reference counts are those of
  the clients and the cache, an entry's deleter is called once, when the last reference to it
  goes, and a lookup returns what was last inserted. The last section runs clients on a cache.
\<close>

section \<open>The hash table holds the handles it should\<close>

definition matches :: "'v heap \<Rightarrow> slice \<Rightarrow> u32 \<Rightarrow> nat \<Rightarrow> bool" where
  "matches H key hash h \<longleftrightarrow> (case H h of None \<Rightarrow> False | Some x \<Rightarrow> lh_hash x = hash \<and> lh_key x = key)"

definition chains_ok :: "'v heap \<Rightarrow> nat list list \<Rightarrow> nat set \<Rightarrow> bool" where
  "chains_ok H l S \<longleftrightarrow> (\<exists>k \<ge> 2. length l = 2 ^ k) \<and>
     (\<forall>i < length l. distinct (l ! i) \<and>
        (\<forall>h \<in> set (l ! i). h \<in> S \<and> (\<exists>x. H h = Some x \<and> bucket (length l) (lh_hash x) = i))) \<and>
     (\<forall>h \<in> S. \<exists>x. H h = Some x \<and> h \<in> set (l ! bucket (length l) (lh_hash x)))"

definition keys_differ :: "'v heap \<Rightarrow> nat set \<Rightarrow> bool" where
  "keys_differ H S \<longleftrightarrow> (\<forall>g \<in> S. \<forall>h \<in> S. \<forall>key hash. matches H key hash g \<longrightarrow> matches H key hash h \<longrightarrow> g = h)"

definition ht_ok :: "'v heap \<Rightarrow> HandleTable \<Rightarrow> nat set \<Rightarrow> bool" where
  "ht_ok H t S \<longleftrightarrow> ht_length t = length (ht_list t) \<and> chains_ok H (ht_list t) S \<and> keys_differ H S \<and>
     finite S \<and> ht_elems t = card S"

lemma bucket_less: "2 \<le> k \<Longrightarrow> bucket (2 ^ k) hash < 2 ^ k"
proof (cases "k < 32")
  case True
  have "(word_of_nat (2 ^ k) :: u32) = 2 ^ k" by simp
  then have "(word_of_nat (2 ^ k) - 1 :: u32) = mask k" by (simp add: mask_eq_exp_minus_1)
  then have "bucket (2 ^ k) hash = unat (take_bit k hash)" by (simp add: bucket_def take_bit_eq_mask)
  then show ?thesis by (simp add: unsigned_take_bit_eq)
next
  case False
  have "bucket (2 ^ k) hash < 2 ^ 32" using unat_u32_less unfolding bucket_def by simp
  also have "(2 :: nat) ^ 32 \<le> 2 ^ k" using False by (intro power_increasing) simp_all
  finally show ?thesis .
qed

lemma chains_bucket: "chains_ok H l S \<Longrightarrow> bucket (length l) hash < length l"
  using bucket_less by (auto simp: chains_ok_def)

lemma chains_home: "chains_ok H l S \<Longrightarrow> h \<in> S \<Longrightarrow> \<exists>x. H h = Some x \<and> h \<in> set (l ! bucket (length l) (lh_hash x))"
  unfolding chains_ok_def by blast

lemma chains_member: "chains_ok H l S \<Longrightarrow> i < length l \<Longrightarrow> h \<in> set (l ! i) \<Longrightarrow>
    h \<in> S \<and> (\<exists>x. H h = Some x \<and> bucket (length l) (lh_hash x) = i)"
  unfolding chains_ok_def by blast

lemma find_pointer_place:
  "\<forall>h \<in> set hs. H h \<noteq> None \<Longrightarrow> find_pointer H key hash hs = Some (length (takeWhile (\<lambda>h. \<not> matches H key hash h) hs))"
  by (induction hs) (auto simp: matches_def)

lemma takeWhile_place: "\<forall>x \<in> set xs. P x \<Longrightarrow> \<not> P h \<Longrightarrow> takeWhile P (xs @ h # ys) = xs"
  by (induction xs) auto

lemma chain_members: "chains_ok H l S \<Longrightarrow> i < length l \<Longrightarrow> \<forall>h \<in> set (l ! i). H h \<noteq> None"
  by (auto simp: chains_ok_def)

lemma FindPointer_found:
  assumes "ht_ok H t S" and "h \<in> S" and m: "matches H key hash h"
  shows "\<exists>b xs ys. b < length (ht_list t) \<and> ht_list t ! b = xs @ h # ys \<and> FindPointer H key hash t = Some (b, length xs) \<and>
    pointee t (b, length xs) = Some h \<and> b = bucket (ht_length t) hash"
proof -
  let ?b = "bucket (ht_length t) hash"
  have t: "ht_length t = length (ht_list t)" "chains_ok H (ht_list t) S" "keys_differ H S" using assms by (simp_all add: ht_ok_def)
  have b: "?b < length (ht_list t)" using chains_bucket [OF t(2)] t(1) by simp
  obtain x where x: "H h = Some x" "h \<in> set (ht_list t ! bucket (length (ht_list t)) (lh_hash x))"
    using chains_home [OF t(2) assms(2)] by blast
  then have "h \<in> set (ht_list t ! ?b)" using m t(1) by (simp add: matches_def)
  then obtain xs ys where l: "ht_list t ! ?b = xs @ h # ys" by (meson split_list)
  have "distinct (xs @ h # ys)" "\<forall>g \<in> set (xs @ h # ys). g \<in> S" using t(2) b unfolding l [symmetric] by (auto simp: chains_ok_def)
  then have "\<forall>g \<in> set xs. \<not> matches H key hash g" using t(3) m assms(2) unfolding keys_differ_def by fastforce
  then have "takeWhile (\<lambda>h. \<not> matches H key hash h) (ht_list t ! ?b) = xs" using m by (simp add: l takeWhile_place)
  then have "FindPointer H key hash t = Some (?b, length xs)"
    using find_pointer_place [OF chain_members [OF t(2) b]] by (simp add: FindPointer_def Let_def)
  then show ?thesis using l b by (intro exI [of _ ?b] exI [of _ xs] exI [of _ ys]) (simp add: pointee_def)
qed

lemma FindPointer_absent:
  assumes "ht_ok H t S" and "\<forall>h \<in> S. \<not> matches H key hash h"
  shows "FindPointer H key hash t = Some (bucket (ht_length t) hash, length (ht_list t ! bucket (ht_length t) hash))"
    and "bucket (ht_length t) hash < length (ht_list t)"
proof -
  let ?b = "bucket (ht_length t) hash"
  have t: "ht_length t = length (ht_list t)" "chains_ok H (ht_list t) S" using assms by (simp_all add: ht_ok_def)
  show b: "?b < length (ht_list t)" using chains_bucket [OF t(2)] t(1) by simp
  have "\<forall>h \<in> set (ht_list t ! ?b). \<not> matches H key hash h" using t(2) b assms(2) by (auto simp: chains_ok_def)
  then have w: "takeWhile (\<lambda>h. \<not> matches H key hash h) (ht_list t ! ?b) = ht_list t ! ?b" by (simp add: takeWhile_eq_all_conv)
  show "FindPointer H key hash t = Some (?b, length (ht_list t ! ?b))"
    unfolding FindPointer_def Let_def find_pointer_place [OF chain_members [OF t(2) b]] w by simp
qed

lemma Lookup_found: "ht_ok H t S \<Longrightarrow> h \<in> S \<Longrightarrow> matches H key hash h \<Longrightarrow> HandleTable_Lookup H key hash t = Some (Some h)"
  using FindPointer_found unfolding HandleTable_Lookup_def by fastforce

lemma Lookup_absent: "ht_ok H t S \<Longrightarrow> \<forall>h \<in> S. \<not> matches H key hash h \<Longrightarrow> HandleTable_Lookup H key hash t = Some None"
  using FindPointer_absent [of H t S key hash] by (simp add: HandleTable_Lookup_def pointee_def)

lemma chains_update:
  assumes chains: "chains_ok H l S" and b: "b < length l" and d: "distinct c" and keep: "set (l ! b) - S' \<subseteq> set c"
    and new: "\<forall>h \<in> set c. h \<in> (S - S') \<union> A \<and> (\<exists>x. H h = Some x \<and> bucket (length l) (lh_hash x) = b)"
    and old: "S' \<subseteq> set (l ! b)" and add: "A \<subseteq> set c"
  shows "chains_ok H (l[b := c]) ((S - S') \<union> A)"
proof -
  have e: "\<exists>x. H h = Some x \<and> h \<in> set (l[b := c] ! bucket (length l) (lh_hash x))" if hs: "h \<in> S - S'" for h
  proof -
    obtain x where "H h = Some x" "h \<in> set (l ! bucket (length l) (lh_hash x))" using chains_home [OF chains] hs by blast
    then show ?thesis using keep hs b by (cases "bucket (length l) (lh_hash x) = b") auto
  qed
  have a: "\<exists>x. H h = Some x \<and> h \<in> set (l[b := c] ! bucket (length l) (lh_hash x))" if "h \<in> A" for h
    using new add that b by fastforce
  have o: "h \<in> (S - S') \<union> A \<and> (\<exists>x. H h = Some x \<and> bucket (length l) (lh_hash x) = i)"
    if i: "i < length l" "i \<noteq> b" and h: "h \<in> set (l ! i)" for i h
  proof -
    obtain x where x: "H h = Some x" "bucket (length l) (lh_hash x) = i" "h \<in> S" using chains_member [OF chains i(1) h] by blast
    have "h \<notin> S'"
    proof
      assume "h \<in> S'"
      then have "h \<in> set (l ! b)" using old by blast
      then show False using chains_member [OF chains b, of h] x(1,2) i(2) by auto
    qed
    then show ?thesis using x by blast
  qed
  have "distinct (l[b := c] ! i) \<and> (\<forall>h \<in> set (l[b := c] ! i). h \<in> (S - S') \<union> A \<and>
      (\<exists>x. H h = Some x \<and> bucket (length l) (lh_hash x) = i))" if "i < length l" for i
  proof (cases "i = b")
    case True
    then show ?thesis using d new that by simp
  next
    case False
    have "distinct (l ! i)" using chains that unfolding chains_ok_def by blast
    then show ?thesis using o [OF that False] False by simp
  qed
  moreover have "\<forall>h \<in> (S - S') \<union> A. \<exists>x. H h = Some x \<and> h \<in> set (l[b := c] ! bucket (length l) (lh_hash x))"
    using e a by blast
  ultimately show ?thesis using chains unfolding chains_ok_def length_list_update by blast
qed

lemma keys_differ_mono: "keys_differ H S \<Longrightarrow> S' \<subseteq> S \<Longrightarrow> keys_differ H S'"
  unfolding keys_differ_def by blast

lemma Remove_found:
  assumes t: "ht_ok H t S" and h: "h \<in> S" and m: "matches H key hash h"
  shows "\<exists>t'. HandleTable_Remove H key hash t = Some (Some h, t') \<and> ht_ok H t' (S - {h})"
proof -
  obtain b xs ys where f: "b < length (ht_list t)" "ht_list t ! b = xs @ h # ys" "FindPointer H key hash t = Some (b, length xs)"
    "pointee t (b, length xs) = Some h"
    using FindPointer_found [OF assms] by blast
  have c: "chains_ok H (ht_list t) S" using t by (simp add: ht_ok_def)
  have mem: "distinct (xs @ h # ys)" "\<forall>g \<in> set (xs @ h # ys). g \<in> S \<and> (\<exists>x. H g = Some x \<and> bucket (length (ht_list t)) (lh_hash x) = b)"
    using c f(1) unfolding f(2) [symmetric] by (auto simp: chains_ok_def)
  have "chains_ok H ((ht_list t)[b := xs @ ys]) ((S - {h}) \<union> {})"
    using mem f(2) by (intro chains_update [OF c f(1)]) auto
  then have "ht_ok H (t\<lparr>ht_list := (ht_list t)[b := xs @ ys], ht_elems := ht_elems t - 1\<rparr>) (S - {h})"
    using t h keys_differ_mono [of H S "S - {h}"] by (auto simp: ht_ok_def)
  then show ?thesis using f by (simp add: HandleTable_Remove_def Let_def)
qed

lemma Remove_absent:
  "ht_ok H t S \<Longrightarrow> \<forall>h \<in> S. \<not> matches H key hash h \<Longrightarrow> HandleTable_Remove H key hash t = Some (None, t)"
  using FindPointer_absent [of H t S key hash] by (simp add: HandleTable_Remove_def pointee_def Let_def)

text \<open>Rehashing moves all handles to buckets of the new length.\<close>

lemma grow_power: "2 \<le> k \<Longrightarrow> \<exists>j \<ge> 2. grow (2 ^ k) n = 2 ^ j"
proof (induction "2 ^ k :: nat" n arbitrary: k rule: grow.induct)
  case (1 elems)
  show ?case
  proof (cases "2 ^ k < elems")
    case True
    have "(2 :: nat) ^ k * 2 = 2 ^ Suc k" by simp
    then have "\<exists>j \<ge> 2. grow (2 ^ Suc k) elems = 2 ^ j" using 1(1) [of "Suc k"] True 1(2) by simp
    then show ?thesis using True by (subst grow.simps) (simp add: mult.commute)
  next
    case False
    then show ?thesis using 1(2) by (subst grow.simps) auto
  qed
qed

lemma rehash_chains:
  assumes c: "chains_ok H l S" and h: "H h = Some x" "h \<notin> S"
  shows "\<exists>l'. rehash H (length l) h l = Some l' \<and> chains_ok H l' (insert h S) \<and> length l' = length l"
proof -
  let ?b = "bucket (length l) (lh_hash x)"
  have b: "?b < length l" by (rule chains_bucket [OF c])
  have mem: "distinct (l ! ?b)" "\<forall>g \<in> set (l ! ?b). g \<in> S \<and> (\<exists>x. H g = Some x \<and> bucket (length l) (lh_hash x) = ?b)"
    using c b unfolding chains_ok_def by blast+
  have "chains_ok H (l[?b := h # l ! ?b]) ((S - {}) \<union> {h})"
    using mem h by (intro chains_update [OF c b]) auto
  then show ?thesis using h by (simp add: rehash_def Let_def)
qed

lemma rehash_all_chains:
  "chains_ok H l S \<Longrightarrow> \<forall>h \<in> set hs. H h \<noteq> None \<Longrightarrow> distinct hs \<Longrightarrow> set hs \<inter> S = {} \<Longrightarrow>
   \<exists>l'. rehash_all H (length l) hs l = Some l' \<and> chains_ok H l' (set hs \<union> S) \<and> length l' = length l"
proof (induction hs arbitrary: l S)
  case (Cons h hs)
  obtain x where x: "H h = Some x" using Cons.prems(2) by auto
  obtain l1 where l1: "rehash H (length l) h l = Some l1" "chains_ok H l1 (insert h S)" "length l1 = length l"
    using rehash_chains [OF Cons.prems(1) x] Cons.prems(4) by auto
  have "\<exists>l'. rehash_all H (length l1) hs l1 = Some l' \<and> chains_ok H l' (set hs \<union> insert h S) \<and> length l' = length l1"
    using Cons.prems by (intro Cons.IH [OF l1(2)]) auto
  then show ?case using l1(1,3) by auto
qed simp

lemma distinct_concat_buckets:
  "(\<And>i. i < n \<Longrightarrow> distinct (l ! i)) \<Longrightarrow> (\<And>i j h. i < n \<Longrightarrow> j < n \<Longrightarrow> h \<in> set (l ! i) \<Longrightarrow> h \<in> set (l ! j) \<Longrightarrow> i = j) \<Longrightarrow>
   n \<le> length l \<Longrightarrow> distinct (concat (take n l))"
proof (induction n)
  case (Suc n)
  have d: "distinct (concat (take n l))" using Suc.prems by (intro Suc.IH) auto
  have "set (concat (take n l)) \<inter> set (l ! n) = {}"
  proof (rule ccontr)
    assume "set (concat (take n l)) \<inter> set (l ! n) \<noteq> {}"
    then obtain h c where "h \<in> set (l ! n)" "c \<in> set (take n l)" "h \<in> set c" by auto
    moreover from this(2) obtain i where "i < n" "c = l ! i" using Suc.prems(3) by (auto simp: in_set_conv_nth)
    ultimately show False using Suc.prems(2) [of n i h] by simp
  qed
  then show ?case using d Suc.prems(1) [of n] Suc.prems(3) by (simp add: take_Suc_conv_app_nth)
qed simp

lemma chains_concat:
  assumes "chains_ok H l S"
  shows "distinct (concat l)" "set (concat l) = S"
proof -
  have "distinct (l ! i)" if "i < length l" for i using assms that unfolding chains_ok_def by blast
  moreover have "i = j" if "i < length l" "j < length l" "h \<in> set (l ! i)" "h \<in> set (l ! j)" for i j h
    using chains_member [OF assms that(1,3)] chains_member [OF assms that(2,4)] by auto
  ultimately show "distinct (concat l)" using distinct_concat_buckets [of "length l" l] by simp
  show "set (concat l) = S"
  proof (intro equalityI subsetI)
    fix h assume "h \<in> set (concat l)"
    then obtain c where "c \<in> set l" "h \<in> set c" by auto
    moreover from this(1) obtain i where "i < length l" "c = l ! i" by (metis in_set_conv_nth)
    ultimately show "h \<in> S" using chains_member [OF assms] by blast
  next
    fix h assume "h \<in> S"
    then show "h \<in> set (concat l)" using chains_home [OF assms] chains_bucket [OF assms] by (metis UN_I nth_mem set_concat)
  qed
qed

lemma empty_chains: "2 \<le> k \<Longrightarrow> chains_ok H (replicate (2 ^ k) []) {}"
  by (auto simp: chains_ok_def)

lemma Resize_ok:
  assumes "ht_ok H t S"
  shows "\<exists>t'. Resize H t = Some t' \<and> ht_ok H t' S"
proof -
  have c: "chains_ok H (ht_list t) S" using assms by (simp add: ht_ok_def)
  have "grow (2 ^ 2) (ht_elems t) = grow 4 (ht_elems t)" by simp
  then obtain k where k: "2 \<le> k" "grow 4 (ht_elems t) = 2 ^ k" using grow_power [of 2 "ht_elems t"] by auto
  have "\<forall>h \<in> set (concat (ht_list t)). H h \<noteq> None" using chains_concat(2) [OF c] chains_home [OF c] by fastforce
  from rehash_all_chains [OF empty_chains [OF k(1)] this chains_concat(1) [OF c]]
  obtain l' where l': "rehash_all H (2 ^ k) (concat (ht_list t)) (replicate (2 ^ k) []) = Some l'" "chains_ok H l' S"
    "length l' = 2 ^ k"
    using chains_concat(2) [OF c] by auto
  then show ?thesis using assms k(2) by (simp add: Resize_def Let_def ht_ok_def)
qed

lemma Insert_old:
  assumes t: "ht_ok H t S" and h: "H h = Some x" "h \<notin> S" and g: "g \<in> S" "matches H (lh_key x) (lh_hash x) g"
  shows "\<exists>t'. HandleTable_Insert H h t = Some (Some g, t') \<and> ht_ok H t' (insert h (S - {g}))"
proof -
  obtain b xs ys where f: "b < length (ht_list t)" "ht_list t ! b = xs @ g # ys"
    "FindPointer H (lh_key x) (lh_hash x) t = Some (b, length xs)"
    "pointee t (b, length xs) = Some g" "b = bucket (ht_length t) (lh_hash x)"
    using FindPointer_found [OF t g] by blast
  have c: "chains_ok H (ht_list t) S" and tl: "ht_length t = length (ht_list t)" using t by (simp_all add: ht_ok_def)
  have mem: "distinct (xs @ g # ys)" "\<forall>g \<in> set (xs @ g # ys). g \<in> S \<and> (\<exists>x. H g = Some x \<and> bucket (length (ht_list t)) (lh_hash x) = b)"
    using c f(1) unfolding f(2) [symmetric] chains_ok_def by blast+
  have ch: "chains_ok H ((ht_list t)[b := xs @ h # ys]) ((S - {g}) \<union> {h})"
    using mem f(2,5) h tl by (intro chains_update [OF c f(1)]) auto
  have "g' = h" if "g' \<in> insert h (S - {g})" "matches H k hs g'" "matches H k hs h" for g' k hs
  proof (rule ccontr)
    assume "g' \<noteq> h"
    then have "g' \<in> S" "g' \<noteq> g" using that(1) by auto
    moreover have "k = lh_key x" "hs = lh_hash x" using that(3) h(1) by (simp_all add: matches_def)
    ultimately show False using t g that(2) unfolding ht_ok_def keys_differ_def by blast
  qed
  moreover have "keys_differ H S" using t by (simp add: ht_ok_def)
  ultimately have kd: "keys_differ H (insert h (S - {g}))" unfolding keys_differ_def by blast
  have "0 < card S" using t g(1) by (auto simp: ht_ok_def card_gt_0_iff)
  then have "card (insert h (S - {g})) = card S" using t g(1) h(2) by (simp add: ht_ok_def)
  then have "ht_ok H (t\<lparr>ht_list := (ht_list t)[b := xs @ h # ys]\<rparr>) (insert h (S - {g}))"
    using t ch kd by (simp add: ht_ok_def)
  then show ?thesis using f h by (simp add: HandleTable_Insert_def Let_def)
qed

lemma Insert_fresh:
  assumes t: "ht_ok H t S" and h: "H h = Some x" "h \<notin> S" and g: "\<forall>g \<in> S. \<not> matches H (lh_key x) (lh_hash x) g"
  shows "\<exists>t'. HandleTable_Insert H h t = Some (None, t') \<and> ht_ok H t' (insert h S)"
proof -
  let ?b = "bucket (ht_length t) (lh_hash x)" and ?l = "ht_list t"
  note f = FindPointer_absent [OF t g]
  have c: "chains_ok H ?l S" and tl: "ht_length t = length ?l" using t by (simp_all add: ht_ok_def)
  have mem: "distinct (?l ! ?b)" "\<forall>g \<in> set (?l ! ?b). g \<in> S \<and> (\<exists>x. H g = Some x \<and> bucket (length ?l) (lh_hash x) = ?b)"
    using c f(2) unfolding chains_ok_def by blast+
  have ch: "chains_ok H (?l[?b := ?l ! ?b @ [h]]) ((S - {}) \<union> {h})"
    using mem h tl by (intro chains_update [OF c f(2)]) auto
  have "g' = h" if "g' \<in> insert h S" "matches H k hs g'" "matches H k hs h" for g' k hs
    using that g h(1) by (auto simp: matches_def)
  moreover have "keys_differ H S" using t by (simp add: ht_ok_def)
  ultimately have kd: "keys_differ H (insert h S)" unfolding keys_differ_def by blast
  let ?t = "t\<lparr>ht_list := ?l[?b := ?l ! ?b @ [h]], ht_elems := ht_elems t + 1\<rparr>"
  have ok: "ht_ok H ?t (insert h S)" using t ch kd h(2) by (simp add: ht_ok_def)
  have pn: "pointee t (?b, length (?l ! ?b)) = None" by (simp add: pointee_def)
  show ?thesis
  proof (cases "ht_elems t + 1 > ht_length t")
    case True
    then show ?thesis using Resize_ok [OF ok] h(1) f(1) pn by (auto simp: HandleTable_Insert_def Let_def)
  next
    case False
    then show ?thesis using ok h(1) f(1) pn by (simp add: HandleTable_Insert_def Let_def)
  qed
qed

lemma ht_ok_cong:
  assumes "ht_ok H t S"
    and "\<And>h. h \<in> S \<Longrightarrow> map_option (\<lambda>x. (lh_key x, lh_hash x)) (H' h) = map_option (\<lambda>x. (lh_key x, lh_hash x)) (H h)"
  shows "ht_ok H' t S"
proof -
  have m: "matches H' key hash h = matches H key hash h" if "h \<in> S" for key hash h
    using assms(2) [OF that] by (auto simp: matches_def split: option.splits)
  have s: "\<exists>y. H' h = Some y \<and> lh_hash y = lh_hash x" if "h \<in> S" "H h = Some x" for h x
    using assms(2) [OF that(1)] that(2) by auto
  have c: "chains_ok H (ht_list t) S" using assms(1) by (simp add: ht_ok_def)
  have "\<exists>x. H' h = Some x \<and> bucket (length (ht_list t)) (lh_hash x) = i" if "i < length (ht_list t)" "h \<in> set (ht_list t ! i)" for i h
    using chains_member [OF c that] s by fastforce
  moreover have "\<exists>x. H' h = Some x \<and> h \<in> set (ht_list t ! bucket (length (ht_list t)) (lh_hash x))" if "h \<in> S" for h
    using chains_home [OF c that] s [OF that] by fastforce
  ultimately have "chains_ok H' (ht_list t) S" using c unfolding chains_ok_def by blast
  moreover have "keys_differ H' S" using assms(1) m unfolding ht_ok_def keys_differ_def by blast
  ultimately show ?thesis using assms(1) by (simp add: ht_ok_def)
qed

lemma new_HandleTable_ok: "ht_ok H new_HandleTable {}"
  using empty_chains [of 2 H] by (simp add: ht_ok_def new_HandleTable_def keys_differ_def)

section \<open>The invariant of a shard\<close>

definition cached :: "'v LRUCache \<Rightarrow> nat set" where
  "cached c = set (lc_lru c) \<union> set (lc_in_use c)"

definition charge_of :: "'v LRUCache \<Rightarrow> nat \<Rightarrow> u64" where
  "charge_of c h = (case lc_heap c h of None \<Rightarrow> 0 | Some x \<Rightarrow> lh_charge x)"

text \<open>The clients hold the handles \<open>ext\<close>. An entry is referenced by them and by the cache.\<close>

definition handle_ok :: "nat multiset \<Rightarrow> 'v LRUCache \<Rightarrow> nat \<Rightarrow> 'v LRUHandle \<Rightarrow> bool" where
  "handle_ok ext c h x \<longleftrightarrow> h < lc_next c \<and> lh_hash x = HashSlice (lh_key x) \<and> (lh_in_cache x \<longleftrightarrow> h \<in> cached c) \<and>
     unat (lh_refs x) = count ext h + (if h \<in> cached c then 1 else 0) \<and> 0 < unat (lh_refs x)"

text \<open>Counting references up and down.\<close>

lemma refs_one: "(w :: u32) = 1 \<longleftrightarrow> unat w = 1"
  by (simp add: word_unat_eq_iff)

lemma refs_down: "0 < unat (w :: u32) \<Longrightarrow> unat (w - 1) = unat w - 1"
  by (simp add: unat_minus_one unat_gt_0)

lemma refs_up: "unat (w :: u32) < 2 ^ 32 - 1 \<Longrightarrow> unat (w + 1) = unat w + 1"
  by (simp add: unat_add_lem [THEN iffD1])

text \<open>A sum of words is that of their values, wrapped around.\<close>

lemma unat_sum: "unat (sum f A :: u64) = (\<Sum>a \<in> A. unat (f a)) mod 2 ^ 64"
proof (induction A rule: infinite_finite_induct)
  case (insert a A)
  then show ?case by (simp add: unat_word_ariths mod_add_right_eq)
qed simp_all

definition shard_rest :: "nat multiset \<Rightarrow> 'v LRUCache \<Rightarrow> bool" where
  "shard_rest ext c \<longleftrightarrow> distinct (lc_lru c @ lc_in_use c) \<and>
     (\<forall>h x. lc_heap c h = Some x \<longrightarrow> handle_ok ext c h x) \<and> (\<forall>h \<in> cached c \<union> set_mset ext. lc_heap c h \<noteq> None) \<and>
     (\<forall>h \<in> cached c. h \<in> set (lc_lru c) \<longleftrightarrow> count ext h = 0) \<and>
     lc_usage c = sum (charge_of c) (cached c) \<and> length (lc_called c) + card (dom (lc_heap c)) = lc_next c"

definition shard_ok :: "nat multiset \<Rightarrow> 'v LRUCache \<Rightarrow> bool" where
  "shard_ok ext c \<longleftrightarrow> shard_rest ext c \<and> ht_ok (lc_heap c) (lc_table c) (cached c) \<and> (lc_capacity c = 0 \<longrightarrow> cached c = {})"

text \<open>What does not change of an entry while it lives.\<close>

definition fixed :: "'v LRUHandle \<Rightarrow> slice \<times> u32 \<times> 'v \<times> u64" where
  "fixed x = (lh_key x, lh_hash x, lh_value x, lh_charge x)"

definition keeps_values :: "nat set \<Rightarrow> 'v LRUCache \<Rightarrow> 'v LRUCache \<Rightarrow> bool" where
  "keeps_values A c c' \<longleftrightarrow> (\<forall>h \<in> A. map_option fixed (lc_heap c' h) = map_option fixed (lc_heap c h))"

lemma keeps_values_trans: "keeps_values A c c1 \<Longrightarrow> keeps_values B c1 c2 \<Longrightarrow> B \<subseteq> A \<Longrightarrow> keeps_values B c c2"
  unfolding keeps_values_def by (metis subsetD)

lemma keeps_values_mono: "keeps_values A c c' \<Longrightarrow> B \<subseteq> A \<Longrightarrow> keeps_values B c c'"
  unfolding keeps_values_def by blast

lemma keeps_values_sym: "keeps_values A c c' \<Longrightarrow> keeps_values A c' c"
  by (simp add: keeps_values_def)

lemma keeps_fixed:
  assumes "keeps_values A c c'" and "h \<in> A" and "lc_heap c' h = Some y"
  shows "\<exists>z. lc_heap c h = Some z \<and> fixed z = fixed y"
proof -
  have "map_option fixed (lc_heap c' h) = map_option fixed (lc_heap c h)"
    using assms(1,2) unfolding keeps_values_def by blast
  then have "map_option fixed (lc_heap c h) = Some (fixed y)" unfolding assms(3) by simp
  then show ?thesis by (simp only: map_option_eq_Some)
qed

lemma keeps_values_refl [simp]: "keeps_values A c c"
  by (simp add: keeps_values_def)

lemma charge_of_fixed: "keeps_values A c c' \<Longrightarrow> h \<in> A \<Longrightarrow> charge_of c' h = charge_of c h"
  by (auto simp: keeps_values_def charge_of_def fixed_def split: option.splits dest!: bspec)

lemma shard_restD:
  assumes "shard_rest ext c"
  shows "distinct (lc_lru c)" "distinct (lc_in_use c)" "set (lc_lru c) \<inter> set (lc_in_use c) = {}"
    "\<And>h x. lc_heap c h = Some x \<Longrightarrow> handle_ok ext c h x"
    "\<And>h. h \<in> cached c \<Longrightarrow> \<exists>x. lc_heap c h = Some x" "\<And>h. h \<in># ext \<Longrightarrow> \<exists>x. lc_heap c h = Some x"
    "\<And>h. h \<in> cached c \<Longrightarrow> h \<in> set (lc_lru c) \<longleftrightarrow> count ext h = 0" "lc_usage c = sum (charge_of c) (cached c)"
    "length (lc_called c) + card (dom (lc_heap c)) = lc_next c" "finite (dom (lc_heap c))" "finite (cached c)"
proof -
  have "dom (lc_heap c) \<subseteq> {..<lc_next c}" using assms by (auto simp: shard_rest_def handle_ok_def)
  then show "finite (dom (lc_heap c))" using finite_subset by blast
  show "\<And>h x. lc_heap c h = Some x \<Longrightarrow> handle_ok ext c h x" using assms unfolding shard_rest_def by blast
  show "\<And>h. h \<in> cached c \<Longrightarrow> h \<in> set (lc_lru c) \<longleftrightarrow> count ext h = 0" using assms unfolding shard_rest_def by blast
  show "\<And>h. h \<in> cached c \<Longrightarrow> \<exists>x. lc_heap c h = Some x" "\<And>h. h \<in># ext \<Longrightarrow> \<exists>x. lc_heap c h = Some x"
    using assms unfolding shard_rest_def by blast+
qed (use assms in \<open>auto simp: shard_rest_def cached_def\<close>)

lemma keeps_ht_ok:
  "ht_ok (lc_heap c) t S \<Longrightarrow> keeps_values S c c' \<Longrightarrow> ht_ok (lc_heap c') t S"
proof (erule ht_ok_cong)
  fix h assume "keeps_values S c c'" "h \<in> S"
  then have "map_option fixed (lc_heap c' h) = map_option fixed (lc_heap c h)" by (simp add: keeps_values_def)
  then show "map_option (\<lambda>x. (lh_key x, lh_hash x)) (lc_heap c' h) = map_option (\<lambda>x. (lh_key x, lh_hash x)) (lc_heap c h)"
    by (cases "lc_heap c h"; cases "lc_heap c' h") (auto simp: fixed_def)
qed

lemma set_handle_simps [simp]: "lc_heap (set_handle e x c) = (lc_heap c)(e \<mapsto> x)" "lc_next (set_handle e x c) = lc_next c"
  "lc_capacity (set_handle e x c) = lc_capacity c" "lc_usage (set_handle e x c) = lc_usage c" "lc_lru (set_handle e x c) = lc_lru c"
  "lc_in_use (set_handle e x c) = lc_in_use c" "lc_table (set_handle e x c) = lc_table c" "lc_called (set_handle e x c) = lc_called c"
  by (simp_all add: set_handle_def)

text \<open>The shape of every step: one handle gets new counters, the lists change accordingly.\<close>

lemma shard_restI:
  assumes c: "shard_rest ext c" and x: "lc_heap c h = Some x"
    and heap: "lc_heap c' = (lc_heap c)(h \<mapsto> x')" and fx: "fixed x' = fixed x"
    and same: "lc_next c' = lc_next c" "lc_called c' = lc_called c"
    and lists: "distinct (lc_lru c' @ lc_in_use c')"
    and others: "\<And>g. g \<noteq> h \<Longrightarrow> (g \<in> set (lc_lru c') \<longleftrightarrow> g \<in> set (lc_lru c)) \<and>
      (g \<in> set (lc_in_use c') \<longleftrightarrow> g \<in> set (lc_in_use c)) \<and> count ext' g = count ext g"
    and it: "handle_ok ext' c' h x'" "h \<in> cached c' \<Longrightarrow> h \<in> set (lc_lru c') \<longleftrightarrow> count ext' h = 0"
    and usage: "lc_usage c' = (if h \<in> cached c \<and> h \<notin> cached c' then lc_usage c - lh_charge x else lc_usage c)"
    and shrink: "cached c' \<subseteq> cached c"
  shows "shard_rest ext' c' \<and> keeps_values UNIV c c'"
proof -
  note d = shard_restD [OF c]
  have kv: "keeps_values UNIV c c'" using heap fx x by (simp add: keeps_values_def)
  have cg: "g \<in> cached c' \<longleftrightarrow> g \<in> cached c" if "g \<noteq> h" for g using others [OF that] by (auto simp: cached_def)
  have "handle_ok ext' c' g y" if "lc_heap c' g = Some y" for g y
  proof (cases "g = h")
    case False
    then have "handle_ok ext c g y" using d(4) that heap by simp
    moreover have "handle_ok ext' c' g y = handle_ok ext c g y"
      by (simp only: handle_ok_def cg [OF False] others [OF False] same)
    ultimately show ?thesis by simp
  qed (use that it heap in simp)
  moreover have "lc_heap c' g \<noteq> None" if "g \<in> cached c' \<union> set_mset ext'" for g
  proof (cases "g = h")
    case False
    then have "g \<in> cached c \<or> g \<in># ext" using others [OF False] cg [OF False] that by (metis UnE count_eq_zero_iff)
    then show ?thesis using d(5,6) heap False by fastforce
  qed (use heap in simp)
  moreover have "g \<in> set (lc_lru c') \<longleftrightarrow> count ext' g = 0" if "g \<in> cached c'" for g
    using d(7) [of g] others [of g] cg [of g] it(2) that by (cases "g = h") auto
  moreover have "lc_usage c' = sum (charge_of c') (cached c')"
  proof -
    have s: "sum (charge_of c') (cached c') = sum (charge_of c) (cached c')"
      by (intro sum.cong refl charge_of_fixed [OF kv]) simp
    show ?thesis
    proof (cases "h \<in> cached c \<and> h \<notin> cached c'")
      case True
      then have "g \<in> cached c' \<longleftrightarrow> g \<in> cached c - {h}" for g using cg [of g] by (cases "g = h") simp_all
      then have "cached c' = cached c - {h}" by blast
      moreover have "charge_of c h = lh_charge x" using x by (simp add: charge_of_def)
      ultimately show ?thesis using True s usage d(8,11) by (simp add: sum_diff1)
    next
      case False
      then have "g \<in> cached c' \<longleftrightarrow> g \<in> cached c" for g using cg [of g] shrink by (cases "g = h") auto
      then have "cached c' = cached c" by blast
      then show ?thesis using False s usage d(8) by simp
    qed
  qed
  moreover have "dom (lc_heap c') = dom (lc_heap c)" using heap x by auto
  ultimately have "shard_rest ext' c'" using lists d(9) same unfolding shard_rest_def by simp
  then show ?thesis using kv by blast
qed

lemma Ref_ok:
  assumes c: "shard_rest ext c" and h: "h \<in> cached c" and few: "size ext < max_handles"
  shows "\<exists>c'. Ref h c = Some c' \<and> shard_rest (add_mset h ext) c' \<and> cached c' = cached c \<and> lc_table c' = lc_table c \<and>
    lc_capacity c' = lc_capacity c \<and> keeps_values UNIV c c'"
proof -
  note d = shard_restD [OF c]
  obtain x where x: "lc_heap c h = Some x" using d(5) [OF h] by blast
  have ok: "handle_ok ext c h x" by (rule d(4) [OF x])
  define c1 where "c1 = (if count ext h = 0
    then c\<lparr>lc_lru := remove1 h (lc_lru c), lc_in_use := lc_in_use c @ [h]\<rparr> else c)"
  have in_lru: "h \<in> set (lc_lru c) \<longleftrightarrow> count ext h = 0" by (rule d(7) [OF h])
  have rc: "(lh_refs x = 1 \<and> lh_in_cache x) = (count ext h = 0)" using ok h by (auto simp: handle_ok_def refs_one)
  have "count ext h < 2 ^ 32 - 2" using few count_le_size [of ext h] unfolding max_handles_def by linarith
  then have up: "unat (lh_refs x + 1) = unat (lh_refs x) + 1" using ok h by (intro refs_up) (simp add: handle_ok_def)
  have r: "Ref h c = Some (set_handle h (x\<lparr>lh_refs := lh_refs x + 1\<rparr>) c1)"
    using in_lru unfolding Ref_def x bind.bind_lunit rc c1_def by (simp add: LRU_Remove_def flip: not_in_iff)
  let ?c = "set_handle h (x\<lparr>lh_refs := lh_refs x + 1\<rparr>) c1"
  have ca: "cached ?c = cached c" using h d(1,3) in_lru by (auto simp: c1_def cached_def)
  have "shard_rest (add_mset h ext) ?c \<and> keeps_values UNIV c ?c"
  proof (rule shard_restI [OF c x, where x' = "x\<lparr>lh_refs := lh_refs x + 1\<rparr>"])
    show "distinct (lc_lru ?c @ lc_in_use ?c)" using d(1-3) in_lru by (auto simp: c1_def)
    show "handle_ok (add_mset h ext) ?c h (x\<lparr>lh_refs := lh_refs x + 1\<rparr>)"
      using ok h up unfolding handle_ok_def ca by (simp add: c1_def)
    show "h \<in> set (lc_lru ?c) \<longleftrightarrow> count (add_mset h ext) h = 0" using d(1) in_lru by (simp add: c1_def)
  qed (use ca h d(1) in \<open>auto simp: c1_def fixed_def\<close>)
  then show ?thesis using r ca by (auto simp: c1_def)
qed

lemma Unref_free:
  assumes c: "shard_rest (add_mset h ext) c" and h: "h \<notin> cached c" "h \<notin># ext"
  shows "\<exists>c'. Unref h c = Some c' \<and> shard_rest ext c' \<and> lc_lru c' = lc_lru c \<and> lc_in_use c' = lc_in_use c \<and>
    lc_table c' = lc_table c \<and> lc_capacity c' = lc_capacity c \<and> keeps_values (- {h}) c c'"
proof -
  note d = shard_restD [OF c]
  obtain x where x: "lc_heap c h = Some x" using d(6) [of h] by auto
  have ok: "handle_ok (add_mset h ext) c h x" by (rule d(4) [OF x])
  then have r: "lh_refs x = 1" "\<not> lh_in_cache x" using h by (simp_all add: handle_ok_def not_in_iff refs_one)
  define c' where "c' = (set_handle h (x\<lparr>lh_refs := 0\<rparr>) c)
    \<lparr>lc_called := lc_called c @ [(lh_key x, lh_value x)], lc_heap := (lc_heap c)(h := None)\<rparr>"
  have u: "Unref h c = Some c'" using x r by (simp add: Unref_def Let_def c'_def)
  have s: "lc_lru c' = lc_lru c" "lc_in_use c' = lc_in_use c" "lc_table c' = lc_table c" "lc_capacity c' = lc_capacity c"
    "lc_next c' = lc_next c" "lc_usage c' = lc_usage c" "lc_heap c' = (lc_heap c)(h := None)" "cached c' = cached c"
    "length (lc_called c') = length (lc_called c) + 1"
    by (simp_all add: c'_def cached_def)
  have kv: "keeps_values (- {h}) c c'" by (simp add: keeps_values_def s(7))
  have ho: "handle_ok ext c' g y" if "lc_heap c' g = Some y" for g y
  proof -
    have g: "g \<noteq> h" "lc_heap c g = Some y" using that by (auto simp: s(7) split: if_splits)
    have "handle_ok ext c' g y = handle_ok (add_mset h ext) c g y"
      using g(1) by (simp add: handle_ok_def s)
    then show ?thesis using d(4) [OF g(2)] by simp
  qed
  have "sum (charge_of c') (cached c') = sum (charge_of c) (cached c)"
    unfolding s(8) using h(1) by (intro sum.cong refl charge_of_fixed [OF kv]) auto
  moreover have "dom (lc_heap c') = dom (lc_heap c) - {h}" by (auto simp: s(7))
  then have "card (dom (lc_heap c')) + 1 = card (dom (lc_heap c))"
    using x d(10) card_Suc_Diff1 [of "dom (lc_heap c)" h] by (simp add: domI)
  moreover have "lc_heap c' g \<noteq> None" if "g \<in> cached c' \<union> set_mset ext" for g
  proof -
    have "g \<noteq> h" "g \<in> cached c \<or> g \<in># add_mset h ext" using that h s(8) by auto
    then show ?thesis using d(5,6) by (fastforce simp: s(7))
  qed
  moreover have "g \<in> set (lc_lru c') \<longleftrightarrow> count ext g = 0" if "g \<in> cached c'" for g
    using d(7) [of g] that h(1) s(1,8) by (auto split: if_splits)
  moreover have "distinct (lc_lru c' @ lc_in_use c')" using d(1-3) s by simp
  ultimately have "shard_rest ext c'" using ho d(8,9) s unfolding shard_rest_def by simp
  then show ?thesis using u s kv by blast
qed

lemma Unref_kept:
  assumes c: "shard_rest (add_mset h ext) c" and h: "h \<in> cached c \<or> h \<in># ext"
  shows "\<exists>c'. Unref h c = Some c' \<and> shard_rest ext c' \<and> cached c' = cached c \<and> (h \<notin> cached c \<longrightarrow> lc_lru c' = lc_lru c) \<and>
    lc_table c' = lc_table c \<and> lc_capacity c' = lc_capacity c \<and> keeps_values UNIV c c'"
proof -
  note d = shard_restD [OF c]
  obtain x where x: "lc_heap c h = Some x" using d(6) [of h] by auto
  have ok: "handle_ok (add_mset h ext) c h x" by (rule d(4) [OF x])
  have pos: "0 < unat (lh_refs x)" using ok by (simp add: handle_ok_def)
  note dn = refs_down [OF pos]
  have n: "unat (lh_refs x - 1) = count ext h + (if h \<in> cached c then 1 else 0)" using ok dn by (simp add: handle_ok_def)
  then have pos1: "0 < unat (lh_refs x - 1)" using h by (cases "h \<in> cached c") (simp_all del: unat_gt_0 add: count_greater_zero_iff)
  then have refs: "lh_refs x \<noteq> 0" "lh_refs x - 1 \<noteq> 0" "unat (lh_refs x - 1) = count ext h + (if h \<in> cached c then 1 else 0)"
    "lh_in_cache x \<longleftrightarrow> h \<in> cached c"
    using ok n pos [unfolded unat_gt_0] pos1 [unfolded unat_gt_0] unfolding handle_ok_def by blast+
  define c1 where "c1 = set_handle h (x\<lparr>lh_refs := lh_refs x - 1\<rparr>) c"
  define c' where "c' = (if h \<in> cached c \<and> count ext h = 0
    then c1\<lparr>lc_in_use := remove1 h (lc_in_use c), lc_lru := lc_lru c @ [h]\<rparr> else c1)"
  have in_use: "h \<notin> set (lc_lru c)" "h \<in> cached c \<Longrightarrow> h \<in> set (lc_in_use c)" using d(7) [of h] by (auto simp: cached_def)
  have "(lh_in_cache x \<and> lh_refs x - 1 = 1) = (h \<in> cached c \<and> count ext h = 0)" using refs h by (auto simp: refs_one)
  then have u: "Unref h c = Some c'"
    using x refs(1,2) in_use by (simp add: Unref_def Let_def LRU_Remove_def c1_def c'_def flip: not_in_iff)
  have ca: "cached c' = cached c" using in_use d(2) by (auto simp: c'_def c1_def cached_def)
  have "shard_rest ext c' \<and> keeps_values UNIV c c'"
  proof (rule shard_restI [OF c x, where x' = "x\<lparr>lh_refs := lh_refs x - 1\<rparr>"])
    show "distinct (lc_lru c' @ lc_in_use c')" using d(1-3) in_use by (auto simp: c1_def c'_def)
    show "handle_ok ext c' h (x\<lparr>lh_refs := lh_refs x - 1\<rparr>)"
      using ok refs h unfolding handle_ok_def ca by (auto simp: c1_def c'_def)
    show "h \<in> set (lc_lru c') \<longleftrightarrow> count ext h = 0" if "h \<in> cached c'"
      using in_use that unfolding ca by (auto simp: c1_def c'_def)
  qed (use ca d(2) h in \<open>auto simp: c1_def c'_def fixed_def\<close>)
  then show ?thesis using u ca by (auto simp: c1_def c'_def)
qed

text \<open>Dropping a client's reference.\<close>

lemma Unref_ok:
  assumes c: "shard_rest (add_mset h ext) c"
  shows "\<exists>c'. Unref h c = Some c' \<and> shard_rest ext c' \<and> cached c' = cached c \<and> (h \<notin> cached c \<longrightarrow> lc_lru c' = lc_lru c) \<and>
    lc_table c' = lc_table c \<and> lc_capacity c' = lc_capacity c \<and> keeps_values (cached c \<union> set_mset ext) c c'"
proof (cases "h \<in> cached c \<or> h \<in># ext")
  case True
  then show ?thesis using Unref_kept [OF c] keeps_values_mono [of UNIV] by fastforce
next
  case False
  obtain c' where c': "Unref h c = Some c'" "shard_rest ext c'" "lc_lru c' = lc_lru c" "lc_in_use c' = lc_in_use c"
    "lc_table c' = lc_table c" "lc_capacity c' = lc_capacity c" "keeps_values (- {h}) c c'"
    using Unref_free [OF c] False by blast
  have "keeps_values (cached c \<union> set_mset ext) c c'" by (rule keeps_values_mono [OF c'(7)]) (use False in auto)
  then show ?thesis using c' by (simp add: cached_def)
qed

text \<open>An entry that leaves the cache: the reference the cache had is dropped.\<close>

lemma uncache:
  assumes c: "shard_rest ext c" and h: "h \<in> cached c" and x: "lc_heap c h = Some x"
  shows "\<exists>c1. LRU_Remove h c = Some c1 \<and> lc_lru c1 = remove1 h (lc_lru c) \<and>
    (let c2 = set_handle h (x\<lparr>lh_in_cache := False\<rparr>) c1; c3 = c2\<lparr>lc_usage := lc_usage c2 - lh_charge x\<rparr>
     in shard_rest (add_mset h ext) c3 \<and> cached c3 = cached c - {h} \<and> keeps_values UNIV c c3 \<and>
        lc_lru c3 = remove1 h (lc_lru c) \<and> lc_table c3 = lc_table c \<and> lc_capacity c3 = lc_capacity c)"
proof -
  note d = shard_restD [OF c]
  have ok: "handle_ok ext c h x" by (rule d(4) [OF x])
  define c1 where "c1 = (if h \<in> set (lc_lru c) then c\<lparr>lc_lru := remove1 h (lc_lru c)\<rparr>
    else c\<lparr>lc_in_use := remove1 h (lc_in_use c)\<rparr>)"
  define c3 where "c3 = (set_handle h (x\<lparr>lh_in_cache := False\<rparr>) c1)\<lparr>lc_usage := lc_usage c - lh_charge x\<rparr>"
  have r: "LRU_Remove h c = Some c1" using h by (auto simp: LRU_Remove_def c1_def cached_def)
  have l: "lc_lru c1 = remove1 h (lc_lru c)" by (simp add: c1_def remove1_idem)
  have s: "lc_lru c3 = remove1 h (lc_lru c)" "lc_in_use c3 = remove1 h (lc_in_use c)"
    using l d(3) remove1_idem [of h "lc_in_use c"] by (cases "h \<in> set (lc_lru c)"; fastforce simp: c3_def c1_def)+
  have ca: "cached c3 = cached c - {h}" using d(1,2) s by (auto simp: cached_def)
  have "shard_rest (add_mset h ext) c3 \<and> keeps_values UNIV c c3"
  proof (rule shard_restI [OF c x, where x' = "x\<lparr>lh_in_cache := False\<rparr>"])
    show "distinct (lc_lru c3 @ lc_in_use c3)" using d(1-3) s by auto
    show "handle_ok (add_mset h ext) c3 h (x\<lparr>lh_in_cache := False\<rparr>)"
      using ok h unfolding handle_ok_def ca by (simp add: c3_def c1_def)
  qed (use ca d(1,2) s h in \<open>auto simp: c3_def c1_def fixed_def\<close>)
  moreover have "lc_usage c1 = lc_usage c" "lc_table c1 = lc_table c" "lc_capacity c1 = lc_capacity c" by (simp_all add: c1_def)
  ultimately show ?thesis using r l s(1) ca by (simp add: Let_def c3_def)
qed

lemma FinishErase_ok:
  assumes c: "shard_rest ext c" and h: "h \<in> cached c" and t: "ht_ok (lc_heap c) (lc_table c) (cached c - {h})"
    and cap: "lc_capacity c = 0 \<longrightarrow> cached c = {}"
  shows "\<exists>c'. FinishErase (Some h) c = Some (True, c') \<and> shard_ok ext c' \<and> cached c' = cached c - {h} \<and>
    lc_lru c' = remove1 h (lc_lru c) \<and> lc_capacity c' = lc_capacity c \<and>
    keeps_values (cached c - {h} \<union> set_mset ext) c c'"
proof -
  obtain x where x: "lc_heap c h = Some x" using shard_restD(5) [OF c h] by blast
  have "lh_in_cache x" using shard_restD(4) [OF c x] h by (simp add: handle_ok_def)
  moreover obtain c1 where c1: "LRU_Remove h c = Some c1" "lc_lru c1 = remove1 h (lc_lru c)"
    "(let c2 = set_handle h (x\<lparr>lh_in_cache := False\<rparr>) c1; c3 = c2\<lparr>lc_usage := lc_usage c2 - lh_charge x\<rparr>
     in shard_rest (add_mset h ext) c3 \<and> cached c3 = cached c - {h} \<and> keeps_values UNIV c c3 \<and>
        lc_lru c3 = remove1 h (lc_lru c) \<and> lc_table c3 = lc_table c \<and> lc_capacity c3 = lc_capacity c)"
    using uncache [OF c h x] by blast
  define c3 where "c3 = (let c2 = set_handle h (x\<lparr>lh_in_cache := False\<rparr>) c1 in c2\<lparr>lc_usage := lc_usage c2 - lh_charge x\<rparr>)"
  have c3: "shard_rest (add_mset h ext) c3" "cached c3 = cached c - {h}" "keeps_values UNIV c c3"
    "lc_lru c3 = remove1 h (lc_lru c)" "lc_table c3 = lc_table c" "lc_capacity c3 = lc_capacity c"
    using c1(3) by (simp_all add: Let_def c3_def)
  obtain c4 where c4: "Unref h c3 = Some c4" "shard_rest ext c4" "cached c4 = cached c3" "lc_lru c4 = lc_lru c3"
    "lc_table c4 = lc_table c3" "lc_capacity c4 = lc_capacity c3" "keeps_values (cached c3 \<union> set_mset ext) c3 c4"
    using Unref_ok [OF c3(1)] c3(2) by auto
  have kv: "keeps_values (cached c - {h} \<union> set_mset ext) c c4"
    by (rule keeps_values_trans [OF c3(3) c4(7) [unfolded c3(2)]]) simp
  have "ht_ok (lc_heap c4) (lc_table c4) (cached c4)"
    unfolding c4(3,5) c3(2,5) using keeps_ht_ok [OF t] keeps_values_mono [OF kv] by blast
  then have "shard_ok ext c4" using c4(2,3,6) c3(2,6) cap by (simp add: shard_ok_def)
  moreover have "FinishErase (Some h) c = Some (True, c4)"
    using x c1(1) \<open>lh_in_cache x\<close> c4(1) by (simp add: FinishErase_def Let_def c3_def)
  ultimately show ?thesis using c4 c3 kv by simp
qed

lemma table_update: "shard_rest ext c \<Longrightarrow> shard_rest ext (c\<lparr>lc_table := t\<rparr>)"
  "cached (c\<lparr>lc_table := t\<rparr>) = cached c" "keeps_values A c (c\<lparr>lc_table := t\<rparr>)"
  "keeps_values A (c\<lparr>lc_table := t\<rparr>) c' \<longleftrightarrow> keeps_values A c c'"
  "keeps_values A c' (c\<lparr>lc_table := t\<rparr>) \<longleftrightarrow> keeps_values A c' c"
proof -
  have "cached (c\<lparr>lc_table := t\<rparr>) = cached c" by (simp add: cached_def)
  moreover have "charge_of (c\<lparr>lc_table := t\<rparr>) = charge_of c" by (rule ext) (simp add: charge_of_def)
  moreover have "handle_ok ext (c\<lparr>lc_table := t\<rparr>) = handle_ok ext c" by (intro ext) (simp add: handle_ok_def cached_def)
  ultimately show "shard_rest ext c \<Longrightarrow> shard_rest ext (c\<lparr>lc_table := t\<rparr>)" by (simp add: shard_rest_def)
qed (simp_all add: cached_def keeps_values_def)

lemma erase_key_found:
  assumes c: "shard_ok ext c" and h: "h \<in> cached c" and m: "matches (lc_heap c) key hash h"
  shows "\<exists>c'. erase_key key hash c = Some (True, c') \<and> shard_ok ext c' \<and> cached c' = cached c - {h} \<and>
    lc_lru c' = remove1 h (lc_lru c) \<and> lc_capacity c' = lc_capacity c \<and>
    keeps_values (cached c - {h} \<union> set_mset ext) c c'"
proof -
  obtain t where t: "HandleTable_Remove (lc_heap c) key hash (lc_table c) = Some (Some h, t)"
    "ht_ok (lc_heap c) t (cached c - {h})"
    using Remove_found [OF _ h m] c unfolding shard_ok_def by blast
  have "shard_rest ext (c\<lparr>lc_table := t\<rparr>)" by (rule table_update(1)) (use c in \<open>simp add: shard_ok_def\<close>)
  from FinishErase_ok [OF this, of h] show ?thesis
    using t h c by (auto simp: erase_key_def table_update shard_ok_def)
qed

lemma erase_key_absent:
  assumes c: "shard_ok ext c" and m: "\<forall>h \<in> cached c. \<not> matches (lc_heap c) key hash h"
  shows "erase_key key hash c = Some (False, c)"
  using Remove_absent [OF _ m] c unfolding shard_ok_def by (simp add: erase_key_def FinishErase_def)

lemma matches_self: "lc_heap c h = Some x \<Longrightarrow> matches (lc_heap c) (lh_key x) (lh_hash x) h"
  by (simp add: matches_def)

lemma drop_oldest_ok:
  assumes c: "shard_ok ext c" and ne: "lc_lru c \<noteq> []"
  shows "\<exists>c'. drop_oldest c = Some c' \<and> shard_ok ext c' \<and> cached c' \<subseteq> cached c \<and> lc_lru c' = tl (lc_lru c) \<and>
    lc_capacity c' = lc_capacity c \<and> keeps_values (cached c' \<union> set_mset ext) c c'"
proof -
  have r: "shard_rest ext c" using c by (simp add: shard_ok_def)
  let ?h = "hd (lc_lru c)"
  have h: "?h \<in> cached c" "?h \<in> set (lc_lru c)" using ne by (simp_all add: cached_def)
  obtain x where x: "lc_heap c ?h = Some x" using shard_restD(5) [OF r h(1)] by blast
  have "lh_refs x = 1" using shard_restD(4) [OF r x] shard_restD(7) [OF r h(1)] h by (simp add: handle_ok_def refs_one)
  moreover obtain c' where c': "erase_key (lh_key x) (lh_hash x) c = Some (True, c')" "shard_ok ext c'"
    "cached c' = cached c - {?h}" "lc_lru c' = remove1 ?h (lc_lru c)" "lc_capacity c' = lc_capacity c"
    "keeps_values (cached c - {?h} \<union> set_mset ext) c c'"
    using erase_key_found [OF c h(1) matches_self [OF x]] by blast
  moreover have "remove1 ?h (lc_lru c) = tl (lc_lru c)" using ne by (cases "lc_lru c") auto
  ultimately show ?thesis using x by (simp add: drop_oldest_def)
qed

lemma evict_ok:
  "shard_ok ext c \<Longrightarrow> \<exists>c'. evict c = Some c' \<and> shard_ok ext c' \<and> cached c' \<subseteq> cached c \<and>
     (lc_usage c' \<le> lc_capacity c' \<or> lc_lru c' = []) \<and> lc_capacity c' = lc_capacity c \<and>
     keeps_values (cached c' \<union> set_mset ext) c c'"
proof (induction "length (lc_lru c)" arbitrary: c)
  case 0
  then show ?case by (subst evict.simps) simp
next
  case (Suc n)
  show ?case
  proof (cases "lc_usage c > lc_capacity c")
    case True
    have ne: "lc_lru c \<noteq> []" using Suc.hyps(2) by auto
    obtain c1 where c1: "drop_oldest c = Some c1" "shard_ok ext c1" "cached c1 \<subseteq> cached c" "lc_lru c1 = tl (lc_lru c)"
      "lc_capacity c1 = lc_capacity c" "keeps_values (cached c1 \<union> set_mset ext) c c1"
      using drop_oldest_ok [OF Suc.prems ne] by blast
    have "n = length (lc_lru c1)" using c1(4) Suc.hyps(2) by simp
    from Suc.hyps(1) [OF this c1(2)] obtain c2 where c2: "evict c1 = Some c2" "shard_ok ext c2" "cached c2 \<subseteq> cached c1"
      "lc_usage c2 \<le> lc_capacity c2 \<or> lc_lru c2 = []" "lc_capacity c2 = lc_capacity c1"
      "keeps_values (cached c2 \<union> set_mset ext) c1 c2" by blast
    have "keeps_values (cached c2 \<union> set_mset ext) c c2" using c1(6) c2(6) by (rule keeps_values_trans) (use c2(3) in blast)
    then show ?thesis using True ne c1 c2 by (subst evict.simps) auto
  next
    case False
    then show ?thesis using Suc.prems by (subst evict.simps) (simp add: not_less [symmetric])
  qed
qed

lemma Prune_ok:
  "shard_ok ext c \<Longrightarrow> \<exists>c'. LRU_Prune c = Some c' \<and> shard_ok ext c' \<and> cached c' \<subseteq> cached c \<and> lc_lru c' = [] \<and>
     lc_capacity c' = lc_capacity c \<and> keeps_values (cached c' \<union> set_mset ext) c c'"
proof (induction "length (lc_lru c)" arbitrary: c)
  case 0
  then show ?case by (subst LRU_Prune.simps) simp
next
  case (Suc n)
  have ne: "lc_lru c \<noteq> []" using Suc.hyps(2) by auto
  obtain c1 where c1: "drop_oldest c = Some c1" "shard_ok ext c1" "cached c1 \<subseteq> cached c" "lc_lru c1 = tl (lc_lru c)"
    "lc_capacity c1 = lc_capacity c" "keeps_values (cached c1 \<union> set_mset ext) c c1"
    using drop_oldest_ok [OF Suc.prems ne] by blast
  have "n = length (lc_lru c1)" using c1(4) Suc.hyps(2) by simp
  from Suc.hyps(1) [OF this c1(2)] obtain c2 where c2: "LRU_Prune c1 = Some c2" "shard_ok ext c2" "cached c2 \<subseteq> cached c1"
    "lc_lru c2 = []" "lc_capacity c2 = lc_capacity c1" "keeps_values (cached c2 \<union> set_mset ext) c1 c2" by blast
  have "keeps_values (cached c2 \<union> set_mset ext) c c2" using c1(6) c2(6) by (rule keeps_values_trans) (use c2(3) in blast)
  then show ?case using ne c1 c2 by (subst LRU_Prune.simps) auto
qed

section \<open>What a shard contains\<close>

definition shard_entry :: "'v LRUCache \<Rightarrow> slice \<rightharpoonup> 'v" where
  "shard_entry c key = (case HandleTable_Lookup (lc_heap c) key (HashSlice key) (lc_table c) of
     Some (Some h) \<Rightarrow> map_option lh_value (lc_heap c h) | _ \<Rightarrow> None)"

lemma matches_key:
  assumes "shard_rest ext c" and "lc_heap c h = Some x"
  shows "matches (lc_heap c) key (HashSlice key) h \<longleftrightarrow> lh_key x = key"
  using shard_restD(4) [OF assms] assms(2) by (auto simp: matches_def handle_ok_def)

lemma cached_cases:
  assumes "shard_ok ext c"
  obtains (found) h x where "h \<in> cached c" "lc_heap c h = Some x" "lh_key x = key" "matches (lc_heap c) key (HashSlice key) h"
      "shard_entry c key = Some (lh_value x)"
      "HandleTable_Lookup (lc_heap c) key (HashSlice key) (lc_table c) = Some (Some h)"
  | (absent) "\<forall>h \<in> cached c. \<not> matches (lc_heap c) key (HashSlice key) h" "shard_entry c key = None"
      "HandleTable_Lookup (lc_heap c) key (HashSlice key) (lc_table c) = Some None"
proof (cases "\<exists>h \<in> cached c. matches (lc_heap c) key (HashSlice key) h")
  case True
  then obtain h where h: "h \<in> cached c" "matches (lc_heap c) key (HashSlice key) h" by blast
  then obtain x where "lc_heap c h = Some x" "lh_key x = key" by (auto simp: matches_def split: option.splits)
  moreover have "HandleTable_Lookup (lc_heap c) key (HashSlice key) (lc_table c) = Some (Some h)"
    using Lookup_found [OF _ h] assms by (simp add: shard_ok_def)
  ultimately show ?thesis using found h by (simp add: shard_entry_def)
next
  case False
  then have "HandleTable_Lookup (lc_heap c) key (HashSlice key) (lc_table c) = Some None"
    using Lookup_absent assms unfolding shard_ok_def by blast
  then show ?thesis using absent False by (simp add: shard_entry_def)
qed

lemma shard_entry_iff:
  assumes "shard_ok ext c"
  shows "shard_entry c key = Some v \<longleftrightarrow> (\<exists>h \<in> cached c. \<exists>x. lc_heap c h = Some x \<and> lh_key x = key \<and> lh_value x = v)"
proof -
  have r: "shard_rest ext c" and kd: "keys_differ (lc_heap c) (cached c)" using assms by (simp_all add: shard_ok_def ht_ok_def)
  show ?thesis
  proof (cases rule: cached_cases [OF assms, of key])
    case (1 h x)
    have "g = h" if "g \<in> cached c" "lc_heap c g = Some y" "lh_key y = key" for g y
      using kd 1(1,4) that matches_key [OF r that(2)] unfolding keys_differ_def by blast
    then show ?thesis using 1 by (metis option.inject)
  next
    case 2
    then show ?thesis using matches_key [OF r] by auto
  qed
qed

lemma entry_shrinks:
  assumes "shard_ok ext c" and "shard_ok ext' c'" and "cached c' \<subseteq> cached c" and kv: "keeps_values (cached c') c c'"
  shows "shard_entry c' \<subseteq>\<^sub>m shard_entry c"
proof (unfold map_le_def, intro ballI)
  fix key assume "key \<in> dom (shard_entry c')"
  then obtain v where v: "shard_entry c' key = Some v" by auto
  then obtain h x where h: "h \<in> cached c'" "lc_heap c' h = Some x" "lh_key x = key" "lh_value x = v"
    using shard_entry_iff [OF assms(2)] by blast
  then obtain z where "lc_heap c h = Some z" "fixed z = fixed x" using keeps_fixed [OF kv] by blast
  then have "shard_entry c key = Some v"
    using h assms(3) shard_entry_iff [OF assms(1)] by (auto simp: fixed_def)
  then show "shard_entry c' key = shard_entry c key" using v by simp
qed

lemma entry_same:
  assumes "shard_ok ext c" and "shard_ok ext' c'" and "cached c' = cached c" and kv: "keeps_values (cached c) c c'"
  shows "shard_entry c' = shard_entry c"
  using entry_shrinks [OF assms(1,2)] entry_shrinks [OF assms(2,1)] assms(3) kv keeps_values_sym [OF kv]
  by (simp add: map_le_antisym)

text \<open>The value of a handle that is held.\<close>

definition shard_value :: "'v LRUCache \<Rightarrow> nat \<Rightarrow> 'v option" where
  "shard_value c h = map_option lh_value (lc_heap c h)"

lemma keeps_value: "keeps_values A c c' \<Longrightarrow> h \<in> A \<Longrightarrow> shard_value c' h = shard_value c h"
proof -
  assume "keeps_values A c c'" "h \<in> A"
  then have "map_option fixed (lc_heap c' h) = map_option fixed (lc_heap c h)" by (simp add: keeps_values_def)
  then have "map_option (fst \<circ> snd \<circ> snd) (map_option fixed (lc_heap c' h)) = map_option (fst \<circ> snd \<circ> snd) (map_option fixed (lc_heap c h))"
    by simp
  then show ?thesis by (simp add: shard_value_def fixed_def option.map_comp comp_def)
qed

lemma LRU_Lookup_ok:
  assumes c: "shard_ok ext c" and few: "size ext < max_handles"
  shows "case shard_entry c key of
      None \<Rightarrow> LRU_Lookup key (HashSlice key) c = Some (None, c)
    | Some v \<Rightarrow> \<exists>h c'. LRU_Lookup key (HashSlice key) c = Some (Some h, c') \<and> shard_ok (add_mset h ext) c' \<and>
        shard_entry c' = shard_entry c \<and> shard_value c' h = Some v \<and> keeps_values UNIV c c' \<and>
        (\<exists>x. lc_heap c' h = Some x \<and> lh_hash x = HashSlice key)"
proof (cases rule: cached_cases [OF c, of key])
  case (1 h x)
  have r: "shard_rest ext c" using c by (simp add: shard_ok_def)
  obtain c' where c': "Ref h c = Some c'" "shard_rest (add_mset h ext) c'" "cached c' = cached c" "lc_table c' = lc_table c"
    "lc_capacity c' = lc_capacity c" "keeps_values UNIV c c'"
    using Ref_ok [OF r 1(1) few] by blast
  have "ht_ok (lc_heap c') (lc_table c') (cached c')"
    using c c'(3,4) keeps_ht_ok keeps_values_mono [OF c'(6)] by (metis shard_ok_def subset_UNIV)
  then have ok: "shard_ok (add_mset h ext) c'" using c c' by (simp add: shard_ok_def)
  have e: "shard_entry c' = shard_entry c" by (rule entry_same [OF c ok c'(3) keeps_values_mono [OF c'(6)]]) simp
  have v: "shard_value c' h = Some (lh_value x)" using keeps_value [OF c'(6), of h] 1(2) by (simp add: shard_value_def)
  obtain y where y: "lc_heap c' h = Some y" using v by (auto simp: shard_value_def)
  have "fixed y = fixed x" using keeps_fixed [OF c'(6) _ y] 1(2) by simp
  then have "lh_hash y = HashSlice key" using 1(3) shard_restD(4) [OF r 1(2)] by (simp add: fixed_def handle_ok_def)
  then show ?thesis using 1(5,6) c'(1,6) ok e v y by (simp add: LRU_Lookup_def)
next
  case 2
  then show ?thesis by (simp add: LRU_Lookup_def)
qed

lemma LRU_Release_ok:
  assumes c: "shard_ok (add_mset h ext) c"
  shows "\<exists>c'. LRU_Release h c = Some c' \<and> shard_ok ext c' \<and> shard_entry c' = shard_entry c \<and> keeps_values (set_mset ext) c c'"
proof -
  obtain c' where c': "Unref h c = Some c'" "shard_rest ext c'" "cached c' = cached c" "lc_table c' = lc_table c"
    "lc_capacity c' = lc_capacity c" "keeps_values (cached c \<union> set_mset ext) c c'"
    using Unref_ok c unfolding shard_ok_def by blast
  have kc: "keeps_values (cached c) c c'" by (rule keeps_values_mono [OF c'(6)]) blast
  have "ht_ok (lc_heap c') (lc_table c') (cached c')"
    using c c'(3,4) keeps_ht_ok kc by (metis shard_ok_def)
  then have ok: "shard_ok ext c'" using c c' by (simp add: shard_ok_def)
  then show ?thesis
    using c'(1) entry_same [OF c ok c'(3) kc] keeps_values_mono [OF c'(6)] by (auto simp: LRU_Release_def)
qed

lemma LRU_Erase_ok:
  assumes c: "shard_ok ext c"
  shows "\<exists>c'. LRU_Erase key (HashSlice key) c = Some c' \<and> shard_ok ext c' \<and> shard_entry c' = (shard_entry c)(key := None) \<and>
    keeps_values (set_mset ext) c c'"
proof (cases rule: cached_cases [OF c, of key])
  case (1 h x)
  obtain c' where c': "erase_key key (HashSlice key) c = Some (True, c')" "shard_ok ext c'" "cached c' = cached c - {h}"
    "keeps_values (cached c - {h} \<union> set_mset ext) c c'"
    using erase_key_found [OF c 1(1,4)] by blast
  have kc: "keeps_values (cached c - {h}) c c'" "keeps_values (set_mset ext) c c'" by (rule keeps_values_mono [OF c'(4)]; blast)+
  have r: "shard_rest ext c" and kd: "keys_differ (lc_heap c) (cached c)" using c by (simp_all add: shard_ok_def ht_ok_def)
  have hx: "g = h" if "g \<in> cached c" "lc_heap c g = Some y" "lh_key y = key" for g y
    using kd 1(1,4) that matches_key [OF r that(2)] unfolding keys_differ_def by blast
  have fx: "lc_heap c' g = Some y \<Longrightarrow> \<exists>z. lc_heap c g = Some z \<and> fixed z = fixed y" "lc_heap c g = Some y \<Longrightarrow> \<exists>z. lc_heap c' g = Some z \<and> fixed z = fixed y"
    if "g \<in> cached c - {h}" for g y
    using keeps_fixed [OF kc(1) that] keeps_fixed [OF keeps_values_sym [OF kc(1)] that] by blast+
  have "shard_entry c' k = Some v \<longleftrightarrow> ((shard_entry c)(key := None)) k = Some v" for k v
  proof (cases "k = key")
    case True
    have "\<not> (\<exists>g \<in> cached c - {h}. \<exists>y. lc_heap c' g = Some y \<and> lh_key y = key)"
      using fx(1) hx by (fastforce simp: fixed_def)
    then show ?thesis using True shard_entry_iff [OF c'(2)] c'(3) by auto
  next
    case False
    have "(\<exists>g \<in> cached c - {h}. \<exists>y. lc_heap c' g = Some y \<and> lh_key y = k \<and> lh_value y = v) \<longleftrightarrow>
        (\<exists>g \<in> cached c. \<exists>y. lc_heap c g = Some y \<and> lh_key y = k \<and> lh_value y = v)"
    proof (intro iffI; elim bexE exE conjE)
      fix g y assume "g \<in> cached c - {h}" "lc_heap c' g = Some y" "lh_key y = k" "lh_value y = v"
      then show "\<exists>g \<in> cached c. \<exists>y. lc_heap c g = Some y \<and> lh_key y = k \<and> lh_value y = v"
        using fx(1) [of g y] by (auto simp: fixed_def)
    next
      fix g y assume g: "g \<in> cached c" "lc_heap c g = Some y" "lh_key y = k" "lh_value y = v"
      then have "g \<in> cached c - {h}" using 1(2,3) False by auto
      then show "\<exists>g \<in> cached c - {h}. \<exists>y. lc_heap c' g = Some y \<and> lh_key y = k \<and> lh_value y = v"
        using fx(2) [of g y] g by (auto simp: fixed_def)
    qed
    then show ?thesis using False shard_entry_iff [OF c'(2)] shard_entry_iff [OF c] c'(3) by simp
  qed
  then have "shard_entry c' k = ((shard_entry c)(key := None)) k" for k
    by (metis not_Some_eq)
  then have "shard_entry c' = (shard_entry c)(key := None)" by blast
  then show ?thesis using c' kc by (simp add: LRU_Erase_def)
next
  case 2
  have "(shard_entry c)(key := None) = shard_entry c" using 2(2) by (simp add: fun_upd_idem)
  then show ?thesis using erase_key_absent [OF c 2(1)] c by (simp add: LRU_Erase_def)
qed

text \<open>Inserting: first the new entry is linked in and the one it replaces dropped, then the oldest are evicted.\<close>

lemma insert_handle_ok:
  assumes c: "shard_ok ext c"
  shows "\<exists>e c' x. insert_handle key (HashSlice key) v charge c = Some (e, c') \<and> shard_ok (add_mset e ext) c' \<and>
    lc_heap c' e = Some x \<and> lh_key x = key \<and> lh_value x = v \<and> lh_hash x = HashSlice key \<and>
    cached c' \<subseteq> insert e (cached c) \<and> (lc_capacity c > 0 \<longrightarrow> e \<in> cached c') \<and> lc_capacity c' = lc_capacity c \<and>
    keeps_values (cached c' - {e} \<union> set_mset ext) c c'"
proof -
  have r: "shard_rest ext c" and ht: "ht_ok (lc_heap c) (lc_table c) (cached c)" using c by (simp_all add: shard_ok_def)
  note d = shard_restD [OF r]
  let ?e = "lc_next c"
  define x where "x = \<lparr>lh_value = v, lh_charge = charge, lh_key = key, lh_in_cache = False, lh_refs = 1, lh_hash = HashSlice key\<rparr>"
  define c1 where "c1 = c\<lparr>lc_next := ?e + 1\<rparr>"
  have fresh: "lc_heap c ?e = None" using d(4) [of ?e] by (cases "lc_heap c ?e") (auto simp: handle_ok_def)
  then have new: "?e \<notin> cached c" "?e \<notin># ext" "g \<in> cached c \<Longrightarrow> g \<noteq> ?e" for g using d(5,6) by force+
  have kv: "keeps_values (- {?e}) c c2" if "lc_heap c2 = (lc_heap c)(?e \<mapsto> y)" for c2 y
    using that by (simp add: keeps_values_def)
  have card: "card (dom ((lc_heap c)(?e \<mapsto> y))) = Suc (card (dom (lc_heap c)))" for y
    using fresh d(10) by (simp add: domIff)
  show ?thesis
  proof (cases "lc_capacity c > 0")
    case False
    then have e: "cached c = {}" using c by (simp add: shard_ok_def word_gt_0)
    let ?c = "set_handle ?e x c1"
    have l: "lc_lru c = []" "lc_in_use c = []" using e by (simp_all add: cached_def)
    have ca: "cached ?c = {}" using l by (simp add: c1_def cached_def)
    have "handle_ok (add_mset ?e ext) ?c g y" if "lc_heap ?c g = Some y" for g y
    proof (cases "g = ?e")
      case True
      then show ?thesis using that new(2) unfolding handle_ok_def ca by (auto simp: c1_def x_def not_in_iff)
    next
      case False
      then have "handle_ok ext c g y" using that d(4) by (simp add: c1_def)
      then show ?thesis using False unfolding handle_ok_def ca e by (simp add: c1_def del: count_greater_zero_iff)
    qed
    moreover have "lc_heap ?c g \<noteq> None" if "g \<in># add_mset ?e ext" for g using that d(6) by (auto simp: c1_def)
    ultimately have "shard_rest (add_mset ?e ext) ?c"
      using d(8,9) card e unfolding shard_rest_def ca by (simp add: c1_def l)
    moreover have "ht_ok (lc_heap ?c) (lc_table c) {}" by (rule ht_ok_cong [OF ht [unfolded e]]) simp
    ultimately have "shard_ok (add_mset ?e ext) ?c" using ca by (simp add: shard_ok_def c1_def)
    moreover have "insert_handle key (HashSlice key) v charge c = Some (?e, ?c)"
      using False by (simp add: insert_handle_def Let_def c1_def x_def)
    moreover have "keeps_values (cached ?c - {?e} \<union> set_mset ext) c ?c"
      by (rule keeps_values_mono [OF kv [of _ x]]) (use new(2) ca in \<open>auto simp: c1_def\<close>)
    ultimately show ?thesis using False ca
      by (intro exI [of _ ?e] exI [of _ ?c] exI [of _ x]) (simp add: c1_def x_def)
  next
    case True
    let ?x = "x\<lparr>lh_refs := 2, lh_in_cache := True\<rparr>"
    define c3 where "c3 = (set_handle ?e ?x c1)\<lparr>lc_in_use := lc_in_use c @ [?e], lc_usage := lc_usage c + charge\<rparr>"
    have h3: "lc_heap c3 = (lc_heap c)(?e \<mapsto> ?x)" "lc_lru c3 = lc_lru c" "lc_in_use c3 = lc_in_use c @ [?e]"
      "lc_table c3 = lc_table c" "lc_capacity c3 = lc_capacity c" "lc_next c3 = ?e + 1" "lc_called c3 = lc_called c"
      "lc_usage c3 = lc_usage c + charge"
      by (simp_all add: c3_def c1_def)
    have ca: "cached c3 = insert ?e (cached c)" by (auto simp: cached_def h3)
    have kc: "keeps_values (cached c) c c3" by (rule keeps_values_mono [OF kv [OF h3(1)]]) (use new in auto)
    have "handle_ok (add_mset ?e ext) c3 g y" if "lc_heap c3 g = Some y" for g y
    proof (cases "g = ?e")
      case True
      then show ?thesis using that new(2) unfolding handle_ok_def ca by (auto simp: h3 x_def not_in_iff)
    next
      case False
      then have "handle_ok ext c g y" using that d(4) by (simp add: h3)
      then show ?thesis using False unfolding handle_ok_def ca by (cases "g \<in> cached c") (simp_all add: h3 del: count_greater_zero_iff)
    qed
    moreover have "lc_heap c3 g \<noteq> None" if "g \<in> cached c3 \<union> set_mset (add_mset ?e ext)" for g
      using that d(5,6) by (auto simp: h3 ca)
    moreover have "distinct (lc_lru c3 @ lc_in_use c3)" using d(1-3) new(1) by (auto simp: h3 cached_def)
    moreover have "g \<in> set (lc_lru c3) \<longleftrightarrow> count (add_mset ?e ext) g = 0" if "g \<in> cached c3" for g
      using that d(7) [of g] new(1) by (auto simp: h3 ca cached_def)
    moreover have "lc_usage c3 = sum (charge_of c3) (cached c3)"
    proof -
      have "sum (charge_of c3) (cached c) = sum (charge_of c) (cached c)"
        by (intro sum.cong refl charge_of_fixed [OF kc])
      then show ?thesis using d(8,11) new(1) by (simp add: ca h3(8)) (simp add: charge_of_def h3(1) x_def)
    qed
    ultimately have r3: "shard_rest (add_mset ?e ext) c3" using d(9) card unfolding shard_rest_def by (simp add: h3)
    have t3: "ht_ok (lc_heap c3) (lc_table c3) (cached c)" using keeps_ht_ok [OF ht kc] by (simp add: h3)
    have pe: "lc_heap c3 ?e = Some ?x" by (simp add: h3)
    have k3: "keeps_values (cached c \<union> set_mset ext) c c3" by (rule keeps_values_mono [OF kv [OF h3(1)]]) (use new in auto)
    obtain old t where old: "HandleTable_Insert (lc_heap c3) ?e (lc_table c3) = Some (old, t)"
      "case old of None \<Rightarrow> ht_ok (lc_heap c3) t (cached c3)
       | Some g \<Rightarrow> g \<in> cached c \<and> ht_ok (lc_heap c3) t (cached c3 - {g})"
    proof (cases "\<exists>g \<in> cached c. matches (lc_heap c3) (lh_key ?x) (lh_hash ?x) g")
      case True
      then obtain g where g: "g \<in> cached c" "matches (lc_heap c3) (lh_key ?x) (lh_hash ?x) g" by blast
      have "insert ?e (cached c - {g}) = cached c3 - {g}" using new(3) [OF g(1)] by (auto simp: ca)
      then show ?thesis using Insert_old [OF t3 pe new(1) g] g(1) that [of "Some g"] by auto
    next
      case False
      then show ?thesis using Insert_fresh [OF t3 pe new(1)] that [of None] by (auto simp: ca)
    qed
    let ?c = "c3\<lparr>lc_table := t\<rparr>"
    have rt: "shard_rest (add_mset ?e ext) ?c" by (rule table_update(1) [OF r3])
    have ih: "insert_handle key (HashSlice key) v charge c = do { (erased, c4) \<leftarrow> FinishErase old ?c; Some (?e, c4) }"
      using True old(1) unfolding insert_handle_def Let_def c3_def c1_def x_def by (simp add: numeral_2_eq_2)
    show ?thesis
    proof (cases old)
      case None
      have "shard_ok (add_mset ?e ext) ?c" using rt old(2) None True by (simp add: shard_ok_def table_update h3 word_gt_0)
      moreover have "keeps_values (cached ?c - {?e} \<union> set_mset ext) c ?c"
        unfolding table_update by (rule keeps_values_mono [OF k3]) (use ca in auto)
      ultimately show ?thesis using ih None ca
        by (intro exI [of _ ?e] exI [of _ ?c] exI [of _ ?x]) (simp add: FinishErase_def table_update h3 x_def)
    next
      case (Some g)
      then have g: "g \<in> cached c" "ht_ok (lc_heap c3) t (cached c3 - {g})" using old(2) by simp_all
      have cap: "lc_capacity ?c = 0 \<longrightarrow> cached ?c = {}" using True by (simp add: h3 word_gt_0)
      obtain c4 where c4: "FinishErase (Some g) ?c = Some (True, c4)" "shard_ok (add_mset ?e ext) c4" "cached c4 = cached ?c - {g}"
        "lc_capacity c4 = lc_capacity ?c" "keeps_values (cached ?c - {g} \<union> set_mset (add_mset ?e ext)) ?c c4"
        using FinishErase_ok [OF rt _ _ cap, of g] g by (auto simp: table_update ca)
      have k4: "keeps_values (cached c3 - {g} \<union> set_mset (add_mset ?e ext)) c3 c4" using c4(5) by (simp add: table_update)
      have "keeps_values (cached c4 - {?e} \<union> set_mset ext) c3 c4"
        by (rule keeps_values_mono [OF k4]) (use c4(3) in \<open>auto simp: table_update\<close>)
      with k3 have "keeps_values (cached c4 - {?e} \<union> set_mset ext) c c4"
        by (rule keeps_values_trans) (use c4(3) ca in \<open>auto simp: table_update\<close>)
      moreover have "\<exists>y. lc_heap c4 ?e = Some y \<and> fixed y = fixed ?x"
        by (rule keeps_fixed [OF keeps_values_sym [OF k4] _ pe]) simp
      ultimately show ?thesis using ih Some c4(1-4) ca new(3) [OF g(1)]
        by (auto simp: table_update h3 x_def fixed_def)
    qed
  qed
qed

lemma LRU_Insert_ok:
  assumes c: "shard_ok ext c"
  shows "\<exists>e c'. LRU_Insert key (HashSlice key) v charge c = Some (e, c') \<and> shard_ok (add_mset e ext) c' \<and>
    shard_value c' e = Some v \<and> keeps_values (set_mset ext) c c' \<and> shard_entry c' \<subseteq>\<^sub>m (shard_entry c)(key \<mapsto> v) \<and>
    (lc_usage c' \<le> lc_capacity c' \<or> lc_lru c' = [])"
proof -
  obtain e c1 x where c1: "insert_handle key (HashSlice key) v charge c = Some (e, c1)" "shard_ok (add_mset e ext) c1"
    "lc_heap c1 e = Some x" "lh_key x = key" "lh_value x = v" "lh_hash x = HashSlice key" "cached c1 \<subseteq> insert e (cached c)"
    "lc_capacity c > 0 \<longrightarrow> e \<in> cached c1" "lc_capacity c1 = lc_capacity c"
    "keeps_values (cached c1 - {e} \<union> set_mset ext) c c1"
    using insert_handle_ok [OF c, of key v charge] by (elim exE conjE)
  obtain c2 where c2: "evict c1 = Some c2" "shard_ok (add_mset e ext) c2" "cached c2 \<subseteq> cached c1"
    "lc_usage c2 \<le> lc_capacity c2 \<or> lc_lru c2 = []" "keeps_values (cached c2 \<union> set_mset (add_mset e ext)) c1 c2"
    using evict_ok [OF c1(2)] by blast
  have v: "shard_value c2 e = Some v"
    using keeps_value [OF c2(5), of e] c1(3,5) by (simp add: shard_value_def)
  have "keeps_values (set_mset ext) c1 c2" by (rule keeps_values_mono [OF c2(5)]) auto
  with c1(10) have ke: "keeps_values (set_mset ext) c c2" by (rule keeps_values_trans) blast
  have "shard_entry c1 \<subseteq>\<^sub>m (shard_entry c)(key \<mapsto> v)"
  proof (unfold map_le_def, intro ballI)
    fix k assume "k \<in> dom (shard_entry c1)"
    then obtain w where w: "shard_entry c1 k = Some w" by auto
    then obtain h y where h: "h \<in> cached c1" "lc_heap c1 h = Some y" "lh_key y = k" "lh_value y = w"
      using shard_entry_iff [OF c1(2)] by blast
    show "shard_entry c1 k = ((shard_entry c)(key \<mapsto> v)) k"
    proof (cases "h = e")
      case True
      then show ?thesis using h c1(3-5) w by simp
    next
      case False
      then have hc: "h \<in> cached c" using h(1) c1(7) by blast
      then have "lc_capacity c > 0" using c by (auto simp: shard_ok_def word_gt_0)
      then have "e \<in> cached c1" using c1(8) by blast
      then have "k \<noteq> key"
        using h False c1(2-4) matches_key [of "add_mset e ext" c1] unfolding shard_ok_def ht_ok_def keys_differ_def by metis
      moreover obtain z where "lc_heap c h = Some z" "fixed z = fixed y" using keeps_fixed [OF c1(10) _ h(2)] h(1) False by blast
      then have "shard_entry c k = Some w" using shard_entry_iff [OF c] hc h(3,4) by (auto simp: fixed_def)
      ultimately show ?thesis using w by simp
    qed
  qed
  moreover have "shard_entry c2 \<subseteq>\<^sub>m shard_entry c1"
    by (rule entry_shrinks [OF c1(2) c2(2,3)]) (rule keeps_values_mono [OF c2(5)], blast)
  ultimately show ?thesis using c1(1) c2(1,2,4) v ke map_le_trans by (auto simp: LRU_Insert_def)
qed

section \<open>The sharded cache keeps the contract\<close>

lemma new_shard_ok: "shard_ok {#} (SetCapacity n new_LRUCache)"
  using new_HandleTable_ok
  by (simp add: shard_ok_def shard_rest_def new_LRUCache_def SetCapacity_def cached_def)

lemma Shard_less: "Shard hash < 16"
proof -
  have "unat hash < 2 ^ 32" by (rule unat_u32_less)
  then show ?thesis by (simp add: Shard_def kNumShardBits_def drop_bit_eq_div unat_div)
qed

text \<open>The handles held of a shard.\<close>

definition held :: "Handle multiset \<Rightarrow> nat \<Rightarrow> nat multiset" where
  "held M i = image_mset snd (filter_mset (\<lambda>h. Shard (fst h) = i) M)"

definition sharded_ok :: "Handle multiset \<Rightarrow> 'v ShardedLRUCache \<Rightarrow> bool" where
  "sharded_ok M s \<longleftrightarrow> length (sc_shard s) = 16 \<and> (\<forall>i < 16. shard_ok (held M i) (sc_shard s ! i))"

definition sharded_entry :: "'v ShardedLRUCache \<Rightarrow> slice \<rightharpoonup> 'v" where
  "sharded_entry s key = shard_entry (sc_shard s ! Shard (HashSlice key)) key"

lemma held_add [simp]:
  "held (add_mset h M) i = (if Shard (fst h) = i then add_mset (snd h) (held M i) else held M i)"
  by (simp add: held_def)

lemma held_member: "g \<in># M \<Longrightarrow> snd g \<in># held M (Shard (fst g))"
  by (force simp: held_def)

lemma held_size: "size (held M i) \<le> size M"
  using size_mset_mono [OF multiset_filter_subset] by (simp add: held_def)

lemma Sharded_Value_eq: "Sharded_Value h s = shard_value (sc_shard s ! Shard (fst h)) (snd h)"
  by (simp add: Sharded_Value_def shard_value_def)

lemma on_one_shard:
  assumes s: "sharded_ok M s" and c: "shard_ok (held M' i) c" "keeps_values (set_mset (held M' i) \<inter> set_mset (held M i)) (sc_shard s ! i) c"
    and i: "i < 16" and others: "\<And>j. j \<noteq> i \<Longrightarrow> held M' j = held M j"
  shows "sharded_ok M' (s\<lparr>sc_shard := (sc_shard s)[i := c]\<rparr>)"
    and "\<And>g. g \<in># M \<Longrightarrow> g \<in># M' \<Longrightarrow> Sharded_Value g (s\<lparr>sc_shard := (sc_shard s)[i := c]\<rparr>) = Sharded_Value g s"
    and "\<And>k. sharded_entry (s\<lparr>sc_shard := (sc_shard s)[i := c]\<rparr>) k =
      (if Shard (HashSlice k) = i then shard_entry c k else sharded_entry s k)"
proof -
  have l: "length (sc_shard s) = 16" using s by (simp add: sharded_ok_def)
  show "sharded_ok M' (s\<lparr>sc_shard := (sc_shard s)[i := c]\<rparr>)"
    unfolding sharded_ok_def
  proof (intro conjI allI impI)
    fix j assume j: "j < (16 :: nat)"
    show "shard_ok (held M' j) (sc_shard (s\<lparr>sc_shard := (sc_shard s)[i := c]\<rparr>) ! j)"
      using s c(1) l j others [of j] by (cases "j = i") (simp_all add: sharded_ok_def)
  qed (simp add: l)
  fix g assume "g \<in># M" "g \<in># M'"
  then show "Sharded_Value g (s\<lparr>sc_shard := (sc_shard s)[i := c]\<rparr>) = Sharded_Value g s"
    using keeps_value [OF c(2), of "snd g"] held_member [of g M] held_member [of g M'] l i
    by (cases "Shard (fst g) = i") (auto simp: Sharded_Value_eq)
next
  fix k
  show "sharded_entry (s\<lparr>sc_shard := (sc_shard s)[i := c]\<rparr>) k =
      (if Shard (HashSlice k) = i then shard_entry c k else sharded_entry s k)"
    using s i by (auto simp: sharded_entry_def sharded_ok_def)
qed

lemma sharded_shard: "sharded_ok M s \<Longrightarrow> shard_ok (held M (Shard h)) (sc_shard s ! Shard h)"
  using Shard_less by (simp add: sharded_ok_def)

lemma Sharded_Lookup_ok:
  assumes s: "sharded_ok M s" and few: "size M < max_handles"
  shows "case sharded_entry s k of
      None \<Rightarrow> Sharded_Lookup k s = Some (None, s)
    | Some v \<Rightarrow> \<exists>h s'. Sharded_Lookup k s = Some (Some h, s') \<and> sharded_ok (add_mset h M) s' \<and>
        sharded_entry s' = sharded_entry s \<and> Sharded_Value h s' = Some v \<and>
        (\<forall>g \<in># M. Sharded_Value g s' = Sharded_Value g s)"
proof -
  let ?i = "Shard (HashSlice k)" and ?hash = "HashSlice k"
  let ?c = "sc_shard s ! ?i"
  have c: "shard_ok (held M ?i) ?c" by (rule sharded_shard [OF s])
  note lk = LRU_Lookup_ok [OF c le_less_trans [OF held_size few], of k]
  have il: "?i < length (sc_shard s)" using s Shard_less by (simp add: sharded_ok_def)
  show ?thesis
  proof (cases "shard_entry ?c k")
    case None
    then have "LRU_Lookup k ?hash ?c = Some (None, ?c)" using lk by simp
    then show ?thesis using None by (simp add: Sharded_Lookup_def sharded_entry_def Let_def)
  next
    case (Some v)
    then obtain h c' where h: "LRU_Lookup k ?hash ?c = Some (Some h, c')" "shard_ok (add_mset h (held M ?i)) c'"
      "shard_entry c' = shard_entry ?c" "shard_value c' h = Some v" "keeps_values UNIV ?c c'"
      using lk by auto
    let ?s = "s\<lparr>sc_shard := (sc_shard s)[?i := c']\<rparr>" and ?M = "add_mset (?hash, h) M"
    have "shard_ok (held ?M ?i) c'" using h(2) by simp
    note o = on_one_shard [OF s this keeps_values_mono [OF h(5)] Shard_less]
    have "sharded_entry ?s = sharded_entry s" using o(3) h(3) by (auto simp: fun_eq_iff sharded_entry_def)
    moreover have "Sharded_Value (?hash, h) ?s = Some v" using h(4) il by (simp add: Sharded_Value_eq)
    moreover have "sharded_ok ?M ?s" by (rule o(1)) simp_all
    moreover have "\<forall>g \<in># M. Sharded_Value g ?s = Sharded_Value g s" using o(2) by simp
    ultimately show ?thesis using h(1) Some by (simp add: Sharded_Lookup_def sharded_entry_def Let_def)
  qed
qed

lemma Sharded_Insert_ok:
  assumes s: "sharded_ok M s"
  shows "\<exists>h s'. Sharded_Insert k v charge s = Some (h, s') \<and> sharded_ok (add_mset h M) s' \<and>
    sharded_entry s' \<subseteq>\<^sub>m (sharded_entry s)(k \<mapsto> v) \<and> Sharded_Value h s' = Some v \<and>
    (\<forall>g \<in># M. Sharded_Value g s' = Sharded_Value g s)"
proof -
  let ?i = "Shard (HashSlice k)" and ?hash = "HashSlice k"
  let ?c = "sc_shard s ! ?i"
  have c: "shard_ok (held M ?i) ?c" by (rule sharded_shard [OF s])
  have il: "?i < length (sc_shard s)" using s Shard_less by (simp add: sharded_ok_def)
  obtain e c' where e: "LRU_Insert k ?hash v charge ?c = Some (e, c')" "shard_ok (add_mset e (held M ?i)) c'"
    "shard_value c' e = Some v" "keeps_values (set_mset (held M ?i)) ?c c'" "shard_entry c' \<subseteq>\<^sub>m (shard_entry ?c)(k \<mapsto> v)"
    using LRU_Insert_ok [OF c] by blast
  let ?s = "s\<lparr>sc_shard := (sc_shard s)[?i := c']\<rparr>" and ?M = "add_mset (?hash, e) M"
  have "shard_ok (held ?M ?i) c'" using e(2) by simp
  note o = on_one_shard [OF s this keeps_values_mono [OF e(4)] Shard_less]
  have "sharded_entry ?s \<subseteq>\<^sub>m (sharded_entry s)(k \<mapsto> v)"
  proof (unfold map_le_def, intro ballI)
    fix a assume a: "a \<in> dom (sharded_entry ?s)"
    show "sharded_entry ?s a = ((sharded_entry s)(k \<mapsto> v)) a"
    proof (cases "Shard (HashSlice a) = ?i")
      case True
      then have "a \<in> dom (shard_entry c')" using a o(3) by (simp add: domIff)
      then have "shard_entry c' a = ((shard_entry ?c)(k \<mapsto> v)) a" using e(5) unfolding map_le_def by blast
      then show ?thesis using o(3) [of a] True by (simp add: sharded_entry_def)
    next
      case False
      then show ?thesis using o(3) [of a] by auto
    qed
  qed
  moreover have "Sharded_Value (?hash, e) ?s = Some v" using e(3) il by (simp add: Sharded_Value_eq)
  moreover have "sharded_ok ?M ?s" by (rule o(1)) simp_all
  moreover have "\<forall>g \<in># M. Sharded_Value g ?s = Sharded_Value g s" using o(2) by simp
  ultimately show ?thesis using e(1) by (simp add: Sharded_Insert_def Let_def)
qed

lemma Sharded_Release_ok:
  assumes s: "sharded_ok (add_mset h M) s"
  shows "\<exists>s'. Sharded_Release h s = Some s' \<and> sharded_ok M s' \<and> sharded_entry s' = sharded_entry s \<and>
    (\<forall>g \<in># M. Sharded_Value g s' = Sharded_Value g s)"
proof -
  let ?i = "Shard (fst h)"
  let ?c = "sc_shard s ! ?i"
  have "shard_ok (add_mset (snd h) (held M ?i)) ?c" using sharded_shard [OF s, of "fst h"] by simp
  then obtain c' where c': "LRU_Release (snd h) ?c = Some c'" "shard_ok (held M ?i) c'" "shard_entry c' = shard_entry ?c"
    "keeps_values (set_mset (held M ?i)) ?c c'"
    using LRU_Release_ok by blast
  let ?s = "s\<lparr>sc_shard := (sc_shard s)[?i := c']\<rparr>"
  note o = on_one_shard [OF s c'(2) keeps_values_mono [OF c'(4)] Shard_less]
  have "sharded_entry ?s = sharded_entry s" using o(3) c'(3) by (auto simp: fun_eq_iff sharded_entry_def)
  moreover have "sharded_ok M ?s" by (rule o(1)) simp_all
  moreover have "\<forall>g \<in># M. Sharded_Value g ?s = Sharded_Value g s" using o(2) by simp
  ultimately show ?thesis using c'(1) by (simp add: Sharded_Release_def on_shard_def)
qed

lemma Sharded_Erase_ok:
  assumes s: "sharded_ok M s"
  shows "\<exists>s'. Sharded_Erase k s = Some s' \<and> sharded_ok M s' \<and> sharded_entry s' = (sharded_entry s)(k := None) \<and>
    (\<forall>g \<in># M. Sharded_Value g s' = Sharded_Value g s)"
proof -
  let ?i = "Shard (HashSlice k)"
  let ?c = "sc_shard s ! ?i"
  obtain c' where c': "LRU_Erase k (HashSlice k) ?c = Some c'" "shard_ok (held M ?i) c'" "shard_entry c' = (shard_entry ?c)(k := None)"
    "keeps_values (set_mset (held M ?i)) ?c c'"
    using LRU_Erase_ok [OF sharded_shard [OF s]] by blast
  let ?s = "s\<lparr>sc_shard := (sc_shard s)[?i := c']\<rparr>"
  note o = on_one_shard [OF s c'(2) keeps_values_mono [OF c'(4)] Shard_less]
  have "sharded_entry ?s = (sharded_entry s)(k := None)" using o(3) c'(3) by (auto simp: fun_eq_iff sharded_entry_def)
  moreover have "sharded_ok M ?s" by (rule o(1)) simp_all
  moreover have "\<forall>g \<in># M. Sharded_Value g ?s = Sharded_Value g s" using o(2) by simp
  ultimately show ?thesis using c'(1) by (simp add: Sharded_Erase_def on_shard_def)
qed

lemma prune_all_ok:
  "(\<And>i. i < length cs \<Longrightarrow> shard_ok (ext i) (cs ! i)) \<Longrightarrow> \<exists>cs'. prune_all cs = Some cs' \<and> length cs' = length cs \<and>
     (\<forall>i < length cs. shard_ok (ext i) (cs' ! i) \<and> shard_entry (cs' ! i) \<subseteq>\<^sub>m shard_entry (cs ! i) \<and>
        keeps_values (set_mset (ext i)) (cs ! i) (cs' ! i))"
proof (induction cs arbitrary: ext)
  case (Cons c cs)
  have c: "shard_ok (ext 0) c" using Cons.prems [of 0] by simp
  obtain c' where c': "LRU_Prune c = Some c'" "shard_ok (ext 0) c'" "cached c' \<subseteq> cached c"
    "keeps_values (cached c' \<union> set_mset (ext 0)) c c'"
    using Prune_ok [OF c] by blast
  have "shard_entry c' \<subseteq>\<^sub>m shard_entry c" by (rule entry_shrinks [OF c c'(2,3)]) (rule keeps_values_mono [OF c'(4)], blast)
  moreover have "keeps_values (set_mset (ext 0)) c c'" by (rule keeps_values_mono [OF c'(4)]) blast
  moreover obtain cs' where cs': "prune_all cs = Some cs'" "length cs' = length cs"
    "\<forall>i < length cs. shard_ok (ext (Suc i)) (cs' ! i) \<and> shard_entry (cs' ! i) \<subseteq>\<^sub>m shard_entry (cs ! i) \<and>
        keeps_values (set_mset (ext (Suc i))) (cs ! i) (cs' ! i)"
    using Cons.IH [of "\<lambda>i. ext (Suc i)"] Cons.prems [of "Suc i" for i] by auto
  ultimately show ?case using c'(1,2) by (auto simp: nth_Cons split: nat.split)
qed simp

lemma Sharded_Prune_ok:
  assumes s: "sharded_ok M s"
  shows "\<exists>s'. Sharded_Prune s = Some s' \<and> sharded_ok M s' \<and> sharded_entry s' \<subseteq>\<^sub>m sharded_entry s \<and>
    (\<forall>g \<in># M. Sharded_Value g s' = Sharded_Value g s)"
proof -
  have l: "length (sc_shard s) = 16" using s by (simp add: sharded_ok_def)
  obtain cs where cs: "prune_all (sc_shard s) = Some cs" "length cs = 16"
    "\<And>i. i < 16 \<Longrightarrow> shard_ok (held M i) (cs ! i)" "\<And>i. i < 16 \<Longrightarrow> shard_entry (cs ! i) \<subseteq>\<^sub>m shard_entry (sc_shard s ! i)"
    "\<And>i. i < 16 \<Longrightarrow> keeps_values (set_mset (held M i)) (sc_shard s ! i) (cs ! i)"
    using prune_all_ok [of "sc_shard s" "held M"] s by (auto simp: sharded_ok_def)
  have "sharded_entry (s\<lparr>sc_shard := cs\<rparr>) \<subseteq>\<^sub>m sharded_entry s"
    using cs(4) Shard_less by (simp add: map_le_def sharded_entry_def dom_def)
  moreover have "Sharded_Value g (s\<lparr>sc_shard := cs\<rparr>) = Sharded_Value g s" if "g \<in># M" for g
    using keeps_value [OF cs(5) [OF Shard_less] held_member [OF that]] by (simp add: Sharded_Value_eq)
  ultimately show ?thesis using cs(1-3) by (simp add: Sharded_Prune_def sharded_ok_def)
qed

interpretation lru: cache lru_cache sharded_ok sharded_entry
proof (unfold_locales, goal_cases)
  case (1 M c k)
  then show ?case using Sharded_Lookup_ok [OF 1, of k] unfolding lru_cache_def Cache.simps by blast
next
  case (2 M c k v charge)
  then show ?case using Sharded_Insert_ok [OF 2] by (simp add: lru_cache_def)
next
  case (3 h M c)
  then show ?case using Sharded_Release_ok [OF 3] by (simp add: lru_cache_def)
next
  case (4 M c k)
  then show ?case using Sharded_Erase_ok [OF 4] by (simp add: lru_cache_def)
next
  case (5 M c)
  then show ?case using Sharded_Prune_ok [OF 5] by (simp add: lru_cache_def)
next
  case (6 M c)
  then show ?case
    by (auto simp: lru_cache_def Sharded_NewId_def Let_def sharded_ok_def sharded_entry_def Sharded_Value_def fun_eq_iff)
qed

lemma NewLRUCache_ok:
  "sharded_ok {#} (NewLRUCache capacity)" "sharded_entry (NewLRUCache capacity :: 'v ShardedLRUCache) = Map.empty"
proof -
  have e: "shard_entry (SetCapacity n (new_LRUCache :: 'v LRUCache)) k = None" for n k
  proof -
    have "cached (SetCapacity n (new_LRUCache :: 'v LRUCache)) = {}" by (simp add: SetCapacity_def new_LRUCache_def cached_def)
    then have "shard_entry (SetCapacity n (new_LRUCache :: 'v LRUCache)) k \<noteq> Some v" for v
      using shard_entry_iff [OF new_shard_ok, where key = k and v = v] by simp
    then show ?thesis by (meson not_Some_eq)
  qed
  show "sharded_ok {#} (NewLRUCache capacity)" "sharded_entry (NewLRUCache capacity :: 'v ShardedLRUCache) = Map.empty"
    using new_shard_ok e Shard_less
    by (auto simp: sharded_ok_def NewLRUCache_def new_ShardedLRUCache_def kNumShards_def kNumShardBits_def held_def
        sharded_entry_def fun_eq_iff Let_def)
qed

section \<open>Destruction\<close>

lemma delete_all_ok:
  "distinct es \<Longrightarrow> dom (lc_heap c) = set es \<Longrightarrow> (\<forall>e \<in> set es. \<exists>x. lc_heap c e = Some x \<and> lh_in_cache x \<and> lh_refs x = 1) \<Longrightarrow>
   \<exists>c'. delete_all es c = Some c' \<and> lc_heap c' = Map.empty \<and> length (lc_called c') = length (lc_called c) + length es"
proof (induction es arbitrary: c)
  case Nil
  then show ?case by simp
next
  case (Cons e es)
  obtain x where x: "lc_heap c e = Some x" "lh_in_cache x" "lh_refs x = 1" using Cons.prems(3) by auto
  let ?c = "c\<lparr>lc_heap := (lc_heap c)(e := None), lc_called := lc_called c @ [(lh_key x, lh_value x)]\<rparr>"
  have "Unref e (set_handle e (x\<lparr>lh_in_cache := False\<rparr>) c) =
      Some (set_handle e (x\<lparr>lh_in_cache := False, lh_refs := 0\<rparr>) c
        \<lparr>lc_called := lc_called c @ [(lh_key x, lh_value x)], lc_heap := (lc_heap c)(e := None)\<rparr>)"
    using x(3) by (simp add: Unref_def Let_def set_handle_def)
  also have "\<dots> = Some ?c" by (simp add: set_handle_def)
  finally have u: "Unref e (set_handle e (x\<lparr>lh_in_cache := False\<rparr>) c) = Some ?c" .
  have "\<exists>c'. delete_all es ?c = Some c' \<and> lc_heap c' = Map.empty \<and> length (lc_called c') = length (lc_called ?c) + length es"
  proof (rule Cons.IH)
    show "dom (lc_heap ?c) = set es" using Cons.prems(1,2) by auto
    show "\<forall>e \<in> set es. \<exists>x. lc_heap ?c e = Some x \<and> lh_in_cache x \<and> lh_refs x = 1" using Cons.prems(1,3) by auto
  qed (use Cons.prems(1) in simp)
  then show ?case using x u by auto
qed

text \<open>When no handle is held, the destructor frees every entry that is left; in all, each entry's deleter was called once.\<close>

lemma LRUCache_delete_ok:
  assumes c: "shard_ok {#} c"
  shows "\<exists>c'. LRUCache_delete c = Some c' \<and> lc_heap c' = Map.empty \<and> length (lc_called c') = lc_next c"
proof -
  have sr: "shard_rest {#} c" using c by (simp add: shard_ok_def)
  note d = shard_restD [OF sr]
  have iu: "lc_in_use c = []" using d(3,7) by (cases "lc_in_use c") (auto simp: cached_def)
  then have ca: "cached c = set (lc_lru c)" by (simp add: cached_def)
  have x: "\<exists>x. lc_heap c e = Some x \<and> lh_in_cache x \<and> lh_refs x = 1" if e: "e \<in> set (lc_lru c)" for e
  proof -
    obtain x where "lc_heap c e = Some x" using d(5) e ca by blast
    then show ?thesis using d(4) [of e x] e ca by (auto simp: handle_ok_def refs_one)
  qed
  have dm: "dom (lc_heap c) = set (lc_lru c)"
  proof
    show "dom (lc_heap c) \<subseteq> set (lc_lru c)"
    proof
      fix h assume "h \<in> dom (lc_heap c)"
      then obtain x where "lc_heap c h = Some x" by blast
      then have "0 < (if h \<in> cached c then 1 else 0 :: nat)" using d(4) by (fastforce simp: handle_ok_def)
      then show "h \<in> set (lc_lru c)" using ca by (simp split: if_splits)
    qed
  qed (use x in blast)
  have "length (lc_lru c) = card (dom (lc_heap c))" unfolding dm using d(1) by (simp add: distinct_card)
  then show ?thesis using delete_all_ok [OF d(1) dm] x iu d(9) by (auto simp: LRUCache_delete_def)
qed

section \<open>Clients of a cache\<close>

text \<open>A client inserts, looks up, erases and prunes, and releases the handles it got, by their number.\<close>

datatype 'v cache_op = Do_Insert slice 'v u64 | Do_Lookup slice | Do_Release nat | Do_Erase slice | Do_Prune

type_synonym ('v, 'h, 'c) client = "'c \<times> ('h \<times> 'v) list"

primrec cache_do :: "('v, 'h, 'c) Cache \<Rightarrow> 'v cache_op \<Rightarrow> ('v, 'h, 'c) client \<Rightarrow> ('v option \<times> ('v, 'h, 'c) client) option" where
  "cache_do K (Do_Insert k v charge) s = do {
     (h, c) \<leftarrow> ca_Insert K k v charge (fst s); v' \<leftarrow> ca_Value K h c; Some (Some v', (c, snd s @ [(h, v')])) }"
| "cache_do K (Do_Lookup k) s = do {
     (found, c) \<leftarrow> ca_Lookup K k (fst s);
     case found of None \<Rightarrow> Some (None, (c, snd s))
     | Some h \<Rightarrow> do { v \<leftarrow> ca_Value K h c; Some (Some v, (c, snd s @ [(h, v)])) } }"
| "cache_do K (Do_Release i) s =
     (if i < length (snd s)
      then do { c \<leftarrow> ca_Release K (fst (snd s ! i)) (fst s); Some (None, (c, take i (snd s) @ drop (Suc i) (snd s))) }
      else Some (None, s))"
| "cache_do K (Do_Erase k) s = do { c \<leftarrow> ca_Erase K k (fst s); Some (None, (c, snd s)) }"
| "cache_do K Do_Prune s = do { c \<leftarrow> ca_Prune K (fst s); Some (None, (c, snd s)) }"

primrec cache_run :: "('v, 'h, 'c) Cache \<Rightarrow> 'v cache_op list \<Rightarrow> ('v, 'h, 'c) client \<Rightarrow> ('v option list \<times> ('v, 'h, 'c) client) option" where
  "cache_run K [] s = Some ([], s)"
| "cache_run K (q # qs) s = do { (r, s1) \<leftarrow> cache_do K q s; (rs, s2) \<leftarrow> cache_run K qs s1; Some (r # rs, s2) }"

text \<open>No lookup is made while as many handles are held as a counter can count; \<open>n\<close> is at least the number of those held.\<close>

primrec few_held :: "nat \<Rightarrow> 'v cache_op list \<Rightarrow> bool" where
  "few_held n [] \<longleftrightarrow> True"
| "few_held n (q # qs) \<longleftrightarrow>
     (case q of
        Do_Insert k v charge \<Rightarrow> few_held (n + 1) qs
      | Do_Lookup k \<Rightarrow> n < max_handles \<and> few_held (n + 1) qs
      | Do_Release i \<Rightarrow> few_held (if i < n then n - 1 else n) qs
      | Do_Erase k \<Rightarrow> few_held n qs
      | Do_Prune \<Rightarrow> few_held n qs)"

text \<open>What was last inserted under a key and not erased since, and the answers of a cache that never forgets.\<close>

primrec spec_do :: "'v cache_op \<Rightarrow> (slice \<rightharpoonup> 'v) \<Rightarrow> 'v option \<times> (slice \<rightharpoonup> 'v)" where
  "spec_do (Do_Insert k v charge) m = (Some v, m(k \<mapsto> v))"
| "spec_do (Do_Lookup k) m = (m k, m)"
| "spec_do (Do_Release i) m = (None, m)"
| "spec_do (Do_Erase k) m = (None, m(k := None))"
| "spec_do Do_Prune m = (None, m)"

primrec spec_run :: "'v cache_op list \<Rightarrow> (slice \<rightharpoonup> 'v) \<Rightarrow> 'v option list" where
  "spec_run [] m = []"
| "spec_run (q # qs) m = fst (spec_do q m) # spec_run qs (snd (spec_do q m))"

text \<open>A lookup may miss.\<close>

definition may_answer :: "'v cache_op \<Rightarrow> 'v option \<Rightarrow> 'v option \<Rightarrow> bool" where
  "may_answer q r r' \<longleftrightarrow> r = r' \<or> (\<exists>k. q = Do_Lookup k) \<and> r = None"

context cache
begin

definition client_ok :: "(slice \<rightharpoonup> 'v) \<Rightarrow> ('v, 'h, 'c) client \<Rightarrow> bool" where
  "client_ok m s \<longleftrightarrow> cok (mset (map fst (snd s))) (fst s) \<and> entry (fst s) \<subseteq>\<^sub>m m \<and>
     (\<forall>(h, v) \<in> set (snd s). ca_Value K h (fst s) = Some v)"

lemma values_kept:
  "\<forall>(h, v) \<in> set hs. ca_Value K h c = Some v \<Longrightarrow> \<forall>g \<in># mset (map fst hs). ca_Value K g c' = ca_Value K g c \<Longrightarrow>
   \<forall>(h, v) \<in> set hs. ca_Value K h c' = Some v"
  by fastforce

lemma cache_do_ok:
  assumes "client_ok m s" and few: "few_held n (q # qs)" "length (snd s) \<le> n"
  shows "\<exists>r s' n'. cache_do K q s = Some (r, s') \<and> client_ok (snd (spec_do q m)) s' \<and> may_answer q r (fst (spec_do q m)) \<and>
    few_held n' qs \<and> length (snd s') \<le> n'"
proof -
  obtain c hs where s: "s = (c, hs)" by (cases s)
  have c: "cok (mset (map fst hs)) c" "entry c \<subseteq>\<^sub>m m" "\<forall>(h, v) \<in> set hs. ca_Value K h c = Some v"
    using assms by (simp_all add: client_ok_def s)
  show ?thesis
  proof (cases q)
    case (Do_Insert k v charge)
    obtain h c' where i: "ca_Insert K k v charge c = Some (h, c')" "cok (add_mset h (mset (map fst hs))) c'"
      "entry c' \<subseteq>\<^sub>m (entry c)(k \<mapsto> v)" "ca_Value K h c' = Some v" "\<forall>g \<in># mset (map fst hs). ca_Value K g c' = ca_Value K g c"
      using insert [OF c(1)] by blast
    have "entry c' \<subseteq>\<^sub>m m(k \<mapsto> v)" using i(3) map_le_upd [OF c(2)] by (rule map_le_trans)
    then show ?thesis using Do_Insert i(1,2,4) values_kept [OF c(3) i(5)] few
      by (intro exI [of _ "Some v"] exI [of _ "(c', hs @ [(h, v)])"] exI [of _ "n + 1"]) (auto simp: s client_ok_def may_answer_def)
  next
    case (Do_Lookup k)
    have sz: "size (mset (map fst hs)) < max_handles" using few Do_Lookup by (simp add: s)
    show ?thesis
    proof (cases "entry c k")
      case None
      then have "ca_Lookup K k c = Some (None, c)" using lookup [OF c(1) sz, of k] by simp
      then show ?thesis using Do_Lookup c few
        by (intro exI [of _ None] exI [of _ "(c, hs)"] exI [of _ "n + 1"]) (simp add: s client_ok_def may_answer_def)
    next
      case (Some v)
      then obtain h c' where l: "ca_Lookup K k c = Some (Some h, c')" "cok (add_mset h (mset (map fst hs))) c'" "entry c' = entry c"
        "ca_Value K h c' = Some v" "\<forall>g \<in># mset (map fst hs). ca_Value K g c' = ca_Value K g c"
        using lookup [OF c(1) sz, of k] by auto
      have "m k = Some v" using c(2) Some by (auto simp: map_le_def dom_def)
      then show ?thesis using Do_Lookup l(1-4) c(2) values_kept [OF c(3) l(5)] few
        by (intro exI [of _ "Some v"] exI [of _ "(c', hs @ [(h, v)])"] exI [of _ "n + 1"]) (auto simp: s client_ok_def may_answer_def)
    qed
  next
    case (Do_Release i)
    let ?n = "if i < n then n - 1 else n"
    show ?thesis
    proof (cases "i < length hs")
      case True
      have hs: "hs = take i hs @ hs ! i # drop (Suc i) hs" by (rule id_take_nth_drop [OF True])
      let ?rest = "take i hs @ drop (Suc i) hs"
      have "mset (map fst hs) = add_mset (fst (hs ! i)) (mset (map fst ?rest))" by (subst hs) simp
      then obtain c' where r: "ca_Release K (fst (hs ! i)) c = Some c'" "cok (mset (map fst ?rest)) c'" "entry c' = entry c"
        "\<forall>g \<in># mset (map fst ?rest). ca_Value K g c' = ca_Value K g c"
        using release c(1) by metis
      have "\<forall>(h, v) \<in> set ?rest. ca_Value K h c = Some v" using c(3) set_take_subset set_drop_subset by fastforce
      from values_kept [OF this r(4)] show ?thesis using Do_Release True r(1-3) c(2) few
        by (intro exI [of _ None] exI [of _ "(c', ?rest)"] exI [of _ ?n]) (auto simp: s client_ok_def may_answer_def)
    next
      case False
      then show ?thesis using Do_Release c few
        by (intro exI [of _ None] exI [of _ "(c, hs)"] exI [of _ ?n]) (auto simp: s client_ok_def may_answer_def)
    qed
  next
    case (Do_Erase k)
    obtain c' where e: "ca_Erase K k c = Some c'" "cok (mset (map fst hs)) c'" "entry c' = (entry c)(k := None)"
      "\<forall>g \<in># mset (map fst hs). ca_Value K g c' = ca_Value K g c"
      using erase [OF c(1)] by blast
    have "(entry c)(k := None) \<subseteq>\<^sub>m m(k := None)" using c(2) by (auto simp: map_le_def)
    then show ?thesis using Do_Erase e(1-3) values_kept [OF c(3) e(4)] few
      by (intro exI [of _ None] exI [of _ "(c', hs)"] exI [of _ n]) (simp add: s client_ok_def may_answer_def)
  next
    case Do_Prune
    obtain c' where e: "ca_Prune K c = Some c'" "cok (mset (map fst hs)) c'" "entry c' \<subseteq>\<^sub>m entry c"
      "\<forall>g \<in># mset (map fst hs). ca_Value K g c' = ca_Value K g c"
      using prune [OF c(1)] by blast
    then show ?thesis using Do_Prune map_le_trans [OF e(3) c(2)] values_kept [OF c(3) e(4)] few
      by (intro exI [of _ None] exI [of _ "(c', hs)"] exI [of _ n]) (simp add: s client_ok_def may_answer_def)
  qed
qed

theorem cache_run_ok:
  "client_ok m s \<Longrightarrow> few_held n qs \<Longrightarrow> length (snd s) \<le> n \<Longrightarrow> \<exists>rs c hs. cache_run K qs s = Some (rs, (c, hs)) \<and> cok (mset (map fst hs)) c \<and>
     length rs = length qs \<and> (\<forall>i < length qs. may_answer (qs ! i) (rs ! i) (spec_run qs m ! i)) \<and>
     (\<forall>(h, v) \<in> set hs. ca_Value K h c = Some v)"
proof (induction qs arbitrary: m s n)
  case Nil
  then show ?case by (cases s) (simp add: client_ok_def)
next
  case (Cons q qs)
  obtain r s1 n1 where q: "cache_do K q s = Some (r, s1)" "client_ok (snd (spec_do q m)) s1" "may_answer q r (fst (spec_do q m))"
    "few_held n1 qs" "length (snd s1) \<le> n1"
    using cache_do_ok [OF Cons.prems] by (elim exE conjE)
  obtain rs c hs where "cache_run K qs s1 = Some (rs, (c, hs))" "cok (mset (map fst hs)) c" "length rs = length qs"
    "\<forall>i < length qs. may_answer (qs ! i) (rs ! i) (spec_run qs (snd (spec_do q m)) ! i)" "\<forall>(h, v) \<in> set hs. ca_Value K h c = Some v"
    using Cons.IH [OF q(2,4,5)] by blast
  then show ?case using q(1,3) by (intro exI [of _ "r # rs"] exI [of _ c] exI [of _ hs]) (simp add: nth_Cons split: nat.split)
qed

end

end
