(* ===== verification/LdbTableRead.thy ===== *)
theory LdbTableRead
  imports LdbTable LdbLru
begin

text \<open>
  Reading a table that was built: its blocks are opened through the file or the block cache, it is opened
  from its footer, and its iterator has its entries.
\<close>

section \<open>Where things lie in the file\<close>

lemma block_off_Suc: "j < length bs \<Longrightarrow> block_off bs (Suc j) = block_off bs j + length (snd (bs ! j)) + kBlockTrailerSize"
  by (simp add: block_off_def take_Suc_conv_app_nth)

lemma block_off_le: "block_off bs j \<le> length (data_bytes bs)"
  by (metis append_take_drop_id block_off_def data_bytes_append(1) le_add1 length_append)

lemma block_off_mono: "i < j \<Longrightarrow> j \<le> length bs \<Longrightarrow> block_off bs i < block_off bs j"
proof (induction j)
  case 0
  then show ?case by simp
next
  case (Suc j)
  have "block_off bs j < block_off bs (Suc j)" using Suc.prems by (simp add: block_off_Suc kBlockTrailerSize_def)
  then show ?case using Suc by (cases "i = j") auto
qed

lemma data_block_at:
  assumes "j < length bs"
  shows "drop (block_off bs j) (data_bytes bs @ r) =
    snd (bs ! j) @ block_trailer kNoCompression (snd (bs ! j)) @ data_bytes (drop (Suc j) bs) @ r"
proof -
  have "data_bytes bs = data_bytes (take j bs) @ framed (snd (bs ! j)) @ data_bytes (drop (Suc j) bs)"
    by (subst id_take_nth_drop [OF assms]) (simp add: data_bytes_def)
  then show ?thesis by (simp add: block_off_def framed_def)
qed

lemma entries_in_blocks: "j < length bs \<Longrightarrow> set (fst (bs ! j)) \<subseteq> set (entries_of bs)"
  by (auto simp: entries_of_def) (metis nth_mem)

text \<open>The handles of the cache that cleanups release.\<close>

primrec cleanup_handles :: "'h Cleanup \<Rightarrow> 'h multiset" where
  "cleanup_handles NoCleanup = {#}"
| "cleanup_handles DeleteBlock = {#}"
| "cleanup_handles (ReleaseBlock h) = {#h#}"

definition to_release :: "'h Cleanup multiset \<Rightarrow> 'h multiset" where
  "to_release M = sum_mset (image_mset cleanup_handles M)"

lemma to_release_simps [simp]: "to_release {#} = {#}" "to_release (add_mset cl M) = cleanup_handles cl + to_release M"
  by (simp_all add: to_release_def)

section \<open>The blocks of a table\<close>

context table_format
begin

lemma ordered_sorted:
  assumes "ordered es"
  shows "sorted_entries C valid es"
  using assms sorted_wrt_mono_rel [of es "\<lambda>a b. cmp_Compare C (fst a) (fst b) < 0" "\<lambda>a b. cmp_Compare C (fst a) (fst b) \<le> 0"]
  by (simp add: ordered_def sorted_entries_def)

text \<open>What is used of a table's file: its data blocks, its index, and that it is small enough.\<close>

definition table_data :: "table_block list \<Rightarrow> slice list \<Rightarrow> byte list \<Rightarrow> bool" where
  "table_data bs seps bytes \<longleftrightarrow> is_table bs seps bytes \<and> length bytes < 2 ^ 32"

lemma table_data_bytes:
  assumes "is_table bs seps bytes"
  shows "\<exists>r. bytes = data_bytes bs @ r"
  using assms unfolding is_table_def by blast

lemma table_block_built:
  assumes t: "table_data bs seps bytes" and j: "j < length bs"
  shows "built (fst (bs ! j)) (snd (bs ! j))" "length (snd (bs ! j)) < 2 ^ 32" "fst (bs ! j) \<noteq> []"
    "ordered (fst (bs ! j))"
proof -
  have i: "is_table bs seps bytes" "length bytes < 2 ^ 32" using t by (simp_all add: table_data_def)
  show "built (fst (bs ! j)) (snd (bs ! j))" "fst (bs ! j) \<noteq> []"
    using i(1) nth_mem [OF j] by (simp_all add: is_table_def)
  obtain r where "bytes = data_bytes bs @ r" using table_data_bytes [OF i(1)] by blast
  then have "length (snd (bs ! j)) \<le> length bytes"
    using block_off_le [of bs "Suc j"] block_off_Suc [OF j] by simp
  then show "length (snd (bs ! j)) < 2 ^ 32" using i(2) by simp
  have "entries_of bs = entries_of (take j bs) @ fst (bs ! j) @ entries_of (drop (Suc j) bs)"
    by (subst id_take_nth_drop [OF j]) simp
  moreover have "ordered (entries_of bs)" using i(1) by (simp add: is_table_def)
  ultimately show "ordered (fst (bs ! j))" by (metis ordered_append)
qed

lemma table_seps:
  assumes "table_data bs seps bytes"
  shows "length seps = length bs" "separates (cmp_Compare C) bs seps" "list_all valid seps" "ordered (entries_of bs)"
  using assms by (simp_all add: table_data_def is_table_def)

lemma index_length [simp]: "length (index_entries bs seps) = length seps"
  by (simp add: index_entries_def)

lemma index_nth: "j < length seps \<Longrightarrow> index_entries bs seps ! j = (seps ! j, BlockHandle_EncodeTo (block_handle bs j) [])"
  by (simp add: index_entries_def)

lemma index_sorted:
  assumes t: "table_data bs seps bytes"
  shows "sorted_entries C valid (index_entries bs seps)"
proof -
  have less: "cmp_Compare C (seps ! i) (seps ! j) < 0" if ij: "i < j" "j < length seps" for i j
  proof -
    note s = table_seps [OF t]
    have j: "j < length bs" and v: "valid (seps ! i)" "valid (seps ! j)"
      using ij s(1,3) by (simp_all add: list_all_length)
    obtain e where e: "e \<in> set (fst (bs ! j))" using table_block_built(3) [OF t j] by (meson last_in_set)
    then have ve: "valid (fst e)" using ordered_valid [OF s(4)] entries_in_blocks [OF j] by blast
    have "cmp_Compare C (seps ! i) (fst e) < 0" "cmp_Compare C (fst e) (seps ! j) \<le> 0"
      using s(1,2) ij j e by (auto simp: separates_def)
    then show ?thesis using trans_less_le [OF v(1) ve v(2)] by blast
  qed
  show ?thesis
    using table_seps(3) [OF t] less
    by (auto simp: sorted_entries_def list_all_length index_nth sorted_wrt_iff_nth_less intro: less_imp_le)
qed

lemma block_handles_differ:
  assumes t: "table_data bs seps bytes" and i: "i < length bs" and j: "j < length bs"
    and e: "bh_offset (block_handle bs i) = bh_offset (block_handle bs j)"
  shows "i = j"
proof -
  have "is_table bs seps bytes" using t by (simp add: table_data_def)
  then obtain r where "bytes = data_bytes bs @ r" using table_data_bytes by blast
  then have "block_off bs k < 2 ^ 64" for k
    using t block_off_le [of bs k] by (simp add: table_data_def)
  then have "unat (word_of_nat (block_off bs k) :: u64) = block_off bs k" for k by (rule unat_small64)
  then have "block_off bs i = block_off bs j" using e by (metis BlockHandle.select_convs(1) block_handle_def handle_at_def)
  then show ?thesis using block_off_mono [of i j bs] block_off_mono [of j i bs] i j by (metis less_imp_le less_irrefl linorder_neqE_nat)
qed

lemma index_handles_differ:
  assumes t: "table_data bs seps bytes" and ij: "i < length seps" "j < length seps"
    and e: "snd (index_entries bs seps ! i) = snd (index_entries bs seps ! j)"
  shows "i = j"
proof -
  have "BlockHandle_EncodeTo (block_handle bs i) [] = BlockHandle_EncodeTo (block_handle bs j) []"
    using e ij by (simp add: index_nth)
  then have "block_handle bs i = block_handle bs j"
    using Handle_Decode_Encode [of "block_handle bs i" "[]" new_BlockHandle]
      Handle_Decode_Encode [of "block_handle bs j" "[]" new_BlockHandle] by simp
  then show ?thesis using block_handles_differ [OF t] ij table_seps(1) [OF t] by simp
qed

end

section \<open>Opening blocks\<close>

text \<open>A table's file, its order, its filters and the cache.\<close>

locale table_reading = raf: random_access_file R good content + table_format C valid pol fits + blocks: cache K cok entry
  for R :: "'f RandomAccessFile" and good content C valid pol fits and K :: "(Block, 'h, 'c) Cache" and cok entry
begin

text \<open>The cache has blocks of the table only under its id and their offsets.\<close>

definition coherent :: "table_block list \<Rightarrow> u64 \<Rightarrow> 'c \<Rightarrow> bool" where
  "coherent bs cache_id c \<longleftrightarrow> (\<forall>j < length bs. \<forall>b.
     entry c (cache_key cache_id (bh_offset (block_handle bs j))) = Some b \<longrightarrow> b = new_Block (snd (bs ! j)))"

definition env_ok :: "table_block list \<Rightarrow> byte list \<Rightarrow> u64 \<Rightarrow> 'h Cleanup multiset \<Rightarrow> ('f, 'c) table_env \<Rightarrow> bool" where
  "env_ok bs bytes cache_id M e \<longleftrightarrow> good (fst e) \<and> content (fst e) = bytes \<and>
     (case snd e of None \<Rightarrow> to_release M = {#} | Some c \<Rightarrow> cok (to_release M) c \<and> coherent bs cache_id c)"

text \<open>No more blocks are held than the cache can count, one more counted in.\<close>

definition few_blocks :: "'h Cleanup multiset \<Rightarrow> bool" where
  "few_blocks M \<longleftrightarrow> size (to_release M) + 1 < max_handles"

lemma ReadBlock_table:
  assumes t: "table_data bs seps bytes" and j: "j < length bs" and f: "good f" "content f = bytes"
  shows "\<exists>bc f'. ReadBlock R buf options (block_handle bs j) f = Some ((OK, bc), f') \<and> bc_data bc = snd (bs ! j) \<and>
    good f' \<and> content f' = bytes"
proof -
  have i: "is_table bs seps bytes" "length bytes < 2 ^ 32" using t by (simp_all add: table_data_def)
  obtain r where r: "bytes = data_bytes bs @ r" using table_data_bytes [OF i(1)] by blast
  have "unat (bh_offset (block_handle bs j)) = block_off bs j"
    using i(2) r block_off_le [of bs j] unfolding block_handle_def handle_at_def BlockHandle.simps
    by (intro unat_small64) simp
  then have "drop (unat (bh_offset (block_handle bs j))) (content f) =
      snd (bs ! j) @ block_trailer kNoCompression (snd (bs ! j)) @ data_bytes (drop (Suc j) bs) @ r"
    using data_block_at [OF j] r f(2) by simp
  from raf.ReadBlock_written [OF f(1) this, of buf options] i(2) f(2)
  show ?thesis by (simp add: block_handle_def handle_at_def)
qed

lemma coherent_lookup: "coherent bs i c \<Longrightarrow> entry c' = entry c \<Longrightarrow> coherent bs i c'"
  by (simp add: coherent_def)

lemma coherent_insert:
  assumes t: "table_data bs seps bytes" and j: "j < length bs" and c: "coherent bs i c"
    and e: "entry c' \<subseteq>\<^sub>m (entry c)(cache_key i (bh_offset (block_handle bs j)) \<mapsto> new_Block (snd (bs ! j)))"
  shows "coherent bs i c'"
  unfolding coherent_def
proof (intro allI impI)
  fix k b assume k: "k < length bs" and b: "entry c' (cache_key i (bh_offset (block_handle bs k))) = Some b"
  have inj: "cache_key i x = cache_key i y \<Longrightarrow> x = y" for x y
    using DecodeFixed64_Encode [of x "[]"] DecodeFixed64_Encode [of y "[]"] by (simp add: cache_key_def)
  have "((entry c)(cache_key i (bh_offset (block_handle bs j)) \<mapsto> new_Block (snd (bs ! j))))
      (cache_key i (bh_offset (block_handle bs k))) = Some b"
    using e [unfolded map_le_def, rule_format, OF domI [of "entry c'", OF b]] b by simp
  then show "b = new_Block (snd (bs ! k))"
    using c k b block_handles_differ [OF t j k] inj by (auto simp: coherent_def split: if_splits)
qed

lemma read_block_table:
  assumes t: "table_data bs seps bytes" and j: "j < length bs" and e: "env_ok bs bytes (tab_cache_id tab) M e"
    and few: "size (to_release M) < max_handles"
  shows "\<exists>h e'. read_block K R buf tab options (block_handle bs j) e =
      Some ((OK, Some (new_Block (snd (bs ! j))), h), e') \<and>
    env_ok bs bytes (tab_cache_id tab) (add_mset (case h of None \<Rightarrow> DeleteBlock | Some g \<Rightarrow> ReleaseBlock g) M) e'"
proof -
  obtain f oc where fc: "e = (f, oc)" by (cases e)
  have f: "good f" "content f = bytes" using e by (simp_all add: env_ok_def fc)
  obtain bc f' where rb: "ReadBlock R buf options (block_handle bs j) f = Some ((OK, bc), f')" "bc_data bc = snd (bs ! j)"
    "good f'" "content f' = bytes"
    using ReadBlock_table [OF t j f] by blast
  show ?thesis
  proof (cases oc)
    case None
    then show ?thesis using e rb by (intro exI [of _ None]) (simp add: read_block_def fc env_ok_def ok_OK)
  next
    case (Some c)
    let ?key = "cache_key (tab_cache_id tab) (bh_offset (block_handle bs j))"
    have c: "cok (to_release M) c" "coherent bs (tab_cache_id tab) c" using e by (simp_all add: env_ok_def fc Some)
    show ?thesis
    proof (cases "entry c ?key")
      case (Some b)
      then have b: "b = new_Block (snd (bs ! j))" using c(2) j by (simp add: coherent_def)
      obtain h c' where l: "ca_Lookup K ?key c = Some (Some h, c')" "cok (add_mset h (to_release M)) c'" "entry c' = entry c"
        "ca_Value K h c' = Some b"
        using blocks.lookup [OF c(1) few, of ?key] Some by auto
      then show ?thesis
        using f b coherent_lookup [OF c(2) l(3)] \<open>oc = Some c\<close>
        by (intro exI [of _ "Some h"]) (simp add: read_block_def fc env_ok_def Let_def)
    next
      case None
      have l: "ca_Lookup K ?key c = Some (None, c)" using blocks.lookup [OF c(1) few, of ?key] None by simp
      show ?thesis
      proof (cases "bc_cachable bc \<and> ro_fill_cache options")
        case True
        let ?b = "new_Block (snd (bs ! j))"
        obtain h c' where i: "ca_Insert K ?key ?b (word_of_nat (bk_size ?b)) c = Some (h, c')" "cok (add_mset h (to_release M)) c'"
          "entry c' \<subseteq>\<^sub>m (entry c)(?key \<mapsto> ?b)"
          using blocks.insert [OF c(1), of ?key ?b "word_of_nat (bk_size ?b)"] by blast
        then show ?thesis
          using rb l True coherent_insert [OF t j c(2) i(3)] \<open>oc = Some c\<close>
          by (intro exI [of _ "Some h"]) (simp add: read_block_def fc env_ok_def Let_def ok_OK)
      next
        case False
        then show ?thesis
          using rb l c \<open>oc = Some c\<close>
          by (intro exI [of _ None]) (auto simp: read_block_def fc env_ok_def Let_def ok_OK)
      qed
    qed
  qed
qed

lemma BlockReader_table:
  assumes t: "table_data bs seps bytes" and j: "j < length seps" and e: "env_ok bs bytes (tab_cache_id tab) M e"
    and few: "size (to_release M) < max_handles"
  shows "\<exists>cl e'. BlockReader K R buf tab e options (snd (index_entries bs seps ! j)) =
      Some ((Block_NewIterator (new_Block (snd (bs ! j))), cl), e') \<and> env_ok bs bytes (tab_cache_id tab) (add_mset cl M) e'"
proof -
  have j': "j < length bs" using j table_seps(1) [OF t] by simp
  obtain h e' where r: "read_block K R buf tab options (block_handle bs j) e = Some ((OK, Some (new_Block (snd (bs ! j))), h), e')"
    "env_ok bs bytes (tab_cache_id tab) (add_mset (case h of None \<Rightarrow> DeleteBlock | Some g \<Rightarrow> ReleaseBlock g) M) e'"
    using read_block_table [OF t j' e few] by blast
  then show ?thesis
    using Handle_Decode_Encode [of "block_handle bs j" "[]" new_BlockHandle]
    by (simp add: BlockReader_def index_nth [OF j] ok_OK)
qed

lemma table_cleanup_table:
  assumes "env_ok bs bytes i (add_mset cl M) e"
  shows "\<exists>e'. table_cleanup K cl e = Some e' \<and> env_ok bs bytes i M e'"
proof (cases cl)
  case (ReleaseBlock h)
  then obtain c where c: "snd e = Some c" "cok (add_mset h (to_release M)) c" "coherent bs i c"
    using assms by (auto simp: env_ok_def split: option.splits)
  obtain c' where "ca_Release K h c = Some c'" "cok (to_release M) c'" "entry c' = entry c"
    using blocks.release [OF c(2)] by blast
  then show ?thesis using assms c coherent_lookup [OF c(3)] ReleaseBlock by (simp add: env_ok_def)
qed (use assms in \<open>simp_all add: env_ok_def split: option.splits\<close>)

end

section \<open>The table's iterator\<close>

context table_reading
begin

text \<open>The index and the blocks; bytes that are no table have none.\<close>

definition table_index :: "table_block list \<Rightarrow> slice list \<Rightarrow> byte list \<Rightarrow> (slice \<times> slice) list" where
  "table_index bs seps bytes = (if table_data bs seps bytes then index_entries bs seps else [])"

definition blocks_of :: "table_block list \<Rightarrow> slice list \<Rightarrow> byte list \<Rightarrow> (slice \<times> slice) list list" where
  "blocks_of bs seps bytes = (if table_data bs seps bytes then map fst bs else [])"

lemma table_index_less: "j < length (table_index bs seps bytes) \<Longrightarrow>
    table_data bs seps bytes \<and> j < length seps \<and> j < length bs \<and> table_index bs seps bytes = index_entries bs seps \<and>
    blocks_of bs seps bytes ! j = fst (bs ! j) \<and> seps ! j \<in> set seps"
  using table_seps(1) by (auto simp: table_index_def blocks_of_def split: if_splits)

end

sublocale table_reading \<subseteq> contents: indexed_blocks "block_iter C" "block_iter C" "table_blocks K R buf t" "cmp_Compare C" valid
    "table_index bs seps bytes" "blocks_of bs seps bytes" "built_ready (table_index bs seps bytes) idx"
    "built_on (table_index bs seps bytes) idx" "\<lambda>j. built_ready (fst (bs ! j)) (snd (bs ! j))"
    "\<lambda>j. built_on (fst (bs ! j)) (snd (bs ! j))" "\<lambda>M e. env_ok bs bytes (tab_cache_id t) M e \<and> few_blocks others" others opts
  for buf t bs seps bytes idx others opts
proof (rule indexed_blocks.intro, goal_cases)
  case 1
  have "sorted_entries C valid (table_index bs seps bytes)"
    using index_sorted by (simp add: table_index_def sorted_entries_def)
  then show ?case by (rule built_iterator_on)
next
  case (2 j)
  note j = table_index_less [OF 2]
  have "ordered (fst (bs ! j))" using table_block_built(4) [of bs seps bytes j] j by blast
  then have "sorted_entries C valid (fst (bs ! j))" by (rule ordered_sorted)
  then show ?case using built_iterator_on j by simp
next
  case 3
  show ?case using table_seps(1) by (auto simp: table_index_def blocks_of_def)
next
  case (4 M held e j)
  note j = table_index_less [OF 4(3)]
  have "size (cleanup_handles cl) \<le> 1" for cl :: "'h Cleanup" by (cases cl) simp_all
  then have "size (to_release M) \<le> size (to_release others) + 1" unfolding 4(1) by (cases held) (simp_all add: add.commute)
  then have few: "size (to_release M) < max_handles" using 4(2) unfolding few_blocks_def by linarith
  obtain cl e' where r: "BlockReader K R buf t e opts (snd (index_entries bs seps ! j)) =
      Some ((Block_NewIterator (new_Block (snd (bs ! j))), cl), e')" "env_ok bs bytes (tab_cache_id t) (add_mset cl M) e'"
    using BlockReader_table [of bs seps bytes j t M e buf opts] j 4(2) few by blast
  moreover have "built_ready (fst (bs ! j)) (snd (bs ! j)) (Block_NewIterator (new_Block (snd (bs ! j))))"
    using built_open table_block_built(1,2) [of bs seps bytes j] j by blast
  ultimately show ?case using j 4(2) by (simp add: table_blocks_def)
next
  case (5 cl M e)
  then show ?case using table_cleanup_table by (simp add: table_blocks_def)
next
  case (6 i j)
  then show ?case using index_handles_differ table_index_less by metis
next
  case (7 j)
  then show ?case using table_index_less table_block_built(3) by metis
next
  case (8 t j)
  note j = table_index_less [OF 8(2)]
  have t: "table_data bs seps bytes" and jb: "j < length bs" "j < length seps" using j by simp_all
  note s = table_seps [OF t]
  show ?case
  proof
    fix e assume "e \<in> set (blocks_of bs seps bytes ! j)"
    then have e: "e \<in> set (fst (bs ! j))" using j by simp
    then have v: "valid (fst e)" using ordered_valid [OF s(4)] entries_in_blocks [OF jb(1)] by blast
    have vs: "valid (seps ! j)" using s(3) jb(2) by (simp add: list_all_length)
    have "cmp_Compare C (fst e) (seps ! j) \<le> 0" using s(2) jb(2) e by (simp add: separates_def)
    moreover have "cmp_Compare C (seps ! j) t < 0" using 8(3) j index_nth [OF jb(2)] by simp
    ultimately show "cmp_Compare C (fst e) t < 0" using trans_le_less [OF v vs 8(1)] by blast
  qed
next
  case (9 t j k)
  note k = table_index_less [OF 9(3)]
  have t: "table_data bs seps bytes" and jb: "k < length bs" "k < length seps" "j < length seps" using k 9(2) by simp_all
  note s = table_seps [OF t]
  show ?case
  proof
    fix e assume "e \<in> set (blocks_of bs seps bytes ! k)"
    then have e: "e \<in> set (fst (bs ! k))" using k by simp
    then have v: "valid (fst e)" using ordered_valid [OF s(4)] entries_in_blocks [OF jb(1)] by blast
    have vs: "valid (seps ! j)" using s(3) jb(3) by (simp add: list_all_length)
    have "cmp_Compare C (seps ! j) (fst e) < 0" using s(2) jb(1,3) 9(2) e by (simp add: separates_def)
    moreover have "\<not> cmp_Compare C (seps ! j) t < 0" using 9(4) k index_nth [OF jb(3)] by simp
    ultimately show "\<not> cmp_Compare C (fst e) t < 0" using trans_less_le [OF vs v 9(1)] by force
  qed
qed

section \<open>How long a table is\<close>

lemma built_length:
  assumes "built kvs b"
  shows "length b \<le> (\<Sum>e \<leftarrow> kvs. 19 + length (fst e) + length (snd e)) + 8"
proof -
  obtain es rs where e: "map snd es = kvs" "b = ents_bytes es @ concat (map (\<lambda>r. EncodeFixed32 (word_of_nat (off es r))) rs) @
      EncodeFixed32 (word_of_nat (length rs))" "restarts_ok es rs"
    using assms by (auto simp: built_def block_layout_def)
  have ent: "length (ent_bytes x) \<le> 15 + length (fst (snd x)) + length (snd (snd x))" for x
    using EncodeVarint32_length [of "word_of_nat (fst x)"] EncodeVarint32_length [of "word_of_nat (length (fst (snd x)) - fst x)"]
      EncodeVarint32_length [of "word_of_nat (length (snd (snd x)))"] by (cases x) simp
  have "length (ents_bytes es) \<le> (\<Sum>x \<leftarrow> es. 15 + length (fst (snd x)) + length (snd (snd x)))"
    by (induction es) (use ent in \<open>auto intro: add_mono\<close>)
  also have "\<dots> = (\<Sum>e \<leftarrow> kvs. 15 + length (fst e) + length (snd e))" unfolding e(1) [symmetric] by (simp add: comp_def)
  finally have l1: "length (ents_bytes es) \<le> (\<Sum>e \<leftarrow> kvs. 15 + length (fst e) + length (snd e))" .
  have "distinct rs" "set rs \<subseteq> {..<max 1 (length es)}" using e(3) by (auto simp: restarts_ok_def strict_sorted_iff)
  then have "length rs \<le> max 1 (length es)" using card_mono [of "{..<max 1 (length es)}" "set rs"] by (simp add: distinct_card)
  moreover have "length es = length kvs" using e(1) by (metis length_map)
  moreover have "length (concat (map (\<lambda>r. EncodeFixed32 (word_of_nat (off es r))) rs)) = 4 * length rs" by (induction rs) simp_all
  moreover have "(\<Sum>e \<leftarrow> kvs. 19 + length (fst e) + length (snd e)) = (\<Sum>e \<leftarrow> kvs. 15 + length (fst e) + length (snd e)) + 4 * length kvs"
    by (induction kvs) simp_all
  ultimately show ?thesis using l1 e(2) by simp
qed

text \<open>A table without filters, whose index keys are not longer than the keys they are made from.\<close>

definition table_bound :: "(slice \<times> slice) list \<Rightarrow> nat" where
  "table_bound kvs = (\<Sum>e \<leftarrow> kvs. 71 + 2 * length (fst e) + length (snd e)) + 74"

lemma data_bytes_length:
  "\<forall>b \<in> set bs. fst b \<noteq> [] \<and> built (fst b) (snd b) \<Longrightarrow>
   length (data_bytes bs) \<le> (\<Sum>e \<leftarrow> entries_of bs. 32 + length (fst e) + length (snd e))"
proof (induction bs)
  case (Cons b bs)
  have "length (data_bytes (b # bs)) = length (snd b) + 5 + length (data_bytes bs)"
    by (simp add: data_bytes_def kBlockTrailerSize_def)
  moreover have "length (snd b) \<le> (\<Sum>e \<leftarrow> fst b. 19 + length (fst e) + length (snd e)) + 8"
    by (rule built_length) (use Cons.prems in simp)
  moreover have "(\<Sum>e \<leftarrow> es. 32 + length (fst e) + length (snd e)) = (\<Sum>e \<leftarrow> es. 19 + length (fst e) + length (snd e)) + 13 * length es"
    for es :: "(slice \<times> slice) list"
    by (induction es) simp_all
  note this [of "fst b"]
  moreover have "0 < length (fst b)" using Cons.prems by simp
  moreover have "length (data_bytes bs) \<le> (\<Sum>e \<leftarrow> entries_of bs. 32 + length (fst e) + length (snd e))"
    using Cons.IH Cons.prems by simp
  moreover have "(\<Sum>e \<leftarrow> entries_of (b # bs). 32 + length (fst e) + length (snd e)) =
      (\<Sum>e \<leftarrow> fst b. 32 + length (fst e) + length (snd e)) + (\<Sum>e \<leftarrow> entries_of bs. 32 + length (fst e) + length (snd e))"
    by simp
  ultimately show ?case by linarith
qed simp

lemma index_bytes_length:
  "length seps = length bs \<Longrightarrow> \<forall>j < length bs. fst (bs ! j) \<noteq> [] \<and> length (seps ! j) \<le> length (fst (last (fst (bs ! j)))) \<Longrightarrow>
   (\<Sum>e \<leftarrow> index_entries cs seps. 19 + length (fst e) + length (snd e)) \<le> (\<Sum>e \<leftarrow> entries_of bs. 39 + length (fst e))"
proof (induction bs arbitrary: seps rule: rev_induct)
  case Nil
  then show ?case by (simp add: index_entries_def)
next
  case (snoc b bs)
  obtain ss s where ss: "seps = ss @ [s]" "length ss = length bs" using snoc.prems(1) by (cases seps rule: rev_cases) auto
  have "fst b \<noteq> []" "length s \<le> length (fst (last (fst b)))"
    using snoc.prems(2) [rule_format, of "length bs"] ss by (simp_all add: nth_append)
  moreover have "length (fst (last (fst b))) + 39 \<le> (\<Sum>e \<leftarrow> fst b. 39 + length (fst e))"
    using \<open>fst b \<noteq> []\<close> by (cases "fst b" rule: rev_cases) simp_all
  moreover have "length (BlockHandle_EncodeTo (block_handle cs (length ss)) []) \<le> 20" by (rule length_Handle_Encode)
  moreover have "(\<Sum>e \<leftarrow> index_entries cs ss. 19 + length (fst e) + length (snd e)) \<le> (\<Sum>e \<leftarrow> entries_of bs. 39 + length (fst e))"
  proof (rule snoc.IH [OF ss(2)], intro allI impI)
    fix j assume "j < length bs"
    then show "fst (bs ! j) \<noteq> [] \<and> length (ss ! j) \<le> length (fst (last (fst (bs ! j))))"
      using snoc.prems(2) [rule_format, of j] ss by (simp add: nth_append)
  qed
  ultimately show ?case by (simp add: ss(1) index_entries_snoc)
qed

context table_format
begin

lemma table_length:
  assumes t: "is_table bs seps bytes" and p: "pol = None"
    and short: "\<And>a b. valid a \<Longrightarrow> valid b \<Longrightarrow> length (cmp_FindShortestSeparator C a b) \<le> length a"
      "\<And>a. valid a \<Longrightarrow> length (cmp_FindShortSuccessor C a) \<le> length a"
  shows "length bytes \<le> table_bound (entries_of bs)"
proof -
  obtain fl fh meta idx where b: "filter_part bs fl fh" "built (meta_entries pol fh) meta" "built (index_entries bs seps) idx"
    "length bytes = length (data_bytes bs) + length fl + (length meta + 5) + (length idx + 5) + 48"
    using t by (auto simp: is_table_def Footer_Encode(2) kEncodedLength_def kMaxEncodedLength_def kBlockTrailerSize_def)
  have blocks: "\<forall>b \<in> set bs. fst b \<noteq> [] \<and> built (fst b) (snd b)" and n: "length seps = length bs" and c: "chosen C bs [] seps"
    and o: "ordered (entries_of bs)"
    using t by (simp_all add: is_table_def)
  have v: "valid (fst e)" if "j < length bs" "e \<in> set (fst (bs ! j))" for j e
    using ordered_valid [OF o] entries_in_blocks that by blast
  have "length (seps ! j) \<le> length (fst (last (fst (bs ! j))))" if j: "j < length bs" for j
  proof -
    have vl: "valid (fst (last (fst (bs ! j))))" using v [OF j] blocks j by simp
    have jn: "j < length seps" using j n by simp
    show ?thesis
    proof (cases "Suc j < length bs")
      case True
      have "valid (fst (hd (fst (bs ! Suc j))))" using v [OF True] blocks True by simp
      then show ?thesis
        using c [unfolded chosen_def, rule_format, OF jn] True short(1) [OF vl] by (simp add: next_key_def)
    next
      case False
      then show ?thesis using c [unfolded chosen_def, rule_format, OF jn] short(2) [OF vl] by (simp add: next_key_def)
    qed
  qed
  then have "(\<Sum>e \<leftarrow> index_entries bs seps. 19 + length (fst e) + length (snd e)) \<le> (\<Sum>e \<leftarrow> entries_of bs. 39 + length (fst e))"
    using index_bytes_length [OF n] blocks by simp
  moreover have "fl = []" using b(1) [unfolded filter_part_def] p by simp
  moreover have "length meta \<le> 8" using built_length [OF b(2)] p by (simp add: meta_entries_def)
  moreover have "table_bound (entries_of bs) = (\<Sum>e \<leftarrow> entries_of bs. 32 + length (fst e) + length (snd e)) +
      (\<Sum>e \<leftarrow> entries_of bs. 39 + length (fst e)) + 74"
    by (simp add: table_bound_def sum_list_addf [symmetric] algebra_simps del: entries_of_simps)
  ultimately show ?thesis using built_length [OF b(3)] data_bytes_length [OF blocks] b(4) by simp
qed

end

section \<open>Opening a table\<close>

text \<open>The metaindex block leads to the filter block.\<close>

lemma meta_seek:
  assumes b: "built (meta_entries (Some P) fh) meta" and l: "length meta < 2 ^ 32"
  shows "\<exists>it. it_Seek (block_iter BytewiseComparator) (lit ''filter.'' @ lit (fp_Name P)) (Block_NewIterator (new_Block meta)) = Some it \<and>
    it_Valid (block_iter BytewiseComparator) it \<and>
    it_key (block_iter BytewiseComparator) it = lit ''filter.'' @ lit (fp_Name P) \<and>
    it_value (block_iter BytewiseComparator) it = BlockHandle_EncodeTo fh []"
proof -
  let ?es = "meta_entries (Some P) fh"
  let ?key = "lit ''filter.'' @ lit (fp_Name P)"
  have s: "sorted_entries BytewiseComparator (\<lambda>k. True) ?es" by (simp add: sorted_entries_def meta_entries_def)
  note on = bytewise.built_iterator_on [OF s, of meta]
  have "cmp_Compare BytewiseComparator ?key ?key = 0" by (rule bytewise.compare_refl) simp
  then have "first_at_or_past (cmp_Compare BytewiseComparator) ?key ?es = 0"
    by (simp add: first_at_or_past_def meta_entries_def)
  then obtain it where it: "it_Seek (block_iter BytewiseComparator) ?key (Block_NewIterator (new_Block meta)) = Some it"
    "built_on ?es meta it 0"
    using iterator_on.seek [OF on built_open [OF b l] TrueI] by metis
  then show ?thesis
    using iterator_on.on_valid [OF on it(2)] iterator_on.on_entry [OF on it(2)] by (simp add: meta_entries_def)
qed

context table_reading
begin

lemma ReadBlock_at:
  assumes f: "good f" and c: "content f = pre @ framed b @ post" and l: "length (content f) < 2 ^ 64"
  shows "\<exists>bc f'. ReadBlock R buf options (handle_at (length pre) b) f = Some ((OK, bc), f') \<and> bc_data bc = b \<and>
    good f' \<and> content f' = content f"
proof -
  have "unat (bh_offset (handle_at (length pre) b)) = length pre" using c l by (simp add: handle_at_def unat_small64)
  then have "drop (unat (bh_offset (handle_at (length pre) b))) (content f) = b @ block_trailer kNoCompression b @ post"
    using c by (simp add: framed_def)
  from raf.ReadBlock_written [OF f this _ l] show ?thesis by (simp add: handle_at_def)
qed

text \<open>An open table: its index, and a filter that covers its blocks.\<close>

definition filter_ok :: "table_block list \<Rightarrow> FilterBlockReader option \<Rightarrow> bool" where
  "filter_ok bs r \<longleftrightarrow> (case pol of None \<Rightarrow> r = None
     | Some P \<Rightarrow> \<exists>fls. r = Some (new_FilterBlockReader P (filter_block P fls)) \<and>
         (\<forall>ks \<in> set fls. ks \<noteq> [] \<longrightarrow> fits ks) \<and> covers fls bs \<and> length (filters P fls) < 2 ^ 32)"

definition open_table :: "table_block list \<Rightarrow> slice list \<Rightarrow> byte list \<Rightarrow> Table \<Rightarrow> bool" where
  "open_table bs seps bytes t \<longleftrightarrow> table_data bs seps bytes \<and> opt_comparator (tab_options t) = C \<and> filter_ok bs (tab_filter t) \<and>
     (\<exists>idx. tab_index_block t = new_Block idx \<and> built (index_entries bs seps) idx \<and> length idx < 2 ^ 32)"

lemma ReadMeta_table:
  assumes f: "good f" "content f = bytes" and l: "length bytes < 2 ^ 32" and p: "filter_part bs fl fh"
    and m: "built (meta_entries pol fh) meta" and b: "bytes = data_bytes bs @ fl @ framed meta @ post"
    and h: "ft_metaindex_handle footer = handle_at (length (data_bytes bs @ fl)) meta"
    and o: "opt_filter_policy (tab_options t) = pol" and t: "tab_filter t = None"
  shows "\<exists>r f'. ReadMeta R buf footer t f = Some (t\<lparr>tab_filter := r\<rparr>, f') \<and> filter_ok bs r \<and> good f' \<and> content f' = bytes"
proof (cases pol)
  case None
  then have "ReadMeta R buf footer t f = Some (t\<lparr>tab_filter := None\<rparr>, f)" using o t by (cases t) (simp add: ReadMeta_def)
  moreover have "filter_ok bs None" unfolding filter_ok_def using None by simp
  ultimately show ?thesis using f by blast
next
  case (Some P)
  let ?ro = "table_read_options (tab_options t)"
  have l64: "length (content f) < 2 ^ 64" using l f(2) by simp
  have ms: "length meta < 2 ^ 32" using l b by simp
  have mb: "content f = (data_bytes bs @ fl) @ framed meta @ post" using b f(2) by simp
  obtain bc f1 where r1: "ReadBlock R buf ?ro (ft_metaindex_handle footer) f = Some ((OK, bc), f1)" "bc_data bc = meta"
    "good f1" "content f1 = bytes"
    using ReadBlock_at [OF f(1) mb l64] f(2) unfolding h by metis
  obtain it where it: "it_Seek (block_iter BytewiseComparator) (lit ''filter.'' @ lit (fp_Name P)) (Block_NewIterator (new_Block meta)) = Some it"
    "it_Valid (block_iter BytewiseComparator) it"
    "it_key (block_iter BytewiseComparator) it = lit ''filter.'' @ lit (fp_Name P)"
    "it_value (block_iter BytewiseComparator) it = BlockHandle_EncodeTo fh []"
    using meta_seek m ms Some by blast
  obtain fls where fls: "fl = framed (filter_block P fls)" "fh = handle_at (length (data_bytes bs)) (filter_block P fls)"
    "\<forall>ks \<in> set fls. ks \<noteq> [] \<longrightarrow> fits ks" "length (data_bytes bs) < 2 ^ 32 \<longrightarrow> covers fls bs"
    using p [unfolded filter_part_def] Some by auto
  have fb: "content f1 = data_bytes bs @ framed (filter_block P fls) @ framed meta @ post" using b r1(4) fls(1) by simp
  have l1: "length (content f1) < 2 ^ 64" using l r1(4) by simp
  obtain bc2 f2 where r2: "ReadBlock R buf ?ro fh f1 = Some ((OK, bc2), f2)" "bc_data bc2 = filter_block P fls"
    "good f2" "content f2 = bytes"
    using ReadBlock_at [OF r1(3) fb l1] r1(4) unfolding fls(2) by metis
  have "length bytes = length (data_bytes bs @ framed (filter_block P fls) @ framed meta @ post)" using r1(4) fb by simp
  then have "length (filter_block P fls) < 2 ^ 32" "length (data_bytes bs) < 2 ^ 32" using l by simp_all
  then have ok: "filter_ok bs (Some (new_FilterBlockReader P (filter_block P fls)))"
    unfolding filter_ok_def unfolding Some option.case
    using fls(3,4) filter_policy.length_filter_block [OF policy [OF Some], of fls] by (intro exI [of _ fls]) simp
  have "ReadFilter R buf P (BlockHandle_EncodeTo fh []) t f1 =
      Some (t\<lparr>tab_filter := Some (new_FilterBlockReader P (filter_block P fls))\<rparr>, f2)"
    using r2(1,2) Handle_Decode_Encode [of fh "[]" new_BlockHandle] by (simp add: ReadFilter_def ok_OK)
  then have "ReadMeta R buf footer t f = Some (t\<lparr>tab_filter := Some (new_FilterBlockReader P (filter_block P fls))\<rparr>, f2)"
    using o Some r1(1,2) it by (simp add: ReadMeta_def ok_OK Let_def slice_eq_iff)
  then show ?thesis using ok r2(3,4) by blast
qed

end

context table_reading
begin

text \<open>The state before a table is opened: the cache has no entry under the id it will give.\<close>

definition fresh_env :: "byte list \<Rightarrow> 'h multiset \<Rightarrow> ('f, 'c) table_env \<Rightarrow> bool" where
  "fresh_env bytes H e \<longleftrightarrow> good (fst e) \<and> content (fst e) = bytes \<and>
     (case snd e of None \<Rightarrow> H = {#} | Some c \<Rightarrow> cok H c \<and> (\<forall>x. entry c (cache_key (fst (ca_NewId K c)) x) = None))"

lemma to_release_handles: "to_release (image_mset ReleaseBlock H) = H"
  by (induction H) simp_all

theorem Table_Open_table:
  assumes t: "table_data bs seps bytes" and e: "fresh_env bytes H e"
    and o: "opt_comparator options = C" "opt_filter_policy options = pol"
  shows "\<exists>tab e'. Table_Open K R footer_space buf options (word_of_nat (length bytes)) e = Some ((OK, Some tab), e') \<and>
    open_table bs seps bytes tab \<and> tab_options tab = options \<and>
    length (data_bytes bs) \<le> unat (bh_offset (tab_metaindex_handle tab)) \<and>
    env_ok bs bytes (tab_cache_id tab) (image_mset ReleaseBlock H) e'"
proof -
  have l: "length bytes < 2 ^ 32" using t by (simp add: table_data_def)
  obtain fl fh meta idx where b: "filter_part bs fl fh" "built (meta_entries pol fh) meta" "built (index_entries bs seps) idx"
    "bytes = data_bytes bs @ fl @ framed meta @ framed idx @
       Footer_EncodeTo \<lparr>ft_metaindex_handle = handle_at (length (data_bytes bs @ fl)) meta,
         ft_index_handle = handle_at (length (data_bytes bs @ fl @ framed meta)) idx\<rparr> []"
    using t by (auto simp: table_data_def is_table_def)
  define mh where "mh = handle_at (length (data_bytes bs @ fl)) meta"
  define ih where "ih = handle_at (length (data_bytes bs @ fl @ framed meta)) idx"
  define ft where "ft = Footer_EncodeTo \<lparr>ft_metaindex_handle = mh, ft_index_handle = ih\<rparr> []"
  have ftl: "length ft = kEncodedLength" by (simp add: ft_def Footer_Encode(2))
  have bytes: "bytes = (data_bytes bs @ fl @ framed meta @ framed idx) @ ft" using b(4) by (simp add: ft_def mh_def ih_def)
  obtain f oc where fc: "e = (f, oc)" by (cases e)
  have f: "good f" "content f = bytes" using e by (simp_all add: fresh_env_def fc)
  have sz: "unat (word_of_nat (length bytes) :: u64) = length bytes" using l by (intro unat_small64) simp
  have long: "kEncodedLength \<le> length bytes" using ftl bytes by simp
  have off: "unat (word_of_nat (length bytes) - word_of_nat kEncodedLength :: u64) = length (data_bytes bs @ fl @ framed meta @ framed idx)"
  proof -
    have k: "unat (word_of_nat kEncodedLength :: u64) = kEncodedLength" by (simp add: kEncodedLength_def kMaxEncodedLength_def)
    have "word_of_nat kEncodedLength \<le> (word_of_nat (length bytes) :: u64)" using long by (simp add: word_le_nat_alt sz k)
    then have "unat (word_of_nat (length bytes) - word_of_nat kEncodedLength :: u64) = length bytes - kEncodedLength"
      by (simp add: unat_sub sz k)
    then show ?thesis using bytes ftl by simp
  qed
  have "unat (word_of_nat (length bytes) - word_of_nat kEncodedLength :: u64) + kEncodedLength \<le> length (content f)"
    unfolding off using bytes ftl f(2) by simp
  from raf.read_at [OF f(1) this, of footer_space] obtain a f1 where
    r1: "raf_Read R (word_of_nat (length bytes) - word_of_nat kEncodedLength) kEncodedLength footer_space f = Some ((OK, Some (a, ft)), f1)"
    and f1: "good f1" "content f1 = bytes"
    using ftl f(2) bytes unfolding off by auto
  have dec: "Footer_DecodeFrom ft new_Footer = Some (OK, \<lparr>ft_metaindex_handle = mh, ft_index_handle = ih\<rparr>, [])"
    using Footer_Decode_Encode [of _ "[]"] by (simp add: ft_def)
  have c1: "content f1 = (data_bytes bs @ fl @ framed meta) @ framed idx @ ft" using bytes f1(2) by simp
  have l1: "length (content f1) < 2 ^ 64" using l f1(2) by simp
  obtain bc f2 where r2: "ReadBlock R buf (table_read_options options) ih f1 = Some ((OK, bc), f2)" "bc_data bc = idx"
    and f2: "good f2" "content f2 = bytes"
    using ReadBlock_at [OF f1(1) c1 l1] f1(2) unfolding ih_def by metis
  obtain i oc1 where id: "(case oc of None \<Rightarrow> (0, None) | Some c \<Rightarrow> map_prod id Some (ca_NewId K c)) = (i, oc1)" by fastforce
  let ?t = "\<lparr>tab_options = options, tab_cache_id = i, tab_filter = None, tab_metaindex_handle = mh, tab_index_block = new_Block idx\<rparr>"
  have b4: "bytes = data_bytes bs @ fl @ framed meta @ framed idx @ ft" using bytes by simp
  obtain r f3 where m: "ReadMeta R buf \<lparr>ft_metaindex_handle = mh, ft_index_handle = ih\<rparr> ?t f2 = Some (?t\<lparr>tab_filter := r\<rparr>, f3)"
    "filter_ok bs r" "good f3" "content f3 = bytes"
    using ReadMeta_table [OF f2 l b(1,2) b4, of "\<lparr>ft_metaindex_handle = mh, ft_index_handle = ih\<rparr>" ?t buf] o(2) by (auto simp: mh_def)
  have op: "Table_Open K R footer_space buf options (word_of_nat (length bytes)) e =
      Some ((OK, Some (?t\<lparr>tab_filter := r\<rparr>)), (f3, oc1))"
    using long r1 dec r2 id m(1) by (simp add: Table_Open_def fc sz ok_OK Let_def)
  have "open_table bs seps bytes (?t\<lparr>tab_filter := r\<rparr>)"
    using t o(1) m(2) b(3) l bytes by (simp add: open_table_def) (intro exI [of _ idx], simp)
  moreover have "length (data_bytes bs) \<le> unat (bh_offset mh)"
  proof -
    have "length (data_bytes bs @ fl) < 2 ^ 64" using l bytes by simp
    then show ?thesis by (simp add: mh_def handle_at_def unat_small64 del: length_append) simp
  qed
  moreover have "env_ok bs bytes i (image_mset ReleaseBlock H) (f3, oc1)"
  proof (cases oc)
    case None
    then show ?thesis using e id m(3,4) by (simp add: env_ok_def fresh_env_def fc to_release_handles)
  next
    case (Some c)
    have c: "cok H c" "\<forall>x. entry c (cache_key (fst (ca_NewId K c)) x) = None" using e by (simp_all add: fresh_env_def fc Some)
    obtain i' c' where n: "ca_NewId K c = (i', c')" "cok H c'" "entry c' = entry c" using blocks.new_id [OF c(1)] by blast
    then have "oc1 = Some c'" "i' = i" using id by (simp_all add: Some)
    then show ?thesis using n c(2) m(3,4) by (simp add: env_ok_def to_release_handles coherent_def)
  qed
  ultimately show ?thesis using op by (intro exI [of _ "?t\<lparr>tab_filter := r\<rparr>"] exI [of _ "(f3, oc1)"]) simp
qed

end

section \<open>Reading a table\<close>

context table_reading
begin

lemma all_entries: "table_data bs seps bytes \<Longrightarrow> concat (blocks_of bs seps bytes) = entries_of bs"
  by (simp add: blocks_of_def entries_of_def)

text \<open>The iterator has the table's entries; deleting it gives back what it holds.\<close>

theorem table_iterator_on:
  assumes t: "open_table bs seps bytes t"
  shows "\<exists>ready on. iterator_on (table_iterator K R buf t) (cmp_Compare C) valid (entries_of bs) ready on \<and>
    (\<forall>e. env_ok bs bytes (tab_cache_id t) others e \<and> few_blocks others \<longrightarrow> ready (Table_NewIterator t options e)) \<and>
    (\<forall>it. ready it \<longrightarrow> (\<exists>e'. TwoLevel_delete (table_blocks K R buf t) it = Some e' \<and>
      env_ok bs bytes (tab_cache_id t) others e' \<and> few_blocks others))"
proof -
  have d: "table_data bs seps bytes" and c: "opt_comparator (tab_options t) = C" using t by (simp_all add: open_table_def)
  obtain idx where x: "tab_index_block t = new_Block idx" "built (index_entries bs seps) idx" "length idx < 2 ^ 32"
    using t by (auto simp: open_table_def)
  have ix: "table_index bs seps bytes = index_entries bs seps" using d by (simp add: table_index_def)
  have r: "built_ready (table_index bs seps bytes) idx (Block_NewIterator (tab_index_block t))"
    using built_open [OF x(2,3)] x(1) ix by simp
  note on = contents.two_level_iterator_on [where bs = bs and seps = seps and bytes = bytes and idx = idx and others = others
      and opts = options and buf = buf and t = t]
  show ?thesis
    unfolding table_iterator_def Table_NewIterator_def Let_def c
    by (rule exI, rule exI, rule conjI, rule on [unfolded all_entries [OF d]])
      (intro conjI allI impI contents.new_two_ready [OF r] contents.two_delete; simp)
qed

end

end
