(* ===== verification/LdbTableGet.thy ===== *)
theory LdbTableGet
  imports LdbTableRead
begin

text \<open>
  Looking up a key in a table, the answers a table gives to any sequence of requests, and the interpretation on the
  files, the cache, the keys and the filters the database uses.
\<close>

section \<open>Looking up a key\<close>

text \<open>
  Which keys a lookup distinguishes: the keys the filters treat alike, as long as a key
  between two blocks that the separator sends to the first one is not the same as the next block's first.
\<close>

locale point_lookups = table_reading R good content C valid pol fits K cok entry
  for R :: "'f RandomAccessFile" and good content C valid pol fits and K :: "(Block, 'h, 'c) Cache" and cok entry +
  fixes same :: "slice \<Rightarrow> slice \<Rightarrow> bool"
  assumes filter_same: "pol = Some P \<Longrightarrow> same k k' \<Longrightarrow> fp_KeyMayMatch P k f = fp_KeyMayMatch P k' f"
    and separator_same: "valid a \<Longrightarrow> valid b \<Longrightarrow> valid k \<Longrightarrow> cmp_Compare C a b < 0 \<Longrightarrow> cmp_Compare C a k < 0 \<Longrightarrow>
      cmp_Compare C k (cmp_FindShortestSeparator C a b) \<le> 0 \<Longrightarrow> \<not> same k b"
begin

text \<open>The block a lookup reads, and what is behind it.\<close>

lemma behind_block:
  assumes d: "table_data bs seps bytes" and i: "i < length bs" and k: "valid k"
    and sep: "\<not> cmp_Compare C (seps ! i) k < 0" and beyond: "first_at_or_past (cmp_Compare C) k (fst (bs ! i)) = length (fst (bs ! i))"
    and i1: "Suc i < length bs"
  shows "\<not> same k (fst (hd (fst (bs ! Suc i))))"
proof -
  note s = table_seps [OF d]
  have si: "i < length seps" "Suc i < length seps" using i i1 s(1) by simp_all
  let ?a = "last (fst (bs ! i))" and ?b = "hd (fst (bs ! Suc i))"
  have a: "?a \<in> set (fst (bs ! i))" and b: "?b \<in> set (fst (bs ! Suc i))"
    using table_block_built(3) [OF d i] table_block_built(3) [OF d i1] by simp_all
  have va: "valid (fst ?a)" and vb: "valid (fst ?b)"
    using ordered_valid [OF s(4)] entries_in_blocks [OF i] entries_in_blocks [OF i1] a b by blast+
  have vs: "valid (seps ! i)" using s(3) si by (simp add: list_all_length)
  have "chosen C bs [] seps" using d by (simp add: table_data_def is_table_def)
  from this [unfolded chosen_def, rule_format, OF si(1)]
  have e: "seps ! i = cmp_FindShortestSeparator C (fst ?a) (fst ?b)" using i1 by (simp add: next_key_def)
  have "cmp_Compare C (fst ?a) (seps ! i) \<le> 0" "cmp_Compare C (seps ! i) (fst ?b) < 0"
    using s(2) [unfolded separates_def, rule_format, OF si(1)] i1 a b by (blast intro: lessI)+
  then have ab: "cmp_Compare C (fst ?a) (fst ?b) < 0" using trans_le_less [OF va vs vb] by blast
  have "takeWhile (\<lambda>x. cmp_Compare C (fst x) k < 0) (fst (bs ! i)) = fst (bs ! i)"
    using beyond unfolding first_at_or_past_def by (metis take_all_iff takeWhile_eq_take order_refl)
  then have ak: "cmp_Compare C (fst ?a) k < 0" using a by (metis set_takeWhileD)
  have "cmp_Compare C k (seps ! i) \<le> 0" using sep antisym [OF vs k] antisym [OF k vs] by linarith
  then show ?thesis using separator_same [OF va vb k ab ak] e by simp
qed

text \<open>A filter that is used answers, and does not deny a key of the block.\<close>

lemma filtered_table:
  assumes d: "table_data bs seps bytes" and f: "filter_ok bs (tab_filter t)" and i: "i < length bs"
  shows "\<exists>skip. filtered t (BlockHandle_EncodeTo (block_handle bs i) []) k = Some skip \<and>
    (\<forall>e \<in> set (fst (bs ! i)). same k (fst e) \<longrightarrow> \<not> skip)"
proof (cases pol)
  case None
  then have "tab_filter t = None" using f [unfolded filter_ok_def] by simp
  then show ?thesis by (intro exI [of _ False]) (simp add: filtered_def)
next
  case (Some P)
  obtain fls where r: "tab_filter t = Some (new_FilterBlockReader P (filter_block P fls))"
    "\<forall>ks \<in> set fls. ks \<noteq> [] \<longrightarrow> fits ks" "covers fls bs" "length (filters P fls) < 2 ^ 32"
    using f [unfolded filter_ok_def] Some by auto
  note P = policy [OF Some]
  let ?r = "new_FilterBlockReader P (filter_block P fls)" and ?o = "bh_offset (block_handle bs i)"
  have nr: "fr_base_lg ?r = 11" "fr_policy ?r = P" by (simp_all add: filter_policy.new_reader [OF P r(4)])
  then obtain m where m: "FilterBlock_KeyMayMatch ?o k ?r = Some m" by (simp add: FilterBlock_KeyMayMatch_def Let_def)
  have "m" if e: "e \<in> set (fst (bs ! i))" and s: "same k (fst e)" for e
  proof -
    have "is_table bs seps bytes" using d by (simp add: table_data_def)
    then obtain q where q: "bytes = data_bytes bs @ q" using table_data_bytes by blast
    have "length (data_bytes bs) < 2 ^ 64" using d q by (simp add: table_data_def)
    then have "unat ?o = block_off bs i"
      using block_off_le [of bs i] unfolding block_handle_def handle_at_def BlockHandle.simps
      by (intro unat_small64) simp
    then have "fst e \<in> set (fls ! (unat ?o div 2048))"
      using r(3) i e by (auto simp: covers_def kFilterBase_def kFilterBaseLg_def)
    then have "FilterBlock_KeyMayMatch ?o (fst e) ?r = Some True" using filter_policy.KeyMayMatch_built [OF P r(2,4)] by blast
    moreover have "FilterBlock_KeyMayMatch ?o k ?r = FilterBlock_KeyMayMatch ?o (fst e) ?r"
      using filter_same [OF Some s] by (simp add: FilterBlock_KeyMayMatch_def nr Let_def)
    ultimately show ?thesis using m by simp
  qed
  then show ?thesis
    using m r(1) Handle_Decode_Encode [of "block_handle bs i" "[]" new_BlockHandle] by (auto simp: filtered_def ok_OK)
qed

end

context point_lookups
begin

text \<open>A lookup shows the handler the first entry at or past the key, or nothing; the former if that entry's key is the same.\<close>

theorem InternalGet_table:
  assumes t: "open_table bs seps bytes t" and e: "env_ok bs bytes (tab_cache_id t) M e" and k: "valid k"
    and few: "few_blocks M" and p: "p = first_at_or_past (cmp_Compare C) k (entries_of bs)"
  shows "\<exists>shown e'. InternalGet K R buf t options k arg handle_result e =
      Some ((OK, if shown then handle_result arg (fst (entries_of bs ! p)) (snd (entries_of bs ! p)) else arg), e') \<and>
    env_ok bs bytes (tab_cache_id t) M e' \<and> (shown \<longrightarrow> p < length (entries_of bs)) \<and>
    (p < length (entries_of bs) \<and> same k (fst (entries_of bs ! p)) \<longrightarrow> shown)"
proof -
  have d: "table_data bs seps bytes" and c: "opt_comparator (tab_options t) = C" and f: "filter_ok bs (tab_filter t)"
    using t by (simp_all add: open_table_def)
  note s = table_seps [OF d]
  obtain idx where x: "tab_index_block t = new_Block idx" "built (index_entries bs seps) idx" "length idx < 2 ^ 32"
    using t by (auto simp: open_table_def)
  let ?I = "block_iter C"
  define i where "i = first_at_or_past (cmp_Compare C) k (index_entries bs seps)"
  have ix: "table_index bs seps bytes = index_entries bs seps" "blocks_of bs seps bytes = map fst bs"
    using d by (simp_all add: table_index_def blocks_of_def)
  note pc = contents.first_at_or_past_concat [OF k, of _ bs seps bytes, unfolded ix, OF i_def, folded entries_of_def, folded p]
  note on = built_iterator_on [OF index_sorted [OF d], of idx]
  obtain iiter where ii: "it_Seek ?I k (Block_NewIterator (tab_index_block t)) = Some iiter" "built_on (index_entries bs seps) idx iiter i"
    using iterator_on.seek [OF on built_open [OF x(2,3)] k] unfolding i_def x(1) by blast
  have st: "it_status ?I iiter = OK" by (rule iterator_on.on_status [OF on ii(2)])
  have val: "it_Valid ?I iiter \<longleftrightarrow> i < length seps" using iterator_on.on_valid [OF on ii(2)] by simp
  show ?thesis
  proof (cases "i < length seps")
    case False
    then have "p = length (entries_of bs)" using pc by (simp add: entries_of_def)
    moreover have "InternalGet K R buf t options k arg handle_result e = Some ((OK, arg), e)"
      using ii(1) st val False by (simp add: InternalGet_def c ok_OK Let_def)
    ultimately show ?thesis using e by (intro exI [of _ False] exI [of _ e]) simp
  next
    case True
    then have ib: "i < length bs" using s(1) by simp
    let ?b = "fst (bs ! i)"
    define q where "q = first_at_or_past (cmp_Compare C) k ?b"
    have il: "i < length (table_index bs seps bytes)" using True ix by simp
    have pq: "p = contents.pos bs seps bytes i q" using pc True ib ix by (simp add: q_def)
    have at: "q < length ?b \<Longrightarrow> entries_of bs ! p = ?b ! q \<and> p < length (entries_of bs)"
      using contents.nth_concat [OF il, of q] ix(2) ib pq by (simp add: entries_of_def)
    have none: "\<not> (p < length (entries_of bs) \<and> same k (fst (entries_of bs ! p)))" if q: "\<not> q < length ?b"
    proof -
      have ql: "q = length ?b" using q length_takeWhile_le unfolding q_def first_at_or_past_def by (metis le_neq_implies_less)
      have p1: "p = contents.pos bs seps bytes (Suc i) 0"
        using contents.pos_Suc [OF il] pq ql ix(2) ib by simp
      show ?thesis
      proof (cases "Suc i < length bs")
        case i1: True
        have "\<not> cmp_Compare C (seps ! i) k < 0"
          using True nth_length_takeWhile [of "\<lambda>e. cmp_Compare C (fst e) k < 0" "index_entries bs seps"] index_nth [OF True]
          by (simp add: i_def first_at_or_past_def)
        from behind_block [OF d ib k this _ i1] ql have ns: "\<not> same k (fst (hd (fst (bs ! Suc i))))" by (simp add: q_def)
        have ne: "fst (bs ! Suc i) \<noteq> []" by (rule table_block_built(3) [OF d i1])
        have "entries_of bs ! p = fst (bs ! Suc i) ! 0"
          using contents.nth_concat [of "Suc i" bs seps bytes 0] ix i1 s(1) ne p1 by (simp add: entries_of_def)
        then show ?thesis using ns ne by (simp add: hd_conv_nth)
      next
        case False
        then have "Suc i = length (table_index bs seps bytes)" using ib s(1) ix by simp
        then have "p = length (entries_of bs)" using p1 contents.pos_end [of bs seps bytes] ix(2) by (simp add: entries_of_def)
        then show ?thesis by simp
      qed
    qed
    have hv: "it_value ?I iiter = BlockHandle_EncodeTo (block_handle bs i) []"
      using iterator_on.on_entry [OF on ii(2)] True index_nth [OF True] by simp
    obtain skip where sk: "filtered t (BlockHandle_EncodeTo (block_handle bs i) []) k = Some skip"
      "\<forall>x \<in> set ?b. same k (fst x) \<longrightarrow> \<not> skip"
      using filtered_table [OF d f ib] by blast
    show ?thesis
    proof (cases skip)
      case True
      then have "InternalGet K R buf t options k arg handle_result e = Some ((OK, arg), e)"
        using ii(1) st val \<open>i < length seps\<close> sk(1) hv by (simp add: InternalGet_def c ok_OK Let_def)
      moreover have "\<not> (p < length (entries_of bs) \<and> same k (fst (entries_of bs ! p)))"
        using none at sk(2) True by (cases "q < length ?b") auto
      ultimately show ?thesis using e by (intro exI [of _ False] exI [of _ e]) simp
    next
      case False
      have less: "size (to_release M) < max_handles" using few unfolding few_blocks_def by linarith
      obtain cl e1 where r: "BlockReader K R buf t e options (BlockHandle_EncodeTo (block_handle bs i) []) =
          Some ((Block_NewIterator (new_Block (snd (bs ! i))), cl), e1)" "env_ok bs bytes (tab_cache_id t) (add_mset cl M) e1"
        using BlockReader_table [OF d \<open>i < length seps\<close> e less, where buf = buf and options = options,
          unfolded index_nth [OF \<open>i < length seps\<close>] snd_conv] by blast
      note don = built_iterator_on [OF ordered_sorted [OF table_block_built(4) [OF d ib]], of "snd (bs ! i)"]
      obtain bit where bi: "it_Seek ?I k (Block_NewIterator (new_Block (snd (bs ! i)))) = Some bit" "built_on ?b (snd (bs ! i)) bit q"
        using iterator_on.seek [OF don built_open [OF table_block_built(1,2) [OF d ib]] k] unfolding q_def by blast
      obtain e2 where e2: "table_cleanup K cl e1 = Some e2" "env_ok bs bytes (tab_cache_id t) M e2"
        using table_cleanup_table [OF r(2)] by blast
      have bv: "it_Valid ?I bit \<longleftrightarrow> q < length ?b" by (rule iterator_on.on_valid [OF don bi(2)])
      have get: "InternalGet K R buf t options k arg handle_result e =
          Some ((OK, if it_Valid ?I bit then handle_result arg (it_key ?I bit) (it_value ?I bit) else arg), e2)"
        using ii(1) st val \<open>i < length seps\<close> sk(1) hv False r(1) bi(1) e2(1) iterator_on.on_status [OF don bi(2)]
        by (simp add: InternalGet_def c ok_OK Let_def)
      show ?thesis
      proof (cases "q < length ?b")
        case True
        have "it_key ?I bit = fst (entries_of bs ! p)" "it_value ?I bit = snd (entries_of bs ! p)"
          using iterator_on.on_entry [OF don bi(2) True] at [OF True] by (metis fst_conv, metis snd_conv)
        then show ?thesis using get bv True at [OF True] e2(2) by (intro exI [of _ True] exI [of _ e2]) simp
      next
        case F: False
        then show ?thesis using get bv none [OF F] e2(2) by (intro exI [of _ False] exI [of _ e2]) simp
      qed
    qed
  qed
qed

end

section \<open>Clients of a table\<close>

text \<open>A client scans a table from its first entry or from a key on, in at most \<open>n\<close> steps, or looks up a key.\<close>

datatype table_request = Scan "slice option" | Get slice

type_synonym table_answer = "(slice \<times> slice) list \<times> Status"

definition scan_table ::
    "(Block, 'h, 'c) Cache \<Rightarrow> 'f RandomAccessFile \<Rightarrow> u64 \<Rightarrow> Table \<Rightarrow> ReadOptions \<Rightarrow> nat \<Rightarrow> slice option \<Rightarrow>
     ('f, 'c) table_env \<Rightarrow> (table_answer \<times> ('f, 'c) table_env) option" where
  "scan_table K R buf t options n start e = do {
     let I = table_iterator K R buf t;
     it \<leftarrow> (case start of None \<Rightarrow> it_SeekToFirst I | Some k \<Rightarrow> it_Seek I k) (Table_NewIterator t options e);
     (es, it1) \<leftarrow> scan_from I n it;
     e1 \<leftarrow> TwoLevel_delete (table_blocks K R buf t) it1;
     Some ((es, it_status I it1), e1) }"

definition get_table ::
    "(Block, 'h, 'c) Cache \<Rightarrow> 'f RandomAccessFile \<Rightarrow> u64 \<Rightarrow> Table \<Rightarrow> ReadOptions \<Rightarrow> slice \<Rightarrow>
     ('f, 'c) table_env \<Rightarrow> (table_answer \<times> ('f, 'c) table_env) option" where
  "get_table K R buf t options k e = do {
     ((s, es), e1) \<leftarrow> InternalGet K R buf t options k [] (\<lambda>es key v. es @ [(key, v)]) e; Some ((es, s), e1) }"

primrec table_requests ::
    "(Block, 'h, 'c) Cache \<Rightarrow> 'f RandomAccessFile \<Rightarrow> u64 \<Rightarrow> Table \<Rightarrow> ReadOptions \<Rightarrow> nat \<Rightarrow> table_request list \<Rightarrow>
     ('f, 'c) table_env \<Rightarrow> (table_answer list \<times> ('f, 'c) table_env) option" where
  "table_requests K R buf t options n [] e = Some ([], e)"
| "table_requests K R buf t options n (q # qs) e = do {
     (a, e1) \<leftarrow> (case q of Scan start \<Rightarrow> scan_table K R buf t options n start e | Get k \<Rightarrow> get_table K R buf t options k e);
     (rs, e2) \<leftarrow> table_requests K R buf t options n qs e1;
     Some (a # rs, e2) }"

text \<open>The answers from a table with the entries \<open>kvs\<close>. A lookup may miss if the key is not the same as that of the first entry
  at or past it.\<close>

definition table_answers ::
    "(slice \<Rightarrow> slice \<Rightarrow> int) \<Rightarrow> (slice \<Rightarrow> slice \<Rightarrow> bool) \<Rightarrow> (slice \<times> slice) list \<Rightarrow> table_request \<Rightarrow> table_answer \<Rightarrow> bool" where
  "table_answers cmp same kvs q a \<longleftrightarrow> (case q of
       Scan None \<Rightarrow> a = (kvs, OK)
     | Scan (Some k) \<Rightarrow> a = (dropWhile (\<lambda>e. cmp (fst e) k < 0) kvs, OK)
     | Get k \<Rightarrow> (let es = dropWhile (\<lambda>e. cmp (fst e) k < 0) kvs in
         snd a = OK \<and> (fst a = take 1 es \<or> fst a = [] \<and> (es = [] \<or> \<not> same k (fst (hd es))))))"

primrec request_ok :: "(slice \<Rightarrow> bool) \<Rightarrow> table_request \<Rightarrow> bool" where
  "request_ok valid (Scan start) \<longleftrightarrow> (case start of None \<Rightarrow> True | Some k \<Rightarrow> valid k)"
| "request_ok valid (Get k) \<longleftrightarrow> valid k"

lemma drop_first_at_or_past: "drop (first_at_or_past cmp k es) es = dropWhile (\<lambda>e. cmp (fst e) k < 0) es"
  by (simp add: first_at_or_past_def dropWhile_eq_drop)

context table_reading
begin

lemma scan_table_answers:
  assumes t: "open_table bs seps bytes t" and e: "env_ok bs bytes (tab_cache_id t) M e"
    and few: "few_blocks M" and start: "request_ok valid (Scan start)" and n: "length (entries_of bs) < n"
  shows "\<exists>a e'. scan_table K R buf t options n start e = Some (a, e') \<and> env_ok bs bytes (tab_cache_id t) M e' \<and>
    table_answers (cmp_Compare C) same (entries_of bs) (Scan start) a"
proof -
  let ?I = "table_iterator K R buf t" and ?es = "entries_of bs"
  define cleanups where "cleanups = image_mset ReleaseBlock (to_release M)"
  have same_env: "env_ok bs bytes (tab_cache_id t) cleanups x = env_ok bs bytes (tab_cache_id t) M x" for x
    unfolding env_ok_def cleanups_def to_release_handles by (rule refl)
  have e': "env_ok bs bytes (tab_cache_id t) cleanups e" using e by (simp add: same_env)
  have few': "few_blocks cleanups" using few by (simp add: few_blocks_def cleanups_def to_release_handles)
  obtain ready on where r: "iterator_on ?I (cmp_Compare C) valid ?es ready on"
    "ready (Table_NewIterator t options e)"
    "\<forall>it. ready it \<longrightarrow> (\<exists>e1. TwoLevel_delete (table_blocks K R buf t) it = Some e1 \<and> env_ok bs bytes (tab_cache_id t) cleanups e1)"
    using table_iterator_on [OF t, of buf cleanups options] e' few' by blast
  obtain it i where it: "(case start of None \<Rightarrow> it_SeekToFirst ?I | Some k \<Rightarrow> it_Seek ?I k) (Table_NewIterator t options e) = Some it"
    "on it i" "drop i ?es = (case start of None \<Rightarrow> ?es | Some k \<Rightarrow> dropWhile (\<lambda>e. cmp_Compare C (fst e) k < 0) ?es)"
  proof (cases start)
    case None
    then show ?thesis using iterator_on.seek_to_first [OF r(1,2)] that by fastforce
  next
    case (Some k)
    then show ?thesis using iterator_on.seek [OF r(1,2), of k] start that by (fastforce simp: drop_first_at_or_past)
  qed
  obtain it1 where it1: "scan_from ?I n it = Some (drop i ?es, it1)" "on it1 (length ?es)"
    using iterator_on.scan_from_on [OF r(1) it(2), of n] n by auto
  have "ready it1" "it_status ?I it1 = OK"
    using iterator_on.on_ready [OF r(1) it1(2)] iterator_on.on_status [OF r(1) it1(2)] by simp_all
  then obtain e1 where e1: "TwoLevel_delete (table_blocks K R buf t) it1 = Some e1" "env_ok bs bytes (tab_cache_id t) cleanups e1"
    using r(3) by blast
  then show ?thesis
    using it(1,3) it1(1) e1(2) [unfolded same_env] \<open>it_status ?I it1 = OK\<close> unfolding scan_table_def Let_def
    by (cases start) (simp_all add: table_answers_def)
qed

end

context point_lookups
begin

lemma get_table_answers:
  assumes t: "open_table bs seps bytes t" and e: "env_ok bs bytes (tab_cache_id t) M e" and few: "few_blocks M" and k: "valid k"
  shows "\<exists>a e'. get_table K R buf t options k e = Some (a, e') \<and> env_ok bs bytes (tab_cache_id t) M e' \<and>
    table_answers (cmp_Compare C) same (entries_of bs) (Get k) a"
proof -
  let ?es = "entries_of bs"
  define p where "p = first_at_or_past (cmp_Compare C) k ?es"
  obtain shown e' where g: "InternalGet K R buf t options k [] (\<lambda>es key v. es @ [(key, v)]) e =
      Some ((OK, if shown then [] @ [(fst (?es ! p), snd (?es ! p))] else []), e')"
    "env_ok bs bytes (tab_cache_id t) M e'" "shown \<longrightarrow> p < length ?es"
    "p < length ?es \<and> same k (fst (?es ! p)) \<longrightarrow> shown"
    using InternalGet_table [OF t e k few p_def, where arg = "[]" and handle_result = "\<lambda>es key v. es @ [(key, v)]"] by blast
  have d: "dropWhile (\<lambda>e. cmp_Compare C (fst e) k < 0) ?es = drop p ?es" by (simp add: p_def drop_first_at_or_past)
  have "take 1 (drop p ?es) = [?es ! p]" "hd (drop p ?es) = ?es ! p" if "p < length ?es"
    using that by (simp_all add: take_Suc hd_drop_conv_nth)
  then show ?thesis using g unfolding get_table_def by (auto simp: table_answers_def d Let_def)
qed

text \<open>Whatever the requests, all are answered, and the cache holds nothing for the table in the end.\<close>

theorem requests_answered:
  assumes t: "open_table bs seps bytes t" and few: "few_blocks M" and n: "length (entries_of bs) < n"
  shows "env_ok bs bytes (tab_cache_id t) M e \<Longrightarrow> list_all (request_ok valid) qs \<Longrightarrow>
    \<exists>rs e'. table_requests K R buf t options n qs e = Some (rs, e') \<and> env_ok bs bytes (tab_cache_id t) M e' \<and>
      list_all2 (table_answers (cmp_Compare C) same (entries_of bs)) qs rs"
proof (induction qs arbitrary: e)
  case (Cons q qs)
  obtain a e1 where a: "(case q of Scan start \<Rightarrow> scan_table K R buf t options n start e | Get k \<Rightarrow> get_table K R buf t options k e) =
      Some (a, e1)" "env_ok bs bytes (tab_cache_id t) M e1" "table_answers (cmp_Compare C) same (entries_of bs) q a"
  proof (cases q)
    case (Scan start)
    then show ?thesis using scan_table_answers [OF t Cons.prems(1) few _ n, of start buf options same] Cons.prems(2) that by auto
  next
    case (Get k)
    then show ?thesis using get_table_answers [OF t Cons.prems(1) few, of k buf options] Cons.prems(2) that by auto
  qed
  obtain rs e2 where "table_requests K R buf t options n qs e1 = Some (rs, e2)" "env_ok bs bytes (tab_cache_id t) M e2"
    "list_all2 (table_answers (cmp_Compare C) same (entries_of bs)) qs rs"
    using Cons.IH [OF a(2)] Cons.prems(2) by auto
  then show ?case using a by simp
qed simp

end

section \<open>The database's tables\<close>

text \<open>The separator of internal keys is the first key or has a user key strictly between.\<close>

lemma internal_separator_same:
  assumes l: "8 \<le> length a" "8 \<le> length b" "8 \<le> length k"
    and ak: "cmp_Compare internal_comparator a k < 0" and ks: "cmp_Compare internal_comparator k (cmp_FindShortestSeparator internal_comparator a b) \<le> 0"
  shows "ExtractUserKey k \<noteq> ExtractUserKey b"
proof -
  let ?C = BytewiseComparator
  let ?t = "cmp_FindShortestSeparator ?C (ExtractUserKey a) (ExtractUserKey b)"
  have "\<not> cmp_Compare internal_comparator k a \<le> 0" using internal.antisym [OF l(1,3)] ak by linarith
  then have "cmp_FindShortestSeparator internal_comparator a b \<noteq> a" using ks by auto
  then have t: "length ?t < length (ExtractUserKey a) \<and> cmp_Compare ?C (ExtractUserKey a) ?t < 0"
      "cmp_FindShortestSeparator internal_comparator a b = InternalKey_FindShortestSeparator ?C a b"
    by (auto simp: InternalKeyComparator_def InternalKey_FindShortestSeparator_def Let_def split: if_splits)
  have "cmp_Compare ?C (ExtractUserKey a) (ExtractUserKey b) < 0"
    using bytewise.separator_id [OF TrueI TrueI, of "ExtractUserKey a" "ExtractUserKey b"] t(1) by (metis order_less_irrefl)
  then have tb: "cmp_Compare ?C ?t (ExtractUserKey b) < 0" using bytewise.separator by blast
  have "cmp_Compare ?C (ExtractUserKey k) ?t \<le> 0"
    using ks t bytewise.shortened_key(2) [OF TrueI]
    by (auto simp: InternalKeyComparator_def InternalKey_FindShortestSeparator_def Let_def bytewise.internal_le bytewise.below_def
        bytewise.equiv_def)
  then have "cmp_Compare ?C (ExtractUserKey k) (ExtractUserKey b) < 0" using bytewise.trans_le_less tb by blast
  then show ?thesis using bytewise.compare_refl by (metis order_less_irrefl TrueI)
qed

interpretation mmap_tables: point_lookups "posix_mmap P" "\<lambda>f. length (mmap_data f) = unat (mmap_length f)" mmap_data
    internal_comparator "\<lambda>k. 8 \<le> length k" "table_policy bpk" "policy_fits bpk" lru_cache sharded_ok sharded_entry
    "\<lambda>k k'. ExtractUserKey k = ExtractUserKey k'"
  for P bpk
proof (intro point_lookups.intro table_reading.intro point_lookups_axioms.intro table_format.intro table_format_axioms.intro
    mmap.random_access_file_axioms internal.comparator_axioms lru.cache_axioms policy_law, goal_cases)
  case (1 Q)
  then show ?case by simp
next
  case (2 Q k k' f)
  then show ?case by (cases bpk) (auto simp: table_policy_def InternalFilterPolicy_def)
next
  case (3 a b k)
  then show ?case using internal_separator_same by blast
qed

end
