(* ===== verification/LdbRandom.thy ===== *)
theory LdbRandom
  imports LdbCoding
begin

text \<open>
  \<open>util/random.h\<close>: the pseudo-random numbers of skip lists and of read sampling. They are those of the
  multiplicative generator the comments describe, computed without a division.
\<close>

record Random =
  rnd_seed :: u32

definition new_Random :: "u32 \<Rightarrow> Random" where
  "new_Random s = (let seed = s AND 0x7fffffff in \<lparr>rnd_seed = (if seed = 0 \<or> seed = 2147483647 then 1 else seed)\<rparr>)"

definition Random_Next :: "Random \<Rightarrow> u32 \<times> Random" where
  "Random_Next r =
     (let M = 2147483647 :: u32;
          product = ucast (rnd_seed r) * 16807 :: u64;
          seed = ucast (drop_bit 31 product + (product AND ucast M)) :: u32;
          seed' = (if seed > M then seed - M else seed)
      in (seed', r\<lparr>rnd_seed := seed'\<rparr>))"

text \<open>An \<open>int\<close> the unsigned number is divided by is converted first.\<close>

definition Uniform :: "u32 \<Rightarrow> Random \<Rightarrow> u32 \<times> Random" where
  "Uniform n r = (let (x, r') = Random_Next r in (x mod n, r'))"

definition OneIn :: "u32 \<Rightarrow> Random \<Rightarrow> bool \<times> Random" where
  "OneIn n r = (let (x, r') = Random_Next r in (x mod n = 0, r'))"

definition Skewed :: "u32 \<Rightarrow> Random \<Rightarrow> u32 \<times> Random" where
  "Skewed max_log r = (let (base, r') = Uniform (max_log + 1) r in Uniform (push_bit (unat base) 1) r')"

section \<open>The generator\<close>

definition random_ok :: "Random \<Rightarrow> bool" where
  "random_ok r \<longleftrightarrow> 0 < unat (rnd_seed r) \<and> unat (rnd_seed r) < 2147483647"

lemma random_ok_new: "random_ok (new_Random s)"
proof -
  let ?s = "s AND 0x7fffffff"
  have m: "0x7fffffff = (mask 31 :: u32)" by (simp add: mask_eq_exp_minus_1)
  have "unat (take_bit 31 s) = take_bit 31 (unat s)" by (rule unsigned_take_bit_eq)
  then have "unat ?s = take_bit 31 (unat s)" by (simp only: m take_bit_eq_mask [symmetric])
  then have "unat ?s = unat s mod 2 ^ 31" unfolding take_bit_eq_mod [of 31 "unat s"] .
  then have "unat ?s < 2 ^ 31" by simp
  moreover have "unat ?s \<noteq> 2147483647" if "?s \<noteq> 2147483647"
    using that word_unat_eq_iff [of ?s 2147483647] by simp
  ultimately show ?thesis by (auto simp: random_ok_def new_Random_def Let_def unat_gt_0)
qed

text \<open>Both prime to \<open>M\<close>, the factor and the seed have a product that is.\<close>

lemma product_not_zero:
  assumes "0 < n" and "n < 2147483647"
  shows "0 < (n * 16807) mod (2147483647 :: nat)"
proof -
  have "\<not> 2147483647 dvd n" using assms by (auto dest: dvd_imp_le)
  moreover have "2147483647 dvd n" if "2147483647 dvd n * 16807"
  proof -
    have "2147483647 dvd n * 16807 * 1407677000" using that by (rule dvd_mult2)
    moreover have "n * 16807 * 1407677000 = n + 2147483647 * (11017 * n)" by simp
    ultimately show ?thesis by (metis dvd_add_left_iff dvd_triv_left)
  qed
  ultimately have "\<not> 2147483647 dvd n * 16807" by blast
  then show ?thesis by (simp add: mod_greater_zero_iff_not_dvd)
qed

text \<open>A number is its high part and its low part to the modulus \<open>2 ^ 31 - 1\<close>.\<close>

lemma fold_31:
  assumes p: "p < 2 ^ 46" and n: "0 < p mod 2147483647"
  shows "(let s = p div 2 ^ 31 + p mod 2 ^ 31 in if s > 2147483647 then s - 2147483647 else s) = p mod (2147483647 :: nat)"
proof -
  define h l where "h = p div 2 ^ 31" and "l = p mod 2 ^ 31"
  have e: "p = h + l + 2147483647 * h" using div_mult_mod_eq [of p "2 ^ 31"] by (simp add: h_def l_def)
  then have m: "p mod 2147483647 = (h + l) mod 2147483647" by (metis mod_mult_self2)
  have b: "h < 2 ^ 15" "l < 2 ^ 31" using p by (simp_all add: h_def l_def less_mult_imp_div_less)
  show ?thesis
  proof (cases "h + l > 2147483647")
    case True
    then have "(h + l) mod 2147483647 = (h + l - 2147483647) mod 2147483647" by (intro le_mod_geq) simp
    then show ?thesis using True b m unfolding h_def [symmetric] l_def [symmetric] Let_def by simp
  next
    case False
    have "h + l \<noteq> 2147483647" using m n by auto
    then show ?thesis using False m unfolding h_def [symmetric] l_def [symmetric] Let_def by simp
  qed
qed

lemma Random_Next_eq:
  assumes "random_ok r"
  shows "unat (fst (Random_Next r)) = (unat (rnd_seed r) * 16807) mod 2147483647"
    "snd (Random_Next r) = r\<lparr>rnd_seed := fst (Random_Next r)\<rparr>" "random_ok (snd (Random_Next r))"
proof -
  let ?n = "unat (rnd_seed r)"
  let ?p = "ucast (rnd_seed r) * 16807 :: u64"
  have r: "0 < ?n" "?n < 2147483647" using assms by (simp_all add: random_ok_def)
  have u: "unat ?p = ?n * 16807"
    using r(2) by (simp add: unat_mult_lem [THEN iffD1] unat_ucast_up)
  have b: "?n * 16807 < 2 ^ 46" using r(2) by simp
  have m: "ucast (2147483647 :: u32) = (mask 31 :: u64)" by (simp add: mask_eq_exp_minus_1)
  have "unat (drop_bit 31 ?p) = drop_bit 31 (take_bit LENGTH(64) (unat ?p))" by (rule unsigned_drop_bit_eq)
  moreover have "take_bit LENGTH(64) (unat ?p) = ?n * 16807" using b unfolding u by (intro take_bit_nat_eq_self) simp
  ultimately have hi: "unat (drop_bit 31 ?p) = ?n * 16807 div 2 ^ 31" by (simp only: drop_bit_eq_div [of 31 "?n * 16807"])
  have "unat (take_bit 31 ?p) = take_bit 31 (unat ?p)" by (rule unsigned_take_bit_eq)
  then have lo: "unat (?p AND mask 31) = ?n * 16807 mod 2 ^ 31"
    unfolding u take_bit_eq_mask [of 31 ?p] take_bit_eq_mod [of 31 "?n * 16807"] .
  define s where "s = (ucast (drop_bit 31 ?p + (?p AND mask 31)) :: u32)"
  have lt: "?n * 16807 div 2 ^ 31 < 2 ^ 15" "?n * 16807 mod 2 ^ 31 < 2 ^ 31" using b by (simp_all add: less_mult_imp_div_less)
  then have "unat (drop_bit 31 ?p + (?p AND mask 31)) = ?n * 16807 div 2 ^ 31 + ?n * 16807 mod 2 ^ 31"
    unfolding hi [symmetric] lo [symmetric] by (intro unat_add_lem [THEN iffD1]) simp
  then have s: "unat s = ?n * 16807 div 2 ^ 31 + ?n * 16807 mod 2 ^ 31"
    using lt unfolding s_def by (simp add: unsigned_ucast_eq take_bit_nat_eq_self)
  have N: "fst (Random_Next r) = (if s > 2147483647 then s - 2147483647 else s)"
    by (simp add: Random_Next_def Let_def s_def m [symmetric])
  have "unat (if s > 2147483647 then s - 2147483647 else s) = (let n = unat s in if n > 2147483647 then n - 2147483647 else n)"
    by (simp add: Let_def word_less_nat_alt unat_sub_if_size)
  then show e: "unat (fst (Random_Next r)) = (?n * 16807) mod 2147483647"
    unfolding N using fold_31 [OF b product_not_zero [OF r]] unfolding s Let_def by simp
  show x: "snd (Random_Next r) = r\<lparr>rnd_seed := fst (Random_Next r)\<rparr>" by (simp add: Random_Next_def Let_def)
  show "random_ok (snd (Random_Next r))"
    using e product_not_zero [OF r] unfolding x by (simp add: random_ok_def)
qed

end
