(* ===== verification/LdbSkipList.thy ===== *)
theory LdbSkipList
  imports LdbRandom "HOL-Library.Monad_Syntax" "HOL-Library.Multiset"
begin

text \<open>
  \<open>db/skiplist.h\<close>: nodes in the arena are numbered in the order of their allocation, \<open>head_\<close> is node 0, and a null
  pointer is None. What is undefined in the code (reading a link or a key that is not there) and a failed assertion are None
  as the result of an operation. The atomic loads and stores are those of a single thread.
\<close>

section \<open>Nodes and links\<close>

record 'k SkipNode =
  sn_key :: "'k option"
  sn_next :: "nat option list"

record 'k SkipList =
  sl_nodes :: "'k SkipNode list"
  sl_max_height :: nat
  sl_rnd :: Random

definition kMaxHeight :: nat where "kMaxHeight = 12"

definition sl_head :: nat where "sl_head = 0"

definition Node_Next :: "'k SkipList \<Rightarrow> nat \<Rightarrow> nat \<Rightarrow> nat option option" where
  "Node_Next sl x n =
     (if x < length (sl_nodes sl) \<and> n < length (sn_next (sl_nodes sl ! x)) then Some (sn_next (sl_nodes sl ! x) ! n) else None)"

definition Node_SetNext :: "nat \<Rightarrow> nat \<Rightarrow> nat option \<Rightarrow> 'k SkipList \<Rightarrow> 'k SkipList option" where
  "Node_SetNext x n y sl =
     (if x < length (sl_nodes sl) \<and> n < length (sn_next (sl_nodes sl ! x))
      then Some (sl\<lparr>sl_nodes := (sl_nodes sl)[x := (sl_nodes sl ! x)\<lparr>sn_next := (sn_next (sl_nodes sl ! x))[n := y]\<rparr>]\<rparr>)
      else None)"

definition Node_key :: "'k SkipList \<Rightarrow> nat \<Rightarrow> 'k option" where
  "Node_key sl x = (if x < length (sl_nodes sl) then sn_key (sl_nodes sl ! x) else None)"

text \<open>The head has no key: it gets a null one that is never looked at.\<close>

definition NewNode :: "'k option \<Rightarrow> nat \<Rightarrow> 'k SkipNode" where
  "NewNode key height = \<lparr>sn_key = key, sn_next = replicate height None\<rparr>"

definition new_SkipList :: "'k SkipList" where
  "new_SkipList = \<lparr>sl_nodes = [NewNode None kMaxHeight], sl_max_height = 1, sl_rnd = new_Random 0xdeadbeef\<rparr>"

text \<open>The loop that draws a height.\<close>

function random_height :: "nat \<Rightarrow> Random \<Rightarrow> nat \<times> Random" where
  "random_height height rnd =
     (if height < kMaxHeight
      then (let (x, rnd1) = Random_Next rnd in if x mod 4 = 0 then random_height (height + 1) rnd1 else (height, rnd1))
      else (height, rnd))"
  by pat_completeness auto
termination
  by (relation "measure (\<lambda>(height, rnd). kMaxHeight - height)") auto

declare random_height.simps [simp del]

definition RandomHeight :: "'k SkipList \<Rightarrow> nat \<times> 'k SkipList" where
  "RandomHeight sl = (let (height, rnd) = random_height 1 (sl_rnd sl) in (height, sl\<lparr>sl_rnd := rnd\<rparr>))"

section \<open>Searching\<close>

text \<open>The three searches have the same loop, from a node and a level: \<open>go x next\<close> says whether it goes on at this level. It
  ends with \<open>x\<close> and \<open>next\<close>; \<open>prev\<close> is None for the null pointer.\<close>

partial_function (option) search ::
    "(nat \<Rightarrow> nat option \<Rightarrow> bool option) \<Rightarrow> 'k SkipList \<Rightarrow> nat \<Rightarrow> nat \<Rightarrow> nat option list option \<Rightarrow>
      (nat \<times> nat option \<times> nat option list option) option" where
  "search go sl x level prev = do {
     next \<leftarrow> Node_Next sl x level;
     on \<leftarrow> go x next;
     if on then do { y \<leftarrow> next; search go sl y level prev }
     else (let prev1 = map_option (\<lambda>a. a[level := Some x]) prev in
       if level = 0 then Some (x, next, prev1) else search go sl x (level - 1) prev1) }"

definition KeyIsAfterNode :: "('k \<Rightarrow> 'k \<Rightarrow> int) \<Rightarrow> 'k SkipList \<Rightarrow> 'k \<Rightarrow> nat option \<Rightarrow> bool option" where
  "KeyIsAfterNode cmp sl key n = (case n of None \<Rightarrow> Some False | Some y \<Rightarrow> do { k \<leftarrow> Node_key sl y; Some (cmp k key < 0) })"

definition FindGreaterOrEqual ::
    "('k \<Rightarrow> 'k \<Rightarrow> int) \<Rightarrow> 'k SkipList \<Rightarrow> 'k \<Rightarrow> nat option list option \<Rightarrow> (nat option \<times> nat option list option) option" where
  "FindGreaterOrEqual cmp sl key prev = do {
     (x, next, prev1) \<leftarrow> search (\<lambda>x next. KeyIsAfterNode cmp sl key next) sl sl_head (sl_max_height sl - 1) prev;
     Some (next, prev1) }"

text \<open>The loop of \<open>FindLessThan\<close> begins with an assertion.\<close>

definition is_less_than :: "('k \<Rightarrow> 'k \<Rightarrow> int) \<Rightarrow> 'k SkipList \<Rightarrow> 'k \<Rightarrow> nat \<Rightarrow> nat option \<Rightarrow> bool option" where
  "is_less_than cmp sl key x n = do {
     below \<leftarrow> (if x = sl_head then Some True else do { k \<leftarrow> Node_key sl x; Some (cmp k key < 0) });
     if below then (case n of None \<Rightarrow> Some False | Some y \<Rightarrow> do { k \<leftarrow> Node_key sl y; Some (\<not> cmp k key \<ge> 0) }) else None }"

definition FindLessThan :: "('k \<Rightarrow> 'k \<Rightarrow> int) \<Rightarrow> 'k SkipList \<Rightarrow> 'k \<Rightarrow> nat option" where
  "FindLessThan cmp sl key = do {
     (x, next, prev) \<leftarrow> search (is_less_than cmp sl key) sl sl_head (sl_max_height sl - 1) None; Some x }"

definition FindLast :: "'k SkipList \<Rightarrow> nat option" where
  "FindLast sl = do {
     (x, next, prev) \<leftarrow> search (\<lambda>x next. Some (next \<noteq> None)) sl sl_head (sl_max_height sl - 1) None; Some x }"

section \<open>Inserting\<close>

text \<open>The loop that links the new node at the levels from \<open>i\<close> on.\<close>

primrec link_levels :: "nat \<Rightarrow> nat option list \<Rightarrow> nat list \<Rightarrow> 'k SkipList \<Rightarrow> 'k SkipList option" where
  "link_levels x prev [] sl = Some sl"
| "link_levels x prev (i # is) sl = do {
     p \<leftarrow> prev ! i;
     n \<leftarrow> Node_Next sl p i;
     sl1 \<leftarrow> Node_SetNext x i n sl;
     sl2 \<leftarrow> Node_SetNext p i (Some x) sl1;
     link_levels x prev is sl2 }"

definition SkipList_Insert :: "('k \<Rightarrow> 'k \<Rightarrow> int) \<Rightarrow> 'k \<Rightarrow> 'k SkipList \<Rightarrow> 'k SkipList option" where
  "SkipList_Insert cmp key sl = do {
     (x, prev) \<leftarrow> FindGreaterOrEqual cmp sl key (Some (replicate kMaxHeight None));
     fresh \<leftarrow> (case x of None \<Rightarrow> Some True | Some y \<Rightarrow> do { k \<leftarrow> Node_key sl y; Some (cmp key k \<noteq> 0) });
     if fresh then do {
       prev \<leftarrow> prev;
       let (height, sl1) = RandomHeight sl;
           (prev1, sl2) = (if height > sl_max_height sl1
             then (fold (\<lambda>i a. a[i := Some sl_head]) [sl_max_height sl1..<height] prev, sl1\<lparr>sl_max_height := height\<rparr>)
             else (prev, sl1));
           z = length (sl_nodes sl2)
       in link_levels z prev1 [0..<height] (sl2\<lparr>sl_nodes := sl_nodes sl2 @ [NewNode (Some key) height]\<rparr>) }
     else None }"

definition SkipList_Contains :: "('k \<Rightarrow> 'k \<Rightarrow> int) \<Rightarrow> 'k \<Rightarrow> 'k SkipList \<Rightarrow> bool option" where
  "SkipList_Contains cmp key sl = do {
     (x, prev) \<leftarrow> FindGreaterOrEqual cmp sl key None;
     case x of None \<Rightarrow> Some False | Some y \<Rightarrow> do { k \<leftarrow> Node_key sl y; Some (cmp key k = 0) } }"

section \<open>Iterators\<close>

text \<open>An iterator has a pointer to the list, here the list as it is when the iterator is used.\<close>

record 'k SkipIterator =
  si_list :: "'k SkipList"
  si_node :: "nat option"

definition new_SkipIterator :: "'k SkipList \<Rightarrow> 'k SkipIterator" where
  "new_SkipIterator sl = \<lparr>si_list = sl, si_node = None\<rparr>"

definition Skip_Valid :: "'k SkipIterator \<Rightarrow> bool" where
  "Skip_Valid it \<longleftrightarrow> si_node it \<noteq> None"

definition Skip_key :: "'k SkipIterator \<Rightarrow> 'k option" where
  "Skip_key it = Option.bind (si_node it) (Node_key (si_list it))"

definition Skip_Next :: "'k SkipIterator \<Rightarrow> 'k SkipIterator option" where
  "Skip_Next it = do { x \<leftarrow> si_node it; n \<leftarrow> Node_Next (si_list it) x 0; Some (it\<lparr>si_node := n\<rparr>) }"

definition Skip_Prev :: "('k \<Rightarrow> 'k \<Rightarrow> int) \<Rightarrow> 'k SkipIterator \<Rightarrow> 'k SkipIterator option" where
  "Skip_Prev cmp it = do {
     key \<leftarrow> Skip_key it;
     x \<leftarrow> FindLessThan cmp (si_list it) key;
     Some (it\<lparr>si_node := (if x = sl_head then None else Some x)\<rparr>) }"

definition Skip_Seek :: "('k \<Rightarrow> 'k \<Rightarrow> int) \<Rightarrow> 'k \<Rightarrow> 'k SkipIterator \<Rightarrow> 'k SkipIterator option" where
  "Skip_Seek cmp target it = do { (x, prev) \<leftarrow> FindGreaterOrEqual cmp (si_list it) target None; Some (it\<lparr>si_node := x\<rparr>) }"

definition Skip_SeekToFirst :: "'k SkipIterator \<Rightarrow> 'k SkipIterator option" where
  "Skip_SeekToFirst it = do { n \<leftarrow> Node_Next (si_list it) sl_head 0; Some (it\<lparr>si_node := n\<rparr>) }"

definition Skip_SeekToLast :: "'k SkipIterator \<Rightarrow> 'k SkipIterator option" where
  "Skip_SeekToLast it = do { x \<leftarrow> FindLast (si_list it); Some (it\<lparr>si_node := (if x = sl_head then None else Some x)\<rparr>) }"

text \<open>A client that inserts some keys, and one that reads the keys from an iterator on, at most \<open>n\<close> of them.\<close>

primrec insert_all :: "('k \<Rightarrow> 'k \<Rightarrow> int) \<Rightarrow> 'k list \<Rightarrow> 'k SkipList \<Rightarrow> 'k SkipList option" where
  "insert_all cmp [] sl = Some sl"
| "insert_all cmp (k # ks) sl = do { sl1 \<leftarrow> SkipList_Insert cmp k sl; insert_all cmp ks sl1 }"

primrec skip_scan :: "nat \<Rightarrow> 'k SkipIterator \<Rightarrow> 'k list option" where
  "skip_scan 0 it = Some []"
| "skip_scan (Suc n) it =
     (if Skip_Valid it then do { k \<leftarrow> Skip_key it; it' \<leftarrow> Skip_Next it; ks \<leftarrow> skip_scan n it'; Some (k # ks) } else Some [])"

section \<open>The shape of a list\<close>

definition node_height :: "'k SkipList \<Rightarrow> nat \<Rightarrow> nat" where
  "node_height sl x = length (sn_next (sl_nodes sl ! x))"

definition node_keys :: "'k SkipList \<Rightarrow> nat list \<Rightarrow> 'k list" where
  "node_keys sl xs = map (\<lambda>x. the (sn_key (sl_nodes sl ! x))) xs"

text \<open>The nodes behind the head are \<open>xs\<close>, in order, and at each level of a node its link is to the next one that is high enough.\<close>

definition linked :: "'k SkipList \<Rightarrow> nat list \<Rightarrow> bool" where
  "linked sl xs \<longleftrightarrow> (\<forall>p \<le> length xs. \<forall>l < node_height sl ((sl_head # xs) ! p).
     sn_next (sl_nodes sl ! ((sl_head # xs) ! p)) ! l = List.find (\<lambda>y. l < node_height sl y) (drop p xs))"

definition skip_ok :: "'k SkipList \<Rightarrow> nat list \<Rightarrow> bool" where
  "skip_ok sl xs \<longleftrightarrow> distinct (sl_head # xs) \<and> set (sl_head # xs) = {..<length (sl_nodes sl)} \<and>
     node_height sl sl_head = kMaxHeight \<and> 1 \<le> sl_max_height sl \<and> sl_max_height sl \<le> kMaxHeight \<and>
     (\<forall>x \<in> set xs. 1 \<le> node_height sl x \<and> node_height sl x \<le> sl_max_height sl \<and> sn_key (sl_nodes sl ! x) \<noteq> None) \<and>
     linked sl xs"

lemma skip_ok_new: "skip_ok new_SkipList []"
  by (auto simp: skip_ok_def new_SkipList_def NewNode_def linked_def node_height_def sl_head_def kMaxHeight_def)

lemma Node_Next_at:
  assumes "skip_ok sl xs" and "p \<le> length xs" and "l < node_height sl ((sl_head # xs) ! p)"
  shows "Node_Next sl ((sl_head # xs) ! p) l = Some (List.find (\<lambda>y. l < node_height sl y) (drop p xs))"
proof -
  have "(sl_head # xs) ! p \<in> set (sl_head # xs)" using assms(2) by (intro nth_mem) simp
  then have "(sl_head # xs) ! p < length (sl_nodes sl)" using assms(1) unfolding skip_ok_def by blast
  then show ?thesis using assms unfolding Node_Next_def skip_ok_def linked_def node_height_def by simp
qed

lemma Node_key_at: "skip_ok sl xs \<Longrightarrow> q < length xs \<Longrightarrow> Node_key sl (xs ! q) = Some (node_keys sl xs ! q)"
proof -
  assume s: "skip_ok sl xs" and q: "q < length xs"
  then have "xs ! q \<in> {..<length (sl_nodes sl)}" unfolding skip_ok_def by (metis insertCI list.set(2) nth_mem)
  then show ?thesis using s q by (auto simp: Node_key_def node_keys_def skip_ok_def)
qed

lemma top_level: "skip_ok sl xs \<Longrightarrow> sl_max_height sl - 1 < node_height sl ((sl_head # xs) ! 0)"
  unfolding skip_ok_def by simp linarith

text \<open>What \<open>prev\<close> holds at a level, when the search ends behind the first \<open>m\<close> nodes.\<close>

definition prev_at :: "'k SkipList \<Rightarrow> nat list \<Rightarrow> nat \<Rightarrow> nat \<Rightarrow> nat option \<Rightarrow> bool" where
  "prev_at sl xs m l x \<longleftrightarrow> (\<exists>q \<le> m. x = Some ((sl_head # xs) ! q) \<and> l < node_height sl ((sl_head # xs) ! q) \<and>
     (\<forall>r < m. q \<le> r \<longrightarrow> node_height sl (xs ! r) \<le> l))"


section \<open>Searching finds its place\<close>

lemma find_drop_None:
  assumes "List.find P (drop p xs) = None" and "p \<le> r" and "r < length xs"
  shows "\<not> P (xs ! r)"
proof -
  have "drop p xs ! (r - p) \<in> set (drop p xs)" using assms by (intro nth_mem) simp
  then show ?thesis using assms by (simp add: find_None_iff)
qed

lemma find_drop_Some:
  assumes "List.find P (drop p xs) = Some y"
  shows "\<exists>q. p \<le> q \<and> q < length xs \<and> y = xs ! q \<and> P (xs ! q) \<and> (\<forall>r. p \<le> r \<and> r < q \<longrightarrow> \<not> P (xs ! r))"
proof -
  obtain i where i: "i < length (drop p xs)" "P (drop p xs ! i)" "y = drop p xs ! i" "\<forall>j < i. \<not> P (drop p xs ! j)"
    using assms by (auto simp: find_Some_iff)
  have "\<not> P (xs ! r)" if "p \<le> r" "r < p + i" for r using i(4) [rule_format, of "r - p"] i(1) that by simp
  then show ?thesis using i by (intro exI [of _ "p + i"]) auto
qed

lemma find_drop_eq:
  assumes "p \<le> q" and "q < length xs" and "P (xs ! q)" and "\<forall>r. p \<le> r \<and> r < q \<longrightarrow> \<not> P (xs ! r)"
  shows "List.find P (drop p xs) = Some (xs ! q)"
  using assms by (auto simp: find_Some_iff intro!: exI [of _ "q - p"])

text \<open>A search goes on over the first \<open>m\<close> nodes and not further.\<close>

definition goes_to :: "nat list \<Rightarrow> nat \<Rightarrow> (nat \<Rightarrow> nat option \<Rightarrow> bool option) \<Rightarrow> bool" where
  "goes_to xs m go \<longleftrightarrow> m \<le> length xs \<and> (\<forall>p \<le> m. go ((sl_head # xs) ! p) None = Some False \<and>
     (\<forall>q < length xs. p \<le> q \<longrightarrow> go ((sl_head # xs) ! p) (Some (xs ! q)) = Some (q < m)))"

lemma search_ends:
  assumes s: "skip_ok sl xs" and g: "goes_to xs m go"
  shows "p \<le> m \<Longrightarrow> level < node_height sl ((sl_head # xs) ! p) \<Longrightarrow>
    \<exists>prev'. search go sl ((sl_head # xs) ! p) level prev =
        Some ((sl_head # xs) ! m, if m < length xs then Some (xs ! m) else None, prev') \<and>
      (case prev of None \<Rightarrow> prev' = None
       | Some a \<Rightarrow> level < length a \<longrightarrow> (\<exists>a'. prev' = Some a' \<and> length a' = length a \<and>
           (\<forall>l \<le> level. prev_at sl xs m l (a' ! l)) \<and> (\<forall>l > level. a' ! l = a ! l)))"
proof (induction "length xs - p + level" arbitrary: p level prev rule: less_induct)
  case less
  let ?x = "(sl_head # xs) ! p"
  have m: "m \<le> length xs" using g by (simp add: goes_to_def)
  note next_eq = Node_Next_at [OF s _ less.prems(2)]
  have tall: "1 \<le> node_height sl (xs ! r)" if "r < length xs" for r using s that by (simp add: skip_ok_def)
  define stop where "stop = (\<lambda>next. let prev1 = map_option (\<lambda>a. a[level := Some ?x]) prev in
      if level = 0 then Some (?x, next, prev1) else search go sl ?x (level - 1) prev1)"
  have stops: ?case
    if n: "search go sl ?x level prev = stop next" and low: "\<forall>r < m. p \<le> r \<longrightarrow> node_height sl (xs ! r) \<le> level"
      and z: "level = 0 \<Longrightarrow> next = (if m < length xs then Some (xs ! m) else None)" for "next"
  proof (cases "level = 0")
    case True
    have "p = m" using low True tall [of p] m less.prems(1) by (meson le_less less_le_trans not_one_le_zero le_trans)
    then show ?thesis
      using n z True less.prems low by (auto simp: stop_def prev_at_def split: option.split)
  next
    case False
    have "prev_at sl xs m level (Some ?x)" using low less.prems by (auto simp: prev_at_def)
    let ?prev = "map_option (\<lambda>a. a[level := Some ?x]) prev"
    have l: "length xs - p + (level - 1) < length xs - p + level" "level - 1 < node_height sl ?x" using False less.prems(2) by simp_all
    obtain prev' where prev': "search go sl ?x (level - 1) ?prev = Some ((sl_head # xs) ! m, if m < length xs then Some (xs ! m) else None, prev')"
      "case ?prev of None \<Rightarrow> prev' = None
       | Some a \<Rightarrow> level - 1 < length a \<longrightarrow> (\<exists>a'. prev' = Some a' \<and> length a' = length a \<and>
           (\<forall>l \<le> level - 1. prev_at sl xs m l (a' ! l)) \<and> (\<forall>l > level - 1. a' ! l = a ! l))"
      using less.hyps [OF l(1) less.prems(1) l(2), of ?prev] by blast
    have n': "search go sl ?x level prev = search go sl ?x (level - 1) ?prev" using n False by (simp add: stop_def)
    show ?thesis
    proof (cases prev)
      case None
      then show ?thesis using prev' n' by simp
    next
      case (Some a)
      have "\<exists>a'. prev' = Some a' \<and> length a' = length a \<and> (\<forall>l \<le> level. prev_at sl xs m l (a' ! l)) \<and> (\<forall>l > level. a' ! l = a ! l)"
        if b: "level < length a"
      proof -
        obtain a' where a': "prev' = Some a'" "length a' = length a" "\<And>l. l \<le> level - 1 \<Longrightarrow> prev_at sl xs m l (a' ! l)"
          "\<And>l. l > level - 1 \<Longrightarrow> a' ! l = a[level := Some ?x] ! l"
          using prev'(2) b Some by auto
        have "prev_at sl xs m l (a' ! l)" if "l \<le> level" for l
          using that a'(3) [of l] a'(4) [of l] b \<open>prev_at sl xs m level (Some ?x)\<close> False by (cases "l = level") simp_all
        then show ?thesis using a' by auto
      qed
      then show ?thesis using prev'(1) n' Some by simp
    qed
  qed
  show ?case
  proof (cases "List.find (\<lambda>y. level < node_height sl y) (drop p xs)")
    case None
    have "search go sl ?x level prev = stop None"
      using next_eq None g less.prems(1) m by (subst search.simps) (simp add: goes_to_def stop_def)
    moreover have l: "\<forall>r < length xs. p \<le> r \<longrightarrow> node_height sl (xs ! r) \<le> level" using find_drop_None [OF None] by (simp add: not_less [symmetric])
    moreover have "level = 0 \<Longrightarrow> m = length xs"
      using l tall [of m] m less.prems(1) by (metis le_neq_implies_less not_one_le_zero le_zero_eq)
    ultimately show ?thesis using m by (intro stops) auto
  next
    case (Some y)
    then obtain q where q: "p \<le> q" "q < length xs" "y = xs ! q" "level < node_height sl (xs ! q)"
      "\<forall>r. p \<le> r \<and> r < q \<longrightarrow> \<not> level < node_height sl (xs ! r)"
      using find_drop_Some by (metis (no_types, lifting))
    have on: "go ?x (Some (xs ! q)) = Some (q < m)" using g less.prems(1) q(1,2) by (simp add: goes_to_def)
    show ?thesis
    proof (cases "q < m")
      case True
      have "search go sl ?x level prev = search go sl ((sl_head # xs) ! Suc q) level prev"
        using next_eq Some on True q(3) less.prems(1) m by (subst search.simps) simp
      then show ?thesis using less.hyps [of "Suc q" level prev] True q by auto
    next
      case False
      have "search go sl ?x level prev = stop (Some (xs ! q))"
        using next_eq Some on False q(3) less.prems(1) m by (subst search.simps) (simp add: stop_def)
      moreover have "\<forall>r < m. p \<le> r \<longrightarrow> node_height sl (xs ! r) \<le> level" using q(5) False by auto
      moreover have "level = 0 \<Longrightarrow> q = m"
        using q(1,2,5) False tall [of m] less.prems(1) by (metis le_less less_le_trans not_less_iff_gr_or_eq less_numeral_extra(3) less_one)
      ultimately show ?thesis using q(2) by (intro stops [of "Some (xs ! q)"]) auto
    qed
  qed
qed


section \<open>Inserting keeps the shape\<close>

definition node_link :: "'k SkipList \<Rightarrow> nat \<Rightarrow> nat \<Rightarrow> nat option" where
  "node_link sl x l = sn_next (sl_nodes sl ! x) ! l"

definition same_shape :: "'k SkipList \<Rightarrow> 'k SkipList \<Rightarrow> bool" where
  "same_shape sl sl' \<longleftrightarrow> length (sl_nodes sl') = length (sl_nodes sl) \<and> node_height sl' = node_height sl \<and>
     (\<forall>x. sn_key (sl_nodes sl' ! x) = sn_key (sl_nodes sl ! x)) \<and> sl_max_height sl' = sl_max_height sl"

lemma same_shape_trans: "same_shape sl sl' \<Longrightarrow> same_shape sl' sl'' \<Longrightarrow> same_shape sl sl''"
  by (simp add: same_shape_def)

lemma Node_SetNext_ok:
  assumes "x < length (sl_nodes sl)" and "n < node_height sl x"
  shows "\<exists>sl'. Node_SetNext x n v sl = Some sl' \<and> same_shape sl sl' \<and>
    (\<forall>y l. node_link sl' y l = (if y = x \<and> l = n then v else node_link sl y l))"
  using assms by (auto simp: Node_SetNext_def same_shape_def node_height_def node_link_def nth_list_update fun_eq_iff)

lemma Node_Next_link: "x < length (sl_nodes sl) \<Longrightarrow> l < node_height sl x \<Longrightarrow> Node_Next sl x l = Some (node_link sl x l)"
  by (simp add: Node_Next_def node_height_def node_link_def)

text \<open>Linking a node: its links are those of the nodes before it, and theirs are to it.\<close>

lemma link_levels_ok:
  "distinct is \<Longrightarrow> z < length (sl_nodes sl) \<Longrightarrow>
   (\<And>i. i \<in> set is \<Longrightarrow> i < node_height sl z \<and> (\<exists>p. prev ! i = Some p \<and> p \<noteq> z \<and> p < length (sl_nodes sl) \<and> i < node_height sl p)) \<Longrightarrow>
   \<exists>sl'. link_levels z prev is sl = Some sl' \<and> same_shape sl sl' \<and>
     (\<forall>x l. node_link sl' x l =
       (if l \<in> set is \<and> x = z then node_link sl (the (prev ! l)) l
        else if l \<in> set is \<and> prev ! l = Some x then Some z else node_link sl x l))"
proof (induction "is" arbitrary: sl)
  case (Cons i "is")
  obtain p where p: "prev ! i = Some p" "p \<noteq> z" "p < length (sl_nodes sl)" "i < node_height sl p" and z: "i < node_height sl z"
    using Cons.prems(3) [of i] by auto
  obtain sl1 where sl1: "Node_SetNext z i (node_link sl p i) sl = Some sl1" "same_shape sl sl1"
    "\<And>y l. node_link sl1 y l = (if y = z \<and> l = i then node_link sl p i else node_link sl y l)"
    using Node_SetNext_ok [OF Cons.prems(2) z] by blast
  obtain sl2 where sl2: "Node_SetNext p i (Some z) sl1 = Some sl2" "same_shape sl1 sl2"
    "\<And>y l. node_link sl2 y l = (if y = p \<and> l = i then Some z else node_link sl1 y l)"
    using Node_SetNext_ok [of p sl1 i "Some z"] p sl1(2) by (auto simp: same_shape_def)
  note s = same_shape_trans [OF sl1(2) sl2(2)]
  obtain sl3 where sl3: "link_levels z prev is sl2 = Some sl3" "same_shape sl2 sl3" "\<And>x l. node_link sl3 x l =
       (if l \<in> set is \<and> x = z then node_link sl2 (the (prev ! l)) l
        else if l \<in> set is \<and> prev ! l = Some x then Some z else node_link sl2 x l)"
    using Cons.IH [of sl2] Cons.prems s by (auto simp: same_shape_def)
  have "node_link sl3 x l = (if l \<in> set (i # is) \<and> x = z then node_link sl (the (prev ! l)) l
        else if l \<in> set (i # is) \<and> prev ! l = Some x then Some z else node_link sl x l)" for x l
    using sl3(3) [of x l] sl2(3) sl1(3) p Cons.prems(1) by auto
  moreover have "link_levels z prev (i # is) sl = Some sl3"
    using p sl1(1) sl2(1) sl3(1) Node_Next_link [OF p(3,4)] by simp
  ultimately show ?case using same_shape_trans [OF s sl3(2)] by blast
qed (simp add: same_shape_def)

lemma find_append_case: "List.find P (xs @ ys) = (case List.find P xs of None \<Rightarrow> List.find P ys | Some y \<Rightarrow> Some y)"
  by (induction xs) simp_all

lemma skip_ok_nodes: "skip_ok sl xs \<Longrightarrow> p \<le> length xs \<Longrightarrow> (sl_head # xs) ! p < length (sl_nodes sl)"
proof -
  assume s: "skip_ok sl xs" and p: "p \<le> length xs"
  have "(sl_head # xs) ! p \<in> set (sl_head # xs)" using p by (intro nth_mem) simp
  then show ?thesis using s unfolding skip_ok_def by blast
qed

lemma skip_ok_unique: "skip_ok sl xs \<Longrightarrow> p \<le> length xs \<Longrightarrow> q \<le> length xs \<Longrightarrow> (sl_head # xs) ! p = (sl_head # xs) ! q \<Longrightarrow> p = q"
  unfolding skip_ok_def using nth_eq_iff_index_eq [of "sl_head # xs" p q] by simp

text \<open>The links when \<open>z\<close>, of height \<open>h\<close>, is inserted behind the first \<open>m\<close> nodes.\<close>

lemma inserted_links:
  assumes s: "skip_ok sl xs" and m: "m \<le> length xs" and z: "z = length (sl_nodes sl)"
    and pr: "\<And>l. l < h \<Longrightarrow> prev_at sl xs m l (prev ! l)"
    and H: "\<And>y. H y = (if y = z then h else node_height sl y)"
    and L: "\<And>x l. L x l = (if l < h \<and> x = z then node_link sl (the (prev ! l)) l
        else if l < h \<and> prev ! l = Some x then Some z else node_link sl x l)"
    and p: "p \<le> Suc (length xs)" and l: "l < H ((sl_head # take m xs @ z # drop m xs) ! p)"
  shows "L ((sl_head # take m xs @ z # drop m xs) ! p) l = List.find (\<lambda>y. l < H y) (drop p (take m xs @ z # drop m xs))"
proof -
  have Hx: "H y = node_height sl y" if "y \<in> set (sl_head # xs)" for y
    using that s z H [of y] unfolding skip_ok_def by auto
  have Hn: "H ((sl_head # xs) ! q) = node_height sl ((sl_head # xs) ! q)" if "q \<le> length xs" for q
    using that by (intro Hx nth_mem) simp
  have fnd: "List.find (\<lambda>y. l < H y) ys = List.find (\<lambda>y. l < node_height sl y) ys" if "set ys \<subseteq> set xs" for ys
    using Hx that by (intro find_cong) auto
  have link: "node_link sl ((sl_head # xs) ! q) l = List.find (\<lambda>y. l < H y) (drop q xs)"
    if "q \<le> length xs" "l < node_height sl ((sl_head # xs) ! q)" for q
    using s that fnd [of "drop q xs"] by (simp add: skip_ok_def linked_def node_link_def set_drop_subset)
  have z_new: "(sl_head # xs) ! q \<noteq> z" if "q \<le> length xs" for q using skip_ok_nodes [OF s that] z by simp
  have none: "List.find (\<lambda>y. l < H y) (drop q (take m xs)) = None" if low: "\<forall>r < m. q \<le> r \<longrightarrow> node_height sl (xs ! r) \<le> l" for q
  proof -
    have "\<not> l < H y" if y: "y \<in> set (drop q (take m xs))" for y
    proof -
      obtain i where i: "i < length (drop q (take m xs))" "drop q (take m xs) ! i = y" using y unfolding in_set_conv_nth by blast
      then have "q + i < m" "y = (sl_head # xs) ! Suc (q + i)" using m by simp_all
      then show ?thesis using low Hn [of "Suc (q + i)"] m by (simp add: not_less)
    qed
    then show ?thesis by (simp add: find_None_iff)
  qed
  have split: "drop q xs = drop q (take m xs) @ drop m xs" if "q \<le> m" for q
  proof -
    have "drop q xs = drop q (take m xs @ drop m xs)" by simp
    also have "\<dots> = drop q (take m xs) @ drop (q - length (take m xs)) (drop m xs)" by (rule drop_append)
    finally show ?thesis using that m by simp
  qed
  consider (before) "p \<le> m" | (new) "p = Suc m" | (behind) "Suc m < p" by linarith
  then show ?thesis
  proof cases
    case before
    let ?x = "(sl_head # xs) ! p"
    have x: "(sl_head # take m xs @ z # drop m xs) ! p = ?x" using before m by (cases p) (simp_all add: nth_append)
    have d: "drop p (take m xs @ z # drop m xs) = drop p (take m xs) @ z # drop m xs" using before m by simp
    have lx: "l < node_height sl ?x" using l x Hn [of p] before m by simp
    note k = link [OF order_trans [OF before m] lx] split [OF before] z_new [OF order_trans [OF before m]]
    show ?thesis
    proof (cases "l < h")
      case False
      then show ?thesis using k unfolding x d by (simp add: L H [of z] find_append_case split: option.split)
    next
      case True
      obtain q where q: "q \<le> m" "prev ! l = Some ((sl_head # xs) ! q)" "l < node_height sl ((sl_head # xs) ! q)"
        "\<forall>r < m. q \<le> r \<longrightarrow> node_height sl (xs ! r) \<le> l"
        using pr [OF True] by (auto simp: prev_at_def)
      show ?thesis
      proof (cases "p = q")
        case True
        then show ?thesis using k(3) q(2) \<open>l < h\<close> none [OF q(4)] unfolding x d by (simp add: L H [of z] find_append_case)
      next
        case False
        have "p < q"
        proof (rule ccontr)
          assume "\<not> p < q"
          then have "q \<le> p - 1" "p - 1 < m" "?x = xs ! (p - 1)" using False before by (auto simp: nth_Cons')
          then show False using q(4) lx by auto
        qed
        then have "q - 1 < m" "p \<le> q - 1" "(sl_head # xs) ! q = xs ! (q - 1)" using q(1) by (auto simp: nth_Cons')
        then have "xs ! (q - 1) \<in> set (drop p (take m xs))" "l < H (xs ! (q - 1))"
          using q(1,3) m Hn [of q] \<open>p < q\<close> by (auto simp: in_set_conv_nth intro!: exI [of _ "q - 1 - p"])
        then have "List.find (\<lambda>y. l < H y) (drop p (take m xs)) \<noteq> None" by (auto simp: find_None_iff)
        moreover have "prev ! l \<noteq> Some ?x" using q(1,2) skip_ok_unique [OF s, of p q] False before m by auto
        ultimately show ?thesis using k unfolding x d by (auto simp: L find_append_case)
      qed
    qed
  next
    case new
    have x: "(sl_head # take m xs @ z # drop m xs) ! p = z" "drop p (take m xs @ z # drop m xs) = drop m xs"
      using new m by (simp_all add: nth_append)
    have lh: "l < h" using l x(1) H [of z] by simp
    obtain q where q: "q \<le> m" "prev ! l = Some ((sl_head # xs) ! q)" "l < node_height sl ((sl_head # xs) ! q)"
      "\<forall>r < m. q \<le> r \<longrightarrow> node_height sl (xs ! r) \<le> l"
      using pr [OF lh] by (auto simp: prev_at_def)
    have "L z l = node_link sl ((sl_head # xs) ! q) l" using q(2) lh by (simp add: L)
    also have "\<dots> = List.find (\<lambda>y. l < H y) (drop m xs)"
      using link [OF order_trans [OF q(1) m] q(3)] none [OF q(4)] unfolding split [OF q(1)] by (simp add: find_append_case)
    finally show ?thesis unfolding x .
  next
    case behind
    let ?x = "(sl_head # xs) ! (p - 1)"
    have p1: "p - 1 \<le> length xs" using p by simp
    have x: "(sl_head # take m xs @ z # drop m xs) ! p = ?x" "drop p (take m xs @ z # drop m xs) = drop (p - 1) xs"
    proof -
      obtain i where "p = Suc (Suc (m + i))" using behind less_iff_Suc_add by auto
      then show "(sl_head # take m xs @ z # drop m xs) ! p = ?x" "drop p (take m xs @ z # drop m xs) = drop (p - 1) xs"
        using m p by (simp_all add: nth_append drop_Cons' min_def add.commute [of m i])
    qed
    have "prev ! l \<noteq> Some ?x" if lh: "l < h"
    proof
      assume e: "prev ! l = Some ?x"
      obtain q where q: "q \<le> m" "prev ! l = Some ((sl_head # xs) ! q)" using pr [OF lh] unfolding prev_at_def by blast
      have "(sl_head # xs) ! q = ?x" using q(2) e unfolding option.inject by (metis option.inject)
      then have "q = p - 1" by (rule skip_ok_unique [OF s order_trans [OF q(1) m] p1])
      then show False using q(1) behind by linarith
    qed
    then have "L ?x l = node_link sl ?x l" using z_new [OF p1] by (auto simp: L)
    also have "\<dots> = List.find (\<lambda>y. l < H y) (drop (p - 1) xs)" using link [OF p1] l Hn [OF p1] x(1) by simp
    finally show ?thesis unfolding x .
  qed
qed


lemma random_height_bounds: "height \<le> kMaxHeight \<Longrightarrow> height \<le> fst (random_height height rnd) \<and> fst (random_height height rnd) \<le> kMaxHeight"
proof (induction height rnd rule: random_height.induct)
  case (1 height rnd)
  obtain x rnd1 where x: "Random_Next rnd = (x, rnd1)" by fastforce
  define b where "b \<longleftrightarrow> x mod 4 = 0"
  have e: "random_height height rnd =
      (if height < kMaxHeight then if b then random_height (height + 1) rnd1 else (height, rnd1) else (height, rnd))"
    using x unfolding b_def by (subst random_height.simps) simp
  show ?case
  proof (cases "height < kMaxHeight \<and> b")
    case True
    then show ?thesis using 1(1) [OF _ x [symmetric]] e unfolding b_def by simp
  next
    case False
    then show ?thesis using e 1(2) by auto
  qed
qed

text \<open>A new level starts at the head.\<close>

lemma prev_at_head:
  assumes "skip_ok sl xs" and "m \<le> length xs" and "sl_max_height sl \<le> l" and "l < kMaxHeight"
  shows "prev_at sl xs m l (Some sl_head)"
proof -
  have "node_height sl (xs ! r) \<le> l" if "r < m" for r
    using assms that unfolding skip_ok_def by (meson le_trans nth_mem order_less_le_trans)
  then show ?thesis using assms by (auto simp: prev_at_def skip_ok_def intro!: exI [of _ 0])
qed

lemma fold_update_nth:
  "distinct is \<Longrightarrow> (\<forall>i \<in> set is. i < length a) \<Longrightarrow> length (fold (\<lambda>i a. a[i := x]) is a) = length a \<and>
     fold (\<lambda>i a. a[i := x]) is a ! l = (if l \<in> set is then x else a ! l)"
proof (induction "is" arbitrary: a)
  case (Cons i "is")
  then show ?case by (auto simp: nth_list_update)
qed simp

theorem Insert_ok:
  assumes s: "skip_ok sl xs" and g: "goes_to xs m (\<lambda>x next. KeyIsAfterNode cmp sl key next)"
    and fresh: "m < length xs \<Longrightarrow> cmp key (node_keys sl xs ! m) \<noteq> 0"
  shows "\<exists>sl'. SkipList_Insert cmp key sl = Some sl' \<and> skip_ok sl' (take m xs @ length (sl_nodes sl) # drop m xs) \<and>
    node_keys sl' (take m xs @ length (sl_nodes sl) # drop m xs) = take m (node_keys sl xs) @ key # drop m (node_keys sl xs)"
proof -
  let ?z = "length (sl_nodes sl)" and ?xs = "take m xs @ length (sl_nodes sl) # drop m xs"
  have m: "m \<le> length xs" using g by (simp add: goes_to_def)
  have k12: "node_height sl sl_head = kMaxHeight" "1 \<le> sl_max_height sl" "sl_max_height sl \<le> kMaxHeight" using s by (simp_all add: skip_ok_def)
  obtain a where a: "FindGreaterOrEqual cmp sl key (Some (replicate kMaxHeight None)) =
      Some (if m < length xs then Some (xs ! m) else None, Some a)" "length a = kMaxHeight"
    "\<And>l. l < sl_max_height sl \<Longrightarrow> prev_at sl xs m l (a ! l)"
  proof -
    note l = top_level [OF s]
    obtain prev' where pr: "search (\<lambda>x next. KeyIsAfterNode cmp sl key next) sl ((sl_head # xs) ! 0) (sl_max_height sl - 1)
        (Some (replicate kMaxHeight None)) = Some ((sl_head # xs) ! m, if m < length xs then Some (xs ! m) else None, prev')"
      "sl_max_height sl - 1 < kMaxHeight \<longrightarrow> (\<exists>a'. prev' = Some a' \<and> length a' = kMaxHeight \<and>
        (\<forall>l \<le> sl_max_height sl - 1. prev_at sl xs m l (a' ! l)))"
      using search_ends [OF s g le0 l, of "Some (replicate kMaxHeight None)"] by auto
    have "sl_max_height sl - 1 < kMaxHeight" using k12 by simp
    then obtain a where "prev' = Some a" "length a = kMaxHeight" "\<And>l. l \<le> sl_max_height sl - 1 \<Longrightarrow> prev_at sl xs m l (a ! l)"
      using pr(2) by blast
    then show ?thesis using pr(1) that [of a] by (simp add: FindGreaterOrEqual_def)
  qed
  define h where "h = fst (random_height 1 (sl_rnd sl))"
  define sl1 where "sl1 = snd (RandomHeight sl)"
  have R: "RandomHeight sl = (h, sl1)" "sl_nodes sl1 = sl_nodes sl" "sl_max_height sl1 = sl_max_height sl"
    by (simp_all add: h_def sl1_def RandomHeight_def Let_def split: prod.split)
  have h: "1 \<le> h" "h \<le> kMaxHeight" using random_height_bounds [of 1 "sl_rnd sl"] by (simp_all add: h_def kMaxHeight_def)
  define pv where "pv = (if h > sl_max_height sl then fold (\<lambda>i a. a[i := Some sl_head]) [sl_max_height sl..<h] a else a)"
  define sl2 where "sl2 = (if h > sl_max_height sl then sl1\<lparr>sl_max_height := h\<rparr> else sl1)"
  define sl3 where "sl3 = sl2\<lparr>sl_nodes := sl_nodes sl @ [NewNode (Some key) h]\<rparr>"
  have pv: "prev_at sl xs m l (pv ! l)" if "l < h" for l
  proof (cases "h > sl_max_height sl \<and> sl_max_height sl \<le> l")
    case True
    then have "pv ! l = Some sl_head"
      using fold_update_nth [of "[sl_max_height sl..<h]" a "Some sl_head" l] a(2) h that by (simp add: pv_def)
    then show ?thesis using prev_at_head [OF s m] True that h by simp
  next
    case False
    then have "pv ! l = a ! l" using fold_update_nth [of "[sl_max_height sl..<h]" a "Some sl_head" l] a(2) h that by (auto simp: pv_def)
    then show ?thesis using a(3) [of l] False that by auto
  qed
  have n3: "length (sl_nodes sl3) = Suc ?z" "sl_max_height sl3 = max h (sl_max_height sl)" "node_height sl3 ?z = h"
    "sn_key (sl_nodes sl3 ! ?z) = Some key"
    "\<And>x. x < ?z \<Longrightarrow> node_height sl3 x = node_height sl x \<and> sn_key (sl_nodes sl3 ! x) = sn_key (sl_nodes sl ! x)"
    "\<And>x l. x < ?z \<Longrightarrow> node_link sl3 x l = node_link sl x l"
    using R by (simp_all add: sl3_def sl2_def node_height_def node_link_def nth_append NewNode_def max_def)
  have in_list: "x < ?z" if "x \<in> set (sl_head # xs)" for x using s that unfolding skip_ok_def by blast
  have "\<exists>p. pv ! i = Some p \<and> p \<noteq> ?z \<and> p < length (sl_nodes sl3) \<and> i < node_height sl3 p" if ih: "i < h" for i
  proof -
    obtain q where q: "q \<le> m" "pv ! i = Some ((sl_head # xs) ! q)" "i < node_height sl ((sl_head # xs) ! q)"
      using pv [OF ih] unfolding prev_at_def by blast
    have "(sl_head # xs) ! q < ?z" using skip_ok_nodes [OF s order_trans [OF q(1) m]] .
    then show ?thesis using q n3(1,5) by (intro exI [of _ "(sl_head # xs) ! q"]) simp
  qed
  then obtain sl4 where sl4: "link_levels ?z pv [0..<h] sl3 = Some sl4" "same_shape sl3 sl4"
    "\<And>x l. node_link sl4 x l = (if l < h \<and> x = ?z then node_link sl3 (the (pv ! l)) l
      else if l < h \<and> pv ! l = Some x then Some ?z else node_link sl3 x l)"
    using link_levels_ok [of "[0..<h]" ?z sl3 pv] n3(1,3) by auto
  have sh: "length (sl_nodes sl4) = Suc ?z" "node_height sl4 = node_height sl3" "sl_max_height sl4 = max h (sl_max_height sl)"
    "\<And>x. sn_key (sl_nodes sl4 ! x) = sn_key (sl_nodes sl3 ! x)"
    using sl4(2) n3(1,2) by (simp_all add: same_shape_def)
  have linked: "linked sl4 ?xs"
  proof -
    define H where "H y = (if y = ?z then h else node_height sl y)" for y
    define L where "L x l = (if l < h \<and> x = ?z then node_link sl (the (pv ! l)) l
        else if l < h \<and> pv ! l = Some x then Some ?z else node_link sl x l)" for x l
    have mem: "(sl_head # ?xs) ! p \<in> set (sl_head # xs) \<or> (sl_head # ?xs) ! p = ?z" if "p \<le> Suc (length xs)" for p
    proof -
      have "(sl_head # ?xs) ! p \<in> set (sl_head # ?xs)" using that m by (intro nth_mem) simp
      then show ?thesis using set_take_subset [of m xs] set_drop_subset [of m xs] by auto
    qed
    have Hh: "node_height sl3 x = H x" if "x \<in> set (sl_head # xs) \<or> x = ?z" for x using that n3(3,5) in_list by (auto simp: H_def)
    have Lh: "node_link sl4 x l = L x l" if x: "x \<in> set (sl_head # xs) \<or> x = ?z" and l: "l < H x" for x l
    proof -
      have "the (pv ! l) < ?z" if "l < h" using pv [OF that] skip_ok_nodes [OF s] m unfolding prev_at_def by fastforce
      then show ?thesis using sl4(3) [of x l] x l in_list n3(6) by (auto simp: L_def H_def)
    qed
    have fnd: "List.find (\<lambda>y. l < node_height sl3 y) (drop p ?xs) = List.find (\<lambda>y. l < H y) (drop p ?xs)" for l p
    proof (rule find_cong [OF refl])
      fix y assume "y \<in> set (drop p ?xs)"
      then have "y \<in> set ?xs" by (rule in_set_dropD)
      then have "y \<in> set (sl_head # xs) \<or> y = ?z" using set_take_subset [of m xs] set_drop_subset [of m xs] by auto
      then show "(l < node_height sl3 y) = (l < H y)" using Hh by simp
    qed
    show ?thesis
      unfolding linked_def sh(2) node_link_def [symmetric]
    proof (intro allI impI)
      fix p l assume p: "p \<le> length ?xs" and l: "l < node_height sl3 ((sl_head # ?xs) ! p)"
      have p': "p \<le> Suc (length xs)" using p m by simp
      have l': "l < H ((sl_head # ?xs) ! p)" using l Hh [OF mem [OF p']] by simp
      show "node_link sl4 ((sl_head # ?xs) ! p) l = List.find (\<lambda>y. l < node_height sl3 y) (drop p ?xs)"
        unfolding fnd Lh [OF mem [OF p'] l']
        by (rule inserted_links [OF s m refl pv H_def L_def p' l'])
    qed
  qed
  have set_xs: "set (sl_head # ?xs) = insert ?z (set (sl_head # xs))"
    using append_take_drop_id [of m xs] set_append [of "take m xs" "drop m xs"] by auto
  have z_new: "?z \<notin> set (sl_head # xs)" using in_list by blast
  have d: "distinct (sl_head # xs)" using s by (simp add: skip_ok_def)
  then have dist: "distinct (sl_head # ?xs)"
    using z_new set_take_subset [of m xs] set_drop_subset [of m xs] set_take_disj_set_drop_if_distinct [of xs m m] by auto
  have nodes: "set (sl_head # ?xs) = {..<length (sl_nodes sl4)}"
    using s unfolding set_xs sh(1) skip_ok_def by (auto simp: lessThan_Suc)
  have each: "1 \<le> node_height sl4 x \<and> node_height sl4 x \<le> sl_max_height sl4 \<and> sn_key (sl_nodes sl4 ! x) \<noteq> None" if "x \<in> set ?xs" for x
  proof (cases "x = ?z")
    case True
    then show ?thesis using n3(3,4) sh h by simp
  next
    case False
    then have x: "x \<in> set xs" using that set_take_subset [of m xs] set_drop_subset [of m xs] by auto
    have "1 \<le> node_height sl x \<and> node_height sl x \<le> sl_max_height sl \<and> sn_key (sl_nodes sl ! x) \<noteq> None"
      using s x unfolding skip_ok_def by blast
    then show ?thesis using in_list [of x] x n3(5) [of x] sh by auto
  qed
  have "skip_ok sl4 ?xs"
    unfolding skip_ok_def using dist nodes each linked sh(2,3) n3(5) [of sl_head] k12 h in_list [of sl_head] by simp
  moreover have "node_keys sl4 ?xs = take m (node_keys sl xs) @ key # drop m (node_keys sl xs)"
  proof -
    have "the (sn_key (sl_nodes sl4 ! x)) = the (sn_key (sl_nodes sl ! x))" if "x \<in> set xs" for x
      using that in_list [of x] n3(5) [of x] sh(4) by simp
    then show ?thesis using n3(4) sh(4) set_take_subset [of m xs] set_drop_subset [of m xs]
      by (auto simp: node_keys_def take_map drop_map)
  qed
  moreover have "SkipList_Insert cmp key sl = Some sl4"
  proof -
    have "(case if m < length xs then Some (xs ! m) else None of None \<Rightarrow> Some True
        | Some y \<Rightarrow> do { k \<leftarrow> Node_key sl y; Some (cmp key k \<noteq> 0) }) = Some True"
      using Node_key_at [OF s, of m] fresh by simp
    then show ?thesis
      using a(1) R sl4(1) by (simp add: SkipList_Insert_def pv_def sl2_def sl3_def Let_def split: if_splits)
  qed
  ultimately show ?thesis by blast
qed


section \<open>Ordered lists\<close>

text \<open>What a list asks of the comparator it is given.\<close>

locale key_order =
  fixes cmp :: "'k \<Rightarrow> 'k \<Rightarrow> int" and valid :: "'k \<Rightarrow> bool"
  assumes antisym: "valid a \<Longrightarrow> valid b \<Longrightarrow> cmp a b < 0 \<longleftrightarrow> cmp b a > 0"
    and trans: "valid a \<Longrightarrow> valid b \<Longrightarrow> valid c \<Longrightarrow> cmp a b \<le> 0 \<Longrightarrow> cmp b c \<le> 0 \<Longrightarrow> cmp a c \<le> 0"
begin

lemma flip_le: "valid a \<Longrightarrow> valid b \<Longrightarrow> \<not> cmp a b < 0 \<Longrightarrow> cmp b a \<le> 0"
  using antisym [of a b] by simp

lemma less_le_trans: "valid a \<Longrightarrow> valid b \<Longrightarrow> valid c \<Longrightarrow> cmp a b < 0 \<Longrightarrow> cmp b c \<le> 0 \<Longrightarrow> cmp a c < 0"
  using trans [of b c a] flip_le [of a c] antisym [of a b] by force

lemma irrefl: "valid a \<Longrightarrow> \<not> cmp a a < 0"
  using antisym [of a a] by force

definition ordered_list :: "'k SkipList \<Rightarrow> nat list \<Rightarrow> bool" where
  "ordered_list sl xs \<longleftrightarrow> skip_ok sl xs \<and> sorted_wrt (\<lambda>a b. cmp a b < 0) (node_keys sl xs) \<and> list_all valid (node_keys sl xs)"

text \<open>How many keys are before a key.\<close>

definition place :: "'k \<Rightarrow> 'k list \<Rightarrow> nat" where
  "place key ks = length (takeWhile (\<lambda>k. cmp k key < 0) ks)"

lemma place_le: "place key ks \<le> length ks"
  unfolding place_def by (rule length_takeWhile_le)

lemma place_iff:
  assumes "sorted_wrt (\<lambda>a b. cmp a b < 0) ks" and "list_all valid ks" and "valid key" and q: "q < length ks"
  shows "cmp (ks ! q) key < 0 \<longleftrightarrow> q < place key ks"
proof (cases "q < place key ks")
  case True
  then have "takeWhile (\<lambda>k. cmp k key < 0) ks ! q \<in> set (takeWhile (\<lambda>k. cmp k key < 0) ks)" unfolding place_def by (rule nth_mem)
  then show ?thesis using True set_takeWhileD takeWhile_nth unfolding place_def by metis
next
  case False
  let ?p = "place key ks"
  have p: "?p < length ks" "\<not> cmp (ks ! ?p) key < 0" using False q nth_length_takeWhile unfolding place_def by (simp, force)
  have v: "valid (ks ! ?p)" "valid (ks ! q)" using assms(2) p(1) q by (simp_all add: list_all_length)
  have "\<not> cmp (ks ! q) key < 0"
  proof (cases "?p = q")
    case False
    then have "cmp (ks ! ?p) (ks ! q) < 0" using sorted_wrt_nth_less [OF assms(1)] \<open>\<not> q < ?p\<close> q by simp
    then show ?thesis using less_le_trans [OF v assms(3)] p(2) by force
  qed (use p in simp)
  then show ?thesis using False by simp
qed

lemma place_self: "sorted_wrt (\<lambda>a b. cmp a b < 0) ks \<Longrightarrow> list_all valid ks \<Longrightarrow> i < length ks \<Longrightarrow> place (ks ! i) ks = i"
proof -
  assume a: "sorted_wrt (\<lambda>a b. cmp a b < 0) ks" "list_all valid ks" "i < length ks"
  then have v: "valid (ks ! i)" by (simp add: list_all_length)
  have "\<not> i < place (ks ! i) ks" using place_iff [OF a(1,2) v a(3)] irrefl [OF v] by simp
  moreover have "q < place (ks ! i) ks" if "q < i" for q
    using place_iff [OF a(1,2) v, of q] sorted_wrt_nth_less [OF a(1) that] a(3) that by simp
  ultimately show ?thesis by (meson linorder_neqE_nat less_irrefl)
qed

lemma length_node_keys [simp]: "length (node_keys sl xs) = length xs"
  by (simp add: node_keys_def)

lemma FindLast_ok: "skip_ok sl xs \<Longrightarrow> FindLast sl = Some ((sl_head # xs) ! length xs)"
  using search_ends [OF _ _ le0 top_level, of sl xs "length xs" "\<lambda>x next. Some (next \<noteq> None)" None]
  by (auto simp: FindLast_def goes_to_def)

lemma goes_to_key:
  assumes s: "ordered_list sl xs" and key: "valid key"
  shows "goes_to xs (place key (node_keys sl xs)) (\<lambda>x next. KeyIsAfterNode cmp sl key next)"
    "goes_to xs (place key (node_keys sl xs)) (is_less_than cmp sl key)"
proof -
  have ok: "skip_ok sl xs" and ks: "sorted_wrt (\<lambda>a b. cmp a b < 0) (node_keys sl xs)" "list_all valid (node_keys sl xs)"
    using s by (simp_all add: ordered_list_def)
  note p = place_iff [OF ks key, unfolded length_node_keys] and le = place_le [of key "node_keys sl xs", unfolded length_node_keys]
  show "goes_to xs (place key (node_keys sl xs)) (\<lambda>x next. KeyIsAfterNode cmp sl key next)"
    using le p Node_key_at [OF ok] by (simp add: goes_to_def KeyIsAfterNode_def)
  have "(if (sl_head # xs) ! r = sl_head then Some True
      else do { k \<leftarrow> Node_key sl ((sl_head # xs) ! r); Some (cmp k key < 0) }) = Some True"
    if r: "r \<le> place key (node_keys sl xs)" for r
  proof (cases r)
    case (Suc r')
    then have "r' < length xs" "cmp (node_keys sl xs ! r') key < 0" using p [of r'] r le by simp_all
    then show ?thesis using Node_key_at [OF ok, of r'] Suc by simp
  qed simp
  then show "goes_to xs (place key (node_keys sl xs)) (is_less_than cmp sl key)"
    using le p Node_key_at [OF ok] by (auto simp: goes_to_def is_less_than_def not_le)
qed

lemma Find_place:
  assumes s: "ordered_list sl xs" and key: "valid key"
  defines "m \<equiv> place key (node_keys sl xs)"
  shows "FindGreaterOrEqual cmp sl key None = Some (if m < length xs then Some (xs ! m) else None, None)"
    "FindLessThan cmp sl key = Some ((sl_head # xs) ! m)"
proof -
  have ok: "skip_ok sl xs" using s by (simp add: ordered_list_def)
  note l = top_level [OF ok]
  note g = goes_to_key [OF s key, folded m_def]
  show "FindGreaterOrEqual cmp sl key None = Some (if m < length xs then Some (xs ! m) else None, None)"
    using search_ends [OF ok g(1) le0 l, of None] by (simp add: FindGreaterOrEqual_def)
  show "FindLessThan cmp sl key = Some ((sl_head # xs) ! m)"
    using search_ends [OF ok g(2) le0 l, of None] by (simp add: FindLessThan_def)
qed

text \<open>An insertion puts the key in its place.\<close>

definition insert_key :: "'k \<Rightarrow> 'k list \<Rightarrow> 'k list" where
  "insert_key key ks = take (place key ks) ks @ key # drop (place key ks) ks"

lemma insert_key_sorted:
  assumes ks: "sorted_wrt (\<lambda>a b. cmp a b < 0) ks" "list_all valid ks" and key: "valid key"
    and fresh: "\<forall>k \<in> set ks. cmp key k \<noteq> 0"
  shows "sorted_wrt (\<lambda>a b. cmp a b < 0) (insert_key key ks)" "list_all valid (insert_key key ks)"
proof -
  let ?p = "place key ks"
  have b: "cmp k key < 0" if "k \<in> set (take ?p ks)" for k
    using that place_iff [OF ks key] place_le [of key ks] by (auto simp: in_set_conv_nth)
  have a: "cmp key k < 0" if k: "k \<in> set (drop ?p ks)" for k
  proof -
    obtain i where "i < length (drop ?p ks)" "drop ?p ks ! i = k" using k unfolding in_set_conv_nth by blast
    then obtain q where q: "q < length ks" "?p \<le> q" "k = ks ! q" by (intro that [of "?p + i"]) auto
    have "valid k" "cmp key k \<noteq> 0" using q ks(2) fresh by (simp_all add: list_all_length)
    then show ?thesis using place_iff [OF ks key q(1)] q flip_le [of k key] key by simp
  qed
  have s: "sorted_wrt (\<lambda>a b. cmp a b < 0) (take ?p ks @ drop ?p ks)" using ks(1) by simp
  then show "sorted_wrt (\<lambda>a b. cmp a b < 0) (insert_key key ks)"
    using a b unfolding insert_key_def sorted_wrt_append by auto
  show "list_all valid (insert_key key ks)"
    using ks(2) key by (auto simp: insert_key_def list_all_iff dest: in_set_takeD in_set_dropD)
qed

theorem Insert_ordered:
  assumes s: "ordered_list sl xs" and key: "valid key" and fresh: "\<forall>k \<in> set (node_keys sl xs). cmp key k \<noteq> 0"
  shows "\<exists>sl' xs'. SkipList_Insert cmp key sl = Some sl' \<and> ordered_list sl' xs' \<and> node_keys sl' xs' = insert_key key (node_keys sl xs)"
proof -
  have ok: "skip_ok sl xs" using s by (simp add: ordered_list_def)
  let ?m = "place key (node_keys sl xs)" and ?z = "length (sl_nodes sl)"
  have "cmp key (node_keys sl xs ! ?m) \<noteq> 0" if "?m < length xs" using that fresh by simp
  then obtain sl' where "SkipList_Insert cmp key sl = Some sl'" "skip_ok sl' (take ?m xs @ ?z # drop ?m xs)"
    "node_keys sl' (take ?m xs @ ?z # drop ?m xs) = insert_key key (node_keys sl xs)"
    using Insert_ok [OF ok goes_to_key(1) [OF s key]] unfolding insert_key_def by blast
  then show ?thesis
    using insert_key_sorted [OF _ _ key fresh] s by (intro exI conjI) (simp_all add: ordered_list_def)
qed

theorem Contains_ordered:
  assumes s: "ordered_list sl xs" and key: "valid key"
  shows "SkipList_Contains cmp key sl = Some (\<exists>k \<in> set (node_keys sl xs). cmp key k = 0)"
proof -
  let ?ks = "node_keys sl xs"
  have ok: "skip_ok sl xs" and ks: "sorted_wrt (\<lambda>a b. cmp a b < 0) ?ks" "list_all valid ?ks"
    using s by (simp_all add: ordered_list_def)
  let ?m = "place key ?ks"
  have same: "q = ?m" if q: "q < length ?ks" "cmp key (?ks ! q) = 0" for q
  proof -
    have v: "valid (?ks ! q)" using ks(2) q(1) by (simp add: list_all_length)
    have z: "cmp (?ks ! q) key = 0" using antisym [OF key v] antisym [OF v key] q(2) by linarith
    then have ge: "?m \<le> q" using place_iff [OF ks key q(1)] by simp
    show ?thesis
    proof (rule ccontr)
      assume "q \<noteq> ?m"
      then have l: "?m < q" using ge by simp
      then have "cmp (?ks ! ?m) (?ks ! q) < 0" "valid (?ks ! ?m)"
        using sorted_wrt_nth_less [OF ks(1) l q(1)] ks(2) q(1) by (simp_all add: list_all_length)
      then have "cmp (?ks ! ?m) key < 0" using less_le_trans [OF _ v key] z by simp
      then show False using place_iff [OF ks key, of ?m] l q(1) by simp
    qed
  qed
  have e: "(\<exists>k \<in> set ?ks. cmp key k = 0) \<longleftrightarrow> ?m < length xs \<and> cmp key (?ks ! ?m) = 0"
    using same by (force simp: in_set_conv_nth Bex_def)
  show ?thesis
    unfolding e SkipList_Contains_def Find_place(1) [OF s key] using Node_key_at [OF ok, of ?m] by simp
qed

section \<open>Iterators stand at the keys\<close>

definition skip_at :: "'k SkipList \<Rightarrow> nat list \<Rightarrow> 'k SkipIterator \<Rightarrow> nat \<Rightarrow> bool" where
  "skip_at sl xs it i \<longleftrightarrow> ordered_list sl xs \<and> si_list it = sl \<and> i \<le> length xs \<and> si_node it = (if i < length xs then Some (xs ! i) else None)"

lemma lowest_link:
  assumes "ordered_list sl xs" and "p \<le> length xs"
  shows "Node_Next sl ((sl_head # xs) ! p) 0 = Some (if p < length xs then Some (xs ! p) else None)"
proof -
  have ok: "skip_ok sl xs" using assms(1) by (simp add: ordered_list_def)
  have tall: "\<And>x. x \<in> set (sl_head # xs) \<Longrightarrow> 0 < node_height sl x" using ok by (auto simp: skip_ok_def kMaxHeight_def)
  have "0 < node_height sl ((sl_head # xs) ! p)" using assms(2) by (intro tall nth_mem) simp
  moreover have "List.find (\<lambda>y. 0 < node_height sl y) (drop p xs) = (if p < length xs then Some (xs ! p) else None)"
    using tall assms(2) by (auto intro!: find_drop_eq)
  ultimately show ?thesis using Node_Next_at [OF ok assms(2)] by simp
qed

lemma skip_at_facts:
  "skip_at sl xs it i \<Longrightarrow> Skip_Valid it \<longleftrightarrow> i < length xs"
  "skip_at sl xs it i \<Longrightarrow> i < length xs \<Longrightarrow> Skip_key it = Some (node_keys sl xs ! i)"
  using Node_key_at by (auto simp: skip_at_def Skip_Valid_def Skip_key_def ordered_list_def)

lemma skip_moves:
  assumes "ordered_list sl xs" and "si_list it = sl"
  shows "\<exists>it'. Skip_SeekToFirst it = Some it' \<and> skip_at sl xs it' 0"
    "\<exists>it'. Skip_SeekToLast it = Some it' \<and> skip_at sl xs it' (if xs = [] then 0 else length xs - 1)"
    "valid key \<Longrightarrow> \<exists>it'. Skip_Seek cmp key it = Some it' \<and> skip_at sl xs it' (place key (node_keys sl xs))"
    "skip_at sl xs it i \<Longrightarrow> i < length xs \<Longrightarrow> \<exists>it'. Skip_Next it = Some it' \<and> skip_at sl xs it' (i + 1)"
    "skip_at sl xs it i \<Longrightarrow> i < length xs \<Longrightarrow> \<exists>it'. Skip_Prev cmp it = Some it' \<and> skip_at sl xs it' (if i = 0 then length xs else i - 1)"
proof -
  have ks: "sorted_wrt (\<lambda>a b. cmp a b < 0) (node_keys sl xs)" "list_all valid (node_keys sl xs)" and ok: "skip_ok sl xs"
    using assms(1) by (simp_all add: ordered_list_def)
  have nh: "x \<noteq> sl_head" if "x \<in> set xs" for x using ok that by (auto simp: skip_ok_def)
  show "\<exists>it'. Skip_SeekToFirst it = Some it' \<and> skip_at sl xs it' 0"
    using lowest_link [OF assms(1), of 0] assms by (simp add: Skip_SeekToFirst_def skip_at_def)
  show "\<exists>it'. Skip_SeekToLast it = Some it' \<and> skip_at sl xs it' (if xs = [] then 0 else length xs - 1)"
    using FindLast_ok [OF ok] assms nh [of "xs ! (length xs - 1)"] by (simp add: Skip_SeekToLast_def skip_at_def nth_Cons')
  show "valid key \<Longrightarrow> \<exists>it'. Skip_Seek cmp key it = Some it' \<and> skip_at sl xs it' (place key (node_keys sl xs))"
    using Find_place(1) [OF assms(1)] assms place_le [of key "node_keys sl xs"] by (simp add: Skip_Seek_def skip_at_def)
  show "skip_at sl xs it i \<Longrightarrow> i < length xs \<Longrightarrow> \<exists>it'. Skip_Next it = Some it' \<and> skip_at sl xs it' (i + 1)"
    using lowest_link [OF assms(1), of "Suc i"] assms by (simp add: Skip_Next_def skip_at_def)
  assume at: "skip_at sl xs it i" and i: "i < length xs"
  have "valid (node_keys sl xs ! i)" using ks(2) i by (simp add: list_all_length)
  then have "FindLessThan cmp sl (node_keys sl xs ! i) = Some ((sl_head # xs) ! i)"
    using Find_place(2) [OF assms(1)] place_self [OF ks] i by simp
  then show "\<exists>it'. Skip_Prev cmp it = Some it' \<and> skip_at sl xs it' (if i = 0 then length xs else i - 1)"
    using skip_at_facts(2) [OF at i] assms i nh [of "xs ! (i - 1)"] by (cases i) (simp_all add: Skip_Prev_def skip_at_def)
qed

section \<open>Many keys\<close>

lemma mset_insert_key: "mset (insert_key key ks) = add_mset key (mset ks)"
  unfolding insert_key_def mset_append mset.simps
  by (metis append_take_drop_id mset_append union_mset_add_mset_right)

lemma insert_all_ordered:
  assumes "ordered_list sl xs" and "list_all valid ks" and "sorted_wrt (\<lambda>a b. cmp b a \<noteq> 0) ks"
    and "\<forall>a \<in> set ks. \<forall>b \<in> set (node_keys sl xs). cmp a b \<noteq> 0"
  shows "\<exists>sl' xs'. insert_all cmp ks sl = Some sl' \<and> ordered_list sl' xs' \<and>
    mset (node_keys sl' xs') = mset ks + mset (node_keys sl xs)"
  using assms
proof (induction ks arbitrary: sl xs)
  case (Cons k ks)
  then obtain sl1 xs1 where one: "SkipList_Insert cmp k sl = Some sl1" "ordered_list sl1 xs1"
    "node_keys sl1 xs1 = insert_key k (node_keys sl xs)"
    using Insert_ordered [of sl xs k] by auto
  have "set (node_keys sl1 xs1) = insert k (set (node_keys sl xs))"
    using mset_insert_key [of k "node_keys sl xs"] unfolding one(3) by (metis set_mset_add_mset_insert set_mset_mset)
  then obtain sl' xs' where "insert_all cmp ks sl1 = Some sl'" "ordered_list sl' xs'"
    "mset (node_keys sl' xs') = mset ks + mset (node_keys sl1 xs1)"
    using Cons.IH [OF one(2)] Cons.prems(2-4) by auto
  then show ?case using one(1) by (intro exI [of _ sl'] exI [of _ xs']) (simp add: one(3) mset_insert_key)
qed auto

lemma ordered_new: "ordered_list new_SkipList []"
  by (simp add: ordered_list_def skip_ok_new node_keys_def)

lemma skip_scan_at:
  assumes "ordered_list sl xs"
  shows "skip_at sl xs it i \<Longrightarrow> length xs < n + i \<Longrightarrow> skip_scan n it = Some (drop i (node_keys sl xs))"
proof (induction n arbitrary: it i)
  case 0
  then show ?case by (simp add: skip_at_def)
next
  case (Suc n)
  have l: "length (node_keys sl xs) = length xs" by (simp add: node_keys_def)
  show ?case
  proof (cases "i < length xs")
    case True
    have "si_list it = sl" using Suc.prems(1) by (simp add: skip_at_def)
    then obtain it' where it': "Skip_Next it = Some it'" "skip_at sl xs it' (i + 1)"
      using skip_moves(4) [OF assms _ Suc.prems(1) True] by blast
    then show ?thesis
      using Suc.IH [OF it'(2)] Suc.prems True skip_at_facts [OF Suc.prems(1)] l
      by (simp add: Cons_nth_drop_Suc)
  next
    case False
    then show ?thesis using skip_at_facts(1) [OF Suc.prems(1)] l by simp
  qed
qed

text \<open>A list that got some keys, all different, has them in order.\<close>

lemma insert_all_keys:
  assumes "list_all valid ks" and "sorted_wrt (\<lambda>a b. cmp b a \<noteq> 0) ks"
  shows "\<exists>sl it ks'. insert_all cmp ks new_SkipList = Some sl \<and>
    Skip_SeekToFirst (new_SkipIterator sl) = Some it \<and> skip_scan (length ks + 1) it = Some ks' \<and>
    mset ks' = mset ks \<and> sorted_wrt (\<lambda>a b. cmp a b < 0) ks' \<and>
    (\<forall>k. valid k \<longrightarrow> SkipList_Contains cmp k sl = Some (\<exists>x \<in> set ks. cmp k x = 0))"
proof -
  obtain sl xs where sl: "insert_all cmp ks new_SkipList = Some sl" "ordered_list sl xs" "mset (node_keys sl xs) = mset ks"
    using insert_all_ordered [OF ordered_new assms] by (auto simp: node_keys_def)
  obtain it where it: "Skip_SeekToFirst (new_SkipIterator sl) = Some it" "skip_at sl xs it 0"
    using skip_moves(1) [OF sl(2), of "new_SkipIterator sl"] by (auto simp: new_SkipIterator_def)
  have "length xs = length ks" using sl(3) by (metis length_map node_keys_def size_mset)
  then have "skip_scan (length ks + 1) it = Some (node_keys sl xs)" using skip_scan_at [OF sl(2) it(2), of "length ks + 1"] by simp
  moreover have "set (node_keys sl xs) = set ks" using sl(3) by (rule mset_eq_setD)
  then have "\<forall>k. valid k \<longrightarrow> SkipList_Contains cmp k sl = Some (\<exists>x \<in> set ks. cmp k x = 0)"
    using Contains_ordered [OF sl(2)] by simp
  ultimately show ?thesis using sl it(1) by (intro exI [of _ sl] exI [of _ it] exI [of _ "node_keys sl xs"]) (simp add: ordered_list_def)
qed

end

end
