(* ===== verification/LdbMemTable.thy ===== *)
theory LdbMemTable
  imports LdbSkipList LdbFormat LdbStatus LdbIterator
begin

text \<open>
  \<open>db/memtable.h\<close> and \<open>db/memtable.cc\<close>: a skip list of buffers, each an internal key and a value with their lengths. A
  buffer in the arena is the list of its bytes; the arena itself is left out.
\<close>

section \<open>Buffers\<close>

text \<open>\<open>GetLengthPrefixedSlice(data)\<close>, with what follows the slice. The code assumes that the length is not corrupted; where it is, there is
  no slice here.\<close>

definition prefixed_slice :: "byte list \<Rightarrow> slice \<times> byte list" where
  "prefixed_slice data =
     (case GetVarint32Ptr (take 5 data) of
        None \<Rightarrow> ([], [])
      | Some (len, p) \<Rightarrow> (let rest = drop (length (take 5 data) - length p) data in (take (unat len) rest, drop (unat len) rest)))"

definition EncodeKey :: "slice \<Rightarrow> byte list" where
  "EncodeKey target = PutVarint32 [] (word_of_nat (length target)) @ target"

record MemTable =
  mt_comparator :: Comparator
  mt_refs :: int
  mt_table :: "byte list SkipList"

text \<open>\<open>comparator.user_comparator()\<close> and the order of the buffers.\<close>

definition KeyComparator :: "Comparator \<Rightarrow> byte list \<Rightarrow> byte list \<Rightarrow> int" where
  "KeyComparator C aptr bptr = cmp_Compare (InternalKeyComparator C) (fst (prefixed_slice aptr)) (fst (prefixed_slice bptr))"

definition new_MemTable :: "Comparator \<Rightarrow> MemTable" where
  "new_MemTable C = \<lparr>mt_comparator = C, mt_refs = 0, mt_table = new_SkipList\<rparr>"

text \<open>\<open>refs_\<close> is an \<open>int\<close>: an increment beyond its range is undefined.\<close>

definition MemTable_Ref :: "MemTable \<Rightarrow> MemTable option" where
  "MemTable_Ref t = (if mt_refs t + 1 < 2 ^ 31 then Some (t\<lparr>mt_refs := mt_refs t + 1\<rparr>) else None)"

text \<open>The last reference deletes the table, which is then no more.\<close>

definition MemTable_Unref :: "MemTable \<Rightarrow> MemTable option option" where
  "MemTable_Unref t = (let r = mt_refs t - 1 in
     if r < 0 then None else if r \<le> 0 then Some None else Some (Some (t\<lparr>mt_refs := r\<rparr>)))"

section \<open>Adding\<close>

definition MemTable_Add :: "SequenceNumber \<Rightarrow> ValueType \<Rightarrow> slice \<Rightarrow> slice \<Rightarrow> MemTable \<Rightarrow> MemTable option" where
  "MemTable_Add s type key v t =
     (let key_size = length key;
          val_size = length v;
          internal_key_size = key_size + 8;
          encoded_len = VarintLength (word_of_nat internal_key_size) + internal_key_size + VarintLength (word_of_nat val_size) + val_size;
          buf = EncodeVarint32 (word_of_nat internal_key_size) @ key @ EncodeFixed64 (push_bit 8 s OR ucast (ValueType_value type)) @
            EncodeVarint32 (word_of_nat val_size) @ v
      in if length buf = encoded_len
         then map_option (\<lambda>table. t\<lparr>mt_table := table\<rparr>) (SkipList_Insert (KeyComparator (mt_comparator t)) buf (mt_table t))
         else None)"

section \<open>Iterators\<close>

definition memtable_entry :: "byte list SkipIterator \<Rightarrow> byte list" where
  "memtable_entry it = (case Skip_key it of None \<Rightarrow> [] | Some b \<Rightarrow> b)"

definition memtable_iterator :: "Comparator \<Rightarrow> byte list SkipIterator Iterator" where
  "memtable_iterator C =
     \<lparr>it_Valid = Skip_Valid, it_SeekToFirst = Skip_SeekToFirst, it_SeekToLast = Skip_SeekToLast,
      it_Seek = (\<lambda>k. Skip_Seek (KeyComparator C) (EncodeKey k)), it_Next = Skip_Next, it_Prev = Skip_Prev (KeyComparator C),
      it_key = (\<lambda>it. fst (prefixed_slice (memtable_entry it))),
      it_value = (\<lambda>it. let (key_slice, rest) = prefixed_slice (memtable_entry it) in fst (prefixed_slice rest)),
      it_status = (\<lambda>it. OK)\<rparr>"

definition MemTable_NewIterator :: "MemTable \<Rightarrow> byte list SkipIterator" where
  "MemTable_NewIterator t = new_SkipIterator (mt_table t)"

section \<open>Looking up\<close>

text \<open>The value and the status are changed where the code sets them.\<close>

definition MemTable_Get :: "MemTable \<Rightarrow> LookupKey \<Rightarrow> slice \<Rightarrow> Status \<Rightarrow> (bool \<times> slice \<times> Status) option" where
  "MemTable_Get t key v s = do {
     iter \<leftarrow> Skip_Seek (KeyComparator (mt_comparator t)) (memtable_key key) (new_SkipIterator (mt_table t));
     if Skip_Valid iter then do {
       entry \<leftarrow> Skip_key iter;
       (key_length, p) \<leftarrow> GetVarint32Ptr (take 5 entry);
       let key_ptr = drop (length (take 5 entry) - length p) entry in
       if cmp_Compare (mt_comparator t) (take (unat (key_length - 8)) key_ptr) (user_key key) = 0 then
         (let tag = DecodeFixed64 (drop (unat (key_length - 8)) key_ptr); type = ucast (tag AND 0xff) :: byte in
          if type = ValueType_value kTypeValue then Some (True, fst (prefixed_slice (drop (unat key_length) key_ptr)), s)
          else if type = ValueType_value kTypeDeletion then Some (True, v, NotFound [] [])
          else Some (False, v, s))
       else Some (False, v, s) }
     else Some (False, v, s) }"

section \<open>Buffers are read back\<close>

lemma GetVarint32Ptr_length:
  "GetVarint32Ptr (take 5 (EncodeVarint32 n @ r)) = Some (n, take (5 - length (EncodeVarint32 n)) r)"
  using varint32.get_enc [of n "take (5 - length (EncodeVarint32 n)) r"] EncodeVarint32_length [of n]
  by (simp add: GetVarint32Ptr_eq)

lemma prefixed_slice_enc: "slice_fits k \<Longrightarrow> prefixed_slice (enc_slice k @ r) = (k, r)"
proof -
  assume k: "slice_fits k"
  let ?e = "EncodeVarint32 (word_of_nat (length k))"
  have l: "length (take 5 (?e @ k @ r)) - length (take (5 - length ?e) (k @ r)) = length ?e"
    using EncodeVarint32_length [of "word_of_nat (length k)"] by simp
  show ?thesis
    unfolding enc_slice_eq append_assoc prefixed_slice_def GetVarint32Ptr_length option.case prod.case Let_def l
    using unat_length [OF k] by simp
qed

lemma EncodeKey_eq: "EncodeKey k = enc_slice k"
  by (simp add: EncodeKey_def enc_slice_eq PutVarint32_def)

definition buffer_of :: "slice \<times> slice \<Rightarrow> byte list" where
  "buffer_of e = enc_slice (fst e) @ enc_slice (snd e)"

lemma LookupKey_buffer: "memtable_key (new_LookupKey u s) = enc_slice (new_InternalKey u s kTypeValue)"
  by (simp add: LookupKey_parts enc_slice_eq new_InternalKey_def AppendInternalKey_eq)


section \<open>The order of the buffers\<close>

context comparator
begin

definition entry_ok :: "byte list \<Rightarrow> bool" where
  "entry_ok b \<longleftrightarrow> (\<exists>k r. b = enc_slice k @ r \<and> slice_fits k \<and> valid_internal k)"

lemma entry_key: "entry_ok b \<Longrightarrow> valid_internal (fst (prefixed_slice b))"
  by (auto simp: entry_ok_def prefixed_slice_enc)

lemma memtable_order: "key_order (KeyComparator C) entry_ok"
proof
  fix a b c
  note I = comparator.antisym [OF comparator_internal] comparator.trans [OF comparator_internal]
  show "entry_ok a \<Longrightarrow> entry_ok b \<Longrightarrow> KeyComparator C a b < 0 \<longleftrightarrow> KeyComparator C b a > 0"
    unfolding KeyComparator_def by (rule I(1)) (erule entry_key)+
  show "entry_ok a \<Longrightarrow> entry_ok b \<Longrightarrow> entry_ok c \<Longrightarrow> KeyComparator C a b \<le> 0 \<Longrightarrow> KeyComparator C b c \<le> 0 \<Longrightarrow> KeyComparator C a c \<le> 0"
    unfolding KeyComparator_def using I(2) entry_key by blast
qed

abbreviation internal_cmp :: "slice \<Rightarrow> slice \<Rightarrow> int" where
  "internal_cmp \<equiv> cmp_Compare (InternalKeyComparator C)"

definition entry_fits :: "slice \<times> slice \<Rightarrow> bool" where
  "entry_fits e \<longleftrightarrow> valid_internal (fst e) \<and> slice_fits (fst e) \<and> slice_fits (snd e)"

text \<open>The mem-table holds the entries \<open>es\<close>, in the nodes \<open>xs\<close>.\<close>

definition holds :: "MemTable \<Rightarrow> nat list \<Rightarrow> (slice \<times> slice) list \<Rightarrow> bool" where
  "holds t xs es \<longleftrightarrow> mt_comparator t = C \<and> list_all entry_fits es \<and>
     key_order.ordered_list (KeyComparator C) entry_ok (mt_table t) xs \<and> node_keys (mt_table t) xs = map buffer_of es"

lemma buffer_compare: "entry_fits e \<Longrightarrow> entry_fits e' \<Longrightarrow> KeyComparator C (buffer_of e) (buffer_of e') = internal_cmp (fst e) (fst e')"
  by (simp add: KeyComparator_def buffer_of_def entry_fits_def prefixed_slice_enc)

lemma buffer_ok: "entry_fits e \<Longrightarrow> entry_ok (buffer_of e)"
  by (auto simp: entry_ok_def buffer_of_def entry_fits_def)

lemma holds_new: "holds (new_MemTable C) [] []"
  by (simp add: holds_def new_MemTable_def key_order.ordered_list_def [OF memtable_order] skip_ok_new node_keys_def)

lemma holds_length: "holds t xs es \<Longrightarrow> length xs = length es"
  by (metis holds_def length_map node_keys_def)

lemma holds_sorted: "holds t xs es \<Longrightarrow> sorted_wrt (\<lambda>a b. internal_cmp (fst a) (fst b) < 0) es"
proof -
  assume h: "holds t xs es"
  then have "sorted_wrt (\<lambda>a b. KeyComparator C a b < 0) (node_keys (mt_table t) xs)" "node_keys (mt_table t) xs = map buffer_of es"
    unfolding holds_def key_order.ordered_list_def [OF memtable_order] by blast+
  then have "sorted_wrt (\<lambda>a b. KeyComparator C (buffer_of a) (buffer_of b) < 0) es" by (simp add: sorted_wrt_map)
  then show ?thesis
    using h by (elim sorted_wrt_mono_rel [rotated]) (simp add: holds_def list_all_iff buffer_compare)
qed

text \<open>The place of a key among the buffers is its place among the entries.\<close>

lemma buffer_place:
  assumes es: "list_all entry_fits es" and k: "slice_fits k"
  shows "key_order.place (KeyComparator C) (enc_slice k @ r) (map buffer_of es) = first_at_or_past internal_cmp k es"
proof -
  have "takeWhile (\<lambda>e. KeyComparator C (buffer_of e) (enc_slice k @ r) < 0) es = takeWhile (\<lambda>e. internal_cmp (fst e) k < 0) es"
    using es k by (intro takeWhile_cong) (auto simp: KeyComparator_def buffer_of_def entry_fits_def prefixed_slice_enc list_all_iff)
  then show ?thesis by (simp add: key_order.place_def [OF memtable_order] first_at_or_past_def takeWhile_map comp_def)
qed

section \<open>Adding keeps the order\<close>

definition insert_entry :: "slice \<times> slice \<Rightarrow> (slice \<times> slice) list \<Rightarrow> (slice \<times> slice) list" where
  "insert_entry e es = (let i = first_at_or_past internal_cmp (fst e) es in take i es @ e # drop i es)"

lemma Add_buffer:
  assumes "entry_fits (new_InternalKey key s type, v)"
  defines "n \<equiv> length key + 8"
  shows "EncodeVarint32 (word_of_nat n) @ key @ EncodeFixed64 (push_bit 8 s OR ucast (ValueType_value type)) @
      EncodeVarint32 (word_of_nat (length v)) @ v = buffer_of (new_InternalKey key s type, v)"
    "length (buffer_of (new_InternalKey key s type, v)) =
      VarintLength (word_of_nat n) + n + VarintLength (word_of_nat (length v)) + length v"
proof -
  have k: "new_InternalKey key s type = key @ EncodeFixed64 (push_bit 8 s OR ucast (ValueType_value type))"
    by (simp add: new_InternalKey_def AppendInternalKey_eq PackSequenceAndType_def)
  show e: "EncodeVarint32 (word_of_nat n) @ key @ EncodeFixed64 (push_bit 8 s OR ucast (ValueType_value type)) @
      EncodeVarint32 (word_of_nat (length v)) @ v = buffer_of (new_InternalKey key s type, v)"
    by (simp add: buffer_of_def enc_slice_eq k n_def)
  have w: "length (EncodeVarint32 (word_of_nat i)) = VarintLength (word_of_nat i)" if "i < 2 ^ 32" for i
  proof -
    have "unat (ucast (word_of_nat i :: u32) :: u64) = i" "unat (word_of_nat i :: u64) = i"
      using that by (simp_all add: unat_ucast_up unat_of_nat)
    then have "(ucast (word_of_nat i :: u32) :: u64) = word_of_nat i" unfolding word_unat_eq_iff by simp
    then show ?thesis by (simp add: VarintLength_eq EncodeVarint32_64)
  qed
  have "n < 2 ^ 32" "length v < 2 ^ 32" using assms(1) by (simp_all add: entry_fits_def slice_fits_def k n_def)
  then show "length (buffer_of (new_InternalKey key s type, v)) =
      VarintLength (word_of_nat n) + n + VarintLength (word_of_nat (length v)) + length v"
    using w [of n] w [of "length v"] unfolding e [symmetric] n_def by simp
qed

theorem Add_holds:
  assumes t: "holds t xs es" and e: "entry_fits (new_InternalKey key s type, v)"
    and fresh: "\<forall>e \<in> set es. internal_cmp (new_InternalKey key s type) (fst e) \<noteq> 0"
  shows "\<exists>t' xs'. MemTable_Add s type key v t = Some t' \<and> holds t' xs' (insert_entry (new_InternalKey key s type, v) es) \<and>
    mt_refs t' = mt_refs t"
proof -
  let ?e = "(new_InternalKey key s type, v)"
  note order = memtable_order
  have es: "list_all entry_fits es" "key_order.ordered_list (KeyComparator C) entry_ok (mt_table t) xs"
    "node_keys (mt_table t) xs = map buffer_of es" "mt_comparator t = C"
    using t by (simp_all add: holds_def)
  have "\<forall>k \<in> set (node_keys (mt_table t) xs). KeyComparator C (buffer_of ?e) k \<noteq> 0"
    using es(1) fresh e by (auto simp: es(3) list_all_iff buffer_compare)
  then obtain sl' xs' where i: "SkipList_Insert (KeyComparator C) (buffer_of ?e) (mt_table t) = Some sl'"
    "key_order.ordered_list (KeyComparator C) entry_ok sl' xs'"
    "node_keys sl' xs' = key_order.insert_key (KeyComparator C) (buffer_of ?e) (node_keys (mt_table t) xs)"
    using key_order.Insert_ordered [OF order es(2) buffer_ok [OF e]] by blast
  have p: "key_order.place (KeyComparator C) (buffer_of ?e) (map buffer_of es) = first_at_or_past internal_cmp (fst ?e) es"
    using buffer_place [OF es(1), of "fst ?e" "enc_slice (snd ?e)"] e by (simp add: buffer_of_def entry_fits_def)
  have n: "node_keys sl' xs' = map buffer_of (insert_entry ?e es)"
    unfolding i(3) es(3) key_order.insert_key_def [OF order] p insert_entry_def Let_def by (simp add: take_map drop_map)
  have "list_all entry_fits (insert_entry ?e es)"
    using es(1) e by (auto simp: insert_entry_def Let_def list_all_iff dest: in_set_takeD in_set_dropD)
  then have "holds (t\<lparr>mt_table := sl'\<rparr>) xs' (insert_entry ?e es)" using i(2) n es(4) by (simp add: holds_def)
  moreover have "MemTable_Add s type key v t = Some (t\<lparr>mt_table := sl'\<rparr>)"
    unfolding MemTable_Add_def Let_def Add_buffer(1) [OF e] Add_buffer(2) [OF e] es(4) i(1) by simp
  ultimately show ?thesis by force
qed

section \<open>The iterator keeps the contract\<close>

lemma memtable_iterator_on:
  assumes t: "holds t xs es"
  shows "iterator_on (memtable_iterator C) internal_cmp (\<lambda>k. valid_internal k \<and> slice_fits k) es
    (\<lambda>it. si_list it = mt_table t) (key_order.skip_at (KeyComparator C) entry_ok (mt_table t) xs)"
proof -
  have s: "key_order.ordered_list (KeyComparator C) entry_ok (mt_table t) xs" and ks: "node_keys (mt_table t) xs = map buffer_of es"
    and es: "list_all entry_fits es" using t by (simp_all add: holds_def)
  note l = holds_length [OF t]
  note facts = key_order.skip_at_facts [OF memtable_order] and moves = key_order.skip_moves [OF memtable_order s]
  have list_of: "key_order.skip_at (KeyComparator C) entry_ok (mt_table t) xs it i \<Longrightarrow> si_list it = mt_table t \<and> i \<le> length es" for it i
    by (simp add: key_order.skip_at_def [OF memtable_order] l)
  show ?thesis
  proof (unfold_locales, goal_cases)
    case (1 it i)
    then show ?case using list_of by simp
  next
    case (2 it i)
    then show ?case using facts(1) l by (simp add: memtable_iterator_def)
  next
    case (3 it i)
    have "entry_fits (es ! i)" using es 3 by (simp add: list_all_length)
    then show ?case
      using facts(2) [OF 3(1)] 3(2) l ks
      by (simp add: memtable_iterator_def memtable_entry_def buffer_of_def entry_fits_def prefixed_slice_enc Let_def prod_eq_iff
          prefixed_slice_enc [of _ "[]", simplified])
  next
    case (4 it i)
    then show ?case by (simp add: memtable_iterator_def)
  next
    case (5 it)
    then show ?case using moves(1) by (simp add: memtable_iterator_def)
  next
    case (6 it)
    have "xs = [] \<longleftrightarrow> es = []" using l by auto
    then show ?case using moves(2) [OF 6] l by (cases "es = []") (simp_all add: memtable_iterator_def)
  next
    case (7 it k)
    have "entry_ok (enc_slice k)" using 7 unfolding entry_ok_def by (metis append_Nil2)
    then show ?case
      using moves(3) [OF 7(1), of "enc_slice k"] buffer_place [OF es, of k "[]"] 7 ks by (simp add: memtable_iterator_def EncodeKey_eq)
  next
    case (8 it i)
    then show ?case using moves(4) list_of l by (simp add: memtable_iterator_def)
  next
    case (9 it i)
    then show ?case using moves(5) [of it i] list_of [of it i] l by (cases "i = 0") (simp_all add: memtable_iterator_def)
  qed
qed

end

interpretation memtable_keys: key_order "KeyComparator BytewiseComparator" bytewise.entry_ok
  by (rule bytewise.memtable_order)

end
