(* ===== verification/LdbMerger.thy ===== *)
theory LdbMerger
  imports LdbIterWrapper "HOL-Library.Multiset"
begin

text \<open>
  \<open>table/merger.cc\<close>: the iterator that merges the entries of several others. \<open>current_\<close> is the index of a child. Over children
  that keep the contract of iterators, with all keys different, it is an iterator over all their entries in order, in both
  directions and across changes of direction.
\<close>

section \<open>The merging iterator\<close>

datatype Direction = kForward | kReverse

record 'i MergingIterator =
  mi_children :: "'i IteratorWrapper list"
  mi_current :: "nat option"
  mi_direction :: Direction

definition new_MergingIterator :: "'i Iterator \<Rightarrow> 'i list \<Rightarrow> 'i MergingIterator" where
  "new_MergingIterator I children =
     \<lparr>mi_children = map (\<lambda>c. iw_Set I (Some c) empty_IteratorWrapper) children, mi_current = None, mi_direction = kForward\<rparr>"

definition smaller_child :: "Comparator \<Rightarrow> 'i IteratorWrapper list \<Rightarrow> nat \<Rightarrow> nat option \<Rightarrow> nat option" where
  "smaller_child C ws i smallest =
     (if iw_valid (ws ! i)
      then (case smallest of
          None \<Rightarrow> Some i
        | Some s \<Rightarrow> if cmp_Compare C (iw_key (ws ! i)) (iw_key (ws ! s)) < 0 then Some i else smallest)
      else smallest)"

definition larger_child :: "Comparator \<Rightarrow> 'i IteratorWrapper list \<Rightarrow> nat \<Rightarrow> nat option \<Rightarrow> nat option" where
  "larger_child C ws i largest =
     (if iw_valid (ws ! i)
      then (case largest of
          None \<Rightarrow> Some i
        | Some s \<Rightarrow> if cmp_Compare C (iw_key (ws ! i)) (iw_key (ws ! s)) > 0 then Some i else largest)
      else largest)"

definition FindSmallest :: "Comparator \<Rightarrow> 'i MergingIterator \<Rightarrow> 'i MergingIterator" where
  "FindSmallest C t =
     t\<lparr>mi_current := fold (smaller_child C (mi_children t)) [0..<length (mi_children t)] None\<rparr>"

definition FindLargest :: "Comparator \<Rightarrow> 'i MergingIterator \<Rightarrow> 'i MergingIterator" where
  "FindLargest C t =
     t\<lparr>mi_current := fold (larger_child C (mi_children t)) (rev [0..<length (mi_children t)]) None\<rparr>"

text \<open>A loop over the children, with their indices.\<close>

primrec each_child ::
    "(nat \<Rightarrow> 'i IteratorWrapper \<Rightarrow> 'i IteratorWrapper option) \<Rightarrow> nat \<Rightarrow> 'i IteratorWrapper list \<Rightarrow> 'i IteratorWrapper list option" where
  "each_child f i [] = Some []"
| "each_child f i (w # ws) = do { w1 \<leftarrow> f i w; ws1 \<leftarrow> each_child f (Suc i) ws; Some (w1 # ws1) }"

definition move_children ::
    "(nat \<Rightarrow> 'i IteratorWrapper \<Rightarrow> 'i IteratorWrapper option) \<Rightarrow> 'i MergingIterator \<Rightarrow> 'i MergingIterator option" where
  "move_children f t = do { ws \<leftarrow> each_child f 0 (mi_children t); Some (t\<lparr>mi_children := ws\<rparr>) }"

definition Merging_SeekToFirst :: "'i Iterator \<Rightarrow> Comparator \<Rightarrow> 'i MergingIterator \<Rightarrow> 'i MergingIterator option" where
  "Merging_SeekToFirst I C t = do {
     t1 \<leftarrow> move_children (\<lambda>i. iw_SeekToFirst I) t;
     Some ((FindSmallest C t1)\<lparr>mi_direction := kForward\<rparr>) }"

definition Merging_SeekToLast :: "'i Iterator \<Rightarrow> Comparator \<Rightarrow> 'i MergingIterator \<Rightarrow> 'i MergingIterator option" where
  "Merging_SeekToLast I C t = do {
     t1 \<leftarrow> move_children (\<lambda>i. iw_SeekToLast I) t;
     Some ((FindLargest C t1)\<lparr>mi_direction := kReverse\<rparr>) }"

definition Merging_Seek :: "'i Iterator \<Rightarrow> Comparator \<Rightarrow> slice \<Rightarrow> 'i MergingIterator \<Rightarrow> 'i MergingIterator option" where
  "Merging_Seek I C target t = do {
     t1 \<leftarrow> move_children (\<lambda>i. iw_Seek I target) t;
     Some ((FindSmallest C t1)\<lparr>mi_direction := kForward\<rparr>) }"

definition Merging_key :: "'i MergingIterator \<Rightarrow> slice" where
  "Merging_key t = (case mi_current t of None \<Rightarrow> [] | Some c \<Rightarrow> iw_key (mi_children t ! c))"

definition Merging_value :: "'i Iterator \<Rightarrow> 'i MergingIterator \<Rightarrow> slice" where
  "Merging_value I t = (case mi_current t of None \<Rightarrow> [] | Some c \<Rightarrow> iw_value I (mi_children t ! c))"

text \<open>Positioning the other children after, or before, \<open>key()\<close>, which is that of the current child and stays what it is.\<close>

definition behind_key :: "'i Iterator \<Rightarrow> Comparator \<Rightarrow> nat \<Rightarrow> slice \<Rightarrow> nat \<Rightarrow> 'i IteratorWrapper \<Rightarrow> 'i IteratorWrapper option" where
  "behind_key I C c key i child =
     (if i \<noteq> c then do {
        child1 \<leftarrow> iw_Seek I key child;
        if iw_valid child1 \<and> cmp_Compare C key (iw_key child1) = 0 then iw_Next I child1 else Some child1 }
      else Some child)"

definition before_key :: "'i Iterator \<Rightarrow> nat \<Rightarrow> slice \<Rightarrow> nat \<Rightarrow> 'i IteratorWrapper \<Rightarrow> 'i IteratorWrapper option" where
  "before_key I c key i child =
     (if i \<noteq> c then do {
        child1 \<leftarrow> iw_Seek I key child;
        if iw_valid child1 then iw_Prev I child1 else iw_SeekToLast I child1 }
      else Some child)"

definition move_current ::
    "('i IteratorWrapper \<Rightarrow> 'i IteratorWrapper option) \<Rightarrow> nat \<Rightarrow> 'i MergingIterator \<Rightarrow> 'i MergingIterator option" where
  "move_current f c t = do { w \<leftarrow> f (mi_children t ! c); Some (t\<lparr>mi_children := (mi_children t)[c := w]\<rparr>) }"

definition Merging_Next :: "'i Iterator \<Rightarrow> Comparator \<Rightarrow> 'i MergingIterator \<Rightarrow> 'i MergingIterator option" where
  "Merging_Next I C t = do {
     c \<leftarrow> mi_current t;
     t1 \<leftarrow> (if mi_direction t \<noteq> kForward then do {
              t1 \<leftarrow> move_children (behind_key I C c (Merging_key t)) t;
              Some (t1\<lparr>mi_direction := kForward\<rparr>) }
            else Some t);
     t2 \<leftarrow> move_current (iw_Next I) c t1;
     Some (FindSmallest C t2) }"

definition Merging_Prev :: "'i Iterator \<Rightarrow> Comparator \<Rightarrow> 'i MergingIterator \<Rightarrow> 'i MergingIterator option" where
  "Merging_Prev I C t = do {
     c \<leftarrow> mi_current t;
     t1 \<leftarrow> (if mi_direction t \<noteq> kReverse then do {
              t1 \<leftarrow> move_children (before_key I c (Merging_key t)) t;
              Some (t1\<lparr>mi_direction := kReverse\<rparr>) }
            else Some t);
     t2 \<leftarrow> move_current (iw_Prev I) c t1;
     Some (FindLargest C t2) }"

text \<open>The status of the last child asked, which is the first one that is not ok.\<close>

primrec children_status :: "'i Iterator \<Rightarrow> Status \<Rightarrow> 'i IteratorWrapper list \<Rightarrow> Status" where
  "children_status I s [] = s"
| "children_status I s (w # ws) = (if \<not> ok (iw_status I w) then iw_status I w else children_status I (iw_status I w) ws)"

definition merging_iterator :: "'i Iterator \<Rightarrow> Comparator \<Rightarrow> 'i MergingIterator Iterator" where
  "merging_iterator I C =
     \<lparr>it_Valid = (\<lambda>t. mi_current t \<noteq> None), it_SeekToFirst = Merging_SeekToFirst I C, it_SeekToLast = Merging_SeekToLast I C,
      it_Seek = Merging_Seek I C, it_Next = Merging_Next I C, it_Prev = Merging_Prev I C,
      it_key = Merging_key, it_value = Merging_value I, it_status = (\<lambda>t. children_status I OK (mi_children t))\<rparr>"

text \<open>No children give the empty iterator, and a single one is taken as it is.\<close>

datatype 'i Merged = NoChildren Status | OneChild 'i | Children "'i MergingIterator"

definition NewMergingIterator :: "'i Iterator \<Rightarrow> 'i list \<Rightarrow> 'i Merged" where
  "NewMergingIterator I children =
     (case children of
        [] \<Rightarrow> NoChildren NewEmptyIterator
      | [c] \<Rightarrow> OneChild c
      | _ \<Rightarrow> Children (new_MergingIterator I children))"

definition merged_iterator :: "'i Iterator \<Rightarrow> Comparator \<Rightarrow> 'i Merged Iterator" where
  "merged_iterator I C = (let E = EmptyIterator; M = merging_iterator I C in
     \<lparr>it_Valid = case_Merged (it_Valid E) (it_Valid I) (it_Valid M),
      it_SeekToFirst = case_Merged (map_option NoChildren \<circ> it_SeekToFirst E) (map_option OneChild \<circ> it_SeekToFirst I)
        (map_option Children \<circ> it_SeekToFirst M),
      it_SeekToLast = case_Merged (map_option NoChildren \<circ> it_SeekToLast E) (map_option OneChild \<circ> it_SeekToLast I)
        (map_option Children \<circ> it_SeekToLast M),
      it_Seek = (\<lambda>k. case_Merged (map_option NoChildren \<circ> it_Seek E k) (map_option OneChild \<circ> it_Seek I k)
        (map_option Children \<circ> it_Seek M k)),
      it_Next = case_Merged (map_option NoChildren \<circ> it_Next E) (map_option OneChild \<circ> it_Next I)
        (map_option Children \<circ> it_Next M),
      it_Prev = case_Merged (map_option NoChildren \<circ> it_Prev E) (map_option OneChild \<circ> it_Prev I)
        (map_option Children \<circ> it_Prev M),
      it_key = case_Merged (it_key E) (it_key I) (it_key M), it_value = case_Merged (it_value E) (it_value I) (it_value M),
      it_status = case_Merged (it_status E) (it_status I) (it_status M)\<rparr>)"

section \<open>The entries of the children\<close>

lemma takeWhile_sorted:
  "sorted_wrt R xs \<Longrightarrow> (\<And>x y. R x y \<Longrightarrow> x \<in> set xs \<Longrightarrow> y \<in> set xs \<Longrightarrow> P y \<Longrightarrow> P x) \<Longrightarrow> takeWhile P xs = filter P xs"
proof (induction xs)
  case (Cons x xs)
  have "filter P xs = []" if "\<not> P x" using Cons.prems that by (fastforce simp: filter_empty_conv)
  then show ?case using Cons by auto
qed simp

lemma concat_disjoint: "distinct (concat xs) \<Longrightarrow> i < length xs \<Longrightarrow> j < length xs \<Longrightarrow> x \<in> set (xs ! i) \<Longrightarrow> x \<in> set (xs ! j) \<Longrightarrow> i = j"
proof (induction xs arbitrary: i j)
  case (Cons y ys)
  have m: "x \<in> set y \<Longrightarrow> k < length ys \<Longrightarrow> x \<notin> set (ys ! k)" for k
    using Cons.prems(1) nth_mem [of k ys] by fastforce
  show ?case
  proof (cases i)
    case 0
    then show ?thesis using Cons.prems m [of "j - 1"] by (cases j) simp_all
  next
    case (Suc i')
    then show ?thesis using Cons.prems m [of "i'"] Cons.IH [of i' "j - 1"] by (cases j) simp_all
  qed
qed simp

text \<open>Which child a search picks: the one that is before, or behind, all other valid ones.\<close>

definition pick :: "(nat \<Rightarrow> bool) \<Rightarrow> (nat \<Rightarrow> nat \<Rightarrow> bool) \<Rightarrow> nat \<Rightarrow> nat option \<Rightarrow> nat option" where
  "pick v b i best = (if v i then (case best of None \<Rightarrow> Some i | Some s \<Rightarrow> if b i s then Some i else best) else best)"

lemma smaller_child_pick: "smaller_child C ws = pick (\<lambda>i. iw_valid (ws ! i)) (\<lambda>i s. cmp_Compare C (iw_key (ws ! i)) (iw_key (ws ! s)) < 0)"
  by (intro ext) (simp add: smaller_child_def pick_def)

lemma larger_child_pick: "larger_child C ws = pick (\<lambda>i. iw_valid (ws ! i)) (\<lambda>i s. cmp_Compare C (iw_key (ws ! i)) (iw_key (ws ! s)) > 0)"
  by (intro ext) (simp add: larger_child_def pick_def)

lemma pick_none: "\<forall>j \<in> set js. \<not> v j \<Longrightarrow> fold (pick v b) js best = best"
  by (induction js) (simp_all add: pick_def)

lemma pick_stays: "\<forall>j \<in> set js. v j \<and> j \<noteq> c \<longrightarrow> \<not> b j c \<Longrightarrow> fold (pick v b) js (Some c) = Some c"
  by (induction js) (auto simp: pick_def)

lemma pick_best:
  assumes c: "v c" and best: "\<forall>j \<in> set js. v j \<and> j \<noteq> c \<longrightarrow> b c j \<and> \<not> b j c"
  shows "c \<in> set js \<Longrightarrow> (\<forall>s. acc = Some s \<longrightarrow> s = c \<or> b c s) \<Longrightarrow> fold (pick v b) js acc = Some c"
  using best
proof (induction js arbitrary: acc)
  case (Cons j js)
  show ?case
  proof (cases "j = c")
    case True
    then have "pick v b j acc = Some c" using Cons.prems(2) c by (cases acc) (auto simp: pick_def)
    then show ?thesis using pick_stays [of js v c b] Cons.prems(3) by simp
  next
    case False
    have "\<forall>s. pick v b j acc = Some s \<longrightarrow> s = c \<or> b c s" using False Cons.prems by (auto simp: pick_def split: option.splits if_splits)
    then show ?thesis using Cons False by simp
  qed
qed simp

lemma each_child_some:
  "(\<And>k. k < length ws \<Longrightarrow> \<exists>w'. f (i + k) (ws ! k) = Some w' \<and> Q (i + k) w') \<Longrightarrow>
    \<exists>ws'. each_child f i ws = Some ws' \<and> length ws' = length ws \<and> (\<forall>k < length ws. Q (i + k) (ws' ! k))"
proof (induction ws arbitrary: i)
  case (Cons w ws)
  obtain w' where w: "f i w = Some w'" "Q i w'" using Cons.prems [of 0] by auto
  obtain ws' where ws: "each_child f (Suc i) ws = Some ws'" "length ws' = length ws" "\<forall>k < length ws. Q (Suc i + k) (ws' ! k)"
    using Cons.IH [of "Suc i"] Cons.prems [of "Suc k" for k] by fastforce
  have "\<forall>k < length (w # ws). Q (i + k) ((w' # ws') ! k)" using w(2) ws(3) by (auto simp: nth_Cons split: nat.split)
  then show ?case using w ws by simp
qed simp

text \<open>The children hold the entries \<open>ess\<close>, sorted, and all of them together, sorted, are \<open>es\<close>.\<close>

locale merged_children = comparator C valid for C valid +
  fixes I :: "'i Iterator" and ess :: "(slice \<times> slice) list list" and es :: "(slice \<times> slice) list"
    and ready :: "nat \<Rightarrow> 'i \<Rightarrow> bool" and on :: "nat \<Rightarrow> 'i \<Rightarrow> nat \<Rightarrow> bool"
  assumes child: "j < length ess \<Longrightarrow> iterator_on I (cmp_Compare C) valid (ess ! j) (ready j) (on j)"
    and child_sorted: "j < length ess \<Longrightarrow> sorted_wrt (\<lambda>a b. cmp_Compare C (fst a) (fst b) < 0) (ess ! j)"
    and keys_valid: "list_all (\<lambda>e. valid (fst e)) es"
    and all_sorted: "sorted_wrt (\<lambda>a b. cmp_Compare C (fst a) (fst b) < 0) es"
    and all_entries: "mset es = mset (concat ess)"
begin

lemma less_irrefl_on: "e \<in> set es \<Longrightarrow> \<not> cmp_Compare C (fst e) (fst e) < 0"
  using keys_valid compare_refl by (auto simp: list_all_iff)

lemma distinct_es: "distinct es"
proof -
  have "\<forall>i j. i < j \<longrightarrow> j < length es \<longrightarrow> es ! i \<noteq> es ! j"
    using all_sorted less_irrefl_on by (metis nth_mem sorted_wrt_nth_less)
  then show ?thesis by (metis distinct_conv_nth linorder_neqE_nat)
qed

lemma distinct_all: "distinct (concat ess)"
  using distinct_es all_entries by (metis distinct_count_atmost_1 set_mset_mset)

lemma child_entries: "j < length ess \<Longrightarrow> e \<in> set (ess ! j) \<Longrightarrow> e \<in> set es"
  using all_entries by (metis mset_eq_setD nth_mem set_concat UN_I)

lemma distinct_child: "j < length ess \<Longrightarrow> distinct (ess ! j)"
  using distinct_all by (meson distinct_concat_iff nth_mem)

lemma owner: "e \<in> set es \<Longrightarrow> \<exists>j < length ess. e \<in> set (ess ! j)"
  using all_entries by (metis (no_types, lifting) UN_E in_set_conv_nth mset_eq_setD set_concat)

text \<open>How many entries of a child are among the first \<open>i\<close> of all; it stands behind them.\<close>

definition cnt :: "nat \<Rightarrow> nat \<Rightarrow> nat" where
  "cnt j i = length (takeWhile (\<lambda>e. e \<in> set (take i es)) (ess ! j))"

lemma take_down:
  assumes "a \<in> set es" and "b \<in> set (take i es)" and "cmp_Compare C (fst a) (fst b) < 0"
  shows "a \<in> set (take i es)"
proof -
  obtain q where q: "q < length es" "a = es ! q" using assms(1) by (metis in_set_conv_nth)
  obtain p where p: "p < i" "p < length es" "b = es ! p" using assms(2) by (auto simp: in_set_conv_nth)
  have "\<not> p < q"
  proof
    assume "p < q"
    then have "cmp_Compare C (fst b) (fst a) < 0" using sorted_wrt_nth_less [OF all_sorted, of p q] q p by simp
    then have "cmp_Compare C (fst a) (fst a) < 0"
      using assms(3) keys_valid q p trans_less_le [of "fst a" "fst b" "fst a"] by (simp add: list_all_length)
    then show False using less_irrefl_on assms(1) by blast
  qed
  then show ?thesis using q p by (auto simp: in_set_conv_nth intro!: exI [of _ q])
qed

lemma takeWhile_child:
  assumes j: "j < length ess"
  shows "takeWhile (\<lambda>e. e \<in> set (take i es)) (ess ! j) = filter (\<lambda>e. e \<in> set (take i es)) (ess ! j)"
  by (rule takeWhile_sorted [OF child_sorted [OF j]]) (rule take_down, erule child_entries [OF j], assumption, assumption)

lemma cnt_filter: "j < length ess \<Longrightarrow> cnt j i = card (set (ess ! j) \<inter> set (take i es))"
proof -
  assume j: "j < length ess"
  have "takeWhile (\<lambda>e. e \<in> set (take i es)) (ess ! j) = filter (\<lambda>e. e \<in> set (take i es)) (ess ! j)"
    by (rule takeWhile_child [OF j])
  then show ?thesis
    using distinct_child [OF j] distinct_card [of "filter (\<lambda>e. e \<in> set (take i es)) (ess ! j)"]
    by (simp add: cnt_def Int_def)
qed

lemma cnt_le: "cnt j i \<le> length (ess ! j)"
  unfolding cnt_def by (rule length_takeWhile_le)

lemma cnt_0: "cnt j 0 = 0"
  by (cases "ess ! j") (simp_all add: cnt_def)

lemma cnt_end: "j < length ess \<Longrightarrow> length es \<le> i \<Longrightarrow> cnt j i = length (ess ! j)"
  using child_entries [of j] by (simp add: cnt_def takeWhile_eq_all_conv [THEN iffD2])

lemma cnt_below: "q < cnt j i \<Longrightarrow> ess ! j ! q \<in> set (take i es)"
  unfolding cnt_def by (metis nth_mem set_takeWhileD takeWhile_nth)

lemma cnt_above:
  assumes j: "j < length ess" and q: "cnt j i \<le> q" "q < length (ess ! j)"
  shows "ess ! j ! q \<notin> set (take i es)"
proof
  assume "ess ! j ! q \<in> set (take i es)"
  moreover have "takeWhile (\<lambda>e. e \<in> set (take i es)) (ess ! j) = filter (\<lambda>e. e \<in> set (take i es)) (ess ! j)"
    by (rule takeWhile_child [OF j])
  ultimately have "ess ! j ! q \<in> set (takeWhile (\<lambda>e. e \<in> set (take i es)) (ess ! j))" using q(2) by simp
  then obtain p where p: "p < cnt j i" "takeWhile (\<lambda>e. e \<in> set (take i es)) (ess ! j) ! p = ess ! j ! q"
    unfolding cnt_def in_set_conv_nth by (elim exE conjE)
  then have "ess ! j ! q = ess ! j ! p" unfolding cnt_def by (simp only: takeWhile_nth)
  then have "q = p" using p(1) q distinct_child [OF j] by (simp add: nth_eq_iff_index_eq)
  then show False using p(1) q(1) by simp
qed

lemma cnt_Suc:
  assumes j: "j < length ess" and i: "i < length es"
  shows "cnt j (Suc i) = cnt j i + (if es ! i \<in> set (ess ! j) then 1 else 0)"
proof -
  have "es ! i \<notin> set (take i es)" using distinct_es i by (auto simp: in_set_conv_nth nth_eq_iff_index_eq)
  moreover have "set (take (Suc i) es) = insert (es ! i) (set (take i es))" using i by (simp add: take_Suc_conv_app_nth)
  ultimately show ?thesis using j by (simp add: cnt_filter Int_insert_right)
qed

text \<open>The child that owns entry \<open>i\<close> stands at it.\<close>

lemma owner_at:
  assumes j: "j < length ess" and i: "i < length es" and o: "es ! i \<in> set (ess ! j)"
  shows "cnt j i < length (ess ! j)" "ess ! j ! cnt j i = es ! i"
proof -
  have "cnt j (Suc i) = Suc (cnt j i)" using cnt_Suc [OF j i] o by simp
  then show l: "cnt j i < length (ess ! j)" using cnt_le [of j "Suc i"] by simp
  have "ess ! j ! cnt j i \<in> set (take (Suc i) es)" using cnt_below [of "cnt j i" j "Suc i"] \<open>cnt j (Suc i) = Suc (cnt j i)\<close> by simp
  moreover have "ess ! j ! cnt j i \<notin> set (take i es)" using cnt_above [OF j order_refl l] .
  ultimately show "ess ! j ! cnt j i = es ! i" using i by (simp add: take_Suc_conv_app_nth)
qed

lemma owner_unique: "j < length ess \<Longrightarrow> k < length ess \<Longrightarrow> e \<in> set (ess ! j) \<Longrightarrow> e \<in> set (ess ! k) \<Longrightarrow> j = k"
  using concat_disjoint [OF distinct_all] by blast

lemma less_index:
  assumes "i < length es" and "e \<in> set es" and "e \<notin> set (take (Suc i) es)"
  shows "cmp_Compare C (fst (es ! i)) (fst e) < 0"
proof -
  obtain q where q: "q < length es" "e = es ! q" using assms(2) by (metis in_set_conv_nth)
  have "i < q"
  proof (rule ccontr)
    assume "\<not> i < q"
    then have "take (Suc i) es ! q \<in> set (take (Suc i) es)" using q by (intro nth_mem) simp
    then show False using assms(3) q \<open>\<not> i < q\<close> by simp
  qed
  then show ?thesis using sorted_wrt_nth_less [OF all_sorted, of i q] q by simp
qed

lemma index_less:
  assumes "i < length es" and "e \<in> set (take i es)"
  shows "cmp_Compare C (fst e) (fst (es ! i)) < 0"
  using assms sorted_wrt_nth_less [OF all_sorted, of _ i] by (auto simp: in_set_conv_nth)

lemma first_cnt:
  assumes j: "j < length ess" and k: "valid k"
  shows "first_at_or_past (cmp_Compare C) k (ess ! j) = cnt j (first_at_or_past (cmp_Compare C) k es)"
proof -
  have tr: "cmp_Compare C (fst x) k < 0" if "cmp_Compare C (fst x) (fst y) < 0" "x \<in> set es" "y \<in> set es" "cmp_Compare C (fst y) k < 0" for x y
    using that keys_valid k trans_less_le [of "fst x" "fst y" k] by (simp add: list_all_iff)
  have t: "takeWhile (\<lambda>e. cmp_Compare C (fst e) k < 0) es = filter (\<lambda>e. cmp_Compare C (fst e) k < 0) es"
    by (rule takeWhile_sorted [OF all_sorted]) (use tr in blast)
  let ?i = "first_at_or_past (cmp_Compare C) k es"
  have "take ?i es = takeWhile (\<lambda>e. cmp_Compare C (fst e) k < 0) es" by (simp add: first_at_or_past_def takeWhile_eq_take [symmetric])
  then have "e \<in> set (take ?i es) \<longleftrightarrow> cmp_Compare C (fst e) k < 0" if "e \<in> set (ess ! j)" for e
    using t child_entries [OF j that] by simp
  then have "takeWhile (\<lambda>e. e \<in> set (take ?i es)) (ess ! j) = takeWhile (\<lambda>e. cmp_Compare C (fst e) k < 0) (ess ! j)"
    by (intro takeWhile_cong) simp_all
  then show ?thesis by (simp add: cnt_def first_at_or_past_def)
qed

lemma first_self: "i < length es \<Longrightarrow> first_at_or_past (cmp_Compare C) (fst (es ! i)) es = i"
proof -
  assume i: "i < length es"
  have "takeWhile (\<lambda>e. cmp_Compare C (fst e) (fst (es ! i)) < 0) (take i es @ es ! i # drop (Suc i) es) = take i es"
    using index_less [OF i] less_irrefl_on i by (subst takeWhile_append2) auto
  then show ?thesis using i by (simp add: first_at_or_past_def id_take_nth_drop [symmetric])
qed

end


section \<open>The contract\<close>

context merged_children
begin

abbreviation child_wrapped :: "nat \<Rightarrow> 'i IteratorWrapper \<Rightarrow> nat \<Rightarrow> bool" where
  "child_wrapped j \<equiv> iterator_on.wrapped (ess ! j) (on j)"

definition at_positions :: "'i IteratorWrapper list \<Rightarrow> (nat \<Rightarrow> nat) \<Rightarrow> bool" where
  "at_positions ws p \<longleftrightarrow> length ws = length ess \<and> (\<forall>j < length ess. child_wrapped j (ws ! j) (p j))"

definition all_ready :: "'i IteratorWrapper list \<Rightarrow> bool" where
  "all_ready ws \<longleftrightarrow> length ws = length ess \<and> (\<forall>j < length ess. iterator_on.wraps_ready (ready j) (ws ! j))"

text \<open>Backwards, a child stands at the last of its entries among the first \<open>i\<close> of all, or nowhere.\<close>

definition last_of :: "nat \<Rightarrow> nat \<Rightarrow> nat" where
  "last_of j i = (if cnt j i = 0 then length (ess ! j) else cnt j i - 1)"

definition merge_on :: "'i MergingIterator \<Rightarrow> nat \<Rightarrow> bool" where
  "merge_on t i \<longleftrightarrow> i \<le> length es \<and>
     (if i < length es then
        (\<exists>c < length ess. mi_current t = Some c \<and> es ! i \<in> set (ess ! c)) \<and>
        at_positions (mi_children t) (\<lambda>j. if mi_direction t = kForward then cnt j i else last_of j (Suc i))
      else mi_current t = None \<and> (\<exists>p. at_positions (mi_children t) p))"

definition merge_ready :: "'i MergingIterator \<Rightarrow> bool" where
  "merge_ready t \<longleftrightarrow> all_ready (mi_children t)"

lemma at_positions_ready: "at_positions ws p \<Longrightarrow> all_ready ws"
  using iterator_on.wrapped_ready [OF child] by (auto simp: at_positions_def all_ready_def)

lemma each_child_at:
  assumes "length ws = length ess"
    and "\<And>j. j < length ess \<Longrightarrow> \<exists>w'. f j (ws ! j) = Some w' \<and> child_wrapped j w' (p j)"
  shows "\<exists>ws'. each_child f 0 ws = Some ws' \<and> at_positions ws' p"
  using each_child_some [of ws f 0 "\<lambda>j w. child_wrapped j w (p j)"] assms by (auto simp: at_positions_def)

lemma move_current_at:
  assumes w: "at_positions (mi_children t) p" and c: "c < length ess"
    and f: "\<exists>w'. f (mi_children t ! c) = Some w' \<and> child_wrapped c w' q"
  shows "\<exists>ws'. move_current f c t = Some (t\<lparr>mi_children := ws'\<rparr>) \<and> at_positions ws' (p(c := q))"
  using assms by (auto simp: move_current_def at_positions_def nth_list_update)

lemma at_positions_cong: "at_positions ws p \<Longrightarrow> (\<And>j. j < length ess \<Longrightarrow> p j = q j) \<Longrightarrow> at_positions ws q"
  by (simp add: at_positions_def)

lemma at_facts:
  assumes "at_positions ws p" and "j < length ess"
  shows "iw_valid (ws ! j) \<longleftrightarrow> p j < length (ess ! j)" "p j < length (ess ! j) \<Longrightarrow> iw_key (ws ! j) = fst (ess ! j ! p j)"
    "p j < length (ess ! j) \<Longrightarrow> iw_value I (ws ! j) = snd (ess ! j ! p j)" "iw_status I (ws ! j) = OK"
  using iterator_on.wrapped_facts [OF child [OF assms(2)], of "ws ! j" "p j"] assms by (simp_all add: at_positions_def)

lemma compare_less: "e \<in> set es \<Longrightarrow> e' \<in> set es \<Longrightarrow> cmp_Compare C (fst e) (fst e') < 0 \<Longrightarrow>
    \<not> cmp_Compare C (fst e') (fst e) < 0 \<and> cmp_Compare C (fst e') (fst e) > 0 \<and> \<not> cmp_Compare C (fst e) (fst e') > 0"
  using keys_valid antisym [of "fst e" "fst e'"] by (auto simp: list_all_iff)

text \<open>Searching forwards finds the owner of the entry the children stand at or behind.\<close>

lemma FindSmallest_at:
  assumes w: "at_positions (mi_children t) (\<lambda>j. cnt j i)" and i: "i \<le> length es" and d: "mi_direction t = kForward"
  shows "merge_on (FindSmallest C t) i"
proof (cases "i < length es")
  case True
  then obtain c where c: "c < length ess" "es ! i \<in> set (ess ! c)" using owner nth_mem by blast
  let ?ws = "mi_children t"
  have k: "iw_valid (?ws ! c)" "iw_key (?ws ! c) = fst (es ! i)"
    using at_facts [OF w c(1)] owner_at [OF c(1) True c(2)] by simp_all
  have best: "cmp_Compare C (iw_key (?ws ! c)) (iw_key (?ws ! j)) < 0 \<and> \<not> cmp_Compare C (iw_key (?ws ! j)) (iw_key (?ws ! c)) < 0"
    if j: "j < length ess" "iw_valid (?ws ! j)" "j \<noteq> c" for j
  proof -
    have l: "cnt j i < length (ess ! j)" "iw_key (?ws ! j) = fst (ess ! j ! cnt j i)" using at_facts [OF w j(1)] j(2) by simp_all
    have m: "ess ! j ! cnt j i \<in> set es" using child_entries [OF j(1)] l(1) by simp
    have "es ! i \<notin> set (ess ! j)" using owner_unique [OF j(1) c(1) _ c(2)] j(3) by blast
    then have "cnt j (Suc i) = cnt j i" using cnt_Suc [OF j(1) True] by simp
    then have "ess ! j ! cnt j i \<notin> set (take (Suc i) es)" using cnt_above [OF j(1) _ l(1), of "Suc i"] by simp
    then show ?thesis using less_index [OF True m] compare_less [of "es ! i" "ess ! j ! cnt j i"] m True k(2) l(2) by simp
  qed
  have "fold (smaller_child C ?ws) [0..<length ?ws] None = Some c"
    unfolding smaller_child_pick by (rule pick_best) (use best k(1) c(1) w in \<open>simp_all add: at_positions_def\<close>)
  then show ?thesis using w c True d by (auto simp: FindSmallest_def merge_on_def)
next
  case False
  have "cnt j i = length (ess ! j)" if "j < length ess" for j using cnt_end that False by simp
  then have "fold (smaller_child C (mi_children t)) [0..<length (mi_children t)] None = None"
    unfolding smaller_child_pick using at_facts(1) [OF w] w by (intro pick_none) (simp add: at_positions_def)
  then show ?thesis using w False i by (auto simp: FindSmallest_def merge_on_def)
qed

text \<open>Searching backwards finds the owner of the last of the first \<open>i\<close> entries.\<close>

lemma FindLargest_at:
  assumes w: "at_positions (mi_children t) (\<lambda>j. last_of j i)" and i: "i \<le> length es" and d: "mi_direction t = kReverse"
  shows "merge_on (FindLargest C t) (if i = 0 then length es else i - 1)"
proof (cases i)
  case 0
  then have "fold (larger_child C (mi_children t)) (rev [0..<length (mi_children t)]) None = None"
    unfolding larger_child_pick using at_facts(1) [OF w] w by (intro pick_none) (simp add: at_positions_def last_of_def cnt_0)
  then show ?thesis using w 0 by (auto simp: FindLargest_def merge_on_def)
next
  case (Suc m)
  then have m: "m < length es" using i by simp
  then obtain c where c: "c < length ess" "es ! m \<in> set (ess ! c)" using owner nth_mem by blast
  let ?ws = "mi_children t"
  have "cnt c i = Suc (cnt c m)" using cnt_Suc [OF c(1) m] c(2) Suc by simp
  then have k: "iw_valid (?ws ! c)" "iw_key (?ws ! c) = fst (es ! m)"
    using at_facts [OF w c(1)] owner_at [OF c(1) m c(2)] by (simp_all add: last_of_def)
  have best: "cmp_Compare C (iw_key (?ws ! c)) (iw_key (?ws ! j)) > 0 \<and> \<not> cmp_Compare C (iw_key (?ws ! j)) (iw_key (?ws ! c)) > 0"
    if j: "j < length ess" "iw_valid (?ws ! j)" "j \<noteq> c" for j
  proof -
    have l: "cnt j i \<noteq> 0" "cnt j i - 1 < length (ess ! j)" "iw_key (?ws ! j) = fst (ess ! j ! (cnt j i - 1))"
      using at_facts [OF w j(1)] j(2) by (auto simp: last_of_def split: if_splits)
    have e: "ess ! j ! (cnt j i - 1) \<in> set es" using child_entries [OF j(1)] l(2) by simp
    have "es ! m \<notin> set (ess ! j)" using owner_unique [OF j(1) c(1) _ c(2)] j(3) by blast
    then have "cnt j i = cnt j m" using cnt_Suc [OF j(1) m] Suc by simp
    then have "ess ! j ! (cnt j i - 1) \<in> set (take m es)" using cnt_below [of "cnt j i - 1" j m] l(1) by simp
    then show ?thesis using index_less [OF m] compare_less [OF e, of "es ! m"] m k(2) l(3) by simp
  qed
  have "fold (larger_child C ?ws) (rev [0..<length ?ws]) None = Some c"
    unfolding larger_child_pick by (rule pick_best) (use best k(1) c(1) w in \<open>simp_all add: at_positions_def\<close>)
  then show ?thesis using w c m d Suc by (auto simp: FindLargest_def merge_on_def)
qed

end


context merged_children
begin

lemma direction_after:
  "(FindSmallest C t)\<lparr>mi_direction := d\<rparr> = FindSmallest C (t\<lparr>mi_direction := d\<rparr>)"
  "(FindLargest C t)\<lparr>mi_direction := d\<rparr> = FindLargest C (t\<lparr>mi_direction := d\<rparr>)"
  by (cases t, simp add: FindSmallest_def FindLargest_def)+

lemma wrapper_moves:
  assumes "j < length ess"
  shows "iterator_on.wraps_ready (ready j) w \<Longrightarrow> \<exists>w'. iw_SeekToFirst I w = Some w' \<and> child_wrapped j w' 0"
    "iterator_on.wraps_ready (ready j) w \<Longrightarrow> \<exists>w'. iw_SeekToLast I w = Some w' \<and> child_wrapped j w' (last_of j (length es))"
    "iterator_on.wraps_ready (ready j) w \<Longrightarrow> valid k \<Longrightarrow> \<exists>w'. iw_Seek I k w = Some w' \<and>
      child_wrapped j w' (cnt j (first_at_or_past (cmp_Compare C) k es))"
    "child_wrapped j w i \<Longrightarrow> i < length (ess ! j) \<Longrightarrow> \<exists>w'. iw_Next I w = Some w' \<and> child_wrapped j w' (i + 1)"
    "child_wrapped j w i \<Longrightarrow> i < length (ess ! j) \<Longrightarrow> \<exists>w'. iw_Prev I w = Some w' \<and>
      child_wrapped j w' (if i = 0 then length (ess ! j) else i - 1)"
proof -
  note m = iterator_on.wrapped_moves [OF child [OF assms]]
  have l: "last_of j (length es) = (if ess ! j = [] then 0 else length (ess ! j) - 1)"
    using cnt_end [OF assms order_refl] by (simp add: last_of_def)
  show "iterator_on.wraps_ready (ready j) w \<Longrightarrow> \<exists>w'. iw_SeekToFirst I w = Some w' \<and> child_wrapped j w' 0" by (rule m(1))
  show "iterator_on.wraps_ready (ready j) w \<Longrightarrow> \<exists>w'. iw_SeekToLast I w = Some w' \<and> child_wrapped j w' (last_of j (length es))"
    unfolding l by (rule m(2))
  show "iterator_on.wraps_ready (ready j) w \<Longrightarrow> valid k \<Longrightarrow> \<exists>w'. iw_Seek I k w = Some w' \<and>
      child_wrapped j w' (cnt j (first_at_or_past (cmp_Compare C) k es))"
    using m(3) [of w k] first_cnt [OF assms, of k] by simp
qed (rule iterator_on.wrapped_moves(4,5) [OF child [OF assms]], assumption+)+

lemma ready_child: "all_ready ws \<Longrightarrow> j < length ess \<Longrightarrow> iterator_on.wraps_ready (ready j) (ws ! j)"
  by (simp add: all_ready_def)

lemma ready_length: "all_ready ws \<Longrightarrow> length ws = length ess"
  by (simp add: all_ready_def)

lemma Merging_SeekToFirst_on: "merge_ready t \<Longrightarrow> \<exists>t'. Merging_SeekToFirst I C t = Some t' \<and> merge_on t' 0"
proof -
  assume r: "merge_ready t"
  obtain ws where ws: "each_child (\<lambda>i. iw_SeekToFirst I) 0 (mi_children t) = Some ws" "at_positions ws (\<lambda>j. cnt j 0)"
    using each_child_at [of "mi_children t" "\<lambda>i. iw_SeekToFirst I" "\<lambda>j. cnt j 0"] ready_length ready_child wrapper_moves(1) r
    by (auto simp: merge_ready_def cnt_0)
  have "merge_on (FindSmallest C (t\<lparr>mi_children := ws, mi_direction := kForward\<rparr>)) 0"
    by (rule FindSmallest_at) (use ws(2) in simp_all)
  then show ?thesis using ws(1) by (simp add: Merging_SeekToFirst_def move_children_def direction_after)
qed

lemma Merging_SeekToLast_on:
  "merge_ready t \<Longrightarrow> \<exists>t'. Merging_SeekToLast I C t = Some t' \<and> merge_on t' (if es = [] then 0 else length es - 1)"
proof -
  assume r: "merge_ready t"
  obtain ws where ws: "each_child (\<lambda>i. iw_SeekToLast I) 0 (mi_children t) = Some ws" "at_positions ws (\<lambda>j. last_of j (length es))"
    using each_child_at [of "mi_children t" "\<lambda>i. iw_SeekToLast I" "\<lambda>j. last_of j (length es)"] ready_length ready_child
      wrapper_moves(2) r
    by (auto simp: merge_ready_def)
  have "merge_on (FindLargest C (t\<lparr>mi_children := ws, mi_direction := kReverse\<rparr>)) (if es = [] then 0 else length es - 1)"
    using FindLargest_at [of "t\<lparr>mi_children := ws, mi_direction := kReverse\<rparr>" "length es"] ws(2) by (cases es) simp_all
  then show ?thesis using ws(1) by (simp add: Merging_SeekToLast_def move_children_def direction_after)
qed

lemma Merging_Seek_on:
  "merge_ready t \<Longrightarrow> valid k \<Longrightarrow> \<exists>t'. Merging_Seek I C k t = Some t' \<and> merge_on t' (first_at_or_past (cmp_Compare C) k es)"
proof -
  assume r: "merge_ready t" and k: "valid k"
  let ?i = "first_at_or_past (cmp_Compare C) k es"
  obtain ws where ws: "each_child (\<lambda>i. iw_Seek I k) 0 (mi_children t) = Some ws" "at_positions ws (\<lambda>j. cnt j ?i)"
    using each_child_at [of "mi_children t" "\<lambda>i. iw_Seek I k" "\<lambda>j. cnt j ?i"] ready_length ready_child wrapper_moves(3) r k
    by (auto simp: merge_ready_def)
  have "merge_on (FindSmallest C (t\<lparr>mi_children := ws, mi_direction := kForward\<rparr>)) ?i"
    by (rule FindSmallest_at) (use ws(2) in \<open>simp_all add: first_at_or_past_def length_takeWhile_le\<close>)
  then show ?thesis using ws(1) by (simp add: Merging_Seek_def move_children_def direction_after)
qed

text \<open>What \<open>merge_on\<close> says in the middle of the entries, whatever the direction.\<close>

lemma merge_on_current: "merge_on t i \<Longrightarrow> i < length es \<Longrightarrow> \<exists>c. mi_current t = Some c"
  by (auto simp: merge_on_def)

lemma merge_on_middle:
  assumes t: "merge_on t i" and i: "i < length es" and c: "mi_current t = Some c"
  shows "c < length ess" "cnt c i < length (ess ! c)" "cnt c (Suc i) = Suc (cnt c i)"
    "child_wrapped c (mi_children t ! c) (cnt c i)" "Merging_key t = fst (es ! i)" "Merging_value I t = snd (es ! i)"
    "\<And>j. j < length ess \<Longrightarrow> j \<noteq> c \<Longrightarrow> cnt j (Suc i) = cnt j i"
proof -
  show l: "c < length ess" using t i c by (auto simp: merge_on_def)
  have e: "es ! i \<in> set (ess ! c)" and
    p: "at_positions (mi_children t) (\<lambda>j. if mi_direction t = kForward then cnt j i else last_of j (Suc i))"
    using t i c by (auto simp: merge_on_def)
  note o = owner_at [OF l i e]
  show o1: "cnt c i < length (ess ! c)" by (rule o)
  show s: "cnt c (Suc i) = Suc (cnt c i)" using cnt_Suc [OF l i] e by simp
  then have x: "(if mi_direction t = kForward then cnt c i else last_of c (Suc i)) = cnt c i" by (simp add: last_of_def)
  have "child_wrapped c (mi_children t ! c) (if mi_direction t = kForward then cnt c i else last_of c (Suc i))"
    using p l unfolding at_positions_def by blast
  then show w: "child_wrapped c (mi_children t ! c) (cnt c i)" unfolding x .
  show "\<And>j. j < length ess \<Longrightarrow> j \<noteq> c \<Longrightarrow> cnt j (Suc i) = cnt j i"
    using cnt_Suc [OF _ i] owner_unique [OF _ l _ e] by auto
  show "Merging_key t = fst (es ! i)" "Merging_value I t = snd (es ! i)"
    using iterator_on.wrapped_facts [OF child [OF l] w] o c by (simp_all add: Merging_key_def Merging_value_def)
qed

lemma valid_key: "i < length es \<Longrightarrow> valid (fst (es ! i))"
  using keys_valid by (simp add: list_all_length)

text \<open>Turning round puts the children where the other direction has them.\<close>

lemma turn_forward:
  assumes t: "merge_on t i" and i: "i < length es" and c: "mi_current t = Some c"
  shows "\<exists>ws. (if mi_direction t \<noteq> kForward then do {
        t1 \<leftarrow> move_children (behind_key I C c (Merging_key t)) t; Some (t1\<lparr>mi_direction := kForward\<rparr>) } else Some t) =
      Some (t\<lparr>mi_children := ws, mi_direction := kForward\<rparr>) \<and> at_positions ws (\<lambda>j. cnt j i)"
proof (cases "mi_direction t")
  case kForward
  then have "at_positions (mi_children t) (\<lambda>j. cnt j i)" using t i by (simp add: merge_on_def)
  then show ?thesis using kForward by (intro exI [of _ "mi_children t"]) simp
next
  case kReverse
  have p: "at_positions (mi_children t) (\<lambda>j. last_of j (Suc i))" using t i kReverse by (simp add: merge_on_def)
  note r = at_positions_ready [OF p]
  note m = merge_on_middle [OF t i c]
  have "\<exists>w'. behind_key I C c (Merging_key t) j (mi_children t ! j) = Some w' \<and> child_wrapped j w' (cnt j i)"
    if j: "j < length ess" for j
  proof (cases "j = c")
    case False
    obtain w where w: "iw_Seek I (fst (es ! i)) (mi_children t ! j) = Some w" "child_wrapped j w (cnt j i)"
      using wrapper_moves(3) [OF j ready_child [OF r j] valid_key [OF i]] first_self [OF i] by auto
    have "cmp_Compare C (fst (es ! i)) (iw_key w) \<noteq> 0" if v: "iw_valid w"
    proof -
      have l: "cnt j i < length (ess ! j)" "iw_key w = fst (ess ! j ! cnt j i)"
        using iterator_on.wrapped_facts [OF child [OF j] w(2)] v by simp_all
      have "ess ! j ! cnt j i \<notin> set (take (Suc i) es)"
        using cnt_above [OF j _ l(1), of "Suc i"] m(7) [OF j False] by simp
      then show ?thesis using less_index [OF i child_entries [OF j nth_mem [OF l(1)]]] l(2) by simp
    qed
    then show ?thesis using w False m(5) by (auto simp: behind_key_def)
  next
    case True
    then show ?thesis using m(4) by (simp add: behind_key_def)
  qed
  then show ?thesis
    using each_child_at [OF ready_length [OF r], of "behind_key I C c (Merging_key t)" "\<lambda>j. cnt j i"] kReverse
    by (auto simp: move_children_def)
qed

lemma turn_back:
  assumes t: "merge_on t i" and i: "i < length es" and c: "mi_current t = Some c"
  shows "\<exists>ws. (if mi_direction t \<noteq> kReverse then do {
        t1 \<leftarrow> move_children (before_key I c (Merging_key t)) t; Some (t1\<lparr>mi_direction := kReverse\<rparr>) } else Some t) =
      Some (t\<lparr>mi_children := ws, mi_direction := kReverse\<rparr>) \<and> at_positions ws (\<lambda>j. last_of j (Suc i))"
proof (cases "mi_direction t")
  case kReverse
  then have "at_positions (mi_children t) (\<lambda>j. last_of j (Suc i))" using t i by (simp add: merge_on_def)
  then show ?thesis using kReverse by (intro exI [of _ "mi_children t"]) simp
next
  case kForward
  have p: "at_positions (mi_children t) (\<lambda>j. cnt j i)" using t i kForward by (simp add: merge_on_def)
  note r = at_positions_ready [OF p]
  note m = merge_on_middle [OF t i c]
  have "\<exists>w'. before_key I c (Merging_key t) j (mi_children t ! j) = Some w' \<and> child_wrapped j w' (last_of j (Suc i))"
    if j: "j < length ess" for j
  proof (cases "j = c")
    case False
    obtain w where w: "iw_Seek I (fst (es ! i)) (mi_children t ! j) = Some w" "child_wrapped j w (cnt j i)"
      using wrapper_moves(3) [OF j ready_child [OF r j] valid_key [OF i]] first_self [OF i] by auto
    have n: "cnt j (Suc i) = cnt j i" by (rule m(7) [OF j False])
    have e: "\<exists>w'. (if iw_valid w then iw_Prev I w else iw_SeekToLast I w) = Some w' \<and> child_wrapped j w' (last_of j (Suc i))"
    proof (cases "iw_valid w")
      case True
      then have "cnt j i < length (ess ! j)" using iterator_on.wrapped_facts(1) [OF child [OF j] w(2)] by simp
      then show ?thesis using wrapper_moves(5) [OF j w(2)] True by (simp only: last_of_def n if_True)
    next
      case v: False
      have "cnt j i = length (ess ! j)" using iterator_on.wrapped_facts(1) [OF child [OF j] w(2)] v cnt_le [of j i] by simp
      then have "last_of j (Suc i) = last_of j (length es)" using n cnt_end [OF j order_refl] by (simp add: last_of_def)
      moreover have "iterator_on.wraps_ready (ready j) w" using iterator_on.wrapped_ready [OF child [OF j] w(2)] by simp
      ultimately show ?thesis using wrapper_moves(2) [OF j] v by simp
    qed
    then show ?thesis using w(1) False m(5) by (simp add: before_key_def)
  next
    case True
    then show ?thesis using m(3,4) by (simp add: before_key_def last_of_def)
  qed
  then show ?thesis
    using each_child_at [OF ready_length [OF r], of "before_key I c (Merging_key t)" "\<lambda>j. last_of j (Suc i)"] kForward
    by (auto simp: move_children_def)
qed

end


context merged_children
begin

lemma Merging_Next_on: "merge_on t i \<Longrightarrow> i < length es \<Longrightarrow> \<exists>t'. Merging_Next I C t = Some t' \<and> merge_on t' (i + 1)"
proof -
  assume t: "merge_on t i" and i: "i < length es"
  obtain c where c: "mi_current t = Some c" using merge_on_current [OF t i] by blast
  note m = merge_on_middle [OF t i c]
  obtain ws where ws: "(if mi_direction t \<noteq> kForward then do {
        t1 \<leftarrow> move_children (behind_key I C c (Merging_key t)) t; Some (t1\<lparr>mi_direction := kForward\<rparr>) } else Some t) =
      Some (t\<lparr>mi_children := ws, mi_direction := kForward\<rparr>)" "at_positions ws (\<lambda>j. cnt j i)"
    using turn_forward [OF t i c] by blast
  let ?t = "t\<lparr>mi_children := ws, mi_direction := kForward\<rparr>"
  have "child_wrapped c (mi_children ?t ! c) (cnt c i)" using ws(2) m(1) by (simp add: at_positions_def)
  then obtain ws' where ws': "move_current (iw_Next I) c ?t = Some (?t\<lparr>mi_children := ws'\<rparr>)"
    "at_positions ws' ((\<lambda>j. cnt j i)(c := cnt c i + 1))"
    using move_current_at [of ?t "\<lambda>j. cnt j i" c "iw_Next I" "cnt c i + 1"] ws(2) m(1,2) wrapper_moves(4) [OF m(1)] by auto
  have "at_positions ws' (\<lambda>j. cnt j (Suc i))"
    by (rule at_positions_cong [OF ws'(2)]) (use m(3,7) in simp)
  then have "merge_on (FindSmallest C (?t\<lparr>mi_children := ws'\<rparr>)) (Suc i)" using i by (intro FindSmallest_at) simp_all
  then show ?thesis using c ws(1) ws'(1) by (simp add: Merging_Next_def)
qed

lemma Merging_Prev_on:
  "merge_on t i \<Longrightarrow> i < length es \<Longrightarrow> \<exists>t'. Merging_Prev I C t = Some t' \<and> merge_on t' (if i = 0 then length es else i - 1)"
proof -
  assume t: "merge_on t i" and i: "i < length es"
  obtain c where c: "mi_current t = Some c" using merge_on_current [OF t i] by blast
  note m = merge_on_middle [OF t i c]
  obtain ws where ws: "(if mi_direction t \<noteq> kReverse then do {
        t1 \<leftarrow> move_children (before_key I c (Merging_key t)) t; Some (t1\<lparr>mi_direction := kReverse\<rparr>) } else Some t) =
      Some (t\<lparr>mi_children := ws, mi_direction := kReverse\<rparr>)" "at_positions ws (\<lambda>j. last_of j (Suc i))"
    using turn_back [OF t i c] by blast
  let ?t = "t\<lparr>mi_children := ws, mi_direction := kReverse\<rparr>"
  have "last_of c (Suc i) = cnt c i" using m(3) by (simp add: last_of_def)
  then have "child_wrapped c (mi_children ?t ! c) (cnt c i)" using ws(2) m(1) unfolding at_positions_def by fastforce
  then have "\<exists>w'. iw_Prev I (mi_children ?t ! c) = Some w' \<and> child_wrapped c w' (last_of c i)"
    using wrapper_moves(5) [OF m(1) _ m(2)] by (simp only: last_of_def)
  then obtain ws' where ws': "move_current (iw_Prev I) c ?t = Some (?t\<lparr>mi_children := ws'\<rparr>)"
    "at_positions ws' ((\<lambda>j. last_of j (Suc i))(c := last_of c i))"
    using move_current_at [of ?t "\<lambda>j. last_of j (Suc i)" c "iw_Prev I" "last_of c i"] ws(2) m(1) by auto
  have "at_positions ws' (\<lambda>j. last_of j i)"
    by (rule at_positions_cong [OF ws'(2)]) (use m(7) in \<open>simp add: last_of_def\<close>)
  then have "merge_on (FindLargest C (?t\<lparr>mi_children := ws'\<rparr>)) (if i = 0 then length es else i - 1)"
    using i by (intro FindLargest_at) simp_all
  then show ?thesis using c ws(1) ws'(1) by (simp add: Merging_Prev_def)
qed

lemma children_status_OK: "list_all (\<lambda>w. iw_status I w = OK) ws \<Longrightarrow> children_status I OK ws = OK"
  by (induction ws) simp_all

lemma Merging_status_on: "merge_on t i \<Longrightarrow> children_status I OK (mi_children t) = OK"
proof -
  assume "merge_on t i"
  then obtain p where p: "at_positions (mi_children t) p" by (auto simp: merge_on_def split: if_splits)
  then show ?thesis using at_facts(4) [OF p] by (intro children_status_OK) (simp add: at_positions_def list_all_length)
qed

theorem merging_iterator_on: "iterator_on (merging_iterator I C) (cmp_Compare C) valid es merge_ready merge_on"
proof (unfold_locales, goal_cases)
  case (1 t i)
  then show ?case using at_positions_ready by (auto simp: merge_on_def merge_ready_def split: if_splits)
next
  case (2 t i)
  then show ?case by (auto simp: merge_on_def merging_iterator_def split: if_splits)
next
  case (3 t i)
  then show ?case using merge_on_middle(5,6) merge_on_current by (fastforce simp: merging_iterator_def prod_eq_iff)
next
  case (4 t i)
  then show ?case using Merging_status_on by (simp add: merging_iterator_def)
next
  case (5 t)
  then show ?case using Merging_SeekToFirst_on by (simp add: merging_iterator_def)
next
  case (6 t)
  then show ?case using Merging_SeekToLast_on by (simp add: merging_iterator_def)
next
  case (7 t k)
  then show ?case using Merging_Seek_on by (simp add: merging_iterator_def)
next
  case (8 t i)
  then show ?case using Merging_Next_on by (simp add: merging_iterator_def)
next
  case (9 t i)
  then show ?case using Merging_Prev_on by (simp add: merging_iterator_def)
qed

end


section \<open>No child, one child, or more\<close>

context merged_children
begin

definition merged_ready :: "'i Merged \<Rightarrow> bool" where
  "merged_ready m =
     (case m of
        NoChildren s \<Rightarrow> s = OK \<and> ess = []
      | OneChild c \<Rightarrow> length ess = 1 \<and> ready 0 c
      | Children t \<Rightarrow> merge_ready t)"

definition merged_on :: "'i Merged \<Rightarrow> nat \<Rightarrow> bool" where
  "merged_on m i =
     (case m of
        NoChildren s \<Rightarrow> s = OK \<and> ess = [] \<and> i = 0
      | OneChild c \<Rightarrow> length ess = 1 \<and> on 0 c i
      | Children t \<Rightarrow> merge_on t i)"

lemma no_entries: "ess = [] \<Longrightarrow> es = []"
  using all_entries by simp

lemma single_child: "length ess = 1 \<Longrightarrow> ess ! 0 = es"
proof -
  assume l: "length ess = 1"
  then have m: "mset (ess ! 0) = mset es" using all_entries by (cases ess) simp_all
  have o: "es ! i \<in> set (ess ! 0)" if "i < length es" for i using m that by (metis mset_eq_setD nth_mem)
  have "i \<le> length es \<Longrightarrow> cnt 0 i = i" for i
    using cnt_Suc [of 0] o l by (induction i) (simp_all add: cnt_0)
  then show "ess ! 0 = es"
    using owner_at(2) [of 0] o l mset_eq_length [OF m] by (intro nth_equalityI) simp_all
qed

lemma NewMergingIterator_ready:
  assumes "length children = length ess" and "\<And>j. j < length ess \<Longrightarrow> ready j (children ! j)"
  shows "merged_ready (NewMergingIterator I children)"
proof -
  have "merge_ready (new_MergingIterator I children)"
    using assms iterator_on.wraps_ready_def [OF child]
    by (simp add: merge_ready_def all_ready_def new_MergingIterator_def iw_Set_def)
  then show ?thesis
    using assms(1) assms(2) [of 0, folded length_greater_0_conv] by (auto simp del: length_greater_0_conv simp: NewMergingIterator_def merged_ready_def NewEmptyIterator_def split: list.split)
qed

theorem merged_iterator_on: "iterator_on (merged_iterator I C) (cmp_Compare C) valid es merged_ready merged_on"
proof -
  let ?M = "merging_iterator I C"
  note M = merging_iterator_on
  have N: "iterator_on EmptyIterator (cmp_Compare C) (\<lambda>t. True) es (\<lambda>s. s = NewEmptyIterator) (\<lambda>s i. s = NewEmptyIterator \<and> i = 0)"
    if "ess = []" using empty_iterator.iterator_on_axioms no_entries [OF that] by simp
  have O: "iterator_on I (cmp_Compare C) valid es (ready 0) (on 0)" if "length ess = 1"
    using child [of 0] single_child [OF that] that by simp
  show ?thesis
  proof (unfold_locales, goal_cases)
    case (1 m i)
    then show ?case
      using iterator_on.on_ready [OF M] iterator_on.on_ready [OF O]
      unfolding merged_on_def merged_ready_def by (cases m) auto
  next
    case (2 m i)
    then show ?case
      using iterator_on.on_valid [OF M] iterator_on.on_valid [OF O] iterator_on.on_valid [OF N]
      unfolding merged_on_def merged_ready_def by (cases m) (auto simp: merged_iterator_def Let_def NewEmptyIterator_def)+
  next
    case (3 m i)
    then show ?case
      using iterator_on.on_entry [OF M] iterator_on.on_entry [OF O] no_entries
      unfolding merged_on_def merged_ready_def by (cases m) (auto simp: merged_iterator_def Let_def NewEmptyIterator_def)+
  next
    case (4 m i)
    then show ?case
      using iterator_on.on_status [OF M] iterator_on.on_status [OF O]
      unfolding merged_on_def by (cases m) (auto simp: merged_iterator_def Let_def EmptyIterator_def)+
  next
    case (5 m)
    then show ?case
      using iterator_on.seek_to_first [OF M] iterator_on.seek_to_first [OF O] iterator_on.seek_to_first [OF N]
      unfolding merged_on_def merged_ready_def by (cases m) (fastforce simp: merged_iterator_def Let_def NewEmptyIterator_def)+
  next
    case (6 m)
    then show ?case
      using iterator_on.seek_to_last [OF M] iterator_on.seek_to_last [OF O] iterator_on.seek_to_last [OF N] no_entries
      unfolding merged_on_def merged_ready_def by (cases m) (fastforce simp: merged_iterator_def Let_def NewEmptyIterator_def)+
  next
    case (7 m k)
    then show ?case
      using iterator_on.seek [OF M] iterator_on.seek [OF O] iterator_on.seek [OF N] no_entries
      unfolding merged_on_def merged_ready_def by (cases m) (fastforce simp: merged_iterator_def Let_def NewEmptyIterator_def)+
  next
    case (8 m i)
    then show ?case
      using iterator_on.move_next [OF M] iterator_on.move_next [OF O] no_entries
      unfolding merged_on_def merged_ready_def by (cases m) (fastforce simp: merged_iterator_def Let_def NewEmptyIterator_def)+
  next
    case (9 m i)
    then show ?case
      using iterator_on.move_prev [OF M] iterator_on.move_prev [OF O] no_entries
      unfolding merged_on_def merged_ready_def by (cases m) (fastforce simp: merged_iterator_def Let_def NewEmptyIterator_def)+
  qed
qed

end

end
