(* ===== verification/LdbMemGet.thy ===== *)
theory LdbMemGet
  imports LdbMemTable LdbWriteBatch LdbMerger
begin

text \<open>
  What reading the mem-table gives. Batches are inserted into a new mem-table; a lookup at a snapshot then finds the newest of
  the operations on its user key that is not newer than the snapshot, and the iterator goes over all of them.
\<close>

section \<open>The operations of a table\<close>

text \<open>An operation as the mem-table stores it: its sequence number, its type, its key and its value.\<close>

type_synonym mem_op = "SequenceNumber \<times> ValueType \<times> slice \<times> slice"

primrec numbered :: "SequenceNumber \<Rightarrow> batch_op list \<Rightarrow> mem_op list" where
  "numbered s [] = []"
| "numbered s (x # xs) =
     (case x of Put_op k v \<Rightarrow> (s, kTypeValue, k, v) | Delete_op k \<Rightarrow> (s, kTypeDeletion, k, [])) # numbered (s + 1) xs"

definition op_entry :: "mem_op \<Rightarrow> slice \<times> slice" where
  "op_entry = (\<lambda>(s, ty, k, v). (new_InternalKey k s ty, v))"

text \<open>Adding where an earlier call may have failed an assertion; a client that builds a batch, gives it a sequence number and inserts it,
  and goes on only if that succeeds.\<close>

definition add_to :: "SequenceNumber \<Rightarrow> ValueType \<Rightarrow> slice \<Rightarrow> slice \<Rightarrow> MemTable option \<Rightarrow> MemTable option" where
  "add_to s ty k v t = Option.bind t (MemTable_Add s ty k v)"

definition write_batch :: "SequenceNumber \<times> batch_op list \<Rightarrow> MemTable option \<Rightarrow> MemTable option" where
  "write_batch b t =
     (let (st, t') = InsertInto add_to (WriteBatch_SetSequence (fold batch_add (snd b) new_WriteBatch) (fst b)) t
      in if ok st then t' else None)"

definition history :: "(SequenceNumber \<times> batch_op list) list \<Rightarrow> mem_op list" where
  "history bs = concat (map (\<lambda>(s, ops). numbered s ops) bs)"

text \<open>What a lookup of the user key \<open>u\<close> at the snapshot \<open>s\<close> sees, and what it returns.\<close>

definition visible :: "Comparator \<Rightarrow> slice \<Rightarrow> SequenceNumber \<Rightarrow> mem_op \<Rightarrow> bool" where
  "visible C u s = (\<lambda>(sq, ty, k, v). sq \<le> s \<and> cmp_Compare C k u = 0)"

definition mem_answer :: "mem_op option \<Rightarrow> slice \<Rightarrow> Status \<Rightarrow> bool \<times> slice \<times> Status" where
  "mem_answer x v st =
     (case x of None \<Rightarrow> (False, v, st)
      | Some (sq, kTypeValue, k, v') \<Rightarrow> (True, v', st)
      | Some (sq, kTypeDeletion, k, v') \<Rightarrow> (True, v, NotFound [] []))"

section \<open>Tags\<close>

lemma pack_less:
  assumes "s \<le> kMaxSequenceNumber" and "s' \<le> kMaxSequenceNumber" and "s < s'"
  shows "PackSequenceAndType s t < PackSequenceAndType s' t'"
proof (rule ccontr)
  assume "\<not> PackSequenceAndType s t < PackSequenceAndType s' t'"
  then have "unat (PackSequenceAndType s' t') \<le> unat (PackSequenceAndType s t)" by (simp add: word_le_nat_alt not_less)
  then have "unat (PackSequenceAndType s' t') div 2 ^ 8 \<le> unat (PackSequenceAndType s t) div 2 ^ 8" by (rule div_le_mono)
  then have "unat (drop_bit 8 (PackSequenceAndType s' t')) \<le> unat (drop_bit 8 (PackSequenceAndType s t))"
    by (simp add: drop_bit_eq_div unat_div)
  then have "unat s' \<le> unat s" unfolding pack_fields(1) [OF assms(1)] pack_fields(1) [OF assms(2)] .
  then show False using assms(3) by (simp add: word_less_nat_alt)
qed

text \<open>At most at a snapshot are the operations whose tag is at most that of its lookup key.\<close>

lemma pack_le_seek:
  assumes "s \<le> kMaxSequenceNumber" and "s' \<le> kMaxSequenceNumber"
  shows "PackSequenceAndType s t \<le> PackSequenceAndType s' kTypeValue \<longleftrightarrow> s \<le> s'"
proof (cases "s = s'")
  case True
  have "PackSequenceAndType s kTypeDeletion \<le> PackSequenceAndType s kTypeValue"
  proof -
    have e: "PackSequenceAndType s kTypeDeletion = push_bit 8 s" by (simp add: PackSequenceAndType_def)
    have "PackSequenceAndType s kTypeValue = push_bit 8 s OR 1" by (simp add: PackSequenceAndType_def)
    moreover have "push_bit 8 s AND 1 = 0" by (rule bit_word_eqI) (auto simp: bit_simps)
    ultimately have "PackSequenceAndType s kTypeValue = PackSequenceAndType s kTypeDeletion OR 1" by (simp add: e)
    then show ?thesis by (simp add: word_le_def unsigned_or_eq or_greater_eq)
  qed
  then show ?thesis using True by (cases t) simp_all
next
  case False
  then consider "s < s'" | "s' < s" by fastforce
  then show ?thesis
  proof cases
    case 1
    then show ?thesis using pack_less [OF assms, of t kTypeValue] by (simp add: less_imp_le)
  next
    case 2
    then show ?thesis using pack_less [OF assms(2,1), of kTypeValue t] by (simp add: not_le [symmetric])
  qed
qed

section \<open>A table that holds a history\<close>

context comparator
begin

definition op_ok :: "mem_op \<Rightarrow> bool" where
  "op_ok = (\<lambda>(s, ty, k, v). s \<le> kMaxSequenceNumber \<and> valid k \<and> length k + 8 < 2 ^ 32 \<and> slice_fits v)"

definition recorded :: "mem_op list \<Rightarrow> MemTable \<Rightarrow> bool" where
  "recorded h t \<longleftrightarrow> list_all op_ok h \<and> sorted_wrt (<) (map fst h) \<and>
     (\<exists>xs es. holds t xs es \<and> set es = op_entry ` set h)"

lemma new_key_parts:
  "ExtractUserKey (new_InternalKey k s ty) = k" "key_tag (new_InternalKey k s ty) = PackSequenceAndType s ty"
  "length (new_InternalKey k s ty) = length k + 8" "valid k \<Longrightarrow> valid_internal (new_InternalKey k s ty)"
  by (simp_all add: new_InternalKey_def AppendInternalKey_eq ExtractUserKey_append key_tag_append valid_internal_def)

lemma internal_cmp_eq: "internal_cmp = InternalKey_Compare C"
  by (simp add: InternalKeyComparator_def)

lemma op_entry_fits: "op_ok x \<Longrightarrow> entry_fits (op_entry x)"
  by (auto simp: op_ok_def op_entry_def entry_fits_def new_key_parts slice_fits_def split: prod.splits)

lemma recorded_new: "recorded [] (new_MemTable C)"
  using holds_new by (auto simp: recorded_def)

lemma recorded_add:
  assumes t: "recorded h t" and x: "op_ok (s, ty, k, v)" and later: "\<forall>y \<in> set h. fst y < s"
  shows "\<exists>t'. MemTable_Add s ty k v t = Some t' \<and> recorded (h @ [(s, ty, k, v)]) t'"
proof -
  obtain xs es where es: "holds t xs es" "set es = op_entry ` set h" using t unfolding recorded_def by blast
  have "internal_cmp (new_InternalKey k s ty) (fst e) \<noteq> 0" if e: "e \<in> set es" for e
  proof -
    obtain s' ty' k' v' where y: "(s', ty', k', v') \<in> set h" "e = (new_InternalKey k' s' ty', v')"
      using e es(2) by (auto simp: op_entry_def)
    then have "s' \<le> kMaxSequenceNumber" "s' < s" using t later by (auto simp: recorded_def list_all_iff op_ok_def)
    then have "PackSequenceAndType s' ty' < PackSequenceAndType s ty" using x by (intro pack_less) (simp_all add: op_ok_def)
    then have "PackSequenceAndType s' ty' \<noteq> PackSequenceAndType s ty" by simp
    then show ?thesis by (simp add: y(2) internal_cmp_eq internal_zero new_key_parts)
  qed
  moreover have "entry_fits (new_InternalKey k s ty, v)" using op_entry_fits [OF x] by (simp add: op_entry_def)
  ultimately obtain t' xs' where t': "MemTable_Add s ty k v t = Some t'" "holds t' xs' (insert_entry (new_InternalKey k s ty, v) es)"
    using Add_holds [OF es(1)] by blast
  have "set (insert_entry e es) = insert e (set es)" for e
    unfolding insert_entry_def Let_def set_append list.set by (metis Un_insert_right append_take_drop_id set_append)
  then have "set (insert_entry (new_InternalKey k s ty, v) es) = op_entry ` set (h @ [(s, ty, k, v)])"
    by (simp add: es(2) op_entry_def)
  then have "recorded (h @ [(s, ty, k, v)]) t'"
    using t x later t'(2) unfolding recorded_def by (auto simp: sorted_wrt_append)
  with t'(1) show ?thesis by blast
qed

section \<open>Looking up\<close>

lemma find_newest:
  assumes "sorted_wrt (<) (map fst h)" and "x \<in> set h" and "P x" and "\<And>y. y \<in> set h \<Longrightarrow> P y \<Longrightarrow> fst y \<le> (fst x :: 'a :: linorder)"
  shows "List.find P (rev h) = Some x"
  using assms
proof (induction h rule: rev_induct)
  case (snoc y h)
  show ?case
  proof (cases "P y")
    case True
    then have "fst y \<le> fst x" using snoc.prems(4) by simp
    then have "y = x" using snoc.prems(1,2) by (auto simp: sorted_wrt_append)
    then show ?thesis using True by simp
  next
    case False
    then have "x \<in> set h" using snoc.prems(2,3) by auto
    then show ?thesis using snoc False by (simp add: sorted_wrt_append)
  qed
qed simp

lemma Seek_entry:
  assumes t: "holds t xs es" and k: "slice_fits k" "valid_internal k"
  defines "i \<equiv> first_at_or_past internal_cmp k es"
  shows "\<exists>it. Skip_Seek (KeyComparator C) (enc_slice k) (new_SkipIterator (mt_table t)) = Some it \<and>
    Skip_Valid it = (i < length es) \<and> (i < length es \<longrightarrow> Skip_key it = Some (buffer_of (es ! i)))"
proof -
  have s: "key_order.ordered_list (KeyComparator C) entry_ok (mt_table t) xs" and ks: "node_keys (mt_table t) xs = map buffer_of es"
    and es: "list_all entry_fits es" using t by (simp_all add: holds_def)
  note l = holds_length [OF t] and facts = key_order.skip_at_facts [OF memtable_order]
  have "entry_ok (enc_slice k)" using k unfolding entry_ok_def by (metis append_Nil2)
  then obtain it where it: "Skip_Seek (KeyComparator C) (enc_slice k) (new_SkipIterator (mt_table t)) = Some it"
    "key_order.skip_at (KeyComparator C) entry_ok (mt_table t) xs it i"
    using key_order.skip_moves(3) [OF memtable_order s, of "new_SkipIterator (mt_table t)" "enc_slice k"]
      buffer_place [OF es k(1), of "[]"] ks unfolding i_def by (auto simp: new_SkipIterator_def)
  then show ?thesis using facts(1) [OF it(2)] facts(2) [OF it(2)] l ks by auto
qed

text \<open>What \<open>MemTable_Get\<close> reads of the buffer it stands at.\<close>

lemma entry_parts:
  assumes "entry_fits (op_entry (s, ty, k, v))"
  defines "b \<equiv> buffer_of (op_entry (s, ty, k, v))"
  shows "\<exists>p. GetVarint32Ptr (take 5 b) = Some (word_of_nat (length k + 8), p) \<and>
    (let key_ptr = drop (length (take 5 b) - length p) b; n = unat (word_of_nat (length k + 8) - 8 :: u32) in
       take n key_ptr = k \<and> DecodeFixed64 (drop n key_ptr) = PackSequenceAndType s ty \<and>
       fst (prefixed_slice (drop (unat (word_of_nat (length k + 8) :: u32)) key_ptr)) = v)"
proof -
  let ?n = "word_of_nat (length k + 8) :: u32" and ?tag = "EncodeFixed64 (PackSequenceAndType s ty)"
  let ?e = "EncodeVarint32 ?n" and ?r = "k @ ?tag @ enc_slice v"
  have f: "length k + 8 < 2 ^ 32" "slice_fits v"
    using assms(1) by (simp_all add: entry_fits_def op_entry_def new_key_parts slice_fits_def)
  have b: "b = ?e @ ?r"
    by (simp add: b_def buffer_of_def op_entry_def enc_slice_eq new_key_parts) (simp add: new_InternalKey_def AppendInternalKey_eq)
  have l: "length (take 5 b) - length (take (5 - length ?e) ?r) = length ?e"
    unfolding b using EncodeVarint32_length [of ?n] by simp
  have n: "unat ?n = length k + 8" using f(1) by (simp only: unat_of_nat) simp
  have "(8 :: u32) \<le> ?n" unfolding word_le_nat_alt n by simp
  then have "unat (?n - 8) = unat ?n - unat (8 :: u32)" by (rule unat_sub)
  then have m: "unat (?n - 8) = length k" using n by simp
  have p: "GetVarint32Ptr (take 5 b) = Some (?n, take (5 - length ?e) ?r)" unfolding b by (rule GetVarint32Ptr_length)
  have q: "drop (length ?e) b = ?r" by (simp add: b)
  show ?thesis
  proof (rule exI [of _ "take (5 - length ?e) ?r"], rule conjI [OF p], unfold Let_def l m n q, intro conjI)
    show "take (length k) ?r = k" by simp
    show "DecodeFixed64 (drop (length k) ?r) = PackSequenceAndType s ty" by (simp add: DecodeFixed64_Encode)
    show "fst (prefixed_slice (drop (length k + 8) ?r)) = v" using prefixed_slice_enc [OF f(2), of "[]"] by simp
  qed
qed

lemma Get_at:
  fixes s :: SequenceNumber
  assumes t: "recorded h t" and u: "valid u" "length u + 8 < 2 ^ 32"
  defines "ik \<equiv> new_InternalKey u s kTypeValue"
  shows "\<exists>xs es. holds t xs es \<and> set es = op_entry ` set h \<and>
    (let i = first_at_or_past internal_cmp ik es in
      (length es \<le> i \<longrightarrow> MemTable_Get t (new_LookupKey u s) v0 st = Some (False, v0, st)) \<and>
      (i < length es \<longrightarrow> (\<exists>x \<in> set h. es ! i = op_entry x \<and>
        MemTable_Get t (new_LookupKey u s) v0 st =
          Some (mem_answer (if cmp_Compare C (fst (snd (snd x))) u = 0 then Some x else None) v0 st))))"
proof -
  obtain xs es where es: "holds t xs es" "set es = op_entry ` set h" using t unfolding recorded_def by blast
  have ik: "slice_fits ik" "valid_internal ik" using u by (simp_all add: ik_def new_key_parts slice_fits_def)
  let ?i = "first_at_or_past internal_cmp ik es"
  have c: "mt_comparator t = C" using es(1) by (simp add: holds_def)
  have mk: "memtable_key (new_LookupKey u s) = enc_slice ik" by (simp add: LookupKey_buffer ik_def)
  obtain it where it: "Skip_Seek (KeyComparator C) (enc_slice ik) (new_SkipIterator (mt_table t)) = Some it"
    "Skip_Valid it = (?i < length es)" "?i < length es \<longrightarrow> Skip_key it = Some (buffer_of (es ! ?i))"
    using Seek_entry [OF es(1) ik] by blast
  have none: "MemTable_Get t (new_LookupKey u s) v0 st = Some (False, v0, st)" if "length es \<le> ?i"
    using that it by (simp add: MemTable_Get_def c mk)
  have some: "\<exists>x \<in> set h. es ! ?i = op_entry x \<and> MemTable_Get t (new_LookupKey u s) v0 st =
      Some (mem_answer (if cmp_Compare C (fst (snd (snd x))) u = 0 then Some x else None) v0 st)"
    if i: "?i < length es"
  proof -
    have "es ! ?i \<in> set es" using i by simp
    then obtain x where x: "x \<in> set h" "es ! ?i = op_entry x" unfolding es(2) by blast
    obtain s' ty k v where p: "x = (s', ty, k, v)" by (cases x) auto
    have ok: "op_ok x" using t x(1) by (auto simp: recorded_def list_all_iff)
    define b where "b = buffer_of (op_entry x)"
    define n where "n = (word_of_nat (length k + 8) :: u32)"
    obtain q where "GetVarint32Ptr (take 5 b) = Some (n, q)"
      and "take (unat (n - 8)) (drop (length (take 5 b) - length q) b) = k"
      and "DecodeFixed64 (drop (unat (n - 8)) (drop (length (take 5 b) - length q) b)) = PackSequenceAndType s' ty"
      and "fst (prefixed_slice (drop (unat n) (drop (length (take 5 b) - length q) b))) = v"
      using entry_parts [OF op_entry_fits [OF ok, unfolded p]] unfolding b_def n_def p Let_def by blast
    moreover define key_ptr where "key_ptr = drop (length (take 5 b) - length q) b"
    ultimately have q: "GetVarint32Ptr (take 5 b) = Some (n, q)" "take (unat (n - 8)) key_ptr = k"
      "DecodeFixed64 (drop (unat (n - 8)) key_ptr) = PackSequenceAndType s' ty" "fst (prefixed_slice (drop (unat n) key_ptr)) = v"
      by blast+
    have "s' \<le> kMaxSequenceNumber" using ok by (simp add: op_ok_def p)
    note tag = pack_fields(2) [OF this, of ty]
    have valid: "Skip_Valid it" "Skip_key it = Some b" using it(2,3) i x(2) by (simp_all add: b_def)
    have "MemTable_Get t (new_LookupKey u s) v0 st =
        (if cmp_Compare C k u = 0 then
           (if ValueType_value ty = ValueType_value kTypeValue then Some (True, v, st)
            else if ValueType_value ty = ValueType_value kTypeDeletion then Some (True, v0, NotFound [] [])
            else Some (False, v0, st))
         else Some (False, v0, st))"
      unfolding MemTable_Get_def c mk it(1) Option.bind.bind_lunit if_P [OF valid(1)] valid(2) q(1) prod.case
        key_ptr_def [symmetric] Let_def q(2,3,4) tag LookupKey_parts(2) ..
    then have "MemTable_Get t (new_LookupKey u s) v0 st =
        Some (mem_answer (if cmp_Compare C k u = 0 then Some x else None) v0 st)"
      by (cases ty) (simp_all add: mem_answer_def p)
    then show ?thesis using x p by auto
  qed
  show ?thesis using es none some unfolding Let_def by blast
qed

lemma Get_newest:
  fixes s :: SequenceNumber
  assumes t: "recorded h t" and u: "valid u" "length u + 8 < 2 ^ 32" and s: "s \<le> kMaxSequenceNumber"
  shows "MemTable_Get t (new_LookupKey u s) v0 st = Some (mem_answer (List.find (visible C u s) (rev h)) v0 st)"
proof -
  define ik where "ik = new_InternalKey u s kTypeValue"
  obtain xs es where es: "holds t xs es" "set es = op_entry ` set h"
    and get: "let i = first_at_or_past internal_cmp ik es in
      (length es \<le> i \<longrightarrow> MemTable_Get t (new_LookupKey u s) v0 st = Some (False, v0, st)) \<and>
      (i < length es \<longrightarrow> (\<exists>x \<in> set h. es ! i = op_entry x \<and>
        MemTable_Get t (new_LookupKey u s) v0 st =
          Some (mem_answer (if cmp_Compare C (fst (snd (snd x))) u = 0 then Some x else None) v0 st)))"
    using Get_at [OF t u, of s v0 st] unfolding ik_def by blast
  have ok: "op_ok x" if "x \<in> set h" for x using t that by (auto simp: recorded_def list_all_iff)
  have sorted: "sorted_wrt (<) (map fst h)" using t by (simp add: recorded_def)
  have order: "internal_cmp (fst (op_entry (sq, ty, k, v))) ik < 0 \<longleftrightarrow>
      cmp_Compare C k u < 0 \<or> cmp_Compare C k u = 0 \<and> \<not> sq \<le> s" if "(sq, ty, k, v) \<in> set h" for sq ty k v
  proof -
    have "sq \<le> kMaxSequenceNumber" using ok [OF that] by (simp add: op_ok_def)
    note tag = pack_le_seek [OF this s, of ty]
    show ?thesis
      unfolding internal_cmp_eq internal_less ik_def op_entry_def prod.case fst_conv new_key_parts below_def equiv_def tag [symmetric]
      by (simp add: not_le)
  qed
  let ?i = "first_at_or_past internal_cmp ik es"
  have before: "internal_cmp (fst (es ! j)) ik < 0" if "j < ?i" for j
  proof -
    have "es ! j \<in> set (takeWhile (\<lambda>e. internal_cmp (fst e) ik < 0) es)"
      using that unfolding first_at_or_past_def by (metis nth_mem takeWhile_nth)
    then show ?thesis by (blast dest: set_takeWhileD)
  qed
  have at: "\<not> internal_cmp (fst (es ! ?i)) ik < 0" if "?i < length es"
    using that nth_length_takeWhile [of "\<lambda>e. internal_cmp (fst e) ik < 0" es] by (simp add: first_at_or_past_def)
  have newest: "?i < length es \<and> (\<forall>x \<in> set h. es ! ?i = op_entry x \<longrightarrow> visible C u s x \<and> fst y \<le> fst x)"
    if y: "y \<in> set h" "visible C u s y" for y
  proof -
    obtain sy ty ky vy where ye: "y = (sy, ty, ky, vy)" by (cases y) auto
    have vis: "sy \<le> s" "cmp_Compare C ky u = 0" using y(2) by (simp_all add: ye visible_def)
    have "op_entry y \<in> set es" using y(1) es(2) by simp
    then obtain j where j: "j < length es" "es ! j = op_entry y" unfolding in_set_conv_nth by blast
    have "\<not> internal_cmp (fst (es ! j)) ik < 0" using order [OF y(1) [unfolded ye]] vis unfolding j(2) ye by simp
    then have ij: "?i \<le> j" using before [of j] by (meson not_le)
    have "visible C u s x \<and> fst y \<le> fst x" if x: "x \<in> set h" "es ! ?i = op_entry x" for x
    proof -
      obtain sx tx kx vx where xe: "x = (sx, tx, kx, vx)" by (cases x) auto
      have v: "valid kx" "valid ky" "sx \<le> kMaxSequenceNumber" "sy \<le> kMaxSequenceNumber"
        using ok [OF x(1)] ok [OF y(1)] by (simp_all add: xe ye op_ok_def)
      have "internal_cmp (fst (es ! ?i)) (fst (es ! j)) \<le> 0"
      proof (cases "?i = j")
        case True
        then show ?thesis
          using compare_refl [OF v(2)] unfolding True j(2)
          by (simp add: internal_cmp_eq internal_le ye op_entry_def new_key_parts equiv_def)
      next
        case False
        then show ?thesis using sorted_wrt_nth_less [OF holds_sorted [OF es(1)], of ?i j] ij j(1) by simp
      qed
      then have c: "cmp_Compare C kx ky < 0 \<or> cmp_Compare C kx ky = 0 \<and> PackSequenceAndType sy ty \<le> PackSequenceAndType sx tx"
        unfolding x(2) j(2) by (simp add: internal_cmp_eq internal_le xe ye op_entry_def new_key_parts below_def equiv_def)
      have "cmp_Compare C kx u \<le> 0" using trans [OF v(1,2) u(1)] c vis(2) by auto
      moreover have "\<not> (cmp_Compare C kx u < 0 \<or> cmp_Compare C kx u = 0 \<and> \<not> sx \<le> s)"
        using at order [OF x(1) [unfolded xe]] ij j(1) by (simp add: x(2) xe)
      ultimately have vx: "cmp_Compare C kx u = 0" "sx \<le> s" by auto
      have "\<not> cmp_Compare C kx ky < 0"
        using trans_less_le [OF v(1,2) u(1)] vis(2) vx(1) by auto
      then have "PackSequenceAndType sy ty \<le> PackSequenceAndType sx tx" using c by blast
      then have "\<not> sx < sy" using pack_less [OF v(3,4), of tx ty] by (auto simp: not_le [symmetric])
      then show ?thesis using vx by (simp add: xe ye visible_def)
    qed
    then show ?thesis using ij j(1) by auto
  qed
  show ?thesis
  proof (cases "\<exists>y \<in> set h. visible C u s y")
    case False
    then have none: "List.find (visible C u s) (rev h) = None" by (simp add: find_None_iff)
    show ?thesis
    proof (cases "?i < length es")
      case True
      with get obtain x where x: "x \<in> set h" "es ! ?i = op_entry x" "MemTable_Get t (new_LookupKey u s) v0 st =
          Some (mem_answer (if cmp_Compare C (fst (snd (snd x))) u = 0 then Some x else None) v0 st)"
        unfolding Let_def by blast
      obtain sx tx kx vx where xe: "x = (sx, tx, kx, vx)" by (cases x) auto
      have "cmp_Compare C kx u \<noteq> 0"
        using at [OF True] order [OF x(1) [unfolded xe]] False x(1) by (auto simp: x(2) xe visible_def)
      then show ?thesis unfolding none x(3) by (simp add: xe)
    qed (use get none in \<open>simp add: Let_def mem_answer_def\<close>)
  next
    case True
    then have i: "?i < length es" using newest by blast
    with get obtain x where x: "x \<in> set h" "es ! ?i = op_entry x" "MemTable_Get t (new_LookupKey u s) v0 st =
        Some (mem_answer (if cmp_Compare C (fst (snd (snd x))) u = 0 then Some x else None) v0 st)"
      unfolding Let_def by blast
    have vis: "visible C u s x" using True newest x(1,2) by blast
    have "List.find (visible C u s) (rev h) = Some x"
      by (rule find_newest [OF sorted x(1), where P = "visible C u s", OF vis]) (use newest x(1,2) in blast)
    then show ?thesis using vis unfolding x(3) by (cases x) (simp add: visible_def)
  qed
qed

section \<open>Writing batches\<close>

lemma recorded_ops:
  assumes "recorded h t" and "list_all op_ok (numbered s ops)" and "sorted_wrt (<) (map fst (h @ numbered s ops))"
  shows "\<exists>t'. insert_ops add_to s ops (Some t) = Some t' \<and> recorded (h @ numbered s ops) t'"
  using assms
proof (induction ops arbitrary: s h t)
  case (Cons x ops)
  obtain ty k v where n: "numbered s (x # ops) = (s, ty, k, v) # numbered (s + 1) ops"
    "insert_ops add_to s (x # ops) (Some t) = insert_ops add_to (s + 1) ops (MemTable_Add s ty k v t)"
    by (cases x) (simp_all add: add_to_def)
  have "\<forall>y \<in> set h. fst y < s" using Cons.prems(3) unfolding n(1) by (simp add: sorted_wrt_append)
  then obtain t1 where "MemTable_Add s ty k v t = Some t1" "recorded (h @ [(s, ty, k, v)]) t1"
    using recorded_add [OF Cons.prems(1), of s ty k v] Cons.prems(2) unfolding n(1) by auto
  then show ?case using Cons.IH [of "h @ [(s, ty, k, v)]" t1 "s + 1"] Cons.prems(2,3) unfolding n by simp
qed simp

lemma write_batch_ops: "\<forall>x \<in> set ops. op_fits x \<Longrightarrow> write_batch (s, ops) t = insert_ops add_to s ops t"
  by (simp add: write_batch_def new_batch_of fold_batch_add SetSequence_batch_of InsertInto_batch_of ok_def OK_def)

lemma recorded_batches:
  assumes "recorded h t" and "\<forall>(s, ops) \<in> set bs. \<forall>x \<in> set ops. op_fits x" and "list_all op_ok (history bs)"
    and "sorted_wrt (<) (map fst (h @ history bs))"
  shows "\<exists>t'. fold write_batch bs (Some t) = Some t' \<and> recorded (h @ history bs) t'"
  using assms
proof (induction bs arbitrary: h t)
  case (Cons b bs)
  obtain s ops where b: "b = (s, ops)" by fastforce
  have h: "history (b # bs) = numbered s ops @ history bs" by (simp add: history_def b)
  have "\<forall>x \<in> set ops. op_fits x" using Cons.prems(2) b by auto
  then obtain t1 where "write_batch b (Some t) = Some t1" "recorded (h @ numbered s ops) t1"
    using recorded_ops [OF Cons.prems(1), of s ops] Cons.prems(3,4) write_batch_ops [of ops s "Some t"]
    unfolding h unfolding b by (auto simp: sorted_wrt_append)
  then show ?case using Cons.IH [of "h @ numbered s ops" t1] Cons.prems(2-4) unfolding h by simp
qed (simp add: history_def)

section \<open>Merging tables\<close>

text \<open>The keys an iterator over a mem-table may be asked for.\<close>

definition seek_ok :: "slice \<Rightarrow> bool" where
  "seek_ok k \<longleftrightarrow> valid_internal k \<and> slice_fits k"

lemma shortened_fits:
  "valid_internal k \<Longrightarrow> slice_fits k \<Longrightarrow> length tmp < length (ExtractUserKey k) \<Longrightarrow> slice_fits (PutFixed64 tmp n)"
  by (simp add: valid_internal_def slice_fits_def ExtractUserKey_def PutFixed64_def)

lemma comparator_seek: "comparator (InternalKeyComparator C) seek_ok"
proof -
  note I = comparator_internal
  have sep: "slice_fits (cmp_FindShortestSeparator (InternalKeyComparator C) a b)" if "seek_ok a" for a b
    using that shortened_fits [of a]
    by (auto simp: seek_ok_def InternalKeyComparator_def InternalKey_FindShortestSeparator_def Let_def)
  have succ: "slice_fits (cmp_FindShortSuccessor (InternalKeyComparator C) a)" if "seek_ok a" for a
    using that shortened_fits [of a]
    by (auto simp: seek_ok_def InternalKeyComparator_def InternalKey_FindShortSuccessor_def Let_def)
  show ?thesis
  proof (unfold_locales, goal_cases)
    case (1 a b)
    then show ?case using comparator.antisym [OF I] by (simp add: seek_ok_def)
  next
    case (2 a b c)
    then show ?case using comparator.trans [OF I, of a b c] by (simp add: seek_ok_def)
  next
    case (3 a b)
    then show ?case using comparator.separator [OF I, of a b] sep [of a b] by (simp add: seek_ok_def)
  next
    case (4 a b)
    then show ?case using comparator.separator_id [OF I, of a b] by (simp add: seek_ok_def)
  next
    case (5 a)
    then show ?case using comparator.successor [OF I, of a] succ [of a] by (simp add: seek_ok_def)
  qed
qed

lemma entry_order: "key_order (\<lambda>a b. internal_cmp (fst a) (fst b)) entry_fits"
proof
  note I = comparator.antisym [OF comparator_internal] comparator.trans [OF comparator_internal]
  show "entry_fits a \<Longrightarrow> entry_fits b \<Longrightarrow> internal_cmp (fst a) (fst b) < 0 \<longleftrightarrow> internal_cmp (fst b) (fst a) > 0" for a b
    by (rule I(1)) (simp_all add: entry_fits_def)
  show "entry_fits a \<Longrightarrow> entry_fits b \<Longrightarrow> entry_fits c \<Longrightarrow> internal_cmp (fst a) (fst b) \<le> 0 \<Longrightarrow>
      internal_cmp (fst b) (fst c) \<le> 0 \<Longrightarrow> internal_cmp (fst a) (fst c) \<le> 0" for a b c
    by (rule I(2)) (simp_all add: entry_fits_def)
qed

text \<open>The tables, their nodes and their entries, and all entries in order.\<close>

definition mergeable :: "MemTable list \<Rightarrow> nat list list \<Rightarrow> (slice \<times> slice) list list \<Rightarrow> (slice \<times> slice) list \<Rightarrow> bool" where
  "mergeable ts xss ess es \<longleftrightarrow> length xss = length ts \<and> length ess = length ts \<and>
     (\<forall>j < length ts. holds (ts ! j) (xss ! j) (ess ! j)) \<and>
     sorted_wrt (\<lambda>a b. internal_cmp (fst a) (fst b) < 0) es \<and> mset es = mset (concat ess)"

lemma mergeable_children:
  assumes m: "mergeable ts xss ess es"
  shows "merged_children (InternalKeyComparator C) seek_ok (memtable_iterator C) ess es
    (\<lambda>j it. si_list it = mt_table (ts ! j))
    (\<lambda>j. key_order.skip_at (KeyComparator C) entry_ok (mt_table (ts ! j)) (xss ! j))"
proof (intro merged_children.intro comparator_seek merged_children_axioms.intro)
  have h: "holds (ts ! j) (xss ! j) (ess ! j)" if "j < length ess" for j using m that by (simp add: mergeable_def)
  show "iterator_on (memtable_iterator C) internal_cmp seek_ok (ess ! j) (\<lambda>it. si_list it = mt_table (ts ! j))
      (key_order.skip_at (KeyComparator C) entry_ok (mt_table (ts ! j)) (xss ! j))" if "j < length ess" for j
    using memtable_iterator_on [OF h [OF that]] by (simp add: seek_ok_def [abs_def])
  show "sorted_wrt (\<lambda>a b. internal_cmp (fst a) (fst b) < 0) (ess ! j)" if "j < length ess" for j
    by (rule holds_sorted [OF h [OF that]])
  show "list_all (\<lambda>e. seek_ok (fst e)) es"
  proof -
    have "seek_ok (fst e)" if e: "e \<in> set es" for e
    proof -
      have "e \<in> set (concat ess)" using e m unfolding mergeable_def by (metis mset_eq_setD)
      then obtain j where "j < length ess" "e \<in> set (ess ! j)" by (auto simp: in_set_conv_nth [of _ ess])
      then show ?thesis using h [of j] by (auto simp: holds_def list_all_iff entry_fits_def seek_ok_def)
    qed
    then show ?thesis by (simp add: list_all_iff)
  qed
  show "sorted_wrt (\<lambda>a b. internal_cmp (fst a) (fst b) < 0) es" "mset es = mset (concat ess)"
    using m by (simp_all add: mergeable_def)
qed

text \<open>Tables with operations that all have their own sequence number can be merged.\<close>

lemma op_entry_tag:
  assumes "op_ok x" and "op_ok y" and "key_tag (fst (op_entry x)) = key_tag (fst (op_entry y))"
  shows "fst x = fst y"
proof -
  obtain s ty k v s' ty' k' v' where e: "x = (s, ty, k, v)" "y = (s', ty', k', v')" by (metis prod_cases4)
  have "PackSequenceAndType s ty = PackSequenceAndType s' ty'" using assms(3) by (simp add: e op_entry_def new_key_parts)
  moreover have "s \<le> kMaxSequenceNumber" "s' \<le> kMaxSequenceNumber" using assms(1,2) by (simp_all add: e op_ok_def)
  ultimately have "s = s'" using pack_fields(1) by metis
  then show ?thesis by (simp add: e)
qed

lemma op_entries_differ:
  assumes "list_all op_ok h" and "distinct (map fst h)"
  shows "sorted_wrt (\<lambda>a b. internal_cmp (fst b) (fst a) \<noteq> 0) (map op_entry h)" "distinct (map op_entry h)"
proof -
  have same: "fst x = fst y" if "x \<in> set h" "y \<in> set h" "key_tag (fst (op_entry x)) = key_tag (fst (op_entry y))" for x y
    using op_entry_tag [OF _ _ that(3)] assms(1) that(1,2) by (simp add: list_all_iff)
  have differ: "internal_cmp (fst (op_entry x)) (fst (op_entry y)) \<noteq> 0"
    if "x \<in> set h" "y \<in> set h" "fst x \<noteq> fst y" for x y
    using same [of x y] that by (auto simp: internal_cmp_eq internal_zero)
  show "sorted_wrt (\<lambda>a b. internal_cmp (fst b) (fst a) \<noteq> 0) (map op_entry h)"
    unfolding sorted_wrt_map unfolding sorted_wrt_iff_nth_less
  proof (intro allI impI)
    fix i j
    assume ij: "i < j" "j < length h"
    then have "map fst h ! j \<noteq> map fst h ! i" using nth_eq_iff_index_eq [OF assms(2), of j i] by simp
    then show "internal_cmp (fst (op_entry (h ! j))) (fst (op_entry (h ! i))) \<noteq> 0" using ij by (intro differ) simp_all
  qed
  have "inj_on fst (set h)" "distinct h" using assms(2) by (simp_all add: distinct_map)
  have "inj_on op_entry (set h)"
  proof (rule inj_onI)
    fix x y
    assume xy: "x \<in> set h" "y \<in> set h" "op_entry x = op_entry y"
    then have "fst x = fst y" by (intro same) simp_all
    then show "x = y" using inj_onD [OF \<open>inj_on fst (set h)\<close>] xy(1,2) by blast
  qed
  then show "distinct (map op_entry h)" using \<open>distinct h\<close> by (simp add: distinct_map)
qed

lemma recorded_holds:
  assumes "recorded h t"
  shows "\<exists>xs es. holds t xs es \<and> mset es = mset (map op_entry h)"
proof -
  obtain xs es where es: "holds t xs es" "set es = op_entry ` set h" using assms unfolding recorded_def by blast
  have h: "list_all op_ok h" "sorted_wrt (<) (map fst h)" using assms by (simp_all add: recorded_def)
  then have "distinct (map op_entry h)" by (intro op_entries_differ(2)) (auto simp: strict_sorted_iff)
  moreover have "distinct es"
  proof -
    have "\<not> internal_cmp (fst e) (fst e) < 0" if "e \<in> set es" for e
      using that es(1) key_order.irrefl [OF entry_order, of e] by (simp add: holds_def list_all_iff)
    then show ?thesis
      using holds_sorted [OF es(1)] unfolding distinct_conv_nth sorted_wrt_iff_nth_less by (metis nth_mem linorder_neqE_nat)
  qed
  ultimately have "mset es = mset (map op_entry h)" using es(2) set_eq_iff_mset_eq_distinct [of es "map op_entry h"] by simp
  with es(1) show ?thesis by blast
qed

lemma merged_tables:
  assumes rec: "list_all2 recorded hs ts" and own: "distinct (map fst (concat hs))"
  shows "\<exists>es ready on. mset es = mset (map op_entry (concat hs)) \<and>
    sorted_wrt (\<lambda>a b. internal_cmp (fst a) (fst b) < 0) es \<and>
    ready (NewMergingIterator (memtable_iterator C) (map MemTable_NewIterator ts)) \<and>
    iterator_on (merged_iterator (memtable_iterator C) (InternalKeyComparator C)) internal_cmp seek_ok es ready on"
proof -
  have l: "length hs = length ts" using rec by (rule list_all2_lengthD)
  have "\<forall>j. \<exists>xe. j < length ts \<longrightarrow> holds (ts ! j) (fst xe) (snd xe) \<and> mset (snd xe) = mset (map op_entry (hs ! j))"
    using recorded_holds list_all2_nthD2 [OF rec] by (metis fst_conv snd_conv)
  then obtain XE where XE: "\<And>j. j < length ts \<Longrightarrow> holds (ts ! j) (fst (XE j)) (snd (XE j)) \<and>
      mset (snd (XE j)) = mset (map op_entry (hs ! j))" by metis
  let ?xss = "map (fst \<circ> XE) [0..<length ts]" and ?ess = "map (snd \<circ> XE) [0..<length ts]"
  have ok: "list_all op_ok (concat hs)"
    using rec by (auto simp: list_all_iff recorded_def list_all2_conv_all_nth in_set_conv_nth [of _ hs])
  note d = op_entries_differ [OF ok own]
  have "list_all entry_fits (map op_entry (concat hs))" using ok op_entry_fits by (simp add: list_all_iff)
  then obtain es where es: "mset es = mset (map op_entry (concat hs))" "sorted_wrt (\<lambda>a b. internal_cmp (fst a) (fst b) < 0) es"
    using key_order.insert_all_keys [OF entry_order _ d(1)] by blast
  have "map mset ?ess = map (mset \<circ> map op_entry) hs"
    by (rule nth_equalityI) (use XE l in simp_all)
  then have "mset (concat ?ess) = mset (map op_entry (concat hs))"
    unfolding mset_concat map_concat by (simp add: comp_def)
  then have m: "mergeable ts ?xss ?ess es" using XE es by (simp add: mergeable_def)
  note M = mergeable_children [OF m]
  have "merged_children.merged_ready ?ess (\<lambda>j it. si_list it = mt_table (ts ! j))
      (NewMergingIterator (memtable_iterator C) (map MemTable_NewIterator ts))"
    by (rule merged_children.NewMergingIterator_ready [OF M]) (simp_all add: MemTable_NewIterator_def new_SkipIterator_def)
  with es merged_children.merged_iterator_on [OF M] show ?thesis by blast
qed

end

interpretation memtable_merge: merged_children "InternalKeyComparator BytewiseComparator" bytewise.seek_ok
  "memtable_iterator BytewiseComparator"
  "if bytewise.mergeable ts xss ess es then ess else []" "if bytewise.mergeable ts xss ess es then es else []"
  "\<lambda>j it. si_list it = mt_table (ts ! j)"
  "\<lambda>j. memtable_keys.skip_at (mt_table (ts ! j)) (xss ! j)" for ts xss ess es
proof (cases "bytewise.mergeable ts xss ess es")
  case True
  then show "merged_children (InternalKeyComparator BytewiseComparator) bytewise.seek_ok (memtable_iterator BytewiseComparator)
      (if bytewise.mergeable ts xss ess es then ess else []) (if bytewise.mergeable ts xss ess es then es else [])
      (\<lambda>j it. si_list it = mt_table (ts ! j)) (\<lambda>j. memtable_keys.skip_at (mt_table (ts ! j)) (xss ! j))"
    using bytewise.mergeable_children by simp
next
  case False
  then show "merged_children (InternalKeyComparator BytewiseComparator) bytewise.seek_ok (memtable_iterator BytewiseComparator)
      (if bytewise.mergeable ts xss ess es then ess else []) (if bytewise.mergeable ts xss ess es then es else [])
      (\<lambda>j it. si_list it = mt_table (ts ! j)) (\<lambda>j. memtable_keys.skip_at (mt_table (ts ! j)) (xss ! j))"
    by (intro merged_children.intro bytewise.comparator_seek merged_children_axioms.intro) simp_all
qed

end
