(* ===== verification/LevelDB.thy ===== *)
theory LevelDB
  imports LdbLog LdbFilename LdbBloom LdbWriteBatch LdbBlockIter LdbVersionEdit LdbTableGet OStream LdbMemGet
begin

text \<open>
  The properties of the LevelDB code: what its components promise, on the model's definitions and
  for any files that behave as POSIX documents, with the witnesses on files in memory.
\<close>

section \<open>Integers, strings, checksums and names\<close>

text \<open>C26. The table-driven CRC routine, which processes four interleaved strides of aligned words, computes
  the CRC-32C of the bit-by-bit definition from any start value, for data at any address; extending
  the CRC of a string by a second string gives the CRC of both.\<close>

theorem crc_is_crc32c:
  "Extend a crc data = crc32c crc data \<and> Extend b (Value a xs) ys = Value c (xs @ ys)"
  by (simp add: Extend_crc32c Value_def crc32c_append)

lemma EncodeVarint64_varint_bytes: "EncodeVarint64 v = varint_bytes v"
proof (induction v rule: EncodeVarint64.induct)
  case (1 v)
  have "ucast (v OR 128) = (ucast (v AND 0x7F) OR 0x80 :: byte)"
    by (rule bit_word_eqI) (auto simp: and_7F bit_simps bit_128 or_80 less_Suc_eq numeral_eq_Suc)
  moreover have "v \<ge> 128 \<longleftrightarrow> \<not> v \<le> 0x7F" by (auto simp: word_le_nat_alt)
  ultimately show ?case
    using 1 by (subst EncodeVarint64.simps, subst varint_bytes.simps) auto
qed

text \<open>C27. LevelDB and nanopb write a number as the same varint; LevelDB reads it back, refuses every truncation,
  and \<open>VarintLength\<close> is its size, at most ten bytes.\<close>

theorem varint_codecs_agree:
  "EncodeVarint64 v = varint_bytes v \<and> GetVarint64 (EncodeVarint64 v @ rest) = Some (v, rest) \<and>
   VarintLength v = length (EncodeVarint64 v) \<and> VarintLength v \<le> 10 \<and>
   (k < VarintLength v \<longrightarrow> GetVarint64 (take k (EncodeVarint64 v)) = None)"
  using varint64.get_enc varint64.truncated EncodeVarint64_length [of v]
  by (simp add: EncodeVarint64_varint_bytes VarintLength_eq)

theorem varint_codecs_agree_witness: "GetVarint64 (take 1 (EncodeVarint64 300)) = None"
proof -
  have "(1 :: nat) < VarintLength 300" by code_simp
  then show ?thesis using varint_codecs_agree [of 300 _ 1] by blast
qed

text \<open>A length-prefixed string is read back and the input stands behind it; a truncated one is refused, and
  the encodings of two strings are never prefixes of one another.\<close>

theorem length_prefixed_roundtrip:
  assumes "length v < 2 ^ 32" and "length w < 2 ^ 32"
  shows "GetLengthPrefixedSlice (PutLengthPrefixedSlice [] v @ rest) = Some (v, rest) \<and>
    (\<forall>k < length (PutLengthPrefixedSlice [] v). GetLengthPrefixedSlice (take k (PutLengthPrefixedSlice [] v)) = None) \<and>
    (PutLengthPrefixedSlice [] v @ r = PutLengthPrefixedSlice [] w @ r' \<longrightarrow> v = w \<and> r = r')"
  using prefixed.get_enc [of v rest] prefixed.truncated [of v] prefixed.self_delimiting [of v w r r'] assms
  by (simp add: slice_fits_def flip: enc_slice_def)

theorem length_prefixed_roundtrip_witness:
  "GetLengthPrefixedSlice (PutLengthPrefixedSlice [] [7, 8] @ [9]) = Some ([7, 8], [9])"
  using length_prefixed_roundtrip [of "[7, 8]" "[]" "[9]" "[]" "[]"] by simp

text \<open>C37. Every name the database gives a file is recognised, behind the directory, as a file of that kind and number.\<close>

theorem file_names_recognised:
  "ParseFileName (base d (LogFileName d n)) = Some (n, kLogFile) \<and>
   ParseFileName (base d (TableFileName d n)) = Some (n, kTableFile) \<and>
   ParseFileName (base d (SSTTableFileName d n)) = Some (n, kTableFile) \<and>
   ParseFileName (base d (TempFileName d n)) = Some (n, kTempFile) \<and>
   ParseFileName (base d (DescriptorFileName d n)) = Some (n, kDescriptorFile) \<and>
   ParseFileName (base d (CurrentFileName d)) = Some (0, kCurrentFile) \<and>
   ParseFileName (base d (LockFileName d)) = Some (0, kDBLockFile) \<and>
   ParseFileName (base d (InfoLogFileName d)) = Some (0, kInfoLogFile) \<and>
   ParseFileName (base d (OldInfoLogFileName d)) = Some (0, kInfoLogFile)"
proof -
  have lits: "lit ''.log'' = [46, 108, 111, 103]" "lit ''.ldb'' = [46, 108, 100, 98]"
    "lit ''.sst'' = [46, 115, 115, 116]" "lit ''.dbtmp'' = [46, 100, 98, 116, 109, 112]"
    by code_simp+
  have num: "base d (MakeFileName d n s) = decimal06 (unat n) @ lit (CHR ''.'' # s)" for s
    by (simp add: base_def MakeFileName_def lit_def)
  have nd: "no_digit (lit (CHR ''.'' # s))" for s by (simp add: no_digit_def lit_def digit_def)
  have fixed: "ParseFileName (lit ''CURRENT'') = Some (0, kCurrentFile)"
    "ParseFileName (lit ''LOCK'') = Some (0, kDBLockFile)" "ParseFileName (lit ''LOG'') = Some (0, kInfoLogFile)"
    "ParseFileName (lit ''LOG.old'') = Some (0, kInfoLogFile)"
    by code_simp+
  have m: "base d (DescriptorFileName d n) = lit ''MANIFEST-'' @ decimal06 (unat n)"
    by (simp add: base_def DescriptorFileName_def lit_def)
  have b: "base d (d @ lit (CHR ''/'' # s)) = lit s" for s by (simp add: base_def lit_def)
  show ?thesis
    unfolding CurrentFileName_def LockFileName_def InfoLogFileName_def OldInfoLogFileName_def b fixed m
      ParseFileName_manifest LogFileName_def TableFileName_def SSTTableFileName_def TempFileName_def num
    unfolding ParseFileName_numbered [OF nd] unfolding lits by simp
qed

section \<open>The log\<close>

text \<open>C18. The log survives a crash. Records added to a new file are all handed to the system, as the byte
  string \<open>log_bytes\<close>. If any prefix of it is found later, the reader returns exactly the
  records that lie within that prefix, in order, then the end, and reports no corruption;
  from all of it, it returns all the records. The sizes of the records are arbitrary.\<close>

theorem log_survives_crash:
  assumes os: "posix_files P opened before after stored patience"
    and f: "opened (pw_fd f) os" "before (pw_fd f) os = []" "buffer_ok f" "pw_pos f = 0"
    and g: "opened (psf_fd g) os2" "after (psf_fd g) os2 = take k (log_bytes 0 (map snd aps))"
  shows "(\<exists>w f' os'. add_records (posix_writable P) aps (new_Writer a (f, os)) = Some (OK, w) \<and>
      log_dest w = (f', os') \<and> before (pw_fd f') os' = log_bytes 0 (map snd aps)) \<and>
    (\<exists>r. read_records (posix_sequential P) (length aps + 1) (new_Reader (g, os2) rep csum store 0) =
      Some (complete 0 k (map snd aps), True, r) \<and> reports r = []) \<and>
    (length (log_bytes 0 (map snd aps)) \<le> k \<longrightarrow> complete 0 k (map snd aps) = map snd aps)"
  by (intro conjI impI posix_files.posix_log_written [OF os f] posix_files.posix_log_read [OF os g] complete_all)
    simp_all

definition new_mem_file :: "PosixWritableFile" where
  "new_mem_file = new_PosixWritableFile (replicate 65536 0) (lit ''d/000003.log'') 3"

definition mem_with :: "byte list \<Rightarrow> mem_os" where
  "mem_with c = \<lparr>m_files = [lit ''d/000003.log'' \<mapsto> c], m_fds = [3 \<mapsto> (lit ''d/000003.log'', 0)],
     m_next = 4, m_errno = 0, m_script = [0, 2]\<rparr>"

lemma mem_with_facts: "mem_live 3 (mem_with c)" "mem_before 3 (mem_with c) = []" "mem_after 3 (mem_with c) = c"
  by (simp_all add: mem_live_def mem_before_def mem_after_def mem_at_def mem_with_def)

lemma new_mem_file_facts: "pw_fd new_mem_file = 3" "pw_pos new_mem_file = 0" "buffer_ok new_mem_file"
  by (simp_all add: new_mem_file_def new_PosixWritableFile_def buffer_ok_def kWritableFileBufferSize_def)

theorem log_survives_crash_witness:
  "(\<exists>w f' os'. add_records (posix_writable mem_posix) [(0, [1, 2])] (new_Writer 0 (new_mem_file, mem_with [])) =
      Some (OK, w) \<and> log_dest w = (f', os') \<and> mem_before (pw_fd f') os' = log_bytes 0 [[1, 2]]) \<and>
   (\<exists>r. read_records (posix_sequential mem_posix) 2
      (new_Reader (\<lparr>psf_fd = 3, psf_filename = []\<rparr>, mem_with (take 5 (log_bytes 0 [[1, 2]]))) True True 0 0) =
    Some ([], True, r) \<and> reports r = [])"
proof -
  have torn: "complete 0 5 (map snd [(0 :: u64, [1, 2])]) = []"
    by (simp, subst log_record.simps)
      (simp add: Let_def split_beta room_def start_offset_def padding_def kBlockSize_def kHeaderSize_def)
  have n: "length [(0 :: u64, [1 :: byte, 2])] + 1 = 2" "map snd [(0 :: u64, [1 :: byte, 2])] = [[1, 2]]" by simp_all
  show ?thesis
    using log_survives_crash [OF mem.posix_files_axioms, of new_mem_file "mem_with []"
        "\<lparr>psf_fd = 3, psf_filename = []\<rparr>" "mem_with (take 5 (log_bytes 0 [[1, 2]]))" 5 "[(0, [1, 2])]" 0 True True 0]
    unfolding torn unfolding n by (simp only: mem_with_facts new_mem_file_facts PosixSequentialFile.simps simp_thms)
qed

text \<open>C21. With checksums on, the reader accepts a fragment only if its bytes in the file are, header and all, the physical
  record the writer emits for that type and payload: nothing else has ever the right checksum, length and type.\<close>

theorem log_accepts_only_written:
  assumes "ReadPhysicalRecord F x r = Some ((RecordType_value t, p), r')" and "t \<noteq> kZeroType" and "checksum r"
  shows "\<exists>r1 rest. (r1 = r \<or> refill F r = Some (False, r1)) \<and> snd (buffer r1) = physical_record t p @ rest"
  by (rule ReadPhysicalRecord_accepts [OF assms])

theorem log_accepts_only_written_witness:
  "\<exists>r r1 rest. (r1 = r \<or> refill (posix_sequential mem_posix) r = Some (False, r1)) \<and> checksum r \<and>
     snd (buffer r1) = physical_record kFullType [7] @ rest"
proof -
  let ?r = "(new_Reader (\<lparr>psf_fd = 3, psf_filename = []\<rparr>, mem_with []) True True 0 0)
      \<lparr>buffer := (0, physical_record kFullType [7])\<rparr>"
  have "parse_physical [] ?r = ((RecordType_value kFullType, [7]), drop_buffer (kHeaderSize + 1) ?r)"
    using parse_record [of ?r kFullType "[7]" "[]" "[]"] by (simp add: new_Reader_def)
  then have "ReadPhysicalRecord (posix_sequential mem_posix) [] ?r =
      Some ((RecordType_value kFullType, [7]), drop_buffer (kHeaderSize + 1) ?r)"
    by (subst ReadPhysicalRecord.simps) simp
  moreover have "checksum ?r" by (simp add: new_Reader_def)
  ultimately show ?thesis
    using log_accepts_only_written [of "posix_sequential mem_posix" "[]" ?r kFullType "[7]"]
    by (intro exI [of _ ?r]) simp
qed

text \<open>C20. Reading ends: from a file with any content, valid or not, the reader reports the end of the file after
  finitely many records, fewer than the file has bytes.\<close>

theorem log_reading_ends:
  assumes os: "posix_files P opened before after stored patience" and "opened (psf_fd g) os"
    and "length (after (psf_fd g) os) < n"
  shows "\<exists>ps r. read_records (posix_sequential P) n (new_Reader (g, os) rep csum store 0) = Some (ps, True, r)"
  by (rule posix_files.posix_log_ends [OF assms])

theorem log_reading_ends_witness:
  "\<exists>ps r. read_records (posix_sequential mem_posix) 4
      (new_Reader (\<lparr>psf_fd = 3, psf_filename = []\<rparr>, mem_with [255, 0, 1]) True True 0 0) = Some (ps, True, r)"
  by (rule log_reading_ends [OF mem.posix_files_axioms]) (simp_all add: mem_with_facts)

section \<open>Keys, filters and batches\<close>

lemma key_tag_new: "key_tag (new_InternalKey u s t) = PackSequenceAndType s t"
  by (simp add: new_InternalKey_def AppendInternalKey_eq key_tag_append)

lemma user_key_new: "ExtractUserKey (new_InternalKey u s t) = u"
  by (simp add: new_InternalKey_def AppendInternalKey_eq ExtractUserKey_append)

lemma pack_arith:
  assumes "s \<le> kMaxSequenceNumber"
  shows "unat (PackSequenceAndType s t) = unat s * 256 + unat (ValueType_value t)"
proof -
  have "unat (PackSequenceAndType s t) div 2 ^ 8 = unat s"
    using pack_fields(1) [OF assms, of t] by (metis drop_bit_eq_div unat_drop_bit_eq)
  moreover have "unat (PackSequenceAndType s t) mod 2 ^ 8 = unat (ValueType_value t)"
  proof -
    have ff: "0xff = (mask 8 :: u64)" by (simp add: mask_eq_exp_minus_1)
    have "ValueType_value t = ucast (PackSequenceAndType s t)"
      using pack_fields(2) [OF assms, of t] unfolding ff take_bit_eq_mask [symmetric]
      by (simp add: bit_eq_iff bit_simps)
    then show ?thesis by (simp add: unsigned_ucast_eq take_bit_eq_mod)
  qed
  ultimately show ?thesis using div_mult_mod_eq [of "unat (PackSequenceAndType s t)" "2 ^ 8"] by simp
qed

text \<open>C25. An internal key is read back as the parts it was made of, and internal keys are ordered by user key, the newest
  entry of a user key first.\<close>

theorem internal_keys_ordered:
  assumes "s \<le> kMaxSequenceNumber" and "s' \<le> kMaxSequenceNumber"
  shows "ParseInternalKey (new_InternalKey u s t) = Some \<lparr>pk_user_key = u, pk_sequence = s, pk_type = t\<rparr> \<and>
    (InternalKey_Compare BytewiseComparator (new_InternalKey u s t) (new_InternalKey u' s' t') < 0 \<longleftrightarrow>
      u < u' \<or> u = u' \<and> (s > s' \<or> s = s' \<and> t = kTypeValue \<and> t' = kTypeDeletion))"
proof (intro conjI)
  show "ParseInternalKey (new_InternalKey u s t) = Some \<lparr>pk_user_key = u, pk_sequence = s, pk_type = t\<rparr>"
    using assms(1) by (simp add: new_InternalKey_def ParseInternalKey_Append)
  have b: "unat (ValueType_value x) \<le> 1" "unat (ValueType_value x) = 1 \<longleftrightarrow> x = kTypeValue" for x by (cases x; simp)+
  have "PackSequenceAndType s' t' < PackSequenceAndType s t \<longleftrightarrow> s > s' \<or> s = s' \<and> t = kTypeValue \<and> t' = kTypeDeletion"
    using b [of t] b [of t'] by (cases t; cases t') (auto simp: word_less_nat_alt word_unat_eq_iff pack_arith assms)
  then show "InternalKey_Compare BytewiseComparator (new_InternalKey u s t) (new_InternalKey u' s' t') < 0 \<longleftrightarrow>
      u < u' \<or> u = u' \<and> (s > s' \<or> s = s' \<and> t = kTypeValue \<and> t' = kTypeDeletion)"
    by (simp add: bytewise.internal_less bytewise.below_def bytewise.equiv_def key_tag_new user_key_new)
      (simp add: BytewiseComparator_def compare_simps)
qed

theorem internal_keys_ordered_witness:
  "InternalKey_Compare BytewiseComparator (new_InternalKey [97] 8 kTypeDeletion) (new_InternalKey [97] 7 kTypeValue) < 0"
  using internal_keys_ordered [of 8 7 "[97]" kTypeDeletion "[97]" kTypeValue]
  by (simp add: kMaxSequenceNumber_def)

text \<open>C24. The keys of an index separate: over any user comparator that keeps its contract, the separator of two
  internal keys lies at or past the first and before the second, the successor of a key lies at or past it, and
  both are internal keys again.\<close>

theorem index_keys_separate:
  assumes C: "comparator C valid" and a: "8 \<le> length a" "valid (ExtractUserKey a)"
    and b: "8 \<le> length b" "valid (ExtractUserKey b)" and "InternalKey_Compare C a b < 0"
  shows "InternalKey_Compare C a (InternalKey_FindShortestSeparator C a b) \<le> 0 \<and>
    InternalKey_Compare C (InternalKey_FindShortestSeparator C a b) b < 0 \<and>
    8 \<le> length (InternalKey_FindShortestSeparator C a b) \<and>
    InternalKey_Compare C a (InternalKey_FindShortSuccessor C a) \<le> 0 \<and>
    8 \<le> length (InternalKey_FindShortSuccessor C a)"
  using comparator.separator [OF comparator.comparator_internal [OF C], of a b]
    comparator.successor [OF comparator.comparator_internal [OF C], of a] assms
  by (simp add: comparator.valid_internal_def [OF C] InternalKeyComparator_def)

theorem index_keys_separate_witness:
  "let a = new_InternalKey [97, 98, 99] 5 kTypeValue; b = new_InternalKey [97, 112] 6 kTypeValue;
       s = InternalKey_FindShortestSeparator BytewiseComparator a b
   in InternalKey_Compare BytewiseComparator a s \<le> 0 \<and> InternalKey_Compare BytewiseComparator s b < 0 \<and>
     length s < length a"
proof -
  let ?a = "new_InternalKey [97, 98, 99] 5 kTypeValue" and ?b = "new_InternalKey [97, 112] 6 kTypeValue"
  have "InternalKey_Compare BytewiseComparator ?a ?b < 0" "8 \<le> length ?a" "8 \<le> length ?b" by code_simp+
  moreover have "length (InternalKey_FindShortestSeparator BytewiseComparator ?a ?b) < length ?a" by code_simp
  ultimately show ?thesis
    using index_keys_separate [OF bytewise.comparator_axioms, of ?a ?b] unfolding Let_def by blast
qed

text \<open>C23. A Bloom filter has no false negatives: every internal key it was made from may match, whatever the bits
  per key, as long as the size of the filter does not wrap around.\<close>

theorem bloom_no_false_negatives:
  assumes "bpk < 2 ^ 31" and "length keys * bpk < 2 ^ 63" and "key \<in> set keys"
  shows "fp_KeyMayMatch (InternalFilterPolicy (BloomPolicy bpk)) key
    (fp_CreateFilter (InternalFilterPolicy (BloomPolicy bpk)) keys [])"
  by (rule internal_bloom.matches) (use assms in \<open>simp_all add: bloom_fits_def\<close>)

theorem bloom_no_false_negatives_witness:
  "fp_KeyMayMatch (InternalFilterPolicy (BloomPolicy 10)) (new_InternalKey [97] 7 kTypeValue)
    (fp_CreateFilter (InternalFilterPolicy (BloomPolicy 10)) [new_InternalKey [97] 7 kTypeValue] [])"
  by (rule bloom_no_false_negatives) simp_all

text \<open>C22. A write batch replays: the mem-table gets the operations the batch was built from, those of an appended batch
  behind them, with consecutive sequence numbers from the one the batch was given.\<close>

theorem batch_replays:
  assumes "\<forall>x \<in> set (xs @ ys). op_fits x"
  shows "InsertInto add (WriteBatch_SetSequence
      (WriteBatch_Append (fold batch_add xs new_WriteBatch) (fold batch_add ys new_WriteBatch)) s) m =
    (OK, insert_ops add s (xs @ ys) m)"
  by (simp add: new_batch_of fold_batch_add Append_batch_of SetSequence_batch_of InsertInto_batch_of [OF assms])

theorem batch_replays_witness:
  "InsertInto (\<lambda>s t k v m. (s, t, k, v) # m)
     (WriteBatch_SetSequence (WriteBatch_Append (fold batch_add [Put_op [97] [1]] new_WriteBatch)
       (fold batch_add [Delete_op [98]] new_WriteBatch)) 100) [] =
   (OK, [(101, kTypeDeletion, [98], []), (100, kTypeValue, [97], [1])])"
  using batch_replays [of "[Put_op [97] [1]]" "[Delete_op [98]]" "\<lambda>s t k v m. (s, t, k, v) # m" 100 "[]"]
  by (simp add: slice_fits_def)

section \<open>Blocks\<close>

text \<open>C19. The iterator of a built block implements the abstract iterator over its entries, whatever the restart interval:
  it stands at the first, the last, the next, the previous entry, or at the first one at or past a
  target, with that entry's key and value and no error, and is invalid past either end.\<close>

theorem block_iterator_refines:
  assumes C: "comparator C valid" and "1 \<le> k" and "sorted_entries C valid kvs" and "length (build_block k kvs) < 2 ^ 32"
  shows "\<exists>it ready on. Block_NewIterator (new_Block (build_block k kvs)) = Inr it \<and> ready it \<and>
    iterator_on (block_iterator C) (cmp_Compare C) valid kvs ready on"
  by (rule comparator.built_block_iterator [OF assms])

definition sample_entries :: "(slice \<times> slice) list" where
  "sample_entries = [([97], [1]), ([97, 98], [2]), ([99], [3])]"

lemma sample_small: "length (build_block 2 sample_entries) < 2 ^ 32"
  by (simp add: sample_entries_def build_block_def new_BlockBuilder_def BlockBuilder_Add_def BlockBuilder_Finish_def
      PutVarint32_def EncodeVarint32_def PutFixed32_def Let_def)

lemma sample_sorted: "sorted_entries BytewiseComparator (\<lambda>k. True) sample_entries"
  by (simp add: sample_entries_def sorted_entries_def BytewiseComparator_def compare_simps)

theorem block_iterator_refines_witness:
  "\<exists>it ready on. Block_NewIterator (new_Block (build_block 2 sample_entries)) = Inr it \<and> ready it \<and>
    iterator_on (block_iterator BytewiseComparator) (cmp_Compare BytewiseComparator) (\<lambda>k. True) sample_entries ready on"
  by (rule block_iterator_refines [OF bytewise.comparator_axioms _ sample_sorted sample_small]) simp

text \<open>C36. Scanning a built block from its first entry gives back exactly the entries it was built from, and then
  the iterator is invalid with status OK.\<close>

theorem block_scan_roundtrip:
  assumes C: "comparator C valid" and "1 \<le> k" and "sorted_entries C valid kvs" and "length (build_block k kvs) < 2 ^ 32"
  shows "\<exists>it it1 it2. Block_NewIterator (new_Block (build_block k kvs)) = Inr it \<and>
    BlockIter_SeekToFirst it = Some it1 \<and> scan_from (block_iterator C) (length kvs + 1) it1 = Some (kvs, it2) \<and>
    \<not> BlockIter_Valid it2 \<and> bi_status it2 = OK"
proof -
  obtain it ready on where it: "Block_NewIterator (new_Block (build_block k kvs)) = Inr it" "ready it"
    "iterator_on (block_iterator C) (cmp_Compare C) valid kvs ready on"
    using comparator.built_block_iterator [OF assms] by (elim exE conjE)
  have ops: "it_SeekToFirst (block_iterator C) = BlockIter_SeekToFirst" "it_Valid (block_iterator C) = BlockIter_Valid"
    "it_status (block_iterator C) = bi_status"
    by (simp_all add: block_iterator_def)
  show ?thesis using iterator_on.scan_all [OF it(3,2)] it(1) unfolding ops by blast
qed

theorem block_scan_roundtrip_witness:
  "\<exists>it it1 it2. Block_NewIterator (new_Block (build_block 2 sample_entries)) = Inr it \<and>
    BlockIter_SeekToFirst it = Some it1 \<and>
    scan_from (block_iterator BytewiseComparator) (length sample_entries + 1) it1 = Some (sample_entries, it2) \<and>
    \<not> BlockIter_Valid it2 \<and> bi_status it2 = OK"
  by (rule block_scan_roundtrip [OF bytewise.comparator_axioms _ sample_sorted sample_small]) simp

section \<open>Behaviour the comments of the code do not promise\<close>

text \<open>A file whose first operation fails.\<close>

definition flaky :: "(bool \<times> byte list) WritableFile" where
  "flaky = \<lparr>wf_Append = (\<lambda>s (broken, c). Some (if broken then (IOError [] [], (False, c)) else (OK, (False, c @ s)))),
     wf_Close = (\<lambda>f. Some (OK, f)), wf_Flush = (\<lambda>f. Some (OK, f)), wf_Sync = (\<lambda>f. Some (OK, f))\<rparr>"

text \<open>\<open>AddRecord\<close> ignores the status of the \<open>Append\<close> that pads a block: when the padding is lost, the
  record is written in front of the block boundary where the reader will not look for it, and the
  call succeeds.\<close>

theorem padding_error_ignored:
  "\<exists>w. AddRecord flaky a [7] (reopened_Writer a (True, c) 32765) = Some (OK, w) \<and>
    log_dest w = (False, c @ physical_record kFullType [7])"
proof -
  let ?w = "reopened_Writer a (True, c) 32765"
  have w: "writer_ok ?w" by (rule reopened_Writer_ok)
  have off: "block_offset ?w = 32765" "log_dest ?w = (True, c)" by (simp_all add: reopened_Writer_def kBlockSize_def)
  have sw: "switch_block flaky ?w = Some (?w\<lparr>log_dest := (False, c), block_offset := 0\<rparr>)"
    by (simp add: switch_block_def off kBlockSize_def kHeaderSize_def flaky_def)
  have "emit_fragment flaky True a [7] ?w = Some (1, OK, ?w\<lparr>log_dest := (False, c @ physical_record kFullType [7]), block_offset := 8\<rparr>)"
    using record_crc [OF w, of a kFullType "[7]"]
    by (simp only: emit_fragment_def sw bind.bind_lunit)
      (simp add: EmitPhysicalRecord_def Let_def flaky_def fragment_type_def
        kBlockSize_def kHeaderSize_def physical_record_def OK_def)
  then show ?thesis
    by (simp add: AddRecord_def AddRecord_loop.simps [of flaky True])
qed

text \<open>The bounds check of a mapped file adds offset and length modulo \<open>2 ^ 64\<close>: with an offset just below
  that it lets a read outside the mapping through.\<close>

theorem mmap_read_wraps:
  "PosixMmapReadableFile_Read P (- 4) 8 s
     \<lparr>mmap_base = 4096, mmap_data = replicate 8 0, mmap_length = 8, pmf_filename = []\<rparr> = None"
  by (simp add: PosixMmapReadableFile_Read_def)

text \<open>A fragment of the unused type 5 with a correct checksum is taken for the end of the file.\<close>

theorem record_type_5_is_eof: "unat (scast (5 :: byte) :: u32) = kEof"
  by (simp add: kEof_def kMaxRecordType_def)

text \<open>The check that key and value lie within the block adds their lengths modulo \<open>2 ^ 32\<close>: lengths that
  add up to \<open>2 ^ 32\<close> pass for an entry at the end of the data, and its iterator would read behind them.\<close>

theorem block_entry_length_wraps:
  "DecodeEntry [0, 0xff, 0xff, 0xff, 0xff, 0xf, 1] = Some (0, 0xffffffff, 1, [])"
  by (simp add: DecodeEntry_def GetVarint32Ptr_def GetVarint32PtrFallback_def Let_def)

section \<open>Version edits\<close>

text \<open>C3. A version edit read back from the manifest is the edit that was written, whatever the levels, file numbers and
  keys in it. Read into an edit that was used before, all is replaced but its compaction pointers, which stay in
  front of those read.\<close>

theorem version_edit_roundtrip:
  assumes "edit_fits e"
  shows "VersionEdit_DecodeFrom (VersionEdit_EncodeTo e []) new_VersionEdit = (OK, e) \<and>
    VersionEdit_DecodeFrom (VersionEdit_EncodeTo e []) e0 =
      (OK, e\<lparr>ve_compact_pointers := ve_compact_pointers e0 @ ve_compact_pointers e\<rparr>)"
proof -
  have "ve_compact_pointers new_VersionEdit = []" by (simp add: new_VersionEdit_def VersionEdit_Clear_def)
  then show ?thesis using Decode_Encode_edit [OF assms] by simp
qed

theorem version_edit_roundtrip_witness:
  "VersionEdit_DecodeFrom (VersionEdit_EncodeTo
      (DeleteFile 1 9 (AddFile 0 7 300 [1] [2] (SetLogNumber 12 new_VersionEdit))) []) new_VersionEdit =
    (OK, DeleteFile 1 9 (AddFile 0 7 300 [1] [2] (SetLogNumber 12 new_VersionEdit)))"
proof -
  have "edit_fits (DeleteFile 1 9 (AddFile 0 7 300 [1] [2] (SetLogNumber 12 new_VersionEdit)))"
    by (simp add: edit_fits_def fields_of_def DeleteFile_def AddFile_def SetLogNumber_def new_VersionEdit_def
        VersionEdit_Clear_def new_FileMetaData_def slice_fits_def kNumLevels_def file_fits_def)
  from version_edit_roundtrip [OF this] show ?thesis by blast
qed

text \<open>C7. Whatever the bytes of a manifest record, the levels of the edit read from it index the arrays
  of \<open>config::kNumLevels\<close> levels they are used on, also when reading fails half way.\<close>

theorem edit_levels_valid:
  "levels_ok (snd (VersionEdit_DecodeFrom s new_VersionEdit))"
  by (rule DecodeFrom_levels) (simp add: levels_ok_def new_VersionEdit_def VersionEdit_Clear_def)

section \<open>Tables\<close>

text \<open>What a table may be built from: internal keys in strictly ascending order, and keys that the Bloom filter can hold.\<close>

definition table_entries :: "nat option \<Rightarrow> (slice \<times> slice) list \<Rightarrow> bool" where
  "table_entries bpk kvs \<longleftrightarrow> list_all (\<lambda>e. 8 \<le> length (fst e)) kvs \<and>
     sorted_wrt (\<lambda>a b. cmp_Compare internal_comparator (fst a) (fst b) < 0) kvs \<and> policy_fits bpk (map fst kvs)"

text \<open>The same user key.\<close>

definition same_user_key :: "slice \<Rightarrow> slice \<Rightarrow> bool" where
  "same_user_key k k' \<longleftrightarrow> ExtractUserKey k = ExtractUserKey k'"

lemma policy_parts: "policy_fits bpk keys \<Longrightarrow> mem_table.parts_fit bpk keys"
  by (auto simp: mem_table.parts_fit_def policy_fits_def bloom_fits_def split: option.splits
      elim!: order_le_less_trans [rotated] intro!: mult_le_mono1)

lemma posix_table_built:
  assumes os: "posix_files P opened before after stored patience"
    and f: "opened (pw_fd f) os" "before (pw_fd f) os = []" "buffer_ok f" "pw_pos f = 0"
    and o: "opt_comparator options = internal_comparator" "opt_filter_policy options = table_policy bpk"
      "1 \<le> opt_block_restart_interval options"
    and kvs: "table_entries bpk kvs"
  shows "\<exists>r bs seps f' os'. build_table (posix_writable P) options kvs (f, os) = Some (OK, r) \<and>
    wf_Flush (posix_writable P) (tb_file r) = Some (OK, (f', os')) \<and> entries_of bs = kvs \<and>
    mem_table.is_table bpk bs seps (before (pw_fd f') os')"
proof -
  note W = posix_files.posix_table_writing [OF os, of bpk]
  have g: "posix_files.file_good opened (f, os)" "posix_files.appended before (f, os) = []"
    using f by (simp_all add: posix_files.file_good_def [OF os] posix_files.appended_def [OF os] buffered_def)
  have k: "mem_table.ordered kvs" "mem_table.parts_fit bpk (map fst kvs)"
    using kvs policy_parts by (simp_all add: table_entries_def mem_table.ordered_def)
  obtain r bs seps where r: "build_table (posix_writable P) options kvs (f, os) = Some (OK, r)" "entries_of bs = kvs"
    "mem_table.is_table bpk bs seps (posix_files.appended before (tb_file r))" "posix_files.file_good opened (tb_file r)"
    using table_writing.table_written [OF W o g k] by (elim exE conjE)
  obtain f' os' where "wf_Flush (posix_writable P) (tb_file r) = Some (OK, (f', os'))"
    "before (pw_fd f') os' = posix_files.appended before (tb_file r)"
    using writable_file.flush [OF table_writing.axioms(1) [OF W] r(4)] by auto
  then show ?thesis using r by (intro exI [of _ r] exI [of _ bs] exI [of _ seps] exI [of _ f'] exI [of _ os']) simp
qed

text \<open>C1. A table reads back as it was built. Entries in ascending order are added to a table builder and the file is flushed, which
  succeeds. Mapped into memory again, the table opens, and answers any sequence of requests, with the
  block cache or without it: a scan returns exactly the entries from the first, or from a target on, in
  order, and a lookup gives the first entry at or past its key, or nothing. It gives nothing only if there is
  no such entry, or if that entry has another user key than the one looked for; a newer entry of the user key, which stands before
  the key of an older snapshot, is not at or past it. The file is below 4 GiB.\<close>

theorem table_reads_back:
  assumes os: "posix_files P opened before after stored patience"
    and f: "opened (pw_fd f) os" "before (pw_fd f) os = []" "buffer_ok f" "pw_pos f = 0"
    and o: "opt_comparator options = internal_comparator" "opt_filter_policy options = table_policy bpk"
      "1 \<le> opt_block_restart_interval options"
    and kvs: "table_entries bpk kvs" and qs: "list_all (request_ok (\<lambda>k. 8 \<le> length k)) qs"
  shows "\<exists>r f' os'. build_table (posix_writable P) options kvs (f, os) = Some (OK, r) \<and>
    wf_Flush (posix_writable P) (tb_file r) = Some (OK, (f', os')) \<and>
    (\<forall>m. mmap_data m = before (pw_fd f') os' \<and> length (mmap_data m) = unat (mmap_length m) \<and> mmap_length m < 2 ^ 32 \<longrightarrow>
      (\<exists>t e rs e'.
        Table_Open lru_cache (posix_mmap P) footer_space buf options (mmap_length m) (m, map_option NewLRUCache capacity) =
          Some ((OK, Some t), e) \<and>
        table_requests lru_cache (posix_mmap P) buf t read_options (length kvs + 1) qs e = Some (rs, e') \<and>
        list_all2 (table_answers (cmp_Compare internal_comparator) same_user_key kvs) qs rs))"
proof -
  obtain r bs seps f' os' where r: "build_table (posix_writable P) options kvs (f, os) = Some (OK, r)"
    "wf_Flush (posix_writable P) (tb_file r) = Some (OK, (f', os'))" "entries_of bs = kvs"
    "mem_table.is_table bpk bs seps (before (pw_fd f') os')"
    using posix_table_built [OF os f o kvs] by (elim exE conjE)
  have "\<exists>t e rs e'.
      Table_Open lru_cache (posix_mmap P) footer_space buf options (mmap_length m) (m, map_option NewLRUCache capacity) =
        Some ((OK, Some t), e) \<and>
      table_requests lru_cache (posix_mmap P) buf t read_options (length kvs + 1) qs e = Some (rs, e') \<and>
      list_all2 (table_answers (cmp_Compare internal_comparator) same_user_key kvs) qs rs"
    if m: "mmap_data m = before (pw_fd f') os'" "length (mmap_data m) = unat (mmap_length m)" "mmap_length m < 2 ^ 32" for m
  proof -
    have l: "length (mmap_data m) < 2 ^ 32" using m(2,3) by (simp add: word_less_nat_alt)
    have w: "word_of_nat (length (mmap_data m)) = mmap_length m" by (simp add: m(2))
    have d: "mem_table.table_data bpk bs seps (mmap_data m)"
      using r(4) l m(1) by (simp add: mem_table.table_data_def)
    have fresh: "mmap_tables.fresh_env (mmap_data m) {#} (m, map_option NewLRUCache capacity)"
      using m(2) by (cases capacity) (simp_all add: mmap_tables.fresh_env_def NewLRUCache_ok)
    obtain t e where t: "Table_Open lru_cache (posix_mmap P) footer_space buf options (mmap_length m) (m, map_option NewLRUCache capacity) =
        Some ((OK, Some t), e)" "mmap_tables.open_table bpk bs seps (mmap_data m) t"
      "mmap_tables.env_ok bs (mmap_data m) (tab_cache_id t) (image_mset ReleaseBlock {#}) e"
      using mmap_tables.Table_Open_table [OF d fresh o(1,2), where footer_space = footer_space and buf = buf] unfolding w by blast
    have few: "mmap_tables.few_blocks (image_mset ReleaseBlock {#})" by (simp add: mmap_tables.few_blocks_def max_handles_def)
    show ?thesis
      using mmap_tables.requests_answered [OF t(2) few _ t(3) qs, where P = P and n = "length kvs + 1" and buf = buf and options = read_options] t(1) r(3)
      unfolding same_user_key_def [abs_def] by auto
  qed
  then show ?thesis using r(1,2) by blast
qed

lemma internal_shortens:
  "8 \<le> length a \<Longrightarrow> length (cmp_FindShortestSeparator internal_comparator a b) \<le> length a"
  "8 \<le> length a \<Longrightarrow> length (cmp_FindShortSuccessor internal_comparator a) \<le> length a"
  by (auto simp: InternalKeyComparator_def InternalKey_FindShortestSeparator_def InternalKey_FindShortSuccessor_def
      ExtractUserKey_def PutFixed64_def Let_def)

lemma posix_table_small:
  assumes os: "posix_files P opened before after stored patience"
    and f: "opened (pw_fd f) os" "before (pw_fd f) os = []" "buffer_ok f" "pw_pos f = 0"
    and o: "opt_comparator options = internal_comparator" "opt_filter_policy options = None"
      "1 \<le> opt_block_restart_interval options"
    and kvs: "table_entries None kvs"
  shows "\<exists>r f' os'. build_table (posix_writable P) options kvs (f, os) = Some (OK, r) \<and>
    wf_Flush (posix_writable P) (tb_file r) = Some (OK, (f', os')) \<and> length (before (pw_fd f') os') \<le> table_bound kvs"
proof -
  have o2: "opt_filter_policy options = table_policy None" using o(2) by (simp add: table_policy_def)
  obtain r bs seps f' os' where r: "build_table (posix_writable P) options kvs (f, os) = Some (OK, r)"
    "wf_Flush (posix_writable P) (tb_file r) = Some (OK, (f', os'))" "entries_of bs = kvs"
    "mem_table.is_table None bs seps (before (pw_fd f') os')"
    using posix_table_built [OF os f o(1) o2 o(3) kvs] by (elim exE conjE)
  have "length (before (pw_fd f') os') \<le> table_bound kvs"
    using mem_table.table_length [OF r(4)] internal_shortens r(3) by (simp add: table_policy_def)
  then show ?thesis using r by blast
qed

text \<open>C10. A table without filters is not much longer than its entries: 71 bytes and a second copy of the key for each entry, and 74
  bytes, whatever the sizes of its blocks.\<close>

theorem table_size:
  assumes os: "posix_files P opened before after stored patience"
    and f: "opened (pw_fd f) os" "before (pw_fd f) os = []" "buffer_ok f" "pw_pos f = 0"
    and o: "opt_comparator options = internal_comparator" "opt_filter_policy options = None"
      "1 \<le> opt_block_restart_interval options"
    and kvs: "table_entries None kvs"
  shows "\<exists>r f' os'. build_table (posix_writable P) options kvs (f, os) = Some (OK, r) \<and>
    wf_Flush (posix_writable P) (tb_file r) = Some (OK, (f', os')) \<and> length (before (pw_fd f') os') \<le> table_bound kvs"
  by (rule posix_table_small [OF assms])

definition sample_table :: "(slice \<times> slice) list" where
  "sample_table = [([97, 1, 5, 0, 0, 0, 0, 0, 0], [1, 2]), ([98, 1, 6, 0, 0, 0, 0, 0, 0], [3])]"

definition sample_table_options :: Options where
  "sample_table_options = new_Options\<lparr>opt_comparator := internal_comparator\<rparr>"

lemma sample_table_facts:
  "opt_comparator sample_table_options = internal_comparator" "opt_filter_policy sample_table_options = None"
  "1 \<le> opt_block_restart_interval sample_table_options" "table_entries None sample_table" "table_bound sample_table = 255"
  by (simp_all add: sample_table_options_def new_Options_def sample_table_def table_entries_def policy_fits_def table_bound_def
      InternalKeyComparator_def InternalKey_Compare_def ExtractUserKey_def BytewiseComparator_def compare_simps Let_def)

lemma sample_file:
  "mem_live (pw_fd new_mem_file) (mem_with [])" "mem_before (pw_fd new_mem_file) (mem_with []) = []"
  by (simp_all add: new_mem_file_facts mem_with_facts)

lemmas table_built_small = posix_table_small [OF mem.posix_files_axioms sample_file new_mem_file_facts(3,2) sample_table_facts(1-4),
  unfolded sample_table_facts(5)]

theorem table_size_witness:
  "\<exists>r f' os'. build_table (posix_writable mem_posix) sample_table_options sample_table (new_mem_file, mem_with []) = Some (OK, r) \<and>
    wf_Flush (posix_writable mem_posix) (tb_file r) = Some (OK, (f', os')) \<and> length (mem_before (pw_fd f') os') \<le> 255"
  using table_size [OF mem.posix_files_axioms sample_file new_mem_file_facts(3,2) sample_table_facts(1-4)]
  unfolding sample_table_facts(5) .

lemma sample_requests: "list_all (request_ok (\<lambda>k. 8 \<le> length k)) [Scan None, Get [97, 1, 5, 0, 0, 0, 0, 0, 0]]"
  by simp

theorem table_reads_back_witness:
  "\<exists>r f' os' m t e e'. build_table (posix_writable mem_posix) sample_table_options sample_table (new_mem_file, mem_with []) = Some (OK, r) \<and>
    wf_Flush (posix_writable mem_posix) (tb_file r) = Some (OK, (f', os')) \<and> mmap_data m = mem_before (pw_fd f') os' \<and>
    Table_Open lru_cache (posix_mmap mem_posix) 1 2 sample_table_options (mmap_length m) (m, Some (NewLRUCache 8192)) =
      Some ((OK, Some t), e) \<and>
    table_requests lru_cache (posix_mmap mem_posix) 2 t new_ReadOptions 3 [Scan None, Get [97, 1, 5, 0, 0, 0, 0, 0, 0]] e =
      Some ([(sample_table, OK), ([hd sample_table], OK)], e')"
proof -
  let ?qs = "[Scan None, Get [97, 1, 5, 0, 0, 0, 0, 0, 0]]"
  have o: "opt_filter_policy sample_table_options = table_policy None" by (simp add: sample_table_facts table_policy_def)
  obtain r f' os' where r: "build_table (posix_writable mem_posix) sample_table_options sample_table (new_mem_file, mem_with []) = Some (OK, r)"
    "wf_Flush (posix_writable mem_posix) (tb_file r) = Some (OK, (f', os'))" and m:
    "\<And>m. mmap_data m = mem_before (pw_fd f') os' \<and> length (mmap_data m) = unat (mmap_length m) \<and> mmap_length m < 2 ^ 32 \<Longrightarrow>
      \<exists>t e rs e'. Table_Open lru_cache (posix_mmap mem_posix) 1 2 sample_table_options (mmap_length m) (m, map_option NewLRUCache (Some 8192)) =
          Some ((OK, Some t), e) \<and>
        table_requests lru_cache (posix_mmap mem_posix) 2 t new_ReadOptions (length sample_table + 1) ?qs e = Some (rs, e') \<and>
        list_all2 (table_answers (cmp_Compare internal_comparator) same_user_key sample_table) ?qs rs"
    using table_reads_back [OF mem.posix_files_axioms sample_file new_mem_file_facts(3,2) sample_table_facts(1) o sample_table_facts(3,4) sample_requests,
        of 1 2 "Some 8192" new_ReadOptions]
    by blast
  obtain r2 f2 os2 where s: "build_table (posix_writable mem_posix) sample_table_options sample_table (new_mem_file, mem_with []) = Some (OK, r2)"
    "wf_Flush (posix_writable mem_posix) (tb_file r2) = Some (OK, (f2, os2))" "length (mem_before (pw_fd f2) os2) \<le> 255"
    using table_built_small by blast
  have l: "length (mem_before (pw_fd f') os') \<le> 255" using r s by simp
  let ?m = "\<lparr>mmap_base = 4096, mmap_data = mem_before (pw_fd f') os', mmap_length = word_of_nat (length (mem_before (pw_fd f') os')), pmf_filename = []\<rparr>"
  have u: "unat (mmap_length ?m) = length (mmap_data ?m)" using l by (simp add: unat_small64)
  then have c: "mmap_data ?m = mem_before (pw_fd f') os' \<and> length (mmap_data ?m) = unat (mmap_length ?m) \<and> mmap_length ?m < 2 ^ 32"
    using l by (simp add: word_less_nat_alt)
  have n: "length sample_table + 1 = 3" by (simp add: sample_table_def)
  obtain t e rs e' where t: "Table_Open lru_cache (posix_mmap mem_posix) 1 2 sample_table_options (mmap_length ?m) (?m, Some (NewLRUCache 8192)) =
        Some ((OK, Some t), e)"
      "table_requests lru_cache (posix_mmap mem_posix) 2 t new_ReadOptions 3 ?qs e = Some (rs, e')"
      "list_all2 (table_answers (cmp_Compare internal_comparator) same_user_key sample_table) ?qs rs"
    using m [OF c] unfolding n option.map by (elim exE conjE)
  have "rs = [(sample_table, OK), ([hd sample_table], OK)]"
    using t(3) by (auto simp: list_all2_Cons1 table_answers_def sample_table_def InternalKeyComparator_def InternalKey_Compare_def
        ExtractUserKey_def BytewiseComparator_def compare_simps same_user_key_def Let_def prod_eq_iff)
  then show ?thesis using r t(1,2)
    by (intro exI [of _ r] exI [of _ f'] exI [of _ os'] exI [of _ ?m] exI [of _ t] exI [of _ e] exI [of _ e']) simp
qed

section \<open>The block cache\<close>

lemma no_handles: "length (snd (c, [])) \<le> (0 :: nat)"
  by simp

text \<open>C2. Any client of the LRU cache gets what it should. As long as it makes no lookup while it holds \<open>2 ^ 32 - 2\<close> handles or more, which
  would overflow the 32 bits of a reference count, whatever the sequence of inserts, lookups, erases, prunes and releases, every
  call returns; an insert returns a handle of the value inserted, a lookup one of the value last
  inserted under the key and not erased since, or none; and every handle the client has not
  released keeps its value, although its entry may have been replaced, erased or evicted since.\<close>

theorem cache_answers:
  assumes few: "few_held 0 qs"
  shows "\<exists>rs c hs. cache_run lru_cache qs (NewLRUCache capacity, []) = Some (rs, (c, hs)) \<and> length rs = length qs \<and>
    list_all (\<lambda>(q, r, s). may_answer q r s) (zip qs (zip rs (spec_run qs Map.empty))) \<and>
    list_all (\<lambda>(h, v). Sharded_Value h c = Some v) hs"
proof -
  have "lru.client_ok Map.empty (NewLRUCache capacity, [])" by (simp add: lru.client_ok_def NewLRUCache_ok)
  from lru.cache_run_ok [OF this few no_handles] obtain rs c hs where r: "cache_run lru_cache qs (NewLRUCache capacity, []) = Some (rs, (c, hs))"
    "length rs = length qs" "\<forall>i < length qs. may_answer (qs ! i) (rs ! i) (spec_run qs Map.empty ! i)"
    "\<forall>(h, v) \<in> set hs. ca_Value lru_cache h c = Some v"
    by (elim exE conjE)
  have "length (spec_run qs m) = length qs" for m by (induction qs arbitrary: m) simp_all
  then have "list_all (\<lambda>(q, r, s). may_answer q r s) (zip qs (zip rs (spec_run qs Map.empty)))"
    using r(2,3) by (simp add: list_all_length)
  moreover have "list_all (\<lambda>(h, v). Sharded_Value h c = Some v) hs" using r(4) by (simp add: lru_cache_def list_all_iff)
  ultimately show ?thesis using r(1,2) by blast
qed

text \<open>The client of the witnesses.\<close>

definition sample_ops :: "nat cache_op list" where
  "sample_ops = [Do_Insert [97] 1 1, Do_Insert [97] 2 1, Do_Lookup [97], Do_Release 0, Do_Release 0, Do_Release 0]"

lemma sample_few: "few_held 0 sample_ops"
  by (simp add: sample_ops_def max_handles_def)

lemma sample_run: "\<exists>rs c. cache_run lru_cache sample_ops (NewLRUCache 64, []) = Some (rs, (c, []))"
proof -
  have "lru.client_ok Map.empty (NewLRUCache 64, [])" by (simp add: lru.client_ok_def NewLRUCache_ok)
  from lru.cache_run_ok [OF this sample_few] obtain rs c hs where
    r: "cache_run lru_cache sample_ops (NewLRUCache 64, []) = Some (rs, (c, hs))" by auto
  then have "hs = []" by (auto simp: sample_ops_def bind_eq_Some_conv split: option.splits if_splits)
  then show ?thesis using r by blast
qed

theorem cache_answers_witness:
  "\<exists>rs c hs. cache_run lru_cache sample_ops (NewLRUCache 64, []) = Some (rs, (c, hs)) \<and> length rs = length sample_ops \<and>
    list_all (\<lambda>(q, r, s). may_answer q r s) (zip sample_ops (zip rs (spec_run sample_ops Map.empty))) \<and>
    list_all (\<lambda>(h, v). Sharded_Value h c = Some v) hs"
  by (rule cache_answers [OF sample_few])

text \<open>C6. Every entry is freed once. When such a client has released all its handles, destroying the cache returns, which
  means that no assertion fails and no freed entry is touched, frees all that is left, and the deleter
  has then been called exactly once for each entry that was ever created.\<close>

theorem cache_frees_once:
  assumes "few_held 0 qs" and "cache_run lru_cache qs (NewLRUCache capacity, []) = Some (rs, (c, []))"
  shows "list_all (\<lambda>s. \<exists>s'. LRUCache_delete s = Some s' \<and> lc_heap s' = Map.empty \<and> length (lc_called s') = lc_next s) (sc_shard c)"
proof -
  have "lru.client_ok Map.empty (NewLRUCache capacity, [])" by (simp add: lru.client_ok_def NewLRUCache_ok)
  then have "sharded_ok {#} c" using lru.cache_run_ok [of Map.empty "(NewLRUCache capacity, [])" 0 qs] assms by auto
  then show ?thesis using LRUCache_delete_ok by (auto simp: list_all_length sharded_ok_def held_def)
qed

theorem cache_frees_once_witness:
  "\<exists>rs c. cache_run lru_cache sample_ops (NewLRUCache 64, []) = Some (rs, (c, [])) \<and>
    list_all (\<lambda>s. \<exists>s'. LRUCache_delete s = Some s' \<and> lc_heap s' = Map.empty \<and> length (lc_called s') = lc_next s) (sc_shard c)"
proof -
  obtain rs c where "cache_run lru_cache sample_ops (NewLRUCache 64, []) = Some (rs, (c, []))"
    using sample_run by blast
  then show ?thesis using cache_frees_once [OF sample_few, of 64 rs c] by blast
qed

text \<open>C9. An insert evicts. When it returns, the usage of its shard is the sum of the charges of the shard's entries, in 64 bits, and it is
  within the shard's capacity, or no entry is left that could be evicted, as clients hold all of
  them. If the charges do not overflow 64 bits, it is their sum itself that is within the capacity.\<close>

theorem cache_insert_evicts:
  assumes "few_held 0 qs" and "cache_run lru_cache qs (NewLRUCache capacity, []) = Some (rs, (c, hs))"
  shows "\<exists>h c'. Sharded_Insert k v charge c = Some (h, c') \<and>
    (let s = sc_shard c' ! Shard (HashSlice k); total = (\<Sum>e \<in> cached s. unat (charge_of s e)) in
       unat (lc_usage s) = total mod 2 ^ 64 \<and> (lc_usage s \<le> lc_capacity s \<or> lc_lru s = []) \<and>
       (total < 2 ^ 64 \<longrightarrow> total \<le> unat (lc_capacity s) \<or> lc_lru s = []))"
proof -
  have "lru.client_ok Map.empty (NewLRUCache capacity, [])" by (simp add: lru.client_ok_def NewLRUCache_ok)
  then have c: "sharded_ok (mset (map fst hs)) c" using lru.cache_run_ok [of Map.empty "(NewLRUCache capacity, [])" 0 qs] assms by auto
  let ?i = "Shard (HashSlice k)"
  have i: "?i < length (sc_shard c)" using c Shard_less by (simp add: sharded_ok_def)
  obtain e s where e: "LRU_Insert k (HashSlice k) v charge (sc_shard c ! ?i) = Some (e, s)"
    "shard_ok (add_mset e (held (mset (map fst hs)) ?i)) s" "lc_usage s \<le> lc_capacity s \<or> lc_lru s = []"
    using LRU_Insert_ok [OF sharded_shard [OF c]] by blast
  have "lc_usage s = sum (charge_of s) (cached s)" using e(2) by (simp add: shard_ok_def shard_rest_def)
  then have "unat (lc_usage s) = (\<Sum>e \<in> cached s. unat (charge_of s e)) mod 2 ^ 64" using unat_sum [of "charge_of s" "cached s"] by simp
  then show ?thesis using e(1,3) i by (auto simp: Sharded_Insert_def Let_def word_le_nat_alt)
qed

theorem cache_insert_evicts_witness:
  "\<exists>rs c hs h c'. cache_run lru_cache sample_ops (NewLRUCache 64, []) = Some (rs, (c, hs)) \<and>
    Sharded_Insert [98] 3 2 c = Some (h, c') \<and>
    (let s = sc_shard c' ! Shard (HashSlice [98]); total = (\<Sum>e \<in> cached s. unat (charge_of s e)) in
       unat (lc_usage s) = total mod 2 ^ 64 \<and> (lc_usage s \<le> lc_capacity s \<or> lc_lru s = []) \<and>
       (total < 2 ^ 64 \<longrightarrow> total \<le> unat (lc_capacity s) \<or> lc_lru s = []))"
proof -
  obtain rs c hs where r: "cache_run lru_cache sample_ops (NewLRUCache 64, []) = Some (rs, (c, hs))"
    using sample_run by blast
  show ?thesis using cache_insert_evicts [OF sample_few r, of "[98]" 3 2] r by blast
qed

section \<open>Reading blocks\<close>

text \<open>C8. With checksums on, a block is read only if the file has it with the trailer the builder writes: of what the file returned, all
  is the block's bytes, its type and their masked CRC. No wrap-around of the length and no other bytes are let through.\<close>

theorem block_read_verified:
  assumes "ReadBlock R buf options h f = Some ((OK, bc), f')" and "ro_verify_checksums options"
  shows "\<exists>a. raf_Read R (bh_offset h) (unat (bh_size h) + kBlockTrailerSize) buf f =
    Some ((OK, Some (a, bc_data bc @ block_trailer kNoCompression (bc_data bc))), f')"
  by (rule ReadBlock_accepts [OF assms])

theorem block_read_verified_witness:
  "\<exists>(bc :: BlockContents) f' a. raf_Read (posix_mmap mem_posix) 0 (3 + kBlockTrailerSize) 1
      \<lparr>mmap_base = 4096, mmap_data = [7, 8, 9] @ block_trailer kNoCompression [7, 8, 9], mmap_length = 8, pmf_filename = []\<rparr> =
    Some ((OK, Some (a, bc_data bc @ block_trailer kNoCompression (bc_data bc))), f') \<and> bc_data bc = [7, 8, 9]"
proof -
  let ?f = "\<lparr>mmap_base = 4096, mmap_data = [7, 8, 9] @ block_trailer kNoCompression [7, 8, 9], mmap_length = 8, pmf_filename = []\<rparr>"
  let ?h = "\<lparr>bh_offset = 0, bh_size = 3\<rparr> :: BlockHandle" and ?ro = "new_ReadOptions\<lparr>ro_verify_checksums := True\<rparr>"
  have g: "length (mmap_data ?f) = unat (mmap_length ?f)" by (simp add: kBlockTrailerSize_def)
  obtain bc f' where r: "ReadBlock (posix_mmap mem_posix) 1 ?ro ?h ?f = Some ((OK, bc), f')" "bc_data bc = [7, 8, 9]"
    using random_access_file.ReadBlock_written [OF mmap.random_access_file_axioms [of mem_posix] g, where h = ?h and data = "[7, 8, 9]" and rest = "[]" and buf = 1 and options = ?ro] by (auto simp: kBlockTrailerSize_def)
  have "unat (3 :: u64) = 3" by simp
  then obtain a where "raf_Read (posix_mmap mem_posix) 0 (3 + kBlockTrailerSize) 1 ?f =
      Some ((OK, Some (a, bc_data bc @ block_trailer kNoCompression (bc_data bc))), f')"
    using block_read_verified [OF r(1)] by auto
  then show ?thesis using r(2) by blast
qed

section \<open>The mem-table\<close>

text \<open>C39. The random numbers of the skip list are those of the generator the comments of \<open>random.h\<close> describe: from any
  seed, the n-th is the seed times 16807 to the n, modulo 2 to the 31 minus 1, and is never zero, so that the sequence never gets stuck.\<close>

theorem random_is_multiplicative:
  "let r = ((\<lambda>r. snd (Random_Next r)) ^^ n) (new_Random s) in
     unat (rnd_seed r) = (unat (rnd_seed (new_Random s)) * 16807 ^ n) mod 2147483647 \<and> 0 < unat (rnd_seed r) \<and>
     fst (Random_Next r) = rnd_seed (snd (Random_Next r))"
proof -
  let ?r = "\<lambda>n. ((\<lambda>r. snd (Random_Next r)) ^^ n) (new_Random s)"
  have "random_ok (?r n) \<and> unat (rnd_seed (?r n)) = (unat (rnd_seed (new_Random s)) * 16807 ^ n) mod 2147483647"
  proof (induction n)
    case 0
    then show ?case using random_ok_new [of s] by (simp add: random_ok_def)
  next
    case (Suc n)
    let ?x = "unat (rnd_seed (new_Random s))"
    have "unat (rnd_seed (?r (Suc n))) = (unat (rnd_seed (?r n)) * 16807) mod 2147483647" "random_ok (?r (Suc n))"
      using Random_Next_eq [of "?r n"] Suc by simp_all
    moreover have "(?x * 16807 ^ n) mod 2147483647 * 16807 mod 2147483647 = ?x * 16807 ^ n * 16807 mod 2147483647"
      by (rule mod_mult_left_eq)
    ultimately show ?case using Suc by (simp only: power_Suc mult.assoc mult.commute [of 16807])
  qed
  then show ?thesis using Random_Next_eq(2) [of "?r n"] unfolding Let_def random_ok_def by simp
qed

text \<open>C38. A skip list is a sorted set. Whatever heights are drawn, keys inserted in any order, all different, end up in the order of the
  comparison: no assertion fails, a scan of the lowest level reads them in that order, and \<open>Contains\<close>
  finds exactly the keys equal to one of them.\<close>

theorem skip_list_sorted:
  assumes "key_order cmp valid" and "list_all valid ks" and "sorted_wrt (\<lambda>a b. cmp b a \<noteq> 0) ks"
  shows "\<exists>sl it ks'. insert_all cmp ks new_SkipList = Some sl \<and>
    Skip_SeekToFirst (new_SkipIterator sl) = Some it \<and> skip_scan (length ks + 1) it = Some ks' \<and>
    mset ks' = mset ks \<and> sorted_wrt (\<lambda>a b. cmp a b < 0) ks' \<and>
    (\<forall>k. valid k \<longrightarrow> SkipList_Contains cmp k sl = Some (\<exists>x \<in> set ks. cmp k x = 0))"
  by (rule key_order.insert_all_keys [OF assms])

text \<open>Two buffers of the mem-table.\<close>

definition sample_buffers :: "byte list list" where
  "sample_buffers = [buffer_of (new_InternalKey [98] 1 kTypeValue, [7]), buffer_of (new_InternalKey [97] 2 kTypeDeletion, [])]"

lemma sample_buffers_facts: "list_all bytewise.entry_ok sample_buffers"
  "sorted_wrt (\<lambda>a b. KeyComparator BytewiseComparator b a \<noteq> 0) sample_buffers"
proof -
  show "list_all bytewise.entry_ok sample_buffers"
    unfolding sample_buffers_def list.pred_inject
    by (intro conjI bytewise.buffer_ok TrueI)
      (simp_all add: bytewise.entry_fits_def bytewise.new_key_parts slice_fits_def)
  show "sorted_wrt (\<lambda>a b. KeyComparator BytewiseComparator b a \<noteq> 0) sample_buffers" by code_simp
qed

theorem skip_list_sorted_witness:
  "\<exists>sl it ks'. insert_all (KeyComparator BytewiseComparator) sample_buffers new_SkipList = Some sl \<and>
    Skip_SeekToFirst (new_SkipIterator sl) = Some it \<and> skip_scan (length sample_buffers + 1) it = Some ks' \<and>
    mset ks' = mset sample_buffers \<and> sorted_wrt (\<lambda>a b. KeyComparator BytewiseComparator a b < 0) ks' \<and>
    (\<forall>k. bytewise.entry_ok k \<longrightarrow> SkipList_Contains (KeyComparator BytewiseComparator) k sl =
      Some (\<exists>x \<in> set sample_buffers. KeyComparator BytewiseComparator k x = 0))"
  by (rule skip_list_sorted [OF memtable_keys.key_order_axioms sample_buffers_facts])

text \<open>C4. What is written is read. Batches with ascending sequence numbers are inserted into a new mem-table over any user comparator that
  keeps its contract, without a failed assertion. Then a lookup of any user key at any snapshot returns what the
  newest operation on that key says that is not newer than the snapshot: the value it put, or that the key was
  deleted; and without one it finds nothing and leaves value and status alone.\<close>

theorem memtable_gets_newest:
  assumes C: "comparator C valid" and fits: "\<forall>(s, ops) \<in> set bs. \<forall>x \<in> set ops. op_fits x"
    and ops: "list_all (\<lambda>(s, ty, k, v). s \<le> kMaxSequenceNumber \<and> valid k \<and> length k + 8 < 2 ^ 32 \<and> slice_fits v) (history bs)"
    and order: "sorted_wrt (<) (map fst (history bs))"
  shows "\<exists>t. fold write_batch bs (Some (new_MemTable C)) = Some t \<and>
    (\<forall>u s v st. valid u \<and> length u + 8 < 2 ^ 32 \<and> s \<le> kMaxSequenceNumber \<longrightarrow>
      MemTable_Get t (new_LookupKey u s) v st = Some (mem_answer (List.find (visible C u s) (rev (history bs))) v st))"
proof -
  have "list_all (comparator.op_ok valid) (history bs)" using ops by (simp add: comparator.op_ok_def [OF C, abs_def])
  then obtain t where "fold write_batch bs (Some (new_MemTable C)) = Some t" "comparator.recorded C valid (history bs) t"
    using comparator.recorded_batches [OF C comparator.recorded_new [OF C] fits] order by auto
  then show ?thesis using comparator.Get_newest [OF C] by blast
qed

definition sample_writes :: "(SequenceNumber \<times> batch_op list) list" where
  "sample_writes = [(1, [Put_op [97] [10], Put_op [98] [11]]), (3, [Delete_op [97], Put_op [97] [12]])]"

lemma sample_history:
  "history sample_writes =
    [(1, kTypeValue, [97], [10]), (2, kTypeValue, [98], [11]), (3, kTypeDeletion, [97], []), (4, kTypeValue, [97], [12])]"
  by code_simp

lemma sample_writes_facts: "\<forall>(s, ops) \<in> set sample_writes. \<forall>x \<in> set ops. op_fits x"
  "list_all (\<lambda>(s, ty, k, v). s \<le> kMaxSequenceNumber \<and> True \<and> length k + 8 < 2 ^ 32 \<and> slice_fits v) (history sample_writes)"
  "sorted_wrt (<) (map fst (history sample_writes))"
  unfolding sample_history by (simp_all add: sample_writes_def slice_fits_def kMaxSequenceNumber_def)

text \<open>At snapshot 2 the first value of the key is seen, at snapshot 3 its deletion, at 4 the second value.\<close>

theorem memtable_gets_newest_witness:
  "\<exists>t. fold write_batch sample_writes (Some (new_MemTable BytewiseComparator)) = Some t \<and>
    MemTable_Get t (new_LookupKey [97] 2) [] OK = Some (True, [10], OK) \<and>
    MemTable_Get t (new_LookupKey [97] 3) [] OK = Some (True, [], NotFound [] []) \<and>
    MemTable_Get t (new_LookupKey [97] 4) [] OK = Some (True, [12], OK) \<and>
    MemTable_Get t (new_LookupKey [98] 1) [] OK = Some (False, [], OK)"
proof -
  obtain t where t: "fold write_batch sample_writes (Some (new_MemTable BytewiseComparator)) = Some t"
    "\<And>u s v st. length u + 8 < 2 ^ 32 \<and> s \<le> kMaxSequenceNumber \<Longrightarrow> MemTable_Get t (new_LookupKey u s) v st =
      Some (mem_answer (List.find (visible BytewiseComparator u s) (rev (history sample_writes))) v st)"
    using memtable_gets_newest [OF bytewise.comparator_axioms sample_writes_facts] by blast
  have a: "mem_answer (List.find (visible BytewiseComparator [97] 2) (rev (history sample_writes))) [] OK = (True, [10], OK)"
    "mem_answer (List.find (visible BytewiseComparator [97] 3) (rev (history sample_writes))) [] OK = (True, [], NotFound [] [])"
    "mem_answer (List.find (visible BytewiseComparator [97] 4) (rev (history sample_writes))) [] OK = (True, [12], OK)"
    "mem_answer (List.find (visible BytewiseComparator [98] 1) (rev (history sample_writes))) [] OK = (False, [], OK)"
    unfolding sample_history by code_simp+
  have "(2 :: u64) \<le> kMaxSequenceNumber" "(3 :: u64) \<le> kMaxSequenceNumber" "(4 :: u64) \<le> kMaxSequenceNumber"
    "(1 :: u64) \<le> kMaxSequenceNumber" by code_simp+
  then show ?thesis using t(1) t(2) a by (intro exI [of _ t]) simp
qed

text \<open>C5. Merging mem-tables. Mem-tables are written with batches, all operations with their own sequence numbers. The
  merging iterator over their iterators is an iterator over the operations of all tables, ordered by user key and
  newest first: it stands at the first, last, next, previous entry and at the first one at or past a target, also
  when the direction changes, with no error.\<close>

theorem merged_memtables:
  assumes C: "comparator C valid" and fits: "\<forall>bs \<in> set bss. \<forall>(s, ops) \<in> set bs. \<forall>x \<in> set ops. op_fits x"
    and ops: "\<forall>bs \<in> set bss.
      list_all (\<lambda>(s, ty, k, v). s \<le> kMaxSequenceNumber \<and> valid k \<and> length k + 8 < 2 ^ 32 \<and> slice_fits v) (history bs)"
    and order: "\<forall>bs \<in> set bss. sorted_wrt (<) (map fst (history bs))"
    and own: "distinct (map fst (concat (map history bss)))"
  shows "\<exists>ts es ready on. map (\<lambda>bs. fold write_batch bs (Some (new_MemTable C))) bss = map Some ts \<and>
    mset es = mset (map op_entry (concat (map history bss))) \<and>
    sorted_wrt (\<lambda>a b. InternalKey_Compare C (fst a) (fst b) < 0) es \<and>
    ready (NewMergingIterator (memtable_iterator C) (map MemTable_NewIterator ts)) \<and>
    iterator_on (merged_iterator (memtable_iterator C) (InternalKeyComparator C)) (InternalKey_Compare C)
      (\<lambda>k. 8 \<le> length k \<and> length k < 2 ^ 32 \<and> valid (ExtractUserKey k)) es ready on"
proof -
  have "\<exists>t. fold write_batch bs (Some (new_MemTable C)) = Some t \<and> comparator.recorded C valid (history bs) t"
    if bs: "bs \<in> set bss" for bs
  proof -
    have "list_all (comparator.op_ok valid) (history bs)" using ops bs by (simp add: comparator.op_ok_def [OF C, abs_def])
    moreover have "\<forall>(s, ops) \<in> set bs. \<forall>x \<in> set ops. op_fits x" "sorted_wrt (<) (map fst (history bs))"
      using fits order bs by blast+
    ultimately show ?thesis using comparator.recorded_batches [OF C comparator.recorded_new [OF C], of bs] by simp
  qed
  then obtain T where T: "\<And>bs. bs \<in> set bss \<Longrightarrow> fold write_batch bs (Some (new_MemTable C)) = Some (T bs) \<and>
      comparator.recorded C valid (history bs) (T bs)" by metis
  have "list_all2 (comparator.recorded C valid) (map history bss) (map T bss)"
    using T by (simp add: list_all2_map1 list_all2_map2 list_all2_same)
  from comparator.merged_tables [OF C this own] obtain es ready "on" where
    m: "mset es = mset (map op_entry (concat (map history bss)))"
    "sorted_wrt (\<lambda>a b. cmp_Compare (InternalKeyComparator C) (fst a) (fst b) < 0) es"
    "ready (NewMergingIterator (memtable_iterator C) (map MemTable_NewIterator (map T bss)))"
    "iterator_on (merged_iterator (memtable_iterator C) (InternalKeyComparator C)) (cmp_Compare (InternalKeyComparator C))
      (comparator.seek_ok valid) es ready on" by blast
  have seek: "comparator.seek_ok valid = (\<lambda>k. 8 \<le> length k \<and> length k < 2 ^ 32 \<and> valid (ExtractUserKey k))"
    by (auto simp: comparator.seek_ok_def [OF C] comparator.valid_internal_def [OF C] slice_fits_def)
  show ?thesis
    using m T unfolding seek comparator.internal_cmp_eq [OF C]
    by (intro exI [of _ "map T bss"] exI [of _ es] exI [of _ ready] exI [of _ "on"]) simp
qed

theorem merged_memtables_witness:
  "\<exists>ts es ready on. map (\<lambda>bs. fold write_batch bs (Some (new_MemTable BytewiseComparator))) [sample_writes, [(9, [Delete_op [98]])]] = map Some ts \<and>
    mset es = mset (map op_entry (history sample_writes @ [(9, kTypeDeletion, [98], [])])) \<and>
    sorted_wrt (\<lambda>a b. InternalKey_Compare BytewiseComparator (fst a) (fst b) < 0) es \<and>
    ready (NewMergingIterator (memtable_iterator BytewiseComparator) (map MemTable_NewIterator ts)) \<and>
    iterator_on (merged_iterator (memtable_iterator BytewiseComparator) (InternalKeyComparator BytewiseComparator))
      (InternalKey_Compare BytewiseComparator) (\<lambda>k. 8 \<le> length k \<and> length k < 2 ^ 32 \<and> True) es ready on"
proof -
  let ?bss = "[sample_writes, [(9, [Delete_op [98]])]]"
  have h: "history [(9, [Delete_op [98]])] = [(9, kTypeDeletion, [98], [])]" by code_simp
  have c: "concat (map history ?bss) = history sample_writes @ [(9, kTypeDeletion, [98], [])]" by (simp add: h)
  have "\<forall>bs \<in> set ?bss. \<forall>(s, ops) \<in> set bs. \<forall>x \<in> set ops. op_fits x" using sample_writes_facts(1) by (simp add: slice_fits_def)
  moreover have "\<forall>bs \<in> set ?bss. list_all (\<lambda>(s, ty, k, v). s \<le> kMaxSequenceNumber \<and> True \<and> length k + 8 < 2 ^ 32 \<and> slice_fits v) (history bs)"
    using sample_writes_facts(2) by (simp add: h slice_fits_def kMaxSequenceNumber_def)
  moreover have "\<forall>bs \<in> set ?bss. sorted_wrt (<) (map fst (history bs))" using sample_writes_facts(3) by (simp add: h)
  moreover have "distinct (map fst (concat (map history ?bss)))" unfolding c unfolding sample_history by simp
  ultimately show ?thesis using merged_memtables [OF bytewise.comparator_axioms, of ?bss] unfolding c by blast
qed

end
