(* ===== verification/Spec2Isabelle.thy ===== *)
theory Spec2Isabelle
  imports MessageDefaults PbDecodeTotal PbRequired PbEncodeDet PbEncodeTotal WireCodec Base64
    LevelDB
begin

text \<open>
  This development verifies the C and C++ code the app \<open>meshiiru\<close> runs under \<open>src/meshiiru/Pods\<close>:
  \<^item> nanopb (\<open>nanopb/pb.h\<close>, \<open>pb_common.c\<close>, \<open>pb_decode.c\<close>, \<open>pb_encode.c\<close>), the protocol
    buffer codec Firebase uses for telemetry;
  \<^item> the generated messages (\<open>cct.nanopb.[ch]\<close> of GoogleDataTransport and
    \<open>firebasecore.nanopb.[ch]\<close> of FirebaseCoreDiagnostics) it is run on;
  \<^item> the base-64 codec of the WebSocket handshake (\<open>SocketRocket/fbase64.c\<close>);
  \<^item> LevelDB (\<open>leveldb-library\<close>), the key-value store under the Realtime Database's cache.

  \<^bold>\<open>How the program is modelled.\<close> A C function that returns \<open>bool\<close> and works on a stream or on
  memory is a command (\<open>cmd\<close>, theory \<open>Prelude\<close>): a function of the state with result
  \<open>Ret value state\<close> for \<open>true\<close>, \<open>Fail state\<close> for \<open>false\<close>, and \<open>Stuck\<close> for a run that never
  returns or leaves C's defined behaviour (a call through a NULL or missing function pointer).
  Loops are \<open>loopC\<close>, a \<open>While_Combinator\<close> loop whose value is \<open>Stuck\<close> if it does not end, or
  recursive functions with a proved measure. Memory (\<open>CMemory\<close>) is a map from 64-bit addresses,
  taken as integers, to bytes, with a \<open>realloc\<close>/\<open>free\<close> heap of bounded size and a stack for locals
  whose address is taken. Machine integers are \<open>w word\<close>, of the widths the build fixes:
  \<open>PB_FIELD_32BIT\<close>, \<open>PB_ENABLE_MALLOC\<close>, \<open>PB_NO_PACKED_STRUCTS\<close>, a little-endian target with
  64-bit pointers and \<open>size_t\<close>. A descriptor array (\<open>const pb_field_t[]\<close>) is a list of
  \<open>pb_field\<close>s that ends with \<open>PB_LAST_FIELD\<close>.

  \<^bold>\<open>The theories.\<close>
  \<^item> \<open>Prelude\<close>: commands, loops, and the three logics over them: \<open>keeps\<close> (every run preserves a
    relation), \<open>gives\<close> (what a run that succeeds returns) and \<open>answers\<close> (every run returns).
  \<^item> \<open>CMemory\<close>: loads, stores, the heap and its invariant \<open>heap_ok\<close>.
  \<^item> \<open>PbTypes\<close>: type codes, descriptors, struct layouts, \<open>PB_FIELD\<close> and the macros behind it.
    \<open>PbCommon\<close>: the field iterator, and what walking and searching with it amounts to.
  \<^item> \<open>IStream\<close>, \<open>OStream\<close>: streams and the scalar codecs. Their locales \<open>istream_op\<close> (an operation
    that only consumes, and progresses when it succeeds) and \<open>wire_writer\<close> (an operation that writes a fixed byte
    string) are interpreted by each operation of the code. \<open>WireCodec\<close>: the round trips, through the locale \<open>wire_codec\<close>.
  \<^item> \<open>PbFields\<close>: defaults and release. \<open>PbDecode\<close>: the decoder. \<open>PbEncode\<close>: the encoder. The recursion of
    the C functions through the descriptor is recursion on the nesting depth \<open>n\<close>, with the recursive call as
    an argument of each function below it.
  \<^item> \<open>PbDescriptors\<close>: \<open>desc_ok n\<close>, the descriptors without extension fields, with a \<open>which_\<close> member for every oneof,
    nested at most \<open>n\<close> deep. \<open>PbDecodeKeeps\<close>:
    the decoder preserves heap and stream invariants. \<open>PbDecodeTotal\<close>, \<open>PbEncodeTotal\<close>: both return.
    \<open>PbRequired\<close>: the runs of the field loop, the bookkeeping of required fields on them. \<open>PbEncodeDet\<close>: the encoder writes the bytes its
    sizing pass counted. \<open>PbLayout\<close>: descriptors that fit their struct, and what the defaults write there.
  \<^item> \<open>CStructs\<close>, \<open>CctMessages\<close>, \<open>FirebaseCoreMessages\<close>, \<open>MessageDefaults\<close>: the generated messages.
  \<^item> \<open>Base64\<close>: \<open>f_b64_ntop\<close> and \<open>f_b64_pton\<close>, with the 32-bit index and \<open>int\<close> results of the code.
  \<^bold>\<open>LevelDB\<close> (\<open>leveldb-library\<close>, the store of the app's database cache). A string, file content or \<open>Slice\<close> is a
  list of bytes; an operation that runs into undefined behaviour or does not return is None. A
  virtual class is a record of operations, and what the header asks of its implementations a locale,
  interpreted by each class of the code.
  \<^item> \<open>LdbSlice\<close>, \<open>LdbCoding\<close>, \<open>LdbCrcTables\<close>, \<open>LdbCrc32c\<close>, \<open>LdbStatus\<close>, \<open>LdbLogging\<close>, \<open>LdbFilename\<close>: the utilities
    (\<open>slice.h\<close>, \<open>coding.cc\<close>, \<open>crc32c.cc\<close>, \<open>status.cc\<close>, \<open>logging.cc\<close>, \<open>filename.cc\<close>).
  \<^item> \<open>LdbEnv\<close>, \<open>LdbEnvPosix\<close>: files (\<open>env.h\<close>) and their POSIX implementation (\<open>env_posix.cc\<close>), over system
    calls as a parameter with the laws \<open>posix_files\<close>, and a system in memory that has them.
  \<^item> \<open>LdbLogWriter\<close>, \<open>LdbLogReader\<close>, \<open>LdbLog\<close>: the write-ahead log and what its reader finds after a crash.
  \<^item> \<open>LdbComparator\<close>, \<open>LdbFormat\<close>: comparators and internal keys. \<open>LdbBloom\<close>: hashing and filters.
    \<open>LdbWriteBatch\<close>: write batches.
  \<^item> \<open>LdbIterator\<close>, \<open>LdbBlockBuilder\<close>, \<open>LdbBlock\<close>, \<open>LdbBlockIter\<close>: the iterator interface, and blocks with their
    restart points; a built block has a layout, and the block's iterator on that layout keeps the interface's contract.
  \<^item> \<open>LdbVersionEdit\<close>: the edits of the manifest (\<open>version_edit.cc\<close>).
  \<^item> \<open>LdbTableFormat\<close>, \<open>LdbFilterBlock\<close>, \<open>LdbTableBuilder\<close>: options, block handles and footers (\<open>format.cc\<close>), filter
    blocks (\<open>filter_block.cc\<close>) and the table builder (\<open>table_builder.cc\<close>). \<open>LdbTableLayout\<close> states what a table
    file consists of (\<open>is_table\<close>) and proves, by an invariant of the builder, that it writes such a file.
  \<^item> \<open>LdbCache\<close>, \<open>LdbLru\<close>: the interface of caches and the sharded LRU cache (\<open>cache.cc\<close>), handles as addresses in a
    heap, hash table, reference counts, eviction and destruction; its invariant gives the contract \<open>cache\<close>, and from it what
    clients see. A handle that was freed is None, and so is a failed assertion. Reference counts have 32 bits, charges and usage 64, and wrap;
    what clients see is promised while no lookup is made with 2 to the 32 minus 2 handles held (\<open>few_held\<close>).
  \<^item> \<open>LdbIterWrapper\<close>, \<open>LdbTwoLevel\<close>: the two-level iterator (\<open>two_level_iterator.cc\<close>); over an index and blocks with the contract
    \<open>indexed_blocks\<close> it is an iterator over all entries, and gives back what its blocks hold of the cache.
  \<^item> \<open>LdbTable\<close>, \<open>LdbTableRead\<close>, \<open>LdbTableGet\<close>: tables (\<open>table.cc\<close>): opening, iterating, looking up, with filters and the block cache; of a
    file that \<open>is_table\<close> all return what was built.
  \<^item> \<open>LdbRandom\<close>, \<open>LdbSkipList\<close>, \<open>LdbMemTable\<close>, \<open>LdbMemGet\<close>: random numbers (\<open>random.h\<close>), skip lists (\<open>skiplist.h\<close>), which hold keys in the
    order of a comparison (\<open>key_order\<close>), the mem-table on them (\<open>memtable.cc\<close>), and what is read from it after batches were inserted.
  \<^item> \<open>LdbMerger\<close>: the merging iterator (\<open>merger.cc\<close>), over children that are iterators an iterator over all their entries (\<open>merged_children\<close>).
  \<^item> \<open>LevelDB\<close>: the properties of these parts.

  \<^bold>\<open>Bounds and fuel.\<close> The only fuel is the nesting depth \<open>n\<close> of message types. It is enough when the
  submessages of the descriptor nest at most \<open>n\<close> deep (\<open>desc_ok n\<close>), which every generated message
  does for \<open>n = 4\<close>. All other loops have a measure or are proved to
  return (\<open>PbDecodeTotal\<close>, \<open>PbEncodeTotal\<close>; a list of extensions is walked as the code walks it, and forever if it is cyclic).

  \<^bold>\<open>Parameters.\<close> User callbacks of fields and streams and handlers of extensions are arguments (\<open>denv\<close>,
  \<open>eenv\<close>, \<open>User_read\<close>, \<open>User_write\<close>); what the theorems ask of them (\<open>env_answers\<close>, \<open>enc_env_det\<close>) is
  what the comments of \<open>pb.h\<close> ask, and holds for the environment without callbacks the witnesses use.

  \<^bold>\<open>Not modelled.\<close> \<open>PB_WITHOUT_64BIT\<close>, \<open>PB_BUFFER_ONLY\<close> and \<open>PB_OLD_CALLBACK_STYLE\<close>, which the build does
  not set; the \<open>ONEOF\<close> descriptor macros, which no message uses (the decoder's and encoder's oneof
  branches are modelled). The Swift and Objective-C code around the C code works on
  network, user interface and Foundation objects and has no C logic.
  Of LevelDB, the versions and the database (\<open>version_set.cc\<close>, \<open>db_iter.cc\<close>, \<open>db_impl.cc\<close>) are not
  modelled, nor are threads, locks, directories and the allocation of memory.
\<close>

section \<open>Environments for the witnesses\<close>

text \<open>A program without callbacks and extensions, and a memory with an empty heap.\<close>

definition plain_denv :: denv where
  "plain_denv = \<lparr>decode_cb = \<lambda>fn f a. failC, type_decode = \<lambda>p. None, type_arg = \<lambda>p. []\<rparr>"

definition plain_eenv :: eenv where
  "plain_eenv = \<lparr>encode_cb = \<lambda>fn f a. failC, type_encode = \<lambda>p. None, etype_arg = \<lambda>p. []\<rparr>"

definition plain_memory :: cmem where
  "plain_memory = \<lparr>mbytes = \<lambda>a. 0, mblocks = [], mbrk = 65536, mlimit = 1048576, msp = - 64\<rparr>"

definition plain_state :: "byte list \<Rightarrow> dstate" where
  "plain_state bs = \<lparr>strm = pb_istream_from_buffer bs (length bs), dmem = plain_memory\<rparr>"

lemma plain_denv_answers: "env_answers plain_denv"
  by (auto simp: env_answers_def env_keeps_def plain_denv_def answers_def intro: keeps_intros)

lemma plain_eenv_det: "enc_env_det plain_eenv"
  by (simp add: enc_env_det_def plain_eenv_def det_basic)

lemma plain_state_ok: "istream_ok (strm (plain_state bs))" "heap_ok (dmem (plain_state bs))"
  by (simp_all add: plain_state_def istream_ok_def pb_istream_from_buffer_def is_buf_def
      plain_memory_def heap_ok_def)

text \<open>A \<open>NetworkConnectionInfo\<close> at address 4096 with both fields set, and its encoding.\<close>

definition sample_memory :: cmem where
  "sample_memory = store_bytes 4096 [1, 0, 0, 0, 5, 0, 0, 0, 1, 0, 0, 0, 13, 0, 0, 0] plain_memory"

lemma sample_encodes:
  obtains t where "pb_encode plain_eenv sample_memory 1 gdt_cct_NetworkConnectionInfo_fields 4096
      PB_OSTREAM_SIZING = Ret () t" and "bytes_written t = 4"
proof -
  let ?r = "pb_encode plain_eenv sample_memory 1 gdt_cct_NetworkConnectionInfo_fields 4096 PB_OSTREAM_SIZING"
  have "case ?r of Ret u t \<Rightarrow> bytes_written t = 4 | _ \<Rightarrow> False"
    unfolding fields_eqs by code_simp
  then show thesis using that by (cases ?r) auto
qed

section \<open>Decoding messages\<close>

text \<open>C11. The field loop, the loops over packed arrays and the loops around callbacks of \<open>pb_decode\<close>
  come to an end on every stream contents and every memory. The descriptor is one of the kind
  \<open>desc_ok n\<close>: it has no extension fields (their lists are chains of pointers in memory, and a
  cyclic one is walked forever), its field types have decoders, its submessages have descriptors
  and are nested at most \<open>n\<close> deep, and the members of a oneof have a \<open>which_\<close> member. Callbacks
  return, and when they succeed on a stream that is not at its end they have read from it.\<close>

theorem pb_decode_returns:
  assumes "env_answers E" and "desc_ok n desc"
  shows "pb_decode E n desc dest s \<noteq> Stuck"
  by (rule answers_not_Stuck [OF answers_pb_decode [OF assms]])

theorem pb_decode_returns_witness:
  "pb_decode plain_denv 4 gdt_cct_BatchedLogRequest_fields 4096 (plain_state [10, 255, 255, 3]) \<noteq> Stuck"
proof (rule pb_decode_returns [OF plain_denv_answers])
  show "desc_ok 4 gdt_cct_BatchedLogRequest_fields"
    using messages_laid_out [of gdt_cct_BatchedLogRequest _ gdt_cct_BatchedLogRequest_init_default]
    by (simp add: all_messages_def)
qed

text \<open>C12. Setting the defaults of any message type of the repository writes inside its struct only
  and leaves there exactly what the generated \<open>_init_default\<close> initializer of that type says,
  nested structs included.\<close>

theorem message_defaults_are_init_default:
  assumes "(st, fs, is) \<in> set all_messages"
  shows "\<exists>m'. pb_message_set_to_defaults ext_arg 4 fs dest m = Ret () m' \<and>
    initialised (Init_struct st is) m' dest (sizeof st) \<and> within (span dest (sizeof st)) m m'"
  using set_to_defaults_established [of 4 fs "sizeof st" ext_arg dest m]
    messages_laid_out [OF assms] messages_default [OF assms] by blast

theorem message_defaults_are_init_default_witness:
  "\<exists>m'. pb_message_set_to_defaults (\<lambda>p. []) 4 gdt_cct_LogEvent_fields 4096 plain_memory = Ret () m' \<and>
    initialised (Init_struct gdt_cct_LogEvent gdt_cct_LogEvent_init_default) m' 4096 (sizeof gdt_cct_LogEvent) \<and>
    within (span 4096 (sizeof gdt_cct_LogEvent)) plain_memory m'"
  by (rule message_defaults_are_init_default) (simp add: all_messages_def)

text \<open>C13. The same for every descriptor that fits its struct: the run-time defaults write inside the
  struct only, clear every \<open>has_\<close> flag, count and pointer, and give every other field its default
  constant or zero.\<close>

theorem set_to_defaults_spec:
  assumes "desc_ok n fs" and "laid_out n fs sz"
  shows "\<exists>m'. pb_message_set_to_defaults ext_arg n fs dest m = Ret () m' \<and>
    is_default n fs dest m' \<and> within (span dest sz) m m'"
  by (rule set_to_defaults_established [OF assms])

theorem set_to_defaults_spec_witness:
  "\<exists>m'. pb_message_set_to_defaults (\<lambda>p. []) 4 ICoreConfiguration_fields 4096 plain_memory = Ret () m' \<and>
    is_default 4 ICoreConfiguration_fields 4096 m' \<and> within (span 4096 152) plain_memory m'"
  by (rule set_to_defaults_spec [OF diagnostics_laid_out])

section \<open>Field iterators\<close>

text \<open>C31. The descriptor arrays describe the structs they were generated for: at the \<open>i\<close>-th field the
  iterator's data pointer is at the member the field names and its size pointer at that member's
  \<open>has_\<close> or \<open>_count\<close> member, for every telemetry and diagnostics message and any struct address.\<close>

theorem iterator_visits_members:
  assumes "(st, fs, ms) \<in> set (telemetry_messages @ diagnostics_messages)" and "i < length ms"
  shows "pData (iter_at fs dest i) = dest + int (offsetof st (ms ! i))
    \<and> pSize (iter_at fs dest i) = dest + int (offsetof st (size_member st (ms ! i)))"
proof -
  have v: "visits st fs ms"
    using assms(1) telemetry_messages_visits diagnostics_messages_visits by auto
  then have "i < num_fields fs" using assms(2) by (simp add: visits_def)
  from visits_at [OF v this] show ?thesis by simp
qed

theorem iterator_visits_members_witness:
  "pData (iter_at gdt_cct_LogRequest_fields 4096 2) = 4096 + int (offsetof gdt_cct_LogRequest ''log_event'')
    \<and> pSize (iter_at gdt_cct_LogRequest_fields 4096 2) =
        4096 + int (offsetof gdt_cct_LogRequest (size_member gdt_cct_LogRequest ''log_event''))"
  using iterator_visits_members [of gdt_cct_LogRequest gdt_cct_LogRequest_fields
    "[''client_info'', ''log_source'', ''log_event'', ''request_time_ms'', ''request_uptime_ms'', ''qos_tier'']" 2 4096]
  by (simp add: telemetry_messages_def)

text \<open>C32. \<open>pb_field_iter_find\<close> from any position stops at the first field with the tag in circular
  order, extension fields left out, and without one comes back to where it started.\<close>

theorem iter_find_circular:
  assumes "i < num_fields fs"
  shows "pb_field_iter_find (iter_at fs dest i) t =
    (case find (\<lambda>j. tag_match t (field_at fs j)) ([i..<num_fields fs] @ [0..<i]) of
       Some j \<Rightarrow> (True, iter_at fs dest j) | None \<Rightarrow> (False, iter_at fs dest i))"
  by (rule iter_find_spec [OF assms])

theorem iter_find_circular_witness:
  "pb_field_iter_find (iter_at gdt_cct_LogResponse_fields 4096 1) 1 =
    (True, iter_at gdt_cct_LogResponse_fields 4096 0)"
proof -
  have n: "num_fields gdt_cct_LogResponse_fields = 2" unfolding fields_eqs by code_simp
  have f: "find (\<lambda>j. tag_match 1 (field_at gdt_cct_LogResponse_fields j)) ([1..<2] @ [0..<1]) = Some 0"
    unfolding fields_eqs by code_simp
  show ?thesis
    using iter_find_circular [of 1 gdt_cct_LogResponse_fields 4096 1] unfolding n f by simp
qed

text \<open>C33. The do-while loop over \<open>pb_field_iter_next\<close> runs its body once per field, in array order.\<close>

theorem iter_loop_visits_each_field:
  assumes "0 < num_fields fs"
  shows "iter_loop body (snd (pb_field_iter_begin fs dest)) s =
    each_field body (map (iter_at fs dest) [0..<num_fields fs]) s"
  by (rule iter_loop_all [OF assms])

theorem iter_loop_visits_each_field_witness:
  "iter_loop (\<lambda>it. modifyC (\<lambda>ts. ts @ [ftag (cur it)])) (snd (pb_field_iter_begin gdt_cct_LogResponse_fields 0)) [] =
    Ret () [1, 3]"
proof -
  have n: "num_fields gdt_cct_LogResponse_fields = 2" unfolding fields_eqs by code_simp
  have t: "ftag (field_at gdt_cct_LogResponse_fields 0) = 1" "ftag (field_at gdt_cct_LogResponse_fields 1) = 3"
    unfolding fields_eqs by code_simp+
  have c: "cur (iter_at gdt_cct_LogResponse_fields 0 0) = field_at gdt_cct_LogResponse_fields 0"
    "cur (iter_at gdt_cct_LogResponse_fields 0 1) = field_at gdt_cct_LogResponse_fields 1"
    by (rule cur_iter_at, simp add: n)+
  have u: "[0..<2] = [0, 1 :: nat]" by (simp add: upt_rec)
  have "0 < num_fields gdt_cct_LogResponse_fields" by (simp add: n)
  from iter_loop_visits_each_field [OF this, of "\<lambda>it. modifyC (\<lambda>ts. ts @ [ftag (cur it)])"] show ?thesis
    unfolding n u list.map each_field.simps by (simp add: bindC_def c t del: iter_at.simps One_nat_def)
qed

section \<open>The wire format\<close>

text \<open>C28. A 64-bit integer written by \<open>pb_encode_varint\<close> into a buffer takes one to ten bytes, and
  \<open>pb_decode_varint\<close> on a buffer that starts with them returns the integer and stops right behind.\<close>

theorem varint_roundtrip:
  "\<exists>bs. pb_encode_varint v (pb_ostream_from_buffer 10) =
      Ret () ((pb_ostream_from_buffer 10)\<lparr>ostate := bs, bytes_written := word_of_nat (length bs)\<rparr>)
    \<and> 0 < length bs \<and> length bs \<le> 10
    \<and> (\<forall>rest k. pb_decode_varint (pb_istream_from_buffer (bs @ rest) (length bs + k)) =
         Ret v (pb_istream_from_buffer rest k))"
  using vw.writing [of "pb_ostream_from_buffer 10" v] varint.from_buffer [of v] varint_bytes_length [of v]
  by (intro exI [of _ "varint_bytes v"]) (simp add: pb_ostream_from_buffer_def)

text \<open>The same for signed integers through the zigzag encoding.\<close>

theorem svarint_roundtrip:
  "\<exists>bs. pb_encode_svarint v (pb_ostream_from_buffer 10) =
      Ret () ((pb_ostream_from_buffer 10)\<lparr>ostate := bs, bytes_written := word_of_nat (length bs)\<rparr>)
    \<and> (\<forall>rest k. pb_decode_svarint (pb_istream_from_buffer (bs @ rest) (length bs + k)) =
         Ret v (pb_istream_from_buffer rest k))"
  using svw.writing [of "pb_ostream_from_buffer 10" v] svarint.from_buffer [of v] varint_bytes_length
  by (intro exI [of _ "svarint_bytes v"]) (simp add: pb_ostream_from_buffer_def svarint_bytes_def)

text \<open>The same for fixed-width values, of four and eight bytes.\<close>

theorem fixed_roundtrip:
  "(\<exists>bs. pb_encode_fixed32 v (pb_ostream_from_buffer 4) =
        Ret () ((pb_ostream_from_buffer 4)\<lparr>ostate := bs, bytes_written := 4\<rparr>)
      \<and> (\<forall>rest k. pb_decode_fixed32 (pb_istream_from_buffer (bs @ rest) (4 + k)) =
           Ret v (pb_istream_from_buffer rest k)))
    \<and> (\<exists>bs. pb_encode_fixed64 w (pb_ostream_from_buffer 8) =
        Ret () ((pb_ostream_from_buffer 8)\<lparr>ostate := bs, bytes_written := 8\<rparr>)
      \<and> (\<forall>rest k. pb_decode_fixed64 (pb_istream_from_buffer (bs @ rest) (8 + k)) =
           Ret w (pb_istream_from_buffer rest k)))"
  using f32w.writing [of "pb_ostream_from_buffer 4" v] fixed32.from_buffer [of v]
    f64w.writing [of "pb_ostream_from_buffer 8" w] fixed64.from_buffer [of w]
  by (intro conjI exI [of _ "fixed32_bytes v"] exI [of _ "fixed64_bytes w"])
    (simp_all add: pb_ostream_from_buffer_def)

text \<open>C29. A field header written by \<open>pb_encode_tag\<close> is read back by \<open>pb_decode_tag\<close> as its wire type
  and number, without end of stream, for every wire type and every field number protobuf allows.\<close>

theorem tag_roundtrip:
  assumes "unat wt < 8" and "t \<noteq> 0" and "unat t < 2 ^ 29"
  shows "\<exists>bs. pb_encode_tag wt t (pb_ostream_from_buffer 10) =
      Ret () ((pb_ostream_from_buffer 10)\<lparr>ostate := bs, bytes_written := word_of_nat (length bs)\<rparr>)
    \<and> (\<forall>rest k. pb_decode_tag (pb_istream_from_buffer (bs @ rest) (length bs + k)) =
         (False, Ret (wt, t) (pb_istream_from_buffer rest k)))"
proof (intro exI [of _ "tag_bytes wt t"] conjI allI)
  show "pb_encode_tag wt t (pb_ostream_from_buffer 10) =
      Ret () ((pb_ostream_from_buffer 10)\<lparr>ostate := tag_bytes wt t, bytes_written := word_of_nat (length (tag_bytes wt t))\<rparr>)"
    using tw.writing [of "pb_ostream_from_buffer 10" wt t] varint_bytes_length
    by (simp add: pb_ostream_from_buffer_def tag_bytes_def)
  show "pb_decode_tag (pb_istream_from_buffer (tag_bytes wt t @ rest) (length (tag_bytes wt t) + k)) =
      (False, Ret (wt, t) (pb_istream_from_buffer rest k))" for rest k
    using pb_decode_tag_known [of "pb_istream_from_buffer (tag_bytes wt t @ rest) (length (tag_bytes wt t) + k)" wt t rest] assms
    by (simp add: pb_istream_from_buffer_def is_buf_def advance_def)
qed

theorem tag_roundtrip_witness:
  "\<exists>bs. pb_encode_tag 2 23 (pb_ostream_from_buffer 10) =
      Ret () ((pb_ostream_from_buffer 10)\<lparr>ostate := bs, bytes_written := word_of_nat (length bs)\<rparr>)
    \<and> (\<forall>rest k. pb_decode_tag (pb_istream_from_buffer (bs @ rest) (length bs + k)) =
         (False, Ret (2, 23) (pb_istream_from_buffer rest k)))"
  by (rule tag_roundtrip) simp_all

text \<open>The 32-bit varint decoder reads back every 32-bit value written as a varint.\<close>

theorem varint32_roundtrip:
  "\<exists>bs. pb_encode_varint (ucast (v :: u32)) (pb_ostream_from_buffer 10) =
      Ret () ((pb_ostream_from_buffer 10)\<lparr>ostate := bs, bytes_written := word_of_nat (length bs)\<rparr>)
    \<and> (\<forall>rest k. pb_decode_varint32 (pb_istream_from_buffer (bs @ rest) (length bs + k)) =
         Ret v (pb_istream_from_buffer rest k))"
  using vw.writing [of "pb_ostream_from_buffer 10" "ucast v"] varint32.from_buffer [of v] varint_bytes_length [of "ucast v"]
  by (intro exI [of _ "varint_bytes (ucast v)"]) (simp add: pb_ostream_from_buffer_def)

text \<open>C30. \<open>pb_skip_field\<close> passes over the data of exactly one field of any wire type and leaves the
  rest of the buffer to be read.\<close>

theorem skip_field_exact:
  assumes "wire_data_ok d"
  shows "pb_skip_field (wire_type_of d)
      (pb_istream_from_buffer (wire_data_bytes d @ rest) (length (wire_data_bytes d) + k)) =
    Ret () (pb_istream_from_buffer rest k)"
  using pb_skip_field_known [of "pb_istream_from_buffer (wire_data_bytes d @ rest) (length (wire_data_bytes d) + k)" d rest] assms
  by (simp add: pb_istream_from_buffer_def is_buf_def advance_def)

theorem skip_field_exact_witness:
  "pb_skip_field PB_WT_STRING (pb_istream_from_buffer (wire_data_bytes (W_string [7, 8]) @ [9])
      (length (wire_data_bytes (W_string [7, 8])) + 1)) = Ret () (pb_istream_from_buffer [9] 1)"
  using skip_field_exact [of "W_string [7, 8]" "[9]" 1] by simp

text \<open>C17. A length-delimited field is a frame: from bytes written by \<open>pb_encode_string\<close>,
  \<open>pb_make_string_substream\<close> makes a substream limited to exactly the data, and after any reading
  from it \<open>pb_close_string_substream\<close> leaves the parent right behind the data.\<close>

theorem substream_frames_string:
  assumes "length bs < 2 ^ 32"
  shows "\<exists>fr sub s1. pb_encode_string bs (word_of_nat (length bs)) (pb_ostream_from_buffer (word_of_nat (length bs) + 10)) =
      Ret () ((pb_ostream_from_buffer (word_of_nat (length bs) + 10))
        \<lparr>ostate := fr, bytes_written := word_of_nat (length fr)\<rparr>)
    \<and> pb_make_string_substream (pb_istream_from_buffer (fr @ rest) (length fr + k)) = Ret sub s1
    \<and> bytes_left sub = length bs \<and> istate sub = bs @ rest
    \<and> (\<forall>sub'. consumed sub sub' \<longrightarrow> pb_close_string_substream sub' s1 =
         Ret () ((pb_istream_from_buffer rest k)\<lparr>ierrmsg := ierrmsg sub'\<rparr>))"
proof -
  let ?n = "word_of_nat (length bs) :: u32"
  let ?hdr = "varint_bytes (ucast ?n)"
  let ?fr = "?hdr @ bs"
  let ?s = "pb_istream_from_buffer (?fr @ rest) (length ?fr + k)"
  let ?sub = "(advance ?s (bs @ rest) (length ?hdr))\<lparr>bytes_left := length bs\<rparr>"
  have n: "(word_of_nat (length bs) :: u64) = ucast ?n" "unat ?n = length bs"
    using word_of_length [OF assms] by auto
  have un: "unat (word_of_nat (length bs) :: u64) = length bs" using assms by (simp add: unat_of_nat)
  have room: "unat (word_of_nat (length bs) + 10 :: u64) = length bs + 10"
    using assms by (simp add: unat_word_ariths unat_of_nat)
  have enc: "pb_encode_string bs (word_of_nat (length bs)) (pb_ostream_from_buffer (word_of_nat (length bs) + 10)) =
      Ret () ((pb_ostream_from_buffer (word_of_nat (length bs) + 10))
        \<lparr>ostate := ?fr, bytes_written := word_of_nat (length ?fr)\<rparr>)"
    using wire_writer.writing [OF wire_writer_string [of "word_of_nat (length bs)" bs],
        of "pb_ostream_from_buffer (word_of_nat (length bs) + 10)"]
      varint_bytes_length [of "ucast ?n"] un room n(1)
    by (simp add: pb_ostream_from_buffer_def)
  have buf: "is_buf ?s" by (simp add: pb_istream_from_buffer_def is_buf_def)
  have mk: "pb_make_string_substream ?s = Ret ?sub (advance ?s (bs @ rest) (length ?fr))"
    using make_substream_known [OF buf, of ?n "bs @ rest"] n(2)
    by (simp add: pb_istream_from_buffer_def)
  have close: "pb_close_string_substream sub' (advance ?s (bs @ rest) (length ?fr)) =
      Ret () ((pb_istream_from_buffer rest k)\<lparr>ierrmsg := ierrmsg sub'\<rparr>)" if "consumed ?sub sub'" for sub'
    using close_substream_known [of ?sub sub' "advance ?s (bs @ rest) (length ?fr)"] that
    by (simp add: pb_istream_from_buffer_def is_buf_def advance_def)
  show ?thesis
    by (intro exI [of _ ?fr] exI [of _ ?sub] exI [of _ "advance ?s (bs @ rest) (length ?fr)"] conjI allI impI
        enc mk close) (simp_all add: advance_def pb_istream_from_buffer_def)
qed

theorem substream_frames_string_witness:
  "\<exists>fr sub s1. pb_encode_string [1, 2, 3] 3 (pb_ostream_from_buffer 13) =
      Ret () ((pb_ostream_from_buffer 13)\<lparr>ostate := fr, bytes_written := word_of_nat (length fr)\<rparr>)
    \<and> pb_make_string_substream (pb_istream_from_buffer (fr @ [9]) (length fr + 1)) = Ret sub s1
    \<and> pb_close_string_substream sub s1 = Ret () ((pb_istream_from_buffer [9] 1)\<lparr>ierrmsg := ierrmsg sub\<rparr>)"
  using substream_frames_string [of "[1, 2, 3]" "[9]" 1] consumed_refl by fastforce

section \<open>Encoding messages\<close>

text \<open>C14. The two-pass scheme is exact: when \<open>pb_encode\<close> succeeds on a sizing stream there is one byte
  string, whose length it counted, that it writes into every buffer with room for it, and into a
  buffer without room it fails (lengths below 2 to the 64).\<close>

theorem pb_encode_two_pass:
  assumes "enc_env_det E" and "pb_encode E m n desc src PB_OSTREAM_SIZING = Ret () t"
  shows "\<exists>bs. bytes_written t = word_of_nat (length bs)
    \<and> (\<forall>size. length bs \<le> unat size \<longrightarrow> pb_encode E m n desc src (pb_ostream_from_buffer size) =
         Ret () ((pb_ostream_from_buffer size)\<lparr>ostate := bs, bytes_written := word_of_nat (length bs)\<rparr>))
    \<and> (\<forall>size. unat size < length bs \<and> length bs < 2 ^ 64 \<longrightarrow>
         (\<exists>u. pb_encode E m n desc src (pb_ostream_from_buffer size) = Fail u))"
proof -
  have sz: "is_sizing PB_OSTREAM_SIZING" by (simp add: is_sizing_def PB_OSTREAM_SIZING_def)
  obtain bs where w: "wire_writer (pb_encode E m n desc src) bs"
    using determinedD [OF det_pb_encode [OF assms(1)] sz assms(2)] by blast
  have count: "bytes_written t = word_of_nat (length bs)"
    using wire_writer.sizing [OF w sz] assms(2) by (auto simp: PB_OSTREAM_SIZING_def)
  have writes: "pb_encode E m n desc src (pb_ostream_from_buffer size) =
      Ret () ((pb_ostream_from_buffer size)\<lparr>ostate := bs, bytes_written := word_of_nat (length bs)\<rparr>)"
    if "length bs \<le> unat size" for size
    using wire_writer.writing [OF w, of "pb_ostream_from_buffer size"] that
    by (simp add: pb_ostream_from_buffer_def)
  have fails: "\<exists>u. pb_encode E m n desc src (pb_ostream_from_buffer size) = Fail u"
    if "unat size < length bs \<and> length bs < 2 ^ 64" for size
    using wire_writer.full [OF w, of "pb_ostream_from_buffer size"] that
    by (simp add: pb_ostream_from_buffer_def)
  show ?thesis using count writes fails by blast
qed

theorem pb_encode_two_pass_witness:
  "\<exists>bs. word_of_nat (length bs) = (4 :: u64) \<and> (\<forall>size. length bs \<le> unat size \<longrightarrow>
      pb_encode plain_eenv sample_memory 1 gdt_cct_NetworkConnectionInfo_fields 4096 (pb_ostream_from_buffer size) =
        Ret () ((pb_ostream_from_buffer size)\<lparr>ostate := bs, bytes_written := word_of_nat (length bs)\<rparr>))"
proof -
  obtain t where "pb_encode plain_eenv sample_memory 1 gdt_cct_NetworkConnectionInfo_fields 4096
      PB_OSTREAM_SIZING = Ret () t" and "bytes_written t = 4" by (rule sample_encodes)
  with pb_encode_two_pass [OF plain_eenv_det this(1)] show ?thesis by metis
qed

text \<open>C15. A submessage is its length as a varint followed by the bytes of the nested \<open>pb_encode\<close>, on
  buffer and on sizing streams alike.\<close>

theorem submessage_is_prefixed:
  assumes "enc_env_det E" and "pb_encode E m n desc src PB_OSTREAM_SIZING = Ret () t"
  shows "\<exists>bs. wire_writer (pb_encode E m n desc src) bs
    \<and> wire_writer (pb_encode_submessage E m n desc src) (varint_bytes (word_of_nat (length bs)) @ bs)"
proof -
  have "is_sizing PB_OSTREAM_SIZING" by (simp add: is_sizing_def PB_OSTREAM_SIZING_def)
  then obtain bs where "wire_writer (pb_encode E m n desc src) bs"
    using determinedD [OF det_pb_encode [OF assms(1)] _ assms(2)] by blast
  then show ?thesis unfolding pb_encode_submessage_def using wire_writer_submessage by blast
qed

theorem submessage_is_prefixed_witness:
  "\<exists>bs. wire_writer (pb_encode plain_eenv sample_memory 1 gdt_cct_NetworkConnectionInfo_fields 4096) bs
    \<and> wire_writer (pb_encode_submessage plain_eenv sample_memory 1 gdt_cct_NetworkConnectionInfo_fields 4096)
        (varint_bytes (word_of_nat (length bs)) @ bs)"
proof -
  obtain t where "pb_encode plain_eenv sample_memory 1 gdt_cct_NetworkConnectionInfo_fields 4096
      PB_OSTREAM_SIZING = Ret () t" by (rule sample_encodes)
  from submessage_is_prefixed [OF plain_eenv_det this] show ?thesis .
qed

section \<open>Base 64\<close>

text \<open>The base-64 encoder needs room for its text and the terminating NUL, and nothing else: it
  fails exactly when the target is not longer than four characters per group of three bytes.
  What it returns is the length of the text as an \<open>int\<close>, so a text of 2 GiB is reported with a
  truncated one.\<close>

theorem base64_encode_room:
  "if targsize \<le> 4 * ((length src + 2) div 3) then fst (f_b64_ntop src targsize) = -1
   else fst (f_b64_ntop src targsize) = as_int (word_of_nat (4 * ((length src + 2) div 3)))
     \<and> length (snd (f_b64_ntop src targsize)) = 4 * ((length src + 2) div 3)"
  using f_b64_ntop_eq [of src targsize] by (simp add: length_text split: if_splits)

text \<open>C34. Base-64 round trip: the text of any byte string below 2 GiB of text is encoded with its
  length as the result, and decoding it into an array with at least one byte more than the data
  gives the data back, and its length. The bound is the one of the \<open>int\<close> both functions return
  and of the \<open>u_int\<close> index of the decoder.\<close>

theorem base64_roundtrip:
  assumes "4 * ((length src + 2) div 3) < textsize" and "length src < targsize" and "targsize \<le> length tgt"
    and "4 * ((length src + 2) div 3) < 2 ^ 31"
  shows "\<exists>txt tgt'. f_b64_ntop src textsize = (int (length txt), txt)
    \<and> length txt = 4 * ((length src + 2) div 3)
    \<and> f_b64_pton txt (Some tgt) targsize = (int (length src), Some tgt') \<and> take (length src) tgt' = src"
proof -
  have "length src \<le> 4 * ((length src + 2) div 3)" by linarith
  with assms(4) have "length src < 2 ^ 31" by linarith
  from f_b64_pton_text [OF assms(2,3) this] obtain tgt' where
    dec: "f_b64_pton (b64_text src) (Some tgt) targsize = (int (length src), Some tgt')"
      "take (length src) tgt' = src" by blast
  have enc: "f_b64_ntop src textsize = (int (length (b64_text src)), b64_text src)"
    using f_b64_ntop_eq [of src textsize] assms(1,4) as_int_small [of "length (b64_text src)"]
    by (simp only: length_text if_True)
  show ?thesis using enc dec by (intro exI [of _ "b64_text src"] exI [of _ tgt']) (simp add: length_text)
qed

theorem base64_roundtrip_witness:
  "\<exists>txt tgt'. f_b64_ntop [77, 97] 5 = (int (length txt), txt) \<and> length txt = 4
    \<and> f_b64_pton txt (Some [0, 0, 0]) 3 = (2, Some tgt') \<and> take 2 tgt' = [77, 97]"
proof -
  have two: "Suc (Suc 0) = 2" by simp
  show ?thesis using base64_roundtrip [of "[77, 97]" 5 3 "[0, 0, 0]"] by (simp add: two)
qed

text \<open>Whitespace in the text does not change what the base-64 decoder does.\<close>

theorem base64_ignores_whitespace: "f_b64_pton (strip src) tgt targsize = f_b64_pton src tgt targsize"
  by (rule f_b64_pton_strip)

text \<open>C35. Whether it succeeds or returns -1, for any text, the base-64 decoder leaves the bytes behind
  the \<open>targsize\<close> bytes it was given as they were, and what it returns is -1 or a count that is at
  most \<open>targsize\<close> (for a target below 2 GiB, whose counts fit an \<open>int\<close>).\<close>

theorem base64_decode_bounds:
  assumes "f_b64_pton src (Some tgt) targsize = (k, t)"
  shows "\<exists>bs. t = Some bs \<and> length bs = length tgt \<and> drop targsize bs = drop targsize tgt
    \<and> (targsize < 2 ^ 31 \<longrightarrow> -1 \<le> k \<and> k \<le> int targsize)"
  using f_b64_pton_ok [OF assms] as_int_bound by (fastforce simp: target_ok_def)

theorem base64_decode_bounds_witness:
  "\<exists>bs. Some [77, 96, 7 :: byte] = Some bs \<and> length bs = length [0, 0, 7 :: byte]
    \<and> drop 2 bs = drop 2 [0, 0, 7] \<and> ((2 :: nat) < 2 ^ 31 \<longrightarrow> -1 \<le> (-1 :: int) \<and> -1 \<le> int 2)"
proof (rule base64_decode_bounds)
  show "f_b64_pton ''TWFu'' (Some [0, 0, 7]) 2 = (-1, Some [77, 96, 7])" by code_simp
qed

section \<open>Required fields\<close>

text \<open>C16. \<open>pb_decode_noinit\<close> succeeds exactly when its field loop comes to an end on a run that decoded
  every required field of the descriptor among the first 64 required ones, and the last
  fixed-count array, if any, has got all its elements. Required fields beyond the first 64 are not
  checked. This is for any descriptor, stream, memory and callbacks; the list \<open>ps\<close> of a
  \<open>field_run\<close> holds the positions of the descriptor the loop decoded, in the order of the input.\<close>

theorem required_fields_decoded:
  "(\<exists>t. pb_decode_noinit E (Suc n) desc dest s = Ret () t) \<longleftrightarrow>
    (\<exists>ps l t. field_run E n (pb_decode_noinit E n) desc (counter_slot s)
        (initial_locals desc dest, loop_start s) ps (l, t)
      \<and> \<not> fixed_count_wrong desc (counter_slot s) l (dmem t)
      \<and> (\<forall>k < num_fields desc. PB_HTYPE (ftype (field_at desc k)) = PB_HTYPE_REQUIRED
          \<and> required_field_index (iter_at desc dest k) < PB_MAX_REQUIRED_FIELDS \<longrightarrow> k \<in> set ps))"
proof -
  have "required_field_index (iter_at desc dest k) = req_before desc k" if "k < num_fields desc" for k
    using required_index_at [OF that] by (simp add: req_before_def required_at_def [abs_def])
  then show ?thesis unfolding noinit_required required_at_def by (simp del: iter_at.simps cong: conj_cong)
qed

text \<open>A message type with a required boolean: the empty message is refused, and a run that reads the
  field makes the message with it succeed.\<close>

theorem required_fields_decoded_witness:
  "(\<nexists>t. pb_decode_noinit plain_denv 1 [PbField 1 0 0 0 1 0 Null_ptr, PB_LAST_FIELD] 4096 (plain_state []) = Ret () t)
    \<and> (\<exists>ps e. field_run plain_denv 0 (pb_decode_noinit plain_denv 0) [PbField 1 0 0 0 1 0 Null_ptr, PB_LAST_FIELD]
        (counter_slot (plain_state [8, 1]))
        (initial_locals [PbField 1 0 0 0 1 0 Null_ptr, PB_LAST_FIELD] 4096, loop_start (plain_state [8, 1])) ps e
      \<and> 0 \<in> set ps)"
proof
  let ?d = "[PbField 1 0 0 0 1 0 Null_ptr, PB_LAST_FIELD]"
  have n: "num_fields ?d = 1" by code_simp
  have r: "PB_HTYPE (ftype (field_at ?d 0)) = PB_HTYPE_REQUIRED" by code_simp
  have i: "required_field_index (iter_at ?d 4096 0) < PB_MAX_REQUIRED_FIELDS" by code_simp
  have empty: "bytes_left (strm (loop_start (plain_state []))) = 0"
    by (simp add: loop_start_def plain_state_def pb_istream_from_buffer_def)
  show "\<nexists>t. pb_decode_noinit plain_denv 1 ?d 4096 (plain_state []) = Ret () t"
    using required_fields_decoded [of plain_denv 0 ?d 4096 "plain_state []"] n r i empty
    by (auto elim: field_run_done)
  have "case pb_decode_noinit plain_denv 1 ?d 4096 (plain_state [8, 1]) of Ret u t \<Rightarrow> True | _ \<Rightarrow> False"
    by code_simp
  then have "\<exists>t. pb_decode_noinit plain_denv (Suc 0) ?d 4096 (plain_state [8, 1]) = Ret () t"
    by (auto split: outcome.splits)
  then show "\<exists>ps e. field_run plain_denv 0 (pb_decode_noinit plain_denv 0) ?d (counter_slot (plain_state [8, 1]))
      (initial_locals ?d 4096, loop_start (plain_state [8, 1])) ps e \<and> 0 \<in> set ps"
    unfolding required_fields_decoded n less_one using r i by blast
qed

end
